(* ===== verification/Prelude.thy ===== *)
theory Prelude
  imports Main "HOL-Library.AList"
begin

text \<open>
  Shared vocabulary of the development: the JavaScript \<open>Map\<close> (an insertion-ordered dictionary),
  instants in milliseconds, thrown errors as values, operations that may throw after they have
  already changed their state, and \<open>Array.prototype.sort\<close> with a comparator. The locale
  \<open>keyed_store\<close> states what the components rely on of a dictionary; the model of \<open>Map\<close> is
  its instance \<open>jsm\<close>.
\<close>

named_theorems map_model \<open>lookup and well-formedness laws of the Map model\<close>
named_theorems js_defs \<open>small definitions of the JavaScript vocabulary, to be unfolded\<close>

section \<open>Instants and errors\<close>

text \<open>
  An instant is the number of milliseconds \<open>Date.now()\<close> returns. Every read of the clock in the
  source is an argument of the model's operation, so two reads within one operation may differ.
\<close>

type_synonym millis = int

text \<open>
  The codes of \<open>packages/mcp-core/src/errors.ts\<close> that the modelled components raise. Messages and
  details of an error are not modelled.
\<close>

datatype error_code =
    POLICY_INVALID | COMMAND_CONFIRMATION_INVALID | SOURCE_CONTROL_CONFIRMATION_INVALID
  | IDEMPOTENCY_KEY_CONFLICT | LIMIT_EXCEEDED | OPERATION_CANCELLED | BROWSER_WORKER_TIMEOUT
  | TASK_SCOPE_REQUIRED | TASK_NOT_FOUND | TASK_OWNERSHIP_MISMATCH | TASK_SUSPENDED | TASK_EXPIRED
  | SITE_ACCESS_AUTHORIZATION_REQUIRED | SITE_ACCESS_GRANT_EXPIRED | SITE_POLICY_NOT_FOUND
  | BROWSER_CAPABILITY_UNSUPPORTED | BROWSER_OPERATION_MODE_UNSUPPORTED
  | TAB_NOT_OWNED | TAB_PROTECTED | NAVIGATION_BLOCKED | PERMISSION_DENIED
  | INVALID_ARGUMENT | EXECUTION_STATE_INVALID | SOURCE_CONTROL_IDEMPOTENCY_CONFLICT
  | SOURCE_CONTROL_CAPABILITY_DENIED | SOURCE_CONTROL_RECONCILIATION_REQUIRED | GIT_PROTECTED_BRANCH
  | BROWSER_CONFIRMATION_INVALID | ACTION_REQUIRES_CONFIRMATION | ACTION_BLOCKED_BY_POLICY | RELAY_PROTOCOL_ERROR
  | INVALID_PATH | BLOCKED_PATH | PATH_OUTSIDE_ALLOWED_ROOTS | PATH_OUTSIDE_WORKSPACE | WRITE_NOT_ALLOWED
  | NOT_A_FILE | NOT_A_DIRECTORY | FILE_NOT_FOUND | WORKSPACE_NOT_FOUND | WORKSPACE_DISABLED

text \<open>What the source throws: an \<open>AppError\<close>, a built-in error or a failed schema parse.\<close>

datatype js_error = AppError error_code | TypeError | RangeError | ZodError | PlainError

type_synonym 'a result = "js_error + 'a"

text \<open>
  An operation of a stateful object: a JavaScript exception does not undo the writes made before it,
  so the state is returned on both outcomes.
\<close>

type_synonym ('s, 'a) op = "'s \<Rightarrow> 'a result \<times> 's"

definition succeeds :: "'a result \<Rightarrow> bool" where
  "succeeds r = (case r of Inl _ \<Rightarrow> False | Inr _ \<Rightarrow> True)"

lemma succeeds_simps [simp]: "succeeds (Inr x)" "\<not> succeeds (Inl e)"
  by (simp_all add: succeeds_def)

lemma succeedsE: "succeeds r \<Longrightarrow> (\<And>x. r = Inr x \<Longrightarrow> P) \<Longrightarrow> P"
  by (cases r) auto

section \<open>Strings\<close>

text \<open>
  A string is a list of code units; a HOL \<open>char\<close> restricts them to the range 0 to 255, where a code
  unit is a code point. \<open>Buffer_from\<close> is its UTF-8 encoding (\<open>Buffer.from\<close>), and \<open>trim\<close>
  strips the white space and line terminators of that range.
\<close>

definition utf8_char :: "char \<Rightarrow> nat list" where
  "utf8_char c = (let n = of_char c in if n < (128 :: nat) then [n] else [192 + n div 64, 128 + n mod 64])"

definition Buffer_from :: "string \<Rightarrow> nat list" where
  "Buffer_from s = concat (map utf8_char s)"

definition is_space :: "char \<Rightarrow> bool" where
  "is_space c = (let n = of_char c in (9 \<le> n \<and> n \<le> 13) \<or> n = (32 :: nat) \<or> n = 160)"

definition trim :: "string \<Rightarrow> string" where
  "trim s = rev (dropWhile is_space (rev (dropWhile is_space s)))"

lemma utf8_char_inj_append:
  "utf8_char c @ xs = utf8_char d @ ys \<Longrightarrow> c = d \<and> xs = ys"
proof -
  assume eq: "utf8_char c @ xs = utf8_char d @ ys"
  have bounds: "of_char c < (256 :: nat)" "of_char d < (256 :: nat)"
    by (simp_all add: of_char_def)
  have "of_char c = (of_char d :: nat) \<and> xs = ys"
  proof (cases "of_char c < (128 :: nat)"; cases "of_char d < (128 :: nat)")
    assume "\<not> of_char c < (128 :: nat)" "\<not> of_char d < (128 :: nat)"
    with eq have "of_char c div 64 = of_char d div (64 :: nat)" "of_char c mod 64 = of_char d mod (64 :: nat)"
      "xs = ys"
      by (auto simp: utf8_char_def Let_def)
    then show ?thesis by (metis div_mult_mod_eq)
  qed (use eq in \<open>auto simp: utf8_char_def Let_def\<close>)
  then show ?thesis by simp
qed

lemma utf8_char_nonempty: "utf8_char c \<noteq> []"
  by (simp add: utf8_char_def Let_def)

lemma Buffer_from_inj [simp]: "Buffer_from s = Buffer_from t \<longleftrightarrow> s = t"
proof
  assume "Buffer_from s = Buffer_from t"
  then show "s = t"
  proof (induction s arbitrary: t)
    case Nil
    then show ?case by (cases t) (auto simp: Buffer_from_def utf8_char_nonempty)
  next
    case (Cons c s)
    then obtain d t' where t: "t = d # t'"
      by (cases t) (auto simp: Buffer_from_def utf8_char_nonempty)
    with Cons.prems have "utf8_char c @ Buffer_from s = utf8_char d @ Buffer_from t'"
      by (simp add: Buffer_from_def)
    with Cons.IH t show ?case by (auto dest: utf8_char_inj_append)
  qed
qed simp

section \<open>The Map object\<close>

text \<open>
  A \<open>Map\<close> is the list of its entries in insertion order: \<open>set\<close> on a present key keeps the
  entry's place, on a new key appends. A loop over the map that deletes the entries it visits
  leaves the others in order.
\<close>

type_synonym ('k, 'v) jsMap = "('k \<times> 'v) list"

definition Map_ok :: "('k, 'v) jsMap \<Rightarrow> bool" where
  "Map_ok m = distinct (map fst m)"

definition Map_get :: "('k, 'v) jsMap \<Rightarrow> 'k \<Rightarrow> 'v option" where
  "Map_get m k = map_of m k"

definition Map_has :: "('k, 'v) jsMap \<Rightarrow> 'k \<Rightarrow> bool" where
  "Map_has m k = (map_of m k \<noteq> None)"

definition Map_set :: "('k, 'v) jsMap \<Rightarrow> 'k \<Rightarrow> 'v \<Rightarrow> ('k, 'v) jsMap" where
  "Map_set m k v = AList.update k v m"

definition Map_delete :: "('k, 'v) jsMap \<Rightarrow> 'k \<Rightarrow> ('k, 'v) jsMap" where
  "Map_delete m k = AList.delete k m"

definition Map_values :: "('k, 'v) jsMap \<Rightarrow> 'v list" where
  "Map_values m = map snd m"

definition Map_keys :: "('k, 'v) jsMap \<Rightarrow> 'k list" where
  "Map_keys m = map fst m"

definition Map_delete_where :: "('v \<Rightarrow> bool) \<Rightarrow> ('k, 'v) jsMap \<Rightarrow> ('k, 'v) jsMap" where
  "Map_delete_where P m = filter (\<lambda>e. \<not> P (snd e)) m"

text \<open>\<open>new Map(entries)\<close>: of several entries with one key the last value stays.\<close>

definition Map_from :: "('k \<times> 'v) list \<Rightarrow> ('k, 'v) jsMap" where
  "Map_from es = fold (\<lambda>e m. Map_set m (fst e) (snd e)) es []"

lemma Map_ok_Nil [simp, map_model]: "Map_ok []"
  by (simp add: Map_ok_def)

lemma Map_get_Nil [simp, map_model]: "Map_get [] k = None"
  by (simp add: Map_get_def)

lemma Map_get_set [map_model]: "Map_get (Map_set m k v) k' = (if k' = k then Some v else Map_get m k')"
  by (simp add: Map_get_def Map_set_def update_conv')

lemma Map_get_delete [map_model]: "Map_get (Map_delete m k) k' = (if k' = k then None else Map_get m k')"
  by (simp add: Map_get_def Map_delete_def delete_conv')

lemma Map_ok_set [map_model]: "Map_ok m \<Longrightarrow> Map_ok (Map_set m k v)"
  by (simp add: Map_ok_def Map_set_def distinct_update)

lemma Map_ok_delete [map_model]: "Map_ok m \<Longrightarrow> Map_ok (Map_delete m k)"
  by (simp add: Map_ok_def Map_delete_def distinct_delete)

lemma Map_has_get: "Map_has m k = (Map_get m k \<noteq> None)"
  by (simp add: Map_has_def Map_get_def)

lemma Map_get_delete_where [map_model]:
  assumes "Map_ok m"
  shows "Map_get (Map_delete_where P m) k =
    (case Map_get m k of None \<Rightarrow> None | Some v \<Rightarrow> if P v then None else Some v)"
  using assms
proof (induction m)
  case (Cons e m)
  have "k \<notin> fst ` set m \<Longrightarrow> map_of (filter (\<lambda>e. \<not> P (snd e)) m) k = None"
    by (auto simp: map_of_eq_None_iff)
  with Cons show ?case
    by (cases e) (auto simp: Map_ok_def Map_get_def Map_delete_where_def map_of_eq_None_iff
        split: option.splits)
qed (simp add: Map_get_def Map_delete_where_def)

lemma Map_ok_delete_where [map_model]: "Map_ok m \<Longrightarrow> Map_ok (Map_delete_where P m)"
  by (induction m) (auto simp: Map_ok_def Map_delete_where_def)

lemma Map_delete_where_subset: "set (Map_delete_where P m) \<subseteq> set m"
  by (auto simp: Map_delete_where_def)

text \<open>The source's loop, one \<open>delete\<close> per visited entry, computes the filtered map.\<close>

lemma delete_head_filter: "k \<notin> fst ` set m \<Longrightarrow> Map_delete m k = m"
  by (simp add: Map_delete_def)

lemma Map_delete_where_loop:
  assumes "Map_ok m"
  shows "fold (\<lambda>e acc. if P (snd e) then Map_delete acc (fst e) else acc) m m = Map_delete_where P m"
proof -
  let ?f = "\<lambda>e acc. if P (snd e) then Map_delete acc (fst e) else acc"
  have "distinct (map fst (pre @ ys)) \<Longrightarrow> fold ?f ys (pre @ ys) = pre @ Map_delete_where P ys" for pre ys
  proof (induction ys arbitrary: pre)
    case Nil
    then show ?case by (simp add: Map_delete_where_def)
  next
    case (Cons e ys)
    have del: "Map_delete (pre @ e # ys) (fst e) = pre @ ys"
      using Cons.prems
      by (auto simp: Map_delete_def AList.delete_eq filter_id_conv case_prod_unfold image_iff)
    have "distinct (map fst (pre @ ys))" "distinct (map fst ((pre @ [e]) @ ys))"
      using Cons.prems by auto
    with Cons.IH [of pre] Cons.IH [of "pre @ [e]"] del show ?case
      by (simp add: Map_delete_where_def)
  qed
  from this [of "[]" m] assms show ?thesis by (simp add: Map_ok_def)
qed

lemma Map_get_in_values: "Map_get m k = Some v \<Longrightarrow> v \<in> set (Map_values m)"
  by (force simp: Map_get_def Map_values_def dest: map_of_SomeD)

lemma Map_get_in_set: "Map_get m k = Some v \<Longrightarrow> (k, v) \<in> set m"
  by (simp add: Map_get_def map_of_SomeD)

lemma Map_in_set_get: "Map_ok m \<Longrightarrow> (k, v) \<in> set m \<Longrightarrow> Map_get m k = Some v"
  by (simp add: Map_get_def Map_ok_def map_of_is_SomeI)

lemma Map_values_get: "Map_ok m \<Longrightarrow> v \<in> set (Map_values m) \<Longrightarrow> \<exists>k. Map_get m k = Some v"
  using Map_in_set_get by (fastforce simp: Map_values_def)

lemma Map_set_set: "set (Map_set m k v) \<subseteq> insert (k, v) (set m)"
  by (induction m) (auto simp: Map_set_def)

lemma values_set: "set (Map_values (Map_set m k e)) \<subseteq> insert e (set (Map_values m))"
  using Map_set_set [of m k e] by (force simp: Map_values_def)

lemma values_delete: "set (Map_values (Map_delete m k)) \<subseteq> set (Map_values m)"
  by (auto simp: Map_values_def Map_delete_def AList.delete_eq)

lemma length_Map_set: "length (Map_set m k v) = (if Map_has m k then length m else Suc (length m))"
  by (induction m) (auto simp: Map_set_def Map_has_def)

lemma length_Map_delete_where: "length (Map_delete_where P m) \<le> length m"
  by (simp add: Map_delete_where_def)

lemma Map_ok_fold_set: "Map_ok m \<Longrightarrow> Map_ok (fold (\<lambda>e m. Map_set m (fst e) (snd e)) es m)"
  by (induction es arbitrary: m) (auto simp: Map_ok_set)

lemma Map_ok_from [simp, map_model]: "Map_ok (Map_from es)"
  by (simp add: Map_from_def Map_ok_fold_set)

lemma Map_get_fold_set:
  "Map_get (fold (\<lambda>e m. Map_set m (fst e) (snd e)) es m) k =
    (case map_of (rev es) k of None \<Rightarrow> Map_get m k | Some v \<Rightarrow> Some v)"
  by (induction es arbitrary: m) (auto simp: Map_get_set map_add_def split: option.splits)

lemma Map_get_from [map_model]: "Map_get (Map_from es) k = map_of (rev es) k"
  by (simp add: Map_from_def Map_get_fold_set split: option.splits)

subsection \<open>What a component relies on of a dictionary\<close>

locale keyed_store =
  fixes empty :: "'m"
    and get :: "'m \<Rightarrow> 'k \<Rightarrow> 'v option"
    and put :: "'m \<Rightarrow> 'k \<Rightarrow> 'v \<Rightarrow> 'm"
    and del :: "'m \<Rightarrow> 'k \<Rightarrow> 'm"
    and valid :: "'m \<Rightarrow> bool"
  assumes get_empty: "get empty k = None"
    and get_put: "get (put m k v) k' = (if k' = k then Some v else get m k')"
    and get_del: "get (del m k) k' = (if k' = k then None else get m k')"
    and valid_empty: "valid empty"
    and valid_put: "valid m \<Longrightarrow> valid (put m k v)"
    and valid_del: "valid m \<Longrightarrow> valid (del m k)"
begin

text \<open>Deleting a list of keys one after the other.\<close>

lemma get_dels: "get (fold (\<lambda>k m. del m k) ks m) k' = (if k' \<in> set ks then None else get m k')"
  by (induction ks arbitrary: m) (auto simp: get_del)

lemma valid_dels: "valid m \<Longrightarrow> valid (fold (\<lambda>k m. del m k) ks m)"
  by (induction ks arbitrary: m) (auto simp: valid_del)

text \<open>Storing one value under a list of keys, keeping the entries already there.\<close>

lemma get_put_new:
  "get (fold (\<lambda>k m. if get m k = None then put m k v else m) ks m) k' =
    (case get m k' of Some w \<Rightarrow> Some w | None \<Rightarrow> if k' \<in> set ks then Some v else None)"
  by (induction ks arbitrary: m) (auto simp: get_put split: option.splits)

lemma valid_put_new: "valid m \<Longrightarrow> valid (fold (\<lambda>k m. if get m k = None then put m k v else m) ks m)"
  by (induction ks arbitrary: m) (auto simp: valid_put)

end

interpretation jsm: keyed_store "[] :: ('k, 'v) jsMap" Map_get Map_set Map_delete Map_ok
  by unfold_locales (simp_all add: map_model)

section \<open>Arrays\<close>

text \<open>
  \<open>Array.prototype.sort\<close> with a comparator is a stable sort: an element moves left past the
  elements the comparator puts strictly after it.
\<close>

fun insert_cmp :: "('a \<Rightarrow> 'a \<Rightarrow> int) \<Rightarrow> 'a \<Rightarrow> 'a list \<Rightarrow> 'a list" where
  "insert_cmp cmp x [] = [x]"
| "insert_cmp cmp x (y # ys) = (if cmp x y \<le> 0 then x # y # ys else y # insert_cmp cmp x ys)"

definition sort_cmp :: "('a \<Rightarrow> 'a \<Rightarrow> int) \<Rightarrow> 'a list \<Rightarrow> 'a list" where
  "sort_cmp cmp xs = foldr (insert_cmp cmp) xs []"

lemma sort_cmp_simps [simp]:
  "sort_cmp cmp [] = []"
  "sort_cmp cmp (x # xs) = insert_cmp cmp x (sort_cmp cmp xs)"
  by (simp_all add: sort_cmp_def)

lemma set_insert_cmp [simp]: "set (insert_cmp cmp x ys) = insert x (set ys)"
  by (induction ys) auto

lemma set_sort_cmp [simp]: "set (sort_cmp cmp xs) = set xs"
  by (induction xs) auto

lemma length_insert_cmp [simp]: "length (insert_cmp cmp x ys) = Suc (length ys)"
  by (induction ys) auto

lemma length_sort_cmp [simp]: "length (sort_cmp cmp xs) = length xs"
  by (induction xs) auto

lemma distinct_map_insert_cmp:
  "distinct (map f (insert_cmp cmp x ys)) = (f x \<notin> f ` set ys \<and> distinct (map f ys))"
  by (induction ys) auto

lemma distinct_map_sort_cmp [simp]: "distinct (map f (sort_cmp cmp xs)) = distinct (map f xs)"
  by (induction xs) (auto simp: distinct_map_insert_cmp)

lemma distinct_sort_cmp [simp]: "distinct (sort_cmp cmp xs) = distinct xs"
  using distinct_map_sort_cmp [of "\<lambda>x. x" cmp xs] by simp

text \<open>The first element of a sorted array is not preceded by any other element.\<close>

lemma insert_cmp_sorted:
  assumes refl: "\<And>x y. cmp x y \<le> 0 \<or> cmp y x \<le> 0"
    and trans: "\<And>x y z. cmp x y \<le> 0 \<Longrightarrow> cmp y z \<le> 0 \<Longrightarrow> cmp x z \<le> 0"
  shows "sorted_wrt (\<lambda>a b. cmp a b \<le> 0) ys \<Longrightarrow> sorted_wrt (\<lambda>a b. cmp a b \<le> 0) (insert_cmp cmp x ys)"
proof (induction ys)
  case (Cons y ys)
  show ?case
  proof (cases "cmp x y \<le> 0")
    case True
    with Cons.prems show ?thesis using trans [of x y] by auto
  next
    case False
    with refl have "cmp y x \<le> 0" by blast
    with False Cons show ?thesis by auto
  qed
qed simp

lemma sort_cmp_sorted:
  assumes "\<And>x y. cmp x y \<le> 0 \<or> cmp y x \<le> 0"
    and "\<And>x y z. cmp x y \<le> 0 \<Longrightarrow> cmp y z \<le> 0 \<Longrightarrow> cmp x z \<le> 0"
  shows "sorted_wrt (\<lambda>a b. cmp a b \<le> 0) (sort_cmp cmp xs)"
proof (induction xs)
  case (Cons x xs)
  then show ?case
    using insert_cmp_sorted [OF assms, where ys = "sort_cmp cmp xs" and x = x] by simp
qed simp

text \<open>\<open>map\<close> with a function that may throw: the first error ends it.\<close>

fun mapM :: "('a \<Rightarrow> 'e + 'b) \<Rightarrow> 'a list \<Rightarrow> 'e + 'b list" where
  "mapM f [] = Inr []"
| "mapM f (x # xs) =
    (case f x of Inl e \<Rightarrow> Inl e | Inr y \<Rightarrow> (case mapM f xs of Inl e \<Rightarrow> Inl e | Inr ys \<Rightarrow> Inr (y # ys)))"

lemma mapM_parse:
  "mapM (\<lambda>x. if P (f x) then Inr (f x) else Inl e) xs =
    (if list_all (\<lambda>x. P (f x)) xs then Inr (map f xs) else Inl e)"
  by (induction xs) auto

section \<open>The Set object\<close>

text \<open>A \<open>Set\<close> is the list of its members in insertion order.\<close>

definition Set_add :: "'a list \<Rightarrow> 'a \<Rightarrow> 'a list" where
  "Set_add s x = (if x \<in> set s then s else s @ [x])"

definition Set_from :: "'a list \<Rightarrow> 'a list" where
  "Set_from xs = fold (\<lambda>x s. Set_add s x) xs []"

lemma set_Set_add [simp]: "set (Set_add s x) = insert x (set s)"
  by (auto simp: Set_add_def)

lemma set_fold_Set_add [simp]: "set (fold (\<lambda>x s. Set_add s x) xs s) = set s \<union> set xs"
  by (induction xs arbitrary: s) auto

lemma distinct_fold_Set_add: "distinct s \<Longrightarrow> distinct (fold (\<lambda>x s. Set_add s x) xs s)"
  by (induction xs arbitrary: s) (auto simp: Set_add_def)

lemma set_Set_from [simp]: "set (Set_from xs) = set xs"
  by (simp add: Set_from_def)

lemma distinct_Set_from [simp]: "distinct (Set_from xs)"
  by (simp add: Set_from_def distinct_fold_Set_add)

text \<open>
  Sorting a \<open>Set\<close> by a comparator that is a linear order on its members gives one array for each
  set of members, whatever their order of insertion.
\<close>

definition linear_on :: "'a set \<Rightarrow> ('a \<Rightarrow> 'a \<Rightarrow> int) \<Rightarrow> bool" where
  "linear_on A cmp = ((\<forall>x \<in> A. \<forall>y \<in> A. (cmp x y \<le> 0 \<or> cmp y x \<le> 0) \<and> (cmp x y \<le> 0 \<and> cmp y x \<le> 0 \<longrightarrow> x = y)) \<and>
     (\<forall>x \<in> A. \<forall>y \<in> A. \<forall>z \<in> A. cmp x y \<le> 0 \<and> cmp y z \<le> 0 \<longrightarrow> cmp x z \<le> 0))"

lemma linear_on_total: "linear_on A cmp \<Longrightarrow> x \<in> A \<Longrightarrow> y \<in> A \<Longrightarrow> \<not> cmp x y \<le> 0 \<Longrightarrow> cmp y x \<le> 0"
  unfolding linear_on_def by blast

lemma linear_on_trans:
  "linear_on A cmp \<Longrightarrow> x \<in> A \<Longrightarrow> y \<in> A \<Longrightarrow> z \<in> A \<Longrightarrow> cmp x y \<le> 0 \<Longrightarrow> cmp y z \<le> 0 \<Longrightarrow> cmp x z \<le> 0"
  unfolding linear_on_def by blast

lemma insert_cmp_sorted_on:
  assumes "linear_on A cmp" and "x \<in> A" and "set ys \<subseteq> A"
  shows "sorted_wrt (\<lambda>a b. cmp a b \<le> 0) ys \<Longrightarrow> sorted_wrt (\<lambda>a b. cmp a b \<le> 0) (insert_cmp cmp x ys)"
  using assms(3)
proof (induction ys)
  case (Cons y ys)
  show ?case
  proof (cases "cmp x y \<le> 0")
    case True
    have "cmp x z \<le> 0" if "z \<in> set ys" for z
    proof (rule linear_on_trans [OF assms(1,2) _ _ True])
      show "y \<in> A" "z \<in> A" "cmp y z \<le> 0" using Cons.prems that by auto
    qed
    with True Cons.prems show ?thesis by simp
  next
    case False
    with Cons.prems linear_on_total [OF assms(1,2)] have "cmp y x \<le> 0" by simp
    with False Cons show ?thesis by auto
  qed
qed simp

lemma sort_cmp_sorted_on:
  "linear_on A cmp \<Longrightarrow> set xs \<subseteq> A \<Longrightarrow> sorted_wrt (\<lambda>a b. cmp a b \<le> 0) (sort_cmp cmp xs)"
proof (induction xs)
  case (Cons x xs)
  then show ?case using insert_cmp_sorted_on [of A cmp x "sort_cmp cmp xs"] by simp
qed simp

lemma sorted_wrt_unique:
  assumes "linear_on A cmp" and "set xs \<subseteq> A"
    and "sorted_wrt (\<lambda>a b. cmp a b \<le> 0) xs" "sorted_wrt (\<lambda>a b. cmp a b \<le> 0) ys"
    and "distinct xs" "distinct ys" "set xs = set ys"
  shows "xs = ys"
  using assms(2-)
proof (induction xs arbitrary: ys)
  case (Cons x xs)
  then obtain y ys' where ys: "ys = y # ys'" by (cases ys) auto
  have "x = y"
  proof (rule ccontr)
    assume "x \<noteq> y"
    with Cons.prems ys have "x \<in> set ys'" "y \<in> set xs" by auto
    with Cons.prems ys have "cmp y x \<le> 0" "cmp x y \<le> 0" "x \<in> A" "y \<in> A" by auto
    with assms(1) \<open>x \<noteq> y\<close> show False unfolding linear_on_def by blast
  qed
  moreover have "set xs = set ys'" using Cons.prems \<open>x = y\<close> by (auto simp: ys)
  ultimately show ?case using Cons by (simp add: ys)
qed simp

lemma sort_set_unique:
  assumes "linear_on (set xs \<union> set ys) cmp"
  shows "sort_cmp cmp (Set_from xs) = sort_cmp cmp (Set_from ys) \<longleftrightarrow> set xs = set ys"
proof
  assume "sort_cmp cmp (Set_from xs) = sort_cmp cmp (Set_from ys)"
  then have "set (sort_cmp cmp (Set_from xs)) = set (sort_cmp cmp (Set_from ys))" by simp
  then show "set xs = set ys" by simp
next
  assume eq: "set xs = set ys"
  show "sort_cmp cmp (Set_from xs) = sort_cmp cmp (Set_from ys)"
    by (rule sorted_wrt_unique [OF assms])
      (use eq in \<open>simp_all add: sort_cmp_sorted_on [OF assms]\<close>)
qed

text \<open>The order of \<open>sort()\<close>: by code units.\<close>

fun cmp_units :: "string \<Rightarrow> string \<Rightarrow> int" where
  "cmp_units [] [] = 0"
| "cmp_units [] (d # ds) = - 1"
| "cmp_units (c # cs) [] = 1"
| "cmp_units (c # cs) (d # ds) =
    (if of_char c < (of_char d :: nat) then - 1 else if of_char d < (of_char c :: nat) then 1 else cmp_units cs ds)"

lemma sort_cmp_id: "sorted_wrt (\<lambda>a b. cmp a b \<le> 0) xs \<Longrightarrow> sort_cmp cmp xs = xs"
proof (induction xs)
  case (Cons x xs)
  then show ?case by (cases xs) auto
qed simp

lemma cmp_units_total: "\<not> cmp_units s t \<le> 0 \<Longrightarrow> cmp_units t s \<le> 0"
  by (induction s t rule: cmp_units.induct) (auto split: if_splits)

lemma cmp_units_antisym: "cmp_units s t \<le> 0 \<Longrightarrow> cmp_units t s \<le> 0 \<Longrightarrow> s = t"
proof (induction s t rule: cmp_units.induct)
  case (4 c cs d ds)
  then have "of_char c = (of_char d :: nat)" by (auto split: if_splits)
  with 4 show ?case by (auto split: if_splits)
qed auto

lemma cmp_units_Cons_le:
  "cmp_units (c # cs) (d # ds) \<le> 0 \<longleftrightarrow> of_char c < (of_char d :: nat) \<or> c = d \<and> cmp_units cs ds \<le> 0"
proof -
  have "of_char c = (of_char d :: nat) \<longleftrightarrow> c = d" by simp
  then show ?thesis by auto
qed

lemma cmp_units_trans: "cmp_units s t \<le> 0 \<Longrightarrow> cmp_units t u \<le> 0 \<Longrightarrow> cmp_units s u \<le> 0"
proof (induction s t arbitrary: u rule: cmp_units.induct)
  case (1 u)
  then show ?case by simp
next
  case (2 d ds u)
  then show ?case by (cases u) auto
next
  case (4 c cs d ds u)
  show ?case
  proof (cases u)
    case (Cons e es)
    have "of_char c < (of_char d :: nat) \<or> c = d \<and> cmp_units cs ds \<le> 0"
      "of_char d < (of_char e :: nat) \<or> d = e \<and> cmp_units ds es \<le> 0"
      using "4.prems" unfolding Cons cmp_units_Cons_le by blast+
    moreover have "cmp_units cs es \<le> 0" if "c = d" "d = e" "cmp_units cs ds \<le> 0" "cmp_units ds es \<le> 0"
      using "4.IH" [of es] that by simp
    ultimately show ?thesis unfolding Cons cmp_units_Cons_le by auto
  qed (use "4.prems" in simp)
qed auto

lemma cmp_units_linear: "linear_on A cmp_units"
  unfolding linear_on_def using cmp_units_total cmp_units_antisym cmp_units_trans by metis

lemma sort_units_twice [simp]: "sort_cmp cmp_units (sort_cmp cmp_units xs) = sort_cmp cmp_units xs"
  by (intro sort_cmp_id sort_cmp_sorted_on [OF cmp_units_linear subset_UNIV])

subsection \<open>Comparators\<close>

text \<open>What is documented of a comparator: the sign turns with the order of the arguments, and the order is transitive.\<close>

definition comparison :: "('a \<Rightarrow> 'a \<Rightarrow> int) \<Rightarrow> bool" where
  "comparison cmp = ((\<forall>x y. sgn (cmp x y) = - sgn (cmp y x)) \<and> (\<forall>x y z. cmp x y \<le> 0 \<and> cmp y z \<le> 0 \<longrightarrow> cmp x z \<le> 0))"

text \<open>\<open>a || b\<close> on numbers.\<close>

definition or_number :: "int \<Rightarrow> int \<Rightarrow> int" where
  "or_number a b = (if a \<noteq> 0 then a else b)"

lemma comparison_total: "comparison cmp \<Longrightarrow> \<not> cmp x y \<le> 0 \<Longrightarrow> cmp y x \<le> 0"
  unfolding comparison_def by (metis linorder_not_less neg_0_less_iff_less not_less_iff_gr_or_eq sgn_greater sgn_less)

lemma comparison_trans: "comparison cmp \<Longrightarrow> cmp x y \<le> 0 \<Longrightarrow> cmp y z \<le> 0 \<Longrightarrow> cmp x z \<le> 0"
  unfolding comparison_def by blast

lemma comparison_zero: "comparison cmp \<Longrightarrow> cmp x y = 0 \<longleftrightarrow> cmp y x = 0"
  unfolding comparison_def by (metis neg_equal_0_iff_equal sgn_0_0)

lemma comparison_antisym: "comparison cmp \<Longrightarrow> cmp x y \<le> 0 \<Longrightarrow> cmp y x \<le> 0 \<Longrightarrow> cmp x y = 0"
proof -
  assume "comparison cmp" "cmp x y \<le> 0" "cmp y x \<le> 0"
  moreover from this have "sgn (cmp x y) = - sgn (cmp y x)" unfolding comparison_def by blast
  ultimately show "cmp x y = 0" by (auto simp: sgn_if split: if_splits)
qed

lemma comparison_by: "comparison cmp \<Longrightarrow> comparison (\<lambda>x y. cmp (f x) (f y))"
  unfolding comparison_def by blast

lemma comparison_flip: "comparison cmp \<Longrightarrow> comparison (\<lambda>x y. cmp y x)"
  unfolding comparison_def by (metis add.inverse_inverse)

lemma comparison_minus: "comparison (\<lambda>x y. f x - f y :: int)"
  by (auto simp: comparison_def sgn_if)

lemma comparison_or:
  assumes "comparison f" "comparison g"
  shows "comparison (\<lambda>x y. or_number (f x y) (g x y))"
  unfolding comparison_def
proof (intro conjI allI impI)
  fix x y
  show "sgn (or_number (f x y) (g x y)) = - sgn (or_number (f y x) (g y x))"
  proof (cases "f x y = 0")
    case True
    then have "f y x = 0" using comparison_zero [OF assms(1), of x y] by simp
    moreover have "sgn (g x y) = - sgn (g y x)" using assms(2) unfolding comparison_def by blast
    ultimately show ?thesis using True by (simp add: or_number_def)
  next
    case False
    then have "f y x \<noteq> 0" using comparison_zero [OF assms(1), of x y] by simp
    moreover have "sgn (f x y) = - sgn (f y x)" using assms(1) unfolding comparison_def by blast
    ultimately show ?thesis using False by (simp add: or_number_def)
  qed
next
  fix x y z
  assume le: "or_number (f x y) (g x y) \<le> 0 \<and> or_number (f y z) (g y z) \<le> 0"
  then have "f x y \<le> 0" "f y z \<le> 0" by (auto simp: or_number_def split: if_splits)
  then have xz: "f x z \<le> 0" using comparison_trans [OF assms(1)] by blast
  show "or_number (f x z) (g x z) \<le> 0"
  proof (cases "f x z = 0")
    case True
    then have "f z x \<le> 0" using comparison_zero [OF assms(1), of x z] by simp
    with \<open>f x y \<le> 0\<close> \<open>f y z \<le> 0\<close> have "f y x \<le> 0" "f z y \<le> 0"
      using comparison_trans [OF assms(1), of y z x] comparison_trans [OF assms(1), of z x y] by blast+
    then have "f x y = 0" "f y z = 0"
      using \<open>f x y \<le> 0\<close> \<open>f y z \<le> 0\<close> comparison_antisym [OF assms(1)] by blast+
    with le True show ?thesis using comparison_trans [OF assms(2)] by (auto simp: or_number_def)
  qed (use xz in \<open>simp add: or_number_def\<close>)
qed

lemma sort_first:
  assumes "comparison cmp" "sort_cmp cmp xs = m # rest"
  shows "m \<in> set xs \<and> (\<forall>x \<in> set xs. cmp m x \<le> 0)"
proof -
  have total: "cmp x y \<le> 0 \<or> cmp y x \<le> 0" for x y using comparison_total [OF assms(1)] by blast
  have "sorted_wrt (\<lambda>a b. cmp a b \<le> 0) (m # rest)"
    using sort_cmp_sorted [of cmp xs, OF total comparison_trans [OF assms(1)]] assms(2) by simp
  moreover have "set xs = set (m # rest)" using set_sort_cmp [of cmp xs] assms(2) by simp
  ultimately show ?thesis using total [of m m] by auto
qed

lemma sort_Nil [simp]: "sort_cmp cmp xs = [] \<longleftrightarrow> xs = []"
  by (metis length_0_conv length_sort_cmp)

lemma mapM_members: "mapM f xs = Inr ys \<Longrightarrow> y \<in> set ys \<longleftrightarrow> (\<exists>x \<in> set xs. f x = Inr y)"
proof (induction xs arbitrary: ys)
  case (Cons x xs)
  then obtain z zs where "f x = Inr z" "mapM f xs = Inr zs" "ys = z # zs" by (auto split: sum.splits)
  with Cons.IH show ?case by auto
qed simp

section \<open>Transition systems\<close>

text \<open>What a component relies on of an invariant: it holds at the start and every step keeps it.\<close>

locale transition_system =
  fixes step :: "'s \<Rightarrow> 's \<Rightarrow> bool"
    and init :: 's
    and inv :: "'s \<Rightarrow> bool"
  assumes inv_init: "inv init"
    and inv_step: "inv s \<Longrightarrow> step s s' \<Longrightarrow> inv s'"
begin

lemma reachable_inv: "step\<^sup>*\<^sup>* init s \<Longrightarrow> inv s"
  by (induction rule: rtranclp_induct) (auto intro: inv_init inv_step)

end

end
