(* ===== verification/Confirmation.thy ===== *)
theory Confirmation
  imports Prelude
begin

text \<open>
  One-shot confirmations, and the registry of shell-command confirmations
  (\<open>services/workspace-agent/src/shell/confirmation.ts\<close>). Three registries of the program issue an
  identifier bound to an operation and redeem it at most once, before it expires and only for the same
  operation: this one, that of typed source-control confirmations and that of private-site confirmations. The
  locale \<open>one_shot\<close> states the contract and derives what a whole session of issues and redemptions
  can do; each registry is an instance of it.
\<close>

section \<open>The contract\<close>

text \<open>
  \<open>outstanding r i\<close> is what is stored for identifier \<open>i\<close>, the \<open>key\<close> of the operation it was issued for
  and the expiry instant; \<open>same\<close> compares it with the operation a redemption is for. An operation
  reads the clock twice: once to prune expired entries, once for its own check or expiry instant.
\<close>

datatype ('i, 'b) conf_call =
    Issue millis millis 'i 'b
  | Redeem millis millis 'i 'b

fun conf_run :: "(millis \<Rightarrow> millis \<Rightarrow> 'i \<Rightarrow> 'b \<Rightarrow> ('r, 'x) op) \<Rightarrow>
    (millis \<Rightarrow> millis \<Rightarrow> 'i \<Rightarrow> 'b \<Rightarrow> ('r, 'y) op) \<Rightarrow> ('i, 'b) conf_call list \<Rightarrow> 'r \<Rightarrow>
    (('i, 'b) conf_call \<times> bool) list \<times> 'r" where
  "conf_run issue redeem [] r = ([], r)"
| "conf_run issue redeem (Issue t u i b # cs) r =
    (let (res, r') = issue t u i b r; (log, r'') = conf_run issue redeem cs r'
     in ((Issue t u i b, succeeds res) # log, r''))"
| "conf_run issue redeem (Redeem t u i b # cs) r =
    (let (res, r') = redeem t u i b r; (log, r'') = conf_run issue redeem cs r'
     in ((Redeem t u i b, succeeds res) # log, r''))"

definition is_redeemed :: "'i \<Rightarrow> ('i, 'b) conf_call \<times> bool \<Rightarrow> bool" where
  "is_redeemed i e = (case e of (Redeem _ _ j _, ok) \<Rightarrow> j = i \<and> ok | _ \<Rightarrow> False)"

definition is_issued :: "'i \<Rightarrow> ('i, 'b) conf_call \<times> bool \<Rightarrow> bool" where
  "is_issued i e = (case e of (Issue _ _ j _, ok) \<Rightarrow> j = i \<and> ok | _ \<Rightarrow> False)"

definition redemptions :: "'i \<Rightarrow> (('i, 'b) conf_call \<times> bool) list \<Rightarrow> nat" where
  "redemptions i log = length (filter (is_redeemed i) log)"

definition issues :: "'i \<Rightarrow> (('i, 'b) conf_call \<times> bool) list \<Rightarrow> nat" where
  "issues i log = length (filter (is_issued i) log)"

locale one_shot =
  fixes valid :: "'r \<Rightarrow> bool"
    and outstanding :: "'r \<Rightarrow> 'i \<Rightarrow> ('c \<times> millis) option"
    and issue :: "millis \<Rightarrow> millis \<Rightarrow> 'i \<Rightarrow> 'b \<Rightarrow> ('r, 'x) op"
    and redeem :: "millis \<Rightarrow> millis \<Rightarrow> 'i \<Rightarrow> 'b \<Rightarrow> ('r, 'y) op"
    and same :: "'c \<Rightarrow> 'b \<Rightarrow> bool"
    and key :: "'b \<Rightarrow> 'c"
    and ttl :: millis
  assumes valid_issue: "valid r \<Longrightarrow> issue t u i b r = (res, r') \<Longrightarrow> valid r'"
    and valid_redeem: "valid r \<Longrightarrow> redeem t u i b r = (out, r') \<Longrightarrow> valid r'"
    and issue_stores: "valid r \<Longrightarrow> issue t u i b r = (Inr x, r') \<Longrightarrow> outstanding r' i = Some (key b, u + ttl)"
    and issue_frame: "valid r \<Longrightarrow> issue t u i b r = (res, r') \<Longrightarrow> j \<noteq> i \<or> \<not> succeeds res \<Longrightarrow>
          outstanding r' j = None \<or> outstanding r' j = outstanding r j"
    and redeem_sound: "valid r \<Longrightarrow> redeem t u i b r = (Inr y, r') \<Longrightarrow>
          \<exists>b' e. outstanding r i = Some (b', e) \<and> t < e \<and> same b' b"
    and redeem_complete: "valid r \<Longrightarrow> outstanding r i = Some (b', e) \<Longrightarrow> t < e \<Longrightarrow> u < e \<Longrightarrow>
          same b' b \<Longrightarrow> succeeds (fst (redeem t u i b r))"
    and redeem_consumes: "valid r \<Longrightarrow> redeem t u i b r = (Inr y, r') \<Longrightarrow> outstanding r' i = None"
    and redeem_frame: "valid r \<Longrightarrow> redeem t u i b r = (out, r') \<Longrightarrow>
          outstanding r' j = None \<or> outstanding r' j = outstanding r j"
begin

text \<open>What is left outstanding after a run was issued in it or was there before.\<close>

lemma valid_conf_run: "valid r \<Longrightarrow> conf_run issue redeem cs r = (log, r') \<Longrightarrow> valid r'"
proof (induction cs arbitrary: r log)
  case (Cons c cs)
  then show ?case
    by (cases c) (auto split: prod.splits dest: valid_issue valid_redeem)
qed simp

text \<open>
  One identifier is redeemed at most as often as it was issued, plus once if it was outstanding at
  the start: the token left over accounts for the slack.
\<close>

lemma redemptions_le_issues_gen:
  assumes "valid r" and "conf_run issue redeem cs r = (log, r')"
  shows "redemptions i log + (if outstanding r' i = None then 0 else 1)
    \<le> issues i log + (if outstanding r i = None then 0 else 1)"
  using assms
proof (induction cs arbitrary: r log)
  case Nil
  then show ?case by (simp add: redemptions_def issues_def)
next
  case (Cons c cs)
  show ?case
  proof (cases c)
    case (Issue t u j b)
    obtain res r1 where step: "issue t u j b r = (res, r1)" by fastforce
    obtain log1 where rest: "conf_run issue redeem cs r1 = (log1, r')"
      and log: "log = (c, succeeds res) # log1"
      using Cons.prems Issue step by (auto split: prod.splits)
    have v1: "valid r1" using Cons.prems step valid_issue by blast
    have "(if outstanding r1 i = None then 0 else 1)
        \<le> (if j = i \<and> succeeds res then 1 else 0) + (if outstanding r i = None then 0 else (1::nat))"
      using issue_frame [OF Cons.prems(1) step, of i] by auto
    moreover have "redemptions i log = redemptions i log1"
      "issues i log = (if j = i \<and> succeeds res then 1 else 0) + issues i log1"
      using Issue log by (auto simp: redemptions_def issues_def is_redeemed_def is_issued_def)
    ultimately show ?thesis using Cons.IH [OF v1 rest] by linarith
  next
    case (Redeem t u j b)
    obtain res r1 where step: "redeem t u j b r = (res, r1)" by fastforce
    obtain log1 where rest: "conf_run issue redeem cs r1 = (log1, r')"
      and log: "log = (c, succeeds res) # log1"
      using Cons.prems Redeem step by (auto split: prod.splits)
    have v1: "valid r1" using Cons.prems step valid_redeem by blast
    have "(if j = i \<and> succeeds res then 1 else 0) + (if outstanding r1 i = None then 0 else 1)
        \<le> (if outstanding r i = None then 0 else (1::nat))"
    proof (cases "j = i \<and> succeeds res")
      case True
      with step obtain y where "redeem t u i b r = (Inr y, r1)" by (auto elim: succeedsE)
      with True show ?thesis
        using redeem_sound [OF Cons.prems(1)] redeem_consumes [OF Cons.prems(1)] by fastforce
    next
      case False
      then show ?thesis using redeem_frame [OF Cons.prems(1) step, of i]
        by (cases "outstanding r i") auto
    qed
    moreover have "issues i log = issues i log1"
      "redemptions i log = (if j = i \<and> succeeds res then 1 else 0) + redemptions i log1"
      using Redeem log by (auto simp: redemptions_def issues_def is_redeemed_def is_issued_def)
    ultimately show ?thesis using Cons.IH [OF v1 rest] by linarith
  qed
qed

lemma redemptions_le_issues:
  assumes "valid r" and "outstanding r i = None" and "conf_run issue redeem cs r = (log, r')"
  shows "redemptions i log \<le> issues i log"
  using redemptions_le_issues_gen [OF assms(1,3), of i] assms(2) by simp

text \<open>A redeemed identifier cannot be replayed.\<close>

lemma no_replay:
  assumes "valid r" and "redeem t u i b r = (Inr y, r')"
  shows "\<not> succeeds (fst (redeem t' u' i b' r'))"
proof
  assume ok: "succeeds (fst (redeem t' u' i b' r'))"
  obtain res r'' where step: "redeem t' u' i b' r' = (res, r'')" by fastforce
  with ok obtain y' where "redeem t' u' i b' r' = (Inr y', r'')" by (auto elim: succeedsE)
  then have "outstanding r' i \<noteq> None"
    using redeem_sound valid_redeem [OF assms] by fastforce
  with redeem_consumes [OF assms] show False by simp
qed

text \<open>An issued confirmation can be redeemed for its own operation while it has not expired.\<close>

lemma issue_then_redeem:
  assumes "valid r" and "issue t u i b r = (Inr x, r')" and "same (key b) b"
    and "t' < u + ttl" and "u' < u + ttl"
  shows "succeeds (fst (redeem t' u' i b r'))"
  using redeem_complete [OF valid_issue [OF assms(1,2)] issue_stores [OF assms(1,2)] assms(4,5,3)] .

end

section \<open>Shell-command confirmations\<close>

text \<open>\<open>ShellName\<close> of \<open>packages/mcp-core/src/policy.ts\<close>.\<close>

datatype shell_name = Powershell | Pwsh | Cmd | Sh | Bash | Wsl | GitBash

datatype execution_context = Foreground | Background

text \<open>
  \<open>CommandConfirmationBinding\<close>: the optional \<open>elevated\<close> flag is an option, the optional
  literal \<open>interactive?: true\<close> is present or absent.
\<close>

record CommandConfirmationBinding =
  workspaceId :: string
  shell :: shell_name
  cwd :: string
  command :: string
  executionContext :: execution_context
  operation :: string
  elevated :: "bool option"
  interactive :: bool

record 'b PendingConfirmation =
  binding :: 'b
  expiresAtMs :: millis

definition DEFAULT_TTL_MS :: millis where
  "DEFAULT_TTL_MS = 10 * 60 * 1000"

type_synonym 'b confirmations = "(string, 'b PendingConfirmation) jsMap"

text \<open>
  \<open>timingSafeEqual\<close> compares two buffers of one length byte by byte.
\<close>

definition safeEqual :: "string \<Rightarrow> string \<Rightarrow> bool" where
  "safeEqual l r =
    (let lb = Buffer_from l; rb = Buffer_from r in length lb = length rb \<and> list_all2 (=) lb rb)"

lemma safeEqual_iff [simp]: "safeEqual l r = (l = r)"
  by (auto simp: safeEqual_def list.rel_eq Let_def)

definition Boolean :: "bool option \<Rightarrow> bool" where
  "Boolean b = (b = Some True)"

definition sameBinding :: "CommandConfirmationBinding \<Rightarrow> CommandConfirmationBinding \<Rightarrow> bool" where
  "sameBinding left right =
    (safeEqual (workspaceId left) (workspaceId right) \<and>
     shell left = shell right \<and>
     safeEqual (cwd left) (cwd right) \<and>
     safeEqual (command left) (command right) \<and>
     executionContext left = executionContext right \<and>
     safeEqual (operation left) (operation right) \<and>
     Boolean (elevated left) = Boolean (elevated right) \<and>
     interactive left = interactive right)"

definition pruneExpired :: "millis \<Rightarrow> 'b confirmations \<Rightarrow> 'b confirmations" where
  "pruneExpired now pending = Map_delete_where (\<lambda>p. expiresAtMs p \<le> now) pending"

text \<open>\<open>create\<close>: \<open>t\<close> is the clock read of the pruning, \<open>u\<close> that of the expiry instant.\<close>

definition create :: "millis \<Rightarrow> millis \<Rightarrow> millis \<Rightarrow> string \<Rightarrow> CommandConfirmationBinding \<Rightarrow>
    (CommandConfirmationBinding confirmations, string \<times> millis) op" where
  "create ttlMs t u confirmationId b pending =
    (let pending = pruneExpired t pending;
         expires = u + ttlMs
     in (Inr (confirmationId, expires),
         Map_set pending confirmationId \<lparr>binding = b, expiresAtMs = expires\<rparr>))"

definition consume :: "millis \<Rightarrow> millis \<Rightarrow> string \<Rightarrow> CommandConfirmationBinding \<Rightarrow>
    (CommandConfirmationBinding confirmations, unit) op" where
  "consume t u confirmationId b pending =
    (let pending = pruneExpired t pending
     in case Map_get pending confirmationId of
          None \<Rightarrow> (Inl (AppError COMMAND_CONFIRMATION_INVALID), Map_delete pending confirmationId)
        | Some p \<Rightarrow>
            if expiresAtMs p \<le> u
            then (Inl (AppError COMMAND_CONFIRMATION_INVALID), Map_delete pending confirmationId)
            else if \<not> sameBinding (binding p) b
            then (Inl (AppError COMMAND_CONFIRMATION_INVALID), pending)
            else (Inr (), Map_delete pending confirmationId))"

definition outstanding_of :: "'b confirmations \<Rightarrow> string \<Rightarrow> ('b \<times> millis) option" where
  "outstanding_of pending i = map_option (\<lambda>p. (binding p, expiresAtMs p)) (Map_get pending i)"

lemma Map_ok_pruneExpired [map_model]: "Map_ok m \<Longrightarrow> Map_ok (pruneExpired t m)"
  by (simp add: pruneExpired_def map_model)

lemma Map_get_pruneExpired [map_model]:
  "Map_ok m \<Longrightarrow> Map_get (pruneExpired t m) k =
    (case Map_get m k of None \<Rightarrow> None | Some p \<Rightarrow> if expiresAtMs p \<le> t then None else Some p)"
  by (simp add: pruneExpired_def map_model)

lemma sameBinding_refl [simp]: "sameBinding b b"
  by (simp add: sameBinding_def)

interpretation cmd: one_shot Map_ok outstanding_of "create ttlMs" consume sameBinding "\<lambda>b. b" ttlMs
  by unfold_locales
    (auto simp: create_def consume_def outstanding_of_def Let_def map_model
      split: option.splits if_splits)


section \<open>Properties of command confirmations\<close>

lemma outstanding_of_Nil [simp]: "outstanding_of [] i = None"
  by (simp add: outstanding_of_def)

text \<open>
  One shot. In any sequence of \<open>create\<close> and \<open>consume\<close> calls on a new registry, a confirmation
  identifier is consumed successfully at most as many times as it was issued.
\<close>

theorem command_confirmation_one_shot:
  assumes "conf_run (create ttlMs) consume calls [] = (log, pending)"
  shows "redemptions i log \<le> issues i log"
  by (rule cmd.redemptions_le_issues [OF Map_ok_Nil outstanding_of_Nil assms])

definition demo_binding :: CommandConfirmationBinding where
  "demo_binding = \<lparr>workspaceId = ''w'', shell = Pwsh, cwd = ''/r'', command = ''git push'',
     executionContext = Foreground, operation = ''run_command'', elevated = None, interactive = False\<rparr>"

lemmas conf_eval = create_def consume_def pruneExpired_def Map_delete_where_def Map_get_def Map_set_def
  Map_delete_def Let_def

text \<open>
  What a confirmation authorises. \<open>consume\<close> succeeds exactly when the identifier is stored, has not
  expired at either clock read, and was issued for the same workspace, shell, directory, command,
  execution context, operation, elevation and interactivity; it then removes the identifier and keeps
  every other confirmation that has not expired.
\<close>

theorem command_confirmation_consume_iff:
  assumes "Map_ok pending"
  shows "(fst (consume t u i b pending) = Inr () \<longleftrightarrow>
    (\<exists>p. Map_get pending i = Some p \<and> t < expiresAtMs p \<and> u < expiresAtMs p \<and>
      workspaceId (binding p) = workspaceId b \<and> shell (binding p) = shell b \<and>
      cwd (binding p) = cwd b \<and> command (binding p) = command b \<and>
      executionContext (binding p) = executionContext b \<and> operation (binding p) = operation b \<and>
      (elevated (binding p) = Some True \<longleftrightarrow> elevated b = Some True) \<and>
      interactive (binding p) = interactive b)) \<and>
    (fst (consume t u i b pending) = Inr () \<longrightarrow>
      Map_get (snd (consume t u i b pending)) j =
        (if j = i then None
         else case Map_get pending j of None \<Rightarrow> None | Some p \<Rightarrow> if expiresAtMs p \<le> t then None else Some p))"
  using assms
  by (auto simp: consume_def Let_def map_model sameBinding_def Boolean_def split: option.splits if_splits)

text \<open>
  A mismatch does not spend the confirmation. Presenting an unexpired identifier for a different
  operation is refused with \<open>COMMAND_CONFIRMATION_INVALID\<close>, and the operation it was issued for can still
  be confirmed with it afterwards, until it expires.
\<close>

theorem command_confirmation_mismatch_keeps:
  assumes "Map_ok pending" and "Map_get pending i = Some p" and "t < expiresAtMs p" and "u < expiresAtMs p"
    and "\<not> sameBinding (binding p) b" and "t' < expiresAtMs p" and "u' < expiresAtMs p"
  shows "fst (consume t u i b pending) = Inl (AppError COMMAND_CONFIRMATION_INVALID) \<and>
    fst (consume t' u' i (binding p) (snd (consume t u i b pending))) = Inr ()"
  using assms by (auto simp: consume_def Let_def map_model)

end
