(* ===== verification/TypedConfirmation.thy ===== *)
theory TypedConfirmation
  imports Confirmation
begin

text \<open>
  Confirmations of typed source-control operations,
  \<open>packages/mcp-core/src/typed-confirmation.ts\<close>: the bounded time to live, the validation of a
  binding, and the registry, which is another instance of the one-shot contract.
\<close>

definition MAX_TYPED_CONFIRMATION_TTL_MS :: millis where
  "MAX_TYPED_CONFIRMATION_TTL_MS = 10 * 60 * 1000"

text \<open>\<open>confirmableSourceControlOperationNameSchema\<close> of \<open>source-control-contracts.ts\<close>.\<close>

definition confirmableSourceControlOperationNames :: "string list" where
  "confirmableSourceControlOperationNames =
    [''git_push_branch'', ''git_publish_tag'', ''github_create_repository'',
     ''github_create_pull_request'', ''github_close_pull_request'',
     ''github_mark_pull_request_ready'', ''github_merge_pull_request'', ''github_issue_write'']"

record TypedConfirmationBinding =
  tc_workspaceId :: string
  tc_operation :: string
  tc_targetResource :: string
  tc_digest :: string

record TypedConfirmationRegistry =
  tc_pending :: "TypedConfirmationBinding confirmations"
  tc_ttlMs :: millis

text \<open>A number of the language: an integer, or a value for which \<open>Number.isInteger\<close> is false.\<close>

datatype js_ttl = IntegerNum int | NonInteger

definition new_registry :: "js_ttl option \<Rightarrow> TypedConfirmationRegistry result" where
  "new_registry ttl =
    (case (case ttl of None \<Rightarrow> IntegerNum MAX_TYPED_CONFIRMATION_TTL_MS | Some n \<Rightarrow> n) of
       NonInteger \<Rightarrow> Inl RangeError
     | IntegerNum n \<Rightarrow>
         if n \<le> 0 \<or> n > MAX_TYPED_CONFIRMATION_TTL_MS then Inl RangeError
         else Inr \<lparr>tc_pending = [], tc_ttlMs = n\<rparr>)"

definition is_lower_hex :: "char \<Rightarrow> bool" where
  "is_lower_hex c = (c \<in> set ''abcdef0123456789'')"

definition is_sha256_hex :: "string \<Rightarrow> bool" where
  "is_sha256_hex s = (length s = 64 \<and> list_all is_lower_hex s)"

definition parseBinding :: "TypedConfirmationBinding \<Rightarrow> TypedConfirmationBinding result" where
  "parseBinding b =
    (if trim (tc_workspaceId b) = [] then Inl TypeError
     else if trim (tc_targetResource b) = [] then Inl TypeError
     else if tc_operation b \<notin> set confirmableSourceControlOperationNames then Inl ZodError
     else if \<not> is_sha256_hex (tc_digest b) then Inl TypeError
     else Inr b)"

definition sameTypedBinding :: "TypedConfirmationBinding \<Rightarrow> TypedConfirmationBinding \<Rightarrow> bool" where
  "sameTypedBinding left right =
    (safeEqual (tc_workspaceId left) (tc_workspaceId right) \<and>
     tc_operation left = tc_operation right \<and>
     safeEqual (tc_targetResource left) (tc_targetResource right) \<and>
     safeEqual (tc_digest left) (tc_digest right))"

definition typed_create :: "millis \<Rightarrow> millis \<Rightarrow> string \<Rightarrow> TypedConfirmationBinding \<Rightarrow>
    (TypedConfirmationRegistry, string \<times> millis) op" where
  "typed_create t u confirmationId b reg =
    (case parseBinding b of
       Inl e \<Rightarrow> (Inl e, reg)
     | Inr parsed \<Rightarrow>
         let pending = pruneExpired t (tc_pending reg);
             expires = u + tc_ttlMs reg
         in (Inr (confirmationId, expires),
             reg\<lparr>tc_pending := Map_set pending confirmationId
                   \<lparr>binding = parsed, expiresAtMs = expires\<rparr>\<rparr>))"

definition typed_consume :: "millis \<Rightarrow> millis \<Rightarrow> string \<Rightarrow> TypedConfirmationBinding \<Rightarrow>
    (TypedConfirmationRegistry, unit) op" where
  "typed_consume t u confirmationId b reg =
    (case parseBinding b of
       Inl e \<Rightarrow> (Inl e, reg)
     | Inr parsed \<Rightarrow>
         let pending = pruneExpired t (tc_pending reg)
         in case Map_get pending confirmationId of
              None \<Rightarrow> (Inl (AppError SOURCE_CONTROL_CONFIRMATION_INVALID),
                        reg\<lparr>tc_pending := Map_delete pending confirmationId\<rparr>)
            | Some p \<Rightarrow>
                if expiresAtMs p \<le> u
                then (Inl (AppError SOURCE_CONTROL_CONFIRMATION_INVALID),
                      reg\<lparr>tc_pending := Map_delete pending confirmationId\<rparr>)
                else if \<not> sameTypedBinding (binding p) parsed
                then (Inl (AppError SOURCE_CONTROL_CONFIRMATION_INVALID), reg\<lparr>tc_pending := pending\<rparr>)
                else (Inr (), reg\<lparr>tc_pending := Map_delete pending confirmationId\<rparr>))"

text \<open>
  A registry with time to live \<open>ttl\<close> whose stored bindings all passed \<open>parseBinding\<close>.
\<close>

definition typed_valid :: "millis \<Rightarrow> TypedConfirmationRegistry \<Rightarrow> bool" where
  "typed_valid ttl reg = (Map_ok (tc_pending reg) \<and> tc_ttlMs reg = ttl \<and>
     (\<forall>p \<in> set (Map_values (tc_pending reg)). parseBinding (binding p) = Inr (binding p)))"

definition typed_outstanding :: "TypedConfirmationRegistry \<Rightarrow> string \<Rightarrow>
    (TypedConfirmationBinding \<times> millis) option" where
  "typed_outstanding reg = outstanding_of (tc_pending reg)"

lemma sameTypedBinding_iff: "sameTypedBinding b c \<longleftrightarrow> b = c"
  by (auto simp: sameTypedBinding_def)

lemma parseBinding_Inr: "parseBinding b = Inr c \<Longrightarrow> c = b"
  by (auto simp: parseBinding_def split: if_splits)

lemma values_set_cases:
  "p \<in> set (Map_values (Map_set m k v)) \<Longrightarrow> p = v \<or> p \<in> set (Map_values m)"
  using Map_set_set [of m k v] by (auto simp: Map_values_def)

lemma parseBinding_idem: "parseBinding b = Inr c \<Longrightarrow> parseBinding c = Inr c"
  using parseBinding_Inr by blast

lemma values_deleteD: "p \<in> set (Map_values (Map_delete m k)) \<Longrightarrow> p \<in> set (Map_values m)"
  by (auto simp: Map_values_def Map_delete_def AList.delete_eq)

lemma values_pruneD: "p \<in> set (Map_values (pruneExpired t m)) \<Longrightarrow> p \<in> set (Map_values m)"
  by (auto simp: Map_values_def pruneExpired_def Map_delete_where_def)

lemma typed_valid_create:
  assumes "typed_valid ttl reg" and "typed_create t u i b reg = (res, reg')"
  shows "typed_valid ttl reg'"
  using assms parseBinding_idem [of b]
  by (auto simp: typed_create_def typed_valid_def Let_def map_model dest!: values_set_cases
      values_pruneD split: sum.splits)

lemma typed_valid_consume:
  assumes "typed_valid ttl reg" and "typed_consume t u i b reg = (res, reg')"
  shows "typed_valid ttl reg'"
proof -
  have "tc_pending reg' \<in> {tc_pending reg, pruneExpired t (tc_pending reg),
      Map_delete (pruneExpired t (tc_pending reg)) i}" "tc_ttlMs reg' = tc_ttlMs reg"
    using assms(2) by (auto simp: typed_consume_def Let_def split: sum.splits option.splits if_splits)
  with assms(1) show ?thesis
    by (auto simp: typed_valid_def map_model dest!: values_deleteD values_pruneD)
qed

lemmas typed_defs = typed_create_def typed_consume_def typed_outstanding_def outstanding_of_def

interpretation typed: one_shot "typed_valid ttl" typed_outstanding typed_create typed_consume
    "\<lambda>b c. b = c \<and> parseBinding c = Inr c" "\<lambda>b. b" ttl
proof (unfold_locales, goal_cases)
  case 1 then show ?case by (rule typed_valid_create)
next
  case 2 then show ?case by (rule typed_valid_consume)
next
  case 6
  then show ?case
    by (auto simp: typed_defs typed_valid_def Let_def map_model sameTypedBinding_iff
        split: option.splits if_splits)
qed (auto simp: typed_defs typed_valid_def Let_def map_model sameTypedBinding_iff dest: parseBinding_Inr
    split: sum.splits option.splits if_splits)


section \<open>Properties\<close>

lemma new_registry_valid: "new_registry ttl = Inr reg \<Longrightarrow> typed_valid (tc_ttlMs reg) reg \<and> tc_pending reg = [] \<and>
    0 < tc_ttlMs reg \<and> tc_ttlMs reg \<le> MAX_TYPED_CONFIRMATION_TTL_MS"
  by (auto simp: new_registry_def typed_valid_def Map_values_def split: option.splits js_ttl.splits if_splits)

text \<open>
  One shot, typed. For any time to live the constructor accepts and any sequence of calls, a typed
  confirmation identifier is consumed at most as often as it was issued.
\<close>

theorem typed_confirmation_one_shot:
  assumes "new_registry ttl = Inr reg" and "conf_run typed_create typed_consume calls reg = (log, reg')"
  shows "redemptions i log \<le> issues i log"
proof -
  have "typed_valid (tc_ttlMs reg) reg" "typed_outstanding reg i = None"
    using new_registry_valid [OF assms(1)] by (auto simp: typed_outstanding_def outstanding_of_def)
  from typed.redemptions_le_issues [OF this assms(2)] show ?thesis .
qed

text \<open>
  Bounded validity and round trip. A registry accepts only a time to live between one millisecond
  and ten minutes. A confirmation created at \<open>u\<close> for a well-formed binding expires within ten minutes,
  and consuming it for that binding succeeds exactly while both clock reads are before the expiry.
\<close>

theorem typed_confirmation_round_trip:
  assumes "new_registry ttl = Inr reg" and "typed_create t u i b reg = (Inr (i', e), reg')"
  shows "i' = i \<and> u < e \<and> e \<le> u + 10 * 60 * 1000 \<and>
    (fst (typed_consume t' u' i b reg') = Inr () \<longleftrightarrow> t' < e \<and> u' < e)"
proof -
  note reg = new_registry_valid [OF assms(1)]
  have b: "parseBinding b = Inr b"
    using assms(2) parseBinding_Inr by (fastforce simp: typed_create_def split: sum.splits)
  have "i' = i" "e = u + tc_ttlMs reg"
    and "reg' = reg\<lparr>tc_pending := [(i, \<lparr>binding = b, expiresAtMs = u + tc_ttlMs reg\<rparr>)]\<rparr>"
    using assms(2) reg b by (auto simp: typed_create_def conf_eval)
  with reg b show ?thesis
    by (simp add: typed_consume_def conf_eval sameTypedBinding_iff MAX_TYPED_CONFIRMATION_TTL_MS_def)
qed

end
