(* ===== verification/BrowserTask.thy ===== *)
theory BrowserTask
  imports Prelude
begin

text \<open>
  The browser task registry, \<open>services/browser-worker/domain/browser-task-registry.ts\<close>: tasks own
  browser tabs on behalf of an owner scope, are kept alive by leases and activity, and end as
  finished or expired. \<open>sha\<close> stands for the SHA-256 digest of \<open>node:crypto\<close>; the identifier of a
  new task and every clock read are arguments.
\<close>

section \<open>Data\<close>

datatype BrowserTaskState = Active | Suspended | Finishing | Finished | Expired

text \<open>
  \<open>BrowserTask\<close>. The type of instants is a parameter: the registry works on parsed instants, the
  persisted registry keeps the ISO strings.
\<close>

record 't BrowserTask =
  taskId :: string
  ownerScopeHash :: string
  task_state :: BrowserTaskState
  tabIds :: "string list"
  createdAt :: 't
  lastActivityAt :: 't
  expiresAt :: 't
  lifecycleVersion :: nat

type_synonym task = "millis BrowserTask"

definition LEGACY_BROWSER_TASK_LIFECYCLE_VERSION :: nat where
  "LEGACY_BROWSER_TASK_LIFECYCLE_VERSION = 1"

definition CURRENT_BROWSER_TASK_LIFECYCLE_VERSION :: nat where
  "CURRENT_BROWSER_TASK_LIFECYCLE_VERSION = 2"

definition DEFAULT_OWNER_SCOPE :: string where
  "DEFAULT_OWNER_SCOPE = ''legacy-local''"

text \<open>
  \<open>browserTaskFields\<close>: the length bounds of the schema; the state and the instants are valid by
  their types. The two task schemas fix the lifecycle version.
\<close>

definition str_between :: "nat \<Rightarrow> nat \<Rightarrow> string \<Rightarrow> bool" where
  "str_between lo hi s = (lo \<le> length s \<and> length s \<le> hi)"

definition browserTaskFields_ok :: "'t BrowserTask \<Rightarrow> bool" where
  "browserTaskFields_ok t =
    (str_between 1 128 (taskId t) \<and> str_between 1 128 (ownerScopeHash t) \<and>
     length (tabIds t) \<le> 500 \<and> list_all (str_between 1 128) (tabIds t))"

definition browserTaskSchema :: "'t BrowserTask \<Rightarrow> 't BrowserTask result" where
  "browserTaskSchema t =
    (if browserTaskFields_ok t \<and> lifecycleVersion t = CURRENT_BROWSER_TASK_LIFECYCLE_VERSION
     then Inr t else Inl ZodError)"

definition legacyBrowserTaskSchema :: "'t BrowserTask \<Rightarrow> 't BrowserTask result" where
  "legacyBrowserTaskSchema t =
    (if browserTaskFields_ok t \<and> lifecycleVersion t = LEGACY_BROWSER_TASK_LIFECYCLE_VERSION
     then Inr t else Inl ZodError)"

record BrowserTaskRegistry =
  tasks :: "(string, task) jsMap"
  taskByTab :: "(string, string) jsMap"
  activeLeases :: "(string, nat) jsMap"
  ttlMs :: millis

section \<open>Operations\<close>

text \<open>A string tested as a condition: absent and empty both count as false.\<close>

definition truthy :: "string option \<Rightarrow> string option" where
  "truthy s = (case s of None \<Rightarrow> None | Some x \<Rightarrow> if x = [] then None else Some x)"

definition isAccessibleState :: "BrowserTaskState \<Rightarrow> bool" where
  "isAccessibleState s = (s = Active \<or> s = Suspended)"

definition isTerminal :: "BrowserTaskState \<Rightarrow> bool" where
  "isTerminal s = (s = Finished \<or> s = Expired)"

definition ownerScope :: "string option \<Rightarrow> string" where
  "ownerScope ctx = (case ctx of None \<Rightarrow> DEFAULT_OWNER_SCOPE | Some s \<Rightarrow> s)"

definition hashOwnerScope :: "(string \<Rightarrow> string) \<Rightarrow> string \<Rightarrow> string" where
  "hashOwnerScope sha v = sha v"

definition ownerHash :: "(string \<Rightarrow> string) \<Rightarrow> string option \<Rightarrow> string" where
  "ownerHash sha ctx = hashOwnerScope sha (ownerScope ctx)"

text \<open>The constructor: parse and store each task, index its tabs, the first task of a tab wins.\<close>

definition index_tabs :: "string \<Rightarrow> string list \<Rightarrow> (string, string) jsMap \<Rightarrow> (string, string) jsMap" where
  "index_tabs tid tabs m = fold (\<lambda>tab m. if Map_get m tab = None then Map_set m tab tid else m) tabs m"

fun load_tasks :: "task list \<Rightarrow> BrowserTaskRegistry \<Rightarrow> BrowserTaskRegistry result" where
  "load_tasks [] reg = Inr reg"
| "load_tasks (t # ts) reg =
    (case browserTaskSchema t of
       Inl e \<Rightarrow> Inl e
     | Inr p \<Rightarrow> load_tasks ts (reg\<lparr>tasks := Map_set (tasks reg) (taskId p) p,
                                  taskByTab := index_tabs (taskId p) (tabIds p) (taskByTab reg)\<rparr>))"

definition new_task_registry :: "task list \<Rightarrow> millis \<Rightarrow> BrowserTaskRegistry result" where
  "new_task_registry initialTasks ttl =
    load_tasks initialTasks \<lparr>tasks = [], taskByTab = [], activeLeases = [], ttlMs = ttl\<rparr>"

definition snapshot :: "BrowserTaskRegistry \<Rightarrow> task list" where
  "snapshot reg = Map_values (tasks reg)"

definition taskIdForTab :: "string \<Rightarrow> BrowserTaskRegistry \<Rightarrow> string option" where
  "taskIdForTab tab reg = Map_get (taskByTab reg) tab"

definition taskForTab :: "string \<Rightarrow> BrowserTaskRegistry \<Rightarrow> task option" where
  "taskForTab tab reg =
    (case truthy (Map_get (taskByTab reg) tab) of None \<Rightarrow> None | Some tid \<Rightarrow> Map_get (tasks reg) tid)"

definition accessibleTasks :: "(string \<Rightarrow> string) \<Rightarrow> string option \<Rightarrow> bool \<Rightarrow> BrowserTaskRegistry \<Rightarrow> task list" where
  "accessibleTasks sha ctx includeTerminal reg =
    filter (\<lambda>t. includeTerminal \<or> isAccessibleState (task_state t))
      (filter (\<lambda>t. ownerScopeHash t = ownerHash sha ctx) (Map_values (tasks reg)))"

definition leaseCount :: "string \<Rightarrow> BrowserTaskRegistry \<Rightarrow> nat" where
  "leaseCount tid reg = (case Map_get (activeLeases reg) tid of None \<Rightarrow> 0 | Some n \<Rightarrow> n)"

text \<open>
  A write through a reference into \<open>tasks\<close>: the entry of the task's own identifier changes.
\<close>

definition store_task :: "task \<Rightarrow> BrowserTaskRegistry \<Rightarrow> BrowserTaskRegistry" where
  "store_task t reg = reg\<lparr>tasks := Map_set (tasks reg) (taskId t) t\<rparr>"

definition touched :: "millis \<Rightarrow> millis \<Rightarrow> bool \<Rightarrow> task \<Rightarrow> task" where
  "touched now ttl extendExpiry t =
    t\<lparr>lastActivityAt := now, expiresAt := (if extendExpiry then now + ttl else expiresAt t)\<rparr>"

definition touchTask :: "millis \<Rightarrow> bool \<Rightarrow> task \<Rightarrow> BrowserTaskRegistry \<Rightarrow> task \<times> BrowserTaskRegistry" where
  "touchTask now extendExpiry t reg =
    (let t' = touched now (ttlMs reg) extendExpiry t in (t', store_task t' reg))"

definition resume :: "millis \<Rightarrow> task \<Rightarrow> BrowserTaskRegistry \<Rightarrow> task \<times> BrowserTaskRegistry" where
  "resume now t reg = touchTask now True (t\<lparr>task_state := Active\<rparr>) reg"

definition ok :: "'a \<times> 's \<Rightarrow> 'a result \<times> 's" where
  "ok p = (Inr (fst p), snd p)"

definition requireOwnedTask :: "millis \<Rightarrow> string \<Rightarrow> string \<Rightarrow> bool \<Rightarrow> bool \<Rightarrow> (BrowserTaskRegistry, task) op" where
  "requireOwnedTask now tid owner includeFinished resumeSuspended reg =
    (case Map_get (tasks reg) tid of
       None \<Rightarrow> (Inl (AppError TASK_NOT_FOUND), reg)
     | Some t \<Rightarrow>
         if ownerScopeHash t \<noteq> owner then (Inl (AppError TASK_OWNERSHIP_MISMATCH), reg)
         else if task_state t = Expired then (Inl (AppError TASK_EXPIRED), reg)
         else if task_state t = Finished \<and> \<not> includeFinished then (Inl (AppError TASK_NOT_FOUND), reg)
         else if task_state t = Finishing then (Inl (AppError TASK_SUSPENDED), reg)
         else if resumeSuspended \<and> task_state t = Suspended then ok (resume now t reg)
         else (Inr t, reg))"

definition task_create :: "(string \<Rightarrow> string) \<Rightarrow> millis \<Rightarrow> string \<Rightarrow> string option \<Rightarrow> (BrowserTaskRegistry, task) op" where
  "task_create sha now uuid ctx reg =
    (case browserTaskSchema
            \<lparr>taskId = ''task-'' @ uuid, ownerScopeHash = ownerHash sha ctx, task_state = Active,
             tabIds = [], createdAt = now, lastActivityAt = now, expiresAt = now + ttlMs reg,
             lifecycleVersion = CURRENT_BROWSER_TASK_LIFECYCLE_VERSION\<rparr> of
       Inl e \<Rightarrow> (Inl e, reg)
     | Inr t \<Rightarrow> (Inr t, store_task t reg))"

definition resolveForOpen :: "(string \<Rightarrow> string) \<Rightarrow> millis \<Rightarrow> string \<Rightarrow> string option \<Rightarrow> string option \<Rightarrow>
    (BrowserTaskRegistry, task) op" where
  "resolveForOpen sha now uuid tid ctx reg =
    (case truthy tid of
       Some i \<Rightarrow> requireOwnedTask now i (ownerHash sha ctx) False True reg
     | None \<Rightarrow>
         (case filter (\<lambda>t. ownerScopeHash t = ownerHash sha ctx \<and> isAccessibleState (task_state t))
                 (Map_values (tasks reg)) of
            [] \<Rightarrow> task_create sha now uuid ctx reg
          | [t] \<Rightarrow> ok (resume now t reg)
          | _ \<Rightarrow> (Inl (AppError TASK_SCOPE_REQUIRED), reg)))"

definition resolveScoped :: "(string \<Rightarrow> string) \<Rightarrow> millis \<Rightarrow> string option \<Rightarrow> string option \<Rightarrow> bool \<Rightarrow>
    (BrowserTaskRegistry, task) op" where
  "resolveScoped sha now tid ctx includeFinished reg =
    (case truthy tid of
       Some i \<Rightarrow> requireOwnedTask now i (ownerHash sha ctx) includeFinished True reg
     | None \<Rightarrow>
         (case filter (\<lambda>t. ownerScopeHash t = ownerHash sha ctx \<and>
                   (isAccessibleState (task_state t) \<or> includeFinished \<and> task_state t = Finished))
                 (Map_values (tasks reg)) of
            [] \<Rightarrow> (Inl (AppError TASK_NOT_FOUND), reg)
          | [t] \<Rightarrow> if isAccessibleState (task_state t) then ok (resume now t reg) else (Inr t, reg)
          | _ \<Rightarrow> (Inl (AppError TASK_SCOPE_REQUIRED), reg)))"

definition assertTabAccess :: "(string \<Rightarrow> string) \<Rightarrow> millis \<Rightarrow> string \<Rightarrow> string option \<Rightarrow>
    (BrowserTaskRegistry, task) op" where
  "assertTabAccess sha now tab ctx reg =
    (case truthy (Map_get (taskByTab reg) tab) of
       None \<Rightarrow> (Inl (AppError TASK_NOT_FOUND), reg)
     | Some tid \<Rightarrow> requireOwnedTask now tid (ownerHash sha ctx) False True reg)"

text \<open>The common tail of the two attach operations: append the tab to the task and index it.\<close>

definition add_tab :: "task \<Rightarrow> string \<Rightarrow> task" where
  "add_tab t tab = (if tab \<in> set (tabIds t) then t else t\<lparr>tabIds := tabIds t @ [tab]\<rparr>)"

definition belongs_elsewhere :: "string \<Rightarrow> string \<Rightarrow> BrowserTaskRegistry \<Rightarrow> bool" where
  "belongs_elsewhere tab tid reg =
    (case truthy (Map_get (taskByTab reg) tab) of None \<Rightarrow> False | Some cur \<Rightarrow> cur \<noteq> tid)"

definition attachTab :: "(string \<Rightarrow> string) \<Rightarrow> millis \<Rightarrow> millis \<Rightarrow> string \<Rightarrow> string \<Rightarrow> string option \<Rightarrow>
    (BrowserTaskRegistry, task) op" where
  "attachTab sha now now' tid tab ctx reg =
    (case requireOwnedTask now tid (ownerHash sha ctx) False True reg of
       (Inl e, reg) \<Rightarrow> (Inl e, reg)
     | (Inr _, reg) \<Rightarrow>
         (case Map_get (tasks reg) tid of
            None \<Rightarrow> (Inl TypeError, reg)
          | Some t \<Rightarrow>
              if belongs_elsewhere tab (taskId t) reg then (Inl (AppError TASK_OWNERSHIP_MISMATCH), reg)
              else ok (touchTask now' True (add_tab t tab)
                     (reg\<lparr>taskByTab := Map_set (taskByTab reg) tab (taskId t)\<rparr>))))"

definition attachExistingTab :: "string \<Rightarrow> string \<Rightarrow> (BrowserTaskRegistry, task) op" where
  "attachExistingTab tid tab reg =
    (case Map_get (tasks reg) tid of
       None \<Rightarrow> (Inl (AppError TASK_NOT_FOUND), reg)
     | Some t \<Rightarrow>
         if belongs_elsewhere tab tid reg then (Inl (AppError TASK_OWNERSHIP_MISMATCH), reg)
         else (Inr (add_tab t tab),
               store_task (add_tab t tab) (reg\<lparr>taskByTab := Map_set (taskByTab reg) tab tid\<rparr>)))"

definition detachTab :: "millis \<Rightarrow> string \<Rightarrow> BrowserTaskRegistry \<Rightarrow> BrowserTaskRegistry" where
  "detachTab now tab reg =
    (case truthy (Map_get (taskByTab reg) tab) of
       None \<Rightarrow> reg
     | Some tid \<Rightarrow>
         let reg = reg\<lparr>taskByTab := Map_delete (taskByTab reg) tab\<rparr>
         in case Map_get (tasks reg) tid of
              None \<Rightarrow> reg
            | Some t \<Rightarrow> snd (touchTask now True (t\<lparr>tabIds := filter (\<lambda>c. c \<noteq> tab) (tabIds t)\<rparr>) reg))"

text \<open>
  \<open>acquireForTask\<close>: \<open>requireOwnedTask\<close> returns a copy of the task, so the \<open>touchTask\<close> that
  follows writes to the copy and leaves the stored task as it is.
\<close>

definition acquireForTask :: "(string \<Rightarrow> string) \<Rightarrow> millis \<Rightarrow> string \<Rightarrow> string option \<Rightarrow>
    (BrowserTaskRegistry, string) op" where
  "acquireForTask sha now tid ctx reg =
    (case requireOwnedTask now tid (ownerHash sha ctx) False True reg of
       (Inl e, reg) \<Rightarrow> (Inl e, reg)
     | (Inr copy, reg) \<Rightarrow>
         (Inr (taskId copy),
          reg\<lparr>activeLeases := Map_set (activeLeases reg) (taskId copy) (leaseCount (taskId copy) reg + 1)\<rparr>))"

text \<open>The \<open>release\<close> closure of a lease, on its first call; further calls do nothing.\<close>

definition release :: "millis \<Rightarrow> string \<Rightarrow> BrowserTaskRegistry \<Rightarrow> BrowserTaskRegistry" where
  "release now tid reg =
    (let held = (case Map_get (activeLeases reg) tid of None \<Rightarrow> 1 | Some n \<Rightarrow> n);
         remaining = held - 1;
         reg = reg\<lparr>activeLeases := (if remaining = 0 then Map_delete (activeLeases reg) tid
                                    else Map_set (activeLeases reg) tid remaining)\<rparr>
     in case Map_get (tasks reg) tid of
          None \<Rightarrow> reg
        | Some t \<Rightarrow> if isAccessibleState (task_state t) then snd (touchTask now True t reg) else reg)"

definition acquireForTab :: "(string \<Rightarrow> string) \<Rightarrow> millis \<Rightarrow> millis \<Rightarrow> string \<Rightarrow> string option \<Rightarrow>
    (BrowserTaskRegistry, string) op" where
  "acquireForTab sha now now' tab ctx reg =
    (case assertTabAccess sha now tab ctx reg of
       (Inl e, reg) \<Rightarrow> (Inl e, reg)
     | (Inr t, reg) \<Rightarrow> acquireForTask sha now' (taskId t) ctx reg)"

definition beginFinish :: "(string \<Rightarrow> string) \<Rightarrow> millis \<Rightarrow> string \<Rightarrow> string option \<Rightarrow> (BrowserTaskRegistry, task) op" where
  "beginFinish sha now tid ctx reg =
    (case requireOwnedTask now tid (ownerHash sha ctx) True False reg of
       (Inl e, reg) \<Rightarrow> (Inl e, reg)
     | (Inr _, reg) \<Rightarrow>
         (case Map_get (tasks reg) tid of
            None \<Rightarrow> (Inl TypeError, reg)
          | Some t \<Rightarrow>
              if task_state t = Finished then (Inr t, reg)
              else if task_state t = Expired then (Inl (AppError TASK_EXPIRED), reg)
              else ok (touchTask now False (t\<lparr>task_state := Finishing\<rparr>) reg)))"

text \<open>\<open>completeFinish\<close> and \<open>markExpired\<close> differ only in the terminal state they write.\<close>

definition terminate :: "BrowserTaskState \<Rightarrow> millis \<Rightarrow> string \<Rightarrow> (BrowserTaskRegistry, task) op" where
  "terminate s now tid reg =
    (case Map_get (tasks reg) tid of
       None \<Rightarrow> (Inl (AppError TASK_NOT_FOUND), reg)
     | Some t \<Rightarrow>
         let t' = t\<lparr>task_state := s, tabIds := [], lastActivityAt := now, expiresAt := now\<rparr>
         in (Inr t', store_task t'
               (reg\<lparr>taskByTab := fold (\<lambda>tab m. Map_delete m tab) (tabIds t) (taskByTab reg)\<rparr>)))"

definition completeFinish :: "millis \<Rightarrow> string \<Rightarrow> (BrowserTaskRegistry, task) op" where
  "completeFinish = terminate Finished"

definition markExpired :: "millis \<Rightarrow> string \<Rightarrow> (BrowserTaskRegistry, task) op" where
  "markExpired = terminate Expired"

definition beginExpiration :: "millis \<Rightarrow> string \<Rightarrow> BrowserTaskRegistry \<Rightarrow> task option \<times> BrowserTaskRegistry" where
  "beginExpiration now tid reg =
    (case Map_get (tasks reg) tid of
       None \<Rightarrow> (None, reg)
     | Some t \<Rightarrow>
         if \<not> isAccessibleState (task_state t) then (None, reg)
         else if leaseCount tid reg > 0 then (None, reg)
         else if expiresAt t > now then (None, reg)
         else let t' = t\<lparr>task_state := Finishing\<rparr> in (Some t', store_task t' reg))"

definition restoreAfterFailedFinalization :: "millis \<Rightarrow> string \<Rightarrow> BrowserTaskRegistry \<Rightarrow> task option \<times> BrowserTaskRegistry" where
  "restoreAfterFailedFinalization now tid reg =
    (case Map_get (tasks reg) tid of
       None \<Rightarrow> (None, reg)
     | Some t \<Rightarrow>
         if task_state t \<noteq> Finishing then (None, reg)
         else let (t', reg') = touchTask now True (t\<lparr>task_state := Active\<rparr>) reg in (Some t', reg'))"

definition expiredCandidates :: "millis \<Rightarrow> BrowserTaskRegistry \<Rightarrow> task list" where
  "expiredCandidates now reg =
    filter (\<lambda>t. expiresAt t \<le> now)
      (filter (\<lambda>t. leaseCount (taskId t) reg = 0)
        (filter (\<lambda>t. isAccessibleState (task_state t)) (Map_values (tasks reg))))"


section \<open>Calls and runs\<close>

text \<open>One constructor per public method that can change the registry.\<close>

datatype task_call =
    ResolveForOpen millis string "string option" "string option"
  | ResolveScoped millis "string option" "string option" bool
  | Create millis string "string option"
  | AssertTabAccess millis string "string option"
  | AttachTab millis millis string string "string option"
  | AttachExistingTab string string
  | DetachTab millis string
  | AcquireForTask millis string "string option"
  | AcquireForTab millis millis string "string option"
  | Release millis string
  | BeginFinish millis string "string option"
  | CompleteFinish millis string
  | BeginExpiration millis string
  | RestoreAfterFailedFinalization millis string
  | MarkExpired millis string

definition some_task :: "'a result \<times> 's \<Rightarrow> 'a option result \<times> 's" where
  "some_task p = (map_sum id Some (fst p), snd p)"

definition no_task :: "'a result \<times> 's \<Rightarrow> 'b option result \<times> 's" where
  "no_task p = (map_sum id (\<lambda>_. None) (fst p), snd p)"

fun task_exec :: "(string \<Rightarrow> string) \<Rightarrow> task_call \<Rightarrow> (BrowserTaskRegistry, task option) op" where
  "task_exec sha (ResolveForOpen now uuid tid ctx) reg = some_task (resolveForOpen sha now uuid tid ctx reg)"
| "task_exec sha (ResolveScoped now tid ctx fin) reg = some_task (resolveScoped sha now tid ctx fin reg)"
| "task_exec sha (Create now uuid ctx) reg = some_task (task_create sha now uuid ctx reg)"
| "task_exec sha (AssertTabAccess now tab ctx) reg = some_task (assertTabAccess sha now tab ctx reg)"
| "task_exec sha (AttachTab now now' tid tab ctx) reg = some_task (attachTab sha now now' tid tab ctx reg)"
| "task_exec sha (AttachExistingTab tid tab) reg = some_task (attachExistingTab tid tab reg)"
| "task_exec sha (DetachTab now tab) reg = (Inr None, detachTab now tab reg)"
| "task_exec sha (AcquireForTask now tid ctx) reg = no_task (acquireForTask sha now tid ctx reg)"
| "task_exec sha (AcquireForTab now now' tab ctx) reg = no_task (acquireForTab sha now now' tab ctx reg)"
| "task_exec sha (Release now tid) reg = (Inr None, release now tid reg)"
| "task_exec sha (BeginFinish now tid ctx) reg = some_task (beginFinish sha now tid ctx reg)"
| "task_exec sha (CompleteFinish now tid) reg = some_task (completeFinish now tid reg)"
| "task_exec sha (BeginExpiration now tid) reg = ok (beginExpiration now tid reg)"
| "task_exec sha (RestoreAfterFailedFinalization now tid) reg = ok (restoreAfterFailedFinalization now tid reg)"
| "task_exec sha (MarkExpired now tid) reg = some_task (markExpired now tid reg)"

text \<open>
  \<open>randomUUID\<close> never returns an identifier in use: the guard of the calls that may create a task.
\<close>

fun fresh_id :: "task_call \<Rightarrow> BrowserTaskRegistry \<Rightarrow> bool" where
  "fresh_id (ResolveForOpen _ uuid _ _) reg = (\<not> Map_has (tasks reg) (''task-'' @ uuid))"
| "fresh_id (Create _ uuid _) reg = (\<not> Map_has (tasks reg) (''task-'' @ uuid))"
| "fresh_id _ reg = True"

inductive task_reachable :: "(string \<Rightarrow> string) \<Rightarrow> BrowserTaskRegistry \<Rightarrow> BrowserTaskRegistry \<Rightarrow> bool"
  for sha reg0 where
  start: "task_reachable sha reg0 reg0"
| call: "task_reachable sha reg0 reg \<Longrightarrow> fresh_id c reg \<Longrightarrow> task_exec sha c reg = (res, reg') \<Longrightarrow>
    task_reachable sha reg0 reg'"

section \<open>Ownership of tabs: the invariant\<close>

text \<open>
  The tab index and the tab lists of the tasks say the same: a tab is indexed under a task exactly
  when that task lists it. So no tab belongs to two tasks.
\<close>

definition tabs_agree :: "(string \<Rightarrow> task option) \<Rightarrow> (string \<Rightarrow> string option) \<Rightarrow> bool" where
  "tabs_agree T B \<longleftrightarrow>
    (\<forall>k t. T k = Some t \<longrightarrow> taskId t = k \<and> k \<noteq> [] \<and> distinct (tabIds t)) \<and>
    (\<forall>tab k. B tab = Some k \<longleftrightarrow> (\<exists>t. T k = Some t \<and> tab \<in> set (tabIds t)))"

definition task_inv :: "BrowserTaskRegistry \<Rightarrow> bool" where
  "task_inv reg \<longleftrightarrow> Map_ok (tasks reg) \<and> Map_ok (taskByTab reg) \<and>
    tabs_agree (Map_get (tasks reg)) (Map_get (taskByTab reg))"

lemma tabs_agreeD:
  assumes "tabs_agree T B" and "T k = Some t"
  shows "taskId t = k" "k \<noteq> []" "distinct (tabIds t)"
  using assms by (auto simp: tabs_agree_def)

lemma tabs_agree_same_tabs:
  assumes "tabs_agree T B" and "T k = Some t" and "taskId t' = k" and "tabIds t' = tabIds t"
  shows "tabs_agree (T(k \<mapsto> t')) B"
proof -
  have "(\<exists>s. (T(k \<mapsto> t')) j = Some s \<and> tab \<in> set (tabIds s)) \<longleftrightarrow>
      (\<exists>s. T j = Some s \<and> tab \<in> set (tabIds s))" for j tab
    using assms by auto
  with assms show ?thesis unfolding tabs_agree_def by auto
qed

lemma tabs_agree_new:
  assumes "tabs_agree T B" and "T k = None" and "taskId t = k" and "k \<noteq> []" and "tabIds t = []"
  shows "tabs_agree (T(k \<mapsto> t)) B"
proof -
  have "(\<exists>s. (T(k \<mapsto> t)) j = Some s \<and> tab \<in> set (tabIds s)) \<longleftrightarrow>
      (\<exists>s. T j = Some s \<and> tab \<in> set (tabIds s))" for j tab
    using assms by auto
  with assms show ?thesis unfolding tabs_agree_def by auto
qed

lemma tabs_agree_add:
  assumes "tabs_agree T B" and "T k = Some t" and "B tab = None \<or> B tab = Some k"
    and "taskId t' = k" and "tabIds t' = tabIds (add_tab t tab)"
  shows "tabs_agree (T(k \<mapsto> t')) (B(tab \<mapsto> k))"
proof -
  have tabs: "set (tabIds t') = insert tab (set (tabIds t))" "distinct (tabIds t')"
    using tabs_agreeD [OF assms(1,2)] assms(5) by (auto simp: add_tab_def)
  have "(B(tab \<mapsto> k)) x = Some j \<longleftrightarrow> (\<exists>s. (T(k \<mapsto> t')) j = Some s \<and> x \<in> set (tabIds s))" for x j
    using assms(1,2,3) tabs(1) unfolding tabs_agree_def
    by (cases "x = tab"; cases "j = k") (auto, (metis option.distinct(1) option.inject)+)
  with assms tabs show ?thesis unfolding tabs_agree_def by auto
qed

lemma tabs_agree_remove:
  assumes "tabs_agree T B" and "B tab = Some k" and "T k = Some t"
    and "taskId t' = k" and "tabIds t' = filter (\<lambda>c. c \<noteq> tab) (tabIds t)"
  shows "tabs_agree (T(k \<mapsto> t')) (B(tab := None))"
proof -
  have "(B(tab := None)) x = Some j \<longleftrightarrow> (\<exists>s. (T(k \<mapsto> t')) j = Some s \<and> x \<in> set (tabIds s))" for x j
    using assms unfolding tabs_agree_def
    by (cases "x = tab"; cases "j = k") (auto, metis option.inject)
  with assms show ?thesis unfolding tabs_agree_def by auto
qed

lemma tabs_agree_clear:
  assumes "tabs_agree T B" and "T k = Some t" and "taskId t' = k" and "tabIds t' = []"
  shows "tabs_agree (T(k \<mapsto> t')) (\<lambda>tab. if tab \<in> set (tabIds t) then None else B tab)"
proof -
  have "(if x \<in> set (tabIds t) then None else B x) = Some j \<longleftrightarrow>
      (\<exists>s. (T(k \<mapsto> t')) j = Some s \<and> x \<in> set (tabIds s))" for x j
    using assms unfolding tabs_agree_def
    by (cases "j = k") (auto, metis option.inject)
  with assms show ?thesis unfolding tabs_agree_def by auto
qed

lemma Map_get_store [simp]: "Map_get (tasks (store_task t reg)) = (Map_get (tasks reg))(taskId t \<mapsto> t)"
  by (auto simp: store_task_def map_model)

lemma store_task_simps [simp]:
  "taskByTab (store_task t reg) = taskByTab reg"
  "activeLeases (store_task t reg) = activeLeases reg"
  "ttlMs (store_task t reg) = ttlMs reg"
  "Map_ok (tasks reg) \<Longrightarrow> Map_ok (tasks (store_task t reg))"
  by (simp_all add: store_task_def map_model)

lemma touched_simps [simp]:
  "taskId (touched now ttl x t) = taskId t" "tabIds (touched now ttl x t) = tabIds t"
  "task_state (touched now ttl x t) = task_state t" "ownerScopeHash (touched now ttl x t) = ownerScopeHash t"
  by (simp_all add: touched_def)

lemma add_tab_simps [simp]:
  "taskId (add_tab t tab) = taskId t" "task_state (add_tab t tab) = task_state t"
  "ownerScopeHash (add_tab t tab) = ownerScopeHash t"
  by (simp_all add: add_tab_def)

lemma Map_get_update_fun: "Map_get (Map_set m k v) = (Map_get m)(k \<mapsto> v)"
  "Map_get (Map_delete m k) = (Map_get m)(k := None)"
  by (auto simp: map_model)

lemma truthy_Some: "truthy x = Some i \<longleftrightarrow> x = Some i \<and> i \<noteq> []"
  by (auto simp: truthy_def split: option.splits)

lemma truthy_None: "truthy x = None \<longleftrightarrow> x = None \<or> x = Some []"
  by (auto simp: truthy_def split: option.splits)

lemmas task_simps = touchTask_def resume_def ok_def some_task_def no_task_def Let_def Map_get_update_fun

lemma store_same_tabs_inv:
  assumes "task_inv reg" and "Map_get (tasks reg) (taskId t') = Some t" and "tabIds t' = tabIds t"
  shows "task_inv (store_task t' reg)"
  using assms tabs_agree_same_tabs [of "Map_get (tasks reg)" "Map_get (taskByTab reg)" "taskId t'" t t']
  by (simp add: task_inv_def)

lemma inv_key: "task_inv reg \<Longrightarrow> Map_get (tasks reg) k = Some t \<Longrightarrow> taskId t = k \<and> k \<noteq> []"
  by (auto simp: task_inv_def dest: tabs_agreeD)

lemma inv_value: "task_inv reg \<Longrightarrow> t \<in> set (Map_values (tasks reg)) \<Longrightarrow> Map_get (tasks reg) (taskId t) = Some t"
  using Map_values_get inv_key by (fastforce simp: task_inv_def)

lemma inv_indexed:
  "task_inv reg \<Longrightarrow> Map_get (taskByTab reg) tab = Some k \<Longrightarrow>
    k \<noteq> [] \<and> (\<exists>t. Map_get (tasks reg) k = Some t \<and> tab \<in> set (tabIds t))"
  by (auto simp: task_inv_def tabs_agree_def)

lemma inv_not_elsewhere:
  assumes "task_inv reg" and "\<not> belongs_elsewhere tab k reg"
  shows "Map_get (taskByTab reg) tab = None \<or> Map_get (taskByTab reg) tab = Some k"
  using assms inv_indexed [OF assms(1), of tab]
  by (auto simp: belongs_elsewhere_def truthy_def split: option.splits if_splits)


lemma task_inv_leases [simp]: "task_inv (reg\<lparr>activeLeases := x\<rparr>) = task_inv reg"
  by (simp add: task_inv_def)

lemma touch_inv:
  assumes "task_inv reg" and "Map_get (tasks reg) (taskId t') = Some t" and "tabIds t' = tabIds t"
  shows "task_inv (snd (touchTask now x t' reg))"
  using assms by (auto simp: touchTask_def Let_def intro: store_same_tabs_inv)

lemma resume_inv: "task_inv reg \<Longrightarrow> Map_get (tasks reg) (taskId t) = Some t \<Longrightarrow> task_inv (snd (resume now t reg))"
  by (auto simp: resume_def intro: touch_inv)

text \<open>The outcomes of \<open>requireOwnedTask\<close>: an error with no effect, the stored task, or the task resumed.\<close>

lemma requireOwnedTask_outcome:
  assumes "requireOwnedTask now tid owner fin res reg = (r, reg')"
  shows "(\<exists>e. r = Inl e \<and> reg' = reg) \<or>
    (\<exists>t. Map_get (tasks reg) tid = Some t \<and> ownerScopeHash t = owner \<and> r = Inr t \<and> reg' = reg \<and>
      task_state t \<noteq> Expired \<and> task_state t \<noteq> Finishing \<and> (task_state t = Finished \<longrightarrow> fin) \<and>
      \<not> (res \<and> task_state t = Suspended)) \<or>
    (\<exists>t. Map_get (tasks reg) tid = Some t \<and> ownerScopeHash t = owner \<and> res \<and>
      task_state t = Suspended \<and> r = Inr (fst (resume now t reg)) \<and> reg' = snd (resume now t reg))"
proof (cases "Map_get (tasks reg) tid")
  case None
  with assms show ?thesis by (auto simp: requireOwnedTask_def)
next
  case (Some t)
  with assms show ?thesis
    by (simp add: requireOwnedTask_def ok_def split: if_splits) auto
qed

lemma requireOwnedTask_cases:
  assumes "requireOwnedTask now tid owner fin res reg = (r, reg')"
  obtains (error) e where "r = Inl e" "reg' = reg"
  | (found) t where "Map_get (tasks reg) tid = Some t" "ownerScopeHash t = owner" "r = Inr t" "reg' = reg"
      "task_state t \<noteq> Expired" "task_state t \<noteq> Finishing" "task_state t = Finished \<longrightarrow> fin"
      "\<not> (res \<and> task_state t = Suspended)"
  | (resumed) t where "Map_get (tasks reg) tid = Some t" "ownerScopeHash t = owner" "res"
      "task_state t = Suspended" "r = Inr (fst (resume now t reg))" "reg' = snd (resume now t reg)"
  using requireOwnedTask_outcome [OF assms] by blast

lemma requireOwnedTask_inv:
  assumes "task_inv reg" and "requireOwnedTask now tid owner fin res reg = (r, reg')"
  shows "task_inv reg'"
  using assms(2)
proof (cases rule: requireOwnedTask_cases)
  case (resumed t)
  with inv_key [OF assms(1)] show ?thesis by (auto intro!: resume_inv assms(1))
qed (use assms in auto)

lemma task_create_inv:
  assumes "task_inv reg" and "\<not> Map_has (tasks reg) (''task-'' @ uuid)"
    and "task_create sha now uuid ctx reg = (r, reg')"
  shows "task_inv reg'"
proof -
  have "tabs_agree ((Map_get (tasks reg))(''task-'' @ uuid \<mapsto> t)) (Map_get (taskByTab reg))"
    if "taskId t = ''task-'' @ uuid" "tabIds t = []" for t
    using assms(1,2) that by (auto simp: task_inv_def Map_has_get intro!: tabs_agree_new)
  with assms show ?thesis
    by (auto simp: task_create_def task_inv_def browserTaskSchema_def split: sum.splits if_splits)
qed

lemma filter_single_value:
  "filter P (Map_values m) = [t] \<Longrightarrow> t \<in> set (Map_values m) \<and> P t"
  using set_filter [of P "Map_values m"] by auto

lemma resolveForOpen_inv:
  assumes "task_inv reg" and "\<not> Map_has (tasks reg) (''task-'' @ uuid)"
    and "resolveForOpen sha now uuid tid ctx reg = (r, reg')"
  shows "task_inv reg'"
  using assms
  by (auto simp: resolveForOpen_def ok_def split: option.splits list.splits
      dest: requireOwnedTask_inv [OF assms(1)] task_create_inv [OF assms(1,2)]
      intro!: resume_inv assms(1) inv_value [OF assms(1)] dest!: filter_single_value)

lemma resolveScoped_inv:
  assumes "task_inv reg" and "resolveScoped sha now tid ctx fin reg = (r, reg')"
  shows "task_inv reg'"
  using assms
  by (auto simp: resolveScoped_def ok_def split: option.splits list.splits if_splits
      dest: requireOwnedTask_inv [OF assms(1)]
      intro!: resume_inv assms(1) inv_value [OF assms(1)] dest!: filter_single_value)

lemma assertTabAccess_inv:
  assumes "task_inv reg" and "assertTabAccess sha now tab ctx reg = (r, reg')"
  shows "task_inv reg'"
  using assms
  by (auto simp: assertTabAccess_def split: option.splits dest: requireOwnedTask_inv)

lemma add_tab_inv:
  assumes inv: "task_inv reg" and get: "Map_get (tasks reg) tid = Some t"
    and free: "\<not> belongs_elsewhere tab tid reg"
    and t': "taskId t' = tid" "tabIds t' = tabIds (add_tab t tab)"
  shows "task_inv (store_task t' (reg\<lparr>taskByTab := Map_set (taskByTab reg) tab tid\<rparr>))"
proof -
  have "tabs_agree ((Map_get (tasks reg))(tid \<mapsto> t')) ((Map_get (taskByTab reg))(tab \<mapsto> tid))"
    using inv inv_not_elsewhere [OF inv free] get t' by (auto simp: task_inv_def intro: tabs_agree_add)
  with inv t' show ?thesis by (simp add: task_inv_def Map_get_update_fun map_model)
qed

lemma attachTab_inv:
  assumes "task_inv reg" and "attachTab sha now now' tid tab ctx reg = (r, reg')"
  shows "task_inv reg'"
proof -
  obtain r1 reg1 where req: "requireOwnedTask now tid (ownerHash sha ctx) False True reg = (r1, reg1)"
    by fastforce
  have inv1: "task_inv reg1" by (rule requireOwnedTask_inv [OF assms(1) req])
  have "task_inv (snd (touchTask now' True (add_tab t tab)
      (reg1\<lparr>taskByTab := Map_set (taskByTab reg1) tab (taskId t)\<rparr>)))"
    if "Map_get (tasks reg1) tid = Some t" "\<not> belongs_elsewhere tab (taskId t) reg1" for t
    using that inv_key [OF inv1] by (auto simp: touchTask_def Let_def intro!: add_tab_inv inv1)
  with assms req inv1 show ?thesis
    by (auto simp: attachTab_def ok_def split: sum.splits option.splits if_splits)
qed

lemma attachExistingTab_inv:
  assumes "task_inv reg" and "attachExistingTab tid tab reg = (r, reg')"
  shows "task_inv reg'"
  using assms inv_key [OF assms(1)]
  by (auto simp: attachExistingTab_def intro!: add_tab_inv split: option.splits if_splits)

lemma detachTab_inv:
  assumes "task_inv reg"
  shows "task_inv (detachTab now tab reg)"
proof (cases "truthy (Map_get (taskByTab reg) tab)")
  case None
  with assms show ?thesis by (simp add: detachTab_def)
next
  case (Some tid)
  then have idx: "Map_get (taskByTab reg) tab = Some tid" by (simp add: truthy_Some)
  then obtain t where t: "Map_get (tasks reg) tid = Some t" using inv_indexed [OF assms] by blast
  let ?t' = "touched now (ttlMs reg) True (t\<lparr>tabIds := filter (\<lambda>c. c \<noteq> tab) (tabIds t)\<rparr>)"
  have "tabs_agree ((Map_get (tasks reg))(tid \<mapsto> ?t')) ((Map_get (taskByTab reg))(tab := None))"
    using assms idx t inv_key [OF assms t] by (auto simp: task_inv_def intro: tabs_agree_remove)
  with assms Some t inv_key [OF assms t] show ?thesis
    by (simp add: detachTab_def touchTask_def Let_def task_inv_def Map_get_update_fun map_model)
qed

lemma terminate_inv:
  assumes "task_inv reg" and "terminate s now tid reg = (r, reg')"
  shows "task_inv reg'"
proof -
  have "tabs_agree ((Map_get (tasks reg))(tid \<mapsto> t'))
      (\<lambda>tab. if tab \<in> set (tabIds t) then None else Map_get (taskByTab reg) tab)"
    if "Map_get (tasks reg) tid = Some t" "taskId t' = tid" "tabIds t' = []" for t t'
    using assms(1) that by (auto simp: task_inv_def intro: tabs_agree_clear)
  moreover have "Map_get (fold (\<lambda>tab m. Map_delete m tab) tabs m) =
      (\<lambda>tab. if tab \<in> set tabs then None else Map_get m tab)" for tabs and m :: "(string, string) jsMap"
    by (auto simp: jsm.get_dels)
  ultimately show ?thesis using assms inv_key [OF assms(1)]
    by (auto simp: terminate_def Let_def task_inv_def jsm.valid_dels split: option.splits)
qed

lemma acquireForTask_inv:
  assumes "task_inv reg" and "acquireForTask sha now tid ctx reg = (r, reg')"
  shows "task_inv reg'"
  using assms(2)
  by (auto simp: acquireForTask_def split: prod.splits sum.splits dest: requireOwnedTask_inv [OF assms(1)])

lemma acquireForTab_inv:
  assumes "task_inv reg" and "acquireForTab sha now now' tab ctx reg = (r, reg')"
  shows "task_inv reg'"
proof -
  obtain r1 reg1 where req: "assertTabAccess sha now tab ctx reg = (r1, reg1)" by fastforce
  with assertTabAccess_inv [OF assms(1)] have inv1: "task_inv reg1" by blast
  with assms(2) req show ?thesis
    by (auto simp: acquireForTab_def split: sum.splits dest: acquireForTask_inv [OF inv1])
qed

lemma beginFinish_inv:
  assumes "task_inv reg" and "beginFinish sha now tid ctx reg = (r, reg')"
  shows "task_inv reg'"
proof -
  obtain r1 reg1 where req: "requireOwnedTask now tid (ownerHash sha ctx) True False reg = (r1, reg1)"
    by fastforce
  with requireOwnedTask_inv [OF assms(1)] have inv1: "task_inv reg1" by blast
  with assms(2) req inv_key [OF inv1] show ?thesis
    by (auto simp: beginFinish_def ok_def split: sum.splits option.splits if_splits intro!: touch_inv inv1)
qed

lemma release_inv: "task_inv reg \<Longrightarrow> task_inv (release now tid reg)"
  by (auto simp: release_def Let_def intro!: touch_inv dest: inv_key split: option.splits if_splits)

lemma beginExpiration_inv: "task_inv reg \<Longrightarrow> task_inv (snd (beginExpiration now tid reg))"
  by (auto simp: beginExpiration_def Let_def intro!: store_same_tabs_inv dest: inv_key split: option.splits)

lemma restore_inv: "task_inv reg \<Longrightarrow> task_inv (snd (restoreAfterFailedFinalization now tid reg))"
  by (auto simp: restoreAfterFailedFinalization_def touchTask_def Let_def intro!: store_same_tabs_inv
      dest: inv_key split: option.splits)

lemmas task_op_invs = resolveForOpen_inv [OF _ _ surjective_pairing] resolveScoped_inv [OF _ surjective_pairing]
  task_create_inv [OF _ _ surjective_pairing] assertTabAccess_inv [OF _ surjective_pairing]
  attachTab_inv [OF _ surjective_pairing] attachExistingTab_inv [OF _ surjective_pairing] detachTab_inv
  terminate_inv [OF _ surjective_pairing] acquireForTask_inv [OF _ surjective_pairing]
  acquireForTab_inv [OF _ surjective_pairing] beginFinish_inv [OF _ surjective_pairing]
  release_inv beginExpiration_inv restore_inv

lemma task_exec_inv:
  assumes "task_inv reg" and "fresh_id c reg" and "task_exec sha c reg = (r, reg')"
  shows "task_inv reg'"
  using assms
  by (cases c) (auto simp: some_task_def no_task_def ok_def completeFinish_def markExpired_def
      intro!: task_op_invs)

lemma task_reachable_inv: "task_reachable sha reg0 reg \<Longrightarrow> task_inv reg0 \<Longrightarrow> task_inv reg"
  by (induction rule: task_reachable.induct) (auto intro: task_exec_inv)


section \<open>Isolation of owner scopes\<close>

text \<open>The owner scope a call is made under; \<open>None\<close> for the calls of the runtime itself.\<close>

fun call_owner :: "task_call \<Rightarrow> string option option" where
  "call_owner (ResolveForOpen _ _ _ ctx) = Some ctx"
| "call_owner (ResolveScoped _ _ ctx _) = Some ctx"
| "call_owner (Create _ _ ctx) = Some ctx"
| "call_owner (AssertTabAccess _ _ ctx) = Some ctx"
| "call_owner (AttachTab _ _ _ _ ctx) = Some ctx"
| "call_owner (AcquireForTask _ _ ctx) = Some ctx"
| "call_owner (AcquireForTab _ _ _ ctx) = Some ctx"
| "call_owner (BeginFinish _ _ ctx) = Some ctx"
| "call_owner _ = None"

text \<open>
  \<open>foreign_kept h reg reg'\<close>: every task of another owner than \<open>h\<close> is unchanged, keeps its tabs
  and its leases.
\<close>

definition foreign_kept :: "string \<Rightarrow> BrowserTaskRegistry \<Rightarrow> BrowserTaskRegistry \<Rightarrow> bool" where
  "foreign_kept h reg reg' \<longleftrightarrow>
    (\<forall>k t. Map_get (tasks reg) k = Some t \<and> ownerScopeHash t \<noteq> h \<longrightarrow>
       Map_get (tasks reg') k = Some t \<and> leaseCount k reg' = leaseCount k reg \<and>
       (\<forall>tab \<in> set (tabIds t). Map_get (taskByTab reg') tab = Map_get (taskByTab reg) tab))"

lemma foreign_kept_refl [simp]: "foreign_kept h reg reg"
  by (simp add: foreign_kept_def)

lemma foreign_kept_trans: "foreign_kept h a b \<Longrightarrow> foreign_kept h b c \<Longrightarrow> foreign_kept h a c"
  unfolding foreign_kept_def by metis

lemma leaseCount_store [simp]: "leaseCount k (store_task t reg) = leaseCount k reg"
  by (simp add: leaseCount_def)

lemma foreign_kept_store:
  assumes "Map_get (tasks reg) (taskId t') = None \<or>
      (\<exists>t. Map_get (tasks reg) (taskId t') = Some t \<and> ownerScopeHash t = h)"
  shows "foreign_kept h reg (store_task t' reg)"
  using assms by (auto simp: foreign_kept_def)

lemma foreign_kept_resume:
  assumes "Map_get (tasks reg) (taskId t) = Some t" and "ownerScopeHash t = h"
  shows "foreign_kept h reg (snd (resume now t reg))"
  using assms by (auto simp: task_simps intro!: foreign_kept_store)

lemma resume_owner [simp]:
  "ownerScopeHash (fst (resume now t reg)) = ownerScopeHash t" "taskId (fst (resume now t reg)) = taskId t"
  by (simp_all add: task_simps)

lemma requireOwnedTask_owner:
  assumes "task_inv reg" and "requireOwnedTask now tid h fin res reg = (r, reg')"
  shows "foreign_kept h reg reg'" and "r = Inr t \<Longrightarrow> ownerScopeHash t = h \<and> taskId t = tid"
proof -
  show "foreign_kept h reg reg'"
    using assms(2) inv_key [OF assms(1)] by (cases rule: requireOwnedTask_cases) (auto intro!: foreign_kept_resume)
  show "ownerScopeHash t = h \<and> taskId t = tid" if "r = Inr t"
    using assms(2) that inv_key [OF assms(1)] by (cases rule: requireOwnedTask_cases) auto
qed

lemma resume_stored: "Map_get (tasks (snd (resume now t reg))) (taskId t) = Some (fst (resume now t reg))"
  by (simp add: resume_def touchTask_def Let_def)

lemma requireOwnedTask_stored:
  assumes inv: "task_inv reg" and req: "requireOwnedTask now tid h fin res reg = (Inr t, reg')"
  shows "Map_get (tasks reg') tid = Some t"
  using req
proof (cases rule: requireOwnedTask_cases)
  case (resumed s)
  with inv_key [OF inv resumed(1)] resume_stored [of now s reg] show ?thesis by simp
qed simp_all

text \<open>What a client call guarantees about its result and about the other owners.\<close>

definition owner_safe :: "string \<Rightarrow> BrowserTaskRegistry \<Rightarrow> task option result \<times> BrowserTaskRegistry \<Rightarrow> bool" where
  "owner_safe h reg p \<longleftrightarrow> foreign_kept h reg (snd p) \<and>
    (\<forall>t. fst p = Inr (Some t) \<longrightarrow> ownerScopeHash t = h)"

lemma owner_safe_some:
  assumes "op = (r, reg')" and "foreign_kept h reg reg'" and "\<And>t. r = Inr t \<Longrightarrow> ownerScopeHash t = h"
  shows "owner_safe h reg (some_task op)"
  using assms by (cases r) (auto simp: owner_safe_def some_task_def)

lemma owner_safe_no:
  assumes "op = (r, reg')" and "foreign_kept h reg reg'"
  shows "owner_safe h reg (no_task op)"
  using assms by (cases r) (auto simp: owner_safe_def no_task_def)

lemma owner_safe_require:
  "task_inv reg \<Longrightarrow> owner_safe h reg (some_task (requireOwnedTask now tid h fin res reg))"
  by (rule owner_safe_some [OF surjective_pairing])
    (auto dest: requireOwnedTask_owner [OF _ surjective_pairing] requireOwnedTask_owner(2) [OF _ prod.collapse [symmetric]])

lemma owner_safe_create:
  assumes "\<not> Map_has (tasks reg) (''task-'' @ uuid)"
  shows "owner_safe (ownerHash sha ctx) reg (some_task (task_create sha now uuid ctx reg))"
  using assms
  by (auto simp: owner_safe_def some_task_def task_create_def browserTaskSchema_def Map_has_get
      intro!: foreign_kept_store)

lemma owner_safe_resume:
  assumes "task_inv reg" and "t \<in> set (Map_values (tasks reg))" and "ownerScopeHash t = h"
  shows "owner_safe h reg (some_task (ok (resume now t reg)))"
  using assms inv_value [OF assms(1,2)]
  by (auto simp: owner_safe_def some_task_def ok_def intro!: foreign_kept_resume)

lemma owner_safe_error [simp]: "owner_safe h reg (some_task (Inl e, reg))" "owner_safe h reg (no_task (Inl e, reg))"
  by (simp_all add: owner_safe_def some_task_def no_task_def)

lemma owner_safe_value:
  "ownerScopeHash t = h \<Longrightarrow> owner_safe h reg (some_task (Inr t, reg))"
  by (simp add: owner_safe_def some_task_def)

lemma owner_safe_attach:
  assumes inv: "task_inv reg"
  shows "owner_safe (ownerHash sha ctx) reg (some_task (attachTab sha now now' tid tab ctx reg))"
proof -
  let ?h = "ownerHash sha ctx"
  obtain r1 reg1 where req: "requireOwnedTask now tid ?h False True reg = (r1, reg1)" by fastforce
  note inv1 = requireOwnedTask_inv [OF inv req] and kept1 = requireOwnedTask_owner(1) [OF inv req]
  show ?thesis
  proof (cases r1)
    case (Inl e)
    with req kept1 show ?thesis by (simp add: attachTab_def owner_safe_def some_task_def)
  next
    case (Inr t1)
    with req have owned: "ownerScopeHash t1 = ?h" "Map_get (tasks reg1) tid = Some t1"
      using requireOwnedTask_owner(2) [OF inv] requireOwnedTask_stored [OF inv] by blast+
    let ?reg2 = "reg1\<lparr>taskByTab := Map_set (taskByTab reg1) tab tid\<rparr>"
    have key: "taskId t1 = tid" using owned inv_key [OF inv1] by blast
    have kept2: "foreign_kept ?h reg1 (store_task t' ?reg2)"
      if "\<not> belongs_elsewhere tab tid reg1" "taskId t' = tid" for t'
    proof -
      have "tab \<notin> set (tabIds t)" if "Map_get (tasks reg1) k = Some t" "ownerScopeHash t \<noteq> ?h" for k t
        using inv_not_elsewhere [OF inv1 \<open>\<not> belongs_elsewhere tab tid reg1\<close>] that inv1 owned
        unfolding task_inv_def tabs_agree_def by (metis option.distinct(1) option.inject)
      with that owned show ?thesis
        by (auto simp: foreign_kept_def leaseCount_def Map_get_update_fun)
    qed
    show ?thesis
    proof (cases "belongs_elsewhere tab tid reg1")
      case True
      with req Inr owned key kept1 show ?thesis
        by (simp add: attachTab_def owner_safe_def some_task_def)
    next
      case False
      with kept2 [OF False] key have "foreign_kept ?h reg1 (store_task (touched now' (ttlMs reg1) True (add_tab t1 tab)) ?reg2)"
        by simp
      with req Inr owned key kept1 False show ?thesis
        by (auto simp: attachTab_def owner_safe_def some_task_def ok_def touchTask_def Let_def
            intro: foreign_kept_trans)
    qed
  qed
qed

lemma foreign_kept_lease:
  assumes "Map_get (tasks reg) k = Some t" and "ownerScopeHash t = h"
  shows "foreign_kept h reg (reg\<lparr>activeLeases := Map_set (activeLeases reg) k n\<rparr>)"
  using assms by (auto simp: foreign_kept_def leaseCount_def Map_get_update_fun)

lemma acquireForTask_kept:
  assumes inv: "task_inv reg" and "acquireForTask sha now tid ctx reg = (r, reg')"
  shows "foreign_kept (ownerHash sha ctx) reg reg'"
proof -
  let ?h = "ownerHash sha ctx"
  obtain r1 reg1 where req: "requireOwnedTask now tid ?h False True reg = (r1, reg1)" by fastforce
  note kept1 = requireOwnedTask_owner(1) [OF inv req]
  show ?thesis
  proof (cases r1)
    case (Inl e)
    with req kept1 assms show ?thesis by (auto simp: acquireForTask_def)
  next
    case (Inr t1)
    with req have "ownerScopeHash t1 = ?h" "Map_get (tasks reg1) (taskId t1) = Some t1"
      using requireOwnedTask_owner(2) [OF inv] requireOwnedTask_stored [OF inv] by blast+
    with req Inr kept1 assms(2) show ?thesis
      by (auto simp: acquireForTask_def intro: foreign_kept_trans foreign_kept_lease)
  qed
qed

lemma acquireForTab_kept:
  assumes inv: "task_inv reg" and "acquireForTab sha now now' tab ctx reg = (r, reg')"
  shows "foreign_kept (ownerHash sha ctx) reg reg'"
proof -
  obtain r1 reg1 where req: "assertTabAccess sha now tab ctx reg = (r1, reg1)" by fastforce
  have "task_inv reg1" by (rule assertTabAccess_inv [OF inv req])
  moreover have "foreign_kept (ownerHash sha ctx) reg reg1"
    using req requireOwnedTask_owner(1) [OF inv] by (auto simp: assertTabAccess_def split: option.splits)
  ultimately show ?thesis using assms(2) req
    by (auto simp: acquireForTab_def split: sum.splits intro: foreign_kept_trans dest: acquireForTask_kept)
qed

lemma owner_safe_beginFinish:
  assumes inv: "task_inv reg"
  shows "owner_safe (ownerHash sha ctx) reg (some_task (beginFinish sha now tid ctx reg))"
proof -
  let ?h = "ownerHash sha ctx"
  obtain r1 reg1 where req: "requireOwnedTask now tid ?h True False reg = (r1, reg1)" by fastforce
  then show ?thesis
  proof (cases rule: requireOwnedTask_cases)
    case (found t)
    with req inv_key [OF inv] show ?thesis
      by (auto simp: beginFinish_def owner_safe_def task_simps intro!: foreign_kept_store)
  qed (use req in \<open>simp_all add: beginFinish_def\<close>)
qed

lemma task_exec_owner_safe:
  assumes "task_inv reg" and "fresh_id c reg" and "call_owner c = Some ctx"
  shows "owner_safe (ownerHash sha ctx) reg (task_exec sha c reg)"
proof (cases c)
  case (ResolveForOpen now uuid tid ctx')
  with assms show ?thesis
    by (auto simp: resolveForOpen_def split: option.splits list.splits
        intro: owner_safe_require owner_safe_create owner_safe_resume dest!: filter_single_value)
next
  case (ResolveScoped now tid ctx' fin)
  with assms show ?thesis
    by (auto simp: resolveScoped_def split: option.splits list.splits
        intro: owner_safe_require owner_safe_value owner_safe_resume dest!: filter_single_value)
next
  case (AssertTabAccess now tab ctx')
  with assms show ?thesis
    by (auto simp: assertTabAccess_def split: option.splits intro: owner_safe_require)
next
  case (AcquireForTask now tid ctx')
  with assms show ?thesis
    by (auto intro!: owner_safe_no [OF surjective_pairing] acquireForTask_kept [OF _ surjective_pairing])
next
  case (AcquireForTab now now' tab ctx')
  with assms show ?thesis
    by (auto intro!: owner_safe_no [OF surjective_pairing] acquireForTab_kept [OF _ surjective_pairing])
qed (use assms in \<open>auto intro: owner_safe_create owner_safe_attach owner_safe_beginFinish\<close>)


section \<open>Terminal tasks and leases\<close>

text \<open>
  \<open>stays_terminal reg reg'\<close>: a finished or expired task is still there, finished or expired, and
  still of the same owner.
\<close>

definition stays_terminal :: "BrowserTaskRegistry \<Rightarrow> BrowserTaskRegistry \<Rightarrow> bool" where
  "stays_terminal reg reg' \<longleftrightarrow>
    (\<forall>k t. Map_get (tasks reg) k = Some t \<and> isTerminal (task_state t) \<longrightarrow>
      (\<exists>t'. Map_get (tasks reg') k = Some t' \<and> isTerminal (task_state t') \<and>
        ownerScopeHash t' = ownerScopeHash t))"

lemma stays_terminal_refl [simp]: "stays_terminal reg reg"
  by (auto simp: stays_terminal_def)

lemma stays_terminal_trans: "stays_terminal a b \<Longrightarrow> stays_terminal b c \<Longrightarrow> stays_terminal a c"
  unfolding stays_terminal_def by metis

lemma stays_terminal_same_tasks [simp]:
  "stays_terminal a (b\<lparr>activeLeases := x\<rparr>) = stays_terminal a b"
  "stays_terminal a (b\<lparr>taskByTab := y\<rparr>) = stays_terminal a b"
  "stays_terminal (a\<lparr>taskByTab := y\<rparr>) b = stays_terminal a b"
  "stays_terminal (a\<lparr>activeLeases := x\<rparr>) b = stays_terminal a b"
  by (simp_all add: stays_terminal_def)

lemma stays_terminal_store:
  assumes "Map_get (tasks reg) (taskId t') = Some t" and "ownerScopeHash t' = ownerScopeHash t"
    and "isTerminal (task_state t) \<Longrightarrow> isTerminal (task_state t')"
  shows "stays_terminal reg (store_task t' reg)"
  using assms by (auto simp: stays_terminal_def)

lemma stays_terminal_store_tabs:
  "stays_terminal reg (store_task t' reg) \<Longrightarrow> stays_terminal reg (store_task t' (reg\<lparr>taskByTab := y\<rparr>))"
  by (auto simp: stays_terminal_def)

lemma stays_terminal_store_leases:
  "stays_terminal reg (store_task t' reg) \<Longrightarrow> stays_terminal reg (store_task t' (reg\<lparr>activeLeases := y\<rparr>))"
  by (auto simp: stays_terminal_def)

lemma stays_terminal_new:
  assumes "Map_get (tasks reg) (taskId t') = None"
  shows "stays_terminal reg (store_task t' reg)"
  using assms by (auto simp: stays_terminal_def)

lemma stays_terminal_resume:
  assumes "Map_get (tasks reg) (taskId t) = Some t" and "isAccessibleState (task_state t)"
  shows "stays_terminal reg (snd (resume now t reg))"
  using assms
  by (auto simp: resume_def touchTask_def Let_def isAccessibleState_def isTerminal_def intro!: stays_terminal_store)

lemma stays_terminal_require:
  assumes "task_inv reg" and "requireOwnedTask now tid h fin res reg = (r, reg')"
  shows "stays_terminal reg reg'"
  using assms(2) inv_key [OF assms(1)]
  by (cases rule: requireOwnedTask_cases)
    (auto intro!: stays_terminal_resume simp: isAccessibleState_def)

lemma stays_terminal_attach:
  assumes inv: "task_inv reg" and "attachTab sha now now' tid tab ctx reg = (r, reg')"
  shows "stays_terminal reg reg'"
proof -
  obtain r1 reg1 where req: "requireOwnedTask now tid (ownerHash sha ctx) False True reg = (r1, reg1)"
    by fastforce
  note inv1 = requireOwnedTask_inv [OF inv req] and st1 = stays_terminal_require [OF inv req]
  have "stays_terminal reg1 (store_task (touched now' ttl x (add_tab t tab)) (reg1\<lparr>taskByTab := y\<rparr>))"
    if "Map_get (tasks reg1) tid = Some t" for t ttl x y
    using that inv_key [OF inv1] by (auto intro!: stays_terminal_store_tabs stays_terminal_store)
  with assms(2) req st1 show ?thesis
    by (auto simp: attachTab_def ok_def touchTask_def Let_def intro: stays_terminal_trans
        split: sum.splits option.splits if_splits)
qed

lemma stays_terminal_acquire:
  assumes "task_inv reg" and "acquireForTask sha now tid ctx reg = (r, reg')"
  shows "stays_terminal reg reg'"
  using assms(2)
  by (auto simp: acquireForTask_def split: prod.splits sum.splits dest: stays_terminal_require [OF assms(1)])

lemma stays_terminal_acquireTab:
  assumes inv: "task_inv reg" and "acquireForTab sha now now' tab ctx reg = (r, reg')"
  shows "stays_terminal reg reg'"
proof -
  obtain r1 reg1 where req: "assertTabAccess sha now tab ctx reg = (r1, reg1)" by fastforce
  have inv1: "task_inv reg1" by (rule assertTabAccess_inv [OF inv req])
  moreover have "stays_terminal reg reg1"
    using req stays_terminal_require [OF inv] by (auto simp: assertTabAccess_def split: option.splits)
  ultimately show ?thesis using assms(2) req
    by (auto simp: acquireForTab_def split: sum.splits intro: stays_terminal_trans
        dest: stays_terminal_acquire [OF inv1])
qed

lemma stays_terminal_beginFinish:
  assumes inv: "task_inv reg" and "beginFinish sha now tid ctx reg = (r, reg')"
  shows "stays_terminal reg reg'"
proof -
  obtain r1 reg1 where req: "requireOwnedTask now tid (ownerHash sha ctx) True False reg = (r1, reg1)"
    by fastforce
  then show ?thesis
  proof (cases rule: requireOwnedTask_cases)
    case (found t)
    with req assms inv_key [OF inv] show ?thesis
      by (auto simp: beginFinish_def ok_def touchTask_def Let_def isTerminal_def
          intro!: stays_terminal_store split: if_splits)
  qed (use req assms in \<open>auto simp: beginFinish_def\<close>)
qed

lemma stays_terminal_terminate:
  assumes "task_inv reg" and "isTerminal s"
  shows "stays_terminal reg (snd (terminate s now tid reg))"
  using assms inv_key [OF assms(1)]
  by (auto simp: terminate_def Let_def intro!: stays_terminal_store_tabs stays_terminal_store split: option.splits)

lemma stays_terminal_detach:
  assumes "task_inv reg"
  shows "stays_terminal reg (detachTab now tab reg)"
  using assms inv_key [OF assms]
  by (auto simp: detachTab_def touchTask_def Let_def intro!: stays_terminal_store_tabs stays_terminal_store
      split: option.splits)

lemma stays_terminal_release:
  assumes "task_inv reg"
  shows "stays_terminal reg (release now tid reg)"
  using inv_key [OF assms]
  by (auto simp: release_def touchTask_def Let_def intro!: stays_terminal_store_leases stays_terminal_store
      split: option.splits)

lemma task_exec_stays_terminal:
  assumes "task_inv reg" and "fresh_id c reg"
  shows "stays_terminal reg (snd (task_exec sha c reg))"
proof (cases c)
  case (ResolveForOpen now uuid tid ctx)
  with assms show ?thesis
    by (auto simp: resolveForOpen_def some_task_def ok_def task_create_def browserTaskSchema_def Map_has_get
        split: option.splits list.splits dest!: filter_single_value
        intro!: stays_terminal_resume stays_terminal_require [OF _ surjective_pairing] stays_terminal_new inv_value)
next
  case (ResolveScoped now tid ctx fin)
  with assms show ?thesis
    by (auto simp: resolveScoped_def some_task_def ok_def split: option.splits list.splits
        dest!: filter_single_value
        intro!: stays_terminal_resume stays_terminal_require [OF _ surjective_pairing] inv_value)
next
  case (AssertTabAccess now tab ctx)
  with assms show ?thesis
    by (auto simp: assertTabAccess_def some_task_def split: option.splits
        intro!: stays_terminal_require [OF _ surjective_pairing])
next
  case (AttachExistingTab tid tab)
  with assms inv_key [OF assms(1)] show ?thesis
    by (auto simp: attachExistingTab_def some_task_def split: option.splits
        intro!: stays_terminal_store_tabs stays_terminal_store)
next
  case (BeginExpiration now tid)
  with assms inv_key [OF assms(1)] show ?thesis
    by (auto simp: beginExpiration_def ok_def Let_def isAccessibleState_def isTerminal_def split: option.splits
        intro!: stays_terminal_store)
next
  case (RestoreAfterFailedFinalization now tid)
  with assms inv_key [OF assms(1)] show ?thesis
    by (auto simp: restoreAfterFailedFinalization_def ok_def touchTask_def Let_def isTerminal_def
        split: option.splits intro!: stays_terminal_store)
qed (use assms in \<open>auto simp: some_task_def no_task_def completeFinish_def markExpired_def isTerminal_def
    task_create_def browserTaskSchema_def Map_has_get
    intro!: stays_terminal_attach [OF _ surjective_pairing] stays_terminal_acquire [OF _ surjective_pairing]
      stays_terminal_acquireTab [OF _ surjective_pairing] stays_terminal_beginFinish [OF _ surjective_pairing]
      stays_terminal_terminate stays_terminal_detach stays_terminal_release stays_terminal_new\<close>)


text \<open>How a call changes the number of leases on task \<open>k\<close>.\<close>

fun lease_effect :: "task_call \<Rightarrow> bool \<Rightarrow> BrowserTaskRegistry \<Rightarrow> string \<Rightarrow> nat \<Rightarrow> nat" where
  "lease_effect (AcquireForTask _ tid _) done reg k n = (if done \<and> k = tid then n + 1 else n)"
| "lease_effect (AcquireForTab _ _ tab _) done reg k n =
    (if done \<and> Map_get (taskByTab reg) tab = Some k then n + 1 else n)"
| "lease_effect (Release _ tid) done reg k n = (if k = tid then n - 1 else n)"
| "lease_effect _ done reg k n = n"

lemma leaseCount_touch [simp]: "leaseCount k (snd (touchTask now x t reg)) = leaseCount k reg"
  by (simp add: touchTask_def Let_def)

lemma leaseCount_resume [simp]: "leaseCount k (snd (resume now t reg)) = leaseCount k reg"
  by (simp add: resume_def)

lemma leaseCount_tabs [simp]: "leaseCount k (reg\<lparr>taskByTab := x\<rparr>) = leaseCount k reg"
  by (simp add: leaseCount_def)

lemma leaseCount_require: "requireOwnedTask now tid h fin res reg = (r, reg') \<Longrightarrow> leaseCount k reg' = leaseCount k reg"
  by (erule requireOwnedTask_cases) auto

lemma leaseCount_assertTab: "assertTabAccess sha now tab ctx reg = (r, reg') \<Longrightarrow> leaseCount k reg' = leaseCount k reg"
  by (auto simp: assertTabAccess_def split: option.splits dest: leaseCount_require)

lemma leaseCount_acquire:
  assumes "task_inv reg" and "acquireForTask sha now tid ctx reg = (r, reg')"
  shows "leaseCount k reg' = (if succeeds r \<and> k = tid then leaseCount k reg + 1 else leaseCount k reg)"
  using assms(2) requireOwnedTask_owner(2) [OF assms(1)]
  by (auto simp: acquireForTask_def leaseCount_def Map_get_update_fun
      dest!: leaseCount_require [where k = k, unfolded leaseCount_def]
      split: prod.splits sum.splits if_splits)

lemma leaseCount_acquireTab:
  assumes "task_inv reg" and "acquireForTab sha now now' tab ctx reg = (r, reg')"
  shows "leaseCount k reg' =
    (if succeeds r \<and> Map_get (taskByTab reg) tab = Some k then leaseCount k reg + 1 else leaseCount k reg)"
proof -
  obtain r1 reg1 where req: "assertTabAccess sha now tab ctx reg = (r1, reg1)" by fastforce
  note inv1 = assertTabAccess_inv [OF assms(1) req] and same = leaseCount_assertTab [OF req]
  show ?thesis
  proof (cases r1)
    case (Inl e)
    with assms req same show ?thesis by (auto simp: acquireForTab_def)
  next
    case (Inr t)
    with req have "Map_get (taskByTab reg) tab = Some (taskId t)"
      using requireOwnedTask_owner(2) [OF assms(1)]
      by (auto simp: assertTabAccess_def truthy_Some split: option.splits)
    moreover have "acquireForTask sha now' (taskId t) ctx reg1 = (r, reg')"
      using assms req Inr by (simp add: acquireForTab_def)
    ultimately show ?thesis using leaseCount_acquire [OF inv1] same by auto
  qed
qed

lemma leaseCount_write [simp]:
  "leaseCount k (reg\<lparr>activeLeases := Map_set (activeLeases reg) tid m\<rparr>) = (if k = tid then m else leaseCount k reg)"
  "leaseCount k (reg\<lparr>activeLeases := Map_delete (activeLeases reg) tid\<rparr>) = (if k = tid then 0 else leaseCount k reg)"
  by (simp_all add: leaseCount_def map_model)

lemma leaseCount_release:
  "leaseCount k (release now tid reg) = (if k = tid then leaseCount k reg - 1 else leaseCount k reg)"
proof -
  have held: "(case Map_get (activeLeases reg) tid of None \<Rightarrow> 1 | Some n \<Rightarrow> n) - 1 = leaseCount tid reg - 1"
    by (simp add: leaseCount_def split: option.splits)
  show ?thesis unfolding release_def Let_def held by (auto split: option.splits)
qed

lemma task_exec_leases:
  assumes "task_inv reg" and "task_exec sha c reg = (r, reg')"
  shows "leaseCount k reg' = lease_effect c (succeeds r) reg k (leaseCount k reg)"
proof (cases c)
  case (AttachTab now now' tid tab ctx)
  with assms show ?thesis
    by (auto simp: some_task_def attachTab_def ok_def dest: leaseCount_require
        split: prod.splits sum.splits option.splits if_splits)
next
  case (BeginFinish now tid ctx)
  with assms show ?thesis
    by (auto simp: some_task_def beginFinish_def ok_def dest: leaseCount_require
        split: prod.splits sum.splits option.splits if_splits)
next
  case (AcquireForTask now tid ctx)
  with assms leaseCount_acquire [OF assms(1) surjective_pairing] show ?thesis
    by (auto simp: no_task_def succeeds_def split: sum.splits)
next
  case (AcquireForTab now now' tab ctx)
  with assms leaseCount_acquireTab [OF assms(1) surjective_pairing] show ?thesis
    by (auto simp: no_task_def succeeds_def split: sum.splits)
next
  case (ResolveForOpen now uuid tid ctx)
  with assms show ?thesis
    by (auto simp: some_task_def resolveForOpen_def task_create_def ok_def
        leaseCount_require [OF surjective_pairing] split: option.splits list.splits sum.splits)
next
  case (ResolveScoped now tid ctx fin)
  with assms show ?thesis
    by (auto simp: some_task_def resolveScoped_def ok_def
        leaseCount_require [OF surjective_pairing] split: option.splits list.splits)
qed (use assms in \<open>auto simp: some_task_def ok_def task_create_def attachExistingTab_def detachTab_def
    terminate_def completeFinish_def markExpired_def beginExpiration_def restoreAfterFailedFinalization_def
    touchTask_def leaseCount_assertTab [OF surjective_pairing] leaseCount_release Let_def split: sum.splits option.splits prod.splits\<close>)

section \<open>The constructor establishes the invariant\<close>

lemma tabs_agree_insert:
  assumes "tabs_agree T B" and "T k = None" and "taskId t = k" and "k \<noteq> []" and "distinct (tabIds t)"
    and "\<forall>tab \<in> set (tabIds t). B tab = None"
  shows "tabs_agree (T(k \<mapsto> t)) (\<lambda>tab. if tab \<in> set (tabIds t) then Some k else B tab)"
proof -
  have "(if x \<in> set (tabIds t) then Some k else B x) = Some j \<longleftrightarrow>
      (\<exists>s. (T(k \<mapsto> t)) j = Some s \<and> x \<in> set (tabIds s))" for x j
    using assms unfolding tabs_agree_def by (cases "j = k") (auto, metis option.distinct(1))
  with assms show ?thesis unfolding tabs_agree_def by auto
qed

lemma load_tasks_inv:
  assumes "task_inv reg" and "distinct (map taskId ts)" and "distinct (concat (map tabIds ts))"
    and "\<forall>t \<in> set ts. Map_get (tasks reg) (taskId t) = None"
    and "\<forall>t \<in> set ts. \<forall>tab \<in> set (tabIds t). Map_get (taskByTab reg) tab = None"
    and "load_tasks ts reg = Inr reg'"
  shows "task_inv reg'"
  using assms
proof (induction ts arbitrary: reg)
  case (Cons t ts)
  let ?B = "index_tabs (taskId t) (tabIds t) (taskByTab reg)"
  let ?reg = "reg\<lparr>tasks := Map_set (tasks reg) (taskId t) t, taskByTab := ?B\<rparr>"
  from Cons.prems(6) have ok: "browserTaskFields_ok t" and rest: "load_tasks ts ?reg = Inr reg'"
    by (auto simp: browserTaskSchema_def split: if_splits)
  have B: "Map_get ?B = (\<lambda>tab. if tab \<in> set (tabIds t) then Some (taskId t) else Map_get (taskByTab reg) tab)"
    using Cons.prems(5) by (auto simp: fun_eq_iff index_tabs_def jsm.get_put_new split: option.splits)
  have "tabs_agree ((Map_get (tasks reg))(taskId t \<mapsto> t)) (Map_get ?B)"
    using Cons.prems(1,3,4,5) ok unfolding B
    by (intro tabs_agree_insert) (auto simp: task_inv_def browserTaskFields_ok_def str_between_def)
  then have "task_inv ?reg"
    using Cons.prems(1) jsm.valid_put_new by (auto simp: task_inv_def Map_get_update_fun map_model index_tabs_def)
  moreover have "taskId u \<noteq> taskId t" if "u \<in> set ts" for u
    using Cons.prems(2) that by (metis distinct.simps(2) image_eqI list.simps(9) set_map)
  then have "\<forall>u \<in> set ts. Map_get (tasks ?reg) (taskId u) = None"
    using Cons.prems(4) by (simp add: Map_get_update_fun)
  moreover have "\<forall>u \<in> set ts. \<forall>tab \<in> set (tabIds u). Map_get (taskByTab ?reg) tab = None"
    using Cons.prems(3,5) by (auto simp: B)
  ultimately show ?case using Cons.IH [of ?reg] Cons.prems(2,3) rest by simp
qed simp

definition tasks_consistent :: "task list \<Rightarrow> bool" where
  "tasks_consistent ts = (distinct (map taskId ts) \<and> distinct (concat (map tabIds ts)))"

lemma new_task_registry_inv:
  assumes "tasks_consistent ts" and "new_task_registry ts ttl = Inr reg"
  shows "task_inv reg"
  using assms load_tasks_inv [of "\<lparr>tasks = [], taskByTab = [], activeLeases = [], ttlMs = ttl\<rparr>" ts reg]
  by (auto simp: tasks_consistent_def new_task_registry_def task_inv_def tabs_agree_def)


section \<open>Properties\<close>

text \<open>
  C15. Tab ownership. Start the registry from tasks with distinct identifiers and disjoint tab lists
  and make any calls: a tab listed by a task is indexed under that task, a tab indexed under a task is
  listed by it, and no tab is listed by two tasks.
\<close>

theorem browser_task_tabs_exclusive:
  assumes "new_task_registry ts ttl = Inr reg0" and "tasks_consistent ts"
    and "task_reachable sha reg0 reg"
  shows "(taskIdForTab tab reg = Some k \<longleftrightarrow>
      (\<exists>t. Map_get (tasks reg) k = Some t \<and> tab \<in> set (tabIds t))) \<and>
    (Map_get (tasks reg) i = Some t \<and> Map_get (tasks reg) j = Some u \<and>
      tab \<in> set (tabIds t) \<and> tab \<in> set (tabIds u) \<longrightarrow> i = j)"
proof -
  have "task_inv reg"
    using new_task_registry_inv [OF assms(2,1)] assms(3) by (blast intro: task_reachable_inv)
  then have agree: "Map_get (taskByTab reg) tab = Some k \<longleftrightarrow>
      (\<exists>t. Map_get (tasks reg) k = Some t \<and> tab \<in> set (tabIds t))" for tab k
    by (simp add: task_inv_def tabs_agree_def)
  moreover have "i = j" if "Map_get (tasks reg) i = Some t" "Map_get (tasks reg) j = Some u"
      "tab \<in> set (tabIds t)" "tab \<in> set (tabIds u)"
    using that agree [of tab i] agree [of tab j] by auto
  ultimately show ?thesis by (simp add: taskIdForTab_def)
qed

definition demo_task :: "string \<Rightarrow> string \<Rightarrow> BrowserTaskState \<Rightarrow> string list \<Rightarrow> task" where
  "demo_task tid owner s tabs = \<lparr>taskId = tid, ownerScopeHash = owner, task_state = s, tabIds = tabs,
     createdAt = 0, lastActivityAt = 0, expiresAt = 10, lifecycleVersion = 2\<rparr>"

definition demo_reg :: BrowserTaskRegistry where
  "demo_reg = \<lparr>tasks = [(''a'', demo_task ''a'' ''h'' Active [''x'']), (''b'', demo_task ''b'' ''g'' Suspended [''y'']),
       (''c'', demo_task ''c'' ''g'' Finished [])],
     taskByTab = [(''x'', ''a''), (''y'', ''b'')], activeLeases = [], ttlMs = 100\<rparr>"

lemmas demo_eval = demo_reg_def demo_task_def new_task_registry_def browserTaskSchema_def
  browserTaskFields_ok_def str_between_def CURRENT_BROWSER_TASK_LIFECYCLE_VERSION_def Map_set_def
  Map_get_def Map_has_def Map_delete_def Map_values_def index_tabs_def

lemma demo_registry:
  "new_task_registry [demo_task ''a'' ''h'' Active [''x''], demo_task ''b'' ''g'' Suspended [''y''],
     demo_task ''c'' ''g'' Finished []] 100 = Inr demo_reg"
  by (simp add: demo_eval)

lemma demo_consistent:
  "tasks_consistent [demo_task ''a'' ''h'' Active [''x''], demo_task ''b'' ''g'' Suspended [''y''],
     demo_task ''c'' ''g'' Finished []]"
  by (simp add: demo_eval tasks_consistent_def)

theorem browser_task_tabs_exclusive_witness:
  "taskIdForTab ''y'' demo_reg = Some ''b'' \<longleftrightarrow>
    (\<exists>t. Map_get (tasks demo_reg) ''b'' = Some t \<and> ''y'' \<in> set (tabIds t))"
  using browser_task_tabs_exclusive [OF demo_registry demo_consistent task_reachable.start] by blast

text \<open>
  C4. Isolation. A call made under an owner scope, in any reachable state, either fails or returns a
  task of that scope; in both cases the tasks of every other owner are unchanged and keep their tabs and
  their leases.
\<close>

theorem browser_task_owner_isolation:
  assumes "new_task_registry ts ttl = Inr reg0" and "tasks_consistent ts"
    and "task_reachable sha reg0 reg" and "fresh_id c reg" and "call_owner c = Some ctx"
    and "task_exec sha c reg = (r, reg')"
  shows "(r = Inr (Some t) \<longrightarrow> ownerScopeHash t = hashOwnerScope sha (ownerScope ctx)) \<and>
    (Map_get (tasks reg) k = Some u \<and> ownerScopeHash u \<noteq> hashOwnerScope sha (ownerScope ctx) \<longrightarrow>
      Map_get (tasks reg') k = Some u \<and> leaseCount k reg' = leaseCount k reg \<and>
      (\<forall>tab \<in> set (tabIds u). taskIdForTab tab reg' = taskIdForTab tab reg))"
proof -
  have "task_inv reg"
    using new_task_registry_inv [OF assms(2,1)] assms(3) by (blast intro: task_reachable_inv)
  from task_exec_owner_safe [OF this assms(4,5), of sha] assms(6) show ?thesis
    by (simp add: owner_safe_def foreign_kept_def ownerHash_def taskIdForTab_def) blast
qed

theorem browser_task_owner_isolation_witness:
  "Map_get (tasks (snd (task_exec (\<lambda>s. s) (AttachTab 5 5 ''a'' ''z'' (Some ''h'')) demo_reg))) ''b''
     = Some (demo_task ''b'' ''g'' Suspended [''y''])"
  using browser_task_owner_isolation [OF demo_registry demo_consistent task_reachable.start,
      where c = "AttachTab 5 5 ''a'' ''z'' (Some ''h'')" and ctx = "Some ''h''" and sha = "\<lambda>s. s" and k = "''b''"
        and u = "demo_task ''b'' ''g'' Suspended [''y'']", OF _ _ surjective_pairing]
  by (simp add: hashOwnerScope_def ownerScope_def demo_eval)

text \<open>
  End of life. A finished or expired task never comes back: whatever call is made, it is still
  finished or expired and still has its owner.
\<close>

theorem browser_task_terminal_absorbing:
  assumes "new_task_registry ts ttl = Inr reg0" and "tasks_consistent ts"
    and "task_reachable sha reg0 reg" and "fresh_id c reg" and "task_exec sha c reg = (r, reg')"
    and "Map_get (tasks reg) k = Some t" and "isTerminal (task_state t)"
  shows "\<exists>t'. Map_get (tasks reg') k = Some t' \<and> isTerminal (task_state t') \<and>
    ownerScopeHash t' = ownerScopeHash t"
proof -
  have "task_inv reg"
    using new_task_registry_inv [OF assms(2,1)] assms(3) by (blast intro: task_reachable_inv)
  from task_exec_stays_terminal [OF this assms(4), of sha] assms(5-7) show ?thesis
    by (simp add: stays_terminal_def)
qed

text \<open>
  Lease accounting. Every call changes the number of leases of every task exactly as its kind says:
  a successful acquisition adds one to its own task, a release removes one, everything else keeps the
  counts; and expiration does not begin while a lease is held.
\<close>

theorem browser_task_lease_accounting:
  assumes "new_task_registry ts ttl = Inr reg0" and "tasks_consistent ts"
    and "task_reachable sha reg0 reg" and "task_exec sha c reg = (r, reg')"
  shows "leaseCount k reg' = lease_effect c (succeeds r) reg k (leaseCount k reg) \<and>
    (leaseCount k reg > 0 \<longrightarrow> beginExpiration now k reg = (None, reg))"
proof
  have "task_inv reg"
    using new_task_registry_inv [OF assms(2,1)] assms(3) by (blast intro: task_reachable_inv)
  then show "leaseCount k reg' = lease_effect c (succeeds r) reg k (leaseCount k reg)"
    by (rule task_exec_leases [OF _ assms(4)])
  show "leaseCount k reg > 0 \<longrightarrow> beginExpiration now k reg = (None, reg)"
    by (simp add: beginExpiration_def split: option.splits)
qed

text \<open>
  Expiry candidates. A stored task is listed by \<open>expiredCandidates\<close> exactly when \<open>beginExpiration\<close>
  at the same instant moves it to finishing.
\<close>

theorem browser_task_expiry_candidates:
  assumes "new_task_registry ts ttl = Inr reg0" and "tasks_consistent ts"
    and "task_reachable sha reg0 reg" and "Map_get (tasks reg) k = Some t"
  shows "t \<in> set (expiredCandidates now reg) \<longleftrightarrow>
    fst (beginExpiration now k reg) = Some (t\<lparr>task_state := Finishing\<rparr>)"
proof -
  have inv: "task_inv reg"
    using new_task_registry_inv [OF assms(2,1)] assms(3) by (blast intro: task_reachable_inv)
  with assms(4) have "t \<in> set (Map_values (tasks reg))" "taskId t = k"
    by (auto dest: Map_get_in_values inv_key)
  with assms(4) show ?thesis
    by (auto simp: expiredCandidates_def beginExpiration_def Let_def)
qed

text \<open>
  Acquiring a lease on an active task does not move its expiry instant: the refresh that follows the
  ownership check is written to a copy of the task, and the registry keeps the task as it was.
\<close>

theorem browser_task_acquire_keeps_expiry:
  assumes "Map_get (tasks reg) k = Some t" and "task_state t = Active" and "ownerScopeHash t = ownerHash sha ctx"
    and "taskId t = k"
  shows "acquireForTask sha now k ctx reg =
      (Inr k, reg\<lparr>activeLeases := Map_set (activeLeases reg) k (leaseCount k reg + 1)\<rparr>)"
  using assms by (simp add: acquireForTask_def requireOwnedTask_def)

end
