(* ===== verification/TabRegistry.thy ===== *)
theory TabRegistry
  imports Prelude BrowserTask
begin

text \<open>
  The registry of browser tabs, \<open>services/browser-worker/domain/tab-registry.ts\<close>: which tabs the MCP
  owns, which belong to the user, and which may be navigated, reconfigured or closed. The data type is
  \<open>browserTabSchema\<close> of \<open>packages/mcp-core/src/browser-contracts.ts\<close>; instants are the ISO strings the
  code stores.
\<close>

section \<open>Data\<close>

datatype BrowserOwnership = OwnedByMcp | OwnedByUser

datatype BrowserTabLifecycle = TaskScoped | Persistent | External

record BrowserTab =
  tabId :: string
  tab_taskId :: "string option"
  lifecycle :: "BrowserTabLifecycle option"
  ownership :: BrowserOwnership
  purpose :: string
  reusable :: bool
  protected :: bool
  sticky :: bool
  tab_createdAt :: string
  tab_lastUsedAt :: string
  url :: "string option"
  requestedUrl :: "string option"
  title :: "string option"
  lockedUrl :: "string option"
  viewerUrl :: "string option"
  paused :: "bool option"

record RegisterMcpTabInput =
  in_tabId :: "string option"
  in_taskId :: "string option"
  in_lifecycle :: "BrowserTabLifecycle option"
  in_purpose :: "string option"
  in_reusable :: "bool option"
  in_protected :: "bool option"
  in_sticky :: "bool option"
  in_url :: "string option"
  in_requestedUrl :: "string option"
  in_title :: "string option"
  in_lockedUrl :: "string option"

type_synonym tab_registry = "(string, BrowserTab) jsMap"

text \<open>\<open>a ?? b\<close> on optional values, and with a definite default.\<close>

definition orElse :: "'a option \<Rightarrow> 'a option \<Rightarrow> 'a option" where
  "orElse a b = (case a of None \<Rightarrow> b | Some x \<Rightarrow> Some x)"

definition defaultTo :: "'a option \<Rightarrow> 'a \<Rightarrow> 'a" where
  "defaultTo a d = (case a of None \<Rightarrow> d | Some x \<Rightarrow> x)"

lemma defaultTo_simps [simp]: "defaultTo None d = d" "defaultTo (Some x) d = x"
  by (simp_all add: defaultTo_def)

lemma orElse_simps [simp]: "orElse None b = b" "orElse (Some x) b = Some x"
  by (simp_all add: orElse_def)

section \<open>Operations\<close>

definition new_tab_registry :: "BrowserTab list \<Rightarrow> tab_registry" where
  "new_tab_registry initialTabs = Map_from (map (\<lambda>t. (tabId t, t)) initialTabs)"

definition ownershipOf :: "string \<Rightarrow> tab_registry \<Rightarrow> BrowserOwnership" where
  "ownershipOf tab reg = (case Map_get reg tab of None \<Rightarrow> OwnedByUser | Some t \<Rightarrow> ownership t)"

definition list_tabs :: "tab_registry \<Rightarrow> BrowserTab list" where
  "list_tabs reg = Map_values reg"

definition registerMcp :: "string \<Rightarrow> string \<Rightarrow> RegisterMcpTabInput \<Rightarrow> tab_registry \<Rightarrow> BrowserTab \<times> tab_registry" where
  "registerMcp now uuid input reg =
    (let stk = defaultTo (in_sticky input) False;
         tab = \<lparr>tabId = defaultTo (in_tabId input) uuid,
                tab_taskId = in_taskId input,
                lifecycle = Some (defaultTo (in_lifecycle input) TaskScoped),
                ownership = OwnedByMcp,
                purpose = defaultTo (in_purpose input) ''generic-research'',
                reusable = (if stk then False else defaultTo (in_reusable input) True),
                protected = (if stk then True else defaultTo (in_protected input) False),
                sticky = stk,
                tab_createdAt = now, tab_lastUsedAt = now,
                url = in_url input, requestedUrl = in_requestedUrl input, title = in_title input,
                lockedUrl = in_lockedUrl input, viewerUrl = None, paused = None\<rparr>
     in (tab, Map_set reg (tabId tab) tab))"

definition assertMcpOwned :: "string \<Rightarrow> tab_registry \<Rightarrow> BrowserTab result" where
  "assertMcpOwned tab reg =
    (case Map_get reg tab of
       None \<Rightarrow> Inl (AppError TAB_NOT_OWNED)
     | Some t \<Rightarrow> if ownership t \<noteq> OwnedByMcp then Inl (AppError TAB_NOT_OWNED) else Inr t)"

definition reconfigureMcp :: "string \<Rightarrow> string \<Rightarrow> RegisterMcpTabInput \<Rightarrow> (tab_registry, BrowserTab) op" where
  "reconfigureMcp now tab input reg =
    (case assertMcpOwned tab reg of
       Inl e \<Rightarrow> (Inl e, reg)
     | Inr current \<Rightarrow>
         let stk = defaultTo (in_sticky input) (sticky current);
             updated = current\<lparr>
               tab_taskId := orElse (in_taskId input) (tab_taskId current),
               lifecycle := Some (defaultTo (orElse (in_lifecycle input) (lifecycle current)) TaskScoped),
               purpose := defaultTo (in_purpose input) (purpose current),
               reusable := (if stk then False else defaultTo (in_reusable input) (reusable current)),
               protected := (if stk then True else defaultTo (in_protected input) (protected current)),
               sticky := stk,
               tab_lastUsedAt := now,
               url := orElse (in_url input) (url current),
               requestedUrl := orElse (in_requestedUrl input) (requestedUrl current),
               title := orElse (in_title input) (title current),
               lockedUrl :=
                 (if stk then orElse (in_lockedUrl input) (orElse (lockedUrl current)
                      (orElse (in_requestedUrl input) (orElse (in_url input)
                        (orElse (requestedUrl current) (url current)))))
                  else None)\<rparr>
         in (Inr updated, Map_set reg tab updated))"

definition registerUser :: "string \<Rightarrow> string \<Rightarrow> string option \<Rightarrow> string option \<Rightarrow> tab_registry \<Rightarrow> BrowserTab \<times> tab_registry" where
  "registerUser now tab u ttl reg =
    (let t = \<lparr>tabId = tab, tab_taskId = None, lifecycle = Some External, ownership = OwnedByUser,
              purpose = ''user-existing'', reusable = False, protected = True, sticky = False,
              tab_createdAt = now, tab_lastUsedAt = now, url = u, requestedUrl = None, title = ttl,
              lockedUrl = None, viewerUrl = None, paused = None\<rparr>
     in (t, Map_set reg tab t))"

definition assertNavigable :: "string \<Rightarrow> string option \<Rightarrow> tab_registry \<Rightarrow> BrowserTab result" where
  "assertNavigable tab targetUrl reg =
    (case assertMcpOwned tab reg of
       Inl e \<Rightarrow> Inl e
     | Inr t \<Rightarrow>
         (case (truthy targetUrl, truthy (lockedUrl t)) of
            (Some target, Some locked) \<Rightarrow>
              if sticky t \<and> target \<noteq> locked then Inl (AppError NAVIGATION_BLOCKED) else Inr t
          | _ \<Rightarrow> Inr t))"

definition assertClosable :: "string \<Rightarrow> tab_registry \<Rightarrow> BrowserTab result" where
  "assertClosable tab reg =
    (case assertMcpOwned tab reg of
       Inl e \<Rightarrow> Inl e
     | Inr t \<Rightarrow> if protected t \<or> sticky t then Inl (AppError TAB_PROTECTED) else Inr t)"

text \<open>\<open>touch\<close>: an absent change keeps the field.\<close>

definition touch :: "string \<Rightarrow> string \<Rightarrow> string option \<Rightarrow> string option \<Rightarrow> (tab_registry, BrowserTab) op" where
  "touch now tab newUrl newTitle reg =
    (case assertMcpOwned tab reg of
       Inl e \<Rightarrow> (Inl e, reg)
     | Inr current \<Rightarrow>
         let updated = current\<lparr>url := orElse newUrl (url current), title := orElse newTitle (title current),
                               tab_lastUsedAt := now\<rparr>
         in (Inr updated, Map_set reg tab updated))"

definition discard :: "string \<Rightarrow> tab_registry \<Rightarrow> tab_registry" where
  "discard tab reg = Map_delete reg tab"

definition remove :: "string \<Rightarrow> (tab_registry, unit) op" where
  "remove tab reg =
    (case assertClosable tab reg of Inl e \<Rightarrow> (Inl e, reg) | Inr _ \<Rightarrow> (Inr (), Map_delete reg tab))"

section \<open>Calls\<close>

datatype tab_call =
    RegisterMcp string string RegisterMcpTabInput
  | ReconfigureMcp string string RegisterMcpTabInput
  | RegisterUser string string "string option" "string option"
  | Touch string string "string option" "string option"
  | Discard string
  | Remove string

fun tab_exec :: "tab_call \<Rightarrow> (tab_registry, unit) op" where
  "tab_exec (RegisterMcp now uuid input) reg = (Inr (), snd (registerMcp now uuid input reg))"
| "tab_exec (ReconfigureMcp now tab input) reg =
    (map_sum id (\<lambda>_. ()) (fst (reconfigureMcp now tab input reg)), snd (reconfigureMcp now tab input reg))"
| "tab_exec (RegisterUser now tab u ttl) reg = (Inr (), snd (registerUser now tab u ttl reg))"
| "tab_exec (Touch now tab u ttl) reg =
    (map_sum id (\<lambda>_. ()) (fst (touch now tab u ttl reg)), snd (touch now tab u ttl reg))"
| "tab_exec (Discard tab) reg = (Inr (), discard tab reg)"
| "tab_exec (Remove tab) reg = remove tab reg"

fun tab_run :: "tab_call list \<Rightarrow> tab_registry \<Rightarrow> tab_registry" where
  "tab_run [] reg = reg"
| "tab_run (c # cs) reg = tab_run cs (snd (tab_exec c reg))"

text \<open>The tab a call names.\<close>

fun call_tab :: "tab_call \<Rightarrow> string" where
  "call_tab (RegisterMcp now uuid input) = defaultTo (in_tabId input) uuid"
| "call_tab (ReconfigureMcp now tab input) = tab"
| "call_tab (RegisterUser now tab u ttl) = tab"
| "call_tab (Touch now tab u ttl) = tab"
| "call_tab (Discard tab) = tab"
| "call_tab (Remove tab) = tab"

lemmas tab_defs = registerMcp_def reconfigureMcp_def registerUser_def touch_def discard_def remove_def
  assertMcpOwned_def assertClosable_def Let_def

section \<open>The invariant of tabs\<close>

text \<open>
  A stored tab carries its own key; a sticky tab is protected and not reusable; a user tab is protected,
  not reusable and not sticky.
\<close>

definition tab_ok :: "BrowserTab \<Rightarrow> bool" where
  "tab_ok t = ((sticky t \<longrightarrow> protected t \<and> \<not> reusable t) \<and>
    (ownership t = OwnedByUser \<longrightarrow> protected t \<and> \<not> reusable t \<and> \<not> sticky t))"

definition tabs_ok :: "tab_registry \<Rightarrow> bool" where
  "tabs_ok reg = (Map_ok reg \<and> (\<forall>k t. Map_get reg k = Some t \<longrightarrow> tabId t = k \<and> tab_ok t))"

lemma tabs_ok_set: "tabs_ok reg \<Longrightarrow> tabId t = k \<Longrightarrow> tab_ok t \<Longrightarrow> tabs_ok (Map_set reg k t)"
  by (simp add: tabs_ok_def map_model)

lemma tabs_ok_delete: "tabs_ok reg \<Longrightarrow> tabs_ok (Map_delete reg k)"
  by (simp add: tabs_ok_def map_model)

lemma tabs_okD: "tabs_ok reg \<Longrightarrow> Map_get reg k = Some t \<Longrightarrow> tabId t = k \<and> tab_ok t"
  by (simp add: tabs_ok_def)

lemma tab_exec_ok: "tabs_ok reg \<Longrightarrow> tabs_ok (snd (tab_exec c reg))"
  by (cases c) (auto simp: tab_defs tab_ok_def intro!: tabs_ok_set tabs_ok_delete dest: tabs_okD
      split: sum.splits option.splits if_splits)

lemma tab_run_ok: "tabs_ok reg \<Longrightarrow> tabs_ok (tab_run cs reg)"
  by (induction cs arbitrary: reg) (auto intro: tab_exec_ok)

lemma map_of_self_key: "map_of (rev (map (\<lambda>t. (f t, t)) ts)) k = Some t \<Longrightarrow> f t = k \<and> t \<in> set ts"
  by (auto dest: map_of_SomeD)

lemma new_tab_registry_ok: "list_all tab_ok ts \<Longrightarrow> tabs_ok (new_tab_registry ts)"
  by (auto simp: tabs_ok_def new_tab_registry_def map_model list_all_iff rev_map [symmetric] dest!: map_of_self_key)

lemma tab_exec_frame: "k \<noteq> call_tab c \<Longrightarrow> Map_get (snd (tab_exec c reg)) k = Map_get reg k"
  by (cases c) (auto simp: tab_defs map_model split: sum.splits option.splits if_splits)

section \<open>Properties\<close>

text \<open>
  Tab flags. From well-formed initial tabs, after any calls every stored tab is stored under its own
  identifier, every sticky tab is protected and not reusable, and every user tab is protected, not reusable
  and not sticky.
\<close>

theorem tab_registry_invariant:
  assumes "list_all tab_ok ts" and "Map_get (tab_run cs (new_tab_registry ts)) k = Some t"
  shows "tabId t = k \<and> (sticky t \<longrightarrow> protected t \<and> \<not> reusable t) \<and>
    (ownership t = OwnedByUser \<longrightarrow> protected t \<and> \<not> reusable t \<and> \<not> sticky t)"
  using tabs_okD [OF tab_run_ok [OF new_tab_registry_ok [OF assms(1)]] assms(2)]
  by (simp add: tab_ok_def)

definition no_input :: RegisterMcpTabInput where
  "no_input = \<lparr>in_tabId = None, in_taskId = None, in_lifecycle = None, in_purpose = None, in_reusable = None,
     in_protected = None, in_sticky = None, in_url = None, in_requestedUrl = None, in_title = None,
     in_lockedUrl = None\<rparr>"

text \<open>
  User tabs are not touched. A tab of the user stays exactly as it is under any sequence of calls
  that reconfigure, touch or remove any tab, or that register or discard other tabs; on the user's own tab
  those operations answer \<open>TAB_NOT_OWNED\<close>.
\<close>

theorem user_tab_untouched:
  assumes "Map_get reg k = Some t" and "ownership t = OwnedByUser"
    and "\<forall>c \<in> set cs. (case c of RegisterMcp _ _ _ \<Rightarrow> call_tab c \<noteq> k | RegisterUser _ _ _ _ \<Rightarrow> call_tab c \<noteq> k
           | Discard _ \<Rightarrow> call_tab c \<noteq> k | _ \<Rightarrow> True)"
  shows "Map_get (tab_run cs reg) k = Some t \<and>
    fst (tab_exec (Remove k) reg) = Inl (AppError TAB_NOT_OWNED) \<and>
    fst (tab_exec (Touch now k u ttl) reg) = Inl (AppError TAB_NOT_OWNED) \<and>
    fst (tab_exec (ReconfigureMcp now k input) reg) = Inl (AppError TAB_NOT_OWNED)"
proof -
  have step: "Map_get (snd (tab_exec c r)) k = Some t" if "Map_get r k = Some t" "c \<in> set cs" for c r
  proof (cases "call_tab c = k")
    case True
    with assms(2,3) that show ?thesis by (cases c) (auto simp: tab_defs)
  next
    case False
    then show ?thesis using tab_exec_frame [of k c r] that by simp
  qed
  have "Map_get r k = Some t \<Longrightarrow> set ds \<subseteq> set cs \<Longrightarrow> Map_get (tab_run ds r) k = Some t" for ds r
    by (induction ds arbitrary: r) (auto simp: step)
  with assms(1,2) show ?thesis by (simp add: tab_defs)
qed

text \<open>
  Closing and navigating. \<open>remove\<close> deletes a tab exactly when the MCP owns it and it is neither
  protected nor sticky, and otherwise changes nothing; \<open>assertNavigable\<close> refuses exactly the MCP-owned
  sticky tabs with a locked URL that is not the requested one, and tabs the MCP does not own.
\<close>

theorem tab_close_and_navigate:
  "(fst (remove k reg) = Inr () \<longleftrightarrow>
      (\<exists>t. Map_get reg k = Some t \<and> ownership t = OwnedByMcp \<and> \<not> protected t \<and> \<not> sticky t)) \<and>
   snd (remove k reg) = (if fst (remove k reg) = Inr () then Map_delete reg k else reg) \<and>
   (assertNavigable k target reg = Inl (AppError NAVIGATION_BLOCKED) \<longleftrightarrow>
      (\<exists>t u l. Map_get reg k = Some t \<and> ownership t = OwnedByMcp \<and> sticky t \<and> target = Some u \<and>
         lockedUrl t = Some l \<and> u \<noteq> [] \<and> l \<noteq> [] \<and> u \<noteq> l)) \<and>
   (assertNavigable k target reg = Inl (AppError TAB_NOT_OWNED) \<longleftrightarrow> ownershipOf k reg = OwnedByUser)"
  by (auto simp: tab_defs assertNavigable_def ownershipOf_def truthy_def split: sum.splits option.splits if_splits)
    (metis BrowserOwnership.exhaust)+

end
