(* ===== verification/SessionModel.thy ===== *)
theory SessionModel
  imports TabRegistry
begin

text \<open>
  Browser sessions and the tabs stored with them, \<open>services/browser-worker/domain/browser-session-model.ts\<close>,
  and the operation modes of a session, \<open>services/browser-worker/policies/\<close>. The fields whose type is a
  single literal (\<open>driver: "direct"\<close>, \<open>profileType: "persistent"\<close>, \<open>ownership: "mcp"\<close>) carry no
  information and are left out. \<open>is_url\<close> and \<open>is_datetime\<close> stand for the format checks of the schema
  library.
\<close>

section \<open>Operation modes\<close>

datatype BrowserOperationMode = AutoMode | InteractiveMode | EfficientMode | DiagnosticMode

datatype BrowserModeObservability = StandardObservability | DiagnosticObservability

record BrowserOperationModeProfile =
  profile_mode :: BrowserOperationMode
  observability :: BrowserModeObservability
  retainDiagnosticArtifacts :: bool
  allowAdvancedOperations :: bool

fun PROFILES :: "BrowserOperationMode \<Rightarrow> BrowserOperationModeProfile" where
  "PROFILES InteractiveMode = \<lparr>profile_mode = InteractiveMode, observability = StandardObservability,
     retainDiagnosticArtifacts = False, allowAdvancedOperations = False\<rparr>"
| "PROFILES EfficientMode = \<lparr>profile_mode = EfficientMode, observability = StandardObservability,
     retainDiagnosticArtifacts = False, allowAdvancedOperations = False\<rparr>"
| "PROFILES DiagnosticMode = \<lparr>profile_mode = DiagnosticMode, observability = DiagnosticObservability,
     retainDiagnosticArtifacts = True, allowAdvancedOperations = True\<rparr>"
| "PROFILES AutoMode = \<lparr>profile_mode = AutoMode, observability = StandardObservability,
     retainDiagnosticArtifacts = False, allowAdvancedOperations = False\<rparr>"

definition resolveBrowserOperationMode :: "BrowserOperationMode option \<Rightarrow> BrowserOperationModeProfile" where
  "resolveBrowserOperationMode m = PROFILES (defaultTo m InteractiveMode)"

text \<open>A browser operation is given by its name.\<close>

definition browserAdvancedOperations :: "string list" where
  "browserAdvancedOperations = [''console'', ''networkList'', ''networkInspect'', ''traceStart'', ''traceStop'',
     ''videoStart'', ''videoStop'', ''pdf'', ''diagnostics'']"

definition browserBasicObservabilityOperations :: "string list" where
  "browserBasicObservabilityOperations = [''console'', ''networkList'', ''diagnostics'']"

definition isBrowserAdvancedOperation :: "string \<Rightarrow> bool" where
  "isBrowserAdvancedOperation op = (op \<in> set browserAdvancedOperations)"

definition assertBrowserOperationAllowed :: "string \<Rightarrow> BrowserOperationMode \<Rightarrow> bool \<Rightarrow> unit result" where
  "assertBrowserOperationAllowed op mode advancedDriver =
    (if \<not> isBrowserAdvancedOperation op then Inr ()
     else if \<not> advancedDriver then Inl (AppError BROWSER_CAPABILITY_UNSUPPORTED)
     else let profile = resolveBrowserOperationMode (Some mode);
              basic = (mode = InteractiveMode \<and> op \<in> set browserBasicObservabilityOperations)
          in if \<not> allowAdvancedOperations profile \<and> \<not> basic
             then Inl (AppError BROWSER_OPERATION_MODE_UNSUPPORTED) else Inr ())"

section \<open>Sessions and tabs\<close>

datatype BrowserSessionState = Starting | Connected | Disconnected | Failed

record BrowserSession =
  sessionId :: string
  session_mode :: BrowserOperationMode
  session_state :: BrowserSessionState
  routingReason :: "string option"
  routingPolicyReason :: "string option"
  session_createdAt :: string
  session_lastUsedAt :: string

text \<open>The tab of registry version 4; the current tab adds the task and the lifecycle.\<close>

record UnifiedBrowserTabV4 =
  ut_tabId :: string
  ut_sessionId :: string
  ut_remoteTabId :: string
  ut_remoteIndex :: nat
  ut_purpose :: string
  ut_reusable :: bool
  ut_protected :: bool
  ut_sticky :: bool
  ut_createdAt :: string
  ut_lastUsedAt :: string
  ut_url :: "string option"
  ut_requestedUrl :: "string option"
  ut_title :: "string option"
  ut_lockedUrl :: "string option"

record UnifiedBrowserTab = UnifiedBrowserTabV4 +
  ut_taskId :: string
  ut_lifecycle :: BrowserTabLifecycle

record formats =
  is_url :: "string \<Rightarrow> bool"
  is_datetime :: "string \<Rightarrow> bool"

definition optional :: "('a \<Rightarrow> bool) \<Rightarrow> 'a option \<Rightarrow> bool" where
  "optional P x = (case x of None \<Rightarrow> True | Some v \<Rightarrow> P v)"

definition browserSessionSchema_ok :: "formats \<Rightarrow> BrowserSession \<Rightarrow> bool" where
  "browserSessionSchema_ok F s =
    (str_between 1 128 (sessionId s) \<and> optional (str_between 1 200) (routingReason s) \<and>
     optional (str_between 1 200) (routingPolicyReason s) \<and>
     is_datetime F (session_createdAt s) \<and> is_datetime F (session_lastUsedAt s))"

definition unifiedBrowserTabV4Schema_ok :: "formats \<Rightarrow> 'x UnifiedBrowserTabV4_scheme \<Rightarrow> bool" where
  "unifiedBrowserTabV4Schema_ok F t =
    (str_between 1 128 (ut_tabId t) \<and> str_between 1 128 (ut_sessionId t) \<and> str_between 1 256 (ut_remoteTabId t) \<and>
     str_between 1 200 (ut_purpose t) \<and> is_datetime F (ut_createdAt t) \<and> is_datetime F (ut_lastUsedAt t) \<and>
     optional (is_url F) (ut_url t) \<and> optional (is_url F) (ut_requestedUrl t) \<and>
     optional (str_between 0 500) (ut_title t) \<and> optional (is_url F) (ut_lockedUrl t))"

definition unifiedBrowserTabSchema_ok :: "formats \<Rightarrow> UnifiedBrowserTab \<Rightarrow> bool" where
  "unifiedBrowserTabSchema_ok F t = (unifiedBrowserTabV4Schema_ok F t \<and> str_between 1 128 (ut_taskId t))"

record BrowserSessionRoutingMetadata =
  rm_mode :: "BrowserOperationMode option"
  rm_routingReason :: "string option"
  rm_routingPolicyReason :: "string option"

definition createBrowserSession :: "string \<Rightarrow> string \<Rightarrow> BrowserSessionRoutingMetadata \<Rightarrow> BrowserSession" where
  "createBrowserSession uuid now routing =
    \<lparr>sessionId = uuid, session_mode = defaultTo (rm_mode routing) InteractiveMode, session_state = Disconnected,
     routingReason = rm_routingReason routing, routingPolicyReason = rm_routingPolicyReason routing,
     session_createdAt = now, session_lastUsedAt = now\<rparr>"

definition applyBrowserSessionRouting :: "BrowserSession \<Rightarrow> BrowserSessionRoutingMetadata \<Rightarrow> BrowserSession" where
  "applyBrowserSessionRouting s routing =
    s\<lparr>session_mode := defaultTo (rm_mode routing) (session_mode s),
      routingReason := orElse (rm_routingReason routing) (routingReason s),
      routingPolicyReason := orElse (rm_routingPolicyReason routing) (routingPolicyReason s)\<rparr>"

definition touchBrowserSession :: "BrowserSession \<Rightarrow> BrowserSessionState option \<Rightarrow> string \<Rightarrow> BrowserSession" where
  "touchBrowserSession s st now =
    s\<lparr>session_state := defaultTo st (session_state s), session_lastUsedAt := now\<rparr>"

definition toPublicBrowserTab :: "UnifiedBrowserTab \<Rightarrow> BrowserTab" where
  "toPublicBrowserTab t =
    \<lparr>tabId = ut_tabId t, tab_taskId = Some (ut_taskId t), lifecycle = Some (ut_lifecycle t),
     ownership = OwnedByMcp, purpose = ut_purpose t, reusable = ut_reusable t, protected = ut_protected t,
     sticky = ut_sticky t, tab_createdAt = ut_createdAt t, tab_lastUsedAt = ut_lastUsedAt t,
     url = ut_url t, requestedUrl = ut_requestedUrl t, title = ut_title t, lockedUrl = ut_lockedUrl t,
     viewerUrl = None, paused = None\<rparr>"

definition toUnifiedBrowserTab :: "BrowserTab \<Rightarrow> BrowserSession \<Rightarrow> string \<Rightarrow> nat \<Rightarrow> string option \<Rightarrow>
    BrowserTabLifecycle option \<Rightarrow> UnifiedBrowserTab result" where
  "toUnifiedBrowserTab t s remoteTabId remoteIndex tid lc =
    (if ownership t \<noteq> OwnedByMcp then Inl PlainError
     else Inr
      \<lparr>ut_tabId = tabId t, ut_sessionId = sessionId s, ut_remoteTabId = remoteTabId,
       ut_remoteIndex = remoteIndex, ut_purpose = purpose t, ut_reusable = reusable t,
       ut_protected = protected t, ut_sticky = sticky t, ut_createdAt = tab_createdAt t,
       ut_lastUsedAt = tab_lastUsedAt t, ut_url = url t, ut_requestedUrl = requestedUrl t,
       ut_title = title t, ut_lockedUrl = lockedUrl t,
       ut_taskId = defaultTo tid (defaultTo (tab_taskId t) (''task-'' @ sessionId s)),
       ut_lifecycle = defaultTo lc (defaultTo (lifecycle t) TaskScoped)\<rparr>)"

definition remoteTabIdFor :: "string option \<Rightarrow> string result" where
  "remoteTabIdFor tid =
    (case truthy tid of None \<Rightarrow> Inl PlainError | Some i \<Rightarrow> Inr (''direct:page:'' @ i))"

section \<open>Properties\<close>

text \<open>
  Conversions. Converting an MCP-owned tab that has a task and a lifecycle to the stored form and
  back gives the tab, without its viewer fields; converting a stored tab to the public form and back, in
  its own session and remote page, gives the stored tab; user tabs are refused.
\<close>

theorem tab_conversion_round_trip:
  "(ownership t = OwnedByMcp \<longrightarrow>
      map_sum id toPublicBrowserTab (toUnifiedBrowserTab t s r i None None) =
        Inr (t\<lparr>tab_taskId := Some (defaultTo (tab_taskId t) (''task-'' @ sessionId s)),
               lifecycle := Some (defaultTo (lifecycle t) TaskScoped), viewerUrl := None, paused := None\<rparr>)) \<and>
   (sessionId s = ut_sessionId u \<longrightarrow>
      toUnifiedBrowserTab (toPublicBrowserTab u) s (ut_remoteTabId u) (ut_remoteIndex u) None None = Inr u) \<and>
   (ownership t = OwnedByUser \<longrightarrow> toUnifiedBrowserTab t s r i tid lc = Inl PlainError)"
  by (simp add: toUnifiedBrowserTab_def toPublicBrowserTab_def)

text \<open>
  Advanced operations. An advanced operation is allowed exactly on a driver that supports it, in
  diagnostic mode, or in interactive mode for the three basic observability operations; every other
  operation is allowed in every mode.
\<close>

theorem advanced_operation_allowed_iff:
  "assertBrowserOperationAllowed op mode adv = Inr () \<longleftrightarrow>
    (isBrowserAdvancedOperation op \<longrightarrow> adv \<and>
      (mode = DiagnosticMode \<or> mode = InteractiveMode \<and> op \<in> {''console'', ''networkList'', ''diagnostics''}))"
  by (cases mode) (auto simp: assertBrowserOperationAllowed_def resolveBrowserOperationMode_def
      browserBasicObservabilityOperations_def Let_def)

end
