(* ===== verification/SessionRegistry.thy ===== *)
theory SessionRegistry
  imports SessionModel
begin

text \<open>
  The persisted browser registry, \<open>services/browser-worker/domain/session-registry.ts\<close>: the storage
  schemas and the cross-reference checks of each version, the recovery of a stored registry after a
  restart, the migrations from older versions, and saving with a retried rename. \<open>lc\<close> stands for
  \<open>localeCompare\<close>. A stored file is given by its parsed content: a registry of one of the versions, which
  may still violate the bounds of its schema, or something else.
\<close>

section \<open>Stored data\<close>

datatype NavigationOperation = Navigate | Click | Press | GoBack | GoForward

record BrowserNavigationTransition =
  nav_operation :: NavigationOperation
  nav_startedAt :: string
  nav_expiresAt :: string
  nav_expectedUrl :: "string option"

record BrowserTabBinding =
  tb_tabId :: string
  tb_sessionId :: string
  tb_remoteTabId :: string
  tb_remoteIndex :: nat
  tb_url :: string
  tb_title :: string
  tb_remoteTabCount :: "nat option"
  tb_navigation :: "BrowserNavigationTransition option"

record registryV4 =
  v4_updatedAt :: string
  v4_sessions :: "BrowserSession list"
  v4_tabs :: "UnifiedBrowserTabV4 list"
  v4_bindings :: "BrowserTabBinding list"

text \<open>Versions 5 and 6 have one shape; the lifecycle version of their tasks tells them apart.\<close>

record registryV6 =
  updatedAt :: string
  sessions :: "BrowserSession list"
  rtasks :: "string BrowserTask list"
  rtabs :: "UnifiedBrowserTab list"
  bindings :: "BrowserTabBinding list"

definition browserNavigationTransitionSchema_ok :: "formats \<Rightarrow> BrowserNavigationTransition \<Rightarrow> bool" where
  "browserNavigationTransitionSchema_ok F n =
    (nav_startedAt n \<noteq> [] \<and> nav_expiresAt n \<noteq> [] \<and> optional (is_url F) (nav_expectedUrl n))"

definition browserTabBindingSchema_ok :: "formats \<Rightarrow> BrowserTabBinding \<Rightarrow> bool" where
  "browserTabBindingSchema_ok F b =
    (str_between 1 128 (tb_tabId b) \<and> str_between 1 128 (tb_sessionId b) \<and> str_between 1 256 (tb_remoteTabId b) \<and>
     is_url F (tb_url b) \<and> str_between 0 500 (tb_title b) \<and>
     optional (browserNavigationTransitionSchema_ok F) (tb_navigation b))"

text \<open>The instants of a stored task are checked strings.\<close>

definition task_times_ok :: "formats \<Rightarrow> string BrowserTask \<Rightarrow> bool" where
  "task_times_ok F t = (is_datetime F (createdAt t) \<and> is_datetime F (lastActivityAt t) \<and> is_datetime F (expiresAt t))"

definition stored_task_ok :: "formats \<Rightarrow> nat \<Rightarrow> string BrowserTask \<Rightarrow> bool" where
  "stored_task_ok F v t = (browserTaskFields_ok t \<and> task_times_ok F t \<and> lifecycleVersion t = v)"

definition registryV4StorageSchema_ok :: "formats \<Rightarrow> registryV4 \<Rightarrow> bool" where
  "registryV4StorageSchema_ok F r =
    (is_datetime F (v4_updatedAt r) \<and>
     length (v4_sessions r) \<le> 100 \<and> list_all (browserSessionSchema_ok F) (v4_sessions r) \<and>
     length (v4_tabs r) \<le> 500 \<and> list_all (unifiedBrowserTabV4Schema_ok F) (v4_tabs r) \<and>
     length (v4_bindings r) \<le> 500 \<and> list_all (browserTabBindingSchema_ok F) (v4_bindings r))"

definition registryV56StorageSchema_ok :: "formats \<Rightarrow> nat \<Rightarrow> registryV6 \<Rightarrow> bool" where
  "registryV56StorageSchema_ok F v r =
    (is_datetime F (updatedAt r) \<and>
     length (sessions r) \<le> 100 \<and> list_all (browserSessionSchema_ok F) (sessions r) \<and>
     length (rtasks r) \<le> 500 \<and> list_all (stored_task_ok F v) (rtasks r) \<and>
     length (rtabs r) \<le> 500 \<and> list_all (unifiedBrowserTabSchema_ok F) (rtabs r) \<and>
     length (bindings r) \<le> 500 \<and> list_all (browserTabBindingSchema_ok F) (bindings r))"

definition registryV5StorageSchema_ok :: "formats \<Rightarrow> registryV6 \<Rightarrow> bool" where
  "registryV5StorageSchema_ok F = registryV56StorageSchema_ok F LEGACY_BROWSER_TASK_LIFECYCLE_VERSION"

definition registryV6StorageSchema_ok :: "formats \<Rightarrow> registryV6 \<Rightarrow> bool" where
  "registryV6StorageSchema_ok F = registryV56StorageSchema_ok F CURRENT_BROWSER_TASK_LIFECYCLE_VERSION"

section \<open>Cross-reference checks\<close>

definition assertUnique :: "('a \<Rightarrow> string) \<Rightarrow> 'a list \<Rightarrow> bool" where
  "assertUnique keyOf values = distinct (map keyOf values)"

definition index_by :: "('a \<Rightarrow> string) \<Rightarrow> 'a list \<Rightarrow> (string, 'a) jsMap" where
  "index_by keyOf values = Map_from (map (\<lambda>v. (keyOf v, v)) values)"

definition binding_matches :: "BrowserTabBinding \<Rightarrow> 'x UnifiedBrowserTabV4_scheme \<Rightarrow> bool" where
  "binding_matches b t = (tb_sessionId b = ut_sessionId t \<and> tb_remoteTabId b = ut_remoteTabId t \<and>
     tb_remoteIndex b = ut_remoteIndex t)"

definition registryV4_consistent :: "registryV4 \<Rightarrow> bool" where
  "registryV4_consistent r =
    (let smap = index_by sessionId (v4_sessions r);
         tmap = index_by ut_tabId (v4_tabs r);
         bmap = index_by tb_tabId (v4_bindings r)
     in assertUnique sessionId (v4_sessions r) \<and> assertUnique ut_tabId (v4_tabs r) \<and>
        assertUnique tb_tabId (v4_bindings r) \<and>
        list_all (\<lambda>t. Map_has smap (ut_sessionId t) \<and>
          (case Map_get bmap (ut_tabId t) of None \<Rightarrow> False | Some b \<Rightarrow> binding_matches b t)) (v4_tabs r) \<and>
        list_all (\<lambda>b. Map_has tmap (tb_tabId b)) (v4_bindings r))"

definition registryV4Schema :: "formats \<Rightarrow> registryV4 \<Rightarrow> registryV4 result" where
  "registryV4Schema F r =
    (if registryV4StorageSchema_ok F r \<and> registryV4_consistent r then Inr r else Inl ZodError)"

definition registryV6_consistent :: "registryV6 \<Rightarrow> bool" where
  "registryV6_consistent r =
    (let smap = index_by sessionId (sessions r);
         kmap = index_by taskId (rtasks r);
         tmap = index_by ut_tabId (rtabs r);
         bmap = index_by tb_tabId (bindings r)
     in assertUnique sessionId (sessions r) \<and> assertUnique taskId (rtasks r) \<and>
        assertUnique ut_tabId (rtabs r) \<and> assertUnique tb_tabId (bindings r) \<and>
        list_all (\<lambda>t. Map_has smap (ut_sessionId t) \<and>
          (case Map_get kmap (ut_taskId t) of
             None \<Rightarrow> False
           | Some k \<Rightarrow> ut_tabId t \<in> set (tabIds k) \<and> \<not> isTerminal (task_state k)) \<and>
          (case Map_get bmap (ut_tabId t) of None \<Rightarrow> False | Some b \<Rightarrow> binding_matches b t)) (rtabs r) \<and>
        list_all (\<lambda>k. distinct (tabIds k) \<and> (isTerminal (task_state k) \<longrightarrow> tabIds k = []) \<and>
          list_all (\<lambda>i. case Map_get tmap i of None \<Rightarrow> False | Some t \<Rightarrow> ut_taskId t = taskId k) (tabIds k)) (rtasks r) \<and>
        list_all (\<lambda>b. Map_has tmap (tb_tabId b)) (bindings r))"

definition registryV6Schema :: "formats \<Rightarrow> registryV6 \<Rightarrow> registryV6 result" where
  "registryV6Schema F r =
    (if registryV6StorageSchema_ok F r \<and> registryV6_consistent r then Inr r else Inl ZodError)"

section \<open>Recovery\<close>

text \<open>\<open>deduplicateBy\<close>: the first value of each key, in order.\<close>

definition deduplicateBy :: "('a \<Rightarrow> string) \<Rightarrow> 'a list \<Rightarrow> 'a list" where
  "deduplicateBy keyOf values =
    Map_values (fold (\<lambda>v m. if Map_has m (keyOf v) then m else Map_set m (keyOf v) v) values [])"

definition disconnect :: "BrowserSession \<Rightarrow> BrowserSession" where
  "disconnect s = s\<lparr>session_state :=
     (if session_state s = Starting \<or> session_state s = Connected then Disconnected else session_state s)\<rparr>"

text \<open>The registry \<open>recoverV4Registry\<close> passes to the version-4 schema.\<close>

definition recoveredV4 :: "(string \<Rightarrow> string \<Rightarrow> int) \<Rightarrow> registryV4 \<Rightarrow> registryV4" where
  "recoveredV4 lc d =
    (let originalStates = Map_from (map (\<lambda>s. (sessionId s, session_state s)) (v4_sessions d));
         ss = map disconnect (deduplicateBy sessionId
                (sort_cmp (\<lambda>l r. lc (session_lastUsedAt r) (session_lastUsedAt l)) (v4_sessions d)));
         sessionMap = index_by sessionId ss;
         bs = deduplicateBy tb_tabId (v4_bindings d);
         bindingMap = index_by tb_tabId bs;
         ts = filter (\<lambda>t. Map_has sessionMap (ut_sessionId t) \<and>
                (case Map_get bindingMap (ut_tabId t) of None \<Rightarrow> False | Some b \<Rightarrow> binding_matches b t))
              (deduplicateBy ut_tabId (v4_tabs d));
         tids = map ut_tabId ts;
         tabSessionIds = map ut_sessionId ts;
         retained = filter (\<lambda>s. sessionId s \<in> set tabSessionIds \<or>
                      Map_get originalStates (sessionId s) = Some Disconnected) ss;
         retainedIds = map sessionId retained
     in \<lparr>v4_updatedAt = v4_updatedAt d, v4_sessions = retained,
         v4_tabs = filter (\<lambda>t. ut_sessionId t \<in> set retainedIds) ts,
         v4_bindings = filter (\<lambda>b. tb_tabId b \<in> set tids \<and> tb_sessionId b \<in> set retainedIds) bs\<rparr>)"

definition recoverV4Registry :: "(string \<Rightarrow> string \<Rightarrow> int) \<Rightarrow> formats \<Rightarrow> registryV4 \<Rightarrow> registryV4 result" where
  "recoverV4Registry lc F d = registryV4Schema F (recoveredV4 lc d)"

definition to_v4 :: "registryV6 \<Rightarrow> registryV4" where
  "to_v4 d = \<lparr>v4_updatedAt = updatedAt d, v4_sessions = sessions d,
     v4_tabs = map UnifiedBrowserTabV4.truncate (rtabs d), v4_bindings = bindings d\<rparr>"

definition parse_task :: "formats \<Rightarrow> string BrowserTask \<Rightarrow> string BrowserTask result" where
  "parse_task F t = (if stored_task_ok F CURRENT_BROWSER_TASK_LIFECYCLE_VERSION t then Inr t else Inl ZodError)"

definition parse_tab :: "formats \<Rightarrow> UnifiedBrowserTab \<Rightarrow> UnifiedBrowserTab result" where
  "parse_tab F t = (if unifiedBrowserTabSchema_ok F t then Inr t else Inl ZodError)"

definition suspend_task :: "string set \<Rightarrow> string BrowserTask \<Rightarrow> string BrowserTask" where
  "suspend_task kept t =
    t\<lparr>task_state := (if task_state t = Active \<or> task_state t = Finishing then Suspended else task_state t),
      tabIds := (if isTerminal (task_state t) then [] else filter (\<lambda>i. i \<in> kept) (tabIds t))\<rparr>"

definition extend_tab :: "UnifiedBrowserTabV4 \<Rightarrow> UnifiedBrowserTab \<Rightarrow> UnifiedBrowserTab" where
  "extend_tab t orig = UnifiedBrowserTabV4.extend t (UnifiedBrowserTab.fields (ut_taskId orig) (ut_lifecycle orig))"

definition recoverV6Registry :: "(string \<Rightarrow> string \<Rightarrow> int) \<Rightarrow> formats \<Rightarrow> registryV6 \<Rightarrow> registryV6 result" where
  "recoverV6Registry lc F d =
    (let originalTabs = index_by ut_tabId (rtabs d)
     in case recoverV4Registry lc F (to_v4 d) of
          Inl e \<Rightarrow> Inl e
        | Inr r4 \<Rightarrow>
            (case mapM (\<lambda>t. parse_task F (suspend_task (set (map ut_tabId (v4_tabs r4))) t))
                    (deduplicateBy taskId (rtasks d)) of
               Inl e \<Rightarrow> Inl e
             | Inr ks \<Rightarrow>
                 let restorable = map taskId (filter (\<lambda>k. isAccessibleState (task_state k)) ks)
                 in case mapM (\<lambda>p. parse_tab F (extend_tab (fst p) (snd p)))
                           (List.map_filter (\<lambda>t. case Map_get originalTabs (ut_tabId t) of
                                None \<Rightarrow> None
                              | Some orig \<Rightarrow> if ut_taskId orig \<in> set restorable then Some (t, orig) else None)
                             (v4_tabs r4)) of
                      Inl e \<Rightarrow> Inl e
                    | Inr ts \<Rightarrow>
                        let finalIds = set (map ut_tabId ts)
                        in registryV6Schema F
                            \<lparr>updatedAt = updatedAt d, sessions = v4_sessions r4,
                             rtasks = map (\<lambda>k. k\<lparr>tabIds := filter (\<lambda>i. i \<in> finalIds) (tabIds k)\<rparr>) ks,
                             rtabs = ts,
                             bindings = filter (\<lambda>b. tb_tabId b \<in> finalIds) (v4_bindings r4)\<rparr>))"

section \<open>Migrations\<close>

definition retire_task :: "string BrowserTask \<Rightarrow> string BrowserTask" where
  "retire_task t =
    t\<lparr>task_state := (if task_state t = Finished then Finished else Expired), tabIds := [],
      expiresAt := (if isTerminal (task_state t) then expiresAt t else lastActivityAt t),
      lifecycleVersion := CURRENT_BROWSER_TASK_LIFECYCLE_VERSION\<rparr>"

definition migrateV5Registry :: "(string \<Rightarrow> string \<Rightarrow> int) \<Rightarrow> formats \<Rightarrow> registryV6 \<Rightarrow> registryV6 result" where
  "migrateV5Registry lc F d =
    (case recoverV4Registry lc F (to_v4 d) of
       Inl e \<Rightarrow> Inl e
     | Inr r4 \<Rightarrow>
         (case mapM (\<lambda>t. parse_task F (retire_task t)) (deduplicateBy taskId (rtasks d)) of
            Inl e \<Rightarrow> Inl e
          | Inr ks \<Rightarrow> registryV6Schema F
              \<lparr>updatedAt = updatedAt d, sessions = v4_sessions r4, rtasks = ks, rtabs = [], bindings = []\<rparr>))"

definition LEGACY_UNCLAIMED_OWNER_SCOPE_HASH :: string where
  "LEGACY_UNCLAIMED_OWNER_SCOPE_HASH = ''legacy-unclaimed''"

text \<open>The task a version-4 session becomes; \<open>expires\<close> is the ISO instant ten minutes from now.\<close>

definition session_task :: "string \<Rightarrow> UnifiedBrowserTabV4 list \<Rightarrow> BrowserSession \<Rightarrow> string BrowserTask" where
  "session_task expires ts s =
    \<lparr>taskId = ''task-'' @ sessionId s, ownerScopeHash = LEGACY_UNCLAIMED_OWNER_SCOPE_HASH, task_state = Suspended,
     tabIds = map ut_tabId (filter (\<lambda>t. ut_sessionId t = sessionId s) ts),
     createdAt = session_createdAt s, lastActivityAt = session_lastUsedAt s, expiresAt = expires,
     lifecycleVersion = LEGACY_BROWSER_TASK_LIFECYCLE_VERSION\<rparr>"

definition migrateV4Registry :: "(string \<Rightarrow> string \<Rightarrow> int) \<Rightarrow> formats \<Rightarrow> string \<Rightarrow> registryV4 \<Rightarrow> registryV6 result" where
  "migrateV4Registry lc F expires d =
    (case recoverV4Registry lc F d of
       Inl e \<Rightarrow> Inl e
     | Inr r4 \<Rightarrow>
         (case mapM (\<lambda>s. let t = session_task expires (v4_tabs r4) s
                         in if stored_task_ok F LEGACY_BROWSER_TASK_LIFECYCLE_VERSION t then Inr t else Inl ZodError)
                 (v4_sessions r4) of
            Inl e \<Rightarrow> Inl e
          | Inr ks \<Rightarrow>
              let r5 = \<lparr>updatedAt = v4_updatedAt r4, sessions = v4_sessions r4, rtasks = ks,
                        rtabs = map (\<lambda>t. UnifiedBrowserTabV4.extend t
                           (UnifiedBrowserTab.fields (''task-'' @ ut_sessionId t) TaskScoped)) (v4_tabs r4),
                        bindings = v4_bindings r4\<rparr>
              in if registryV5StorageSchema_ok F r5 then migrateV5Registry lc F r5 else Inl ZodError))"

text \<open>Version 3 also stored sessions, tabs and bindings of drivers that no longer exist.\<close>

datatype LegacyDriverKind = DirectDriver | McpDriver | CliDriver

datatype LegacyProfileType = DefaultChrome | IsolatedProfile | PersistentProfile

record LegacySession = BrowserSession +
  ls_driver :: LegacyDriverKind
  ls_profileType :: LegacyProfileType
  ls_fallbackFrom :: "LegacyDriverKind option"
  ls_fallbackReason :: "string option"

record LegacyTab = UnifiedBrowserTabV4 +
  lt_driver :: LegacyDriverKind

record LegacyBinding = BrowserTabBinding +
  lb_driver :: LegacyDriverKind

record registryV3 =
  v3_updatedAt :: string
  v3_sessions :: "LegacySession list"
  v3_tabs :: "LegacyTab list"
  v3_bindings :: "LegacyBinding list"

definition registryV3StorageSchema_ok :: "formats \<Rightarrow> registryV3 \<Rightarrow> bool" where
  "registryV3StorageSchema_ok F r =
    (is_datetime F (v3_updatedAt r) \<and>
     length (v3_sessions r) \<le> 100 \<and>
     list_all (\<lambda>s. browserSessionSchema_ok F (BrowserSession.truncate s) \<and>
       optional (str_between 1 500) (ls_fallbackReason s)) (v3_sessions r) \<and>
     length (v3_tabs r) \<le> 500 \<and>
     list_all (\<lambda>t. unifiedBrowserTabV4Schema_ok F t \<and> ut_requestedUrl t = None) (v3_tabs r) \<and>
     length (v3_bindings r) \<le> 500 \<and>
     list_all (\<lambda>b. browserTabBindingSchema_ok F (BrowserTabBinding.truncate b)) (v3_bindings r))"

definition migrateV3Registry :: "(string \<Rightarrow> string \<Rightarrow> int) \<Rightarrow> formats \<Rightarrow> string \<Rightarrow> registryV3 \<Rightarrow> registryV6 result" where
  "migrateV3Registry lc F expires d =
    (case mapM (\<lambda>s. let t = BrowserSession.truncate s in if browserSessionSchema_ok F t then Inr t else Inl ZodError)
            (filter (\<lambda>s. ls_driver s = DirectDriver \<and> ls_profileType s = PersistentProfile) (v3_sessions d)) of
       Inl e \<Rightarrow> Inl e
     | Inr ss \<Rightarrow>
         let sids = set (map sessionId ss)
         in case mapM (\<lambda>t. let u = UnifiedBrowserTabV4.truncate t
                           in if unifiedBrowserTabV4Schema_ok F u then Inr u else Inl ZodError)
                   (filter (\<lambda>t. lt_driver t = DirectDriver \<and> ut_sessionId t \<in> sids) (v3_tabs d)) of
              Inl e \<Rightarrow> Inl e
            | Inr ts \<Rightarrow>
                let tids = set (map ut_tabId ts)
                in case mapM (\<lambda>b. let c = BrowserTabBinding.truncate b
                                  in if browserTabBindingSchema_ok F c then Inr c else Inl ZodError)
                          (filter (\<lambda>b. lb_driver b = DirectDriver \<and> tb_sessionId b \<in> sids \<and> tb_tabId b \<in> tids)
                            (v3_bindings d)) of
                     Inl e \<Rightarrow> Inl e
                   | Inr bs \<Rightarrow>
                       let r4 = \<lparr>v4_updatedAt = v3_updatedAt d, v4_sessions = ss, v4_tabs = ts, v4_bindings = bs\<rparr>
                       in if registryV4StorageSchema_ok F r4 then migrateV4Registry lc F expires r4 else Inl ZodError)"

definition emptyRegistry :: "string \<Rightarrow> registryV6" where
  "emptyRegistry epoch = \<lparr>updatedAt = epoch, sessions = [], rtasks = [], rtabs = [], bindings = []\<rparr>"


section \<open>Loading and saving\<close>

text \<open>
  The file as \<open>load\<close> finds it: a registry of some version, a version 1 or 2 registry (whose content is
  dropped), any other content, no file, or a read or syntax error.
\<close>

datatype registry_file =
    FileV6 registryV6 | FileV5 registryV6 | FileV4 registryV4 | FileV3 registryV3 | FileV2orV1
  | FileOther | FileMissing | FileUnreadable

fun load :: "(string \<Rightarrow> string \<Rightarrow> int) \<Rightarrow> formats \<Rightarrow> string \<Rightarrow> string \<Rightarrow> registry_file \<Rightarrow> registryV6 result" where
  "load lc F expires epoch (FileV6 r) = (if registryV6StorageSchema_ok F r then recoverV6Registry lc F r else Inl ZodError)"
| "load lc F expires epoch (FileV5 r) = (if registryV5StorageSchema_ok F r then migrateV5Registry lc F r else Inl ZodError)"
| "load lc F expires epoch (FileV4 r) = (if registryV4StorageSchema_ok F r then migrateV4Registry lc F expires r else Inl ZodError)"
| "load lc F expires epoch (FileV3 r) = (if registryV3StorageSchema_ok F r then migrateV3Registry lc F expires r else Inl ZodError)"
| "load lc F expires epoch FileV2orV1 = Inr (emptyRegistry epoch)"
| "load lc F expires epoch FileOther = Inl ZodError"
| "load lc F expires epoch FileMissing = Inr (emptyRegistry epoch)"
| "load lc F expires epoch FileUnreadable = Inl PlainError"

text \<open>The outcome of one \<open>rename\<close>: done, or an error with or without a code.\<close>

datatype rename_outcome = Renamed | RenameFailed "string option"

definition TRANSIENT_RENAME_CODES :: "string list" where
  "TRANSIENT_RENAME_CODES = [''EACCES'', ''EBUSY'', ''EEXIST'', ''ENOTEMPTY'', ''EPERM'']"

function renameWithRetry :: "(nat \<Rightarrow> rename_outcome) \<Rightarrow> nat \<Rightarrow> nat \<Rightarrow> unit result" where
  "renameWithRetry outcome attempts attempt =
    (if attempt < attempts then
       (case outcome attempt of
          Renamed \<Rightarrow> Inr ()
        | RenameFailed code \<Rightarrow>
            (case code of
               None \<Rightarrow> Inl PlainError
             | Some c \<Rightarrow>
                 if c \<notin> set TRANSIENT_RENAME_CODES \<or> attempt = attempts - 1 then Inl PlainError
                 else renameWithRetry outcome attempts (attempt + 1)))
     else Inr ())"
  by pat_completeness auto
termination by (relation "measure (\<lambda>(outcome, attempts, attempt). attempts - attempt)") auto

declare renameWithRetry.simps [simp del]

text \<open>
  \<open>save\<close>: check, write a temporary file and rename it over the registry file. \<open>written\<close> says whether the
  temporary file could be written. The file changes only when the rename succeeds.
\<close>

definition save :: "formats \<Rightarrow> string \<Rightarrow> bool \<Rightarrow> (nat \<Rightarrow> rename_outcome) \<Rightarrow> BrowserSession list \<Rightarrow>
    UnifiedBrowserTab list \<Rightarrow> BrowserTabBinding list \<Rightarrow> string BrowserTask list \<Rightarrow> (registry_file, unit) op" where
  "save F now written outcome ss ts bs ks file =
    (if ts \<noteq> [] \<and> ks = [] then (Inl PlainError, file)
     else case registryV6Schema F \<lparr>updatedAt = now, sessions = ss, rtasks = ks, rtabs = ts, bindings = bs\<rparr> of
            Inl e \<Rightarrow> (Inl e, file)
          | Inr data \<Rightarrow>
              if \<not> written then (Inl PlainError, file)
              else (case renameWithRetry outcome 6 0 of
                      Inl e \<Rightarrow> (Inl e, file)
                    | Inr _ \<Rightarrow> (Inr (), FileV6 data)))"

section \<open>Recovery keeps the registry consistent\<close>

subsection \<open>Indexing and removing duplicates\<close>

lemma index_by_SomeD: "Map_get (index_by key xs) i = Some x \<Longrightarrow> x \<in> set xs \<and> key x = i"
  by (auto simp: index_by_def map_model rev_map [symmetric] dest!: map_of_self_key)

lemma index_by_has: "Map_has (index_by key xs) i \<longleftrightarrow> i \<in> key ` set xs"
  by (auto simp: Map_has_get index_by_def map_model image_iff map_of_eq_None_iff rev_map [symmetric]
      simp flip: not_None_eq)

lemma index_by_get:
  assumes "distinct (map key xs)" and "x \<in> set xs"
  shows "Map_get (index_by key xs) (key x) = Some x"
proof -
  obtain y where "Map_get (index_by key xs) (key x) = Some y"
    using index_by_has [of key xs "key x"] assms(2) by (auto simp: Map_has_get)
  moreover from index_by_SomeD [OF this] assms have "y = x"
    by (metis distinct_map inj_onD)
  ultimately show ?thesis by simp
qed

lemma index_by_iff:
  assumes "distinct (map key xs)"
  shows "Map_get (index_by key xs) i = Some x \<longleftrightarrow> x \<in> set xs \<and> key x = i"
  using index_by_get [OF assms] by (auto dest: index_by_SomeD)

lemma index_by_case:
  assumes "distinct (map key xs)"
  shows "(case Map_get (index_by key xs) i of None \<Rightarrow> False | Some x \<Rightarrow> P x) = (\<exists>x \<in> set xs. key x = i \<and> P x)"
proof (cases "Map_get (index_by key xs) i")
  case None
  then have "i \<notin> key ` set xs" using index_by_has [of key xs i] by (simp add: Map_has_get)
  with None show ?thesis by auto
next
  case (Some b)
  then have b: "b \<in> set xs" "key b = i" using index_by_SomeD by metis+
  have "c = b" if "c \<in> set xs" "key c = i" for c
    using index_by_get [OF assms that(1)] that(2) Some by simp
  with b have "P b = (\<exists>x \<in> set xs. key x = i \<and> P x)" by metis
  with Some show ?thesis by simp
qed

fun first_by :: "('a \<Rightarrow> string) \<Rightarrow> string set \<Rightarrow> 'a list \<Rightarrow> 'a list" where
  "first_by key seen [] = []"
| "first_by key seen (x # xs) =
    (if key x \<in> seen then first_by key seen xs else x # first_by key (insert (key x) seen) xs)"

lemma Map_set_new: "\<not> Map_has m k \<Longrightarrow> Map_set m k v = m @ [(k, v)]"
  by (induction m) (auto simp: Map_has_def Map_set_def split: if_splits)

lemma Map_has_keys: "Map_has m k \<longleftrightarrow> k \<in> fst ` set m"
  by (simp add: Map_has_def map_of_eq_None_iff)

lemma dedup_fold:
  "Map_values (fold (\<lambda>v m. if Map_has m (key v) then m else Map_set m (key v) v) xs m) =
    Map_values m @ first_by key (fst ` set m) xs"
proof (induction xs arbitrary: m)
  case (Cons x xs)
  then show ?case
    by (cases "Map_has m (key x)") (auto simp: Map_set_new Map_has_keys Map_values_def)
qed simp

lemma deduplicateBy_first: "deduplicateBy key xs = first_by key {} xs"
  unfolding deduplicateBy_def dedup_fold by (simp add: Map_values_def)

lemma first_by_keys: "key ` set (first_by key seen xs) = key ` set xs - seen"
  by (induction xs arbitrary: seen) auto

lemma first_by_distinct: "distinct (map key (first_by key seen xs))"
  by (induction xs arbitrary: seen) (simp_all add: first_by_keys)

lemma first_by_subset: "set (first_by key seen xs) \<subseteq> set xs" "length (first_by key seen xs) \<le> length xs"
  by (induction xs arbitrary: seen) (auto simp: le_SucI)

lemmas first_by_props = first_by_keys first_by_distinct first_by_subset

lemma first_by_id: "distinct (map key xs) \<Longrightarrow> key ` set xs \<inter> seen = {} \<Longrightarrow> first_by key seen xs = xs"
  by (induction xs arbitrary: seen) auto

lemma dedup_set: "set (deduplicateBy key xs) \<subseteq> set xs"
  by (simp add: deduplicateBy_first first_by_props)

lemma dedup_distinct [simp]: "distinct (map key (deduplicateBy key xs))"
  by (simp add: deduplicateBy_first first_by_props)

lemma dedup_keys: "key ` set (deduplicateBy key xs) = key ` set xs"
  by (simp add: deduplicateBy_first first_by_props)

lemma dedup_length: "length (deduplicateBy key xs) \<le> length xs"
  by (simp add: deduplicateBy_first first_by_props)

lemma dedup_id: "distinct (map key xs) \<Longrightarrow> deduplicateBy key xs = xs"
  by (simp add: deduplicateBy_first first_by_id)

subsection \<open>Version 4\<close>

lemma disconnect_simps [simp]:
  "sessionId (disconnect s) = sessionId s"
  "browserSessionSchema_ok F (disconnect s) = browserSessionSchema_ok F s"
  by (simp_all add: disconnect_def browserSessionSchema_ok_def)

text \<open>The registry the recovery builds is within the bounds of the schema and consistent.\<close>

lemma recoveredV4_storage:
  assumes "registryV4StorageSchema_ok F d"
  shows "registryV4StorageSchema_ok F (recoveredV4 lc d)"
proof -
  let ?cmp = "\<lambda>l r. lc (session_lastUsedAt r) (session_lastUsedAt l)"
  have len: "length xs \<le> n \<Longrightarrow> length (filter P xs) \<le> n" for P n and xs :: "'z list"
    using length_filter_le order_trans by blast
  have "length (deduplicateBy sessionId (sort_cmp ?cmp (v4_sessions d))) \<le> 100"
    "length (deduplicateBy ut_tabId (v4_tabs d)) \<le> 500" "length (deduplicateBy tb_tabId (v4_bindings d)) \<le> 500"
    using assms dedup_length [of sessionId "sort_cmp ?cmp (v4_sessions d)"] dedup_length [of ut_tabId "v4_tabs d"]
      dedup_length [of tb_tabId "v4_bindings d"]
    by (auto simp: registryV4StorageSchema_ok_def)
  then show ?thesis
    using assms dedup_set [of sessionId "sort_cmp ?cmp (v4_sessions d)"]
      dedup_set [of ut_tabId "v4_tabs d"] dedup_set [of tb_tabId "v4_bindings d"]
    unfolding recoveredV4_def Let_def registryV4StorageSchema_ok_def
    by (auto simp: list_all_iff intro!: len)
qed


lemma distinct_map_disconnect [simp]: "map sessionId (map disconnect xs) = map sessionId xs"
  by (simp add: comp_def)

text \<open>
  The parts of the recovered registry: the sessions, tabs and bindings considered, and the facts that
  relate them.
\<close>

lemma recoveredV4_parts:
  obtains ss ts bs where
    "v4_updatedAt (recoveredV4 lc d) = v4_updatedAt d"
    "v4_sessions (recoveredV4 lc d) = filter (\<lambda>s. sessionId s \<in> ut_sessionId ` set ts \<or>
       Map_get (Map_from (map (\<lambda>s. (sessionId s, session_state s)) (v4_sessions d))) (sessionId s) = Some Disconnected) ss"
    "v4_tabs (recoveredV4 lc d) = ts"
    "v4_bindings (recoveredV4 lc d) = filter (\<lambda>b. tb_tabId b \<in> ut_tabId ` set ts \<and>
       tb_sessionId b \<in> sessionId ` set (v4_sessions (recoveredV4 lc d))) bs"
    "ss = map disconnect (deduplicateBy sessionId
       (sort_cmp (\<lambda>l r. lc (session_lastUsedAt r) (session_lastUsedAt l)) (v4_sessions d)))"
    "bs = deduplicateBy tb_tabId (v4_bindings d)"
    "ts = filter (\<lambda>t. ut_sessionId t \<in> sessionId ` set ss \<and>
       (\<exists>b \<in> set bs. tb_tabId b = ut_tabId t \<and> binding_matches b t)) (deduplicateBy ut_tabId (v4_tabs d))"
proof -
  define ss where "ss = map disconnect (deduplicateBy sessionId
       (sort_cmp (\<lambda>l r. lc (session_lastUsedAt r) (session_lastUsedAt l)) (v4_sessions d)))"
  define bs where "bs = deduplicateBy tb_tabId (v4_bindings d)"
  define ts where "ts = filter (\<lambda>t. ut_sessionId t \<in> sessionId ` set ss \<and>
       (\<exists>b \<in> set bs. tb_tabId b = ut_tabId t \<and> binding_matches b t)) (deduplicateBy ut_tabId (v4_tabs d))"
  have dist: "distinct (map tb_tabId bs)" by (simp add: bs_def)
  note lookup = index_by_case [OF dist]
  let ?ret = "filter (\<lambda>s. sessionId s \<in> ut_sessionId ` set ts \<or>
       Map_get (Map_from (map (\<lambda>s. (sessionId s, session_state s)) (v4_sessions d))) (sessionId s) = Some Disconnected) ss"
  have "\<forall>t \<in> set ts. ut_sessionId t \<in> sessionId ` set ?ret"
    by (auto simp: ts_def image_iff) metis
  then have all: "filter (\<lambda>t. ut_sessionId t \<in> sessionId ` set ?ret) ts = ts"
    by (simp add: filter_id_conv)
  have rec: "recoveredV4 lc d = \<lparr>v4_updatedAt = v4_updatedAt d, v4_sessions = ?ret, v4_tabs = ts,
      v4_bindings = filter (\<lambda>b. tb_tabId b \<in> ut_tabId ` set ts \<and> tb_sessionId b \<in> sessionId ` set ?ret) bs\<rparr>"
    unfolding recoveredV4_def Let_def ss_def [symmetric] bs_def [symmetric] index_by_has lookup ts_def [symmetric] set_map all
    by simp
  show thesis
    by (rule that [of ts ss bs]) (simp_all add: rec ss_def bs_def ts_def)
qed

lemma registryV4_consistent_iff:
  "registryV4_consistent r \<longleftrightarrow>
     distinct (map sessionId (v4_sessions r)) \<and> distinct (map ut_tabId (v4_tabs r)) \<and>
     distinct (map tb_tabId (v4_bindings r)) \<and>
     (\<forall>t \<in> set (v4_tabs r). ut_sessionId t \<in> sessionId ` set (v4_sessions r) \<and>
        (\<exists>b \<in> set (v4_bindings r). tb_tabId b = ut_tabId t \<and> binding_matches b t)) \<and>
     (\<forall>b \<in> set (v4_bindings r). tb_tabId b \<in> ut_tabId ` set (v4_tabs r))"
  by (auto simp add: registryV4_consistent_def Let_def assertUnique_def index_by_has index_by_case list_all_iff
      cong: conj_cong)

lemma registryV6_consistent_iff:
  "registryV6_consistent r \<longleftrightarrow>
     distinct (map sessionId (sessions r)) \<and> distinct (map taskId (rtasks r)) \<and>
     distinct (map ut_tabId (rtabs r)) \<and> distinct (map tb_tabId (bindings r)) \<and>
     (\<forall>t \<in> set (rtabs r). ut_sessionId t \<in> sessionId ` set (sessions r) \<and>
        (\<exists>k \<in> set (rtasks r). taskId k = ut_taskId t \<and> ut_tabId t \<in> set (tabIds k) \<and> \<not> isTerminal (task_state k)) \<and>
        (\<exists>b \<in> set (bindings r). tb_tabId b = ut_tabId t \<and> binding_matches b t)) \<and>
     (\<forall>k \<in> set (rtasks r). distinct (tabIds k) \<and> (isTerminal (task_state k) \<longrightarrow> tabIds k = []) \<and>
        (\<forall>i \<in> set (tabIds k). \<exists>t \<in> set (rtabs r). ut_tabId t = i \<and> ut_taskId t = taskId k)) \<and>
     (\<forall>b \<in> set (bindings r). tb_tabId b \<in> ut_tabId ` set (rtabs r))"
  unfolding registryV6_consistent_def Let_def assertUnique_def index_by_has list_all_iff
  by (simp add: index_by_case cong: conj_cong)

lemma recoveredV4_consistent: "registryV4_consistent (recoveredV4 lc d)"
proof (rule recoveredV4_parts [of lc d])
  fix ss ts bs
  let ?r = "recoveredV4 lc d"
  assume S: "v4_sessions ?r = filter (\<lambda>s. sessionId s \<in> ut_sessionId ` set ts \<or>
       Map_get (Map_from (map (\<lambda>s. (sessionId s, session_state s)) (v4_sessions d))) (sessionId s) = Some Disconnected) ss"
    and T: "v4_tabs ?r = ts"
    and B: "v4_bindings ?r = filter (\<lambda>b. tb_tabId b \<in> ut_tabId ` set ts \<and> tb_sessionId b \<in> sessionId ` set (v4_sessions ?r)) bs"
    and ss: "ss = map disconnect (deduplicateBy sessionId
       (sort_cmp (\<lambda>l r. lc (session_lastUsedAt r) (session_lastUsedAt l)) (v4_sessions d)))"
    and bs: "bs = deduplicateBy tb_tabId (v4_bindings d)"
    and ts: "ts = filter (\<lambda>t. ut_sessionId t \<in> sessionId ` set ss \<and>
       (\<exists>b \<in> set bs. tb_tabId b = ut_tabId t \<and> binding_matches b t)) (deduplicateBy ut_tabId (v4_tabs d))"
  have "distinct (map sessionId ss)" by (simp only: ss distinct_map_disconnect dedup_distinct)
  then have dS: "distinct (map sessionId (v4_sessions ?r))" by (simp add: S distinct_map_filter)
  have dT: "distinct (map ut_tabId (v4_tabs ?r))" by (simp add: T ts distinct_map_filter)
  have dB: "distinct (map tb_tabId (v4_bindings ?r))" by (simp add: B bs distinct_map_filter)
  have sess: "ut_sessionId t \<in> sessionId ` set (v4_sessions ?r)" if "t \<in> set ts" for t
  proof -
    from that obtain s where "s \<in> set ss" "sessionId s = ut_sessionId t" by (auto simp: ts)
    with that show ?thesis by (force simp: S)
  qed
  have "\<exists>b \<in> set (v4_bindings ?r). tb_tabId b = ut_tabId t \<and> binding_matches b t" if "t \<in> set ts" for t
  proof -
    from that obtain b where b: "b \<in> set bs" "tb_tabId b = ut_tabId t" "binding_matches b t" by (auto simp: ts)
    with that sess [OF that] have "b \<in> set (v4_bindings ?r)" by (auto simp: B binding_matches_def)
    with b show ?thesis by blast
  qed
  with dS dT dB sess show "registryV4_consistent ?r"
    unfolding registryV4_consistent_iff by (simp add: T B)
qed

lemma recoverV4_succeeds:
  "registryV4StorageSchema_ok F d \<Longrightarrow> recoverV4Registry lc F d = Inr (recoveredV4 lc d)"
  by (simp add: recoverV4Registry_def registryV4Schema_def recoveredV4_storage recoveredV4_consistent)

subsection \<open>Version 6\<close>

lemma truncate_simps [simp]:
  "ut_tabId (UnifiedBrowserTabV4.truncate t) = ut_tabId t"
  "ut_sessionId (UnifiedBrowserTabV4.truncate t) = ut_sessionId t"
  "binding_matches b (UnifiedBrowserTabV4.truncate t) = binding_matches b t"
  "unifiedBrowserTabV4Schema_ok F (UnifiedBrowserTabV4.truncate t) = unifiedBrowserTabV4Schema_ok F t"
  by (simp_all add: UnifiedBrowserTabV4.truncate_def binding_matches_def unifiedBrowserTabV4Schema_ok_def)

lemma extend_tab_simps [simp]:
  "ut_tabId (extend_tab t u) = ut_tabId t" "ut_taskId (extend_tab t u) = ut_taskId u"
  "ut_sessionId (extend_tab t u) = ut_sessionId t" "binding_matches b (extend_tab t u) = binding_matches b t"
  "unifiedBrowserTabSchema_ok F (extend_tab t u) = (unifiedBrowserTabV4Schema_ok F t \<and> str_between 1 128 (ut_taskId u))"
  by (simp_all add: extend_tab_def UnifiedBrowserTabV4.defs UnifiedBrowserTab.defs binding_matches_def
      unifiedBrowserTabSchema_ok_def unifiedBrowserTabV4Schema_ok_def)

lemma extend_truncate [simp]: "extend_tab (UnifiedBrowserTabV4.truncate t) t = t"
  by (simp add: extend_tab_def UnifiedBrowserTabV4.defs UnifiedBrowserTab.defs)

lemma to_v4_storage:
  "registryV56StorageSchema_ok F v d \<Longrightarrow> registryV4StorageSchema_ok F (to_v4 d)"
  by (auto simp: registryV56StorageSchema_ok_def registryV4StorageSchema_ok_def to_v4_def
      list_all_iff unifiedBrowserTabSchema_ok_def)

lemmas storage_versions = registryV5StorageSchema_ok_def registryV6StorageSchema_ok_def

definition retained_sessions :: "(string \<Rightarrow> string \<Rightarrow> int) \<Rightarrow> UnifiedBrowserTab list \<Rightarrow> BrowserSession list \<Rightarrow> BrowserSession list" where
  "retained_sessions lc ts ss =
    map disconnect (filter (\<lambda>s. sessionId s \<in> ut_sessionId ` set ts \<or> session_state s = Disconnected)
      (sort_cmp (\<lambda>l r. lc (session_lastUsedAt r) (session_lastUsedAt l)) ss))"

text \<open>On a consistent registry the version-4 part of the recovery drops sessions only.\<close>

lemma recoveredV4_of_consistent:
  assumes "registryV6_consistent d"
  shows "recoveredV4 lc (to_v4 d) =
    \<lparr>v4_updatedAt = updatedAt d, v4_sessions = retained_sessions lc (rtabs d) (sessions d),
     v4_tabs = map UnifiedBrowserTabV4.truncate (rtabs d), v4_bindings = bindings d\<rparr>"
proof -
  note C = assms [unfolded registryV6_consistent_iff]
  let ?cmp = "\<lambda>l r. lc (session_lastUsedAt r) (session_lastUsedAt l)"
  define st where "st = (\<lambda>i. Map_get (Map_from (map (\<lambda>s. (sessionId s, session_state s)) (sessions d))) i)"
  have st: "st (sessionId s) = Some (session_state s)" if "s \<in> set (sessions d)" for s
  proof -
    have "distinct (map fst (rev (map (\<lambda>s. (sessionId s, session_state s)) (sessions d))))"
      using C by (simp add: comp_def flip: rev_map)
    from map_of_eq_Some_iff [OF this] that show ?thesis by (auto simp: st_def map_model)
  qed
  show ?thesis
  proof (rule recoveredV4_parts [of lc "to_v4 d"])
    fix ss ts bs
    let ?r = "recoveredV4 lc (to_v4 d)"
    assume S: "v4_sessions ?r = filter (\<lambda>s. sessionId s \<in> ut_sessionId ` set ts \<or>
         Map_get (Map_from (map (\<lambda>s. (sessionId s, session_state s)) (v4_sessions (to_v4 d)))) (sessionId s) = Some Disconnected) ss"
      and U: "v4_updatedAt ?r = v4_updatedAt (to_v4 d)" and T: "v4_tabs ?r = ts"
      and B: "v4_bindings ?r = filter (\<lambda>b. tb_tabId b \<in> ut_tabId ` set ts \<and> tb_sessionId b \<in> sessionId ` set (v4_sessions ?r)) bs"
      and ss: "ss = map disconnect (deduplicateBy sessionId (sort_cmp ?cmp (v4_sessions (to_v4 d))))"
      and bs: "bs = deduplicateBy tb_tabId (v4_bindings (to_v4 d))"
      and ts: "ts = filter (\<lambda>t. ut_sessionId t \<in> sessionId ` set ss \<and>
         (\<exists>b \<in> set bs. tb_tabId b = ut_tabId t \<and> binding_matches b t)) (deduplicateBy ut_tabId (v4_tabs (to_v4 d)))"
    have ss': "ss = map disconnect (sort_cmp ?cmp (sessions d))"
      using C by (simp add: ss to_v4_def dedup_id distinct_map_sort_cmp)
    have bs': "bs = bindings d" using C by (simp add: bs to_v4_def dedup_id)
    have dd: "deduplicateBy ut_tabId (v4_tabs (to_v4 d)) = map UnifiedBrowserTabV4.truncate (rtabs d)"
      using C by (simp add: to_v4_def dedup_id comp_def)
    have "sessionId ` set ss = sessionId ` set (sessions d)" by (simp add: ss' image_image)
    then have ts': "ts = map UnifiedBrowserTabV4.truncate (rtabs d)"
      using C unfolding ts dd bs' by (simp add: filter_id_conv) 
    have S': "v4_sessions ?r = retained_sessions lc (rtabs d) (sessions d)"
      unfolding S ss' ts' retained_sessions_def st_def [symmetric]
      by (auto simp: filter_map comp_def image_image to_v4_def st [unfolded st_def] intro!: arg_cong [where f = "map disconnect"] filter_cong)
    have B': "v4_bindings ?r = bindings d"
    proof -
      have "tb_sessionId b \<in> sessionId ` set (v4_sessions ?r)" if b: "b \<in> set (bindings d)" for b
      proof -
        from b C obtain t where t: "t \<in> set (rtabs d)" "tb_tabId b = ut_tabId t" by auto
        with C obtain c where c: "c \<in> set (bindings d)" "tb_tabId c = ut_tabId t" "binding_matches c t" by blast
        with C b t have "c = b" by (metis distinct_map inj_onD)
        with c have "tb_sessionId b = ut_sessionId t" by (simp add: binding_matches_def)
        moreover from t C obtain s where "s \<in> set (sessions d)" "sessionId s = ut_sessionId t" by (metis imageE)
        ultimately show ?thesis using t by (force simp: S' retained_sessions_def)
      qed
      with C show ?thesis unfolding B bs' ts' by (simp add: filter_id_conv image_image)
    qed
    from U T S' B' ts' show "?r = \<lparr>v4_updatedAt = updatedAt d, v4_sessions = retained_sessions lc (rtabs d) (sessions d),
     v4_tabs = map UnifiedBrowserTabV4.truncate (rtabs d), v4_bindings = bindings d\<rparr>"
      by (simp add: to_v4_def registryV4.equality)
  qed
qed

lemma stored_task_suspend:
  "stored_task_ok F v t \<Longrightarrow> stored_task_ok F v (suspend_task kept t)"
  by (auto simp: stored_task_ok_def suspend_task_def browserTaskFields_ok_def task_times_ok_def list_all_iff
      intro: order_trans [OF length_filter_le])

lemma suspend_task_simps [simp]:
  "taskId (suspend_task kept t) = taskId t"
  "isTerminal (task_state (suspend_task kept t)) = isTerminal (task_state t)"
  "isAccessibleState (task_state (suspend_task kept t)) = (\<not> isTerminal (task_state t))"
  by (cases "task_state t"; simp add: suspend_task_def isTerminal_def isAccessibleState_def)+

lemma storage_tabs: "registryV6StorageSchema_ok F d \<Longrightarrow> t \<in> set (rtabs d) \<Longrightarrow> unifiedBrowserTabSchema_ok F t"
  by (simp add: storage_versions registryV56StorageSchema_ok_def list_all_iff)

lemma storage_tasks:
  "registryV6StorageSchema_ok F d \<Longrightarrow> k \<in> set (rtasks d) \<Longrightarrow>
    stored_task_ok F CURRENT_BROWSER_TASK_LIFECYCLE_VERSION k"
  by (simp add: storage_versions registryV56StorageSchema_ok_def list_all_iff)

text \<open>What the recovery makes of a consistent registry.\<close>

definition recoveredV6 :: "(string \<Rightarrow> string \<Rightarrow> int) \<Rightarrow> registryV6 \<Rightarrow> registryV6" where
  "recoveredV6 lc d = d\<lparr>sessions := retained_sessions lc (rtabs d) (sessions d),
     rtasks := map (\<lambda>k. k\<lparr>task_state := (if isTerminal (task_state k) then task_state k else Suspended)\<rparr>) (rtasks d)\<rparr>"

lemma recoveredV6_consistent:
  assumes "registryV6_consistent d"
  shows "registryV6_consistent (recoveredV6 lc d)"
proof -
  let ?S = "retained_sessions lc (rtabs d) (sessions d)"
  note C = assms [unfolded registryV6_consistent_iff]
  have "distinct (map sessionId ?S)"
    using C by (simp add: retained_sessions_def comp_def distinct_map_filter distinct_map_sort_cmp)
  moreover have "ut_sessionId t \<in> sessionId ` set ?S" if "t \<in> set (rtabs d)" for t
  proof -
    from that C obtain s where "s \<in> set (sessions d)" "sessionId s = ut_sessionId t" by (metis imageE)
    with that show ?thesis by (force simp: retained_sessions_def)
  qed
  moreover have "isTerminal (if isTerminal x then x else Suspended) = isTerminal x" for x
    by (simp add: isTerminal_def)
  ultimately show ?thesis
    using C unfolding registryV6_consistent_iff recoveredV6_def by (simp add: comp_def)
qed

lemma recoveredV6_storage:
  assumes "registryV6StorageSchema_ok F d"
  shows "registryV6StorageSchema_ok F (recoveredV6 lc d)"
  using assms
  by (auto simp: storage_versions registryV56StorageSchema_ok_def recoveredV6_def retained_sessions_def list_all_iff
      stored_task_ok_def browserTaskFields_ok_def task_times_ok_def intro: order_trans [OF length_filter_le])

lemma recoverV6_of_consistent:
  assumes "registryV6StorageSchema_ok F d" and "registryV6_consistent d"
  shows "recoverV6Registry lc F d = Inr (recoveredV6 lc d)"
proof -
  note C = assms(2) [unfolded registryV6_consistent_iff]
  have v4: "recoverV4Registry lc F (to_v4 d) = Inr (recoveredV4 lc (to_v4 d))"
    using assms(1) recoverV4_succeeds to_v4_storage unfolding storage_versions by blast
  let ?kept = "ut_tabId ` set (rtabs d)"
  have tids: "filter (\<lambda>i. i \<in> ?kept) (tabIds k) = tabIds k" if "k \<in> set (rtasks d)" for k
    using C that by (fastforce simp: filter_id_conv)
  have dk: "deduplicateBy taskId (rtasks d) = rtasks d" using C by (simp add: dedup_id)
  define ks where "ks = map (\<lambda>k. k\<lparr>task_state := (if isTerminal (task_state k) then task_state k else Suspended)\<rparr>) (rtasks d)"
  have susp: "map (suspend_task ?kept) (rtasks d) = ks"
    unfolding ks_def
  proof (rule map_cong [OF refl])
    fix k assume k: "k \<in> set (rtasks d)"
    with C have "isTerminal (task_state k) \<longrightarrow> tabIds k = []" by blast
    with tids [OF k] show "suspend_task ?kept k =
        k\<lparr>task_state := (if isTerminal (task_state k) then task_state k else Suspended)\<rparr>"
      by (cases k; cases "task_state k") (auto simp: suspend_task_def isTerminal_def)
  qed
  have tasks: "mapM (\<lambda>t. parse_task F (suspend_task ?kept t)) (rtasks d) = Inr ks"
    using storage_tasks [OF assms(1)] stored_task_suspend
    unfolding parse_task_def mapM_parse susp by (simp add: list_all_iff)
  have "List.map_filter (\<lambda>t. case Map_get (index_by ut_tabId (rtabs d)) (ut_tabId t) of
            None \<Rightarrow> None
          | Some orig \<Rightarrow> if ut_taskId orig \<in> set (map taskId (filter (\<lambda>k. isAccessibleState (task_state k)) ks)) then Some (t, orig) else None)
       (map UnifiedBrowserTabV4.truncate (rtabs d)) = map (\<lambda>t. (UnifiedBrowserTabV4.truncate t, t)) (rtabs d)"
  proof -
    have "Map_get (index_by ut_tabId (rtabs d)) (ut_tabId t) = Some t \<and>
        ut_taskId t \<in> set (map taskId (filter (\<lambda>k. isAccessibleState (task_state k)) ks))" if "t \<in> set (rtabs d)" for t
    proof
      show "Map_get (index_by ut_tabId (rtabs d)) (ut_tabId t) = Some t" using C that by (simp add: index_by_get)
      from C that obtain k where "k \<in> set (rtasks d)" "taskId k = ut_taskId t" "\<not> isTerminal (task_state k)" by blast
      then show "ut_taskId t \<in> set (map taskId (filter (\<lambda>k. isAccessibleState (task_state k)) ks))"
        by (force simp: ks_def isAccessibleState_def)
    qed
    then show ?thesis
      by (auto simp: map_filter_def comp_def filter_id_conv)
  qed
  moreover have "mapM (\<lambda>p. parse_tab F (extend_tab (fst p) (snd p))) (map (\<lambda>t. (UnifiedBrowserTabV4.truncate t, t)) (rtabs d)) =
      Inr (rtabs d)"
    using storage_tabs [OF assms(1)]
    unfolding parse_tab_def mapM_parse [where P = "unifiedBrowserTabSchema_ok F" and f = "\<lambda>p. extend_tab (fst p) (snd p)"]
    by (simp add: list_all_iff comp_def unifiedBrowserTabSchema_ok_def)
  moreover have "map (\<lambda>k. k\<lparr>tabIds := filter (\<lambda>i. i \<in> ?kept) (tabIds k)\<rparr>) ks = ks"
    using tids by (simp add: ks_def)
  moreover have "filter (\<lambda>b. tb_tabId b \<in> ?kept) (bindings d) = bindings d"
    using C by (simp add: filter_id_conv)
  moreover have "recoveredV6 lc d = \<lparr>updatedAt = updatedAt d, sessions = retained_sessions lc (rtabs d) (sessions d),
      rtasks = ks, rtabs = rtabs d, bindings = bindings d\<rparr>"
    by (simp add: recoveredV6_def ks_def)
  ultimately show ?thesis
    using recoveredV6_consistent [OF assms(2), of lc] recoveredV6_storage [OF assms(1), of lc]
    unfolding recoverV6Registry_def Let_def v4 recoveredV4_of_consistent [OF assms(2)]
    by (simp add: dk tasks image_image registryV6Schema_def)
qed

subsection \<open>Migration\<close>

lemma stored_task_retire:
  "stored_task_ok F v t \<Longrightarrow> stored_task_ok F CURRENT_BROWSER_TASK_LIFECYCLE_VERSION (retire_task t)"
  by (auto simp: stored_task_ok_def retire_task_def browserTaskFields_ok_def task_times_ok_def)

lemma retire_task_simps [simp]:
  "taskId (retire_task t) = taskId t" "isTerminal (task_state (retire_task t))" "tabIds (retire_task t) = []"
  by (simp_all add: retire_task_def isTerminal_def)

definition migratedV5 :: "(string \<Rightarrow> string \<Rightarrow> int) \<Rightarrow> registryV6 \<Rightarrow> registryV6" where
  "migratedV5 lc d = \<lparr>updatedAt = updatedAt d, sessions = v4_sessions (recoveredV4 lc (to_v4 d)),
     rtasks = map retire_task (deduplicateBy taskId (rtasks d)), rtabs = [], bindings = []\<rparr>"

text \<open>A stored version-5 registry always migrates: the tasks are retired and no tab survives.\<close>

lemma migrateV5_succeeds:
  assumes "registryV5StorageSchema_ok F d"
  shows "migrateV5Registry lc F d = Inr (migratedV5 lc d)"
proof -
  have st: "registryV4StorageSchema_ok F (to_v4 d)"
    using assms to_v4_storage unfolding storage_versions by blast
  have ok: "stored_task_ok F CURRENT_BROWSER_TASK_LIFECYCLE_VERSION (retire_task k)"
    if "k \<in> set (deduplicateBy taskId (rtasks d))" for k
    using assms dedup_set [of taskId "rtasks d"] that stored_task_retire
    by (fastforce simp: storage_versions registryV56StorageSchema_ok_def list_all_iff)
  have "registryV6StorageSchema_ok F (migratedV5 lc d)"
    using ok assms recoveredV4_storage [OF st, of lc] dedup_length [of taskId "rtasks d"]
    by (auto simp: storage_versions registryV56StorageSchema_ok_def registryV4StorageSchema_ok_def migratedV5_def list_all_iff)
  moreover have "registryV6_consistent (migratedV5 lc d)"
    using recoveredV4_consistent [of lc "to_v4 d"]
    by (simp add: registryV4_consistent_iff registryV6_consistent_iff migratedV5_def comp_def)
  ultimately show ?thesis
    using ok by (simp add: migrateV5Registry_def recoverV4_succeeds [OF st] parse_task_def mapM_parse list_all_iff
        registryV6Schema_def migratedV5_def)
qed

definition migrated_from_v4 :: "(string \<Rightarrow> string \<Rightarrow> int) \<Rightarrow> string \<Rightarrow> registryV4 \<Rightarrow> registryV6" where
  "migrated_from_v4 lc expires d =
    (let r4 = recoveredV4 lc d
     in \<lparr>updatedAt = v4_updatedAt r4, sessions = v4_sessions r4,
         rtasks = map (session_task expires (v4_tabs r4)) (v4_sessions r4),
         rtabs = map (\<lambda>t. UnifiedBrowserTabV4.extend t
            (UnifiedBrowserTab.fields (''task-'' @ ut_sessionId t) TaskScoped)) (v4_tabs r4),
         bindings = v4_bindings r4\<rparr>)"

lemma session_task_ok:
  assumes "registryV4StorageSchema_ok F d" and "s \<in> set (v4_sessions d)" and "is_datetime F expires"
  shows "stored_task_ok F LEGACY_BROWSER_TASK_LIFECYCLE_VERSION (session_task expires (v4_tabs d) s) \<longleftrightarrow>
    length (sessionId s) \<le> 123"
  using assms
  by (auto simp: registryV4StorageSchema_ok_def list_all_iff stored_task_ok_def session_task_def browserTaskFields_ok_def
      task_times_ok_def browserSessionSchema_ok_def unifiedBrowserTabV4Schema_ok_def str_between_def
      LEGACY_UNCLAIMED_OWNER_SCOPE_HASH_def intro: order_trans [OF length_filter_le])

text \<open>
  A stored version-4 registry migrates exactly when the identifier of every session the recovery retains
  leaves room for the prefix of the task made from it.
\<close>

lemma migrateV4_result:
  assumes "registryV4StorageSchema_ok F d" and "is_datetime F expires"
  shows "migrateV4Registry lc F expires d =
    (if \<forall>s \<in> set (v4_sessions (recoveredV4 lc d)). length (sessionId s) \<le> 123
     then Inr (migratedV5 lc (migrated_from_v4 lc expires d)) else Inl ZodError)"
proof -
  let ?r4 = "recoveredV4 lc d"
  have st: "registryV4StorageSchema_ok F ?r4" using assms(1) by (rule recoveredV4_storage)
  note task_ok = session_task_ok [OF st _ assms(2)]
  have m: "mapM (\<lambda>s. let t = session_task expires (v4_tabs ?r4) s
        in if stored_task_ok F LEGACY_BROWSER_TASK_LIFECYCLE_VERSION t then Inr t else Inl ZodError) (v4_sessions ?r4) =
      (if \<forall>s \<in> set (v4_sessions ?r4). length (sessionId s) \<le> 123
       then Inr (map (session_task expires (v4_tabs ?r4)) (v4_sessions ?r4)) else Inl ZodError)"
    using task_ok unfolding Let_def
      mapM_parse [where P = "stored_task_ok F LEGACY_BROWSER_TASK_LIFECYCLE_VERSION" and f = "session_task expires (v4_tabs ?r4)"]
    by (simp add: list_all_iff)
  show ?thesis
  proof (cases "\<forall>s \<in> set (v4_sessions ?r4). length (sessionId s) \<le> 123")
    case True
    have "str_between 1 128 (''task-'' @ ut_sessionId t)" if "t \<in> set (v4_tabs ?r4)" for t
    proof -
      from recoveredV4_consistent [of lc d] that obtain s where "s \<in> set (v4_sessions ?r4)" "sessionId s = ut_sessionId t"
        unfolding registryV4_consistent_iff by (metis imageE)
      with True show ?thesis by (force simp: str_between_def)
    qed
    then have "registryV5StorageSchema_ok F (migrated_from_v4 lc expires d)"
      using st True task_ok
      by (auto simp: storage_versions registryV56StorageSchema_ok_def registryV4StorageSchema_ok_def migrated_from_v4_def Let_def list_all_iff
          unifiedBrowserTabSchema_ok_def unifiedBrowserTabV4Schema_ok_def UnifiedBrowserTabV4.defs UnifiedBrowserTab.defs)
    then show ?thesis
      using True m migrateV5_succeeds
      by (simp add: migrateV4Registry_def recoverV4_succeeds [OF assms(1)] migrated_from_v4_def Let_def)
  next
    case False
    with m show ?thesis
      by (auto simp: migrateV4Registry_def recoverV4_succeeds [OF assms(1)])
  qed
qed

subsection \<open>Loading\<close>

lemma truncate_legacy [simp]:
  "tb_tabId (BrowserTabBinding.truncate b) = tb_tabId b" "tb_sessionId (BrowserTabBinding.truncate b) = tb_sessionId b"
  "sessionId (BrowserSession.truncate s) = sessionId s"
  by (simp_all add: BrowserTabBinding.truncate_def BrowserSession.truncate_def)

text \<open>The version-4 registry a version-3 registry becomes.\<close>

definition v3_to_v4 :: "registryV3 \<Rightarrow> registryV4" where
  "v3_to_v4 d =
    (let ss = filter (\<lambda>s. ls_driver s = DirectDriver \<and> ls_profileType s = PersistentProfile) (v3_sessions d);
         ts = filter (\<lambda>t. lt_driver t = DirectDriver \<and> ut_sessionId t \<in> sessionId ` set ss) (v3_tabs d)
     in \<lparr>v4_updatedAt = v3_updatedAt d, v4_sessions = map BrowserSession.truncate ss,
         v4_tabs = map UnifiedBrowserTabV4.truncate ts,
         v4_bindings = map BrowserTabBinding.truncate
           (filter (\<lambda>b. lb_driver b = DirectDriver \<and> tb_sessionId b \<in> sessionId ` set ss \<and> tb_tabId b \<in> ut_tabId ` set ts)
             (v3_bindings d))\<rparr>)"

lemma migrateV3_is_v4:
  assumes "registryV3StorageSchema_ok F d"
  shows "migrateV3Registry lc F expires d = migrateV4Registry lc F expires (v3_to_v4 d)"
    and "registryV4StorageSchema_ok F (v3_to_v4 d)"
proof -
  show st: "registryV4StorageSchema_ok F (v3_to_v4 d)"
    using assms by (auto simp: registryV3StorageSchema_ok_def registryV4StorageSchema_ok_def v3_to_v4_def Let_def
        list_all_iff intro: order_trans [OF length_filter_le])
  note A = assms [unfolded registryV3StorageSchema_ok_def list_all_iff]
  note parse = mapM_parse [where e = ZodError] list_all_iff
  have s: "mapM (\<lambda>s. if browserSessionSchema_ok F (BrowserSession.truncate s) then Inr (BrowserSession.truncate s) else Inl ZodError)
      (filter Q (v3_sessions d)) = Inr (map BrowserSession.truncate (filter Q (v3_sessions d)))" for Q
    using A by (simp add: parse)
  have t: "mapM (\<lambda>t. if unifiedBrowserTabV4Schema_ok F (UnifiedBrowserTabV4.truncate t)
      then Inr (UnifiedBrowserTabV4.truncate t) else Inl ZodError)
      (filter Q (v3_tabs d)) = Inr (map UnifiedBrowserTabV4.truncate (filter Q (v3_tabs d)))" for Q
    using A unfolding parse [where P = "unifiedBrowserTabV4Schema_ok F"] by (simp add: list_all_iff)
  have b: "mapM (\<lambda>b. if browserTabBindingSchema_ok F (BrowserTabBinding.truncate b)
      then Inr (BrowserTabBinding.truncate b) else Inl ZodError)
      (filter Q (v3_bindings d)) = Inr (map BrowserTabBinding.truncate (filter Q (v3_bindings d)))" for Q
    using A by (simp add: parse)
  show "migrateV3Registry lc F expires d = migrateV4Registry lc F expires (v3_to_v4 d)"
    using st unfolding migrateV3Registry_def Let_def s t b sum.case
    by (simp add: v3_to_v4_def Let_def image_image)
qed

text \<open>
  No version of the file survives as live state: in whatever \<open>load\<close> returns, sessions are not starting or
  connected and tasks are not running.
\<close>

definition at_rest :: "registryV6 \<Rightarrow> bool" where
  "at_rest r = (list_all (\<lambda>s. session_state s \<noteq> Starting \<and> session_state s \<noteq> Connected) (sessions r) \<and>
     list_all (\<lambda>k. task_state k \<noteq> Active \<and> task_state k \<noteq> Finishing) (rtasks r))"

lemma recoveredV4_at_rest:
  "s \<in> set (v4_sessions (recoveredV4 lc d)) \<Longrightarrow> session_state s \<noteq> Starting \<and> session_state s \<noteq> Connected"
proof (rule recoveredV4_parts [of lc d])
  fix ss ts bs
  assume "s \<in> set (v4_sessions (recoveredV4 lc d))"
    and "v4_sessions (recoveredV4 lc d) = filter (\<lambda>s. sessionId s \<in> ut_sessionId ` set ts \<or>
       Map_get (Map_from (map (\<lambda>s. (sessionId s, session_state s)) (v4_sessions d))) (sessionId s) = Some Disconnected) ss"
    and "ss = map disconnect (deduplicateBy sessionId
       (sort_cmp (\<lambda>l r. lc (session_lastUsedAt r) (session_lastUsedAt l)) (v4_sessions d)))"
  then have "s \<in> disconnect ` set (deduplicateBy sessionId
       (sort_cmp (\<lambda>l r. lc (session_lastUsedAt r) (session_lastUsedAt l)) (v4_sessions d)))" by simp
  then show ?thesis by (auto simp: disconnect_def split: if_splits)
qed

lemma migratedV5_at_rest: "at_rest (migratedV5 lc d)"
  using recoveredV4_at_rest
  by (auto simp: at_rest_def migratedV5_def list_all_iff retire_task_def)

lemma registryV6Schema_InrD: "registryV6Schema F r = Inr r' \<Longrightarrow> r' = r \<and> registryV6_consistent r \<and> registryV6StorageSchema_ok F r"
  by (simp add: registryV6Schema_def split: if_splits)

lemma recoverV6_at_rest:
  assumes "recoverV6Registry lc F d = Inr r"
  shows "at_rest r \<and> registryV6_consistent r \<and> registryV6StorageSchema_ok F r"
proof -
  have susp: "task_state (suspend_task kept t) \<noteq> Active \<and> task_state (suspend_task kept t) \<noteq> Finishing" for kept t
    by (simp add: suspend_task_def)
  from assms susp recoveredV4_at_rest show ?thesis
    unfolding recoverV6Registry_def Let_def parse_task_def mapM_parse recoverV4Registry_def registryV4Schema_def
    by (auto simp: at_rest_def list_all_iff split: if_splits sum.splits dest!: registryV6Schema_InrD)
qed


lemma renameWithRetry_ok:
  "renameWithRetry outcome (attempt + n) attempt = Inr () \<longleftrightarrow>
    n = 0 \<or> (\<exists>j < n. outcome (attempt + j) = Renamed \<and>
       (\<forall>m < j. \<exists>c \<in> set TRANSIENT_RENAME_CODES. outcome (attempt + m) = RenameFailed (Some c)))"
proof (induction n arbitrary: attempt)
  case 0
  show ?case by (subst renameWithRetry.simps) simp
next
  case (Suc n)
  let ?t = "\<lambda>m. \<exists>c \<in> set TRANSIENT_RENAME_CODES. outcome m = RenameFailed (Some c)"
  have split: "(\<exists>j < Suc n. outcome (attempt + j) = Renamed \<and> (\<forall>m < j. ?t (attempt + m))) \<longleftrightarrow>
      outcome attempt = Renamed \<or>
      ?t attempt \<and> (\<exists>j < n. outcome (Suc attempt + j) = Renamed \<and> (\<forall>m < j. ?t (Suc attempt + m)))"
    (is "?L \<longleftrightarrow> ?R")
    by (simp add: Ex_less_Suc2 All_less_Suc2) blast
  have "renameWithRetry outcome (attempt + Suc n) attempt = Inr () \<longleftrightarrow>
      outcome attempt = Renamed \<or> ?t attempt \<and> n \<noteq> 0 \<and> renameWithRetry outcome (Suc attempt + n) (Suc attempt) = Inr ()"
    by (subst renameWithRetry.simps) (auto split: rename_outcome.splits option.splits)
  then show ?case unfolding split Suc.IH by auto
qed


text \<open>What every version of the recovery guarantees of the registry it returns.\<close>

definition recovered_ok :: "formats \<Rightarrow> registryV6 \<Rightarrow> bool" where
  "recovered_ok F r = (at_rest r \<and> registryV6_consistent r \<and> registryV6StorageSchema_ok F r)"

lemma migrateV5_recovered: "migrateV5Registry lc F d = Inr r \<Longrightarrow> recovered_ok F r"
  using recoveredV4_at_rest [of _ lc "to_v4 d"]
  unfolding migrateV5Registry_def parse_task_def mapM_parse recoverV4Registry_def registryV4Schema_def recovered_ok_def
  by (auto simp: at_rest_def list_all_iff retire_task_def split: if_splits sum.splits dest!: registryV6Schema_InrD)

lemma migrateV4_recovered: "migrateV4Registry lc F expires d = Inr r \<Longrightarrow> recovered_ok F r"
  by (auto simp: migrateV4Registry_def Let_def split: sum.splits if_splits dest: migrateV5_recovered)

lemma migrateV3_recovered: "migrateV3Registry lc F expires d = Inr r \<Longrightarrow> recovered_ok F r"
  by (auto simp: migrateV3Registry_def Let_def split: sum.splits if_splits dest: migrateV4_recovered)

lemma recoverV6_recovered: "recoverV6Registry lc F d = Inr r \<Longrightarrow> recovered_ok F r"
  by (simp add: recovered_ok_def recoverV6_at_rest)

lemmas all_recovered = migrateV5_recovered migrateV4_recovered migrateV3_recovered recoverV6_recovered

lemma renameWithRetry_cases:
  "renameWithRetry outcome attempts attempt = Inr () \<or> renameWithRetry outcome attempts attempt = Inl PlainError"
proof (induction outcome attempts attempt rule: renameWithRetry.induct)
  case (1 outcome attempts attempt)
  then show ?case by (subst (1 2) renameWithRetry.simps) (auto split: rename_outcome.splits option.splits)
qed

section \<open>Properties\<close>

definition any_format :: formats where
  "any_format = \<lparr>is_url = (\<lambda>s. s \<noteq> []), is_datetime = (\<lambda>s. s \<noteq> [])\<rparr>"

definition sample_session :: BrowserSession where
  "sample_session = createBrowserSession ''u1'' ''2026-01-01'' \<lparr>rm_mode = None, rm_routingReason = None, rm_routingPolicyReason = None\<rparr>"

definition sample_task :: "string BrowserTask" where
  "sample_task = \<lparr>taskId = ''k1'', ownerScopeHash = ''h'', task_state = Active, tabIds = [''t1''], createdAt = ''2026-01-01'',
     lastActivityAt = ''2026-01-02'', expiresAt = ''2026-01-03'', lifecycleVersion = CURRENT_BROWSER_TASK_LIFECYCLE_VERSION\<rparr>"

definition sample_tab :: UnifiedBrowserTab where
  "sample_tab = \<lparr>ut_tabId = ''t1'', ut_sessionId = sessionId sample_session, ut_remoteTabId = ''r1'', ut_remoteIndex = 0,
     ut_purpose = ''p'', ut_reusable = True, ut_protected = False, ut_sticky = False, ut_createdAt = ''2026-01-01'',
     ut_lastUsedAt = ''2026-01-01'', ut_url = None, ut_requestedUrl = None, ut_title = None, ut_lockedUrl = None,
     ut_taskId = ''k1'', ut_lifecycle = TaskScoped\<rparr>"

definition sample_binding :: BrowserTabBinding where
  "sample_binding = \<lparr>tb_tabId = ''t1'', tb_sessionId = sessionId sample_session, tb_remoteTabId = ''r1'', tb_remoteIndex = 0,
     tb_url = ''u'', tb_title = [], tb_remoteTabCount = None, tb_navigation = None\<rparr>"

definition sample_registry :: registryV6 where
  "sample_registry = \<lparr>updatedAt = ''now'', sessions = [sample_session], rtasks = [sample_task], rtabs = [sample_tab],
     bindings = [sample_binding]\<rparr>"

text \<open>
  C11. Whatever file is loaded, when loading succeeds the registry passes every cross-reference check, no
  session of it is starting or connected and no task of it is active or finishing: nothing that needed the
  previous process is taken for live.
\<close>

theorem load_consistent_and_at_rest:
  assumes "load lc F expires epoch file = Inr r"
  shows "registryV6_consistent r \<and> at_rest r \<and> (registryV6StorageSchema_ok F r \<or> r = emptyRegistry epoch)"
proof -
  have "recovered_ok F r \<or> r = emptyRegistry epoch"
    using assms by (cases "file") (auto split: if_splits dest: all_recovered)
  then show ?thesis
    by (auto simp: recovered_ok_def emptyRegistry_def at_rest_def registryV6_consistent_iff)
qed

theorem load_consistent_and_at_rest_witness:
  "registryV6_consistent (recoveredV6 (\<lambda>_ _. 0) sample_registry) \<and> at_rest (recoveredV6 (\<lambda>_ _. 0) sample_registry)"
proof -
  have "load (\<lambda>_ _. 0) any_format ''e'' ''e'' (FileV6 sample_registry) = Inr (recoveredV6 (\<lambda>_ _. 0) sample_registry)"
    by code_simp
  from load_consistent_and_at_rest [OF this] show ?thesis by simp
qed

text \<open>
  C16. A registry that was saved loads back: tabs, bindings and instants as saved, terminal tasks
  unchanged and every other task suspended with its tabs, sessions that have a tab or were disconnected
  kept in the order of last use, those starting or connected marked disconnected.
\<close>

theorem save_load_round_trip:
  assumes "save F now written outcome ss ts bs ks file = (Inr (), file')"
  shows "load lc F expires epoch file' =
    Inr \<lparr>updatedAt = now,
         sessions = map disconnect (filter (\<lambda>s. sessionId s \<in> ut_sessionId ` set ts \<or> session_state s = Disconnected)
           (sort_cmp (\<lambda>l r. lc (session_lastUsedAt r) (session_lastUsedAt l)) ss)),
         rtasks = map (\<lambda>k. k\<lparr>task_state := (if isTerminal (task_state k) then task_state k else Suspended)\<rparr>) ks,
         rtabs = ts, bindings = bs\<rparr>"
proof -
  let ?d = "\<lparr>updatedAt = now, sessions = ss, rtasks = ks, rtabs = ts, bindings = bs\<rparr>"
  from assms have f: "file' = FileV6 ?d" and c: "registryV6StorageSchema_ok F ?d" "registryV6_consistent ?d"
    by (auto simp: save_def registryV6Schema_def split: if_splits sum.splits)
  from recoverV6_of_consistent [OF c] c(1) show ?thesis
    by (simp add: f recoveredV6_def retained_sessions_def)
qed

theorem save_load_round_trip_witness:
  "load (\<lambda>_ _. 0) any_format ''e'' ''e'' (FileV6 sample_registry) =
    Inr (sample_registry\<lparr>sessions := [sample_session\<lparr>session_state := Disconnected\<rparr>],
      rtasks := [sample_task\<lparr>task_state := Suspended\<rparr>]\<rparr>)"
proof -
  have "save any_format ''now'' True (\<lambda>n. if n = 0 then RenameFailed (Some ''EBUSY'') else Renamed)
      [sample_session] [sample_tab] [sample_binding] [sample_task] FileMissing = (Inr (), FileV6 sample_registry)"
    by code_simp
  note load = save_load_round_trip [OF this, of "\<lambda>_ _. 0" "''e''" "''e''"]
  show ?thesis unfolding load by code_simp
qed

text \<open>
  A save succeeds exactly when the data passes the schema, tabs come with tasks, the temporary file
  is written and one of the first six renames succeeds after transient failures only; then the file holds
  the data. In every other case the file is as before.
\<close>

theorem save_all_or_nothing:
  "save F now written outcome ss ts bs ks file =
    (let data = \<lparr>updatedAt = now, sessions = ss, rtasks = ks, rtabs = ts, bindings = bs\<rparr>;
         accepted = (\<not> (ts \<noteq> [] \<and> ks = []) \<and> registryV6StorageSchema_ok F data \<and> registryV6_consistent data);
         renamed = (\<exists>n < 6. outcome n = Renamed \<and>
           (\<forall>m < n. \<exists>c \<in> {''EACCES'', ''EBUSY'', ''EEXIST'', ''ENOTEMPTY'', ''EPERM''}. outcome m = RenameFailed (Some c)))
     in if accepted \<and> written \<and> renamed then (Inr (), FileV6 data)
        else (Inl (if (ts = [] \<or> ks \<noteq> []) \<and> \<not> accepted then ZodError else PlainError), file))"
proof -
  let ?data = "\<lparr>updatedAt = now, sessions = ss, rtasks = ks, rtabs = ts, bindings = bs\<rparr>"
  have "renameWithRetry outcome 6 0 = Inr () \<longleftrightarrow> (\<exists>n < 6. outcome n = Renamed \<and>
      (\<forall>m < n. \<exists>c \<in> set TRANSIENT_RENAME_CODES. outcome m = RenameFailed (Some c)))"
    using renameWithRetry_ok [of outcome 0 6] by simp
  moreover have "renameWithRetry outcome 6 0 = Inr () \<or> renameWithRetry outcome 6 0 = Inl PlainError"
    by (rule renameWithRetry_cases)
  ultimately show ?thesis
    unfolding save_def registryV6Schema_def Let_def
    by (cases "ts \<noteq> [] \<and> ks = []"; cases "registryV6StorageSchema_ok F ?data \<and> registryV6_consistent ?data"; cases written)
      (auto simp: TRANSIENT_RENAME_CODES_def)
qed

text \<open>
  A stored version-4 registry is migrated without its tabs: each session the recovery
  retains becomes an expired task of the unclaimed legacy owner. The migration fails, and with it the
  start of the worker, exactly when a retained session has an identifier longer than 123 characters,
  although the schema of the file allows 128.
\<close>

theorem v4_migration:
  assumes "registryV4StorageSchema_ok F d" and "is_datetime F expires"
  shows "if \<forall>s \<in> set (v4_sessions (recoveredV4 lc d)). length (sessionId s) \<le> 123
    then \<exists>r. load lc F expires epoch (FileV4 d) = Inr r \<and> rtabs r = [] \<and> bindings r = [] \<and>
      rtasks r = map (\<lambda>s. \<lparr>taskId = ''task-'' @ sessionId s, ownerScopeHash = ''legacy-unclaimed'', task_state = Expired,
        tabIds = [], createdAt = session_createdAt s, lastActivityAt = session_lastUsedAt s,
        expiresAt = session_lastUsedAt s, lifecycleVersion = 2\<rparr>) (v4_sessions (recoveredV4 lc d))
    else load lc F expires epoch (FileV4 d) = Inl ZodError"
proof -
  have "distinct (map sessionId (v4_sessions (recoveredV4 lc d)))"
    using recoveredV4_consistent [of lc d] by (simp add: registryV4_consistent_iff)
  then have "distinct (map taskId (rtasks (migrated_from_v4 lc expires d)))"
    by (simp add: migrated_from_v4_def Let_def session_task_def comp_def distinct_map inj_on_def)
  then show ?thesis
    using assms(1) by (simp add: migrateV4_result [OF assms] migratedV5_def dedup_id)
      (simp add: migrated_from_v4_def Let_def session_task_def retire_task_def isTerminal_def
        LEGACY_UNCLAIMED_OWNER_SCOPE_HASH_def CURRENT_BROWSER_TASK_LIFECYCLE_VERSION_def)
qed

definition long_named_v4 :: registryV4 where
  "long_named_v4 = \<lparr>v4_updatedAt = ''now'',
     v4_sessions = [sample_session\<lparr>sessionId := replicate 124 CHR ''s'', session_state := Disconnected\<rparr>],
     v4_tabs = [], v4_bindings = []\<rparr>"

end
