(* ===== verification/JsValue.thy ===== *)
theory JsValue
  imports Prelude
begin

text \<open>
  Values of type \<open>unknown\<close>, as the code that walks over untyped data sees them, and the string operations on property names
  that this code shares.
\<close>

section \<open>Values\<close>

text \<open>
  The finite number \<open>Finite m e\<close> is \<open>m * 10 ^ e\<close>, written with the shortest digits that read back as the number: \<open>m\<close> has no
  trailing zero digit. (The language's \<open>-0\<close> has the text of \<open>0\<close> and no code here tells them apart.) A plain object is the list
  of its own enumerable properties in their order; a \<open>JsInstance\<close> is an object with another prototype, with its own
  properties; \<open>JsOther\<close> is a function, a symbol or a bigint.
\<close>

datatype js_number = Finite int int | NonFinite

datatype js_value = JsNull | JsUndefined | JsBool bool | JsNumber js_number | JsString string | JsArray "js_value list"
  | JsObject "(string \<times> js_value) list" | JsInstance "(string \<times> js_value) list" | JsOther string

text \<open>A step that runs on the result of another one; an error ends the sequence.\<close>

definition then_parse :: "'e + 'a \<Rightarrow> ('a \<Rightarrow> 'e + 'b) \<Rightarrow> 'e + 'b" where
  "then_parse r f = (case r of Inl e \<Rightarrow> Inl e | Inr x \<Rightarrow> f x)"

lemma then_parse_simps [simp]: "then_parse (Inl e) f = Inl e" "then_parse (Inr x) f = f x"
  by (simp_all add: then_parse_def)

lemma then_parse_Inr: "then_parse r f = Inr y \<longleftrightarrow> (\<exists>x. r = Inr x \<and> f x = Inr y)"
  by (cases r) auto

lemma then_parse_Inl: "then_parse r f = Inl e \<longleftrightarrow> r = Inl e \<or> (\<exists>x. r = Inr x \<and> f x = Inl e)"
  by (cases r) auto

section \<open>Strings\<close>

text \<open>\<open>toLowerCase\<close> and \<open>toLocaleLowerCase("en-US")\<close> on the characters up to 255.\<close>

definition lower_char :: "char \<Rightarrow> char" where
  "lower_char c = (let n = of_char c :: nat in
     if 65 \<le> n \<and> n \<le> 90 \<or> 192 \<le> n \<and> n \<le> 222 \<and> n \<noteq> 215 then char_of (n + 32) else c)"

text \<open>\<open>normalize("NFD")\<close> followed by the removal of the combining marks, on one character.\<close>

definition strip_mark :: "char \<Rightarrow> char" where
  "strip_mark c = (let n = of_char c :: nat; lower = (n \<ge> 224); m = (if lower then n - 32 else n);
       base = (if 192 \<le> m \<and> m \<le> 197 then 65 else if m = 199 then 67 else if 200 \<le> m \<and> m \<le> 203 then 69
               else if 204 \<le> m \<and> m \<le> 207 then 73 else if m = 209 then 78 else if 210 \<le> m \<and> m \<le> 214 then 79
               else if 217 \<le> m \<and> m \<le> 220 then 85 else if m = 221 \<or> n = 255 then 89 else (0 :: nat))
     in if n < 192 \<or> base = 0 then c else char_of (if lower then base + 32 else base))"

text \<open>\<open>replace(/\\s+/gu, " ")\<close>.\<close>

fun collapse_spaces :: "string \<Rightarrow> string" where
  "collapse_spaces [] = []"
| "collapse_spaces (c # cs) =
    (if is_space c then (case collapse_spaces cs of
        [] \<Rightarrow> '' ''
      | d # ds \<Rightarrow> if is_space d then d # ds else CHR '' '' # d # ds)
     else c # collapse_spaces cs)"

text \<open>\<open>replace(/[...]+/gu, " ")\<close>: a run of characters of a class becomes one space.\<close>

lemma length_dropWhile_less [termination_simp]: "length (dropWhile P cs) < Suc (length cs)"
  using length_dropWhile_le [of P cs] by linarith

fun replace_runs :: "(char \<Rightarrow> bool) \<Rightarrow> string \<Rightarrow> string" where
  "replace_runs P [] = []"
| "replace_runs P (c # cs) = (if P c then CHR '' '' # replace_runs P (dropWhile P cs) else c # replace_runs P cs)"

text \<open>\<open>split\<close> at a character.\<close>

fun split_on :: "char \<Rightarrow> string \<Rightarrow> string list" where
  "split_on d [] = [[]]"
| "split_on d (c # cs) =
    (if c = d then [] # split_on d cs else (case split_on d cs of [] \<Rightarrow> [[c]] | p # ps \<Rightarrow> (c # p) # ps))"

lemma split_on_nonempty [simp]: "split_on d s \<noteq> []"
  by (induction s) (auto split: list.splits)

lemma split_on_single: "d \<notin> set s \<Longrightarrow> split_on d s = [s]"
  by (induction s) auto

lemma split_on_append: "d \<notin> set s \<Longrightarrow> split_on d (s @ d # t) = s # split_on d t"
  by (induction s) auto

definition join :: "string \<Rightarrow> string list \<Rightarrow> string" where
  "join sep ss = (case ss of [] \<Rightarrow> [] | s # rest \<Rightarrow> s @ concat (map (\<lambda>t. sep @ t) rest))"

lemma join_simps [simp]: "join sep [] = []" "join sep [s] = s" "join sep (s # t # ss) = s @ sep @ join sep (t # ss)"
  by (simp_all add: join_def)

lemma split_on_pieces: "p \<in> set (split_on d s) \<Longrightarrow> d \<notin> set p"
  by (induction s arbitrary: p) (auto split: if_splits list.splits)

lemma split_on_join: "ss \<noteq> [] \<Longrightarrow> \<forall>s \<in> set ss. d \<notin> set s \<Longrightarrow> split_on d (join [d] ss) = ss"
proof (induction ss rule: induct_list012)
  case (3 s t ss)
  then show ?case using split_on_append [of d s "join [d] (t # ss)"] by simp
qed (auto simp: split_on_single)

definition startsWith :: "string \<Rightarrow> string \<Rightarrow> bool" where
  "startsWith s prefix = (take (length prefix) s = prefix)"

section \<open>Property names\<close>

text \<open>
  Lower case, restricted to letters and digits. Outside of ASCII, lower case does not matter: those characters are dropped.
\<close>

definition lower_ascii :: "char \<Rightarrow> char" where
  "lower_ascii c = (let n = of_char c in if 65 \<le> n \<and> n \<le> (90 :: nat) then char_of (n + 32) else c)"

definition normalized_key :: "string \<Rightarrow> string" where
  "normalized_key key = filter (\<lambda>c. c \<in> set ''abcdefghijklmnopqrstuvwxyz0123456789'') (map lower_ascii key)"

definition string_includes :: "string \<Rightarrow> string \<Rightarrow> bool" where
  "string_includes s sub = list_ex (\<lambda>n. take (length sub) (drop n s) = sub) [0..<Suc (length s)]"

definition endsWith :: "string \<Rightarrow> string \<Rightarrow> bool" where
  "endsWith s suffix = (length suffix \<le> length s \<and> drop (length s - length suffix) s = suffix)"

end
