(* ===== verification/SitePolicy.thy ===== *)
theory SitePolicy
  imports SessionModel JsValue "HOL-Library.Sublist"
begin

text \<open>
  The policies of authorised private sites, \<open>services/browser-worker/domain/authorized-site-policy.ts\<close>:
  the schemas, the registry of origins, and the two decisions made from a policy. \<open>lc\<close> stands for
  \<open>localeCompare\<close>; \<open>origin_of value\<close> for \<open>new URL(value).origin\<close>, \<open>None\<close> when the constructor throws.
  An absent field with a default is given by the default.
\<close>

section \<open>Text\<close>

text \<open>\<open>toUpperCase\<close>: the sharp s becomes two letters; 181 and 255, whose capitals are outside the range, stay.\<close>

definition toUpperCase_char :: "char \<Rightarrow> string" where
  "toUpperCase_char c = (let n = of_char c in
     if 97 \<le> n \<and> n \<le> (122 :: nat) \<or> 224 \<le> n \<and> n \<le> 254 \<and> n \<noteq> 247 then [char_of (n - 32)]
     else if n = 223 then ''SS'' else [c])"

definition toUpperCase :: "string \<Rightarrow> string" where
  "toUpperCase s = concat (map toUpperCase_char s)"

definition normalizeSemanticText :: "string option \<Rightarrow> string" where
  "normalizeSemanticText v = trim (collapse_spaces (map (lower_char \<circ> strip_mark) (defaultTo v [])))"

definition uniqueSorted :: "(string \<Rightarrow> string \<Rightarrow> int) \<Rightarrow> string list \<Rightarrow> string list" where
  "uniqueSorted lc values = sort_cmp lc (Set_from values)"

definition arraysEqual :: "string list \<Rightarrow> string list \<Rightarrow> bool" where
  "arraysEqual left right = (length left = length right \<and> list_all (\<lambda>i. left ! i = right ! i) [0..<length left])"

section \<open>Policies\<close>

record AuthorizedSiteRequestRule =
  methods :: "string list"
  rule_pathname :: string
  rule_queryKeys :: "string list"
  resourceTypes :: "string list option"
  frames :: "string list option"
  rule_navigation :: "bool option"
  requiresSemanticPermit :: bool

datatype SemanticOperation = FrameClick | FrameSequenceClick

record AuthorizedSiteSemanticActionRule =
  sem_operation :: SemanticOperation
  framePath :: "string list"
  selector :: "string option"
  sem_text :: "string option"

record AuthorizedSiteRequestPolicy =
  rules :: "AuthorizedSiteRequestRule list"
  semanticActions :: "AuthorizedSiteSemanticActionRule list"

datatype LoginStrategy = NoLogin | CredentialBroker

record AuthorizedSitePolicy =
  siteId :: string
  entryUrl :: string
  allowedOrigins :: "string list"
  deniedOrigins :: "string list"
  loginStrategy :: LoginStrategy
  credentialAccountId :: "string option"
  requestPolicy :: "AuthorizedSiteRequestPolicy option"

definition list_between :: "nat \<Rightarrow> nat \<Rightarrow> ('a \<Rightarrow> bool) \<Rightarrow> 'a list \<Rightarrow> bool" where
  "list_between lo hi P xs = (lo \<le> length xs \<and> length xs \<le> hi \<and> list_all P xs)"

definition requestMethods :: "string list" where
  "requestMethods = [''GET'', ''HEAD'', ''POST'']"

definition sorted_rule :: "(string \<Rightarrow> string \<Rightarrow> int) \<Rightarrow> AuthorizedSiteRequestRule \<Rightarrow> AuthorizedSiteRequestRule" where
  "sorted_rule lc r = r\<lparr>methods := uniqueSorted lc (methods r), rule_queryKeys := uniqueSorted lc (rule_queryKeys r),
     resourceTypes := map_option (uniqueSorted lc) (resourceTypes r), frames := map_option (uniqueSorted lc) (frames r)\<rparr>"

definition authorizedSiteRequestRuleSchema ::
  "(string \<Rightarrow> string \<Rightarrow> int) \<Rightarrow> AuthorizedSiteRequestRule \<Rightarrow> AuthorizedSiteRequestRule result" where
  "authorizedSiteRequestRuleSchema lc r =
    (if list_between 1 3 (\<lambda>m. m \<in> set requestMethods) (methods r) \<and>
        str_between 1 2000 (rule_pathname r) \<and> prefix ''/'' (rule_pathname r) \<and>
        list_between 0 50 (str_between 1 128) (rule_queryKeys r) \<and>
        optional (list_between 1 20 (str_between 1 50)) (resourceTypes r) \<and>
        optional (list_between 1 20 (str_between 1 120)) (frames r)
     then Inr (sorted_rule lc r)
     else Inl ZodError)"

definition authorizedSiteSemanticActionRuleSchema_ok :: "AuthorizedSiteSemanticActionRule \<Rightarrow> bool" where
  "authorizedSiteSemanticActionRuleSchema_ok r =
    (list_between 1 10 (str_between 1 120) (framePath r) \<and> optional (str_between 1 2000) (selector r) \<and>
     optional (str_between 1 500) (sem_text r) \<and>
     of_bool (selector r \<noteq> None) + of_bool (sem_text r \<noteq> None) = (1 :: nat))"

definition authorizedSiteRequestPolicySchema ::
  "(string \<Rightarrow> string \<Rightarrow> int) \<Rightarrow> AuthorizedSiteRequestPolicy \<Rightarrow> AuthorizedSiteRequestPolicy result" where
  "authorizedSiteRequestPolicySchema lc p =
    (if list_between 1 100 (\<lambda>_. True) (rules p) \<and>
        list_between 0 100 authorizedSiteSemanticActionRuleSchema_ok (semanticActions p)
     then (case mapM (authorizedSiteRequestRuleSchema lc) (rules p) of
             Inl e \<Rightarrow> Inl e
           | Inr rs \<Rightarrow> Inr (p\<lparr>rules := rs\<rparr>))
     else Inl ZodError)"

definition exactOriginSchema :: "(string \<Rightarrow> string option) \<Rightarrow> string \<Rightarrow> string result" where
  "exactOriginSchema origin_of v = (case origin_of v of None \<Rightarrow> Inl ZodError | Some o' \<Rightarrow> Inr o')"

definition authorizedSitePolicySchema :: "formats \<Rightarrow> (string \<Rightarrow> string \<Rightarrow> int) \<Rightarrow> (string \<Rightarrow> string option) \<Rightarrow>
    AuthorizedSitePolicy \<Rightarrow> AuthorizedSitePolicy result" where
  "authorizedSitePolicySchema F lc origin_of p =
    (if str_between 1 128 (siteId p) \<and> is_url F (entryUrl p) \<and>
        list_between 1 20 (\<lambda>_. True) (allowedOrigins p) \<and> list_between 0 20 (\<lambda>_. True) (deniedOrigins p) \<and>
        optional (str_between 1 128) (credentialAccountId p)
     then (case (mapM (exactOriginSchema origin_of) (allowedOrigins p),
                 mapM (exactOriginSchema origin_of) (deniedOrigins p),
                 (case requestPolicy p of
                    None \<Rightarrow> Inr None
                  | Some q \<Rightarrow> (case authorizedSiteRequestPolicySchema lc q of Inl e \<Rightarrow> Inl e | Inr q' \<Rightarrow> Inr (Some q')))) of
             (Inr as, Inr ds, Inr q) \<Rightarrow> Inr (p\<lparr>allowedOrigins := as, deniedOrigins := ds, requestPolicy := q\<rparr>)
           | _ \<Rightarrow> Inl ZodError)
     else Inl ZodError)"

section \<open>The registry\<close>

record BrowserSitePolicyRegistry =
  policies :: "(string, AuthorizedSitePolicy) jsMap"
  privateOrigins :: "(string, AuthorizedSitePolicy) jsMap"
  denied :: "string list"

fun claim_origins :: "AuthorizedSitePolicy \<Rightarrow> string list \<Rightarrow> (string, AuthorizedSitePolicy) jsMap \<Rightarrow>
    (string, AuthorizedSitePolicy) jsMap result" where
  "claim_origins p [] m = Inr m"
| "claim_origins p (o' # os) m =
    (case Map_get m o' of
       Some q \<Rightarrow> if siteId q \<noteq> siteId p then Inl (AppError POLICY_INVALID) else claim_origins p os (Map_set m o' p)
     | None \<Rightarrow> claim_origins p os (Map_set m o' p))"

definition add_policy :: "AuthorizedSitePolicy \<Rightarrow> BrowserSitePolicyRegistry \<Rightarrow> BrowserSitePolicyRegistry result" where
  "add_policy p reg =
    (if Map_has (policies reg) (siteId p) then Inl (AppError POLICY_INVALID)
     else (case claim_origins p (allowedOrigins p) (privateOrigins reg) of
             Inl e \<Rightarrow> Inl e
           | Inr m \<Rightarrow> Inr \<lparr>policies = Map_set (policies reg) (siteId p) p, privateOrigins = m,
                          denied = fold (\<lambda>o' s. Set_add s o') (deniedOrigins p) (denied reg)\<rparr>))"

fun add_policies :: "(AuthorizedSitePolicy \<Rightarrow> AuthorizedSitePolicy result) \<Rightarrow> AuthorizedSitePolicy list \<Rightarrow>
    BrowserSitePolicyRegistry \<Rightarrow> BrowserSitePolicyRegistry result" where
  "add_policies parse [] reg = Inr reg"
| "add_policies parse (v # vs) reg =
    (case parse v of
       Inl e \<Rightarrow> Inl e
     | Inr p \<Rightarrow> (case add_policy p reg of Inl e \<Rightarrow> Inl e | Inr reg' \<Rightarrow> add_policies parse vs reg'))"

definition new_site_registry :: "formats \<Rightarrow> (string \<Rightarrow> string \<Rightarrow> int) \<Rightarrow> (string \<Rightarrow> string option) \<Rightarrow>
    AuthorizedSitePolicy list \<Rightarrow> BrowserSitePolicyRegistry result" where
  "new_site_registry F lc origin_of vs =
    add_policies (authorizedSitePolicySchema F lc origin_of) vs \<lparr>policies = [], privateOrigins = [], denied = []\<rparr>"

definition require_policy :: "string \<Rightarrow> BrowserSitePolicyRegistry \<Rightarrow> AuthorizedSitePolicy result" where
  "require_policy i reg =
    (case Map_get (policies reg) i of None \<Rightarrow> Inl (AppError SITE_POLICY_NOT_FOUND) | Some p \<Rightarrow> Inr p)"

datatype ClassifiedSiteUrl = PublicUrl string | PrivateUrl string AuthorizedSitePolicy | DeniedUrl string

definition classify :: "(string \<Rightarrow> string option) \<Rightarrow> string \<Rightarrow> BrowserSitePolicyRegistry \<Rightarrow> ClassifiedSiteUrl result" where
  "classify origin_of value reg =
    (case origin_of value of
       None \<Rightarrow> Inl TypeError
     | Some o' \<Rightarrow>
         if o' \<in> set (denied reg) then Inr (DeniedUrl o')
         else (case Map_get (privateOrigins reg) o' of
                 Some p \<Rightarrow> Inr (PrivateUrl o' p)
               | None \<Rightarrow> Inr (PublicUrl o')))"

definition privateOriginValues :: "BrowserSitePolicyRegistry \<Rightarrow> string list" where
  "privateOriginValues reg = Map_keys (privateOrigins reg)"

definition deniedOriginValues :: "BrowserSitePolicyRegistry \<Rightarrow> string list" where
  "deniedOriginValues reg = denied reg"

definition publicCapabilities :: "BrowserSitePolicyRegistry \<Rightarrow> (string \<times> LoginStrategy) list" where
  "publicCapabilities reg = map (\<lambda>p. (siteId p, loginStrategy p)) (Map_values (policies reg))"

section \<open>Decisions\<close>

record AuthorizedSiteRequestDescriptor =
  d_origin :: string
  d_method :: string
  d_pathname :: string
  d_queryKeys :: "string list"
  d_resourceType :: string
  d_frame :: string
  d_navigation :: bool
  d_semanticPermit :: bool

text \<open>The callback of \<open>rules.some\<close>, for the upper-case method and the sorted query keys of the request.\<close>

definition rule_admits :: "AuthorizedSiteRequestDescriptor \<Rightarrow> string \<Rightarrow> string list \<Rightarrow> AuthorizedSiteRequestRule \<Rightarrow> bool" where
  "rule_admits d meth keys r =
    (meth \<in> set (methods r) \<and> rule_pathname r = d_pathname d \<and> arraysEqual (rule_queryKeys r) keys \<and>
     (case resourceTypes r of None \<Rightarrow> True | Some ts \<Rightarrow> d_resourceType d \<in> set ts) \<and>
     (case frames r of None \<Rightarrow> True | Some fs \<Rightarrow> d_frame d \<in> set fs) \<and>
     (case rule_navigation r of None \<Rightarrow> True | Some n \<Rightarrow> n = d_navigation d) \<and>
     (\<not> requiresSemanticPermit r \<or> d_semanticPermit d))"

definition isAuthorizedSiteRequestAllowed :: "(string \<Rightarrow> string \<Rightarrow> int) \<Rightarrow> AuthorizedSitePolicy \<Rightarrow>
    AuthorizedSiteRequestDescriptor \<Rightarrow> bool" where
  "isAuthorizedSiteRequestAllowed lc p d =
    (case requestPolicy p of
       None \<Rightarrow> True
     | Some q \<Rightarrow>
         if d_origin d \<notin> set (allowedOrigins p) then False
         else list_ex (rule_admits d (toUpperCase (d_method d)) (uniqueSorted lc (d_queryKeys d))) (rules q))"

definition isAuthorizedSiteSemanticActionAllowed :: "AuthorizedSitePolicy \<Rightarrow> AuthorizedSiteSemanticActionRule \<Rightarrow> bool" where
  "isAuthorizedSiteSemanticActionAllowed p d =
    list_ex (\<lambda>r. sem_operation r = sem_operation d \<and> arraysEqual (framePath r) (framePath d) \<and>
        (selector r = None \<or> selector r = selector d) \<and>
        (sem_text r = None \<or> normalizeSemanticText (sem_text r) = normalizeSemanticText (sem_text d)))
      (case requestPolicy p of None \<Rightarrow> [] | Some q \<Rightarrow> semanticActions q)"

text \<open>\<open>origin_with host\<close> is the origin of the URL after its host name is set to \<open>host\<close>.\<close>

definition deriveProductionOrigin :: "(string \<Rightarrow> string) \<Rightarrow> string \<Rightarrow> string option" where
  "deriveProductionOrigin origin_with hostname =
    (if prefix ''dev-'' (map lower_char hostname) then Some (origin_with (drop 4 hostname)) else None)"

lemma arraysEqual_iff [simp]: "arraysEqual xs ys \<longleftrightarrow> xs = ys"
  using list_eq_iff_nth_eq [of xs ys] by (auto simp: arraysEqual_def list_all_iff)

section \<open>The registry knows every origin of its policies\<close>

text \<open>\<open>knows ps reg\<close>: the registry holds exactly the policies \<open>ps\<close>, no two of which share a site or an origin.\<close>

definition knows :: "AuthorizedSitePolicy list \<Rightarrow> BrowserSitePolicyRegistry \<Rightarrow> bool" where
  "knows ps reg =
    (distinct (map siteId ps) \<and>
     (\<forall>i. Map_get (policies reg) i = find (\<lambda>p. siteId p = i) ps) \<and>
     (\<forall>o'. Map_get (privateOrigins reg) o' = find (\<lambda>p. o' \<in> set (allowedOrigins p)) ps) \<and>
     (\<forall>p \<in> set ps. \<forall>q \<in> set ps. set (allowedOrigins p) \<inter> set (allowedOrigins q) \<noteq> {} \<longrightarrow> p = q) \<and>
     set (denied reg) = (\<Union>p \<in> set ps. set (deniedOrigins p)))"

lemma claim_origins_Inr:
  assumes "claim_origins p os m = Inr m'"
  shows "(\<forall>o'. Map_get m' o' = (if o' \<in> set os then Some p else Map_get m o')) \<and>
    (\<forall>o' \<in> set os. \<forall>q. Map_get m o' = Some q \<longrightarrow> siteId q = siteId p)"
  using assms
proof (induction p os m rule: claim_origins.induct)
  case (2 p o' os m)
  from 2(3) have step: "claim_origins p os (Map_set m o' p) = Inr m'"
    and same: "\<forall>q. Map_get m o' = Some q \<longrightarrow> siteId q = siteId p"
    by (auto split: option.splits if_splits)
  have IH: "(\<forall>k. Map_get m' k = (if k \<in> set os then Some p else Map_get (Map_set m o' p) k)) \<and>
      (\<forall>k \<in> set os. \<forall>q. Map_get (Map_set m o' p) k = Some q \<longrightarrow> siteId q = siteId p)"
  proof (cases "Map_get m o'")
    case None
    then show ?thesis using 2(1) step by blast
  next
    case (Some q)
    then show ?thesis using 2(2) [OF Some] same step by blast
  qed
  then have get: "Map_get m' k = (if k \<in> set (o' # os) then Some p else Map_get m k)" for k
    by (simp add: map_model)
  have "siteId q = siteId p" if "k \<in> set os" "Map_get m k = Some q" for k q
  proof (cases "k = o'")
    case False
    with that have "Map_get (Map_set m o' p) k = Some q" by (simp add: map_model)
    with IH that(1) show ?thesis by blast
  qed (use same that in simp)
  with get same show ?case by (metis set_ConsD)
qed simp

lemma find_append: "find P (xs @ ys) = (case find P xs of None \<Rightarrow> find P ys | Some x \<Rightarrow> Some x)"
  by (induction xs) auto

lemma knows_add:
  assumes "knows ps reg" and "add_policy p reg = Inr reg'"
  shows "knows (ps @ [p]) reg'"
proof -
  note K = assms(1) [unfolded knows_def]
  from assms(2) obtain m where fresh: "Map_get (policies reg) (siteId p) = None"
    and m: "claim_origins p (allowedOrigins p) (privateOrigins reg) = Inr m"
    and reg': "reg' = \<lparr>policies = Map_set (policies reg) (siteId p) p, privateOrigins = m,
       denied = fold (\<lambda>o' s. Set_add s o') (deniedOrigins p) (denied reg)\<rparr>"
    by (auto simp: add_policy_def Map_has_get split: if_splits sum.splits)
  have new: "siteId q \<noteq> siteId p" if "q \<in> set ps" for q
    using fresh K that by (auto simp: find_None_iff)
  have disj: "o' \<notin> set (allowedOrigins q)" if "o' \<in> set (allowedOrigins p)" "q \<in> set ps" for o' q
  proof
    assume "o' \<in> set (allowedOrigins q)"
    with that(2) obtain r where r: "find (\<lambda>p. o' \<in> set (allowedOrigins p)) ps = Some r"
      by (cases "find (\<lambda>p. o' \<in> set (allowedOrigins p)) ps") (auto simp: find_None_iff)
    then have "r \<in> set ps" by (auto simp: find_Some_iff)
    moreover have "siteId r = siteId p" using claim_origins_Inr [OF m] that(1) K r by metis
    ultimately show False using new by blast
  qed
  have "find (\<lambda>p. o' \<in> set (allowedOrigins p)) ps = None" if "o' \<in> set (allowedOrigins p)" for o'
    using disj [OF that] by (auto simp: find_None_iff)
  then have origins: "\<forall>o'. Map_get m o' = find (\<lambda>p. o' \<in> set (allowedOrigins p)) (ps @ [p])"
    using claim_origins_Inr [OF m] K by (auto simp: find_append split: option.splits)
  have sites: "\<forall>i. Map_get (Map_set (policies reg) (siteId p) p) i = find (\<lambda>p. siteId p = i) (ps @ [p])"
    using K fresh by (auto simp: find_append map_model split: option.splits)
  have "siteId p \<notin> siteId ` set ps" using new by (metis imageE)
  with K have "distinct (map siteId (ps @ [p]))" by simp
  moreover have "\<forall>q \<in> set (ps @ [p]). \<forall>r \<in> set (ps @ [p]). set (allowedOrigins q) \<inter> set (allowedOrigins r) \<noteq> {} \<longrightarrow> q = r"
  proof (intro ballI impI)
    fix q r
    assume "q \<in> set (ps @ [p])" "r \<in> set (ps @ [p])" and "set (allowedOrigins q) \<inter> set (allowedOrigins r) \<noteq> {}"
    then consider "q \<in> set ps" "r \<in> set ps" | "q = p" "r \<in> set ps" | "q \<in> set ps" "r = p" | "q = p" "r = p" by auto
    then show "q = r" by cases (use K disj \<open>set (allowedOrigins q) \<inter> set (allowedOrigins r) \<noteq> {}\<close> in blast)+
  qed
  ultimately show ?thesis
    using origins sites K by (simp add: knows_def reg' Un_commute)
qed

lemma knows_add_policies:
  "knows ps reg \<Longrightarrow> add_policies parse vs reg = Inr reg' \<Longrightarrow>
    \<exists>qs. mapM parse vs = Inr qs \<and> knows (ps @ qs) reg'"
proof (induction vs arbitrary: ps reg)
  case (Cons v vs)
  then obtain p reg1 where p: "parse v = Inr p" "add_policy p reg = Inr reg1" "add_policies parse vs reg1 = Inr reg'"
    by (auto split: sum.splits)
  from Cons.IH [OF knows_add [OF Cons.prems(1) p(2)] p(3)] p(1) show ?case by auto
qed simp

lemma knows_new: "new_site_registry F lc origin_of vs = Inr reg \<Longrightarrow>
    \<exists>ps. mapM (authorizedSitePolicySchema F lc origin_of) vs = Inr ps \<and> knows ps reg"
  unfolding new_site_registry_def
  using knows_add_policies [of "[]" "\<lparr>policies = [], privateOrigins = [], denied = []\<rparr>"]
  by (simp add: knows_def)

lemma mapM_set: "mapM f xs = Inr ys \<Longrightarrow> Inr ` set ys = f ` set xs"
proof (induction xs arbitrary: ys)
  case (Cons x xs)
  then obtain z zs where "f x = Inr z" "mapM f xs = Inr zs" "ys = z # zs" by (auto split: sum.splits)
  with Cons.IH [of zs] show ?case by simp
qed simp

lemma linear_on_mono: "linear_on A cmp \<Longrightarrow> B \<subseteq> A \<Longrightarrow> linear_on B cmp"
  unfolding linear_on_def by blast

lemma set_uniqueSorted [simp]: "set (uniqueSorted lc xs) = set xs"
  by (simp add: uniqueSorted_def)

section \<open>Properties\<close>

text \<open>
  A URL is classified by its origin alone: denied when any policy denies the origin, even one that another
  policy allows; otherwise private with the policy that allows it, of which there is at most one;
  otherwise public.
\<close>

theorem classify_by_policies:
  assumes "new_site_registry F lc origin_of vs = Inr reg" and "origin_of value = Some o'"
  shows "\<exists>ps. mapM (authorizedSitePolicySchema F lc origin_of) vs = Inr ps \<and>
    (\<forall>p \<in> set ps. \<forall>q \<in> set ps. o' \<in> set (allowedOrigins p) \<and> o' \<in> set (allowedOrigins q) \<longrightarrow> p = q) \<and>
    classify origin_of value reg = Inr
      (if \<exists>p \<in> set ps. o' \<in> set (deniedOrigins p) then DeniedUrl o'
       else case find (\<lambda>p. o' \<in> set (allowedOrigins p)) ps of None \<Rightarrow> PublicUrl o' | Some p \<Rightarrow> PrivateUrl o' p)"
proof -
  from knows_new [OF assms(1)] obtain ps
    where ps: "mapM (authorizedSitePolicySchema F lc origin_of) vs = Inr ps" and K: "knows ps reg" by blast
  from K have "\<forall>p \<in> set ps. \<forall>q \<in> set ps. o' \<in> set (allowedOrigins p) \<and> o' \<in> set (allowedOrigins q) \<longrightarrow> p = q"
    unfolding knows_def by blast
  moreover from K assms(2) have "classify origin_of value reg = Inr
      (if \<exists>p \<in> set ps. o' \<in> set (deniedOrigins p) then DeniedUrl o'
       else case find (\<lambda>p. o' \<in> set (allowedOrigins p)) ps of None \<Rightarrow> PublicUrl o' | Some p \<Rightarrow> PrivateUrl o' p)"
    by (auto simp: knows_def classify_def split: option.splits)
  ultimately show ?thesis using ps by blast
qed

definition sample_policy :: AuthorizedSitePolicy where
  "sample_policy = \<lparr>siteId = ''erp'', entryUrl = ''https://erp/in'', allowedOrigins = [''https://erp''],
     deniedOrigins = [''https://erp-admin''], loginStrategy = NoLogin, credentialAccountId = None,
     requestPolicy = Some \<lparr>rules = [\<lparr>methods = [''GET'', ''GET''], rule_pathname = ''/list'', rule_queryKeys = [''q'', ''p''],
       resourceTypes = None, frames = None, rule_navigation = None, requiresSemanticPermit = False\<rparr>],
       semanticActions = []\<rparr>\<rparr>"

text \<open>Two instances of the parameters: the origin ends before the third slash, strings compare by their first character.\<close>

definition sample_origin :: "string \<Rightarrow> string option" where
  "sample_origin v = (if prefix ''https://'' v then Some (take 8 v @ takeWhile (\<lambda>c. c \<noteq> CHR ''/'') (drop 8 v)) else None)"

fun code_compare :: "string \<Rightarrow> string \<Rightarrow> int" where
  "code_compare [] [] = 0"
| "code_compare [] (y # ys) = -1"
| "code_compare (x # xs) [] = 1"
| "code_compare (x # xs) (y # ys) =
    (if x = y then code_compare xs ys else if of_char x < (of_char y :: nat) then -1 else 1)"

definition sample_formats :: formats where
  "sample_formats = \<lparr>is_url = (\<lambda>s. s \<noteq> []), is_datetime = (\<lambda>s. s \<noteq> [])\<rparr>"

text \<open>What parsing leaves of a policy with request rules: its origins, and its rules with their arrays sorted.\<close>

lemma parsed_policy:
  assumes "authorizedSitePolicySchema F lc origin_of raw = Inr p" and "requestPolicy raw = Some q"
  shows "\<exists>q'. requestPolicy p = Some q' \<and> set (rules q') = sorted_rule lc ` set (rules q) \<and>
    (\<forall>o'. o' \<in> set (allowedOrigins p) \<longleftrightarrow> (\<exists>v \<in> set (allowedOrigins raw). origin_of v = Some o'))"
proof -
  from assms obtain as q' where as: "mapM (exactOriginSchema origin_of) (allowedOrigins raw) = Inr as"
    and q': "authorizedSiteRequestPolicySchema lc q = Inr q'"
    and p: "allowedOrigins p = as" "requestPolicy p = Some q'"
    by (auto simp: authorizedSitePolicySchema_def split: if_splits sum.splits)
  from q' have rs: "mapM (authorizedSiteRequestRuleSchema lc) (rules q) = Inr (rules q')"
    by (auto simp: authorizedSiteRequestPolicySchema_def split: if_splits sum.splits)
  have "o' \<in> set as \<longleftrightarrow> Inr o' \<in> exactOriginSchema origin_of ` set (allowedOrigins raw)" for o'
    unfolding mapM_set [OF as, symmetric] by auto
  then have "\<forall>o'. o' \<in> set as \<longleftrightarrow> (\<exists>v \<in> set (allowedOrigins raw). origin_of v = Some o')"
    by (auto simp: exactOriginSchema_def image_iff split: option.splits)
  moreover have "r \<in> set (rules q) \<Longrightarrow> authorizedSiteRequestRuleSchema lc r = Inr (sorted_rule lc r)" for r
    using mapM_set [OF rs]
    by (auto simp: authorizedSiteRequestRuleSchema_def set_eq_iff image_iff split: if_splits)
  moreover have "r \<in> set (rules q') \<longleftrightarrow> Inr r \<in> authorizedSiteRequestRuleSchema lc ` set (rules q)" for r
    unfolding mapM_set [OF rs, symmetric] by auto
  ultimately show ?thesis using p by (auto simp: image_iff)
qed

lemma rule_admits_sorted:
  assumes "linear_on (set (rule_queryKeys r) \<union> set keys) lc"
  shows "rule_admits d meth (uniqueSorted lc keys) (sorted_rule lc r) \<longleftrightarrow>
    meth \<in> set (methods r) \<and> rule_pathname r = d_pathname d \<and> set (rule_queryKeys r) = set keys \<and>
    (case resourceTypes r of None \<Rightarrow> True | Some ts \<Rightarrow> d_resourceType d \<in> set ts) \<and>
    (case frames r of None \<Rightarrow> True | Some fs \<Rightarrow> d_frame d \<in> set fs) \<and>
    (case rule_navigation r of None \<Rightarrow> True | Some n \<Rightarrow> n = d_navigation d) \<and>
    (\<not> requiresSemanticPermit r \<or> d_semanticPermit d)"
proof -
  have "arraysEqual (rule_queryKeys (sorted_rule lc r)) (uniqueSorted lc keys) = (set (rule_queryKeys r) = set keys)"
    using sort_set_unique [OF assms] by (simp add: sorted_rule_def uniqueSorted_def)
  moreover have "rule_pathname (sorted_rule lc r) = rule_pathname r" "set (methods (sorted_rule lc r)) = set (methods r)"
    "requiresSemanticPermit (sorted_rule lc r) = requiresSemanticPermit r"
    "rule_navigation (sorted_rule lc r) = rule_navigation r"
    "(case resourceTypes (sorted_rule lc r) of None \<Rightarrow> True | Some ts \<Rightarrow> d_resourceType d \<in> set ts) =
     (case resourceTypes r of None \<Rightarrow> True | Some ts \<Rightarrow> d_resourceType d \<in> set ts)"
    "(case frames (sorted_rule lc r) of None \<Rightarrow> True | Some fs \<Rightarrow> d_frame d \<in> set fs) =
     (case frames r of None \<Rightarrow> True | Some fs \<Rightarrow> d_frame d \<in> set fs)"
    by (simp_all add: sorted_rule_def split: option.splits)
  ultimately show ?thesis unfolding rule_admits_def by (simp only:)
qed

text \<open>
  C17. What a private site may be asked. Under a parsed policy without request rules every request is allowed, of any origin. Under one with request rules, a request is allowed
  exactly when its origin is one of the site's and some rule has its method (in any case of letters), its
  path, exactly its set of query keys (in any order, repeated or not), and admits its resource type, frame, navigation
  and semantic permit. The comparison of strings is assumed to be a linear order on the query keys of the rules and of the request, so that it tells them apart.
\<close>

theorem request_allowed_iff:
  assumes "authorizedSitePolicySchema F lc origin_of raw = Inr p"
    and "linear_on ((\<Union>q \<in> set_option (requestPolicy raw). \<Union>r \<in> set (rules q). set (rule_queryKeys r)) \<union> set (d_queryKeys d)) lc"
  shows "isAuthorizedSiteRequestAllowed lc p d \<longleftrightarrow>
    (case requestPolicy raw of None \<Rightarrow> True | Some q \<Rightarrow>
      (\<exists>v \<in> set (allowedOrigins raw). origin_of v = Some (d_origin d)) \<and>
      (\<exists>r \<in> set (rules q). toUpperCase (d_method d) \<in> set (methods r) \<and> rule_pathname r = d_pathname d \<and>
         set (rule_queryKeys r) = set (d_queryKeys d) \<and>
         (case resourceTypes r of None \<Rightarrow> True | Some ts \<Rightarrow> d_resourceType d \<in> set ts) \<and>
         (case frames r of None \<Rightarrow> True | Some fs \<Rightarrow> d_frame d \<in> set fs) \<and>
         (case rule_navigation r of None \<Rightarrow> True | Some n \<Rightarrow> n = d_navigation d) \<and>
         (\<not> requiresSemanticPermit r \<or> d_semanticPermit d)))"
proof (cases "requestPolicy raw")
  case None
  then have "requestPolicy p = None" using assms(1) by (auto simp: authorizedSitePolicySchema_def split: if_splits sum.splits)
  with None show ?thesis by (simp add: isAuthorizedSiteRequestAllowed_def)
next
  case (Some q)
  from parsed_policy [OF assms(1) Some] obtain q' where q': "requestPolicy p = Some q'"
    "set (rules q') = sorted_rule lc ` set (rules q)"
    "\<forall>o'. o' \<in> set (allowedOrigins p) \<longleftrightarrow> (\<exists>v \<in> set (allowedOrigins raw). origin_of v = Some o')" by blast
  have lin: "linear_on (set (rule_queryKeys r) \<union> set (d_queryKeys d)) lc" if "r \<in> set (rules q)" for r
    by (rule linear_on_mono [OF assms(2)]) (use that Some in auto)
  from q' Some show ?thesis
    by (simp add: isAuthorizedSiteRequestAllowed_def list_ex_iff rule_admits_sorted [OF lin] cong: bex_cong)
qed

definition sample_request :: AuthorizedSiteRequestDescriptor where
  "sample_request = \<lparr>d_origin = ''https://erp'', d_method = ''get'', d_pathname = ''/list'', d_queryKeys = [''p'', ''q'', ''p''],
     d_resourceType = ''xhr'', d_frame = ''main'', d_navigation = False, d_semanticPermit = False\<rparr>"

theorem request_allowed_iff_witness:
  "\<exists>p. authorizedSitePolicySchema sample_formats code_compare sample_origin sample_policy = Inr p \<and>
     isAuthorizedSiteRequestAllowed code_compare p sample_request"
proof -
  have "succeeds (authorizedSitePolicySchema sample_formats code_compare sample_origin sample_policy)" by code_simp
  then obtain p where p: "authorizedSitePolicySchema sample_formats code_compare sample_origin sample_policy = Inr p"
    by (rule succeedsE)
  let ?q = "the (requestPolicy sample_policy)"
  have q: "requestPolicy sample_policy = Some ?q" by (simp add: sample_policy_def)
  have "linear_on {''p'', ''q''} code_compare" by (auto simp: linear_on_def)
  moreover have "(\<Union>r \<in> set (rules ?q). set (rule_queryKeys r)) \<union> set (d_queryKeys sample_request) = {''p'', ''q''}"
    by (auto simp: sample_policy_def sample_request_def)
  ultimately have lin: "linear_on ((\<Union>q \<in> set_option (requestPolicy sample_policy). \<Union>r \<in> set (rules q). set (rule_queryKeys r)) \<union> set (d_queryKeys sample_request)) code_compare"
    by (subst q) simp
  have "case requestPolicy sample_policy of None \<Rightarrow> True | Some q \<Rightarrow>
      (\<exists>v \<in> set (allowedOrigins sample_policy). sample_origin v = Some (d_origin sample_request)) \<and>
      (\<exists>r \<in> set (rules q). toUpperCase (d_method sample_request) \<in> set (methods r) \<and> rule_pathname r = d_pathname sample_request \<and>
         set (rule_queryKeys r) = set (d_queryKeys sample_request) \<and>
         (case resourceTypes r of None \<Rightarrow> True | Some ts \<Rightarrow> d_resourceType sample_request \<in> set ts) \<and>
         (case frames r of None \<Rightarrow> True | Some fs \<Rightarrow> d_frame sample_request \<in> set fs) \<and>
         (case rule_navigation r of None \<Rightarrow> True | Some n \<Rightarrow> n = d_navigation sample_request) \<and>
         (\<not> requiresSemanticPermit r \<or> d_semanticPermit sample_request))" by code_simp
  then have "isAuthorizedSiteRequestAllowed code_compare p sample_request"
    unfolding request_allowed_iff [OF p lin] .
  with p show ?thesis by blast
qed

end
