(* ===== verification/SiteGrant.thy ===== *)
theory SiteGrant
  imports SitePolicy Confirmation
begin

text \<open>
  Grants of private-site access, \<open>services/browser-worker/domain/browser-site-grant-registry.ts\<close>: a
  confirmation bound to a task, its owner, a site and a purpose is exchanged once for a grant of the
  task and site. Instants are milliseconds; each read of the clock is an argument (\<open>t\<close> of the pruning,
  \<open>u\<close> of the operation itself).
\<close>

record PendingSiteConfirmation =
  pc_confirmationId :: string
  pc_taskId :: string
  pc_ownerScopeHash :: string
  pc_siteId :: string
  pc_purpose :: string
  pc_expiresAt :: millis

record BrowserSiteGrant =
  g_taskId :: string
  g_ownerScopeHash :: string
  g_siteId :: string
  g_allowedOrigins :: "string list"
  g_expiresAt :: millis

definition CONFIRMATION_TTL_MS :: millis where
  "CONFIRMATION_TTL_MS = 5 * 60 * 1000"

definition GRANT_TTL_MS :: millis where
  "GRANT_TTL_MS = 10 * 60 * 1000"

record BrowserSiteGrantRegistry =
  pending :: "(string, PendingSiteConfirmation) jsMap"
  grants :: "(string, BrowserSiteGrant) jsMap"

definition grantKey :: "string \<Rightarrow> string \<Rightarrow> string" where
  "grantKey tid sid = tid @ char_of (0 :: nat) # sid"

definition pruneExpiredConfirmations :: "millis \<Rightarrow> BrowserSiteGrantRegistry \<Rightarrow> BrowserSiteGrantRegistry" where
  "pruneExpiredConfirmations now reg = reg\<lparr>pending := Map_delete_where (\<lambda>p. pc_expiresAt p \<le> now) (pending reg)\<rparr>"

definition pruneExpiredGrants :: "millis \<Rightarrow> BrowserSiteGrantRegistry \<Rightarrow> BrowserSiteGrantRegistry" where
  "pruneExpiredGrants now reg = reg\<lparr>grants := Map_delete_where (\<lambda>g. g_expiresAt g \<le> now) (grants reg)\<rparr>"

definition pruneExpired_sites :: "millis \<Rightarrow> BrowserSiteGrantRegistry \<Rightarrow> BrowserSiteGrantRegistry" where
  "pruneExpired_sites now reg = pruneExpiredGrants now (pruneExpiredConfirmations now reg)"

definition createConfirmation :: "millis \<Rightarrow> millis \<Rightarrow> string \<Rightarrow> task \<Rightarrow> AuthorizedSitePolicy \<Rightarrow> string \<Rightarrow>
    (BrowserSiteGrantRegistry, PendingSiteConfirmation) op" where
  "createConfirmation t u confirmationId task policy purpose' reg =
    (let reg = pruneExpired_sites t reg;
         c = \<lparr>pc_confirmationId = confirmationId, pc_taskId = taskId task, pc_ownerScopeHash = ownerScopeHash task,
              pc_siteId = siteId policy, pc_purpose = purpose', pc_expiresAt = u + CONFIRMATION_TTL_MS\<rparr>
     in (Inr c, reg\<lparr>pending := Map_set (pending reg) confirmationId c\<rparr>))"

definition createGrant :: "millis \<Rightarrow> task \<Rightarrow> AuthorizedSitePolicy \<Rightarrow> BrowserSiteGrantRegistry \<Rightarrow>
    BrowserSiteGrant \<times> BrowserSiteGrantRegistry" where
  "createGrant u task policy reg =
    (let g = \<lparr>g_taskId = taskId task, g_ownerScopeHash = ownerScopeHash task, g_siteId = siteId policy,
              g_allowedOrigins = allowedOrigins policy, g_expiresAt = min (expiresAt task) (u + GRANT_TTL_MS)\<rparr>
     in (g, reg\<lparr>grants := Map_set (grants reg) (grantKey (taskId task) (siteId policy)) g\<rparr>))"

definition grant :: "millis \<Rightarrow> millis \<Rightarrow> task \<Rightarrow> AuthorizedSitePolicy \<Rightarrow> (BrowserSiteGrantRegistry, BrowserSiteGrant) op" where
  "grant t u task policy reg = (let (g, reg') = createGrant u task policy (pruneExpired_sites t reg) in (Inr g, reg'))"

definition confirm :: "millis \<Rightarrow> millis \<Rightarrow> string \<Rightarrow> task \<Rightarrow> AuthorizedSitePolicy \<Rightarrow> string \<Rightarrow>
    (BrowserSiteGrantRegistry, BrowserSiteGrant) op" where
  "confirm t u confirmationId task policy purpose' reg =
    (let reg = pruneExpired_sites t reg
     in case Map_get (pending reg) confirmationId of
          None \<Rightarrow> (Inl (AppError SITE_ACCESS_AUTHORIZATION_REQUIRED), reg)
        | Some p \<Rightarrow>
            if \<not> (pc_taskId p = taskId task \<and> pc_ownerScopeHash p = ownerScopeHash task \<and>
                  pc_siteId p = siteId policy \<and> pc_purpose p = purpose')
            then (Inl (AppError SITE_ACCESS_AUTHORIZATION_REQUIRED), reg)
            else (let (g, reg') = createGrant u task policy (reg\<lparr>pending := Map_delete (pending reg) confirmationId\<rparr>)
                  in (Inr g, reg')))"

definition requireGrant :: "millis \<Rightarrow> millis \<Rightarrow> task \<Rightarrow> AuthorizedSitePolicy \<Rightarrow> (BrowserSiteGrantRegistry, BrowserSiteGrant) op" where
  "requireGrant t u task policy reg =
    (let reg = pruneExpiredConfirmations t reg; key = grantKey (taskId task) (siteId policy)
     in case Map_get (grants reg) key of
          None \<Rightarrow> (Inl (AppError SITE_ACCESS_AUTHORIZATION_REQUIRED), reg)
        | Some g \<Rightarrow>
            if g_ownerScopeHash g \<noteq> ownerScopeHash task then (Inl (AppError TASK_OWNERSHIP_MISMATCH), reg)
            else if g_expiresAt g \<le> u
            then (Inl (AppError SITE_ACCESS_GRANT_EXPIRED), reg\<lparr>grants := Map_delete (grants reg) key\<rparr>)
            else (Inr g, reg))"

definition grantForTaskSite :: "millis \<Rightarrow> string \<Rightarrow> string \<Rightarrow> BrowserSiteGrantRegistry \<Rightarrow>
    BrowserSiteGrant option \<times> BrowserSiteGrantRegistry" where
  "grantForTaskSite t tid sid reg =
    (let reg = pruneExpired_sites t reg in (Map_get (grants reg) (grantKey tid sid), reg))"

definition revokeTaskSite :: "string \<Rightarrow> string \<Rightarrow> BrowserSiteGrantRegistry \<Rightarrow>
    BrowserSiteGrant option \<times> BrowserSiteGrantRegistry" where
  "revokeTaskSite tid sid reg =
    (let key = grantKey tid sid
     in case Map_get (grants reg) key of
          None \<Rightarrow> (None, reg)
        | Some g \<Rightarrow> (Some g, reg\<lparr>grants := Map_delete (grants reg) key\<rparr>))"

definition revokeTask :: "string \<Rightarrow> BrowserSiteGrantRegistry \<Rightarrow> BrowserSiteGrant list \<times> BrowserSiteGrantRegistry" where
  "revokeTask tid reg =
    (filter (\<lambda>g. g_taskId g = tid) (Map_values (grants reg)),
     reg\<lparr>grants := Map_delete_where (\<lambda>g. g_taskId g = tid) (grants reg),
         pending := Map_delete_where (\<lambda>p. pc_taskId p = tid) (pending reg)\<rparr>)"

definition activeGrants :: "millis \<Rightarrow> BrowserSiteGrantRegistry \<Rightarrow> BrowserSiteGrant list \<times> BrowserSiteGrantRegistry" where
  "activeGrants t reg = (let reg = pruneExpired_sites t reg in (Map_values (grants reg), reg))"


section \<open>Confirmations are one shot\<close>

definition site_binding :: "task \<times> AuthorizedSitePolicy \<times> string \<Rightarrow> string \<times> string \<times> string \<times> string" where
  "site_binding b = (case b of (k, p, purp) \<Rightarrow> (taskId k, ownerScopeHash k, siteId p, purp))"

definition site_issue :: "millis \<Rightarrow> millis \<Rightarrow> string \<Rightarrow> task \<times> AuthorizedSitePolicy \<times> string \<Rightarrow>
    (BrowserSiteGrantRegistry, PendingSiteConfirmation) op" where
  "site_issue t u i b = (case b of (k, p, purp) \<Rightarrow> createConfirmation t u i k p purp)"

definition site_redeem :: "millis \<Rightarrow> millis \<Rightarrow> string \<Rightarrow> task \<times> AuthorizedSitePolicy \<times> string \<Rightarrow>
    (BrowserSiteGrantRegistry, BrowserSiteGrant) op" where
  "site_redeem t u i b = (case b of (k, p, purp) \<Rightarrow> confirm t u i k p purp)"

definition site_outstanding :: "BrowserSiteGrantRegistry \<Rightarrow> string \<Rightarrow>
    ((string \<times> string \<times> string \<times> string) \<times> millis) option" where
  "site_outstanding reg i = map_option
    (\<lambda>p. ((pc_taskId p, pc_ownerScopeHash p, pc_siteId p, pc_purpose p), pc_expiresAt p)) (Map_get (pending reg) i)"

definition site_valid :: "BrowserSiteGrantRegistry \<Rightarrow> bool" where
  "site_valid reg = (Map_ok (pending reg) \<and> Map_ok (grants reg))"

lemmas site_prune = pruneExpired_sites_def pruneExpiredConfirmations_def pruneExpiredGrants_def

lemmas site_defs = createConfirmation_def createGrant_def grant_def confirm_def requireGrant_def grantForTaskSite_def
  revokeTaskSite_def revokeTask_def activeGrants_def site_prune Let_def

interpretation site: one_shot site_valid site_outstanding site_issue site_redeem
    "\<lambda>k b. k = site_binding b" site_binding CONFIRMATION_TTL_MS
  by unfold_locales
    (auto simp: site_valid_def site_issue_def site_redeem_def site_outstanding_def site_binding_def site_defs map_model
      split: option.splits if_splits prod.splits)

definition no_grants :: BrowserSiteGrantRegistry where
  "no_grants = \<lparr>pending = [], grants = []\<rparr>"

lemma no_grants_simps [simp]: "site_valid no_grants" "site_outstanding no_grants i = None"
  "Map_get (pending no_grants) i = None" "Map_get (grants no_grants) i = None"
  by (simp_all add: no_grants_def site_valid_def site_outstanding_def)

section \<open>Sessions\<close>

datatype site_call =
    CreateConfirmation millis millis string task AuthorizedSitePolicy string
  | GrantSite millis millis task AuthorizedSitePolicy
  | ConfirmSite millis millis string task AuthorizedSitePolicy string
  | RequireGrant millis millis task AuthorizedSitePolicy
  | GrantForTaskSite millis string string
  | RevokeTaskSite string string
  | RevokeTask string
  | ActiveGrants millis

fun site_exec :: "site_call \<Rightarrow> BrowserSiteGrantRegistry \<Rightarrow> bool \<times> BrowserSiteGrantRegistry" where
  "site_exec (CreateConfirmation t u i k p purp) reg = map_prod succeeds id (createConfirmation t u i k p purp reg)"
| "site_exec (GrantSite t u k p) reg = map_prod succeeds id (grant t u k p reg)"
| "site_exec (ConfirmSite t u i k p purp) reg = map_prod succeeds id (confirm t u i k p purp reg)"
| "site_exec (RequireGrant t u k p) reg = map_prod succeeds id (requireGrant t u k p reg)"
| "site_exec (GrantForTaskSite t tid sid) reg = (True, snd (grantForTaskSite t tid sid reg))"
| "site_exec (RevokeTaskSite tid sid) reg = (True, snd (revokeTaskSite tid sid reg))"
| "site_exec (RevokeTask tid) reg = (True, snd (revokeTask tid reg))"
| "site_exec (ActiveGrants t) reg = (True, snd (activeGrants t reg))"

text \<open>A session: the calls made on a new registry, each with its success, and the registry they lead to.\<close>

inductive site_trace :: "(site_call \<times> bool) list \<Rightarrow> BrowserSiteGrantRegistry \<Rightarrow> bool" where
  start: "site_trace [] no_grants"
| call: "site_trace log reg \<Longrightarrow> site_exec c reg = (b, reg') \<Longrightarrow> site_trace (log @ [(c, b)]) reg'"

text \<open>
  Task identifiers have no character 0, so a grant key determines its task and site.
\<close>

definition plain_id :: "string \<Rightarrow> bool" where
  "plain_id s = (char_of (0 :: nat) \<notin> set s)"

lemma grantKey_inj: "plain_id a \<Longrightarrow> plain_id b \<Longrightarrow> grantKey a x = grantKey b y \<longleftrightarrow> a = b \<and> x = y"
  unfolding grantKey_def plain_id_def by (induction a arbitrary: b) (case_tac b; auto)+

fun call_task :: "site_call \<Rightarrow> string option" where
  "call_task (CreateConfirmation t u i k p purp) = Some (taskId k)"
| "call_task (GrantSite t u k p) = Some (taskId k)"
| "call_task (ConfirmSite t u i k p purp) = Some (taskId k)"
| "call_task (RequireGrant t u k p) = Some (taskId k)"
| "call_task (GrantForTaskSite t tid sid) = Some tid"
| "call_task (RevokeTaskSite tid sid) = Some tid"
| "call_task (RevokeTask tid) = Some tid"
| "call_task (ActiveGrants t) = None"

fun revokes :: "site_call \<Rightarrow> string \<Rightarrow> string \<Rightarrow> bool" where
  "revokes (RevokeTaskSite tid sid) t s = (t = tid \<and> s = sid)"
| "revokes (RevokeTask tid) t s = (t = tid)"
| "revokes _ t s = False"

text \<open>
  \<open>confirmed_by log i tid own sid purp\<close>: the confirmation was created for the task, owner, site and purpose.
  \<open>authorised log tid own sid e\<close>: a call of the log granted the site to the task until \<open>e\<close>, either directly or
  for such a confirmation, and no later call revoked it.
\<close>

definition confirmed_by :: "(site_call \<times> bool) list \<Rightarrow> string \<Rightarrow> string \<Rightarrow> string \<Rightarrow> string \<Rightarrow> string \<Rightarrow> millis \<Rightarrow> bool" where
  "confirmed_by log i tid own sid purp e =
    (\<exists>t u k p. (CreateConfirmation t u i k p purp, True) \<in> set log \<and> taskId k = tid \<and> ownerScopeHash k = own \<and>
       siteId p = sid \<and> e = u + 5 * 60 * 1000)"

definition authorises :: "(site_call \<times> bool) list \<Rightarrow> site_call \<Rightarrow> string \<Rightarrow> string \<Rightarrow> string \<Rightarrow> millis \<Rightarrow> bool" where
  "authorises log c tid own sid e =
    (\<exists>t u k p. taskId k = tid \<and> ownerScopeHash k = own \<and> siteId p = sid \<and> e = min (expiresAt k) (u + 10 * 60 * 1000) \<and>
       (c = GrantSite t u k p \<or>
        (\<exists>i purp e'. c = ConfirmSite t u i k p purp \<and> confirmed_by log i tid own sid purp e' \<and> t < e')))"

definition authorised :: "(site_call \<times> bool) list \<Rightarrow> string \<Rightarrow> string \<Rightarrow> string \<Rightarrow> millis \<Rightarrow> bool" where
  "authorised log tid own sid e =
    (\<exists>pre c post. log = pre @ (c, True) # post \<and> authorises pre c tid own sid e \<and>
       (\<forall>x \<in> set post. \<not> revokes (fst x) tid sid))"

lemma confirmed_by_mono: "confirmed_by log i tid own sid purp e \<Longrightarrow> confirmed_by (log @ l) i tid own sid purp e"
  by (auto simp: confirmed_by_def)

lemma authorised_extend:
  "authorised log tid own sid e \<Longrightarrow> \<not> revokes c tid sid \<Longrightarrow> authorised (log @ [(c, b)]) tid own sid e"
  unfolding authorised_def by fastforce

lemma authorised_last: "authorises log c tid own sid e \<Longrightarrow> authorised (log @ [(c, True)]) tid own sid e"
  unfolding authorised_def by fastforce

text \<open>What every session keeps true of the registry it leads to.\<close>

definition trace_inv :: "(site_call \<times> bool) list \<Rightarrow> BrowserSiteGrantRegistry \<Rightarrow> bool" where
  "trace_inv log reg =
    (site_valid reg \<and>
     (\<forall>i c. Map_get (pending reg) i = Some c \<longrightarrow>
        confirmed_by log i (pc_taskId c) (pc_ownerScopeHash c) (pc_siteId c) (pc_purpose c) (pc_expiresAt c)) \<and>
     (\<forall>k g. Map_get (grants reg) k = Some g \<longrightarrow>
        k = grantKey (g_taskId g) (g_siteId g) \<and> plain_id (g_taskId g) \<and>
        authorised log (g_taskId g) (g_ownerScopeHash g) (g_siteId g) (g_expiresAt g)))"


lemma site_exec_valid: "site_valid reg \<Longrightarrow> site_exec c reg = (b, reg') \<Longrightarrow> site_valid reg'"
  by (cases c) (auto simp: site_valid_def site_defs map_model split: option.splits if_splits)

lemma site_exec_pending:
  assumes "site_valid reg" and "site_exec c reg = (b, reg')" and "Map_get (pending reg') i = Some q"
  shows "Map_get (pending reg) i = Some q \<or>
    (\<exists>t u k p purp. c = CreateConfirmation t u i k p purp \<and> b \<and> q = \<lparr>pc_confirmationId = i, pc_taskId = taskId k,
       pc_ownerScopeHash = ownerScopeHash k, pc_siteId = siteId p, pc_purpose = purp, pc_expiresAt = u + 5 * 60 * 1000\<rparr>)"
  using assms
  by (cases c) (auto simp: site_valid_def site_defs map_model CONFIRMATION_TTL_MS_def split: option.splits if_splits)

definition granted_entry :: "site_call \<Rightarrow> BrowserSiteGrantRegistry \<Rightarrow> string \<Rightarrow> BrowserSiteGrant \<Rightarrow> bool" where
  "granted_entry c reg key g =
    (\<exists>t u k p. key = grantKey (taskId k) (siteId p) \<and>
       g = \<lparr>g_taskId = taskId k, g_ownerScopeHash = ownerScopeHash k, g_siteId = siteId p,
            g_allowedOrigins = allowedOrigins p, g_expiresAt = min (expiresAt k) (u + 10 * 60 * 1000)\<rparr> \<and>
       (c = GrantSite t u k p \<or>
        (\<exists>i q. c = ConfirmSite t u i k p (pc_purpose q) \<and> Map_get (pending reg) i = Some q \<and> t < pc_expiresAt q \<and>
           pc_taskId q = taskId k \<and> pc_ownerScopeHash q = ownerScopeHash k \<and> pc_siteId q = siteId p)))"

lemma site_exec_grants:
  assumes "site_valid reg" and "site_exec c reg = (b, reg')" and "Map_get (grants reg') key = Some g"
  shows "Map_get (grants reg) key = Some g \<and>
      (case c of RevokeTaskSite tid sid \<Rightarrow> key \<noteq> grantKey tid sid | RevokeTask tid \<Rightarrow> g_taskId g \<noteq> tid | _ \<Rightarrow> True) \<or>
    b \<and> granted_entry c reg key g"
  using assms unfolding granted_entry_def
  by (cases c) (auto simp: site_valid_def site_defs map_model GRANT_TTL_MS_def split: option.splits if_splits)

lemma trace_inv_step:
  assumes inv: "trace_inv log reg" and step: "site_exec c reg = (b, reg')"
    and plain: "\<forall>tid. call_task c = Some tid \<longrightarrow> plain_id tid"
  shows "trace_inv (log @ [(c, b)]) reg'"
proof -
  have v: "site_valid reg" using inv by (simp add: trace_inv_def)
  have "confirmed_by (log @ [(c, b)]) i (pc_taskId q) (pc_ownerScopeHash q) (pc_siteId q) (pc_purpose q) (pc_expiresAt q)"
    if "Map_get (pending reg') i = Some q" for i q
    using site_exec_pending [OF v step that]
  proof
    assume "Map_get (pending reg) i = Some q"
    with inv show ?thesis unfolding trace_inv_def by (blast intro: confirmed_by_mono)
  qed (fastforce simp: confirmed_by_def)
  moreover have "key = grantKey (g_taskId g) (g_siteId g) \<and> plain_id (g_taskId g) \<and>
      authorised (log @ [(c, b)]) (g_taskId g) (g_ownerScopeHash g) (g_siteId g) (g_expiresAt g)"
    if "Map_get (grants reg') key = Some g" for key g
    using site_exec_grants [OF v step that]
  proof
    assume old: "Map_get (grants reg) key = Some g \<and>
      (case c of RevokeTaskSite tid sid \<Rightarrow> key \<noteq> grantKey tid sid | RevokeTask tid \<Rightarrow> g_taskId g \<noteq> tid | _ \<Rightarrow> True)"
    then have k: "key = grantKey (g_taskId g) (g_siteId g)" "plain_id (g_taskId g)"
      "authorised log (g_taskId g) (g_ownerScopeHash g) (g_siteId g) (g_expiresAt g)"
      using inv unfolding trace_inv_def by blast+
    moreover have "\<not> revokes c (g_taskId g) (g_siteId g)" using old k by (cases c) auto
    ultimately show ?thesis using authorised_extend by presburger
  next
    assume new: "b \<and> granted_entry c reg key g"
    then have "authorises log c (g_taskId g) (g_ownerScopeHash g) (g_siteId g) (g_expiresAt g)"
      using inv unfolding granted_entry_def authorises_def trace_inv_def by fastforce
    moreover from new plain have "key = grantKey (g_taskId g) (g_siteId g)" "plain_id (g_taskId g)"
      unfolding granted_entry_def by auto
    ultimately show ?thesis using new authorised_last by simp
  qed
  ultimately show ?thesis using site_exec_valid [OF v step] unfolding trace_inv_def by blast
qed

lemma trace_inv_holds:
  "site_trace log reg \<Longrightarrow> \<forall>e \<in> set log. \<forall>tid. call_task (fst e) = Some tid \<longrightarrow> plain_id tid \<Longrightarrow> trace_inv log reg"
proof (induction rule: site_trace.induct)
  case start
  then show ?case by (simp add: trace_inv_def)
next
  case (call log reg c b reg')
  then show ?case using trace_inv_step by simp
qed

section \<open>Properties\<close>

text \<open>
  C5. Private sites need an authorisation. If, after any session, \<open>requireGrant\<close> admits a task to a site, then
  a call of the session granted the site to this task and owner, directly or for a confirmation created for the same
  task, owner, site and purpose and not older than five minutes; no later call revoked it; and it is younger
  than ten minutes and the task has not expired.
\<close>

theorem site_access_authorised:
  assumes "site_trace log reg" and "\<forall>e \<in> set log. \<forall>tid. call_task (fst e) = Some tid \<longrightarrow> plain_id tid"
    and "plain_id (taskId k)" and "requireGrant t u k p reg = (Inr g, reg')"
  shows "authorised log (taskId k) (ownerScopeHash k) (siteId p) (g_expiresAt g) \<and> u < g_expiresAt g"
proof -
  from assms(4) have g: "Map_get (grants reg) (grantKey (taskId k) (siteId p)) = Some g"
    "g_ownerScopeHash g = ownerScopeHash k" "u < g_expiresAt g"
    by (auto simp: site_defs split: option.splits if_splits)
  from trace_inv_holds [OF assms(1,2)] g(1)
  have "grantKey (taskId k) (siteId p) = grantKey (g_taskId g) (g_siteId g)" "plain_id (g_taskId g)"
    "authorised log (g_taskId g) (g_ownerScopeHash g) (g_siteId g) (g_expiresAt g)"
    unfolding trace_inv_def by blast+
  with g(2,3) show ?thesis by (simp add: grantKey_inj assms(3))
qed

definition sample_browser_task :: task where
  "sample_browser_task = \<lparr>taskId = ''k1'', ownerScopeHash = ''h'', task_state = Active, tabIds = [], createdAt = 0,
     lastActivityAt = 0, expiresAt = 900000, lifecycleVersion = 2\<rparr>"

lemma site_trace_extend: "site_trace log reg \<Longrightarrow> site_trace (log @ [(c, fst (site_exec c reg))]) (snd (site_exec c reg))"
  using site_trace.call by (metis prod.collapse)

theorem site_access_authorised_witness:
  "\<exists>log reg g reg'. site_trace log reg \<and> requireGrant 30 30 sample_browser_task sample_policy reg = (Inr g, reg') \<and>
     authorised log ''k1'' ''h'' ''erp'' (g_expiresAt g)"
proof -
  let ?c1 = "CreateConfirmation 10 10 ''c'' sample_browser_task sample_policy ''report''"
  let ?c2 = "ConfirmSite 20 20 ''c'' sample_browser_task sample_policy ''report''"
  let ?r1 = "snd (site_exec ?c1 no_grants)"
  let ?r2 = "snd (site_exec ?c2 ?r1)"
  let ?log = "[(?c1, fst (site_exec ?c1 no_grants)), (?c2, fst (site_exec ?c2 ?r1))]"
  have tr: "site_trace ?log ?r2"
    using site_trace_extend [OF site_trace_extend [OF site_trace.start], of ?c1 ?c2] by simp
  have "succeeds (fst (requireGrant 30 30 sample_browser_task sample_policy ?r2))" by code_simp
  then obtain g reg' where g: "requireGrant 30 30 sample_browser_task sample_policy ?r2 = (Inr g, reg')"
    by (metis prod.collapse succeedsE)
  have ids: "taskId sample_browser_task = ''k1''" "ownerScopeHash sample_browser_task = ''h''" "siteId sample_policy = ''erp''"
    by (simp_all add: sample_browser_task_def sample_policy_def)
  have plain: "plain_id ''k1''" by code_simp
  have "\<forall>e \<in> set ?log. \<forall>tid. call_task (fst e) = Some tid \<longrightarrow> plain_id tid" using ids plain by simp
  from site_access_authorised [OF tr this _ g] ids plain have "authorised ?log ''k1'' ''h'' ''erp'' (g_expiresAt g)" by simp
  with tr g show ?thesis by blast
qed

text \<open>
  A private-site confirmation is one shot: in any sequence of \<open>createConfirmation\<close> and \<open>confirm\<close> calls an
  identifier is exchanged for a grant at most as often as it was issued, and one just issued can be
  exchanged for its own task, site and purpose within five minutes.
\<close>

theorem site_confirmation_one_shot:
  assumes "conf_run site_issue site_redeem calls no_grants = (log, reg)"
  shows "redemptions i log \<le> issues i log \<and>
    (t' < u + 5 * 60 * 1000 \<and> u' < u + 5 * 60 * 1000 \<longrightarrow>
      succeeds (fst (confirm t' u' j k p purp (snd (createConfirmation t u j k p purp reg)))))"
proof
  show "redemptions i log \<le> issues i log"
    by (rule site.redemptions_le_issues [OF _ _ assms]) simp_all
  have "site_valid reg" using site.valid_conf_run [OF _ assms] by simp
  moreover obtain x r' where "site_issue t u j (k, p, purp) reg = (Inr x, r')"
    by (simp add: site_issue_def createConfirmation_def Let_def)
  ultimately show "t' < u + 5 * 60 * 1000 \<and> u' < u + 5 * 60 * 1000 \<longrightarrow>
      succeeds (fst (confirm t' u' j k p purp (snd (createConfirmation t u j k p purp reg))))"
    using site.issue_then_redeem [of reg t u j "(k, p, purp)" x r' t' u']
    by (auto simp: site_issue_def site_redeem_def CONFIRMATION_TTL_MS_def)
qed

end
