(* ===== verification/Idempotency.thy ===== *)
theory Idempotency
  imports Prelude
begin

text \<open>
  Idempotent browser operations, \<open>services/browser-worker/services/browser-idempotency-registry.ts\<close>. The
  promise of a run is its number; that the operation behind it fulfils or rejects is a later step, \<open>settle\<close>.
  An expiry instant of infinity is \<open>None\<close>.
\<close>

section \<open>The registry\<close>

record IdempotencyEntry =
  fingerprint :: string
  e_expiresAt :: "millis option"
  settled :: bool
  promise :: nat

datatype BrowserIdempotencyDisposition = Hit | Miss | Conflict | Capacity | Expiration

record BrowserIdempotencyRegistry =
  entries :: "(string, IdempotencyEntry) jsMap"
  ttlMs :: millis
  maxEntries :: nat
  hits :: nat
  misses :: nat
  conflicts :: nat
  evictions :: nat
  expirations :: nat
  observed :: "BrowserIdempotencyDisposition list"
  nextPromise :: nat

definition DEFAULT_IDEMPOTENCY_TTL_MS :: millis where
  "DEFAULT_IDEMPOTENCY_TTL_MS = 5 * 60 * 1000"

definition DEFAULT_MAX_ENTRIES :: nat where
  "DEFAULT_MAX_ENTRIES = 4096"

definition new_idempotency_registry :: "millis option \<Rightarrow> nat option \<Rightarrow> BrowserIdempotencyRegistry" where
  "new_idempotency_registry ttl maxE =
    \<lparr>entries = [], ttlMs = (case ttl of None \<Rightarrow> DEFAULT_IDEMPOTENCY_TTL_MS | Some t \<Rightarrow> t),
     maxEntries = (case maxE of None \<Rightarrow> DEFAULT_MAX_ENTRIES | Some n \<Rightarrow> n),
     hits = 0, misses = 0, conflicts = 0, evictions = 0, expirations = 0, observed = [], nextPromise = 0\<rparr>"

definition observe :: "BrowserIdempotencyDisposition \<Rightarrow> BrowserIdempotencyRegistry \<Rightarrow> BrowserIdempotencyRegistry" where
  "observe d reg = reg\<lparr>observed := observed reg @ [d]\<rparr>"

definition has_expired :: "millis \<Rightarrow> IdempotencyEntry \<Rightarrow> bool" where
  "has_expired now e = (settled e \<and> (case e_expiresAt e of None \<Rightarrow> False | Some x \<Rightarrow> x \<le> now))"

definition prune :: "millis \<Rightarrow> BrowserIdempotencyRegistry \<Rightarrow> BrowserIdempotencyRegistry" where
  "prune now reg =
    fold (\<lambda>(key, e) reg. if has_expired now e
        then observe Expiration (reg\<lparr>entries := Map_delete (entries reg) key, expirations := expirations reg + 1\<rparr>)
        else reg)
      (entries reg) reg"

text \<open>What a caller of \<open>run\<close> gets: the promise of an operation just started or of an earlier one, or, without a key, the operation itself.\<close>

datatype run_outcome = Direct | Started nat | Joined nat

definition ensureCapacity :: "(BrowserIdempotencyRegistry, unit) op" where
  "ensureCapacity reg =
    (if length (entries reg) < maxEntries reg then (Inr (), reg)
     else (Inl (AppError LIMIT_EXCEEDED), observe Capacity reg))"

definition run :: "millis \<Rightarrow> string option \<Rightarrow> string \<Rightarrow> (BrowserIdempotencyRegistry, run_outcome) op" where
  "run now key fp reg =
    (case key of
       None \<Rightarrow> (Inr Direct, reg)
     | Some k \<Rightarrow>
         if k = [] then (Inr Direct, reg)
         else let reg = prune now reg
              in case Map_get (entries reg) k of
                   Some e \<Rightarrow>
                     if fingerprint e \<noteq> fp
                     then (Inl (AppError IDEMPOTENCY_KEY_CONFLICT), observe Conflict (reg\<lparr>conflicts := conflicts reg + 1\<rparr>))
                     else (Inr (Joined (promise e)), observe Hit (reg\<lparr>hits := hits reg + 1\<rparr>))
                 | None \<Rightarrow>
                     (case ensureCapacity reg of
                        (Inl err, reg) \<Rightarrow> (Inl err, reg)
                      | (Inr _, reg) \<Rightarrow>
                          let n = nextPromise reg;
                              reg = observe Miss (reg\<lparr>misses := misses reg + 1\<rparr>)
                          in (Inr (Started n),
                              reg\<lparr>entries := Map_set (entries reg) k
                                    \<lparr>fingerprint = fp, e_expiresAt = None, settled = False, promise = n\<rparr>,
                                  nextPromise := n + 1\<rparr>)))"

text \<open>The reactions of the promise: both mark the entry and start its time to live.\<close>

definition settle :: "millis \<Rightarrow> nat \<Rightarrow> BrowserIdempotencyRegistry \<Rightarrow> BrowserIdempotencyRegistry" where
  "settle now n reg =
    reg\<lparr>entries := map (\<lambda>(k, e). (k, if promise e = n then e\<lparr>settled := True, e_expiresAt := Some (now + ttlMs reg)\<rparr> else e))
      (entries reg)\<rparr>"

definition snapshot_metrics :: "millis \<Rightarrow> BrowserIdempotencyRegistry \<Rightarrow> nat list \<times> BrowserIdempotencyRegistry" where
  "snapshot_metrics now reg =
    (let reg = prune now reg
     in ([length (entries reg), hits reg, misses reg, conflicts reg, evictions reg, expirations reg], reg))"

definition size_of_registry :: "millis \<Rightarrow> BrowserIdempotencyRegistry \<Rightarrow> nat \<times> BrowserIdempotencyRegistry" where
  "size_of_registry now reg = (let (m, reg) = snapshot_metrics now reg in (hd m, reg))"

section \<open>Sessions\<close>

text \<open>
  The steps of a session, with the instant of each. \<open>Settle s n\<close> happens for a promise that is still
  pending.
\<close>

datatype idem_event =
    RunAt millis string string "run_outcome result"
  | SettleAt millis nat
  | SnapshotAt millis

definition in_flight :: "BrowserIdempotencyRegistry \<Rightarrow> nat \<Rightarrow> bool" where
  "in_flight reg n = list_ex (\<lambda>(k, e). promise e = n \<and> \<not> settled e) (entries reg)"

inductive idem_trace :: "millis option \<Rightarrow> nat option \<Rightarrow> idem_event list \<Rightarrow> BrowserIdempotencyRegistry \<Rightarrow> bool" for ttl maxE where
  start: "idem_trace ttl maxE [] (new_idempotency_registry ttl maxE)"
| run: "idem_trace ttl maxE log reg \<Longrightarrow> run now (Some k) fp reg = (res, reg') \<Longrightarrow> k \<noteq> [] \<Longrightarrow>
     idem_trace ttl maxE (log @ [RunAt now k fp res]) reg'"
| settle: "idem_trace ttl maxE log reg \<Longrightarrow> in_flight reg n \<Longrightarrow>
     idem_trace ttl maxE (log @ [SettleAt now n]) (settle now n reg)"
| snapshot: "idem_trace ttl maxE log reg \<Longrightarrow>
     idem_trace ttl maxE (log @ [SnapshotAt now]) (snd (snapshot_metrics now reg))"

text \<open>The loop of \<open>prune\<close> keeps the entries that have not expired and counts the others.\<close>

lemma prune_entries:
  assumes "Map_ok (entries reg)"
  shows "entries (prune now reg) = Map_delete_where (has_expired now) (entries reg)"
proof -
  have "entries (fold (\<lambda>(key, e) reg. if has_expired now e
        then observe Expiration (reg\<lparr>entries := Map_delete (entries reg) key, expirations := expirations reg + 1\<rparr>)
        else reg) es r) =
      fold (\<lambda>e acc. if has_expired now (snd e) then Map_delete acc (fst e) else acc) es (entries r)" for es r
    by (induction es arbitrary: r) (auto simp: observe_def)
  then show ?thesis by (simp add: prune_def Map_delete_where_loop [OF assms])
qed

lemma prune_fields [simp]:
  "ttlMs (prune now reg) = ttlMs reg" "maxEntries (prune now reg) = maxEntries reg"
  "nextPromise (prune now reg) = nextPromise reg"
proof -
  let ?f = "\<lambda>(key, e) reg. if has_expired now e
        then observe Expiration (reg\<lparr>entries := Map_delete (entries reg) key, expirations := expirations reg + 1\<rparr>)
        else reg"
  have "ttlMs (fold ?f es r) = ttlMs r" "maxEntries (fold ?f es r) = maxEntries r"
    "nextPromise (fold ?f es r) = nextPromise r" for es r
    by (induction es arbitrary: r) (auto simp: observe_def split: prod.splits)
  then show "ttlMs (prune now reg) = ttlMs reg" "maxEntries (prune now reg) = maxEntries reg"
    "nextPromise (prune now reg) = nextPromise reg" by (simp_all add: prune_def)
qed

lemma settle_get:
  "Map_get (entries (settle now n reg)) k =
    map_option (\<lambda>e. if promise e = n then e\<lparr>settled := True, e_expiresAt := Some (now + ttlMs reg)\<rparr> else e)
      (Map_get (entries reg) k)"
  unfolding settle_def Map_get_def by (simp add: map_of_map)

lemma settle_ok: "Map_ok (entries reg) \<Longrightarrow> Map_ok (entries (settle now n reg))"
  by (simp add: settle_def Map_ok_def comp_def case_prod_unfold)


section \<open>What happened to each promise\<close>

definition started_at :: "idem_event list \<Rightarrow> nat \<Rightarrow> string \<Rightarrow> string \<Rightarrow> nat \<Rightarrow> bool" where
  "started_at log i k fp n = (i < length log \<and> (\<exists>t. log ! i = RunAt t k fp (Inr (Started n))))"

fun clock :: "idem_event \<Rightarrow> millis option" where
  "clock (RunAt t k fp res) = Some t"
| "clock (SettleAt t n) = None"
| "clock (SnapshotAt t) = Some t"

text \<open>
  \<open>settled_at log i n s\<close>: the promise settles at instant \<open>s\<close> after position \<open>i\<close>. \<open>expired_by ttl log i n j\<close>: after
  that, at a position up to \<open>j\<close>, the registry reads a clock that is past the time to live.
\<close>

definition settled_at :: "idem_event list \<Rightarrow> nat \<Rightarrow> nat \<Rightarrow> millis \<Rightarrow> bool" where
  "settled_at log i n s = (\<exists>a. i < a \<and> a < length log \<and> log ! a = SettleAt s n)"

definition expired_by :: "millis \<Rightarrow> idem_event list \<Rightarrow> nat \<Rightarrow> nat \<Rightarrow> nat \<Rightarrow> bool" where
  "expired_by ttl log i n j =
    (\<exists>a b s w. i < a \<and> a < b \<and> b \<le> j \<and> b < length log \<and> log ! a = SettleAt s n \<and> clock (log ! b) = Some w \<and> s + ttl \<le> w)"

lemma started_at_snoc:
  "started_at (log @ [x]) i k fp n \<longleftrightarrow>
    started_at log i k fp n \<or> i = length log \<and> (\<exists>t. x = RunAt t k fp (Inr (Started n)))"
  by (auto simp: started_at_def nth_append)

lemma settled_at_snoc: "settled_at log i n s \<Longrightarrow> settled_at (log @ [x]) i n s"
  unfolding settled_at_def by (metis length_append less_add_same_cancel1 less_trans nth_append zero_less_Suc length_Cons list.size(3))

lemma expired_by_snoc:
  assumes "expired_by ttl log i n j" and "j \<le> j'"
  shows "expired_by ttl (log @ [x]) i n j'"
proof -
  from assms obtain a b s w where "i < a" "a < b" "b \<le> j'" "b < length log" "log ! a = SettleAt s n"
    "clock (log ! b) = Some w" "s + ttl \<le> w"
    unfolding expired_by_def by force
  then show ?thesis unfolding expired_by_def
    by (intro exI [of _ a] exI [of _ b] exI [of _ s] exI [of _ w]) (simp add: nth_append)
qed

lemma expired_by_mono: "expired_by ttl log i n j \<Longrightarrow> j \<le> j' \<Longrightarrow> expired_by ttl log i n j'"
  unfolding expired_by_def using order_trans by blast

lemma expired_by_last:
  assumes "settled_at log i n s" and "clock x = Some w" and "s + ttl \<le> w"
  shows "expired_by ttl (log @ [x]) i n (length log)"
proof -
  from assms(1) obtain a where "i < a" "a < length log" "log ! a = SettleAt s n" by (auto simp: settled_at_def)
  with assms(2,3) show ?thesis unfolding expired_by_def
    by (intro exI [of _ a] exI [of _ "length log"] exI [of _ s] exI [of _ w]) (simp add: nth_append)
qed

text \<open>
  The invariant of a session: every stored entry is the entry of one start, with its expiry instant once
  it has settled; every start still has its entry or has expired.
\<close>

definition entry_of :: "millis \<Rightarrow> idem_event list \<Rightarrow> nat \<Rightarrow> string \<Rightarrow> IdempotencyEntry \<Rightarrow> bool" where
  "entry_of ttl log i k e =
    (started_at log i k (fingerprint e) (promise e) \<and>
     (settled e \<longrightarrow> (\<exists>s. settled_at log i (promise e) s \<and> e_expiresAt e = Some (s + ttl))))"

definition idem_inv :: "millis \<Rightarrow> nat \<Rightarrow> idem_event list \<Rightarrow> BrowserIdempotencyRegistry \<Rightarrow> bool" where
  "idem_inv ttl maxE log reg =
    (Map_ok (entries reg) \<and> ttlMs reg = ttl \<and> maxEntries reg = maxE \<and> length (entries reg) \<le> maxE \<and>
     (\<forall>i k fp n. started_at log i k fp n \<longrightarrow> n < nextPromise reg) \<and>
     (\<forall>i j k k' fp fp' n. started_at log i k fp n \<and> started_at log j k' fp' n \<longrightarrow> i = j) \<and>
     (\<forall>k e. Map_get (entries reg) k = Some e \<longrightarrow> (\<exists>i. entry_of ttl log i k e)) \<and>
     (\<forall>i k fp n. started_at log i k fp n \<longrightarrow>
        (\<exists>e. Map_get (entries reg) k = Some e \<and> promise e = n) \<or> expired_by ttl log i n (length log)) \<and>
     (\<forall>i j k fp fp' n m. i < j \<and> started_at log i k fp n \<and> started_at log j k fp' m \<longrightarrow> expired_by ttl log i n j) \<and>
     (\<forall>j t k fp n. j < length log \<and> log ! j = RunAt t k fp (Inr (Joined n)) \<longrightarrow> (\<exists>i < j. started_at log i k fp n)))"


lemma idem_invI:
  assumes "Map_ok (entries reg)" "ttlMs reg = ttl" "maxEntries reg = maxE" "length (entries reg) \<le> maxE"
    and "\<And>i k fp n. started_at log i k fp n \<Longrightarrow> n < nextPromise reg"
    and "\<And>i j k k' fp fp' n. started_at log i k fp n \<Longrightarrow> started_at log j k' fp' n \<Longrightarrow> i = j"
    and "\<And>k e. Map_get (entries reg) k = Some e \<Longrightarrow> \<exists>i. entry_of ttl log i k e"
    and "\<And>i k fp n. started_at log i k fp n \<Longrightarrow>
        (\<exists>e. Map_get (entries reg) k = Some e \<and> promise e = n) \<or> expired_by ttl log i n (length log)"
    and "\<And>i j k fp fp' n m. i < j \<Longrightarrow> started_at log i k fp n \<Longrightarrow> started_at log j k fp' m \<Longrightarrow> expired_by ttl log i n j"
    and "\<And>j t k fp n. j < length log \<Longrightarrow> log ! j = RunAt t k fp (Inr (Joined n)) \<Longrightarrow> \<exists>i < j. started_at log i k fp n"
  shows "idem_inv ttl maxE log reg"
  unfolding idem_inv_def by (intro conjI allI impI; (elim conjE)?; rule assms; assumption)

lemma idem_invD:
  assumes "idem_inv ttl maxE log reg"
  shows "Map_ok (entries reg)" "ttlMs reg = ttl" "maxEntries reg = maxE" "length (entries reg) \<le> maxE"
    and "started_at log i k fp n \<Longrightarrow> n < nextPromise reg"
    and "started_at log i k fp n \<Longrightarrow> started_at log j k' fp' n \<Longrightarrow> i = j"
    and "Map_get (entries reg) k = Some e \<Longrightarrow> \<exists>i. entry_of ttl log i k e"
    and "started_at log i k fp n \<Longrightarrow>
        (\<exists>e. Map_get (entries reg) k = Some e \<and> promise e = n) \<or> expired_by ttl log i n (length log)"
    and "i < j \<Longrightarrow> started_at log i k fp n \<Longrightarrow> started_at log j k fp' m \<Longrightarrow> expired_by ttl log i n j"
    and "j < length log \<Longrightarrow> log ! j = RunAt t k fp (Inr (Joined n)) \<Longrightarrow> \<exists>i < j. started_at log i k fp n"
proof -
  note inv = assms [unfolded idem_inv_def]
  show "Map_ok (entries reg)" "ttlMs reg = ttl" "maxEntries reg = maxE" "length (entries reg) \<le> maxE"
    using inv by simp_all
  have a: "\<forall>i k fp n. started_at log i k fp n \<longrightarrow> n < nextPromise reg" using inv by (elim conjE)
  have b: "\<forall>i j k k' fp fp' n. started_at log i k fp n \<and> started_at log j k' fp' n \<longrightarrow> i = j" using inv by (elim conjE)
  have c: "\<forall>k e. Map_get (entries reg) k = Some e \<longrightarrow> (\<exists>i. entry_of ttl log i k e)" using inv by (elim conjE)
  have d: "\<forall>i k fp n. started_at log i k fp n \<longrightarrow>
      (\<exists>e. Map_get (entries reg) k = Some e \<and> promise e = n) \<or> expired_by ttl log i n (length log)" using inv by (elim conjE)
  have e: "\<forall>i j k fp fp' n m. i < j \<and> started_at log i k fp n \<and> started_at log j k fp' m \<longrightarrow> expired_by ttl log i n j"
    using inv by (elim conjE)
  have f: "\<forall>j t k fp n. j < length log \<and> log ! j = RunAt t k fp (Inr (Joined n)) \<longrightarrow> (\<exists>i < j. started_at log i k fp n)"
    using inv by (elim conjE)
  show "started_at log i k fp n \<Longrightarrow> n < nextPromise reg" using a by blast
  show "started_at log i k fp n \<Longrightarrow> started_at log j k' fp' n \<Longrightarrow> i = j" using b by blast
  show "Map_get (entries reg) k = Some e \<Longrightarrow> \<exists>i. entry_of ttl log i k e" using c by blast
  show "started_at log i k fp n \<Longrightarrow>
        (\<exists>e. Map_get (entries reg) k = Some e \<and> promise e = n) \<or> expired_by ttl log i n (length log)" using d by blast
  show "i < j \<Longrightarrow> started_at log i k fp n \<Longrightarrow> started_at log j k fp' m \<Longrightarrow> expired_by ttl log i n j" using e by blast
  show "j < length log \<Longrightarrow> log ! j = RunAt t k fp (Inr (Joined n)) \<Longrightarrow> \<exists>i < j. started_at log i k fp n" using f by blast
qed

lemma entry_of_snoc: "entry_of ttl log i k e \<Longrightarrow> entry_of ttl (log @ [x]) i k e"
  unfolding entry_of_def started_at_snoc by (blast intro: settled_at_snoc)

lemma prune_get:
  assumes "idem_inv ttl maxE log reg"
  shows "Map_get (entries (prune w reg)) k =
    (case Map_get (entries reg) k of None \<Rightarrow> None | Some e \<Rightarrow> if has_expired w e then None else Some e)"
  using assms by (simp add: idem_inv_def prune_entries map_model)

lemma prune_shrinks:
  assumes "idem_inv ttl maxE log reg"
  shows "Map_ok (entries (prune w reg))" "length (entries (prune w reg)) \<le> length (entries reg)"
  using assms by (simp_all add: idem_inv_def prune_entries map_model length_Map_delete_where)

text \<open>A read of the clock: a start keeps its entry through the pruning or has expired by now.\<close>

lemma kept_or_expired:
  assumes inv: "idem_inv ttl maxE log reg" and clock: "clock x = Some w" and start: "started_at log i k fp n"
  shows "(\<exists>e. Map_get (entries (prune w reg)) k = Some e \<and> promise e = n) \<or> expired_by ttl (log @ [x]) i n (length log)"
proof -
  from idem_invD(8) [OF inv start] consider e where "Map_get (entries reg) k = Some e" "promise e = n"
    | "expired_by ttl log i n (length log)" by blast
  then show ?thesis
  proof cases
    case 1
    from idem_invD(7) [OF inv 1(1)] obtain j where j: "entry_of ttl log j k e" by blast
    with idem_invD(6) [OF inv _ start] 1(2) have "j = i" unfolding entry_of_def by blast
    show ?thesis
    proof (cases "has_expired w e")
      case True
      with j 1(2) obtain s where "settled_at log i n s" "s + ttl \<le> w"
        by (auto simp: entry_of_def has_expired_def \<open>j = i\<close>)
      with clock show ?thesis by (blast intro: expired_by_last)
    next
      case False
      with 1 show ?thesis by (auto simp: prune_get [OF inv])
    qed
  next
    case 2
    then show ?thesis by (blast intro: expired_by_snoc order_refl)
  qed
qed

text \<open>Steps that start nothing.\<close>

lemma idem_inv_prune:
  assumes inv: "idem_inv ttl maxE log reg" and clock: "clock x = Some w"
    and no_start: "\<And>t k fp n. x \<noteq> RunAt t k fp (Inr (Started n))"
    and join: "\<And>t k fp n. x = RunAt t k fp (Inr (Joined n)) \<Longrightarrow> \<exists>i. started_at log i k fp n"
    and reg': "entries reg' = entries (prune w reg)" "ttlMs reg' = ttlMs reg" "maxEntries reg' = maxEntries reg"
      "nextPromise reg' = nextPromise reg"
  shows "idem_inv ttl maxE (log @ [x]) reg'"
proof -
  have old: "started_at (log @ [x]) i k fp n \<longleftrightarrow> started_at log i k fp n" for i k fp n
    using no_start by (auto simp: started_at_snoc)
  show ?thesis
  proof (rule idem_invI, unfold old)
    show "length (entries reg') \<le> maxE" "Map_ok (entries reg')" "ttlMs reg' = ttl" "maxEntries reg' = maxE"
      using idem_invD(2,3,4) [OF inv] prune_shrinks [OF inv, of w] by (simp_all add: reg')
    show "\<exists>i. entry_of ttl (log @ [x]) i k e" if "Map_get (entries reg') k = Some e" for k e
    proof -
      from that have "Map_get (entries reg) k = Some e"
        by (auto simp: reg' prune_get [OF inv] split: option.splits if_splits)
      from idem_invD(7) [OF inv this] show ?thesis by (blast intro: entry_of_snoc)
    qed
    show "(\<exists>e. Map_get (entries reg') k = Some e \<and> promise e = n) \<or> expired_by ttl (log @ [x]) i n (length (log @ [x]))"
      if "started_at log i k fp n" for i k fp n
      using kept_or_expired [OF inv clock that] expired_by_mono [of ttl "log @ [x]" i n "length log"] unfolding reg' by auto
    show "expired_by ttl (log @ [x]) i n j" if "i < j" "started_at log i k fp n" "started_at log j k fp' m" for i j k fp fp' n m
      by (rule expired_by_snoc [OF idem_invD(9) [OF inv that]]) simp
    show "\<exists>i < j. started_at log i k fp n"
      if "j < length (log @ [x])" "(log @ [x]) ! j = RunAt t k fp (Inr (Joined n))" for j t k fp n
    proof (cases "j < length log")
      case True
      with that idem_invD(10) [OF inv True] show ?thesis by (simp add: nth_append)
    next
      case False
      with that have "x = RunAt t k fp (Inr (Joined n))" "j = length log" by (simp_all add: nth_append less_Suc_eq)
      with join show ?thesis unfolding started_at_def by blast
    qed
    show "n < nextPromise reg'" if "started_at log i k fp n" for i k fp n
      using idem_invD(5) [OF inv that] by (simp add: reg')
    show "i = j" if "started_at log i k fp n" "started_at log j k' fp' n" for i j k k' fp fp' n
      by (rule idem_invD(6) [OF inv that])
  qed
qed

lemma idem_inv_start:
  assumes inv: "idem_inv ttl maxE log reg"
    and free: "Map_get (entries (prune w reg)) k = None" and room: "length (entries (prune w reg)) < maxE"
    and reg': "entries reg' = Map_set (entries (prune w reg)) k
        \<lparr>fingerprint = fp, e_expiresAt = None, settled = False, promise = nextPromise reg\<rparr>"
      "ttlMs reg' = ttlMs reg" "maxEntries reg' = maxEntries reg" "nextPromise reg' = nextPromise reg + 1"
  shows "idem_inv ttl maxE (log @ [RunAt w k fp (Inr (Started (nextPromise reg)))]) reg'" (is "idem_inv ttl maxE (log @ [?x]) reg'")
proof -
  have old: "started_at (log @ [?x]) i k' fp' n \<longleftrightarrow>
      started_at log i k' fp' n \<or> i = length log \<and> k' = k \<and> fp' = fp \<and> n = nextPromise reg" for i k' fp' n
    by (auto simp: started_at_snoc)
  have pos: "started_at log i k' fp' n \<Longrightarrow> i < length log" for i k' fp' n by (simp add: started_at_def)
  have before: "(\<exists>e. Map_get (entries (prune w reg)) k' = Some e \<and> promise e = n) \<or> expired_by ttl (log @ [?x]) i n (length log)"
    if "started_at log i k' fp' n" for i k' fp' n
    by (rule kept_or_expired [OF inv _ that]) simp
  show ?thesis
  proof (rule idem_invI)
    show "length (entries reg') \<le> maxE" using room free by (simp add: reg' length_Map_set Map_has_get)
    show "Map_ok (entries reg')" "ttlMs reg' = ttl" "maxEntries reg' = maxE"
      using prune_shrinks(1) [OF inv, of w] idem_invD(2,3) [OF inv] by (simp_all add: reg' map_model)
    show "n < nextPromise reg'" if "started_at (log @ [?x]) i k' fp' n" for i k' fp' n
      using that idem_invD(5) [OF inv] by (auto simp: old reg' less_Suc_eq)
    show "i = j" if "started_at (log @ [?x]) i k1 fp1 n" "started_at (log @ [?x]) j k2 fp2 n" for i j k1 k2 fp1 fp2 n
      using that idem_invD(5,6) [OF inv] unfolding old by (metis less_irrefl)
    show "\<exists>i. entry_of ttl (log @ [?x]) i k' e" if "Map_get (entries reg') k' = Some e" for k' e
    proof (cases "k' = k")
      case True
      with that show ?thesis by (auto simp: reg' map_model entry_of_def started_at_snoc)
    next
      case False
      with that have "Map_get (entries reg) k' = Some e"
        by (auto simp: reg' map_model prune_get [OF inv] split: option.splits if_splits)
      from idem_invD(7) [OF inv this] show ?thesis by (blast intro: entry_of_snoc)
    qed
    show "(\<exists>e. Map_get (entries reg') k' = Some e \<and> promise e = n) \<or> expired_by ttl (log @ [?x]) i n (length (log @ [?x]))"
      if "started_at (log @ [?x]) i k' fp' n" for i k' fp' n
      using that before [of i k' fp' n] free expired_by_mono [of ttl "log @ [?x]" i n "length log"]
      by (auto simp: old reg' map_model)
    show "expired_by ttl (log @ [?x]) i n j"
      if "i < j" "started_at (log @ [?x]) i k' f n" "started_at (log @ [?x]) j k' f' m" for i j k' f f' n m
    proof (cases "started_at log j k' f' m")
      case True
      with that pos have i: "started_at log i k' f n" unfolding old by (metis less_asym less_irrefl)
      show ?thesis by (rule expired_by_snoc [OF idem_invD(9) [OF inv that(1) i True]]) simp
    next
      case False
      with that have j: "j = length log" "k' = k" and i: "started_at log i k f n" by (auto simp: old)
      from before [OF i] free show ?thesis by (simp add: j)
    qed
    show "\<exists>i < j. started_at (log @ [?x]) i k' fp' n"
      if "j < length (log @ [?x])" "(log @ [?x]) ! j = RunAt t k' fp' (Inr (Joined n))" for j t k' fp' n
    proof -
      from that have "j < length log" "log ! j = RunAt t k' fp' (Inr (Joined n))"
        by (auto simp: nth_append less_Suc_eq split: if_splits)
      from idem_invD(10) [OF inv this] show ?thesis unfolding old by blast
    qed
  qed
qed

lemma idem_inv_settle:
  assumes inv: "idem_inv ttl maxE log reg"
  shows "idem_inv ttl maxE (log @ [SettleAt now n]) (settle now n reg)" (is "idem_inv ttl maxE (log @ [?x]) _")
proof -
  have old: "started_at (log @ [?x]) i k fp m \<longleftrightarrow> started_at log i k fp m" for i k fp m
    by (auto simp: started_at_snoc)
  have here: "settled_at (log @ [?x]) i n now" if "started_at log i k fp m" for i k fp m
    using that unfolding started_at_def settled_at_def by (intro exI [of _ "length log"]) simp
  show ?thesis
  proof (rule idem_invI, unfold old)
    show "Map_ok (entries (settle now n reg))" "length (entries (settle now n reg)) \<le> maxE"
      "ttlMs (settle now n reg) = ttl" "maxEntries (settle now n reg) = maxE"
      using idem_invD(1-4) [OF inv] by (simp_all add: settle_ok) (simp_all add: settle_def)
    show "m < nextPromise (settle now n reg)" if "started_at log i k fp m" for i k fp m
      using idem_invD(5) [OF inv that] by (simp add: settle_def)
    show "i = j" if "started_at log i k fp m" "started_at log j k' fp' m" for i j k k' fp fp' m
      using idem_invD(6) [OF inv that] .
    show "\<exists>i. entry_of ttl (log @ [?x]) i k e" if "Map_get (entries (settle now n reg)) k = Some e" for k e
    proof -
      from that obtain e0 where e0: "Map_get (entries reg) k = Some e0"
        "e = (if promise e0 = n then e0\<lparr>settled := True, e_expiresAt := Some (now + ttlMs reg)\<rparr> else e0)"
        by (auto simp: settle_get)
      from idem_invD(7) [OF inv e0(1)] obtain i where i: "entry_of ttl log i k e0" by blast
      show ?thesis
      proof (cases "promise e0 = n")
        case True
        with i here idem_invD(2) [OF inv] have "entry_of ttl (log @ [?x]) i k e"
          by (auto simp: entry_of_def e0(2) old)
        then show ?thesis by blast
      next
        case False
        with i e0(2) show ?thesis by (auto intro: entry_of_snoc)
      qed
    qed
    show "(\<exists>e. Map_get (entries (settle now n reg)) k = Some e \<and> promise e = m) \<or> expired_by ttl (log @ [?x]) i m (length (log @ [?x]))"
      if "started_at log i k fp m" for i k fp m
      using idem_invD(8) [OF inv that]
    proof (elim disjE exE conjE)
      fix e assume "Map_get (entries reg) k = Some e" "promise e = m"
      then show ?thesis by (intro disjI1) (simp add: settle_get)
    next
      assume "expired_by ttl log i m (length log)"
      then show ?thesis by (intro disjI2 expired_by_snoc [where j = "length log"]) simp_all
    qed
    show "expired_by ttl (log @ [?x]) i m j" if "i < j" "started_at log i k fp m" "started_at log j k fp' m'" for i j k fp fp' m m'
      by (rule expired_by_snoc [OF idem_invD(9) [OF inv that]]) simp
    show "\<exists>i < j. started_at log i k fp m"
      if "j < length (log @ [?x])" "(log @ [?x]) ! j = RunAt t k fp (Inr (Joined m))" for j t k fp m
      using that idem_invD(10) [OF inv, of j t k fp m] by (auto simp: nth_append less_Suc_eq split: if_splits)
  qed
qed


lemma run_cases:
  assumes "run now (Some k) fp reg = (res, reg')" and "k \<noteq> []"
  obtains (start) "Map_get (entries (prune now reg)) k = None" "length (entries (prune now reg)) < maxEntries reg"
      "res = Inr (Started (nextPromise reg))"
      "entries reg' = Map_set (entries (prune now reg)) k
        \<lparr>fingerprint = fp, e_expiresAt = None, settled = False, promise = nextPromise reg\<rparr>"
      "ttlMs reg' = ttlMs reg" "maxEntries reg' = maxEntries reg" "nextPromise reg' = nextPromise reg + 1"
  | (join) e where "Map_get (entries (prune now reg)) k = Some e" "fingerprint e = fp" "res = Inr (Joined (promise e))"
      "entries reg' = entries (prune now reg)" "ttlMs reg' = ttlMs reg" "maxEntries reg' = maxEntries reg"
      "nextPromise reg' = nextPromise reg"
  | (refuse) err where "res = Inl err" "entries reg' = entries (prune now reg)" "ttlMs reg' = ttlMs reg"
      "maxEntries reg' = maxEntries reg" "nextPromise reg' = nextPromise reg"
  using assms
  by (auto simp: run_def Let_def observe_def ensureCapacity_def split: option.splits if_splits)

lemma idem_inv_run:
  assumes inv: "idem_inv ttl maxE log reg" and "run now (Some k) fp reg = (res, reg')" and "k \<noteq> []"
  shows "idem_inv ttl maxE (log @ [RunAt now k fp res]) reg'"
  using assms(2,3)
proof (cases rule: run_cases)
  case start
  with idem_inv_start [OF inv start(1) _ start(4-7)] idem_invD(3) [OF inv] show ?thesis by simp
next
  case (join e)
  from join(1) have "Map_get (entries reg) k = Some e"
    by (auto simp: prune_get [OF inv] split: option.splits if_splits)
  from idem_invD(7) [OF inv this] join(2) have "\<exists>i. started_at log i k fp (promise e)" by (auto simp: entry_of_def)
  with idem_inv_prune [OF inv _ _ _ join(4-7), of "RunAt now k fp res"] join(3) show ?thesis by simp
next
  case (refuse err)
  with idem_inv_prune [OF inv _ _ _ refuse(2-5), of "RunAt now k fp res"] show ?thesis by simp
qed

definition ttl_of :: "millis option \<Rightarrow> millis" where
  "ttl_of ttl = (case ttl of None \<Rightarrow> 5 * 60 * 1000 | Some t \<Rightarrow> t)"

definition max_of :: "nat option \<Rightarrow> nat" where
  "max_of maxE = (case maxE of None \<Rightarrow> 4096 | Some n \<Rightarrow> n)"

lemma idem_trace_inv: "idem_trace ttl maxE log reg \<Longrightarrow> idem_inv (ttl_of ttl) (max_of maxE) log reg"
proof (induction rule: idem_trace.induct)
  case start
  show ?case
    by (rule idem_invI)
      (auto simp: new_idempotency_registry_def started_at_def ttl_of_def max_of_def DEFAULT_IDEMPOTENCY_TTL_MS_def
        DEFAULT_MAX_ENTRIES_def split: option.splits)
next
  case (run log reg now k fp res reg')
  then show ?case by (blast intro: idem_inv_run)
next
  case (settle log reg n now)
  then show ?case by (blast intro: idem_inv_settle)
next
  case (snapshot log reg now)
  then show ?case by (intro idem_inv_prune [where reg = reg and w = now]) (simp_all add: snapshot_metrics_def Let_def)
qed

section \<open>Properties\<close>

text \<open>
  C13. At most one execution. If in a session two runs under one key both start their operation, then the
  first operation has settled in between and its time to live has passed at a clock read not later than the
  second run. A run that is answered without a start gets the promise of an earlier run with the same key and the same
  fingerprint. The registry never holds more than its maximum of entries.
\<close>

theorem idempotent_runs:
  assumes "idem_trace ttl maxE log reg"
  shows "(\<forall>i j t t' k fp fp' n m. i < j \<and> j < length log \<and> log ! i = RunAt t k fp (Inr (Started n)) \<and>
      log ! j = RunAt t' k fp' (Inr (Started m)) \<longrightarrow>
      (\<exists>a b s w. i < a \<and> a < b \<and> b \<le> j \<and> log ! a = SettleAt s n \<and> clock (log ! b) = Some w \<and> s + ttl_of ttl \<le> w)) \<and>
    (\<forall>j t k fp n. j < length log \<and> log ! j = RunAt t k fp (Inr (Joined n)) \<longrightarrow>
      (\<exists>i t'. i < j \<and> log ! i = RunAt t' k fp (Inr (Started n)))) \<and>
    length (entries reg) \<le> max_of maxE"
proof (intro conjI allI impI)
  note inv = idem_trace_inv [OF assms]
  show "length (entries reg) \<le> max_of maxE" by (rule idem_invD(4) [OF inv])
  fix i j t t' k fp fp' n m
  assume "i < j \<and> j < length log \<and> log ! i = RunAt t k fp (Inr (Started n)) \<and> log ! j = RunAt t' k fp' (Inr (Started m))"
  then have "i < j" "started_at log i k fp n" "started_at log j k fp' m" by (auto simp: started_at_def)
  from idem_invD(9) [OF inv this] show "\<exists>a b s w. i < a \<and> a < b \<and> b \<le> j \<and> log ! a = SettleAt s n \<and>
      clock (log ! b) = Some w \<and> s + ttl_of ttl \<le> w" unfolding expired_by_def by blast
next
  fix j t k fp n
  assume "j < length log \<and> log ! j = RunAt t k fp (Inr (Joined n))"
  then have "j < length log" "log ! j = RunAt t k fp (Inr (Joined n))" by blast+
  from idem_invD(10) [OF idem_trace_inv [OF assms] this]
  show "\<exists>i t'. i < j \<and> log ! i = RunAt t' k fp (Inr (Started n))" unfolding started_at_def by blast
qed

lemma idem_trace_run:
  "idem_trace ttl maxE log reg \<Longrightarrow> k \<noteq> [] \<Longrightarrow>
    idem_trace ttl maxE (log @ [RunAt now k fp (fst (run now (Some k) fp reg))]) (snd (run now (Some k) fp reg))"
  using idem_trace.run by (metis prod.collapse)

theorem idempotent_runs_witness:
  "\<exists>log reg. idem_trace (Some 10) (Some 4) log reg \<and> length log = 4 \<and>
     log ! 0 = RunAt 0 ''k'' ''f'' (Inr (Started 0)) \<and> log ! 1 = RunAt 1 ''k'' ''f'' (Inr (Joined 0)) \<and>
     log ! 3 = RunAt 12 ''k'' ''g'' (Inr (Started 1)) \<and>
     (\<exists>a b s w. 0 < a \<and> a < b \<and> b \<le> 3 \<and> log ! a = SettleAt s 0 \<and> clock (log ! b) = Some w \<and> s + ttl_of (Some 10) \<le> w)"
proof -
  let ?r0 = "new_idempotency_registry (Some 10) (Some 4)"
  let ?r1 = "snd (run 0 (Some ''k'') ''f'' ?r0)"
  let ?r2 = "snd (run 1 (Some ''k'') ''f'' ?r1)"
  let ?r3 = "settle 2 0 ?r2"
  let ?r4 = "snd (run 12 (Some ''k'') ''g'' ?r3)"
  let ?log = "[RunAt 0 ''k'' ''f'' (Inr (Started 0)), RunAt 1 ''k'' ''f'' (Inr (Joined 0)), SettleAt 2 0,
    RunAt 12 ''k'' ''g'' (Inr (Started 1))]"
  have r: "fst (run 0 (Some ''k'') ''f'' ?r0) = Inr (Started 0)" "fst (run 1 (Some ''k'') ''f'' ?r1) = Inr (Joined 0)"
    "in_flight ?r2 0" "fst (run 12 (Some ''k'') ''g'' ?r3) = Inr (Started 1)"
    by code_simp+
  have "idem_trace (Some 10) (Some 4) ([] @ [RunAt 0 ''k'' ''f'' (Inr (Started 0))]) ?r1"
    using idem_trace_run [OF idem_trace.start, of "''k''" "Some 10" "Some 4" 0 "''f''"] r(1) by simp
  from idem_trace_run [OF this, of "''k''" 1 "''f''"] r(2)
  have t2: "idem_trace (Some 10) (Some 4) ([RunAt 0 ''k'' ''f'' (Inr (Started 0))] @ [RunAt 1 ''k'' ''f'' (Inr (Joined 0))]) ?r2"
    by simp
  from idem_trace_run [OF idem_trace.settle [OF t2 r(3), of 2], of "''k''" 12 "''g''"] r(4)
  have t: "idem_trace (Some 10) (Some 4) ?log ?r4" by simp
  have "\<exists>a b s w. 0 < a \<and> a < b \<and> b \<le> 3 \<and> ?log ! a = SettleAt s 0 \<and> clock (?log ! b) = Some w \<and> s + ttl_of (Some 10) \<le> w"
    using conjunct1 [OF idempotent_runs [OF t], rule_format, of 0 3 0 "''k''" "''f''" 0 12 "''g''" 1] by simp
  with t show ?thesis by (intro exI [of _ ?log] exI [of _ ?r4]) simp
qed

end
