(* ===== verification/OperationQueue.thy ===== *)
theory OperationQueue
  imports Prelude
begin

text \<open>
  The queue of browser operations, \<open>services/browser-worker/services/browser-operation-queue.ts\<close>: operations of
  one key run one at a time, in the order of their calls; operations of different keys share a bounded number
  of slots. A call of \<open>run\<close> is a job that goes through phases; each step of the system is a stretch of the
  code between two waits, and steps of different jobs interleave freely.
\<close>

section \<open>State and steps\<close>

datatype phase = WaitTurn | WantSlot | InSlotQueue | Running | Finished

text \<open>
  \<open>previous\<close> is the job whose promise the job waits for (none: a resolved promise); \<open>chained\<close> says that the
  promise \<open>current\<close> of the job, which resolves after \<open>previous\<close> and the job's own release, has resolved.
\<close>

record job =
  jkey :: string
  phase :: phase
  previous :: "nat option"
  chained :: bool

record BrowserOperationQueue =
  jobs :: "job list"
  tails :: "(string, nat) jsMap"
  slotWaiters :: "nat list"
  active :: nat
  queued :: nat
  maxConcurrency :: nat
  started :: "nat list"

definition new_queue :: "nat \<Rightarrow> BrowserOperationQueue" where
  "new_queue n = \<lparr>jobs = [], tails = [], slotWaiters = [], active = 0, queued = 0, maxConcurrency = n, started = []\<rparr>"

abbreviation set_phase :: "nat \<Rightarrow> phase \<Rightarrow> BrowserOperationQueue \<Rightarrow> BrowserOperationQueue" where
  "set_phase j p q \<equiv> q\<lparr>jobs := (jobs q)[j := (jobs q ! j)\<lparr>phase := p\<rparr>]\<rparr>"

definition in_phase :: "phase \<Rightarrow> nat \<Rightarrow> BrowserOperationQueue \<Rightarrow> bool" where
  "in_phase p j q = (j < length (jobs q) \<and> phase (jobs q ! j) = p)"

definition promise_resolved :: "nat option \<Rightarrow> BrowserOperationQueue \<Rightarrow> bool" where
  "promise_resolved p q = (case p of None \<Rightarrow> True | Some i \<Rightarrow> chained (jobs q ! i))"

text \<open>The part of \<open>run\<close> up to its first wait.\<close>

definition enqueue :: "string \<Rightarrow> BrowserOperationQueue \<Rightarrow> BrowserOperationQueue" where
  "enqueue key q =
    (let j = length (jobs q)
     in q\<lparr>jobs := jobs q @ [\<lparr>jkey = key, phase = WaitTurn, previous = Map_get (tails q) key, chained = False\<rparr>],
          tails := Map_set (tails q) key j, queued := queued q + 1\<rparr>)"

text \<open>\<open>waitForTurn\<close> ends: the previous promise has resolved, or the signal is aborted.\<close>

definition grant_turn :: "nat \<Rightarrow> BrowserOperationQueue \<Rightarrow> BrowserOperationQueue option" where
  "grant_turn j q =
    (if in_phase WaitTurn j q \<and> promise_resolved (previous (jobs q ! j)) q then Some (set_phase j WantSlot q) else None)"

definition abort_turn :: "nat \<Rightarrow> BrowserOperationQueue \<Rightarrow> BrowserOperationQueue option" where
  "abort_turn j q =
    (if in_phase WaitTurn j q then Some ((set_phase j Finished q)\<lparr>queued := queued q - 1\<rparr>) else None)"

text \<open>
  One turn of the loop of \<open>acquireSlot\<close>: a free slot is taken (and the task runs if it is neither
  cancelled nor too late, which \<open>admitted\<close> tells), otherwise the job joins the waiters, unless its signal is aborted.
  The two counters change in one step; in the code \<open>queued\<close> follows one resumption after \<open>active\<close>, so it may exceed the number of waiting jobs for that moment.
\<close>

definition acquire_slot :: "nat \<Rightarrow> bool \<Rightarrow> BrowserOperationQueue \<Rightarrow> BrowserOperationQueue option" where
  "acquire_slot j admitted q =
    (if in_phase WantSlot j q then
       if active q \<ge> maxConcurrency q
       then Some ((set_phase j InSlotQueue q)\<lparr>slotWaiters := slotWaiters q @ [j]\<rparr>)
       else Some ((set_phase j Running q)\<lparr>active := active q + 1, queued := queued q - 1,
              started := (if admitted then started q @ [j] else started q)\<rparr>)
     else None)"

definition abort_slot :: "nat \<Rightarrow> BrowserOperationQueue \<Rightarrow> BrowserOperationQueue option" where
  "abort_slot j q =
    (if in_phase InSlotQueue j q \<or> in_phase WantSlot j q \<and> active q \<ge> maxConcurrency q
     then Some ((set_phase j Finished q)\<lparr>slotWaiters := removeAll j (slotWaiters q), queued := queued q - 1\<rparr>)
     else None)"

text \<open>The \<open>finally\<close> block: the slot is given back and the first waiter resumes; then the turn is released.\<close>

definition release_slot :: "BrowserOperationQueue \<Rightarrow> BrowserOperationQueue" where
  "release_slot q =
    (let q = q\<lparr>active := active q - 1\<rparr>
     in case slotWaiters q of
          [] \<Rightarrow> q
        | w # ws \<Rightarrow> (set_phase w WantSlot q)\<lparr>slotWaiters := ws\<rparr>)"

definition finish :: "nat \<Rightarrow> BrowserOperationQueue \<Rightarrow> BrowserOperationQueue option" where
  "finish j q = (if in_phase Running j q then Some (release_slot (set_phase j Finished q)) else None)"

text \<open>The promise \<open>current\<close> of a job resolves; then its tail entry may go (\<open>cleanupTail\<close>).\<close>

definition resolve_chain :: "nat \<Rightarrow> BrowserOperationQueue \<Rightarrow> BrowserOperationQueue option" where
  "resolve_chain j q =
    (if in_phase Finished j q \<and> promise_resolved (previous (jobs q ! j)) q
     then Some (q\<lparr>jobs := (jobs q)[j := (jobs q ! j)\<lparr>chained := True\<rparr>]\<rparr>) else None)"

definition cleanup_tail :: "nat \<Rightarrow> BrowserOperationQueue \<Rightarrow> BrowserOperationQueue option" where
  "cleanup_tail j q =
    (if in_phase Finished j q \<and> chained (jobs q ! j) \<and> Map_get (tails q) (jkey (jobs q ! j)) = Some j
     then Some (q\<lparr>tails := Map_delete (tails q) (jkey (jobs q ! j))\<rparr>) else None)"

inductive queue_step :: "BrowserOperationQueue \<Rightarrow> BrowserOperationQueue \<Rightarrow> bool" where
  "queue_step q (enqueue key q)"
| "grant_turn j q = Some q' \<Longrightarrow> queue_step q q'"
| "abort_turn j q = Some q' \<Longrightarrow> queue_step q q'"
| "acquire_slot j admitted q = Some q' \<Longrightarrow> queue_step q q'"
| "abort_slot j q = Some q' \<Longrightarrow> queue_step q q'"
| "finish j q = Some q' \<Longrightarrow> queue_step q q'"
| "resolve_chain j q = Some q' \<Longrightarrow> queue_step q q'"
| "cleanup_tail j q = Some q' \<Longrightarrow> queue_step q q'"

inductive_cases queue_stepE: "queue_step q q'"

section \<open>Counting jobs\<close>

definition count_phase :: "phase \<Rightarrow> BrowserOperationQueue \<Rightarrow> nat" where
  "count_phase p q = length (filter (\<lambda>x. phase x = p) (jobs q))"

lemma filter_length_update:
  "j < length xs \<Longrightarrow> length (filter P (xs[j := y])) + of_bool (P (xs ! j)) = length (filter P xs) + of_bool (P y)"
proof (induction xs arbitrary: j)
  case (Cons x xs)
  then show ?case by (cases j) auto
qed simp

lemma count_set_phase:
  assumes "in_phase p0 j q"
  shows "count_phase p (set_phase j p1 q) + of_bool (p = p0) = count_phase p q + of_bool (p = p1)"
  using filter_length_update [of j "jobs q" "\<lambda>x. phase x = p" "(jobs q ! j)\<lparr>phase := p1\<rparr>"] assms
  by (auto simp: count_phase_def in_phase_def)


lemma count_pos: "in_phase p j q \<Longrightarrow> 0 < count_phase p q"
proof -
  assume "in_phase p j q"
  then have "jobs q ! j \<in> set (filter (\<lambda>x. phase x = p) (jobs q))" by (simp add: in_phase_def)
  then show ?thesis unfolding count_phase_def by (rule length_pos_if_in_set)
qed

lemma count_move:
  assumes "in_phase p0 j q" and "p0 \<noteq> p1"
  shows "count_phase p (set_phase j p1 q) =
    (if p = p0 then count_phase p q - 1 else if p = p1 then count_phase p q + 1 else count_phase p q)"
  using count_set_phase [OF assms(1), of p p1] count_pos [OF assms(1)] assms(2) by (auto simp: of_bool_def split: if_splits)

lemma in_phase_move:
  "in_phase p0 j q \<Longrightarrow> in_phase p i (set_phase j p1 q) \<longleftrightarrow> (if i = j then p = p1 else in_phase p i q)"
  by (auto simp: in_phase_def nth_list_update)

lemma frame_simps [simp]:
  "count_phase p (q\<lparr>active := a\<rparr>) = count_phase p q" "count_phase p (q\<lparr>queued := a\<rparr>) = count_phase p q"
  "count_phase p (q\<lparr>slotWaiters := ws\<rparr>) = count_phase p q" "count_phase p (q\<lparr>started := st\<rparr>) = count_phase p q"
  "count_phase p (q\<lparr>tails := ts\<rparr>) = count_phase p q"
  "in_phase p i (q\<lparr>active := a\<rparr>) = in_phase p i q" "in_phase p i (q\<lparr>queued := a\<rparr>) = in_phase p i q"
  "in_phase p i (q\<lparr>slotWaiters := ws\<rparr>) = in_phase p i q" "in_phase p i (q\<lparr>started := st\<rparr>) = in_phase p i q"
  "in_phase p i (q\<lparr>tails := ts\<rparr>) = in_phase p i q"
  by (simp_all add: count_phase_def in_phase_def)

lemma in_phase_unique: "in_phase p j q \<Longrightarrow> in_phase p' j q \<Longrightarrow> p = p'"
  by (simp add: in_phase_def)

section \<open>Slots\<close>

text \<open>
  The counters are the numbers of jobs in the phases they stand for, the waiters are the jobs that wait for a slot, and
  while there is a waiter, the slots that are not taken are about to be taken by jobs that want one.
\<close>

definition slots_inv :: "BrowserOperationQueue \<Rightarrow> bool" where
  "slots_inv q =
    (active q = count_phase Running q \<and> active q \<le> maxConcurrency q \<and>
     queued q = count_phase WaitTurn q + count_phase WantSlot q + count_phase InSlotQueue q \<and>
     distinct (slotWaiters q) \<and> set (slotWaiters q) = {j. in_phase InSlotQueue j q} \<and>
     (slotWaiters q \<noteq> [] \<longrightarrow> maxConcurrency q \<le> active q + count_phase WantSlot q))"

lemma slots_enqueue: "slots_inv q \<Longrightarrow> slots_inv (enqueue key q)"
proof -
  assume inv: "slots_inv q"
  have "count_phase p (enqueue key q) = count_phase p q + of_bool (p = WaitTurn)" for p
    by (simp add: count_phase_def enqueue_def Let_def)
  moreover have "in_phase InSlotQueue j (enqueue key q) = in_phase InSlotQueue j q" for j
    by (auto simp: in_phase_def enqueue_def Let_def nth_append less_Suc_eq)
  ultimately show ?thesis using inv by (auto simp: slots_inv_def) (simp_all add: enqueue_def Let_def)
qed

text \<open>A job that leaves a phase for another one.\<close>

lemma slots_move:
  assumes inv: "slots_inv q" and ph: "in_phase p0 j q" and "p0 \<noteq> p1"
    and q': "q' = (set_phase j p1 q)\<lparr>active := a, queued := n, slotWaiters := ws, started := st\<rparr>"
    and active: "a + of_bool (p0 = Running) = active q + of_bool (p1 = Running)" "a \<le> maxConcurrency q"
    and queued: "n + of_bool (p0 \<in> {WaitTurn, WantSlot, InSlotQueue}) = queued q + of_bool (p1 \<in> {WaitTurn, WantSlot, InSlotQueue})"
    and ws: "distinct ws" "set ws = (if p1 = InSlotQueue then insert j (set (slotWaiters q)) else set (slotWaiters q) - {j})"
    and busy: "ws \<noteq> [] \<Longrightarrow> maxConcurrency q + of_bool (p0 = WantSlot) \<le> a + count_phase WantSlot q + of_bool (p1 = WantSlot)"
  shows "slots_inv q'"
proof -
  have mv: "count_phase p q' + of_bool (p = p0) = count_phase p q + of_bool (p = p1)" for p
    using count_set_phase [OF ph, of p p1] by (simp add: q' count_phase_def)
  have inq: "in_phase p i q' \<longleftrightarrow> (if i = j then p = p1 else in_phase p i q)" for p i
    using in_phase_move [OF ph, of p i p1] by (simp add: q' in_phase_def)
  have fields: "active q' = a" "queued q' = n" "slotWaiters q' = ws" "maxConcurrency q' = maxConcurrency q"
    by (simp_all add: q')
  have "a = count_phase Running q'"
    using inv active mv [of Running] assms(3) by (auto simp: slots_inv_def of_bool_def split: if_splits)
  moreover have "n = count_phase WaitTurn q' + count_phase WantSlot q' + count_phase InSlotQueue q'"
    using inv queued mv [of WaitTurn] mv [of WantSlot] mv [of InSlotQueue] assms(3)
    by (cases p0; cases p1) (auto simp: slots_inv_def)
  moreover have "set ws = {i. in_phase InSlotQueue i q'}"
    using inv ws(2) inq by (auto simp: slots_inv_def)
  moreover have "ws \<noteq> [] \<longrightarrow> maxConcurrency q \<le> a + count_phase WantSlot q'"
    using busy mv [of WantSlot] by (auto simp: of_bool_def split: if_splits)
  ultimately show ?thesis using active(2) ws(1) unfolding slots_inv_def fields by blast
qed

lemma not_waiting: "slots_inv q \<Longrightarrow> in_phase p j q \<Longrightarrow> p \<noteq> InSlotQueue \<Longrightarrow> j \<notin> set (slotWaiters q)"
  by (auto simp: slots_inv_def dest: in_phase_unique)

lemma slots_invD:
  assumes "slots_inv q"
  shows "active q \<le> maxConcurrency q" "distinct (slotWaiters q)"
    "in_phase Running j q \<Longrightarrow> 0 < active q"
    "in_phase WaitTurn j q \<or> in_phase WantSlot j q \<or> in_phase InSlotQueue j q \<Longrightarrow> 0 < queued q"
    "slotWaiters q \<noteq> [] \<Longrightarrow> maxConcurrency q \<le> active q + count_phase WantSlot q"
    "w \<in> set (slotWaiters q) \<Longrightarrow> in_phase InSlotQueue w q"
proof -
  note inv = assms [unfolded slots_inv_def]
  show "active q \<le> maxConcurrency q" "distinct (slotWaiters q)"
    "slotWaiters q \<noteq> [] \<Longrightarrow> maxConcurrency q \<le> active q + count_phase WantSlot q"
    "w \<in> set (slotWaiters q) \<Longrightarrow> in_phase InSlotQueue w q" using inv by simp_all
  show "in_phase Running j q \<Longrightarrow> 0 < active q" using inv count_pos [of Running j q] by simp
  have "queued q = count_phase WaitTurn q + count_phase WantSlot q + count_phase InSlotQueue q" using inv by blast
  then show "in_phase WaitTurn j q \<or> in_phase WantSlot j q \<or> in_phase InSlotQueue j q \<Longrightarrow> 0 < queued q"
    using count_pos [of WaitTurn j q] count_pos [of WantSlot j q] count_pos [of InSlotQueue j q] by linarith
qed

lemma slots_grant:
  assumes inv: "slots_inv q" and step: "grant_turn j q = Some q'"
  shows "slots_inv q'"
proof (rule slots_move [OF inv])
  from step show ph: "in_phase WaitTurn j q"
    and "q' = (set_phase j WantSlot q)\<lparr>active := active q, queued := queued q, slotWaiters := slotWaiters q, started := started q\<rparr>"
    by (auto simp: grant_turn_def split: if_splits)
  from not_waiting [OF inv ph] show "set (slotWaiters q) = (if WantSlot = InSlotQueue then insert j (set (slotWaiters q)) else set (slotWaiters q) - {j})"
    by simp
qed (use slots_invD(1,2,5) [OF inv] in auto)

lemma slots_abort_turn:
  assumes inv: "slots_inv q" and step: "abort_turn j q = Some q'"
  shows "slots_inv q'"
proof (rule slots_move [OF inv])
  from step show ph: "in_phase WaitTurn j q"
    and "q' = (set_phase j Finished q)\<lparr>active := active q, queued := queued q - 1, slotWaiters := slotWaiters q, started := started q\<rparr>"
    by (auto simp: abort_turn_def split: if_splits)
  from not_waiting [OF inv ph] show "set (slotWaiters q) = (if Finished = InSlotQueue then insert j (set (slotWaiters q)) else set (slotWaiters q) - {j})"
    by simp
  from slots_invD(4) [OF inv, of j] ph
  show "queued q - 1 + of_bool (WaitTurn \<in> {WaitTurn, WantSlot, InSlotQueue}) = queued q + of_bool (Finished \<in> {WaitTurn, WantSlot, InSlotQueue})"
    by simp
qed (use slots_invD(1,2,5) [OF inv] in auto)

lemma slots_acquire:
  assumes inv: "slots_inv q" and step: "acquire_slot j b q = Some q'"
  shows "slots_inv q'"
proof -
  from step have ph: "in_phase WantSlot j q" by (auto simp: acquire_slot_def split: if_splits)
  note out = not_waiting [OF inv ph]
  show ?thesis
  proof (cases "active q \<ge> maxConcurrency q")
    case True
    show ?thesis
    proof (rule slots_move [OF inv ph])
      from step True ph show "q' = (set_phase j InSlotQueue q)\<lparr>active := active q, queued := queued q,
          slotWaiters := slotWaiters q @ [j], started := started q\<rparr>"
        by (auto simp: acquire_slot_def)
      show "distinct (slotWaiters q @ [j])" using slots_invD(2) [OF inv] out by simp
      show "maxConcurrency q + of_bool (WantSlot = WantSlot) \<le> active q + count_phase WantSlot q + of_bool (InSlotQueue = WantSlot)"
        using True count_pos [OF ph] by simp
    qed (use slots_invD(1) [OF inv] in auto)
  next
    case False
    show ?thesis
    proof (rule slots_move [OF inv ph])
      from step False ph show "q' = (set_phase j Running q)\<lparr>active := active q + 1, queued := queued q - 1,
          slotWaiters := slotWaiters q, started := (if b then started q @ [j] else started q)\<rparr>"
        by (auto simp: acquire_slot_def)
      show "queued q - 1 + of_bool (WantSlot \<in> {WaitTurn, WantSlot, InSlotQueue}) = queued q + of_bool (Running \<in> {WaitTurn, WantSlot, InSlotQueue})"
        using slots_invD(4) [OF inv, of j] ph by simp
    qed (use slots_invD(2,5) [OF inv] out False in auto)
  qed
qed

lemma slots_abort_slot:
  assumes inv: "slots_inv q" and step: "abort_slot j q = Some q'"
  shows "slots_inv q'"
proof -
  from step consider "in_phase InSlotQueue j q" | "in_phase WantSlot j q" "active q \<ge> maxConcurrency q"
    by (auto simp: abort_slot_def split: if_splits)
  then obtain p0 where ph: "in_phase p0 j q" and p0: "p0 = InSlotQueue \<or> p0 = WantSlot \<and> active q \<ge> maxConcurrency q" by blast
  show ?thesis
  proof (rule slots_move [OF inv ph])
    from step ph show "q' = (set_phase j Finished q)\<lparr>active := active q, queued := queued q - 1,
        slotWaiters := removeAll j (slotWaiters q), started := started q\<rparr>"
      by (auto simp: abort_slot_def split: if_splits)
    show "queued q - 1 + of_bool (p0 \<in> {WaitTurn, WantSlot, InSlotQueue}) = queued q + of_bool (Finished \<in> {WaitTurn, WantSlot, InSlotQueue})"
      using slots_invD(4) [OF inv, of j] ph p0 by auto
    show "maxConcurrency q + of_bool (p0 = WantSlot) \<le> active q + count_phase WantSlot q + of_bool (Finished = WantSlot)"
      if "removeAll j (slotWaiters q) \<noteq> []"
    proof -
      from that have "slotWaiters q \<noteq> []" by auto
      from slots_invD(5) [OF inv this] p0 ph count_pos [OF ph] show ?thesis by auto
    qed
  qed (use slots_invD(1,2) [OF inv] p0 in \<open>auto simp: distinct_removeAll\<close>)
qed

lemma slots_finish:
  assumes inv: "slots_inv q" and step: "finish j q = Some q'"
  shows "slots_inv q'"
proof -
  from step have ph: "in_phase Running j q" and q': "q' = release_slot (set_phase j Finished q)"
    by (auto simp: finish_def split: if_splits)
  note out = not_waiting [OF inv ph]
  have pos: "0 < active q" by (rule slots_invD(3) [OF inv ph])
  show ?thesis
  proof (cases "slotWaiters q")
    case Nil
    show ?thesis
    proof (rule slots_move [OF inv ph])
      show "q' = (set_phase j Finished q)\<lparr>active := active q - 1, queued := queued q, slotWaiters := [], started := started q\<rparr>"
        using Nil by (simp add: q' release_slot_def)
    qed (use slots_invD(1) [OF inv] pos Nil in auto)
  next
    case (Cons w ws)
    then have w: "in_phase InSlotQueue w q" "w \<noteq> j" using slots_invD(6) [OF inv, of w] out by auto
    let ?q1 = "(set_phase w WantSlot q)\<lparr>active := active q, queued := queued q, slotWaiters := ws, started := started q\<rparr>"
    have q1: "slots_inv ?q1"
    proof (rule slots_move [OF inv w(1) _ refl])
      show "maxConcurrency q + of_bool (InSlotQueue = WantSlot) \<le> active q + count_phase WantSlot q + of_bool (WantSlot = WantSlot)"
        using slots_invD(5) [OF inv] Cons by simp
    qed (use slots_invD(1,2) [OF inv] Cons in auto)
    have "in_phase Running j ?q1" using ph w(2) by (simp add: in_phase_def)
    then show ?thesis
    proof (rule slots_move [OF q1])
      show "q' = (set_phase j Finished ?q1)\<lparr>active := active q - 1, queued := queued q, slotWaiters := ws, started := started q\<rparr>"
        using Cons w(2) by (simp add: q' release_slot_def list_update_swap)
      have "count_phase WantSlot ?q1 = count_phase WantSlot q + 1"
        using count_move [OF w(1), of WantSlot WantSlot] by (simp add: count_phase_def)
      then show "maxConcurrency ?q1 + of_bool (Running = WantSlot) \<le> active q - 1 + count_phase WantSlot ?q1 + of_bool (Finished = WantSlot)"
        using slots_invD(5) [OF inv] Cons pos by simp
    qed (use slots_invD(1,2) [OF inv] pos Cons out in auto)
  qed
qed

lemma slots_chain:
  assumes "slots_inv q"
  shows "resolve_chain j q = Some q' \<Longrightarrow> slots_inv q'" "cleanup_tail j q = Some q' \<Longrightarrow> slots_inv q'"
proof -
  have "phase ((jobs q)[j := (jobs q ! j)\<lparr>chained := True\<rparr>] ! i) = phase (jobs q ! i)" if "j < length (jobs q)" for i
    using that by (cases "i = j") simp_all
  moreover have "length (filter (\<lambda>x. phase x = p) ((jobs q)[j := (jobs q ! j)\<lparr>chained := True\<rparr>])) = length (filter (\<lambda>x. phase x = p) (jobs q))"
    if "j < length (jobs q)" for p
    using filter_length_update [OF that, of "\<lambda>x. phase x = p" "(jobs q ! j)\<lparr>chained := True\<rparr>"] by simp
  ultimately show "resolve_chain j q = Some q' \<Longrightarrow> slots_inv q'"
    using assms by (auto simp: resolve_chain_def slots_inv_def count_phase_def in_phase_def split: if_splits)
  show "cleanup_tail j q = Some q' \<Longrightarrow> slots_inv q'"
    using assms by (auto simp: cleanup_tail_def slots_inv_def split: if_splits)
qed

lemma slots_step: "slots_inv q \<Longrightarrow> queue_step q q' \<Longrightarrow> slots_inv q'"
  by (erule queue_stepE)
    (blast intro: slots_enqueue slots_grant slots_abort_turn slots_acquire slots_abort_slot slots_finish slots_chain)+

section \<open>Turns\<close>

text \<open>
  The chain of promises of one key: every earlier job of the key is at or before the job waited for, a
  resolved promise stands for finished jobs only, and a job that has its turn has only finished jobs before it.
\<close>

definition holds_turn :: "phase \<Rightarrow> bool" where
  "holds_turn p = (p = WantSlot \<or> p = InSlotQueue \<or> p = Running)"

definition earlier :: "job list \<Rightarrow> nat \<Rightarrow> nat \<Rightarrow> bool" where
  "earlier js i j = (i < j \<and> j < length js \<and> jkey (js ! i) = jkey (js ! j))"

definition chain_inv :: "BrowserOperationQueue \<Rightarrow> bool" where
  "chain_inv q =
    (let js = jobs q in
     (\<forall>i j p. earlier js i j \<and> previous (js ! j) = Some p \<longrightarrow> i \<le> p) \<and>
     (\<forall>j p. j < length js \<and> previous (js ! j) = Some p \<longrightarrow> earlier js p j) \<and>
     (\<forall>i j. earlier js i j \<and> previous (js ! j) = None \<longrightarrow> chained (js ! i)) \<and>
     (\<forall>j. j < length js \<and> chained (js ! j) \<longrightarrow> phase (js ! j) = Finished) \<and>
     (\<forall>i j. earlier js i j \<and> chained (js ! j) \<longrightarrow> chained (js ! i)) \<and>
     (\<forall>k. case Map_get (tails q) k of
        Some t \<Rightarrow> t < length js \<and> jkey (js ! t) = k \<and> (\<forall>i < length js. jkey (js ! i) = k \<longrightarrow> i \<le> t)
      | None \<Rightarrow> \<forall>i < length js. jkey (js ! i) = k \<longrightarrow> chained (js ! i)) \<and>
     (\<forall>i j. earlier js i j \<and> holds_turn (phase (js ! j)) \<longrightarrow> phase (js ! i) = Finished))"

definition started_inv :: "BrowserOperationQueue \<Rightarrow> bool" where
  "started_inv q =
    ((\<forall>j \<in> set (started q). j < length (jobs q) \<and> (phase (jobs q ! j) = Running \<or> phase (jobs q ! j) = Finished)) \<and>
     (\<forall>j \<in> set (started q). \<forall>i. earlier (jobs q) i j \<longrightarrow> phase (jobs q ! i) = Finished) \<and>
     (\<forall>k. sorted_wrt (<) (filter (\<lambda>j. jkey (jobs q ! j) = k) (started q))))"

lemma update_field: "f x = f (js ! j) \<Longrightarrow> f (js[j := x] ! i) = f (js ! i)"
  by (cases "j < length js"; cases "i = j") (simp_all add: list_update_beyond)

lemma update_phase_fields [simp]:
  "jkey (js[j := (js ! j)\<lparr>phase := p\<rparr>] ! i) = jkey (js ! i)"
  "previous (js[j := (js ! j)\<lparr>phase := p\<rparr>] ! i) = previous (js ! i)"
  "chained (js[j := (js ! j)\<lparr>phase := p\<rparr>] ! i) = chained (js ! i)"
  "jkey (js[j := (js ! j)\<lparr>chained := b\<rparr>] ! i) = jkey (js ! i)"
  "previous (js[j := (js ! j)\<lparr>chained := b\<rparr>] ! i) = previous (js ! i)"
  "phase (js[j := (js ! j)\<lparr>chained := b\<rparr>] ! i) = phase (js ! i)"
  by (rule update_field, simp)+

lemma earlier_update [simp]:
  "earlier (js[j := (js ! j)\<lparr>phase := p\<rparr>]) i k = earlier js i k" "earlier (js[j := (js ! j)\<lparr>chained := b\<rparr>]) i k = earlier js i k"
  by (simp_all add: earlier_def)

lemma chain_invI:
  assumes "\<And>i j p. earlier (jobs q) i j \<Longrightarrow> previous (jobs q ! j) = Some p \<Longrightarrow> i \<le> p"
    and "\<And>j p. j < length (jobs q) \<Longrightarrow> previous (jobs q ! j) = Some p \<Longrightarrow> earlier (jobs q) p j"
    and "\<And>i j. earlier (jobs q) i j \<Longrightarrow> previous (jobs q ! j) = None \<Longrightarrow> chained (jobs q ! i)"
    and "\<And>j. j < length (jobs q) \<Longrightarrow> chained (jobs q ! j) \<Longrightarrow> phase (jobs q ! j) = Finished"
    and "\<And>i j. earlier (jobs q) i j \<Longrightarrow> chained (jobs q ! j) \<Longrightarrow> chained (jobs q ! i)"
    and "\<And>k t. Map_get (tails q) k = Some t \<Longrightarrow>
        t < length (jobs q) \<and> jkey (jobs q ! t) = k \<and> (\<forall>i < length (jobs q). jkey (jobs q ! i) = k \<longrightarrow> i \<le> t)"
    and "\<And>k i. Map_get (tails q) k = None \<Longrightarrow> i < length (jobs q) \<Longrightarrow> jkey (jobs q ! i) = k \<Longrightarrow> chained (jobs q ! i)"
    and "\<And>i j. earlier (jobs q) i j \<Longrightarrow> holds_turn (phase (jobs q ! j)) \<Longrightarrow> phase (jobs q ! i) = Finished"
  shows "chain_inv q"
  unfolding chain_inv_def Let_def
  by (intro conjI allI impI; (elim conjE)?; (split option.split, intro conjI allI impI)?; (rule assms; assumption)?)
    (use assms(6) in blast)+

lemma chain_invD:
  assumes "chain_inv q"
  shows "earlier (jobs q) i j \<Longrightarrow> previous (jobs q ! j) = Some p \<Longrightarrow> i \<le> p"
    "j < length (jobs q) \<Longrightarrow> previous (jobs q ! j) = Some p \<Longrightarrow> earlier (jobs q) p j"
    "earlier (jobs q) i j \<Longrightarrow> previous (jobs q ! j) = None \<Longrightarrow> chained (jobs q ! i)"
    "j < length (jobs q) \<Longrightarrow> chained (jobs q ! j) \<Longrightarrow> phase (jobs q ! j) = Finished"
    "earlier (jobs q) i j \<Longrightarrow> chained (jobs q ! j) \<Longrightarrow> chained (jobs q ! i)"
    "Map_get (tails q) k = Some t \<Longrightarrow>
        t < length (jobs q) \<and> jkey (jobs q ! t) = k \<and> (\<forall>i < length (jobs q). jkey (jobs q ! i) = k \<longrightarrow> i \<le> t)"
    "Map_get (tails q) k = None \<Longrightarrow> i < length (jobs q) \<Longrightarrow> jkey (jobs q ! i) = k \<Longrightarrow> chained (jobs q ! i)"
    "earlier (jobs q) i j \<Longrightarrow> holds_turn (phase (jobs q ! j)) \<Longrightarrow> phase (jobs q ! i) = Finished"
proof -
  note inv = assms [unfolded chain_inv_def Let_def]
  show "earlier (jobs q) i j \<Longrightarrow> previous (jobs q ! j) = Some p \<Longrightarrow> i \<le> p" using inv by blast
  show "j < length (jobs q) \<Longrightarrow> previous (jobs q ! j) = Some p \<Longrightarrow> earlier (jobs q) p j" using inv by blast
  show "earlier (jobs q) i j \<Longrightarrow> previous (jobs q ! j) = None \<Longrightarrow> chained (jobs q ! i)" using inv by blast
  show "j < length (jobs q) \<Longrightarrow> chained (jobs q ! j) \<Longrightarrow> phase (jobs q ! j) = Finished" using inv by blast
  show "earlier (jobs q) i j \<Longrightarrow> chained (jobs q ! j) \<Longrightarrow> chained (jobs q ! i)" using inv by blast
  show "earlier (jobs q) i j \<Longrightarrow> holds_turn (phase (jobs q ! j)) \<Longrightarrow> phase (jobs q ! i) = Finished" using inv by blast
  have "case Map_get (tails q) k of
        Some t \<Rightarrow> t < length (jobs q) \<and> jkey (jobs q ! t) = k \<and> (\<forall>i < length (jobs q). jkey (jobs q ! i) = k \<longrightarrow> i \<le> t)
      | None \<Rightarrow> \<forall>i < length (jobs q). jkey (jobs q ! i) = k \<longrightarrow> chained (jobs q ! i)" using inv by blast
  then show "Map_get (tails q) k = Some t \<Longrightarrow>
        t < length (jobs q) \<and> jkey (jobs q ! t) = k \<and> (\<forall>i < length (jobs q). jkey (jobs q ! i) = k \<longrightarrow> i \<le> t)"
    "Map_get (tails q) k = None \<Longrightarrow> i < length (jobs q) \<Longrightarrow> jkey (jobs q ! i) = k \<Longrightarrow> chained (jobs q ! i)"
    by simp_all
qed

lemma earlier_snoc:
  "earlier (js @ [x]) i j \<longleftrightarrow> earlier js i j \<or> j = length js \<and> i < length js \<and> jkey (js ! i) = jkey x"
  by (auto simp: earlier_def nth_append)

lemma chain_enqueue:
  assumes inv: "chain_inv q"
  shows "chain_inv (enqueue key q)"
proof -
  define x where "x = \<lparr>jkey = key, phase = WaitTurn, previous = Map_get (tails q) key, chained = False\<rparr>"
  have q': "jobs (enqueue key q) = jobs q @ [x]" "tails (enqueue key q) = Map_set (tails q) key (length (jobs q))"
    by (simp_all add: enqueue_def Let_def x_def)
  have old: "(jobs q @ [x]) ! i = jobs q ! i" if "earlier (jobs q) i j \<or> earlier (jobs q) j i \<or> i < length (jobs q)" for i j
    using that by (auto simp: earlier_def nth_append)
  note D = chain_invD [OF inv]
  show ?thesis
  proof (rule chain_invI; unfold q' earlier_snoc)
    fix i j p assume "earlier (jobs q) i j \<or> j = length (jobs q) \<and> i < length (jobs q) \<and> jkey (jobs q ! i) = jkey x"
      and "previous ((jobs q @ [x]) ! j) = Some p"
    then show "i \<le> p" using D(1) [of i j p] D(6) [of key p] old [of j i] by (auto simp: x_def)
  next
    fix j p assume "j < length (jobs q @ [x])" "previous ((jobs q @ [x]) ! j) = Some p"
    then show "earlier (jobs q) p j \<or> j = length (jobs q) \<and> p < length (jobs q) \<and> jkey (jobs q ! p) = jkey x"
      using D(2) [of j p] D(6) [of key p] by (auto simp: x_def nth_append less_Suc_eq split: if_splits)
  next
    fix i j assume "earlier (jobs q) i j \<or> j = length (jobs q) \<and> i < length (jobs q) \<and> jkey (jobs q ! i) = jkey x"
      and "previous ((jobs q @ [x]) ! j) = None"
    then show "chained ((jobs q @ [x]) ! i)" using D(3) [of i j] D(7) [of key i] old [of i j] old [of j i] by (auto simp: x_def)
  next
    fix j assume "j < length (jobs q @ [x])" "chained ((jobs q @ [x]) ! j)"
    then show "phase ((jobs q @ [x]) ! j) = Finished"
      using D(4) [of j] by (auto simp: x_def nth_append less_Suc_eq split: if_splits)
  next
    fix i j assume "earlier (jobs q) i j \<or> j = length (jobs q) \<and> i < length (jobs q) \<and> jkey (jobs q ! i) = jkey x"
      and "chained ((jobs q @ [x]) ! j)"
    then show "chained ((jobs q @ [x]) ! i)" using D(5) [of i j] old [of i j] old [of j i] by (auto simp: x_def)
  next
    fix k t assume "Map_get (Map_set (tails q) key (length (jobs q))) k = Some t"
    then show "t < length (jobs q @ [x]) \<and> jkey ((jobs q @ [x]) ! t) = k \<and>
        (\<forall>i < length (jobs q @ [x]). jkey ((jobs q @ [x]) ! i) = k \<longrightarrow> i \<le> t)"
      using D(6) [of k t] by (auto simp: map_model x_def nth_append less_Suc_eq split: if_splits)
  next
    fix k i assume "Map_get (Map_set (tails q) key (length (jobs q))) k = None"
      "i < length (jobs q @ [x])" "jkey ((jobs q @ [x]) ! i) = k"
    then show "chained ((jobs q @ [x]) ! i)"
      using D(7) [of k i] by (auto simp: map_model x_def nth_append less_Suc_eq split: if_splits)
  next
    fix i j assume "earlier (jobs q) i j \<or> j = length (jobs q) \<and> i < length (jobs q) \<and> jkey (jobs q ! i) = jkey x"
      and "holds_turn (phase ((jobs q @ [x]) ! j))"
    then show "phase ((jobs q @ [x]) ! i) = Finished"
      using D(8) [of i j] old [of i j] old [of j i] by (auto simp: x_def holds_turn_def)
  qed
qed

lemma chain_move:
  assumes inv: "chain_inv q" and ph: "in_phase p0 j q" and "p0 \<noteq> Finished"
    and turn: "\<And>i. holds_turn p1 \<Longrightarrow> earlier (jobs q) i j \<Longrightarrow> phase (jobs q ! i) = Finished"
    and q': "jobs q' = (jobs q)[j := (jobs q ! j)\<lparr>phase := p1\<rparr>]" "tails q' = tails q"
  shows "chain_inv q'"
proof -
  note D = chain_invD [OF inv]
  have now: "phase ((jobs q)[j := (jobs q ! j)\<lparr>phase := p1\<rparr>] ! i) = (if i = j then p1 else phase (jobs q ! i))" for i
    using ph by (simp add: in_phase_def nth_list_update)
  have nch: "\<not> chained (jobs q ! j)" using D(4) [of j] ph assms(3) by (auto simp: in_phase_def)
  show ?thesis
  proof (rule chain_invI; unfold q' earlier_update update_phase_fields length_list_update now)
    fix i assume "i < length (jobs q)" "chained (jobs q ! i)"
    then show "(if i = j then p1 else phase (jobs q ! i)) = Finished" using D(4) nch by auto
  next
    fix i k assume e: "earlier (jobs q) i k" "holds_turn (if k = j then p1 else phase (jobs q ! k))"
    then have "i \<noteq> j \<or> k = j" using D(8) [of j k] ph assms(3) by (cases "k = j") (auto simp: in_phase_def)
    then show "(if i = j then p1 else phase (jobs q ! i)) = Finished"
      using e turn D(8) [of i k] by (cases "k = j") (auto simp: earlier_def)
  qed (use D in blast)+
qed


lemma turn_ready:
  assumes inv: "chain_inv q" and "j < length (jobs q)" and "promise_resolved (previous (jobs q ! j)) q" and e: "earlier (jobs q) i j"
  shows "chained (jobs q ! i) \<and> phase (jobs q ! i) = Finished"
proof -
  note D = chain_invD [OF inv]
  have "chained (jobs q ! i)"
  proof (cases "previous (jobs q ! j)")
    case None
    with D(3) e show ?thesis by blast
  next
    case (Some p)
    with assms(3) have "chained (jobs q ! p)" by (simp add: promise_resolved_def)
    moreover have "i = p \<or> earlier (jobs q) i p"
      using D(1) [OF e Some] D(2) [OF assms(2) Some] e by (auto simp: earlier_def)
    ultimately show ?thesis using D(5) by blast
  qed
  with D(4) [of i] e show ?thesis by (simp add: earlier_def)
qed

lemma chain_resolve:
  assumes inv: "chain_inv q" and step: "resolve_chain j q = Some q'"
  shows "chain_inv q'"
proof -
  from step have j: "j < length (jobs q)" "phase (jobs q ! j) = Finished" "promise_resolved (previous (jobs q ! j)) q"
    and q': "jobs q' = (jobs q)[j := (jobs q ! j)\<lparr>chained := True\<rparr>]" "tails q' = tails q"
    by (auto simp: resolve_chain_def in_phase_def split: if_splits)
  note D = chain_invD [OF inv] and ready = turn_ready [OF inv j(1,3)]
  have now: "chained ((jobs q)[j := (jobs q ! j)\<lparr>chained := True\<rparr>] ! i) = (i = j \<or> chained (jobs q ! i))" for i
    using j(1) by (simp add: nth_list_update)
  show ?thesis
  proof (rule chain_invI; unfold q' earlier_update update_phase_fields length_list_update now)
    show "\<And>i k. earlier (jobs q) i k \<Longrightarrow> previous (jobs q ! k) = None \<Longrightarrow> i = j \<or> chained (jobs q ! i)" using D(3) by blast
    show "\<And>i k. earlier (jobs q) i k \<Longrightarrow> k = j \<or> chained (jobs q ! k) \<Longrightarrow> i = j \<or> chained (jobs q ! i)" using D(5) ready by blast
    show "\<And>k i. Map_get (tails q) k = None \<Longrightarrow> i < length (jobs q) \<Longrightarrow> jkey (jobs q ! i) = k \<Longrightarrow> i = j \<or> chained (jobs q ! i)"
      using D(7) by blast
    show "\<And>i. i < length (jobs q) \<Longrightarrow> i = j \<or> chained (jobs q ! i) \<Longrightarrow> phase (jobs q ! i) = Finished" using D(4) j(2) by blast
  qed (use D in blast)+
qed

lemma chain_cleanup:
  assumes inv: "chain_inv q" and step: "cleanup_tail j q = Some q'"
  shows "chain_inv q'"
proof -
  let ?k = "jkey (jobs q ! j)"
  from step have j: "j < length (jobs q)" "chained (jobs q ! j)" "Map_get (tails q) ?k = Some j"
    and q': "jobs q' = jobs q" "tails q' = Map_delete (tails q) ?k"
    by (auto simp: cleanup_tail_def in_phase_def split: if_splits)
  note D = chain_invD [OF inv]
  show ?thesis
  proof (rule chain_invI; unfold q')
    fix k t assume "Map_get (Map_delete (tails q) ?k) k = Some t"
    then show "t < length (jobs q) \<and> jkey (jobs q ! t) = k \<and> (\<forall>i < length (jobs q). jkey (jobs q ! i) = k \<longrightarrow> i \<le> t)"
      using D(6) [of k t] by (simp add: map_model split: if_splits)
  next
    fix k i assume a: "Map_get (Map_delete (tails q) ?k) k = None" "i < length (jobs q)" "jkey (jobs q ! i) = k"
    show "chained (jobs q ! i)"
    proof (cases "k = ?k")
      case True
      with a D(6) [OF j(3)] have "i = j \<or> earlier (jobs q) i j" by (auto simp: earlier_def)
      with j(2) D(5) show ?thesis by blast
    next
      case False
      with a D(7) show ?thesis by (simp add: map_model)
    qed
  qed (use D in blast)+
qed

lemma chain_slots:
  assumes inv: "chain_inv q" and slots: "slots_inv q"
  shows "grant_turn j q = Some q' \<Longrightarrow> chain_inv q'" "abort_turn j q = Some q' \<Longrightarrow> chain_inv q'"
    "acquire_slot j b q = Some q' \<Longrightarrow> chain_inv q'" "abort_slot j q = Some q' \<Longrightarrow> chain_inv q'"
proof -
  have held: "phase (jobs q ! i) = Finished" if "in_phase p j q" "holds_turn p" "earlier (jobs q) i j" for i p
    using chain_invD(8) [OF inv that(3)] that by (simp add: in_phase_def)
  show "chain_inv q'" if "grant_turn j q = Some q'"
  proof (rule chain_move [OF inv])
    show "in_phase WaitTurn j q" using that by (auto simp: grant_turn_def split: if_splits)
    show "phase (jobs q ! i) = Finished" if "earlier (jobs q) i j" for i
      using \<open>grant_turn j q = Some q'\<close> turn_ready [OF inv _ _ that] by (auto simp: grant_turn_def in_phase_def split: if_splits)
  qed (use that in \<open>auto simp: grant_turn_def split: if_splits\<close>)
  show "chain_inv q'" if "abort_turn j q = Some q'"
    by (rule chain_move [OF inv, where ?p0.0 = WaitTurn and ?p1.0 = Finished])
      (use that in \<open>auto simp: abort_turn_def holds_turn_def split: if_splits\<close>)
  show "chain_inv q'" if "acquire_slot j b q = Some q'"
  proof -
    from that obtain p1 where "in_phase WantSlot j q" "jobs q' = (jobs q)[j := (jobs q ! j)\<lparr>phase := p1\<rparr>]" "tails q' = tails q"
      by (auto simp: acquire_slot_def split: if_splits)
    with held show ?thesis by (intro chain_move [OF inv, where ?p0.0 = WantSlot]) (auto simp: holds_turn_def)
  qed
  show "chain_inv q'" if "abort_slot j q = Some q'"
  proof -
    from that obtain p0 where "in_phase p0 j q" "p0 \<noteq> Finished" "jobs q' = (jobs q)[j := (jobs q ! j)\<lparr>phase := Finished\<rparr>]" "tails q' = tails q"
      by (auto simp: abort_slot_def split: if_splits)
    then show ?thesis by (intro chain_move [OF inv]) (auto simp: holds_turn_def)
  qed
qed

lemma chain_finish:
  assumes inv: "chain_inv q" and slots: "slots_inv q" and step: "finish j q = Some q'"
  shows "chain_inv q'"
proof -
  from step have ph: "in_phase Running j q" and q': "q' = release_slot (set_phase j Finished q)"
    by (auto simp: finish_def split: if_splits)
  have inv1: "chain_inv (set_phase j Finished q)"
    by (rule chain_move [OF inv ph]) (simp_all add: holds_turn_def)
  show ?thesis
  proof (cases "slotWaiters q")
    case Nil
    with inv1 show ?thesis by (simp add: q' release_slot_def chain_inv_def)
  next
    case (Cons w ws)
    then have w: "in_phase InSlotQueue w q" "w \<noteq> j"
      using slots_invD(6) [OF slots, of w] not_waiting [OF slots ph] by auto
    then have ph1: "in_phase InSlotQueue w (set_phase j Finished q)" by (simp add: in_phase_def)
    show ?thesis
    proof (rule chain_move [OF inv1 ph1])
      show "jobs q' = (jobs (set_phase j Finished q))[w := (jobs (set_phase j Finished q) ! w)\<lparr>phase := WantSlot\<rparr>]"
        "tails q' = tails (set_phase j Finished q)" by (simp_all add: q' release_slot_def Cons)
      show "phase (jobs (set_phase j Finished q) ! i) = Finished" if "earlier (jobs (set_phase j Finished q)) i w" for i
        by (rule chain_invD(8) [OF inv1 that]) (use ph1 in \<open>simp add: in_phase_def holds_turn_def\<close>)
    qed simp
  qed
qed

lemma chain_step: "chain_inv q \<Longrightarrow> slots_inv q \<Longrightarrow> queue_step q q' \<Longrightarrow> chain_inv q'"
  by (erule queue_stepE) (blast intro: chain_enqueue chain_slots chain_finish chain_resolve chain_cleanup)+

section \<open>The order in which tasks start\<close>

lemma started_move:
  assumes inv: "started_inv q" and ph: "in_phase p0 j q" and "p0 \<noteq> Finished" and "p0 = Running \<Longrightarrow> p1 = Finished"
    and q': "jobs q' = (jobs q)[j := (jobs q ! j)\<lparr>phase := p1\<rparr>]" "started q' = started q"
  shows "started_inv q'"
proof -
  have now: "phase ((jobs q)[j := (jobs q ! j)\<lparr>phase := p1\<rparr>] ! i) = (if i = j then p1 else phase (jobs q ! i))" for i
    using ph by (simp add: in_phase_def nth_list_update)
  have "p1 = Finished" if "j \<in> set (started q)"
    using inv that ph assms(3,4) by (auto simp: started_inv_def in_phase_def)
  moreover have "i \<noteq> j" if "k \<in> set (started q)" "earlier (jobs q) i k" for i k
    using inv that ph assms(3) by (auto simp: started_inv_def in_phase_def)
  ultimately show ?thesis using inv unfolding started_inv_def q' earlier_update update_phase_fields now by auto
qed

lemma started_acquire:
  assumes inv: "started_inv q" and chain: "chain_inv q" and step: "acquire_slot j b q = Some q'"
  shows "started_inv q'"
proof (cases "active q < maxConcurrency q \<and> b")
  case True
  with step have ph: "in_phase WantSlot j q" and jobs: "jobs q' = jobs (set_phase j Running q)" and st: "started q' = started q @ [j]"
    by (auto simp: acquire_slot_def split: if_splits)
  have moved: "started_inv (set_phase j Running q)"
    by (rule started_move [OF inv ph]) simp_all
  have done_before: "phase (jobs q ! i) = Finished \<and> i \<noteq> j" if "earlier (jobs q) i j" for i
    using chain_invD(8) [OF chain that] ph that by (auto simp: in_phase_def holds_turn_def earlier_def)
  have "i < j" if "i \<in> set (started q)" "jkey (jobs q ! i) = jkey (jobs q ! j)" for i
  proof (rule ccontr)
    assume "\<not> i < j"
    with that inv ph have "earlier (jobs q) j i"
      by (cases "i = j") (auto simp: started_inv_def in_phase_def earlier_def)
    with that(1) inv ph show False by (auto simp: started_inv_def in_phase_def)
  qed
  then have ord: "\<forall>k. sorted_wrt (<) (filter (\<lambda>i. jkey (jobs q' ! i) = k) (started q'))"
    using moved unfolding started_inv_def st jobs by (auto simp: sorted_wrt_append)
  have "j < length (jobs q)" using ph by (simp add: in_phase_def)
  then have "\<forall>k \<in> set (started q'). k < length (jobs q') \<and> (phase (jobs q' ! k) = Running \<or> phase (jobs q' ! k) = Finished)"
    "\<forall>k \<in> set (started q'). \<forall>i. earlier (jobs q') i k \<longrightarrow> phase (jobs q' ! i) = Finished"
    using moved unfolding started_inv_def st jobs by (auto dest: done_before)
  with ord show ?thesis unfolding started_inv_def by blast
next
  case False
  with step obtain p1 where "in_phase WantSlot j q" "jobs q' = (jobs q)[j := (jobs q ! j)\<lparr>phase := p1\<rparr>]" "started q' = started q"
    by (auto simp: acquire_slot_def split: if_splits)
  then show ?thesis by (intro started_move [OF inv, where ?p0.0 = WantSlot]) auto
qed

lemma started_finish:
  assumes inv: "started_inv q" and slots: "slots_inv q" and step: "finish j q = Some q'"
  shows "started_inv q'"
proof -
  from step have ph: "in_phase Running j q" and q': "q' = release_slot (set_phase j Finished q)"
    by (auto simp: finish_def split: if_splits)
  have inv1: "started_inv (set_phase j Finished q)" by (rule started_move [OF inv ph]) simp_all
  show ?thesis
  proof (cases "slotWaiters q")
    case Nil
    with inv1 show ?thesis by (simp add: q' release_slot_def started_inv_def)
  next
    case (Cons w ws)
    then have "in_phase InSlotQueue w q" "w \<noteq> j"
      using slots_invD(6) [OF slots, of w] not_waiting [OF slots ph] by auto
    then have "in_phase InSlotQueue w (set_phase j Finished q)" by (simp add: in_phase_def)
    from started_move [OF inv1 this, of WantSlot q'] show ?thesis by (simp add: q' release_slot_def Cons)
  qed
qed

lemma started_other:
  assumes inv: "started_inv q"
  shows "started_inv (enqueue key q)" "grant_turn j q = Some q' \<Longrightarrow> started_inv q'" "abort_turn j q = Some q' \<Longrightarrow> started_inv q'"
    "abort_slot j q = Some q' \<Longrightarrow> started_inv q'" "resolve_chain j q = Some q' \<Longrightarrow> started_inv q'" "cleanup_tail j q = Some q' \<Longrightarrow> started_inv q'"
proof -
  define x where "x = \<lparr>jkey = key, phase = WaitTurn, previous = Map_get (tails q) key, chained = False\<rparr>"
  have "filter (\<lambda>j. jkey ((jobs q @ [x]) ! j) = k) (started q) = filter (\<lambda>j. jkey (jobs q ! j) = k) (started q)" for k
    by (rule filter_cong) (use inv in \<open>auto simp: started_inv_def nth_append\<close>)
  with inv have "started_inv (q\<lparr>jobs := jobs q @ [x]\<rparr>)"
    by (auto simp: started_inv_def earlier_snoc nth_append) (auto simp: earlier_def)
  then show "started_inv (enqueue key q)" by (simp add: started_inv_def enqueue_def Let_def x_def)
  show "started_inv q'" if "grant_turn j q = Some q'"
    by (rule started_move [OF inv, where ?p0.0 = WaitTurn]) (use that in \<open>auto simp: grant_turn_def split: if_splits\<close>)
  show "started_inv q'" if "abort_turn j q = Some q'"
    by (rule started_move [OF inv, where ?p0.0 = WaitTurn and ?p1.0 = Finished]) (use that in \<open>auto simp: abort_turn_def split: if_splits\<close>)
  show "started_inv q'" if "abort_slot j q = Some q'"
  proof -
    from that obtain p0 where "in_phase p0 j q" "p0 \<noteq> Finished" "jobs q' = (jobs q)[j := (jobs q ! j)\<lparr>phase := Finished\<rparr>]" "started q' = started q"
      by (auto simp: abort_slot_def split: if_splits)
    then show ?thesis by (intro started_move [OF inv]) auto
  qed
  show "resolve_chain j q = Some q' \<Longrightarrow> started_inv q'" "cleanup_tail j q = Some q' \<Longrightarrow> started_inv q'"
    using inv by (auto simp: resolve_chain_def cleanup_tail_def started_inv_def split: if_splits)
qed

definition queue_inv :: "nat \<Rightarrow> BrowserOperationQueue \<Rightarrow> bool" where
  "queue_inv n q = (maxConcurrency q = n \<and> slots_inv q \<and> chain_inv q \<and> started_inv q)"

lemma step_keeps_max: "queue_step q q' \<Longrightarrow> maxConcurrency q' = maxConcurrency q"
  by (erule queue_stepE)
    (auto simp: enqueue_def grant_turn_def abort_turn_def acquire_slot_def abort_slot_def finish_def release_slot_def
      resolve_chain_def cleanup_tail_def Let_def split: if_splits list.splits)

lemma started_step: "started_inv q \<Longrightarrow> chain_inv q \<Longrightarrow> slots_inv q \<Longrightarrow> queue_step q q' \<Longrightarrow> started_inv q'"
  by (erule queue_stepE) (blast intro: started_other started_acquire started_finish)+

interpretation queue: transition_system queue_step "new_queue n" "queue_inv n" for n
proof
  show "queue_inv n (new_queue n)"
    by (auto simp: queue_inv_def new_queue_def slots_inv_def chain_inv_def started_inv_def count_phase_def in_phase_def earlier_def)
  show "queue_inv n q \<Longrightarrow> queue_step q q' \<Longrightarrow> queue_inv n q'" for q q'
    by (auto simp: queue_inv_def step_keeps_max intro: slots_step chain_step started_step)
qed

section \<open>Properties\<close>

text \<open>Three operations, two of them of one tab, on one slot: the first runs, the third waits for the slot.\<close>

definition sample_queue :: BrowserOperationQueue where
  "sample_queue =
    (let q0 = enqueue ''u'' (enqueue ''t'' (enqueue ''t'' (new_queue 1)));
         q1 = the (acquire_slot 0 True (the (grant_turn 0 q0)))
     in the (acquire_slot 2 True (the (grant_turn 2 q1))))"

lemma reachable_enqueue: "queue_step\<^sup>*\<^sup>* q0 q \<Longrightarrow> queue_step\<^sup>*\<^sup>* q0 (enqueue key q)"
  by (erule rtranclp.rtrancl_into_rtrancl) (rule queue_step.intros)

lemma sample_queue_reachable: "queue_step\<^sup>*\<^sup>* (new_queue 1) sample_queue"
proof -
  define q0 where "q0 = enqueue ''u'' (enqueue ''t'' (enqueue ''t'' (new_queue 1)))"
  define q1 where "q1 = the (grant_turn 0 q0)"
  define q2 where "q2 = the (acquire_slot 0 True q1)"
  define q3 where "q3 = the (grant_turn 2 q2)"
  have "grant_turn 0 q0 = Some q1" "acquire_slot 0 True q1 = Some q2" "grant_turn 2 q2 = Some q3"
    "acquire_slot 2 True q3 = Some sample_queue"
    unfolding sample_queue_def q3_def q2_def q1_def q0_def Let_def by code_simp+
  then have "queue_step q0 q1" "queue_step q1 q2" "queue_step q2 q3" "queue_step q3 sample_queue"
    by (simp_all only: queue_step.intros)
  moreover have "queue_step\<^sup>*\<^sup>* (new_queue 1) q0"
    unfolding q0_def by (rule reachable_enqueue reachable_enqueue rtranclp.rtrancl_refl)+
  ultimately show ?thesis by (auto elim!: rtranclp.rtrancl_into_rtrancl)
qed

text \<open>
  C12. Turns. In every reachable state at most one operation of a key is past its wait for the turn and not
  finished, all earlier operations of its key are finished, and the tasks of one key have started in
  the order of their calls, none twice.
\<close>

theorem queue_serialises_keys:
  assumes "queue_step\<^sup>*\<^sup>* (new_queue n) q"
  shows "(\<forall>i j. i < j \<and> j < length (jobs q) \<and> jkey (jobs q ! i) = jkey (jobs q ! j) \<and>
        phase (jobs q ! j) \<in> {WantSlot, InSlotQueue, Running} \<longrightarrow> phase (jobs q ! i) = Finished) \<and>
    (\<forall>k. sorted_wrt (<) (filter (\<lambda>j. jkey (jobs q ! j) = k) (started q)))"
proof -
  have inv: "chain_inv q" "started_inv q" using queue.reachable_inv [OF assms] by (auto simp: queue_inv_def)
  from chain_invD(8) [OF inv(1)] inv(2) show ?thesis by (auto simp: earlier_def holds_turn_def started_inv_def)
qed

theorem queue_serialises_keys_witness:
  "phase (jobs sample_queue ! 0) = Running \<and> phase (jobs sample_queue ! 1) = WaitTurn \<and>
   sorted_wrt (<) (filter (\<lambda>j. jkey (jobs sample_queue ! j) = ''t'') (started sample_queue))"
proof -
  have "phase (jobs sample_queue ! 0) = Running \<and> phase (jobs sample_queue ! 1) = WaitTurn" by code_simp
  with queue_serialises_keys [OF sample_queue_reachable] show ?thesis by blast
qed

text \<open>
  C18. Slots. In every reachable state the number of operations that hold a slot is the counter and at most the
  maximum, \<open>queued\<close> is the number of operations that still wait, and no wake-up is lost: while an operation waits
  for a slot, every slot that is free is claimed by an operation that is about to take it.
\<close>

theorem queue_bounded_and_live:
  assumes "queue_step\<^sup>*\<^sup>* (new_queue n) q"
  shows "active q = length (filter (\<lambda>j. phase j = Running) (jobs q)) \<and> active q \<le> n \<and>
    queued q = length (filter (\<lambda>j. phase j = WaitTurn \<or> phase j = WantSlot \<or> phase j = InSlotQueue) (jobs q)) \<and>
    (\<forall>j < length (jobs q). phase (jobs q ! j) = InSlotQueue \<longrightarrow>
       n \<le> active q + length (filter (\<lambda>j. phase j = WantSlot) (jobs q)))"
proof -
  have inv: "slots_inv q" "maxConcurrency q = n" using queue.reachable_inv [OF assms] by (auto simp: queue_inv_def)
  have split: "length (filter (\<lambda>j. phase j = WaitTurn \<or> phase j = WantSlot \<or> phase j = InSlotQueue) js) =
      length (filter (\<lambda>j. phase j = WaitTurn) js) + length (filter (\<lambda>j. phase j = WantSlot) js) +
      length (filter (\<lambda>j. phase j = InSlotQueue) js)" for js :: "job list"
    by (induction js) auto
  have "set (slotWaiters q) = {j. in_phase InSlotQueue j q}" using inv(1) unfolding slots_inv_def by blast
  then have "slotWaiters q \<noteq> []" if "j < length (jobs q)" "phase (jobs q ! j) = InSlotQueue" for j
    using that unfolding in_phase_def by force
  with inv(2) have "\<forall>j < length (jobs q). phase (jobs q ! j) = InSlotQueue \<longrightarrow> n \<le> active q + count_phase WantSlot q"
    using slots_invD(5) [OF inv(1)] by blast
  moreover have "active q = count_phase Running q" "active q \<le> n"
    "queued q = count_phase WaitTurn q + count_phase WantSlot q + count_phase InSlotQueue q"
    using inv unfolding slots_inv_def by blast+
  ultimately show ?thesis unfolding split count_phase_def by blast
qed

theorem queue_bounded_and_live_witness:
  "phase (jobs sample_queue ! 2) = InSlotQueue \<and>
   1 \<le> active sample_queue + length (filter (\<lambda>j. phase j = WantSlot) (jobs sample_queue))"
proof -
  have "phase (jobs sample_queue ! 2) = InSlotQueue" "2 < length (jobs sample_queue)" by code_simp+
  with queue_bounded_and_live [OF sample_queue_reachable] show ?thesis by blast
qed

end
