(* ===== verification/LiveFrame.thy ===== *)
theory LiveFrame
  imports Prelude "HOL-Library.Word"
begin

text \<open>
  Live frames of a browser tab, \<open>services/browser-worker/services/browser-live-frame-mailbox.ts\<close>: the dimensions of
  a JPEG image, read from its bytes, and the mailbox that keeps the latest frame. \<open>decode\<close> stands for the
  base64 decoding of \<open>Buffer.from\<close>. A number that is not an integer is \<open>None\<close>.
\<close>

section \<open>JPEG dimensions\<close>

type_synonym byte = "8 word"

text \<open>\<open>bytes[i]\<close> is undefined past the end; \<open>readUInt16BE\<close> throws there.\<close>

definition byte_at :: "byte list \<Rightarrow> nat \<Rightarrow> byte option" where
  "byte_at bs i = (if i < length bs then Some (bs ! i) else None)"

definition readUInt16BE :: "byte list \<Rightarrow> nat \<Rightarrow> nat result" where
  "readUInt16BE bs i =
    (case (byte_at bs i, byte_at bs (i + 1)) of
       (Some hi, Some lo) \<Rightarrow> Inr (unat hi * 256 + unat lo)
     | _ \<Rightarrow> Inl RangeError)"

definition is_between :: "byte \<Rightarrow> byte \<Rightarrow> byte option \<Rightarrow> bool" where
  "is_between lo hi m = (case m of None \<Rightarrow> False | Some b \<Rightarrow> lo \<le> b \<and> b \<le> hi)"

definition sof_markers :: "byte list" where
  "sof_markers = [0xc0, 0xc1, 0xc2, 0xc3, 0xc5, 0xc6, 0xc7, 0xc9, 0xca, 0xcb, 0xcd, 0xce, 0xcf]"

text \<open>\<open>while (bytes[cursor] === 0xff) cursor += 1\<close>\<close>

function skip_fill :: "byte list \<Rightarrow> nat \<Rightarrow> nat" where
  "skip_fill bs cursor = (if byte_at bs cursor = Some 0xff then skip_fill bs (cursor + 1) else cursor)"
  by pat_completeness auto
termination
  by (relation "measure (\<lambda>(bs, cursor). length bs - cursor)") (auto simp: byte_at_def split: if_splits)

declare skip_fill.simps [simp del]

lemma skip_fill_ge: "cursor \<le> skip_fill bs cursor"
proof (induction bs cursor rule: skip_fill.induct)
  case (1 bs cursor)
  then show ?case by (subst skip_fill.simps) auto
qed

definition sof_dimensions :: "byte list \<Rightarrow> nat \<Rightarrow> (nat \<times> nat) option result" where
  "sof_dimensions bs cursor =
    (case (readUInt16BE bs (cursor + 3), readUInt16BE bs (cursor + 5)) of
       (Inr height, Inr width) \<Rightarrow>
         Inr (if 0 < width \<and> width \<le> 4096 \<and> 0 < height \<and> height \<le> 4096 then Some (width, height) else None)
     | (Inl e, _) \<Rightarrow> Inl e
     | (_, Inl e) \<Rightarrow> Inl e)"

function scan_segments :: "byte list \<Rightarrow> nat \<Rightarrow> (nat \<times> nat) option result" where
  "scan_segments bs cursor =
    (if cursor + 3 < length bs then
       if byte_at bs cursor \<noteq> Some 0xff then Inr None
       else let c = skip_fill bs (cursor + 1); marker = byte_at bs c; c = c + 1
            in if marker = Some 0xd9 \<or> marker = Some 0xda then Inr None
               else if marker = Some 1 \<or> is_between 0xd0 0xd7 marker then scan_segments bs c
               else if c + 1 \<ge> length bs then Inr None
               else case readUInt16BE bs c of
                      Inl e \<Rightarrow> Inl e
                    | Inr len \<Rightarrow>
                        if len < 2 \<or> c + len > length bs then Inr None
                        else if marker \<in> Some ` set sof_markers
                        then (if len < 7 then Inr None else sof_dimensions bs c)
                        else scan_segments bs (c + len)
     else Inr None)"
  by pat_completeness auto
termination
proof (relation "measure (\<lambda>(bs, cursor). length bs - cursor)", goal_cases)
  case (2 bs cursor)
  then show ?case using skip_fill_ge [of "cursor + 1" bs] by (simp; linarith)
next
  case (3 bs cursor)
  then show ?case using skip_fill_ge [of "cursor + 1" bs] by (simp; linarith)
qed simp

declare scan_segments.simps [simp del]

definition jpegFrameDimensions :: "(string \<Rightarrow> byte list) \<Rightarrow> string \<Rightarrow> (nat \<times> nat) option result" where
  "jpegFrameDimensions decode base64 =
    (let bytes = decode base64
     in if length bytes < 12 \<or> byte_at bytes 0 \<noteq> Some 0xff \<or> byte_at bytes 1 \<noteq> Some 0xd8 then Inr None
        else scan_segments bytes 2)"

section \<open>The scan is safe and finds the frame header\<close>

lemma readUInt16BE_in_range: "i + 1 < length bs \<Longrightarrow> readUInt16BE bs i = Inr (unat (bs ! i) * 256 + unat (bs ! (i + 1)))"
  by (simp add: readUInt16BE_def byte_at_def)

lemma scan_segments_total:
  "\<exists>r. scan_segments bs cursor = Inr r \<and> (\<forall>w h. r = Some (w, h) \<longrightarrow> 0 < w \<and> w \<le> 4096 \<and> 0 < h \<and> h \<le> 4096)"
proof (induction bs cursor rule: scan_segments.induct)
  case (1 bs cursor)
  then show ?case
    by (subst scan_segments.simps) (auto simp: Let_def readUInt16BE_in_range sof_dimensions_def)
qed

text \<open>A JPEG segment: the marker, the length of the payload and its own two bytes, and the payload.\<close>

definition be16 :: "nat \<Rightarrow> byte list" where
  "be16 n = [word_of_nat (n div 256), word_of_nat (n mod 256)]"

definition segment :: "byte \<Rightarrow> byte list \<Rightarrow> byte list" where
  "segment m payload = 0xff # m # be16 (length payload + 2) @ payload"

definition skippable :: "byte \<Rightarrow> bool" where
  "skippable m = (m \<noteq> 0xff \<and> m \<noteq> 0xd9 \<and> m \<noteq> 0xda \<and> m \<noteq> 1 \<and> \<not> is_between 0xd0 0xd7 (Some m) \<and> m \<notin> set sof_markers)"

lemma byte_at_append: "byte_at (pre @ xs) (length pre + i) = byte_at xs i"
  by (simp add: byte_at_def)

lemma readUInt16BE_append: "readUInt16BE (pre @ xs) (length pre + i) = readUInt16BE xs i"
  using byte_at_append [of pre xs i] byte_at_append [of pre xs "i + 1"] by (simp add: readUInt16BE_def add.assoc)

lemma readUInt16BE_be16: "n < 65536 \<Longrightarrow> readUInt16BE (be16 n @ xs) 0 = Inr n"
  by (simp add: readUInt16BE_def byte_at_def be16_def unat_of_nat)

lemma length_segment [simp]: "length (segment m payload) = length payload + 4"
  by (simp add: segment_def be16_def)

text \<open>One turn of the loop at the start of a segment.\<close>

lemma scan_at_segment:
  assumes "length payload + 2 < 65536" and "m \<noteq> 0xff" "m \<noteq> 0xd9" "m \<noteq> 0xda" "m \<noteq> 1" "\<not> is_between 0xd0 0xd7 (Some m)"
  shows "scan_segments (pre @ segment m payload @ rest) (length pre) =
    (if m \<in> set sof_markers
     then if length payload < 5 then Inr None else sof_dimensions (pre @ segment m payload @ rest) (length pre + 2)
     else scan_segments (pre @ segment m payload @ rest) (length pre + length (segment m payload)))"
proof -
  let ?bs = "pre @ segment m payload @ rest"
  have b0: "byte_at ?bs (length pre) = Some 0xff" "byte_at ?bs (length pre + 1) = Some m"
    using byte_at_append [of pre "segment m payload @ rest" 0] byte_at_append [of pre "segment m payload @ rest" 1]
    by (simp_all add: segment_def byte_at_def)
  then have skip: "skip_fill ?bs (length pre + 1) = length pre + 1"
    using assms(2) by (subst skip_fill.simps) simp
  have "readUInt16BE (segment m payload @ rest) 2 = readUInt16BE (be16 (length payload + 2) @ payload @ rest) 0"
    by (simp add: segment_def readUInt16BE_def byte_at_def)
  then have len: "readUInt16BE ?bs (length pre + 2) = Inr (length payload + 2)"
    unfolding readUInt16BE_append using readUInt16BE_be16 [OF assms(1)] by simp
  have "length pre + 3 < length ?bs" "\<not> length ?bs \<le> length pre + 2 + 1" "length pre + 2 + (length payload + 2) \<le> length ?bs" by simp_all
  then show ?thesis
    unfolding scan_segments.simps [of ?bs "length pre"] Let_def skip
    using assms(2-) b0 len by (simp add: image_iff numeral_eq_Suc)
qed

lemma scan_skips:
  assumes "list_all (\<lambda>(m, payload). skippable m \<and> length payload + 2 < 65536) segs"
  shows "scan_segments (pre @ concat (map (\<lambda>(m, payload). segment m payload) segs) @ rest) (length pre) =
    scan_segments (pre @ concat (map (\<lambda>(m, payload). segment m payload) segs) @ rest)
      (length pre + length (concat (map (\<lambda>(m, payload). segment m payload) segs)))"
  using assms
proof (induction segs arbitrary: pre)
  case (Cons a segs)
  obtain m payload where a: "a = (m, payload)" by fastforce
  let ?t = "concat (map (\<lambda>(m, payload). segment m payload) segs)"
  have "scan_segments (pre @ segment m payload @ ?t @ rest) (length pre) =
      scan_segments (pre @ segment m payload @ ?t @ rest) (length pre + length (segment m payload))"
    using Cons.prems by (subst scan_at_segment) (simp_all add: a skippable_def)
  moreover have "scan_segments ((pre @ segment m payload) @ ?t @ rest) (length (pre @ segment m payload)) =
      scan_segments ((pre @ segment m payload) @ ?t @ rest) (length (pre @ segment m payload) + length ?t)"
    by (rule Cons.IH) (use Cons.prems in simp)
  ultimately show ?case by (simp add: a add.assoc)
qed simp

lemma sof_dimensions_segment:
  assumes "0 < w" "w \<le> 4096" "0 < h" "h \<le> 4096"
  shows "sof_dimensions (pre @ segment m (p # be16 h @ be16 w @ tail) @ rest) (length pre + 2) = Inr (Some (w, h))"
proof -
  let ?s = "segment m (p # be16 h @ be16 w @ tail) @ rest"
  have "readUInt16BE ?s 5 = readUInt16BE (be16 h @ be16 w @ tail @ rest) 0"
    "readUInt16BE ?s 7 = readUInt16BE (be16 w @ tail @ rest) 0"
    by (simp_all add: segment_def readUInt16BE_def byte_at_def be16_def nth_Cons')
  then have "readUInt16BE (pre @ ?s) (length pre + 5) = Inr h" "readUInt16BE (pre @ ?s) (length pre + 7) = Inr w"
    unfolding readUInt16BE_append using assms by (simp_all add: readUInt16BE_be16)
  moreover have "length pre + 2 + 3 = length pre + 5" "length pre + 2 + 5 = length pre + 7" by simp_all
  ultimately show ?thesis unfolding sof_dimensions_def using assms by (simp add: add.commute)
qed

section \<open>The mailbox\<close>

record BrowserLiveFrame =
  seq :: nat
  frame_data :: string
  frame_width :: "int option"
  frame_height :: "int option"
  capturedAt :: millis

record BrowserLiveFrameMailbox =
  latest :: "BrowserLiveFrame option"
  mb_sequence :: nat
  closed :: bool
  readers :: "nat list"
  maxFrameBytes :: nat
  minFrameIntervalMs :: int

definition new_mailbox :: "nat \<Rightarrow> int \<Rightarrow> nat \<Rightarrow> BrowserLiveFrameMailbox" where
  "new_mailbox maxBytes interval initialSequence =
    \<lparr>latest = None, mb_sequence = initialSequence, closed = False, readers = [], maxFrameBytes = maxBytes,
     minFrameIntervalMs = interval\<rparr>"

definition publishable :: "nat \<Rightarrow> string \<Rightarrow> int option \<Rightarrow> int option \<Rightarrow> bool" where
  "publishable maxBytes d w h =
    (length (Buffer_from d) \<le> maxBytes \<and> (case (w, h) of (Some w, Some h) \<Rightarrow> 0 < w \<and> 0 < h | _ \<Rightarrow> False))"

text \<open>
  A waiting reader is a number; an operation returns the answers it gives, each to one reader. The answers
  of \<open>publish\<close> and \<open>close\<close> go to all waiting readers, in order.
\<close>

type_synonym answers = "(nat \<times> BrowserLiveFrame option) list"

definition publish :: "string \<Rightarrow> int option \<Rightarrow> int option \<Rightarrow> millis \<Rightarrow> BrowserLiveFrameMailbox \<Rightarrow> answers \<times> BrowserLiveFrameMailbox" where
  "publish d w h at mb =
    (if closed mb \<or> \<not> publishable (maxFrameBytes mb) d w h then ([], mb)
     else if (case latest mb of None \<Rightarrow> False | Some f \<Rightarrow> at - capturedAt f < minFrameIntervalMs mb) then ([], mb)
     else let s = mb_sequence mb + 1;
              f = \<lparr>seq = s, frame_data = d, frame_width = w, frame_height = h, capturedAt = at\<rparr>
          in (map (\<lambda>r. (r, Some f)) (readers mb), mb\<lparr>latest := Some f, mb_sequence := s, readers := []\<rparr>))"

definition read_frame :: "nat \<Rightarrow> int \<Rightarrow> BrowserLiveFrameMailbox \<Rightarrow> answers \<times> BrowserLiveFrameMailbox" where
  "read_frame r afterSeq mb =
    (if closed mb then ([(r, None)], mb)
     else case latest mb of
            Some f \<Rightarrow> if int (seq f) > afterSeq then ([(r, Some f)], mb) else ([], mb\<lparr>readers := Set_add (readers mb) r\<rparr>)
          | None \<Rightarrow> ([], mb\<lparr>readers := Set_add (readers mb) r\<rparr>))"

text \<open>The timer of a waiting reader; it is cleared when the reader is answered.\<close>

definition read_timeout :: "nat \<Rightarrow> BrowserLiveFrameMailbox \<Rightarrow> answers \<times> BrowserLiveFrameMailbox" where
  "read_timeout r mb =
    (if r \<in> set (readers mb) then ([(r, None)], mb\<lparr>readers := removeAll r (readers mb)\<rparr>) else ([], mb))"

definition close_mailbox :: "BrowserLiveFrameMailbox \<Rightarrow> answers \<times> BrowserLiveFrameMailbox" where
  "close_mailbox mb = (map (\<lambda>r. (r, None)) (readers mb), mb\<lparr>closed := True, readers := []\<rparr>)"

datatype mail_call =
    Publish string "int option" "int option" millis
  | ReadFrame nat int
  | ReadTimeout nat
  | CloseMailbox

fun mail_exec :: "mail_call \<Rightarrow> BrowserLiveFrameMailbox \<Rightarrow> answers \<times> BrowserLiveFrameMailbox" where
  "mail_exec (Publish d w h at) = publish d w h at"
| "mail_exec (ReadFrame r s) = read_frame r s"
| "mail_exec (ReadTimeout r) = read_timeout r"
| "mail_exec CloseMailbox = close_mailbox"

fun mail_run :: "mail_call list \<Rightarrow> BrowserLiveFrameMailbox \<Rightarrow> answers \<times> BrowserLiveFrameMailbox" where
  "mail_run [] mb = ([], mb)"
| "mail_run (c # cs) mb = (let (as, mb) = mail_exec c mb; (bs, mb) = mail_run cs mb in (as @ bs, mb))"

definition answers_of :: "nat \<Rightarrow> answers \<Rightarrow> nat" where
  "answers_of r as = length (filter (\<lambda>a. fst a = r) as)"

definition reads_of :: "nat \<Rightarrow> mail_call list \<Rightarrow> nat" where
  "reads_of r cs = length (filter (\<lambda>c. case c of ReadFrame q _ \<Rightarrow> q = r | _ \<Rightarrow> False) cs)"

definition frames_of :: "answers \<Rightarrow> BrowserLiveFrame list" where
  "frames_of as = List.map_filter snd as"

definition frame_ok :: "nat \<Rightarrow> BrowserLiveFrame \<Rightarrow> bool" where
  "frame_ok maxBytes f = publishable maxBytes (frame_data f) (frame_width f) (frame_height f)"

definition mailbox_inv :: "BrowserLiveFrameMailbox \<Rightarrow> bool" where
  "mailbox_inv mb = (distinct (readers mb) \<and> (closed mb \<longrightarrow> readers mb = []) \<and>
     (case latest mb of None \<Rightarrow> True | Some f \<Rightarrow> seq f = mb_sequence mb \<and> frame_ok (maxFrameBytes mb) f))"

lemmas mail_defs = publish_def read_frame_def read_timeout_def close_mailbox_def Let_def

lemma mail_exec_inv:
  "mailbox_inv mb \<Longrightarrow> mail_exec c mb = (as, mb') \<Longrightarrow> mailbox_inv mb' \<and> maxFrameBytes mb' = maxFrameBytes mb \<and> mb_sequence mb \<le> mb_sequence mb'"
  by (cases c) (auto simp: mail_defs mailbox_inv_def frame_ok_def Set_add_def distinct_removeAll split: if_splits option.splits)

lemma answers_of_all: "distinct rs \<Longrightarrow> answers_of r (map (\<lambda>q. (q, x)) rs) = (if r \<in> set rs then 1 else 0)"
  by (induction rs) (auto simp: answers_of_def)

lemma answers_of_simps [simp]:
  "answers_of r [] = 0" "answers_of r [(q, x)] = of_bool (q = r)" "answers_of r (as @ bs) = answers_of r as + answers_of r bs"
  by (simp_all add: answers_of_def)

lemma reads_of_simps [simp]:
  "reads_of r [] = 0" "reads_of r [ReadFrame q s] = of_bool (q = r)"
  by (simp_all add: reads_of_def)

lemma reads_of_Cons: "reads_of r (c # cs) = reads_of r [c] + reads_of r cs"
  by (simp add: reads_of_def)

lemma mail_exec_answers:
  assumes "mailbox_inv mb" and "mail_exec c mb = (as, mb')"
  shows "answers_of r as + of_bool (r \<in> set (readers mb')) \<le> reads_of r [c] + of_bool (r \<in> set (readers mb))"
  using assms
  by (cases c) (auto simp: mail_defs mailbox_inv_def answers_of_all reads_of_def split: if_splits option.splits)

lemma frames_of_simps [simp]:
  "frames_of [] = []" "frames_of ((r, None) # as) = frames_of as" "frames_of ((r, Some f) # as) = f # frames_of as"
  "frames_of (as @ bs) = frames_of as @ frames_of bs"
  by (simp_all add: frames_of_def map_filter_simps) (simp add: map_filter_def)

lemma frames_of_all [simp]: "frames_of (map (\<lambda>r. (r, None)) rs) = []" "frames_of (map (\<lambda>r. (r, Some f)) rs) = map (\<lambda>_. f) rs"
  by (induction rs) auto

text \<open>The frames one call hands out are all one frame: the latest, as it is after the call.\<close>

lemma mail_exec_frames:
  assumes "mailbox_inv mb" and "mail_exec c mb = (as, mb')"
  shows "\<forall>f \<in> set (frames_of as). seq f = mb_sequence mb' \<and> frame_ok (maxFrameBytes mb) f"
  using assms
  by (cases c) (auto simp: mail_defs mailbox_inv_def frame_ok_def split: if_splits option.splits)

lemma sorted_map_const: "\<forall>x \<in> set xs. f x = c \<Longrightarrow> sorted (map f xs)"
  by (induction xs) auto

lemma publishable_iff: "publishable n d w h \<longleftrightarrow>
    length (Buffer_from d) \<le> n \<and> (\<exists>w' h'. w = Some w' \<and> 0 < w' \<and> h = Some h' \<and> 0 < h')"
  by (auto simp: publishable_def split: option.splits)

lemma mail_run_facts:
  assumes "mailbox_inv mb" and "mail_run cs mb = (as, mb')"
  shows "answers_of r as + of_bool (r \<in> set (readers mb')) \<le> reads_of r cs + of_bool (r \<in> set (readers mb)) \<and>
    sorted (map seq (frames_of as)) \<and> (\<forall>f \<in> set (frames_of as). mb_sequence mb \<le> seq f \<and> frame_ok (maxFrameBytes mb) f)"
  using assms
proof (induction cs arbitrary: mb as)
  case (Cons c cs)
  obtain as1 mb1 where c: "mail_exec c mb = (as1, mb1)" by fastforce
  obtain as2 where r: "mail_run cs mb1 = (as2, mb')" "as = as1 @ as2"
    using Cons.prems(2) c by (auto split: prod.splits)
  note inv = mail_exec_inv [OF Cons.prems(1) c]
  from Cons.IH [OF _ r(1)] inv
  have IH: "answers_of r as2 + of_bool (r \<in> set (readers mb')) \<le> reads_of r cs + of_bool (r \<in> set (readers mb1))"
    "sorted (map seq (frames_of as2))" "\<forall>f \<in> set (frames_of as2). mb_sequence mb1 \<le> seq f \<and> frame_ok (maxFrameBytes mb) f"
    by auto
  have now: "\<forall>f \<in> set (frames_of as1). seq f = mb_sequence mb1 \<and> frame_ok (maxFrameBytes mb) f"
    by (rule mail_exec_frames [OF Cons.prems(1) c])
  then have "sorted (map seq (frames_of as1))" by (intro sorted_map_const [where c = "mb_sequence mb1"]) simp
  moreover have "answers_of r as + of_bool (r \<in> set (readers mb')) \<le> reads_of r (c # cs) + of_bool (r \<in> set (readers mb))"
    using IH(1) mail_exec_answers [OF Cons.prems(1) c, of r] by (simp add: r(2) reads_of_Cons [of r c cs])
  ultimately show ?case using IH(2,3) now inv by (auto simp: r(2) sorted_append)
qed simp

section \<open>Properties\<close>

text \<open>
  Reading the dimensions of a frame never reads outside the bytes and always ends, whatever the bytes;
  dimensions that are returned lie between 1 and 4096.
\<close>

theorem jpeg_dimensions_total:
  "\<exists>r. jpegFrameDimensions decode base64 = Inr r \<and>
    (case r of None \<Rightarrow> True | Some (w, h) \<Rightarrow> w \<in> {1..4096} \<and> h \<in> {1..4096})"
proof -
  obtain r where "scan_segments (decode base64) 2 = Inr r"
    and "\<forall>w h. r = Some (w, h) \<longrightarrow> 0 < w \<and> w \<le> 4096 \<and> 0 < h \<and> h \<le> 4096"
    using scan_segments_total by blast
  then show ?thesis by (auto simp: jpegFrameDimensions_def Let_def split: option.splits)
qed

text \<open>
  The dimensions written in the frame header of a JPEG image are the dimensions read: after the start
  marker, any number of other segments, and a frame segment of at least 12 bytes in all, whatever follows.
\<close>

theorem jpeg_dimensions_round_trip:
  assumes "decode base64 = [0xff, 0xd8] @ concat (map (\<lambda>(m, payload). segment m payload) segs) @
      segment m (p # be16 h @ be16 w @ tail) @ rest"
    and "list_all (\<lambda>(m, payload). skippable m \<and> length payload + 2 < 65536) segs"
    and "m \<in> set sof_markers" and "length tail + 7 < 65536" and "segs \<noteq> [] \<or> tail \<noteq> [] \<or> rest \<noteq> []"
    and "0 < w" "w \<le> 4096" "0 < h" "h \<le> 4096"
  shows "jpegFrameDimensions decode base64 = Inr (Some (w, h))"
proof -
  let ?f = "segment m (p # be16 h @ be16 w @ tail) @ rest"
  let ?t = "concat (map (\<lambda>(m, payload). segment m payload) segs)"
  let ?pre = "[0xff, 0xd8 :: byte] @ ?t"
  have m: "m \<noteq> 0xff" "m \<noteq> 0xd9" "m \<noteq> 0xda" "m \<noteq> 1" "\<not> is_between 0xd0 0xd7 (Some m)"
    using assms(3) by (auto simp: sof_markers_def is_between_def)
  have "scan_segments ([0xff, 0xd8] @ ?t @ ?f) (length [0xff, 0xd8 :: byte]) = scan_segments (?pre @ ?f) (length ?pre)"
    using scan_skips [OF assms(2), of "[0xff, 0xd8]" ?f] by simp
  also have "\<dots> = sof_dimensions (?pre @ ?f) (length ?pre + 2)"
    using assms(3,4) m by (subst scan_at_segment) (simp_all add: be16_def)
  also have "\<dots> = Inr (Some (w, h))" using assms(6-) by (rule sof_dimensions_segment)
  finally have "scan_segments ([0xff, 0xd8] @ ?t @ ?f) 2 = Inr (Some (w, h))" by (simp add: numeral_2_eq_2)
  moreover have "12 \<le> length ([0xff, 0xd8] @ ?t @ ?f)"
    using assms(5) by (cases segs; cases tail; cases rest) (auto simp: be16_def split: prod.splits)
  ultimately show ?thesis unfolding jpegFrameDimensions_def assms(1) by (simp add: Let_def byte_at_def)
qed

text \<open>
  Whatever is published, read, timed out and closed, a reader is answered at most once for each read;
  the frames handed out never go back in sequence; and each of them fits the size limit and has
  positive integer dimensions.
\<close>

theorem mailbox_answers:
  assumes "mail_run calls (new_mailbox maxBytes interval s0) = (answers, mb)"
  shows "answers_of r answers \<le> reads_of r calls \<and> sorted (map seq (frames_of answers)) \<and>
    (\<forall>f \<in> set (frames_of answers). s0 \<le> seq f \<and> length (Buffer_from (frame_data f)) \<le> maxBytes \<and>
       (\<exists>w h. frame_width f = Some w \<and> 0 < w \<and> frame_height f = Some h \<and> 0 < h))"
proof -
  have "mailbox_inv (new_mailbox maxBytes interval s0)" by (simp add: mailbox_inv_def new_mailbox_def)
  from mail_run_facts [OF this assms, of r] show ?thesis
    by (auto simp: new_mailbox_def frame_ok_def publishable_iff)
qed

end
