(* ===== verification/CommandAnalysis.thy ===== *)
theory CommandAnalysis
  imports Confirmation
begin

text \<open>
  The lexical analysis of shell commands, \<open>services/workspace-agent/src/shell/command-analysis.ts\<close>: whether a
  command is a plain program with arguments, needs the shell, or is malformed. The loops over the
  characters are recursions over the rest of the command.
\<close>

section \<open>Results\<close>

datatype diagnostic_code = SyntaxError | UnsupportedConstruct | ShellUnavailable

datatype ShellCommandExecution = Argv string "string list" | Script string

record ShellCommandAnalysis =
  an_shell :: shell_name
  an_valid :: bool
  execution :: "ShellCommandExecution option"
  diagnostics :: "(diagnostic_code \<times> string) list"
  usesShellFeatures :: bool

datatype quote = SingleQuote | DoubleQuote

datatype grammar = CmdGrammar | PosixGrammar

abbreviation apostrophe :: char where "apostrophe \<equiv> CHR 0x27"
abbreviation quotation :: char where "quotation \<equiv> CHR 0x22"
abbreviation backslash :: char where "backslash \<equiv> CHR 0x5C"
abbreviation backtick :: char where "backtick \<equiv> CHR 0x60"

definition POWERSHELL_UNSUPPORTED_UNQUOTED :: string where
  "POWERSHELL_UNSUPPORTED_UNQUOTED = ''|&;<>'' @ backtick # ''$*?{}()[]#,@%'' @ [CHR 0x0D, CHR 0x0A]"

definition cmd_metacharacters :: string where
  "cmd_metacharacters = ''&|<>^()%!'' @ [CHR 0x0D, CHR 0x0A]"

definition posix_metacharacters :: string where
  "posix_metacharacters = ''|&;<>'' @ backtick # ''$*?{}()[]'' @ [CHR 0x0D, CHR 0x0A]"

definition invalidAnalysis :: "shell_name \<Rightarrow> string \<Rightarrow> ShellCommandAnalysis" where
  "invalidAnalysis sh message =
    \<lparr>an_shell = sh, an_valid = False, execution = None, diagnostics = [(SyntaxError, message)], usesShellFeatures = True\<rparr>"

definition argvAnalysis :: "shell_name \<Rightarrow> string \<Rightarrow> string list \<Rightarrow> ShellCommandAnalysis" where
  "argvAnalysis sh exe argv =
    \<lparr>an_shell = sh, an_valid = True, execution = Some (Argv exe argv), diagnostics = [], usesShellFeatures = False\<rparr>"

text \<open>\<open>flush\<close>: a token that has started is complete.\<close>

definition flush :: "string list \<Rightarrow> string \<Rightarrow> bool \<Rightarrow> string list" where
  "flush tokens token tokenStarted = (if tokenStarted then tokens @ [token] else tokens)"

definition isTokenBoundary :: "string \<Rightarrow> bool" where
  "isTokenBoundary rest = (case rest of [] \<Rightarrow> True | c # _ \<Rightarrow> is_space c)"

section \<open>PowerShell\<close>

text \<open>The loop; \<open>None\<close> is its \<open>return undefined\<close>.\<close>

fun powershell_scan :: "quote option \<Rightarrow> string list \<Rightarrow> string \<Rightarrow> bool \<Rightarrow> string \<Rightarrow>
    (quote option \<times> string list \<times> string \<times> bool) option" where
  "powershell_scan q tokens token st [] = Some (q, tokens, token, st)"
| "powershell_scan (Some SingleQuote) tokens token st (c # cs) =
    (if c = apostrophe then
       if cs \<noteq> [] \<and> hd cs = apostrophe then powershell_scan (Some SingleQuote) tokens (token @ [apostrophe]) st (tl cs)
       else if \<not> isTokenBoundary cs then None
       else powershell_scan None tokens token st cs
     else powershell_scan (Some SingleQuote) tokens (token @ [c]) st cs)"
| "powershell_scan (Some DoubleQuote) tokens token st (c # cs) =
    (if c = quotation then
       if \<not> isTokenBoundary cs then None else powershell_scan None tokens token st cs
     else if c = CHR ''$'' \<or> c = backtick then None
     else powershell_scan (Some DoubleQuote) tokens (token @ [c]) st cs)"
| "powershell_scan None tokens token st (c # cs) =
    (if is_space c then powershell_scan None (flush tokens token st) (if st then [] else token) False cs
     else if c = apostrophe \<or> c = quotation then
       if st then None
       else powershell_scan (Some (if c = apostrophe then SingleQuote else DoubleQuote)) tokens token True cs
     else if c \<in> set POWERSHELL_UNSUPPORTED_UNQUOTED then None
     else powershell_scan None tokens (token @ [c]) True cs)"

definition analyzeSimplePowerShellCommand :: "shell_name \<Rightarrow> string \<Rightarrow> ShellCommandAnalysis option" where
  "analyzeSimplePowerShellCommand sh line =
    (let value = trim line
     in if value = [] then Some (invalidAnalysis sh ''Command must not be empty.'')
        else case powershell_scan None [] [] False value of
               None \<Rightarrow> None
             | Some (q, tokens, token, st) \<Rightarrow>
                 if q \<noteq> None then Some (invalidAnalysis sh ''PowerShell command contains an unterminated quote.'')
                 else (case flush tokens token st of
                         [] \<Rightarrow> Some (invalidAnalysis sh ''Command executable is missing.'')
                       | exe # argv \<Rightarrow>
                           if exe = [] then Some (invalidAnalysis sh ''Command executable is missing.'')
                           else if exe = ''.'' then None
                           else Some (argvAnalysis sh exe argv)))"

section \<open>The cmd and POSIX grammars\<close>

fun containsUnquoted_from :: "string \<Rightarrow> grammar \<Rightarrow> quote option \<Rightarrow> bool \<Rightarrow> string \<Rightarrow> bool" where
  "containsUnquoted_from pat g q escaped [] = False"
| "containsUnquoted_from pat g q escaped (c # cs) =
    (if escaped then containsUnquoted_from pat g q False cs
     else if g = PosixGrammar \<and> c = backslash \<and> q \<noteq> Some SingleQuote then containsUnquoted_from pat g q True cs
     else if c = apostrophe \<and> q \<noteq> Some DoubleQuote \<and> g = PosixGrammar
     then containsUnquoted_from pat g (if q = Some SingleQuote then None else Some SingleQuote) False cs
     else if c = quotation \<and> q \<noteq> Some SingleQuote
     then containsUnquoted_from pat g (if q = Some DoubleQuote then None else Some DoubleQuote) False cs
     else if q = None \<and> c \<in> set pat then True
     else containsUnquoted_from pat g q False cs)"

definition containsUnquoted :: "string \<Rightarrow> string \<Rightarrow> grammar \<Rightarrow> bool" where
  "containsUnquoted value pat g = containsUnquoted_from pat g None False value"

fun tokenize_from :: "grammar \<Rightarrow> quote option \<Rightarrow> bool \<Rightarrow> string list \<Rightarrow> string \<Rightarrow> bool \<Rightarrow> string \<Rightarrow> string list option" where
  "tokenize_from g q escaped tokens token st [] =
    (if escaped \<or> q \<noteq> None then None else Some (flush tokens token st))"
| "tokenize_from g q escaped tokens token st (c # cs) =
    (if escaped then tokenize_from g q False tokens (token @ [c]) True cs
     else if g = PosixGrammar \<and> c = backslash \<and> q \<noteq> Some SingleQuote then tokenize_from g q True tokens token True cs
     else if g = PosixGrammar \<and> c = apostrophe \<and> q \<noteq> Some DoubleQuote
     then tokenize_from g (if q = Some SingleQuote then None else Some SingleQuote) False tokens token True cs
     else if c = quotation \<and> q \<noteq> Some SingleQuote
     then tokenize_from g (if q = Some DoubleQuote then None else Some DoubleQuote) False tokens token True cs
     else if q = None \<and> is_space c then tokenize_from g q False (flush tokens token st) (if st then [] else token) False cs
     else tokenize_from g q False tokens (token @ [c]) True cs)"

text \<open>\<open>None\<close> is the invalid result, an unterminated escape or quote.\<close>

definition tokenize :: "string \<Rightarrow> grammar \<Rightarrow> string list option" where
  "tokenize value g = tokenize_from g None False [] [] False value"

definition analyzeLexicalCommand :: "shell_name \<Rightarrow> string \<Rightarrow> string \<Rightarrow> grammar \<Rightarrow> ShellCommandAnalysis" where
  "analyzeLexicalCommand sh line metacharacters g =
    (let trimmed = trim line
     in if trimmed = [] then invalidAnalysis sh ''Command must not be empty.''
        else case tokenize trimmed g of
               None \<Rightarrow> invalidAnalysis sh ''Command contains an unterminated escape or quote.''
             | Some [] \<Rightarrow> invalidAnalysis sh ''Command syntax is invalid.''
             | Some (exe # argv) \<Rightarrow>
                 if containsUnquoted trimmed metacharacters g
                 then \<lparr>an_shell = sh, an_valid = True, execution = Some (Script line), diagnostics = [], usesShellFeatures = True\<rparr>
                 else if exe = [] then invalidAnalysis sh ''Command executable is missing.''
                 else argvAnalysis sh exe argv)"

definition analyzeSimpleShellCommand :: "shell_name \<Rightarrow> string \<Rightarrow> ShellCommandAnalysis option" where
  "analyzeSimpleShellCommand sh line =
    (if sh = Powershell \<or> sh = Pwsh then analyzeSimplePowerShellCommand sh line
     else if sh = Cmd then Some (analyzeLexicalCommand sh line cmd_metacharacters CmdGrammar)
     else Some (analyzeLexicalCommand sh line posix_metacharacters PosixGrammar))"

section \<open>Quoting\<close>

text \<open>The usual quoting of an argument, in PowerShell and in a POSIX shell, and the command line of an argument vector.\<close>

definition powershell_quote :: "string \<Rightarrow> string" where
  "powershell_quote s = apostrophe # concat (map (\<lambda>c. if c = apostrophe then [apostrophe, apostrophe] else [c]) s) @ [apostrophe]"

definition posix_quote :: "string \<Rightarrow> string" where
  "posix_quote s =
    apostrophe # concat (map (\<lambda>c. if c = apostrophe then [apostrophe, backslash, apostrophe, apostrophe] else [c]) s) @ [apostrophe]"

fun command_line :: "(string \<Rightarrow> string) \<Rightarrow> string list \<Rightarrow> string" where
  "command_line quote [] = []"
| "command_line quote [a] = quote a"
| "command_line quote (a # b # as) = quote a @ CHR '' '' # command_line quote (b # as)"

lemma is_space_simps [simp]:
  "is_space (CHR '' '')" "\<not> is_space apostrophe" "\<not> is_space quotation" "\<not> is_space backslash"
  by (simp_all add: is_space_def)

lemma trim_quoted: "\<not> is_space a \<Longrightarrow> \<not> is_space b \<Longrightarrow> trim (a # xs @ [b]) = a # xs @ [b]"
  by (simp add: trim_def)

lemma powershell_scan_quoted:
  "isTokenBoundary rest \<Longrightarrow>
    powershell_scan (Some SingleQuote) tokens token st
      (concat (map (\<lambda>c. if c = apostrophe then [apostrophe, apostrophe] else [c]) s) @ apostrophe # rest) =
    powershell_scan None tokens (token @ s) st rest"
  by (induction s arbitrary: token) (auto simp: isTokenBoundary_def split: list.splits)


lemma powershell_scan_line:
  "powershell_scan None tokens [] False (command_line powershell_quote (a # as)) =
    Some (None, tokens @ butlast (a # as), last (a # as), True)"
proof (induction as arbitrary: a tokens)
  case Nil
  show ?case
    using powershell_scan_quoted [of "[]" tokens "[]" True a] by (simp add: powershell_quote_def isTokenBoundary_def)
next
  case (Cons b as)
  let ?rest = "CHR '' '' # command_line powershell_quote (b # as)"
  have "powershell_scan None tokens [] False (command_line powershell_quote (a # b # as)) = powershell_scan None tokens a True ?rest"
    using powershell_scan_quoted [of ?rest tokens "[]" True a] by (simp add: powershell_quote_def isTokenBoundary_def)
  also have "\<dots> = powershell_scan None (tokens @ [a]) [] False (command_line powershell_quote (b # as))"
    by (simp add: flush_def)
  finally show ?case using Cons.IH [of "tokens @ [a]" b] by simp
qed

lemma tokenize_quoted:
  "tokenize_from PosixGrammar (Some SingleQuote) False tokens token True
     (concat (map (\<lambda>c. if c = apostrophe then [apostrophe, backslash, apostrophe, apostrophe] else [c]) s) @ apostrophe # rest) =
   tokenize_from PosixGrammar None False tokens (token @ s) True rest"
  by (induction s arbitrary: token) auto

lemma tokenize_line:
  "tokenize_from PosixGrammar None False tokens [] False (command_line posix_quote (a # as)) = Some (tokens @ a # as)"
proof (induction as arbitrary: a tokens)
  case Nil
  show ?case using tokenize_quoted [of tokens "[]" a "[]"] by (simp add: posix_quote_def flush_def)
next
  case (Cons b as)
  let ?rest = "CHR '' '' # command_line posix_quote (b # as)"
  have "tokenize_from PosixGrammar None False tokens [] False (command_line posix_quote (a # b # as)) =
      tokenize_from PosixGrammar None False tokens a True ?rest"
    using tokenize_quoted [of tokens "[]" a ?rest] by (simp add: posix_quote_def)
  also have "\<dots> = tokenize_from PosixGrammar None False (tokens @ [a]) [] False (command_line posix_quote (b # as))"
    by (simp add: flush_def)
  finally show ?case using Cons.IH [of "tokens @ [a]" b] by simp
qed

lemma containsUnquoted_quoted:
  "containsUnquoted_from pat PosixGrammar (Some SingleQuote) False
     (concat (map (\<lambda>c. if c = apostrophe then [apostrophe, backslash, apostrophe, apostrophe] else [c]) s) @ apostrophe # rest) =
   containsUnquoted_from pat PosixGrammar None False rest"
  by (induction s) auto

lemma containsUnquoted_line:
  assumes "CHR '' '' \<notin> set pat"
  shows "\<not> containsUnquoted_from pat PosixGrammar None False (command_line posix_quote as)"
proof (induction posix_quote as rule: command_line.induct)
  case (2 a)
  then show ?case using containsUnquoted_quoted [of pat a "[]"] by (simp add: posix_quote_def)
next
  case (3 a b as)
  then show ?case
    using assms containsUnquoted_quoted [of pat a "CHR '' '' # command_line posix_quote (b # as)"] by (simp add: posix_quote_def)
qed simp

lemma command_line_ends:
  assumes "\<And>a. \<exists>xs. quote a = apostrophe # xs @ [apostrophe]"
  shows "\<exists>xs. command_line quote (a # as) = apostrophe # xs @ [apostrophe]"
proof (induction as arbitrary: a)
  case (Cons b as)
  obtain xs where "quote a = apostrophe # xs @ [apostrophe]" using assms by blast
  with Cons [of b] show ?case by auto
qed (simp add: assms)

lemma trim_line:
  "trim (command_line powershell_quote (a # as)) = command_line powershell_quote (a # as)"
  "trim (command_line posix_quote (a # as)) = command_line posix_quote (a # as)"
  using command_line_ends [of powershell_quote a as] command_line_ends [of posix_quote a as]
  by (auto simp: powershell_quote_def posix_quote_def trim_quoted)

lemma line_nonempty: "command_line posix_quote (a # as) \<noteq> []" "command_line powershell_quote (a # as) \<noteq> []"
  by (cases as; simp add: posix_quote_def powershell_quote_def)+

section \<open>Without quotes\<close>

text \<open>The words of a line: the runs of characters that are not white space.\<close>

fun words_from :: "string \<Rightarrow> string \<Rightarrow> string list" where
  "words_from w [] = (if w = [] then [] else [w])"
| "words_from w (c # cs) =
    (if is_space c then (if w = [] then words_from [] cs else w # words_from [] cs) else words_from (w @ [c]) cs)"

definition plain_char :: "grammar \<Rightarrow> char \<Rightarrow> bool" where
  "plain_char g c = (c \<noteq> quotation \<and> (g = PosixGrammar \<longrightarrow> c \<noteq> apostrophe \<and> c \<noteq> backslash))"

lemma tokenize_plain:
  "list_all (plain_char g) cs \<Longrightarrow>
    tokenize_from g None False tokens token (token \<noteq> []) cs = Some (tokens @ words_from token cs)"
proof (induction cs arbitrary: tokens token)
  case (Cons c cs)
  then show ?case
    using Cons.IH [of "tokens @ [token]" "[]"] Cons.IH [of tokens "[]"] Cons.IH [of tokens "token @ [c]"]
    by (cases "token = []"; cases g) (auto simp: plain_char_def flush_def)
qed (simp add: flush_def)

lemma containsUnquoted_plain:
  "list_all (plain_char g) cs \<Longrightarrow> containsUnquoted_from pat g None False cs \<longleftrightarrow> (\<exists>c \<in> set cs. c \<in> set pat)"
  by (induction cs) (auto simp: plain_char_def)

lemma words_from_nonempty: "a \<in> set (words_from w cs) \<Longrightarrow> a \<noteq> []"
  by (induction w cs rule: words_from.induct) (auto split: if_splits)

lemma words_from_Nil: "words_from w cs = [] \<longleftrightarrow> w = [] \<and> list_all is_space cs"
  by (induction w cs rule: words_from.induct) (auto split: if_splits)

lemma trim_not_blank: "trim s \<noteq> [] \<Longrightarrow> \<not> list_all is_space (trim s)"
proof -
  let ?t = "dropWhile is_space (rev (dropWhile is_space s))"
  assume "trim s \<noteq> []"
  then have ne: "?t \<noteq> []" by (simp add: trim_def)
  then have "\<not> is_space (hd ?t)" "hd ?t \<in> set (trim s)" by (rule hd_dropWhile, simp add: trim_def)
  then show ?thesis by (auto simp: list_all_iff)
qed

section \<open>Properties\<close>

text \<open>
  C19. Quoting an argument vector and analysing the line gives the vector back: for every program name that is
  not empty and every list of arguments, with any characters in them, in PowerShell (where a program named by a
  single dot is left to the shell) and in the POSIX shells. So a quoted argument can neither add an argument nor reach the shell.
\<close>

theorem quoted_command_round_trip:
  assumes "exe \<noteq> []"
  shows "(sh \<in> {Powershell, Pwsh} \<and> exe \<noteq> ''.'' \<longrightarrow>
      analyzeSimpleShellCommand sh (command_line powershell_quote (exe # argv)) = Some (argvAnalysis sh exe argv)) \<and>
    (sh \<in> {Sh, Bash, Wsl, GitBash} \<longrightarrow>
      analyzeSimpleShellCommand sh (command_line posix_quote (exe # argv)) = Some (argvAnalysis sh exe argv))"
proof (intro conjI impI)
  assume "sh \<in> {Powershell, Pwsh} \<and> exe \<noteq> ''.''"
  moreover have "butlast (exe # argv) @ [last (exe # argv)] = exe # argv" by (rule append_butlast_last_id) simp
  ultimately show "analyzeSimpleShellCommand sh (command_line powershell_quote (exe # argv)) = Some (argvAnalysis sh exe argv)"
    using assms powershell_scan_line [of "[]" exe argv]
    by (simp add: analyzeSimpleShellCommand_def analyzeSimplePowerShellCommand_def Let_def trim_line line_nonempty flush_def
        del: butlast.simps last.simps)
next
  have "CHR '' '' \<notin> set posix_metacharacters" by (simp add: posix_metacharacters_def)
  from containsUnquoted_line [OF this] assms tokenize_line [of "[]" exe argv]
  show "sh \<in> {Sh, Bash, Wsl, GitBash} \<Longrightarrow>
      analyzeSimpleShellCommand sh (command_line posix_quote (exe # argv)) = Some (argvAnalysis sh exe argv)"
    by (auto simp: analyzeSimpleShellCommand_def analyzeLexicalCommand_def Let_def trim_line line_nonempty tokenize_def
        containsUnquoted_def)
qed

theorem quoted_command_round_trip_witness:
  "analyzeSimpleShellCommand Bash (command_line posix_quote [''rm'', ''a; b'']) = Some (argvAnalysis Bash ''rm'' [''a; b''])"
  using quoted_command_round_trip [of "''rm''" Bash "[''a; b'']"] by simp

text \<open>
  A line without quotes or escapes. In cmd and in the POSIX shells such a line, when it is not blank, runs
  without the shell exactly when it has no metacharacter of the shell, and then as its words; otherwise it is handed to
  the shell unchanged.
\<close>

theorem plain_command_analysis:
  assumes "sh \<notin> {Powershell, Pwsh}"
    and "list_all (plain_char (if sh = Cmd then CmdGrammar else PosixGrammar)) line" and "trim line \<noteq> []"
  shows "analyzeSimpleShellCommand sh line = Some
    (if \<exists>c \<in> set (trim line). c \<in> set (if sh = Cmd then cmd_metacharacters else posix_metacharacters)
     then \<lparr>an_shell = sh, an_valid = True, execution = Some (Script line), diagnostics = [], usesShellFeatures = True\<rparr>
     else argvAnalysis sh (hd (words_from [] (trim line))) (tl (words_from [] (trim line))))"
proof -
  let ?g = "if sh = Cmd then CmdGrammar else PosixGrammar"
  have sub: "set (trim line) \<subseteq> set line"
    unfolding trim_def by (auto dest!: set_dropWhileD)
  with assms(2) have plain: "list_all (plain_char ?g) (trim line)" by (auto simp: list_all_iff)
  have "\<not> list_all is_space (trim line)"
    using assms(3) by (rule trim_not_blank)
  then obtain exe argv where w: "words_from [] (trim line) = exe # argv"
    by (cases "words_from [] (trim line)") (auto simp: words_from_Nil)
  then have "exe \<noteq> []" using words_from_nonempty [of exe "[]" "trim line"] by simp
  with w tokenize_plain [OF plain, of "[]" "[]"] containsUnquoted_plain [OF plain] assms(1,3) show ?thesis
    by (auto simp: analyzeSimpleShellCommand_def analyzeLexicalCommand_def Let_def tokenize_def containsUnquoted_def)
qed

end
