(* ===== verification/Json.thy ===== *)
theory Json
  imports Prelude
begin

text \<open>
  The text \<open>JSON.stringify\<close> gives for the values the campaign ledger hashes: strings, arrays and
  objects whose properties are in insertion order. Different values have different texts, so a
  digest of the text binds the value.
\<close>

datatype json = JString string | JArray "json list" | JObject "(string \<times> json) list"

section \<open>JSON.stringify\<close>

definition hex_digit :: "nat \<Rightarrow> char" where
  "hex_digit n = ''0123456789abcdef'' ! n"

definition json_escape :: "char \<Rightarrow> string" where
  "json_escape c =
    (if c = CHR 0x22 \<or> c = CHR 0x5C then [CHR 0x5C, c]
     else if c = CHR 0x08 then [CHR 0x5C, CHR ''b'']
     else if c = CHR 0x09 then [CHR 0x5C, CHR ''t'']
     else if c = CHR 0x0A then [CHR 0x5C, CHR ''n'']
     else if c = CHR 0x0C then [CHR 0x5C, CHR ''f'']
     else if c = CHR 0x0D then [CHR 0x5C, CHR ''r'']
     else if of_char c < (32 :: nat)
     then CHR 0x5C # ''u00'' @ [hex_digit (of_char c div 16), hex_digit (of_char c mod 16)]
     else [c])"

definition json_string :: "string \<Rightarrow> string" where
  "json_string s = CHR 0x22 # concat (map json_escape s) @ [CHR 0x22]"

definition commas :: "string list \<Rightarrow> string" where
  "commas ts = concat (map (\<lambda>t. t @ [CHR '','']) (butlast ts)) @ (if ts = [] then [] else last ts)"

primrec stringify :: "json \<Rightarrow> string" where
  "stringify (JString s) = json_string s"
| "stringify (JArray vs) = CHR ''['' # commas (map stringify vs) @ '']''"
| "stringify (JObject ps) = CHR ''{'' #
    commas (map (\<lambda>p. json_string (fst p) @ CHR '':'' # snd p) (map (map_prod id stringify) ps)) @ ''}''"

section \<open>Texts determine values\<close>

text \<open>Reading an escaped character back.\<close>

definition hex_value :: "char \<Rightarrow> nat" where
  "hex_value h = length (takeWhile ((\<noteq>) h) ''0123456789abcdef'')"

definition unescape :: "string \<Rightarrow> char \<times> string" where
  "unescape cs =
    (if hd cs \<noteq> CHR 0x5C then (hd cs, tl cs)
     else if cs ! 1 = CHR ''b'' then (CHR 0x08, drop 2 cs)
     else if cs ! 1 = CHR ''t'' then (CHR 0x09, drop 2 cs)
     else if cs ! 1 = CHR ''n'' then (CHR 0x0A, drop 2 cs)
     else if cs ! 1 = CHR ''f'' then (CHR 0x0C, drop 2 cs)
     else if cs ! 1 = CHR ''r'' then (CHR 0x0D, drop 2 cs)
     else if cs ! 1 = CHR ''u'' then (char_of (16 * hex_value (cs ! 4) + hex_value (cs ! 5)), drop 6 cs)
     else (cs ! 1, drop 2 cs))"

lemma hex_value_digit: "n < 16 \<Longrightarrow> hex_value (hex_digit n) = n"
proof -
  have "list_all (\<lambda>n. hex_value (hex_digit n) = n) [0..<16]" by code_simp
  then show "n < 16 \<Longrightarrow> hex_value (hex_digit n) = n" by (simp add: list_all_iff)
qed

lemma unescape_escape: "unescape (json_escape c @ xs) = (c, xs)"
proof -
  consider "c \<in> {CHR 0x22, CHR 0x5C, CHR 0x08, CHR 0x09, CHR 0x0A, CHR 0x0C, CHR 0x0D}"
    | "c \<notin> {CHR 0x22, CHR 0x5C, CHR 0x08, CHR 0x09, CHR 0x0A, CHR 0x0C, CHR 0x0D}" "of_char c < (32 :: nat)"
    | "c \<notin> {CHR 0x22, CHR 0x5C, CHR 0x08, CHR 0x09, CHR 0x0A, CHR 0x0C, CHR 0x0D}" "\<not> of_char c < (32 :: nat)"
    by blast
  then show ?thesis
  proof cases
    case 1
    then show ?thesis by (elim insertE) (simp_all add: json_escape_def unescape_def)
  next
    case 2
    then have "of_char c div 16 < (16 :: nat)" "of_char c mod 16 < (16 :: nat)" by simp_all
    then have "16 * hex_value (hex_digit (of_char c div 16)) + hex_value (hex_digit (of_char c mod 16)) = of_char c"
      by (simp add: hex_value_digit)
    with 2 show ?thesis by (simp add: json_escape_def unescape_def)
  next
    case 3
    then show ?thesis by (simp add: json_escape_def unescape_def)
  qed
qed

lemma json_escape_head:
  "json_escape c = [c] \<and> c \<noteq> CHR 0x5C \<and> c \<noteq> CHR 0x22 \<or> (\<exists>e es. json_escape c = CHR 0x5C # e # es)"
  by (simp add: json_escape_def)

lemma json_escape_inj: "json_escape c @ xs = json_escape d @ ys \<Longrightarrow> c = d \<and> xs = ys"
  by (metis unescape_escape prod.inject)

lemma json_escape_end: "json_escape c @ xs \<noteq> CHR 0x22 # ys"
  using json_escape_head [of c] by auto

lemma escapes_inj:
  "concat (map json_escape s) @ CHR 0x22 # xs = concat (map json_escape t) @ CHR 0x22 # ys \<Longrightarrow> s = t \<and> xs = ys"
proof (induction s arbitrary: t)
  case Nil
  then show ?case by (cases t) (auto simp: json_escape_end [symmetric] dest: sym)
next
  case (Cons c s)
  then obtain d t' where "t = d # t'"
    by (cases t) (auto simp: json_escape_end)
  with Cons show ?case by (auto dest!: json_escape_inj)
qed

lemma json_string_inj: "json_string s @ xs = json_string t @ ys \<Longrightarrow> s = t \<and> xs = ys"
  using escapes_inj [of s xs t ys] by (simp add: json_string_def)

text \<open>A list of texts between commas, closed by a character that starts no text and is no comma.\<close>

lemma commas_simps [simp]:
  "commas [] = []" "commas [t] = t" "commas (t # u # ts) = t @ CHR '','' # commas (u # ts)"
  by (simp_all add: commas_def)

text \<open>
  Each text is read up to where it ends: \<open>ends\<close> says what may follow, a comma and the closing character among it.
\<close>

lemma commas_inj:
  assumes "\<And>a b xs ys. a \<in> set as \<Longrightarrow> b \<in> set bs \<Longrightarrow> ends xs \<Longrightarrow> ends ys \<Longrightarrow> f a @ xs = f b @ ys \<Longrightarrow> a = b \<and> xs = ys"
    and "\<And>a. a \<in> set as \<union> set bs \<Longrightarrow> f a \<noteq> [] \<and> hd (f a) \<noteq> z"
    and "\<And>xs. ends (z # xs) \<and> ends (CHR '','' # xs)" and "z \<noteq> CHR '',''"
    and "commas (map f as) @ z # xs = commas (map f bs) @ z # ys"
  shows "as = bs \<and> xs = ys"
  using assms(1,2,5)
proof (induction as arbitrary: bs)
  case Nil
  show ?case
  proof (cases bs)
    case (Cons b bs')
    have "f b \<noteq> []" "hd (f b) \<noteq> z" using Nil.prems(2) [of b] Cons by simp_all
    then obtain c cs where "f b = c # cs" "c \<noteq> z" by (cases "f b") simp_all
    with Nil.prems(3) Cons show ?thesis by (cases bs') auto
  qed (use Nil in simp)
next
  case (Cons a as)
  have fa: "f a \<noteq> []" "hd (f a) \<noteq> z" using Cons.prems(2) [of a] by simp_all
  obtain c cs where fa': "f a = c # cs" "c \<noteq> z" using fa by (cases "f a") simp_all
  obtain b bs' where bs: "bs = b # bs'"
    using Cons.prems(3) fa' by (cases bs; cases as) auto
  define ra where "ra = (if as = [] then z # xs else CHR '','' # commas (map f as) @ z # xs)"
  define rb where "rb = (if bs' = [] then z # ys else CHR '','' # commas (map f bs') @ z # ys)"
  have "f a @ ra = f b @ rb"
    using Cons.prems(3) by (cases as; cases bs') (simp_all add: bs ra_def rb_def)
  moreover have "ends ra" "ends rb" by (simp_all add: ra_def rb_def assms(3))
  ultimately have "a = b" "ra = rb" using Cons.prems(1) [of a b ra rb] by (auto simp: bs)
  from \<open>ra = rb\<close> assms(4) have "as = [] \<longleftrightarrow> bs' = []" by (auto simp: ra_def rb_def split: if_splits)
  moreover have "as = bs' \<and> xs = ys" if "as \<noteq> []" "bs' \<noteq> []"
  proof (rule Cons.IH)
    show "commas (map f as) @ z # xs = commas (map f bs') @ z # ys" using \<open>ra = rb\<close> that by (simp add: ra_def rb_def)
  qed (use Cons.prems(1,2) in \<open>auto simp: bs\<close>)
  ultimately show ?case using \<open>a = b\<close> \<open>ra = rb\<close> by (cases "as = []") (simp_all add: bs ra_def rb_def)
qed

lemma stringify_start: "stringify v \<noteq> [] \<and> hd (stringify v) \<in> {CHR 0x22, CHR ''['', CHR ''{''}"
  by (cases v) (simp_all add: json_string_def)

text \<open>A property of an object: its name, a colon and its value.\<close>

lemma property_inj:
  assumes "\<And>xs ys. ends xs \<Longrightarrow> ends ys \<Longrightarrow> g (snd a) @ xs = g (snd b) @ ys \<Longrightarrow> snd a = snd b \<and> xs = ys"
    and "ends xs" and "ends ys"
    and "(json_string (fst a) @ CHR '':'' # g (snd a)) @ xs = (json_string (fst b) @ CHR '':'' # g (snd b)) @ ys"
  shows "a = b \<and> xs = ys"
proof -
  have "json_string (fst a) @ CHR '':'' # g (snd a) @ xs = json_string (fst b) @ CHR '':'' # g (snd b) @ ys"
    using assms(4) by simp
  then have "fst a = fst b" "g (snd a) @ xs = g (snd b) @ ys" by (auto dest: json_string_inj)
  with assms(1-3) show ?thesis by (metis prod.expand)
qed

lemma property_start: "json_string k @ xs \<noteq> [] \<and> hd (json_string k @ xs) = CHR 0x22"
  by (simp add: json_string_def)

lemma snd_in_snds [simp, intro]: "snd a \<in> Basic_BNFs.snds a"
  by (cases a) auto

lemma stringify_prefix: "stringify v @ xs = stringify w @ ys \<Longrightarrow> v = w \<and> xs = ys"
proof (induction v arbitrary: w xs ys)
  case (JString s)
  then show ?case
    by (cases w) (auto simp: json_string_def dest: escapes_inj)
next
  case (JArray vs)
  from JArray.prems obtain ws where w: "w = JArray ws" by (cases w) (auto simp: json_string_def)
  have "vs = ws \<and> xs = ys"
  proof (rule commas_inj [of vs ws "\<lambda>_. True" stringify "CHR '']''"])
    show "commas (map stringify vs) @ CHR '']'' # xs = commas (map stringify ws) @ CHR '']'' # ys"
      using JArray.prems by (simp add: w)
    show "stringify a \<noteq> [] \<and> hd (stringify a) \<noteq> CHR '']''" for a using stringify_start [of a] by auto
  qed (use JArray.IH in auto)
  then show ?case by (simp add: w)
next
  case (JObject ps)
  let ?f = "\<lambda>p. json_string (fst p) @ CHR '':'' # stringify (snd p)"
  from JObject.prems obtain qs where w: "w = JObject qs" by (cases w) (auto simp: json_string_def)
  have "ps = qs \<and> xs = ys"
  proof (rule commas_inj [of ps qs "\<lambda>_. True" ?f "CHR ''}''"])
    show "commas (map ?f ps) @ CHR ''}'' # xs = commas (map ?f qs) @ CHR ''}'' # ys"
      using JObject.prems by (simp add: w comp_def)
    show "?f a \<noteq> [] \<and> hd (?f a) \<noteq> CHR ''}''" for a using property_start by simp
    show "a = b \<and> xs = ys" if a: "a \<in> set ps" and eq: "?f a @ xs = ?f b @ ys" for a b xs ys
      by (rule property_inj [of "\<lambda>_. True" stringify, OF _ _ _ eq]) (use JObject.IH [OF a snd_in_snds] in blast)+
  qed auto
  then show ?case by (simp add: w)
qed

lemma stringify_inj [simp]: "stringify v = stringify w \<longleftrightarrow> v = w"
  using stringify_prefix [of v "[]" w "[]"] by auto

end
