(* ===== verification/CampaignPlan.thy ===== *)
theory CampaignPlan
  imports Json
begin

text \<open>
  The plan of a delegated campaign, first half of
  \<open>services/workspace-agent/src/campaign/delegated-campaign-ledger.ts\<close>: its steps, the formats of their
  fields, and \<open>normalize\<close>, which refuses a plan outside its authorisation or with a dependency cycle.
  The redaction of secrets (\<open>redactSensitiveText\<close>) and SHA-256 are parameters, fields of \<open>host\<close>.
\<close>

section \<open>Data\<close>

text \<open>What the ledger throws: its own errors with their message, a missing property, damaged text, a system error with its code.\<close>

datatype campaign_error =
    CAMPAIGN_INVALID string | CAMPAIGN_NOT_FOUND | CAMPAIGN_BINDING_MISMATCH | CAMPAIGN_OBSERVATION_MISMATCH
  | CAMPAIGN_UNVERIFIED | CAMPAIGN_OBSERVATION_INVALID | CAMPAIGN_RUN_LOCKED
  | CAMPAIGN_RESOURCE_CLAIM_INVALID | CAMPAIGN_RESOURCE_CONFLICT | CAMPAIGN_RESOURCE_INCOMPLETE | CAMPAIGN_RESOURCE_CLAIM_MISMATCH
  | CAMPAIGN_ALREADY_SUPERVISING | UndefinedProperty | SyntaxError | SystemError string

record host =
  sha256 :: "string \<Rightarrow> string"
  redactSensitiveText :: "string \<Rightarrow> string"
  path_isAbsolute :: "string \<Rightarrow> bool"
  path_join :: "string \<Rightarrow> string \<Rightarrow> string"

definition CAMPAIGN_ACTIONS :: "string list" where
  "CAMPAIGN_ACTIONS = [''inspect'', ''edit'', ''test'', ''commit'', ''push'', ''pr'', ''ci'',
    ''merge'', ''deploy'', ''release'', ''reprovision'', ''rotate'', ''revoke'']"

record CampaignStep =
  step_id :: string
  action :: string
  dependsOn :: "string list"
  targetResource :: string
  expectedState :: string
  argumentsDigest :: string

text \<open>
  A plan as a caller passes it. \<open>in_keys\<close> is the order of the properties of the object: \<open>JSON.stringify\<close>
  writes them in that order.
\<close>

record DelegatedCampaignInput =
  in_campaignId :: string
  in_workspaceId :: string
  in_objective :: string
  in_authorizedActions :: "string list"
  in_tasks :: "CampaignStep list"
  in_keys :: "string list"

section \<open>Formats\<close>

definition one_of :: "string \<Rightarrow> char \<Rightarrow> bool" where
  "one_of cs c = (c \<in> set cs)"

abbreviation hexdigits :: string where "hexdigits \<equiv> ''0123456789abcdef''"
abbreviation lowercase :: string where "lowercase \<equiv> ''abcdefghijklmnopqrstuvwxyz''"
abbreviation uppercase :: string where "uppercase \<equiv> ''ABCDEFGHIJKLMNOPQRSTUVWXYZ''"
abbreviation digits :: string where "digits \<equiv> ''0123456789''"

text \<open>A string with one character of each class, and a string of a first character and at most \<open>n\<close> others.\<close>

definition matches_classes :: "(char \<Rightarrow> bool) list \<Rightarrow> string \<Rightarrow> bool" where
  "matches_classes ps s = list_all2 (\<lambda>p c. p c) ps s"

definition matches_word :: "string \<Rightarrow> string \<Rightarrow> nat \<Rightarrow> string \<Rightarrow> bool" where
  "matches_word first others n s = (case s of [] \<Rightarrow> False | c # cs \<Rightarrow> c \<in> set first \<and> list_all (one_of others) cs \<and> length cs \<le> n)"

definition UUID_test :: "string \<Rightarrow> bool" where
  "UUID_test = matches_classes (replicate 8 (one_of hexdigits) @ [one_of ''-''] @ replicate 4 (one_of hexdigits) @ [one_of ''-'', one_of ''12345678'']
     @ replicate 3 (one_of hexdigits) @ [one_of ''-'', one_of ''89ab''] @ replicate 3 (one_of hexdigits) @ [one_of ''-''] @ replicate 12 (one_of hexdigits))"

definition TASK_ID_test :: "string \<Rightarrow> bool" where
  "TASK_ID_test = matches_word lowercase (lowercase @ digits @ ''-'') 63"

definition WORKSPACE_ID_test :: "string \<Rightarrow> bool" where
  "WORKSPACE_ID_test = matches_word (lowercase @ uppercase @ digits) (lowercase @ uppercase @ digits @ ''._-'') 127"

definition BOUND_VALUE_test :: "string \<Rightarrow> bool" where
  "BOUND_VALUE_test = matches_word (lowercase @ uppercase @ digits) (lowercase @ uppercase @ digits @ '':._/@-'') 255"

definition SHA256_test :: "string \<Rightarrow> bool" where
  "SHA256_test = matches_classes (replicate 64 (one_of hexdigits))"

text \<open>\<open>includes("..")\<close>.\<close>

fun includes_dots :: "string \<Rightarrow> bool" where
  "includes_dots (a # b # s) = (a = CHR ''.'' \<and> b = CHR ''.'' \<or> includes_dots (b # s))"
| "includes_dots _ = False"

section \<open>Checks\<close>

definition ensure :: "bool \<Rightarrow> string \<Rightarrow> campaign_error + 'a \<Rightarrow> campaign_error + 'a" where
  "ensure b message k = (if b then k else Inl (CAMPAIGN_INVALID message))"

definition and_then :: "'e + 'a \<Rightarrow> ('a \<Rightarrow> 'e + 'b) \<Rightarrow> 'e + 'b" where
  "and_then r f = (case r of Inl e \<Rightarrow> Inl e | Inr x \<Rightarrow> f x)"

fun check_tasks :: "string list \<Rightarrow> string list \<Rightarrow> 'x CampaignStep_scheme list \<Rightarrow> campaign_error + string list" where
  "check_tasks permissions ids [] = Inr ids"
| "check_tasks permissions ids (t # ts) =
    ensure (TASK_ID_test (step_id t) \<and> step_id t \<notin> set ids) ''invalid/duplicate task id''
    (ensure (action t \<in> set CAMPAIGN_ACTIONS \<and> action t \<in> set permissions) ''task outside delegated authorization''
    (ensure (BOUND_VALUE_test (targetResource t) \<and> \<not> includes_dots (targetResource t)) ''invalid target resource''
    (ensure (BOUND_VALUE_test (expectedState t) \<and> \<not> includes_dots (expectedState t)) ''invalid expected state''
    (ensure (SHA256_test (argumentsDigest t)) ''invalid typed arguments digest''
    (ensure (length (dependsOn t) \<le> 64) ''invalid dependencies''
    (check_tasks permissions (Set_add ids (step_id t)) ts))))))"

definition tasks_by_id :: "'x CampaignStep_scheme list \<Rightarrow> (string, 'x CampaignStep_scheme) jsMap" where
  "tasks_by_id ts = Map_from (map (\<lambda>t. (step_id t, t)) ts)"

fun check_dependencies :: "(string, 'x CampaignStep_scheme) jsMap \<Rightarrow> 'x CampaignStep_scheme list \<Rightarrow> campaign_error + unit" where
  "check_dependencies byId [] = Inr ()"
| "check_dependencies byId (t # ts) =
    ensure (length (Set_from (dependsOn t)) = length (dependsOn t)) ''duplicate dependency''
    (ensure (list_all (\<lambda>dep. Map_has byId dep \<and> dep \<noteq> step_id t) (dependsOn t)) ''missing/self dependency''
    (check_dependencies byId ts))"

text \<open>
  The depth-first search for a cycle. \<open>visiting\<close> is the path from the root: an identifier is added before
  its dependencies are visited and deleted after, so it is passed down; \<open>visited\<close> is carried on.
\<close>

definition unvisiting :: "(string, 'v) jsMap \<Rightarrow> string list \<Rightarrow> nat" where
  "unvisiting byId visiting = length (filter (\<lambda>k. k \<notin> set visiting) (Map_keys byId))"

lemma filter_shrinks: "i \<in> set ks \<Longrightarrow> P i \<Longrightarrow> length (filter (\<lambda>k. P k \<and> k \<noteq> i) ks) < length (filter P ks)"
proof (induction ks)
  case (Cons k ks)
  have "length (filter (\<lambda>k. P k \<and> k \<noteq> i) ks) \<le> length (filter P ks)"
    by (induction ks) auto
  with Cons show ?case by (auto simp: less_Suc_eq_le)
qed simp

lemma ensure_cong [fundef_cong]: "b = b' \<Longrightarrow> m = m' \<Longrightarrow> (b' \<Longrightarrow> k = k') \<Longrightarrow> ensure b m k = ensure b' m' k'"
  by (simp add: ensure_def)

lemma and_then_cong [fundef_cong]: "r = r' \<Longrightarrow> (\<And>x. r' = Inr x \<Longrightarrow> f x = g x) \<Longrightarrow> and_then r f = and_then r' g"
  by (simp add: and_then_def split: sum.splits)

lemma unvisiting_less:
  assumes "Map_get byId i = Some t" and "i \<notin> set visiting"
  shows "unvisiting byId (visiting @ [i]) < unvisiting byId visiting"
proof -
  have "i \<in> set (Map_keys byId)"
    using assms(1) by (force simp: Map_keys_def dest: Map_get_in_set)
  then have "length (filter (\<lambda>k. k \<notin> set visiting \<and> k \<noteq> i) (Map_keys byId)) < length (filter (\<lambda>k. k \<notin> set visiting) (Map_keys byId))"
    using assms(2) filter_shrinks by fast
  then show ?thesis by (simp add: unvisiting_def conj_commute)
qed

function (sequential) visit :: "(string, 'x CampaignStep_scheme) jsMap \<Rightarrow> string list \<Rightarrow> string list \<Rightarrow> string \<Rightarrow> campaign_error + string list"
  and visit_all :: "(string, 'x CampaignStep_scheme) jsMap \<Rightarrow> string list \<Rightarrow> string list \<Rightarrow> string list \<Rightarrow> campaign_error + string list" where
  "visit byId visiting visited i =
    (if i \<in> set visiting then Inl (CAMPAIGN_INVALID ''dependency cycle'')
     else if i \<in> set visited then Inr visited
     else case Map_get byId i of
            None \<Rightarrow> Inl UndefinedProperty
          | Some t \<Rightarrow> and_then (visit_all byId (visiting @ [i]) visited (dependsOn t)) (\<lambda>visited'. Inr (Set_add visited' i)))"
| "visit_all byId visiting visited [] = Inr visited"
| "visit_all byId visiting visited (d # ds) =
    and_then (visit byId visiting visited d) (\<lambda>visited'. visit_all byId visiting visited' ds)"
  by pat_completeness auto

termination
proof (relation "inv_image (less_than <*lex*> less_than)
    (\<lambda>x. case x of Inl (byId, visiting, _, _) \<Rightarrow> (unvisiting byId visiting, 0)
                | Inr (byId, visiting, _, ds) \<Rightarrow> (unvisiting byId visiting, Suc (length ds)))")
qed (auto simp: unvisiting_less)

section \<open>Normalisation\<close>

definition canonical_keys :: "string list" where
  "canonical_keys = [''campaignId'', ''workspaceId'', ''objective'', ''authorizedActions'', ''tasks'']"

definition strip_step :: "'x CampaignStep_scheme \<Rightarrow> CampaignStep" where
  "strip_step t = \<lparr>step_id = step_id t, action = action t, dependsOn = sort_cmp cmp_units (dependsOn t),
     targetResource = targetResource t, expectedState = expectedState t, argumentsDigest = argumentsDigest t\<rparr>"

definition normalize :: "host \<Rightarrow> DelegatedCampaignInput \<Rightarrow> campaign_error + DelegatedCampaignInput" where
  "normalize H x =
    ensure (UUID_test (in_campaignId x)) ''campaignId must be a lowercase UUID''
    (ensure (WORKSPACE_ID_test (in_workspaceId x)) ''invalid workspaceId''
    (ensure (in_objective x \<noteq> [] \<and> length (in_objective x) \<le> 4000) ''invalid objective''
    (ensure (redactSensitiveText H (in_objective x) = in_objective x) ''objective must not contain secret material''
    (ensure (in_authorizedActions x \<noteq> [] \<and> length (in_authorizedActions x) \<le> length CAMPAIGN_ACTIONS) ''invalid authorization''
    (ensure (in_tasks x \<noteq> [] \<and> length (in_tasks x) \<le> 64) ''invalid task count''
    (let permissions = Set_from (in_authorizedActions x);
         byId = tasks_by_id (in_tasks x)
     in ensure (length permissions = length (in_authorizedActions x) \<and> list_all (\<lambda>a. a \<in> set CAMPAIGN_ACTIONS) permissions) ''invalid permissions''
        (and_then (check_tasks permissions [] (in_tasks x)) (\<lambda>_.
         and_then (check_dependencies byId (in_tasks x)) (\<lambda>_.
         and_then (visit_all byId [] [] (map step_id (in_tasks x))) (\<lambda>_.
         Inr (x\<lparr>in_objective := redactSensitiveText H (in_objective x),
               in_authorizedActions := sort_cmp cmp_units permissions,
               in_tasks := map strip_step (in_tasks x)\<rparr>)))))))))))"

text \<open>The text that is hashed.\<close>

definition step_json :: "'x CampaignStep_scheme \<Rightarrow> json" where
  "step_json t = JObject [(''id'', JString (step_id t)), (''action'', JString (action t)),
     (''dependsOn'', JArray (map JString (dependsOn t))), (''targetResource'', JString (targetResource t)),
     (''expectedState'', JString (expectedState t)), (''argumentsDigest'', JString (argumentsDigest t))]"

definition input_json :: "DelegatedCampaignInput \<Rightarrow> json" where
  "input_json x = JObject (map (\<lambda>k. (k,
     if k = ''campaignId'' then JString (in_campaignId x)
     else if k = ''workspaceId'' then JString (in_workspaceId x)
     else if k = ''objective'' then JString (in_objective x)
     else if k = ''authorizedActions'' then JArray (map JString (in_authorizedActions x))
     else JArray (map step_json (in_tasks x)))) (in_keys x))"

definition plan_digest :: "host \<Rightarrow> DelegatedCampaignInput \<Rightarrow> string" where
  "plan_digest H x = sha256 H (stringify (input_json x))"

section \<open>The search for a cycle\<close>

definition deps :: "(string, 'x CampaignStep_scheme) jsMap \<Rightarrow> string \<Rightarrow> string list" where
  "deps byId i = (case Map_get byId i of None \<Rightarrow> [] | Some t \<Rightarrow> dependsOn t)"

definition edges :: "(string, 'x CampaignStep_scheme) jsMap \<Rightarrow> (string \<times> string) set" where
  "edges byId = {(i, d). d \<in> set (deps byId i)}"

text \<open>A list in which everything comes after its dependencies.\<close>

definition topological :: "(string, 'x CampaignStep_scheme) jsMap \<Rightarrow> string list \<Rightarrow> bool" where
  "topological byId vs = (\<forall>k < length vs. set (deps byId (vs ! k)) \<subseteq> set (take k vs))"

lemma and_then_simps [simp]: "and_then (Inl e) f = Inl e" "and_then (Inr x) f = f x"
  by (simp_all add: and_then_def)

lemma and_then_Inr: "and_then r f = Inr y \<longleftrightarrow> (\<exists>x. r = Inr x \<and> f x = Inr y)"
  by (cases r) auto

lemma and_then_Inl: "and_then r f = Inl e \<longleftrightarrow> r = Inl e \<or> (\<exists>x. r = Inr x \<and> f x = Inl e)"
  by (cases r) auto

lemma ensure_Inr [simp]: "ensure b m k = Inr y \<longleftrightarrow> b \<and> k = Inr y"
  by (simp add: ensure_def)

lemma ensure_Inl: "ensure b m k = Inl e \<longleftrightarrow> (if b then k = Inl e else e = CAMPAIGN_INVALID m)"
  by (auto simp: ensure_def)

lemma topological_Nil [simp]: "topological byId []"
  by (simp add: topological_def)

lemma topological_add: "topological byId vs \<Longrightarrow> set (deps byId i) \<subseteq> set vs \<Longrightarrow> topological byId (Set_add vs i)"
  by (auto simp: topological_def Set_add_def nth_append less_Suc_eq)

lemma topological_distinct_acyclic:
  assumes "topological byId vs" and "Field (edges byId) \<subseteq> set vs"
  shows "acyclic (edges byId)"
proof -
  define pos where "pos i = (LEAST k. k < length vs \<and> vs ! k = i)" for i
  have pos: "pos i < length vs \<and> vs ! pos i = i" if "i \<in> set vs" for i
    using that unfolding pos_def by (metis (mono_tags, lifting) LeastI in_set_conv_nth)
  have "pos d < pos i" if e: "(i, d) \<in> edges byId" for i d
  proof -
    have "i \<in> set vs" using e assms(2) by (auto simp: Field_def)
    then have "set (deps byId (vs ! pos i)) \<subseteq> set (take (pos i) vs)"
      using pos [of i] assms(1) unfolding topological_def by blast
    with pos [OF \<open>i \<in> set vs\<close>] e have "d \<in> set (take (pos i) vs)" by (auto simp: edges_def)
    then obtain k where k: "k < pos i" "k < length vs" "vs ! k = d"
      by (auto simp: in_set_conv_nth)
    then have "pos d \<le> k" unfolding pos_def by (intro Least_le) simp
    with k show ?thesis by simp
  qed
  then have "edges byId \<subseteq> (inv_image less_than pos)\<inverse>" by auto
  moreover have "acyclic ((inv_image less_than pos)\<inverse>)"
    by (simp add: acyclic_converse wf_acyclic wf_inv_image del: converse_inv_image)
  ultimately show ?thesis by (rule acyclic_subset [rotated])
qed

lemma visit_order:
  "visit byId vg vd i = Inr vd' \<Longrightarrow> topological byId vd \<Longrightarrow>
    topological byId vd' \<and> set vd \<subseteq> set vd' \<and> i \<in> set vd'"
  "visit_all byId vg vd ds = Inr vd' \<Longrightarrow> topological byId vd \<Longrightarrow>
    topological byId vd' \<and> set vd \<subseteq> set vd' \<and> set ds \<subseteq> set vd'"
proof (induction byId vg vd i and byId vg vd ds arbitrary: vd' and vd' rule: visit_visit_all.induct)
  case (1 byId vg vd i)
  show ?case
  proof (cases "i \<in> set vd")
    case False
    with "1.prems"(1) obtain t vs where t: "Map_get byId i = Some t" and i: "i \<notin> set vg"
      and vs: "visit_all byId (vg @ [i]) vd (dependsOn t) = Inr vs" and vd': "vd' = Set_add vs i"
      by (auto simp: and_then_Inr simp del: visit_all.simps split: option.splits if_splits)
    from "1.IH" [OF i False t vs "1.prems"(2)] show ?thesis
      by (auto simp: vd' deps_def t intro!: topological_add)
  qed (use 1 in \<open>auto split: if_splits\<close>)
next
  case (3 byId vg vd d ds)
  then obtain vs where "visit byId vg vd d = Inr vs" "visit_all byId vg vs ds = Inr vd'"
    by (auto simp: and_then_Inr simp del: visit.simps)
  with "3.IH"(1) [of vs] "3.IH"(2) [of vs vd'] "3.prems"(2) show ?case by auto
qed auto

lemma visit_cycle:
  "visit byId vg vd i = Inl e \<Longrightarrow> Map_has byId i \<Longrightarrow> (\<And>j. j \<in> set vg \<Longrightarrow> (j, i) \<in> (edges byId)\<^sup>+) \<Longrightarrow>
    (\<And>a b. (a, b) \<in> edges byId \<Longrightarrow> Map_has byId b) \<Longrightarrow>
    e = CAMPAIGN_INVALID ''dependency cycle'' \<and> \<not> acyclic (edges byId)"
  "visit_all byId vg vd ds = Inl e \<Longrightarrow> (\<And>d. d \<in> set ds \<Longrightarrow> Map_has byId d) \<Longrightarrow>
    (\<And>j d. j \<in> set vg \<Longrightarrow> d \<in> set ds \<Longrightarrow> (j, d) \<in> (edges byId)\<^sup>+) \<Longrightarrow>
    (\<And>a b. (a, b) \<in> edges byId \<Longrightarrow> Map_has byId b) \<Longrightarrow>
    e = CAMPAIGN_INVALID ''dependency cycle'' \<and> \<not> acyclic (edges byId)"
proof (induction byId vg vd i and byId vg vd ds rule: visit_visit_all.induct)
  case (1 byId vg vd i)
  show ?case
  proof (cases "i \<in> set vg")
    case True
    with "1.prems"(1,3) show ?thesis by (auto simp: ensure_Inl acyclic_def)
  next
    case False
    obtain t where t: "Map_get byId i = Some t" using "1.prems"(2) by (auto simp: Map_has_get)
    have vis: "i \<notin> set vd" and err: "visit_all byId (vg @ [i]) vd (dependsOn t) = Inl e"
      using "1.prems"(1) False t by (auto simp: ensure_Inl and_then_Inl simp del: visit_all.simps split: if_splits)
    have edge: "(i, d) \<in> edges byId" if "d \<in> set (dependsOn t)" for d
      using that t by (simp add: edges_def deps_def)
    show ?thesis
    proof (rule "1.IH" [OF False vis t err _ _ "1.prems"(4)])
      fix j d assume "j \<in> set (vg @ [i])" "d \<in> set (dependsOn t)"
      with edge "1.prems"(3) show "(j, d) \<in> (edges byId)\<^sup>+" by (auto intro: trancl_into_trancl)
    qed (use edge "1.prems"(4) in blast)+
  qed
next
  case (3 byId vg vd d ds)
  from "3.prems"(1) consider "visit byId vg vd d = Inl e"
    | vs where "visit byId vg vd d = Inr vs" "visit_all byId vg vs ds = Inl e"
    by (auto simp: and_then_Inl simp del: visit.simps)
  then show ?case
  proof cases
    case 1
    show ?thesis by (rule "3.IH"(1) [OF 1 _ _ "3.prems"(4)]) (use "3.prems" in auto)
  next
    case 2
    show ?thesis by (rule "3.IH"(2) [OF 2 _ _ "3.prems"(4)]) (use "3.prems" in auto)
  qed
qed simp

section \<open>What normalisation accepts\<close>

lemma Set_from_distinct: "length (Set_from xs) = length xs \<longleftrightarrow> distinct xs"
proof -
  have "length (Set_from xs) = card (set xs)" by (metis distinct_Set_from distinct_card set_Set_from)
  then show ?thesis by (metis card_distinct distinct_card)
qed

lemma Set_from_id: "distinct xs \<Longrightarrow> Set_from xs = xs"
proof -
  have "distinct (ys @ xs) \<Longrightarrow> fold (\<lambda>x s. Set_add s x) xs ys = ys @ xs" for ys
    by (induction xs arbitrary: ys) (auto simp: Set_add_def)
  from this [of "[]"] show "distinct xs \<Longrightarrow> Set_from xs = xs" by (simp add: Set_from_def)
qed

text \<open>One step within the authorisation.\<close>

definition step_ok :: "string list \<Rightarrow> 'x CampaignStep_scheme \<Rightarrow> bool" where
  "step_ok actions t =
    (TASK_ID_test (step_id t) \<and> action t \<in> set CAMPAIGN_ACTIONS \<and> action t \<in> set actions \<and>
     BOUND_VALUE_test (targetResource t) \<and> \<not> includes_dots (targetResource t) \<and>
     BOUND_VALUE_test (expectedState t) \<and> \<not> includes_dots (expectedState t) \<and>
     SHA256_test (argumentsDigest t) \<and> length (dependsOn t) \<le> 64)"

lemma check_tasks_ok:
  "(\<exists>r. check_tasks ps ids ts = Inr r) \<longleftrightarrow>
    list_all (step_ok ps) ts \<and> distinct (map step_id ts) \<and> set ids \<inter> step_id ` set ts = {}"
  by (induction ps ids ts rule: check_tasks.induct) (auto simp: step_ok_def)

lemma check_dependencies_ok:
  "(\<exists>r. check_dependencies byId ts = Inr r) \<longleftrightarrow>
    list_all (\<lambda>t. distinct (dependsOn t) \<and> step_id t \<notin> set (dependsOn t) \<and> list_all (Map_has byId) (dependsOn t)) ts"
  by (induction byId ts rule: check_dependencies.induct) (auto simp: Set_from_distinct list_all_iff)

text \<open>The relation from a step to the steps it depends on.\<close>

definition depends :: "'x CampaignStep_scheme list \<Rightarrow> (string \<times> string) set" where
  "depends ts = {(i, d). \<exists>t \<in> set ts. step_id t = i \<and> d \<in> set (dependsOn t)}"

lemma tasks_by_id_get:
  assumes "distinct (map step_id ts)"
  shows "Map_get (tasks_by_id ts) i = Some t \<longleftrightarrow> t \<in> set ts \<and> step_id t = i"
proof -
  have "distinct (map fst (rev (map (\<lambda>t. (step_id t, t)) ts)))" using assms by (simp add: comp_def rev_map [symmetric])
  then show ?thesis by (auto simp: tasks_by_id_def Map_get_from map_of_eq_Some_iff)
qed

lemma tasks_by_id_has: "distinct (map step_id ts) \<Longrightarrow> Map_has (tasks_by_id ts) i \<longleftrightarrow> i \<in> step_id ` set ts"
  using tasks_by_id_get [of ts i] by (auto simp: Map_has_get)

lemma edges_depends: "distinct (map step_id ts) \<Longrightarrow> edges (tasks_by_id ts) = depends ts"
  by (auto simp: edges_def deps_def depends_def tasks_by_id_get split: option.splits)
     (metis option.distinct(1) tasks_by_id_get option.inject)+

lemma visit_all_iff:
  assumes "distinct (map step_id ts)" and "list_all (\<lambda>t. list_all (Map_has (tasks_by_id ts)) (dependsOn t)) ts"
  shows "visit_all (tasks_by_id ts) [] [] (map step_id ts) =
      (if acyclic (depends ts) then visit_all (tasks_by_id ts) [] [] (map step_id ts)
       else Inl (CAMPAIGN_INVALID ''dependency cycle''))"
    and "acyclic (depends ts) \<Longrightarrow> \<exists>order. visit_all (tasks_by_id ts) [] [] (map step_id ts) = Inr order \<and>
      topological (tasks_by_id ts) order \<and> step_id ` set ts \<subseteq> set order"
proof -
  let ?m = "tasks_by_id ts"
  have known: "Map_has ?m b" if "(a, b) \<in> edges ?m" for a b
    using that assms by (auto simp: edges_depends depends_def list_all_iff)
  have err: "e = CAMPAIGN_INVALID ''dependency cycle'' \<and> \<not> acyclic (depends ts)"
    if "visit_all ?m [] [] (map step_id ts) = Inl e" for e
    using visit_cycle(2) [OF that _ _ known] assms(1) by (auto simp: edges_depends tasks_by_id_has)
  have ok: "topological ?m order \<and> step_id ` set ts \<subseteq> set order"
    if "visit_all ?m [] [] (map step_id ts) = Inr order" for order
    using visit_order(2) [OF that] by auto
  have "acyclic (depends ts)" if "visit_all ?m [] [] (map step_id ts) = Inr order" for order
  proof -
    have "Field (edges ?m) \<subseteq> set order"
      using ok [OF that] known assms(1) by (auto simp: Field_def edges_depends depends_def tasks_by_id_has)
    then show ?thesis using topological_distinct_acyclic [of ?m order] ok [OF that] assms(1) by (simp add: edges_depends)
  qed
  then show "visit_all ?m [] [] (map step_id ts) =
      (if acyclic (depends ts) then visit_all ?m [] [] (map step_id ts) else Inl (CAMPAIGN_INVALID ''dependency cycle''))"
    using err by (cases "visit_all ?m [] [] (map step_id ts)") auto
  show "acyclic (depends ts) \<Longrightarrow> \<exists>order. visit_all ?m [] [] (map step_id ts) = Inr order \<and>
      topological ?m order \<and> step_id ` set ts \<subseteq> set order"
    using err ok by (cases "visit_all ?m [] [] (map step_id ts)") auto
qed

text \<open>The declarative reading of the checks.\<close>

definition plan_ok :: "host \<Rightarrow> DelegatedCampaignInput \<Rightarrow> bool" where
  "plan_ok H x =
    (UUID_test (in_campaignId x) \<and> WORKSPACE_ID_test (in_workspaceId x) \<and>
     in_objective x \<noteq> [] \<and> length (in_objective x) \<le> 4000 \<and> redactSensitiveText H (in_objective x) = in_objective x \<and>
     in_authorizedActions x \<noteq> [] \<and> distinct (in_authorizedActions x) \<and> set (in_authorizedActions x) \<subseteq> set CAMPAIGN_ACTIONS \<and>
     in_tasks x \<noteq> [] \<and> length (in_tasks x) \<le> 64 \<and> distinct (map step_id (in_tasks x)) \<and>
     list_all (step_ok (in_authorizedActions x)) (in_tasks x) \<and>
     list_all (\<lambda>t. distinct (dependsOn t) \<and> set (dependsOn t) \<subseteq> step_id ` set (in_tasks x)) (in_tasks x) \<and>
     acyclic (depends (in_tasks x)))"

definition normal_form :: "DelegatedCampaignInput \<Rightarrow> DelegatedCampaignInput" where
  "normal_form x = x\<lparr>in_authorizedActions := sort_cmp cmp_units (in_authorizedActions x), in_tasks := map strip_step (in_tasks x)\<rparr>"

lemma actions_count: "distinct as \<Longrightarrow> set as \<subseteq> set CAMPAIGN_ACTIONS \<Longrightarrow> length as \<le> length CAMPAIGN_ACTIONS"
  by (metis card_length card_mono distinct_card finite_set le_trans)

lemma acyclic_no_loop: "acyclic (depends ts) \<Longrightarrow> t \<in> set ts \<Longrightarrow> step_id t \<notin> set (dependsOn t)"
  unfolding acyclic_def depends_def by blast

lemma step_ok_Set_from [simp]: "step_ok (Set_from ps) = step_ok ps"
  by (simp add: step_ok_def fun_eq_iff)

lemma normalize_cases:
  "normalize H x = Inr y \<longleftrightarrow> plan_ok H x \<and> y = normal_form x"
proof (cases "distinct (map step_id (in_tasks x)) \<and> distinct (in_authorizedActions x)")
  case True
  note d = conjunct1 [OF True]
  have known: "list_all (Map_has (tasks_by_id (in_tasks x))) ds \<longleftrightarrow> set ds \<subseteq> step_id ` set (in_tasks x)" for ds
    by (auto simp: list_all_iff tasks_by_id_has [OF d])
  have tasks: "(\<exists>r. check_tasks (in_authorizedActions x) [] (in_tasks x) = Inr r) \<longleftrightarrow> list_all (step_ok (in_authorizedActions x)) (in_tasks x)"
    using d by (simp add: check_tasks_ok)
  have chk: "(\<exists>r. check_dependencies (tasks_by_id (in_tasks x)) (in_tasks x) = Inr r) \<longleftrightarrow>
      list_all (\<lambda>t. distinct (dependsOn t) \<and> step_id t \<notin> set (dependsOn t) \<and> set (dependsOn t) \<subseteq> step_id ` set (in_tasks x)) (in_tasks x)"
    unfolding check_dependencies_ok known by simp
  have vis: "(\<exists>r. visit_all (tasks_by_id (in_tasks x)) [] [] (map step_id (in_tasks x)) = Inr r) \<longleftrightarrow> acyclic (depends (in_tasks x))"
    if "list_all (\<lambda>t. set (dependsOn t) \<subseteq> step_id ` set (in_tasks x)) (in_tasks x)"
  proof -
    have "list_all (\<lambda>t. list_all (Map_has (tasks_by_id (in_tasks x))) (dependsOn t)) (in_tasks x)"
      using that by (simp add: known)
    from visit_all_iff [OF d this] show ?thesis by (metis sum.distinct(1))
  qed
  have deps: "list_all (\<lambda>t. distinct (dependsOn t) \<and> step_id t \<notin> set (dependsOn t) \<and> set (dependsOn t) \<subseteq> step_id ` set (in_tasks x)) (in_tasks x) \<and>
      acyclic (depends (in_tasks x)) \<longleftrightarrow>
      list_all (\<lambda>t. distinct (dependsOn t) \<and> set (dependsOn t) \<subseteq> step_id ` set (in_tasks x)) (in_tasks x) \<and> acyclic (depends (in_tasks x))"
    using acyclic_no_loop [of "in_tasks x"] by (auto simp: list_all_iff)
  have "(\<exists>r. check_tasks (in_authorizedActions x) [] (in_tasks x) = Inr r) \<and>
      (\<exists>r. check_dependencies (tasks_by_id (in_tasks x)) (in_tasks x) = Inr r) \<and>
      (\<exists>r. visit_all (tasks_by_id (in_tasks x)) [] [] (map step_id (in_tasks x)) = Inr r) \<longleftrightarrow>
      list_all (step_ok (in_authorizedActions x)) (in_tasks x) \<and>
      list_all (\<lambda>t. distinct (dependsOn t) \<and> set (dependsOn t) \<subseteq> step_id ` set (in_tasks x)) (in_tasks x) \<and> acyclic (depends (in_tasks x))"
    unfolding tasks chk using vis deps by (auto simp: list_all_iff)
  then show ?thesis
    using True actions_count [of "in_authorizedActions x"]
    by (auto simp: normalize_def plan_ok_def normal_form_def Let_def and_then_Inr Set_from_id list_all_iff subset_iff)
next
  case False
  then show ?thesis
    using check_tasks_ok [of "Set_from (in_authorizedActions x)" "[]" "in_tasks x"]
    by (auto simp: normalize_def plan_ok_def Let_def and_then_Inr Set_from_distinct)
qed

lemma normal_form_depends [simp]: "depends (map strip_step ts) = depends ts"
  by (auto simp: depends_def strip_step_def)

lemma strip_step_strip [simp]: "strip_step (strip_step t) = strip_step t"
  by (simp add: strip_step_def)

lemma strip_step_simps [simp]:
  "step_id (strip_step t) = step_id t" "action (strip_step t) = action t"
  "dependsOn (strip_step t) = sort_cmp cmp_units (dependsOn t)" "targetResource (strip_step t) = targetResource t"
  "expectedState (strip_step t) = expectedState t" "argumentsDigest (strip_step t) = argumentsDigest t"
  by (simp_all add: strip_step_def)

lemma normal_form_simps [simp]:
  "in_campaignId (normal_form x) = in_campaignId x" "in_workspaceId (normal_form x) = in_workspaceId x"
  "in_objective (normal_form x) = in_objective x" "in_keys (normal_form x) = in_keys x"
  "in_authorizedActions (normal_form x) = sort_cmp cmp_units (in_authorizedActions x)"
  "in_tasks (normal_form x) = map strip_step (in_tasks x)"
  by (simp_all add: normal_form_def)

lemma sort_cmp_Nil [simp]: "sort_cmp cmp xs = [] \<longleftrightarrow> xs = []"
  by (metis length_0_conv length_sort_cmp)

lemma step_ok_strip [simp]: "step_ok (sort_cmp cmp_units as) (strip_step t) = step_ok as t"
  by (simp add: step_ok_def)

lemma plan_ok_normal_form: "plan_ok H (normal_form x) = plan_ok H x"
  by (simp add: plan_ok_def list_all_iff image_image comp_def)

lemma normal_form_twice [simp]: "normal_form (normal_form x) = normal_form x"
  by (simp add: normal_form_def comp_def)

section \<open>A sample plan\<close>

definition demo_host :: host where
  "demo_host = \<lparr>sha256 = (\<lambda>_. replicate 64 (CHR ''a'')), redactSensitiveText = (\<lambda>s. s), path_isAbsolute = (\<lambda>s. s \<noteq> []),
     path_join = (\<lambda>s t. s @ CHR 0x2F # t)\<rparr>"

definition demo_step :: "string \<Rightarrow> string \<Rightarrow> string list \<Rightarrow> CampaignStep" where
  "demo_step i a ds = \<lparr>step_id = i, action = a, dependsOn = ds, targetResource = ''repo'', expectedState = ''clean'',
     argumentsDigest = replicate 64 (CHR ''0'')\<rparr>"

definition demo_uuid :: "char \<Rightarrow> string" where
  "demo_uuid c = ''00000000-0000-4000-8000-00000000000'' @ [c]"

definition demo_plan :: DelegatedCampaignInput where
  "demo_plan = \<lparr>in_campaignId = demo_uuid (CHR ''1''), in_workspaceId = ''ws'', in_objective = ''tidy up'',
     in_authorizedActions = [''edit'', ''commit''], in_tasks = [demo_step ''b'' ''commit'' [''a''], demo_step ''a'' ''edit'' []],
     in_keys = canonical_keys\<rparr>"

section \<open>Properties\<close>

text \<open>
  C22. What \<open>normalize\<close> accepts. A plan is accepted exactly when its identifiers, objective and fields have their
  formats, the objective has nothing to redact, the authorised actions are distinct known actions, there
  are 1 to 64 steps with distinct identifiers, every step has an authorised action, depends without repetition on steps of the plan,
  and no step depends on itself through others. The result is the plan with its actions and dependencies sorted, and
  normalising it again changes nothing.
\<close>

theorem normalize_accepts:
  "(normalize H x = Inr y \<longleftrightarrow> plan_ok H x \<and> y = normal_form x) \<and>
   (normalize H x = Inr y \<longrightarrow> normalize H y = Inr y)"
  by (auto simp: normalize_cases plan_ok_normal_form)

theorem normalize_accepts_witness:
  "plan_ok demo_host demo_plan \<and> normalize demo_host (normal_form demo_plan) = Inr (normal_form demo_plan)"
proof -
  have "normalize demo_host demo_plan = Inr (normal_form demo_plan)" by code_simp
  then show ?thesis using normalize_accepts [of demo_host demo_plan "normal_form demo_plan"] by blast
qed

text \<open>
  C23. The search for a dependency cycle ends on every plan, cyclic or not, and decides: for steps with distinct identifiers that
  depend on steps of the plan it gives an order in which every step comes after those it depends on, or, exactly when a
  step depends on itself through others, the error that there is a cycle.
\<close>

theorem cycle_search_decides:
  assumes "distinct (map step_id ts)" and "\<forall>t \<in> set ts. set (dependsOn t) \<subseteq> step_id ` set ts"
  shows "if acyclic (depends ts)
    then \<exists>order. visit_all (tasks_by_id ts) [] [] (map step_id ts) = Inr order \<and> step_id ` set ts \<subseteq> set order \<and>
      topological (tasks_by_id ts) order
    else visit_all (tasks_by_id ts) [] [] (map step_id ts) = Inl (CAMPAIGN_INVALID ''dependency cycle'')"
proof -
  have "list_all (\<lambda>t. list_all (Map_has (tasks_by_id ts)) (dependsOn t)) ts"
    using assms(2) by (auto simp: list_all_iff tasks_by_id_has [OF assms(1)])
  from visit_all_iff [OF assms(1) this] show ?thesis by auto
qed

theorem cycle_search_decides_witness:
  "\<not> acyclic (depends [demo_step ''a'' ''edit'' [''b''], demo_step ''b'' ''edit'' [''a'']])"
proof
  let ?ts = "[demo_step ''a'' ''edit'' [''b''], demo_step ''b'' ''edit'' [''a'']]"
  assume "acyclic (depends ?ts)"
  moreover have "distinct (map step_id ?ts)" "\<forall>t \<in> set ?ts. set (dependsOn t) \<subseteq> step_id ` set ?ts"
    by (simp_all add: demo_step_def)
  ultimately obtain order where "visit_all (tasks_by_id ?ts) [] [] (map step_id ?ts) = Inr order"
    using cycle_search_decides [of ?ts] by auto
  moreover have "visit_all (tasks_by_id ?ts) [] [] (map step_id ?ts) = Inl (CAMPAIGN_INVALID ''dependency cycle'')"
    by code_simp
  ultimately show False by simp
qed

end
