(* ===== verification/CampaignLedger.thy ===== *)
theory CampaignLedger
  imports CampaignPlan
begin

text \<open>
  The ledger of delegated campaigns, second half of
  \<open>services/workspace-agent/src/campaign/delegated-campaign-ledger.ts\<close>: the persisted record, its validation on
  every read, and the operations that create a campaign, claim its next step and record the outcome
  of a step. The files of the state directory are a map from paths to contents. What the outside decides in one
  operation (the fate of its lock, a failing write, the clock, the fresh UUID) is its argument of type \<open>io\<close>.
\<close>

section \<open>Data\<close>

datatype CampaignTaskState = Pending | InFlight | OutcomeUnknown | Completed | Blocked | Failed

record CampaignProof =
  kind :: string
  reference :: string

text \<open>In a file the state of a task is a string, in memory one of the six states.\<close>

record 's CampaignTask = CampaignStep +
  state :: 's
  operationId :: "string option"
  proof_of :: "CampaignProof option"

record 's CampaignRecord =
  version :: int
  campaignId :: string
  workspaceId :: string
  ownerScopeHash :: string
  definitionDigest :: string
  objective :: string
  authorizedActions :: "string list"
  tasks :: "'s CampaignTask list"
  revision :: int
  createdAt :: string
  updatedAt :: string

datatype CampaignClaim = Claimed string string "CampaignTaskState CampaignRecord" | NoRunnableStep "CampaignTaskState CampaignRecord"

text \<open>
  The content of a file: a record whose fields have the types of the interface but any value, another value,
  damaged text, or a file that cannot be read.
\<close>

datatype stored = StoredRecord "string CampaignRecord" | StoredOther | Damaged | Unreadable string

type_synonym files = "(string, stored) jsMap"

definition STATES :: "(string \<times> CampaignTaskState) list" where
  "STATES = [(''pending'', Pending), (''in_flight'', InFlight), (''outcome_unknown'', OutcomeUnknown),
     (''completed'', Completed), (''blocked'', Blocked), (''failed'', Failed)]"

definition state_name :: "CampaignTaskState \<Rightarrow> string" where
  "state_name s = (case s of Pending \<Rightarrow> ''pending'' | InFlight \<Rightarrow> ''in_flight'' | OutcomeUnknown \<Rightarrow> ''outcome_unknown''
     | Completed \<Rightarrow> ''completed'' | Blocked \<Rightarrow> ''blocked'' | Failed \<Rightarrow> ''failed'')"

lemma STATES_name [simp]: "map_of STATES (state_name s) = Some s"
  by (cases s) (simp_all add: STATES_def state_name_def)

section \<open>Reading a file\<close>

definition verified_proof :: "CampaignProof option \<Rightarrow> bool" where
  "verified_proof p = (case p of None \<Rightarrow> False
     | Some q \<Rightarrow> kind q = ''verified'' \<and> reference q \<noteq> [] \<and> length (reference q) \<le> 300)"

definition extend_step :: "CampaignStep \<Rightarrow> 's \<Rightarrow> string option \<Rightarrow> CampaignProof option \<Rightarrow> 's CampaignTask" where
  "extend_step b st i p = CampaignStep.extend b \<lparr>state = st, operationId = i, proof_of = p\<rparr>"

definition strings_json :: "string list \<Rightarrow> string" where
  "strings_json ss = stringify (JArray (map JString ss))"

definition parse_stored_task :: "string CampaignTask \<times> CampaignStep \<Rightarrow> campaign_error + CampaignTaskState CampaignTask" where
  "parse_stored_task p = (case p of (t, base) \<Rightarrow>
    (case map_of STATES (state t) of
       None \<Rightarrow> Inl (CAMPAIGN_INVALID ''invalid persisted task state'')
     | Some st \<Rightarrow>
         ensure (step_id t = step_id base \<and> action t = action base \<and> strings_json (dependsOn t) = strings_json (dependsOn base) \<and>
           targetResource t = targetResource base \<and> expectedState t = expectedState base \<and>
           argumentsDigest t = argumentsDigest base) ''task definition mismatch''
         (ensure (st \<noteq> Pending \<longrightarrow> (case operationId t of None \<Rightarrow> False | Some i \<Rightarrow> UUID_test i)) ''missing operation identity''
         (ensure (st = Pending \<longrightarrow> operationId t = None) ''unclaimed task has operationId''
         (ensure (st = Completed \<or> proof_of t \<noteq> None \<longrightarrow> verified_proof (proof_of t)) ''invalid proof''
         (Inr (extend_step base st (operationId t) (proof_of t))))))))"

definition record_input :: "'s CampaignRecord \<Rightarrow> DelegatedCampaignInput" where
  "record_input r = \<lparr>in_campaignId = campaignId r, in_workspaceId = workspaceId r, in_objective = objective r,
     in_authorizedActions = authorizedActions r, in_tasks = map CampaignStep.truncate (tasks r), in_keys = canonical_keys\<rparr>"

definition parsePersisted :: "host \<Rightarrow> string \<Rightarrow> stored \<Rightarrow> campaign_error + CampaignTaskState CampaignRecord" where
  "parsePersisted H own v =
    (case v of
       Unreadable c \<Rightarrow> Inl (SystemError c)
     | Damaged \<Rightarrow> Inl SyntaxError
     | StoredOther \<Rightarrow> Inl (CAMPAIGN_INVALID ''invalid persisted record'')
     | StoredRecord r \<Rightarrow>
         ensure (version r = 1) ''invalid persisted record''
         (ensure (ownerScopeHash r = own) ''owner scope mismatch''
         (ensure (SHA256_test (definitionDigest r)) ''invalid campaign''
         (ensure (0 \<le> revision r \<and> revision r < 2 ^ 53) ''invalid revision''
         (and_then (normalize H (record_input r)) (\<lambda>x.
          ensure (definitionDigest r = plan_digest H x) ''persisted authorization/plan digest mismatch''
          (ensure (length (tasks r) = length (in_tasks x)) ''invalid tasks''
          (and_then (mapM parse_stored_task (zip (tasks r) (in_tasks x))) (\<lambda>ts.
           Inr \<lparr>version = 1, campaignId = in_campaignId x, workspaceId = in_workspaceId x, ownerScopeHash = own,
                definitionDigest = definitionDigest r, objective = in_objective x, authorizedActions = in_authorizedActions x,
                tasks = ts, revision = revision r, createdAt = createdAt r, updatedAt = updatedAt r\<rparr>)))))))))"

section \<open>The ledger\<close>

record DelegatedCampaignLedger =
  directory :: string
  lg_ownerScopeHash :: string

definition new_ledger :: "host \<Rightarrow> string \<Rightarrow> string \<Rightarrow> campaign_error + DelegatedCampaignLedger" where
  "new_ledger H stateDirectory ownerScope =
    ensure (path_isAbsolute H stateDirectory) ''state directory must be absolute''
    (ensure (ownerScope \<noteq> []) ''owner scope required''
    (Inr \<lparr>directory = path_join H stateDirectory ''delegated-campaigns'', lg_ownerScopeHash = sha256 H ownerScope\<rparr>))"

text \<open>
  The lock around an operation, \<open>CampaignRunLease.run\<close>: refused before the operation starts, held throughout, or
  found lost at the end, when the effects of the operation are there but it throws.
\<close>

datatype lease_view = Held | Refused campaign_error | LostAfter campaign_error

definition under_lease :: "lease_view \<Rightarrow> ('f \<Rightarrow> (campaign_error + 'a) \<times> 'f) \<Rightarrow> 'f \<Rightarrow> (campaign_error + 'a) \<times> 'f" where
  "under_lease l fn s = (case l of Refused e \<Rightarrow> (Inl e, s) | Held \<Rightarrow> fn s | LostAfter e \<Rightarrow> (Inl e, snd (fn s)))"

record io =
  lease :: lease_view
  writeError :: "string option"
  now :: string
  randomUUID :: string

definition ledger_file :: "host \<Rightarrow> DelegatedCampaignLedger \<Rightarrow> string \<Rightarrow> string \<Rightarrow> campaign_error + string" where
  "ledger_file H L w i =
    ensure (WORKSPACE_ID_test w \<and> UUID_test i) ''invalid record identity''
    (Inr (path_join H (directory L) (sha256 H (lg_ownerScopeHash L @ '':'' @ w @ '':'' @ i) @ ''.json'')))"

definition get_campaign :: "host \<Rightarrow> DelegatedCampaignLedger \<Rightarrow> files \<Rightarrow> string \<Rightarrow> string \<Rightarrow>
    campaign_error + CampaignTaskState CampaignRecord option" where
  "get_campaign H L fs w i = and_then (ledger_file H L w i) (\<lambda>f.
    case Map_get fs f of None \<Rightarrow> Inr None
    | Some v \<Rightarrow> and_then (parsePersisted H (lg_ownerScopeHash L) v) (\<lambda>r. Inr (Some r)))"

definition locked :: "host \<Rightarrow> DelegatedCampaignLedger \<Rightarrow> io \<Rightarrow> string \<Rightarrow> string \<Rightarrow>
    (files \<Rightarrow> (campaign_error + 'a) \<times> files) \<Rightarrow> files \<Rightarrow> (campaign_error + 'a) \<times> files" where
  "locked H L e w i fn fs = (case ledger_file H L w i of Inl err \<Rightarrow> (Inl err, fs) | Inr _ \<Rightarrow> under_lease (lease e) fn fs)"

definition stored_task :: "CampaignTaskState CampaignTask \<Rightarrow> string CampaignTask" where
  "stored_task t = extend_step (CampaignStep.truncate t) (state_name (state t)) (operationId t) (proof_of t)"

definition stored_record :: "CampaignTaskState CampaignRecord \<Rightarrow> string CampaignRecord" where
  "stored_record r = \<lparr>version = version r, campaignId = campaignId r, workspaceId = workspaceId r, ownerScopeHash = ownerScopeHash r,
     definitionDigest = definitionDigest r, objective = objective r, authorizedActions = authorizedActions r,
     tasks = map stored_task (tasks r), revision = revision r, createdAt = createdAt r, updatedAt = updatedAt r\<rparr>"

definition write_campaign :: "host \<Rightarrow> DelegatedCampaignLedger \<Rightarrow> io \<Rightarrow> CampaignTaskState CampaignRecord \<Rightarrow> files \<Rightarrow> (campaign_error + unit) \<times> files" where
  "write_campaign H L e r fs = (case ledger_file H L (workspaceId r) (campaignId r) of
     Inl err \<Rightarrow> (Inl err, fs)
   | Inr f \<Rightarrow> (case writeError e of Some c \<Rightarrow> (Inl (SystemError c), fs)
                 | None \<Rightarrow> (Inr (), Map_set fs f (StoredRecord (stored_record r)))))"

text \<open>Write the record and return a value.\<close>

definition write_then :: "host \<Rightarrow> DelegatedCampaignLedger \<Rightarrow> io \<Rightarrow> CampaignTaskState CampaignRecord \<Rightarrow> 'a \<Rightarrow> files \<Rightarrow> (campaign_error + 'a) \<times> files" where
  "write_then H L e r x fs = (case write_campaign H L e r fs of (Inl err, fs') \<Rightarrow> (Inl err, fs') | (Inr _, fs') \<Rightarrow> (Inr x, fs'))"

definition initial_record :: "host \<Rightarrow> DelegatedCampaignLedger \<Rightarrow> io \<Rightarrow> DelegatedCampaignInput \<Rightarrow> CampaignTaskState CampaignRecord" where
  "initial_record H L e n = \<lparr>version = 1, campaignId = in_campaignId n, workspaceId = in_workspaceId n, ownerScopeHash = lg_ownerScopeHash L,
     definitionDigest = plan_digest H n, objective = in_objective n, authorizedActions = in_authorizedActions n,
     tasks = map (\<lambda>t. extend_step t Pending None None) (in_tasks n), revision = 0, createdAt = now e, updatedAt = now e\<rparr>"

definition create_campaign :: "host \<Rightarrow> DelegatedCampaignLedger \<Rightarrow> io \<Rightarrow> DelegatedCampaignInput \<Rightarrow> files \<Rightarrow>
    (campaign_error + CampaignTaskState CampaignRecord) \<times> files" where
  "create_campaign H L e x fs = (case normalize H x of Inl err \<Rightarrow> (Inl err, fs) | Inr n \<Rightarrow>
    (let digest = plan_digest H n in locked H L e (in_workspaceId n) (in_campaignId n) (\<lambda>fs.
      case get_campaign H L fs (in_workspaceId n) (in_campaignId n) of
        Inl err \<Rightarrow> (Inl err, fs)
      | Inr (Some old) \<Rightarrow> (ensure (definitionDigest old = digest) ''campaignId reused with different objective/authorization'' (Inr old), fs)
      | Inr None \<Rightarrow>
          (let r = initial_record H L e n
           in write_then H L e r r fs)) fs))"

text \<open>\<open>claimNext\<close>: the first step that may run.\<close>

definition find_task :: "string \<Rightarrow> 's CampaignTask list \<Rightarrow> 's CampaignTask option" where
  "find_task i ts = List.find (\<lambda>t. step_id t = i) ts"

definition runnable :: "CampaignTaskState CampaignTask list \<Rightarrow> CampaignTaskState CampaignTask \<Rightarrow> bool" where
  "runnable ts t = (state t = Pending \<and>
     list_all (\<lambda>dep. case find_task dep ts of None \<Rightarrow> False | Some d \<Rightarrow> state d = Completed) (dependsOn t) \<and>
     \<not> list_ex (\<lambda>other. step_id other \<noteq> step_id t \<and> (state other = OutcomeUnknown \<or> state other = Blocked) \<and>
       targetResource other = targetResource t) ts)"

text \<open>An assignment to fields of the task with this identifier; identifiers are distinct in a record that was read.\<close>

definition set_task :: "string \<Rightarrow> ('s CampaignTask \<Rightarrow> 's CampaignTask) \<Rightarrow> 's CampaignTask list \<Rightarrow> 's CampaignTask list" where
  "set_task i f ts = map (\<lambda>t. if step_id t = i then f t else t) ts"

definition claim_task :: "io \<Rightarrow> string \<Rightarrow> CampaignTaskState CampaignRecord \<Rightarrow> CampaignTaskState CampaignRecord" where
  "claim_task e i r = r\<lparr>tasks := set_task i (\<lambda>t. t\<lparr>state := InFlight, operationId := Some (randomUUID e)\<rparr>) (tasks r),
     revision := revision r + 1, updatedAt := now e\<rparr>"

definition claimNext :: "host \<Rightarrow> DelegatedCampaignLedger \<Rightarrow> io \<Rightarrow> string \<Rightarrow> string \<Rightarrow> files \<Rightarrow> (campaign_error + CampaignClaim) \<times> files" where
  "claimNext H L e w i = locked H L e w i (\<lambda>fs.
    case get_campaign H L fs w i of
      Inl err \<Rightarrow> (Inl err, fs)
    | Inr None \<Rightarrow> (Inl (CAMPAIGN_INVALID ''campaign not found''), fs)
    | Inr (Some r) \<Rightarrow>
        if list_ex (\<lambda>t. state t = InFlight) (tasks r) then (Inr (NoRunnableStep r), fs)
        else (case List.find (runnable (tasks r)) (tasks r) of
                None \<Rightarrow> (Inr (NoRunnableStep r), fs)
              | Some t \<Rightarrow> (let r' = claim_task e (step_id t) r
                           in write_then H L e r' (Claimed (step_id t) (randomUUID e) r') fs)))"

definition settle_task :: "io \<Rightarrow> string \<Rightarrow> CampaignTaskState \<Rightarrow> CampaignProof option \<Rightarrow> CampaignTaskState CampaignRecord \<Rightarrow> CampaignTaskState CampaignRecord" where
  "settle_task e i next pf r = r\<lparr>tasks := set_task i (\<lambda>t. t\<lparr>state := next,
       proof_of := (case pf of Some p \<Rightarrow> if kind p = ''verified'' then Some p else proof_of t | None \<Rightarrow> proof_of t)\<rparr>) (tasks r),
     revision := revision r + 1, updatedAt := now e\<rparr>"

text \<open>The checks of \<open>transition\<close> in their order, with the message of the first that fails.\<close>

definition transition_refusal :: "CampaignTaskState CampaignTask option \<Rightarrow> string \<Rightarrow> CampaignTaskState \<Rightarrow> CampaignProof option \<Rightarrow> string option" where
  "transition_refusal found opId next pf =
    (case found of
       None \<Rightarrow> Some ''operation identity mismatch''
     | Some t \<Rightarrow>
         if \<not> (operationId t = Some opId \<and> UUID_test opId) then Some ''operation identity mismatch''
         else if \<not> (state t = InFlight \<or> state t = OutcomeUnknown) then Some ''task is not reconcilable''
         else if \<not> (state t \<noteq> OutcomeUnknown \<or> next \<noteq> OutcomeUnknown) then Some ''duplicate uncertain transition''
         else if \<not> (\<not> (next = Completed \<or> state t = OutcomeUnknown) \<or> verified_proof pf)
         then Some ''reconciled/completed task requires bounded verified evidence''
         else None)"

definition transition :: "host \<Rightarrow> DelegatedCampaignLedger \<Rightarrow> io \<Rightarrow> string \<Rightarrow> string \<Rightarrow> string \<Rightarrow> string \<Rightarrow> CampaignTaskState \<Rightarrow>
    CampaignProof option \<Rightarrow> files \<Rightarrow> (campaign_error + CampaignTaskState CampaignRecord) \<times> files" where
  "transition H L e w i taskId opId next pf = locked H L e w i (\<lambda>fs.
    case get_campaign H L fs w i of
      Inl err \<Rightarrow> (Inl err, fs)
    | Inr None \<Rightarrow> (Inl (CAMPAIGN_INVALID ''campaign not found''), fs)
    | Inr (Some r) \<Rightarrow>
        (case transition_refusal (find_task taskId (tasks r)) opId next pf of
           Some message \<Rightarrow> (Inl (CAMPAIGN_INVALID message), fs)
         | None \<Rightarrow> (let r' = settle_task e taskId next pf r in write_then H L e r' r' fs)))"

section \<open>Well-formed records\<close>

definition task_ok :: "CampaignTaskState CampaignTask \<Rightarrow> bool" where
  "task_ok t =
    ((if state t = Pending then operationId t = None else \<exists>i. operationId t = Some i \<and> UUID_test i) \<and>
     (state t = Completed \<or> proof_of t \<noteq> None \<longrightarrow> verified_proof (proof_of t)))"

definition record_ok :: "host \<Rightarrow> string \<Rightarrow> CampaignTaskState CampaignRecord \<Rightarrow> bool" where
  "record_ok H own r =
    (version r = 1 \<and> ownerScopeHash r = own \<and> plan_ok H (record_input r) \<and> normal_form (record_input r) = record_input r \<and>
     SHA256_test (definitionDigest r) \<and> definitionDigest r = plan_digest H (record_input r) \<and>
     0 \<le> revision r \<and> revision r < 2 ^ 53 \<and> list_all task_ok (tasks r))"

lemma extend_step_simps [simp]:
  "CampaignStep.truncate (extend_step b s i p) = b"
  "state (extend_step b s i p) = s" "operationId (extend_step b s i p) = i" "proof_of (extend_step b s i p) = p"
  "step_id (extend_step b s i p) = step_id b" "action (extend_step b s i p) = action b"
  "dependsOn (extend_step b s i p) = dependsOn b" "targetResource (extend_step b s i p) = targetResource b"
  "expectedState (extend_step b s i p) = expectedState b" "argumentsDigest (extend_step b s i p) = argumentsDigest b"
  by (simp_all add: extend_step_def CampaignStep.defs)

lemma step_truncate_simps [simp]:
  "step_id (CampaignStep.truncate t) = step_id t" "action (CampaignStep.truncate t) = action t"
  "dependsOn (CampaignStep.truncate t) = dependsOn t" "targetResource (CampaignStep.truncate t) = targetResource t"
  "expectedState (CampaignStep.truncate t) = expectedState t" "argumentsDigest (CampaignStep.truncate t) = argumentsDigest t"
  by (simp_all add: CampaignStep.defs)

lemma step_extend_truncate [simp]: "extend_step (CampaignStep.truncate t) (state t) (operationId t) (proof_of t) = t"
  by (simp add: extend_step_def CampaignStep.defs)

lemma strings_json_inj [simp]: "strings_json xs = strings_json ys \<longleftrightarrow> xs = ys"
  unfolding strings_json_def stringify_inj by (simp add: inj_map_eq_map inj_def)

lemma mapM_Inr: "mapM f xs = Inr ys \<longleftrightarrow> list_all2 (\<lambda>x y. f x = Inr y) xs ys"
proof (induction xs arbitrary: ys)
  case (Cons x xs)
  then show ?case by (cases ys; cases "f x"; cases "mapM f xs") auto
qed auto

lemma parse_task_Inr:
  "parse_stored_task (t, b) = Inr u \<longleftrightarrow> (\<exists>st. CampaignStep.truncate t = b \<and> map_of STATES (state t) = Some st \<and>
     u = extend_step b st (operationId t) (proof_of t) \<and> task_ok u)"
proof (cases "map_of STATES (state t)")
  case (Some st)
  have "CampaignStep.truncate t = b \<longleftrightarrow> step_id t = step_id b \<and> action t = action b \<and> dependsOn t = dependsOn b \<and>
      targetResource t = targetResource b \<and> expectedState t = expectedState b \<and> argumentsDigest t = argumentsDigest b"
    by (cases b) (auto simp: CampaignStep.defs)
  moreover have "task_ok (extend_step b st (operationId t) (proof_of t)) \<longleftrightarrow>
      (st \<noteq> Pending \<longrightarrow> (case operationId t of None \<Rightarrow> False | Some i \<Rightarrow> UUID_test i)) \<and>
      (st = Pending \<longrightarrow> operationId t = None) \<and> (st = Completed \<or> proof_of t \<noteq> None \<longrightarrow> verified_proof (proof_of t))"
    by (cases "operationId t"; cases "st = Pending") (simp_all add: task_ok_def)
  ultimately show ?thesis by (simp add: parse_stored_task_def Some conj_ac) blast
qed (simp add: parse_stored_task_def)

lemma parse_tasks_Inr:
  assumes "length ts = length bs"
  shows "mapM parse_stored_task (zip ts bs) = Inr us \<Longrightarrow> map CampaignStep.truncate us = bs \<and> list_all task_ok us"
  using assms unfolding mapM_Inr
proof (induction ts bs arbitrary: us rule: list_induct2)
  case (Cons t ts b bs)
  then obtain u us' where "us = u # us'" "parse_stored_task (t, b) = Inr u" "list_all2 (\<lambda>x y. parse_stored_task x = Inr y) (zip ts bs) us'"
    by (auto simp: list_all2_Cons1)
  moreover have "CampaignStep.truncate u = b" "task_ok u"
    using \<open>parse_stored_task (t, b) = Inr u\<close> by (auto simp: parse_task_Inr)
  ultimately show ?case using Cons.IH by auto
qed simp

lemma parsePersisted_ok:
  assumes "parsePersisted H own v = Inr r"
  shows "record_ok H own r"
proof -
  obtain q where v: "v = StoredRecord q" using assms by (cases v) (auto simp: parsePersisted_def)
  let ?x = "normal_form (record_input q)"
  from assms have p: "plan_ok H (record_input q)" and sha: "SHA256_test (definitionDigest q)" "definitionDigest q = plan_digest H ?x"
    and rev: "0 \<le> revision q" "revision q < 2 ^ 53" and len: "length (tasks q) = length (in_tasks ?x)"
    and ts: "mapM parse_stored_task (zip (tasks q) (in_tasks ?x)) = Inr (tasks r)"
    and r: "version r = 1" "ownerScopeHash r = own" "definitionDigest r = definitionDigest q" "revision r = revision q"
      "campaignId r = in_campaignId ?x" "workspaceId r = in_workspaceId ?x" "objective r = in_objective ?x"
      "authorizedActions r = in_authorizedActions ?x"
    by (auto simp: parsePersisted_def v and_then_Inr normalize_cases simp del: normal_form_simps)
  from parse_tasks_Inr [OF len ts] have t: "map CampaignStep.truncate (tasks r) = in_tasks ?x" "list_all task_ok (tasks r)" by auto
  have "in_keys ?x = canonical_keys" by (simp add: record_input_def)
  then have "record_input r = ?x" by (simp add: record_input_def r t del: normal_form_simps)
  then show ?thesis
    using p sha rev t by (simp add: record_ok_def r plan_ok_normal_form del: normal_form_simps)
qed

lemma stored_task_simps [simp]:
  "CampaignStep.truncate (stored_task t) = CampaignStep.truncate t" "state (stored_task t) = state_name (state t)"
  "operationId (stored_task t) = operationId t" "proof_of (stored_task t) = proof_of t"
  by (simp_all add: stored_task_def)

lemma record_input_stored [simp]: "record_input (stored_record r) = record_input r"
  by (simp add: record_input_def stored_record_def comp_def)

lemma parse_stored_tasks:
  "list_all task_ok ts \<Longrightarrow> mapM parse_stored_task (zip (map stored_task ts) (map CampaignStep.truncate ts)) = Inr ts"
proof (induction ts)
  case (Cons t ts)
  then have "parse_stored_task (stored_task t, CampaignStep.truncate t) = Inr t" by (simp add: parse_task_Inr)
  with Cons show ?case by simp
qed simp

lemma parse_stored:
  assumes "record_ok H own r"
  shows "parsePersisted H own (StoredRecord (stored_record r)) = Inr r"
proof -
  have n: "normalize H (record_input r) = Inr (record_input r)" "in_tasks (record_input r) = map CampaignStep.truncate (tasks r)"
    using assms by (auto simp: record_ok_def normalize_cases record_input_def)
  show ?thesis
    using assms n parse_stored_tasks [of "tasks r"]
    by (auto simp: parsePersisted_def record_ok_def ensure_def) (auto simp: stored_record_def record_input_def)
qed

section \<open>Tasks of a record\<close>

lemma find_task_iff:
  "distinct (map step_id ts) \<Longrightarrow> find_task i ts = Some t \<longleftrightarrow> t \<in> set ts \<and> step_id t = i"
  unfolding find_task_def by (induction ts) (auto simp: image_iff)

lemma find_task_id: "find_task i ts = Some t \<Longrightarrow> t \<in> set ts \<and> step_id t = i"
  unfolding find_task_def by (auto simp: find_Some_iff)

lemma find_task_None: "find_task i ts = None \<longleftrightarrow> i \<notin> step_id ` set ts"
  unfolding find_task_def by (auto simp: find_None_iff)

lemma find_task_set_task:
  "(\<And>t. step_id (f t) = step_id t) \<Longrightarrow>
    find_task i (set_task j f ts) = (if i = j then map_option f (find_task i ts) else find_task i ts)"
  unfolding find_task_def set_task_def by (induction ts) auto

lemma set_task_truncate:
  "(\<And>t. CampaignStep.truncate (f t) = CampaignStep.truncate t) \<Longrightarrow>
    map CampaignStep.truncate (set_task i f ts) = map CampaignStep.truncate ts"
  by (simp add: set_task_def)

lemma record_ids: "record_ok H own r \<Longrightarrow> distinct (map step_id (tasks r))"
  by (simp add: record_ok_def plan_ok_def record_input_def comp_def)

lemma claim_task_input [simp]: "record_input (claim_task e i r) = record_input r"
  by (simp add: record_input_def claim_task_def set_task_truncate CampaignStep.defs)

lemma settle_task_input [simp]: "record_input (settle_task e i next pf r) = record_input r"
  by (simp add: record_input_def settle_task_def set_task_truncate CampaignStep.defs)

lemma claim_task_simps [simp]:
  "workspaceId (claim_task e i r) = workspaceId r" "campaignId (claim_task e i r) = campaignId r"
  "revision (claim_task e i r) = revision r + 1" "version (claim_task e i r) = version r"
  "ownerScopeHash (claim_task e i r) = ownerScopeHash r" "definitionDigest (claim_task e i r) = definitionDigest r"
  by (simp_all add: claim_task_def)

lemma settle_task_simps [simp]:
  "workspaceId (settle_task e i n p r) = workspaceId r" "campaignId (settle_task e i n p r) = campaignId r"
  "revision (settle_task e i n p r) = revision r + 1" "version (settle_task e i n p r) = version r"
  "ownerScopeHash (settle_task e i n p r) = ownerScopeHash r" "definitionDigest (settle_task e i n p r) = definitionDigest r"
  by (simp_all add: settle_task_def)

lemma record_ok_claim:
  assumes "record_ok H own r" and "UUID_test (randomUUID e)" and "revision r + 1 < 2 ^ 53"
  shows "record_ok H own (claim_task e i r)"
proof -
  have "list_all task_ok (tasks (claim_task e i r))"
    using assms by (auto simp: record_ok_def claim_task_def set_task_def list_all_iff task_ok_def)
  with assms show ?thesis unfolding record_ok_def by auto
qed

text \<open>
  A proof that a later read accepts. \<open>transition\<close> asks for it only when it needs evidence.
\<close>

definition proof_fits :: "CampaignProof option \<Rightarrow> bool" where
  "proof_fits pf = (case pf of None \<Rightarrow> True | Some p \<Rightarrow> kind p = ''verified'' \<longrightarrow> verified_proof pf)"

lemma record_ok_settle:
  assumes "record_ok H own r" and "revision r + 1 < 2 ^ 53"
    and "transition_refusal (find_task i (tasks r)) opId next pf = None" and "next \<noteq> Pending" and "next \<noteq> Completed \<Longrightarrow> proof_fits pf"
  shows "record_ok H own (settle_task e i next pf r)"
proof -
  obtain t where t: "find_task i (tasks r) = Some t" "operationId t = Some opId" "UUID_test opId"
    and c: "next = Completed \<longrightarrow> verified_proof pf"
    using assms(3) by (auto simp: transition_refusal_def split: option.splits if_splits)
  have fits: "proof_fits pf" using c assms(5) by (cases "next = Completed") (auto simp: proof_fits_def split: option.splits)
  have "task_ok u \<Longrightarrow> step_id u = i \<Longrightarrow> u \<in> set (tasks r) \<Longrightarrow>
      task_ok (u\<lparr>state := next, proof_of := (case pf of Some p \<Rightarrow> if kind p = ''verified'' then Some p else proof_of u | None \<Rightarrow> proof_of u)\<rparr>)"
    for u
    using t c fits assms(4) find_task_iff [OF record_ids [OF assms(1)], of i u]
    by (cases pf) (auto simp: task_ok_def proof_fits_def verified_proof_def split: if_splits)
  then have "list_all task_ok (tasks (settle_task e i next pf r))"
    using assms(1) by (auto simp: record_ok_def settle_task_def set_task_def list_all_iff)
  with assms(1,2) show ?thesis unfolding record_ok_def by auto
qed

section \<open>Effects of the operations\<close>

text \<open>A campaign on file, under its own identity.\<close>

definition holds :: "host \<Rightarrow> DelegatedCampaignLedger \<Rightarrow> files \<Rightarrow> string \<Rightarrow> string \<Rightarrow> CampaignTaskState CampaignRecord \<Rightarrow> bool" where
  "holds H L fs w i r = (get_campaign H L fs w i = Inr (Some r) \<and> workspaceId r = w \<and> campaignId r = i)"

lemma holds_record_ok: "holds H L fs w i r \<Longrightarrow> record_ok H (lg_ownerScopeHash L) r"
  unfolding holds_def get_campaign_def
  by (auto simp: and_then_Inr split: option.splits intro: parsePersisted_ok)

lemma holds_unique: "holds H L fs w i r \<Longrightarrow> holds H L fs w i r' \<Longrightarrow> r = r'"
  by (simp add: holds_def)

lemma record_ok_file:
  "record_ok H own r \<Longrightarrow> \<exists>f. ledger_file H L (workspaceId r) (campaignId r) = Inr f"
  by (simp add: record_ok_def plan_ok_def record_input_def ledger_file_def)

lemma write_then_holds:
  assumes "record_ok H (lg_ownerScopeHash L) r" and "write_then H L e r x fs = (res, fs')"
  shows "res \<noteq> Inr x \<and> fs' = fs \<or> res = Inr x \<and> holds H L fs' (workspaceId r) (campaignId r) r"
proof -
  obtain f where f: "ledger_file H L (workspaceId r) (campaignId r) = Inr f" using record_ok_file [OF assms(1)] by blast
  show ?thesis
  proof (cases "writeError e")
    case None
    with assms(2) f have "res = Inr x" "fs' = Map_set fs f (StoredRecord (stored_record r))"
      by (auto simp: write_then_def write_campaign_def)
    then show ?thesis by (simp add: holds_def get_campaign_def f Map_get_set parse_stored [OF assms(1)])
  qed (use assms(2) f in \<open>auto simp: write_then_def write_campaign_def\<close>)
qed

lemma under_lease_fs: "under_lease l fn fs = (res, fs') \<Longrightarrow> fs' = fs \<and> (\<exists>err. res = Inl err) \<or> (\<exists>r0. fn fs = (r0, fs') \<and> (res = r0 \<or> (\<exists>err. res = Inl err)))"
  by (cases l; cases "fn fs") (auto simp: under_lease_def)

lemma holds_file: "holds H L fs w i r \<Longrightarrow> \<exists>f. ledger_file H L w i = Inr f"
  by (auto simp: holds_def get_campaign_def and_then_Inr)

lemma claimNext_effect:
  assumes h: "holds H L fs w i r" and "claimNext H L e w i fs = (res, fs')"
    and "UUID_test (randomUUID e)" and "revision r + 1 < 2 ^ 53"
  obtains (kept) "holds H L fs' w i r" "\<And>tid opId r'. res \<noteq> Inr (Claimed tid opId r')"
      "\<And>r'. res = Inr (NoRunnableStep r') \<Longrightarrow> r' = r \<and>
         (list_ex (\<lambda>t. state t = InFlight) (tasks r) \<or> List.find (runnable (tasks r)) (tasks r) = None)"
    | (claimed) t where "t \<in> set (tasks r)" "runnable (tasks r) t" "\<not> list_ex (\<lambda>t. state t = InFlight) (tasks r)"
      "holds H L fs' w i (claim_task e (step_id t) r)"
      "res = Inr (Claimed (step_id t) (randomUUID e) (claim_task e (step_id t) r)) \<or> (\<exists>err. res = Inl err)"
proof -
  have get: "get_campaign H L fs w i = Inr (Some r)" and wi: "workspaceId r = w" "campaignId r = i"
    using h by (simp_all add: holds_def)
  obtain f where f: "ledger_file H L w i = Inr f" using holds_file [OF h] by blast
  show ?thesis
  proof (cases "\<not> list_ex (\<lambda>t. state t = InFlight) (tasks r) \<and> List.find (runnable (tasks r)) (tasks r) \<noteq> None")
    case False
    then have "res = Inr (NoRunnableStep r) \<or> (\<exists>err. res = Inl err)" "fs' = fs"
      using assms(2) get f by (auto simp: claimNext_def locked_def dest!: under_lease_fs split: if_splits)
    with h False show ?thesis by (intro kept) auto
  next
    case True
    then obtain t where t: "List.find (runnable (tasks r)) (tasks r) = Some t" by auto
    then have t': "t \<in> set (tasks r)" "runnable (tasks r) t" by (auto simp: find_Some_iff)
    let ?r = "claim_task e (step_id t) r"
    have ok: "record_ok H (lg_ownerScopeHash L) ?r" by (rule record_ok_claim [OF holds_record_ok [OF h] assms(3,4)])
    from assms(2) True t get f consider "fs' = fs" "\<exists>err. res = Inl err"
      | r0 where "write_then H L e ?r (Claimed (step_id t) (randomUUID e) ?r) fs = (r0, fs')" "res = r0 \<or> (\<exists>err. res = Inl err)"
      by (auto simp: claimNext_def locked_def Let_def dest!: under_lease_fs)
    then show ?thesis
    proof cases
      case 1
      with h show ?thesis by (intro kept) auto
    next
      case 2
      from write_then_holds [OF ok 2(1)] show ?thesis
      proof
        assume r0: "r0 \<noteq> Inr (Claimed (step_id t) (randomUUID e) ?r) \<and> fs' = fs"
        have "\<exists>err. r0 = Inl err" using 2(1) r0 by (auto simp: write_then_def split: sum.splits prod.splits)
        with h r0 2(2) show ?thesis by (intro kept) auto
      qed (use claimed [OF t'] True 2(2) wi in auto)
    qed
  qed
qed

lemma transition_effect:
  assumes h: "holds H L fs w i r" and "transition H L e w i tid opId next pf fs = (res, fs')"
    and "next \<noteq> Pending" and "next \<noteq> Completed \<Longrightarrow> proof_fits pf" and "revision r + 1 < 2 ^ 53"
  obtains (kept) "holds H L fs' w i r" "\<exists>err. res = Inl err"
    | (settled) "transition_refusal (find_task tid (tasks r)) opId next pf = None"
      "holds H L fs' w i (settle_task e tid next pf r)"
      "res = Inr (settle_task e tid next pf r) \<or> (\<exists>err. res = Inl err)"
proof -
  have get: "get_campaign H L fs w i = Inr (Some r)" and wi: "workspaceId r = w" "campaignId r = i"
    using h by (simp_all add: holds_def)
  obtain f where f: "ledger_file H L w i = Inr f" using holds_file [OF h] by blast
  show ?thesis
  proof (cases "transition_refusal (find_task tid (tasks r)) opId next pf")
    case (Some m)
    then have "fs' = fs" "\<exists>err. res = Inl err"
      using assms(2) get f by (auto simp: transition_def locked_def dest!: under_lease_fs)
    with h show ?thesis by (intro kept) auto
  next
    case None
    let ?r = "settle_task e tid next pf r"
    have ok: "record_ok H (lg_ownerScopeHash L) ?r"
      by (rule record_ok_settle [OF holds_record_ok [OF h] assms(5) None assms(3,4)])
    from assms(2) None get f consider "fs' = fs" "\<exists>err. res = Inl err"
      | r0 where "write_then H L e ?r ?r fs = (r0, fs')" "res = r0 \<or> (\<exists>err. res = Inl err)"
      by (auto simp: transition_def locked_def Let_def dest!: under_lease_fs)
    then show ?thesis
    proof cases
      case 1
      with h show ?thesis by (intro kept) auto
    next
      case 2
      from write_then_holds [OF ok 2(1)] show ?thesis
      proof
        assume r0: "r0 \<noteq> Inr ?r \<and> fs' = fs"
        have "\<exists>err. r0 = Inl err" using 2(1) r0 by (auto simp: write_then_def split: sum.splits prod.splits)
        with h r0 2(2) show ?thesis by (intro kept) auto
      qed (use settled [OF None] 2(2) wi in auto)
    qed
  qed
qed

section \<open>The abstract campaign\<close>

text \<open>
  What the ledger promises: a map from steps to states. A pending step is claimed when none is in flight, its
  dependencies are completed and no other step on its resource is blocked or of unknown outcome; a step in flight settles; an unknown
  outcome is settled later.
\<close>

type_synonym task_states = "string \<rightharpoonup> CampaignTaskState"

inductive campaign_step :: "DelegatedCampaignInput \<Rightarrow> task_states \<Rightarrow> task_states \<Rightarrow> bool" for x where
  claim: "t \<in> set (in_tasks x) \<Longrightarrow> \<sigma> (step_id t) = Some Pending \<Longrightarrow> Some InFlight \<notin> range \<sigma> \<Longrightarrow>
    (\<forall>d \<in> set (dependsOn t). \<sigma> d = Some Completed) \<Longrightarrow>
    (\<forall>u \<in> set (in_tasks x). step_id u \<noteq> step_id t \<and> targetResource u = targetResource t \<longrightarrow>
      \<sigma> (step_id u) \<notin> {Some OutcomeUnknown, Some Blocked}) \<Longrightarrow>
    campaign_step x \<sigma> (\<sigma>(step_id t \<mapsto> InFlight))"
| settle: "\<sigma> i = Some InFlight \<Longrightarrow> next \<in> {Completed, Failed, Blocked, OutcomeUnknown} \<Longrightarrow> campaign_step x \<sigma> (\<sigma>(i \<mapsto> next))"
| reconcile: "\<sigma> i = Some OutcomeUnknown \<Longrightarrow> next \<in> {Completed, Failed, Blocked} \<Longrightarrow> campaign_step x \<sigma> (\<sigma>(i \<mapsto> next))"

definition task_states_of :: "CampaignTaskState CampaignRecord \<Rightarrow> task_states" where
  "task_states_of r = (\<lambda>i. map_option state (find_task i (tasks r)))"

definition all_pending :: "DelegatedCampaignInput \<Rightarrow> task_states" where
  "all_pending x = (\<lambda>i. if i \<in> step_id ` set (in_tasks x) then Some Pending else None)"

definition order_kept :: "DelegatedCampaignInput \<Rightarrow> task_states \<Rightarrow> bool" where
  "order_kept x \<sigma> = (distinct (map step_id (in_tasks x)) \<longrightarrow>
     (\<forall>t \<in> set (in_tasks x). \<sigma> (step_id t) \<notin> {None, Some Pending} \<longrightarrow> (\<forall>d \<in> set (dependsOn t). \<sigma> d = Some Completed)) \<and>
     (\<forall>i j. \<sigma> i = Some InFlight \<and> \<sigma> j = Some InFlight \<longrightarrow> i = j))"

lemma distinct_ids: "distinct (map step_id ts) \<Longrightarrow> t \<in> set ts \<Longrightarrow> u \<in> set ts \<Longrightarrow> step_id t = step_id u \<Longrightarrow> t = u"
  by (auto simp: distinct_map dest: inj_onD)

lemma order_kept_settle:
  assumes kept: "order_kept x \<sigma>" and i: "\<sigma> i = Some InFlight \<or> \<sigma> i = Some OutcomeUnknown" and n: "n \<notin> {Pending, InFlight}"
  shows "order_kept x (\<sigma>(i \<mapsto> n))"
proof (cases "distinct (map step_id (in_tasks x))")
  case True
  have "(\<sigma>(i \<mapsto> n)) d = Some Completed"
    if "t \<in> set (in_tasks x)" "(\<sigma>(i \<mapsto> n)) (step_id t) \<notin> {None, Some Pending}" "d \<in> set (dependsOn t)" for t d
  proof -
    have "\<sigma> (step_id t) \<notin> {None, Some Pending}" using that(2) i by (cases "step_id t = i") auto
    with kept True that have "\<sigma> d = Some Completed" unfolding order_kept_def by blast
    with i show ?thesis by (cases "d = i") auto
  qed
  moreover have "a = b" if "(\<sigma>(i \<mapsto> n)) a = Some InFlight" "(\<sigma>(i \<mapsto> n)) b = Some InFlight" for a b
  proof -
    have "\<sigma> a = Some InFlight" "\<sigma> b = Some InFlight" using that n by (cases "a = i"; cases "b = i"; simp)+
    with kept True show ?thesis unfolding order_kept_def by blast
  qed
  ultimately show ?thesis unfolding order_kept_def by blast
qed (simp add: order_kept_def)

lemma order_kept_step:
  assumes "order_kept x \<sigma>" and "campaign_step x \<sigma> \<sigma>'"
  shows "order_kept x \<sigma>'"
proof (cases "distinct (map step_id (in_tasks x))")
  case True
  have started: "\<sigma> d = Some Completed" if "t \<in> set (in_tasks x)" "\<sigma> (step_id t) \<notin> {None, Some Pending}" "d \<in> set (dependsOn t)" for t d
    using that assms(1) True unfolding order_kept_def by blast
  have one: "i = j" if "\<sigma> i = Some InFlight" "\<sigma> j = Some InFlight" for i j
    using that assms(1) True unfolding order_kept_def by blast
  from assms(2) show ?thesis
  proof cases
    case (claim t)
    have "\<sigma>' d = Some Completed" if "u \<in> set (in_tasks x)" "\<sigma>' (step_id u) \<notin> {None, Some Pending}" "d \<in> set (dependsOn u)" for u d
    proof -
      have "\<sigma> d = Some Completed"
      proof (cases "step_id u = step_id t")
        case True
        then have "u = t" using distinct_ids [OF \<open>distinct (map step_id (in_tasks x))\<close>] that(1) claim(2) by blast
        with that(3) claim(5) show ?thesis by blast
      next
        case False
        then have "\<sigma> (step_id u) \<notin> {None, Some Pending}" using that(2) claim(1) by simp
        with started that(1,3) show ?thesis by blast
      qed
      with claim(1,3) show ?thesis by auto
    qed
    moreover have "i = j" if "\<sigma>' i = Some InFlight" "\<sigma>' j = Some InFlight" for i j
    proof -
      have "\<sigma> k \<noteq> Some InFlight" for k using claim(4) by (metis rangeI)
      with that claim(1) show ?thesis by (simp split: if_splits)
    qed
    ultimately show ?thesis unfolding order_kept_def by blast
  next
    case (settle i n)
    then show ?thesis using order_kept_settle [OF assms(1), of i n] by auto
  next
    case (reconcile i n)
    then show ?thesis using order_kept_settle [OF assms(1), of i n] by auto
  qed
qed (simp add: order_kept_def)

lemma order_kept_initial: "order_kept x (all_pending x)"
  by (simp add: order_kept_def all_pending_def)

interpretation plan_run: transition_system "campaign_step x" "all_pending x" "order_kept x" for x
  by unfold_locales (rule order_kept_initial, rule order_kept_step)

text \<open>The operations on the record are steps of the abstract campaign.\<close>

lemma task_states_claim:
  "task_states_of (claim_task e i r) = (\<lambda>j. if j = i \<and> task_states_of r i \<noteq> None then Some InFlight else task_states_of r j)"
  by (auto simp: task_states_of_def claim_task_def find_task_set_task fun_eq_iff)

lemma task_states_settle:
  "task_states_of (settle_task e i n p r) = (\<lambda>j. if j = i \<and> task_states_of r i \<noteq> None then Some n else task_states_of r j)"
  by (auto simp: task_states_of_def settle_task_def find_task_set_task fun_eq_iff)

lemma task_states_in:
  "record_ok H own r \<Longrightarrow> t \<in> set (tasks r) \<Longrightarrow> task_states_of r (step_id t) = Some (state t)"
  using find_task_iff [OF record_ids, of H own r "step_id t" t] by (simp add: task_states_of_def)

lemma task_states_Some: "task_states_of r i = Some st \<Longrightarrow> \<exists>t \<in> set (tasks r). step_id t = i \<and> state t = st"
  by (auto simp: task_states_of_def dest: find_task_id)

lemma claim_refines:
  assumes ok: "record_ok H own r" and t: "t \<in> set (tasks r)" "runnable (tasks r) t" "\<not> list_ex (\<lambda>t. state t = InFlight) (tasks r)"
  shows "campaign_step (record_input r) (task_states_of r) (task_states_of (claim_task e (step_id t) r))"
proof -
  let ?x = "record_input r" and ?b = "CampaignStep.truncate t"
  have "task_states_of (claim_task e (step_id t) r) = (task_states_of r)(step_id ?b \<mapsto> InFlight)"
    using task_states_in [OF ok t(1)] by (auto simp: task_states_claim)
  moreover have "campaign_step ?x (task_states_of r) ((task_states_of r)(step_id ?b \<mapsto> InFlight))"
  proof (rule campaign_step.claim)
    show "?b \<in> set (in_tasks ?x)" using t(1) by (simp add: record_input_def)
    show "task_states_of r (step_id ?b) = Some Pending" using task_states_in [OF ok t(1)] t(2) by (simp add: runnable_def)
    show "Some InFlight \<notin> range (task_states_of r)"
      using t(3) by (auto simp: list_ex_iff dest!: sym [of "Some InFlight"] dest: task_states_Some)
    show "\<forall>d \<in> set (dependsOn ?b). task_states_of r d = Some Completed"
      using t(2) by (auto simp: runnable_def list_all_iff task_states_of_def split: option.splits)
    show "\<forall>u \<in> set (in_tasks ?x). step_id u \<noteq> step_id ?b \<and> targetResource u = targetResource ?b \<longrightarrow>
        task_states_of r (step_id u) \<notin> {Some OutcomeUnknown, Some Blocked}"
      using t(2) task_states_in [OF ok] by (auto simp: runnable_def list_ex_iff record_input_def)
  qed
  ultimately show ?thesis by simp
qed

lemma settle_refines:
  assumes "transition_refusal (find_task i (tasks r)) opId next pf = None" and "next \<notin> {Pending, InFlight}"
  shows "campaign_step (record_input r) (task_states_of r) (task_states_of (settle_task e i next pf r))"
proof -
  obtain t where t: "find_task i (tasks r) = Some t" "state t = InFlight \<or> state t = OutcomeUnknown \<and> next \<noteq> OutcomeUnknown"
    using assms(1) by (auto simp: transition_refusal_def split: option.splits if_splits)
  then have "task_states_of r i \<noteq> None" by (simp add: task_states_of_def)
  then have "task_states_of (settle_task e i next pf r) = (task_states_of r)(i \<mapsto> next)"
    by (auto simp: task_states_settle)
  moreover have "next \<in> {Completed, Failed, Blocked, OutcomeUnknown}" using assms(2) by (cases "next") auto
  ultimately show ?thesis using t by (auto simp: task_states_of_def intro: campaign_step.settle campaign_step.reconcile)
qed

section \<open>Runs of calls\<close>

datatype ledger_call = CallClaim io | CallSettle io string string CampaignTaskState "CampaignProof option"

text \<open>
  What the types of \<open>transition\<close> and \<open>randomUUID\<close> promise of a call, and, for the outcomes for which \<open>transition\<close> does not
  always check the proof (failed, blocked, unknown), a proof that fits; for a completed task the check is its own.
\<close>

fun call_ok :: "ledger_call \<Rightarrow> bool" where
  "call_ok (CallClaim e) = UUID_test (randomUUID e)"
| "call_ok (CallSettle e tid opId next pf) = (next \<notin> {Pending, InFlight} \<and> (next \<noteq> Completed \<longrightarrow> proof_fits pf))"

fun call :: "host \<Rightarrow> DelegatedCampaignLedger \<Rightarrow> string \<Rightarrow> string \<Rightarrow> ledger_call \<Rightarrow> files \<Rightarrow> files" where
  "call H L w i (CallClaim e) fs = snd (claimNext H L e w i fs)"
| "call H L w i (CallSettle e tid opId next pf) fs = snd (transition H L e w i tid opId next pf fs)"

lemma call_refines:
  assumes h: "holds H L fs w i r" and "call_ok c" and "revision r + 1 < 2 ^ 53"
  shows "\<exists>r'. holds H L (call H L w i c fs) w i r' \<and> record_input r' = record_input r \<and> revision r' \<le> revision r + 1 \<and>
    (campaign_step (record_input r))\<^sup>*\<^sup>* (task_states_of r) (task_states_of r')"
proof (cases c)
  case (CallClaim e)
  obtain res fs' where c: "claimNext H L e w i fs = (res, fs')" by force
  show ?thesis
  proof (rule claimNext_effect [OF h c])
    assume "holds H L fs' w i r"
    then show ?thesis using c CallClaim by auto
  next
    fix t assume t: "t \<in> set (tasks r)" "runnable (tasks r) t" "\<not> list_ex (\<lambda>t. state t = InFlight) (tasks r)"
      "holds H L fs' w i (claim_task e (step_id t) r)"
    have "campaign_step (record_input r) (task_states_of r) (task_states_of (claim_task e (step_id t) r))"
      by (rule claim_refines [OF holds_record_ok [OF h] t(1-3)])
    then show ?thesis using t(4) c CallClaim by (intro exI [of _ "claim_task e (step_id t) r"]) auto
  qed (use assms CallClaim in auto)
next
  case (CallSettle e tid opId n pf)
  obtain res fs' where c: "transition H L e w i tid opId n pf fs = (res, fs')" by force
  show ?thesis
  proof (rule transition_effect [OF h c])
    assume "holds H L fs' w i r"
    then show ?thesis using c CallSettle by auto
  next
    assume t: "transition_refusal (find_task tid (tasks r)) opId n pf = None" "holds H L fs' w i (settle_task e tid n pf r)"
    have "campaign_step (record_input r) (task_states_of r) (task_states_of (settle_task e tid n pf r))"
      using settle_refines [OF t(1)] assms(2) CallSettle by simp
    then show ?thesis using t(2) c CallSettle by (intro exI [of _ "settle_task e tid n pf r"]) auto
  qed (use assms CallSettle in auto)
qed

lemma calls_refine:
  assumes "holds H L fs w i r" and "list_all call_ok cs" and "revision r + int (length cs) < 2 ^ 53"
  shows "\<exists>r'. holds H L (fold (call H L w i) cs fs) w i r' \<and> record_input r' = record_input r \<and>
    (campaign_step (record_input r))\<^sup>*\<^sup>* (task_states_of r) (task_states_of r')"
  using assms
proof (induction cs arbitrary: fs r)
  case (Cons c cs)
  obtain r1 where r1: "holds H L (call H L w i c fs) w i r1" "record_input r1 = record_input r" "revision r1 \<le> revision r + 1"
    "(campaign_step (record_input r))\<^sup>*\<^sup>* (task_states_of r) (task_states_of r1)"
    using call_refines [OF Cons.prems(1), of c] Cons.prems(2,3) by auto
  have "revision r1 + int (length cs) < 2 ^ 53" using r1(3) Cons.prems(3) by simp
  with Cons.IH [OF r1(1)] Cons.prems(2) r1 show ?case by (auto intro: rtranclp_trans)
qed auto

section \<open>The hashed text\<close>

lemma step_json_inj: "step_json t = step_json u \<longleftrightarrow> (t :: CampaignStep) = u"
  by (cases t; cases u) (auto simp: step_json_def inj_map_eq_map inj_def)

lemma input_json_inj:
  assumes "input_json x = input_json y" and "in_keys x = canonical_keys" and "in_keys y = canonical_keys"
  shows "x = y"
proof -
  have "inj (step_json :: CampaignStep \<Rightarrow> json)" by (simp add: inj_def step_json_inj)
  then show ?thesis
    using assms by (cases x; cases y) (simp add: input_json_def canonical_keys_def inj_map_eq_map inj_def)
qed

section \<open>Creating a campaign\<close>

lemma initial_record_simps [simp]:
  "workspaceId (initial_record H L e n) = in_workspaceId n" "campaignId (initial_record H L e n) = in_campaignId n"
  "revision (initial_record H L e n) = 0" "definitionDigest (initial_record H L e n) = plan_digest H n"
  "ownerScopeHash (initial_record H L e n) = lg_ownerScopeHash L" "version (initial_record H L e n) = 1"
  by (simp_all add: initial_record_def)

lemma initial_record_input: "record_input (initial_record H L e n) = n\<lparr>in_keys := canonical_keys\<rparr>"
  by (cases n) (simp add: initial_record_def record_input_def comp_def)

lemma plan_ok_keys [simp]: "plan_ok H (n\<lparr>in_keys := ks\<rparr>) = plan_ok H n"
  by (simp add: plan_ok_def)

lemma normal_form_keys [simp]: "normal_form (n\<lparr>in_keys := ks\<rparr>) = (normal_form n)\<lparr>in_keys := ks\<rparr>"
  by (simp add: normal_form_def)

lemma initial_record_ok:
  assumes "plan_ok H x" and "SHA256_test (plan_digest H (normal_form x))" and "in_keys x = canonical_keys"
  shows "record_ok H (lg_ownerScopeHash L) (initial_record H L e (normal_form x))"
proof -
  have "(normal_form x)\<lparr>in_keys := canonical_keys\<rparr> = normal_form x"
    using assms(3) by (metis DelegatedCampaignInput.cases_scheme DelegatedCampaignInput.update_convs(6) DelegatedCampaignInput.select_convs(6) normal_form_simps(4))
  then have "record_input (initial_record H L e (normal_form x)) = normal_form x" by (simp add: initial_record_input)
  moreover have "list_all task_ok (tasks (initial_record H L e (normal_form x)))"
    by (simp add: initial_record_def list_all_iff task_ok_def)
  ultimately show ?thesis using assms by (simp add: record_ok_def plan_ok_normal_form)
qed

lemma create_fresh:
  assumes "create_campaign H L e x fs = (Inr r, fs')" and "get_campaign H L fs (in_workspaceId x) (in_campaignId x) = Inr None"
  obtains f where "plan_ok H x" "r = initial_record H L e (normal_form x)" "ledger_file H L (in_workspaceId x) (in_campaignId x) = Inr f"
    "fs' = Map_set fs f (StoredRecord (stored_record r))"
proof -
  obtain n where n: "normalize H x = Inr n" using assms(1) by (cases "normalize H x") (auto simp: create_campaign_def)
  then have p: "plan_ok H x" and nf: "n = normal_form x" by (auto simp: normalize_cases)
  obtain f where f: "ledger_file H L (in_workspaceId x) (in_campaignId x) = Inr f"
    using assms(2) by (auto simp: get_campaign_def and_then_Inr)
  have "lease e = Held" using assms(1) n f
    by (cases "lease e") (auto simp: create_campaign_def locked_def under_lease_def Let_def nf)
  then have "write_then H L e (initial_record H L e n) (initial_record H L e n) fs = (Inr r, fs')"
    using assms n f by (simp add: create_campaign_def locked_def under_lease_def Let_def nf)
  then have "r = initial_record H L e n" "fs' = Map_set fs f (StoredRecord (stored_record r))"
    using f by (auto simp: write_then_def write_campaign_def nf split: option.splits)
  with that p nf f show thesis by blast
qed

lemma create_holds:
  assumes "create_campaign H L e x fs = (Inr r, fs')" and "get_campaign H L fs (in_workspaceId x) (in_campaignId x) = Inr None"
    and "\<forall>s. SHA256_test (sha256 H s)" and "in_keys x = canonical_keys"
  shows "holds H L fs' (in_workspaceId x) (in_campaignId x) r" and "record_input r = normal_form x" and "plan_ok H x"
    and "r = initial_record H L e (normal_form x)"
proof -
  obtain f where c: "plan_ok H x" "r = initial_record H L e (normal_form x)" "ledger_file H L (in_workspaceId x) (in_campaignId x) = Inr f"
    "fs' = Map_set fs f (StoredRecord (stored_record r))"
    using create_fresh [OF assms(1,2)] by blast
  have "SHA256_test (plan_digest H (normal_form x))" using assms(3) by (simp add: plan_digest_def)
  from initial_record_ok [OF c(1) this assms(4)] c(2) have ok: "record_ok H (lg_ownerScopeHash L) r" by simp
  then show "holds H L fs' (in_workspaceId x) (in_campaignId x) r"
    using c by (simp add: holds_def get_campaign_def Map_get_set parse_stored)
  have "in_keys (normal_form x) = canonical_keys" by (simp add: assms(4))
  then show "record_input r = normal_form x" by (cases "normal_form x") (simp add: c(2) initial_record_input)
qed (use create_fresh [OF assms(1,2)] in blast)+

lemma initial_states:
  "task_states_of (initial_record H L e n) = all_pending n"
proof
  fix i
  have "map_option state (find_task i (map (\<lambda>t. extend_step t Pending None None) ts)) =
      (if i \<in> step_id ` set ts then Some Pending else None)" for ts
    by (induction ts) (auto simp: find_task_def)
  then show "task_states_of (initial_record H L e n) i = all_pending n i"
    by (simp add: task_states_of_def all_pending_def initial_record_def)
qed

section \<open>A sample campaign\<close>

definition demo_ledger :: DelegatedCampaignLedger where
  "demo_ledger = \<lparr>directory = ''/state'', lg_ownerScopeHash = replicate 64 (CHR ''a'')\<rparr>"

definition demo_io :: io where
  "demo_io = \<lparr>lease = Held, writeError = None, now = ''2026-01-01T00:00:00.000Z'', randomUUID = demo_uuid (CHR ''2'')\<rparr>"

definition demo_proof :: CampaignProof where
  "demo_proof = \<lparr>kind = ''verified'', reference = ''run 1''\<rparr>"

definition demo_files :: files where
  "demo_files = snd (create_campaign demo_host demo_ledger demo_io demo_plan [])"

lemma demo_created:
  "get_campaign demo_host demo_ledger [] (in_workspaceId demo_plan) (in_campaignId demo_plan) = Inr None"
  "create_campaign demo_host demo_ledger demo_io demo_plan [] =
     (Inr (initial_record demo_host demo_ledger demo_io (normal_form demo_plan)), demo_files)"
proof -
  have n: "normalize demo_host demo_plan = Inr (normal_form demo_plan)" by code_simp
  then have "WORKSPACE_ID_test (in_workspaceId demo_plan)" "UUID_test (in_campaignId demo_plan)"
    by (auto simp: normalize_cases plan_ok_def)
  then obtain f where f: "ledger_file demo_host demo_ledger (in_workspaceId demo_plan) (in_campaignId demo_plan) = Inr f"
    by (simp add: ledger_file_def)
  then show g: "get_campaign demo_host demo_ledger [] (in_workspaceId demo_plan) (in_campaignId demo_plan) = Inr None"
    by (simp add: get_campaign_def)
  have "fst (create_campaign demo_host demo_ledger demo_io demo_plan []) = Inr (initial_record demo_host demo_ledger demo_io (normal_form demo_plan))"
    by (simp add: create_campaign_def n locked_def f g under_lease_def demo_io_def Let_def write_then_def write_campaign_def)
  then show "create_campaign demo_host demo_ledger demo_io demo_plan [] =
      (Inr (initial_record demo_host demo_ledger demo_io (normal_form demo_plan)), demo_files)"
    by (simp add: demo_files_def prod_eq_iff)
qed

lemma demo_sha: "\<forall>s. SHA256_test (sha256 demo_host s)"
  by (simp add: demo_host_def SHA256_test_def matches_classes_def one_of_def list_all2_conv_all_nth)

lemma demo_keys: "in_keys demo_plan = canonical_keys"
  by (simp add: demo_plan_def)

lemmas demo_holds = create_holds [OF demo_created(2,1) demo_sha demo_keys]

section \<open>Properties\<close>

text \<open>
  Every record the ledger returns is well formed. It belongs to the owner of the ledger and its digest is that of its plan; its plan passes
  all checks of \<open>normalize\<close> and is normalised; a task has an operation identity, a UUID, exactly when it is not pending;
  a completed task has a verified proof with a reference of 1 to 300 characters, and so has every task that has a proof.
\<close>

theorem get_well_formed:
  assumes "get_campaign H L fs w i = Inr (Some r)"
  shows "ownerScopeHash r = lg_ownerScopeHash L \<and> definitionDigest r = plan_digest H (record_input r) \<and>
    plan_ok H (record_input r) \<and> normalize H (record_input r) = Inr (record_input r) \<and>
    (\<forall>t \<in> set (tasks r).
      (state t = Pending \<longleftrightarrow> operationId t = None) \<and> (\<forall>opId. operationId t = Some opId \<longrightarrow> UUID_test opId) \<and>
      (state t = Completed \<longrightarrow> proof_of t \<noteq> None) \<and>
      (\<forall>p. proof_of t = Some p \<longrightarrow> kind p = ''verified'' \<and> 1 \<le> length (reference p) \<and> length (reference p) \<le> 300))"
proof -
  have "record_ok H (lg_ownerScopeHash L) r"
    using assms by (auto simp: get_campaign_def and_then_Inr split: option.splits intro: parsePersisted_ok)
  then show ?thesis
    by (auto simp: record_ok_def normalize_cases task_ok_def verified_proof_def list_all_iff Suc_le_eq split: if_splits option.splits)
qed

text \<open>
  A digest binds a plan. When two records can be read that have the same digest, of whichever owners, they
  have the same plan (identity, objective, authorised actions and steps), or the texts of the two plans are a collision of SHA-256. So a plan
  changed on disk is refused unless its digest is changed with it, and an enrolment that keeps the digest keeps the plan.
\<close>

theorem digest_binds_plan:
  assumes "get_campaign H L fs w i = Inr (Some r)" and "get_campaign H L' fs' w' i' = Inr (Some r')"
    and "definitionDigest r = definitionDigest r'"
  shows "record_input r = record_input r' \<or>
    (stringify (input_json (record_input r)) \<noteq> stringify (input_json (record_input r')) \<and>
     sha256 H (stringify (input_json (record_input r))) = sha256 H (stringify (input_json (record_input r'))))"
proof -
  have ok: "record_ok H (lg_ownerScopeHash L) r" "record_ok H (lg_ownerScopeHash L') r'"
    using assms(1,2) by (auto simp: get_campaign_def and_then_Inr split: option.splits intro: parsePersisted_ok)
  then have "sha256 H (stringify (input_json (record_input r))) = sha256 H (stringify (input_json (record_input r')))"
    using assms(3) by (simp add: record_ok_def plan_digest_def)
  moreover have "record_input r = record_input r'" if "input_json (record_input r) = input_json (record_input r')"
    using that by (rule input_json_inj) (simp_all add: record_input_def)
  ultimately show ?thesis by auto
qed

text \<open>
  C21. Creating and reading back. When a campaign that is not on file is created from a plan whose properties are in the order of
  the interface, reading gives the created record, and creating it again under a held lock returns that record and
  changes nothing. A plan whose properties come in another order, so that its digest differs, is stored as well,
  but every later read refuses it.
\<close>

theorem create_then_get:
  assumes "create_campaign H L e x fs = (Inr r, fs')" and "get_campaign H L fs (in_workspaceId x) (in_campaignId x) = Inr None"
    and "\<forall>s. SHA256_test (sha256 H s)"
  shows "(in_keys x = canonical_keys \<longrightarrow>
      get_campaign H L fs' (in_workspaceId x) (in_campaignId x) = Inr (Some r) \<and>
      (\<forall>e'. lease e' = Held \<longrightarrow> create_campaign H L e' x fs' = (Inr r, fs'))) \<and>
    (plan_digest H ((normal_form x)\<lparr>in_keys := canonical_keys\<rparr>) \<noteq> plan_digest H (normal_form x) \<longrightarrow>
      get_campaign H L fs' (in_workspaceId x) (in_campaignId x) =
        Inl (CAMPAIGN_INVALID ''persisted authorization/plan digest mismatch''))"
proof (intro conjI impI allI)
  assume k: "in_keys x = canonical_keys"
  note c = create_holds [OF assms(1-3) k]
  show g: "get_campaign H L fs' (in_workspaceId x) (in_campaignId x) = Inr (Some r)" using c(1) by (simp add: holds_def)
  then obtain f where "ledger_file H L (in_workspaceId x) (in_campaignId x) = Inr f" by (auto simp: get_campaign_def and_then_Inr)
  moreover have "normalize H x = Inr (normal_form x)" using c(3) by (simp add: normalize_cases)
  moreover have "definitionDigest r = plan_digest H (normal_form x)" by (simp add: c(4))
  ultimately show "create_campaign H L e' x fs' = (Inr r, fs')" if "lease e' = Held" for e'
    using g that by (simp add: create_campaign_def locked_def under_lease_def Let_def ensure_def)
next
  assume d: "plan_digest H ((normal_form x)\<lparr>in_keys := canonical_keys\<rparr>) \<noteq> plan_digest H (normal_form x)"
  obtain f where c: "plan_ok H x" "r = initial_record H L e (normal_form x)" "ledger_file H L (in_workspaceId x) (in_campaignId x) = Inr f"
    "fs' = Map_set fs f (StoredRecord (stored_record r))"
    using create_fresh [OF assms(1,2)] by blast
  have "normalize H (record_input r) = Inr ((normal_form x)\<lparr>in_keys := canonical_keys\<rparr>)"
    using c(1) by (simp add: c(2) initial_record_input normalize_cases plan_ok_normal_form)
  then have "parsePersisted H (lg_ownerScopeHash L) (StoredRecord (stored_record r)) =
      Inl (CAMPAIGN_INVALID ''persisted authorization/plan digest mismatch'')"
    using d assms(3) by (simp add: parsePersisted_def ensure_def) (simp add: stored_record_def c(2) plan_digest_def)
  then show "get_campaign H L fs' (in_workspaceId x) (in_campaignId x) =
      Inl (CAMPAIGN_INVALID ''persisted authorization/plan digest mismatch'')"
    using c by (simp add: get_campaign_def Map_get_set)
qed

theorem create_then_get_witness:
  "get_campaign demo_host demo_ledger demo_files (in_workspaceId demo_plan) (in_campaignId demo_plan) =
     Inr (Some (initial_record demo_host demo_ledger demo_io (normal_form demo_plan)))"
  using create_then_get [OF demo_created(2,1) demo_sha] demo_keys by blast

text \<open>
  C10. The ledger implements the abstract campaign. On a campaign on file, a sequence of \<open>claimNext\<close> and \<open>transition\<close> calls,
  accepted, refused, failing to write or losing their lock, leaves a campaign on file with the same plan, whose task states are
  reached from the former ones by steps of the abstract campaign: a step is claimed only when nothing is in flight,
  its dependencies are completed and no other step of its resource is blocked or unknown, and only a step in flight or of unknown
  outcome is settled. The calls are those in which a failed, blocked or unknown outcome with a verified proof has a bounded one (others can
  make the record unreadable, \<open>unfit_proof_is_stored\<close>), and as many as there is room for revisions below \<open>2 ^ 53\<close>.
\<close>

theorem ledger_refines_campaign:
  assumes "holds H L fs w i r" and "list_all call_ok cs" and "revision r + int (length cs) < 2 ^ 53"
  shows "\<exists>r'. holds H L (fold (call H L w i) cs fs) w i r' \<and> record_input r' = record_input r \<and>
    (campaign_step (record_input r))\<^sup>*\<^sup>* (task_states_of r) (task_states_of r')"
  by (rule calls_refine [OF assms])

definition demo_calls :: "ledger_call list" where
  "demo_calls = [CallClaim demo_io, CallSettle demo_io ''a'' (demo_uuid (CHR ''2'')) Completed (Some demo_proof),
     CallClaim (demo_io\<lparr>randomUUID := demo_uuid (CHR ''3'')\<rparr>), CallSettle demo_io ''b'' (demo_uuid (CHR ''3'')) OutcomeUnknown None]"

lemma demo_calls_ok: "list_all call_ok demo_calls"
proof -
  have "UUID_test (demo_uuid (CHR ''2''))" "UUID_test (demo_uuid (CHR ''3''))" "proof_fits (Some demo_proof)" "proof_fits None"
    by code_simp+
  then show ?thesis by (simp add: demo_calls_def demo_io_def)
qed

abbreviation demo_record :: "CampaignTaskState CampaignRecord" where
  "demo_record \<equiv> initial_record demo_host demo_ledger demo_io (normal_form demo_plan)"

lemma demo_tasks:
  "tasks demo_record = map (\<lambda>t. extend_step t Pending None None) [demo_step ''b'' ''commit'' [''a''], demo_step ''a'' ''edit'' []]"
  by (simp add: initial_record_def normal_form_def demo_plan_def strip_step_def demo_step_def)

theorem ledger_refines_campaign_witness:
  "\<exists>r'. holds demo_host demo_ledger (fold (call demo_host demo_ledger (in_workspaceId demo_plan) (in_campaignId demo_plan)) demo_calls demo_files)
     (in_workspaceId demo_plan) (in_campaignId demo_plan) r' \<and> record_input r' = record_input demo_record \<and>
     (campaign_step (record_input demo_record))\<^sup>*\<^sup>* (task_states_of demo_record) (task_states_of r')"
  by (rule ledger_refines_campaign [OF demo_holds(1) demo_calls_ok]) (simp add: demo_calls_def)

text \<open>
  C20. The order of a campaign. In a campaign created from a plan whose properties are in the order of the interface, after any sequence of calls in which a failed, blocked or
  unknown outcome that comes with a verified proof comes with a bounded one, the campaign can be read, at most one task is in flight, and
  every task that was ever claimed has all its dependencies completed, each with a bounded verified proof.
\<close>

theorem campaign_order_kept:
  assumes "create_campaign H L e x fs = (Inr r, fs')" and "get_campaign H L fs (in_workspaceId x) (in_campaignId x) = Inr None"
    and "\<forall>s. SHA256_test (sha256 H s)" and "in_keys x = canonical_keys"
    and "list_all call_ok cs" and "int (length cs) < 2 ^ 53"
  shows "\<exists>r'. get_campaign H L (fold (call H L (in_workspaceId x) (in_campaignId x)) cs fs') (in_workspaceId x) (in_campaignId x) = Inr (Some r') \<and>
    (\<forall>t \<in> set (tasks r'). state t \<noteq> Pending \<longrightarrow>
      (\<forall>d \<in> set (dependsOn t). \<exists>u \<in> set (tasks r'). step_id u = d \<and> state u = Completed \<and> verified_proof (proof_of u))) \<and>
    (\<forall>t \<in> set (tasks r'). \<forall>u \<in> set (tasks r'). state t = InFlight \<and> state u = InFlight \<longrightarrow> t = u)"
proof -
  note c = create_holds [OF assms(1-4)]
  have "revision r + int (length cs) < 2 ^ 53" using assms(6) by (simp add: c(4))
  from calls_refine [OF c(1) assms(5) this] obtain r' where
    h: "holds H L (fold (call H L (in_workspaceId x) (in_campaignId x)) cs fs') (in_workspaceId x) (in_campaignId x) r'"
    and x: "record_input r' = normal_form x"
    and run: "(campaign_step (normal_form x))\<^sup>*\<^sup>* (task_states_of r) (task_states_of r')"
    using c(2) by auto
  have ok: "record_ok H (lg_ownerScopeHash L) r'" by (rule holds_record_ok [OF h])
  have kept: "order_kept (record_input r') (task_states_of r')"
    using plan_run.reachable_inv [of "normal_form x"] run x by (simp add: c(4) initial_states)
  have ids: "distinct (map step_id (in_tasks (record_input r')))" using record_ids [OF ok] by (simp add: record_input_def comp_def)
  have t: "CampaignStep.truncate t \<in> set (in_tasks (record_input r'))" if "t \<in> set (tasks r')" for t
    using that by (simp add: record_input_def)
  have "\<exists>u \<in> set (tasks r'). step_id u = d \<and> state u = Completed \<and> verified_proof (proof_of u)"
    if "t \<in> set (tasks r')" "state t \<noteq> Pending" "d \<in> set (dependsOn t)" for t d
  proof -
    have "task_states_of r' d = Some Completed"
      using kept ids t [OF that(1)] task_states_in [OF ok that(1)] that(2,3) unfolding order_kept_def by fastforce
    then obtain u where "u \<in> set (tasks r')" "step_id u = d" "state u = Completed" by (auto dest: task_states_Some)
    moreover have "task_ok u" using ok \<open>u \<in> set (tasks r')\<close> by (simp add: record_ok_def list_all_iff)
    ultimately show ?thesis by (auto simp: task_ok_def)
  qed
  moreover have "t = u" if "t \<in> set (tasks r')" "u \<in> set (tasks r')" "state t = InFlight" "state u = InFlight" for t u
  proof -
    have "step_id t = step_id u"
      using kept ids task_states_in [OF ok that(1)] task_states_in [OF ok that(2)] that(3,4) unfolding order_kept_def by fastforce
    then show ?thesis using distinct_ids [OF record_ids [OF ok]] that by blast
  qed
  ultimately show ?thesis using h unfolding holds_def by blast
qed

theorem campaign_order_kept_witness:
  "\<exists>r'. get_campaign demo_host demo_ledger (fold (call demo_host demo_ledger (in_workspaceId demo_plan) (in_campaignId demo_plan)) demo_calls demo_files)
      (in_workspaceId demo_plan) (in_campaignId demo_plan) = Inr (Some r') \<and>
    (\<forall>t \<in> set (tasks r'). \<forall>u \<in> set (tasks r'). state t = InFlight \<and> state u = InFlight \<longrightarrow> t = u)"
proof -
  have "int (length demo_calls) < 2 ^ 53" by (simp add: demo_calls_def)
  from campaign_order_kept [OF demo_created(2,1) demo_sha demo_keys demo_calls_ok this] show ?thesis by blast
qed

text \<open>
  \<open>transition\<close> bounds the reference of a proof only where it needs evidence. A task in flight that is failed or blocked with a
  proof whose reference is empty or longer than 300 characters is recorded, and no later read accepts the record.
\<close>

lemma parse_proofs:
  assumes "parsePersisted H own (StoredRecord q) = Inr r" and "t \<in> set (tasks q)" and "proof_of t = Some p"
  shows "verified_proof (Some p)"
proof -
  obtain x :: DelegatedCampaignInput and ts where len: "length (tasks q) = length (in_tasks x)" and m: "mapM parse_stored_task (zip (tasks q) (in_tasks x)) = Inr ts"
    using assms(1) unfolding parsePersisted_def stored.case ensure_Inr and_then_Inr by blast
  obtain k where k: "k < length (tasks q)" "tasks q ! k = t" using assms(2) by (auto simp: in_set_conv_nth)
  define u where "u = ts ! k"
  have "parse_stored_task (t, in_tasks x ! k) = Inr u"
    using m k len unfolding mapM_Inr u_def by (auto simp: list_all2_conv_all_nth)
  then have "task_ok u" "proof_of u = Some p" using assms(3) by (auto simp: parse_task_Inr)
  then show ?thesis by (simp add: task_ok_def)
qed

theorem unfit_proof_is_stored:
  assumes h: "holds H L fs w i r" and t: "find_task tid (tasks r) = Some t" "state t = InFlight" "operationId t = Some opId"
    and n: "next \<in> {Failed, Blocked}" and p: "kind p = ''verified''" "\<not> verified_proof (Some p)"
    and e: "lease e = Held" "writeError e = None"
  shows "\<exists>r' fs' err. transition H L e w i tid opId next (Some p) fs = (Inr r', fs') \<and> get_campaign H L fs' w i = Inl err"
proof -
  have ok: "record_ok H (lg_ownerScopeHash L) r" by (rule holds_record_ok [OF h])
  obtain f where f: "ledger_file H L w i = Inr f" using holds_file [OF h] by blast
  have "UUID_test opId" using ok t find_task_id [OF t(1)] by (auto simp: record_ok_def list_all_iff task_ok_def)
  with t n have "transition_refusal (find_task tid (tasks r)) opId next (Some p) = None"
    by (auto simp: transition_refusal_def)
  let ?r = "settle_task e tid next (Some p) r"
  let ?fs = "Map_set fs f (StoredRecord (stored_record ?r))"
  have "transition H L e w i tid opId next (Some p) fs = (Inr ?r, ?fs)"
    using h f e \<open>transition_refusal (find_task tid (tasks r)) opId next (Some p) = None\<close>
    by (simp add: transition_def locked_def under_lease_def holds_def Let_def write_then_def write_campaign_def)
  moreover have "\<exists>u \<in> set (tasks (stored_record ?r)). proof_of u = Some p"
    using find_task_id [OF t(1)] p(1) by (auto simp: stored_record_def settle_task_def set_task_def)
  then have "\<nexists>r'. parsePersisted H (lg_ownerScopeHash L) (StoredRecord (stored_record ?r)) = Inr r'"
    using parse_proofs p(2) by blast
  then have "\<exists>err. get_campaign H L ?fs w i = Inl err"
    by (cases "parsePersisted H (lg_ownerScopeHash L) (StoredRecord (stored_record ?r))") (auto simp: get_campaign_def f Map_get_set)
  ultimately show ?thesis by blast
qed

end
