(* ===== verification/CampaignCoordinator.thy ===== *)
theory CampaignCoordinator
  imports CampaignLedger
begin

text \<open>
  The coordinator of a delegated campaign,
  \<open>services/workspace-agent/src/campaign/delegated-campaign-coordinator.ts\<close>: a bounded run that reconciles the steps left
  open by earlier runs, claims runnable steps, hands each to its typed capability and records the outcome. A
  capability is code outside the campaign: its three operations are functions of the number of the iteration and of the
  request, and may fail. Every call of \<open>execute\<close> is returned, with the campaign it was claimed in.
\<close>

section \<open>Capabilities and observations\<close>

record CampaignInvocation =
  iv_campaignId :: string
  iv_workspaceId :: string
  iv_taskId :: string
  iv_operationId :: string
  iv_action :: string
  iv_targetResource :: string
  iv_expectedState :: string
  iv_argumentsDigest :: string

datatype ObservationState = Succeeded | ObservedFailed | NotStarted | InProgress | ObservedUnknown | OtherState

record CampaignObservation =
  ob_operationId :: string
  ob_targetResource :: string
  ob_expectedState :: string
  ob_argumentsDigest :: string
  ob_state :: ObservationState
  ob_proof :: "CampaignProof option"

record TypedCampaignCapability =
  cp_action :: string
  cp_targetResource :: string
  cp_expectedState :: string
  cp_argumentsDigest :: string
  execute :: "nat \<Rightarrow> CampaignInvocation \<Rightarrow> campaign_error + CampaignObservation"
  reconcile :: "nat \<Rightarrow> CampaignInvocation \<Rightarrow> campaign_error + CampaignObservation"
  verify :: "nat \<Rightarrow> CampaignInvocation \<Rightarrow> CampaignObservation \<Rightarrow> campaign_error + bool"

type_synonym capabilities = "(string, TypedCampaignCapability) jsMap"

datatype CampaignRunStop = AllCompleted | AwaitingReconciliation | NoRunnable | StepBudget

record CampaignRunResult =
  stop :: CampaignRunStop
  executed :: nat
  reconciled :: nat
  campaign :: "CampaignTaskState CampaignRecord"

definition assertBinding :: "'x CampaignStep_scheme \<Rightarrow> TypedCampaignCapability option \<Rightarrow> bool" where
  "assertBinding t c = (case c of None \<Rightarrow> False | Some p \<Rightarrow> cp_action p = action t \<and> cp_targetResource p = targetResource t \<and>
     cp_expectedState p = expectedState t \<and> cp_argumentsDigest p = argumentsDigest t)"

definition validateObservation :: "CampaignObservation \<Rightarrow> 's CampaignTask \<Rightarrow> string \<Rightarrow> campaign_error + CampaignObservation" where
  "validateObservation ob t opId =
    (if ob_operationId ob \<noteq> opId \<or> ob_targetResource ob \<noteq> targetResource t \<or> ob_expectedState ob \<noteq> expectedState t \<or>
        ob_argumentsDigest ob \<noteq> argumentsDigest t then Inl CAMPAIGN_OBSERVATION_MISMATCH
     else if ob_state ob \<in> {Succeeded, ObservedFailed, NotStarted}
     then if verified_proof (ob_proof ob) then Inr ob else Inl CAMPAIGN_UNVERIFIED
     else if ob_state ob \<noteq> InProgress \<and> ob_state ob \<noteq> ObservedUnknown then Inl CAMPAIGN_OBSERVATION_INVALID
     else Inr ob)"

definition verifyTerminal :: "nat \<Rightarrow> TypedCampaignCapability \<Rightarrow> CampaignInvocation \<Rightarrow> CampaignObservation \<Rightarrow> campaign_error + unit" where
  "verifyTerminal n port req ob =
    (if ob_state ob \<in> {Succeeded, ObservedFailed, NotStarted}
     then and_then (verify port n req ob) (\<lambda>b. if b then Inr () else Inl CAMPAIGN_UNVERIFIED)
     else Inr ())"

definition invocation :: "'s CampaignRecord \<Rightarrow> 's CampaignTask \<Rightarrow> string \<Rightarrow> CampaignInvocation" where
  "invocation r t opId = \<lparr>iv_campaignId = campaignId r, iv_workspaceId = workspaceId r, iv_taskId = step_id t, iv_operationId = opId,
     iv_action = action t, iv_targetResource = targetResource t, iv_expectedState = expectedState t,
     iv_argumentsDigest = argumentsDigest t\<rparr>"

section \<open>Recording what was observed\<close>

definition applyObservation :: "host \<Rightarrow> DelegatedCampaignLedger \<Rightarrow> io \<Rightarrow> CampaignTaskState CampaignRecord \<Rightarrow> CampaignTaskState CampaignTask \<Rightarrow>
    CampaignObservation \<Rightarrow> files \<Rightarrow> (campaign_error + unit) \<times> files" where
  "applyObservation H L e r t ob fs =
    (case operationId t of
       None \<Rightarrow> (Inl (CAMPAIGN_INVALID ''missing operationId''), fs)
     | Some opId \<Rightarrow>
         (let settle = (\<lambda>next pf. map_prod (map_sum id (\<lambda>_. ())) id (transition H L e (workspaceId r) (campaignId r) (step_id t) opId next pf fs))
          in if ob_state ob = Succeeded then settle Completed (ob_proof ob)
             else if ob_state ob = ObservedFailed then settle Failed (ob_proof ob)
             else if ob_state ob = NotStarted then settle Blocked (ob_proof ob)
             else if ob_state ob = ObservedUnknown \<and> state t = InFlight then settle OutcomeUnknown None
             else (Inr (), fs)))"

text \<open>
  The \<open>try\<close> block shared by a dispatch and a reconciliation: the call, the checks of its result and the record of the outcome.
  The flag tells whether it ended without an exception.
\<close>

definition observe_outcome :: "host \<Rightarrow> DelegatedCampaignLedger \<Rightarrow> io \<Rightarrow> nat \<Rightarrow> TypedCampaignCapability \<Rightarrow> CampaignTaskState CampaignRecord \<Rightarrow>
    CampaignTaskState CampaignTask \<Rightarrow> string \<Rightarrow> campaign_error + CampaignObservation \<Rightarrow> files \<Rightarrow> bool \<times> files" where
  "observe_outcome H L e n port r t opId answer fs =
    (case and_then answer (\<lambda>ob. and_then (validateObservation ob t opId) (\<lambda>ob.
            and_then (verifyTerminal n port (invocation r t opId) ob) (\<lambda>_. Inr ob))) of
       Inl _ \<Rightarrow> (False, fs)
     | Inr ob \<Rightarrow> (case applyObservation H L e r t ob fs of (Inl _, fs') \<Rightarrow> (False, fs') | (Inr _, fs') \<Rightarrow> (True, fs')))"

text \<open>What the outside decides in one iteration: for the claim, for recording the outcome, and for the transition in the handler.\<close>

record step_env =
  claim_io :: io
  apply_io :: io
  catch_io :: io

definition give_up :: "host \<Rightarrow> DelegatedCampaignLedger \<Rightarrow> io \<Rightarrow> string \<Rightarrow> string \<Rightarrow> string \<Rightarrow> string \<Rightarrow> files \<Rightarrow> (campaign_error + unit) \<times> files" where
  "give_up H L e w i tid opId fs = map_prod (map_sum id (\<lambda>_. ())) id (transition H L e w i tid opId OutcomeUnknown None fs)"

definition reconcileExisting :: "host \<Rightarrow> DelegatedCampaignLedger \<Rightarrow> step_env \<Rightarrow> nat \<Rightarrow> capabilities \<Rightarrow> CampaignTaskState CampaignRecord \<Rightarrow>
    CampaignTaskState CampaignTask \<Rightarrow> files \<Rightarrow> (campaign_error + unit) \<times> files" where
  "reconcileExisting H L e n caps r t fs =
    (case operationId t of
       None \<Rightarrow> (Inl (CAMPAIGN_INVALID ''missing operationId''), fs)
     | Some opId \<Rightarrow>
         (case Map_get caps (step_id t) of
            None \<Rightarrow> (if state t = InFlight then give_up H L (catch_io e) (workspaceId r) (campaignId r) (step_id t) opId fs else (Inr (), fs))
          | Some port \<Rightarrow>
              (case observe_outcome H L (apply_io e) n port r t opId (reconcile port n (invocation r t opId)) fs of
                 (True, fs') \<Rightarrow> (Inr (), fs')
               | (False, fs') \<Rightarrow>
                   if state t = InFlight then give_up H L (catch_io e) (workspaceId r) (campaignId r) (step_id t) opId fs'
                   else (Inr (), fs'))))"

definition dispatch :: "host \<Rightarrow> DelegatedCampaignLedger \<Rightarrow> step_env \<Rightarrow> nat \<Rightarrow> TypedCampaignCapability \<Rightarrow> string \<Rightarrow> string \<Rightarrow>
    CampaignTaskState CampaignRecord \<Rightarrow> CampaignTaskState CampaignTask \<Rightarrow> string \<Rightarrow> files \<Rightarrow> (campaign_error + unit) \<times> files" where
  "dispatch H L e n port w i r t opId fs =
    (case observe_outcome H L (apply_io e) n port r t opId (execute port n (invocation r t opId)) fs of
       (True, fs') \<Rightarrow> (Inr (), fs')
     | (False, fs') \<Rightarrow> give_up H L (catch_io e) w i (step_id t) opId fs')"

section \<open>A run\<close>

type_synonym dispatches = "(CampaignInvocation \<times> CampaignTaskState CampaignRecord) list"

definition requireCampaign :: "host \<Rightarrow> DelegatedCampaignLedger \<Rightarrow> files \<Rightarrow> string \<Rightarrow> string \<Rightarrow> campaign_error + CampaignTaskState CampaignRecord" where
  "requireCampaign H L fs w i = and_then (get_campaign H L fs w i) (\<lambda>c. case c of None \<Rightarrow> Inl CAMPAIGN_NOT_FOUND | Some r \<Rightarrow> Inr r)"

definition unresolved :: "string list \<Rightarrow> CampaignTaskState CampaignTask \<Rightarrow> bool" where
  "unresolved visited t = ((state t = InFlight \<or> state t = OutcomeUnknown) \<and> step_id t \<notin> set visited)"

definition run_result :: "CampaignRunStop \<Rightarrow> nat \<Rightarrow> nat \<Rightarrow> CampaignTaskState CampaignRecord \<Rightarrow> CampaignRunResult" where
  "run_result s ex rec r = \<lparr>stop = s, executed = ex, reconciled = rec, campaign = r\<rparr>"

text \<open>An iteration after it has claimed a step; \<open>continue\<close> is the rest of the loop.\<close>

definition after_claim :: "host \<Rightarrow> DelegatedCampaignLedger \<Rightarrow> step_env \<Rightarrow> nat \<Rightarrow> capabilities \<Rightarrow> string \<Rightarrow> string \<Rightarrow> string \<Rightarrow> string \<Rightarrow>
    CampaignTaskState CampaignRecord \<Rightarrow> dispatches \<Rightarrow> files \<Rightarrow>
    (dispatches \<Rightarrow> files \<Rightarrow> (campaign_error + CampaignRunResult) \<times> dispatches \<times> files) \<Rightarrow>
    (campaign_error + CampaignRunResult) \<times> dispatches \<times> files" where
  "after_claim H L e n caps w i tid opId r ds fs continue =
    (case find_task tid (tasks r) of
       None \<Rightarrow> (Inl (CAMPAIGN_INVALID ''claimed task disappeared''), ds, fs)
     | Some t \<Rightarrow>
         (case Map_get caps (step_id t) of
            None \<Rightarrow> (Inl CAMPAIGN_BINDING_MISMATCH, ds, fs)
          | Some port \<Rightarrow>
              if \<not> assertBinding t (Some port) then (Inl CAMPAIGN_BINDING_MISMATCH, ds, fs)
              else (case dispatch H L e n port w i r t opId fs of
                 (Inl err, fs') \<Rightarrow> (Inl err, ds @ [(invocation r t opId, r)], fs')
               | (Inr _, fs') \<Rightarrow> continue (ds @ [(invocation r t opId, r)]) fs')))"

text \<open>
  The loop, with the iterations left, the number of the iteration, the visited steps, the two counters and the dispatches so far.
\<close>

fun run_steps :: "host \<Rightarrow> DelegatedCampaignLedger \<Rightarrow> capabilities \<Rightarrow> (nat \<Rightarrow> step_env) \<Rightarrow> string \<Rightarrow> string \<Rightarrow> nat \<Rightarrow> nat \<Rightarrow> string list \<Rightarrow> nat \<Rightarrow> nat \<Rightarrow>
    dispatches \<Rightarrow> files \<Rightarrow> (campaign_error + CampaignRunResult) \<times> dispatches \<times> files" where
  "run_steps H L caps env w i 0 n visited ex rec ds fs =
    (case requireCampaign H L fs w i of
       Inl err \<Rightarrow> (Inl err, ds, fs)
     | Inr r \<Rightarrow> (Inr (run_result (if list_all (\<lambda>t. state t = Completed) (tasks r) then AllCompleted else StepBudget) ex rec r), ds, fs))"
| "run_steps H L caps env w i (Suc k) n visited ex rec ds fs =
    (case requireCampaign H L fs w i of
       Inl err \<Rightarrow> (Inl err, ds, fs)
     | Inr current \<Rightarrow>
         if list_all (\<lambda>t. state t = Completed) (tasks current) then (Inr (run_result AllCompleted ex rec current), ds, fs)
         else (case List.find (unresolved visited) (tasks current) of
           Some t \<Rightarrow>
             (case reconcileExisting H L (env n) n caps current t fs of
                (Inl err, fs') \<Rightarrow> (Inl err, ds, fs')
              | (Inr _, fs') \<Rightarrow> run_steps H L caps env w i k (Suc n) (Set_add visited (step_id t)) ex (Suc rec) ds fs')
         | None \<Rightarrow>
             if list_ex (\<lambda>t. state t = InFlight) (tasks current) then (Inr (run_result AwaitingReconciliation ex rec current), ds, fs)
             else (case claimNext H L (claim_io (env n)) w i fs of
                (Inl err, fs') \<Rightarrow> (Inl err, ds, fs')
              | (Inr (NoRunnableStep r), fs') \<Rightarrow>
                  (Inr (run_result (if list_ex (\<lambda>t. state t = OutcomeUnknown) (tasks r) then AwaitingReconciliation else NoRunnable) ex rec r), ds, fs')
              | (Inr (Claimed tid opId r), fs') \<Rightarrow>
                  after_claim H L (env n) n caps w i tid opId r ds fs' (\<lambda>ds' fs''.
                    run_steps H L caps env w i k (Suc n) (Set_add visited tid) (Suc ex) rec ds' fs''))))"

definition run_body :: "host \<Rightarrow> DelegatedCampaignLedger \<Rightarrow> capabilities \<Rightarrow> (nat \<Rightarrow> step_env) \<Rightarrow> string \<Rightarrow> string \<Rightarrow> nat \<Rightarrow> files \<Rightarrow>
    (campaign_error + CampaignRunResult) \<times> dispatches \<times> files" where
  "run_body H L caps env w i maxSteps fs =
    (case requireCampaign H L fs w i of
       Inl err \<Rightarrow> (Inl err, [], fs)
     | Inr initial \<Rightarrow>
         if \<not> list_all (\<lambda>t. assertBinding t (Map_get caps (step_id t))) (tasks initial) then (Inl CAMPAIGN_BINDING_MISMATCH, [], fs)
         else run_steps H L caps env w i maxSteps 0 [] 0 0 [] fs)"

definition run_campaign :: "host \<Rightarrow> DelegatedCampaignLedger \<Rightarrow> capabilities \<Rightarrow> lease_view \<Rightarrow> (nat \<Rightarrow> step_env) \<Rightarrow> string \<Rightarrow> string \<Rightarrow> int \<Rightarrow> files \<Rightarrow>
    (campaign_error + CampaignRunResult) \<times> dispatches \<times> files" where
  "run_campaign H L caps runLease env w i maxSteps fs =
    (if maxSteps < 1 \<or> 128 < maxSteps then (Inl (CAMPAIGN_INVALID ''bounded maxSteps required''), [], fs)
     else (case ledger_file H L w i of
       Inl err \<Rightarrow> (Inl err, [], fs)
     | Inr _ \<Rightarrow>
         (case runLease of
            Refused err \<Rightarrow> (Inl err, [], fs)
          | Held \<Rightarrow> run_body H L caps env w i (nat maxSteps) fs
          | LostAfter err \<Rightarrow> (Inl err, snd (run_body H L caps env w i (nat maxSteps) fs)))))"

section \<open>Effects on the ledger\<close>

text \<open>A later record of the same campaign, at most \<open>k\<close> revisions on.\<close>

definition advanced :: "nat \<Rightarrow> CampaignTaskState CampaignRecord \<Rightarrow> CampaignTaskState CampaignRecord \<Rightarrow> bool" where
  "advanced k r r' = (record_input r' = record_input r \<and> revision r' \<le> revision r + int k \<and>
     (campaign_step (record_input r))\<^sup>*\<^sup>* (task_states_of r) (task_states_of r'))"

lemma advanced_refl [simp]: "advanced k r r"
  by (simp add: advanced_def)

lemma advanced_trans: "advanced j r r' \<Longrightarrow> advanced k r' r'' \<Longrightarrow> j + k \<le> n \<Longrightarrow> advanced n r r''"
  by (auto simp: advanced_def intro: rtranclp_trans)

lemma advanced_mono: "advanced j r r' \<Longrightarrow> j \<le> k \<Longrightarrow> advanced k r r'"
  by (auto simp: advanced_def)

lemma advanced_input: "advanced k r r' \<Longrightarrow> record_input r' = record_input r"
  by (simp add: advanced_def)

lemma advanced_room: "advanced j r r' \<Longrightarrow> revision r + int (j + k) < 2 ^ 53 \<Longrightarrow> revision r' + int k < 2 ^ 53"
  by (simp add: advanced_def)

lemma call_advances:
  assumes "holds H L fs w i r" and "call_ok c" and "revision r + 1 < 2 ^ 53"
  shows "\<exists>r'. holds H L (call H L w i c fs) w i r' \<and> advanced 1 r r'"
  using call_refines [OF assms] by (auto simp: advanced_def)

lemma campaign_step_pending: "campaign_step x \<sigma> \<sigma>' \<Longrightarrow> \<sigma>' i = Some Pending \<Longrightarrow> \<sigma> i = Some Pending"
  by (erule campaign_step.cases) (auto split: if_splits)

lemma advanced_pending:
  assumes "advanced k r r'" and "task_states_of r' i = Some Pending"
  shows "task_states_of r i = Some Pending"
proof -
  have "(campaign_step (record_input r))\<^sup>*\<^sup>* (task_states_of r) (task_states_of r')" using assms(1) by (simp add: advanced_def)
  then show ?thesis using assms(2)
    by (induction rule: rtranclp_induct) (auto dest: campaign_step_pending)
qed

lemma settle_advances:
  assumes "holds H L fs w i r" and "next \<notin> {Pending, InFlight}" and "proof_fits pf" and "revision r + 1 < 2 ^ 53"
  shows "\<exists>r'. holds H L (snd (transition H L e w i tid opId next pf fs)) w i r' \<and> advanced 1 r r'"
  using call_advances [OF assms(1), of "CallSettle e tid opId next pf"] assms by simp

lemma give_up_advances:
  assumes "holds H L fs w i r" and "revision r + 1 < 2 ^ 53" and "give_up H L e w i tid opId fs = (res, fs')"
  shows "\<exists>r'. holds H L fs' w i r' \<and> advanced 1 r r'"
  using settle_advances [OF assms(1), of OutcomeUnknown None e tid opId] assms(2,3)
  by (auto simp: give_up_def proof_fits_def map_prod_def split: prod.splits)

lemma validate_fits:
  "validateObservation ob t opId = Inr ob' \<Longrightarrow> ob' = ob \<and> (ob_state ob \<in> {Succeeded, ObservedFailed, NotStarted} \<longrightarrow> verified_proof (ob_proof ob))"
  by (auto simp: validateObservation_def split: if_splits)

lemma verified_fits: "verified_proof pf \<Longrightarrow> proof_fits pf"
  by (auto simp: proof_fits_def split: option.splits)

lemma apply_advances:
  assumes h: "holds H L fs w i r" and rev: "revision r + 1 < 2 ^ 53" and wi: "workspaceId c = w" "campaignId c = i"
    and pf: "ob_state ob \<in> {Succeeded, ObservedFailed, NotStarted} \<longrightarrow> verified_proof (ob_proof ob)"
    and a: "applyObservation H L e c t ob fs = (res, fs')"
  shows "\<exists>r'. holds H L fs' w i r' \<and> advanced 1 r r'"
proof -
  have fs': "fs' = snd (applyObservation H L e c t ob fs)" using a by simp
  have settle: "\<exists>r'. holds H L (snd (transition H L e w i (step_id t) opId next pf fs)) w i r' \<and> advanced 1 r r'"
    if "next \<notin> {Pending, InFlight}" "proof_fits pf" for opId "next" pf
    by (rule settle_advances [OF h that rev])
  have same: "\<exists>r'. holds H L fs w i r' \<and> advanced 1 r r'" using h by (auto intro: exI [of _ r])
  show ?thesis
    using pf settle same unfolding fs'
    by (cases "operationId t"; cases "ob_state ob"; cases "state t = InFlight")
      (simp_all add: applyObservation_def wi verified_fits proof_fits_def [of None])
qed

lemma observe_advances:
  assumes h: "holds H L fs w i r" and rev: "revision r + 1 < 2 ^ 53" and wi: "workspaceId c = w" "campaignId c = i"
    and o: "observe_outcome H L e n port c t opId answer fs = (done, fs')"
  shows "\<exists>r'. holds H L fs' w i r' \<and> advanced 1 r r'"
proof (cases "\<exists>ob. and_then answer (\<lambda>ob. and_then (validateObservation ob t opId) (\<lambda>ob.
            and_then (verifyTerminal n port (invocation c t opId) ob) (\<lambda>_. Inr ob))) = Inr ob")
  case True
  then obtain ob where ob: "and_then answer (\<lambda>ob. and_then (validateObservation ob t opId) (\<lambda>ob.
            and_then (verifyTerminal n port (invocation c t opId) ob) (\<lambda>_. Inr ob))) = Inr ob" by blast
  then have fits: "ob_state ob \<in> {Succeeded, ObservedFailed, NotStarted} \<longrightarrow> verified_proof (ob_proof ob)"
    by (auto simp: and_then_Inr dest!: validate_fits)
  obtain res where "applyObservation H L e c t ob fs = (res, fs')"
    using o ob by (auto simp: observe_outcome_def split: prod.splits sum.splits)
  from apply_advances [OF h rev wi fits this] show ?thesis .
next
  case False
  then have "fs' = fs"
    using o by (auto simp: observe_outcome_def split: sum.splits)
  with h show ?thesis by (auto intro: exI [of _ r])
qed

lemma two_steps:
  assumes "\<exists>r'. holds H L fs' w i r' \<and> advanced j r r'" and "\<And>r'. holds H L fs' w i r' \<Longrightarrow> advanced j r r' \<Longrightarrow> \<exists>r''. holds H L fs'' w i r'' \<and> advanced k r' r''"
    and "j + k \<le> n"
  shows "\<exists>r''. holds H L fs'' w i r'' \<and> advanced n r r''"
  using assms by (meson advanced_trans)

lemma dispatch_advances:
  assumes h: "holds H L fs w i r" and rev: "revision r + 2 < 2 ^ 53" and wi: "workspaceId c = w" "campaignId c = i"
    and d: "dispatch H L e n port w i c t opId fs = (res, fs')"
  shows "\<exists>r'. holds H L fs' w i r' \<and> advanced 2 r r'"
proof -
  obtain ok fs1 where o: "observe_outcome H L (apply_io e) n port c t opId (execute port n (invocation c t opId)) fs = (ok, fs1)" by force
  have s1: "\<exists>r'. holds H L fs1 w i r' \<and> advanced 1 r r'"
    using observe_advances [OF h _ wi o] rev by simp
  show ?thesis
  proof (rule two_steps [OF s1])
    fix r' assume r': "holds H L fs1 w i r'" "advanced 1 r r'"
    show "\<exists>r''. holds H L fs' w i r'' \<and> advanced 1 r' r''"
    proof (cases ok)
      case True
      with d o r'(1) show ?thesis by (auto simp: dispatch_def intro: exI [of _ r'])
    next
      case False
      have "revision r' + 1 < 2 ^ 53" using r'(2) rev by (auto simp: advanced_def)
      with False d o give_up_advances [OF r'(1)] show ?thesis by (auto simp: dispatch_def)
    qed
  qed simp
qed

lemma reconcile_advances:
  assumes h: "holds H L fs w i r" and rev: "revision r + 2 < 2 ^ 53"
    and d: "reconcileExisting H L e n caps r t fs = (res, fs')"
  shows "\<exists>r'. holds H L fs' w i r' \<and> advanced 2 r r'"
proof (cases "operationId t")
  case None
  with d h show ?thesis by (auto simp: reconcileExisting_def intro: exI [of _ r])
next
  case (Some opId)
  note wi = h [unfolded holds_def, THEN conjunct2, THEN conjunct1] h [unfolded holds_def, THEN conjunct2, THEN conjunct2]
  show ?thesis
  proof (cases "Map_get caps (step_id t)")
    case None
    have "\<exists>r'. holds H L fs' w i r' \<and> advanced 1 r r'"
    proof (cases "state t = InFlight")
      case True
      with d None Some wi have "give_up H L (catch_io e) w i (step_id t) opId fs = (res, fs')" by (simp add: reconcileExisting_def)
      from give_up_advances [OF h _ this] rev show ?thesis by simp
    qed (use d None Some h in \<open>auto simp: reconcileExisting_def intro: exI [of _ r]\<close>)
    then show ?thesis using advanced_mono [of 1 r _ 2] by auto
  next
    case (Some port)
    obtain ok fs1 where o: "observe_outcome H L (apply_io e) n port r t opId (reconcile port n (invocation r t opId)) fs = (ok, fs1)" by force
    have s1: "\<exists>r'. holds H L fs1 w i r' \<and> advanced 1 r r'"
      using observe_advances [OF h _ wi o] rev by simp
    show ?thesis
    proof (rule two_steps [OF s1])
      fix r' assume r': "holds H L fs1 w i r'" "advanced 1 r r'"
      show "\<exists>r''. holds H L fs' w i r'' \<and> advanced 1 r' r''"
      proof (cases "ok \<or> state t \<noteq> InFlight")
        case True
        with d o r'(1) Some \<open>operationId t = Some opId\<close> show ?thesis
          by (auto simp: reconcileExisting_def intro: exI [of _ r'] split: bool.splits if_splits)
      next
        case False
        have "revision r' + 1 < 2 ^ 53" using r'(2) rev by (auto simp: advanced_def)
        moreover have "give_up H L (catch_io e) w i (step_id t) opId fs1 = (res, fs')"
          using False d o Some \<open>operationId t = Some opId\<close> wi by (simp add: reconcileExisting_def)
        ultimately show ?thesis by (rule give_up_advances [OF r'(1)])
      qed
    qed simp
  qed
qed

section \<open>Dispatches\<close>

text \<open>
  A dispatch within the plan: the request carries exactly the identity of a step of the plan, the capability bound to the step has
  the same identity, and the dependencies of the step are completed with verified proofs in the campaign it was claimed in.
\<close>

definition within_plan :: "capabilities \<Rightarrow> DelegatedCampaignInput \<Rightarrow> CampaignInvocation \<times> CampaignTaskState CampaignRecord \<Rightarrow> bool" where
  "within_plan caps x p = (case p of (q, c) \<Rightarrow> record_input c = x \<and> (\<exists>t \<in> set (in_tasks x).
     iv_campaignId q = in_campaignId x \<and> iv_workspaceId q = in_workspaceId x \<and> iv_taskId q = step_id t \<and> iv_action q = action t \<and>
     iv_targetResource q = targetResource t \<and> iv_expectedState q = expectedState t \<and> iv_argumentsDigest q = argumentsDigest t \<and>
     assertBinding t (Map_get caps (step_id t)) \<and>
     (\<forall>d \<in> set (dependsOn t). \<exists>u \<in> set (tasks c). step_id u = d \<and> state u = Completed \<and> verified_proof (proof_of u))))"

abbreviation dispatched :: "CampaignInvocation \<times> CampaignTaskState CampaignRecord \<Rightarrow> string" where
  "dispatched p \<equiv> iv_taskId (fst p)"

lemma claimed_task:
  assumes "record_ok H own r" and "t \<in> set (tasks r)"
  shows "find_task (step_id t) (tasks (claim_task e (step_id t) r)) = Some (t\<lparr>state := InFlight, operationId := Some (randomUUID e)\<rparr>)"
  using find_task_iff [OF record_ids [OF assms(1)], of "step_id t" t] assms(2)
  by (simp add: claim_task_def find_task_set_task)

lemma record_input_simps:
  "in_tasks (record_input r) = map CampaignStep.truncate (tasks r)" "in_campaignId (record_input r) = campaignId r"
  "in_workspaceId (record_input r) = workspaceId r"
  by (simp_all add: record_input_def)

lemma claim_within_plan:
  assumes ok: "record_ok H own r" and t: "t \<in> set (tasks r)" "runnable (tasks r) t"
    and b: "Map_get caps (step_id t) = Some port" "assertBinding t (Some port)"
  shows "within_plan caps (record_input r) (invocation (claim_task e (step_id t) r) (t\<lparr>state := s, operationId := j\<rparr>) opId, claim_task e (step_id t) r)"
proof -
  let ?c = "claim_task e (step_id t) r"
  have "\<exists>u \<in> set (tasks ?c). step_id u = d \<and> state u = Completed \<and> verified_proof (proof_of u)" if "d \<in> set (dependsOn t)" for d
  proof -
    obtain u where u: "find_task d (tasks r) = Some u" "state u = Completed"
      using t(2) \<open>d \<in> set (dependsOn t)\<close> by (auto simp: runnable_def list_all_iff split: option.splits)
    then have u': "u \<in> set (tasks r)" "step_id u = d" by (auto dest: find_task_id)
    moreover have "task_ok u" using ok u'(1) by (simp add: record_ok_def list_all_iff)
    moreover have "d \<noteq> step_id t"
      using u t find_task_iff [OF record_ids [OF ok], of d t] by (auto simp: runnable_def)
    ultimately show ?thesis
      using u(2) by (auto simp: claim_task_def set_task_def task_ok_def image_iff intro!: bexI [of _ u])
  qed
  moreover have "assertBinding (CampaignStep.truncate t) (Map_get caps (step_id t))"
    using b by (simp add: assertBinding_def)
  ultimately show ?thesis
    using t(1) by (auto simp: within_plan_def invocation_def record_input_simps intro!: bexI [of _ "CampaignStep.truncate t"])
qed

definition run_ok :: "host \<Rightarrow> DelegatedCampaignLedger \<Rightarrow> capabilities \<Rightarrow> string \<Rightarrow> string \<Rightarrow> nat \<Rightarrow> CampaignTaskState CampaignRecord \<Rightarrow> nat \<Rightarrow> nat \<Rightarrow>
    dispatches \<Rightarrow> (campaign_error + CampaignRunResult) \<times> dispatches \<times> files \<Rightarrow> bool" where
  "run_ok H L caps w i k r ex rec ds out = (case out of (res, ds', fs') \<Rightarrow>
    (\<exists>r' new. ds' = ds @ new \<and> holds H L fs' w i r' \<and> advanced (3 * k) r r' \<and> distinct (map dispatched new) \<and> length new \<le> k \<and>
      (\<forall>p \<in> set new. task_states_of r (dispatched p) = Some Pending \<and> task_states_of r' (dispatched p) \<noteq> Some Pending \<and>
        within_plan caps (record_input r) p) \<and>
      (\<forall>R. res = Inr R \<longrightarrow> campaign R = r' \<and> executed R = ex + length new \<and> executed R + reconciled R \<le> ex + rec + k)))"

lemma run_ok_stop:
  "holds H L fs w i r \<Longrightarrow> run_ok H L caps w i k r ex rec ds (Inr (run_result s ex rec r), ds, fs)"
  unfolding run_ok_def by (auto simp: run_result_def intro!: exI [of _ r])

lemma run_ok_error:
  "holds H L fs' w i r' \<Longrightarrow> advanced 3 r r' \<Longrightarrow> run_ok H L caps w i (Suc k) r ex rec ds (Inl err, ds, fs')"
  unfolding run_ok_def using advanced_mono [of 3 r r' "3 * Suc k"] by auto

lemma run_ok_continue:
  assumes "advanced 3 r r1" and "run_ok H L caps w i k r1 ex (Suc rec) ds out"
  shows "run_ok H L caps w i (Suc k) r ex rec ds out"
proof -
  obtain res ds' fs' where out: "out = (res, ds', fs')" by (cases out)
  from assms(2) obtain r' new where n: "ds' = ds @ new" "holds H L fs' w i r'" "advanced (3 * k) r1 r'" "distinct (map dispatched new)" "length new \<le> k"
      "\<forall>p \<in> set new. task_states_of r1 (dispatched p) = Some Pending \<and> task_states_of r' (dispatched p) \<noteq> Some Pending \<and> within_plan caps (record_input r1) p"
      "\<forall>R. res = Inr R \<longrightarrow> campaign R = r' \<and> executed R = ex + length new \<and> executed R + reconciled R \<le> ex + Suc rec + k"
    unfolding run_ok_def out by auto
  have "advanced (3 * Suc k) r r'" by (rule advanced_trans [OF assms(1) n(3)]) simp
  then show ?thesis
    unfolding run_ok_def out using n advanced_pending [OF assms(1)] advanced_input [OF assms(1)] by auto
qed

lemma run_ok_dispatch:
  assumes "advanced 3 r r1" and "run_ok H L caps w i k r1 (Suc ex) rec (ds @ [p]) out"
    and "task_states_of r (dispatched p) = Some Pending" and "task_states_of r1 (dispatched p) \<noteq> Some Pending"
    and "within_plan caps (record_input r) p"
  shows "run_ok H L caps w i (Suc k) r ex rec ds out"
proof -
  obtain res ds' fs' where out: "out = (res, ds', fs')" by (cases out)
  from assms(2) obtain r' new where n: "ds' = (ds @ [p]) @ new" "holds H L fs' w i r'" "advanced (3 * k) r1 r'" "distinct (map dispatched new)" "length new \<le> k"
      "\<forall>p \<in> set new. task_states_of r1 (dispatched p) = Some Pending \<and> task_states_of r' (dispatched p) \<noteq> Some Pending \<and> within_plan caps (record_input r1) p"
      "\<forall>R. res = Inr R \<longrightarrow> campaign R = r' \<and> executed R = Suc ex + length new \<and> executed R + reconciled R \<le> Suc ex + rec + k"
    unfolding run_ok_def out by auto
  have "advanced (3 * Suc k) r r'" by (rule advanced_trans [OF assms(1) n(3)]) simp
  moreover have "distinct (map dispatched (p # new))" using n(4,6) assms(4) by auto
  moreover have "task_states_of r' (dispatched p) \<noteq> Some Pending" using advanced_pending [OF n(3)] assms(4) by auto
  ultimately show ?thesis
    unfolding run_ok_def out using n assms(3,5) advanced_pending [OF assms(1)] advanced_input [OF assms(1)]
    by (intro case_prodI exI [of _ r'] exI [of _ "p # new"]) auto
qed

lemma run_ok_dispatch_error:
  assumes "advanced 3 r r1" and "holds H L fs' w i r1"
    and "task_states_of r (dispatched p) = Some Pending" and "task_states_of r1 (dispatched p) \<noteq> Some Pending"
    and "within_plan caps (record_input r) p"
  shows "run_ok H L caps w i (Suc k) r ex rec ds (Inl err, ds @ [p], fs')"
  unfolding run_ok_def using assms advanced_mono [OF assms(1), of "3 * Suc k"]
  by (intro case_prodI exI [of _ r1] exI [of _ "[p]"]) auto

lemma requireCampaign_holds: "holds H L fs w i r \<Longrightarrow> requireCampaign H L fs w i = Inr r"
  by (simp add: requireCampaign_def holds_def)

lemma after_claim_ok:
  assumes h: "holds H L fs w i r" and t: "t \<in> set (tasks r)" "runnable (tasks r) t" "\<not> list_ex (\<lambda>t. state t = InFlight) (tasks r)"
    and c: "holds H L fs1 w i (claim_task e (step_id t) r)" and room: "revision r + 3 < 2 ^ 53"
    and cont: "\<And>p fs2 r2. holds H L fs2 w i r2 \<Longrightarrow> advanced 3 r r2 \<Longrightarrow> run_ok H L caps w i k r2 (Suc ex) rec (ds @ [p]) (continue (ds @ [p]) fs2)"
  shows "run_ok H L caps w i (Suc k) r ex rec ds
    (after_claim H L se n caps w i (step_id t) (randomUUID e) (claim_task e (step_id t) r) ds fs1 continue)"
proof -
  let ?c = "claim_task e (step_id t) r" and ?t = "t\<lparr>state := InFlight, operationId := Some (randomUUID e)\<rparr>"
  note ok = holds_record_ok [OF h]
  have adv: "advanced 1 r ?c" using claim_refines [OF ok t] by (auto simp: advanced_def)
  show ?thesis
  proof (cases "\<exists>port. Map_get caps (step_id t) = Some port \<and> assertBinding t (Some port)")
    case False
    then show ?thesis using claimed_task [OF ok t(1), of e] run_ok_error [OF c advanced_mono [OF adv]]
      by (auto simp: after_claim_def assertBinding_def split: option.splits)
  next
    case True
    then obtain port where port: "Map_get caps (step_id t) = Some port" "assertBinding t (Some port)" by blast
    obtain dres fs2 where d: "dispatch H L se n port w i ?c ?t (randomUUID e) fs1 = (dres, fs2)" by force
    have "workspaceId ?c = w" "campaignId ?c = i" "revision ?c + 2 < 2 ^ 53" using c room by (simp_all add: holds_def)
    from dispatch_advances [OF c this(3,1,2) d] obtain r2 where r2: "holds H L fs2 w i r2" "advanced 2 ?c r2" by blast
    have adv2: "advanced 3 r r2" by (rule advanced_trans [OF adv r2(2)]) simp
    let ?p = "(invocation ?c ?t (randomUUID e), ?c)"
    have pend: "task_states_of r (dispatched ?p) = Some Pending"
      using task_states_in [OF ok t(1)] t(2) by (simp add: runnable_def invocation_def)
    moreover have "task_states_of r2 (dispatched ?p) \<noteq> Some Pending"
      using advanced_pending [OF r2(2), of "step_id t"] pend by (auto simp: task_states_claim invocation_def)
    moreover have "within_plan caps (record_input r) ?p" by (rule claim_within_plan [OF ok t(1,2) port])
    moreover have "assertBinding ?t (Some port)" using port(2) by (simp add: assertBinding_def)
    ultimately show ?thesis
      using claimed_task [OF ok t(1), of e] port(1) d run_ok_dispatch_error [OF adv2 r2(1)] run_ok_dispatch [OF adv2 cont [OF r2(1) adv2]]
      by (cases dres) (simp_all add: after_claim_def)
  qed
qed

lemma run_steps_ok:
  assumes "holds H L fs w i r" and "\<And>m. UUID_test (randomUUID (claim_io (env m)))" and "revision r + int (3 * k) < 2 ^ 53"
  shows "run_ok H L caps w i k r ex rec ds (run_steps H L caps env w i k n visited ex rec ds fs)"
  using assms(1,3)
proof (induction k arbitrary: n visited ex rec ds fs r)
  case 0
  then show ?case using run_ok_stop [OF 0(1)] by (simp add: requireCampaign_holds)
next
  case (Suc k)
  note h = Suc.prems(1)
  note start = requireCampaign_holds [OF h]
  have room: "revision r + 3 < 2 ^ 53" "revision r + 2 < 2 ^ 53" "revision r + 1 < 2 ^ 53" using Suc.prems(2) by simp_all
  have IH: "run_ok H L caps w i k r1 ex' rec' ds' (run_steps H L caps env w i k n' visited' ex' rec' ds' fs1)"
    if "holds H L fs1 w i r1" "advanced 3 r r1" for fs1 r1 ex' rec' ds' n' visited'
    using Suc.IH [OF that(1)] Suc.prems(2) that(2) by (simp add: advanced_def)
  consider (completed) "list_all (\<lambda>t. state t = Completed) (tasks r)"
    | (open_step) t where "\<not> list_all (\<lambda>t. state t = Completed) (tasks r)" "List.find (unresolved visited) (tasks r) = Some t"
    | (waiting) "\<not> list_all (\<lambda>t. state t = Completed) (tasks r)" "List.find (unresolved visited) (tasks r) = None"
        "list_ex (\<lambda>t. state t = InFlight) (tasks r)"
    | (claiming) "\<not> list_all (\<lambda>t. state t = Completed) (tasks r)" "List.find (unresolved visited) (tasks r) = None"
        "\<not> list_ex (\<lambda>t. state t = InFlight) (tasks r)"
    by (cases "List.find (unresolved visited) (tasks r)") auto
  then show ?case
  proof cases
    case completed
    then show ?thesis using run_ok_stop [OF h] by (simp add: start)
  next
    case (open_step t)
    obtain res fs1 where rc: "reconcileExisting H L (env n) n caps r t fs = (res, fs1)" by force
    obtain r1 where r1: "holds H L fs1 w i r1" "advanced 3 r r1"
      using reconcile_advances [OF h room(2) rc] advanced_mono [of 2 r _ 3] by auto
    then show ?thesis
      using open_step rc run_ok_error [OF r1] run_ok_continue [OF r1(2) IH [OF r1]] by (cases res) (simp_all add: start)
  next
    case waiting
    then show ?thesis using run_ok_stop [OF h] by (simp add: start)
  next
    case claiming
    obtain res fs1 where c: "claimNext H L (claim_io (env n)) w i fs = (res, fs1)" by force
    show ?thesis
    proof (rule claimNext_effect [OF h c assms(2) room(3)])
      assume kept: "holds H L fs1 w i r" "\<And>tid opId r'. res \<noteq> Inr (Claimed tid opId r')"
        "\<And>r'. res = Inr (NoRunnableStep r') \<Longrightarrow> r' = r \<and>
           (list_ex (\<lambda>t. state t = InFlight) (tasks r) \<or> List.find (runnable (tasks r)) (tasks r) = None)"
      then consider err where "res = Inl err" | "res = Inr (NoRunnableStep r)"
        by (cases res; cases "projr res") auto
      then show ?thesis
        using claiming c run_ok_error [OF kept(1)] run_ok_stop [OF kept(1)] by cases (simp_all add: start)
    next
      fix t assume t: "t \<in> set (tasks r)" "runnable (tasks r) t" "\<not> list_ex (\<lambda>t. state t = InFlight) (tasks r)"
        "holds H L fs1 w i (claim_task (claim_io (env n)) (step_id t) r)"
        "res = Inr (Claimed (step_id t) (randomUUID (claim_io (env n))) (claim_task (claim_io (env n)) (step_id t) r)) \<or> (\<exists>err. res = Inl err)"
      have adv: "advanced 1 r (claim_task (claim_io (env n)) (step_id t) r)"
        using claim_refines [OF holds_record_ok [OF h] t(1-3)] by (auto simp: advanced_def)
      from t(5) show ?thesis
        using claiming c run_ok_error [OF t(4) advanced_mono [OF adv]] after_claim_ok [OF h t(1-4) room(1) IH] by (auto simp: start)
    qed
  qed
qed

section \<open>Several runs\<close>

lemma run_campaign_ok:
  assumes h: "holds H L fs w i r" and u: "\<And>m. UUID_test (randomUUID (claim_io (env m)))" and room: "revision r + 384 < 2 ^ 53"
    and run: "run_campaign H L caps l env w i maxSteps fs = (res, ds, fs')"
  shows "\<exists>r'. holds H L fs' w i r' \<and> advanced 384 r r' \<and> distinct (map dispatched ds) \<and> length ds \<le> 128 \<and>
    (\<forall>p \<in> set ds. task_states_of r (dispatched p) = Some Pending \<and> task_states_of r' (dispatched p) \<noteq> Some Pending \<and>
      within_plan caps (record_input r) p) \<and>
    (\<forall>R. res = Inr R \<longrightarrow> campaign R = r' \<and> executed R = length ds \<and> int (executed R + reconciled R) \<le> maxSteps)"
proof -
  obtain f where f: "ledger_file H L w i = Inr f" using holds_file [OF h] by blast
  consider "ds = []" "fs' = fs" "\<exists>err. res = Inl err"
    | res0 where "1 \<le> maxSteps" "maxSteps \<le> 128" "run_steps H L caps env w i (nat maxSteps) 0 [] 0 0 [] fs = (res0, ds, fs')"
      "res = res0 \<or> (\<exists>err. res = Inl err)"
    using run f by (cases l; cases "run_body H L caps env w i (nat maxSteps) fs")
      (auto simp: run_campaign_def run_body_def requireCampaign_holds [OF h] split: if_splits)
  then show ?thesis
  proof cases
    case 1
    with h show ?thesis by (auto intro!: exI [of _ r])
  next
    case 2
    have "revision r + int (3 * nat maxSteps) < 2 ^ 53" using room 2(1,2) by simp
    from run_steps_ok [where env = env and caps = caps and ex = 0 and rec = 0 and ds = "[]" and n = 0 and visited = "[]", OF h u this] 2(3)
    obtain r' where r': "holds H L fs' w i r'" "advanced (3 * nat maxSteps) r r'" "distinct (map dispatched ds)" "length ds \<le> nat maxSteps"
      "\<forall>p \<in> set ds. task_states_of r (dispatched p) = Some Pending \<and> task_states_of r' (dispatched p) \<noteq> Some Pending \<and> within_plan caps (record_input r) p"
      "\<forall>R. res0 = Inr R \<longrightarrow> campaign R = r' \<and> executed R = length ds \<and> executed R + reconciled R \<le> nat maxSteps"
      by (auto simp: run_ok_def)
    have "advanced 384 r r'" by (rule advanced_mono [OF r'(2)]) (use 2(2) in simp)
    with r' 2(1,2,4) show ?thesis by (intro exI [of _ r']) auto
  qed
qed

record campaign_run =
  cr_caps :: capabilities
  cr_lease :: lease_view
  cr_env :: "nat \<Rightarrow> step_env"
  cr_maxSteps :: int

text \<open>Runs one after the other, whatever each returned; all dispatches, each with the capabilities of its run.\<close>

fun runs :: "host \<Rightarrow> DelegatedCampaignLedger \<Rightarrow> string \<Rightarrow> string \<Rightarrow> campaign_run list \<Rightarrow> files \<Rightarrow>
    (capabilities \<times> CampaignInvocation \<times> CampaignTaskState CampaignRecord) list \<times> files" where
  "runs H L w i [] fs = ([], fs)"
| "runs H L w i (x # xs) fs =
    (case run_campaign H L (cr_caps x) (cr_lease x) (cr_env x) w i (cr_maxSteps x) fs of (_, ds, fs') \<Rightarrow>
      (case runs H L w i xs fs' of (ds', fs'') \<Rightarrow> (map (\<lambda>p. (cr_caps x, p)) ds @ ds', fs'')))"

lemma runs_ok:
  assumes "holds H L fs w i r" and "\<And>x m. x \<in> set xs \<Longrightarrow> UUID_test (randomUUID (claim_io (cr_env x m)))"
    and "revision r + int (384 * length xs) < 2 ^ 53" and "runs H L w i xs fs = (ds, fs')"
  shows "\<exists>r'. holds H L fs' w i r' \<and> advanced (384 * length xs) r r' \<and> distinct (map (\<lambda>p. dispatched (snd p)) ds) \<and>
    (\<forall>p \<in> set ds. task_states_of r (dispatched (snd p)) = Some Pending \<and> task_states_of r' (dispatched (snd p)) \<noteq> Some Pending \<and>
      within_plan (fst p) (record_input r) (snd p))"
  using assms
proof (induction xs arbitrary: fs r ds)
  case Nil
  then show ?case by (auto intro!: exI [of _ r])
next
  case (Cons x xs)
  obtain res ds1 fs1 where run: "run_campaign H L (cr_caps x) (cr_lease x) (cr_env x) w i (cr_maxSteps x) fs = (res, ds1, fs1)" by (metis prod.exhaust)
  obtain ds2 where ds2: "runs H L w i xs fs1 = (ds2, fs')" "ds = map (\<lambda>p. (cr_caps x, p)) ds1 @ ds2"
    using Cons.prems(4) run by (auto split: prod.splits)
  have "revision r + 384 < 2 ^ 53" using Cons.prems(3) by simp
  from run_campaign_ok [OF Cons.prems(1) Cons.prems(2) this run] obtain r1 where
    r1: "holds H L fs1 w i r1" "advanced 384 r r1" "distinct (map dispatched ds1)"
      "\<forall>p \<in> set ds1. task_states_of r (dispatched p) = Some Pending \<and> task_states_of r1 (dispatched p) \<noteq> Some Pending \<and> within_plan (cr_caps x) (record_input r) p"
    by auto
  have "revision r1 + int (384 * length xs) < 2 ^ 53" using r1(2) Cons.prems(3) by (simp add: advanced_def)
  from Cons.IH [OF r1(1) Cons.prems(2) this ds2(1)] obtain r2 where
    r2: "holds H L fs' w i r2" "advanced (384 * length xs) r1 r2" "distinct (map (\<lambda>p. dispatched (snd p)) ds2)"
      "\<forall>p \<in> set ds2. task_states_of r1 (dispatched (snd p)) = Some Pending \<and> task_states_of r2 (dispatched (snd p)) \<noteq> Some Pending \<and>
        within_plan (fst p) (record_input r1) (snd p)"
    by auto
  have "advanced (384 * length (x # xs)) r r2" by (rule advanced_trans [OF r1(2) r2(2)]) simp
  moreover have "dispatched p \<noteq> dispatched (snd q)" if "p \<in> set ds1" "q \<in> set ds2" for p q
    using r1(4) r2(4) that by metis
  then have "dispatched ` set ds1 \<inter> (\<lambda>p. dispatched (snd p)) ` set ds2 = {}" by blast
  then have "distinct (map (\<lambda>p. dispatched (snd p)) ds)"
    using r1(3) r2(3) by (simp add: ds2(2) comp_def)
  moreover have "task_states_of r2 (dispatched p) \<noteq> Some Pending" if "p \<in> set ds1" for p
    using that r1(4) advanced_pending [OF r2(2)] by blast
  ultimately show ?case
    using r1 r2 advanced_pending [OF r1(2)] advanced_input [OF r1(2)]
    by (intro exI [of _ r2]) (auto simp: ds2(2))
qed

section \<open>A campaign that meets no obstacle\<close>

lemma claimNext_success:
  assumes h: "holds H L fs w i r" and e: "lease e = Held" "writeError e = None" "UUID_test (randomUUID e)" and room: "revision r + 1 < 2 ^ 53"
    and t: "List.find (runnable (tasks r)) (tasks r) = Some t" "\<not> list_ex (\<lambda>t. state t = InFlight) (tasks r)"
  shows "\<exists>fs'. claimNext H L e w i fs = (Inr (Claimed (step_id t) (randomUUID e) (claim_task e (step_id t) r)), fs') \<and>
    holds H L fs' w i (claim_task e (step_id t) r)"
proof -
  let ?r = "claim_task e (step_id t) r"
  obtain f where f: "ledger_file H L w i = Inr f" using holds_file [OF h] by blast
  have wi: "workspaceId ?r = w" "campaignId ?r = i" using h by (simp_all add: holds_def)
  obtain res fs' where w: "write_then H L e ?r (Claimed (step_id t) (randomUUID e) ?r) fs = (res, fs')" by force
  have "res = Inr (Claimed (step_id t) (randomUUID e) ?r)"
    using w e(2) f by (simp add: write_then_def write_campaign_def wi [simplified])
  with write_then_holds [OF record_ok_claim [OF holds_record_ok [OF h] e(3) room] w] wi
  have "holds H L fs' w i ?r" by simp
  moreover have "claimNext H L e w i fs = (res, fs')"
    using h f e(1) t w by (simp add: claimNext_def locked_def under_lease_def holds_def Let_def)
  ultimately show ?thesis using \<open>res = _\<close> by simp
qed

lemma transition_success:
  assumes h: "holds H L fs w i r" and e: "lease e = Held" "writeError e = None" and room: "revision r + 1 < 2 ^ 53"
    and t: "transition_refusal (find_task tid (tasks r)) opId next pf = None" and n: "next \<noteq> Pending" "proof_fits pf"
  shows "\<exists>fs'. transition H L e w i tid opId next pf fs = (Inr (settle_task e tid next pf r), fs') \<and>
    holds H L fs' w i (settle_task e tid next pf r)"
proof -
  let ?r = "settle_task e tid next pf r"
  obtain f where f: "ledger_file H L w i = Inr f" using holds_file [OF h] by blast
  have wi: "workspaceId ?r = w" "campaignId ?r = i" using h by (simp_all add: holds_def)
  obtain res fs' where w: "write_then H L e ?r ?r fs = (res, fs')" by force
  have "res = Inr ?r" using w e(2) f by (simp add: write_then_def write_campaign_def wi [simplified])
  with write_then_holds [OF record_ok_settle [OF holds_record_ok [OF h] room t n] w] wi
  have "holds H L fs' w i ?r" by simp
  moreover have "transition H L e w i tid opId next pf fs = (res, fs')"
    using h f e(1) t w by (simp add: transition_def locked_def under_lease_def holds_def Let_def)
  ultimately show ?thesis using \<open>res = _\<close> by simp
qed

text \<open>A capability that answers every request with a verified success.\<close>

definition success :: "CampaignInvocation \<Rightarrow> CampaignProof \<Rightarrow> CampaignObservation" where
  "success q p = \<lparr>ob_operationId = iv_operationId q, ob_targetResource = iv_targetResource q, ob_expectedState = iv_expectedState q,
     ob_argumentsDigest = iv_argumentsDigest q, ob_state = Succeeded, ob_proof = Some p\<rparr>"

definition always_succeeds :: "TypedCampaignCapability \<Rightarrow> bool" where
  "always_succeeds port = (\<forall>n q. \<exists>p. verified_proof (Some p) \<and> execute port n q = Inr (success q p) \<and> verify port n q (success q p) = Inr True)"

definition quiet :: "step_env \<Rightarrow> bool" where
  "quiet e = (lease (claim_io e) = Held \<and> writeError (claim_io e) = None \<and> UUID_test (randomUUID (claim_io e)) \<and>
     lease (apply_io e) = Held \<and> writeError (apply_io e) = None)"

definition idle :: "CampaignTaskState CampaignRecord \<Rightarrow> bool" where
  "idle r = list_all (\<lambda>t. state t = Pending \<or> state t = Completed) (tasks r)"

definition pending_ids :: "CampaignTaskState CampaignRecord \<Rightarrow> string set" where
  "pending_ids r = {step_id t |t. t \<in> set (tasks r) \<and> state t = Pending}"

lemma pending_finite [simp]: "finite (pending_ids r)"
  by (simp add: pending_ids_def)

text \<open>No cycle among the dependencies, so some pending step has none that is pending.\<close>

lemma runnable_exists:
  assumes ok: "record_ok H own r" and idle: "idle r" and ne: "pending_ids r \<noteq> {}"
  shows "\<exists>t. List.find (runnable (tasks r)) (tasks r) = Some t"
proof -
  let ?D = "depends (in_tasks (record_input r))"
  have plan: "acyclic ?D" "list_all (\<lambda>t. set (dependsOn t) \<subseteq> step_id ` set (in_tasks (record_input r))) (in_tasks (record_input r))"
    using ok by (auto simp: record_ok_def plan_ok_def list_all_iff)
  have "?D \<subseteq> step_id ` set (tasks r) \<times> (\<Union>t \<in> set (tasks r). set (dependsOn t))"
    by (auto simp: depends_def record_input_simps)
  then have "finite ?D" by (rule finite_subset) simp
  then have "wf (?D\<inverse>)" using plan(1) by (intro finite_acyclic_wf_converse)
  with ne obtain m where m: "m \<in> pending_ids r" "\<And>d. (d, m) \<in> ?D\<inverse> \<Longrightarrow> d \<notin> pending_ids r"
    by (metis wf_eq_minimal ex_in_conv)
  then obtain t where t: "t \<in> set (tasks r)" "step_id t = m" "state t = Pending" by (auto simp: pending_ids_def)
  have "\<exists>u. find_task d (tasks r) = Some u \<and> state u = Completed" if "d \<in> set (dependsOn t)" for d
  proof -
    have e: "(m, d) \<in> ?D" using t that by (auto simp: depends_def record_input_simps)
    have "d \<in> step_id ` set (tasks r)"
      using plan(2) t(1) that by (auto simp: list_all_iff record_input_simps image_image)
    then obtain u where u: "find_task d (tasks r) = Some u" using find_task_None [of d "tasks r"] by (cases "find_task d (tasks r)") auto
    then have "u \<in> set (tasks r)" "step_id u = d" by (auto dest: find_task_id)
    then show ?thesis using m(2) [of d] e idle u by (auto simp: pending_ids_def idle_def list_all_iff)
  qed
  then have "list_all (\<lambda>dep. case find_task dep (tasks r) of None \<Rightarrow> False | Some d \<Rightarrow> state d = Completed) (dependsOn t)"
    unfolding list_all_iff by fastforce
  moreover have "state u \<noteq> OutcomeUnknown \<and> state u \<noteq> Blocked" if "u \<in> set (tasks r)" for u
    using idle that by (auto simp: idle_def list_all_iff)
  ultimately have "runnable (tasks r) t" using t(3) by (auto simp: runnable_def list_ex_iff)
  then show ?thesis using t(1) find_None_iff [of "runnable (tasks r)" "tasks r"] by (cases "List.find (runnable (tasks r)) (tasks r)") auto
qed

lemma dispatch_success:
  assumes h: "holds H L fs w i c" and t: "find_task tid (tasks c) = Some t" "state t = InFlight" "operationId t = Some opId"
    and e: "quiet e" and room: "revision c + 1 < 2 ^ 53" and port: "always_succeeds port"
  shows "\<exists>p fs'. dispatch H L e n port w i c t opId fs = (Inr (), fs') \<and>
    holds H L fs' w i (settle_task (apply_io e) tid Completed (Some p) c)"
proof -
  let ?q = "invocation c t opId"
  obtain p where p: "verified_proof (Some p)" "execute port n ?q = Inr (success ?q p)" "verify port n ?q (success ?q p) = Inr True"
    using port by (auto simp: always_succeeds_def)
  have tid: "step_id t = tid" using find_task_id [OF t(1)] by simp
  have "task_ok t" using holds_record_ok [OF h] find_task_id [OF t(1)] by (simp add: record_ok_def list_all_iff)
  then have "transition_refusal (find_task tid (tasks c)) opId Completed (Some p) = None"
    using t p(1) by (auto simp: transition_refusal_def task_ok_def)
  moreover have "lease (apply_io e) = Held" "writeError (apply_io e) = None" using e by (simp_all add: quiet_def)
  moreover have "Completed \<noteq> Pending" by simp
  ultimately obtain fs' where fs': "transition H L (apply_io e) w i tid opId Completed (Some p) fs = (Inr (settle_task (apply_io e) tid Completed (Some p) c), fs')"
      "holds H L fs' w i (settle_task (apply_io e) tid Completed (Some p) c)"
    using transition_success [OF h _ _ room _ _ verified_fits [OF p(1)]] by blast
  have "validateObservation (success ?q p) t opId = Inr (success ?q p)"
    using p(1) by (simp add: validateObservation_def success_def invocation_def)
  moreover have "verifyTerminal n port ?q (success ?q p) = Inr ()" using p(3) by (simp add: verifyTerminal_def)
  moreover have "applyObservation H L (apply_io e) c t (success ?q p) fs = (Inr (), fs')"
    using t(3) fs'(1) h tid by (simp add: applyObservation_def success_def holds_def)
  ultimately have "dispatch H L e n port w i c t opId fs = (Inr (), fs')"
    using p(2) by (simp add: dispatch_def observe_outcome_def)
  with fs'(2) show ?thesis by blast
qed

lemma settled_record:
  assumes "idle r"
  shows "idle (settle_task e' j Completed p (claim_task e j r))"
    and "pending_ids (settle_task e' j Completed p (claim_task e j r)) = pending_ids r - {j}"
  using assms by (auto simp: idle_def pending_ids_def settle_task_def claim_task_def set_task_def list_all_iff split: if_splits)

lemma idle_completed: "idle r \<Longrightarrow> list_all (\<lambda>t. state t = Completed) (tasks r) \<longleftrightarrow> pending_ids r = {}"
  by (auto simp: idle_def pending_ids_def list_all_iff)

lemma run_steps_completes:
  assumes "holds H L fs w i r" and "idle r" and "card (pending_ids r) \<le> k" and "revision r + int (2 * k) < 2 ^ 53"
    and quiet: "\<And>m. quiet (env m)"
    and caps: "\<And>t. t \<in> set (in_tasks x) \<Longrightarrow> \<exists>port. Map_get caps (step_id t) = Some port \<and> assertBinding t (Some port) \<and> always_succeeds port"
    and "record_input r = x"
  shows "\<exists>R new fs'. run_steps H L caps env w i k n visited ex rec ds fs = (Inr R, ds @ new, fs') \<and> stop R = AllCompleted \<and>
    list_all (\<lambda>t. state t = Completed) (tasks (campaign R)) \<and> dispatched ` set new = pending_ids r"
  using assms(1-4,7)
proof (induction k arbitrary: n visited ex rec ds fs r)
  case 0
  then have "list_all (\<lambda>t. state t = Completed) (tasks r)" "pending_ids r = {}" by (auto simp: idle_completed)
  then show ?case by (simp add: requireCampaign_holds [OF 0(1)] run_result_def)
next
  case (Suc k)
  note h = Suc.prems(1) and idle = Suc.prems(2)
  show ?case
  proof (cases "pending_ids r = {}")
    case True
    then have "list_all (\<lambda>t. state t = Completed) (tasks r)" by (simp add: idle_completed [OF idle])
    with True show ?thesis by (simp add: requireCampaign_holds [OF h] run_result_def)
  next
    case False
    obtain t where t: "List.find (runnable (tasks r)) (tasks r) = Some t" using runnable_exists [OF holds_record_ok [OF h] idle False] by blast
    then have t': "t \<in> set (tasks r)" "state t = Pending" by (auto simp: find_Some_iff runnable_def)
    let ?e = "claim_io (env n)" and ?j = "step_id t"
    let ?c = "claim_task ?e ?j r" and ?t = "t\<lparr>state := InFlight, operationId := Some (randomUUID ?e)\<rparr>"
    have q: "lease ?e = Held" "writeError ?e = None" "UUID_test (randomUUID ?e)" using quiet [of n] by (simp_all add: quiet_def)
    have none: "\<not> list_ex (\<lambda>t. state t = InFlight) (tasks r)" "List.find (unresolved visited) (tasks r) = None"
      using idle by (auto simp: idle_def list_all_iff list_ex_iff find_None_iff unresolved_def)
    have room: "revision r + 1 < 2 ^ 53" "revision ?c + 1 < 2 ^ 53" using Suc.prems(4) by simp_all
    obtain fs1 where c: "claimNext H L ?e w i fs = (Inr (Claimed ?j (randomUUID ?e) ?c), fs1)" "holds H L fs1 w i ?c"
      using claimNext_success [OF h q room(1) t none(1)] by blast
    obtain port where port: "Map_get caps ?j = Some port" "assertBinding t (Some port)" "always_succeeds port"
      using caps [of "CampaignStep.truncate t"] t'(1) Suc.prems(5) by (auto simp: record_input_simps assertBinding_def)
    note found = claimed_task [OF holds_record_ok [OF h] t'(1), of ?e]
    obtain p fs2 where d: "dispatch H L (env n) n port w i ?c ?t (randomUUID ?e) fs1 = (Inr (), fs2)"
      "holds H L fs2 w i (settle_task (apply_io (env n)) ?j Completed (Some p) ?c)"
      using dispatch_success [OF c(2) found _ _ quiet [of n] room(2) port(3), of "randomUUID ?e" n] by auto
    let ?r = "settle_task (apply_io (env n)) ?j Completed (Some p) ?c"
    have j: "?j \<in> pending_ids r" using t' by (auto simp: pending_ids_def)
    have "card (pending_ids ?r) \<le> k" using j Suc.prems(3) by (simp add: settled_record [OF idle] card_Diff_singleton)
    moreover have "revision ?r + int (2 * k) < 2 ^ 53" using Suc.prems(4) by simp
    moreover have "record_input ?r = x" using Suc.prems(5) by simp
    ultimately obtain R new fs' where R: "run_steps H L caps env w i k (Suc n) (Set_add visited ?j) (Suc ex) rec
          (ds @ [(invocation ?c ?t (randomUUID ?e), ?c)]) fs2 = (Inr R, (ds @ [(invocation ?c ?t (randomUUID ?e), ?c)]) @ new, fs')"
        "stop R = AllCompleted" "list_all (\<lambda>t. state t = Completed) (tasks (campaign R))" "dispatched ` set new = pending_ids ?r"
      using Suc.IH [OF d(2) settled_record(1) [OF idle]] by blast
    have "assertBinding ?t (Some port)" using port(2) by (simp add: assertBinding_def)
    then have "run_steps H L caps env w i (Suc k) n visited ex rec ds fs = (Inr R, ds @ (invocation ?c ?t (randomUUID ?e), ?c) # new, fs')"
      using False none c(1) port(1) d(1) R(1) found
      by (simp add: requireCampaign_holds [OF h] idle_completed [OF idle] after_claim_def)
    moreover have "dispatched ` set ((invocation ?c ?t (randomUUID ?e), ?c) # new) = pending_ids r"
      using R(4) j by (auto simp: settled_record [OF idle] invocation_def)
    ultimately show ?thesis using R(2,3) by blast
  qed
qed

section \<open>A sample run\<close>

definition demo_capability :: "CampaignStep \<Rightarrow> TypedCampaignCapability" where
  "demo_capability t = \<lparr>cp_action = action t, cp_targetResource = targetResource t, cp_expectedState = expectedState t,
     cp_argumentsDigest = argumentsDigest t, execute = (\<lambda>_ q. Inr (success q demo_proof)),
     reconcile = (\<lambda>_ q. Inr (success q demo_proof)), verify = (\<lambda>_ _ _. Inr True)\<rparr>"

definition demo_capabilities :: capabilities where
  "demo_capabilities = map (\<lambda>t. (step_id t, demo_capability t)) (in_tasks demo_plan)"

definition demo_env :: step_env where
  "demo_env = \<lparr>claim_io = demo_io, apply_io = demo_io, catch_io = demo_io\<rparr>"

definition demo_run :: campaign_run where
  "demo_run = \<lparr>cr_caps = demo_capabilities, cr_lease = Held, cr_env = (\<lambda>_. demo_env), cr_maxSteps = 8\<rparr>"

lemma demo_quiet: "quiet demo_env"
proof -
  have "UUID_test (demo_uuid (CHR ''2''))" by code_simp
  then show ?thesis by (simp add: quiet_def demo_env_def demo_io_def)
qed

lemma demo_bound:
  "\<forall>t \<in> set (tasks demo_record). \<exists>port. Map_get demo_capabilities (step_id t) = Some port \<and> assertBinding t (Some port) \<and> always_succeeds port"
proof -
  have "verified_proof (Some demo_proof)" by (simp add: verified_proof_def demo_proof_def)
  then have "always_succeeds (demo_capability t)" for t by (auto simp: always_succeeds_def demo_capability_def)
  moreover have "assertBinding (extend_step b Pending None None) (Some (demo_capability b))" for b
    by (simp add: assertBinding_def demo_capability_def)
  moreover have "Map_get demo_capabilities ''a'' = Some (demo_capability (demo_step ''a'' ''edit'' []))"
    "Map_get demo_capabilities ''b'' = Some (demo_capability (demo_step ''b'' ''commit'' [''a'']))"
    by (simp_all add: demo_capabilities_def demo_plan_def Map_get_def demo_step_def)
  moreover have "step_id (demo_step j a l) = j" for j a l by (simp add: demo_step_def)
  ultimately show ?thesis by (simp add: demo_tasks)
qed

section \<open>Properties\<close>

text \<open>
  C3. A step is dispatched at most once. Over any number of runs of a campaign on file, with any capabilities, any answers and failures of
  them, refused or lost locks and failed writes, \<open>execute\<close> is called for every step at most once, and only if the step was
  pending before the first run. Each call carries exactly the action, resource, expected state and arguments of the step in the plan, the
  capability called is bound to exactly these, and all dependencies of the step were completed with verified proofs when it was claimed.
\<close>

theorem dispatched_at_most_once:
  assumes "holds H L fs w i r" and "\<forall>x \<in> set xs. \<forall>m. UUID_test (randomUUID (claim_io (cr_env x m)))"
    and "revision r + int (384 * length xs) < 2 ^ 53" and "runs H L w i xs fs = (ds, fs')"
  shows "distinct (map (\<lambda>p. iv_taskId (fst (snd p))) ds) \<and>
    (\<forall>p \<in> set ds. task_states_of r (iv_taskId (fst (snd p))) = Some Pending \<and> within_plan (fst p) (record_input r) (snd p)) \<and>
    (\<exists>r'. holds H L fs' w i r' \<and> record_input r' = record_input r \<and>
      (\<forall>p \<in> set ds. task_states_of r' (iv_taskId (fst (snd p))) \<noteq> Some Pending))"
proof -
  have u: "\<And>x m. x \<in> set xs \<Longrightarrow> UUID_test (randomUUID (claim_io (cr_env x m)))" using assms(2) by blast
  from runs_ok [OF assms(1) u assms(3,4)] show ?thesis by (auto dest: advanced_input)
qed

theorem dispatched_at_most_once_witness:
  "\<exists>ds fs'. runs demo_host demo_ledger (in_workspaceId demo_plan) (in_campaignId demo_plan) [demo_run, demo_run] demo_files = (ds, fs') \<and>
     distinct (map (\<lambda>p. iv_taskId (fst (snd p))) ds)"
proof -
  obtain ds fs' where r: "runs demo_host demo_ledger (in_workspaceId demo_plan) (in_campaignId demo_plan) [demo_run, demo_run] demo_files = (ds, fs')"
    by force
  have "\<forall>x \<in> set [demo_run, demo_run]. \<forall>m. UUID_test (randomUUID (claim_io (cr_env x m)))"
    using demo_quiet by (simp add: demo_run_def quiet_def)
  then show ?thesis using dispatched_at_most_once [OF demo_holds(1) _ _ r] r by simp
qed

text \<open>
  A run is bounded and reports what it did. It makes at most \<open>maxSteps\<close> dispatches and reconciliations, the number of executed steps it
  returns is the number of calls of \<open>execute\<close>, and the campaign it returns is the one on file afterwards; a bound outside 1 to 128 is refused
  without effect.
\<close>

theorem run_bounded:
  assumes "holds H L fs w i r" and "\<forall>m. UUID_test (randomUUID (claim_io (env m)))" and "revision r + 384 < 2 ^ 53"
  shows "if maxSteps < 1 \<or> 128 < maxSteps
    then run_campaign H L caps l env w i maxSteps fs = (Inl (CAMPAIGN_INVALID ''bounded maxSteps required''), [], fs)
    else \<forall>R ds fs'. run_campaign H L caps l env w i maxSteps fs = (Inr R, ds, fs') \<longrightarrow>
      executed R = length ds \<and> int (executed R + reconciled R) \<le> maxSteps \<and> holds H L fs' w i (campaign R)"
proof -
  have u: "\<And>m. UUID_test (randomUUID (claim_io (env m)))" using assms(2) by blast
  have "executed R = length ds \<and> int (executed R + reconciled R) \<le> maxSteps \<and> holds H L fs' w i (campaign R)"
    if "run_campaign H L caps l env w i maxSteps fs = (Inr R, ds, fs')" for R ds fs'
    using run_campaign_ok [where env = env, OF assms(1) u assms(3) that] by auto
  moreover have "maxSteps < 1 \<or> 128 < maxSteps \<Longrightarrow>
      run_campaign H L caps l env w i maxSteps fs = (Inl (CAMPAIGN_INVALID ''bounded maxSteps required''), [], fs)"
    by (simp add: run_campaign_def)
  ultimately show ?thesis by auto
qed

text \<open>
  When all tasks are pending or completed, every step has a capability bound to it that answers with verified success, no lock is refused or lost and
  no write fails, one run with at least as many iterations as there are pending steps executes exactly these and ends with all steps completed.
\<close>

lemma run_campaign_completes:
  assumes "holds H L fs w i r" and "\<forall>t \<in> set (tasks r). state t = Pending \<or> state t = Completed"
    and "\<forall>t \<in> set (tasks r). \<exists>port. Map_get caps (step_id t) = Some port \<and> assertBinding t (Some port) \<and> always_succeeds port"
    and "\<forall>m. quiet (env m)" and "revision r + 256 < 2 ^ 53"
    and "1 \<le> maxSteps" "maxSteps \<le> 128" "int (card (pending_ids r)) \<le> maxSteps"
  shows "\<exists>R ds fs'. run_campaign H L caps Held env w i maxSteps fs = (Inr R, ds, fs') \<and> stop R = AllCompleted \<and>
    (\<forall>t \<in> set (tasks (campaign R)). state t = Completed) \<and> (\<lambda>p. iv_taskId (fst p)) ` set ds = pending_ids r"
proof -
  have idle: "idle r" using assms(2) by (simp add: idle_def list_all_iff)
  have caps: "\<And>t. t \<in> set (in_tasks (record_input r)) \<Longrightarrow>
      \<exists>port. Map_get caps (step_id t) = Some port \<and> assertBinding t (Some port) \<and> always_succeeds port"
    using assms(3) by (fastforce simp: record_input_simps assertBinding_def)
  have "card (pending_ids r) \<le> nat maxSteps" "revision r + int (2 * nat maxSteps) < 2 ^ 53" using assms(5-8) by simp_all
  from run_steps_completes [where n = 0 and visited = "[]" and ex = 0 and rec = 0 and ds = "[]" and env = env and caps = caps, OF assms(1) idle this _ caps refl] assms(4)
  obtain R new fs' where R: "run_steps H L caps env w i (nat maxSteps) 0 [] 0 0 [] fs = (Inr R, new, fs')" "stop R = AllCompleted"
      "list_all (\<lambda>t. state t = Completed) (tasks (campaign R))" "dispatched ` set new = pending_ids r"
    by auto
  obtain f where f: "ledger_file H L w i = Inr f" using holds_file [OF assms(1)] by blast
  have "list_all (\<lambda>t. assertBinding t (Map_get caps (step_id t))) (tasks r)" using assms(3) by (fastforce simp: list_all_iff)
  then have "run_campaign H L caps Held env w i maxSteps fs = (Inr R, new, fs')"
    using R(1) f assms(6,7) by (simp add: run_campaign_def run_body_def requireCampaign_holds [OF assms(1)])
  with R show ?thesis by (auto simp: list_all_iff)
qed

end
