(* ===== verification/CampaignSupervisor.thy ===== *)
theory CampaignSupervisor
  imports CampaignCoordinator
begin

text \<open>
  The bounded session of passes, \<open>services/workspace-agent/src/campaign/delegated-campaign-session-runner.ts\<close>, and the
  supervisor that wakes registered campaigns in turn,
  \<open>services/workspace-agent/src/campaign/delegated-campaign-supervisor.ts\<close>. Both run on top of the coordinator: a
  dispatch is returned with the capabilities its pass was bound to. The function that binds capabilities to a plan is
  code of the host: it takes the number of the wake and of the pass, and may fail.
\<close>

section \<open>A session\<close>

record CampaignSessionResult = CampaignRunResult +
  passes :: nat

record pass_env =
  pass_lease :: lease_view
  pass_steps :: "nat \<Rightarrow> step_env"

type_synonym binding_fn = "nat \<Rightarrow> CampaignTaskState CampaignRecord \<Rightarrow> campaign_error + capabilities"
type_synonym bound_dispatch = "capabilities \<times> CampaignInvocation \<times> CampaignTaskState CampaignRecord"

definition session_result :: "CampaignRunStop \<Rightarrow> nat \<Rightarrow> nat \<Rightarrow> CampaignTaskState CampaignRecord \<Rightarrow> nat \<Rightarrow> CampaignSessionResult" where
  "session_result s ex rec r p = \<lparr>stop = s, executed = ex, reconciled = rec, campaign = r, passes = p\<rparr>"

text \<open>The loop over the passes, with the passes left, the number of the pass and the two counters.\<close>

fun run_passes :: "host \<Rightarrow> DelegatedCampaignLedger \<Rightarrow> binding_fn \<Rightarrow> (nat \<Rightarrow> pass_env) \<Rightarrow> string \<Rightarrow> string \<Rightarrow> int \<Rightarrow> nat \<Rightarrow> nat \<Rightarrow> nat \<Rightarrow> nat \<Rightarrow>
    bound_dispatch list \<Rightarrow> files \<Rightarrow> (campaign_error + CampaignSessionResult) \<times> bound_dispatch list \<times> files" where
  "run_passes H L bind env w i maxSteps 0 p ex rec ds fs =
    (case requireCampaign H L fs w i of
       Inl err \<Rightarrow> (Inl err, ds, fs)
     | Inr r \<Rightarrow> (Inr (session_result StepBudget ex rec r p), ds, fs))"
| "run_passes H L bind env w i maxSteps (Suc k) p ex rec ds fs =
    (case requireCampaign H L fs w i of
       Inl err \<Rightarrow> (Inl err, ds, fs)
     | Inr plan \<Rightarrow>
         (case bind p plan of
            Inl err \<Rightarrow> (Inl err, ds, fs)
          | Inr caps \<Rightarrow>
              (case run_campaign H L caps (pass_lease (env p)) (pass_steps (env p)) w i maxSteps fs of
                 (Inl err, new, fs') \<Rightarrow> (Inl err, ds @ map (Pair caps) new, fs')
               | (Inr current, new, fs') \<Rightarrow>
                   if stop current \<noteq> StepBudget
                   then (Inr (session_result (stop current) (ex + executed current) (rec + reconciled current) (campaign current) (Suc p)),
                         ds @ map (Pair caps) new, fs')
                   else run_passes H L bind env w i maxSteps k (Suc p) (ex + executed current) (rec + reconciled current)
                          (ds @ map (Pair caps) new) fs')))"

definition run_session :: "host \<Rightarrow> DelegatedCampaignLedger \<Rightarrow> binding_fn \<Rightarrow> (nat \<Rightarrow> pass_env) \<Rightarrow> string \<Rightarrow> string \<Rightarrow> int \<Rightarrow> int \<Rightarrow> files \<Rightarrow>
    (campaign_error + CampaignSessionResult) \<times> bound_dispatch list \<times> files" where
  "run_session H L bind env w i maxPasses maxStepsPerPass fs =
    (if maxPasses < 1 \<or> 16 < maxPasses \<or> maxStepsPerPass < 1 \<or> 128 < maxStepsPerPass
     then (Inl (CAMPAIGN_INVALID ''bounded pass/step budget required''), [], fs)
     else run_passes H L bind env w i maxStepsPerPass (nat maxPasses) 0 0 0 [] fs)"

section \<open>The supervisor\<close>

record TrustedCampaignRegistration =
  rg_workspaceId :: string
  rg_campaignId :: string
  rg_ledger :: DelegatedCampaignLedger
  rg_bind :: "nat \<Rightarrow> binding_fn"

datatype SupervisedCampaignState = SReady | SQueued | SAwaitingReconciliation | SCompleted | SBlocked | SNeedsAttention

record SupervisedCampaignStatus =
  ss_workspaceId :: string
  ss_campaignId :: string
  ss_state :: SupervisedCampaignState
  ss_wakes :: nat
  ss_executed :: nat
  ss_reconciled :: nat
  ss_failures :: nat
  ss_nextDelayMs :: int

record CampaignSupervisorOptions =
  opt_maxStepsPerWake :: "int option"
  opt_idlePollMs :: "int option"
  opt_unknownPollMs :: "int option"
  opt_failureBackoffMs :: "int option"
  opt_maxBackoffMs :: "int option"

datatype supervisor_stop = Supervised_all_completed | Supervised_stopped | Supervised_wake_budget | Supervised_needs_attention

record CampaignSupervisorReport =
  rp_stop :: supervisor_stop
  rp_wakes :: nat
  rp_campaigns :: "SupervisedCampaignStatus list"

record Entry =
  registration :: TrustedCampaignRegistration
  status_of :: SupervisedCampaignStatus
  dueAt :: int

record DelegatedCampaignSupervisor =
  entries :: "Entry list"
  maxSteps :: int
  idlePollMs :: int
  unknownPollMs :: int
  failureBackoffMs :: int
  maxBackoffMs :: int
  serving :: bool

definition bounded :: "int \<Rightarrow> int \<Rightarrow> int \<Rightarrow> string \<Rightarrow> campaign_error + int" where
  "bounded value minimum maximum name = ensure (\<bar>value\<bar> < 2 ^ 53 \<and> minimum \<le> value \<and> value \<le> maximum) name (Inr value)"

definition or_default :: "'a option \<Rightarrow> 'a \<Rightarrow> 'a" where
  "or_default x d = (case x of None \<Rightarrow> d | Some v \<Rightarrow> v)"

definition same_registration :: "TrustedCampaignRegistration \<Rightarrow> TrustedCampaignRegistration \<Rightarrow> bool" where
  "same_registration a b = (rg_workspaceId a = rg_workspaceId b \<and> rg_campaignId a = rg_campaignId b)"

definition initial_entry :: "TrustedCampaignRegistration \<Rightarrow> Entry" where
  "initial_entry g = \<lparr>registration = g, status_of = \<lparr>ss_workspaceId = rg_workspaceId g, ss_campaignId = rg_campaignId g, ss_state = SReady,
     ss_wakes = 0, ss_executed = 0, ss_reconciled = 0, ss_failures = 0, ss_nextDelayMs = 0\<rparr>, dueAt = 0\<rparr>"

definition addTrustedRegistration :: "TrustedCampaignRegistration \<Rightarrow> DelegatedCampaignSupervisor \<Rightarrow> campaign_error + DelegatedCampaignSupervisor" where
  "addTrustedRegistration g S =
    (if serving S then Inl CAMPAIGN_ALREADY_SUPERVISING
     else ensure (length (entries S) < 16 \<and> WORKSPACE_ID_test (rg_workspaceId g) \<and> UUID_test (rg_campaignId g)) ''trusted campaign registration''
      (ensure (\<not> list_ex (\<lambda>e. same_registration (registration e) g) (entries S)) ''duplicate campaign registration''
      (Inr (S\<lparr>entries := entries S @ [initial_entry g]\<rparr>))))"

fun addAll :: "TrustedCampaignRegistration list \<Rightarrow> DelegatedCampaignSupervisor \<Rightarrow> campaign_error + DelegatedCampaignSupervisor" where
  "addAll [] S = Inr S"
| "addAll (g # gs) S = and_then (addTrustedRegistration g S) (addAll gs)"

definition new_supervisor :: "TrustedCampaignRegistration list \<Rightarrow> CampaignSupervisorOptions \<Rightarrow> campaign_error + DelegatedCampaignSupervisor" where
  "new_supervisor gs opts =
    ensure (1 \<le> length gs \<and> length gs \<le> 16) ''bounded trusted registrations''
    (and_then (bounded (or_default (opt_maxStepsPerWake opts) 8) 1 128 ''maxStepsPerWake'') (\<lambda>steps.
     and_then (bounded (or_default (opt_idlePollMs opts) 1000) 100 86400000 ''idlePollMs'') (\<lambda>idle_ms.
     and_then (bounded (or_default (opt_unknownPollMs opts) 5000) 100 86400000 ''unknownPollMs'') (\<lambda>unknown_ms.
     and_then (bounded (or_default (opt_failureBackoffMs opts) 5000) 100 86400000 ''failureBackoffMs'') (\<lambda>failure_ms.
     and_then (bounded (or_default (opt_maxBackoffMs opts) 60000) (max unknown_ms failure_ms) 86400000 ''maxBackoffMs'') (\<lambda>max_ms.
     addAll gs \<lparr>entries = [], maxSteps = steps, idlePollMs = idle_ms, unknownPollMs = unknown_ms, failureBackoffMs = failure_ms,
       maxBackoffMs = max_ms, serving = False\<rparr>))))))"

definition status :: "DelegatedCampaignSupervisor \<Rightarrow> SupervisedCampaignStatus list" where
  "status S = map status_of (entries S)"

text \<open>The errors with the code \<open>EEXIST\<close>: the lock that \<open>CampaignRunLease\<close> refuses, or a file the system reports as present.\<close>

definition recoverableLock :: "campaign_error \<Rightarrow> bool" where
  "recoverableLock err = (err = CAMPAIGN_RUN_LOCKED \<or> err = SystemError ''EEXIST'')"

section \<open>A wake\<close>

text \<open>The status after a session; the flag tells whether the campaign is due again, or the method has returned before.\<close>

definition wake_result :: "DelegatedCampaignSupervisor \<Rightarrow> CampaignSessionResult \<Rightarrow> SupervisedCampaignStatus \<Rightarrow> bool \<times> SupervisedCampaignStatus" where
  "wake_result S R s =
    (let s = s\<lparr>ss_executed := ss_executed s + executed R, ss_reconciled := ss_reconciled s + reconciled R, ss_failures := 0\<rparr>
     in if stop R = AllCompleted then (False, s\<lparr>ss_state := SCompleted, ss_nextDelayMs := 0\<rparr>)
        else if stop R = NoRunnable then (False, s\<lparr>ss_state := SBlocked, ss_nextDelayMs := 0\<rparr>)
        else if stop R = AwaitingReconciliation
        then (True, s\<lparr>ss_state := SAwaitingReconciliation,
                ss_nextDelayMs := min (maxBackoffMs S) (max (unknownPollMs S) (ss_nextDelayMs s * 2))\<rparr>)
        else (True, s\<lparr>ss_state := SReady, ss_nextDelayMs := idlePollMs S\<rparr>))"

definition wake_error :: "DelegatedCampaignSupervisor \<Rightarrow> campaign_error \<Rightarrow> SupervisedCampaignStatus \<Rightarrow> bool \<times> SupervisedCampaignStatus" where
  "wake_error S err s =
    (if \<not> recoverableLock err then (False, s\<lparr>ss_state := SNeedsAttention, ss_nextDelayMs := 0\<rparr>)
     else (let s = s\<lparr>ss_failures := ss_failures s + 1\<rparr>
           in if 4 \<le> ss_failures s then (False, s\<lparr>ss_state := SNeedsAttention, ss_nextDelayMs := 0\<rparr>)
              else (True, s\<lparr>ss_state := SAwaitingReconciliation,
                ss_nextDelayMs := min (maxBackoffMs S) (max (failureBackoffMs S)
                  (failureBackoffMs S * 2 ^ min (ss_failures s - 1) 16))\<rparr>)))"

text \<open>
  What the outside decides in one turn of the loop: whether the signal is aborted when the loop tests it, the clock, how the wait
  ends and whether the signal is aborted then, the environment of the session, and the clock after it.
\<close>

record wake_env =
  aborted :: bool
  now_due :: int
  wait_error :: "campaign_error option"
  aborted_after_wait :: bool
  wake_passes :: "nat \<Rightarrow> pass_env"
  now_end :: int

definition wake :: "host \<Rightarrow> DelegatedCampaignSupervisor \<Rightarrow> wake_env \<Rightarrow> Entry \<Rightarrow> files \<Rightarrow> Entry \<times> bound_dispatch list \<times> files" where
  "wake H S e en fs =
    (let g = registration en;
         s = (status_of en)\<lparr>ss_wakes := ss_wakes (status_of en) + 1\<rparr>
     in case run_session H (rg_ledger g) (rg_bind g (ss_wakes (status_of en))) (wake_passes e) (rg_workspaceId g) (rg_campaignId g) 1 (maxSteps S) fs of
          (res, ds, fs') \<Rightarrow>
            (case (case res of Inr R \<Rightarrow> wake_result S R s | Inl err \<Rightarrow> wake_error S err s) of
               (due, s') \<Rightarrow> (en\<lparr>status_of := s', dueAt := (if due then now_end e + ss_nextDelayMs s' else dueAt en)\<rparr>, ds, fs')))"

section \<open>Serving\<close>

definition eligible :: "Entry \<Rightarrow> bool" where
  "eligible en = (ss_state (status_of en) = SReady \<or> ss_state (status_of en) = SAwaitingReconciliation)"

definition due_order :: "Entry \<Rightarrow> Entry \<Rightarrow> int" where
  "due_order a b = (if dueAt a - dueAt b \<noteq> 0 then dueAt a - dueAt b else int (ss_wakes (status_of a)) - int (ss_wakes (status_of b)))"

text \<open>The positions of the eligible entries, in the order in which they are to be woken.\<close>

definition wake_order :: "Entry list \<Rightarrow> nat list" where
  "wake_order es = sort_cmp (\<lambda>j k. due_order (es ! j) (es ! k)) (filter (\<lambda>j. eligible (es ! j)) [0..<length es])"

text \<open>
  The loop, with the wakes left and the number of wakes done. It ends normally, with a flag that tells whether it found the
  signal aborted, or with the error of a wait.
\<close>

fun serve_loop :: "host \<Rightarrow> (nat \<Rightarrow> wake_env) \<Rightarrow> nat \<Rightarrow> nat \<Rightarrow> DelegatedCampaignSupervisor \<Rightarrow> bound_dispatch list \<Rightarrow> files \<Rightarrow>
    (campaign_error + bool) \<times> nat \<times> DelegatedCampaignSupervisor \<times> bound_dispatch list \<times> files" where
  "serve_loop H env 0 n S ds fs = (Inr (aborted (env n)), n, S, ds, fs)"
| "serve_loop H env (Suc k) n S ds fs =
    (if aborted (env n) then (Inr True, n, S, ds, fs)
     else (case wake_order (entries S) of
       [] \<Rightarrow> (Inr False, n, S, ds, fs)
     | j # _ \<Rightarrow>
         (let due_later = now_due (env n) < dueAt (entries S ! j)
          in if due_later \<and> wait_error (env n) \<noteq> None \<and> \<not> aborted_after_wait (env n) then (Inl (the (wait_error (env n))), n, S, ds, fs)
             else if due_later \<and> aborted_after_wait (env n) then (Inr True, n, S, ds, fs)
             else (case wake H S (env n) (entries S ! j) fs of
               (en, new, fs') \<Rightarrow> serve_loop H env k (Suc n) (S\<lparr>entries := (entries S)[j := en]\<rparr>) (ds @ new) fs'))))"

text \<open>The signal is read again for the report: once aborted it stays so.\<close>

definition serve_report :: "bool \<Rightarrow> nat \<Rightarrow> DelegatedCampaignSupervisor \<Rightarrow> CampaignSupervisorReport" where
  "serve_report abort n S =
    \<lparr>rp_stop = (if abort then Supervised_stopped
       else if list_all (\<lambda>en. ss_state (status_of en) = SCompleted) (entries S) then Supervised_all_completed
       else if list_ex (\<lambda>en. ss_state (status_of en) = SNeedsAttention \<or> ss_state (status_of en) = SBlocked) (entries S) \<and>
               list_all (\<lambda>en. \<not> eligible en) (entries S)
       then Supervised_needs_attention else Supervised_wake_budget),
     rp_wakes = n, rp_campaigns = status S\<rparr>"

definition serve :: "host \<Rightarrow> (nat \<Rightarrow> wake_env) \<Rightarrow> bool \<Rightarrow> int \<Rightarrow> DelegatedCampaignSupervisor \<Rightarrow> files \<Rightarrow>
    (campaign_error + CampaignSupervisorReport) \<times> bound_dispatch list \<times> DelegatedCampaignSupervisor \<times> files" where
  "serve H env aborted_late maxWakes S fs =
    (case bounded maxWakes 1 1024 ''maxWakes'' of
       Inl err \<Rightarrow> (Inl err, [], S, fs)
     | Inr _ \<Rightarrow>
         if serving S then (Inl CAMPAIGN_ALREADY_SUPERVISING, [], S, fs)
         else (case serve_loop H env (nat maxWakes) 0 (S\<lparr>serving := True\<rparr>) [] fs of
           (Inl err, n, S', ds, fs') \<Rightarrow> (Inl err, ds, S'\<lparr>serving := False\<rparr>, fs')
         | (Inr abort, n, S', ds, fs') \<Rightarrow>
             (Inr (serve_report (abort \<or> aborted_late) n (S'\<lparr>serving := False\<rparr>)), ds, S'\<lparr>serving := False\<rparr>, fs')))"

section \<open>A run touches the file of its campaign only\<close>

definition own_record :: "host \<Rightarrow> DelegatedCampaignLedger \<Rightarrow> string \<Rightarrow> string \<Rightarrow> files \<Rightarrow> bool" where
  "own_record H L w i fs = (\<forall>r. get_campaign H L fs w i = Inr (Some r) \<longrightarrow> workspaceId r = w \<and> campaignId r = i)"

definition confined :: "host \<Rightarrow> DelegatedCampaignLedger \<Rightarrow> string \<Rightarrow> string \<Rightarrow> files \<Rightarrow> files \<Rightarrow> bool" where
  "confined H L w i fs fs' = (own_record H L w i fs \<longrightarrow>
     own_record H L w i fs' \<and> (\<forall>g. ledger_file H L w i \<noteq> Inr g \<longrightarrow> Map_get fs' g = Map_get fs g))"

lemma confined_refl [simp]: "confined H L w i fs fs"
  by (simp add: confined_def)

lemma confined_trans: "confined H L w i fs fs' \<Longrightarrow> confined H L w i fs' fs'' \<Longrightarrow> confined H L w i fs fs''"
  by (simp add: confined_def)

lemma confined_by: "(own_record H L w i fs \<Longrightarrow> confined H L w i fs fs') \<Longrightarrow> confined H L w i fs fs'"
  by (simp add: confined_def)

lemma parse_keeps_identity:
  "parsePersisted H own (StoredRecord q) = Inr r \<Longrightarrow> workspaceId r = workspaceId q \<and> campaignId r = campaignId q"
  by (auto simp: parsePersisted_def ensure_def and_then_Inr normalize_cases record_input_simps split: if_splits)

lemma write_confined:
  assumes "workspaceId r = w" "campaignId r = i"
  shows "confined H L w i fs (snd (write_then H L e r x fs))"
proof -
  have "own_record H L w i (Map_set fs f (StoredRecord (stored_record r)))" if "ledger_file H L w i = Inr f" for f
    using that assms by (auto simp: own_record_def get_campaign_def Map_get_set and_then_Inr stored_record_def dest: parse_keeps_identity)
  then show ?thesis
    using assms by (auto simp: write_then_def write_campaign_def confined_def Map_get_set split: sum.splits option.splits)
qed

lemma locked_confined:
  assumes "\<And>fs. confined H L w i fs (snd (fn fs))"
  shows "confined H L w i fs (snd (locked H L e w i fn fs))"
  using assms by (simp add: locked_def under_lease_def split: sum.splits lease_view.splits)

lemma claim_settle_identity [simp]:
  "workspaceId (claim_task e tid r) = workspaceId r" "campaignId (claim_task e tid r) = campaignId r"
  "workspaceId (settle_task e tid next pf r) = workspaceId r" "campaignId (settle_task e tid next pf r) = campaignId r"
  by (simp_all add: claim_task_def settle_task_def)

lemma claimNext_confined: "confined H L w i fs (snd (claimNext H L e w i fs))"
  unfolding claimNext_def
proof (rule locked_confined, rule confined_by)
  fix fs assume "own_record H L w i fs"
  then show "confined H L w i fs (snd (case get_campaign H L fs w i of Inl err \<Rightarrow> (Inl err, fs)
      | Inr None \<Rightarrow> (Inl (CAMPAIGN_INVALID ''campaign not found''), fs)
      | Inr (Some r) \<Rightarrow> if list_ex (\<lambda>t. state t = InFlight) (tasks r) then (Inr (NoRunnableStep r), fs)
          else (case List.find (runnable (tasks r)) (tasks r) of None \<Rightarrow> (Inr (NoRunnableStep r), fs)
                | Some t \<Rightarrow> (let r' = claim_task e (step_id t) r
                             in write_then H L e r' (Claimed (step_id t) (randomUUID e) r') fs))))"
    by (auto simp: own_record_def Let_def intro!: write_confined split: sum.splits option.splits)
qed

lemma claimNext_identity:
  assumes "claimNext H L e w i fs = (Inr (Claimed tid opId r), fs')" and "own_record H L w i fs"
  shows "workspaceId r = w \<and> campaignId r = i"
proof -
  have kept: "r = r'" if "write_then H L e r' (Claimed a b r') fs = (Inr (Claimed tid opId r), fs')" for r' a b
    using that by (auto simp: write_then_def split: prod.splits sum.splits)
  show ?thesis
    using assms by (auto simp: claimNext_def locked_def under_lease_def own_record_def Let_def dest!: kept
        split: sum.splits option.splits lease_view.splits if_splits)
qed

lemma transition_confined: "confined H L w i fs (snd (transition H L e w i tid opId next pf fs))"
  unfolding transition_def
proof (rule locked_confined, rule confined_by)
  fix fs assume "own_record H L w i fs"
  then show "confined H L w i fs (snd (case get_campaign H L fs w i of Inl err \<Rightarrow> (Inl err, fs)
      | Inr None \<Rightarrow> (Inl (CAMPAIGN_INVALID ''campaign not found''), fs)
      | Inr (Some r) \<Rightarrow> (case transition_refusal (find_task tid (tasks r)) opId next pf of
           Some message \<Rightarrow> (Inl (CAMPAIGN_INVALID message), fs)
         | None \<Rightarrow> (let r' = settle_task e tid next pf r in write_then H L e r' r' fs))))"
    by (auto simp: own_record_def Let_def intro!: write_confined split: sum.splits option.splits)
qed

lemma give_up_confined: "confined H L w i fs (snd (give_up H L e w i tid opId fs))"
  by (simp add: give_up_def transition_confined)

lemma apply_confined:
  assumes "workspaceId c = w" "campaignId c = i"
  shows "confined H L w i fs (snd (applyObservation H L e c t ob fs))"
  using assms by (simp add: applyObservation_def Let_def transition_confined split: option.splits)

lemma observe_confined:
  assumes "workspaceId c = w" "campaignId c = i"
  shows "confined H L w i fs (snd (observe_outcome H L e n port c t opId answer fs))"
  using apply_confined [OF assms, of H L fs e t] by (auto simp: observe_outcome_def split: sum.splits prod.splits) (metis snd_conv)+

lemma dispatch_confined:
  assumes "workspaceId c = w" "campaignId c = i"
  shows "confined H L w i fs (snd (dispatch H L e n port w i c t opId fs))"
proof -
  obtain ok fs1 where o: "observe_outcome H L (apply_io e) n port c t opId (execute port n (invocation c t opId)) fs = (ok, fs1)" by force
  have "confined H L w i fs fs1" using observe_confined [OF assms, of H L fs "apply_io e" n port t opId] o by (metis snd_conv)
  with o show ?thesis by (auto simp: dispatch_def intro: confined_trans give_up_confined split: bool.splits)
qed

lemma reconcile_confined:
  assumes "workspaceId c = w" "campaignId c = i"
  shows "confined H L w i fs (snd (reconcileExisting H L e n caps c t fs))"
proof -
  have obs: "confined H L (workspaceId c) (campaignId c) fs fs1"
    if "observe_outcome H L (apply_io e) n port c t opId a fs = (ok, fs1)" for port opId a ok fs1
    using observe_confined [OF refl refl, of H L c fs "apply_io e" n port t opId a] that by simp
  show ?thesis
    unfolding assms [symmetric]
    by (auto simp: reconcileExisting_def give_up_confined split: option.splits prod.splits bool.splits
        intro: confined_trans [OF obs give_up_confined] dest: obs)
qed

lemma get_own: "own_record H L w i fs \<Longrightarrow> requireCampaign H L fs w i = Inr r \<Longrightarrow> workspaceId r = w \<and> campaignId r = i"
  by (auto simp: own_record_def requireCampaign_def and_then_Inr split: option.splits)

lemma after_claim_confined:
  assumes "workspaceId r = w" "campaignId r = i" and "\<And>ds fs. confined H L w i fs (snd (snd (continue ds fs)))"
  shows "confined H L w i fs (snd (snd (after_claim H L e n caps w i tid opId r ds fs continue)))"
proof -
  have d: "confined H L w i fs fs'" if "dispatch H L e n port w i r t opId fs = (res, fs')" for port t res fs'
    using dispatch_confined [OF assms(1,2), of H L fs e n port t opId] that by simp
  show ?thesis
    by (auto simp: after_claim_def split: option.splits prod.splits sum.splits intro: confined_trans [OF d assms(3)] dest: d)
qed

lemma run_steps_confined: "confined H L w i fs (snd (snd (run_steps H L caps env w i k n visited ex rec ds fs)))"
proof (induction k arbitrary: n visited ex rec ds fs)
  case 0
  then show ?case by (simp split: sum.splits)
next
  case (Suc k)
  show ?case
  proof (rule confined_by)
    assume own: "own_record H L w i fs"
    have rc: "confined H L w i fs fs'" if "requireCampaign H L fs w i = Inr r" "reconcileExisting H L (env n) n caps r t fs = (res, fs')" for r t res fs'
      using get_own [OF own that(1)] reconcile_confined [of r w i H L fs "env n" n caps t] that(2) by simp
    have cl: "confined H L w i fs fs'" if "claimNext H L (claim_io (env n)) w i fs = (res, fs')" for res fs'
      using claimNext_confined [of H L w i fs "claim_io (env n)"] that by simp
    have ac: "confined H L w i fs (snd (snd (after_claim H L (env n) n caps w i tid opId r ds fs' (\<lambda>ds' fs''.
        run_steps H L caps env w i k (Suc n) (Set_add visited tid) (Suc ex) rec ds' fs''))))"
      if "claimNext H L (claim_io (env n)) w i fs = (Inr (Claimed tid opId r), fs')" for tid opId r fs'
    proof -
      have "workspaceId r = w \<and> campaignId r = i" using claimNext_identity [OF that own] by blast
      then show ?thesis using confined_trans [OF cl [OF that]] after_claim_confined [of r w i H L] Suc.IH by blast
    qed
    show "confined H L w i fs (snd (snd (run_steps H L caps env w i (Suc k) n visited ex rec ds fs)))"
      using rc cl ac confined_trans [OF rc Suc.IH]
      by (auto split: sum.splits option.splits prod.splits CampaignClaim.splits)
  qed
qed

lemma run_campaign_confined: "confined H L w i fs (snd (snd (run_campaign H L caps l env w i m fs)))"
  using run_steps_confined [of H L w i fs caps env]
  by (simp add: run_campaign_def run_body_def split: sum.splits lease_view.splits)

lemma run_passes_confined: "confined H L w i fs (snd (snd (run_passes H L bind env w i m k p ex rec ds fs)))"
proof (induction k arbitrary: p ex rec ds fs)
  case 0
  then show ?case by (simp split: sum.splits)
next
  case (Suc k)
  have run: "confined H L w i fs fs'" if "run_campaign H L caps l e w i m fs = (res, new, fs')" for caps l e res new fs'
    using run_campaign_confined [of H L w i fs caps l e m] that by simp
  show ?case
    by (auto split: sum.splits prod.splits intro: confined_trans [OF run Suc.IH] dest: run)
qed

lemma run_session_confined: "confined H L w i fs (snd (snd (run_session H L bind env w i maxPasses m fs)))"
  by (simp add: run_session_def run_passes_confined)

section \<open>What a session does to its campaign\<close>

abbreviation all_completed :: "CampaignTaskState CampaignRecord \<Rightarrow> bool" where
  "all_completed r \<equiv> list_all (\<lambda>t. state t = Completed) (tasks r)"

abbreviation fresh_uuids :: "(nat \<Rightarrow> pass_env) \<Rightarrow> bool" where
  "fresh_uuids env \<equiv> \<forall>p m. UUID_test (randomUUID (claim_io (pass_steps (env p) m)))"

lemma after_claim_result:
  assumes "fst (after_claim H L e n caps w i tid opId r ds fs continue) = Inr R"
  shows "\<exists>ds' fs'. fst (continue ds' fs') = Inr R"
  using assms by (auto simp: after_claim_def split: option.splits if_splits prod.splits sum.splits)

lemma run_steps_completed:
  "fst (run_steps H L caps env w i k n visited ex rec ds fs) = Inr R \<Longrightarrow> stop R = AllCompleted \<Longrightarrow> all_completed (campaign R)"
proof (induction k arbitrary: n visited ex rec ds fs)
  case 0
  then show ?case by (auto simp: run_result_def split: sum.splits if_splits)
next
  case (Suc k)
  from Suc.prems show ?case
    by (auto simp: run_result_def split: sum.splits option.splits prod.splits CampaignClaim.splits if_splits
        dest!: after_claim_result dest: Suc.IH)
qed

lemma run_campaign_completed:
  "run_campaign H L caps l env w i m fs = (Inr R, ds, fs') \<Longrightarrow> stop R = AllCompleted \<Longrightarrow> all_completed (campaign R)"
  using run_steps_completed [of H L caps env w i "nat m" 0 "[]" 0 0 "[]" fs R]
  by (auto simp: run_campaign_def run_body_def split: sum.splits lease_view.splits if_splits)

text \<open>The dispatches of a session on a campaign: of pending steps, each once, within the plan.\<close>

definition dispatches_ok :: "bound_dispatch list \<Rightarrow> CampaignTaskState CampaignRecord \<Rightarrow> CampaignTaskState CampaignRecord \<Rightarrow> bool" where
  "dispatches_ok new r r' = (distinct (map (\<lambda>p. dispatched (snd p)) new) \<and>
     (\<forall>p \<in> set new. task_states_of r (dispatched (snd p)) = Some Pending \<and> task_states_of r' (dispatched (snd p)) \<noteq> Some Pending \<and>
       within_plan (fst p) (record_input r) (snd p)))"

lemma dispatches_ok_Nil [simp]: "dispatches_ok [] r r'"
  by (simp add: dispatches_ok_def)

lemma dispatches_ok_append:
  assumes "dispatches_ok xs r r1" "dispatches_ok ys r1 r2" "advanced j r r1" "advanced k r1 r2"
  shows "dispatches_ok (xs @ ys) r r2"
proof -
  have "dispatched (snd p) \<noteq> dispatched (snd q)" if "p \<in> set xs" "q \<in> set ys" for p q
    using assms(1,2) that unfolding dispatches_ok_def by metis
  moreover have "task_states_of r2 (dispatched (snd p)) \<noteq> Some Pending" if "p \<in> set xs" for p
    using assms(1) that advanced_pending [OF assms(4)] unfolding dispatches_ok_def by blast
  moreover have "task_states_of r (dispatched (snd p)) = Some Pending" if "p \<in> set ys" for p
    using assms(2) that advanced_pending [OF assms(3)] unfolding dispatches_ok_def by blast
  moreover have "distinct (map (\<lambda>p. dispatched (snd p)) (xs @ ys))"
    using assms(1,2) calculation(1) by (simp add: dispatches_ok_def disjoint_iff image_iff) metis
  ultimately show ?thesis
    using assms(1,2) by (simp add: dispatches_ok_def ball_Un advanced_input [OF assms(3)])
qed

definition session_ok :: "host \<Rightarrow> DelegatedCampaignLedger \<Rightarrow> string \<Rightarrow> string \<Rightarrow> nat \<Rightarrow> CampaignTaskState CampaignRecord \<Rightarrow> bound_dispatch list \<Rightarrow>
    (campaign_error + CampaignSessionResult) \<times> bound_dispatch list \<times> files \<Rightarrow> bool" where
  "session_ok H L w i k r ds out = (case out of (res, ds', fs') \<Rightarrow>
    (\<exists>r' new. ds' = ds @ new \<and> holds H L fs' w i r' \<and> advanced (384 * k) r r' \<and> dispatches_ok new r r' \<and>
      (\<forall>R. res = Inr R \<longrightarrow> campaign R = r' \<and> (stop R = AllCompleted \<longrightarrow> all_completed r'))))"

lemma session_ok_none: "holds H L fs w i r \<Longrightarrow> session_ok H L w i k r ds (Inl err, ds, fs)"
  unfolding session_ok_def by (auto intro!: exI [of _ r])

lemma session_ok_pass:
  assumes "session_ok H L w i k r1 (ds @ xs) out" "dispatches_ok xs r r1" "advanced 384 r r1"
  shows "session_ok H L w i (Suc k) r ds out"
proof -
  obtain res ds' fs' where out: "out = (res, ds', fs')" by (cases out)
  from assms(1) obtain r' new where n: "ds' = (ds @ xs) @ new" "holds H L fs' w i r'" "advanced (384 * k) r1 r'" "dispatches_ok new r1 r'"
      "\<forall>R. res = Inr R \<longrightarrow> campaign R = r' \<and> (stop R = AllCompleted \<longrightarrow> all_completed r')"
    unfolding session_ok_def out by blast
  have "advanced (384 * Suc k) r r'" by (rule advanced_trans [OF assms(3) n(3)]) simp
  moreover have "dispatches_ok (xs @ new) r r'" by (rule dispatches_ok_append [OF assms(2) n(4) assms(3) n(3)])
  ultimately show ?thesis unfolding session_ok_def out using n by (intro case_prodI exI [of _ r'] exI [of _ "xs @ new"]) simp
qed

lemma run_campaign_dispatches:
  assumes "holds H L fs w i r" "fresh_uuids env" "revision r + 384 < 2 ^ 53"
    and "run_campaign H L caps l (pass_steps (env p)) w i m fs = (res, ds, fs')"
  obtains r' where "holds H L fs' w i r'" "advanced 384 r r'" "dispatches_ok (map (Pair caps) ds) r r'"
    "\<And>R. res = Inr R \<Longrightarrow> campaign R = r' \<and> (stop R = AllCompleted \<longrightarrow> all_completed r')"
proof -
  have u: "\<And>m. UUID_test (randomUUID (claim_io (pass_steps (env p) m)))" using assms(2) by blast
  from run_campaign_ok [OF assms(1) u assms(3,4)] obtain r' where r': "holds H L fs' w i r'" "advanced 384 r r'" "distinct (map dispatched ds)"
      "\<forall>p \<in> set ds. task_states_of r (dispatched p) = Some Pending \<and> task_states_of r' (dispatched p) \<noteq> Some Pending \<and> within_plan caps (record_input r) p"
      "\<forall>R. res = Inr R \<longrightarrow> campaign R = r'"
    by blast
  have "dispatches_ok (map (Pair caps) ds) r r'" using r'(3,4) by (simp add: dispatches_ok_def comp_def)
  moreover have "all_completed r'" if "res = Inr R" "stop R = AllCompleted" for R
    using run_campaign_completed [of H L caps l "pass_steps (env p)" w i m fs R] that assms(4) r'(5) by auto
  ultimately show ?thesis using r'(5) by (intro that [OF r'(1,2)]) simp_all
qed

lemma run_passes_ok:
  assumes "holds H L fs w i r" "fresh_uuids env" "revision r + int (384 * k) < 2 ^ 53"
  shows "session_ok H L w i k r ds (run_passes H L bind env w i m k p ex rec ds fs)"
  using assms(1,3)
proof (induction k arbitrary: p ex rec ds fs r)
  case 0
  then show ?case by (auto simp: requireCampaign_holds session_ok_def session_result_def intro!: exI [of _ r])
next
  case (Suc k)
  note h = Suc.prems(1)
  show ?case
  proof (cases "bind p r")
    case (Inl err)
    then show ?thesis using session_ok_none [OF h] by (simp add: requireCampaign_holds [OF h])
  next
    case (Inr caps)
    obtain res new fs1 where run: "run_campaign H L caps (pass_lease (env p)) (pass_steps (env p)) w i m fs = (res, new, fs1)" by (metis prod.exhaust)
    obtain r1 where r1: "holds H L fs1 w i r1" "advanced 384 r r1" "dispatches_ok (map (Pair caps) new) r r1"
        "\<And>R. res = Inr R \<Longrightarrow> campaign R = r1 \<and> (stop R = AllCompleted \<longrightarrow> all_completed r1)"
      using run_campaign_dispatches [OF h assms(2) _ run] Suc.prems(2) by auto
    have room: "revision r1 + int (384 * k) < 2 ^ 53" using r1(2) Suc.prems(2) by (simp add: advanced_def)
    have stopped: "session_ok H L w i k r1 ds' (res', ds', fs1)"
      if "\<And>R. res' = Inr R \<Longrightarrow> campaign R = r1 \<and> (stop R = AllCompleted \<longrightarrow> all_completed r1)" for ds' res'
      unfolding session_ok_def using r1(1) that by (auto intro!: exI [of _ r1])
    have "session_ok H L w i k r1 (ds @ map (Pair caps) new) (run_passes H L bind env w i m (Suc k) p ex rec ds fs)"
    proof (cases res)
      case (Inl err)
      then show ?thesis by (simp add: requireCampaign_holds [OF h] \<open>bind p r = Inr caps\<close> run session_ok_none [OF r1(1)])
    next
      case (Inr R)
      have "session_ok H L w i k r1 ds' (Inr (session_result (stop R) a b (campaign R) q), ds', fs1)" for ds' a b q
        by (rule stopped) (use r1(4) [OF Inr] in \<open>auto simp: session_result_def\<close>)
      then show ?thesis
        using Suc.IH [OF r1(1) room] by (simp add: requireCampaign_holds [OF h] \<open>bind p r = Inr caps\<close> run Inr)
    qed
    then show ?thesis by (rule session_ok_pass [OF _ r1(3,2)])
  qed
qed

lemma run_session_ok:
  assumes "holds H L fs w i r" "fresh_uuids env" "revision r + 384 < 2 ^ 53" "run_session H L bind env w i 1 m fs = (res, ds, fs')"
  obtains r' where "holds H L fs' w i r'" "advanced 384 r r'" "dispatches_ok ds r r'"
    "\<And>R. res = Inr R \<Longrightarrow> stop R = AllCompleted \<Longrightarrow> all_completed r'"
proof -
  have "session_ok H L w i 1 r [] (res, ds, fs')"
  proof (cases "1 \<le> m \<and> m \<le> 128")
    case True
    with run_passes_ok [OF assms(1,2), of 1 "[]" bind m 0 0 0] assms(3,4) show ?thesis by (simp add: run_session_def)
  next
    case False
    with assms(4) session_ok_none [OF assms(1)] show ?thesis by (auto simp: run_session_def split: if_splits)
  qed
  then show ?thesis using that by (auto simp: session_ok_def)
qed

section \<open>Well-formed supervisors\<close>

definition settings_ok :: "DelegatedCampaignSupervisor \<Rightarrow> bool" where
  "settings_ok S = (1 \<le> maxSteps S \<and> maxSteps S \<le> 128 \<and> 100 \<le> idlePollMs S \<and> idlePollMs S \<le> 86400000 \<and>
     100 \<le> unknownPollMs S \<and> unknownPollMs S \<le> maxBackoffMs S \<and> 100 \<le> failureBackoffMs S \<and> failureBackoffMs S \<le> maxBackoffMs S \<and>
     maxBackoffMs S \<le> 86400000)"

text \<open>
  The delay before the next wake: none for a campaign at rest, the idle delay after an exhausted budget, exactly the doubled
  back-off after a refused lock, and at most the maximal back-off. Four refused locks in a row end the campaign's supervision.
\<close>

definition delay_ok :: "DelegatedCampaignSupervisor \<Rightarrow> SupervisedCampaignStatus \<Rightarrow> bool" where
  "delay_ok S s = (case ss_state s of
     SReady \<Rightarrow> ss_failures s = 0 \<and> ss_nextDelayMs s = (if ss_wakes s = 0 then 0 else idlePollMs S)
   | SAwaitingReconciliation \<Rightarrow> ss_failures s < 4 \<and> ss_nextDelayMs s \<le> maxBackoffMs S \<and>
       (if ss_failures s = 0 then unknownPollMs S \<le> ss_nextDelayMs s
        else ss_nextDelayMs s = min (maxBackoffMs S) (failureBackoffMs S * 2 ^ (ss_failures s - 1)))
   | SQueued \<Rightarrow> False
   | SNeedsAttention \<Rightarrow> ss_failures s \<le> 4 \<and> ss_nextDelayMs s = 0
   | _ \<Rightarrow> ss_failures s = 0 \<and> ss_nextDelayMs s = 0)"

definition entry_ok :: "DelegatedCampaignSupervisor \<Rightarrow> Entry \<Rightarrow> bool" where
  "entry_ok S en = (ss_workspaceId (status_of en) = rg_workspaceId (registration en) \<and> ss_campaignId (status_of en) = rg_campaignId (registration en) \<and>
     WORKSPACE_ID_test (rg_workspaceId (registration en)) \<and> UUID_test (rg_campaignId (registration en)) \<and> delay_ok S (status_of en))"

abbreviation campaign_key :: "TrustedCampaignRegistration \<Rightarrow> string \<times> string" where
  "campaign_key g \<equiv> (rg_workspaceId g, rg_campaignId g)"

definition supervisor_ok :: "DelegatedCampaignSupervisor \<Rightarrow> bool" where
  "supervisor_ok S = (settings_ok S \<and> length (entries S) \<le> 16 \<and> distinct (map (\<lambda>en. campaign_key (registration en)) (entries S)) \<and>
     list_all (entry_ok S) (entries S))"

lemma settings_ok_entries [simp]:
  "settings_ok (S\<lparr>entries := es\<rparr>) = settings_ok S" "settings_ok (S\<lparr>serving := b\<rparr>) = settings_ok S"
  "entry_ok (S\<lparr>entries := es\<rparr>) = entry_ok S" "entry_ok (S\<lparr>serving := b\<rparr>) = entry_ok S"
  by (simp_all add: settings_ok_def entry_ok_def delay_ok_def fun_eq_iff cong: SupervisedCampaignState.case_cong)

lemma supervisor_ok_serving [simp]: "supervisor_ok (S\<lparr>serving := b\<rparr>) = supervisor_ok S"
  by (simp add: supervisor_ok_def)

lemma addTrustedRegistration_ok:
  "addTrustedRegistration g S = Inr S' \<Longrightarrow> supervisor_ok S \<Longrightarrow> supervisor_ok S' \<and> \<not> serving S'"
  by (auto simp: addTrustedRegistration_def ensure_def supervisor_ok_def initial_entry_def entry_ok_def delay_ok_def same_registration_def
      list_ex_iff split: if_splits) blast

lemma addAll_ok: "addAll gs S = Inr S' \<Longrightarrow> supervisor_ok S \<Longrightarrow> \<not> serving S \<Longrightarrow> supervisor_ok S' \<and> \<not> serving S'"
  by (induction gs arbitrary: S) (auto simp: and_then_Inr dest: addTrustedRegistration_ok)

lemma bounded_Inr: "bounded v lo hi name = Inr x \<longleftrightarrow> x = v \<and> \<bar>v\<bar> < 2 ^ 53 \<and> lo \<le> v \<and> v \<le> hi"
  by (auto simp: bounded_def ensure_def)

lemma new_supervisor_ok: "new_supervisor gs opts = Inr S \<Longrightarrow> supervisor_ok S \<and> \<not> serving S"
  by (auto simp: new_supervisor_def ensure_def and_then_Inr bounded_Inr supervisor_ok_def settings_ok_def
      split: if_splits dest!: addAll_ok)

lemma wake_result_ok:
  assumes "settings_ok S" "0 < ss_wakes s" "wake_result S R s = (due, s')"
  shows "delay_ok S s' \<and> ss_wakes s' = ss_wakes s \<and> ss_workspaceId s' = ss_workspaceId s \<and> ss_campaignId s' = ss_campaignId s"
  using assms by (cases "stop R") (auto simp: wake_result_def delay_ok_def settings_ok_def Let_def)

lemma wake_error_ok:
  assumes "settings_ok S" "ss_failures s < 4" "wake_error S err s = (due, s')"
  shows "delay_ok S s' \<and> ss_wakes s' = ss_wakes s \<and> ss_workspaceId s' = ss_workspaceId s \<and> ss_campaignId s' = ss_campaignId s"
proof -
  have "failureBackoffMs S * 1 \<le> failureBackoffMs S * 2 ^ k" for k :: nat
    by (rule mult_left_mono) (use assms(1) in \<open>simp_all add: settings_ok_def\<close>)
  then have "max (failureBackoffMs S) (failureBackoffMs S * 2 ^ k) = failureBackoffMs S * 2 ^ k" for k :: nat
    by (simp add: max_def)
  moreover have "min (ss_failures s) 16 = ss_failures s" using assms(2) by simp
  ultimately show ?thesis
    using assms(2,3) by (auto simp: wake_error_def delay_ok_def Let_def split: if_splits)
qed

lemma eligible_failures: "entry_ok S en \<Longrightarrow> eligible en \<Longrightarrow> ss_failures (status_of en) < 4"
  by (auto simp: entry_ok_def delay_ok_def eligible_def)

lemma wake_entry_ok:
  assumes "settings_ok S" "entry_ok S en" "eligible en" "wake H S e en fs = (en', ds, fs')"
  shows "entry_ok S en' \<and> registration en' = registration en \<and> ss_wakes (status_of en') = Suc (ss_wakes (status_of en))"
proof -
  let ?s = "(status_of en)\<lparr>ss_wakes := Suc (ss_wakes (status_of en))\<rparr>"
  obtain res due s' where w: "(case res of Inr R \<Rightarrow> wake_result S R ?s | Inl err \<Rightarrow> wake_error S err ?s) = (due, s')"
      "registration en' = registration en" "status_of en' = s'"
    using assms(4) by (auto simp: wake_def Let_def split: prod.splits)
  have f: "ss_failures ?s < 4" "0 < ss_wakes ?s" using eligible_failures [OF assms(2,3)] by simp_all
  have "delay_ok S s' \<and> ss_wakes s' = ss_wakes ?s \<and> ss_workspaceId s' = ss_workspaceId ?s \<and> ss_campaignId s' = ss_campaignId ?s"
  proof (cases res)
    case (Inl err)
    then show ?thesis using wake_error_ok [OF assms(1) f(1), of err due s'] w(1) by simp
  next
    case (Inr R)
    then show ?thesis using wake_result_ok [OF assms(1) f(2), of R due s'] w(1) by simp
  qed
  with w assms(2) show ?thesis by (simp add: entry_ok_def)
qed

lemma wake_order_eligible: "j \<in> set (wake_order es) \<longleftrightarrow> j < length es \<and> eligible (es ! j)"
  by (auto simp: wake_order_def)

lemma map_update_same: "f x = f (xs ! j) \<Longrightarrow> map f (xs[j := x]) = map f xs"
  by (rule nth_equalityI) (simp_all, metis nth_list_update_eq nth_list_update_neq)

lemma supervisor_ok_update:
  assumes "supervisor_ok S" "entry_ok S en" "registration en = registration (entries S ! j)"
  shows "supervisor_ok (S\<lparr>entries := (entries S)[j := en]\<rparr>)"
proof -
  have "map (\<lambda>en. campaign_key (registration en)) ((entries S)[j := en]) = map (\<lambda>en. campaign_key (registration en)) (entries S)"
    by (rule map_update_same) (simp add: assms(3))
  moreover have "list_all (entry_ok S) ((entries S)[j := en])"
    using assms(1,2) set_update_subset_insert [of "entries S" j en] by (auto simp: supervisor_ok_def list_all_iff)
  ultimately show ?thesis using assms(1) by (simp add: supervisor_ok_def)
qed

section \<open>Supervised campaigns\<close>

abbreviation campaign_holds :: "host \<Rightarrow> files \<Rightarrow> TrustedCampaignRegistration \<Rightarrow> CampaignTaskState CampaignRecord \<Rightarrow> bool" where
  "campaign_holds H fs g r \<equiv> holds H (rg_ledger g) fs (rg_workspaceId g) (rg_campaignId g) r"

text \<open>The ledger holds a record for every entry, and a campaign reported as completed is completed there.\<close>

definition tracks :: "host \<Rightarrow> Entry list \<Rightarrow> files \<Rightarrow> (nat \<Rightarrow> CampaignTaskState CampaignRecord) \<Rightarrow> bool" where
  "tracks H es fs rs = (\<forall>j < length es. campaign_holds H fs (registration (es ! j)) (rs j) \<and>
     (ss_state (status_of (es ! j)) = SCompleted \<longrightarrow> all_completed (rs j)))"

definition campaign_file :: "host \<Rightarrow> TrustedCampaignRegistration \<Rightarrow> campaign_error + string" where
  "campaign_file H g = ledger_file H (rg_ledger g) (rg_workspaceId g) (rg_campaignId g)"

definition of_campaign :: "TrustedCampaignRegistration \<Rightarrow> bound_dispatch \<Rightarrow> bool" where
  "of_campaign g p = (iv_workspaceId (fst (snd p)) = rg_workspaceId g \<and> iv_campaignId (fst (snd p)) = rg_campaignId g)"

lemma holds_frame:
  assumes "holds H L fs w i r" and "\<And>f. ledger_file H L w i = Inr f \<Longrightarrow> Map_get fs' f = Map_get fs f"
  shows "holds H L fs' w i r"
  using assms by (auto simp: holds_def get_campaign_def and_then_Inr)

lemma holds_own: "holds H L fs w i r \<Longrightarrow> own_record H L w i fs"
  by (simp add: own_record_def holds_def)

lemma confined_holds:
  assumes "confined H L w i fs fs'" "holds H L fs w i r" "holds H L' fs w' i' r'" "ledger_file H L w i \<noteq> ledger_file H L' w' i'"
  shows "holds H L' fs' w' i' r'"
  using assms(1,4) holds_own [OF assms(2)] by (intro holds_frame [OF assms(3)]) (auto simp: confined_def)

lemma dispatches_of_campaign:
  assumes "dispatches_ok new r r'" "campaign_holds H fs g r" "p \<in> set new"
  shows "of_campaign g p"
  using assms by (auto simp: dispatches_ok_def within_plan_def of_campaign_def holds_def record_input_simps)

lemma wake_tracks:
  assumes t: "tracks H es fs rs" and sep: "distinct (map (\<lambda>en. campaign_file H (registration en)) es)" and j: "j < length es" "eligible (es ! j)"
    and u: "fresh_uuids (wake_passes e)" and room: "revision (rs j) + 384 < 2 ^ 53" and w: "wake H S e (es ! j) fs = (en, new, fs')"
  obtains r' where "tracks H (es[j := en]) fs' (rs(j := r'))" "advanced 384 (rs j) r'" "dispatches_ok new (rs j) r'"
proof -
  let ?g = "registration (es ! j)"
  have h: "campaign_holds H fs ?g (rs j)" using t j(1) by (simp add: tracks_def)
  obtain res where run: "run_session H (rg_ledger ?g) (rg_bind ?g (ss_wakes (status_of (es ! j)))) (wake_passes e) (rg_workspaceId ?g) (rg_campaignId ?g) 1 (maxSteps S) fs = (res, new, fs')"
    and en: "registration en = ?g" "ss_state (status_of en) = SCompleted \<Longrightarrow> \<exists>R. res = Inr R \<and> stop R = AllCompleted"
    using w by (auto simp: wake_def Let_def wake_result_def wake_error_def split: prod.splits sum.splits if_splits)
  obtain r' where r': "campaign_holds H fs' ?g r'" "advanced 384 (rs j) r'" "dispatches_ok new (rs j) r'"
      "\<And>R. res = Inr R \<Longrightarrow> stop R = AllCompleted \<Longrightarrow> all_completed r'"
    using run_session_ok [OF h u room run] by blast
  have c: "confined H (rg_ledger ?g) (rg_workspaceId ?g) (rg_campaignId ?g) fs fs'"
    using run_session_confined [of H "rg_ledger ?g" "rg_workspaceId ?g" "rg_campaignId ?g" fs] run by (metis snd_conv)
  have others: "campaign_holds H fs' (registration (es ! k)) (rs k)" if "k < length es" "k \<noteq> j" for k
  proof (rule confined_holds [OF c h])
    show "campaign_holds H fs (registration (es ! k)) (rs k)" using t that(1) by (simp add: tracks_def)
    show "ledger_file H (rg_ledger ?g) (rg_workspaceId ?g) (rg_campaignId ?g) \<noteq>
        ledger_file H (rg_ledger (registration (es ! k))) (rg_workspaceId (registration (es ! k))) (rg_campaignId (registration (es ! k)))"
      using sep that j(1) by (auto simp: campaign_file_def distinct_conv_nth)
  qed
  have "tracks H (es[j := en]) fs' (rs(j := r'))"
    unfolding tracks_def
  proof (intro allI impI)
    fix k assume "k < length (es[j := en])"
    then show "campaign_holds H fs' (registration (es[j := en] ! k)) ((rs(j := r')) k) \<and>
        (ss_state (status_of (es[j := en] ! k)) = SCompleted \<longrightarrow> all_completed ((rs(j := r')) k))"
      using t others r'(1,4) en by (cases "k = j") (auto simp: tracks_def)
  qed
  from that [OF this r'(2,3)] show ?thesis .
qed

definition loop_ok :: "host \<Rightarrow> nat \<Rightarrow> nat \<Rightarrow> DelegatedCampaignSupervisor \<Rightarrow> (nat \<Rightarrow> CampaignTaskState CampaignRecord) \<Rightarrow> bound_dispatch list \<Rightarrow>
    (campaign_error + bool) \<times> nat \<times> DelegatedCampaignSupervisor \<times> bound_dispatch list \<times> files \<Rightarrow> bool" where
  "loop_ok H k n S rs ds out = (case out of (res, n', S', ds', fs') \<Rightarrow>
    (\<exists>rs' new. ds' = ds @ new \<and> supervisor_ok S' \<and> map registration (entries S') = map registration (entries S) \<and> tracks H (entries S') fs' rs' \<and>
      (\<forall>j < length (entries S). advanced (384 * k) (rs j) (rs' j) \<and>
        dispatches_ok (filter (of_campaign (registration (entries S ! j))) new) (rs j) (rs' j)) \<and>
      (\<forall>p \<in> set new. \<exists>en \<in> set (entries S). of_campaign (registration en) p) \<and>
      n' \<le> n + k \<and> (res = Inr False \<longrightarrow> n' = n + k \<or> list_all (\<lambda>en. \<not> eligible en) (entries S'))))"

lemma loop_ok_stop:
  assumes "supervisor_ok S" "tracks H (entries S) fs rs"
    and "res = Inr False \<Longrightarrow> k = 0 \<or> list_all (\<lambda>en. \<not> eligible en) (entries S)"
  shows "loop_ok H k n S rs ds (res, n, S, ds, fs)"
  unfolding loop_ok_def using assms by (auto intro!: exI [of _ rs])

lemma filter_other_campaign:
  assumes "dispatches_ok new r r'" "campaign_holds H fs g r" "campaign_key g' \<noteq> campaign_key g"
  shows "filter (of_campaign g') new = []"
  using dispatches_of_campaign [OF assms(1,2)] assms(3) by (auto simp: filter_empty_conv of_campaign_def)

lemma loop_ok_wake:
  assumes S: "supervisor_ok S" "tracks H (entries S) fs rs" and j: "j < length (entries S)"
    and en: "registration en = registration (entries S ! j)"
    and r': "advanced 384 (rs j) r'" "dispatches_ok new (rs j) r'"
    and out: "loop_ok H k (Suc n) (S\<lparr>entries := (entries S)[j := en]\<rparr>) (rs(j := r')) (ds @ new) out"
  shows "loop_ok H (Suc k) n S rs ds out"
proof -
  let ?es = "entries S"
  obtain res n' S' ds' fs' where o: "out = (res, n', S', ds', fs')" by (cases out)
  have regs: "map registration (?es[j := en]) = map registration ?es" by (rule map_update_same) (simp add: en)
  have reg: "registration (?es[j := en] ! m) = registration (?es ! m)" if "m < length ?es" for m
    using en that by (cases "m = j") auto
  from out obtain rs' later where l: "ds' = (ds @ new) @ later" "supervisor_ok S'" "map registration (entries S') = map registration ?es"
      "tracks H (entries S') fs' rs'"
      "\<And>m. m < length ?es \<Longrightarrow> advanced (384 * k) ((rs(j := r')) m) (rs' m) \<and> dispatches_ok (filter (of_campaign (registration (?es ! m))) later) ((rs(j := r')) m) (rs' m)"
      "\<forall>p \<in> set later. \<exists>g \<in> set (map registration ?es). of_campaign g p"
      "n' \<le> Suc n + k" "res = Inr False \<longrightarrow> n' = Suc n + k \<or> list_all (\<lambda>en. \<not> eligible en) (entries S')"
    unfolding loop_ok_def o regs [symmetric] by (auto simp: reg)
  have h: "campaign_holds H fs (registration (?es ! j)) (rs j)" using S(2) j by (simp add: tracks_def)
  have here: "\<forall>p \<in> set new. of_campaign (registration (?es ! j)) p" using dispatches_of_campaign [OF r'(2) h] by blast
  have "advanced (384 * Suc k) (rs m) (rs' m) \<and> dispatches_ok (filter (of_campaign (registration (?es ! m))) (new @ later)) (rs m) (rs' m)"
    if m: "m < length ?es" for m
  proof (cases "m = j")
    case True
    have a: "advanced (384 * k) r' (rs' j)" "dispatches_ok (filter (of_campaign (registration (?es ! j))) later) r' (rs' j)" using l(5) [OF j] by simp_all
    have "advanced (384 * Suc k) (rs j) (rs' j)" by (rule advanced_trans [OF r'(1) a(1)]) simp
    moreover have "filter (of_campaign (registration (?es ! j))) new = new" using here by (simp add: filter_id_conv)
    ultimately show ?thesis using dispatches_ok_append [OF r'(2) a(2) r'(1) a(1)] True by simp
  next
    case False
    have "campaign_key (registration (?es ! m)) \<noteq> campaign_key (registration (?es ! j))"
      using S(1) m j False by (auto simp: supervisor_ok_def distinct_conv_nth)
    from filter_other_campaign [OF r'(2) h this] l(5) [OF m] False show ?thesis
      using advanced_mono [of "384 * k" _ _ "384 * Suc k"] by simp
  qed
  moreover have "\<forall>p \<in> set (new @ later). \<exists>en \<in> set ?es. of_campaign (registration en) p"
    using here l(6) j by (auto dest: nth_mem)
  ultimately show ?thesis
    unfolding loop_ok_def o using l(1-4,7,8) by (intro case_prodI exI [of _ rs'] exI [of _ "new @ later"]) auto
qed

lemma serve_loop_ok:
  assumes "supervisor_ok S" "tracks H (entries S) fs rs" "distinct (map (campaign_file H) (map registration (entries S)))"
    and "\<And>m. fresh_uuids (wake_passes (env m))" and "\<And>j. j < length (entries S) \<Longrightarrow> revision (rs j) + int (384 * k) < 2 ^ 53"
  shows "loop_ok H k n S rs ds (serve_loop H env k n S ds fs)"
  using assms(1-3,5)
proof (induction k arbitrary: n S rs ds fs)
  case 0
  then show ?case by (simp add: loop_ok_stop)
next
  case (Suc k)
  note stop = loop_ok_stop [OF Suc.prems(1,2)]
  have ended: "loop_ok H (Suc k) n S rs ds (Inr True, n, S, ds, fs)" "\<And>err. loop_ok H (Suc k) n S rs ds (Inl err, n, S, ds, fs)"
    by (rule stop; simp)+
  show ?case
  proof (cases "wake_order (entries S)")
    case Nil
    then have "list_all (\<lambda>en. \<not> eligible en) (entries S)"
      using wake_order_eligible [of _ "entries S"] by (fastforce simp: list_all_iff in_set_conv_nth)
    with Nil show ?thesis using ended by (auto intro: stop)
  next
    case (Cons j js)
    then have j: "j < length (entries S)" "eligible (entries S ! j)" using wake_order_eligible [of j "entries S"] by auto
    obtain en new fs1 where w: "wake H S (env n) (entries S ! j) fs = (en, new, fs1)" by (metis prod.exhaust)
    have "entry_ok S (entries S ! j)" "settings_ok S" using Suc.prems(1) j(1) by (simp_all add: supervisor_ok_def list_all_length)
    from wake_entry_ok [OF this(2,1) j(2) w] have en: "entry_ok S en" "registration en = registration (entries S ! j)" by auto
    have sep: "distinct (map (\<lambda>en. campaign_file H (registration en)) (entries S))" using Suc.prems(3) by (simp add: comp_def)
    have "revision (rs j) + 384 < 2 ^ 53" using Suc.prems(4) [OF j(1)] by simp
    from wake_tracks [OF Suc.prems(2) sep j assms(4) this w] obtain r' where
      r': "tracks H ((entries S)[j := en]) fs1 (rs(j := r'))" "advanced 384 (rs j) r'" "dispatches_ok new (rs j) r'" .
    let ?S = "S\<lparr>entries := (entries S)[j := en]\<rparr>"
    have "loop_ok H k (Suc n) ?S (rs(j := r')) (ds @ new) (serve_loop H env k (Suc n) ?S (ds @ new) fs1)"
    proof (rule Suc.IH)
      show "supervisor_ok ?S" by (rule supervisor_ok_update [OF Suc.prems(1) en])
      show "tracks H (entries ?S) fs1 (rs(j := r'))" using r'(1) by simp
      show "distinct (map (campaign_file H) (map registration (entries ?S)))"
        using Suc.prems(3) map_update_same [of registration en "entries S" j, OF en(2)] by simp
      show "revision ((rs(j := r')) m) + int (384 * k) < 2 ^ 53" if "m < length (entries ?S)" for m
        using Suc.prems(4) [of m] that r'(2) by (auto simp: advanced_def)
    qed
    from loop_ok_wake [OF Suc.prems(1,2) j(1) en(2) r'(2,3) this] show ?thesis
      using Cons w ended by (auto simp: Let_def)
  qed
qed

text \<open>What \<open>serve\<close> returns, in terms of its loop.\<close>

lemma serve_cases:
  assumes "serve H env late maxWakes S fs = (out, ds, S', fs')"
  obtains (refused) "\<exists>err. out = Inl err" "ds = []" "S' = S" "fs' = fs"
  | (ran) res n S1 where "1 \<le> maxWakes" "maxWakes \<le> 1024" "\<not> serving S"
      "serve_loop H env (nat maxWakes) 0 (S\<lparr>serving := True\<rparr>) [] fs = (res, n, S1, ds, fs')" "S' = S1\<lparr>serving := False\<rparr>"
      "out = map_sum id (\<lambda>abort. serve_report (abort \<or> late) n S') res"
proof (cases "bounded maxWakes 1 1024 ''maxWakes''")
  case (Inl err)
  with assms refused show ?thesis by (auto simp: serve_def)
next
  case (Inr m)
  then have m: "1 \<le> maxWakes" "maxWakes \<le> 1024" by (simp_all add: bounded_Inr)
  obtain res n S1 ds1 fs1 where l: "serve_loop H env (nat maxWakes) 0 (S\<lparr>serving := True\<rparr>) [] fs = (res, n, S1, ds1, fs1)" by (metis prod.exhaust)
  show ?thesis
  proof (cases "serving S")
    case True
    with assms Inr refused show ?thesis by (auto simp: serve_def)
  next
    case False
    with assms Inr l have "ds = ds1" "fs' = fs1" "S' = S1\<lparr>serving := False\<rparr>" "out = map_sum id (\<lambda>abort. serve_report (abort \<or> late) n S') res"
      by (auto simp: serve_def split: sum.splits)
    with l m False show ?thesis by (intro ran) simp_all
  qed
qed

text \<open>The same in terms of the campaigns: the loop has done at most \<open>maxWakes\<close> sessions.\<close>

lemma serve_ok:
  assumes S: "supervisor_ok S" "tracks H (entries S) fs rs" "distinct (map (campaign_file H) (map registration (entries S)))"
    and u: "\<And>m. fresh_uuids (wake_passes (env m))" and room: "\<And>j. j < length (entries S) \<Longrightarrow> revision (rs j) + 393216 < 2 ^ 53"
    and serve: "serve H env late maxWakes S fs = (out, ds, S', fs')"
  obtains rs' where "supervisor_ok S'" "map registration (entries S') = map registration (entries S)" "tracks H (entries S') fs' rs'"
    "\<forall>j < length (entries S). advanced 393216 (rs j) (rs' j) \<and>
       dispatches_ok (filter (of_campaign (registration (entries S ! j))) ds) (rs j) (rs' j)"
    "\<forall>p \<in> set ds. \<exists>en \<in> set (entries S). of_campaign (registration en) p"
    "\<forall>R. out = Inr R \<longrightarrow> (\<exists>abort n. R = serve_report abort n S' \<and> int n \<le> maxWakes \<and>
       (\<not> abort \<longrightarrow> int n = maxWakes \<or> list_all (\<lambda>en. \<not> eligible en) (entries S')))"
  using serve
proof (cases rule: serve_cases)
  case refused
  with S show ?thesis by (intro that [of rs]) auto
next
  case (ran res n S1)
  have k: "384 * nat maxWakes \<le> 393216" using ran(2) by simp
  have "loop_ok H (nat maxWakes) 0 (S\<lparr>serving := True\<rparr>) rs [] (res, n, S1, ds, fs')"
    unfolding ran(4) [symmetric]
  proof (rule serve_loop_ok)
    show "revision (rs j) + int (384 * nat maxWakes) < 2 ^ 53" if "j < length (entries (S\<lparr>serving := True\<rparr>))" for j
      using room [of j] that ran(1,2) by simp
  qed (use S u in simp_all)
  then obtain rs' where l: "supervisor_ok S1" "map registration (entries S1) = map registration (entries S)" "tracks H (entries S1) fs' rs'"
      "\<And>j. j < length (entries S) \<Longrightarrow> advanced (384 * nat maxWakes) (rs j) (rs' j) \<and>
         dispatches_ok (filter (of_campaign (registration (entries S ! j))) ds) (rs j) (rs' j)"
      "\<forall>p \<in> set ds. \<exists>en \<in> set (entries S). of_campaign (registration en) p"
      "n \<le> nat maxWakes" "res = Inr False \<longrightarrow> n = nat maxWakes \<or> list_all (\<lambda>en. \<not> eligible en) (entries S1)"
    by (auto simp: loop_ok_def)
  have "\<exists>abort n. R = serve_report abort n S' \<and> int n \<le> maxWakes \<and>
      (\<not> abort \<longrightarrow> int n = maxWakes \<or> list_all (\<lambda>en. \<not> eligible en) (entries S'))" if o: "out = Inr R" for R
  proof -
    obtain b where b: "res = Inr b" "R = serve_report (b \<or> late) n S'" using o ran(6) by (cases res) auto
    with l(6,7) ran(1,5) show ?thesis by (intro exI [of _ "b \<or> late"] exI [of _ n]) auto
  qed
  with l(1-5) ran(5) show ?thesis by (intro that [of rs']) (auto intro: advanced_mono [OF _ k])
qed

section \<open>Campaigns that meet no obstacle\<close>

text \<open>
  A campaign ready to complete in one wake: its steps are pending or completed, no more are pending than a wake may execute, and the host binds
  to every step of the plan a capability that answers with verified success.
\<close>

definition smooth :: "TrustedCampaignRegistration \<Rightarrow> int \<Rightarrow> CampaignTaskState CampaignRecord \<Rightarrow> bool" where
  "smooth g steps r = ((\<forall>t \<in> set (tasks r). state t = Pending \<or> state t = Completed) \<and> int (card (pending_ids r)) \<le> steps \<and>
     (\<forall>n p. \<exists>caps. rg_bind g n p r = Inr caps \<and> (\<forall>t \<in> set (tasks r). \<exists>port. Map_get caps (step_id t) = Some port \<and>
       assertBinding t (Some port) \<and> always_succeeds port)))"

definition calm :: "wake_env \<Rightarrow> bool" where
  "calm e = (\<not> aborted e \<and> wait_error e = None \<and> \<not> aborted_after_wait e \<and>
     (\<forall>p. pass_lease (wake_passes e p) = Held \<and> (\<forall>m. quiet (pass_steps (wake_passes e p) m))))"

lemma calm_fresh: "calm e \<Longrightarrow> fresh_uuids (wake_passes e)"
  by (simp add: calm_def quiet_def)

lemma wake_completes:
  assumes h: "campaign_holds H fs (registration en) r" and s: "smooth (registration en) (maxSteps S) r" "settings_ok S" and c: "calm e"
    and room: "revision r + 384 < 2 ^ 53" and w: "wake H S e en fs = (en', ds, fs')"
  shows "ss_state (status_of en') = SCompleted"
proof -
  let ?g = "registration en"
  obtain caps where b: "rg_bind ?g (ss_wakes (status_of en)) 0 r = Inr caps"
      "\<forall>t \<in> set (tasks r). \<exists>port. Map_get caps (step_id t) = Some port \<and> assertBinding t (Some port) \<and> always_succeeds port"
    using s(1) unfolding smooth_def by blast
  have q: "\<forall>m. quiet (pass_steps (wake_passes e 0) m)" "pass_lease (wake_passes e 0) = Held" using c by (simp_all add: calm_def)
  obtain R ds1 fs1 where R: "run_campaign H (rg_ledger ?g) caps Held (pass_steps (wake_passes e 0)) (rg_workspaceId ?g) (rg_campaignId ?g) (maxSteps S) fs = (Inr R, ds1, fs1)"
      "stop R = AllCompleted"
    using run_campaign_completes [OF h _ b(2) q(1), of "maxSteps S"] s room by (auto simp: smooth_def settings_ok_def)
  have "run_session H (rg_ledger ?g) (rg_bind ?g (ss_wakes (status_of en))) (wake_passes e) (rg_workspaceId ?g) (rg_campaignId ?g) 1 (maxSteps S) fs =
      (Inr (session_result AllCompleted (executed R) (reconciled R) (campaign R) 1), map (Pair caps) ds1, fs1)"
    using R b(1) s(2) q(2) by (simp add: run_session_def requireCampaign_holds [OF h] settings_ok_def)
  then show ?thesis using w by (auto simp: wake_def Let_def wake_result_def session_result_def)
qed

lemma wake_counts: "wake H S e en fs = (en', ds, fs') \<Longrightarrow> ss_wakes (status_of en') = Suc (ss_wakes (status_of en))"
  by (auto simp: wake_def Let_def wake_result_def wake_error_def split: prod.splits sum.splits if_splits)

text \<open>The entries afterwards: completed, with the same campaigns, and the eligible ones woken once more.\<close>

definition all_woken :: "Entry list \<Rightarrow> Entry list \<Rightarrow> bool" where
  "all_woken es es' = (map registration es' = map registration es \<and> list_all (\<lambda>en. ss_state (status_of en) = SCompleted) es' \<and>
     (\<forall>j < length es. ss_wakes (status_of (es' ! j)) = ss_wakes (status_of (es ! j)) + (if eligible (es ! j) then 1 else 0)))"

lemma all_woken_update:
  assumes "all_woken (es[j := en]) es'" "j < length es" "eligible (es ! j)" "\<not> eligible en" "registration en = registration (es ! j)"
    "ss_wakes (status_of en) = Suc (ss_wakes (status_of (es ! j)))"
  shows "all_woken es es'"
  using assms by (auto simp: all_woken_def map_update_same nth_list_update split: if_splits)

abbreviation eligible_positions :: "Entry list \<Rightarrow> nat set" where
  "eligible_positions es \<equiv> {j. j < length es \<and> eligible (es ! j)}"

lemma eligible_positions_update:
  assumes "j < length es" "\<not> eligible en"
  shows "eligible_positions (es[j := en]) = eligible_positions es - {j}"
  using assms by (auto simp: nth_list_update split: if_splits)

lemma serve_loop_completes:
  assumes "supervisor_ok S" "tracks H (entries S) fs rs" "distinct (map (campaign_file H) (map registration (entries S)))" "\<And>m. calm (env m)"
    and "\<And>j. j < length (entries S) \<Longrightarrow> (if eligible (entries S ! j)
      then revision (rs j) + 384 < 2 ^ 53 \<and> smooth (registration (entries S ! j)) (maxSteps S) (rs j) else ss_state (status_of (entries S ! j)) = SCompleted)"
    and "card (eligible_positions (entries S)) = c" "c \<le> k"
  shows "\<exists>S' ds' fs' rs'. serve_loop H env k n S ds fs = (Inr False, n + c, S', ds', fs') \<and> all_woken (entries S) (entries S') \<and> tracks H (entries S') fs' rs'"
  using assms(1-3,5-7)
proof (induction c arbitrary: k n S rs ds fs)
  case 0
  then have none: "\<not> eligible (entries S ! j)" if "j < length (entries S)" for j using that by auto
  then have "list_all (\<lambda>en. ss_state (status_of en) = SCompleted) (entries S)" using "0.prems"(4) by (auto simp: list_all_length)
  moreover have "wake_order (entries S) = []" using none wake_order_eligible [of _ "entries S"] by (metis all_not_in_conv set_empty)
  moreover have "\<not> aborted (env n)" using assms(4) by (simp add: calm_def)
  ultimately show ?case using "0.prems"(2) none by (cases k) (auto simp: all_woken_def)
next
  case (Suc c)
  let ?es = "entries S"
  obtain k' where k: "k = Suc k'" using Suc.prems(6) by (cases k) auto
  have "eligible_positions ?es \<noteq> {}" using Suc.prems(5) by fastforce
  then have "wake_order ?es \<noteq> []" using wake_order_eligible [of _ ?es] by fastforce
  then obtain j js where o: "wake_order ?es = j # js" by (cases "wake_order ?es") auto
  then have j: "j < length ?es" "eligible (?es ! j)" using wake_order_eligible [of j ?es] by auto
  obtain en new fs1 where w: "wake H S (env n) (?es ! j) fs = (en, new, fs1)" by (metis prod.exhaust)
  have ok: "entry_ok S (?es ! j)" "settings_ok S" using Suc.prems(1) j(1) by (simp_all add: supervisor_ok_def list_all_length)
  have en: "entry_ok S en" "registration en = registration (?es ! j)" using wake_entry_ok [OF ok(2,1) j(2) w] by auto
  have room: "revision (rs j) + 384 < 2 ^ 53" using Suc.prems(4) [OF j(1)] j(2) by simp
  have sep: "distinct (map (\<lambda>en. campaign_file H (registration en)) ?es)" using Suc.prems(3) by (simp add: comp_def)
  obtain r' where r': "tracks H (?es[j := en]) fs1 (rs(j := r'))" "advanced 384 (rs j) r'"
    using wake_tracks [OF Suc.prems(2) sep j calm_fresh [OF assms(4)] room w] by blast
  have "campaign_holds H fs (registration (?es ! j)) (rs j)" using Suc.prems(2) j(1) by (simp add: tracks_def)
  from wake_completes [OF this _ ok(2) assms(4) room w] Suc.prems(4) [OF j(1)] j(2)
  have completed: "ss_state (status_of en) = SCompleted" by simp
  then have ne: "\<not> eligible en" by (simp add: eligible_def)
  let ?S = "S\<lparr>entries := ?es[j := en]\<rparr>"
  have regs: "map registration (entries ?S) = map registration ?es" using map_update_same [of registration en ?es j, OF en(2)] by simp
  have "\<exists>S' ds' fs' rs'. serve_loop H env k' (Suc n) ?S (ds @ new) fs1 = (Inr False, Suc n + c, S', ds', fs') \<and> all_woken (entries ?S) (entries S') \<and>
      tracks H (entries S') fs' rs'"
  proof (rule Suc.IH)
    show "supervisor_ok ?S" by (rule supervisor_ok_update [OF Suc.prems(1) en])
    show "tracks H (entries ?S) fs1 (rs(j := r'))" using r'(1) by simp
    show "distinct (map (campaign_file H) (map registration (entries ?S)))" using Suc.prems(3) by (simp only: regs)
    show "card (eligible_positions (entries ?S)) = c"
      using eligible_positions_update [OF j(1) ne] Suc.prems(5) j by simp
    show "c \<le> k'" using Suc.prems(6) k by simp
    show "if eligible (entries ?S ! m) then revision ((rs(j := r')) m) + 384 < 2 ^ 53 \<and> smooth (registration (entries ?S ! m)) (maxSteps ?S) ((rs(j := r')) m)
        else ss_state (status_of (entries ?S ! m)) = SCompleted" if "m < length (entries ?S)" for m
      using Suc.prems(4) [of m] that completed ne by (cases "m = j") auto
  qed
  moreover have "all_woken ?es es'" if "all_woken (entries ?S) es'" for es'
    using all_woken_update [of ?es j en es'] that j ne en(2) wake_counts [OF w] by simp
  ultimately show ?case using assms(4) [of n] o w by (fastforce simp: k calm_def Let_def)
qed

section \<open>A sample supervisor\<close>

text \<open>Two campaigns with the same plan, in ledgers of two directories.\<close>

definition demo_plan2 :: DelegatedCampaignInput where
  "demo_plan2 = demo_plan\<lparr>in_campaignId := demo_uuid (CHR ''9'')\<rparr>"

definition demo_ledger2 :: DelegatedCampaignLedger where
  "demo_ledger2 = demo_ledger\<lparr>directory := ''/other''\<rparr>"

abbreviation demo_record2 :: "CampaignTaskState CampaignRecord" where
  "demo_record2 \<equiv> initial_record demo_host demo_ledger2 demo_io (normal_form demo_plan2)"

definition demo_files2 :: files where
  "demo_files2 = snd (create_campaign demo_host demo_ledger2 demo_io demo_plan2 demo_files)"

definition demo_registration :: "DelegatedCampaignLedger \<Rightarrow> DelegatedCampaignInput \<Rightarrow> TrustedCampaignRegistration" where
  "demo_registration L x = \<lparr>rg_workspaceId = in_workspaceId x, rg_campaignId = in_campaignId x, rg_ledger = L,
     rg_bind = (\<lambda>_ _ _. Inr demo_capabilities)\<rparr>"

definition demo_registrations :: "TrustedCampaignRegistration list" where
  "demo_registrations = [demo_registration demo_ledger demo_plan, demo_registration demo_ledger2 demo_plan2]"

definition demo_options :: CampaignSupervisorOptions where
  "demo_options = \<lparr>opt_maxStepsPerWake = None, opt_idlePollMs = Some 500, opt_unknownPollMs = None, opt_failureBackoffMs = None, opt_maxBackoffMs = None\<rparr>"

definition demo_supervisor :: DelegatedCampaignSupervisor where
  "demo_supervisor = \<lparr>entries = map initial_entry demo_registrations, maxSteps = 8, idlePollMs = 500, unknownPollMs = 5000, failureBackoffMs = 5000,
     maxBackoffMs = 60000, serving = False\<rparr>"

definition demo_wakes :: "nat \<Rightarrow> wake_env" where
  "demo_wakes m = \<lparr>aborted = False, now_due = int m * 10, wait_error = None, aborted_after_wait = False,
     wake_passes = (\<lambda>_. \<lparr>pass_lease = Held, pass_steps = (\<lambda>_. demo_env)\<rparr>), now_end = int m * 10 + 5\<rparr>"

lemma demo_identities:
  "WORKSPACE_ID_test (in_workspaceId demo_plan)" "UUID_test (in_campaignId demo_plan)"
  "WORKSPACE_ID_test (in_workspaceId demo_plan2)" "UUID_test (in_campaignId demo_plan2)"
  "in_campaignId demo_plan \<noteq> in_campaignId demo_plan2"
  by code_simp+

lemma demo_supervisor_new: "new_supervisor demo_registrations demo_options = Inr demo_supervisor"
  using demo_identities
  by (simp add: new_supervisor_def demo_registrations_def demo_options_def demo_supervisor_def bounded_def or_default_def ensure_def and_then_def
      addTrustedRegistration_def demo_registration_def initial_entry_def same_registration_def)

lemma demo_separate:
  "ledger_file demo_host demo_ledger (in_workspaceId demo_plan) (in_campaignId demo_plan) = Inr (''/state/'' @ replicate 64 (CHR ''a'') @ ''.json'')"
  "ledger_file demo_host demo_ledger2 (in_workspaceId demo_plan2) (in_campaignId demo_plan2) = Inr (''/other/'' @ replicate 64 (CHR ''a'') @ ''.json'')"
  by code_simp+

lemma demo_holds2: "holds demo_host demo_ledger2 demo_files2 (in_workspaceId demo_plan2) (in_campaignId demo_plan2) demo_record2"
  and demo_files2: "demo_files2 = Map_set demo_files (''/other/'' @ replicate 64 (CHR ''a'') @ ''.json'') (StoredRecord (stored_record demo_record2))"
proof -
  let ?f = "''/other/'' @ replicate 64 (CHR ''a'') @ ''.json''"
  have n: "normalize demo_host demo_plan2 = Inr (normal_form demo_plan2)" by code_simp
  have "Map_get demo_files ?f = None" by code_simp
  then have g: "get_campaign demo_host demo_ledger2 demo_files (in_workspaceId demo_plan2) (in_campaignId demo_plan2) = Inr None"
    by (simp add: get_campaign_def demo_separate(2) and_then_def)
  have c: "create_campaign demo_host demo_ledger2 demo_io demo_plan2 demo_files =
      (Inr demo_record2, Map_set demo_files ?f (StoredRecord (stored_record demo_record2)))"
    using demo_separate(2)
    by (simp add: create_campaign_def n locked_def g under_lease_def demo_io_def Let_def write_then_def write_campaign_def initial_record_def)
  then show "demo_files2 = Map_set demo_files ?f (StoredRecord (stored_record demo_record2))" by (simp add: demo_files2_def)
  have "in_keys demo_plan2 = canonical_keys" by (simp add: demo_plan2_def demo_plan_def)
  from create_holds(1) [OF c g demo_sha this] c
  show "holds demo_host demo_ledger2 demo_files2 (in_workspaceId demo_plan2) (in_campaignId demo_plan2) demo_record2" by (simp add: demo_files2_def)
qed

definition demo_records :: "nat \<Rightarrow> CampaignTaskState CampaignRecord" where
  "demo_records j = (if j = 0 then demo_record else demo_record2)"

lemma demo_entries: "entries demo_supervisor = map initial_entry demo_registrations" "length demo_registrations = 2"
  by (simp_all add: demo_supervisor_def demo_registrations_def)

lemma demo_tracks: "tracks demo_host (entries demo_supervisor) demo_files2 demo_records"
proof -
  have "holds demo_host demo_ledger demo_files2 (in_workspaceId demo_plan) (in_campaignId demo_plan) demo_record"
    by (rule holds_frame [OF demo_holds(1)]) (auto simp: demo_separate(1) demo_files2 Map_get_set)
  with demo_holds2 show ?thesis
    by (auto simp: tracks_def demo_entries demo_registrations_def initial_entry_def demo_registration_def demo_records_def less_Suc_eq numeral_2_eq_2)
qed

lemma demo_distinct: "distinct (map (campaign_file demo_host) (map registration (entries demo_supervisor)))"
  by (simp add: demo_entries demo_registrations_def initial_entry_def campaign_file_def demo_registration_def demo_separate)

lemma demo_calm: "calm (demo_wakes m)"
  using demo_quiet by (simp add: calm_def demo_wakes_def)

lemma demo_revisions: "revision (demo_records j) = 0"
  by (simp add: demo_records_def initial_record_def)

lemma demo_tasks2: "tasks (demo_records j) = tasks demo_record"
  by (simp add: demo_records_def initial_record_def demo_plan2_def)

lemma demo_smooth: "smooth (demo_registration L x) 8 (demo_records j)"
proof -
  have "set (map step_id (tasks demo_record)) = {''a'', ''b''}" by (simp add: demo_tasks demo_step_def insert_commute)
  moreover have "pending_ids (demo_records j) \<subseteq> set (map step_id (tasks demo_record))" by (auto simp: pending_ids_def demo_tasks2)
  ultimately have "pending_ids (demo_records j) \<subseteq> {''a'', ''b''}" by simp
  then have "card (pending_ids (demo_records j)) \<le> 2" using card_mono [of "{''a'', ''b''}" "pending_ids (demo_records j)"] by simp
  moreover have "\<forall>t \<in> set (tasks (demo_records j)). state t = Pending \<or> state t = Completed" by (simp add: demo_tasks2 demo_tasks)
  ultimately show ?thesis using demo_bound by (simp add: smooth_def demo_tasks2 demo_registration_def)
qed

lemmas demo_supervisor_ok = new_supervisor_ok [OF demo_supervisor_new]

section \<open>Properties\<close>

text \<open>
  C1. Supervision dispatches each step at most once. For every registered campaign whose ledger holds a record, whatever the
  signal, the clock, the waits, the locks, the binding function and the capabilities do during \<open>serve\<close>, the dispatches to that campaign are
  of distinct steps, all pending before and none pending after, each within the plan and with its dependencies completed; no
  dispatch goes to a campaign that is not registered, and the plan of every campaign is kept.
\<close>

theorem supervised_dispatch_once:
  assumes "supervisor_ok S" and "tracks H (entries S) fs rs" and "distinct (map (campaign_file H) (map registration (entries S)))"
    and "\<forall>m. fresh_uuids (wake_passes (env m))" and "\<forall>j < length (entries S). revision (rs j) + 393216 < 2 ^ 53"
    and "serve H env late maxWakes S fs = (out, ds, S', fs')"
  shows "(\<forall>p \<in> set ds. \<exists>en \<in> set (entries S). of_campaign (registration en) p) \<and>
    (\<forall>j < length (entries S). \<exists>r'. campaign_holds H fs' (registration (entries S ! j)) r' \<and> record_input r' = record_input (rs j) \<and>
      distinct (map (\<lambda>p. iv_taskId (fst (snd p))) (filter (of_campaign (registration (entries S ! j))) ds)) \<and>
      (\<forall>p \<in> set ds. of_campaign (registration (entries S ! j)) p \<longrightarrow> task_states_of (rs j) (iv_taskId (fst (snd p))) = Some Pending \<and>
        task_states_of r' (iv_taskId (fst (snd p))) \<noteq> Some Pending \<and> within_plan (fst p) (record_input (rs j)) (snd p)))"
proof -
  have u: "\<And>m. fresh_uuids (wake_passes (env m))" and room: "\<And>j. j < length (entries S) \<Longrightarrow> revision (rs j) + 393216 < 2 ^ 53"
    using assms(4,5) by blast+
  obtain rs' where s: "map registration (entries S') = map registration (entries S)" "tracks H (entries S') fs' rs'"
    "\<forall>j < length (entries S). advanced 393216 (rs j) (rs' j) \<and>
       dispatches_ok (filter (of_campaign (registration (entries S ! j))) ds) (rs j) (rs' j)"
    "\<forall>p \<in> set ds. \<exists>en \<in> set (entries S). of_campaign (registration en) p"
    by (rule serve_ok [OF assms(1-3) u room assms(6)]) blast
  have len: "length (entries S') = length (entries S)" using s(1) by (metis length_map)
  have h: "campaign_holds H fs' (registration (entries S ! j)) (rs' j)" if "j < length (entries S)" for j
    using s(2) that len nth_map [of j "entries S'" registration] nth_map [of j "entries S" registration] by (simp add: tracks_def s(1))
  have "record_input (rs' j) = record_input (rs j)" if "j < length (entries S)" for j
    using s(3) that advanced_input by blast
  with h s(3) have "campaign_holds H fs' (registration (entries S ! j)) (rs' j) \<and> record_input (rs' j) = record_input (rs j) \<and>
      distinct (map (\<lambda>p. iv_taskId (fst (snd p))) (filter (of_campaign (registration (entries S ! j))) ds)) \<and>
      (\<forall>p \<in> set ds. of_campaign (registration (entries S ! j)) p \<longrightarrow> task_states_of (rs j) (iv_taskId (fst (snd p))) = Some Pending \<and>
        task_states_of (rs' j) (iv_taskId (fst (snd p))) \<noteq> Some Pending \<and> within_plan (fst p) (record_input (rs j)) (snd p))"
    if "j < length (entries S)" for j
    using that unfolding dispatches_ok_def by fastforce
  with s(4) show ?thesis by blast
qed

theorem supervised_dispatch_once_witness:
  "\<exists>out ds S' fs'. serve demo_host demo_wakes False 2 demo_supervisor demo_files2 = (out, ds, S', fs') \<and>
     (\<forall>g \<in> set demo_registrations. distinct (map (\<lambda>p. iv_taskId (fst (snd p))) (filter (of_campaign g) ds)))"
proof -
  obtain out ds S' fs' where s: "serve demo_host demo_wakes False 2 demo_supervisor demo_files2 = (out, ds, S', fs')" by (metis prod.exhaust)
  have "\<forall>m. fresh_uuids (wake_passes (demo_wakes m))" "\<forall>j < length (entries demo_supervisor). revision (demo_records j) + 393216 < 2 ^ 53"
    using calm_fresh [OF demo_calm] by (simp_all add: demo_revisions)
  from supervised_dispatch_once [OF _ demo_tracks demo_distinct this s] demo_supervisor_ok s show ?thesis
    by (fastforce simp: demo_entries initial_entry_def in_set_conv_nth)
qed

text \<open>
  The report of a supervision means what it says: at most \<open>maxWakes\<close> sessions were run; \<open>all_completed\<close> is reported only when the ledger of
  every registered campaign says that all its steps are completed; unless the signal was aborted, \<open>needs_attention\<close> is reported exactly when no campaign
  can go on and some is not completed, and \<open>wake_budget\<close> exactly when some campaign can go on, and then all wakes have been used.
\<close>

theorem supervisor_report:
  assumes "supervisor_ok S" and "tracks H (entries S) fs rs" and "distinct (map (campaign_file H) (map registration (entries S)))"
    and "\<forall>m. fresh_uuids (wake_passes (env m))" and "\<forall>j < length (entries S). revision (rs j) + 393216 < 2 ^ 53"
    and "serve H env late maxWakes S fs = (Inr R, ds, S', fs')"
  shows "int (rp_wakes R) \<le> maxWakes \<and> rp_campaigns R = map status_of (entries S') \<and>
    (rp_stop R = Supervised_all_completed \<longrightarrow> (\<forall>en \<in> set (entries S). \<exists>r'. campaign_holds H fs' (registration en) r' \<and>
      list_all (\<lambda>t. state t = Completed) (tasks r'))) \<and>
    (rp_stop R \<noteq> Supervised_stopped \<longrightarrow>
      (rp_stop R = Supervised_all_completed \<longleftrightarrow> (\<forall>en \<in> set (entries S'). ss_state (status_of en) = SCompleted)) \<and>
      (rp_stop R = Supervised_wake_budget \<longleftrightarrow> (\<exists>en \<in> set (entries S'). eligible en)) \<and>
      (rp_stop R = Supervised_wake_budget \<longrightarrow> int (rp_wakes R) = maxWakes))"
proof -
  have u: "\<And>m. fresh_uuids (wake_passes (env m))" and room: "\<And>j. j < length (entries S) \<Longrightarrow> revision (rs j) + 393216 < 2 ^ 53"
    using assms(4,5) by blast+
  obtain rs' where s: "supervisor_ok S'" "map registration (entries S') = map registration (entries S)" "tracks H (entries S') fs' rs'"
    "\<forall>R'. (Inr R :: campaign_error + CampaignSupervisorReport) = Inr R' \<longrightarrow> (\<exists>abort n. R' = serve_report abort n S' \<and> int n \<le> maxWakes \<and>
       (\<not> abort \<longrightarrow> int n = maxWakes \<or> list_all (\<lambda>en. \<not> eligible en) (entries S')))"
    by (rule serve_ok [OF assms(1-3) u room assms(6)]) blast
  from s(4) [rule_format, OF refl] obtain abort n where R: "R = serve_report abort n S'" "int n \<le> maxWakes"
      "\<not> abort \<longrightarrow> int n = maxWakes \<or> list_all (\<lambda>en. \<not> eligible en) (entries S')" by blast
  have states: "eligible en \<or> ss_state (status_of en) \<in> {SCompleted, SBlocked, SNeedsAttention}" if "en \<in> set (entries S')" for en
    using s(1) that by (cases "ss_state (status_of en)") (auto simp: supervisor_ok_def list_all_iff entry_ok_def delay_ok_def eligible_def)
  have "\<exists>r'. campaign_holds H fs' g r' \<and> all_completed r'"
    if st: "rp_stop R = Supervised_all_completed" and g: "g \<in> set (map registration (entries S'))" for g
  proof -
    obtain j where j: "j < length (entries S')" "g = registration (entries S' ! j)" using g by (auto simp: in_set_conv_nth)
    have "ss_state (status_of (entries S' ! j)) = SCompleted"
      using st j(1) by (auto simp: R(1) serve_report_def list_all_length split: if_splits)
    with s(3) j show ?thesis by (auto simp: tracks_def)
  qed
  then have comp: "rp_stop R = Supervised_all_completed \<longrightarrow> (\<forall>en \<in> set (entries S). \<exists>r'. campaign_holds H fs' (registration en) r' \<and> all_completed r')"
    unfolding s(2) by auto
  show ?thesis
    using R(2,3) states comp
    by (auto simp: R(1) serve_report_def status_def list_all_iff list_ex_iff eligible_def) blast
qed

text \<open>
  The bounds of a supervisor: one that was constructed has its settings within their bounds and at most sixteen distinct, well-formed campaigns, and so it
  stays when campaigns are added and when it serves. In particular the delay before a next wake never exceeds the maximal back-off or the idle
  delay, doubles with each refused lock, and after four refused locks in a row the campaign is not woken again.
\<close>

theorem supervisor_bounds:
  assumes "supervisor_ok S"
  shows "(new_supervisor gs opts = Inr S0 \<longrightarrow> supervisor_ok S0) \<and> (addTrustedRegistration g S = Inr S1 \<longrightarrow> supervisor_ok S1) \<and>
    (serve H env late maxWakes S fs = (out, ds, S', fs') \<longrightarrow> supervisor_ok S')"
proof -
  have loop: "supervisor_ok S1" if "serve_loop H env k n S0 ds fs = (res, n', S1, ds', fs')" "supervisor_ok S0" for k n S0 ds fs res n' S1 ds' fs'
    using that
  proof (induction k arbitrary: n S0 ds fs)
    case (Suc k)
    show ?case
    proof (cases "wake_order (entries S0)")
      case (Cons j js)
      then have j: "j < length (entries S0)" "eligible (entries S0 ! j)" using wake_order_eligible [of j "entries S0"] by auto
      obtain en new fs1 where w: "wake H S0 (env n) (entries S0 ! j) fs = (en, new, fs1)" by (metis prod.exhaust)
      have "entry_ok S0 (entries S0 ! j)" "settings_ok S0" using Suc.prems(2) j(1) by (simp_all add: supervisor_ok_def list_all_length)
      from wake_entry_ok [OF this(2,1) j(2) w] have "supervisor_ok (S0\<lparr>entries := (entries S0)[j := en]\<rparr>)"
        by (intro supervisor_ok_update [OF Suc.prems(2)]) auto
      with Suc.IH Suc.prems w Cons show ?thesis by (auto simp: Let_def split: if_splits)
    qed (use Suc.prems in \<open>auto split: if_splits\<close>)
  qed auto
  have "supervisor_ok S'" if "serve H env late maxWakes S fs = (out, ds, S', fs')"
    using that
  proof (cases rule: serve_cases)
    case (ran res n S2)
    then show ?thesis using loop [OF ran(4)] assms by simp
  qed (use assms in simp)
  with assms show ?thesis using new_supervisor_ok addTrustedRegistration_ok by blast
qed

text \<open>
  C24. Campaigns that meet no obstacle complete. When every campaign still eligible is smooth (its tasks are pending or completed, its pending tasks are no more than the steps of one wake, and its
  capabilities can always be bound and succeed), every other campaign is completed, no lock is refused, no write or wait fails, the signal is not aborted and there is room for revisions, \<open>serve\<close> with at
  least as many wakes as eligible campaigns wakes each of them exactly once and no other, reports \<open>all_completed\<close>, and leaves every campaign completed in its ledger.
\<close>

theorem supervisor_completes:
  assumes "supervisor_ok S" "\<not> serving S" "tracks H (entries S) fs rs" "distinct (map (campaign_file H) (map registration (entries S)))"
    and "\<forall>m. calm (env m)"
    and "\<forall>j < length (entries S). if eligible (entries S ! j)
      then revision (rs j) + 384 < 2 ^ 53 \<and> smooth (registration (entries S ! j)) (maxSteps S) (rs j) else ss_state (status_of (entries S ! j)) = SCompleted"
    and "1 \<le> maxWakes" "maxWakes \<le> 1024" "int (length (filter eligible (entries S))) \<le> maxWakes"
  shows "\<exists>R ds S' fs'. serve H env False maxWakes S fs = (Inr R, ds, S', fs') \<and> rp_stop R = Supervised_all_completed \<and>
    rp_wakes R = length (filter eligible (entries S)) \<and>
    (\<forall>j < length (entries S). ss_wakes (status_of (entries S' ! j)) = ss_wakes (status_of (entries S ! j)) + (if eligible (entries S ! j) then 1 else 0)) \<and>
    (\<forall>en \<in> set (entries S). \<exists>r. campaign_holds H fs' (registration en) r \<and> list_all (\<lambda>t. state t = Completed) (tasks r))"
proof -
  let ?S = "S\<lparr>serving := True\<rparr>" and ?c = "length (filter eligible (entries S))"
  have "\<exists>S' ds' fs' rs'. serve_loop H env (nat maxWakes) 0 ?S [] fs = (Inr False, 0 + ?c, S', ds', fs') \<and> all_woken (entries ?S) (entries S') \<and> tracks H (entries S') fs' rs'"
    by (rule serve_loop_completes) (use assms in \<open>auto simp: length_filter_conv_card\<close>)
  then obtain S1 ds fs' rs' where l: "serve_loop H env (nat maxWakes) 0 ?S [] fs = (Inr False, ?c, S1, ds, fs')"
      "all_woken (entries S) (entries S1)" "tracks H (entries S1) fs' rs'" by auto
  have finished_all: "list_all (\<lambda>en. ss_state (status_of en) = SCompleted) (entries S1)" "map registration (entries S1) = map registration (entries S)"
    using l(2) by (simp_all add: all_woken_def)
  have "\<exists>r. campaign_holds H fs' g r \<and> all_completed r" if g: "g \<in> set (map registration (entries S1))" for g
  proof -
    obtain j where "j < length (entries S1)" "g = registration (entries S1 ! j)" using g by (auto simp: in_set_conv_nth)
    then show ?thesis using finished_all(1) l(3) by (auto simp: tracks_def list_all_length [of _ "entries S1"])
  qed
  then have "\<forall>en \<in> set (entries S). \<exists>r. campaign_holds H fs' (registration en) r \<and> all_completed r" unfolding finished_all(2) by auto
  moreover have "bounded maxWakes 1 1024 ''maxWakes'' = Inr maxWakes" using assms(7,8) by (simp add: bounded_Inr)
  ultimately show ?thesis using l(1,2) finished_all(1) assms(2) by (simp add: serve_def serve_report_def all_woken_def)
qed

theorem supervisor_completes_witness:
  "\<exists>R ds S' fs'. serve demo_host demo_wakes False 2 demo_supervisor demo_files2 = (Inr R, ds, S', fs') \<and> rp_stop R = Supervised_all_completed \<and>
     rp_wakes R = 2 \<and> (\<forall>j < 2. ss_wakes (status_of (entries S' ! j)) = 1)"
proof -
  have all: "filter eligible (entries demo_supervisor) = entries demo_supervisor"
    by (simp add: demo_entries demo_registrations_def eligible_def initial_entry_def)
  have "smooth (registration (entries demo_supervisor ! j)) (maxSteps demo_supervisor) (demo_records j)" if "j < length (entries demo_supervisor)" for j
  proof -
    have "registration (entries demo_supervisor ! j) \<in> set demo_registrations" using that by (simp add: demo_entries initial_entry_def)
    then show ?thesis using demo_smooth by (auto simp: demo_registrations_def demo_supervisor_def)
  qed
  moreover have first: "ss_wakes (status_of (initial_entry g)) = 0" for g by (simp add: initial_entry_def)
  ultimately show ?thesis
    using supervisor_completes [of demo_supervisor demo_host demo_files2 demo_records demo_wakes 2] demo_supervisor_ok demo_tracks demo_distinct demo_calm all
    by (auto simp: demo_revisions demo_entries(2) demo_entries filter_id_conv first)
qed

end
