(* ===== verification/CampaignLease.thy ===== *)
theory CampaignLease
  imports CampaignPlan
begin

text \<open>
  The lock of a campaign, \<open>services/workspace-agent/src/campaign/campaign-run-lease.ts\<close>: a file created
  exclusively, renewed by a heartbeat, and recovered when its owner has died. Several processes on several hosts use
  one lock path; \<open>run\<close> is split at its file operations into the steps of a transition system (the reading of an old lease and
  the checks of what was read are two steps), and a process may crash between any two of them. The lock is exclusive as long as nobody
  releases it between these two steps of a recovery, and it is not otherwise: \<open>race_reachable\<close> has the execution.
\<close>

section \<open>Lease records\<close>

record RunLeaseRecord =
  rl_version :: int
  ownerId :: string
  hostname :: string
  pid :: int
  issuedAt :: int
  renewedAt :: int
  expiresAt :: int

definition isSafeInteger :: "int \<Rightarrow> bool" where
  "isSafeInteger n = (\<bar>n\<bar> < 2 ^ 53)"

definition valid_lease :: "RunLeaseRecord \<Rightarrow> bool" where
  "valid_lease r = (rl_version r = 1 \<and> UUID_test (ownerId r) \<and> hostname r \<noteq> [] \<and> length (hostname r) \<le> 256 \<and>
     isSafeInteger (pid r) \<and> 0 < pid r \<and> isSafeInteger (issuedAt r) \<and> isSafeInteger (renewedAt r) \<and> isSafeInteger (expiresAt r) \<and>
     0 < issuedAt r \<and> issuedAt r \<le> renewedAt r \<and> renewedAt r < expiresAt r)"

text \<open>The text of a lock file: a lease with fields of the right types, or anything else, such as the empty text of a file just created.\<close>

datatype lock_text = LeaseText RunLeaseRecord | OtherText

section \<open>The object\<close>

record CampaignRunLease =
  leaseMs :: int
  heartbeatMs :: int
  own_hostname :: string
  own_pid :: int

definition new_run_lease :: "int option \<Rightarrow> int option \<Rightarrow> string \<Rightarrow> int \<Rightarrow> campaign_error + CampaignRunLease" where
  "new_run_lease lms hms host p =
    (let l = (case lms of None \<Rightarrow> 90000 | Some n \<Rightarrow> n); h = (case hms of None \<Rightarrow> 20000 | Some n \<Rightarrow> n)
     in ensure (isSafeInteger l \<and> 1000 \<le> l \<and> isSafeInteger h \<and> 100 \<le> h \<and> h * 2 < l) ''lease/heartbeat interval''
        (ensure (host \<noteq> [] \<and> isSafeInteger p \<and> 0 < p) ''run owner''
        (Inr \<lparr>leaseMs = l, heartbeatMs = h, own_hostname = host, own_pid = p\<rparr>)))"

definition readLease :: "lock_text option \<Rightarrow> campaign_error + RunLeaseRecord" where
  "readLease f = (case f of Some (LeaseText r) \<Rightarrow> if valid_lease r then Inr r else Inl CAMPAIGN_RUN_LOCKED | _ \<Rightarrow> Inl CAMPAIGN_RUN_LOCKED)"

definition new_lease :: "CampaignRunLease \<Rightarrow> string \<Rightarrow> int \<Rightarrow> RunLeaseRecord" where
  "new_lease C own at = \<lparr>rl_version = 1, ownerId = own, hostname = own_hostname C, pid = own_pid C,
     issuedAt = at, renewedAt = at, expiresAt = at + leaseMs C\<rparr>"

text \<open>The record a heartbeat writes, after its checks of the lease it has read.\<close>

definition renewal :: "CampaignRunLease \<Rightarrow> string \<Rightarrow> int \<Rightarrow> RunLeaseRecord \<Rightarrow> campaign_error + RunLeaseRecord" where
  "renewal C own at prior =
    (if ownerId prior \<noteq> own \<or> hostname prior \<noteq> own_hostname C \<or> pid prior \<noteq> own_pid C then Inl CAMPAIGN_RUN_LOCKED
     else if at < renewedAt prior \<or> expiresAt prior < at then Inl CAMPAIGN_RUN_LOCKED
     else Inr (prior\<lparr>renewedAt := at, expiresAt := at + leaseMs C\<rparr>))"

definition may_recover :: "CampaignRunLease \<Rightarrow> int \<Rightarrow> bool \<Rightarrow> RunLeaseRecord \<Rightarrow> bool" where
  "may_recover C at processAlive r = (hostname r = own_hostname C \<and> expiresAt r < at \<and> \<not> processAlive)"

section \<open>Runs as steps\<close>

text \<open>
  Where a call of \<open>run\<close> stands: before its first \<open>open\<close>; refused by an existing file; with the recovery guard; after reading
  the old lease; after the checks of that lease; after its removal; with a file opened but not written, on the fresh path or under the guard; written under the guard;
  running its task, with the record a heartbeat is about to put in place; about to remove its file; ended.
\<close>

datatype phase = Starting | Contending | Guarded | Inspecting RunLeaseRecord | Cleared | Removed | Opened bool | Written | Running "RunLeaseRecord option" | Releasing | Ended

record run_state =
  config :: CampaignRunLease
  phase_of :: phase

text \<open>
  A lock path: the file with the run that created it (its inode: a handle keeps writing to the file it opened, also when
  the name now belongs to another), the holder of the recovery guard, the live processes, and the calls by owner.
\<close>

record lock_state =
  lock_file :: "(string \<times> lock_text) option"
  guard :: "string option"
  alive :: "(string \<times> int) set"
  calls :: "string \<rightharpoonup> run_state"

definition process_of :: "run_state \<Rightarrow> string \<times> int" where
  "process_of x = (own_hostname (config x), own_pid (config x))"

definition at_phase :: "lock_state \<Rightarrow> string \<Rightarrow> phase \<Rightarrow> bool" where
  "at_phase s own p = (case calls s own of None \<Rightarrow> False | Some x \<Rightarrow> phase_of x = p)"

definition go :: "string \<Rightarrow> phase \<Rightarrow> lock_state \<Rightarrow> lock_state" where
  "go own p s = s\<lparr>calls := (calls s)(own := map_option (\<lambda>x. x\<lparr>phase_of := p\<rparr>) (calls s own))\<rparr>"

abbreviation config_of :: "lock_state \<Rightarrow> string \<Rightarrow> CampaignRunLease" where
  "config_of s own \<equiv> config (the (calls s own))"

abbreviation file_text :: "lock_state \<Rightarrow> lock_text option" where
  "file_text s \<equiv> map_option snd (lock_file s)"

definition unguard :: "lock_state \<Rightarrow> lock_state" where
  "unguard s = s\<lparr>guard := None\<rparr>"

text \<open>Writing through a handle.\<close>

definition write_handle :: "string \<Rightarrow> RunLeaseRecord \<Rightarrow> lock_state \<Rightarrow> lock_state" where
  "write_handle own r s = (case lock_file s of
     Some (creator, _) \<Rightarrow> if creator = own then s\<lparr>lock_file := Some (own, LeaseText r)\<rparr> else s
   | None \<Rightarrow> s)"

text \<open>The phases between the \<open>open\<close> and the \<open>rm\<close> of the recovery guard.\<close>

definition holds_guard :: "phase \<Rightarrow> bool" where
  "holds_guard p = (case p of Inspecting _ \<Rightarrow> True | _ \<Rightarrow> p \<in> {Guarded, Cleared, Removed, Opened True, Written})"

text \<open>
  The steps. \<open>clear\<close> and \<open>refuse\<close> are the checks of \<open>tryRecover\<close> on the lease it has read, at the clock and with the answer
  of \<open>isProcessAlive\<close> of that moment, which is \<open>False\<close> only when the system has no such process; \<open>recovery_failed\<close> is a failing read,
  removal or creation under the guard, and \<open>guard_left\<close> a failing removal of the guard itself, which stays and blocks later recoveries.
\<close>

inductive lease_step :: "lock_state \<Rightarrow> lock_state \<Rightarrow> bool" where
  boot: "lease_step s (s\<lparr>alive := insert p (alive s)\<rparr>)"
| crash: "lease_step s (s\<lparr>alive := alive s - {p},
    calls := (\<lambda>own. map_option (\<lambda>x. if process_of x = p then x\<lparr>phase_of := Ended\<rparr> else x) (calls s own))\<rparr>)"
| call: "calls s own = None \<Longrightarrow> process_of x \<in> alive s \<Longrightarrow> phase_of x = Starting \<Longrightarrow>
    lease_step s (s\<lparr>calls := (calls s)(own \<mapsto> x)\<rparr>)"
| give_up: "at_phase s own p \<Longrightarrow> p \<in> {Starting, Contending} \<Longrightarrow> lease_step s (go own Ended s)"
| open_new: "at_phase s own Starting \<Longrightarrow> lock_file s = None \<Longrightarrow>
    lease_step s (go own (Opened False) (s\<lparr>lock_file := Some (own, OtherText)\<rparr>))"
| open_exists: "at_phase s own Starting \<Longrightarrow> lock_file s \<noteq> None \<Longrightarrow> lease_step s (go own Contending s)"
| write_new: "at_phase s own (Opened False) \<Longrightarrow>
    lease_step s (go own (Running None) (write_handle own (new_lease (config_of s own) own at) s))"
| write_failed: "at_phase s own (Opened g) \<Longrightarrow> lease_step s (go own Ended (if g then unguard s else s))"
| take_guard: "at_phase s own Contending \<Longrightarrow> guard s = None \<Longrightarrow> lease_step s (go own Guarded (s\<lparr>guard := Some own\<rparr>))"
| read_old: "at_phase s own Guarded \<Longrightarrow> readLease (file_text s) = Inr r \<Longrightarrow> lease_step s (go own (Inspecting r) s)"
| clear: "at_phase s own (Inspecting r) \<Longrightarrow> may_recover (config_of s own) at processAlive r \<Longrightarrow>
    (\<not> processAlive \<longrightarrow> (own_hostname (config_of s own), pid r) \<notin> alive s) \<Longrightarrow> lease_step s (go own Cleared s)"
| refuse: "at_phase s own (Inspecting r) \<Longrightarrow> \<not> may_recover (config_of s own) at processAlive r \<Longrightarrow>
    lease_step s (go own Ended (unguard s))"
| recovery_failed: "at_phase s own p \<Longrightarrow> p \<in> {Guarded, Cleared, Removed} \<Longrightarrow> lease_step s (go own Ended (unguard s))"
| guard_left: "at_phase s own p \<Longrightarrow> holds_guard p \<Longrightarrow> lease_step s (go own Ended s)"
| remove_old: "at_phase s own Cleared \<Longrightarrow> lease_step s (go own Removed (s\<lparr>lock_file := None\<rparr>))"
| reopen: "at_phase s own Removed \<Longrightarrow> lock_file s = None \<Longrightarrow>
    lease_step s (go own (Opened True) (s\<lparr>lock_file := Some (own, OtherText)\<rparr>))"
| write_recovered: "at_phase s own (Opened True) \<Longrightarrow>
    lease_step s (go own Written (write_handle own (new_lease (config_of s own) own at) s))"
| drop_guard: "at_phase s own Written \<Longrightarrow> lease_step s (go own (Running None) (unguard s))"
| heartbeat: "at_phase s own (Running None) \<Longrightarrow> readLease (file_text s) = Inr prior \<Longrightarrow> renewal (config_of s own) own at prior = Inr nxt \<Longrightarrow>
    lease_step s (go own (Running (Some nxt)) s)"
| put_in_place: "at_phase s own (Running (Some nxt)) \<Longrightarrow>
    lease_step s (go own (Running None) (s\<lparr>lock_file := Some (own, LeaseText nxt)\<rparr>))"
| heartbeat_failed: "at_phase s own (Running (Some nxt)) \<Longrightarrow> lease_step s (go own (Running None) s)"
| finish: "at_phase s own (Running None) \<Longrightarrow> readLease (file_text s) = Inr r \<Longrightarrow> ownerId r = own \<Longrightarrow> lease_step s (go own Releasing s)"
| lost: "at_phase s own (Running None) \<Longrightarrow> readLease (file_text s) = Inl e \<or> (\<exists>r. readLease (file_text s) = Inr r \<and> ownerId r \<noteq> own) \<Longrightarrow>
    lease_step s (go own Ended s)"
| remove_own: "at_phase s own Releasing \<Longrightarrow> lease_step s (go own Ended (s\<lparr>lock_file := None\<rparr>))"

text \<open>
  The steps that do not take the lock file away while a recoverer has read it and not yet checked what it read.
\<close>

definition inspected :: "lock_state \<Rightarrow> bool" where
  "inspected s = (\<exists>own r. at_phase s own (Inspecting r))"

definition steady_step :: "lock_state \<Rightarrow> lock_state \<Rightarrow> bool" where
  "steady_step s s' = (lease_step s s' \<and> (inspected s \<and> lock_file s \<noteq> None \<longrightarrow> lock_file s' \<noteq> None))"

definition no_lock :: lock_state where
  "no_lock = \<lparr>lock_file = None, guard = None, alive = {}, calls = Map.empty\<rparr>"

section \<open>The invariant\<close>

text \<open>
  A call that has opened the file and not ended owns the file; from its write on the text names it and its process; whoever recovers
  holds the guard; the owner of a file under inspection, if it has one, is the process that the inspected lease names; a file that is
  cleared for removal has no owner any more; and a call that has not ended runs in a live process.
\<close>

definition owns_file :: "phase \<Rightarrow> bool" where
  "owns_file p = (case p of Opened _ \<Rightarrow> True | Written \<Rightarrow> True | Running _ \<Rightarrow> True | Releasing \<Rightarrow> True | _ \<Rightarrow> False)"

definition has_written :: "phase \<Rightarrow> bool" where
  "has_written p = (case p of Written \<Rightarrow> True | Running _ \<Rightarrow> True | Releasing \<Rightarrow> True | _ \<Rightarrow> False)"

definition names :: "run_state \<Rightarrow> string \<Rightarrow> RunLeaseRecord \<Rightarrow> bool" where
  "names x own r = (ownerId r = own \<and> (hostname r, pid r) = process_of x)"

text \<open>What a recoverer relies on about the process of the call that owns the lock file.\<close>

definition expected_owner :: "phase \<Rightarrow> (string \<times> int \<Rightarrow> bool) option" where
  "expected_owner p = (case p of Inspecting r \<Rightarrow> Some ((=) (hostname r, pid r)) | Cleared \<Rightarrow> Some (\<lambda>_. False) | _ \<Rightarrow> None)"

definition owned_by :: "lock_state \<Rightarrow> (string \<times> int \<Rightarrow> bool) \<Rightarrow> bool" where
  "owned_by s P = (\<exists>creator t. lock_file s = Some (creator, t) \<and>
     (\<forall>y. calls s creator = Some y \<longrightarrow> owns_file (phase_of y) \<longrightarrow> P (process_of y)))"

definition call_inv :: "lock_state \<Rightarrow> string \<Rightarrow> run_state \<Rightarrow> bool" where
  "call_inv s own x =
    ((owns_file (phase_of x) \<longrightarrow> (\<exists>t. lock_file s = Some (own, t) \<and>
        (if has_written (phase_of x) then \<exists>r. t = LeaseText r \<and> names x own r else t = OtherText))) \<and>
     (\<forall>r. phase_of x = Running (Some r) \<longrightarrow> names x own r) \<and>
     (holds_guard (phase_of x) \<longrightarrow> guard s = Some own) \<and>
     (\<forall>P. expected_owner (phase_of x) = Some P \<longrightarrow> owned_by s P) \<and>
     (phase_of x \<noteq> Ended \<longrightarrow> process_of x \<in> alive s))"

definition lease_inv :: "lock_state \<Rightarrow> bool" where
  "lease_inv s = (\<forall>own x. calls s own = Some x \<longrightarrow> call_inv s own x)"

text \<open>
  How a call in phase \<open>q\<close> may change the lock file: the file it owns (removing it only while nobody inspects it), a missing file or the file it has
  cleared.
\<close>

definition file_change :: "lock_state \<Rightarrow> string \<Rightarrow> phase \<Rightarrow> lock_state \<Rightarrow> bool" where
  "file_change s own q s1 = (lock_file s1 = lock_file s \<or> lock_file s = None \<or> q = Cleared \<or>
     owns_file q \<and> ((\<exists>t. lock_file s1 = Some (own, t)) \<or> \<not> inspected s))"

lemma lease_invD: "lease_inv s \<Longrightarrow> calls s own = Some x \<Longrightarrow> call_inv s own x"
  by (simp add: lease_inv_def)

lemma phase_simps [simp]:
  "owns_file (Opened g)" "owns_file Written" "owns_file (Running b)" "owns_file Releasing"
  "\<not> owns_file Starting" "\<not> owns_file Contending" "\<not> owns_file Guarded" "\<not> owns_file (Inspecting l)" "\<not> owns_file Cleared" "\<not> owns_file Removed" "\<not> owns_file Ended"
  "has_written Written" "has_written (Running b)" "has_written Releasing" "\<not> has_written (Opened g)"
  "holds_guard Guarded" "holds_guard (Inspecting l)" "holds_guard Cleared" "holds_guard Removed" "holds_guard (Opened True)" "holds_guard Written"
  "\<not> holds_guard Starting" "\<not> holds_guard Contending" "\<not> holds_guard (Opened False)" "\<not> holds_guard (Running b)" "\<not> holds_guard Releasing" "\<not> holds_guard Ended"
  by (simp_all add: owns_file_def has_written_def holds_guard_def)

lemma expected_owner_simps [simp]:
  "expected_owner (Inspecting l) = Some ((=) (hostname l, pid l))" "expected_owner Cleared = Some (\<lambda>_. False)"
  "expected_owner Starting = None" "expected_owner Contending = None" "expected_owner Guarded = None" "expected_owner Removed = None"
  "expected_owner (Opened g) = None" "expected_owner Written = None" "expected_owner (Running b) = None"
  "expected_owner Releasing = None" "expected_owner Ended = None"
  by (simp_all add: expected_owner_def)

lemma expected_owner_cases: "expected_owner p = Some P \<Longrightarrow> p = Cleared \<or> (\<exists>r. p = Inspecting r)"
  by (cases p) simp_all

lemma expected_owner_guard: "expected_owner p = Some P \<Longrightarrow> holds_guard p"
  using expected_owner_cases [of p P] by auto

lemma at_phaseE: "at_phase s own p \<Longrightarrow> (\<And>x. calls s own = Some x \<Longrightarrow> phase_of x = p \<Longrightarrow> P) \<Longrightarrow> P"
  by (auto simp: at_phase_def split: option.splits)

lemma process_of_phase [simp]: "process_of (x\<lparr>phase_of := p\<rparr>) = process_of x"
  by (simp add: process_of_def)

lemma names_phase [simp]: "names (x\<lparr>phase_of := p\<rparr>) own r = names x own r"
  by (simp add: names_def)

lemma go_simps [simp]:
  "lock_file (go own p s) = lock_file s" "guard (go own p s) = guard s" "alive (go own p s) = alive s"
  "calls (go own p s) = (calls s)(own := map_option (\<lambda>x. x\<lparr>phase_of := p\<rparr>) (calls s own))"
  by (simp_all add: go_def)

lemma unguard_simps [simp]:
  "lock_file (unguard s) = lock_file s" "guard (unguard s) = None" "alive (unguard s) = alive s" "calls (unguard s) = calls s"
  by (simp_all add: unguard_def)

lemma owned_by_go:
  assumes own: "owned_by s P" and x: "calls s own = Some x" and same: "calls s1 = calls s"
    and f: "lock_file s1 = lock_file s \<or> owns_file (phase_of x) \<and> lock_file s = Some (own, t) \<and> lock_file s1 = Some (own, t')"
    and owns: "owns_file p \<Longrightarrow> owns_file (phase_of x)"
  shows "owned_by (go own p s1) P"
proof -
  obtain creator u where c: "lock_file s = Some (creator, u)" "\<And>y. calls s creator = Some y \<Longrightarrow> owns_file (phase_of y) \<Longrightarrow> P (process_of y)"
    using own by (auto simp: owned_by_def)
  obtain v where "lock_file s1 = Some (creator, v)" using f c(1) by auto
  then show ?thesis using c(2) x same owns unfolding owned_by_def by (cases "creator = own") auto
qed

lemma inspectedI: "calls s own = Some y \<Longrightarrow> phase_of y = Inspecting r \<Longrightarrow> inspected s"
  unfolding inspected_def at_phase_def by (intro exI [of _ own] exI [of _ r]) simp

lemma lease_inv_go:
  assumes inv: "lease_inv s" and x: "calls s own = Some x" and same: "alive s1 = alive s" "calls s1 = calls s"
    and fl: "file_change s own (phase_of x) s1"
    and grd: "guard s1 = guard s \<or> guard s = None \<or> holds_guard (phase_of x)"
    and owns: "owns_file p \<Longrightarrow> owns_file (phase_of x) \<or> lock_file s = None"
    and new: "call_inv (go own p s1) own (x\<lparr>phase_of := p\<rparr>)"
  shows "lease_inv (go own p s1)"
  unfolding lease_inv_def
proof (intro allI impI)
  fix o' y assume y: "calls (go own p s1) o' = Some y"
  note xi = lease_invD [OF inv x]
  show "call_inv (go own p s1) o' y"
  proof (cases "o' = own")
    case True
    with y new x same show ?thesis by simp
  next
    case False
    with y same have y: "calls s o' = Some y" by simp
    note yi = lease_invD [OF inv y]
    have guarded: "\<not> holds_guard (phase_of y)" if "holds_guard (phase_of x)" using xi yi that False by (auto simp: call_inv_def)
    have g: "guard s1 = guard s" if "holds_guard (phase_of y)" using grd yi that guarded by (auto simp: call_inv_def)
    have single: "\<not> owns_file (phase_of y)" if "owns_file (phase_of x)" using xi yi that False by (auto simp: call_inv_def)
    have f: "lock_file s1 = lock_file s" if "owns_file (phase_of y)"
      using fl that single yi xi y by (auto simp: file_change_def call_inv_def owned_by_def)
    have "owned_by (go own p s1) P" if P: "expected_owner (phase_of y) = Some P" for P
    proof -
      have ob: "owned_by s P" using yi P by (auto simp: call_inv_def)
      have hg: "phase_of x \<noteq> Cleared" using guarded expected_owner_guard [OF P] by auto
      have "owns_file (phase_of x) \<Longrightarrow> inspected s"
        using expected_owner_cases [OF P] xi x ob P by (auto simp: owned_by_def call_inv_def intro: inspectedI [OF y])
      with fl hg ob have "lock_file s1 = lock_file s \<or> owns_file (phase_of x) \<and> (\<exists>t. lock_file s1 = Some (own, t))"
        by (auto simp: file_change_def owned_by_def)
      with xi obtain t t' where "lock_file s1 = lock_file s \<or> owns_file (phase_of x) \<and> lock_file s = Some (own, t) \<and> lock_file s1 = Some (own, t')"
        by (auto simp: call_inv_def)
      then show ?thesis by (rule owned_by_go [OF ob x same(2)]) (use owns ob in \<open>auto simp: owned_by_def\<close>)
    qed
    with f g yi same show ?thesis by (auto simp: call_inv_def)
  qed
qed

lemma write_handle_owned:
  "lock_file s = Some (own, t) \<Longrightarrow> write_handle own r s = s\<lparr>lock_file := Some (own, LeaseText r)\<rparr>"
  by (simp add: write_handle_def)

lemma write_handle_same [simp]: "alive (write_handle own r s) = alive s" "calls (write_handle own r s) = calls s" "guard (write_handle own r s) = guard s"
  by (auto simp: write_handle_def split: option.splits)

lemma write_handle_change: "file_change s own (Opened g) (write_handle own r s)"
  by (auto simp: file_change_def write_handle_def split: option.splits)

lemma lease_inv_expected: "lease_inv s \<Longrightarrow> at_phase s own p \<Longrightarrow> expected_owner p = Some P \<Longrightarrow> owned_by s P"
  by (auto simp: lease_inv_def call_inv_def elim!: at_phaseE)

lemma lease_inv_at:
  assumes inv: "lease_inv s" and x: "at_phase s own q" and same: "alive s1 = alive s" "calls s1 = calls s"
    and fl: "file_change s own q s1"
    and grd: "guard s1 = guard s \<or> guard s = None \<or> holds_guard q"
    and owns: "owns_file p \<Longrightarrow> owns_file q \<or> lock_file s = None"
    and new: "\<And>x. calls s own = Some x \<Longrightarrow> phase_of x = q \<Longrightarrow> call_inv s own x \<Longrightarrow> call_inv (go own p s1) own (x\<lparr>phase_of := p\<rparr>)"
  shows "lease_inv (go own p s1)"
proof -
  obtain x where c: "calls s own = Some x" "phase_of x = q" using x by (rule at_phaseE)
  show ?thesis
    by (rule lease_inv_go [OF inv c(1) same]) (use c fl grd owns new lease_invD [OF inv c(1)] in auto)
qed

lemma readLease_Inr: "readLease f = Inr r \<longleftrightarrow> f = Some (LeaseText r) \<and> valid_lease r"
  by (auto simp: readLease_def split: option.splits lock_text.splits if_splits)

lemma names_new: "names x own (new_lease (config x) own at)"
  by (simp add: names_def new_lease_def process_of_def)

lemma names_renewal: "names x own prior \<Longrightarrow> renewal C own at prior = Inr nxt \<Longrightarrow> names x own nxt"
  by (auto simp: names_def renewal_def split: if_splits)

text \<open>What a recoverer has read names the process of the owner.\<close>

lemma inspected_owner:
  assumes inv: "lease_inv s" and f: "lock_file s = Some (creator, LeaseText r)"
  shows "owned_by s ((=) (hostname r, pid r))"
proof -
  have "(hostname r, pid r) = process_of y" if "calls s creator = Some y" "owns_file (phase_of y)" for y
    using lease_invD [OF inv that(1)] that(2) f by (auto simp: call_inv_def names_def split: if_splits)
  with f show ?thesis by (auto simp: owned_by_def)
qed

text \<open>An owner of the file is alive; when the process that was read is not, there is no owner.\<close>

lemma dead_owner:
  assumes inv: "lease_inv s" and o: "owned_by s ((=) p)" and dead: "p \<notin> alive s"
  shows "owned_by s (\<lambda>_. False)"
proof -
  have "process_of y \<in> alive s" if "calls s own = Some y" "owns_file (phase_of y)" for own y
    using lease_invD [OF inv that(1)] that(2) by (auto simp: call_inv_def)
  with o dead show ?thesis unfolding owned_by_def by metis
qed

lemma owned_by_same: "lock_file s1 = lock_file s \<Longrightarrow> owns_file q = False \<Longrightarrow> calls s1 = calls s \<Longrightarrow> owned_by s P \<Longrightarrow> owned_by (go own q s1) P"
  unfolding owned_by_def by (auto split: if_splits)

lemma lease_inv_boot: "lease_inv s \<Longrightarrow> lease_inv (s\<lparr>alive := insert p (alive s)\<rparr>)"
  by (auto simp: lease_inv_def call_inv_def owned_by_def)

lemma lease_inv_crash:
  assumes inv: "lease_inv s"
  shows "lease_inv (s\<lparr>alive := alive s - {p},
    calls := (\<lambda>own. map_option (\<lambda>x. if process_of x = p then x\<lparr>phase_of := Ended\<rparr> else x) (calls s own))\<rparr>)" (is "lease_inv ?s")
  unfolding lease_inv_def
proof (intro allI impI)
  fix own x assume "calls ?s own = Some x"
  then obtain y where y: "calls s own = Some y" "x = (if process_of y = p then y\<lparr>phase_of := Ended\<rparr> else y)" by auto
  have ob: "owned_by ?s P" if o: "owned_by s P" for P
  proof -
    obtain creator t where c: "lock_file s = Some (creator, t)" "\<And>z. calls s creator = Some z \<Longrightarrow> owns_file (phase_of z) \<Longrightarrow> P (process_of z)"
      using o unfolding owned_by_def by blast
    then show ?thesis unfolding owned_by_def by (intro exI [of _ creator] exI [of _ t]) (auto split: if_splits)
  qed
  show "call_inv ?s own x"
    using lease_invD [OF inv y(1)] ob unfolding y(2) call_inv_def by (cases "process_of y = p") auto
qed

lemma lease_inv_call:
  assumes inv: "lease_inv s" and c: "calls s own = None" "process_of x \<in> alive s" "phase_of x = Starting"
  shows "lease_inv (s\<lparr>calls := (calls s)(own \<mapsto> x)\<rparr>)" (is "lease_inv ?s")
  unfolding lease_inv_def
proof (intro allI impI)
  fix o' y assume y: "calls ?s o' = Some y"
  have ob: "owned_by ?s P" if "owned_by s P" for P using that c unfolding owned_by_def by auto
  show "call_inv ?s o' y"
    using y c lease_invD [OF inv, of o' y] ob by (cases "o' = own") (auto simp: call_inv_def split: if_splits)
qed

lemma lease_inv_step:
  assumes inv: "lease_inv s" and steady: "steady_step s s'"
  shows "lease_inv s'"
proof -
  have kept: "lock_file s' = None \<Longrightarrow> lock_file s \<noteq> None \<Longrightarrow> \<not> inspected s" and step: "lease_step s s'"
    using steady by (auto simp: steady_step_def)
  note at = lease_inv_at [OF inv]
  note defs = call_inv_def file_change_def
  from step show ?thesis
  proof cases
    case (boot p)
    with inv show ?thesis by (simp add: lease_inv_boot)
  next
    case (crash p)
    with inv show ?thesis by (simp add: lease_inv_crash)
  next
    case (call own x)
    with inv show ?thesis by (simp add: lease_inv_call)
  next
    case (give_up own p)
    show ?thesis unfolding give_up(1) by (rule at [OF give_up(2)]) (auto simp: defs)
  next
    case (open_new own)
    show ?thesis unfolding open_new(1) by (rule at [OF open_new(2)]) (use open_new(3) in \<open>auto simp: defs\<close>)
  next
    case (open_exists own)
    show ?thesis unfolding open_exists(1) by (rule at [OF open_exists(2)]) (auto simp: defs)
  next
    case (write_new own at)
    show ?thesis unfolding write_new(1) by (rule at [OF write_new(2)]) (auto simp: call_inv_def write_handle_change names_new write_handle_owned)
  next
    case (write_failed own g)
    show ?thesis unfolding write_failed(1) by (rule at [OF write_failed(2)]) (auto simp: defs)
  next
    case (take_guard own)
    show ?thesis unfolding take_guard(1) by (rule at [OF take_guard(2)]) (use take_guard(3) in \<open>auto simp: defs\<close>)
  next
    case (read_old own r)
    obtain creator where "lock_file s = Some (creator, LeaseText r)" using read_old(3) by (auto simp: readLease_Inr)
    with inv have "owned_by s ((=) (hostname r, pid r))" by (rule inspected_owner)
    then show ?thesis unfolding read_old(1) by (intro at [OF read_old(2)]) (auto simp: defs owned_by_same)
  next
    case (clear own r at processAlive)
    have "(hostname r, pid r) \<notin> alive s" using clear(3,4) by (simp add: may_recover_def)
    moreover have "owned_by s ((=) (hostname r, pid r))" using lease_inv_expected [OF inv clear(2)] by simp
    ultimately have "owned_by s (\<lambda>_. False)" using inv by (intro dead_owner)
    then show ?thesis unfolding clear(1) by (intro at [OF clear(2)]) (auto simp: defs owned_by_same)
  next
    case (refuse own r at processAlive)
    show ?thesis unfolding refuse(1) by (rule at [OF refuse(2)]) (auto simp: defs)
  next
    case (recovery_failed own p)
    show ?thesis unfolding recovery_failed(1) by (rule at [OF recovery_failed(2)]) (use recovery_failed(3) in \<open>auto simp: defs\<close>)
  next
    case (guard_left own p)
    show ?thesis unfolding guard_left(1) by (rule at [OF guard_left(2)]) (auto simp: defs)
  next
    case (remove_old own)
    show ?thesis unfolding remove_old(1) by (rule at [OF remove_old(2)]) (auto simp: defs)
  next
    case (reopen own)
    show ?thesis unfolding reopen(1) by (rule at [OF reopen(2)]) (use reopen(3) in \<open>auto simp: defs\<close>)
  next
    case (write_recovered own at)
    show ?thesis unfolding write_recovered(1)
      by (rule at [OF write_recovered(2)]) (auto simp: call_inv_def write_handle_change names_new write_handle_owned)
  next
    case (drop_guard own)
    show ?thesis unfolding drop_guard(1) by (rule at [OF drop_guard(2)]) (auto simp: defs)
  next
    case (heartbeat own prior at nxt)
    show ?thesis unfolding heartbeat(1)
      by (rule at [OF heartbeat(2)]) (use heartbeat(3,4) in \<open>auto simp: defs readLease_Inr intro: names_renewal\<close>)
  next
    case (put_in_place own nxt)
    show ?thesis unfolding put_in_place(1) by (rule at [OF put_in_place(2)]) (auto simp: defs)
  next
    case (heartbeat_failed own nxt)
    show ?thesis unfolding heartbeat_failed(1) by (rule at [OF heartbeat_failed(2)]) (auto simp: defs)
  next
    case (finish own r)
    show ?thesis unfolding finish(1) by (rule at [OF finish(2)]) (auto simp: defs)
  next
    case (lost own e)
    show ?thesis unfolding lost(1) by (rule at [OF lost(2)]) (auto simp: defs)
  next
    case (remove_own own)
    show ?thesis unfolding remove_own(1) by (rule at [OF remove_own(2)]) (use kept remove_own(1) in \<open>auto simp: defs\<close>)
  qed
qed

text \<open>Steps that do not remove a file are steady.\<close>

lemma steady_free: "lease_step s s' \<Longrightarrow> lock_file s = None \<or> lock_file s' \<noteq> None \<Longrightarrow> steady_step s s'"
  by (auto simp: steady_step_def)

lemma lease_inv_initial: "lease_inv no_lock"
  by (simp add: lease_inv_def no_lock_def)

interpretation lock: transition_system steady_step no_lock lease_inv
  by unfold_locales (rule lease_inv_initial, rule lease_inv_step)

section \<open>Two sample executions\<close>

text \<open>Three calls in three processes of one host.\<close>

definition lease_id :: "nat \<Rightarrow> string" where
  "lease_id n = demo_uuid (if n = 0 then CHR ''a'' else if n = 1 then CHR ''b'' else CHR ''c'')"

definition demo_config :: "nat \<Rightarrow> CampaignRunLease" where
  "demo_config n = \<lparr>leaseMs = 90000, heartbeatMs = 20000, own_hostname = ''host'', own_pid = 7 + int n\<rparr>"

definition demo_call :: "nat \<Rightarrow> phase \<Rightarrow> run_state" where
  "demo_call n p = \<lparr>config = demo_config n, phase_of = p\<rparr>"

definition three :: "(string \<times> lock_text) option \<Rightarrow> string option \<Rightarrow> (string \<times> int) set \<Rightarrow> phase \<Rightarrow> phase \<Rightarrow> phase \<Rightarrow> lock_state" where
  "three f g al p q r = \<lparr>lock_file = f, guard = g, alive = al,
     calls = (\<lambda>own. if own = lease_id 0 then Some (demo_call 0 p) else if own = lease_id 1 then Some (demo_call 1 q)
       else if own = lease_id 2 then Some (demo_call 2 r) else None)\<rparr>"

abbreviation demo_lease :: "nat \<Rightarrow> int \<Rightarrow> RunLeaseRecord" where
  "demo_lease n at \<equiv> new_lease (demo_config n) (lease_id n) at"

abbreviation leased :: "nat \<Rightarrow> int \<Rightarrow> (string \<times> lock_text) option" where
  "leased n at \<equiv> Some (lease_id n, LeaseText (demo_lease n at))"

definition three_alive :: "(string \<times> int) set" where
  "three_alive = {(''host'', 7), (''host'', 8), (''host'', 9)}"

lemma lease_id_eq [simp]: "lease_id 0 \<noteq> lease_id (Suc 0)" "lease_id 0 \<noteq> lease_id 2" "lease_id (Suc 0) \<noteq> lease_id 2"
  "lease_id (Suc 0) \<noteq> lease_id 0" "lease_id 2 \<noteq> lease_id 0" "lease_id 2 \<noteq> lease_id (Suc 0)"
  by (simp_all add: lease_id_def demo_uuid_def)

lemma three_simps [simp]:
  "lock_file (three f g al p q r) = f" "guard (three f g al p q r) = g" "alive (three f g al p q r) = al"
  "(three f g al p q r)\<lparr>lock_file := f'\<rparr> = three f' g al p q r" "(three f g al p q r)\<lparr>guard := g'\<rparr> = three f g' al p q r"
  "unguard (three f g al p q r) = three f None al p q r"
  by (simp_all add: three_def unguard_def)

lemma three_calls [simp]: "calls (three f g al p q r) (lease_id 0) = Some (demo_call 0 p)"
  "calls (three f g al p q r) (lease_id (Suc 0)) = Some (demo_call 1 q)" "calls (three f g al p q r) (lease_id 2) = Some (demo_call 2 r)"
  by (simp_all add: three_def)

lemma demo_call_simps [simp]: "config (demo_call n p) = demo_config n" "phase_of (demo_call n p) = p" "(demo_call n p)\<lparr>phase_of := q\<rparr> = demo_call n q"
  "process_of (demo_call n p) = (''host'', 7 + int n)"
  by (simp_all add: demo_call_def process_of_def demo_config_def)

lemma three_go [simp]:
  "go (lease_id 0) p' (three f g al p q r) = three f g al p' q r"
  "go (lease_id (Suc 0)) p' (three f g al p q r) = three f g al p p' r"
  "go (lease_id 2) p' (three f g al p q r) = three f g al p q p'"
  by (auto simp: go_def three_def fun_eq_iff)

lemma three_write [simp]:
  "write_handle own l (three (Some (own, t)) g al p q r) = three (Some (own, LeaseText l)) g al p q r"
  by (simp add: write_handle_def)

lemma lease_id_test [simp]: "UUID_test (lease_id n)"
proof -
  have "UUID_test (demo_uuid (CHR ''a''))" "UUID_test (demo_uuid (CHR ''b''))" "UUID_test (demo_uuid (CHR ''c''))" by code_simp+
  then show ?thesis by (simp add: lease_id_def)
qed

lemma demo_lease_simps [simp]: "ownerId (demo_lease n at) = lease_id n" "hostname (demo_lease n at) = ''host''" "pid (demo_lease n at) = 7 + int n"
  "expiresAt (demo_lease n at) = at + 90000" "own_hostname (demo_config n) = ''host''"
  by (simp_all add: new_lease_def demo_config_def)

lemma readLease_first [simp]: "readLease (Some (LeaseText (demo_lease 0 1))) = Inr (demo_lease 0 1)"
  by (simp add: readLease_def valid_lease_def isSafeInteger_def new_lease_def demo_config_def)

lemma three_start: "steady_step\<^sup>*\<^sup>* no_lock (three None None three_alive Starting Starting Starting)"
proof -
  let ?b = "\<lambda>al. no_lock\<lparr>alive := al\<rparr>"
  let ?c0 = "(?b three_alive)\<lparr>calls := [lease_id 0 \<mapsto> demo_call 0 Starting]\<rparr>"
  let ?c1 = "?c0\<lparr>calls := (calls ?c0)(lease_id 1 \<mapsto> demo_call 1 Starting)\<rparr>"
  let ?c2 = "?c1\<lparr>calls := (calls ?c1)(lease_id 2 \<mapsto> demo_call 2 Starting)\<rparr>"
  note quiet = steady_free
  have "steady_step no_lock (?b {(''host'', 9)})" using boot [of no_lock "(''host'', 9)"] by (intro quiet) (simp_all add: no_lock_def)
  moreover have "steady_step (?b {(''host'', 9)}) (?b {(''host'', 8), (''host'', 9)})"
    using boot [of "?b {(''host'', 9)}" "(''host'', 8)"] by (intro quiet) (simp_all add: no_lock_def)
  moreover have "steady_step (?b {(''host'', 8), (''host'', 9)}) (?b three_alive)"
    using boot [of "?b {(''host'', 8), (''host'', 9)}" "(''host'', 7)"] by (intro quiet) (simp_all add: no_lock_def three_alive_def)
  moreover have "steady_step (?b three_alive) ?c0"
    using call [of "?b three_alive" "lease_id 0" "demo_call 0 Starting"] by (intro quiet) (simp_all add: no_lock_def three_alive_def)
  moreover have "steady_step ?c0 ?c1"
    using call [of ?c0 "lease_id 1" "demo_call 1 Starting"] by (intro quiet) (simp_all add: no_lock_def three_alive_def)
  moreover have last: "steady_step ?c1 ?c2"
    using call [of ?c1 "lease_id 2" "demo_call 2 Starting"] by (intro quiet) (simp_all add: no_lock_def three_alive_def)
  ultimately have "steady_step\<^sup>*\<^sup>* no_lock ?c2" by (meson rtranclp.rtrancl_into_rtrancl rtranclp.rtrancl_refl)
  moreover have "?c2 = three None None three_alive Starting Starting Starting"
    by (simp add: three_def no_lock_def fun_eq_iff)
  ultimately show ?thesis by simp
qed

text \<open>The first call acquires the lock, and the third finds it and takes the recovery guard.\<close>

abbreviation contended :: "phase \<Rightarrow> phase \<Rightarrow> lock_state" where
  "contended p r \<equiv> three (leased 0 1) (if holds_guard r then Some (lease_id 2) else None) three_alive p Starting r"

lemma contended_reachable: "steady_step\<^sup>*\<^sup>* no_lock (contended (Running None) Guarded)"
proof -
  note three_start
  also have "steady_step (three None None three_alive Starting Starting Starting) (three (Some (lease_id 0, OtherText)) None three_alive (Opened False) Starting Starting)"
    using open_new [of "three None None three_alive Starting Starting Starting" "lease_id 0"] by (intro steady_free) (simp_all add: at_phase_def)
  also have "steady_step \<dots> (contended (Running None) Starting)"
    using write_new [of "three (Some (lease_id 0, OtherText)) None three_alive (Opened False) Starting Starting" "lease_id 0" 1]
    by (intro steady_free) (simp_all add: at_phase_def)
  also have "steady_step \<dots> (contended (Running None) Contending)"
    using open_exists [of "contended (Running None) Starting" "lease_id 2"] by (intro steady_free) (simp_all add: at_phase_def)
  also have "steady_step \<dots> (contended (Running None) Guarded)"
    using take_guard [of "contended (Running None) Contending" "lease_id 2"] by (intro steady_free) (simp_all add: at_phase_def)
  finally show ?thesis .
qed

text \<open>A recovery: the process of the first call dies, and the third call reads, checks and replaces its lease.\<close>

abbreviation two_alive :: "(string \<times> int) set" where
  "two_alive \<equiv> {(''host'', 8), (''host'', 9)}"

definition demo_recovered :: lock_state where
  "demo_recovered = three (leased 2 90003) None two_alive Ended Starting (Running None)"

lemma three_crash: "lease_step (three f g three_alive p q r) (three f g two_alive Ended q r)"
proof -
  have eq: "three f g two_alive Ended q r = (three f g three_alive p q r)\<lparr>alive := alive (three f g three_alive p q r) - {(''host'', 7)},
    calls := (\<lambda>own. map_option (\<lambda>x. if process_of x = (''host'', 7) then x\<lparr>phase_of := Ended\<rparr> else x) (calls (three f g three_alive p q r) own))\<rparr>"
    by (auto simp: three_def three_alive_def fun_eq_iff)
  show ?thesis unfolding eq by (rule crash)
qed

lemma steady_lease: "steady_step\<^sup>*\<^sup>* s s' \<Longrightarrow> lease_step\<^sup>*\<^sup>* s s'"
  by (erule rtranclp_mono [THEN predicate2D, rotated]) (auto simp: steady_step_def)

text \<open>From the inspection of the first lease on, whatever the file is by then, once the process it names is gone.\<close>

lemma recovery_completes:
  assumes g: "g = Some (lease_id 2)" and q: "\<And>l. q \<noteq> Inspecting l"
  shows "steady_step\<^sup>*\<^sup>* (three (Some f) g two_alive Ended q (Inspecting (demo_lease 0 1))) (three (leased 2 90003) None two_alive Ended q (Running None))"
proof -
  let ?t = "\<lambda>f r. three f g two_alive Ended q r"
  have free: "\<not> inspected (?t (Some f) Cleared)" using q by (auto simp: inspected_def at_phase_def three_def split: if_splits)
  have "steady_step\<^sup>*\<^sup>* (?t (Some f) (Inspecting (demo_lease 0 1))) (?t (Some f) (Inspecting (demo_lease 0 1)))" by simp
  also have "steady_step \<dots> (?t (Some f) Cleared)"
    using clear [of "?t (Some f) (Inspecting (demo_lease 0 1))" "lease_id 2" "demo_lease 0 1" 90003 False]
    by (intro steady_free) (simp_all add: at_phase_def may_recover_def)
  also have "steady_step \<dots> (?t None Removed)"
    using remove_old [of "?t (Some f) Cleared" "lease_id 2"] free by (simp add: at_phase_def steady_step_def)
  also have "steady_step \<dots> (?t (Some (lease_id 2, OtherText)) (Opened True))"
    using reopen [of "?t None Removed" "lease_id 2"] by (intro steady_free) (simp_all add: at_phase_def)
  also have "steady_step \<dots> (?t (leased 2 90003) Written)"
    using write_recovered [of "?t (Some (lease_id 2, OtherText)) (Opened True)" "lease_id 2" 90003] by (intro steady_free) (simp_all add: at_phase_def)
  also have "steady_step \<dots> (three (leased 2 90003) None two_alive Ended q (Running None))"
    using drop_guard [of "?t (leased 2 90003) Written" "lease_id 2"] by (intro steady_free) (simp_all add: at_phase_def)
  finally show ?thesis .
qed

lemma recovered_reachable: "steady_step\<^sup>*\<^sup>* no_lock demo_recovered"
proof -
  note contended_reachable
  also have "steady_step (contended (Running None) Guarded) (contended (Running None) (Inspecting (demo_lease 0 1)))"
    using read_old [of "contended (Running None) Guarded" "lease_id 2" "demo_lease 0 1"] by (intro steady_free) (simp_all add: at_phase_def)
  also have "steady_step \<dots> (three (leased 0 1) (Some (lease_id 2)) two_alive Ended Starting (Inspecting (demo_lease 0 1)))"
    using three_crash [of "leased 0 1"] by (intro steady_free) simp_all
  finally have "steady_step\<^sup>*\<^sup>* no_lock (three (leased 0 1) (Some (lease_id 2)) two_alive Ended Starting (Inspecting (demo_lease 0 1)))" .
  then show ?thesis unfolding demo_recovered_def by (rule rtranclp_trans) (rule recovery_completes, simp_all)
qed

text \<open>
  The same beginning, but the first call releases its lock and its process ends after the third has read the lease; the second call
  then acquires the lock, and the third removes it: the process it looks for is gone.
\<close>

definition demo_race :: lock_state where
  "demo_race = three (leased 2 90003) None two_alive Ended (Running None) (Running None)"

lemma race_reachable: "lease_step\<^sup>*\<^sup>* no_lock demo_race"
proof -
  let ?i = "Inspecting (demo_lease 0 1)" and ?g = "Some (lease_id 2)"
  note steady_lease [OF contended_reachable]
  also have "lease_step (contended (Running None) Guarded) (contended (Running None) ?i)"
    using read_old [of "contended (Running None) Guarded" "lease_id 2" "demo_lease 0 1"] by (simp add: at_phase_def)
  also have "lease_step \<dots> (contended Releasing ?i)"
    using finish [of "contended (Running None) ?i" "lease_id 0" "demo_lease 0 1"] by (simp add: at_phase_def)
  also have "lease_step \<dots> (three None ?g three_alive Ended Starting ?i)"
    using remove_own [of "contended Releasing ?i" "lease_id 0"] by (simp add: at_phase_def)
  also have "lease_step \<dots> (three None ?g two_alive Ended Starting ?i)" by (rule three_crash)
  also have "lease_step \<dots> (three (Some (lease_id 1, OtherText)) ?g two_alive Ended (Opened False) ?i)"
    using open_new [of "three None ?g two_alive Ended Starting ?i" "lease_id 1"] by (simp add: at_phase_def)
  also have "lease_step \<dots> (three (leased 1 90002) ?g two_alive Ended (Running None) ?i)"
    using write_new [of "three (Some (lease_id 1, OtherText)) ?g two_alive Ended (Opened False) ?i" "lease_id 1" 90002] by (simp add: at_phase_def)
  finally have "lease_step\<^sup>*\<^sup>* no_lock (three (leased 1 90002) ?g two_alive Ended (Running None) ?i)" .
  then show ?thesis unfolding demo_race_def by (rule rtranclp_trans) (rule steady_lease [OF recovery_completes], simp_all)
qed

section \<open>Properties\<close>

text \<open>
  C6. Mutual exclusion. However the calls of any processes on any hosts interleave, with crashes at any point, reused process
  numbers, expired leases, failing file operations and several processes trying to recover, at most one call of \<open>run\<close> on a lock path is running its
  task or releasing, as long as no call releases its lock between the moment a recoverer reads the lock file and the moment it checks what
  it read. The process of that call is alive, and the lock file names the call and its process; so a lease is never taken from a
  live owner, whatever the clocks say. Without the condition two calls can run at once (\<open>race_reachable\<close>).
\<close>

theorem lease_mutual_exclusion:
  assumes "steady_step\<^sup>*\<^sup>* no_lock s" and "calls s a = Some x" and "calls s b = Some y"
    and "phase_of x \<in> {Running n, Releasing}" and "phase_of y \<in> {Running m, Releasing}"
  shows "a = b \<and> process_of x \<in> alive s \<and>
    (\<exists>r. lock_file s = Some (a, LeaseText r) \<and> ownerId r = a \<and> (hostname r, pid r) = process_of x)"
proof -
  note inv = lock.reachable_inv [OF assms(1)]
  from lease_invD [OF inv assms(2)] assms(4) have x: "process_of x \<in> alive s" "\<exists>r. lock_file s = Some (a, LeaseText r) \<and> names x a r"
    by (auto simp: call_inv_def)
  from lease_invD [OF inv assms(3)] assms(5) have "\<exists>t. lock_file s = Some (b, t)" by (auto simp: call_inv_def)
  with x show ?thesis by (auto simp: names_def)
qed

theorem lease_mutual_exclusion_witness:
  "(''host'', 9) \<in> alive demo_recovered \<and> (\<exists>r. lock_file demo_recovered = Some (lease_id 2, LeaseText r) \<and> (hostname r, pid r) = (''host'', 9))"
  using lease_mutual_exclusion [OF recovered_reachable, of "lease_id 2" "demo_call 2 (Running None)" "lease_id 2" "demo_call 2 (Running None)" None None]
  by (simp add: demo_recovered_def)


end
