(* ===== verification/CampaignClaims.thy ===== *)
theory CampaignClaims
  imports CampaignLedger
begin

text \<open>
  The reservation of a workspace by a campaign that changes it,
  \<open>services/workspace-agent/src/campaign/campaign-resource-claims.ts\<close>. The files of the claim directory are a map from paths to
  contents; what the outside decides in one call (the fate of the admission lock, a failing file operation) is its argument.
\<close>

section \<open>Data\<close>

record ResourceClaim =
  rc_version :: int
  workspaceKeyDigest :: string
  rc_ownerScopeHash :: string
  rc_campaignId :: string
  rc_definitionDigest :: string

text \<open>A claim file: an object with these fields, another JSON value, or text that does not parse or cannot be read.\<close>

datatype claim_text = ClaimText ResourceClaim | OtherValue | BadText

type_synonym claim_files = "(string, claim_text) jsMap"

datatype file_outcome = FileOk | OpenFails string | WriteFails string

record claim_io =
  admission :: lease_view
  outcome :: file_outcome

definition MUTATION_EXEMPT :: "string list" where
  "MUTATION_EXEMPT = [''inspect'', ''ci'']"

definition needsReservation :: "'s CampaignRecord \<Rightarrow> bool" where
  "needsReservation r = list_ex (\<lambda>t. action t \<notin> set MUTATION_EXEMPT) (tasks r)"

section \<open>Operations\<close>

definition new_claims :: "host \<Rightarrow> string \<Rightarrow> campaign_error + string" where
  "new_claims H stateDirectory =
    ensure (path_isAbsolute H stateDirectory) ''resource claim directory must be absolute''
    (Inr (path_join H stateDirectory ''delegated-campaign-resource-claims''))"

definition claim_file :: "host \<Rightarrow> string \<Rightarrow> string \<Rightarrow> campaign_error + string" where
  "claim_file H dir key =
    ensure (path_isAbsolute H key) ''canonical workspace root'' (Inr (path_join H dir (sha256 H key @ ''.json'')))"

definition claim_of :: "host \<Rightarrow> string \<Rightarrow> 's CampaignRecord \<Rightarrow> ResourceClaim" where
  "claim_of H key r = \<lparr>rc_version = 1, workspaceKeyDigest = sha256 H key, rc_ownerScopeHash = ownerScopeHash r, rc_campaignId = campaignId r,
     rc_definitionDigest = definitionDigest r\<rparr>"

definition expected :: "host \<Rightarrow> string \<Rightarrow> 's CampaignRecord \<Rightarrow> campaign_error + ResourceClaim" where
  "expected H key r =
    ensure (SHA256_test (ownerScopeHash r) \<and> SHA256_test (definitionDigest r) \<and> UUID_test (campaignId r)) ''persistently bound identity''
    (Inr (claim_of H key r))"

definition read_claim :: "claim_files \<Rightarrow> string \<Rightarrow> campaign_error + claim_text option" where
  "read_claim fs f = (case Map_get fs f of None \<Rightarrow> Inr None | Some BadText \<Rightarrow> Inl CAMPAIGN_RESOURCE_CLAIM_INVALID | Some v \<Rightarrow> Inr (Some v))"

definition claim_matches :: "claim_text \<Rightarrow> ResourceClaim \<Rightarrow> bool" where
  "claim_matches v c = (case v of ClaimText a \<Rightarrow> rc_version a = 1 \<and> workspaceKeyDigest a = workspaceKeyDigest c \<and>
     rc_ownerScopeHash a = rc_ownerScopeHash c \<and> rc_campaignId a = rc_campaignId c \<and> rc_definitionDigest a = rc_definitionDigest c
   | _ \<Rightarrow> False)"

text \<open>Creating the file exclusively: a failed write leaves an empty file.\<close>

definition write_claim :: "claim_io \<Rightarrow> string \<Rightarrow> ResourceClaim \<Rightarrow> claim_files \<Rightarrow> (campaign_error + unit) \<times> claim_files" where
  "write_claim e f c fs = (case outcome e of
     FileOk \<Rightarrow> (Inr (), Map_set fs f (ClaimText c))
   | OpenFails code \<Rightarrow> (Inl (SystemError code), fs)
   | WriteFails code \<Rightarrow> (Inl (SystemError code), Map_set fs f BadText))"

definition reserve_body :: "claim_io \<Rightarrow> string \<Rightarrow> ResourceClaim \<Rightarrow> claim_files \<Rightarrow> (campaign_error + unit) \<times> claim_files" where
  "reserve_body e f c fs =
    (case read_claim fs f of
       Inl err \<Rightarrow> (Inl err, fs)
     | Inr (Some prior) \<Rightarrow> (if claim_matches prior c then Inr () else Inl CAMPAIGN_RESOURCE_CONFLICT, fs)
     | Inr None \<Rightarrow> write_claim e f c fs)"

definition reserve :: "host \<Rightarrow> string \<Rightarrow> claim_io \<Rightarrow> string \<Rightarrow> 's CampaignRecord \<Rightarrow> claim_files \<Rightarrow> (campaign_error + unit) \<times> claim_files" where
  "reserve H dir e key r fs =
    (if \<not> needsReservation r then (Inr (), fs)
     else (case expected H key r of
       Inl err \<Rightarrow> (Inl err, fs)
     | Inr c \<Rightarrow> (case claim_file H dir key of
         Inl err \<Rightarrow> (Inl err, fs)
       | Inr f \<Rightarrow> under_lease (admission e) (reserve_body e f c) fs)))"

definition all_verified :: "CampaignTaskState CampaignRecord \<Rightarrow> bool" where
  "all_verified r = list_all (\<lambda>t. state t = Completed \<and> (case proof_of t of None \<Rightarrow> False | Some p \<Rightarrow> kind p = ''verified'')) (tasks r)"

text \<open>The valid claim of another campaign on the same workspace.\<close>

definition other_claim :: "claim_text \<Rightarrow> ResourceClaim \<Rightarrow> bool" where
  "other_claim v c = (case v of ClaimText a \<Rightarrow> rc_version a = 1 \<and> workspaceKeyDigest a = workspaceKeyDigest c \<and>
     UUID_test (rc_campaignId a) \<and> rc_campaignId a \<noteq> rc_campaignId c \<and> SHA256_test (rc_ownerScopeHash a) \<and> SHA256_test (rc_definitionDigest a)
   | _ \<Rightarrow> False)"

definition release_body :: "claim_io \<Rightarrow> string \<Rightarrow> ResourceClaim \<Rightarrow> claim_files \<Rightarrow> (campaign_error + unit) \<times> claim_files" where
  "release_body e f c fs =
    (case read_claim fs f of
       Inl err \<Rightarrow> (Inl err, fs)
     | Inr None \<Rightarrow> (Inr (), fs)
     | Inr (Some prior) \<Rightarrow>
         if \<not> claim_matches prior c then (if other_claim prior c then Inr () else Inl CAMPAIGN_RESOURCE_CLAIM_MISMATCH, fs)
         else (case outcome e of FileOk \<Rightarrow> (Inr (), Map_delete fs f) | OpenFails code \<Rightarrow> (Inl (SystemError code), fs)
                 | WriteFails code \<Rightarrow> (Inl (SystemError code), fs)))"

definition releaseCompleted :: "host \<Rightarrow> string \<Rightarrow> claim_io \<Rightarrow> string \<Rightarrow> CampaignTaskState CampaignRecord \<Rightarrow> claim_files \<Rightarrow>
    (campaign_error + unit) \<times> claim_files" where
  "releaseCompleted H dir e key r fs =
    (if \<not> needsReservation r then (Inr (), fs)
     else if \<not> all_verified r then (Inl CAMPAIGN_RESOURCE_INCOMPLETE, fs)
     else (case expected H key r of
       Inl err \<Rightarrow> (Inl err, fs)
     | Inr c \<Rightarrow> under_lease (admission e) (\<lambda>fs. case claim_file H dir key of Inl err \<Rightarrow> (Inl err, fs) | Inr f \<Rightarrow> release_body e f c fs) fs))"

section \<open>A claim stays\<close>

definition same_campaign :: "'s CampaignRecord \<Rightarrow> 't CampaignRecord \<Rightarrow> bool" where
  "same_campaign q r = (ownerScopeHash q = ownerScopeHash r \<and> campaignId q = campaignId r \<and> definitionDigest q = definitionDigest r)"

lemma claim_matches_same:
  "claim_matches (ClaimText (claim_of H key r)) (claim_of H key' q) \<Longrightarrow> same_campaign q r"
  by (simp add: claim_matches_def claim_of_def same_campaign_def)

lemma claim_matches_iff:
  "claim_matches (ClaimText (claim_of H key r)) (claim_of H key q) \<longleftrightarrow> same_campaign q r"
  by (auto simp: claim_matches_def claim_of_def same_campaign_def)

lemma under_lease_keeps:
  "Map_get (snd (fn fs)) f = v \<Longrightarrow> Map_get fs f = v \<Longrightarrow> Map_get (snd (under_lease l fn fs)) f = v"
  by (cases l) (simp_all add: under_lease_def)

lemma expected_Inr: "expected H key r = Inr c \<Longrightarrow> c = claim_of H key r"
  by (simp add: expected_def)

lemma reserve_keeps:
  assumes "Map_get fs f = Some (ClaimText c)"
  shows "Map_get (snd (reserve H dir e key q fs)) f = Some (ClaimText c)"
proof -
  have body: "Map_get (snd (reserve_body e g c' fs)) f = Some (ClaimText c)" for g c'
  proof (cases "Map_get fs g")
    case None
    with assms show ?thesis
      by (cases "outcome e") (auto simp: reserve_body_def read_claim_def write_claim_def Map_get_set)
  next
    case (Some v)
    with assms show ?thesis by (cases v) (auto simp: reserve_body_def read_claim_def)
  qed
  have "Map_get (snd (under_lease (admission e) (reserve_body e g c') fs)) f = Some (ClaimText c)" for g c'
    using body assms by (rule under_lease_keeps)
  with assms show ?thesis
    by (cases "expected H key q"; cases "claim_file H dir key") (simp_all add: reserve_def)
qed

lemma release_keeps:
  assumes "Map_get fs f = Some (ClaimText (claim_of H key r))" and "same_campaign q r \<Longrightarrow> \<not> all_verified q"
  shows "Map_get (snd (releaseCompleted H dir e key' q fs)) f = Some (ClaimText (claim_of H key r))"
proof (cases "needsReservation q \<and> all_verified q")
  case True
  then have other: "\<not> same_campaign q r" using assms(2) by blast
  have body: "Map_get (snd (release_body e g (claim_of H key' q) fs)) f = Some (ClaimText (claim_of H key r))" for g
  proof (cases "Map_get fs g")
    case (Some v)
    have "g \<noteq> f" if "claim_matches v (claim_of H key' q)"
    proof
      assume "g = f"
      with Some assms(1) that have "claim_matches (ClaimText (claim_of H key r)) (claim_of H key' q)" by simp
      with other show False using claim_matches_same by blast
    qed
    with Some assms(1) show ?thesis
      by (cases v; cases "outcome e") (auto simp: release_body_def read_claim_def Map_get_delete)
  qed (use assms(1) in \<open>simp add: release_body_def read_claim_def\<close>)
  let ?fn = "\<lambda>fs. case claim_file H dir key' of Inl err \<Rightarrow> (Inl err, fs) | Inr g \<Rightarrow> release_body e g (claim_of H key' q) fs"
  have "Map_get (snd (?fn fs)) f = Some (ClaimText (claim_of H key r))"
    using body assms(1) by (cases "claim_file H dir key'") simp_all
  then have "Map_get (snd (under_lease (admission e) ?fn fs)) f = Some (ClaimText (claim_of H key r))"
    using assms(1) by (rule under_lease_keeps)
  then show ?thesis
    using True assms(1) expected_Inr [of H key' q] by (cases "expected H key' q") (simp_all add: releaseCompleted_def)
qed (use assms(1) in \<open>auto simp: releaseCompleted_def\<close>)

datatype claim_call = Reserve claim_io string "CampaignTaskState CampaignRecord" | Release claim_io string "CampaignTaskState CampaignRecord"

fun claim_call_files :: "host \<Rightarrow> string \<Rightarrow> claim_call \<Rightarrow> claim_files \<Rightarrow> claim_files" where
  "claim_call_files H dir (Reserve e key q) fs = snd (reserve H dir e key q fs)"
| "claim_call_files H dir (Release e key q) fs = snd (releaseCompleted H dir e key q fs)"

fun releases :: "'s CampaignRecord \<Rightarrow> claim_call \<Rightarrow> bool" where
  "releases r (Reserve e key q) = False"
| "releases r (Release e key q) = (same_campaign q r \<and> all_verified q)"

lemma calls_keep:
  "Map_get fs f = Some (ClaimText (claim_of H key r)) \<Longrightarrow> list_all (\<lambda>c. \<not> releases r c) cs \<Longrightarrow>
    Map_get (fold (claim_call_files H dir) cs fs) f = Some (ClaimText (claim_of H key r))"
proof (induction cs arbitrary: fs)
  case (Cons c cs)
  have "Map_get (claim_call_files H dir c fs) f = Some (ClaimText (claim_of H key r))"
    using Cons.prems by (cases c) (auto simp: reserve_keeps intro!: release_keeps)
  with Cons show ?case by simp
qed simp

lemma reserve_done:
  assumes "reserve H dir e key r fs = (Inr (), fs')" and "needsReservation r"
  obtains f where "claim_file H dir key = Inr f" "Map_get fs' f = Some (ClaimText (claim_of H key r))"
proof -
  obtain c f where c: "expected H key r = Inr c" and f: "claim_file H dir key = Inr f"
    "under_lease (admission e) (reserve_body e f c) fs = (Inr (), fs')"
    using assms by (auto simp: reserve_def split: sum.splits)
  note f = f [unfolded expected_Inr [OF c]]
  then have b: "reserve_body e f (claim_of H key r) fs = (Inr (), fs')" by (cases "admission e") (auto simp: under_lease_def)
  have "Map_get fs' f = Some (ClaimText (claim_of H key r))"
  proof (cases "Map_get fs f")
    case None
    with b show ?thesis by (cases "outcome e") (auto simp: reserve_body_def read_claim_def write_claim_def Map_get_set)
  next
    case (Some v)
    with b obtain c where "v = ClaimText c" "claim_matches v (claim_of H key r)" "fs' = fs"
      by (cases v) (auto simp: reserve_body_def read_claim_def claim_matches_def split: if_splits)
    moreover then have "c = claim_of H key r" by (cases c) (simp add: claim_matches_def claim_of_def)
    ultimately show ?thesis using Some by simp
  qed
  with f that show thesis by blast
qed

section \<open>Properties\<close>

definition demo_claim_io :: claim_io where
  "demo_claim_io = \<lparr>admission = Held, outcome = FileOk\<rparr>"

abbreviation demo_other :: "CampaignTaskState CampaignRecord" where
  "demo_other \<equiv> demo_record\<lparr>campaignId := demo_uuid (CHR ''9'')\<rparr>"

lemma demo_claims:
  "needsReservation demo_record" "needsReservation demo_other"
  "expected demo_host ''/ws'' demo_record = Inr (claim_of demo_host ''/ws'' demo_record)"
  "expected demo_host ''/ws'' demo_other = Inr (claim_of demo_host ''/ws'' demo_other)"
  "\<not> same_campaign demo_other demo_record"
proof -
  have "UUID_test (demo_uuid (CHR ''1''))" "UUID_test (demo_uuid (CHR ''9''))" by code_simp+
  moreover have "SHA256_test (lg_ownerScopeHash demo_ledger)" using demo_sha by (simp add: demo_ledger_def demo_host_def)
  moreover have "SHA256_test (plan_digest demo_host n)" for n using demo_sha by (simp add: plan_digest_def)
  moreover have "in_campaignId demo_plan = demo_uuid (CHR ''1'')" by (simp add: demo_plan_def)
  ultimately show "expected demo_host ''/ws'' demo_record = Inr (claim_of demo_host ''/ws'' demo_record)"
    "expected demo_host ''/ws'' demo_other = Inr (claim_of demo_host ''/ws'' demo_other)"
    by (simp_all add: expected_def)
  show "needsReservation demo_record" "needsReservation demo_other"
    by (simp_all add: needsReservation_def demo_tasks demo_step_def MUTATION_EXEMPT_def)
  show "\<not> same_campaign demo_other demo_record" by (simp add: same_campaign_def demo_plan_def demo_uuid_def)
qed

lemma demo_reserved:
  "reserve demo_host ''/claims'' demo_claim_io ''/ws'' demo_record [] =
     (Inr (), snd (reserve demo_host ''/claims'' demo_claim_io ''/ws'' demo_record []))"
proof -
  obtain f where "claim_file demo_host ''/claims'' ''/ws'' = Inr f" by (simp add: claim_file_def demo_host_def)
  then have "fst (reserve demo_host ''/claims'' demo_claim_io ''/ws'' demo_record []) = Inr ()"
    by (simp add: reserve_def demo_claims demo_claim_io_def under_lease_def reserve_body_def read_claim_def write_claim_def)
  then show ?thesis by (metis prod.collapse)
qed

text \<open>
  C14. One campaign changes a workspace at a time. Once a campaign that changes its workspace has reserved it, the claim stays through every
  further sequence of reservations and releases, of any campaigns and workspaces, with refused or lost locks and failed file
  operations, until that campaign itself is released with all its tasks completed and verified. Until then a
  campaign of another owner, identity or plan that needs the workspace gets a conflict and changes nothing.
\<close>

theorem workspace_claim_exclusive:
  assumes "reserve H dir e key r fs = (Inr (), fs')" and "needsReservation r" and "list_all (\<lambda>c. \<not> releases r c) cs"
    and "needsReservation q" and "\<not> same_campaign q r" and "expected H key q = Inr c"
  shows "let fs1 = fold (claim_call_files H dir) cs fs'
    in \<forall>e'. \<exists>err. reserve H dir e' key q fs1 = (Inl err, fs1) \<and> (admission e' = Held \<longrightarrow> err = CAMPAIGN_RESOURCE_CONFLICT)"
proof -
  obtain f where f: "claim_file H dir key = Inr f" "Map_get fs' f = Some (ClaimText (claim_of H key r))"
    using reserve_done [OF assms(1,2)] by blast
  let ?fs = "fold (claim_call_files H dir) cs fs'"
  have "Map_get ?fs f = Some (ClaimText (claim_of H key r))" by (rule calls_keep [OF f(2) assms(3)])
  then have "reserve_body e' f (claim_of H key q) ?fs = (Inl CAMPAIGN_RESOURCE_CONFLICT, ?fs)" for e'
    using assms(5) by (simp add: reserve_body_def read_claim_def claim_matches_iff)
  then have "\<exists>err. reserve H dir e' key q ?fs = (Inl err, ?fs) \<and> (admission e' = Held \<longrightarrow> err = CAMPAIGN_RESOURCE_CONFLICT)" for e'
    using assms(4,6) f(1) expected_Inr [OF assms(6)] by (cases "admission e'") (simp_all add: reserve_def under_lease_def)
  then show ?thesis by (simp add: Let_def)
qed

theorem workspace_claim_exclusive_witness:
  "\<exists>fs. reserve demo_host ''/claims'' demo_claim_io ''/ws'' demo_other fs = (Inl CAMPAIGN_RESOURCE_CONFLICT, fs)"
proof -
  let ?fs = "snd (reserve demo_host ''/claims'' demo_claim_io ''/ws'' demo_record [])"
  have "list_all (\<lambda>c. \<not> releases demo_record c) []" by simp
  from workspace_claim_exclusive [OF demo_reserved demo_claims(1) this demo_claims(2,5,4)]
  have "\<exists>err. reserve demo_host ''/claims'' demo_claim_io ''/ws'' demo_other ?fs = (Inl err, ?fs) \<and>
      (admission demo_claim_io = Held \<longrightarrow> err = CAMPAIGN_RESOURCE_CONFLICT)"
    unfolding Let_def fold.simps id_apply by blast
  then show ?thesis by (auto simp: demo_claim_io_def)
qed

end
