(* ===== verification/NumberText.thy ===== *)
theory NumberText
  imports JsValue Json
begin

text \<open>
  The text of a finite number, the operation \<open>Number::toString\<close> of the language with radix 10, which \<open>JSON.stringify\<close> uses. Different
  numbers have different texts.
\<close>

section \<open>The text of a number\<close>

fun decimal :: "nat \<Rightarrow> string" where
  "decimal n = (if n < 10 then [hex_digit n] else decimal (n div 10) @ [hex_digit (n mod 10)])"

declare decimal.simps [simp del]

text \<open>The digits \<open>ds\<close> of the number, with the decimal point after the first \<open>n\<close> of them.\<close>

definition place_point :: "string \<Rightarrow> int \<Rightarrow> string" where
  "place_point ds n = (let k = int (length ds) in
     if k \<le> n \<and> n \<le> 21 then ds @ replicate (nat (n - k)) (CHR ''0'')
     else if 0 < n \<and> n \<le> 21 then take (nat n) ds @ CHR ''.'' # drop (nat n) ds
     else if - 6 < n \<and> n \<le> 0 then ''0.'' @ replicate (nat (- n)) (CHR ''0'') @ ds
     else (if k = 1 then ds else hd ds # CHR ''.'' # tl ds) @
       CHR ''e'' # (if 0 \<le> n - 1 then CHR ''+'' else CHR ''-'') # decimal (nat \<bar>n - 1\<bar>))"

definition number_text :: "int \<Rightarrow> int \<Rightarrow> string" where
  "number_text m e =
    (if m = 0 then ''0''
     else (let ds = decimal (nat \<bar>m\<bar>) in (if m < 0 then ''-'' else []) @ place_point ds (int (length ds) + e)))"

text \<open>The representation of a number with the shortest digits.\<close>

definition shortest :: "int \<Rightarrow> int \<Rightarrow> bool" where
  "shortest m e = (if m = 0 then e = 0 else m mod 10 \<noteq> 0)"

section \<open>Reading a number back\<close>

definition digit_char :: "char \<Rightarrow> bool" where
  "digit_char c = (c \<in> set ''0123456789'')"

definition digits_value :: "string \<Rightarrow> nat" where
  "digits_value ds = foldl (\<lambda>a c. 10 * a + hex_value c) 0 ds"

lemma digit_hex_digit: "n < 10 \<Longrightarrow> digit_char (hex_digit n)"
proof -
  have "list_all (\<lambda>n. digit_char (hex_digit n)) [0..<10]" by code_simp
  then show "n < 10 \<Longrightarrow> digit_char (hex_digit n)" by (simp add: list_all_iff)
qed

lemma hex_digit_zero: "n < 16 \<Longrightarrow> hex_digit n = CHR ''0'' \<longleftrightarrow> n = 0"
  by (metis hex_value_digit hex_digit_def nth_Cons_0 zero_less_numeral)

lemma decimal_digits: "decimal n \<noteq> [] \<and> list_all digit_char (decimal n)"
  by (induction n rule: decimal.induct) (subst (1 2) decimal.simps, simp add: digit_hex_digit)

lemma decimal_value: "digits_value (decimal n) = n"
proof (induction n rule: decimal.induct)
  case (1 n)
  then show ?case by (subst decimal.simps) (simp add: digits_value_def hex_value_digit)
qed

lemma decimal_hd: "0 < n \<Longrightarrow> hd (decimal n) \<noteq> CHR ''0''"
proof (induction n rule: decimal.induct)
  case (1 n)
  have "decimal (n div 10) \<noteq> []" using decimal_digits by blast
  with 1 show ?case by (subst decimal.simps) (auto simp: hex_digit_zero)
qed

lemma decimal_last: "n mod 10 \<noteq> 0 \<Longrightarrow> last (decimal n) \<noteq> CHR ''0''"
  by (subst decimal.simps) (auto simp: hex_digit_zero)

text \<open>The digits and the place of the point, from the text.\<close>

definition find_point :: "string \<Rightarrow> string \<times> int" where
  "find_point t = (let mant = takeWhile (\<lambda>c. c \<noteq> CHR ''e'') t; ex = drop (length mant) t;
       whole = takeWhile (\<lambda>c. c \<noteq> CHR ''.'') mant; frac = drop (Suc (length whole)) mant in
     if ex \<noteq> [] then (whole @ frac, 1 + (if ex ! 1 = CHR ''-'' then - int (digits_value (drop 2 ex)) else int (digits_value (drop 2 ex))))
     else if whole = ''0'' then (dropWhile (\<lambda>c. c = CHR ''0'') frac, - int (length (takeWhile (\<lambda>c. c = CHR ''0'') frac)))
     else (rev (dropWhile (\<lambda>c. c = CHR ''0'') (rev (whole @ frac))), int (length whole)))"

definition number_digits :: "string \<Rightarrow> bool" where
  "number_digits ds = (ds \<noteq> [] \<and> list_all digit_char ds \<and> hd ds \<noteq> CHR ''0'' \<and> last ds \<noteq> CHR ''0'')"

lemma takeWhile_stop: "list_all P xs \<Longrightarrow> takeWhile P (xs @ ys) = xs @ takeWhile P ys"
  by (induction xs) auto

lemma digits_no_point:
  assumes "list_all digit_char ds"
  shows "list_all (\<lambda>c. c \<noteq> CHR ''e'') ds \<and> list_all (\<lambda>c. c \<noteq> CHR ''.'') ds"
proof -
  have "\<not> digit_char (CHR ''e'')" "\<not> digit_char (CHR ''.'')" by (simp_all add: digit_char_def)
  with assms show ?thesis by (auto simp: list_all_iff)
qed

lemma list_all_take_drop: "list_all P ds \<Longrightarrow> list_all P (take n ds) \<and> list_all P (drop n ds)"
  by (auto simp: list_all_iff dest: in_set_takeD in_set_dropD)

lemma takeWhile_all: "list_all P xs \<Longrightarrow> takeWhile P xs = xs"
  by (simp add: list_all_iff takeWhile_eq_all_conv)

lemma dropWhile_zeros:
  assumes "ds \<noteq> []" and "hd ds \<noteq> z"
  shows "dropWhile (\<lambda>c. c = z) (replicate k z @ ds) = ds \<and> takeWhile (\<lambda>c. c = z) (replicate k z @ ds) = replicate k z"
proof -
  obtain d es where "ds = d # es" "d \<noteq> z" using assms by (cases ds) auto
  then show ?thesis by (induction k) auto
qed

lemma not_only_zero: "number_digits ds \<Longrightarrow> 0 < n \<Longrightarrow> take n ds @ xs \<noteq> ''0''"
  by (cases ds; cases n) (auto simp: number_digits_def)

abbreviation strip_zeros :: "string \<Rightarrow> string" where
  "strip_zeros ds \<equiv> rev (dropWhile (\<lambda>c. c = CHR ''0'') (rev ds))"

lemma find_point_whole:
  "list_all digit_char w \<Longrightarrow> w \<noteq> ''0'' \<Longrightarrow> find_point w = (strip_zeros w, int (length w))"
  using digits_no_point [of w] by (simp add: find_point_def Let_def takeWhile_all)

lemma find_point_fraction:
  assumes "list_all digit_char w" "list_all digit_char f"
  shows "find_point (w @ CHR ''.'' # f) =
    (if w = ''0'' then (dropWhile (\<lambda>c. c = CHR ''0'') f, - int (length (takeWhile (\<lambda>c. c = CHR ''0'') f)))
     else (strip_zeros (w @ f), int (length w)))"
proof -
  have t: "takeWhile (\<lambda>c. c \<noteq> CHR ''e'') (w @ CHR ''.'' # f) = w @ CHR ''.'' # f"
    "takeWhile (\<lambda>c. c \<noteq> CHR ''.'') (w @ CHR ''.'' # f) = w"
    using digits_no_point [OF assms(1)] digits_no_point [OF assms(2)] by (simp_all add: takeWhile_all takeWhile_stop)
  show ?thesis unfolding find_point_def Let_def t by simp
qed

lemma find_point_exponent:
  assumes "list_all digit_char w" "list_all digit_char f"
  shows "find_point ((if f = [] then w else w @ CHR ''.'' # f) @ CHR ''e'' # sign # ex) =
    (w @ f, 1 + (if sign = CHR ''-'' then - int (digits_value ex) else int (digits_value ex)))"
proof -
  let ?m = "if f = [] then w else w @ CHR ''.'' # f"
  have t: "takeWhile (\<lambda>c. c \<noteq> CHR ''e'') (?m @ CHR ''e'' # sign # ex) = ?m" "takeWhile (\<lambda>c. c \<noteq> CHR ''.'') ?m = w"
    using digits_no_point [OF assms(1)] digits_no_point [OF assms(2)] by (simp_all add: takeWhile_all takeWhile_stop)
  show ?thesis unfolding find_point_def Let_def t by simp
qed

lemma find_point_zero: "fst (find_point ''0'') = []"
  by (simp add: find_point_def)

lemma find_point_place:
  assumes "number_digits ds"
  shows "find_point (place_point ds n) = (ds, n)"
proof -
  let ?k = "int (length ds)"
  have ds: "ds \<noteq> []" "list_all digit_char ds" "hd ds \<noteq> CHR ''0''" "last ds \<noteq> CHR ''0''"
    using assms by (simp_all add: number_digits_def)
  note np = digits_no_point [OF ds(2)]
  have strip: "rev (dropWhile (\<lambda>c. c = CHR ''0'') (replicate j (CHR ''0'') @ rev ds)) = ds" for j
    using dropWhile_zeros [of "rev ds" "CHR ''0''" j] ds by (simp add: hd_rev)
  have zeros: "list_all digit_char (replicate j (CHR ''0''))" for j
    by (simp add: list_all_iff digit_char_def)
  consider (whole) "?k \<le> n" "n \<le> 21" | (inside) "n < ?k" "0 < n" "n \<le> 21" | (small) "- 6 < n" "n \<le> 0"
    | (exponent) "n \<le> - 6 \<or> 21 < n" by linarith
  then show ?thesis
  proof cases
    case whole
    have "ds @ replicate (nat (n - ?k)) (CHR ''0'') \<noteq> ''0''"
      using not_only_zero [OF assms, of "length ds"] ds(1) by simp
    with whole show ?thesis
      using find_point_whole [of "ds @ replicate (nat (n - ?k)) (CHR ''0'')"] strip ds(2) zeros by (simp add: place_point_def)
  next
    case inside
    have "place_point ds n = take (nat n) ds @ CHR ''.'' # drop (nat n) ds" using inside by (simp add: place_point_def)
    moreover have "take (nat n) ds \<noteq> ''0''" using not_only_zero [OF assms, of "nat n" "[]"] inside by simp
    ultimately show ?thesis
      using find_point_fraction list_all_take_drop [OF ds(2)] strip [of 0] inside by simp
  next
    case small
    have "place_point ds n = ''0'' @ CHR ''.'' # replicate (nat (- n)) (CHR ''0'') @ ds" using small ds(1) by (cases ds) (simp_all add: place_point_def)
    moreover have "list_all digit_char (replicate (nat (- n)) (CHR ''0'') @ ds)" "list_all digit_char ''0''"
      using ds(2) zeros by (simp_all add: digit_char_def)
    ultimately show ?thesis
      using find_point_fraction [of "''0''"] dropWhile_zeros [OF ds(1,3), of "nat (- n)"] small by simp
  next
    case exponent
    define sign where "sign = (if 0 \<le> n - 1 then CHR ''+'' else CHR ''-'')"
    obtain d es where de: "ds = d # es" using ds(1) by (cases ds) auto
    have "place_point ds n = (if es = [] then [d] else [d] @ CHR ''.'' # es) @ CHR ''e'' # sign # decimal (nat \<bar>n - 1\<bar>)"
      using exponent by (auto simp: de place_point_def Let_def sign_def)
    then have "find_point (place_point ds n) =
        (d # es, 1 + (if sign = CHR ''-'' then - int (nat \<bar>n - 1\<bar>) else int (nat \<bar>n - 1\<bar>)))"
      using find_point_exponent [of "[d]" es] ds(2) by (simp add: de decimal_value)
    then show ?thesis by (simp add: de sign_def)
  qed
qed

lemma number_digits_decimal:
  assumes "shortest m e" and "m \<noteq> 0"
  shows "number_digits (decimal (nat \<bar>m\<bar>))"
proof -
  have "m mod 10 \<noteq> 0" using assms by (simp add: shortest_def)
  then have "\<bar>m\<bar> mod 10 \<noteq> 0" by presburger
  then have "nat \<bar>m\<bar> mod 10 \<noteq> 0" by (metis abs_ge_zero int_nat_eq of_nat_0 of_nat_mod of_nat_numeral)
  with assms(2) decimal_last decimal_hd [of "nat \<bar>m\<bar>"] decimal_digits show ?thesis by (simp add: number_digits_def)
qed

lemma place_point_start: "number_digits ds \<Longrightarrow> place_point ds n \<noteq> [] \<and> digit_char (hd (place_point ds n))"
  by (cases ds; cases "nat n") (auto simp: place_point_def Let_def number_digits_def digit_char_def)

definition number_char :: "char \<Rightarrow> bool" where
  "number_char c = (c \<in> set ''0123456789.e+-'')"

lemma number_chars [simp]:
  "number_char (CHR ''.'')" "number_char (CHR ''e'')" "number_char (CHR ''+'')" "number_char (CHR ''-'')" "number_char (CHR ''0'')"
  by (simp_all add: number_char_def)

lemma digit_number_char: "digit_char c \<Longrightarrow> number_char c"
  by (auto simp: digit_char_def number_char_def)

lemma digits_number_chars: "list_all digit_char ds \<Longrightarrow> list_all number_char ds"
  by (auto simp: list_all_iff digit_number_char)

lemma place_point_chars:
  assumes "number_digits ds" shows "list_all number_char (place_point ds n)"
proof -
  have "list_all number_char ds" "list_all number_char (decimal j)" for j
    using assms decimal_digits digits_number_chars by (auto simp: number_digits_def)
  moreover have "list_all number_char (take j ds)" "list_all number_char (drop j ds)" for j
    using list_all_take_drop calculation(1) by blast+
  moreover have "number_char (hd ds)" "list_all number_char (tl ds)"
    using assms calculation(1) by (cases ds; simp add: number_digits_def)+
  moreover have "list_all number_char (replicate j (CHR ''0''))" for j by (simp add: list_all_iff number_char_def)
  ultimately show ?thesis by (simp add: place_point_def Let_def)
qed

lemma number_text_chars:
  "shortest m e \<Longrightarrow> number_text m e \<noteq> [] \<and> list_all number_char (number_text m e)"
  using place_point_chars [OF number_digits_decimal] place_point_start [OF number_digits_decimal]
  by (cases "m = 0") (auto simp: number_text_def Let_def)

text \<open>Different numbers have different texts.\<close>

lemma number_text_inj:
  assumes ok: "shortest m e" "shortest m' e'" and eq: "number_text m e = number_text m' e'"
  shows "m = m' \<and> e = e'"
proof -
  have unsigned: "nat \<bar>m\<bar> = nat \<bar>m'\<bar> \<and> e = e'" if nz: "m \<noteq> 0" "m' \<noteq> 0"
    and t: "place_point (decimal (nat \<bar>m\<bar>)) (int (length (decimal (nat \<bar>m\<bar>))) + e) =
      place_point (decimal (nat \<bar>m'\<bar>)) (int (length (decimal (nat \<bar>m'\<bar>))) + e')"
  proof -
    have "decimal (nat \<bar>m\<bar>) = decimal (nat \<bar>m'\<bar>) \<and>
        int (length (decimal (nat \<bar>m\<bar>))) + e = int (length (decimal (nat \<bar>m'\<bar>))) + e'"
      using arg_cong [OF t, of find_point]
      unfolding find_point_place [OF number_digits_decimal [OF ok(1) nz(1)]] find_point_place [OF number_digits_decimal [OF ok(2) nz(2)]]
      by (metis prod.inject)
    then show ?thesis by (metis add_left_imp_eq decimal_value)
  qed
  have minus: "\<not> digit_char (CHR ''-'')" by (simp add: digit_char_def)
  have head: "hd (number_text m e) = CHR ''-'' \<longleftrightarrow> m < 0" if "shortest m e" for m e
  proof (cases "m = 0")
    case False
    from place_point_start [OF number_digits_decimal [OF that False]] minus
    have "hd (place_point (decimal (nat \<bar>m\<bar>)) n) \<noteq> CHR ''-''" for n by metis
    from this [of "int (length (decimal (nat \<bar>m\<bar>))) + e"] False show ?thesis
      by (cases "m < 0") (simp_all add: number_text_def Let_def)
  qed (simp add: number_text_def)
  have zero: "number_text m e \<noteq> ''0''" if "shortest m e" "m \<noteq> 0" for m e
  proof
    assume "number_text m e = ''0''"
    with head [OF that(1)] have "place_point (decimal (nat \<bar>m\<bar>)) (int (length (decimal (nat \<bar>m\<bar>))) + e) = ''0''"
      using that by (auto simp: number_text_def Let_def split: if_splits)
    then have "decimal (nat \<bar>m\<bar>) = []"
      using find_point_place [OF number_digits_decimal [OF that]] by (metis find_point_zero fst_conv)
    then show False using decimal_digits by blast
  qed
  show ?thesis
  proof (cases "m = 0 \<or> m' = 0")
    case True
    with zero ok eq have "m = 0" "m' = 0" by (metis number_text_def)+
    with ok show ?thesis by (simp add: shortest_def)
  next
    case False
    with head ok eq have "m < 0 \<longleftrightarrow> m' < 0" by metis
    with False eq unsigned show ?thesis by (auto simp: number_text_def Let_def split: if_splits)
  qed
qed

end
