(* ===== verification/CanonicalJson.thy ===== *)
theory CanonicalJson
  imports NumberText
begin

text \<open>
  Canonical JSON, \<open>packages/mcp-core/src/browser-idempotency.ts\<close>: the text in which objects have their properties in the order of their
  names and properties that are \<open>undefined\<close> are left out, and the fingerprint and the idempotency key of a browser operation. The text is a
  complete invariant of the data: two values have the same text exactly when they are the same data, objects being maps from
  names to values. SHA-256 is a parameter. Arrays have no holes.
\<close>

section \<open>canonicalJson\<close>

lemma mapM_cong [fundef_cong]: "xs = ys \<Longrightarrow> (\<And>x. x \<in> set ys \<Longrightarrow> f x = g x) \<Longrightarrow> mapM f xs = mapM g ys"
  by (induction ys arbitrary: xs) (auto split: sum.splits)

definition byName :: "string \<times> 'a \<Rightarrow> string \<times> 'a \<Rightarrow> int" where
  "byName left right = cmp_units (fst left) (fst right)"

definition canonical_entries :: "(string \<times> js_value) list \<Rightarrow> (string \<times> js_value) list" where
  "canonical_entries ps = sort_cmp byName (filter (\<lambda>p. snd p \<noteq> JsUndefined) ps)"

lemma set_canonical_entries: "set (canonical_entries ps) = {p \<in> set ps. snd p \<noteq> JsUndefined}"
  by (simp add: canonical_entries_def)

lemma size_entry [termination_simp]:
  assumes "p \<in> set (canonical_entries ps)"
  shows "size (snd p) < Suc (size_list (size_prod (\<lambda>_. 0) size) ps)"
proof -
  have "p \<in> set ps" using assms by (simp add: set_canonical_entries)
  from size_list_estimation' [OF this, of "size (snd p)" "size_prod (\<lambda>_. 0) size"] show ?thesis
    by (cases p) simp
qed

lemma size_item [termination_simp]: "v \<in> set vs \<Longrightarrow> size v < Suc (size_list size vs)"
  by (rule le_imp_less_Suc) (erule size_list_estimation', simp)

function canonicalJson :: "js_value \<Rightarrow> string result" where
  "canonicalJson JsNull = Inr ''null''"
| "canonicalJson (JsString s) = Inr (json_string s)"
| "canonicalJson (JsBool b) = Inr (if b then ''true'' else ''false'')"
| "canonicalJson (JsNumber n) = (case n of NonFinite \<Rightarrow> Inl TypeError | Finite m e \<Rightarrow> Inr (number_text m e))"
| "canonicalJson JsUndefined = Inr ''null''"
| "canonicalJson (JsArray vs) = then_parse (mapM canonicalJson vs) (\<lambda>ts. Inr (CHR ''['' # commas ts @ '']''))"
| "canonicalJson (JsObject ps) = then_parse
    (mapM (\<lambda>p. then_parse (canonicalJson (snd p)) (\<lambda>t. Inr (json_string (fst p) @ CHR '':'' # t))) (canonical_entries ps))
    (\<lambda>ts. Inr (CHR ''{'' # commas ts @ ''}''))"
| "canonicalJson (JsInstance ps) = then_parse
    (mapM (\<lambda>p. then_parse (canonicalJson (snd p)) (\<lambda>t. Inr (json_string (fst p) @ CHR '':'' # t))) (canonical_entries ps))
    (\<lambda>ts. Inr (CHR ''{'' # commas ts @ ''}''))"
| "canonicalJson (JsOther kind) = Inl TypeError"
  by pat_completeness auto
termination
  by (relation "measure size")
    (auto simp: size_entry size_item)

section \<open>The data a value stands for\<close>

text \<open>
  The abstract view of a value: an object is a map from names to data, in which a property that is \<open>undefined\<close> does not occur; elsewhere
  \<open>undefined\<close> is \<open>null\<close>.
\<close>

datatype data = DNull | DBool bool | DNumber int int | DString string | DArray "data list" | DObject "string \<Rightarrow> data option"

fun meaning :: "js_value \<Rightarrow> data" and meaning_items :: "js_value list \<Rightarrow> data list"
  and meaning_fields :: "(string \<times> js_value) list \<Rightarrow> string \<Rightarrow> data option" where
  "meaning (JsBool b) = DBool b"
| "meaning (JsNumber n) = (case n of Finite m e \<Rightarrow> DNumber m e | NonFinite \<Rightarrow> DNull)"
| "meaning (JsString s) = DString s"
| "meaning (JsArray vs) = DArray (meaning_items vs)"
| "meaning (JsObject ps) = DObject (meaning_fields ps)"
| "meaning (JsInstance ps) = DObject (meaning_fields ps)"
| "meaning _ = DNull"
| "meaning_items [] = []"
| "meaning_items (v # vs) = meaning v # meaning_items vs"
| "meaning_fields [] = (\<lambda>k. None)"
| "meaning_fields ((k, v) # ps) = (if v = JsUndefined then meaning_fields ps else (meaning_fields ps)(k \<mapsto> meaning v))"

text \<open>A value JSON can hold: no number that is not finite and no function, symbol or bigint at any depth.\<close>

primrec representable :: "js_value \<Rightarrow> bool" where
  "representable JsNull = True"
| "representable JsUndefined = True"
| "representable (JsBool b) = True"
| "representable (JsNumber n) = (n \<noteq> NonFinite)"
| "representable (JsString s) = True"
| "representable (JsArray vs) = list_all (\<lambda>x. x) (map representable vs)"
| "representable (JsObject ps) = list_all snd (map (map_prod id representable) ps)"
| "representable (JsInstance ps) = list_all snd (map (map_prod id representable) ps)"
| "representable (JsOther kind) = False"

text \<open>What every value of the language is: the properties of an object have different names, a number has its shortest digits.\<close>

primrec well_formed :: "js_value \<Rightarrow> bool" where
  "well_formed JsNull = True"
| "well_formed JsUndefined = True"
| "well_formed (JsBool b) = True"
| "well_formed (JsNumber n) = (case n of Finite m e \<Rightarrow> shortest m e | NonFinite \<Rightarrow> True)"
| "well_formed (JsString s) = True"
| "well_formed (JsArray vs) = list_all (\<lambda>x. x) (map well_formed vs)"
| "well_formed (JsObject ps) = (distinct (map fst ps) \<and> list_all snd (map (map_prod id well_formed) ps))"
| "well_formed (JsInstance ps) = (distinct (map fst ps) \<and> list_all snd (map (map_prod id well_formed) ps))"
| "well_formed (JsOther kind) = True"

section \<open>The tree behind the text\<close>

datatype tree = TNull | TBool bool | TNumber int int | TString string | TArray "tree list" | TObject "(string \<times> tree) list"

primrec render :: "tree \<Rightarrow> string" where
  "render TNull = ''null''"
| "render (TBool b) = (if b then ''true'' else ''false'')"
| "render (TNumber m e) = number_text m e"
| "render (TString s) = json_string s"
| "render (TArray ts) = CHR ''['' # commas (map render ts) @ '']''"
| "render (TObject ps) = CHR ''{'' #
    commas (map (\<lambda>p. json_string (fst p) @ CHR '':'' # snd p) (map (map_prod id render) ps)) @ ''}''"

function canon :: "js_value \<Rightarrow> tree" where
  "canon JsNull = TNull"
| "canon JsUndefined = TNull"
| "canon (JsBool b) = TBool b"
| "canon (JsNumber n) = (case n of Finite m e \<Rightarrow> TNumber m e | NonFinite \<Rightarrow> TNull)"
| "canon (JsString s) = TString s"
| "canon (JsArray vs) = TArray (map canon vs)"
| "canon (JsObject ps) = TObject (map (\<lambda>p. (fst p, canon (snd p))) (canonical_entries ps))"
| "canon (JsInstance ps) = TObject (map (\<lambda>p. (fst p, canon (snd p))) (canonical_entries ps))"
| "canon (JsOther kind) = TNull"
  by pat_completeness auto
termination
  by (relation "measure size") (auto simp: size_entry size_item)

primrec tree_data :: "tree \<Rightarrow> data" where
  "tree_data TNull = DNull"
| "tree_data (TBool b) = DBool b"
| "tree_data (TNumber m e) = DNumber m e"
| "tree_data (TString s) = DString s"
| "tree_data (TArray ts) = DArray (map tree_data ts)"
| "tree_data (TObject ps) = DObject (map_of (map (map_prod id tree_data) ps))"

definition name_sorted :: "(string \<times> 'a) list \<Rightarrow> bool" where
  "name_sorted ps = (distinct (map fst ps) \<and> sorted_wrt (\<lambda>a b. cmp_units a b \<le> 0) (map fst ps))"

primrec canonical :: "tree \<Rightarrow> bool" where
  "canonical TNull = True"
| "canonical (TBool b) = True"
| "canonical (TNumber m e) = shortest m e"
| "canonical (TString s) = True"
| "canonical (TArray ts) = list_all (\<lambda>x. x) (map canonical ts)"
| "canonical (TObject ps) = (name_sorted ps \<and> list_all snd (map (map_prod id canonical) ps))"

subsection \<open>The text renders the tree\<close>

lemma mapM_if:
  assumes "\<And>x. x \<in> set xs \<Longrightarrow> f x = (if P x then Inr (g x) else Inl e)"
  shows "mapM f xs = (if list_all P xs then Inr (map g xs) else Inl e)"
  using assms by (induction xs) auto

lemma representable_entries:
  "list_all (\<lambda>p. representable (snd p)) (canonical_entries ps) \<longleftrightarrow> list_all snd (map (map_prod id representable) ps)"
proof -
  have "representable (snd p)" if "p \<notin> set (canonical_entries ps)" "p \<in> set ps" for p
  proof -
    have "snd p = JsUndefined" using that by (simp add: set_canonical_entries)
    then show ?thesis by simp
  qed
  then show ?thesis by (fastforce simp: list_all_iff set_canonical_entries)
qed

lemma canonicalJson_render: "canonicalJson v = (if representable v then Inr (render (canon v)) else Inl TypeError)"
proof (induction v rule: canonicalJson.induct)
  case (6 vs)
  show ?case
    using mapM_if [of vs canonicalJson representable "\<lambda>v. render (canon v)" TypeError] 6 by (simp add: list_all_length comp_def)
next
  case (7 ps)
  show ?case
    using mapM_if [of "canonical_entries ps" "\<lambda>p. then_parse (canonicalJson (snd p)) (\<lambda>t. Inr (json_string (fst p) @ CHR '':'' # t))"
        "\<lambda>p. representable (snd p)" "\<lambda>p. json_string (fst p) @ CHR '':'' # render (canon (snd p))" TypeError] 7
    by (simp add: representable_entries comp_def)
next
  case (8 ps)
  show ?case
    using mapM_if [of "canonical_entries ps" "\<lambda>p. then_parse (canonicalJson (snd p)) (\<lambda>t. Inr (json_string (fst p) @ CHR '':'' # t))"
        "\<lambda>p. representable (snd p)" "\<lambda>p. json_string (fst p) @ CHR '':'' # render (canon (snd p))" TypeError] 8
    by (simp add: representable_entries comp_def)
qed (auto split: js_number.splits)

subsection \<open>The text determines the tree\<close>

text \<open>What may follow a text: nothing, or a character that no number contains.\<close>

definition ends :: "string \<Rightarrow> bool" where
  "ends xs = (xs = [] \<or> \<not> number_char (hd xs))"

lemma ends_simps [simp]: "ends []" "ends (CHR '','' # xs)" "ends (CHR '']'' # xs)" "ends (CHR ''}'' # xs)"
  by (simp_all add: ends_def number_char_def)

lemma number_text_prefix:
  assumes "shortest m e" "shortest m' e'" "ends xs" "ends ys" "number_text m e @ xs = number_text m' e' @ ys"
  shows "m = m' \<and> e = e' \<and> xs = ys"
proof -
  have read: "takeWhile number_char (number_text m e @ xs) = number_text m e" if "shortest m e" "ends xs" for m e xs
    using number_text_chars [OF that(1)] that(2) by (cases xs) (simp_all add: takeWhile_stop takeWhile_all ends_def list_all_iff)
  have "number_text m e = number_text m' e'" using read assms by metis
  with number_text_inj assms show ?thesis by (metis same_append_eq)
qed

lemma render_start: "canonical t \<Longrightarrow> render t \<noteq> [] \<and> hd (render t) \<noteq> CHR '']''"
proof (cases t)
  case (TNumber m e)
  assume "canonical t"
  with TNumber have "number_text m e \<noteq> []" "list_all number_char (number_text m e)" using number_text_chars by auto
  moreover have "\<not> number_char (CHR '']'')" by (simp add: number_char_def)
  ultimately show ?thesis using TNumber by (cases "number_text m e") auto
qed (auto simp: json_string_def)

lemma number_text_kind: "shortest m e \<Longrightarrow> number_text m e @ xs = c # ys \<Longrightarrow> number_char c"
  using number_text_chars [of m e] by (cases "number_text m e") auto

lemma not_number_chars [simp]: "\<not> number_char (CHR 0x22)" "\<not> number_char (CHR ''['')" "\<not> number_char (CHR ''{'')"
  "\<not> number_char (CHR ''n'')" "\<not> number_char (CHR ''t'')" "\<not> number_char (CHR ''f'')"
  by (simp_all add: number_char_def)

lemma render_other_kind:
  assumes "shortest m e" and "canonical t" and "\<And>m' e'. t \<noteq> TNumber m' e'"
  shows "number_text m e @ xs \<noteq> render t @ ys"
proof
  assume eq: "number_text m e @ xs = render t @ ys"
  have "render t \<noteq> [] \<and> \<not> number_char (hd (render t))" using assms(3) by (cases t) (auto simp: json_string_def)
  then obtain c cs where "render t = c # cs" "\<not> number_char c" by (cases "render t") auto
  with eq number_text_kind [OF assms(1), of xs c "cs @ ys"] show False by simp
qed

lemma render_prefix:
  "canonical t \<Longrightarrow> canonical u \<Longrightarrow> ends xs \<Longrightarrow> ends ys \<Longrightarrow> render t @ xs = render u @ ys \<Longrightarrow> t = u \<and> xs = ys"
proof (induction t arbitrary: u xs ys)
  case TNull
  show ?case
  proof (cases u)
    case (TNumber m e)
    then show ?thesis using TNull render_other_kind [of m e TNull ys xs] by simp
  qed (use TNull in \<open>simp_all add: json_string_def split: if_splits\<close>)
next
  case (TBool b)
  show ?case
  proof (cases u)
    case (TNumber m e)
    then show ?thesis using TBool render_other_kind [of m e "TBool b" ys xs] by simp
  qed (use TBool in \<open>simp_all add: json_string_def split: if_splits\<close>)
next
  case (TNumber m e)
  show ?case
  proof (cases "\<exists>m' e'. u = TNumber m' e'")
    case True
    then show ?thesis using TNumber number_text_prefix by auto
  next
    case False
    then show ?thesis using TNumber render_other_kind [of m e u xs ys] by auto
  qed
next
  case (TString s)
  show ?case
  proof (cases u)
    case (TNumber m e)
    then show ?thesis using TString render_other_kind [of m e "TString s" ys xs] by simp
  next
    case (TString s')
    then show ?thesis using TString.prems(5) json_string_inj [of s xs s' ys] by simp
  qed (use TString.prems in \<open>simp_all add: json_string_def split: if_splits\<close>)
next
  case (TArray ts)
  show ?case
  proof (cases u)
    case (TNumber m e)
    then show ?thesis using TArray render_other_kind [of m e "TArray ts" ys xs] by simp
  next
    case u: (TArray us)
    have ok: "canonical a" if "a \<in> set ts \<union> set us" for a using TArray.prems(1,2) that by (auto simp: u list_all_iff)
    have "ts = us \<and> xs = ys"
    proof (rule commas_inj [of ts us ends render "CHR '']''"])
      show "commas (map render ts) @ CHR '']'' # xs = commas (map render us) @ CHR '']'' # ys" using TArray.prems by (simp add: u)
      show "render a \<noteq> [] \<and> hd (render a) \<noteq> CHR '']''" if "a \<in> set ts \<union> set us" for a using render_start ok that by blast
      show "a = b \<and> xs = ys" if "a \<in> set ts" "b \<in> set us" "ends xs" "ends ys" "render a @ xs = render b @ ys" for a b xs ys
        using TArray.IH that ok by blast
    qed auto
    then show ?thesis by (simp add: u)
  qed (use TArray.prems in \<open>simp_all add: json_string_def split: if_splits\<close>)
next
  case (TObject ps)
  let ?f = "\<lambda>p. json_string (fst p) @ CHR '':'' # render (snd p)"
  show ?case
  proof (cases u)
    case (TNumber m e)
    then show ?thesis using TObject render_other_kind [of m e "TObject ps" ys xs] by simp
  next
    case u: (TObject qs)
    have ok: "canonical (snd a)" if "a \<in> set ps \<union> set qs" for a using TObject.prems(1,2) that by (auto simp: u list_all_iff)
    have "ps = qs \<and> xs = ys"
    proof (rule commas_inj [of ps qs ends ?f "CHR ''}''"])
      show "commas (map ?f ps) @ CHR ''}'' # xs = commas (map ?f qs) @ CHR ''}'' # ys"
        using TObject.prems by (simp add: u comp_def)
      show "?f a \<noteq> [] \<and> hd (?f a) \<noteq> CHR ''}''" for a using property_start by simp
      show "a = b \<and> xs = ys" if a: "a \<in> set ps" "b \<in> set qs" and e: "ends xs" "ends ys" and eq: "?f a @ xs = ?f b @ ys" for a b xs ys
        by (rule property_inj [of ends render, OF _ e eq]) (use TObject.IH [OF a(1) snd_in_snds] ok a in blast)
    qed auto
    then show ?thesis by (simp add: u)
  qed (use TObject.prems in \<open>simp_all add: json_string_def split: if_splits\<close>)
qed

lemma render_inj: "canonical t \<Longrightarrow> canonical u \<Longrightarrow> render t = render u \<longleftrightarrow> t = u"
  using render_prefix [of t u "[]" "[]"] by auto

lemma map_injective_on:
  "map f xs = map f ys \<Longrightarrow> (\<And>a b. a \<in> set xs \<Longrightarrow> b \<in> set ys \<Longrightarrow> f a = f b \<Longrightarrow> a = b) \<Longrightarrow> xs = ys"
  by (induction xs arbitrary: ys) (auto simp: Cons_eq_map_conv)

subsection \<open>The tree is determined by the data\<close>

lemma tree_data_inj: "canonical t \<Longrightarrow> canonical u \<Longrightarrow> tree_data t = tree_data u \<Longrightarrow> t = u"
proof (induction t arbitrary: u)
  case (TArray ts)
  then obtain us where u: "u = TArray us" by (cases u) auto
  have "ts = us"
  proof (rule map_injective_on [of tree_data])
    show "map tree_data ts = map tree_data us" using TArray.prems by (simp add: u)
    show "a = b" if "a \<in> set ts" "b \<in> set us" "tree_data a = tree_data b" for a b
      using TArray that by (auto simp: u list_all_iff)
  qed
  then show ?case by (simp add: u)
next
  case (TObject ps)
  let ?g = "map_prod id tree_data :: string \<times> tree \<Rightarrow> _"
  from TObject.prems obtain qs where u: "u = TObject qs" by (cases u) auto
  have ok: "name_sorted ps" "name_sorted qs" "\<And>p. p \<in> set ps \<union> set qs \<Longrightarrow> canonical (snd p)"
    using TObject.prems by (auto simp: u list_all_iff)
  have d: "distinct (map fst (map ?g ps))" "distinct (map fst (map ?g qs))"
    using ok(1,2) by (simp_all add: name_sorted_def comp_def)
  have data: "map_of (map ?g ps) = map_of (map ?g qs)" using TObject.prems by (simp add: u)
  have "set (map ?g ps) = set (map ?g qs)" using map_of_inject_set [OF d] data by blast
  then have "fst ` set (map ?g ps) = fst ` set (map ?g qs)" by simp
  then have "set (map fst ps) = set (map fst qs)" by (simp add: image_image)
  then have names: "map fst ps = map fst qs"
    using sorted_wrt_unique [OF cmp_units_linear subset_UNIV] ok(1,2) by (simp add: name_sorted_def)
  have "map ?g ps = map ?g qs"
  proof (rule nth_equalityI)
    show len: "length (map ?g ps) = length (map ?g qs)" using arg_cong [OF names, of length] by simp
    fix i
    assume i: "i < length (map ?g ps)"
    have "fst (map ?g ps ! i) = fst (map ?g qs ! i)"
      using arg_cong [OF names, of "\<lambda>l. l ! i"] i len by simp
    moreover have "map_of (map ?g ps) (fst (map ?g ps ! i)) = Some (snd (map ?g ps ! i))"
      "map_of (map ?g qs) (fst (map ?g qs ! i)) = Some (snd (map ?g qs ! i))"
      using i len d by (metis map_of_is_SomeI nth_mem prod.collapse)+
    ultimately show "map ?g ps ! i = map ?g qs ! i" using data by (metis option.inject prod.expand)
  qed
  then have "ps = qs"
  proof (rule map_injective_on)
    show "a = b" if "a \<in> set ps" "b \<in> set qs" "?g a = ?g b" for a b
      using TObject.IH [OF that(1) snd_in_snds, of "snd b"] ok(3) [of a] ok(3) [of b] that by (cases a; cases b) auto
  qed
  then show ?case by (simp add: u)
qed (case_tac u; simp)+

subsection \<open>The tree of a value is in canonical order and stands for the data of the value\<close>

lemma meaning_items_map: "meaning_items vs = map meaning vs"
  by (induction vs) auto

lemma meaning_fields_map_of:
  "meaning_fields ps = map_of (map (\<lambda>p. (fst p, meaning (snd p))) (filter (\<lambda>p. snd p \<noteq> JsUndefined) ps))"
  by (induction ps) (auto simp: fun_eq_iff)

lemma well_formed_entries:
  "distinct (map fst ps) \<Longrightarrow> list_all snd (map (map_prod id well_formed) ps) \<Longrightarrow>
    name_sorted (canonical_entries ps) \<and> (\<forall>p \<in> set (canonical_entries ps). well_formed (snd p))"
proof -
  assume d: "distinct (map fst ps)" and w: "list_all snd (map (map_prod id well_formed) ps)"
  have "sorted_wrt (\<lambda>a b. byName a b \<le> 0) (canonical_entries ps)"
    unfolding canonical_entries_def byName_def
    by (rule sort_cmp_sorted) (use cmp_units_total cmp_units_trans in blast)+
  then have "sorted_wrt (\<lambda>a b. cmp_units a b \<le> 0) (map fst (canonical_entries ps))"
    by (simp add: sorted_wrt_map byName_def)
  moreover have "distinct (map fst (canonical_entries ps))" using d by (simp add: canonical_entries_def distinct_map_filter)
  moreover have "\<forall>p \<in> set (canonical_entries ps). well_formed (snd p)"
    using w by (fastforce simp: set_canonical_entries list_all_iff)
  ultimately show ?thesis by (simp add: name_sorted_def)
qed

lemma canonical_entry_trees:
  assumes "name_sorted es" and "\<And>p. p \<in> set es \<Longrightarrow> canonical (canon (snd p))"
  shows "canonical (TObject (map (\<lambda>p. (fst p, canon (snd p))) es))"
  using assms by (auto simp: name_sorted_def comp_def list_all_iff)

lemma canonical_canon: "well_formed v \<Longrightarrow> canonical (canon v)"
proof (induction v rule: canon.induct)
  case (7 ps)
  then have "name_sorted (canonical_entries ps)" "\<And>p. p \<in> set (canonical_entries ps) \<Longrightarrow> canonical (canon (snd p))"
    using well_formed_entries by auto
  then show ?case using canonical_entry_trees by simp
next
  case (8 ps)
  then have "name_sorted (canonical_entries ps)" "\<And>p. p \<in> set (canonical_entries ps) \<Longrightarrow> canonical (canon (snd p))"
    using well_formed_entries by auto
  then show ?case using canonical_entry_trees by simp
qed (auto simp: list_all_iff split: js_number.splits)

lemma entries_meaning:
  assumes "distinct (map fst ps)" and "\<And>p. p \<in> set (canonical_entries ps) \<Longrightarrow> tree_data (canon (snd p)) = meaning (snd p)"
  shows "map_of (map (\<lambda>p. (fst p, tree_data (canon (snd p)))) (canonical_entries ps)) = meaning_fields ps"
proof -
  let ?m = "\<lambda>p. (fst p, meaning (snd p))"
  have "map_of (map ?m (canonical_entries ps)) = map_of (map ?m (filter (\<lambda>p. snd p \<noteq> JsUndefined) ps))"
  proof (subst map_of_inject_set)
    show "distinct (map fst (map ?m (canonical_entries ps)))" "distinct (map fst (map ?m (filter (\<lambda>p. snd p \<noteq> JsUndefined) ps)))"
      using assms(1) by (simp_all add: comp_def canonical_entries_def distinct_map_filter)
    show "set (map ?m (canonical_entries ps)) = set (map ?m (filter (\<lambda>p. snd p \<noteq> JsUndefined) ps))"
      by (simp add: canonical_entries_def)
  qed
  moreover have "map (\<lambda>p. (fst p, tree_data (canon (snd p)))) (canonical_entries ps) = map ?m (canonical_entries ps)"
    using assms(2) by simp
  ultimately show ?thesis unfolding meaning_fields_map_of by (simp only:)
qed

lemma tree_data_canon: "well_formed v \<Longrightarrow> tree_data (canon v) = meaning v"
proof (induction v rule: canon.induct)
  case (6 vs)
  then show ?case by (simp add: meaning_items_map list_all_iff)
next
  case (7 ps)
  then show ?case using well_formed_entries [of ps] entries_meaning [of ps] by (simp add: comp_def)
next
  case (8 ps)
  then show ?case using well_formed_entries [of ps] entries_meaning [of ps] by (simp add: comp_def)
qed (auto split: js_number.splits)

section \<open>Properties of canonical JSON\<close>

lemma canonicalJson_complete:
  assumes "well_formed v" "well_formed w" "canonicalJson v = Inr s" "canonicalJson w = Inr t"
  shows "s = t \<longleftrightarrow> meaning v = meaning w"
proof -
  have "s = render (canon v)" "t = render (canon w)" using assms(3,4) by (simp_all add: canonicalJson_render split: if_splits)
  with assms(1,2) render_inj canonical_canon tree_data_canon tree_data_inj show ?thesis by metis
qed

lemma canonicalJson_error: "canonicalJson v = Inl e \<longleftrightarrow> e = TypeError \<and> \<not> representable v"
  by (auto simp: canonicalJson_render)

text \<open>
  Canonical text. \<open>canonicalJson\<close> answers exactly for the values JSON can hold, and then the text is a complete invariant of the data:
  two values have the same text if and only if they are the same data, whatever the order of their properties and their
  undefined properties. Otherwise it throws a \<open>TypeError\<close>.
\<close>

theorem canonical_text:
  assumes "well_formed v" and "well_formed w"
  shows "(canonicalJson v = Inl TypeError \<longleftrightarrow> \<not> representable v) \<and>
    (representable v \<longrightarrow> representable w \<longrightarrow>
      (\<exists>s t. canonicalJson v = Inr s \<and> canonicalJson w = Inr t \<and> (s = t \<longleftrightarrow> meaning v = meaning w)))"
  using canonicalJson_complete [OF assms] by (simp add: canonicalJson_error canonicalJson_render)

definition demo_left :: js_value where
  "demo_left = JsObject [(''b'', JsNumber (Finite 15 (- 1))), (''a'', JsArray [JsNull, JsString ''x'']), (''c'', JsUndefined)]"

definition demo_right :: js_value where
  "demo_right = JsObject [(''a'', JsArray [JsUndefined, JsString ''x'']), (''b'', JsNumber (Finite 15 (- 1)))]"

section \<open>Fingerprints and idempotency keys of browser operations\<close>

definition BROWSER_IDEMPOTENCY_VERSION :: string where
  "BROWSER_IDEMPOTENCY_VERSION = ''browser-v2''"

definition call_value :: "string \<Rightarrow> js_value \<Rightarrow> js_value" where
  "call_value operation input = JsObject [(''operation'', JsString operation), (''input'', input)]"

definition createBrowserOperationFingerprint :: "(string \<Rightarrow> string) \<Rightarrow> string \<Rightarrow> js_value \<Rightarrow> string result" where
  "createBrowserOperationFingerprint sha256 operation input =
    then_parse (canonicalJson (call_value operation input)) (\<lambda>t. Inr (sha256 t))"

definition key_text :: "string \<Rightarrow> string \<Rightarrow> string" where
  "key_text invocationId fingerprint = BROWSER_IDEMPOTENCY_VERSION @ CHR 0x00 # invocationId @ CHR 0x00 # fingerprint"

definition createBrowserIdempotencyKey :: "(string \<Rightarrow> string) \<Rightarrow> string \<Rightarrow> string \<Rightarrow> string" where
  "createBrowserIdempotencyKey sha256 invocationId fingerprint = sha256 (key_text invocationId fingerprint)"

text \<open>The data of an input: an absent input and \<open>null\<close> are different.\<close>

definition same_input :: "js_value \<Rightarrow> js_value \<Rightarrow> bool" where
  "same_input v w = (meaning v = meaning w \<and> (v = JsUndefined \<longleftrightarrow> w = JsUndefined))"

lemma call_meaning: "meaning (call_value f v) = meaning (call_value g w) \<longleftrightarrow> f = g \<and> same_input v w"
proof
  assume eq: "meaning (call_value f v) = meaning (call_value g w)"
  have "meaning_fields [(''operation'', JsString f), (''input'', v)] k = meaning_fields [(''operation'', JsString g), (''input'', w)] k" for k
    using eq by (simp add: call_value_def)
  from this [of "''operation''"] this [of "''input''"] show "f = g \<and> same_input v w"
    by (auto simp: same_input_def split: if_splits)
qed (simp add: call_value_def same_input_def)

lemma call_text:
  assumes "well_formed v" "well_formed w" "canonicalJson (call_value f v) = Inr s" "canonicalJson (call_value g w) = Inr t"
  shows "s = t \<longleftrightarrow> f = g \<and> same_input v w"
proof -
  have "s = t \<longleftrightarrow> meaning (call_value f v) = meaning (call_value g w)"
    by (rule canonicalJson_complete [OF _ _ assms(3,4)]) (use assms(1,2) in \<open>simp_all add: call_value_def\<close>)
  then show ?thesis using call_meaning by simp
qed

lemma key_text_inj: "length a = length b \<Longrightarrow> key_text i a = key_text j b \<longleftrightarrow> i = j \<and> a = b"
  by (auto simp: key_text_def)

text \<open>
  The key binds the call. Two calls with the texts \<open>s\<close> and \<open>t\<close>, for digests of one length that do not collide on the texts that are
  hashed, have the same idempotency key if and only if they are of the same invocation and the same operation with the same
  input data.
\<close>

theorem browser_key_binds_call:
  assumes "well_formed input" "well_formed input'"
    and "canonicalJson (call_value f input) = Inr s" "canonicalJson (call_value g input') = Inr t"
    and "length (sha256 s) = length (sha256 t)"
    and "inj_on sha256 {s, t}" "inj_on sha256 {key_text i (sha256 s), key_text j (sha256 t)}"
  shows "\<exists>fp fp'. createBrowserOperationFingerprint sha256 f input = Inr fp \<and> createBrowserOperationFingerprint sha256 g input' = Inr fp' \<and>
    (createBrowserIdempotencyKey sha256 i fp = createBrowserIdempotencyKey sha256 j fp' \<longleftrightarrow> i = j \<and> f = g \<and> same_input input input')"
proof -
  have fp: "createBrowserOperationFingerprint sha256 f input = Inr (sha256 s)" "createBrowserOperationFingerprint sha256 g input' = Inr (sha256 t)"
    using assms(3,4) by (simp_all add: createBrowserOperationFingerprint_def)
  have "sha256 s = sha256 t \<longleftrightarrow> s = t" by (rule inj_on_eq_iff [OF assms(6)]) simp_all
  moreover have "sha256 (key_text i (sha256 s)) = sha256 (key_text j (sha256 t)) \<longleftrightarrow> key_text i (sha256 s) = key_text j (sha256 t)"
    by (rule inj_on_eq_iff [OF assms(7)]) simp_all
  ultimately have "createBrowserIdempotencyKey sha256 i (sha256 s) = createBrowserIdempotencyKey sha256 j (sha256 t) \<longleftrightarrow>
      i = j \<and> f = g \<and> same_input input input'"
    unfolding createBrowserIdempotencyKey_def using call_text [OF assms(1-4)] key_text_inj [OF assms(5), of i j] by metis
  with fp show ?thesis by (intro exI conjI)
qed

text \<open>A digest of 64 characters that tells texts of different lengths below 256 apart.\<close>

definition length_digest :: "string \<Rightarrow> string" where
  "length_digest s = replicate 64 (char_of (length s))"

end
