(* ===== verification/ArgumentDigest.thy ===== *)
theory ArgumentDigest
  imports CanonicalJson TypedConfirmation
begin

text \<open>
  The digest of the arguments of a source-control operation, the second half of \<open>packages/mcp-core/src/typed-confirmation.ts\<close>: the
  confirmation identifier is left out, arguments with a secret are refused, and the digest is that of the canonical text of what is left.
  SHA-256 is a parameter.
\<close>

section \<open>canonicalSourceControlArgumentsDigest\<close>

definition isSensitiveFieldKey :: "string \<Rightarrow> bool" where
  "isSensitiveFieldKey key =
    (string_includes key ''authorization'' \<or> key = ''token'' \<or> endsWith key ''token'' \<or> string_includes key ''credential'' \<or>
     string_includes key ''password'' \<or> string_includes key ''secret'' \<or> endsWith key ''apikey'' \<or> string_includes key ''privatekey'')"

text \<open>
  Assigning the property \<open>__proto__\<close> of the new object sets its prototype, so no property of that name is in the result.
\<close>

fun removeEphemeralAndRejectSensitive :: "js_value \<Rightarrow> js_value result"
  and remove_items :: "js_value list \<Rightarrow> js_value list result"
  and remove_fields :: "(string \<times> js_value) list \<Rightarrow> (string \<times> js_value) list result" where
  "removeEphemeralAndRejectSensitive (JsArray vs) = then_parse (remove_items vs) (\<lambda>us. Inr (JsArray us))"
| "removeEphemeralAndRejectSensitive (JsObject ps) = then_parse (remove_fields ps) (\<lambda>qs. Inr (JsObject qs))"
| "removeEphemeralAndRejectSensitive (JsInstance ps) = Inl TypeError"
| "removeEphemeralAndRejectSensitive v = Inr v"
| "remove_items [] = Inr []"
| "remove_items (v # vs) = then_parse (removeEphemeralAndRejectSensitive v) (\<lambda>u. then_parse (remove_items vs) (\<lambda>us. Inr (u # us)))"
| "remove_fields [] = Inr []"
| "remove_fields ((key, v) # ps) =
    (if normalized_key key = ''confirmationid'' then remove_fields ps
     else if isSensitiveFieldKey (normalized_key key) then Inl TypeError
     else then_parse (removeEphemeralAndRejectSensitive v) (\<lambda>u. then_parse (remove_fields ps) (\<lambda>qs.
       Inr (if key = ''__proto__'' then qs else (key, u) # qs))))"

definition argument_text :: "js_value \<Rightarrow> string result" where
  "argument_text v = then_parse (removeEphemeralAndRejectSensitive v) canonicalJson"

definition canonicalSourceControlArgumentsDigest :: "(string \<Rightarrow> string) \<Rightarrow> js_value \<Rightarrow> string result" where
  "canonicalSourceControlArgumentsDigest sha256 v = then_parse (removeEphemeralAndRejectSensitive v) (\<lambda>u.
     then_parse (canonicalJson u) (\<lambda>t. Inr (sha256 t)))"

lemma digest_text: "canonicalSourceControlArgumentsDigest sha256 v = then_parse (argument_text v) (\<lambda>t. Inr (sha256 t))"
  by (cases "removeEphemeralAndRejectSensitive v") (simp_all add: canonicalSourceControlArgumentsDigest_def argument_text_def)

section \<open>What the digest refuses\<close>

text \<open>A property that never reaches the text.\<close>

definition dropped :: "string \<Rightarrow> bool" where
  "dropped key = (normalized_key key = ''confirmationid'' \<or> key = ''__proto__'')"

text \<open>
  Arguments with a digest: outside of confirmation identifiers, no object other than a plain one and no secret, and nothing JSON cannot hold where
  it reaches the text.
\<close>

fun plain_arguments :: "js_value \<Rightarrow> bool" and plain_items :: "js_value list \<Rightarrow> bool" and plain_fields :: "(string \<times> js_value) list \<Rightarrow> bool" where
  "plain_arguments (JsArray vs) = plain_items vs"
| "plain_arguments (JsObject ps) = plain_fields ps"
| "plain_arguments (JsInstance ps) = False"
| "plain_arguments v = True"
| "plain_items [] = True"
| "plain_items (v # vs) = (plain_arguments v \<and> plain_items vs)"
| "plain_fields [] = True"
| "plain_fields ((key, v) # ps) =
    ((normalized_key key = ''confirmationid'' \<or> \<not> isSensitiveFieldKey (normalized_key key) \<and> plain_arguments v) \<and> plain_fields ps)"

fun textual :: "js_value \<Rightarrow> bool" and textual_items :: "js_value list \<Rightarrow> bool" and textual_fields :: "(string \<times> js_value) list \<Rightarrow> bool" where
  "textual (JsArray vs) = textual_items vs"
| "textual (JsObject ps) = textual_fields ps"
| "textual (JsNumber n) = (n \<noteq> NonFinite)"
| "textual (JsOther kind) = False"
| "textual v = True"
| "textual_items [] = True"
| "textual_items (v # vs) = (textual v \<and> textual_items vs)"
| "textual_fields [] = True"
| "textual_fields ((key, v) # ps) = ((dropped key \<or> textual v) \<and> textual_fields ps)"

text \<open>The result without its errors.\<close>

fun kept :: "js_value \<Rightarrow> js_value" and kept_items :: "js_value list \<Rightarrow> js_value list"
  and kept_fields :: "(string \<times> js_value) list \<Rightarrow> (string \<times> js_value) list" where
  "kept (JsArray vs) = JsArray (kept_items vs)"
| "kept (JsObject ps) = JsObject (kept_fields ps)"
| "kept v = v"
| "kept_items [] = []"
| "kept_items (v # vs) = kept v # kept_items vs"
| "kept_fields [] = []"
| "kept_fields ((key, v) # ps) = (if dropped key then kept_fields ps else (key, kept v) # kept_fields ps)"

lemma remove_kept:
  "removeEphemeralAndRejectSensitive v = (if plain_arguments v then Inr (kept v) else Inl TypeError)"
  "remove_items vs = (if plain_items vs then Inr (kept_items vs) else Inl TypeError)"
  "remove_fields ps = (if plain_fields ps then Inr (kept_fields ps) else Inl TypeError)"
proof (induction v and vs and ps rule: removeEphemeralAndRejectSensitive_remove_items_remove_fields.induct)
  case (8 key v ps)
  then show ?case by (cases "plain_arguments v") (simp_all add: dropped_def)
qed simp_all

lemma representable_kept:
  "plain_arguments v \<Longrightarrow> representable (kept v) = textual v"
  "plain_items vs \<Longrightarrow> list_all representable (kept_items vs) = textual_items vs"
  "plain_fields ps \<Longrightarrow> list_all (\<lambda>p. representable (snd p)) (kept_fields ps) = textual_fields ps"
proof (induction v and vs and ps rule: kept_kept_items_kept_fields.induct)
  case (1 vs)
  then show ?case by (simp add: list_all_iff)
next
  case (2 ps)
  then show ?case by (simp add: list_all_iff)
next
  case (7 key v ps)
  then show ?case by (cases "dropped key") (auto simp: dropped_def)
qed simp_all

lemma well_formed_kept:
  "well_formed v \<Longrightarrow> well_formed (kept v)"
  "list_all well_formed vs \<Longrightarrow> list_all well_formed (kept_items vs)"
  "distinct (map fst ps) \<and> list_all (\<lambda>p. well_formed (snd p)) ps \<Longrightarrow>
    distinct (map fst (kept_fields ps)) \<and> set (map fst (kept_fields ps)) \<subseteq> set (map fst ps) \<and> list_all (\<lambda>p. well_formed (snd p)) (kept_fields ps)"
proof (induction v and vs and ps rule: kept_kept_items_kept_fields.induct)
  case (1 vs)
  then show ?case by (simp add: list_all_iff)
next
  case (2 ps)
  then show ?case by (simp add: list_all_iff)
next
  case (7 key v ps)
  then show ?case by (cases "dropped key") auto
qed simp_all

section \<open>What the digest binds\<close>

text \<open>Data without the properties that are dropped, at any depth.\<close>

primrec lasting :: "data \<Rightarrow> data" where
  "lasting DNull = DNull"
| "lasting (DBool b) = DBool b"
| "lasting (DNumber m e) = DNumber m e"
| "lasting (DString s) = DString s"
| "lasting (DArray ds) = DArray (map lasting ds)"
| "lasting (DObject f) = DObject (\<lambda>k. if dropped k then None else (map_option lasting \<circ> f) k)"

lemma meaning_kept:
  "plain_arguments v \<Longrightarrow> meaning (kept v) = lasting (meaning v)"
  "plain_items vs \<Longrightarrow> meaning_items (kept_items vs) = map lasting (meaning_items vs)"
  "plain_fields ps \<Longrightarrow> meaning_fields (kept_fields ps) = (\<lambda>k. if dropped k then None else map_option lasting (meaning_fields ps k))"
proof (induction v and vs and ps rule: kept_kept_items_kept_fields.induct)
  case (7 key v ps)
  have u: "kept v = JsUndefined \<longleftrightarrow> v = JsUndefined" by (cases v) simp_all
  from 7 show ?case
    by (cases "dropped key"; cases "v = JsUndefined") (auto simp: u fun_eq_iff dropped_def)
qed (auto simp: comp_def split: js_number.splits)

lemma argument_text_Inr:
  "argument_text v = Inr s \<longleftrightarrow> plain_arguments v \<and> textual v \<and> s = render (canon (kept v))"
  using representable_kept(1) [of v] by (auto simp: argument_text_def remove_kept canonicalJson_render split: if_splits)

lemma argument_text_binds:
  assumes "well_formed v" "well_formed w" "argument_text v = Inr s" "argument_text w = Inr t"
  shows "s = t \<longleftrightarrow> lasting (meaning v) = lasting (meaning w)"
proof -
  have "plain_arguments v" "plain_arguments w" "canonicalJson (kept v) = Inr s" "canonicalJson (kept w) = Inr t"
    using assms(3,4) by (simp_all add: argument_text_def remove_kept split: if_splits)
  with canonicalJson_complete [OF well_formed_kept(1) [OF assms(1)] well_formed_kept(1) [OF assms(2)]] meaning_kept(1)
  show ?thesis by metis
qed

lemma digest_same:
  assumes "well_formed v" "well_formed w"
    and "canonicalSourceControlArgumentsDigest sha256 v = Inr d" "canonicalSourceControlArgumentsDigest sha256 w = Inr d'"
  shows "d = d' \<Longrightarrow> lasting (meaning v) = lasting (meaning w) \<or>
      (\<exists>s t. argument_text v = Inr s \<and> argument_text w = Inr t \<and> s \<noteq> t \<and> sha256 s = sha256 t)"
    and "lasting (meaning v) = lasting (meaning w) \<Longrightarrow> d = d'"
proof -
  obtain s t where st: "argument_text v = Inr s" "argument_text w = Inr t" "d = sha256 s" "d' = sha256 t"
    using assms(3,4) by (auto simp: digest_text then_parse_Inr)
  note b = argument_text_binds [OF assms(1,2) st(1,2)]
  show "d = d' \<Longrightarrow> lasting (meaning v) = lasting (meaning w) \<or>
      (\<exists>s t. argument_text v = Inr s \<and> argument_text w = Inr t \<and> s \<noteq> t \<and> sha256 s = sha256 t)"
    using b st by blast
  show "lasting (meaning v) = lasting (meaning w) \<Longrightarrow> d = d'" using b st by simp
qed

section \<open>Properties\<close>

text \<open>
  Refused arguments. The digest of arguments fails exactly when, outside of confirmation identifiers, they have a property with a secret name, an object that
  is not a plain one, or, where it would reach the text, a number that is not finite, a function, a symbol or a bigint; the error is a \<open>TypeError\<close>.
\<close>

theorem arguments_refused:
  "canonicalSourceControlArgumentsDigest sha256 v = Inl e \<longleftrightarrow> e = TypeError \<and> \<not> (plain_arguments v \<and> textual v)"
  using representable_kept(1) [of v]
  by (auto simp: canonicalSourceControlArgumentsDigest_def remove_kept canonicalJson_render)

text \<open>
  The digest binds the arguments. Arguments that are the same data but for confirmation identifiers have the same digest, in whatever order
  their properties are; and arguments with the same digest are such, or their texts are a collision of SHA-256.
\<close>

theorem digest_binds_arguments:
  assumes "well_formed v" "well_formed w"
    and "canonicalSourceControlArgumentsDigest sha256 v = Inr d" "canonicalSourceControlArgumentsDigest sha256 w = Inr d'"
  shows "(lasting (meaning v) = lasting (meaning w) \<longrightarrow> d = d') \<and>
    (d = d' \<longrightarrow> lasting (meaning v) = lasting (meaning w) \<or>
      (\<exists>s t. argument_text v = Inr s \<and> argument_text w = Inr t \<and> s \<noteq> t \<and> sha256 s = sha256 t))"
  using digest_same [OF assms] by blast

definition demo_push :: "string option \<Rightarrow> js_value" where
  "demo_push confirmation = JsObject ([(''branch'', JsString ''topic''), (''force'', JsBool False)] @
     (case confirmation of None \<Rightarrow> [] | Some i \<Rightarrow> [(''confirmationId'', JsString i)]))"

lemma demo_push_ok: "plain_arguments (demo_push c)" "textual (demo_push c)" "well_formed (demo_push c)"
  "lasting (meaning (demo_push (Some i))) = lasting (meaning (demo_push None))"
proof -
  have k: "normalized_key ''confirmationId'' = ''confirmationid''" "normalized_key ''branch'' = ''branch''" "normalized_key ''force'' = ''force''"
    "\<not> isSensitiveFieldKey ''branch''" "\<not> isSensitiveFieldKey ''force''"
    by code_simp+
  show "plain_arguments (demo_push c)" "textual (demo_push c)" "well_formed (demo_push c)"
    by (simp_all add: demo_push_def k dropped_def split: option.splits)
  show "lasting (meaning (demo_push (Some i))) = lasting (meaning (demo_push None))"
    by (auto simp: demo_push_def fun_eq_iff dropped_def k)
qed

lemma digest_demo_push: "\<exists>d. canonicalSourceControlArgumentsDigest sha256 (demo_push c) = Inr d"
proof -
  have "argument_text (demo_push c) = Inr (render (canon (kept (demo_push c))))" by (simp add: argument_text_Inr demo_push_ok)
  then show ?thesis by (simp add: digest_text)
qed

end
