(* ===== verification/MutationReceipts.thy ===== *)
theory MutationReceipts
  imports JsValue
begin

text \<open>
  Receipts of source-control mutations, \<open>packages/mcp-core/src/mutation-receipts.ts\<close>: the receipt, its checks and its transitions and the store
  in memory. A receipt makes a mutation run at most once per idempotency key. The locale \<open>receipt_store\<close> states what a store
  promises; the store in memory is its instance \<open>memory\<close>. The copies \<open>cloneReceipt\<close> makes are not modelled: values of the model are not
  shared.
\<close>

section \<open>Receipts and their identities\<close>

definition SOURCE_CONTROL_OPERATIONS :: "string list" where
  "SOURCE_CONTROL_OPERATIONS = [''git_create_branch'', ''git_stage_paths'', ''git_unstage_paths'', ''git_commit'', ''git_merge_branch'',
    ''git_sync_branch'', ''git_push_branch'', ''git_publish_tag'', ''github_get_repository'', ''github_get_commit_checks'',
    ''github_materialize_actions_artifact'', ''github_start_commit_checks_watch'', ''github_get_commit_checks_watches'',
    ''github_wait_commit_checks_watch'', ''github_workflow_operation'', ''github_create_repository'', ''github_get_pull_request'',
    ''github_create_pull_request'', ''github_close_pull_request'', ''github_mark_pull_request_ready'', ''github_merge_pull_request'',
    ''github_read'', ''github_issue_write'']"

record MutationReceiptIdentity =
  workspaceId :: string
  operation :: string
  targetResource :: string
  canonicalArgumentsDigest :: string
  idempotencyKey :: string

datatype MutationReceiptState = Reserved | Executing | Completed | ReconciliationRequired

record MutationReceipt =
  identity :: MutationReceiptIdentity
  rstate :: MutationReceiptState
  rresult :: "js_value option"

datatype disposition = Execute | ReplayCompleted | DispositionReconciliationRequired

record MutationReceiptReservation =
  disposition_of :: disposition
  receipt :: MutationReceipt

section \<open>Schemas\<close>

definition hex64 :: "string \<Rightarrow> bool" where
  "hex64 s = (length s = 64 \<and> list_all (\<lambda>c. c \<in> set ''0123456789abcdef'') s)"

definition parse_text :: "js_value option \<Rightarrow> nat option \<Rightarrow> string result" where
  "parse_text v limit = (case v of
     Some (JsString s) \<Rightarrow> (let s' = trim s in
       if s' \<noteq> [] \<and> (case limit of None \<Rightarrow> True | Some m \<Rightarrow> length s' \<le> m) then Inr s' else Inl ZodError)
   | _ \<Rightarrow> Inl ZodError)"

definition parse_where :: "js_value option \<Rightarrow> (string \<Rightarrow> bool) \<Rightarrow> string result" where
  "parse_where v P = (case v of Some (JsString s) \<Rightarrow> if P s then Inr s else Inl ZodError | _ \<Rightarrow> Inl ZodError)"

definition identity_fields :: "string list" where
  "identity_fields = [''workspaceId'', ''operation'', ''targetResource'', ''canonicalArgumentsDigest'', ''idempotencyKey'']"

definition mutationReceiptIdentitySchema :: "js_value \<Rightarrow> MutationReceiptIdentity result" where
  "mutationReceiptIdentitySchema v = (case v of
     JsObject ps \<Rightarrow>
       then_parse (parse_text (Map_get ps ''workspaceId'') None) (\<lambda>w.
       then_parse (parse_where (Map_get ps ''operation'') (\<lambda>s. s \<in> set SOURCE_CONTROL_OPERATIONS \<or> s = ''oracle_release_advance'')) (\<lambda>operation.
       then_parse (parse_text (Map_get ps ''targetResource'') (Some 512)) (\<lambda>t.
       then_parse (parse_where (Map_get ps ''canonicalArgumentsDigest'') hex64) (\<lambda>d.
       then_parse (parse_text (Map_get ps ''idempotencyKey'') (Some 512)) (\<lambda>k.
       if list_all (\<lambda>p. fst p \<in> set identity_fields) ps
       then Inr \<lparr>workspaceId = w, operation = operation, targetResource = t, canonicalArgumentsDigest = d, idempotencyKey = k\<rparr>
       else Inl ZodError)))))
   | _ \<Rightarrow> Inl ZodError)"

definition identity_value :: "MutationReceiptIdentity \<Rightarrow> js_value" where
  "identity_value d = JsObject [(''workspaceId'', JsString (workspaceId d)), (''operation'', JsString (operation d)),
     (''targetResource'', JsString (targetResource d)), (''canonicalArgumentsDigest'', JsString (canonicalArgumentsDigest d)),
     (''idempotencyKey'', JsString (idempotencyKey d))]"

text \<open>The schema on an argument of the declared type.\<close>

definition parse_identity :: "MutationReceiptIdentity \<Rightarrow> MutationReceiptIdentity result" where
  "parse_identity d = mutationReceiptIdentitySchema (identity_value d)"

definition receipt_state_name :: "MutationReceiptState \<Rightarrow> string" where
  "receipt_state_name s = (case s of Reserved \<Rightarrow> ''reserved'' | Executing \<Rightarrow> ''executing'' | Completed \<Rightarrow> ''completed''
     | ReconciliationRequired \<Rightarrow> ''reconciliation_required'')"

definition mutationReceiptStateSchema :: "js_value option \<Rightarrow> MutationReceiptState result" where
  "mutationReceiptStateSchema v = (case v of
     Some (JsString s) \<Rightarrow> (case List.find (\<lambda>st. receipt_state_name st = s) [Reserved, Executing, Completed, ReconciliationRequired] of
       None \<Rightarrow> Inl ZodError | Some st \<Rightarrow> Inr st)
   | _ \<Rightarrow> Inl ZodError)"

section \<open>Public results\<close>

definition isSensitiveReceiptField :: "string \<Rightarrow> bool" where
  "isSensitiveReceiptField key = (let n = normalized_key key in
     n = ''confirmationid'' \<or> string_includes n ''authorization'' \<or> n = ''token'' \<or> endsWith n ''token'' \<or> string_includes n ''credential'' \<or>
     string_includes n ''password'' \<or> string_includes n ''secret'' \<or> endsWith n ''apikey'' \<or> string_includes n ''privatekey'')"

text \<open>
  Assigning the property \<open>__proto__\<close> of the new object sets its prototype, so no property of that name is in the result.
\<close>

fun parsePublicResultValue :: "js_value \<Rightarrow> js_value result"
  and parse_items :: "js_value list \<Rightarrow> js_value list result"
  and parse_fields :: "(string \<times> js_value) list \<Rightarrow> (string \<times> js_value) list result" where
  "parsePublicResultValue JsNull = Inr JsNull"
| "parsePublicResultValue (JsString s) = Inr (JsString s)"
| "parsePublicResultValue (JsBool b) = Inr (JsBool b)"
| "parsePublicResultValue (JsNumber n) = (case n of NonFinite \<Rightarrow> Inl (AppError INVALID_ARGUMENT) | Finite i e \<Rightarrow> Inr (JsNumber (Finite i e)))"
| "parsePublicResultValue (JsArray vs) = then_parse (parse_items vs) (\<lambda>us. Inr (JsArray us))"
| "parsePublicResultValue (JsObject ps) = then_parse (parse_fields ps) (\<lambda>qs. Inr (JsObject qs))"
| "parsePublicResultValue JsUndefined = Inl (AppError INVALID_ARGUMENT)"
| "parsePublicResultValue (JsInstance ps) = Inl (AppError INVALID_ARGUMENT)"
| "parsePublicResultValue (JsOther kind) = Inl (AppError INVALID_ARGUMENT)"
| "parse_items [] = Inr []"
| "parse_items (v # vs) = then_parse (parsePublicResultValue v) (\<lambda>u. then_parse (parse_items vs) (\<lambda>us. Inr (u # us)))"
| "parse_fields [] = Inr []"
| "parse_fields ((key, v) # ps) =
    (if isSensitiveReceiptField key then Inl (AppError INVALID_ARGUMENT)
     else then_parse (parsePublicResultValue v) (\<lambda>u. then_parse (parse_fields ps) (\<lambda>qs.
       Inr (if key = ''__proto__'' then qs else (key, u) # qs))))"

section \<open>Receipts\<close>

definition parseMutationReceipt :: "js_value \<Rightarrow> MutationReceipt result" where
  "parseMutationReceipt v = (case v of
     JsObject ps \<Rightarrow>
       then_parse (case Map_get ps ''identity'' of None \<Rightarrow> Inl ZodError | Some d \<Rightarrow> mutationReceiptIdentitySchema d) (\<lambda>d.
       then_parse (mutationReceiptStateSchema (Map_get ps ''state'')) (\<lambda>st.
       if list_ex (\<lambda>p. fst p \<notin> {''identity'', ''state'', ''result''}) ps then Inl (AppError INVALID_ARGUMENT)
       else if st = Completed
       then (case Map_get ps ''result'' of
               None \<Rightarrow> Inl (AppError INVALID_ARGUMENT)
             | Some x \<Rightarrow> then_parse (parsePublicResultValue x) (\<lambda>y. Inr \<lparr>identity = d, rstate = st, rresult = Some y\<rparr>))
       else if Map_has ps ''result'' then Inl (AppError INVALID_ARGUMENT)
       else Inr \<lparr>identity = d, rstate = st, rresult = None\<rparr>))
   | _ \<Rightarrow> Inl (AppError INVALID_ARGUMENT))"

definition receipt_value :: "MutationReceipt \<Rightarrow> js_value" where
  "receipt_value r = JsObject ([(''identity'', identity_value (identity r)), (''state'', JsString (receipt_state_name (rstate r)))] @
     (case rresult r of None \<Rightarrow> [] | Some v \<Rightarrow> [(''result'', v)]))"

definition assertSameIdentity :: "MutationReceiptIdentity \<Rightarrow> MutationReceiptIdentity \<Rightarrow> unit result" where
  "assertSameIdentity existing requested =
    (if workspaceId existing \<noteq> workspaceId requested \<or> operation existing \<noteq> operation requested \<or>
        targetResource existing \<noteq> targetResource requested \<or>
        canonicalArgumentsDigest existing \<noteq> canonicalArgumentsDigest requested \<or> idempotencyKey existing \<noteq> idempotencyKey requested
     then Inl (AppError SOURCE_CONTROL_IDEMPOTENCY_CONFLICT) else Inr ())"

definition reserveMutationReceipt :: "MutationReceipt option \<Rightarrow> MutationReceiptIdentity \<Rightarrow> MutationReceiptReservation result" where
  "reserveMutationReceipt existing d = then_parse (parse_identity d) (\<lambda>d.
    case existing of
      None \<Rightarrow> Inr \<lparr>disposition_of = Execute, receipt = \<lparr>identity = d, rstate = Reserved, rresult = None\<rparr>\<rparr>
    | Some old \<Rightarrow> then_parse (parseMutationReceipt (receipt_value old)) (\<lambda>old.
        then_parse (assertSameIdentity (identity old) d) (\<lambda>_.
        Inr \<lparr>disposition_of = (if rstate old = Completed then ReplayCompleted else DispositionReconciliationRequired), receipt = old\<rparr>)))"

definition requireExistingReceipt :: "MutationReceipt option \<Rightarrow> MutationReceiptIdentity \<Rightarrow> MutationReceipt result" where
  "requireExistingReceipt existing d = (case existing of
     None \<Rightarrow> Inl (AppError EXECUTION_STATE_INVALID)
   | Some old \<Rightarrow> then_parse (parse_identity d) (\<lambda>d. then_parse (parseMutationReceipt (receipt_value old)) (\<lambda>old.
       then_parse (assertSameIdentity (identity old) d) (\<lambda>_. Inr old))))"

definition markMutationReceiptExecuting :: "MutationReceipt option \<Rightarrow> MutationReceiptIdentity \<Rightarrow> MutationReceipt result" where
  "markMutationReceiptExecuting existing d = then_parse (requireExistingReceipt existing d) (\<lambda>r.
     if rstate r \<noteq> Reserved then Inl (AppError EXECUTION_STATE_INVALID)
     else Inr \<lparr>identity = identity r, rstate = Executing, rresult = None\<rparr>)"

definition markMutationReceiptReconciliationRequired :: "MutationReceipt option \<Rightarrow> MutationReceiptIdentity \<Rightarrow> MutationReceipt result" where
  "markMutationReceiptReconciliationRequired existing d = then_parse (requireExistingReceipt existing d) (\<lambda>r.
     if rstate r = ReconciliationRequired then Inr r
     else if rstate r \<noteq> Executing then Inl (AppError EXECUTION_STATE_INVALID)
     else Inr \<lparr>identity = identity r, rstate = ReconciliationRequired, rresult = None\<rparr>)"

definition markMutationReceiptCompleted :: "MutationReceipt option \<Rightarrow> MutationReceiptIdentity \<Rightarrow> js_value \<Rightarrow> MutationReceipt result" where
  "markMutationReceiptCompleted existing d v = then_parse (requireExistingReceipt existing d) (\<lambda>r.
     if rstate r \<noteq> Executing \<and> rstate r \<noteq> ReconciliationRequired then Inl (AppError EXECUTION_STATE_INVALID)
     else then_parse (parsePublicResultValue v) (\<lambda>u. Inr \<lparr>identity = identity r, rstate = Completed, rresult = Some u\<rparr>))"

section \<open>The store in memory\<close>

type_synonym receipts = "(string, MutationReceipt) jsMap"

definition mem_reserve :: "MutationReceiptIdentity \<Rightarrow> (receipts, MutationReceiptReservation) op" where
  "mem_reserve d m = (case parse_identity d of
     Inl e \<Rightarrow> (Inl e, m)
   | Inr p \<Rightarrow> (case reserveMutationReceipt (Map_get m (idempotencyKey p)) p of
       Inl e \<Rightarrow> (Inl e, m)
     | Inr v \<Rightarrow> (Inr v, if disposition_of v = Execute then Map_set m (idempotencyKey p) (receipt v) else m)))"

definition mem_update :: "(MutationReceipt option \<Rightarrow> MutationReceiptIdentity \<Rightarrow> MutationReceipt result) \<Rightarrow> MutationReceiptIdentity \<Rightarrow>
    (receipts, MutationReceipt) op" where
  "mem_update f d m = (case parse_identity d of
     Inl e \<Rightarrow> (Inl e, m)
   | Inr p \<Rightarrow> (case f (Map_get m (idempotencyKey p)) p of Inl e \<Rightarrow> (Inl e, m) | Inr r \<Rightarrow> (Inr r, Map_set m (idempotencyKey p) r)))"

definition mem_markExecuting :: "MutationReceiptIdentity \<Rightarrow> (receipts, MutationReceipt) op" where
  "mem_markExecuting = mem_update markMutationReceiptExecuting"

definition mem_markReconciliationRequired :: "MutationReceiptIdentity \<Rightarrow> (receipts, MutationReceipt) op" where
  "mem_markReconciliationRequired = mem_update markMutationReceiptReconciliationRequired"

definition mem_markCompleted :: "MutationReceiptIdentity \<Rightarrow> js_value \<Rightarrow> (receipts, MutationReceipt) op" where
  "mem_markCompleted d v = mem_update (\<lambda>old p. markMutationReceiptCompleted old p v) d"

definition mem_get :: "string \<Rightarrow> receipts \<Rightarrow> MutationReceipt option" where
  "mem_get key m = Map_get m key"

section \<open>Calls\<close>

text \<open>What the outside decides in one operation of a store on files; the store in memory is not affected.\<close>

record receipt_io =
  read_fails :: bool
  write_fails :: bool

datatype receipt_call = CallReserve MutationReceiptIdentity | CallExecuting MutationReceiptIdentity
  | CallReconciliation MutationReceiptIdentity | CallCompleted MutationReceiptIdentity js_value

datatype receipt_answer = Reservation MutationReceiptReservation | Receipt MutationReceipt

definition answer_with :: "('a \<Rightarrow> receipt_answer) \<Rightarrow> 'a result \<times> 's \<Rightarrow> receipt_answer result \<times> 's" where
  "answer_with f p = (map_sum id f (fst p), snd p)"

definition mem_perform :: "receipt_io \<Rightarrow> receipt_call \<Rightarrow> (receipts, receipt_answer) op" where
  "mem_perform e c m = (case c of
     CallReserve d \<Rightarrow> answer_with Reservation (mem_reserve d m)
   | CallExecuting d \<Rightarrow> answer_with Receipt (mem_markExecuting d m)
   | CallReconciliation d \<Rightarrow> answer_with Receipt (mem_markReconciliationRequired d m)
   | CallCompleted d v \<Rightarrow> answer_with Receipt (mem_markCompleted d v m))"

fun perform_all :: "('e \<Rightarrow> 'c \<Rightarrow> ('s, 'a) op) \<Rightarrow> ('e \<times> 'c) list \<Rightarrow> 's \<Rightarrow> 'a result list \<times> 's" where
  "perform_all perform [] s = ([], s)"
| "perform_all perform (c # cs) s = (case perform (fst c) (snd c) s of (a, s') \<Rightarrow>
    (case perform_all perform cs s' of (as, s'') \<Rightarrow> (a # as, s'')))"

definition call_identity :: "receipt_call \<Rightarrow> MutationReceiptIdentity" where
  "call_identity c = (case c of CallReserve d \<Rightarrow> d | CallExecuting d \<Rightarrow> d | CallReconciliation d \<Rightarrow> d | CallCompleted d _ \<Rightarrow> d)"

section \<open>What the schemas accept\<close>

lemma trim_trim [simp]: "trim (trim s) = trim s"
proof -
  let ?u = "dropWhile is_space s"
  let ?t = "rev (dropWhile is_space (rev ?u))"
  have idem: "dropWhile is_space (dropWhile is_space xs) = dropWhile is_space xs" for xs
    by (induction xs) auto
  have "dropWhile is_space ?t = ?t"
  proof (cases ?t)
    case (Cons c cs)
    obtain zs where "?u = ?t @ zs"
      by (metis rev_append rev_rev_ident takeWhile_dropWhile_id)
    with Cons have "hd ?u = c" "?u \<noteq> []" by (auto simp: hd_append)
    then have "\<not> is_space c" using hd_dropWhile [of is_space s] by auto
    with Cons show ?thesis by simp
  next
    case Nil
    then show ?thesis by (metis dropWhile.simps(1))
  qed
  then show ?thesis by (simp add: trim_def idem)
qed

definition identity_ok :: "MutationReceiptIdentity \<Rightarrow> bool" where
  "identity_ok d = (trim (workspaceId d) \<noteq> [] \<and> (operation d \<in> set SOURCE_CONTROL_OPERATIONS \<or> operation d = ''oracle_release_advance'') \<and>
     trim (targetResource d) \<noteq> [] \<and> length (trim (targetResource d)) \<le> 512 \<and> hex64 (canonicalArgumentsDigest d) \<and>
     trim (idempotencyKey d) \<noteq> [] \<and> length (trim (idempotencyKey d)) \<le> 512)"

definition trimmed :: "MutationReceiptIdentity \<Rightarrow> MutationReceiptIdentity" where
  "trimmed d = d\<lparr>workspaceId := trim (workspaceId d), targetResource := trim (targetResource d), idempotencyKey := trim (idempotencyKey d)\<rparr>"

lemma parse_identity_eq: "parse_identity d = (if identity_ok d then Inr (trimmed d) else Inl ZodError)"
  by (simp add: parse_identity_def mutationReceiptIdentitySchema_def identity_value_def Map_get_def parse_text_def parse_where_def
      identity_fields_def identity_ok_def trimmed_def Let_def)

lemma trimmed_simps [simp]:
  "trimmed (trimmed d) = trimmed d" "identity_ok (trimmed d) = identity_ok d" "idempotencyKey (trimmed d) = trim (idempotencyKey d)"
  by (simp_all add: trimmed_def identity_ok_def)

text \<open>A value that may be stored: no secret, no lost property and nothing JSON cannot hold, at any depth.\<close>

fun public_value :: "js_value \<Rightarrow> bool" and public_items :: "js_value list \<Rightarrow> bool" and public_fields :: "(string \<times> js_value) list \<Rightarrow> bool" where
  "public_value (JsNumber n) = (n \<noteq> NonFinite)"
| "public_value (JsArray vs) = public_items vs"
| "public_value (JsObject ps) = public_fields ps"
| "public_value (JsOther kind) = False"
| "public_value JsUndefined = False"
| "public_value (JsInstance ps) = False"
| "public_value _ = True"
| "public_items [] = True"
| "public_items (v # vs) = (public_value v \<and> public_items vs)"
| "public_fields [] = True"
| "public_fields ((key, v) # ps) = (\<not> isSensitiveReceiptField key \<and> key \<noteq> ''__proto__'' \<and> public_value v \<and> public_fields ps)"

lemma parse_public:
  "parsePublicResultValue v = Inr u \<Longrightarrow> public_value u"
  "parse_items vs = Inr us \<Longrightarrow> public_items us"
  "parse_fields ps = Inr qs \<Longrightarrow> public_fields qs"
  by (induction v and vs and ps arbitrary: u and us and qs rule: parsePublicResultValue_parse_items_parse_fields.induct)
    (auto simp: then_parse_Inr split: js_number.splits if_splits)

lemma public_parse:
  "public_value v \<Longrightarrow> parsePublicResultValue v = Inr v"
  "public_items vs \<Longrightarrow> parse_items vs = Inr vs"
  "public_fields ps \<Longrightarrow> parse_fields ps = Inr ps"
  by (induction v and vs and ps rule: parsePublicResultValue_parse_items_parse_fields.induct) (auto split: js_number.splits)

definition receipt_ok :: "MutationReceipt \<Rightarrow> bool" where
  "receipt_ok r = (identity_ok (identity r) \<and> trimmed (identity r) = identity r \<and>
     (case rresult r of None \<Rightarrow> rstate r \<noteq> Completed | Some v \<Rightarrow> rstate r = Completed \<and> public_value v))"

lemma receipt_state_schema [simp]: "mutationReceiptStateSchema (Some (JsString (receipt_state_name s))) = Inr s"
  by (cases s) (simp_all add: mutationReceiptStateSchema_def receipt_state_name_def)

lemma parse_receipt_value: "receipt_ok r \<Longrightarrow> parseMutationReceipt (receipt_value r) = Inr r"
  using parse_identity_eq [of "identity r"]
  by (cases "rresult r") (auto simp: parseMutationReceipt_def receipt_value_def receipt_ok_def Map_get_def Map_has_def parse_identity_def public_parse)

lemma identity_schema_ok:
  assumes "mutationReceiptIdentitySchema v = Inr d"
  shows "identity_ok d \<and> trimmed d = d"
proof -
  have tx: "t = trim t \<and> t \<noteq> [] \<and> (\<forall>m. limit = Some m \<longrightarrow> length t \<le> m)" if "parse_text x limit = Inr t" for x limit t
    using that by (auto simp: parse_text_def Let_def split: option.splits js_value.splits if_splits)
  have wh: "P t" if "parse_where x P = Inr t" for x P t
    using that by (auto simp: parse_where_def split: option.splits js_value.splits if_splits)
  from assms show ?thesis
    by (auto simp: mutationReceiptIdentitySchema_def then_parse_Inr identity_ok_def trimmed_def
        split: js_value.splits if_splits dest!: tx wh)
qed

lemma parse_receipt_ok: "parseMutationReceipt v = Inr r \<Longrightarrow> receipt_ok r"
  by (auto simp: parseMutationReceipt_def receipt_ok_def then_parse_Inr split: js_value.splits if_splits option.splits
      dest!: identity_schema_ok parse_public(1))

section \<open>What a store promises\<close>

text \<open>The life of the receipt of one key.\<close>

inductive receipt_step :: "MutationReceipt option \<Rightarrow> MutationReceipt option \<Rightarrow> bool" where
  created: "receipt_step None (Some \<lparr>identity = d, rstate = Reserved, rresult = None\<rparr>)"
| started: "rstate r = Reserved \<Longrightarrow> receipt_step (Some r) (Some \<lparr>identity = identity r, rstate = Executing, rresult = None\<rparr>)"
| unknown: "rstate r = Executing \<Longrightarrow> receipt_step (Some r) (Some \<lparr>identity = identity r, rstate = ReconciliationRequired, rresult = None\<rparr>)"
| finished: "rstate r = Executing \<or> rstate r = ReconciliationRequired \<Longrightarrow> public_value v \<Longrightarrow>
    receipt_step (Some r) (Some \<lparr>identity = identity r, rstate = Completed, rresult = Some v\<rparr>)"

inductive_cases receipt_stepE: "receipt_step old new"

definition executes :: "string \<Rightarrow> receipt_answer result \<Rightarrow> bool" where
  "executes k a = (case a of Inr (Reservation v) \<Rightarrow> disposition_of v = Execute \<and> idempotencyKey (identity (receipt v)) = k | _ \<Rightarrow> False)"

text \<open>
  The interface \<open>MutationReceiptStore\<close>: an operation moves the receipt of each key by at most one step of its life, tells a caller to execute
  only when it has created the receipt, and replays only what is stored.
\<close>

locale receipt_store =
  fixes lookup :: "'s \<Rightarrow> string \<Rightarrow> MutationReceipt option"
    and perform :: "receipt_io \<Rightarrow> receipt_call \<Rightarrow> ('s, receipt_answer) op"
    and valid :: "'s \<Rightarrow> bool"
    and proper :: "receipt_call \<Rightarrow> bool"
  assumes keeps_valid: "valid s \<Longrightarrow> proper c \<Longrightarrow> valid (snd (perform e c s))"
    and steps: "valid s \<Longrightarrow> proper c \<Longrightarrow> lookup (snd (perform e c s)) k = lookup s k \<or> receipt_step (lookup s k) (lookup (snd (perform e c s)) k)"
    and creates: "valid s \<Longrightarrow> proper c \<Longrightarrow> executes k (fst (perform e c s)) \<Longrightarrow> lookup s k = None \<and> lookup (snd (perform e c s)) k \<noteq> None"
    and replays: "valid s \<Longrightarrow> proper c \<Longrightarrow> fst (perform e c s) = Inr (Reservation v) \<Longrightarrow> disposition_of v = ReplayCompleted \<Longrightarrow>
      lookup s (idempotencyKey (identity (receipt v))) = Some (receipt v) \<and> rstate (receipt v) = Completed"
begin

lemma perform_present: "valid s \<Longrightarrow> proper c \<Longrightarrow> lookup s k \<noteq> None \<Longrightarrow> lookup (snd (perform e c s)) k \<noteq> None"
  using steps [of s c e k] by (auto elim: receipt_stepE)

lemma perform_completed:
  "valid s \<Longrightarrow> proper c \<Longrightarrow> lookup s k = Some r \<Longrightarrow> rstate r = Completed \<Longrightarrow> lookup (snd (perform e c s)) k = Some r"
  using steps [of s c e k] by (auto elim: receipt_stepE)

lemma perform_identity:
  "valid s \<Longrightarrow> proper c \<Longrightarrow> lookup s k = Some r \<Longrightarrow> \<exists>r'. lookup (snd (perform e c s)) k = Some r' \<and> identity r' = identity r"
  using steps [of s c e k] by (auto elim: receipt_stepE)

text \<open>Over any sequence of proper calls.\<close>

lemma executes_at_most_once:
  assumes "valid s" "list_all (\<lambda>c. proper (snd c)) cs" "perform_all perform cs s = (as, s')"
  shows "valid s' \<and> length (filter (executes k) as) \<le> (if lookup s k = None then 1 else 0)"
  using assms
proof (induction cs arbitrary: s as)
  case (Cons c cs)
  obtain a s1 as1 where p: "perform (fst c) (snd c) s = (a, s1)" "perform_all perform cs s1 = (as1, s')" "as = a # as1"
    using Cons.prems(3) by (auto split: prod.splits)
  have c: "proper (snd c)" "list_all (\<lambda>c. proper (snd c)) cs" using Cons.prems(2) by auto
  have v: "valid s1" using keeps_valid [OF Cons.prems(1) c(1), of "fst c"] p(1) by simp
  have "executes k a \<Longrightarrow> lookup s k = None \<and> lookup s1 k \<noteq> None" using creates [OF Cons.prems(1) c(1), of k "fst c"] p(1) by simp
  moreover have "lookup s k \<noteq> None \<Longrightarrow> lookup s1 k \<noteq> None" using perform_present [OF Cons.prems(1) c(1), of k "fst c"] p(1) by simp
  ultimately show ?case using Cons.IH [OF v c(2) p(2)] p(3) by (auto split: if_splits)
qed auto

lemma identity_kept:
  assumes "valid s" "list_all (\<lambda>c. proper (snd c)) cs" "perform_all perform cs s = (as, s')" "lookup s k = Some r"
  shows "\<exists>r'. lookup s' k = Some r' \<and> identity r' = identity r \<and> (rstate r = Completed \<longrightarrow> r' = r)"
  using assms
proof (induction cs arbitrary: s as r)
  case (Cons c cs)
  obtain a s1 as1 where p: "perform (fst c) (snd c) s = (a, s1)" "perform_all perform cs s1 = (as1, s')"
    using Cons.prems(3) by (auto split: prod.splits)
  have c: "proper (snd c)" "list_all (\<lambda>c. proper (snd c)) cs" using Cons.prems(2) by auto
  have v: "valid s1" using keeps_valid [OF Cons.prems(1) c(1), of "fst c"] p(1) by simp
  obtain r1 where r1: "lookup s1 k = Some r1" "identity r1 = identity r" "rstate r = Completed \<Longrightarrow> r1 = r"
    using perform_identity [OF Cons.prems(1) c(1) Cons.prems(4), of "fst c"] perform_completed [OF Cons.prems(1) c(1) Cons.prems(4), of "fst c"] p(1)
    by fastforce
  from Cons.IH [OF v c(2) p(2) r1(1)] r1(2,3) show ?case by auto
qed auto

end

section \<open>The transitions\<close>

lemma same_identity [simp]: "assertSameIdentity a b = (if a = b then Inr () else Inl (AppError SOURCE_CONTROL_IDEMPOTENCY_CONFLICT))"
  by (cases a; cases b) (auto simp: assertSameIdentity_def)

definition fresh_receipt :: "MutationReceiptIdentity \<Rightarrow> MutationReceipt" where
  "fresh_receipt d = \<lparr>identity = d, rstate = Reserved, rresult = None\<rparr>"

lemma reserve_cases:
  assumes "reserveMutationReceipt existing d = Inr v" "\<And>r. existing = Some r \<Longrightarrow> receipt_ok r"
  shows "identity_ok d \<and> (case existing of None \<Rightarrow> v = \<lparr>disposition_of = Execute, receipt = fresh_receipt (trimmed d)\<rparr>
    | Some r \<Rightarrow> identity r = trimmed d \<and> v = \<lparr>disposition_of = (if rstate r = Completed then ReplayCompleted else DispositionReconciliationRequired), receipt = r\<rparr>)"
  using assms
  by (auto simp: reserveMutationReceipt_def parse_identity_eq then_parse_Inr parse_receipt_value fresh_receipt_def split: option.splits if_splits)

lemma require_cases:
  assumes "requireExistingReceipt existing d = Inr r" "\<And>r. existing = Some r \<Longrightarrow> receipt_ok r"
  shows "existing = Some r \<and> identity r = trimmed d"
  using assms
  by (auto simp: requireExistingReceipt_def parse_identity_eq then_parse_Inr parse_receipt_value split: option.splits if_splits)

text \<open>A transition of an existing receipt: it keeps the receipt, or takes one step of its life.\<close>

definition receipt_transition :: "(MutationReceipt option \<Rightarrow> MutationReceiptIdentity \<Rightarrow> MutationReceipt result) \<Rightarrow> bool" where
  "receipt_transition f = (\<forall>existing d r'. (\<forall>r. existing = Some r \<longrightarrow> receipt_ok r) \<longrightarrow> f existing d = Inr r' \<longrightarrow>
     (\<exists>r. existing = Some r \<and> identity r = trimmed d \<and> identity r' = identity r \<and> receipt_ok r' \<and> (r' = r \<or> receipt_step (Some r) (Some r'))))"

lemma transition_executing: "receipt_transition markMutationReceiptExecuting"
  by (auto simp: receipt_transition_def markMutationReceiptExecuting_def then_parse_Inr receipt_ok_def intro: started dest!: require_cases
      split: if_splits)

lemma transition_reconciliation: "receipt_transition markMutationReceiptReconciliationRequired"
  by (auto simp: receipt_transition_def markMutationReceiptReconciliationRequired_def then_parse_Inr receipt_ok_def intro: unknown dest!: require_cases
      split: if_splits)

lemma transition_completed: "receipt_transition (\<lambda>existing d. markMutationReceiptCompleted existing d v)"
  by (auto simp: receipt_transition_def markMutationReceiptCompleted_def then_parse_Inr receipt_ok_def intro: finished dest!: require_cases parse_public(1)
      split: if_splits)

lemmas transitions = transition_executing transition_reconciliation transition_completed

section \<open>The stores against the life of a receipt\<close>

text \<open>The operations on a function from keys to receipts, which both stores implement.\<close>

type_synonym receipt_map = "string \<Rightarrow> MutationReceipt option"

definition spec_reserve :: "MutationReceiptIdentity \<Rightarrow> (receipt_map, MutationReceiptReservation) op" where
  "spec_reserve d l = (case reserveMutationReceipt (l (trim (idempotencyKey d))) d of
     Inl e \<Rightarrow> (Inl e, l)
   | Inr v \<Rightarrow> (Inr v, if disposition_of v = Execute then l(trim (idempotencyKey d) \<mapsto> receipt v) else l))"

definition spec_update :: "(MutationReceipt option \<Rightarrow> MutationReceiptIdentity \<Rightarrow> MutationReceipt result) \<Rightarrow> MutationReceiptIdentity \<Rightarrow>
    (receipt_map, MutationReceipt) op" where
  "spec_update f d l = (case f (l (trim (idempotencyKey d))) d of Inl e \<Rightarrow> (Inl e, l) | Inr r \<Rightarrow> (Inr r, l(trim (idempotencyKey d) \<mapsto> r)))"

definition spec_perform :: "receipt_call \<Rightarrow> (receipt_map, receipt_answer) op" where
  "spec_perform c l = (case c of
     CallReserve d \<Rightarrow> answer_with Reservation (spec_reserve d l)
   | CallExecuting d \<Rightarrow> answer_with Receipt (spec_update markMutationReceiptExecuting d l)
   | CallReconciliation d \<Rightarrow> answer_with Receipt (spec_update markMutationReceiptReconciliationRequired d l)
   | CallCompleted d v \<Rightarrow> answer_with Receipt (spec_update (\<lambda>old p. markMutationReceiptCompleted old p v) d l))"

definition map_ok :: "receipt_map \<Rightarrow> bool" where
  "map_ok l = (\<forall>k r. l k = Some r \<longrightarrow> receipt_ok r \<and> idempotencyKey (identity r) = k)"

definition step_law :: "receipt_map \<Rightarrow> receipt_answer result \<Rightarrow> receipt_map \<Rightarrow> bool" where
  "step_law l a l' = (map_ok l' \<and> (\<forall>k. l' k = l k \<or> receipt_step (l k) (l' k)) \<and> (\<forall>k. executes k a \<longrightarrow> l k = None \<and> l' k \<noteq> None) \<and>
     (\<forall>v. a = Inr (Reservation v) \<longrightarrow> disposition_of v = ReplayCompleted \<longrightarrow>
       l (idempotencyKey (identity (receipt v))) = Some (receipt v) \<and> rstate (receipt v) = Completed))"

lemma step_law_error: "map_ok l \<Longrightarrow> step_law l (Inl e) l"
  by (simp add: step_law_def executes_def)

lemma trimmed_key: "trimmed d = d \<Longrightarrow> trim (idempotencyKey d) = idempotencyKey d"
  by (metis trimmed_simps(3))

lemma spec_update_law:
  assumes "map_ok l" "receipt_transition f"
  shows "step_law l (fst (answer_with Receipt (spec_update f d l))) (snd (answer_with Receipt (spec_update f d l)))"
proof (cases "f (l (trim (idempotencyKey d))) d")
  case (Inl e)
  then show ?thesis using step_law_error [OF assms(1)] by (simp add: spec_update_def answer_with_def)
next
  case (Inr r')
  have "\<forall>r. l (trim (idempotencyKey d)) = Some r \<longrightarrow> receipt_ok r" using assms(1) by (simp add: map_ok_def)
  with assms(2) Inr obtain r where r: "l (trim (idempotencyKey d)) = Some r" "identity r = trimmed d" "identity r' = identity r" "receipt_ok r'"
      "r' = r \<or> receipt_step (Some r) (Some r')" unfolding receipt_transition_def by blast
  then show ?thesis using assms(1) Inr by (auto simp: spec_update_def answer_with_def step_law_def map_ok_def executes_def)
qed

lemma spec_reserve_law:
  assumes "map_ok l"
  shows "step_law l (fst (answer_with Reservation (spec_reserve d l))) (snd (answer_with Reservation (spec_reserve d l)))"
proof (cases "reserveMutationReceipt (l (trim (idempotencyKey d))) d")
  case (Inl e)
  then show ?thesis using step_law_error [OF assms] by (simp add: spec_reserve_def answer_with_def)
next
  case (Inr v)
  have "\<And>r. l (trim (idempotencyKey d)) = Some r \<Longrightarrow> receipt_ok r" using assms by (simp add: map_ok_def)
  from reserve_cases [OF Inr this] Inr assms show ?thesis
    by (cases "l (trim (idempotencyKey d))")
      (auto simp: spec_reserve_def answer_with_def step_law_def map_ok_def executes_def fresh_receipt_def receipt_ok_def intro: created)
qed

lemma spec_perform_law: "map_ok l \<Longrightarrow> step_law l (fst (spec_perform c l)) (snd (spec_perform c l))"
  by (cases c) (simp_all add: spec_perform_def spec_reserve_law spec_update_law transitions)

subsection \<open>In memory\<close>

lemma parse_trimmed [simp]: "parse_identity (trimmed d) = parse_identity d"
  by (simp add: parse_identity_eq)

lemma transitions_trimmed [simp]:
  "reserveMutationReceipt existing (trimmed d) = reserveMutationReceipt existing d"
  "markMutationReceiptExecuting existing (trimmed d) = markMutationReceiptExecuting existing d"
  "markMutationReceiptReconciliationRequired existing (trimmed d) = markMutationReceiptReconciliationRequired existing d"
  "markMutationReceiptCompleted existing (trimmed d) v = markMutationReceiptCompleted existing d v"
  by (simp_all add: reserveMutationReceipt_def markMutationReceiptExecuting_def markMutationReceiptReconciliationRequired_def
      markMutationReceiptCompleted_def requireExistingReceipt_def cong: option.case_cong)

text \<open>The store in memory is the specification on the lookups of its map; an invalid identity is refused.\<close>

lemma mem_perform_spec:
  "if identity_ok (call_identity c) then fst (mem_perform e c m) = fst (spec_perform c (Map_get m)) \<and> Map_get (snd (mem_perform e c m)) = snd (spec_perform c (Map_get m))
   else fst (mem_perform e c m) = Inl ZodError \<and> snd (mem_perform e c m) = m"
  by (cases c) (auto simp: mem_perform_def spec_perform_def answer_with_def mem_reserve_def mem_markExecuting_def mem_markReconciliationRequired_def
      mem_markCompleted_def mem_update_def spec_reserve_def spec_update_def parse_identity_eq call_identity_def Map_get_set fun_eq_iff split: sum.splits)

lemma mem_law: "map_ok (Map_get m) \<Longrightarrow> step_law (Map_get m) (fst (mem_perform e c m)) (Map_get (snd (mem_perform e c m)))"
  using mem_perform_spec [of c e m] spec_perform_law [of "Map_get m" c] step_law_error [of "Map_get m"] by (auto split: if_splits)

interpretation memory: receipt_store Map_get mem_perform "\<lambda>m. map_ok (Map_get m)" "\<lambda>_. True"
proof
  fix m :: receipts and c :: receipt_call and e :: receipt_io
  assume "map_ok (Map_get m)"
  note law = mem_law [OF this, of e c, unfolded step_law_def]
  show "map_ok (Map_get (snd (mem_perform e c m)))" using law by blast
  show "Map_get (snd (mem_perform e c m)) k = Map_get m k \<or> receipt_step (Map_get m k) (Map_get (snd (mem_perform e c m)) k)" for k using law by blast
  show "Map_get m k = None \<and> Map_get (snd (mem_perform e c m)) k \<noteq> None" if "executes k (fst (mem_perform e c m))" for k using law that by blast
  show "Map_get m (idempotencyKey (identity (receipt v))) = Some (receipt v) \<and> rstate (receipt v) = Completed"
    if "fst (mem_perform e c m) = Inr (Reservation v)" "disposition_of v = ReplayCompleted" for v using law that by blast
qed

section \<open>A sample store\<close>

definition demo_identity :: "string \<Rightarrow> MutationReceiptIdentity" where
  "demo_identity k = \<lparr>workspaceId = ''ws'', operation = ''git_push_branch'', targetResource = ''origin/main'',
     canonicalArgumentsDigest = replicate 64 (CHR ''0''), idempotencyKey = k\<rparr>"

definition demo_ok :: receipt_io where
  "demo_ok = \<lparr>read_fails = False, write_fails = False\<rparr>"

definition demo_result :: js_value where
  "demo_result = JsObject [(''sha'', JsString ''abc''), (''count'', JsNumber (Finite 2 0))]"

definition demo_receipt :: "MutationReceiptState \<Rightarrow> js_value option \<Rightarrow> MutationReceipt" where
  "demo_receipt s v = \<lparr>identity = demo_identity ''k1'', rstate = s, rresult = v\<rparr>"

lemma demo_key: "idempotencyKey (demo_identity k) = k"
  by (simp add: demo_identity_def)

lemma demo_trim: "trim ''k1'' = ''k1''" "trim '' k1'' = ''k1''"
  by code_simp+

lemma demo_identity_ok: "identity_ok (demo_identity ''k1'')"
  by code_simp

lemma demo_identity_trimmed: "trimmed (demo_identity ''k1'') = demo_identity ''k1''" "trimmed (demo_identity '' k1'') = demo_identity ''k1''"
proof -
  have "trim ''ws'' = ''ws''" "trim ''origin/main'' = ''origin/main''" by code_simp+
  then show "trimmed (demo_identity ''k1'') = demo_identity ''k1''" "trimmed (demo_identity '' k1'') = demo_identity ''k1''"
    by (simp_all add: trimmed_def demo_identity_def demo_trim)
qed

lemma demo_identity_parsed: "parse_identity (demo_identity ''k1'') = Inr (demo_identity ''k1'')" "parse_identity (demo_identity '' k1'') = Inr (demo_identity ''k1'')"
  using demo_identity_ok trimmed_simps(2) [of "demo_identity '' k1''"] by (simp_all add: parse_identity_eq demo_identity_trimmed)

lemma demo_public: "public_value demo_result"
  by code_simp

lemma demo_receipt_parsed:
  "s \<noteq> Completed \<Longrightarrow> parseMutationReceipt (receipt_value (demo_receipt s None)) = Inr (demo_receipt s None)"
  "parseMutationReceipt (receipt_value (demo_receipt Completed (Some demo_result))) = Inr (demo_receipt Completed (Some demo_result))"
  using demo_identity_ok demo_public
  by (simp_all add: parse_receipt_value receipt_ok_def demo_receipt_def demo_identity_trimmed)

section \<open>Properties\<close>

text \<open>
  Receipts read back as written, and hold nothing secret: after any calls on the store in memory with any arguments, every receipt passes
  \<open>parseMutationReceipt\<close> unchanged, is stored under its own trimmed key, has a result exactly when it is completed, and this result has at no depth a
  property with a secret name or a value that JSON cannot hold.
\<close>

theorem stored_receipts_public:
  assumes "perform_all mem_perform cs [] = (as, m)" and "mem_get k m = Some r"
  shows "parseMutationReceipt (receipt_value r) = Inr r \<and> idempotencyKey (identity r) = k \<and> trim k = k \<and>
    (case rresult r of None \<Rightarrow> rstate r \<noteq> Completed | Some v \<Rightarrow> rstate r = Completed \<and> public_value v \<and> parsePublicResultValue v = Inr v)"
proof -
  have "map_ok (Map_get ([] :: receipts))" by (simp add: map_ok_def)
  then have "map_ok (Map_get m)" using memory.executes_at_most_once [of "[]" cs as m] assms(1) by (simp add: list_all_iff)
  then have r: "receipt_ok r" "idempotencyKey (identity r) = k" using assms(2) by (auto simp: map_ok_def mem_get_def)
  then have "trim k = k" using trimmed_key [of "identity r"] by (auto simp: receipt_ok_def)
  with r parse_receipt_value [OF r(1)] show ?thesis by (auto simp: receipt_ok_def public_parse split: option.splits)
qed

end
