(* ===== verification/FileReceiptStore.thy ===== *)
theory FileReceiptStore
  imports MutationReceipts
begin

text \<open>
  The store of mutation receipts on files, \<open>services/workspace-agent/src/source-control/file-mutation-receipt-store.ts\<close>, an instance
  \<open>disk\<close> of the locale \<open>receipt_store\<close> and an implementation of the store in memory. The queue that runs the operations of one key one after the other is
  not modelled: an operation is one step. SHA-256 and \<open>path.join\<close> are parameters.
\<close>

section \<open>The store on files\<close>

text \<open>
  The content of a file is its parsed JSON, or text that is none. What the outside decides in one operation: whether reading fails, and
  whether making the directory, writing the temporary file or renaming it fails. A failed write leaves the file as it was.
\<close>

datatype receipt_text = ReceiptJson js_value | InvalidJson

type_synonym receipt_files = "(string, receipt_text) jsMap"

record FileMutationReceiptStore =
  receiptDirectory :: string
  sha256 :: "string \<Rightarrow> string"
  path_join :: "string \<Rightarrow> string \<Rightarrow> string"

definition receiptPath :: "FileMutationReceiptStore \<Rightarrow> string \<Rightarrow> string" where
  "receiptPath D key = path_join D (receiptDirectory D) (sha256 D key @ ''.json'')"

definition readReceipt :: "FileMutationReceiptStore \<Rightarrow> receipt_io \<Rightarrow> receipt_files \<Rightarrow> string \<Rightarrow> MutationReceipt option result" where
  "readReceipt D e fs key =
    (if read_fails e then Inl PlainError
     else (case Map_get fs (receiptPath D key) of
       None \<Rightarrow> Inr None
     | Some InvalidJson \<Rightarrow> Inl PlainError
     | Some (ReceiptJson v) \<Rightarrow> then_parse (parseMutationReceipt v) (\<lambda>r. Inr (Some r))))"

definition writeReceipt :: "FileMutationReceiptStore \<Rightarrow> receipt_io \<Rightarrow> MutationReceipt \<Rightarrow> (receipt_files, unit) op" where
  "writeReceipt D e r fs = (case parseMutationReceipt (receipt_value r) of
     Inl err \<Rightarrow> (Inl err, fs)
   | Inr q \<Rightarrow> if write_fails e then (Inl PlainError, fs)
       else (Inr (), Map_set fs (receiptPath D (idempotencyKey (identity r))) (ReceiptJson (receipt_value q))))"

definition file_reserve :: "FileMutationReceiptStore \<Rightarrow> receipt_io \<Rightarrow> MutationReceiptIdentity \<Rightarrow> (receipt_files, MutationReceiptReservation) op" where
  "file_reserve D e d fs = (case then_parse (readReceipt D e fs (idempotencyKey d)) (\<lambda>existing. reserveMutationReceipt existing d) of
     Inl err \<Rightarrow> (Inl err, fs)
   | Inr v \<Rightarrow> if disposition_of v = Execute
       then (case writeReceipt D e (receipt v) fs of (Inl err, fs') \<Rightarrow> (Inl err, fs') | (Inr _, fs') \<Rightarrow> (Inr v, fs'))
       else (Inr v, fs))"

definition file_update :: "FileMutationReceiptStore \<Rightarrow> receipt_io \<Rightarrow> (MutationReceipt option \<Rightarrow> MutationReceiptIdentity \<Rightarrow> MutationReceipt result) \<Rightarrow>
    MutationReceiptIdentity \<Rightarrow> (receipt_files, MutationReceipt) op" where
  "file_update D e f d fs = (case then_parse (readReceipt D e fs (idempotencyKey d)) (\<lambda>existing. f existing d) of
     Inl err \<Rightarrow> (Inl err, fs)
   | Inr r \<Rightarrow> (case writeReceipt D e r fs of (Inl err, fs') \<Rightarrow> (Inl err, fs') | (Inr _, fs') \<Rightarrow> (Inr r, fs')))"

definition file_markExecuting :: "FileMutationReceiptStore \<Rightarrow> receipt_io \<Rightarrow> MutationReceiptIdentity \<Rightarrow> (receipt_files, MutationReceipt) op" where
  "file_markExecuting D e = file_update D e markMutationReceiptExecuting"

definition file_markReconciliationRequired :: "FileMutationReceiptStore \<Rightarrow> receipt_io \<Rightarrow> MutationReceiptIdentity \<Rightarrow> (receipt_files, MutationReceipt) op" where
  "file_markReconciliationRequired D e = file_update D e markMutationReceiptReconciliationRequired"

definition file_markCompleted :: "FileMutationReceiptStore \<Rightarrow> receipt_io \<Rightarrow> MutationReceiptIdentity \<Rightarrow> js_value \<Rightarrow> (receipt_files, MutationReceipt) op" where
  "file_markCompleted D e d v = file_update D e (\<lambda>old p. markMutationReceiptCompleted old p v) d"

definition file_get :: "FileMutationReceiptStore \<Rightarrow> receipt_io \<Rightarrow> string \<Rightarrow> receipt_files \<Rightarrow> MutationReceipt option result" where
  "file_get D e key fs = readReceipt D e fs key"

definition file_perform :: "FileMutationReceiptStore \<Rightarrow> receipt_io \<Rightarrow> receipt_call \<Rightarrow> (receipt_files, receipt_answer) op" where
  "file_perform D e c fs = (case c of
     CallReserve d \<Rightarrow> answer_with Reservation (file_reserve D e d fs)
   | CallExecuting d \<Rightarrow> answer_with Receipt (file_markExecuting D e d fs)
   | CallReconciliation d \<Rightarrow> answer_with Receipt (file_markReconciliationRequired D e d fs)
   | CallCompleted d v \<Rightarrow> answer_with Receipt (file_markCompleted D e d v fs))"

section \<open>The store against the life of a receipt\<close>

text \<open>
  What the store holds of the keys \<open>K\<close>: those that are in use. No digest of fixed length keeps all strings apart, so nothing can be said
  of all of them.
\<close>

definition file_lookup :: "FileMutationReceiptStore \<Rightarrow> string set \<Rightarrow> receipt_files \<Rightarrow> receipt_map" where
  "file_lookup D K fs k = (if k \<notin> K then None else case Map_get fs (receiptPath D k) of
     Some (ReceiptJson v) \<Rightarrow> (case parseMutationReceipt v of Inr r \<Rightarrow> Some r | Inl _ \<Rightarrow> None) | _ \<Rightarrow> None)"

text \<open>The files of the keys in use are as the store writes them, and these keys have different files: SHA-256 has no collision among them.\<close>

definition files_ok :: "FileMutationReceiptStore \<Rightarrow> string set \<Rightarrow> receipt_files \<Rightarrow> bool" where
  "files_ok D K fs = (inj_on (receiptPath D) K \<and> (\<forall>k \<in> K. \<forall>t. Map_get fs (receiptPath D k) = Some t \<longrightarrow>
     (\<exists>r. t = ReceiptJson (receipt_value r) \<and> receipt_ok r \<and> idempotencyKey (identity r) = k)))"

text \<open>A call with a key that is in use and has no white space around it.\<close>

definition trimmed_call :: "string set \<Rightarrow> receipt_call \<Rightarrow> bool" where
  "trimmed_call K c = (trim (idempotencyKey (call_identity c)) = idempotencyKey (call_identity c) \<and> idempotencyKey (call_identity c) \<in> K)"

lemma file_lookup_ok: "files_ok D K fs \<Longrightarrow> map_ok (file_lookup D K fs)"
  by (fastforce simp: files_ok_def map_ok_def file_lookup_def parse_receipt_value split: option.splits receipt_text.splits)

lemma read_ok:
  assumes "files_ok D K fs" "k \<in> K"
  shows "readReceipt D e fs k = (if read_fails e then Inl PlainError else Inr (file_lookup D K fs k))"
proof (cases "Map_get fs (receiptPath D k)")
  case (Some t)
  with assms obtain r where "t = ReceiptJson (receipt_value r)" "receipt_ok r" unfolding files_ok_def by blast
  with Some assms(2) show ?thesis by (simp add: readReceipt_def file_lookup_def parse_receipt_value)
qed (simp add: readReceipt_def file_lookup_def)

lemma write_ok:
  assumes "files_ok D K fs" "receipt_ok r" "idempotencyKey (identity r) \<in> K" "writeReceipt D e r fs = (a, fs')"
  shows "if write_fails e then a = Inl PlainError \<and> fs' = fs
    else a = Inr () \<and> files_ok D K fs' \<and> file_lookup D K fs' = (file_lookup D K fs)(idempotencyKey (identity r) \<mapsto> r)"
proof (cases "write_fails e")
  case True
  with assms show ?thesis by (simp add: writeReceipt_def parse_receipt_value)
next
  case False
  have i: "inj_on (receiptPath D) K" using assms(1) by (simp add: files_ok_def)
  have fs': "fs' = Map_set fs (receiptPath D (idempotencyKey (identity r))) (ReceiptJson (receipt_value r))" "a = Inr ()"
    using assms False by (simp_all add: writeReceipt_def parse_receipt_value)
  have "files_ok D K fs'" using assms(1-3) by (auto simp: files_ok_def fs' Map_get_set dest: inj_onD [OF i])
  moreover have "file_lookup D K fs' = (file_lookup D K fs)(idempotencyKey (identity r) \<mapsto> r)"
    using assms(3) by (auto simp: fun_eq_iff file_lookup_def fs' Map_get_set parse_receipt_value assms(2) dest: inj_onD [OF i])
  ultimately show ?thesis using False fs' by simp
qed

lemma file_update_spec:
  assumes fs: "files_ok D K fs" and f: "receipt_transition f" and d: "trim (idempotencyKey d) = idempotencyKey d" "idempotencyKey d \<in> K"
    and u: "file_update D e f d fs = (a, fs')"
  shows "(read_fails e \<or> write_fails e) \<and> (\<exists>err. a = Inl err) \<and> fs' = fs \<or>
    files_ok D K fs' \<and> spec_update f d (file_lookup D K fs) = (a, file_lookup D K fs')"
proof (cases "f (file_lookup D K fs (idempotencyKey d)) d")
  case (Inl err)
  with u fs d show ?thesis by (auto simp: file_update_def read_ok spec_update_def split: if_splits)
next
  case (Inr r)
  have "\<forall>r. file_lookup D K fs (idempotencyKey d) = Some r \<longrightarrow> receipt_ok r" using file_lookup_ok [OF fs] by (simp add: map_ok_def)
  with f Inr d(1) have r: "receipt_ok r" "idempotencyKey (identity r) = idempotencyKey d" unfolding receipt_transition_def by (metis trimmed_simps(3))+
  obtain b fs1 where w: "writeReceipt D e r fs = (b, fs1)" by force
  from write_ok [OF fs r(1) _ w] u fs d r(2) Inr w show ?thesis
    by (auto simp: file_update_def read_ok spec_update_def split: if_splits)
qed

lemma file_reserve_spec:
  assumes fs: "files_ok D K fs" and d: "trim (idempotencyKey d) = idempotencyKey d" "idempotencyKey d \<in> K" and u: "file_reserve D e d fs = (a, fs')"
  shows "(read_fails e \<or> write_fails e) \<and> (\<exists>err. a = Inl err) \<and> fs' = fs \<or>
    files_ok D K fs' \<and> spec_reserve d (file_lookup D K fs) = (a, file_lookup D K fs')"
proof (cases "reserveMutationReceipt (file_lookup D K fs (idempotencyKey d)) d")
  case (Inl err)
  with u fs d show ?thesis by (auto simp: file_reserve_def read_ok spec_reserve_def split: if_splits)
next
  case (Inr v)
  have ok: "receipt_ok r" if "file_lookup D K fs (idempotencyKey d) = Some r" for r using file_lookup_ok [OF fs] that by (simp add: map_ok_def)
  have v: "receipt_ok (receipt v) \<and> idempotencyKey (identity (receipt v)) = idempotencyKey d" if "disposition_of v = Execute"
    using reserve_cases [OF Inr ok] that d
    by (auto simp: fresh_receipt_def receipt_ok_def split: option.splits if_splits)
  obtain b fs1 where w: "writeReceipt D e (receipt v) fs = (b, fs1)" by force
  show ?thesis
  proof (cases "disposition_of v = Execute")
    case True
    from write_ok [OF fs _ _ w] v [OF True] u fs d Inr w True show ?thesis
      by (auto simp: file_reserve_def read_ok spec_reserve_def split: if_splits)
  next
    case False
    with u fs d Inr show ?thesis by (auto simp: file_reserve_def read_ok spec_reserve_def split: if_splits)
  qed
qed

lemma file_perform_spec:
  assumes fs: "files_ok D K fs" and c: "trimmed_call K c" and p: "file_perform D e c fs = (a, fs')"
  shows "(read_fails e \<or> write_fails e) \<and> (\<exists>err. a = Inl err) \<and> fs' = fs \<or>
    files_ok D K fs' \<and> spec_perform c (file_lookup D K fs) = (a, file_lookup D K fs')"
proof (cases c)
  case (CallReserve d)
  obtain b fs1 where r: "file_reserve D e d fs = (b, fs1)" by force
  with file_reserve_spec [OF fs _ _ r] c p CallReserve show ?thesis
    by (auto simp: file_perform_def spec_perform_def answer_with_def trimmed_call_def call_identity_def)
next
  case (CallExecuting d)
  obtain b fs1 where r: "file_update D e markMutationReceiptExecuting d fs = (b, fs1)" by force
  with file_update_spec [OF fs transitions(1) _ _ r] c p CallExecuting show ?thesis
    by (auto simp: file_perform_def file_markExecuting_def spec_perform_def answer_with_def trimmed_call_def call_identity_def)
next
  case (CallReconciliation d)
  obtain b fs1 where r: "file_update D e markMutationReceiptReconciliationRequired d fs = (b, fs1)" by force
  with file_update_spec [OF fs transitions(2) _ _ r] c p CallReconciliation show ?thesis
    by (auto simp: file_perform_def file_markReconciliationRequired_def spec_perform_def answer_with_def trimmed_call_def call_identity_def)
next
  case (CallCompleted d v)
  obtain b fs1 where r: "file_update D e (\<lambda>old p. markMutationReceiptCompleted old p v) d fs = (b, fs1)" by force
  with file_update_spec [OF fs transitions(3) _ _ r] c p CallCompleted show ?thesis
    by (auto simp: file_perform_def file_markCompleted_def spec_perform_def answer_with_def trimmed_call_def call_identity_def)
qed

lemma file_law:
  assumes "files_ok D K fs" "trimmed_call K c"
  shows "files_ok D K (snd (file_perform D e c fs)) \<and> step_law (file_lookup D K fs) (fst (file_perform D e c fs)) (file_lookup D K (snd (file_perform D e c fs)))"
proof -
  obtain a fs' where p: "file_perform D e c fs = (a, fs')" by force
  from file_perform_spec [OF assms p] show ?thesis
  proof
    assume "(read_fails e \<or> write_fails e) \<and> (\<exists>err. a = Inl err) \<and> fs' = fs"
    with p assms(1) show ?thesis using step_law_error [OF file_lookup_ok [OF assms(1)]] by auto
  next
    assume "files_ok D K fs' \<and> spec_perform c (file_lookup D K fs) = (a, file_lookup D K fs')"
    with p show ?thesis using spec_perform_law [OF file_lookup_ok [OF assms(1)], of c] by simp
  qed
qed

interpretation disk: receipt_store "file_lookup D K" "file_perform D" "files_ok D K" "trimmed_call K" for D K
proof
  fix fs :: receipt_files and c :: receipt_call and e :: receipt_io
  assume "files_ok D K fs" "trimmed_call K c"
  note law = file_law [OF this, of e, unfolded step_law_def]
  show "files_ok D K (snd (file_perform D e c fs))" using law by blast
  show "file_lookup D K (snd (file_perform D e c fs)) k = file_lookup D K fs k \<or> receipt_step (file_lookup D K fs k) (file_lookup D K (snd (file_perform D e c fs)) k)"
    for k using law by blast
  show "file_lookup D K fs k = None \<and> file_lookup D K (snd (file_perform D e c fs)) k \<noteq> None" if "executes k (fst (file_perform D e c fs))" for k
    using law that by blast
  show "file_lookup D K fs (idempotencyKey (identity (receipt v))) = Some (receipt v) \<and> rstate (receipt v) = Completed"
    if "fst (file_perform D e c fs) = Inr (Reservation v)" "disposition_of v = ReplayCompleted" for v using law that by blast
qed

section \<open>A sample store\<close>

text \<open>A digest of 64 hexadecimal digits: the bits of the first eight characters.\<close>

definition demo_digest :: "string \<Rightarrow> string" where
  "demo_digest s = take 64 (concat (map (\<lambda>c. map (\<lambda>i. if bit (of_char c :: nat) i then CHR ''1'' else CHR ''0'') [0..<8]) s) @ replicate 64 (CHR ''0''))"

lemma demo_digest_hex: "length (demo_digest s) = 64" "set (demo_digest s) \<subseteq> {CHR ''0'', CHR ''1''}"
  by (auto simp: demo_digest_def dest!: in_set_takeD split: if_splits)

definition demo_keys :: "string set" where
  "demo_keys = {''k1'', ''k2''}"

definition demo_store :: FileMutationReceiptStore where
  "demo_store = \<lparr>receiptDirectory = ''/receipts'', sha256 = demo_digest, path_join = (\<lambda>a b. a @ CHR 0x2F # b)\<rparr>"

definition demo_life :: "string \<Rightarrow> (receipt_io \<times> receipt_call) list" where
  "demo_life k = [(demo_ok, CallReserve (demo_identity k)), (demo_ok, CallExecuting (demo_identity k)),
     (demo_ok\<lparr>write_fails := True\<rparr>, CallCompleted (demo_identity k) demo_result), (demo_ok, CallReconciliation (demo_identity k)),
     (demo_ok, CallCompleted (demo_identity k) demo_result), (demo_ok, CallReserve (demo_identity k))]"

definition demo_calls :: "(receipt_io \<times> receipt_call) list" where
  "demo_calls = [(demo_ok, CallReserve (demo_identity ''k1'')), (demo_ok, CallReserve (demo_identity ''k2'')), (demo_ok, CallExecuting (demo_identity ''k1'')),
     (demo_ok, CallCompleted (demo_identity ''k1'') demo_result), (demo_ok, CallReserve (demo_identity ''k1''))]"

lemma demo_second: "trim ''k2'' = ''k2''" "identity_ok (demo_identity ''k2'')"
  by code_simp+

lemma demo_paths: "receiptPath demo_store ''k1'' \<noteq> receiptPath demo_store ''k2''" "receiptPath demo_store '' k1'' \<noteq> receiptPath demo_store ''k1''"
  by code_simp+

lemma demo_files_ok: "files_ok demo_store demo_keys []"
  using demo_paths(1) by (simp add: files_ok_def demo_keys_def)

lemma demo_life_trimmed: "list_all (\<lambda>c. trimmed_call demo_keys (snd c)) (demo_life ''k1'')"
  by (simp add: demo_keys_def demo_life_def trimmed_call_def call_identity_def demo_identity_def demo_trim)

text \<open>
  The file store reads the file of the key as given but writes the file of the trimmed key: a key with white space around it is told to execute
  although the mutation is completed, and the completed receipt is lost. The store in memory replays the result.
\<close>

lemma untrimmed_key_executes_again:
  defines "done_receipt \<equiv> demo_receipt Completed (Some demo_result)"
  defines "fs \<equiv> [(receiptPath demo_store ''k1'', ReceiptJson (receipt_value done_receipt))]" and "again \<equiv> demo_identity '' k1''"
  shows "file_lookup demo_store demo_keys fs ''k1'' = Some done_receipt"
    and "file_reserve demo_store demo_ok again fs = (Inr \<lparr>disposition_of = Execute, receipt = demo_receipt Reserved None\<rparr>,
      [(receiptPath demo_store ''k1'', ReceiptJson (receipt_value (demo_receipt Reserved None)))])"
    and "mem_reserve again [(''k1'', done_receipt)] = (Inr \<lparr>disposition_of = ReplayCompleted, receipt = done_receipt\<rparr>, [(''k1'', done_receipt)])"
proof -
  note k = demo_key
  note d = demo_paths(2)
  have r: "reserveMutationReceipt None (demo_identity '' k1'') = Inr \<lparr>disposition_of = Execute, receipt = demo_receipt Reserved None\<rparr>"
    by (simp add: reserveMutationReceipt_def demo_identity_parsed demo_receipt_def)
  show "file_lookup demo_store demo_keys fs ''k1'' = Some done_receipt"
    by (simp add: demo_keys_def file_lookup_def fs_def done_receipt_def Map_get_def demo_receipt_parsed)
  show "file_reserve demo_store demo_ok again fs = (Inr \<lparr>disposition_of = Execute, receipt = demo_receipt Reserved None\<rparr>,
      [(receiptPath demo_store ''k1'', ReceiptJson (receipt_value (demo_receipt Reserved None)))])"
    using d by (simp add: file_reserve_def readReceipt_def demo_ok_def again_def fs_def k r writeReceipt_def demo_receipt_parsed Map_get_def Map_set_def)
      (simp add: demo_receipt_def k)
  show "mem_reserve again [(''k1'', done_receipt)] = (Inr \<lparr>disposition_of = ReplayCompleted, receipt = done_receipt\<rparr>, [(''k1'', done_receipt)])"
    by (simp add: mem_reserve_def again_def demo_identity_parsed k Map_get_def reserveMutationReceipt_def done_receipt_def demo_receipt_parsed)
      (simp add: demo_receipt_def)
qed

section \<open>Properties\<close>

text \<open>
  A mutation runs at most once per idempotency key. Over any sequence of calls on the store of files, with trimmed keys whose digests do not collide and any failures of
  reads and writes, a caller is told to execute at most once per key, and never when the key has a receipt at the start; then the receipt stays,
  with the identity it was reserved for, and a completed one stays with its result.
\<close>

theorem file_mutation_runs_once:
  assumes "files_ok D K fs" and "list_all (\<lambda>c. trimmed_call K (snd c)) cs" and "perform_all (file_perform D) cs fs = (as, fs')"
  shows "length (filter (executes k) as) \<le> 1 \<and>
    (\<forall>r. file_lookup D K fs k = Some r \<longrightarrow> filter (executes k) as = [] \<and>
      (\<exists>r'. file_lookup D K fs' k = Some r' \<and> identity r' = identity r \<and> (rstate r = Completed \<longrightarrow> r' = r)))"
  using disk.executes_at_most_once [OF assms, of k] disk.identity_kept [OF assms] by (auto split: if_splits)

text \<open>
  C26. The store of files implements the store in memory: as long as no read or write fails, for valid identities with trimmed keys out of a set whose
  digests do not collide, a sequence of calls gets the same answers from both, and they hold the same receipts of these keys at the end.
\<close>

theorem file_store_refines_memory:
  assumes "files_ok D K fs" and "Map_get m = file_lookup D K fs"
    and "list_all (\<lambda>c. trimmed_call K (snd c) \<and> identity_ok (call_identity (snd c)) \<and> \<not> read_fails (fst c) \<and> \<not> write_fails (fst c)) cs"
  shows "fst (perform_all (file_perform D) cs fs) = fst (perform_all mem_perform cs m) \<and>
    file_lookup D K (snd (perform_all (file_perform D) cs fs)) = Map_get (snd (perform_all mem_perform cs m))"
  using assms
proof (induction cs arbitrary: fs m)
  case (Cons c cs)
  obtain a fs1 where f: "file_perform D (fst c) (snd c) fs = (a, fs1)" by force
  obtain b m1 where g: "mem_perform (fst c) (snd c) m = (b, m1)" by force
  have c: "trimmed_call K (snd c)" "identity_ok (call_identity (snd c))" "\<not> read_fails (fst c)" "\<not> write_fails (fst c)"
    using Cons.prems(3) by simp_all
  have s: "files_ok D K fs1" "spec_perform (snd c) (file_lookup D K fs) = (a, file_lookup D K fs1)"
    using file_perform_spec [OF Cons.prems(1) c(1) f] c(3,4) by auto
  then have "b = a" "Map_get m1 = file_lookup D K fs1"
    using mem_perform_spec [of "snd c" "fst c" m] c(2) g Cons.prems(2) by simp_all
  with Cons.IH [OF s(1), of m1] Cons.prems(3) f g show ?case by (auto split: prod.splits)
qed simp

theorem file_store_refines_memory_witness:
  "fst (perform_all (file_perform demo_store) demo_calls []) = fst (perform_all mem_perform demo_calls [])"
proof -
  have "Map_get [] = file_lookup demo_store demo_keys []" by (simp add: fun_eq_iff file_lookup_def)
  moreover have "list_all (\<lambda>c. trimmed_call demo_keys (snd c) \<and> identity_ok (call_identity (snd c)) \<and> \<not> read_fails (fst c) \<and> \<not> write_fails (fst c)) demo_calls"
    using demo_identity_ok demo_second by (simp add: demo_keys_def demo_calls_def trimmed_call_def call_identity_def demo_ok_def) (simp add: demo_identity_def demo_trim)
  ultimately show ?thesis using file_store_refines_memory [OF demo_files_ok] by blast
qed

end
