(* ===== verification/WorkspacePolicy.thy ===== *)
theory WorkspacePolicy
  imports JsValue Confirmation
begin

text \<open>
  The policy of a workspace, \<open>packages/mcp-core/src/policy.ts\<close>: its record, and what its schema requires beyond the types.
\<close>

record SourceControlPolicy =
  capabilities :: "string list"
  accountOwners :: "string list"
  additionalRepositories :: "string list"

record WorkspaceLimits =
  maxFileBytes :: int
  maxSearchResults :: int
  maxSearchSnippetBytes :: int
  maxDiffBytes :: int
  maxListedFiles :: int
  maxDiscoveryDirectories :: "int option"
  maxDiscoveryEntries :: "int option"
  maxDiscoveryDurationMs :: "int option"

record WorkspacePolicy =
  ws_id :: string
  ws_name :: string
  rootPath :: string
  workspaceKind :: "string option"
  ws_enabled :: bool
  permissionProfile :: string
  confirmationMode :: string
  allowedRoots :: "string list"
  blockedGlobs :: "string list"
  limits :: WorkspaceLimits
  allowWrites :: "string list"
  allowShell :: "string list"
  allowedShells :: "shell_name list"
  sourceControl :: "SourceControlPolicy option"

definition supportedShells :: "shell_name list" where
  "supportedShells = [Powershell, Pwsh, Cmd, Sh, Bash, Wsl, GitBash]"

definition permissionProfiles :: "string list" where
  "permissionProfiles = [''planning-readonly'', ''planning-handoff'', ''builder-review'', ''restricted-area'', ''full-repo-readonly'', ''full-repo-write'']"

definition confirmationModes :: "string list" where
  "confirmationModes = [''standard'', ''trusted-workspace'']"

definition workspaceKinds :: "string list" where
  "workspaceKinds = [''repository'', ''aggregate'']"

definition is_lower_alnum :: "char \<Rightarrow> bool" where
  "is_lower_alnum c = (c \<in> set ''abcdefghijklmnopqrstuvwxyz0123456789'')"

definition is_alnum :: "char \<Rightarrow> bool" where
  "is_alnum c = (c \<in> set ''abcdefghijklmnopqrstuvwxyzABCDEFGHIJKLMNOPQRSTUVWXYZ0123456789'')"

definition is_id_char :: "char \<Rightarrow> bool" where
  "is_id_char c = (is_alnum c \<or> c \<in> set ''._-'')"

text \<open>\<open>z.string().trim().min(1)\<close> on a value of its output: trimmed and not empty.\<close>

definition trimmed_text :: "string \<Rightarrow> bool" where
  "trimmed_text s = (s \<noteq> [] \<and> trim s = s)"

definition workspaceLimitsSchema :: "WorkspaceLimits \<Rightarrow> bool" where
  "workspaceLimitsSchema l = (0 < maxFileBytes l \<and> 0 < maxSearchResults l \<and> 0 < maxSearchSnippetBytes l \<and> 0 < maxDiffBytes l \<and>
     0 < maxListedFiles l \<and> pred_option (\<lambda>n. 0 < n) (maxDiscoveryDirectories l) \<and> pred_option (\<lambda>n. 0 < n) (maxDiscoveryEntries l) \<and>
     pred_option (\<lambda>n. 0 < n) (maxDiscoveryDurationMs l))"

text \<open>The schema of the source-control part is checked separately.\<close>

definition workspacePolicySchema :: "WorkspacePolicy \<Rightarrow> bool" where
  "workspacePolicySchema w = (
     ws_id w \<noteq> [] \<and> is_alnum (hd (ws_id w)) \<and> list_all is_id_char (ws_id w) \<and> trimmed_text (ws_name w) \<and> trimmed_text (rootPath w) \<and>
     pred_option (\<lambda>k. k \<in> set workspaceKinds) (workspaceKind w) \<and> permissionProfile w \<in> set permissionProfiles \<and>
     confirmationMode w \<in> set confirmationModes \<and> allowedRoots w \<noteq> [] \<and> list_all trimmed_text (allowedRoots w) \<and>
     list_all trimmed_text (blockedGlobs w) \<and> workspaceLimitsSchema (limits w) \<and> list_all trimmed_text (allowWrites w) \<and>
     list_all trimmed_text (allowShell w) \<and>
     \<not> (confirmationMode w = ''trusted-workspace'' \<and> permissionProfile w \<noteq> ''full-repo-write''))"

definition refineUniqueWorkspaceIds :: "WorkspacePolicy list \<Rightarrow> bool" where
  "refineUniqueWorkspaceIds ws = distinct (map ws_id ws)"

definition policyFileSchema :: "WorkspacePolicy list \<Rightarrow> bool" where
  "policyFileSchema ws = (ws \<noteq> [] \<and> list_all workspacePolicySchema ws \<and> refineUniqueWorkspaceIds ws)"

end
