(* ===== verification/SourceControlMutation.thy ===== *)
theory SourceControlMutation
  imports ArgumentDigest FileReceiptStore WorkspacePolicy
begin

text \<open>
  Source-control mutations of the workspace agent: \<open>packages/mcp-core/src/source-control-policy.ts\<close> and the handler
  \<open>executeSourceControlMutation\<close> of \<open>services/workspace-agent/src/local-agent.ts\<close>, which puts the argument digest, the typed confirmations and the
  mutation receipts together. The handler is asynchronous: it is modelled as a process that advances from one \<open>await\<close> to the next, so that
  any number of mutations, of any workspaces, run interleaved on one registry of confirmations and on the stores of receipts, one per workspace.
\<close>

section \<open>Source-control policy\<close>

definition normalizeTarget :: "string \<Rightarrow> string" where
  "normalizeTarget s = map lower_char s"

definition denySourceControl :: "unit result" where
  "denySourceControl = Inl (AppError SOURCE_CONTROL_CAPABILITY_DENIED)"

definition assertSourceControlCapability ::
    "WorkspacePolicy \<Rightarrow> string \<Rightarrow> string option \<Rightarrow> string option \<Rightarrow> string option \<Rightarrow> bool \<Rightarrow> unit result" where
  "assertSourceControlCapability policy capability repository canonicalRepository accountOwner mutation =
    (case sourceControl policy of
       None \<Rightarrow> denySourceControl
     | Some configured \<Rightarrow>
         if capability \<notin> set (capabilities configured) then denySourceControl
         else if mutation \<and> permissionProfile policy \<noteq> ''full-repo-write'' then denySourceControl
         else if capability = ''github.repository.create'' \<and> accountOwner = None then denySourceControl
         else if startsWith capability ''github.'' \<and> capability \<noteq> ''github.repository.create'' \<and> repository = None then denySourceControl
         else if (case repository of None \<Rightarrow> False
                  | Some r \<Rightarrow> Some (normalizeTarget r) \<noteq> map_option normalizeTarget canonicalRepository \<and>
                      normalizeTarget r \<notin> set (map normalizeTarget (additionalRepositories configured))) then denySourceControl
         else if (case accountOwner of None \<Rightarrow> False
                  | Some a \<Rightarrow> normalizeTarget a \<notin> set (map normalizeTarget (accountOwners configured))) then denySourceControl
         else Inr ())"

definition isProtectedMain :: "string option \<Rightarrow> bool" where
  "isProtectedMain v = (map_option normalizeTarget v = Some ''main'')"

definition assertTypedGitBranchMutationAllowed :: "string \<Rightarrow> string option \<Rightarrow> string option \<Rightarrow> unit result" where
  "assertTypedGitBranchMutationAllowed op_name currentBranch branch =
    (if op_name = ''git_commit'' \<and> isProtectedMain currentBranch \<or> op_name = ''git_push_branch'' \<and> isProtectedMain branch
     then Inl (AppError GIT_PROTECTED_BRANCH) else Inr ())"

definition sourceControlAutonomyEnabled :: "WorkspacePolicy \<Rightarrow> bool" where
  "sourceControlAutonomyEnabled w = (confirmationMode w = ''trusted-workspace'' \<and> permissionProfile w = ''full-repo-write'')"

section \<open>A mutation\<close>

text \<open>
  The options of \<open>executeSourceControlMutation\<close>. \<open>requireConfirmation\<close> is whether the option is not \<open>false\<close>; the schema of the result and
  \<open>resultSha\<close> are functions of the caller. What \<open>beforeReceipt\<close> and the backend answer is decided outside.
\<close>

record OperationContext =
  ctx_idempotencyKey :: "string option"
  ctx_invocationId :: "string option"
  ctx_correlationId :: "string option"

record mutation_options =
  mo_workspace :: WorkspacePolicy
  mo_operation :: string
  confirmableOperation :: "string option"
  requireConfirmation :: bool
  capability :: string
  repository :: "string option"
  canonicalRepositoryAlreadyAuthorized :: bool
  accountOwner :: "string option"
  mo_targetResource :: string
  input :: js_value
  ctx :: OperationContext
  resultSchema :: "js_value \<Rightarrow> js_value result"
  resultSha :: "(js_value \<Rightarrow> string option) option"

record AuditMetadata =
  idempotencyOutcome :: "string option"
  meta_resultSha :: "string option"

definition readConfirmationId :: "js_value \<Rightarrow> string option" where
  "readConfirmationId v = (case v of
     JsObject ps \<Rightarrow> (case Map_get ps ''confirmationId'' of Some (JsString s) \<Rightarrow> if s = [] then None else Some s | _ \<Rightarrow> None)
   | JsInstance ps \<Rightarrow> (case Map_get ps ''confirmationId'' of Some (JsString s) \<Rightarrow> if s = [] then None else Some s | _ \<Rightarrow> None)
   | _ \<Rightarrow> None)"

definition orElse :: "'a option \<Rightarrow> 'a option \<Rightarrow> 'a option" where
  "orElse a b = (case a of None \<Rightarrow> b | Some x \<Rightarrow> Some x)"

definition deriveSourceControlIdempotencyKey :: "js_value \<Rightarrow> OperationContext \<Rightarrow> string result" where
  "deriveSourceControlIdempotencyKey v c =
    (case orElse (ctx_idempotencyKey c) (orElse (readConfirmationId v) (orElse (ctx_invocationId c) (ctx_correlationId c))) of
       None \<Rightarrow> Inl (AppError INVALID_ARGUMENT)
     | Some k \<Rightarrow> Inr k)"

text \<open>
  The points at which a mutation waits. Reading the receipt and going on with what was read (\<open>Looked\<close>) are two points, since other mutations may use the registry
  between the end of the read and the resumption of the handler.
\<close>

datatype stage =
    Starting
  | Looking MutationReceiptIdentity \<comment> \<open>\<open>store.get\<close>\<close>
  | Looked MutationReceiptIdentity "MutationReceipt option"
  | Reserving MutationReceiptIdentity bool \<comment> \<open>\<open>store.reserve\<close>, of a receipt that was found or of a new one\<close>
  | Marking MutationReceiptIdentity \<comment> \<open>\<open>store.markExecuting\<close>\<close>
  | Invoking MutationReceiptIdentity \<comment> \<open>\<open>options.backend\<close>\<close>
  | Completing MutationReceiptIdentity js_value \<comment> \<open>\<open>store.markCompleted\<close>\<close>
  | Failing MutationReceiptIdentity js_error \<comment> \<open>\<open>store.markReconciliationRequired\<close>\<close>
  | Finished "js_value result"

text \<open>
  A mutation, with what it has done: the confirmation it has created, whether it has consumed its confirmation and whether it has invoked the
  backend.
\<close>

record mutation =
  options :: mutation_options
  stage :: stage
  metadata :: AuditMetadata
  issued :: "string option"
  consumed :: bool
  invoked :: bool

definition new_mutation :: "mutation_options \<Rightarrow> mutation" where
  "new_mutation opt = \<lparr>options = opt, stage = Starting, metadata = \<lparr>idempotencyOutcome = None, meta_resultSha = None\<rparr>,
     issued = None, consumed = False, invoked = False\<rparr>"

text \<open>What the outside decides while a mutation advances once.\<close>

record env =
  io :: receipt_io
  now1 :: millis
  now2 :: millis
  random_id :: string
  before :: "unit result"
  backend :: "js_value result"
  iso :: "millis \<Rightarrow> string"

text \<open>
  The operations on the stores of receipts. The agent has a store of files for each workspace, below the root of the workspace (\<open>mutationReceiptStoreFor\<close>), or one
  injected store for all of them; the state is the files of each store, by workspace, or the receipts of the injected one.
\<close>

record 's store_ops =
  so_get :: "receipt_io \<Rightarrow> string \<Rightarrow> string \<Rightarrow> 's \<Rightarrow> MutationReceipt option result"
  so_perform :: "receipt_io \<Rightarrow> receipt_call \<Rightarrow> ('s, receipt_answer) op"

definition memory_ops :: "receipts store_ops" where
  "memory_ops = \<lparr>so_get = (\<lambda>e w k m. Inr (mem_get k m)), so_perform = mem_perform\<rparr>"

definition file_ops :: "(string \<Rightarrow> FileMutationReceiptStore) \<Rightarrow> (string \<Rightarrow> receipt_files) store_ops" where
  "file_ops D = \<lparr>so_get = (\<lambda>e w k st. file_get (D w) e k (st w)),
     so_perform = (\<lambda>e c st. let w = workspaceId (call_identity c) in case file_perform (D w) e c (st w) of (a, fs) \<Rightarrow> (a, st(w := fs)))\<rparr>"

record 's shared =
  receipts_of :: 's
  registry :: TypedConfirmationRegistry

section \<open>executeSourceControlMutation\<close>

definition finish :: "mutation \<Rightarrow> js_value result \<Rightarrow> mutation" where
  "finish p r = p\<lparr>stage := Finished r\<rparr>"

definition outcome :: "string \<Rightarrow> mutation \<Rightarrow> mutation" where
  "outcome s p = p\<lparr>metadata := (metadata p)\<lparr>idempotencyOutcome := Some s\<rparr>\<rparr>"

definition record_sha :: "js_value \<Rightarrow> mutation \<Rightarrow> mutation" where
  "record_sha r p = (case resultSha (options p) of
     None \<Rightarrow> p
   | Some f \<Rightarrow> (case f r of None \<Rightarrow> p | Some h \<Rightarrow> p\<lparr>metadata := (metadata p)\<lparr>meta_resultSha := Some h\<rparr>\<rparr>))"

text \<open>Up to the call of \<open>store.get\<close>.\<close>

definition authorize :: "mutation_options \<Rightarrow> unit result" where
  "authorize opt = (if canonicalRepositoryAlreadyAuthorized opt then Inr ()
     else assertSourceControlCapability (mo_workspace opt) (capability opt) (repository opt) None (accountOwner opt) True)"

definition mutation_identity :: "(string \<Rightarrow> string) \<Rightarrow> mutation_options \<Rightarrow> MutationReceiptIdentity result" where
  "mutation_identity sha opt = then_parse (canonicalSourceControlArgumentsDigest sha (input opt)) (\<lambda>digest.
     then_parse (deriveSourceControlIdempotencyKey (input opt) (ctx opt)) (\<lambda>key.
     Inr \<lparr>workspaceId = ws_id (mo_workspace opt), operation = mo_operation opt, targetResource = mo_targetResource opt,
       canonicalArgumentsDigest = digest, idempotencyKey = key\<rparr>))"

definition sc_start :: "(string \<Rightarrow> string) \<Rightarrow> env \<Rightarrow> mutation \<Rightarrow> mutation" where
  "sc_start sha e p =
    (case then_parse (authorize (options p)) (\<lambda>_. then_parse (before e) (\<lambda>_. mutation_identity sha (options p))) of
       Inl err \<Rightarrow> finish p (Inl err)
     | Inr d \<Rightarrow> p\<lparr>stage := Looking d\<rparr>)"

text \<open>After \<open>store.get\<close>: the confirmation.\<close>

definition confirmation_binding :: "mutation_options \<Rightarrow> string \<Rightarrow> MutationReceiptIdentity \<Rightarrow> TypedConfirmationBinding" where
  "confirmation_binding opt confirmable d = \<lparr>tc_workspaceId = ws_id (mo_workspace opt), tc_operation = confirmable,
     tc_targetResource = mo_targetResource opt, tc_digest = canonicalArgumentsDigest d\<rparr>"

definition confirmation_required :: "env \<Rightarrow> mutation_options \<Rightarrow> string \<Rightarrow> string \<times> millis \<Rightarrow> js_value" where
  "confirmation_required e opt confirmable c = JsObject [(''status'', JsString ''confirmation_required''), (''confirmationId'', JsString (fst c)),
     (''expiresAt'', JsString (iso e (snd c))), (''operation'', JsString confirmable), (''targetResource'', JsString (mo_targetResource opt))]"

definition sc_confirm :: "env \<Rightarrow> MutationReceiptIdentity \<Rightarrow> mutation \<Rightarrow> TypedConfirmationRegistry \<Rightarrow> mutation \<times> TypedConfirmationRegistry" where
  "sc_confirm e d p reg = (case confirmableOperation (options p) of
     None \<Rightarrow> (p\<lparr>stage := Reserving d False\<rparr>, reg)
   | Some confirmable \<Rightarrow> (let b = confirmation_binding (options p) confirmable d in
       case readConfirmationId (input (options p)) of
         None \<Rightarrow>
           if requireConfirmation (options p)
           then (case typed_create (now1 e) (now2 e) (random_id e) b reg of
                   (Inl err, reg') \<Rightarrow> (finish p (Inl err), reg')
                 | (Inr c, reg') \<Rightarrow> (finish (outcome ''confirmation_required'' (p\<lparr>issued := Some (fst c)\<rparr>))
                     (resultSchema (options p) (confirmation_required e (options p) confirmable c)), reg'))
           else (p\<lparr>stage := Reserving d False\<rparr>, reg)
       | Some i \<Rightarrow> (case typed_consume (now1 e) (now2 e) i b reg of
             (Inl err, reg') \<Rightarrow> (finish p (Inl err), reg')
           | (Inr _, reg') \<Rightarrow> (p\<lparr>consumed := True, stage := Reserving d False\<rparr>, reg'))))"

text \<open>The answer of \<open>store.reserve\<close>: a replay of the stored result, a refusal or, for a new receipt, the execution.\<close>

definition stored_result :: "MutationReceipt \<Rightarrow> js_value" where
  "stored_result r = (case rresult r of None \<Rightarrow> JsUndefined | Some v \<Rightarrow> v)"

definition sc_reserved :: "MutationReceiptIdentity \<Rightarrow> bool \<Rightarrow> mutation \<Rightarrow> receipt_answer result \<Rightarrow> mutation" where
  "sc_reserved d found p a = (case a of
     Inr (Reservation v) \<Rightarrow>
       (case disposition_of v of
          ReplayCompleted \<Rightarrow> (let q = outcome ''completed_replay'' p in
            case resultSchema (options p) (stored_result (receipt v)) of
              Inl err \<Rightarrow> finish q (Inl err)
            | Inr r \<Rightarrow> finish (if found then record_sha r q else q) (Inr r))
        | Execute \<Rightarrow> if found then finish p (Inl (AppError SOURCE_CONTROL_RECONCILIATION_REQUIRED)) else p\<lparr>stage := Marking d\<rparr>
        | DispositionReconciliationRequired \<Rightarrow> finish p (Inl (AppError SOURCE_CONTROL_RECONCILIATION_REQUIRED)))
   | Inr (Receipt r) \<Rightarrow> finish p (Inl PlainError)
   | Inl err \<Rightarrow> finish p (Inl err))"

definition sc_marked :: "MutationReceiptIdentity \<Rightarrow> mutation \<Rightarrow> receipt_answer result \<Rightarrow> mutation" where
  "sc_marked d p a = (case a of Inl err \<Rightarrow> finish p (Inl err) | Inr _ \<Rightarrow> p\<lparr>stage := Invoking d, invoked := True\<rparr>)"

definition sc_answered :: "MutationReceiptIdentity \<Rightarrow> env \<Rightarrow> mutation \<Rightarrow> mutation" where
  "sc_answered d e p = (case then_parse (backend e) (resultSchema (options p)) of
     Inl err \<Rightarrow> p\<lparr>stage := Failing d err\<rparr> | Inr r \<Rightarrow> p\<lparr>stage := Completing d r\<rparr>)"

definition sc_completed :: "MutationReceiptIdentity \<Rightarrow> js_value \<Rightarrow> mutation \<Rightarrow> receipt_answer result \<Rightarrow> mutation" where
  "sc_completed d r p a = (case a of
     Inl err \<Rightarrow> p\<lparr>stage := Failing d err\<rparr> | Inr _ \<Rightarrow> finish (record_sha r (outcome ''executed'' p)) (Inr r))"

definition on_store :: "'s store_ops \<Rightarrow> env \<Rightarrow> receipt_call \<Rightarrow> (receipt_answer result \<Rightarrow> mutation) \<Rightarrow> 's shared \<Rightarrow> mutation \<times> 's shared" where
  "on_store S e c f s = (case so_perform S (io e) c (receipts_of s) of (a, st) \<Rightarrow> (f a, s\<lparr>receipts_of := st\<rparr>))"

definition executeSourceControlMutation ::
    "'s store_ops \<Rightarrow> (string \<Rightarrow> string) \<Rightarrow> env \<Rightarrow> mutation \<Rightarrow> 's shared \<Rightarrow> mutation \<times> 's shared" where
  "executeSourceControlMutation S sha e p s = (case stage p of
     Starting \<Rightarrow> (sc_start sha e p, s)
   | Looking d \<Rightarrow> ((case so_get S (io e) (workspaceId d) (idempotencyKey d) (receipts_of s) of
       Inl err \<Rightarrow> finish p (Inl err) | Inr existing \<Rightarrow> p\<lparr>stage := Looked d existing\<rparr>), s)
   | Looked d (Some r) \<Rightarrow> (p\<lparr>stage := Reserving d True\<rparr>, s)
   | Looked d None \<Rightarrow> (case sc_confirm e d p (registry s) of (q, reg) \<Rightarrow> (q, s\<lparr>registry := reg\<rparr>))
   | Reserving d found \<Rightarrow> on_store S e (CallReserve d) (sc_reserved d found p) s
   | Marking d \<Rightarrow> on_store S e (CallExecuting d) (sc_marked d p) s
   | Invoking d \<Rightarrow> (sc_answered d e p, s)
   | Completing d r \<Rightarrow> on_store S e (CallCompleted d r) (sc_completed d r p) s
   | Failing d err \<Rightarrow> on_store S e (CallReconciliation d) (\<lambda>_. finish p (Inl err)) s
   | Finished r \<Rightarrow> (p, s))"

section \<open>Any number of mutations\<close>


inductive agent_step :: "'s store_ops \<Rightarrow> (string \<Rightarrow> string) \<Rightarrow> ('s shared \<times> mutation list) \<Rightarrow> ('s shared \<times> mutation list) \<Rightarrow> bool"
  for S sha where
  request: "agent_step S sha (s, ps) (s, ps @ [new_mutation opt])"
| advance: "i < length ps \<Longrightarrow> executeSourceControlMutation S sha e (ps ! i) s = (p, s') \<Longrightarrow> agent_step S sha (s, ps) (s', ps[i := p])"

section \<open>One mutation\<close>

text \<open>The key of a mutation, as the store uses it, and the binding of its confirmation.\<close>

definition mutation_key :: "(string \<Rightarrow> string) \<Rightarrow> mutation \<Rightarrow> string option" where
  "mutation_key sha p = (case mutation_identity sha (options p) of Inl _ \<Rightarrow> None | Inr d \<Rightarrow> Some (idempotencyKey d))"

definition workspace_of :: "mutation \<Rightarrow> string" where
  "workspace_of p = ws_id (mo_workspace (options p))"

definition binding_of :: "(string \<Rightarrow> string) \<Rightarrow> mutation \<Rightarrow> TypedConfirmationBinding option" where
  "binding_of sha p = (case (confirmableOperation (options p), mutation_identity sha (options p)) of
     (Some c, Inr d) \<Rightarrow> Some (confirmation_binding (options p) c d) | _ \<Rightarrow> None)"

definition presented :: "mutation \<Rightarrow> string option" where
  "presented p = readConfirmationId (input (options p))"

definition needs_confirmation :: "mutation \<Rightarrow> bool" where
  "needs_confirmation p = (confirmableOperation (options p) \<noteq> None \<and> (requireConfirmation (options p) \<or> presented p \<noteq> None))"

fun stage_identity :: "stage \<Rightarrow> MutationReceiptIdentity option" where
  "stage_identity (Looking d) = Some d"
| "stage_identity (Looked d r) = Some d"
| "stage_identity (Reserving d found) = Some d"
| "stage_identity (Marking d) = Some d"
| "stage_identity (Invoking d) = Some d"
| "stage_identity (Completing d r) = Some d"
| "stage_identity (Failing d err) = Some d"
| "stage_identity _ = None"

text \<open>The stages after the confirmation, and those after the reservation was granted.\<close>

fun granted :: "stage \<Rightarrow> bool" where
  "granted (Marking d) = True"
| "granted (Invoking d) = True"
| "granted (Completing d r) = True"
| "granted (Failing d err) = True"
| "granted _ = False"

fun confirmed :: "stage \<Rightarrow> bool" where
  "confirmed (Reserving d found) = (\<not> found)"
| "confirmed st = granted st"

definition orderly :: "(string \<Rightarrow> string) \<Rightarrow> mutation \<Rightarrow> bool" where
  "orderly sha p = (
     (\<forall>d. stage_identity (stage p) = Some d \<longrightarrow> mutation_identity sha (options p) = Inr d) \<and>
     (stage p = Starting \<or> (\<exists>d r. stage p = Looking d \<or> stage p = Looked d r) \<longrightarrow> \<not> consumed p) \<and>
     ((\<forall>r. stage p \<noteq> Finished r) \<longrightarrow> issued p = None) \<and>
     (stage_identity (stage p) \<noteq> None \<or> invoked p \<longrightarrow> authorize (options p) = Inr ()) \<and>
     (confirmed (stage p) \<or> invoked p \<longrightarrow> needs_confirmation p \<longrightarrow> consumed p) \<and>
     (invoked p \<longrightarrow> mutation_key sha p \<noteq> None))"

lemma new_mutation_simps [simp]:
  "options (new_mutation opt) = opt" "\<not> invoked (new_mutation opt)" "\<not> consumed (new_mutation opt)" "issued (new_mutation opt) = None"
  "stage (new_mutation opt) = Starting"
  by (simp_all add: new_mutation_def)

lemma mutation_simps [simp]:
  "stage (finish p r) = Finished r" "options (finish p r) = options p" "issued (finish p r) = issued p" "consumed (finish p r) = consumed p"
  "invoked (finish p r) = invoked p" "options (outcome m p) = options p" "issued (outcome m p) = issued p" "consumed (outcome m p) = consumed p"
  "invoked (outcome m p) = invoked p" "stage (outcome m p) = stage p"
  by (simp_all add: finish_def outcome_def)

lemma record_sha_simps [simp]:
  "options (record_sha r p) = options p" "issued (record_sha r p) = issued p" "consumed (record_sha r p) = consumed p"
  "invoked (record_sha r p) = invoked p"
  by (simp_all add: record_sha_def split: option.splits)

lemma options_derived:
  "options q = options p \<Longrightarrow> mutation_key sha q = mutation_key sha p \<and> binding_of sha q = binding_of sha p \<and> presented q = presented p \<and>
    needs_confirmation q = needs_confirmation p \<and> workspace_of q = workspace_of p"
  by (simp add: workspace_of_def mutation_key_def binding_of_def presented_def needs_confirmation_def split: option.splits sum.splits)

text \<open>What one advance does to the flags of a mutation and to the registry.\<close>

definition registry_step :: "(string \<Rightarrow> string) \<Rightarrow> mutation \<Rightarrow> mutation \<Rightarrow> TypedConfirmationRegistry \<Rightarrow> TypedConfirmationRegistry \<Rightarrow> bool" where
  "registry_step sha p q reg reg' =
    (issued q = issued p \<and> consumed q = consumed p \<and> reg' = reg \<or>
     (\<exists>t u i b err. (typed_create t u i b reg = (Inl err, reg') \<or> typed_consume t u i b reg = (Inl err, reg')) \<and> issued q = issued p \<and> consumed q = consumed p) \<or>
     (\<exists>t u i b x. typed_create t u i b reg = (Inr x, reg') \<and> binding_of sha p = Some b \<and> issued p = None \<and> issued q = Some i \<and> consumed q = consumed p) \<or>
     (\<exists>t u i b. typed_consume t u i b reg = (Inr (), reg') \<and> binding_of sha p = Some b \<and> presented p = Some i \<and> \<not> consumed p \<and> consumed q \<and> issued q = issued p))"

lemma typed_create_id: "typed_create t u i b reg = (Inr x, reg') \<Longrightarrow> fst x = i"
  by (auto simp: typed_create_def Let_def split: sum.splits)

lemma registry_stepI:
  "issued q = issued p \<Longrightarrow> consumed q = consumed p \<Longrightarrow> registry_step sha p q reg reg"
  "typed_create t u i b reg = (Inl err, reg') \<Longrightarrow> issued q = issued p \<Longrightarrow> consumed q = consumed p \<Longrightarrow> registry_step sha p q reg reg'"
  "typed_consume t u i b reg = (Inl err, reg') \<Longrightarrow> issued q = issued p \<Longrightarrow> consumed q = consumed p \<Longrightarrow> registry_step sha p q reg reg'"
  "typed_create t u i b reg = (Inr x, reg') \<Longrightarrow> binding_of sha p = Some b \<Longrightarrow> issued p = None \<Longrightarrow> issued q = Some i \<Longrightarrow> consumed q = consumed p \<Longrightarrow>
    registry_step sha p q reg reg'"
  "typed_consume t u i b reg = (Inr (), reg') \<Longrightarrow> binding_of sha p = Some b \<Longrightarrow> presented p = Some i \<Longrightarrow> \<not> consumed p \<Longrightarrow> consumed q \<Longrightarrow>
    issued q = issued p \<Longrightarrow> registry_step sha p q reg reg'"
  unfolding registry_step_def by blast+

lemma sc_confirm_cases:
  assumes "sc_confirm e d p reg = (q, reg')"
  obtains (pass) "\<not> needs_confirmation p" "q = p\<lparr>stage := Reserving d False\<rparr>" "reg' = reg"
  | (no_create) i b err where "typed_create (now1 e) (now2 e) i b reg = (Inl err, reg')" "q = finish p (Inl err)"
  | (no_consume) i b err where "typed_consume (now1 e) (now2 e) i b reg = (Inl err, reg')" "q = finish p (Inl err)"
  | (create) i c x r where "confirmableOperation (options p) = Some c"
      "typed_create (now1 e) (now2 e) i (confirmation_binding (options p) c d) reg = (Inr x, reg')"
      "q = finish (outcome ''confirmation_required'' (p\<lparr>issued := Some i\<rparr>)) r"
  | (consume) i c where "confirmableOperation (options p) = Some c" "presented p = Some i"
      "typed_consume (now1 e) (now2 e) i (confirmation_binding (options p) c d) reg = (Inr (), reg')"
      "q = p\<lparr>consumed := True, stage := Reserving d False\<rparr>"
proof (cases "needs_confirmation p")
  case False
  with assms pass show ?thesis
    by (auto simp: sc_confirm_def needs_confirmation_def presented_def split: option.splits)
next
  case True
  then obtain c where c: "confirmableOperation (options p) = Some c" by (auto simp: needs_confirmation_def)
  let ?b = "confirmation_binding (options p) c d"
  show ?thesis
  proof (cases "presented p")
    case (Some i)
    obtain a reg1 where a: "typed_consume (now1 e) (now2 e) i ?b reg = (a, reg1)" by force
    with assms c Some show ?thesis
      by (cases a) (auto simp: sc_confirm_def presented_def intro: no_consume consume)
  next
    case None
    with True have r: "requireConfirmation (options p)" by (simp add: needs_confirmation_def)
    obtain a reg1 where a: "typed_create (now1 e) (now2 e) (random_id e) ?b reg = (a, reg1)" by force
    show ?thesis
    proof (cases a)
      case (Inl err)
      with a assms c None r show ?thesis by (auto simp: sc_confirm_def presented_def intro: no_create)
    next
      case (Inr x)
      with a assms c None r typed_create_id [of "now1 e" "now2 e" "random_id e" ?b reg x reg1] show ?thesis
        by (auto simp: sc_confirm_def presented_def intro: create)
    qed
  qed
qed

lemma orderly_stage:
  assumes "orderly sha p" "options q = options p" "invoked q = invoked p" "consumed q = consumed p \<or> consumed q \<and> confirmed (stage q)"
    "stage_identity (stage q) \<in> {None, stage_identity (stage p)}" "issued q = issued p \<or> (\<exists>r. stage q = Finished r)"
    "confirmed (stage q) \<longrightarrow> needs_confirmation p \<longrightarrow> consumed q"
    "stage q \<noteq> Starting" "\<forall>d r. stage q = Looking d \<or> stage q = Looked d r \<longrightarrow> \<not> consumed p" "\<forall>r. stage p \<noteq> Finished r"
  shows "orderly sha q"
proof -
  note p = assms(1) [unfolded orderly_def] and d = options_derived [OF assms(2), of sha]
  have "mutation_identity sha (options q) = Inr d" if "stage_identity (stage q) = Some d" for d
    using p assms(2,5) that by auto
  moreover have "\<not> consumed q" if "\<exists>d r. stage q = Looking d \<or> stage q = Looked d r"
    using assms(4,9) that by auto
  moreover have "issued q = None" if "\<forall>r. stage q \<noteq> Finished r" using p assms(6,10) that by auto
  moreover have "authorize (options q) = Inr ()" if "stage_identity (stage q) \<noteq> None \<or> invoked q" using p assms(2,3,5) that by auto
  moreover have "consumed q" if "confirmed (stage q) \<or> invoked q" "needs_confirmation q" using p d assms(3,4,7) that by auto
  moreover have "mutation_key sha q \<noteq> None" if "invoked q" using p d assms(3) that by auto
  ultimately show ?thesis unfolding orderly_def using assms(8) by blast
qed

lemma confirm_orderly:
  assumes "orderly sha p" "stage p = Looked d None" "sc_confirm e d p reg = (q, reg')"
  shows "options q = options p \<and> invoked q = invoked p \<and> \<not> granted (stage q) \<and> orderly sha q \<and> registry_step sha p q reg reg'"
proof -
  have p: "mutation_identity sha (options p) = Inr d" "\<not> consumed p" "issued p = None"
    using assms(1,2) by (auto simp: orderly_def)
  have b: "binding_of sha p = Some (confirmation_binding (options p) c d)" if "confirmableOperation (options p) = Some c" for c
    using p that by (simp add: binding_of_def)
  note o = orderly_stage [OF assms(1), where q = q, unfolded assms(2)]
  from assms(3) show ?thesis
  proof (cases rule: sc_confirm_cases)
    case pass
    then show ?thesis using p o by (simp add: registry_stepI(1))
  next
    case no_create
    then show ?thesis using p o registry_stepI(2) [OF no_create(1), of q p sha] by simp
  next
    case no_consume
    then show ?thesis using p o registry_stepI(3) [OF no_consume(1), of q p sha] by simp
  next
    case create
    then show ?thesis using p o registry_stepI(4) [OF create(2) b [OF create(1)], of q] by simp
  next
    case consume
    then show ?thesis using p o registry_stepI(5) [OF consume(3) b [OF consume(1)], of q] by simp
  qed
qed

text \<open>What one advance does to the store: nothing, or one call for the mutation's own key; and the reservation is granted by an answer to execute.\<close>

definition store_step :: "(string \<Rightarrow> string) \<Rightarrow> 's store_ops \<Rightarrow> mutation \<Rightarrow> mutation \<Rightarrow> 's \<Rightarrow> 's \<Rightarrow> bool" where
  "store_step sha S p q st st' =
    ((st' = st \<or> (\<exists>e c. st' = snd (so_perform S e c st) \<and> mutation_identity sha (options p) = Inr (call_identity c))) \<and>
     (granted (stage q) \<or> invoked q \<longrightarrow> granted (stage p) \<or> invoked p \<or>
       (\<exists>e d v. mutation_identity sha (options p) = Inr d \<and> so_perform S e (CallReserve d) st = (Inr (Reservation v), st') \<and> disposition_of v = Execute)))"

lemma call_identity_simps [simp]:
  "call_identity (CallReserve d) = d" "call_identity (CallExecuting d) = d" "call_identity (CallReconciliation d) = d" "call_identity (CallCompleted d v) = d"
  by (simp_all add: call_identity_def)

lemma store_stepI:
  "granted (stage q) \<or> invoked q \<longrightarrow> granted (stage p) \<or> invoked p \<Longrightarrow> store_step sha S p q st st"
  "granted (stage q) \<or> invoked q \<longrightarrow> granted (stage p) \<or> invoked p \<Longrightarrow> mutation_identity sha (options p) = Inr (call_identity c) \<Longrightarrow>
    so_perform S e c st = (a, st') \<Longrightarrow> store_step sha S p q st st'"
  "mutation_identity sha (options p) = Inr d \<Longrightarrow> so_perform S e (CallReserve d) st = (Inr (Reservation v), st') \<Longrightarrow> disposition_of v = Execute \<Longrightarrow>
    store_step sha S p q st st'"
  unfolding store_step_def by (blast, metis snd_conv, metis snd_conv call_identity_simps(1))

definition advances :: "(string \<Rightarrow> string) \<Rightarrow> 's store_ops \<Rightarrow> mutation \<Rightarrow> mutation \<Rightarrow> 's shared \<Rightarrow> 's shared \<Rightarrow> bool" where
  "advances sha S p q s s' = (options q = options p \<and> orderly sha q \<and> registry_step sha p q (registry s) (registry s') \<and>
     store_step sha S p q (receipts_of s) (receipts_of s'))"

lemma identity_key: "mutation_identity sha (options p) = Inr d \<Longrightarrow> mutation_key sha p = Some (idempotencyKey d) \<and> workspaceId d = workspace_of p"
  by (auto simp: mutation_key_def workspace_of_def mutation_identity_def then_parse_Inr)

lemma stage_key: "orderly sha p \<Longrightarrow> stage_identity (stage p) = Some d \<Longrightarrow> mutation_identity sha (options p) = Inr d"
  by (simp add: orderly_def)

lemma start_advances:
  assumes "orderly sha p" "stage p = Starting"
  shows "advances sha S p (sc_start sha e p) s s"
proof -
  have p: "\<not> consumed p" "issued p = None" "invoked p \<longrightarrow> authorize (options p) = Inr () \<and> (needs_confirmation p \<longrightarrow> consumed p)"
    "invoked p \<longrightarrow> mutation_key sha p \<noteq> None"
    using assms by (auto simp: orderly_def)
  show ?thesis
  proof (cases "then_parse (authorize (options p)) (\<lambda>_. then_parse (before e) (\<lambda>_. mutation_identity sha (options p)))")
    case (Inl err)
    then have q: "sc_start sha e p = finish p (Inl err)" by (simp add: sc_start_def)
    have "orderly sha (finish p (Inl err))"
      using p options_derived [of "finish p (Inl err)" p sha] by (simp add: orderly_def)
    with p assms show ?thesis by (simp add: q advances_def registry_stepI(1) store_stepI(1))
  next
    case (Inr d)
    let ?q = "p\<lparr>stage := Looking d\<rparr>"
    have q: "sc_start sha e p = ?q" using Inr by (simp add: sc_start_def)
    have d: "authorize (options p) = Inr ()" "mutation_identity sha (options p) = Inr d" using Inr by (auto simp: then_parse_Inr)
    have "orderly sha ?q" using p d options_derived [of ?q p sha] by (simp add: orderly_def)
    with p assms show ?thesis by (simp add: q advances_def registry_stepI(1) store_stepI(1))
  qed
qed

definition own_call :: "(string \<Rightarrow> string) \<Rightarrow> 's store_ops \<Rightarrow> mutation \<Rightarrow> 's \<Rightarrow> 's \<Rightarrow> bool" where
  "own_call sha S p st st' = (\<exists>e c a. so_perform S e c st = (a, st') \<and> mutation_identity sha (options p) = Inr (call_identity c))"

lemma own_callI:
  "orderly sha p \<Longrightarrow> stage_identity (stage p) = Some (call_identity c) \<Longrightarrow> so_perform S e c st = (a, st') \<Longrightarrow> own_call sha S p st st'"
  using stage_key unfolding own_call_def by blast

text \<open>An advance in which the mutation neither confirms nor is granted its reservation.\<close>

lemma plain_advances:
  assumes "orderly sha p" "options q = options p" "invoked q = invoked p" "consumed q = consumed p" "issued q = issued p"
    "stage_identity (stage q) \<in> {None, stage_identity (stage p)}" "confirmed (stage q) \<longrightarrow> confirmed (stage p)" "granted (stage q) \<longrightarrow> granted (stage p)"
    "stage q \<noteq> Starting" "\<forall>d r. stage q = Looking d \<or> stage q = Looked d r \<longrightarrow> (\<exists>d r. stage p = Looking d \<or> stage p = Looked d r)" "\<forall>r. stage p \<noteq> Finished r"
    "receipts_of s' = receipts_of s \<or> own_call sha S p (receipts_of s) (receipts_of s')"
    "registry s' = registry s"
  shows "advances sha S p q s s'"
proof -
  have "confirmed (stage q) \<longrightarrow> needs_confirmation p \<longrightarrow> consumed q" "\<forall>d r. stage q = Looking d \<or> stage q = Looked d r \<longrightarrow> \<not> consumed p"
    using assms(1,4,7,10) by (auto simp: orderly_def)
  then have "orderly sha q" by (intro orderly_stage [OF assms(1-3)]) (use assms(4-6,9,11) in simp_all)
  moreover have "registry_step sha p q (registry s) (registry s')" using registry_stepI(1) assms(4,5,13) by simp
  moreover have "store_step sha S p q (receipts_of s) (receipts_of s')"
    using assms(12) store_stepI(1,2) assms(3,8) unfolding own_call_def by metis
  ultimately show ?thesis using assms(2) by (simp add: advances_def)
qed

lemma reserved_stage:
  "options (sc_reserved d found p a) = options p" "invoked (sc_reserved d found p a) = invoked p"
  "consumed (sc_reserved d found p a) = consumed p" "issued (sc_reserved d found p a) = issued p"
  "(\<exists>r. stage (sc_reserved d found p a) = Finished r) \<or>
    stage (sc_reserved d found p a) = Marking d \<and> \<not> found \<and> (\<exists>v. a = Inr (Reservation v) \<and> disposition_of v = Execute)"
  by (simp_all add: sc_reserved_def Let_def split: sum.splits receipt_answer.splits disposition.splits)

lemma reserve_advances:
  assumes "orderly sha p" "stage p = Reserving d found"
  shows "advances sha S p (fst (on_store S e (CallReserve d) (sc_reserved d found p) s)) s (snd (on_store S e (CallReserve d) (sc_reserved d found p) s))"
proof -
  obtain a st where a: "so_perform S (io e) (CallReserve d) (receipts_of s) = (a, st)" by force
  let ?q = "sc_reserved d found p a" and ?s = "s\<lparr>receipts_of := st\<rparr>"
  have k: "mutation_identity sha (options p) = Inr d" using stage_key [OF assms(1)] assms(2) by simp
  have "advances sha S p ?q s ?s"
  proof (cases "\<exists>r. stage ?q = Finished r")
    case True
    then show ?thesis
      by (intro plain_advances [OF assms(1)]) (use assms(2) own_callI [OF assms(1) _ a] in \<open>auto simp: reserved_stage(1-4)\<close>)
  next
    case False
    then obtain v where v: "stage ?q = Marking d" "\<not> found" "a = Inr (Reservation v)" "disposition_of v = Execute" using reserved_stage(5) by blast
    have "orderly sha ?q"
      by (rule orderly_stage [OF assms(1)]) (use assms v in \<open>auto simp: reserved_stage(1-4) orderly_def\<close>)
    moreover have "store_step sha S p ?q (receipts_of s) (receipts_of ?s)" using store_stepI(3) [OF k] a v by simp
    ultimately show ?thesis by (simp add: advances_def reserved_stage(1-4) registry_stepI(1))
  qed
  then show ?thesis by (simp add: on_store_def a)
qed

lemma mark_advances:
  assumes "orderly sha p" "stage p = Marking d" "so_perform S (io e) (CallExecuting d) (receipts_of s) = (a, st)"
  shows "advances sha S p (sc_marked d p a) s (s\<lparr>receipts_of := st\<rparr>)"
proof (cases a)
  case (Inl err)
  then show ?thesis
    by (intro plain_advances [OF assms(1)]) (use assms(2) own_callI [OF assms(1) _ assms(3)] in \<open>auto simp: sc_marked_def\<close>)
next
  case (Inr x)
  let ?q = "p\<lparr>stage := Invoking d, invoked := True\<rparr>"
  have q: "sc_marked d p a = ?q" using Inr by (simp add: sc_marked_def)
  have k: "mutation_identity sha (options p) = Inr d" using stage_key [OF assms(1)] assms(2) by simp
  have "orderly sha ?q" using assms(1,2) identity_key [OF k] options_derived [of ?q p sha] by (simp add: orderly_def)
  moreover have "store_step sha S p ?q (receipts_of s) st"
    by (rule store_stepI(2) [OF _ _ assms(3)]) (use assms(2) k in simp_all)
  ultimately show ?thesis by (simp add: advances_def q registry_stepI(1))
qed

lemma answer_advances:
  assumes "orderly sha p" "stage p = Invoking d"
  shows "advances sha S p (sc_answered d e p) s s"
  by (rule plain_advances [OF assms(1)])
    (use assms(2) in \<open>auto simp: sc_answered_def split: sum.splits\<close>)

lemma complete_advances:
  assumes "orderly sha p" "stage p = Completing d r" "so_perform S (io e) (CallCompleted d r) (receipts_of s) = (a, st)"
  shows "advances sha S p (sc_completed d r p a) s (s\<lparr>receipts_of := st\<rparr>)"
  by (rule plain_advances [OF assms(1)])
    (use assms(2) own_callI [OF assms(1) _ assms(3)] in \<open>auto simp: sc_completed_def split: sum.splits\<close>)

lemma fail_advances:
  assumes "orderly sha p" "stage p = Failing d err" "so_perform S (io e) (CallReconciliation d) (receipts_of s) = (a, st)"
  shows "advances sha S p (finish p (Inl err)) s (s\<lparr>receipts_of := st\<rparr>)"
  by (rule plain_advances [OF assms(1)])
    (use assms(2) own_callI [OF assms(1) _ assms(3)] in auto)

lemma mutation_advances:
  assumes "orderly sha p" "executeSourceControlMutation S sha e p s = (q, s')"
  shows "advances sha S p q s s'"
proof (cases "stage p")
  case Starting
  with assms start_advances show ?thesis by (auto simp: executeSourceControlMutation_def)
next
  case (Looking d)
  have "advances sha S p (case so_get S (io e) (workspaceId d) (idempotencyKey d) (receipts_of s) of
      Inl err \<Rightarrow> finish p (Inl err) | Inr existing \<Rightarrow> p\<lparr>stage := Looked d existing\<rparr>) s s"
    by (rule plain_advances [OF assms(1)]) (use Looking in \<open>auto split: sum.splits\<close>)
  with assms(2) Looking show ?thesis by (auto simp: executeSourceControlMutation_def)
next
  case (Looked d existing)
  show ?thesis
  proof (cases existing)
    case None
    with Looked obtain reg where c: "sc_confirm e d p (registry s) = (q, reg)" "s' = s\<lparr>registry := reg\<rparr>"
      using assms(2) by (auto simp: executeSourceControlMutation_def split: prod.splits)
    with confirm_orderly [OF assms(1) _ c(1)] Looked None show ?thesis by (simp add: advances_def store_stepI(1))
  next
    case (Some r)
    have "advances sha S p (p\<lparr>stage := Reserving d True\<rparr>) s s"
      by (rule plain_advances [OF assms(1)]) (use Looked in auto)
    with assms(2) Looked Some show ?thesis by (simp add: executeSourceControlMutation_def)
  qed
next
  case (Reserving d found)
  with assms reserve_advances [OF assms(1) Reserving, of S e s] show ?thesis by (simp add: executeSourceControlMutation_def)
next
  case (Marking d)
  with assms mark_advances [OF assms(1) Marking, of S e s] show ?thesis
    by (auto simp: executeSourceControlMutation_def on_store_def split: prod.splits)
next
  case (Invoking d)
  with assms answer_advances show ?thesis by (auto simp: executeSourceControlMutation_def)
next
  case (Completing d r)
  with assms complete_advances [OF assms(1) Completing, of S e s] show ?thesis
    by (auto simp: executeSourceControlMutation_def on_store_def split: prod.splits)
next
  case (Failing d err)
  with assms fail_advances [OF assms(1) Failing, of S e s] show ?thesis
    by (auto simp: executeSourceControlMutation_def on_store_def split: prod.splits)
next
  case (Finished r)
  with assms show ?thesis by (simp add: executeSourceControlMutation_def advances_def registry_stepI(1) store_stepI(1))
qed

section \<open>All mutations\<close>

abbreviation num :: "('a \<Rightarrow> bool) \<Rightarrow> 'a list \<Rightarrow> nat" where
  "num P xs \<equiv> length (filter P xs)"

lemma num_update:
  "i < length xs \<Longrightarrow> num P (xs[i := y]) + (if P (xs ! i) then 1 else 0) = num P xs + (if P y then 1 else 0)"
proof (induction xs arbitrary: i)
  case (Cons x xs)
  then show ?case
  proof (cases i)
    case (Suc j)
    with Cons.prems Cons.IH [of j] show ?thesis by simp
  qed simp
qed simp

lemma num_same: "i < length xs \<Longrightarrow> P y = P (xs ! i) \<Longrightarrow> num P (xs[i := y]) = num P xs"
  using num_update [of i xs P y] by (auto split: if_splits)

text \<open>One step of the agent: the mutations keep their options, and the stores change by what one of them does.\<close>

lemma agent_step_kept:
  assumes "agent_step S sha (s, ps) (s', ps')" "\<forall>p \<in> set ps. orderly sha p"
  shows "\<forall>p \<in> set ps'. orderly sha p" "\<forall>p \<in> set ps. \<exists>q \<in> set ps'. options q = options p"
proof -
  have "(\<forall>p \<in> set ps'. orderly sha p) \<and> (\<forall>p \<in> set ps. \<exists>q \<in> set ps'. options q = options p)"
    using assms(1)
  proof cases
    case (request opt)
    have "orderly sha (new_mutation opt)" by (simp add: orderly_def new_mutation_def)
    with request assms(2) show ?thesis by auto
  next
    case (advance i e q)
    have "ps ! i \<in> set ps" using advance(2) by simp
    then have q: "orderly sha q" "options q = options (ps ! i)"
      using mutation_advances [OF _ advance(3)] assms(2) by (auto simp: advances_def)
    have "\<exists>q' \<in> set ps'. options q' = options p" if p: "p \<in> set ps" for p
    proof -
      obtain j where j: "j < length ps" "ps ! j = p" using p by (auto simp: in_set_conv_nth)
      have "ps' ! j \<in> set ps'" using advance(1) j(1) by (intro nth_mem) simp
      moreover have "options (ps' ! j) = options p" using advance(1,2) j q(2) by (cases "j = i") simp_all
      ultimately show ?thesis by blast
    qed
    moreover have "\<forall>p \<in> set ps'. orderly sha p" using advance(1) q(1) assms(2) set_update_subset_insert [of ps i q] by auto
    ultimately show ?thesis by blast
  qed
  then show "\<forall>p \<in> set ps'. orderly sha p" "\<forall>p \<in> set ps. \<exists>q \<in> set ps'. options q = options p" by blast+
qed

lemma agent_orderly_from:
  "(agent_step S sha)\<^sup>*\<^sup>* (s0, ps0) (s, ps) \<Longrightarrow> \<forall>p \<in> set ps0. orderly sha p \<Longrightarrow> \<forall>p \<in> set ps. orderly sha p"
proof (induction "(s, ps)" arbitrary: s ps rule: rtranclp_induct)
  case (step y)
  obtain s1 ps1 where y: "y = (s1, ps1)" by force
  from agent_step_kept(1) [OF step.hyps(2) [unfolded y] step.hyps(3) [OF y step.prems]] show ?case .
qed simp

lemma agent_orderly:
  "(agent_step S sha)\<^sup>*\<^sup>* (s0, []) (s, ps) \<Longrightarrow> p \<in> set ps \<Longrightarrow> orderly sha p"
  using agent_orderly_from [of S sha s0 "[]" s ps] by simp

subsection \<open>The stores\<close>

definition holds :: "(string \<Rightarrow> string) \<Rightarrow> (string \<Rightarrow> bool) \<Rightarrow> string \<Rightarrow> mutation \<Rightarrow> bool" where
  "holds sha mine k p = ((granted (stage p) \<or> invoked p) \<and> mine (workspace_of p) \<and> map_option trim (mutation_key sha p) = Some k)"

definition keys_ok :: "(string \<Rightarrow> string) \<Rightarrow> (string \<Rightarrow> bool) \<Rightarrow> (string \<Rightarrow> bool) \<Rightarrow> mutation list \<Rightarrow> bool" where
  "keys_ok sha mine key_ok ps = (\<forall>p \<in> set ps. mine (workspace_of p) \<longrightarrow> (\<forall>k. mutation_key sha p = Some k \<longrightarrow> key_ok k))"

lemma keys_ok_back:
  assumes "keys_ok sha mine key_ok ps'" "\<forall>p \<in> set ps. \<exists>q \<in> set ps'. options q = options p"
  shows "keys_ok sha mine key_ok ps"
  unfolding keys_ok_def
proof
  fix p assume "p \<in> set ps"
  then obtain q where "q \<in> set ps'" "options q = options p" using assms(2) by blast
  with assms(1) options_derived [of q p sha] show "mine (workspace_of p) \<longrightarrow> (\<forall>k. mutation_key sha p = Some k \<longrightarrow> key_ok k)"
    by (auto simp: keys_ok_def)
qed

text \<open>
  What the handler relies on of one store of receipts among its stores, the one of the workspaces \<open>mine\<close>, beyond the contract of the store: it is the part
  \<open>sel\<close> of the state, calls for other workspaces leave it alone, a receipt that is to be executed has the key of the call, without the white space
  around it, and the calls for the keys \<open>key_ok\<close> are proper.
\<close>

locale mutation_store = receipt_store lookup perform valid proper
  for lookup :: "'t \<Rightarrow> string \<Rightarrow> MutationReceipt option" and perform :: "receipt_io \<Rightarrow> receipt_call \<Rightarrow> ('t, receipt_answer) op"
    and valid :: "'t \<Rightarrow> bool" and proper :: "receipt_call \<Rightarrow> bool" +
  fixes S :: "'s store_ops" and sel :: "'s \<Rightarrow> 't" and mine :: "string \<Rightarrow> bool" and key_ok :: "string \<Rightarrow> bool"
  assumes performs: "mine (workspaceId (call_identity c)) \<Longrightarrow> perform e c (sel st) = (fst (so_perform S e c st), sel (snd (so_perform S e c st)))"
    and others: "\<not> mine (workspaceId (call_identity c)) \<Longrightarrow> sel (snd (so_perform S e c st)) = sel st"
    and key_proper: "key_ok (idempotencyKey (call_identity c)) \<Longrightarrow> proper c"
    and executes_key: "valid t \<Longrightarrow> proper (CallReserve d) \<Longrightarrow> perform e (CallReserve d) t = (Inr (Reservation v), t') \<Longrightarrow>
      disposition_of v = Execute \<Longrightarrow> idempotencyKey (identity (receipt v)) = trim (idempotencyKey d)"
begin

lemma own_perform:
  assumes "mutation_identity sha (options p) = Inr (call_identity c)" "keys_ok sha mine key_ok [p]" "mine (workspace_of p)"
  shows "proper c \<and> perform e c (sel st) = (fst (so_perform S e c st), sel (snd (so_perform S e c st)))"
  using identity_key [OF assms(1)] assms(2,3) performs key_proper by (simp add: keys_ok_def)

lemma store_step_perform:
  assumes "store_step sha S p q st st'" "keys_ok sha mine key_ok [p]"
  shows "sel st' = sel st \<or> (\<exists>e c. sel st' = snd (perform e c (sel st)) \<and> proper c)"
proof -
  consider "st' = st" | e c where "st' = snd (so_perform S e c st)" "mutation_identity sha (options p) = Inr (call_identity c)"
    using assms(1) unfolding store_step_def by blast
  then show ?thesis
  proof cases
    case (2 e c)
    show ?thesis
    proof (cases "mine (workspace_of p)")
      case True
      with own_perform [OF 2(2) assms(2), of e st] 2(1) show ?thesis by (metis snd_conv)
    next
      case False
      with others identity_key [OF 2(2)] 2(1) show ?thesis by simp
    qed
  qed simp
qed

lemma store_step_laws:
  assumes v: "valid (sel st)" and step: "store_step sha S p q st st'" and key: "keys_ok sha mine key_ok [p]" and opt: "options q = options p"
  shows "valid (sel st')" "lookup (sel st) k \<noteq> None \<Longrightarrow> lookup (sel st') k \<noteq> None"
    "lookup (sel st) k = Some r \<Longrightarrow> rstate r = Completed \<Longrightarrow> lookup (sel st') k = Some r"
    "holds sha mine k q \<Longrightarrow> holds sha mine k p \<or> lookup (sel st) k = None \<and> lookup (sel st') k \<noteq> None"
proof -
  note * = store_step_perform [OF step key]
  then show "valid (sel st')" using v keeps_valid by metis
  from * show "lookup (sel st) k \<noteq> None \<Longrightarrow> lookup (sel st') k \<noteq> None" using v perform_present by metis
  from * show "lookup (sel st) k = Some r \<Longrightarrow> rstate r = Completed \<Longrightarrow> lookup (sel st') k = Some r" using v perform_completed by metis
  assume q: "holds sha mine k q"
  have same: "mutation_key sha q = mutation_key sha p" "workspace_of q = workspace_of p" using options_derived [OF opt, of sha] by simp_all
  show "holds sha mine k p \<or> lookup (sel st) k = None \<and> lookup (sel st') k \<noteq> None"
  proof (cases "granted (stage p) \<or> invoked p")
    case True
    with q same show ?thesis by (simp add: holds_def)
  next
    case False
    then obtain e d v where d: "mutation_identity sha (options p) = Inr d" "so_perform S e (CallReserve d) st = (Inr (Reservation v), st')" "disposition_of v = Execute"
      using step q unfolding store_step_def holds_def by blast
    have pr: "proper (CallReserve d)" "perform e (CallReserve d) (sel st) = (Inr (Reservation v), sel st')"
      using own_perform [of sha p "CallReserve d" e st] d(1,2) key q same by (simp_all add: holds_def)
    have "idempotencyKey (identity (receipt v)) = k" using executes_key [OF v pr d(3)] q same identity_key [OF d(1)] by (simp add: holds_def)
    with pr(2) d(3) creates [OF v pr(1), of k e] show ?thesis by (simp add: executes_def)
  qed
qed

lemma agent_step_laws:
  assumes step: "agent_step S sha (s, ps) (s', ps')" and o: "\<forall>p \<in> set ps. orderly sha p" and v: "valid (sel (receipts_of s))" and keys: "keys_ok sha mine key_ok ps"
  shows "valid (sel (receipts_of s'))" "lookup (sel (receipts_of s)) k = Some r \<Longrightarrow> rstate r = Completed \<Longrightarrow> lookup (sel (receipts_of s')) k = Some r"
    "num (holds sha mine k) ps + (if a then 0 else 1) \<le> (if lookup (sel (receipts_of s)) k = None then 0 else 1) \<Longrightarrow>
      num (holds sha mine k) ps' + (if a then 0 else 1) \<le> (if lookup (sel (receipts_of s')) k = None then 0 else 1)"
proof -
  have "valid (sel (receipts_of s')) \<and> (\<forall>r. lookup (sel (receipts_of s)) k = Some r \<longrightarrow> rstate r = Completed \<longrightarrow> lookup (sel (receipts_of s')) k = Some r) \<and>
    (num (holds sha mine k) ps + (if a then 0 else 1) \<le> (if lookup (sel (receipts_of s)) k = None then 0 else 1) \<longrightarrow>
      num (holds sha mine k) ps' + (if a then 0 else 1) \<le> (if lookup (sel (receipts_of s')) k = None then 0 else 1))"
    using step
  proof cases
    case (request opt)
    have "\<not> holds sha mine k (new_mutation opt)" by (simp add: holds_def new_mutation_def)
    with request v show ?thesis by simp
  next
    case (advance i e q)
    have m: "ps ! i \<in> set ps" using advance(2) by simp
    then have a: "advances sha S (ps ! i) q s s'" using mutation_advances [OF _ advance(3)] o by blast
    have key: "keys_ok sha mine key_ok [ps ! i]" using keys m by (simp add: keys_ok_def)
    have st: "store_step sha S (ps ! i) q (receipts_of s) (receipts_of s')" "options q = options (ps ! i)" using a by (simp_all add: advances_def)
    note laws = store_step_laws [OF v st(1) key st(2)]
    have "num (holds sha mine k) ps' + (if holds sha mine k (ps ! i) then 1 else 0) = num (holds sha mine k) ps + (if holds sha mine k q then 1 else 0)"
      using num_update [OF advance(2), of "holds sha mine k" q] advance(1) by simp
    with laws(2) [of k] laws(4) [of k] have "num (holds sha mine k) ps + (if a then 0 else 1) \<le> (if lookup (sel (receipts_of s)) k = None then 0 else 1) \<longrightarrow>
      num (holds sha mine k) ps' + (if a then 0 else 1) \<le> (if lookup (sel (receipts_of s')) k = None then 0 else 1)"
      by (auto split: if_splits)
    with laws(1,3) show ?thesis by blast
  qed
  then show "valid (sel (receipts_of s'))" "lookup (sel (receipts_of s)) k = Some r \<Longrightarrow> rstate r = Completed \<Longrightarrow> lookup (sel (receipts_of s')) k = Some r"
    "num (holds sha mine k) ps + (if a then 0 else 1) \<le> (if lookup (sel (receipts_of s)) k = None then 0 else 1) \<Longrightarrow>
      num (holds sha mine k) ps' + (if a then 0 else 1) \<le> (if lookup (sel (receipts_of s')) k = None then 0 else 1)"
    by blast+
qed

lemma reserved_once:
  assumes "(agent_step S sha)\<^sup>*\<^sup>* (s0, []) (s, ps)" "valid (sel (receipts_of s0))" "keys_ok sha mine key_ok ps"
  shows "valid (sel (receipts_of s)) \<and> num (holds sha mine k) ps + (if lookup (sel (receipts_of s0)) k = None then 0 else 1) \<le>
    (if lookup (sel (receipts_of s)) k = None then 0 else 1)"
  using assms(1,3)
proof (induction "(s, ps)" arbitrary: s ps rule: rtranclp_induct)
  case base
  then show ?case using assms(2) by simp
next
  case (step y)
  obtain s1 ps1 where y: "y = (s1, ps1)" by force
  have o: "\<forall>p \<in> set ps1. orderly sha p" using agent_orderly step.hyps(1) unfolding y by blast
  note st = step.hyps(2) [unfolded y]
  have keys: "keys_ok sha mine key_ok ps1" using keys_ok_back [OF step.prems agent_step_kept(2) [OF st o]] .
  note IH = step.hyps(3) [OF y keys]
  from agent_step_laws(1) [OF st o _ keys] agent_step_laws(3) [OF st o _ keys, of k "lookup (sel (receipts_of s0)) k = None"] IH show ?case by blast
qed

lemma completed_kept:
  assumes "(agent_step S sha)\<^sup>*\<^sup>* (s0, ps0) (s, ps)" "\<forall>p \<in> set ps0. orderly sha p" "valid (sel (receipts_of s0))" "keys_ok sha mine key_ok ps"
    "lookup (sel (receipts_of s0)) k = Some r" "rstate r = Completed"
  shows "valid (sel (receipts_of s)) \<and> lookup (sel (receipts_of s)) k = Some r"
  using assms(1,4)
proof (induction "(s, ps)" arbitrary: s ps rule: rtranclp_induct)
  case base
  then show ?case using assms by simp
next
  case (step y)
  obtain s1 ps1 where y: "y = (s1, ps1)" by force
  have o: "\<forall>p \<in> set ps1. orderly sha p" using agent_orderly_from step.hyps(1) assms(2) unfolding y by blast
  note st = step.hyps(2) [unfolded y]
  have keys: "keys_ok sha mine key_ok ps1" using keys_ok_back [OF step.prems agent_step_kept(2) [OF st o]] .
  from agent_step_laws(1,2) [OF st o _ keys] step.hyps(3) [OF y keys] assms(6) show ?case by blast
qed

lemma invoked_once:
  assumes "(agent_step S sha)\<^sup>*\<^sup>* (s0, []) (s, ps)" "valid (sel (receipts_of s0))" "keys_ok sha mine key_ok ps"
  shows "num (\<lambda>p. invoked p \<and> mine (workspace_of p) \<and> map_option trim (mutation_key sha p) = Some k) ps \<le> (if lookup (sel (receipts_of s0)) k = None then 1 else 0)"
proof -
  have "num (\<lambda>p. invoked p \<and> mine (workspace_of p) \<and> map_option trim (mutation_key sha p) = Some k) ps \<le> num (holds sha mine k) ps"
    by (induction ps) (auto simp: holds_def)
  with reserved_once [OF assms, of k] show ?thesis by (auto split: if_splits)
qed

end

lemma spec_executes_key:
  assumes "map_ok l" "spec_perform (CallReserve d) l = (Inr (Reservation v), l')" "disposition_of v = Execute"
  shows "idempotencyKey (identity (receipt v)) = trim (idempotencyKey d)"
proof -
  have "reserveMutationReceipt (l (trim (idempotencyKey d))) d = Inr v"
    using assms(2) by (auto simp: spec_perform_def spec_reserve_def answer_with_def split: sum.splits)
  from reserve_cases [OF this] assms(1,3) show ?thesis by (auto simp: map_ok_def fresh_receipt_def split: option.splits if_splits)
qed

interpretation mutations_in_memory: mutation_store Map_get mem_perform "\<lambda>m. map_ok (Map_get m)" "\<lambda>_. True" memory_ops "\<lambda>m. m" "\<lambda>_. True" "\<lambda>_. True"
proof
  fix m m' :: receipts and d e v
  assume m: "map_ok (Map_get m)" and p: "mem_perform e (CallReserve d) m = (Inr (Reservation v), m')" "disposition_of v = Execute"
  have "identity_ok d" "fst (spec_perform (CallReserve d) (Map_get m)) = Inr (Reservation v)"
    using mem_perform_spec [of "CallReserve d" e m] p(1) by (auto split: if_splits)
  then show "idempotencyKey (identity (receipt v)) = trim (idempotencyKey d)"
    using spec_executes_key [OF m _ p(2)] by (metis prod.collapse)
qed (simp_all add: memory_ops_def)

text \<open>The part of the state that is the store of one workspace.\<close>

abbreviation ws_ok :: "(string \<Rightarrow> FileMutationReceiptStore) \<Rightarrow> string set \<Rightarrow> string \<Rightarrow> (string \<Rightarrow> receipt_files) \<Rightarrow> bool" where
  "ws_ok D K w st \<equiv> files_ok (D w) K (st w)"

abbreviation ws_lookup :: "(string \<Rightarrow> FileMutationReceiptStore) \<Rightarrow> string set \<Rightarrow> string \<Rightarrow> (string \<Rightarrow> receipt_files) \<Rightarrow> receipt_map" where
  "ws_lookup D K w st \<equiv> file_lookup (D w) K (st w)"

abbreviation usable_key :: "string set \<Rightarrow> string \<Rightarrow> bool" where
  "usable_key K k \<equiv> trim k = k \<and> k \<in> K"

interpretation mutations_on_disk: mutation_store "file_lookup (D w)  K" "file_perform (D w)" "files_ok (D w) K" "trimmed_call K" "file_ops D" "\<lambda>st. st w" "(=) w" "usable_key K" for D w K
proof
  fix fs fs' d e v
  assume fs: "files_ok (D w) K fs" "trimmed_call K (CallReserve d)" and p: "file_perform (D w) e (CallReserve d) fs = (Inr (Reservation v), fs')" "disposition_of v = Execute"
  have "spec_perform (CallReserve d) (file_lookup (D w) K fs) = (Inr (Reservation v), file_lookup (D w) K fs')"
    using file_perform_spec [OF fs p(1)] by simp
  then show "idempotencyKey (identity (receipt v)) = trim (idempotencyKey d)"
    using spec_executes_key [OF file_lookup_ok [OF fs(1)] _ p(2)] by blast
qed (auto simp: file_ops_def trimmed_call_def Let_def split: prod.splits)

subsection \<open>The confirmations\<close>

text \<open>
  What is outstanding or consumed was created by a mutation with the same binding, and is consumed at most as often as it was created.
\<close>

definition created_for :: "(string \<Rightarrow> string) \<Rightarrow> mutation list \<Rightarrow> string \<Rightarrow> TypedConfirmationBinding option \<Rightarrow> bool" where
  "created_for sha ps i b = (\<exists>q \<in> set ps. issued q = Some i \<and> binding_of sha q = b)"

definition confirmations_ok :: "(string \<Rightarrow> string) \<Rightarrow> millis \<Rightarrow> TypedConfirmationRegistry \<Rightarrow> mutation list \<Rightarrow> bool" where
  "confirmations_ok sha ttl reg ps = (typed_valid ttl reg \<and>
     (\<forall>i b x. typed_outstanding reg i = Some (b, x) \<longrightarrow> created_for sha ps i (Some b)) \<and>
     (\<forall>p \<in> set ps. consumed p \<longrightarrow> (\<exists>i. presented p = Some i \<and> created_for sha ps i (binding_of sha p))) \<and>
     (\<forall>i. num (\<lambda>p. consumed p \<and> presented p = Some i) ps + (if typed_outstanding reg i = None then 0 else 1) \<le> num (\<lambda>p. issued p = Some i) ps))"

lemma created_for_update:
  assumes "created_for sha ps i b" "j < length ps" "options q = options (ps ! j)" "issued q = issued (ps ! j) \<or> issued (ps ! j) = None"
  shows "created_for sha (ps[j := q]) i b"
proof -
  obtain k where k: "k < length ps" "issued (ps ! k) = Some i" "binding_of sha (ps ! k) = b"
    using assms(1) unfolding created_for_def by (metis in_set_conv_nth)
  have "issued (ps[j := q] ! k) = Some i \<and> binding_of sha (ps[j := q] ! k) = b"
    using k assms(2-4) options_derived [OF assms(3), of sha] by (cases "k = j") auto
  with k(1) show ?thesis unfolding created_for_def by (metis length_list_update nth_mem)
qed

definition fewer :: "TypedConfirmationRegistry \<Rightarrow> TypedConfirmationRegistry \<Rightarrow> string \<Rightarrow> bool" where
  "fewer reg' reg k = (typed_outstanding reg' k = None \<or> typed_outstanding reg' k = typed_outstanding reg k)"

lemma registry_cases:
  assumes "typed_valid ttl reg" "registry_step sha p q reg reg'"
  obtains (same) "issued q = issued p" "consumed q = consumed p" "\<forall>k. fewer reg' reg k"
  | (create) i b x where "issued p = None" "issued q = Some i" "consumed q = consumed p" "binding_of sha p = Some b"
      "typed_outstanding reg' i = Some (b, x)" "\<forall>k. k \<noteq> i \<longrightarrow> fewer reg' reg k"
  | (consume) i b x where "presented p = Some i" "\<not> consumed p" "consumed q" "issued q = issued p" "binding_of sha p = Some b"
      "typed_outstanding reg i = Some (b, x)" "typed_outstanding reg' i = None" "\<forall>k. fewer reg' reg k"
proof -
  note v = assms(1)
  from assms(2) consider "issued q = issued p" "consumed q = consumed p" "reg' = reg"
    | t u i b err where "typed_create t u i b reg = (Inl err, reg')" "issued q = issued p" "consumed q = consumed p"
    | t u i b err where "typed_consume t u i b reg = (Inl err, reg')" "issued q = issued p" "consumed q = consumed p"
    | t u i b x where "typed_create t u i b reg = (Inr x, reg')" "binding_of sha p = Some b" "issued p = None" "issued q = Some i" "consumed q = consumed p"
    | t u i b where "typed_consume t u i b reg = (Inr (), reg')" "binding_of sha p = Some b" "presented p = Some i" "\<not> consumed p" "consumed q" "issued q = issued p"
    unfolding registry_step_def by blast
  then show ?thesis
  proof cases
    case 1
    then show ?thesis by (intro same) (simp_all add: fewer_def)
  next
    case 2
    then have "fewer reg' reg k" for k unfolding fewer_def by (intro typed.issue_frame [OF v 2(1)]) simp
    with 2 same show ?thesis by blast
  next
    case 3
    then have "fewer reg' reg k" for k unfolding fewer_def by (intro typed.redeem_frame [OF v 3(1)])
    with 3 same show ?thesis by blast
  next
    case 4
    then have "fewer reg' reg k" if "k \<noteq> i" for k unfolding fewer_def by (intro typed.issue_frame [OF v 4(1)] disjI1 that)
    with 4 create typed.issue_stores [OF v 4(1)] show ?thesis by blast
  next
    case 5
    have "fewer reg' reg k" for k unfolding fewer_def by (intro typed.redeem_frame [OF v 5(1)])
    moreover obtain x where "typed_outstanding reg i = Some (b, x)" using typed.redeem_sound [OF v 5(1)] by auto
    ultimately show ?thesis using 5 consume typed.redeem_consumes [OF v 5(1)] by blast
  qed
qed

lemma registry_step_valid: "typed_valid ttl reg \<Longrightarrow> registry_step sha p q reg reg' \<Longrightarrow> typed_valid ttl reg'"
  unfolding registry_step_def using typed_valid_create typed_valid_consume by blast

lemma confirmations_counts:
  assumes v: "typed_valid ttl reg" and n: "num (\<lambda>p. consumed p \<and> presented p = Some i) ps + (if typed_outstanding reg i = None then 0 else 1) \<le> num (\<lambda>p. issued p = Some i) ps"
    and j: "j < length ps" "presented q = presented (ps ! j)" and step: "registry_step sha (ps ! j) q reg reg'"
  shows "num (\<lambda>p. consumed p \<and> presented p = Some i) (ps[j := q]) + (if typed_outstanding reg' i = None then 0 else 1) \<le> num (\<lambda>p. issued p = Some i) (ps[j := q])"
proof -
  let ?C = "\<lambda>p. consumed p \<and> presented p = Some i" and ?I = "\<lambda>p. issued p = Some i"
  note c = num_update [OF j(1), of ?C q] and u = num_update [OF j(1), of ?I q]
  from v step show ?thesis
  proof (cases rule: registry_cases)
    case same
    then have "num ?C (ps[j := q]) = num ?C ps" "num ?I (ps[j := q]) = num ?I ps" using c u j(2) by (simp_all split: if_splits)
    with n same(3) [rule_format, of i] show ?thesis by (auto simp: fewer_def split: if_splits)
  next
    case (create k b x)
    have "num ?C (ps[j := q]) = num ?C ps" using c create(3) j(2) by (simp split: if_splits)
    moreover have "num ?I (ps[j := q]) = num ?I ps + (if k = i then 1 else 0)" using u create(1,2) by (simp split: if_splits)
    ultimately show ?thesis using n create(6) [rule_format, of i] by (cases "k = i") (auto simp: fewer_def split: if_splits)
  next
    case (consume k b x)
    have "num ?C (ps[j := q]) = num ?C ps + (if k = i then 1 else 0)" using c consume(1-3) j(2) by (simp split: if_splits)
    moreover have "num ?I (ps[j := q]) = num ?I ps" using u consume(4) by (simp split: if_splits)
    ultimately show ?thesis using n consume(6,7) consume(8) [rule_format, of i] by (cases "k = i") (auto simp: fewer_def split: if_splits)
  qed
qed

lemma confirmations_step:
  assumes ok: "confirmations_ok sha ttl reg ps" and j: "j < length ps" "options q = options (ps ! j)"
    and step: "registry_step sha (ps ! j) q reg reg'"
  shows "confirmations_ok sha ttl reg' (ps[j := q])"
proof -
  let ?p = "ps ! j" and ?ps = "ps[j := q]"
  note d = options_derived [OF j(2), of sha]
  have v: "typed_valid ttl reg" using ok by (simp add: confirmations_ok_def)
  have kept: "created_for sha ?ps i b" if "created_for sha ps i b" for i b
  proof (rule created_for_update [OF that j])
    from v step show "issued q = issued ?p \<or> issued ?p = None" by (cases rule: registry_cases) auto
  qed
  have q: "created_for sha ?ps i b" if "issued q = Some i" "binding_of sha ?p = b" for i b
    using that d j(1) unfolding created_for_def by (metis set_update_memI)
  have old: "created_for sha ps i (Some b)" if "typed_outstanding reg i = Some (b, x)" for i b x
    using ok that unfolding confirmations_ok_def by blast
  have less: "created_for sha ?ps i (Some b)" if "fewer reg' reg i" "typed_outstanding reg' i = Some (b, x)" for i b x
    using old [of i b x] kept that by (simp add: fewer_def)
  have "created_for sha ?ps i (Some b)" if o: "typed_outstanding reg' i = Some (b, x)" for i b x
    using v step
  proof (cases rule: registry_cases)
    case (create k c y)
    then show ?thesis using o less [OF _ o] q [OF create(2,4)] by (cases "k = i") simp_all
  qed (use less [OF _ o] in blast)+
  moreover have "\<exists>i. presented p = Some i \<and> created_for sha ?ps i (binding_of sha p)" if "p \<in> set ?ps" "consumed p" for p
  proof (cases "p \<in> set ps")
    case True
    with ok that kept show ?thesis unfolding confirmations_ok_def by blast
  next
    case False
    with that(1) have "p = q" using set_update_subset_insert by fastforce
    from v step show ?thesis
    proof (cases rule: registry_cases)
      case (consume i b x)
      with old kept d \<open>p = q\<close> show ?thesis by auto
    qed (use ok that j kept d \<open>p = q\<close> in \<open>auto simp: confirmations_ok_def\<close>)
  qed
  ultimately show ?thesis
    using confirmations_counts [OF v _ j(1) _ step] registry_step_valid [OF v step] ok d unfolding confirmations_ok_def by blast
qed

lemma confirmations_run:
  assumes "(agent_step S sha)\<^sup>*\<^sup>* (s0, []) (s, ps)" "new_registry ttl = Inr (registry s0)"
  shows "confirmations_ok sha (tc_ttlMs (registry s0)) (registry s) ps"
  using assms(1)
proof (induction "(s, ps)" arbitrary: s ps rule: rtranclp_induct)
  case base
  then show ?case using new_registry_valid [OF assms(2)] by (auto simp: confirmations_ok_def typed_outstanding_def outstanding_of_def)
next
  case (step y)
  obtain s1 ps1 where y: "y = (s1, ps1)" by force
  note IH = step.hyps(3) [OF y]
  from step.hyps(2) show ?case unfolding y
  proof cases
    case (request opt)
    have n: "issued (new_mutation opt) = None" "\<not> consumed (new_mutation opt)" by (simp_all add: new_mutation_def)
    have "created_for sha ps i b" if "created_for sha ps1 i b" for i b using that request by (auto simp: created_for_def)
    with IH n request show ?thesis unfolding confirmations_ok_def by auto
  next
    case (advance i e q)
    have "orderly sha (ps1 ! i)" using agent_orderly step.hyps(1) advance(2) unfolding y by (metis nth_mem)
    from mutation_advances [OF this advance(3)] confirmations_step [OF IH advance(2)] advance(1)
    show ?thesis by (simp add: advances_def)
  qed
qed

text \<open>One after the other, with nothing in between.\<close>

fun run_alone :: "'s store_ops \<Rightarrow> (string \<Rightarrow> string) \<Rightarrow> env list \<Rightarrow> mutation \<times> 's shared \<Rightarrow> mutation \<times> 's shared" where
  "run_alone S sha [] ps = ps"
| "run_alone S sha (e # es) ps = run_alone S sha es (executeSourceControlMutation S sha e (fst ps) (snd ps))"

section \<open>A mutation on its own\<close>

text \<open>The life of a receipt under one identity.\<close>

definition life :: "MutationReceiptIdentity \<Rightarrow> MutationReceiptState \<Rightarrow> js_value option \<Rightarrow> MutationReceipt" where
  "life d st v = \<lparr>identity = trimmed d, rstate = st, rresult = v\<rparr>"

lemma life_ok: "identity_ok d \<Longrightarrow> (case v of None \<Rightarrow> st \<noteq> Completed | Some u \<Rightarrow> st = Completed \<and> public_value u) \<Longrightarrow> receipt_ok (life d st v)"
  by (auto simp: receipt_ok_def life_def split: option.splits)

lemma spec_life:
  assumes "identity_ok d" "trim (idempotencyKey d) = idempotencyKey d"
  shows "l (idempotencyKey d) = None \<Longrightarrow> spec_perform (CallReserve d) l =
      (Inr (Reservation \<lparr>disposition_of = Execute, receipt = life d Reserved None\<rparr>), l(idempotencyKey d \<mapsto> life d Reserved None))"
    and "l (idempotencyKey d) = Some (life d Reserved None) \<Longrightarrow> spec_perform (CallExecuting d) l =
      (Inr (Receipt (life d Executing None)), l(idempotencyKey d \<mapsto> life d Executing None))"
    and "l (idempotencyKey d) = Some (life d Executing None) \<Longrightarrow> parsePublicResultValue r = Inr u \<Longrightarrow> spec_perform (CallCompleted d r) l =
      (Inr (Receipt (life d Completed (Some u))), l(idempotencyKey d \<mapsto> life d Completed (Some u)))"
    and "l (idempotencyKey d) = Some (life d Completed (Some u)) \<Longrightarrow> public_value u \<Longrightarrow> spec_perform (CallReserve d) l =
      (Inr (Reservation \<lparr>disposition_of = ReplayCompleted, receipt = life d Completed (Some u)\<rparr>), l)"
proof -
  have parsed: "parseMutationReceipt (receipt_value (life d Reserved None)) = Inr (life d Reserved None)"
    "parseMutationReceipt (receipt_value (life d Executing None)) = Inr (life d Executing None)"
    "public_value u \<Longrightarrow> parseMutationReceipt (receipt_value (life d Completed (Some u))) = Inr (life d Completed (Some u))"
    using life_ok [OF assms(1)] by (simp_all add: parse_receipt_value)
  note defs = spec_perform_def spec_reserve_def spec_update_def answer_with_def reserveMutationReceipt_def parse_identity_eq assms
    markMutationReceiptExecuting_def markMutationReceiptCompleted_def requireExistingReceipt_def parsed assertSameIdentity_def
  have same: "identity (life d st v) = trimmed d" "rstate (life d st v) = st" for st v by (simp_all add: life_def)
  show "l (idempotencyKey d) = None \<Longrightarrow> spec_perform (CallReserve d) l =
      (Inr (Reservation \<lparr>disposition_of = Execute, receipt = life d Reserved None\<rparr>), l(idempotencyKey d \<mapsto> life d Reserved None))"
    by (simp add: defs) (simp add: life_def)
  show "l (idempotencyKey d) = Some (life d Reserved None) \<Longrightarrow> spec_perform (CallExecuting d) l =
      (Inr (Receipt (life d Executing None)), l(idempotencyKey d \<mapsto> life d Executing None))"
    by (simp add: defs same) (simp add: life_def)
  show "l (idempotencyKey d) = Some (life d Executing None) \<Longrightarrow> parsePublicResultValue r = Inr u \<Longrightarrow> spec_perform (CallCompleted d r) l =
      (Inr (Receipt (life d Completed (Some u))), l(idempotencyKey d \<mapsto> life d Completed (Some u)))"
    by (simp add: defs same) (simp add: life_def)
  show "l (idempotencyKey d) = Some (life d Completed (Some u)) \<Longrightarrow> public_value u \<Longrightarrow> spec_perform (CallReserve d) l =
      (Inr (Reservation \<lparr>disposition_of = ReplayCompleted, receipt = life d Completed (Some u)\<rparr>), l)"
    by (simp add: defs same)
qed

text \<open>What the outside does when nothing fails.\<close>

definition calm :: "js_value \<Rightarrow> env \<Rightarrow> bool" where
  "calm v e = (\<not> read_fails (io e) \<and> \<not> write_fails (io e) \<and> before e = Inr () \<and> backend e = Inr v)"

lemma calm_perform:
  assumes "calm v e" "ws_ok D K w st" "usable_key K (idempotencyKey (call_identity c))" "workspaceId (call_identity c) = w"
    "spec_perform c (ws_lookup D K w st) = (a, l)"
  obtains st' where "so_perform (file_ops D) (io e) c st = (a, st')" "ws_ok D K w st'" "ws_lookup D K w st' = l"
proof -
  obtain b fs' where p: "file_perform (D w) (io e) c (st w) = (b, fs')" by force
  have "trimmed_call K c" using assms(3) by (simp add: trimmed_call_def)
  from file_perform_spec [OF assms(2) this p] assms(1,4,5) p that [of "st(w := fs')"] show ?thesis by (auto simp: calm_def file_ops_def)
qed

lemma calm_start:
  assumes "calm v e" "authorize opt = Inr ()" "mutation_identity sha opt = Inr d" "ws_ok D K (workspaceId d) (receipts_of s)" "idempotencyKey d \<in> K"
  shows "run_alone (file_ops D) sha (e # e # es) (new_mutation opt, s) =
    run_alone (file_ops D) sha es ((new_mutation opt)\<lparr>stage := Looked d (ws_lookup D K (workspaceId d) (receipts_of s) (idempotencyKey d))\<rparr>, s)"
  using assms read_ok [OF assms(4,5)]
  by (simp add: executeSourceControlMutation_def sc_start_def new_mutation_def calm_def file_ops_def file_get_def)

lemma calm_execution:
  assumes c: "calm v e" and w: "workspaceId d = w" and fs: "ws_ok D K w (receipts_of s)" and d: "identity_ok d" "usable_key K (idempotencyKey d)"
    and p: "stage p = Reserving d False" "ws_lookup D K w (receipts_of s) (idempotencyKey d) = None"
    and r: "resultSchema (options p) v = Inr r" "parsePublicResultValue r = Inr u"
  obtains q st where "run_alone (file_ops D) sha [e, e, e, e] (p, s) = (q, s\<lparr>receipts_of := st\<rparr>)" "stage q = Finished (Inr r)" "invoked q" "options q = options p"
    "ws_ok D K w st" "ws_lookup D K w st (idempotencyKey d) = Some (life d Completed (Some u))"
proof -
  let ?k = "idempotencyKey d" and ?l = "ws_lookup D K w (receipts_of s)" and ?S = "file_ops D"
  have t: "trim ?k = ?k" using d(2) by simp
  obtain f1 where f1: "so_perform ?S (io e) (CallReserve d) (receipts_of s) = (Inr (Reservation \<lparr>disposition_of = Execute, receipt = life d Reserved None\<rparr>), f1)"
      "ws_ok D K w f1" "ws_lookup D K w f1 = ?l(?k \<mapsto> life d Reserved None)"
    using calm_perform [where D = D and K = K and w = w and st = "receipts_of s", OF c fs _ _ spec_life(1) [OF d(1) t, of ?l]] d(2) p(2) w by auto
  obtain f2 where f2: "so_perform ?S (io e) (CallExecuting d) f1 = (Inr (Receipt (life d Executing None)), f2)"
      "ws_ok D K w f2" "ws_lookup D K w f2 = ?l(?k \<mapsto> life d Executing None)"
    using calm_perform [where D = D and K = K and w = w and st = f1, OF c f1(2) _ _ spec_life(2) [OF d(1) t, of "ws_lookup D K w f1"]] d(2) f1(3) w by auto
  obtain f3 where f3: "so_perform ?S (io e) (CallCompleted d r) f2 = (Inr (Receipt (life d Completed (Some u))), f3)"
      "ws_ok D K w f3" "ws_lookup D K w f3 = ?l(?k \<mapsto> life d Completed (Some u))"
    using calm_perform [where D = D and K = K and w = w and st = f2, OF c f2(2) _ _ spec_life(3) [OF d(1) t, of "ws_lookup D K w f2", OF _ r(2)]] d(2) f2(3) w by auto
  have b: "backend e = Inr v" using c by (simp add: calm_def)
  let ?q = "finish (record_sha r (outcome ''executed'' (p\<lparr>invoked := True, stage := Completing d r\<rparr>))) (Inr r)"
  have "run_alone ?S sha [e, e, e, e] (p, s) = (?q, s\<lparr>receipts_of := f3\<rparr>)"
    using p(1) f1(1) f2(1) f3(1) b r(1)
    by (simp add: executeSourceControlMutation_def on_store_def sc_reserved_def sc_marked_def sc_answered_def sc_completed_def)
  then show ?thesis using that f3 by simp
qed

lemma unconfirmed_step:
  assumes "stage p = Looked d None" "\<not> needs_confirmation p"
  shows "executeSourceControlMutation S sha e p s = (p\<lparr>stage := Reserving d False\<rparr>, s)"
proof -
  have "sc_confirm e d p (registry s) = (p\<lparr>stage := Reserving d False\<rparr>, registry s)"
    using assms(2) by (auto simp: sc_confirm_def needs_confirmation_def presented_def split: option.splits)
  with assms(1) show ?thesis by (simp add: executeSourceControlMutation_def)
qed

lemma file_reserve_frame: "fst (file_reserve D e d fs) = Inr v \<Longrightarrow> disposition_of v \<noteq> Execute \<Longrightarrow> snd (file_reserve D e d fs) = fs"
  by (auto simp: file_reserve_def split: sum.splits if_splits prod.splits)

lemma file_reserve_replay:
  "file_perform D e (CallReserve d) fs = (Inr (Reservation v), fs') \<Longrightarrow> disposition_of v \<noteq> Execute \<Longrightarrow> fs' = fs"
  using file_reserve_frame [of D e d fs v]
  by (cases "fst (file_reserve D e d fs)") (auto simp: file_perform_def answer_with_def)

lemma calm_replay:
  assumes c: "calm v e" and w: "workspaceId d = w" and fs: "ws_ok D K w (receipts_of s)" and d: "identity_ok d" "usable_key K (idempotencyKey d)"
    and p: "stage p = Looked d (Some (life d Completed (Some u)))" "\<not> invoked p" "ws_lookup D K w (receipts_of s) (idempotencyKey d) = Some (life d Completed (Some u))"
    and u: "public_value u" and r: "resultSchema (options p) u = Inr r"
  obtains q where "run_alone (file_ops D) sha [e, e] (p, s) = (q, s)" "stage q = Finished (Inr r)" "\<not> invoked q"
proof -
  let ?v = "\<lparr>disposition_of = ReplayCompleted, receipt = life d Completed (Some u)\<rparr>"
  obtain f1 where f1: "so_perform (file_ops D) (io e) (CallReserve d) (receipts_of s) = (Inr (Reservation ?v), f1)"
    using calm_perform [where D = D and K = K and w = w and st = "receipts_of s", OF c fs _ _ spec_life(4) [OF d(1) conjunct1 [OF d(2)], of "ws_lookup D K w (receipts_of s)", OF p(3) u]] d(2) w by auto
  obtain fs' where "file_perform (D w) (io e) (CallReserve d) (receipts_of s w) = (Inr (Reservation ?v), fs')" "f1 = (receipts_of s)(w := fs')"
    using f1 w by (auto simp: file_ops_def split: prod.splits)
  then have "f1 = receipts_of s" using file_reserve_replay [of "D w" "io e" d "receipts_of s w" ?v fs'] by simp
  let ?q = "finish (record_sha r (outcome ''completed_replay'' (p\<lparr>stage := Reserving d True\<rparr>))) (Inr r)"
  have "run_alone (file_ops D) sha [e, e] (p, s) = (?q, s)"
    using p(1) f1 r \<open>f1 = receipts_of s\<close>
    by (simp add: executeSourceControlMutation_def on_store_def sc_reserved_def stored_result_def life_def Let_def)
  then show ?thesis using that p(2) by simp
qed

section \<open>Sample mutations\<close>

definition demo_workspace :: WorkspacePolicy where
  "demo_workspace = \<lparr>ws_id = ''ws'', ws_name = ''ws'', rootPath = ''/ws'', workspaceKind = None, ws_enabled = True, permissionProfile = ''full-repo-write'',
     confirmationMode = ''standard'', allowedRoots = [''.''], blockedGlobs = [],
     limits = \<lparr>maxFileBytes = 1, maxSearchResults = 1, maxSearchSnippetBytes = 1, maxDiffBytes = 1, maxListedFiles = 1,
       maxDiscoveryDirectories = None, maxDiscoveryEntries = None, maxDiscoveryDurationMs = None\<rparr>, allowWrites = [''.''], allowShell = [], allowedShells = [],
     sourceControl = Some \<lparr>capabilities = [''git.remote.push''], accountOwners = [], additionalRepositories = []\<rparr>\<rparr>"

definition demo_mutation :: "string option \<Rightarrow> string option \<Rightarrow> mutation_options" where
  "demo_mutation confirmable confirmation = \<lparr>mo_workspace = demo_workspace, mo_operation = ''git_push_branch'', confirmableOperation = confirmable,
     requireConfirmation = True, capability = ''git.remote.push'', repository = None, canonicalRepositoryAlreadyAuthorized = False,
     accountOwner = None, mo_targetResource = ''origin/main'', input = demo_push confirmation,
     ctx = \<lparr>ctx_idempotencyKey = Some ''k1'', ctx_invocationId = None, ctx_correlationId = None\<rparr>, resultSchema = Inr, resultSha = None\<rparr>"

definition demo_env :: env where
  "demo_env = \<lparr>io = demo_ok, now1 = 0, now2 = 0, random_id = ''c1'', before = Inr (), backend = Inr demo_result, iso = (\<lambda>t. ''soon'')\<rparr>"

definition demo_shared :: "(string \<Rightarrow> receipt_files) shared" where
  "demo_shared = \<lparr>receipts_of = (\<lambda>w. []), registry = \<lparr>tc_pending = [], tc_ttlMs = 100\<rparr>\<rparr>"

definition demo_stores :: "string \<Rightarrow> FileMutationReceiptStore" where
  "demo_stores w = demo_store\<lparr>receiptDirectory := CHR 0x2F # w @ ''/receipts''\<rparr>"

definition demo_sha :: "string \<Rightarrow> string" where
  "demo_sha s = replicate 64 (CHR ''0'')"

lemma demo_authorized: "authorize (demo_mutation x c) = Inr ()"
  by (simp add: authorize_def demo_mutation_def assertSourceControlCapability_def demo_workspace_def startsWith_def)

lemma demo_mutation_identity: "mutation_identity demo_sha (demo_mutation x c) = Inr (demo_identity ''k1'')"
  using digest_demo_push [of demo_sha c]
  by (auto simp: mutation_identity_def demo_mutation_def deriveSourceControlIdempotencyKey_def orElse_def demo_identity_def demo_workspace_def
      digest_text then_parse_Inr demo_sha_def)

lemma demo_push_calm: "calm demo_result demo_env"
  by (simp add: calm_def demo_env_def demo_ok_def)

lemma demo_shared_ok: "ws_ok demo_stores demo_keys w (receipts_of demo_shared)" "ws_lookup demo_stores demo_keys w (receipts_of demo_shared) k = None"
proof -
  have "demo_digest ''k1'' \<noteq> demo_digest ''k2''" by code_simp
  then show "ws_ok demo_stores demo_keys w (receipts_of demo_shared)"
    by (simp add: files_ok_def demo_keys_def receiptPath_def demo_stores_def demo_store_def demo_shared_def)
qed (simp add: demo_shared_def file_lookup_def)

lemma demo_usable: "usable_key demo_keys (idempotencyKey (demo_identity ''k1''))" "workspaceId (demo_identity k) = ''ws''"
  by (simp_all add: demo_key demo_trim demo_keys_def) (simp add: demo_identity_def)

lemma demo_unconfirmed: "\<not> needs_confirmation (new_mutation (demo_mutation None c))"
  by (simp add: needs_confirmation_def new_mutation_def demo_mutation_def)

lemma demo_result_public: "parsePublicResultValue demo_result = Inr demo_result"
  using demo_public public_parse(1) by blast

lemma confirm_options: "options (fst (sc_confirm e d p reg)) = options p"
proof -
  obtain q reg' where c: "sc_confirm e d p reg = (q, reg')" by force
  from c show ?thesis by (cases rule: sc_confirm_cases) (simp_all add: c)
qed

lemma advance_options: "options (fst (executeSourceControlMutation S sha e p s)) = options p"
proof (cases "stage p")
  case (Looked d x)
  then show ?thesis using confirm_options [of e d p "registry s"] by (cases x) (auto simp: executeSourceControlMutation_def split: prod.splits)
qed (simp_all add: executeSourceControlMutation_def sc_start_def sc_marked_def sc_answered_def sc_completed_def on_store_def reserved_stage split: sum.splits prod.splits)

lemma run_alone_options: "run_alone S sha es (p, s) = (q, s') \<Longrightarrow> options q = options p"
proof (induction es arbitrary: p s)
  case (Cons e es)
  then show ?case using advance_options [of S sha e p s] by (cases "executeSourceControlMutation S sha e p s") simp
qed simp

lemma run_alone_steps:
  "run_alone S sha es (p, s) = (q, s') \<Longrightarrow> (agent_step S sha)\<^sup>*\<^sup>* (s, ps @ [p]) (s', ps @ [q])"
proof (induction es arbitrary: p s)
  case (Cons e es)
  obtain p1 s1 where x: "executeSourceControlMutation S sha e p s = (p1, s1)" by force
  then have "agent_step S sha (s, ps @ [p]) (s1, ps @ [p1])"
    using agent_step.advance [of "length ps" "ps @ [p]" S sha e s p1 s1] by simp
  with Cons.IH [of p1 s1] Cons.prems x show ?case by (simp add: converse_rtranclp_into_rtranclp)
qed simp

lemma run_request:
  "run_alone S sha es (new_mutation opt, s) = (q, s') \<Longrightarrow> (agent_step S sha)\<^sup>*\<^sup>* (s, ps) (s', ps @ [q])"
  using run_alone_steps [of S sha es "new_mutation opt" s q s' ps] agent_step.request [of S sha s ps opt] by (meson converse_rtranclp_into_rtranclp)

text \<open>A first mutation is given a confirmation; a second one presents it and is executed.\<close>

definition demo_push_binding :: TypedConfirmationBinding where
  "demo_push_binding = \<lparr>tc_workspaceId = ''ws'', tc_operation = ''git_push_branch'', tc_targetResource = ''origin/main'', tc_digest = replicate 64 (CHR ''0'')\<rparr>"

lemma demo_push_binding_parses: "parseBinding demo_push_binding = Inr demo_push_binding"
proof -
  have "trim ''ws'' \<noteq> []" "trim ''origin/main'' \<noteq> []" by code_simp+
  then show ?thesis
    by (simp add: parseBinding_def demo_push_binding_def confirmableSourceControlOperationNames_def is_sha256_hex_def is_lower_hex_def list_all_iff)
qed

definition demo_pending :: "(string \<Rightarrow> receipt_files) shared" where
  "demo_pending = demo_shared\<lparr>registry := \<lparr>tc_pending = [(''c1'', \<lparr>binding = demo_push_binding, expiresAtMs = 100\<rparr>)], tc_ttlMs = 100\<rparr>\<rparr>"

definition demo_given :: mutation where
  "demo_given = finish (outcome ''confirmation_required'' ((new_mutation (demo_mutation (Some ''git_push_branch'') None))\<lparr>stage := Looked (demo_identity ''k1'') None, issued := Some ''c1''\<rparr>))
     (Inr (confirmation_required demo_env (demo_mutation (Some ''git_push_branch'') None) ''git_push_branch'' (''c1'', 100)))"

lemma demo_given_run:
  "run_alone (file_ops demo_stores) demo_sha [demo_env, demo_env, demo_env] (new_mutation (demo_mutation (Some ''git_push_branch'') None), demo_shared) =
    (demo_given, demo_pending)"
proof -
  let ?opt = "demo_mutation (Some ''git_push_branch'') None" and ?d = "demo_identity ''k1''"
  let ?p = "(new_mutation ?opt)\<lparr>stage := Looked ?d None\<rparr>"
  have b: "confirmation_binding ?opt ''git_push_branch'' ?d = demo_push_binding"
    by (simp add: confirmation_binding_def demo_mutation_def demo_workspace_def demo_identity_def demo_push_binding_def)
  have c: "typed_create 0 0 ''c1'' demo_push_binding (registry demo_shared) = (Inr (''c1'', 100), registry demo_pending)"
    by (simp add: typed_create_def demo_push_binding_parses demo_shared_def demo_pending_def conf_eval)
  have o: "confirmableOperation ?opt = Some ''git_push_branch''" "requireConfirmation ?opt" "resultSchema ?opt = Inr" "readConfirmationId (input ?opt) = None"
    by (simp_all add: demo_mutation_def readConfirmationId_def demo_push_def Map_get_def)
  have "sc_confirm demo_env ?d ?p (registry demo_shared) = (demo_given, registry demo_pending)"
    using c by (simp add: sc_confirm_def o b Let_def) (simp add: demo_env_def demo_given_def o)
  then show ?thesis
    using calm_start [where D = demo_stores and K = demo_keys and s = demo_shared and es = "[demo_env]" and opt = ?opt,
      OF demo_push_calm demo_authorized demo_mutation_identity demo_shared_ok(1) conjunct2 [OF demo_usable(1)]]
    by (simp add: demo_shared_ok(2) executeSourceControlMutation_def) (simp add: demo_shared_def demo_pending_def)
qed

lemma demo_confirmed_run:
  obtains q s where "run_alone (file_ops demo_stores) demo_sha (replicate 7 demo_env) (new_mutation (demo_mutation (Some ''git_push_branch'') (Some ''c1'')), demo_pending) = (q, s)"
    "invoked q" "options q = demo_mutation (Some ''git_push_branch'') (Some ''c1'')"
proof -
  let ?opt = "demo_mutation (Some ''git_push_branch'') (Some ''c1'')" and ?d = "demo_identity ''k1''"
  let ?p = "(new_mutation ?opt)\<lparr>stage := Looked ?d None\<rparr>" and ?reg = "\<lparr>tc_pending = [], tc_ttlMs = 100\<rparr>"
  let ?q = "?p\<lparr>consumed := True, stage := Reserving ?d False\<rparr>"
  have b: "confirmation_binding ?opt ''git_push_branch'' ?d = demo_push_binding"
    by (simp add: confirmation_binding_def demo_mutation_def demo_workspace_def demo_identity_def demo_push_binding_def)
  have c: "typed_consume 0 0 ''c1'' demo_push_binding (registry demo_pending) = (Inr (), ?reg)"
    by (simp add: typed_consume_def demo_push_binding_parses demo_pending_def conf_eval sameTypedBinding_iff)
  have o: "confirmableOperation ?opt = Some ''git_push_branch''" "readConfirmationId (input ?opt) = Some ''c1''"
    by (simp_all add: demo_mutation_def readConfirmationId_def demo_push_def Map_get_def)
  have "sc_confirm demo_env ?d ?p (registry demo_pending) = (?q, ?reg)"
    using c by (simp add: sc_confirm_def o b Let_def) (simp add: demo_env_def)
  then have step: "executeSourceControlMutation (file_ops demo_stores) demo_sha demo_env ?p demo_pending = (?q, demo_shared)"
    by (simp add: executeSourceControlMutation_def) (simp add: demo_shared_def demo_pending_def)
  have d: "identity_ok ?d" "usable_key demo_keys (idempotencyKey ?d)" using demo_identity_ok demo_usable by simp_all
  obtain q fs where q: "run_alone (file_ops demo_stores) demo_sha [demo_env, demo_env, demo_env, demo_env] (?q, demo_shared) = (q, demo_shared\<lparr>receipts_of := fs\<rparr>)" "invoked q" "options q = ?opt"
    by (rule calm_execution [where D = demo_stores and K = demo_keys and w = "''ws''" and s = demo_shared and p = ?q and r = demo_result and u = demo_result and sha = demo_sha,
      OF demo_push_calm demo_usable(2) demo_shared_ok(1) d _ demo_shared_ok(2)])
      (use demo_result_public in \<open>auto simp: demo_mutation_def\<close>)
  have pending: "ws_ok demo_stores demo_keys w (receipts_of demo_pending)" "ws_lookup demo_stores demo_keys w (receipts_of demo_pending) k = None" for w k
    using demo_shared_ok by (simp_all add: demo_pending_def)
  have "replicate 7 demo_env = demo_env # demo_env # [demo_env, demo_env, demo_env, demo_env, demo_env]" by (simp add: numeral_eq_Suc)
  then have "run_alone (file_ops demo_stores) demo_sha (replicate 7 demo_env) (new_mutation ?opt, demo_pending) = (q, demo_shared\<lparr>receipts_of := fs\<rparr>)"
    using calm_start [where D = demo_stores and K = demo_keys and s = demo_pending and es = "[demo_env, demo_env, demo_env, demo_env, demo_env]" and opt = ?opt,
      OF demo_push_calm demo_authorized demo_mutation_identity pending(1) conjunct2 [OF demo_usable(1)]]
      step q(1) by (simp add: pending(2))
  with q(2,3) that show ?thesis by simp
qed


section \<open>Properties\<close>

text \<open>
  C8. At most one invocation. However many mutations of any workspaces run interleaved, whatever fails, and however often they are repeated, the backend is invoked at most
  once for each workspace and idempotency key, and not at all for a key that had a receipt in the store of the workspace before; provided that the keys used for that workspace have no white
  space around them and no two of them have the same SHA-256 digest.
\<close>

theorem mutation_invoked_once:
  assumes "(agent_step (file_ops D) sha)\<^sup>*\<^sup>* (s0, []) (s, ps)" and "files_ok (D w) K (receipts_of s0 w)"
    and "\<forall>p \<in> set ps. workspace_of p = w \<longrightarrow> (\<forall>k. mutation_key sha p = Some k \<longrightarrow> trim k = k \<and> k \<in> K)"
  shows "length (filter (\<lambda>p. invoked p \<and> workspace_of p = w \<and> mutation_key sha p = Some k) ps) \<le> (if file_lookup (D w) K (receipts_of s0 w) k = None then 1 else 0)"
proof -
  have keys: "keys_ok sha ((=) w) (usable_key K) ps" using assms(3) by (auto simp: keys_ok_def)
  have "invoked p \<and> workspace_of p = w \<and> mutation_key sha p = Some k \<longrightarrow> invoked p \<and> w = workspace_of p \<and> map_option trim (mutation_key sha p) = Some k" if "p \<in> set ps" for p
    using assms(3) that by auto
  then have "num (\<lambda>p. invoked p \<and> workspace_of p = w \<and> mutation_key sha p = Some k) ps \<le> num (\<lambda>p. invoked p \<and> w = workspace_of p \<and> map_option trim (mutation_key sha p) = Some k) ps"
    by (induction ps) auto
  also have "\<dots> \<le> (if file_lookup (D w) K (receipts_of s0 w) k = None then 1 else 0)" by (rule mutations_on_disk.invoked_once [OF assms(1,2) keys])
  finally show ?thesis .
qed

theorem mutation_invoked_once_witness:
  "\<exists>s p. (agent_step (file_ops demo_stores) demo_sha)\<^sup>*\<^sup>* (demo_pending, []) (s, [p]) \<and> invoked p \<and>
    length (filter (\<lambda>p. invoked p \<and> workspace_of p = ''ws'' \<and> mutation_key demo_sha p = Some ''k1'') [p]) \<le> 1"
proof -
  obtain q s where q: "run_alone (file_ops demo_stores) demo_sha (replicate 7 demo_env) (new_mutation (demo_mutation (Some ''git_push_branch'') (Some ''c1'')), demo_pending) = (q, s)"
      "invoked q" "options q = demo_mutation (Some ''git_push_branch'') (Some ''c1'')"
    by (rule demo_confirmed_run)
  have run: "(agent_step (file_ops demo_stores) demo_sha)\<^sup>*\<^sup>* (demo_pending, []) (s, [q])" using run_request [OF q(1), of "[]"] by simp
  have key: "\<forall>p \<in> set [q]. workspace_of p = ''ws'' \<longrightarrow> (\<forall>k. mutation_key demo_sha p = Some k \<longrightarrow> trim k = k \<and> k \<in> demo_keys)"
    by (simp add: mutation_key_def q(3) demo_mutation_identity demo_key demo_trim demo_keys_def)
  have "files_ok (demo_stores ''ws'') demo_keys (receipts_of demo_pending ''ws'')" using demo_shared_ok by (simp add: demo_pending_def)
  from mutation_invoked_once [where k = "''k1''", OF run this key] run q(2) show ?thesis by (intro exI conjI) (auto split: if_splits)
qed

text \<open>
  C9. Only what was authorised and confirmed is invoked. In every reachable state, a mutation that has invoked the backend was authorised; and if it needs a confirmation, it presented an
  identifier that a mutation had been given for the same workspace, operation and target and for the same arguments but for confirmation identifiers, unless
  the texts of the arguments are a collision of SHA-256; and no identifier is consumed more often than it was given out.
\<close>

theorem mutation_confirmed:
  assumes "(agent_step S sha)\<^sup>*\<^sup>* (s0, []) (s, ps)" and "new_registry ttl = Inr (registry s0)"
    and "p \<in> set ps" and "invoked p" and "\<forall>q \<in> set ps. well_formed (input (options q))"
  shows "authorize (options p) = Inr () \<and> (needs_confirmation p \<longrightarrow>
    (\<exists>i. presented p = Some i \<and> length (filter (\<lambda>q. consumed q \<and> presented q = Some i) ps) \<le> length (filter (\<lambda>q. issued q = Some i) ps) \<and>
      (\<exists>q \<in> set ps. issued q = Some i \<and> ws_id (mo_workspace (options q)) = ws_id (mo_workspace (options p)) \<and>
        confirmableOperation (options q) = confirmableOperation (options p) \<and> mo_targetResource (options q) = mo_targetResource (options p) \<and>
        (lasting (meaning (input (options q))) = lasting (meaning (input (options p))) \<or>
          (\<exists>t u. argument_text (input (options q)) = Inr t \<and> argument_text (input (options p)) = Inr u \<and> t \<noteq> u \<and> sha t = sha u)))))"
proof (intro conjI impI)
  show "authorize (options p) = Inr ()" using agent_orderly [OF assms(1,3)] assms(4) by (simp add: orderly_def)
  assume needs: "needs_confirmation p"
  have o: "consumed p" "mutation_key sha p \<noteq> None"
    using agent_orderly [OF assms(1,3)] assms(4) needs by (simp_all add: orderly_def)
  note c = confirmations_run [OF assms(1,2), unfolded confirmations_ok_def]
  obtain i q where q: "presented p = Some i" "q \<in> set ps" "issued q = Some i" "binding_of sha q = binding_of sha p"
    using c o(1) assms(3) unfolding created_for_def by blast
  have n: "length (filter (\<lambda>q. consumed q \<and> presented q = Some i) ps) \<le> length (filter (\<lambda>q. issued q = Some i) ps)"
    using c by (auto dest!: spec [of _ i])
  obtain x d where d: "confirmableOperation (options p) = Some x" "mutation_identity sha (options p) = Inr d"
    using o(2) needs by (auto simp: mutation_key_def needs_confirmation_def split: sum.splits)
  then obtain y f where f: "confirmableOperation (options q) = Some y" "mutation_identity sha (options q) = Inr f"
      "confirmation_binding (options q) y f = confirmation_binding (options p) x d"
    using q(4) by (auto simp: binding_of_def split: option.splits sum.splits)
  have same: "ws_id (mo_workspace (options q)) = ws_id (mo_workspace (options p))" "y = x" "mo_targetResource (options q) = mo_targetResource (options p)"
      "canonicalArgumentsDigest f = canonicalArgumentsDigest d"
    using f(3) by (simp_all add: confirmation_binding_def)
  have "canonicalSourceControlArgumentsDigest sha (input (options q)) = Inr (canonicalArgumentsDigest f)"
      "canonicalSourceControlArgumentsDigest sha (input (options p)) = Inr (canonicalArgumentsDigest d)"
    using f(2) d(2) by (auto simp: mutation_identity_def then_parse_Inr)
  from digest_same [OF _ _ this] assms(3,5) q(2) same(4)
  have "lasting (meaning (input (options q))) = lasting (meaning (input (options p))) \<or>
      (\<exists>t u. argument_text (input (options q)) = Inr t \<and> argument_text (input (options p)) = Inr u \<and> t \<noteq> u \<and> sha t = sha u)" by blast
  with n q(1-3) same(1-3) d(1) f(1) show "\<exists>i. presented p = Some i \<and> length (filter (\<lambda>q. consumed q \<and> presented q = Some i) ps) \<le> length (filter (\<lambda>q. issued q = Some i) ps) \<and>
      (\<exists>q \<in> set ps. issued q = Some i \<and> ws_id (mo_workspace (options q)) = ws_id (mo_workspace (options p)) \<and>
        confirmableOperation (options q) = confirmableOperation (options p) \<and> mo_targetResource (options q) = mo_targetResource (options p) \<and>
        (lasting (meaning (input (options q))) = lasting (meaning (input (options p))) \<or>
          (\<exists>t u. argument_text (input (options q)) = Inr t \<and> argument_text (input (options p)) = Inr u \<and> t \<noteq> u \<and> sha t = sha u)))" by auto
qed

theorem mutation_confirmed_witness:
  "\<exists>s q. (agent_step (file_ops demo_stores) demo_sha)\<^sup>*\<^sup>* (demo_shared, []) (s, [demo_given, q]) \<and> invoked q \<and> needs_confirmation q \<and>
    presented q = Some ''c1'' \<and> length (filter (\<lambda>q. consumed q \<and> presented q = Some ''c1'') [demo_given, q]) \<le> 1"
proof -
  obtain q s where q: "run_alone (file_ops demo_stores) demo_sha (replicate 7 demo_env) (new_mutation (demo_mutation (Some ''git_push_branch'') (Some ''c1'')), demo_pending) = (q, s)"
      "invoked q" "options q = demo_mutation (Some ''git_push_branch'') (Some ''c1'')"
    by (rule demo_confirmed_run)
  have run: "(agent_step (file_ops demo_stores) demo_sha)\<^sup>*\<^sup>* (demo_shared, []) (s, [demo_given, q])"
    using run_request [OF demo_given_run, of "[]"] run_request [OF q(1), of "[demo_given]"] by simp
  have reg: "new_registry (Some (IntegerNum 100)) = Inr (registry demo_shared)"
    by (simp add: new_registry_def MAX_TYPED_CONFIRMATION_TTL_MS_def demo_shared_def)
  have c: "presented q = Some ''c1''" "needs_confirmation q"
    by (simp_all add: needs_confirmation_def presented_def q(3) demo_mutation_def readConfirmationId_def demo_push_def Map_get_def)
  have w: "\<forall>q \<in> set [demo_given, q]. well_formed (input (options q))"
    by (simp add: demo_given_def q(3) demo_mutation_def demo_push_ok)
  have "length (filter (\<lambda>q. consumed q \<and> presented q = Some ''c1'') [demo_given, q]) \<le> length (filter (\<lambda>q. issued q = Some ''c1'') [demo_given, q])"
    using mutation_confirmed [OF run reg _ q(2) w] c by auto
  moreover have "\<not> consumed demo_given" by (simp add: demo_given_def)
  ultimately show ?thesis using run q(2) c by (intro exI conjI) auto
qed

text \<open>
  C27. Executed once, then replayed. A mutation that needs no confirmation and has a new key, that runs undisturbed and while nothing fails, ends with the result of the backend, having
  invoked it, and the store of its workspace holds the result. From then on, whatever other mutations do and whatever fails for them, a mutation with the same identity that runs undisturbed and while nothing
  fails ends with the stored result, without invoking the backend and without changing anything; again for keys without white space around them and without a collision of their digests.
\<close>

theorem mutation_executed_then_replayed:
  assumes "(agent_step (file_ops D) sha)\<^sup>*\<^sup>* (s0, []) (s, ps)" and "workspaceId d = w" and "files_ok (D w) K (receipts_of s w)"
    and "file_lookup (D w) K (receipts_of s w) (idempotencyKey d) = None" and "identity_ok d" "trim (idempotencyKey d) = idempotencyKey d" "idempotencyKey d \<in> K"
    and "calm v e" and "authorize opt = Inr ()" "mutation_identity sha opt = Inr d" "\<not> needs_confirmation (new_mutation opt)"
    and "resultSchema opt v = Inr r" "parsePublicResultValue r = Inr u"
    and "authorize opt' = Inr ()" "mutation_identity sha opt' = Inr d" "resultSchema opt' u = Inr r'"
  shows "\<exists>p s1. run_alone (file_ops D) sha (replicate 7 e) (new_mutation opt, s) = (p, s1) \<and> stage p = Finished (Inr r) \<and> invoked p \<and>
    file_lookup (D w) K (receipts_of s1 w) (idempotencyKey d) = Some (life d Completed (Some u)) \<and>
    (\<forall>s2 ps2. (agent_step (file_ops D) sha)\<^sup>*\<^sup>* (s1, ps @ [p]) (s2, ps2) \<longrightarrow>
      (\<forall>q \<in> set ps2. workspace_of q = w \<longrightarrow> (\<forall>k. mutation_key sha q = Some k \<longrightarrow> trim k = k \<and> k \<in> K)) \<longrightarrow>
      (\<exists>q. run_alone (file_ops D) sha (replicate 4 e) (new_mutation opt', s2) = (q, s2) \<and> stage q = Finished (Inr r') \<and> \<not> invoked q))"
proof -
  note w = assms(2) and ok = assms(3) and calm = assms(8) and d = assms(5) conjI [OF assms(6,7)]
  let ?p = "(new_mutation opt)\<lparr>stage := Reserving d False\<rparr>"
  have e7: "replicate 7 e = e # e # [e, e, e, e, e]" "replicate 4 e = e # e # [e, e]" by (simp_all add: numeral_eq_Suc)
  have p: "executeSourceControlMutation (file_ops D) sha e ((new_mutation opt)\<lparr>stage := Looked d None\<rparr>) s = (?p, s)" "options ?p = opt"
    using assms(11) unconfirmed_step [of "(new_mutation opt)\<lparr>stage := Looked d None\<rparr>" d "file_ops D" sha e s] by (simp_all add: needs_confirmation_def presented_def new_mutation_def)
  obtain q st where q: "run_alone (file_ops D) sha [e, e, e, e] (?p, s) = (q, s\<lparr>receipts_of := st\<rparr>)" "stage q = Finished (Inr r)" "invoked q"
      "ws_ok D K w st" "ws_lookup D K w st (idempotencyKey d) = Some (life d Completed (Some u))"
    by (rule calm_execution [where D = D and K = K and w = w and s = s and p = ?p and r = r and u = u and sha = sha, OF calm w ok d _ assms(4)])
      (use assms(12,13) p(2) in auto)
  let ?s = "s\<lparr>receipts_of := st\<rparr>"
  have first: "run_alone (file_ops D) sha (replicate 7 e) (new_mutation opt, s) = (q, ?s)"
    unfolding e7(1) using calm_start [where D = D and K = K and s = s and es = "[e, e, e, e, e]", OF calm assms(9,10) _ assms(7)] ok w assms(4) p(1) q(1) by simp
  have o: "\<forall>p \<in> set (ps @ [q]). orderly sha p"
    using agent_orderly rtranclp_trans [OF assms(1) run_request [OF first]] by blast
  have later: "\<exists>z. run_alone (file_ops D) sha (replicate 4 e) (new_mutation opt', s2) = (z, s2) \<and> stage z = Finished (Inr r') \<and> \<not> invoked z"
    if run: "(agent_step (file_ops D) sha)\<^sup>*\<^sup>* (?s, ps @ [q]) (s2, ps2)"
      and key: "\<forall>q \<in> set ps2. workspace_of q = w \<longrightarrow> (\<forall>k. mutation_key sha q = Some k \<longrightarrow> trim k = k \<and> k \<in> K)" for s2 ps2
  proof -
    have keys: "keys_ok sha ((=) w) (usable_key K) ps2" using key by (auto simp: keys_ok_def)
    have kept: "ws_ok D K w (receipts_of s2)" "ws_lookup D K w (receipts_of s2) (idempotencyKey d) = Some (life d Completed (Some u))"
      using mutations_on_disk.completed_kept [where D = D and w = w and K = K, OF run o _ keys] q(4,5) by (simp_all add: life_def)
    let ?q = "(new_mutation opt')\<lparr>stage := Looked d (Some (life d Completed (Some u)))\<rparr>"
    have n: "\<not> invoked ?q" "options ?q = opt'" by (simp_all add: new_mutation_def)
    obtain z where z: "run_alone (file_ops D) sha [e, e] (?q, s2) = (z, s2)" "stage z = Finished (Inr r')" "\<not> invoked z"
      by (rule calm_replay [where D = D and K = K and w = w and s = s2 and p = ?q and r = r' and sha = sha, OF calm w kept(1) d _ n(1) kept(2) parse_public(1) [OF assms(13)]])
        (use assms(16) n(2) in auto)
    have "run_alone (file_ops D) sha (replicate 4 e) (new_mutation opt', s2) = (z, s2)"
      unfolding e7(2) using calm_start [where D = D and K = K and s = s2 and es = "[e, e]", OF calm assms(14,15) _ assms(7)] kept w z(1) by simp
    with z(2,3) show ?thesis by blast
  qed
  show ?thesis using first q(2,3,5) later by (intro exI [of _ q] exI [of _ ?s]) simp
qed

theorem mutation_executed_then_replayed_witness:
  "\<exists>p s. run_alone (file_ops demo_stores) demo_sha (replicate 7 demo_env) (new_mutation (demo_mutation None None), demo_shared) = (p, s) \<and>
    stage p = Finished (Inr demo_result) \<and> invoked p \<and>
    (\<exists>q. run_alone (file_ops demo_stores) demo_sha (replicate 4 demo_env) (new_mutation (demo_mutation None (Some ''c9'')), s) = (q, s) \<and>
      stage q = Finished (Inr demo_result) \<and> \<not> invoked q)"
proof -
  have r: "resultSchema (demo_mutation None c) v = Inr v" for c v by (simp add: demo_mutation_def)
  obtain p s where ps: "run_alone (file_ops demo_stores) demo_sha (replicate 7 demo_env) (new_mutation (demo_mutation None None), demo_shared) = (p, s)"
      "stage p = Finished (Inr demo_result)" "invoked p"
      "\<And>s2 ps2. (agent_step (file_ops demo_stores) demo_sha)\<^sup>*\<^sup>* (s, [] @ [p]) (s2, ps2) \<Longrightarrow>
        \<forall>q \<in> set ps2. workspace_of q = ''ws'' \<longrightarrow> (\<forall>k. mutation_key demo_sha q = Some k \<longrightarrow> trim k = k \<and> k \<in> demo_keys) \<Longrightarrow>
        \<exists>q. run_alone (file_ops demo_stores) demo_sha (replicate 4 demo_env) (new_mutation (demo_mutation None (Some ''c9'')), s2) = (q, s2) \<and> stage q = Finished (Inr demo_result) \<and> \<not> invoked q"
    using mutation_executed_then_replayed [where D = demo_stores and K = demo_keys and s0 = demo_shared and s = demo_shared and ps = "[]" and opt = "demo_mutation None None" and opt' = "demo_mutation None (Some ''c9'')",
        OF rtranclp.rtrancl_refl demo_usable(2) demo_shared_ok demo_identity_ok conjunct1 [OF demo_usable(1)] conjunct2 [OF demo_usable(1)] demo_push_calm demo_authorized demo_mutation_identity
        demo_unconfirmed r demo_result_public demo_authorized demo_mutation_identity r] by blast
  have "options p = demo_mutation None None" using run_alone_options [OF ps(1)] by simp
  then have "\<forall>q \<in> set [p]. workspace_of q = ''ws'' \<longrightarrow> (\<forall>k. mutation_key demo_sha q = Some k \<longrightarrow> trim k = k \<and> k \<in> demo_keys)"
    by (simp add: mutation_key_def demo_mutation_identity demo_key demo_trim demo_keys_def)
  then have "\<exists>q. run_alone (file_ops demo_stores) demo_sha (replicate 4 demo_env) (new_mutation (demo_mutation None (Some ''c9'')), s) = (q, s) \<and>
      stage q = Finished (Inr demo_result) \<and> \<not> invoked q"
    by (intro ps(4) [of s "[p]"]) simp_all
  with ps(1-3) show ?thesis by (intro exI [of _ p] exI [of _ s]) blast
qed

end
