(* ===== verification/PolicyMerge.thy ===== *)
theory PolicyMerge
  imports WorkspacePolicy
begin

text \<open>
  The merge of explicit policies with folders that are open in the editor, \<open>packages/mcp-core/src/policy-merge.ts\<close>, and automatic write access,
  \<open>packages/mcp-core/src/project-write-policy.ts\<close>. Whether the platform is Windows, SHA-256 and \<open>localeCompare\<close> are
  parameters.
\<close>

section \<open>Paths\<close>

definition strip_slashes :: "string \<Rightarrow> string" where
  "strip_slashes s = rev (dropWhile (\<lambda>c. c = CHR ''/'') (rev (map (\<lambda>c. if c = CHR 0x5C then CHR ''/'' else c) s)))"

definition normalizePathKey :: "bool \<Rightarrow> string \<Rightarrow> string" where
  "normalizePathKey win32 s = (let normalized = strip_slashes s in if win32 then map lower_char normalized else normalized)"

definition isUnderConfiguredRoot :: "bool \<Rightarrow> string \<Rightarrow> string \<Rightarrow> bool" where
  "isUnderConfiguredRoot win32 canonicalRootPath root =
    (let rootKey = normalizePathKey win32 root; pathKey = normalizePathKey win32 canonicalRootPath
     in pathKey = rootKey \<or> startsWith pathKey (rootKey @ ''/''))"

definition leafName :: "string \<Rightarrow> string" where
  "leafName s = rev (takeWhile (\<lambda>c. c \<noteq> CHR ''/'') (rev (strip_slashes s)))"

section \<open>Data\<close>

record DiscoveredWorkspaceCandidate =
  c_name :: string
  c_rootPath :: string
  c_canonicalRootPath :: string
  c_trusted :: bool

record ExplicitPolicyInput =
  x_workspace :: WorkspacePolicy
  x_canonicalRootPath :: string

datatype WorkspaceCatalogSource = Explicit | Discovered | DenyIndex

record WorkspaceCatalogEntryMeta =
  m_source :: WorkspaceCatalogSource
  m_id :: string
  m_name :: string
  m_rootPath :: string
  m_canonicalRootPath :: string
  m_trusted :: bool
  m_enabled :: bool

text \<open>
  A number in a setting: an integer, a number strictly between \<open>n\<close> and \<open>n + 1\<close>, or one that is not finite.
\<close>

datatype setting = IntSetting int | Between int | NotFinite

record limits_override =
  o_maxFileBytes :: "setting option"
  o_maxSearchResults :: "setting option"
  o_maxSearchSnippetBytes :: "setting option"
  o_maxDiffBytes :: "setting option"
  o_maxListedFiles :: "setting option"

record MergeWorkspacePoliciesOptions =
  includeOpenWorkspaces :: "bool option"
  alwaysExposeExplicit :: "bool option"
  requireTrustedWorkspace :: "bool option"
  discoveredLimitsOverride :: "limits_override option"
  enableProjectWrites :: "bool option"
  projectRootPath :: "string option"
  enableDevelopmentWrites :: "bool option"
  developmentRootPath :: "string option"

record MergeWorkspacePoliciesResult =
  r_workspaces :: "WorkspacePolicy list"
  r_catalog :: "WorkspaceCatalogEntryMeta list"

section \<open>Limits of discovered workspaces\<close>

definition DISCOVERED_WORKSPACE_LIMIT_CEILINGS :: WorkspaceLimits where
  "DISCOVERED_WORKSPACE_LIMIT_CEILINGS = \<lparr>maxFileBytes = 64000, maxSearchResults = 100, maxSearchSnippetBytes = 20000, maxDiffBytes = 500000,
     maxListedFiles = 500, maxDiscoveryDirectories = None, maxDiscoveryEntries = None, maxDiscoveryDurationMs = None\<rparr>"

text \<open>\<open>Math.min\<close> with the ceiling, of a positive finite number; what is not an integer fails the schema.\<close>

definition clamp_limit :: "setting option \<Rightarrow> int \<Rightarrow> int result" where
  "clamp_limit v ceiling = (case v of
     Some (IntSetting n) \<Rightarrow> Inr (if 0 < n then min n ceiling else ceiling)
   | Some (Between n) \<Rightarrow> if 0 \<le> n \<and> n < ceiling then Inl ZodError else Inr ceiling
   | Some NotFinite \<Rightarrow> Inr ceiling
   | None \<Rightarrow> Inr ceiling)"

definition clampDiscoveredLimits :: "limits_override option \<Rightarrow> WorkspaceLimits result" where
  "clampDiscoveredLimits override = (let c = DISCOVERED_WORKSPACE_LIMIT_CEILINGS in case override of
     None \<Rightarrow> Inr c
   | Some v \<Rightarrow>
       then_parse (clamp_limit (o_maxFileBytes v) (maxFileBytes c)) (\<lambda>a.
       then_parse (clamp_limit (o_maxSearchResults v) (maxSearchResults c)) (\<lambda>b.
       then_parse (clamp_limit (o_maxSearchSnippetBytes v) (maxSearchSnippetBytes c)) (\<lambda>s.
       then_parse (clamp_limit (o_maxDiffBytes v) (maxDiffBytes c)) (\<lambda>d.
       then_parse (clamp_limit (o_maxListedFiles v) (maxListedFiles c)) (\<lambda>l.
       Inr (c\<lparr>maxFileBytes := a, maxSearchResults := b, maxSearchSnippetBytes := s, maxDiffBytes := d, maxListedFiles := l\<rparr>)))))))"

section \<open>Identifiers\<close>

text \<open>\<open>replace(/[^a-z0-9]+/g, "-")\<close>.\<close>

fun dashes :: "string \<Rightarrow> string" where
  "dashes [] = []"
| "dashes (c # cs) = (if is_lower_alnum c then c # dashes cs else CHR ''-'' # dashes (dropWhile (\<lambda>c. \<not> is_lower_alnum c) cs))"

definition strip_dashes :: "string \<Rightarrow> string" where
  "strip_dashes s = rev (dropWhile (\<lambda>c. c = CHR ''-'') (rev (dropWhile (\<lambda>c. c = CHR ''-'') s)))"

definition slugify :: "string \<Rightarrow> string" where
  "slugify s = (let slug = take 32 (strip_dashes (dashes (map lower_char (trim s)))) in if slug \<noteq> [] then slug else ''workspace'')"

definition shortHash :: "(string \<Rightarrow> string) \<Rightarrow> string \<Rightarrow> string" where
  "shortHash sha s = take 8 (sha s)"

definition buildDiscoveredId :: "(string \<Rightarrow> string) \<Rightarrow> DiscoveredWorkspaceCandidate \<Rightarrow> string" where
  "buildDiscoveredId sha c = map (\<lambda>x. if is_id_char x then x else CHR ''-'') (slugify (c_name c) @ ''-'' @ shortHash sha (c_canonicalRootPath c))"

definition IMPLICIT_TECHNICAL_WORKSPACE_NAMES :: "string list" where
  "IMPLICIT_TECHNICAL_WORKSPACE_NAMES = [''build'', ''coverage'', ''dist'', ''docker'', ''node_modules'', ''releases'', ''runtime'', ''test'', ''tests'',
     ''temp'', ''tmp'']"

definition isImplicitTechnicalWorkspaceCandidate :: "DiscoveredWorkspaceCandidate \<Rightarrow> bool" where
  "isImplicitTechnicalWorkspaceCandidate c = list_ex (\<lambda>s. let n = map lower_char (trim s) in startsWith n ''.'' \<or> n \<in> set IMPLICIT_TECHNICAL_WORKSPACE_NAMES)
     [c_name c, leafName (c_rootPath c), leafName (c_canonicalRootPath c)]"

section \<open>Automatic write access\<close>

text \<open>A flag that is absent is false; a path that is absent or empty is none.\<close>

definition root_given :: "bool option \<Rightarrow> string option \<Rightarrow> (string \<Rightarrow> bool) \<Rightarrow> bool" where
  "root_given flag path P = (flag = Some True \<and> (case path of None \<Rightarrow> False | Some r \<Rightarrow> r \<noteq> [] \<and> P r))"

definition isAutoWriteEligible :: "bool \<Rightarrow> string \<Rightarrow> MergeWorkspacePoliciesOptions \<Rightarrow> bool" where
  "isAutoWriteEligible win32 canonicalRootPath opts =
    (root_given (enableProjectWrites opts) (projectRootPath opts) (isUnderConfiguredRoot win32 canonicalRootPath) \<or>
     root_given (enableDevelopmentWrites opts) (developmentRootPath opts) (isUnderConfiguredRoot win32 canonicalRootPath))"

definition isConfiguredProjectRoot :: "bool \<Rightarrow> string \<Rightarrow> MergeWorkspacePoliciesOptions \<Rightarrow> bool" where
  "isConfiguredProjectRoot win32 canonicalRootPath opts =
    root_given (enableProjectWrites opts) (projectRootPath opts) (\<lambda>r. normalizePathKey win32 canonicalRootPath = normalizePathKey win32 r)"

definition withAutoWriteAccess :: "bool \<Rightarrow> WorkspacePolicy \<Rightarrow> string \<Rightarrow> MergeWorkspacePoliciesOptions \<Rightarrow> WorkspacePolicy" where
  "withAutoWriteAccess win32 w canonicalRootPath opts =
    (if \<not> isAutoWriteEligible win32 canonicalRootPath opts then w
     else w\<lparr>workspaceKind := (if isConfiguredProjectRoot win32 canonicalRootPath opts then Some ''aggregate'' else workspaceKind w),
            permissionProfile := ''full-repo-write'', allowWrites := [''.''], allowShell := [''.''], allowedShells := supportedShells\<rparr>)"

section \<open>mergeWorkspacePolicies\<close>

definition createDiscoveredWorkspace ::
    "(string \<Rightarrow> string) \<Rightarrow> DiscoveredWorkspaceCandidate \<Rightarrow> WorkspaceLimits \<Rightarrow> string list \<Rightarrow> WorkspacePolicy \<times> string list" where
  "createDiscoveredWorkspace sha c lim usedIds =
    (let base = buildDiscoveredId sha c;
         i = (if base \<in> set usedIds then base @ ''-'' @ shortHash sha (c_canonicalRootPath c @ '':collision'') else base)
     in (\<lparr>ws_id = i, ws_name = c_name c, rootPath = c_rootPath c, workspaceKind = Some ''repository'', ws_enabled = True,
          permissionProfile = ''planning-readonly'', confirmationMode = ''standard'', allowedRoots = [''.''], blockedGlobs = [], limits = lim,
          allowWrites = [], allowShell = [], allowedShells = [Powershell], sourceControl = None\<rparr>, Set_add usedIds i))"

record merge_state =
  explicitByPath :: "(string, WorkspacePolicy) jsMap"
  denyPaths :: "string list"
  usedIds :: "string list"
  catalog :: "WorkspaceCatalogEntryMeta list"
  merged :: "(string, WorkspacePolicy) jsMap"

definition catalog_entry :: "WorkspaceCatalogSource \<Rightarrow> WorkspacePolicy \<Rightarrow> string \<Rightarrow> bool \<Rightarrow> bool \<Rightarrow> WorkspaceCatalogEntryMeta" where
  "catalog_entry src w path trusted enabled = \<lparr>m_source = src, m_id = ws_id w, m_name = ws_name w, m_rootPath = rootPath w,
     m_canonicalRootPath = path, m_trusted = trusted, m_enabled = enabled\<rparr>"

definition merge_explicit :: "bool \<Rightarrow> ExplicitPolicyInput \<Rightarrow> merge_state \<Rightarrow> merge_state" where
  "merge_explicit win32 entry st =
    (let w = x_workspace entry; key = normalizePathKey win32 (x_canonicalRootPath entry);
         st = st\<lparr>explicitByPath := Map_set (explicitByPath st) key w, usedIds := Set_add (usedIds st) (ws_id w)\<rparr>
     in if ws_enabled w then st
        else st\<lparr>denyPaths := Set_add (denyPaths st) key,
                catalog := catalog st @ [catalog_entry DenyIndex w (x_canonicalRootPath entry) True False]\<rparr>)"

definition merge_candidate ::
    "bool \<Rightarrow> (string \<Rightarrow> string) \<Rightarrow> MergeWorkspacePoliciesOptions \<Rightarrow> WorkspaceLimits \<Rightarrow> DiscoveredWorkspaceCandidate \<Rightarrow> merge_state \<Rightarrow> merge_state" where
  "merge_candidate win32 sha opts lim c st =
    (let key = normalizePathKey win32 (c_canonicalRootPath c) in
     if requireTrustedWorkspace opts \<noteq> Some False \<and> \<not> c_trusted c then st
     else if key \<in> set (denyPaths st) then st
     else case Map_get (explicitByPath st) key of
       Some w \<Rightarrow>
         if ws_enabled w
         then st\<lparr>merged := Map_set (merged st) key (withAutoWriteAccess win32 w (c_canonicalRootPath c) opts),
                 catalog := catalog st @ [catalog_entry Explicit w (c_canonicalRootPath c) (c_trusted c) True]\<rparr>
         else st
     | None \<Rightarrow>
         if isImplicitTechnicalWorkspaceCandidate c then st
         else (case createDiscoveredWorkspace sha c lim (usedIds st) of (d, used) \<Rightarrow>
           let w = withAutoWriteAccess win32 d (c_canonicalRootPath c) opts
           in st\<lparr>merged := Map_set (merged st) key w, usedIds := used,
                 catalog := catalog st @ [catalog_entry Discovered w (c_canonicalRootPath c) (c_trusted c) True]\<rparr>))"

definition expose_explicit :: "bool \<Rightarrow> MergeWorkspacePoliciesOptions \<Rightarrow> ExplicitPolicyInput \<Rightarrow> merge_state \<Rightarrow> merge_state" where
  "expose_explicit win32 opts entry st =
    (let w = x_workspace entry; key = normalizePathKey win32 (x_canonicalRootPath entry) in
     if \<not> ws_enabled w then st
     else if Map_has (merged st) key then st
     else st\<lparr>merged := Map_set (merged st) key (withAutoWriteAccess win32 w (x_canonicalRootPath entry) opts),
             catalog := catalog st @ [catalog_entry Explicit w (x_canonicalRootPath entry) True True]\<rparr>)"

definition start_merge :: merge_state where
  "start_merge = \<lparr>explicitByPath = [], denyPaths = [], usedIds = [], catalog = [], merged = []\<rparr>"

definition merge_all :: "bool \<Rightarrow> (string \<Rightarrow> string) \<Rightarrow> ExplicitPolicyInput list \<Rightarrow> DiscoveredWorkspaceCandidate list \<Rightarrow> MergeWorkspacePoliciesOptions \<Rightarrow>
    WorkspaceLimits \<Rightarrow> merge_state" where
  "merge_all win32 sha entries discovered opts lim =
    (let st = fold (merge_explicit win32) entries start_merge;
         st = (if includeOpenWorkspaces opts \<noteq> Some False then fold (merge_candidate win32 sha opts lim) discovered st else st)
     in if alwaysExposeExplicit opts = Some True then fold (expose_explicit win32 opts) entries st else st)"

definition mergeWorkspacePolicies :: "bool \<Rightarrow> (string \<Rightarrow> string) \<Rightarrow> (string \<Rightarrow> string \<Rightarrow> int) \<Rightarrow> ExplicitPolicyInput list \<Rightarrow> DiscoveredWorkspaceCandidate list \<Rightarrow>
    MergeWorkspacePoliciesOptions \<Rightarrow> MergeWorkspacePoliciesResult result" where
  "mergeWorkspacePolicies win32 sha localeCompare entries discovered opts =
    then_parse (clampDiscoveredLimits (discoveredLimitsOverride opts)) (\<lambda>lim.
      let st = merge_all win32 sha entries discovered opts lim;
          workspaces = sort_cmp (\<lambda>left right. localeCompare (ws_id left) (ws_id right)) (Map_values (merged st))
      in if workspaces = [] then Inl PlainError else Inr \<lparr>r_workspaces = workspaces, r_catalog = catalog st\<rparr>)"

section \<open>Access depends on the path only through its key\<close>

lemma auto_write_key:
  "normalizePathKey win32 a = normalizePathKey win32 b \<Longrightarrow> withAutoWriteAccess win32 w a opts = withAutoWriteAccess win32 w b opts"
proof -
  assume eq: "normalizePathKey win32 a = normalizePathKey win32 b"
  then have "isUnderConfiguredRoot win32 a = isUnderConfiguredRoot win32 b" by (simp add: isUnderConfiguredRoot_def fun_eq_iff)
  with eq show ?thesis by (simp add: withAutoWriteAccess_def isAutoWriteEligible_def isConfiguredProjectRoot_def)
qed

lemma auto_write_simps [simp]:
  "ws_id (withAutoWriteAccess win32 w a opts) = ws_id w" "ws_name (withAutoWriteAccess win32 w a opts) = ws_name w"
  "rootPath (withAutoWriteAccess win32 w a opts) = rootPath w" "limits (withAutoWriteAccess win32 w a opts) = limits w"
  "ws_enabled (withAutoWriteAccess win32 w a opts) = ws_enabled w"
  by (simp_all add: withAutoWriteAccess_def)

section \<open>The loops\<close>

abbreviation x_key :: "bool \<Rightarrow> ExplicitPolicyInput \<Rightarrow> string" where
  "x_key win32 x \<equiv> normalizePathKey win32 (x_canonicalRootPath x)"

abbreviation c_key :: "bool \<Rightarrow> DiscoveredWorkspaceCandidate \<Rightarrow> string" where
  "c_key win32 c \<equiv> normalizePathKey win32 (c_canonicalRootPath c)"

text \<open>What the first loop leaves: the explicit workspaces by path, the denied paths and the identifiers.\<close>

definition indexed :: "bool \<Rightarrow> ExplicitPolicyInput list \<Rightarrow> merge_state \<Rightarrow> bool" where
  "indexed win32 xs st = (
     (\<forall>k. Map_get (explicitByPath st) k = None \<longleftrightarrow> k \<notin> x_key win32 ` set xs) \<and>
     (\<forall>k w. Map_get (explicitByPath st) k = Some w \<longrightarrow> (\<exists>x \<in> set xs. x_key win32 x = k \<and> x_workspace x = w)) \<and>
     set (denyPaths st) = x_key win32 ` {x \<in> set xs. \<not> ws_enabled (x_workspace x)} \<and>
     (\<lambda>x. ws_id (x_workspace x)) ` set xs \<subseteq> set (usedIds st))"

lemma merge_explicit_indexed:
  assumes "indexed win32 xs st"
  shows "indexed win32 (xs @ [x]) (merge_explicit win32 x st) \<and> merged (merge_explicit win32 x st) = merged st"
proof -
  have "Map_get (explicitByPath (merge_explicit win32 x st)) k =
      (if k = x_key win32 x then Some (x_workspace x) else Map_get (explicitByPath st) k)" for k
    by (simp add: merge_explicit_def Let_def Map_get_set)
  moreover have "set (denyPaths (merge_explicit win32 x st)) = set (denyPaths st) \<union> (if ws_enabled (x_workspace x) then {} else {x_key win32 x})"
    "set (usedIds (merge_explicit win32 x st)) = insert (ws_id (x_workspace x)) (set (usedIds st))" "merged (merge_explicit win32 x st) = merged st"
    by (simp_all add: merge_explicit_def Let_def)
  ultimately show ?thesis using assms unfolding indexed_def by (auto split: if_splits)
qed

lemma index_all: "indexed win32 entries (fold (merge_explicit win32) entries start_merge) \<and> merged (fold (merge_explicit win32) entries start_merge) = []"
proof (induction entries rule: rev_induct)
  case Nil
  then show ?case by (simp add: indexed_def start_merge_def)
next
  case (snoc x xs)
  then show ?case using merge_explicit_indexed [of win32 xs _ x] by simp
qed

text \<open>A candidate that is taken.\<close>

definition taken :: "bool \<Rightarrow> ExplicitPolicyInput list \<Rightarrow> MergeWorkspacePoliciesOptions \<Rightarrow> DiscoveredWorkspaceCandidate \<Rightarrow> bool" where
  "taken win32 entries opts c = ((requireTrustedWorkspace opts \<noteq> Some False \<longrightarrow> c_trusted c) \<and>
     (\<forall>x \<in> set entries. x_key win32 x = c_key win32 c \<longrightarrow> ws_enabled (x_workspace x)) \<and>
     (c_key win32 c \<in> x_key win32 ` set entries \<or> \<not> isImplicitTechnicalWorkspaceCandidate c))"

definition discovered_ids :: "(string \<Rightarrow> string) \<Rightarrow> DiscoveredWorkspaceCandidate \<Rightarrow> string set" where
  "discovered_ids sha c = {buildDiscoveredId sha c, buildDiscoveredId sha c @ ''-'' @ shortHash sha (c_canonicalRootPath c @ '':collision'')}"

definition discovered_workspace :: "string \<Rightarrow> DiscoveredWorkspaceCandidate \<Rightarrow> WorkspaceLimits \<Rightarrow> WorkspacePolicy" where
  "discovered_workspace i c lim = \<lparr>ws_id = i, ws_name = c_name c, rootPath = c_rootPath c, workspaceKind = Some ''repository'', ws_enabled = True,
     permissionProfile = ''planning-readonly'', confirmationMode = ''standard'', allowedRoots = [''.''], blockedGlobs = [], limits = lim,
     allowWrites = [], allowShell = [], allowedShells = [Powershell], sourceControl = None\<rparr>"

text \<open>Where a merged workspace comes from.\<close>

definition from_explicit :: "bool \<Rightarrow> MergeWorkspacePoliciesOptions \<Rightarrow> ExplicitPolicyInput list \<Rightarrow> string \<Rightarrow> WorkspacePolicy \<Rightarrow> bool" where
  "from_explicit win32 opts entries k w = (\<exists>x \<in> set entries. ws_enabled (x_workspace x) \<and> x_key win32 x = k \<and>
     w = withAutoWriteAccess win32 (x_workspace x) (x_canonicalRootPath x) opts)"

definition from_discovered :: "bool \<Rightarrow> (string \<Rightarrow> string) \<Rightarrow> MergeWorkspacePoliciesOptions \<Rightarrow> WorkspaceLimits \<Rightarrow> ExplicitPolicyInput list \<Rightarrow>
    DiscoveredWorkspaceCandidate list \<Rightarrow> string \<Rightarrow> WorkspacePolicy \<Rightarrow> bool" where
  "from_discovered win32 sha opts lim entries cs k w = (\<exists>c \<in> set cs. taken win32 entries opts c \<and> c_key win32 c = k \<and> k \<notin> x_key win32 ` set entries \<and>
     (\<exists>i \<in> discovered_ids sha c. w = withAutoWriteAccess win32 (discovered_workspace i c lim) (c_canonicalRootPath c) opts))"

lemma denied_iff:
  "indexed win32 entries st \<Longrightarrow> k \<in> set (denyPaths st) \<longleftrightarrow> (\<exists>x \<in> set entries. x_key win32 x = k \<and> \<not> ws_enabled (x_workspace x))"
  by (auto simp: indexed_def)

lemma created_workspace:
  "createDiscoveredWorkspace sha c lim used = (d, used') \<Longrightarrow>
    \<exists>i \<in> discovered_ids sha c. d = discovered_workspace i c lim \<and> used' = Set_add used i \<and> (i = buildDiscoveredId sha c \<longrightarrow> i \<notin> set used)"
  by (auto simp: createDiscoveredWorkspace_def discovered_workspace_def discovered_ids_def Let_def split: if_splits)

lemma candidate_skipped:
  assumes "indexed win32 entries st" "\<not> taken win32 entries opts c"
  shows "merge_candidate win32 sha opts lim c st = st"
proof -
  have "c_key win32 c \<notin> x_key win32 ` set entries \<longleftrightarrow> Map_get (explicitByPath st) (c_key win32 c) = None"
    using assms(1) by (auto simp: indexed_def)
  with assms(2) denied_iff [OF assms(1), of "c_key win32 c"] show ?thesis
    by (auto simp: taken_def merge_candidate_def Let_def)
qed

lemma candidate_explicit:
  assumes "indexed win32 entries st" "taken win32 entries opts c" "c_key win32 c \<in> x_key win32 ` set entries"
  obtains w where "merged (merge_candidate win32 sha opts lim c st) = Map_set (merged st) (c_key win32 c) w"
    "usedIds (merge_candidate win32 sha opts lim c st) = usedIds st" "from_explicit win32 opts entries (c_key win32 c) w"
proof -
  obtain v where v: "Map_get (explicitByPath st) (c_key win32 c) = Some v" using assms(1,3) by (cases "Map_get (explicitByPath st) (c_key win32 c)") (auto simp: indexed_def)
  obtain x where x: "x \<in> set entries" "x_key win32 x = c_key win32 c" "x_workspace x = v" using assms(1) v unfolding indexed_def by blast
  have e: "ws_enabled v" using assms(2) x by (auto simp: taken_def)
  have "c_key win32 c \<notin> set (denyPaths st)" using denied_iff [OF assms(1)] assms(2) by (auto simp: taken_def)
  with assms(2) v e have m: "merge_candidate win32 sha opts lim c st = st\<lparr>merged := Map_set (merged st) (c_key win32 c) (withAutoWriteAccess win32 v (c_canonicalRootPath c) opts),
      catalog := catalog st @ [catalog_entry Explicit v (c_canonicalRootPath c) (c_trusted c) True]\<rparr>"
    by (auto simp: taken_def merge_candidate_def Let_def)
  have "withAutoWriteAccess win32 v (c_canonicalRootPath c) opts = withAutoWriteAccess win32 v (x_canonicalRootPath x) opts"
    using auto_write_key x(2) by metis
  with x e have "from_explicit win32 opts entries (c_key win32 c) (withAutoWriteAccess win32 v (c_canonicalRootPath c) opts)"
    unfolding from_explicit_def by blast
  with m that show ?thesis by simp
qed

lemma candidate_discovered:
  assumes "indexed win32 entries st" "taken win32 entries opts c" "c_key win32 c \<notin> x_key win32 ` set entries"
  obtains i where "i \<in> discovered_ids sha c" "i = buildDiscoveredId sha c \<longrightarrow> i \<notin> set (usedIds st)"
    "merged (merge_candidate win32 sha opts lim c st) =
      Map_set (merged st) (c_key win32 c) (withAutoWriteAccess win32 (discovered_workspace i c lim) (c_canonicalRootPath c) opts)"
    "usedIds (merge_candidate win32 sha opts lim c st) = Set_add (usedIds st) i"
proof -
  have g: "Map_get (explicitByPath st) (c_key win32 c) = None" using assms(1,3) by (simp add: indexed_def)
  have d: "c_key win32 c \<notin> set (denyPaths st)" "\<not> isImplicitTechnicalWorkspaceCandidate c"
    using denied_iff [OF assms(1)] assms(2,3) by (auto simp: taken_def)
  obtain w used where w: "createDiscoveredWorkspace sha c lim (usedIds st) = (w, used)" by force
  from created_workspace [OF this] obtain i where i: "i \<in> discovered_ids sha c" "w = discovered_workspace i c lim" "used = Set_add (usedIds st) i"
      "i = buildDiscoveredId sha c \<longrightarrow> i \<notin> set (usedIds st)" by blast
  have "merged (merge_candidate win32 sha opts lim c st) =
      Map_set (merged st) (c_key win32 c) (withAutoWriteAccess win32 (discovered_workspace i c lim) (c_canonicalRootPath c) opts)"
      "usedIds (merge_candidate win32 sha opts lim c st) = Set_add (usedIds st) i"
    using assms(2) g d w i by (auto simp: taken_def merge_candidate_def Let_def)
  with i(1,4) that show ?thesis by blast
qed

subsection \<open>What is merged\<close>

definition explicit_ids :: "ExplicitPolicyInput list \<Rightarrow> string set" where
  "explicit_ids entries = (\<lambda>x. ws_id (x_workspace x)) ` set entries"

definition sound :: "bool \<Rightarrow> (string \<Rightarrow> string) \<Rightarrow> MergeWorkspacePoliciesOptions \<Rightarrow> WorkspaceLimits \<Rightarrow> ExplicitPolicyInput list \<Rightarrow>
    DiscoveredWorkspaceCandidate list \<Rightarrow> (string, WorkspacePolicy) jsMap \<Rightarrow> bool" where
  "sound win32 sha opts lim entries cs m = (Map_ok m \<and>
     (\<forall>k w. Map_get m k = Some w \<longrightarrow> from_explicit win32 opts entries k w \<or> from_discovered win32 sha opts lim entries cs k w))"

lemma from_discovered_mono: "from_discovered win32 sha opts lim entries cs k w \<Longrightarrow> set cs \<subseteq> set ds \<Longrightarrow> from_discovered win32 sha opts lim entries ds k w"
  unfolding from_discovered_def by blast

lemma sound_set:
  assumes "sound win32 sha opts lim entries cs m" "from_explicit win32 opts entries k w \<or> from_discovered win32 sha opts lim entries ds k w" "set cs \<subseteq> set ds"
  shows "sound win32 sha opts lim entries ds (Map_set m k w)"
proof -
  have "sound win32 sha opts lim entries ds m" using assms(1,3) from_discovered_mono unfolding sound_def by blast
  with assms(2) show ?thesis by (auto simp: sound_def map_model)
qed

lemma sound_mono: "sound win32 sha opts lim entries cs m \<Longrightarrow> set cs \<subseteq> set ds \<Longrightarrow> sound win32 sha opts lim entries ds m"
  using from_discovered_mono unfolding sound_def by blast

definition fresh_collisions :: "bool \<Rightarrow> (string \<Rightarrow> string) \<Rightarrow> ExplicitPolicyInput list \<Rightarrow> DiscoveredWorkspaceCandidate list \<Rightarrow> bool" where
  "fresh_collisions win32 sha entries cs = (\<forall>c \<in> set cs.
     let i = buildDiscoveredId sha c @ ''-'' @ shortHash sha (c_canonicalRootPath c @ '':collision'')
     in i \<notin> explicit_ids entries \<and> (\<forall>d \<in> set cs. c_key win32 d \<noteq> c_key win32 c \<longrightarrow> i \<notin> discovered_ids sha d))"

definition ids_apart :: "bool \<Rightarrow> ExplicitPolicyInput list \<Rightarrow> merge_state \<Rightarrow> bool" where
  "ids_apart win32 entries st = (
     (\<forall>k k' w w'. Map_get (merged st) k = Some w \<longrightarrow> Map_get (merged st) k' = Some w' \<longrightarrow> ws_id w = ws_id w' \<longrightarrow> k = k') \<and>
     (\<forall>k w. Map_get (merged st) k = Some w \<longrightarrow> k \<notin> x_key win32 ` set entries \<longrightarrow> ws_id w \<in> set (usedIds st) \<and> ws_id w \<notin> explicit_ids entries))"

definition has_keys :: "bool \<Rightarrow> ExplicitPolicyInput list \<Rightarrow> MergeWorkspacePoliciesOptions \<Rightarrow> DiscoveredWorkspaceCandidate list \<Rightarrow> merge_state \<Rightarrow> bool" where
  "has_keys win32 entries opts cs st = (fst ` set (merged st) = c_key win32 ` {c \<in> set cs. taken win32 entries opts c})"

lemma keys_Map_set: "fst ` set (Map_set m k v) = insert k (fst ` set m)"
  by (simp add: Map_set_def dom_update)

lemma candidate_indexed: "indexed win32 entries st \<Longrightarrow> indexed win32 entries (merge_candidate win32 sha opts lim c st)"
  unfolding indexed_def
  by (auto simp: merge_candidate_def Let_def createDiscoveredWorkspace_def split: option.splits if_splits)

lemma ids_apart_set:
  assumes "ids_apart win32 entries st" "merged st' = Map_set (merged st) k w" "set (usedIds st) \<subseteq> set (usedIds st')"
    "k \<notin> x_key win32 ` set entries \<Longrightarrow> ws_id w \<in> set (usedIds st') \<and> ws_id w \<notin> explicit_ids entries"
    "\<And>k' w'. k' \<noteq> k \<Longrightarrow> Map_get (merged st) k' = Some w' \<Longrightarrow> ws_id w' \<noteq> ws_id w"
  shows "ids_apart win32 entries st'"
  using assms unfolding ids_apart_def by (auto simp: map_model split: if_splits) metis+

text \<open>The loop over the open folders.\<close>

lemma candidates_merged:
  fixes sha :: "string \<Rightarrow> string" and opts :: MergeWorkspacePoliciesOptions and lim :: WorkspaceLimits
  assumes "indexed win32 entries st0" "merged st0 = []"
  defines "st cs \<equiv> fold (merge_candidate win32 sha opts lim) cs st0"
  shows "indexed win32 entries (st cs) \<and> sound win32 sha opts lim entries cs (merged (st cs)) \<and> has_keys win32 entries opts cs (st cs)"
proof (induction cs rule: rev_induct)
  case Nil
  then show ?case using assms by (simp add: sound_def has_keys_def)
next
  case (snoc c cs)
  then have IH: "indexed win32 entries (st cs)" "sound win32 sha opts lim entries cs (merged (st cs))" "has_keys win32 entries opts cs (st cs)" by blast+
  have step: "st (cs @ [c]) = merge_candidate win32 sha opts lim c (st cs)" by (simp add: st_def)
  have i: "indexed win32 entries (st (cs @ [c]))" using candidate_indexed [OF IH(1)] step by simp
  show ?case
  proof (cases "taken win32 entries opts c")
    case False
    then have "st (cs @ [c]) = st cs" using candidate_skipped IH(1) step by metis
    with False IH sound_mono [OF IH(2), of "cs @ [c]"] show ?thesis by (auto simp: has_keys_def)
  next
    case True
    have "\<exists>w. merged (st (cs @ [c])) = Map_set (merged (st cs)) (c_key win32 c) w \<and>
        (from_explicit win32 opts entries (c_key win32 c) w \<or> from_discovered win32 sha opts lim entries (cs @ [c]) (c_key win32 c) w)"
    proof (cases "c_key win32 c \<in> x_key win32 ` set entries")
      case e: True
      from candidate_explicit [OF IH(1) True e] step show ?thesis by metis
    next
      case e: False
      obtain j where j: "j \<in> discovered_ids sha c" "merged (st (cs @ [c])) =
          Map_set (merged (st cs)) (c_key win32 c) (withAutoWriteAccess win32 (discovered_workspace j c lim) (c_canonicalRootPath c) opts)"
        using candidate_discovered [OF IH(1) True e, of sha lim] step by metis
      with True e show ?thesis unfolding from_discovered_def by auto
    qed
    then obtain w where w: "merged (st (cs @ [c])) = Map_set (merged (st cs)) (c_key win32 c) w"
        "from_explicit win32 opts entries (c_key win32 c) w \<or> from_discovered win32 sha opts lim entries (cs @ [c]) (c_key win32 c) w" by blast
    have "sound win32 sha opts lim entries (cs @ [c]) (merged (st (cs @ [c])))" unfolding w(1) by (rule sound_set [OF IH(2) w(2)]) auto
    moreover have "has_keys win32 entries opts (cs @ [c]) (st (cs @ [c]))" using True IH(3) by (auto simp: has_keys_def w(1) keys_Map_set simp del: image_set)
    ultimately show ?thesis using i by blast
  qed
qed

lemma explicit_id_apart:
  assumes "distinct (map (\<lambda>x. ws_id (x_workspace x)) entries)" "sound win32 sha opts lim entries cs (merged st)" "ids_apart win32 entries st"
    "from_explicit win32 opts entries k w" "k' \<noteq> k" "Map_get (merged st) k' = Some w'"
  shows "ws_id w' \<noteq> ws_id w"
proof
  assume eq: "ws_id w' = ws_id w"
  obtain x where x: "x \<in> set entries" "x_key win32 x = k" "ws_id w = ws_id (x_workspace x)" using assms(4) by (auto simp: from_explicit_def)
  from assms(2,6) consider "from_explicit win32 opts entries k' w'" | "from_discovered win32 sha opts lim entries cs k' w'"
    unfolding sound_def by blast
  then show False
  proof cases
    case 1
    then obtain y where y: "y \<in> set entries" "x_key win32 y = k'" "ws_id w' = ws_id (x_workspace y)" by (auto simp: from_explicit_def)
    have "x = y" using assms(1) x y eq by (auto simp: distinct_map dest: inj_onD)
    with x y assms(5) show ?thesis by simp
  next
    case 2
    then have "k' \<notin> x_key win32 ` set entries" by (auto simp: from_discovered_def)
    then have "ws_id w' \<notin> explicit_ids entries" using assms(3,6) unfolding ids_apart_def by blast
    with x eq show ?thesis by (auto simp: explicit_ids_def)
  qed
qed

text \<open>Their identifiers stay apart when the suffix for collisions yields no second collision.\<close>

lemma candidates_apart:
  fixes sha :: "string \<Rightarrow> string" and opts :: MergeWorkspacePoliciesOptions and lim :: WorkspaceLimits
  assumes "indexed win32 entries st0" "merged st0 = []" "distinct (map (\<lambda>x. ws_id (x_workspace x)) entries)"
  defines "st cs \<equiv> fold (merge_candidate win32 sha opts lim) cs st0"
  assumes "fresh_collisions win32 sha entries cs"
  shows "ids_apart win32 entries (st cs)"
  using assms(5)
proof (induction cs rule: rev_induct)
  case Nil
  then show ?case using assms by (simp add: ids_apart_def)
next
  case (snoc c cs)
  have "fresh_collisions win32 sha entries cs" using snoc.prems by (auto simp: fresh_collisions_def Let_def)
  then have IH: "ids_apart win32 entries (st cs)" using snoc.IH by simp
  have m: "indexed win32 entries (st cs)" "sound win32 sha opts lim entries cs (merged (st cs))"
    using candidates_merged [OF assms(1,2), of sha opts lim cs] by (simp_all add: st_def)
  have step: "st (cs @ [c]) = merge_candidate win32 sha opts lim c (st cs)" by (simp add: st_def)
  have used: "explicit_ids entries \<subseteq> set (usedIds (st cs))" using m(1) by (simp add: indexed_def explicit_ids_def)
  show ?case
  proof (cases "taken win32 entries opts c")
    case False
    then show ?thesis using candidate_skipped m(1) step IH by metis
  next
    case True
    show ?thesis
    proof (cases "c_key win32 c \<in> x_key win32 ` set entries")
      case e: True
      obtain w where w: "merged (st (cs @ [c])) = Map_set (merged (st cs)) (c_key win32 c) w" "usedIds (st (cs @ [c])) = usedIds (st cs)"
          "from_explicit win32 opts entries (c_key win32 c) w"
        using candidate_explicit [OF m(1) True e] step by metis
      show ?thesis
        by (rule ids_apart_set [OF IH w(1)]) (use w(2) e in simp_all, rule explicit_id_apart [OF assms(3) m(2) IH w(3)])
    next
      case e: False
      obtain i where i: "i \<in> discovered_ids sha c" "i = buildDiscoveredId sha c \<longrightarrow> i \<notin> set (usedIds (st cs))"
          "merged (st (cs @ [c])) = Map_set (merged (st cs)) (c_key win32 c) (withAutoWriteAccess win32 (discovered_workspace i c lim) (c_canonicalRootPath c) opts)"
          "usedIds (st (cs @ [c])) = Set_add (usedIds (st cs)) i"
        using candidate_discovered [OF m(1) True e, of sha lim] step by metis
      have new: "i \<notin> explicit_ids entries"
        using i(1,2) used snoc.prems by (auto simp: discovered_ids_def fresh_collisions_def Let_def)
      have id: "ws_id (withAutoWriteAccess win32 (discovered_workspace i c lim) (c_canonicalRootPath c) opts) = i" by (simp add: discovered_workspace_def)
      show ?thesis
      proof (rule ids_apart_set [OF IH i(3)])
        fix k' w' assume k': "k' \<noteq> c_key win32 c" "Map_get (merged (st cs)) k' = Some w'"
        have "ws_id w' \<noteq> i"
        proof
          assume eq: "ws_id w' = i"
          from m(2) k'(2) consider "from_explicit win32 opts entries k' w'" | "from_discovered win32 sha opts lim entries cs k' w'"
            unfolding sound_def by blast
          then show False
          proof cases
            case 1
            then show ?thesis using new eq by (auto simp: from_explicit_def explicit_ids_def)
          next
            case 2
            then obtain d where d: "d \<in> set cs" "c_key win32 d = k'" "k' \<notin> x_key win32 ` set entries" "ws_id w' \<in> discovered_ids sha d"
              by (auto simp: from_discovered_def discovered_workspace_def)
            have "ws_id w' \<in> set (usedIds (st cs))" using IH k'(2) d(3) unfolding ids_apart_def by blast
            then have "i = buildDiscoveredId sha c @ ''-'' @ shortHash sha (c_canonicalRootPath c @ '':collision'')"
              using i(1,2) eq by (auto simp: discovered_ids_def)
            then show ?thesis using snoc.prems d k'(1) eq by (auto simp: fresh_collisions_def Let_def)
          qed
        qed
        then show "ws_id w' \<noteq> ws_id (withAutoWriteAccess win32 (discovered_workspace i c lim) (c_canonicalRootPath c) opts)" using id by simp
      qed (use i(4) new id in auto)
    qed
  qed
qed

text \<open>The loop over the explicit entries that are always exposed.\<close>

lemma exposed:
  fixes opts :: MergeWorkspacePoliciesOptions
  assumes "sound win32 sha opts lim entries cs (merged st0)" "set es \<subseteq> set entries"
  defines "st ys \<equiv> fold (expose_explicit win32 opts) ys st0"
  shows "sound win32 sha opts lim entries cs (merged (st es)) \<and>
    fst ` set (merged (st es)) = fst ` set (merged st0) \<union> x_key win32 ` {x \<in> set es. ws_enabled (x_workspace x)} \<and>
    (distinct (map (\<lambda>x. ws_id (x_workspace x)) entries) \<longrightarrow> ids_apart win32 entries st0 \<longrightarrow> ids_apart win32 entries (st es))"
  using assms(2)
proof (induction es rule: rev_induct)
  case Nil
  then show ?case using assms(1) by (simp add: st_def)
next
  case (snoc x es)
  let ?s = "st es"
  have IH: "sound win32 sha opts lim entries cs (merged ?s)"
    "fst ` set (merged ?s) = fst ` set (merged st0) \<union> x_key win32 ` {x \<in> set es. ws_enabled (x_workspace x)}"
    "distinct (map (\<lambda>x. ws_id (x_workspace x)) entries) \<longrightarrow> ids_apart win32 entries st0 \<longrightarrow> ids_apart win32 entries ?s"
    using snoc by auto
  have step: "st (es @ [x]) = expose_explicit win32 opts x ?s" by (simp add: st_def)
  show ?case
  proof (cases "ws_enabled (x_workspace x) \<and> \<not> Map_has (merged ?s) (x_key win32 x)")
    case False
    then have "st (es @ [x]) = ?s" by (auto simp: step expose_explicit_def Let_def)
    moreover have "Map_has (merged ?s) (x_key win32 x) \<longrightarrow> x_key win32 x \<in> fst ` set (merged ?s)"
      by (simp add: Map_has_def map_of_eq_None_iff)
    ultimately show ?thesis using IH False by auto
  next
    case True
    let ?w = "withAutoWriteAccess win32 (x_workspace x) (x_canonicalRootPath x) opts"
    have m: "merged (st (es @ [x])) = Map_set (merged ?s) (x_key win32 x) ?w" "usedIds (st (es @ [x])) = usedIds ?s"
      using True by (simp_all add: step expose_explicit_def Let_def)
    have f: "from_explicit win32 opts entries (x_key win32 x) ?w" using True snoc.prems by (auto simp: from_explicit_def)
    have "sound win32 sha opts lim entries cs (merged (st (es @ [x])))" unfolding m by (rule sound_set [OF IH(1)]) (use f in auto)
    moreover have "ids_apart win32 entries (st (es @ [x]))" if "distinct (map (\<lambda>x. ws_id (x_workspace x)) entries)" "ids_apart win32 entries st0"
    proof -
      have a: "ids_apart win32 entries ?s" using IH(3) that by blast
      show ?thesis
      proof (rule ids_apart_set [OF a m(1)])
        show "ws_id w' \<noteq> ws_id ?w" if "k' \<noteq> x_key win32 x" "Map_get (merged ?s) k' = Some w'" for k' w'
          by (rule explicit_id_apart [OF \<open>distinct _\<close> IH(1) a f that])
      qed (use m(2) snoc.prems in auto)
    qed
    moreover have "fst ` set (merged (st (es @ [x]))) = insert (x_key win32 x) (fst ` set (merged ?s))" by (simp only: m(1) keys_Map_set)
    ultimately show ?thesis using IH(2) True by auto
  qed
qed

definition offered :: "bool \<Rightarrow> ExplicitPolicyInput list \<Rightarrow> DiscoveredWorkspaceCandidate list \<Rightarrow> MergeWorkspacePoliciesOptions \<Rightarrow> string set" where
  "offered win32 entries discovered opts =
    (if includeOpenWorkspaces opts \<noteq> Some False then c_key win32 ` {c \<in> set discovered. taken win32 entries opts c} else {}) \<union>
    (if alwaysExposeExplicit opts = Some True then x_key win32 ` {x \<in> set entries. ws_enabled (x_workspace x)} else {})"

lemma merge_all_laws:
  "sound win32 sha opts lim entries (if includeOpenWorkspaces opts \<noteq> Some False then discovered else []) (merged (merge_all win32 sha entries discovered opts lim))"
  "fst ` set (merged (merge_all win32 sha entries discovered opts lim)) = offered win32 entries discovered opts"
  "distinct (map (\<lambda>x. ws_id (x_workspace x)) entries) \<Longrightarrow> fresh_collisions win32 sha entries discovered \<Longrightarrow>
    ids_apart win32 entries (merge_all win32 sha entries discovered opts lim)"
proof -
  define cs where "cs = (if includeOpenWorkspaces opts \<noteq> Some False then discovered else [])"
  define st0 where "st0 = fold (merge_explicit win32) entries start_merge"
  define st where "st = fold (merge_candidate win32 sha opts lim) cs st0"
  have 0: "indexed win32 entries st0" "merged st0 = []" using index_all by (simp_all add: st0_def)
  have all: "merge_all win32 sha entries discovered opts lim = (if alwaysExposeExplicit opts = Some True then fold (expose_explicit win32 opts) entries st else st)"
    by (simp add: merge_all_def st_def st0_def cs_def Let_def)
  have c: "sound win32 sha opts lim entries cs (merged st)" "has_keys win32 entries opts cs st"
    using candidates_merged [OF 0, of sha opts lim cs] by (simp_all add: st_def)
  note e = exposed [OF c(1) subset_refl]
  show "sound win32 sha opts lim entries (if includeOpenWorkspaces opts \<noteq> Some False then discovered else []) (merged (merge_all win32 sha entries discovered opts lim))"
    unfolding cs_def [symmetric] using c e by (simp add: all)
  show "fst ` set (merged (merge_all win32 sha entries discovered opts lim)) = offered win32 entries discovered opts"
    using c(2) e by (simp add: all offered_def has_keys_def cs_def)
  assume d: "distinct (map (\<lambda>x. ws_id (x_workspace x)) entries)" "fresh_collisions win32 sha entries discovered"
  have "fresh_collisions win32 sha entries cs" using d(2) by (simp add: fresh_collisions_def cs_def)
  from candidates_apart [OF 0 d(1) this, of opts lim] d(1) e
  show "ids_apart win32 entries (merge_all win32 sha entries discovered opts lim)" by (simp add: all st_def)
qed

lemma merge_result:
  assumes "mergeWorkspacePolicies win32 sha lc entries discovered opts = Inr r"
  obtains lim where "clampDiscoveredLimits (discoveredLimitsOverride opts) = Inr lim"
    "set (r_workspaces r) = snd ` set (merged (merge_all win32 sha entries discovered opts lim))" "r_workspaces r \<noteq> []"
    "distinct (map ws_id (r_workspaces r)) = distinct (map (\<lambda>e. ws_id (snd e)) (merged (merge_all win32 sha entries discovered opts lim)))"
  using assms that by (auto simp: mergeWorkspacePolicies_def then_parse_Inr Let_def Map_values_def comp_def split: if_splits)

section \<open>Limits and identifiers\<close>

definition below_ceiling :: "setting option \<Rightarrow> int \<Rightarrow> bool" where
  "below_ceiling v ceiling = (\<exists>n. v = Some (Between n) \<and> 0 \<le> n \<and> n < ceiling)"

lemma clamp_limit_cases: "0 < ceiling \<Longrightarrow> (case clamp_limit v ceiling of Inl e \<Rightarrow> e = ZodError \<and> below_ceiling v ceiling
    | Inr n \<Rightarrow> \<not> below_ceiling v ceiling \<and> 0 < n \<and> n \<le> ceiling)"
  by (auto simp: clamp_limit_def below_ceiling_def split: option.splits setting.splits)

lemma clamp_limit_Inr: "clamp_limit v ceiling = Inr n \<Longrightarrow> 0 < ceiling \<Longrightarrow> 0 < n \<and> n \<le> ceiling"
  using clamp_limit_cases [of ceiling v] by simp

definition within_ceilings :: "WorkspaceLimits \<Rightarrow> bool" where
  "within_ceilings l = (workspaceLimitsSchema l \<and> maxFileBytes l \<le> 64000 \<and> maxSearchResults l \<le> 100 \<and> maxSearchSnippetBytes l \<le> 20000 \<and>
     maxDiffBytes l \<le> 500000 \<and> maxListedFiles l \<le> 500)"

definition fractional_override :: "limits_override \<Rightarrow> bool" where
  "fractional_override v = (below_ceiling (o_maxFileBytes v) 64000 \<or> below_ceiling (o_maxSearchResults v) 100 \<or>
     below_ceiling (o_maxSearchSnippetBytes v) 20000 \<or> below_ceiling (o_maxDiffBytes v) 500000 \<or> below_ceiling (o_maxListedFiles v) 500)"

lemma ceilings [simp]:
  "maxFileBytes DISCOVERED_WORKSPACE_LIMIT_CEILINGS = 64000" "maxSearchResults DISCOVERED_WORKSPACE_LIMIT_CEILINGS = 100"
  "maxSearchSnippetBytes DISCOVERED_WORKSPACE_LIMIT_CEILINGS = 20000" "maxDiffBytes DISCOVERED_WORKSPACE_LIMIT_CEILINGS = 500000"
  "maxListedFiles DISCOVERED_WORKSPACE_LIMIT_CEILINGS = 500" "maxDiscoveryDirectories DISCOVERED_WORKSPACE_LIMIT_CEILINGS = None"
  "maxDiscoveryEntries DISCOVERED_WORKSPACE_LIMIT_CEILINGS = None" "maxDiscoveryDurationMs DISCOVERED_WORKSPACE_LIMIT_CEILINGS = None"
  by (simp_all add: DISCOVERED_WORKSPACE_LIMIT_CEILINGS_def)

lemma clamped_within:
  assumes "clampDiscoveredLimits override = Inr l"
  shows "within_ceilings l"
proof (cases override)
  case None
  with assms show ?thesis by (auto simp: clampDiscoveredLimits_def Let_def within_ceilings_def workspaceLimitsSchema_def)
next
  case (Some v)
  with assms obtain a b s d n where c: "clamp_limit (o_maxFileBytes v) 64000 = Inr a" "clamp_limit (o_maxSearchResults v) 100 = Inr b"
      "clamp_limit (o_maxSearchSnippetBytes v) 20000 = Inr s" "clamp_limit (o_maxDiffBytes v) 500000 = Inr d" "clamp_limit (o_maxListedFiles v) 500 = Inr n"
    and l: "l = DISCOVERED_WORKSPACE_LIMIT_CEILINGS\<lparr>maxFileBytes := a, maxSearchResults := b, maxSearchSnippetBytes := s, maxDiffBytes := d, maxListedFiles := n\<rparr>"
    by (clarsimp simp: clampDiscoveredLimits_def Let_def then_parse_Inr)
  from c [THEN clamp_limit_Inr] show ?thesis by (simp add: l within_ceilings_def workspaceLimitsSchema_def)
qed

lemma clamped_error: "clampDiscoveredLimits override = Inl e \<longleftrightarrow> e = ZodError \<and> (\<exists>v. override = Some v \<and> fractional_override v)"
proof (cases override)
  case (Some v)
  have b: "(\<exists>n. clamp_limit v c = Inr n) \<longleftrightarrow> \<not> below_ceiling v c" "clamp_limit v c = Inl e \<longleftrightarrow> e = ZodError \<and> below_ceiling v c" if "0 < c" for v c e
    using clamp_limit_cases [OF that, of v] by (cases "clamp_limit v c"; auto)+
  show ?thesis
    using b(1) [of 64000 "o_maxFileBytes v"] b(1) [of 100 "o_maxSearchResults v"] b(1) [of 20000 "o_maxSearchSnippetBytes v"] b(1) [of 500000 "o_maxDiffBytes v"]
    by (auto simp: Some clampDiscoveredLimits_def Let_def then_parse_Inl fractional_override_def b(2))
qed (simp add: clampDiscoveredLimits_def Let_def)

lemma lower_alnum_id: "is_lower_alnum c \<Longrightarrow> is_alnum c"
proof -
  have "list_all is_alnum ''abcdefghijklmnopqrstuvwxyz0123456789''" by code_simp
  then show "is_lower_alnum c \<Longrightarrow> is_alnum c" unfolding is_lower_alnum_def list_all_iff by blast
qed

lemma alnum_id: "is_alnum c \<Longrightarrow> is_id_char c"
  by (simp add: is_id_char_def)

lemma dashes_chars: "c \<in> set (dashes s) \<Longrightarrow> is_lower_alnum c \<or> c = CHR ''-''"
  by (induction s rule: dashes.induct) (auto split: if_splits)

lemma strip_dashes_head:
  assumes "strip_dashes s \<noteq> []"
  shows "hd (strip_dashes s) \<noteq> CHR ''-'' \<and> set (strip_dashes s) \<subseteq> set s"
proof -
  let ?t = "dropWhile (\<lambda>c. c = CHR ''-'') s"
  obtain zs where p: "?t = strip_dashes s @ zs"
    unfolding strip_dashes_def by (metis rev_append rev_rev_ident takeWhile_dropWhile_id)
  have "hd ?t = hd (strip_dashes s)" "?t \<noteq> []" using assms by (simp_all add: p)
  moreover have "set (strip_dashes s) \<subseteq> set ?t" by (simp add: p)
  moreover have "set ?t \<subseteq> set s" by (meson set_dropWhileD subsetI)
  moreover have "hd ?t \<noteq> CHR ''-''" using hd_dropWhile [OF \<open>?t \<noteq> []\<close>] by simp
  ultimately show ?thesis by simp
qed

lemma slugify_id: "slugify s \<noteq> [] \<and> is_alnum (hd (slugify s)) \<and> list_all is_id_char (slugify s)"
proof (cases "strip_dashes (dashes (map lower_char (trim s))) = []")
  case True
  have "is_alnum (hd ''workspace'') \<and> list_all is_id_char ''workspace''" by code_simp
  with True show ?thesis by (simp add: slugify_def)
next
  case False
  let ?d = "strip_dashes (dashes (map lower_char (trim s)))"
  have c: "is_lower_alnum c \<or> c = CHR ''-''" if "c \<in> set ?d" for c using strip_dashes_head [OF False] that dashes_chars by blast
  have dash: "is_id_char (CHR ''-'')" by (simp add: is_id_char_def)
  have h: "hd ?d \<noteq> CHR ''-''" "hd ?d \<in> set ?d" using strip_dashes_head [OF False] False by simp_all
  have t: "slugify s = take 32 ?d" "hd (take 32 ?d) = hd ?d" "take 32 ?d \<noteq> []" using False by (simp_all add: slugify_def)
  have "is_alnum (hd ?d)" using c [OF h(2)] h(1) lower_alnum_id by blast
  moreover have "list_all is_id_char (take 32 ?d)"
    unfolding list_all_iff using c lower_alnum_id alnum_id dash in_set_takeD by metis
  ultimately show ?thesis using t by simp
qed

definition hex_digest :: "(string \<Rightarrow> string) \<Rightarrow> bool" where
  "hex_digest sha = (\<forall>s. length (sha s) = 64 \<and> list_all (\<lambda>c. c \<in> set ''0123456789abcdef'') (sha s))"

lemma hex_id: "c \<in> set ''0123456789abcdef'' \<Longrightarrow> is_id_char c"
proof -
  have "list_all is_id_char ''0123456789abcdef''" by code_simp
  then show "c \<in> set ''0123456789abcdef'' \<Longrightarrow> is_id_char c" unfolding list_all_iff by blast
qed

lemma discovered_id_ok:
  assumes "hex_digest sha" "i \<in> discovered_ids sha c"
  shows "i \<noteq> [] \<and> is_alnum (hd i) \<and> list_all is_id_char i"
proof -
  let ?b = "buildDiscoveredId sha c"
  have dash: "is_id_char (CHR ''-'')" by (simp add: is_id_char_def)
  have s: "slugify (c_name c) \<noteq> []" "is_alnum (hd (slugify (c_name c)))" using slugify_id by blast+
  then have h: "hd ?b = hd (slugify (c_name c))" "?b \<noteq> []" using alnum_id by (simp_all add: buildDiscoveredId_def hd_map hd_append)
  have b: "list_all is_id_char ?b" using dash by (auto simp: buildDiscoveredId_def list_all_iff)
  have "list_all is_id_char (shortHash sha x)" for x
    using assms(1) hex_id in_set_takeD unfolding hex_digest_def shortHash_def list_all_iff by metis
  with assms(2) h b s(2) dash show ?thesis by (auto simp: discovered_ids_def hd_append)
qed

section \<open>The result\<close>

lemma merged_origin:
  assumes "mergeWorkspacePolicies win32 sha lc entries discovered opts = Inr r" "w \<in> set (r_workspaces r)"
  obtains lim k where "clampDiscoveredLimits (discoveredLimitsOverride opts) = Inr lim"
    "from_explicit win32 opts entries k w \<or>
      includeOpenWorkspaces opts \<noteq> Some False \<and> from_discovered win32 sha opts lim entries discovered k w"
proof -
  obtain lim where lim: "clampDiscoveredLimits (discoveredLimitsOverride opts) = Inr lim"
      "set (r_workspaces r) = snd ` set (merged (merge_all win32 sha entries discovered opts lim))"
    by (rule merge_result [OF assms(1)])
  let ?m = "merged (merge_all win32 sha entries discovered opts lim)"
  note s = merge_all_laws(1) [of win32 sha opts lim entries discovered]
  obtain k where "(k, w) \<in> set ?m" using lim(2) assms(2) by (metis imageE prod.collapse)
  moreover have "Map_ok ?m" using s unfolding sound_def by blast
  ultimately have "Map_get ?m k = Some w" using Map_in_set_get by metis
  with s have "from_explicit win32 opts entries k w \<or> from_discovered win32 sha opts lim entries (if includeOpenWorkspaces opts \<noteq> Some False then discovered else []) k w"
    unfolding sound_def by blast
  moreover have "\<not> from_discovered win32 sha opts lim entries [] k w" by (simp add: from_discovered_def)
  ultimately show ?thesis using lim(1) that [of lim k] by (cases "includeOpenWorkspaces opts = Some False") auto
qed

lemma auto_write_schema:
  assumes "workspacePolicySchema w"
  shows "workspacePolicySchema (withAutoWriteAccess win32 w path opts)"
proof -
  have "trimmed_text ''.''" "''full-repo-write'' \<in> set permissionProfiles" "''aggregate'' \<in> set workspaceKinds"
    by (code_simp, simp_all add: permissionProfiles_def workspaceKinds_def)
  with assms show ?thesis by (simp add: withAutoWriteAccess_def workspacePolicySchema_def)
qed

lemma discovered_schema:
  assumes "hex_digest sha" "i \<in> discovered_ids sha c" "within_ceilings lim" "trimmed_text (c_name c)" "trimmed_text (c_rootPath c)"
  shows "workspacePolicySchema (discovered_workspace i c lim)"
proof -
  have "trimmed_text ''.''" by code_simp
  with assms(3-5) discovered_id_ok [OF assms(1,2)] show ?thesis
    by (simp add: workspacePolicySchema_def discovered_workspace_def workspaceKinds_def permissionProfiles_def confirmationModes_def within_ceilings_def)
qed

lemma apart_distinct:
  assumes "Map_ok m" "\<forall>k k' w w'. Map_get m k = Some w \<longrightarrow> Map_get m k' = Some w' \<longrightarrow> ws_id w = ws_id w' \<longrightarrow> k = k'"
  shows "distinct (map (\<lambda>e. ws_id (snd e)) m)"
proof -
  have "inj_on (\<lambda>e. ws_id (snd e)) (set m)"
  proof (rule inj_onI)
    fix x y
    assume xy: "x \<in> set m" "y \<in> set m" "ws_id (snd x) = ws_id (snd y)"
    then have g: "Map_get m (fst x) = Some (snd x)" "Map_get m (fst y) = Some (snd y)" using assms(1) Map_in_set_get by (metis prod.collapse)+
    then have "fst x = fst y" using assms(2) xy(3) by blast
    with g show "x = y" by (simp add: prod_eq_iff)
  qed
  moreover have "distinct m" using assms(1) by (simp add: Map_ok_def distinct_map)
  ultimately show ?thesis by (simp add: distinct_map)
qed

section \<open>The catalogue\<close>

text \<open>\<open>packages/mcp-core/src/workspace-catalog.ts\<close>: the snapshot in use and the last one that was good.\<close>

record WorkspaceCatalogSnapshot =
  s_version :: int
  s_policy :: "WorkspacePolicy list"
  s_catalog :: "WorkspaceCatalogEntryMeta list"
  degraded :: bool
  updatedAt :: string
  errorMessage :: "string option"

record CatalogState =
  current :: "WorkspaceCatalogSnapshot option"
  lastKnownGood :: "WorkspaceCatalogSnapshot option"

definition createEmptyCatalogState :: CatalogState where
  "createEmptyCatalogState = \<lparr>current = None, lastKnownGood = None\<rparr>"

definition applyCatalogSnapshot :: "WorkspaceCatalogSnapshot \<Rightarrow> CatalogState \<Rightarrow> CatalogState" where
  "applyCatalogSnapshot snapshot st = st\<lparr>current := Some snapshot, lastKnownGood := (if degraded snapshot then lastKnownGood st else Some snapshot)\<rparr>"

definition markCatalogDegraded :: "string \<Rightarrow> string \<Rightarrow> CatalogState \<Rightarrow> CatalogState" where
  "markCatalogDegraded now msg st = (case (case lastKnownGood st of None \<Rightarrow> current st | Some g \<Rightarrow> Some g) of
     None \<Rightarrow> st\<lparr>current := Some \<lparr>s_version = 0, s_policy = [], s_catalog = [], degraded = True, updatedAt = now, errorMessage = Some msg\<rparr>\<rparr>
   | Some fallback \<Rightarrow> st\<lparr>current := Some (fallback\<lparr>degraded := True, updatedAt := now, errorMessage := Some msg\<rparr>)\<rparr>)"

datatype catalog_event = Applied WorkspaceCatalogSnapshot | Degraded string string

definition catalog_step :: "catalog_event \<Rightarrow> CatalogState \<Rightarrow> CatalogState" where
  "catalog_step e st = (case e of Applied s \<Rightarrow> applyCatalogSnapshot s st | Degraded now msg \<Rightarrow> markCatalogDegraded now msg st)"

text \<open>The good snapshots of a history, the latest first.\<close>

definition good_snapshots :: "catalog_event list \<Rightarrow> WorkspaceCatalogSnapshot list" where
  "good_snapshots es = rev (concat (map (\<lambda>e. case e of Applied s \<Rightarrow> if degraded s then [] else [s] | Degraded now msg \<Rightarrow> []) es))"

lemma good_snapshots_simps [simp]:
  "good_snapshots [] = []"
  "good_snapshots (es @ [Applied s]) = (if degraded s then good_snapshots es else s # good_snapshots es)"
  "good_snapshots (es @ [Degraded now msg]) = good_snapshots es"
  by (simp_all add: good_snapshots_def)

lemma degraded_keeps_good: "lastKnownGood (markCatalogDegraded now msg st) = lastKnownGood st"
  by (simp add: markCatalogDegraded_def split: option.splits)

lemma last_good: "lastKnownGood (fold catalog_step es createEmptyCatalogState) = (case good_snapshots es of [] \<Rightarrow> None | g # gs \<Rightarrow> Some g)"
proof (induction es rule: rev_induct)
  case (snoc e es)
  then show ?case by (cases e) (simp_all add: catalog_step_def applyCatalogSnapshot_def degraded_keeps_good)
qed (simp add: createEmptyCatalogState_def)

section \<open>Sample policies\<close>

definition demo_explicit :: "string \<Rightarrow> bool \<Rightarrow> ExplicitPolicyInput" where
  "demo_explicit i e = \<lparr>x_workspace = \<lparr>ws_id = i, ws_name = i, rootPath = ''/p'', workspaceKind = None, ws_enabled = e, permissionProfile = ''planning-readonly'',
     confirmationMode = ''standard'', allowedRoots = [''.''], blockedGlobs = [], limits = DISCOVERED_WORKSPACE_LIMIT_CEILINGS, allowWrites = [], allowShell = [],
     allowedShells = [Powershell], sourceControl = None\<rparr>, x_canonicalRootPath = ''/p''\<rparr>"

definition demo_candidate :: DiscoveredWorkspaceCandidate where
  "demo_candidate = \<lparr>c_name = ''App'', c_rootPath = ''/w/app'', c_canonicalRootPath = ''/w/app'', c_trusted = True\<rparr>"

definition demo_merge :: "bool \<Rightarrow> MergeWorkspacePoliciesOptions" where
  "demo_merge always = \<lparr>includeOpenWorkspaces = None, alwaysExposeExplicit = Some always, requireTrustedWorkspace = None, discoveredLimitsOverride = None,
     enableProjectWrites = None, projectRootPath = None, enableDevelopmentWrites = Some True, developmentRootPath = Some ''/w/''\<rparr>"

definition demo_hex :: "string \<Rightarrow> string" where
  "demo_hex s = replicate 64 (if endsWith s '':collision'' then CHR ''b'' else CHR ''a'')"

text \<open>
  Explicit entries do not always win: of two entries with one path, the enabled one is exposed although the other denies the path.
\<close>

lemma denied_path_exposed:
  "(case mergeWorkspacePolicies False demo_hex (\<lambda>a b. 0) [demo_explicit ''off'' False, demo_explicit ''on'' True] [] (demo_merge True) of
      Inl e \<Rightarrow> False
    | Inr r \<Rightarrow> map ws_id (r_workspaces r) = [''on''] \<and> map (\<lambda>m. (m_source m, m_canonicalRootPath m)) (r_catalog r) = [(DenyIndex, ''/p''), (Explicit, ''/p'')])"
  by code_simp

text \<open>A folder that is listed twice leaves an entry of the catalogue whose identifier no workspace has.\<close>

lemma stale_catalog_entry:
  "(case mergeWorkspacePolicies False demo_hex (\<lambda>a b. 0) [] [demo_candidate, demo_candidate] (demo_merge True) of
      Inl e \<Rightarrow> False
    | Inr r \<Rightarrow> length (r_workspaces r) = 1 \<and> \<not> list_all (\<lambda>m. m_id m \<in> set (map ws_id (r_workspaces r))) (r_catalog r))"
  by code_simp

lemma demo_merged:
  obtains r where "mergeWorkspacePolicies False demo_hex (\<lambda>a b. 0) [demo_explicit ''on'' True] [demo_candidate] (demo_merge True) = Inr r"
    "length (r_workspaces r) = 2"
proof -
  have "case mergeWorkspacePolicies False demo_hex (\<lambda>a b. 0) [demo_explicit ''on'' True] [demo_candidate] (demo_merge True) of
      Inl e \<Rightarrow> False | Inr r \<Rightarrow> length (r_workspaces r) = 2" by code_simp
  then show ?thesis using that by (auto split: sum.splits)
qed

section \<open>Properties\<close>

text \<open>
  C28. What a merge exposes. Every workspace of the merged policy is that of an enabled explicit entry, with write access added only under the configured roots, or that of an open folder: then
  open folders are included, the folder is trusted if that is required, has no explicit entry and no technical name, its limits are within the ceilings, and it is
  read-only, without shell and without source control, unless it is under a configured root.
\<close>

theorem policy_merge_exposes:
  assumes "mergeWorkspacePolicies win32 sha lc entries discovered opts = Inr r" and "w \<in> set (r_workspaces r)"
  shows "(\<exists>x \<in> set entries. ws_enabled (x_workspace x) \<and> w = withAutoWriteAccess win32 (x_workspace x) (x_canonicalRootPath x) opts) \<or>
    (\<exists>c \<in> set discovered. includeOpenWorkspaces opts \<noteq> Some False \<and> (requireTrustedWorkspace opts \<noteq> Some False \<longrightarrow> c_trusted c) \<and>
      (\<forall>x \<in> set entries. normalizePathKey win32 (x_canonicalRootPath x) \<noteq> normalizePathKey win32 (c_canonicalRootPath c)) \<and>
      \<not> isImplicitTechnicalWorkspaceCandidate c \<and> rootPath w = c_rootPath c \<and> within_ceilings (limits w) \<and> sourceControl w = None \<and>
      (if isAutoWriteEligible win32 (c_canonicalRootPath c) opts then permissionProfile w = ''full-repo-write''
       else permissionProfile w = ''planning-readonly'' \<and> allowWrites w = [] \<and> allowShell w = []))"
proof -
  obtain lim k where lim: "clampDiscoveredLimits (discoveredLimitsOverride opts) = Inr lim"
      "from_explicit win32 opts entries k w \<or> includeOpenWorkspaces opts \<noteq> Some False \<and> from_discovered win32 sha opts lim entries discovered k w"
    by (rule merged_origin [OF assms])
  from lim(2) show ?thesis
  proof
    assume "from_explicit win32 opts entries k w"
    then show ?thesis unfolding from_explicit_def by blast
  next
    assume d: "includeOpenWorkspaces opts \<noteq> Some False \<and> from_discovered win32 sha opts lim entries discovered k w"
    then obtain c i where c: "c \<in> set discovered" "taken win32 entries opts c" "c_key win32 c \<notin> x_key win32 ` set entries"
        "w = withAutoWriteAccess win32 (discovered_workspace i c lim) (c_canonicalRootPath c) opts"
      unfolding from_discovered_def by blast
    have "\<forall>x \<in> set entries. x_key win32 x \<noteq> c_key win32 c" using c(3) by force
    with c d clamped_within [OF lim(1)] show ?thesis
      by (intro disjI2 bexI [OF _ c(1)]) (auto simp: taken_def withAutoWriteAccess_def discovered_workspace_def)
  qed
qed

theorem policy_merge_exposes_witness:
  "\<exists>r. mergeWorkspacePolicies False demo_hex (\<lambda>a b. 0) [demo_explicit ''on'' True] [demo_candidate] (demo_merge True) = Inr r \<and>
    length (r_workspaces r) = 2 \<and> list_all (\<lambda>w. rootPath w = ''/p'' \<or> rootPath w = ''/w/app'' \<and> within_ceilings (limits w)) (r_workspaces r)"
proof -
  obtain r where r: "mergeWorkspacePolicies False demo_hex (\<lambda>a b. 0) [demo_explicit ''on'' True] [demo_candidate] (demo_merge True) = Inr r"
    "length (r_workspaces r) = 2" by (rule demo_merged)
  have "list_all (\<lambda>w. rootPath w = ''/p'' \<or> rootPath w = ''/w/app'' \<and> within_ceilings (limits w)) (r_workspaces r)"
    unfolding list_all_iff
  proof
    fix w assume "w \<in> set (r_workspaces r)"
    from policy_merge_exposes [OF r(1) this] show "rootPath w = ''/p'' \<or> rootPath w = ''/w/app'' \<and> within_ceilings (limits w)"
      by (auto simp: demo_explicit_def demo_candidate_def)
  qed
  with r show ?thesis by blast
qed

text \<open>
  When a merge fails. It throws the error of the schema exactly when an override is a positive number below its ceiling that is not an integer, and otherwise \<open>MERGE_EMPTY_POLICY\<close>
  exactly when no path is offered; otherwise it has one workspace for each path offered: that of each open folder taken and, if explicit entries are always exposed, that
  of each enabled entry.
\<close>

theorem policy_merge_answers:
  "(mergeWorkspacePolicies win32 sha lc entries discovered opts = Inl e \<longleftrightarrow>
     (if \<exists>v. discoveredLimitsOverride opts = Some v \<and> fractional_override v then e = ZodError
      else offered win32 entries discovered opts = {} \<and> e = PlainError)) \<and>
   (mergeWorkspacePolicies win32 sha lc entries discovered opts = Inr r \<longrightarrow>
     length (r_workspaces r) = card (offered win32 entries discovered opts))"
proof (cases "clampDiscoveredLimits (discoveredLimitsOverride opts)")
  case (Inl err)
  then have "err = ZodError" "\<exists>v. discoveredLimitsOverride opts = Some v \<and> fractional_override v" using clamped_error by blast+
  with Inl show ?thesis by (auto simp: mergeWorkspacePolicies_def)
next
  case (Inr lim)
  let ?m = "merged (merge_all win32 sha entries discovered opts lim)"
  have f: "\<not> (\<exists>v. discoveredLimitsOverride opts = Some v \<and> fractional_override v)" using Inr clamped_error by (metis Inl_Inr_False)
  have k: "fst ` set ?m = offered win32 entries discovered opts" by (rule merge_all_laws(2))
  have "Map_ok ?m" using merge_all_laws(1) [of win32 sha opts lim entries discovered] unfolding sound_def by blast
  then have "length ?m = card (fst ` set ?m)" by (metis Map_ok_def distinct_card length_map list.set_map)
  moreover have "?m = [] \<longleftrightarrow> fst ` set ?m = {}" by simp
  moreover have "length (sort_cmp cmp (Map_values ?m)) = length ?m" for cmp by (simp add: Map_values_def)
  moreover have "sort_cmp cmp (Map_values ?m) = [] \<longleftrightarrow> ?m = []" for cmp by (metis calculation(3) length_0_conv)
  ultimately show ?thesis unfolding mergeWorkspacePolicies_def Inr k using f by (auto simp: Let_def)
qed

text \<open>
  C29. The merged policy is a policy: with valid explicit entries of different identifiers, candidates that passed their schema, and digests of which the suffix for
  collisions yields no second collision, it passes \<open>policyFileSchema\<close>; above all no two workspaces have one identifier.
\<close>

theorem policy_merge_valid:
  assumes "mergeWorkspacePolicies win32 sha lc entries discovered opts = Inr r"
    and "\<forall>x \<in> set entries. workspacePolicySchema (x_workspace x)" and "distinct (map (\<lambda>x. ws_id (x_workspace x)) entries)"
    and "\<forall>c \<in> set discovered. trimmed_text (c_name c) \<and> trimmed_text (c_rootPath c)"
    and "hex_digest sha" and "fresh_collisions win32 sha entries discovered"
  shows "policyFileSchema (r_workspaces r)"
proof -
  have "workspacePolicySchema w" if w: "w \<in> set (r_workspaces r)" for w
  proof -
    obtain lim k where lim: "clampDiscoveredLimits (discoveredLimitsOverride opts) = Inr lim"
        "from_explicit win32 opts entries k w \<or> includeOpenWorkspaces opts \<noteq> Some False \<and> from_discovered win32 sha opts lim entries discovered k w"
      by (rule merged_origin [OF assms(1) w])
    from lim(2) show ?thesis
    proof
      assume "from_explicit win32 opts entries k w"
      with assms(2) auto_write_schema show ?thesis unfolding from_explicit_def by blast
    next
      assume "includeOpenWorkspaces opts \<noteq> Some False \<and> from_discovered win32 sha opts lim entries discovered k w"
      then obtain c i where c: "c \<in> set discovered" "i \<in> discovered_ids sha c" "w = withAutoWriteAccess win32 (discovered_workspace i c lim) (c_canonicalRootPath c) opts"
        unfolding from_discovered_def by blast
      with assms(4) auto_write_schema discovered_schema [OF assms(5) c(2) clamped_within [OF lim(1)]] show ?thesis by blast
    qed
  qed
  moreover obtain lim where lim: "r_workspaces r \<noteq> []"
      "distinct (map ws_id (r_workspaces r)) = distinct (map (\<lambda>e. ws_id (snd e)) (merged (merge_all win32 sha entries discovered opts lim)))"
    by (rule merge_result [OF assms(1)])
  moreover have "Map_ok (merged (merge_all win32 sha entries discovered opts lim))"
    using merge_all_laws(1) [of win32 sha opts lim entries discovered] unfolding sound_def by blast
  then have "distinct (map (\<lambda>e. ws_id (snd e)) (merged (merge_all win32 sha entries discovered opts lim)))"
    using merge_all_laws(3) [OF assms(3,6), of opts lim] by (intro apart_distinct) (simp_all add: ids_apart_def)
  ultimately show ?thesis by (simp add: policyFileSchema_def refineUniqueWorkspaceIds_def list_all_iff)
qed

theorem policy_merge_valid_witness:
  "\<exists>r. mergeWorkspacePolicies False demo_hex (\<lambda>a b. 0) [demo_explicit ''on'' True] [demo_candidate] (demo_merge True) = Inr r \<and>
    length (r_workspaces r) = 2 \<and> policyFileSchema (r_workspaces r)"
proof -
  obtain r where r: "mergeWorkspacePolicies False demo_hex (\<lambda>a b. 0) [demo_explicit ''on'' True] [demo_candidate] (demo_merge True) = Inr r"
    "length (r_workspaces r) = 2" by (rule demo_merged)
  have "hex_digest demo_hex" by (simp add: hex_digest_def demo_hex_def list_all_iff)
  moreover have "fresh_collisions False demo_hex [demo_explicit ''on'' True] [demo_candidate]" by code_simp
  moreover have t: "trimmed_text ''on''" "trimmed_text ''/p''" "trimmed_text ''.''" "trimmed_text ''App''" "trimmed_text ''/w/app''"
      "is_alnum (CHR ''o'')" "list_all is_id_char ''on''" by code_simp+
  moreover have "workspacePolicySchema (x_workspace (demo_explicit ''on'' True))" "trimmed_text (c_name demo_candidate)" "trimmed_text (c_rootPath demo_candidate)"
    using t by (simp_all add: workspacePolicySchema_def demo_explicit_def demo_candidate_def workspaceLimitsSchema_def permissionProfiles_def confirmationModes_def)
  ultimately have "policyFileSchema (r_workspaces r)" by (intro policy_merge_valid [OF r(1)]) simp_all
  with r show ?thesis by blast
qed

text \<open>
  The catalogue keeps the last good snapshot. After any events, the last known good snapshot is the latest one applied that was not degraded; and after the
  catalogue is marked degraded, the snapshot in use is degraded and has the policy of the last known good one, if there was any.
\<close>

theorem catalog_last_good:
  "(case lastKnownGood (fold catalog_step es createEmptyCatalogState) of None \<Rightarrow> good_snapshots es = []
    | Some g \<Rightarrow> \<not> degraded g \<and> hd (good_snapshots es) = g \<and> good_snapshots es \<noteq> []) \<and>
   (\<exists>c. current (fold catalog_step (es @ [Degraded now msg]) createEmptyCatalogState) = Some c \<and> degraded c \<and> errorMessage c = Some msg \<and>
     s_policy c = (case good_snapshots es of g # gs \<Rightarrow> s_policy g
       | [] \<Rightarrow> (case current (fold catalog_step es createEmptyCatalogState) of None \<Rightarrow> [] | Some s \<Rightarrow> s_policy s)))"
proof -
  have "\<forall>g \<in> set (good_snapshots es). \<not> degraded g" by (auto simp: good_snapshots_def split: catalog_event.splits if_splits)
  then show ?thesis using last_good [of es]
    by (cases "good_snapshots es"; cases "current (fold catalog_step es createEmptyCatalogState)")
      (simp_all add: catalog_step_def markCatalogDegraded_def)
qed

end
