(* ===== verification/BrowserConfirmation.thy ===== *)
theory BrowserConfirmation
  imports Confirmation
begin

text \<open>
  Confirmations of browser actions, \<open>packages/mcp-core/src/browser-confirmation.ts\<close>. The registry is a further instance of the contract
  \<open>one_shot\<close>; it can also drop confirmations, all of them or those of some tabs. The locale \<open>revocable\<close> extends the contract
  by operations that only drop, and redemptions stay bounded in sessions with them.
\<close>

section \<open>Confirmations that may be dropped\<close>

datatype ('i, 'b, 'd) rev_call = Confirm "('i, 'b) conf_call" | Drop 'd

fun rev_run :: "(millis \<Rightarrow> millis \<Rightarrow> 'i \<Rightarrow> 'b \<Rightarrow> ('r, 'x) op) \<Rightarrow> (millis \<Rightarrow> millis \<Rightarrow> 'i \<Rightarrow> 'b \<Rightarrow> ('r, 'y) op) \<Rightarrow>
    ('d \<Rightarrow> 'r \<Rightarrow> 'r) \<Rightarrow> ('i, 'b, 'd) rev_call list \<Rightarrow> 'r \<Rightarrow> (('i, 'b) conf_call \<times> bool) list \<times> 'r" where
  "rev_run issue redeem revoke [] r = ([], r)"
| "rev_run issue redeem revoke (Confirm c # cs) r =
    (let (log, r') = conf_run issue redeem [c] r; (log', r'') = rev_run issue redeem revoke cs r' in (log @ log', r''))"
| "rev_run issue redeem revoke (Drop d # cs) r = rev_run issue redeem revoke cs (revoke d r)"

locale revocable = one_shot valid outstanding issue redeem same key ttl
  for valid :: "'r \<Rightarrow> bool" and outstanding :: "'r \<Rightarrow> 'i \<Rightarrow> ('c \<times> millis) option"
    and issue :: "millis \<Rightarrow> millis \<Rightarrow> 'i \<Rightarrow> 'b \<Rightarrow> ('r, 'x) op" and redeem :: "millis \<Rightarrow> millis \<Rightarrow> 'i \<Rightarrow> 'b \<Rightarrow> ('r, 'y) op"
    and same :: "'c \<Rightarrow> 'b \<Rightarrow> bool" and key :: "'b \<Rightarrow> 'c" and ttl :: millis +
  fixes revoke :: "'d \<Rightarrow> 'r \<Rightarrow> 'r" and drops :: "'d \<Rightarrow> 'c \<Rightarrow> bool"
  assumes valid_drop: "valid r \<Longrightarrow> valid (revoke d r)"
    and drop_frame: "valid r \<Longrightarrow> outstanding (revoke d r) i = None \<or> outstanding (revoke d r) i = outstanding r i"
    and drop_drops: "valid r \<Longrightarrow> outstanding (revoke d r) i = Some (c, e) \<Longrightarrow> \<not> drops d c"
begin

lemma valid_rev_run: "valid r \<Longrightarrow> rev_run issue redeem revoke cs r = (log, r') \<Longrightarrow> valid r'"
proof (induction cs arbitrary: r log)
  case (Cons c cs)
  then show ?case
    by (cases c) (auto split: prod.splits dest: valid_conf_run valid_drop simp del: conf_run.simps)
qed simp

lemma rev_redemptions_gen:
  assumes "valid r" and "rev_run issue redeem revoke cs r = (log, r')"
  shows "redemptions i log + (if outstanding r' i = None then 0 else 1)
    \<le> issues i log + (if outstanding r i = None then 0 else 1)"
  using assms
proof (induction cs arbitrary: r log)
  case Nil
  then show ?case by (simp add: redemptions_def issues_def)
next
  case (Cons c cs)
  show ?case
  proof (cases c)
    case (Confirm k)
    obtain l1 r1 where step: "conf_run issue redeem [k] r = (l1, r1)" by fastforce
    obtain l2 where rest: "rev_run issue redeem revoke cs r1 = (l2, r')" and log: "log = l1 @ l2"
      using Cons.prems Confirm step by (auto split: prod.splits simp del: conf_run.simps)
    have "redemptions i log = redemptions i l1 + redemptions i l2" "issues i log = issues i l1 + issues i l2"
      by (simp_all add: log redemptions_def issues_def)
    with redemptions_le_issues_gen [OF Cons.prems(1) step, of i]
      Cons.IH [OF valid_conf_run [OF Cons.prems(1) step] rest] show ?thesis by linarith
  next
    case (Drop d)
    with Cons.prems have "rev_run issue redeem revoke cs (revoke d r) = (log, r')" by simp
    with Cons.IH [OF valid_drop [OF Cons.prems(1)]] drop_frame [OF Cons.prems(1), of d i] show ?thesis
      by (fastforce split: if_splits)
  qed
qed

lemma rev_redemptions:
  assumes "valid r" and "outstanding r i = None" and "rev_run issue redeem revoke cs r = (log, r')"
  shows "redemptions i log \<le> issues i log"
  using rev_redemptions_gen [OF assms(1,3), of i] assms(2) by simp

text \<open>After a drop, what is outstanding of the dropped kind was issued later.\<close>

lemma reissued_after_drop:
  assumes "valid r" and "rev_run issue redeem revoke cs (revoke d r) = (log, r')"
    and "outstanding r' i = Some (c, e)" and "drops d c"
  shows "issues i log \<noteq> 0"
proof
  assume none: "issues i log = 0"
  have "outstanding r' i = None \<or> outstanding r' i = outstanding r0 i"
    if "valid r0" "rev_run issue redeem revoke cs r0 = (log, r')" "issues i log = 0" for r0 cs log
    using that
  proof (induction cs arbitrary: r0 log)
    case (Cons k cs)
    show ?case
    proof (cases k)
      case (Drop d')
      with Cons.prems Cons.IH [OF valid_drop [OF Cons.prems(1)]] drop_frame [OF Cons.prems(1), of d' i]
      show ?thesis by fastforce
    next
      case (Confirm q)
      obtain l1 r1 where step: "conf_run issue redeem [q] r0 = (l1, r1)" by fastforce
      obtain l2 where rest: "rev_run issue redeem revoke cs r1 = (l2, r')" and l: "log = l1 @ l2"
        using Cons.prems Confirm step by (auto split: prod.splits simp del: conf_run.simps)
      have none: "issues i l1 = 0" "issues i l2 = 0" using Cons.prems(3) by (simp_all add: l issues_def)
      have "outstanding r1 i = None \<or> outstanding r1 i = outstanding r0 i"
      proof (cases q)
        case (Issue t u j b)
        with step none(1) show ?thesis
          using issue_frame [OF Cons.prems(1), of t u j b "fst (issue t u j b r0)" r1 i]
          by (auto split: prod.splits if_splits simp: issues_def is_issued_def)
      next
        case (Redeem t u j b)
        with step show ?thesis using redeem_frame [OF Cons.prems(1), of t u j b _ r1 i]
          by (auto split: prod.splits)
      qed
      with Cons.IH [OF valid_conf_run [OF Cons.prems(1) step] rest none(2)] show ?thesis by auto
    qed
  qed simp
  from this [OF valid_drop [OF assms(1)] assms(2) none] assms(3)
  have "outstanding (revoke d r) i = Some (c, e)" by simp
  with drop_drops [OF assms(1)] assms(4) show False by blast
qed

end

section \<open>The registry\<close>

datatype BrowserConfirmationCategory = SubmitForm | PublishContent | SendMessage | DeleteOrCancel | PurchaseOrPayment
  | ChangeCredentials | AcceptTermsOrContract | UploadFile | ExecuteScript

record BrowserConfirmationBinding =
  cb_tabId :: string
  cb_origin :: string
  cb_url :: string
  cb_category :: BrowserConfirmationCategory
  cb_action :: string
  cb_target :: string

type_synonym browser_confirmations = "BrowserConfirmationBinding confirmations"

definition browser_TTL_MS :: millis where
  "browser_TTL_MS = 10 * 60 * 1000"

definition browser_sameBinding :: "BrowserConfirmationBinding \<Rightarrow> BrowserConfirmationBinding \<Rightarrow> bool" where
  "browser_sameBinding left right =
    (safeEqual (cb_tabId left) (cb_tabId right) \<and> safeEqual (cb_origin left) (cb_origin right) \<and>
     safeEqual (cb_url left) (cb_url right) \<and> cb_category left = cb_category right \<and>
     safeEqual (cb_action left) (cb_action right) \<and> safeEqual (cb_target left) (cb_target right))"

definition browser_pruneExpired :: "millis \<Rightarrow> browser_confirmations \<Rightarrow> browser_confirmations" where
  "browser_pruneExpired now pending = Map_delete_where (\<lambda>p. expiresAtMs p \<le> now) pending"

text \<open>\<open>t\<close> is the clock read of the pruning, \<open>u\<close> that of the operation itself.\<close>

definition browser_create :: "millis \<Rightarrow> millis \<Rightarrow> millis \<Rightarrow> string \<Rightarrow> BrowserConfirmationBinding \<Rightarrow>
    (browser_confirmations, string \<times> millis) op" where
  "browser_create ttlMs t u confirmationId b pending =
    (let pending = browser_pruneExpired t pending; expires = u + ttlMs
     in (Inr (confirmationId, expires), Map_set pending confirmationId \<lparr>binding = b, expiresAtMs = expires\<rparr>))"

definition browser_clear :: "browser_confirmations \<Rightarrow> browser_confirmations" where
  "browser_clear pending = []"

definition hasPendingTabs :: "millis \<Rightarrow> string list \<Rightarrow> browser_confirmations \<Rightarrow> bool \<times> browser_confirmations" where
  "hasPendingTabs t tabIds pending =
    (let pending = browser_pruneExpired t pending; ids = Set_from tabIds
     in (list_ex (\<lambda>p. cb_tabId (binding p) \<in> set ids) (Map_values pending), pending))"

definition discardTabs :: "string list \<Rightarrow> browser_confirmations \<Rightarrow> browser_confirmations" where
  "discardTabs tabIds pending =
    (let ids = Set_from tabIds in Map_delete_where (\<lambda>p. cb_tabId (binding p) \<in> set ids) pending)"

definition browser_consume :: "millis \<Rightarrow> millis \<Rightarrow> string \<Rightarrow> BrowserConfirmationBinding \<Rightarrow> (browser_confirmations, unit) op" where
  "browser_consume t u confirmationId b pending =
    (let pending = browser_pruneExpired t pending
     in case Map_get pending confirmationId of
          None \<Rightarrow> (Inl (AppError BROWSER_CONFIRMATION_INVALID), Map_delete pending confirmationId)
        | Some p \<Rightarrow>
            if expiresAtMs p \<le> u then (Inl (AppError BROWSER_CONFIRMATION_INVALID), Map_delete pending confirmationId)
            else if \<not> browser_sameBinding (binding p) b then (Inl (AppError BROWSER_CONFIRMATION_INVALID), pending)
            else (Inr (), Map_delete pending confirmationId))"

section \<open>The registry keeps the contract\<close>

lemma browser_sameBinding_iff [simp]: "browser_sameBinding b c \<longleftrightarrow> b = c"
  by (auto simp: browser_sameBinding_def)

text \<open>The operations that only drop.\<close>

datatype drop_call = Clear | HasPendingTabs millis "string list" | DiscardTabs "string list"

primrec browser_drop :: "drop_call \<Rightarrow> browser_confirmations \<Rightarrow> browser_confirmations" where
  "browser_drop Clear pending = browser_clear pending"
| "browser_drop (HasPendingTabs t ids) pending = snd (hasPendingTabs t ids pending)"
| "browser_drop (DiscardTabs ids) pending = discardTabs ids pending"

primrec browser_drops :: "drop_call \<Rightarrow> BrowserConfirmationBinding \<Rightarrow> bool" where
  "browser_drops Clear b = True"
| "browser_drops (HasPendingTabs t ids) b = False"
| "browser_drops (DiscardTabs ids) b = (cb_tabId b \<in> set ids)"

lemmas browser_confirmation_defs = browser_create_def browser_consume_def browser_pruneExpired_def browser_clear_def
  hasPendingTabs_def discardTabs_def outstanding_of_def

interpretation browser: revocable Map_ok outstanding_of "browser_create ttlMs" browser_consume browser_sameBinding "\<lambda>b. b" ttlMs
  browser_drop browser_drops
proof unfold_locales
  fix r :: browser_confirmations and d i
  assume "Map_ok r"
  then show "Map_ok (browser_drop d r)"
    and "outstanding_of (browser_drop d r) i = None \<or> outstanding_of (browser_drop d r) i = outstanding_of r i"
    by (cases d; auto simp: browser_confirmation_defs map_model Let_def split: option.splits)+
next
  fix r :: browser_confirmations and d i c e
  assume "Map_ok r" "outstanding_of (browser_drop d r) i = Some (c, e)"
  then show "\<not> browser_drops d c"
    by (cases d) (auto simp: browser_confirmation_defs map_model Let_def split: option.splits if_splits)
qed (auto simp: browser_confirmation_defs Let_def map_model split: option.splits if_splits)

section \<open>Properties\<close>

text \<open>
  In any session of \<open>create\<close>, \<open>consume\<close>, \<open>clear\<close>, \<open>hasPendingTabs\<close> and \<open>discardTabs\<close> on a new registry, an identifier
  is consumed at most as often as it was issued. After \<open>discardTabs\<close> a confirmation for one of the tabs can be
  consumed only when its identifier was issued again since.
\<close>

theorem browser_confirmation_revocable:
  assumes "rev_run (browser_create ttlMs) browser_consume browser_drop before [] = (log, pending)"
    and "rev_run (browser_create ttlMs) browser_consume browser_drop after (discardTabs tabs pending) = (log', pending')"
  shows "redemptions i log \<le> issues i log \<and>
    (cb_tabId b \<in> set tabs \<and> browser_consume t u i b pending' = (Inr (), pending'') \<longrightarrow> issues i log' \<noteq> 0)"
proof (intro conjI impI; (elim conjE)?)
  have ok: "Map_ok pending" by (rule browser.valid_rev_run [OF Map_ok_Nil assms(1)])
  show "redemptions i log \<le> issues i log"
    by (rule browser.rev_redemptions [OF Map_ok_Nil outstanding_of_Nil assms(1)])
  assume tab: "cb_tabId b \<in> set tabs" and used: "browser_consume t u i b pending' = (Inr (), pending'')"
  have after: "rev_run (browser_create ttlMs) browser_consume browser_drop after (browser_drop (DiscardTabs tabs) pending) = (log', pending')"
    using assms(2) by simp
  have "Map_ok pending'" by (rule browser.valid_rev_run [OF browser.valid_drop [OF ok] after])
  from browser.redeem_sound [OF this used] obtain e where "outstanding_of pending' i = Some (b, e)" by auto
  from browser.reissued_after_drop [OF ok after this] tab show "issues i log' \<noteq> 0" by simp
qed

definition demo_delete :: BrowserConfirmationBinding where
  "demo_delete = \<lparr>cb_tabId = ''t'', cb_origin = ''https://a'', cb_url = ''https://a/x'', cb_category = DeleteOrCancel, cb_action = ''click'',
     cb_target = ''button:Delete''\<rparr>"

end
