(* ===== verification/BrowserInteraction.thy ===== *)
theory BrowserInteraction
  imports BrowserConfirmation NumberText
begin

text \<open>
  What a browser action amounts to, \<open>packages/mcp-core/src/browser-interaction.ts\<close>: key sequences, the search among the elements of a page, the
  references read from the text of a snapshot, and the classification of controls and pages that makes an action need a confirmation. The
  parts of an address (\<open>new URL\<close>) and \<open>decodeURIComponent\<close> are parameters; \<open>None\<close> is what they throw.
\<close>

section \<open>Clicks and keys\<close>

text \<open>A finite number, \<open>m * 10 ^ e\<close>.\<close>

type_synonym number = "int \<times> int"

definition isInteger :: "number \<Rightarrow> bool" where
  "isInteger n = (0 \<le> snd n \<or> fst n mod 10 ^ nat (- snd n) = 0)"

record click_options =
  button :: "string option"
  clickCount :: "int option"
  modifiers :: "string list option"
  click_x :: "number option"
  click_y :: "number option"

text \<open>An integer count is \<open>n * 10 ^ 0\<close>.\<close>

definition clickAuthorizationAction :: "click_options \<Rightarrow> string" where
  "clickAuthorizationAction input =
    (let button = (case button input of None \<Rightarrow> ''left'' | Some b \<Rightarrow> b);
         count = (case clickCount input of None \<Rightarrow> 1 | Some n \<Rightarrow> n);
         modifiers = sort_cmp cmp_units (Set_from (case modifiers input of None \<Rightarrow> [] | Some ms \<Rightarrow> ms));
         variant = (if button = ''left'' \<and> count = 1 \<and> modifiers = [] then ''click''
           else ''click:'' @ button @ '':'' @ number_text count 0 @ '':'' @ join ''+'' modifiers)
     in case (click_x input, click_y input) of
          (Some x, Some y) \<Rightarrow> variant @ '':point:'' @ number_text (fst x) (snd x) @ '','' @ number_text (fst y) (snd y)
        | _ \<Rightarrow> variant)"

text \<open>\<open>key.trim().split(/\\s+/u)\<close>.\<close>

definition chords_of :: "string \<Rightarrow> string list" where
  "chords_of key = split_on CHR '' '' (replace_runs is_space (trim key))"

definition containsBrowserEnterKey :: "string \<Rightarrow> bool" where
  "containsBrowserEnterKey key =
    list_ex (\<lambda>chord. map lower_ascii (last (split_on CHR ''+'' chord)) \<in> {''enter'', ''return'', ''numpadenter''}) (chords_of key)"

definition validateBrowserKeySequence :: "string \<Rightarrow> int option \<Rightarrow> unit result" where
  "validateBrowserKeySequence key repeat =
    (let repeat = (case repeat of None \<Rightarrow> 1 | Some n \<Rightarrow> n); chords = chords_of key
     in if \<not> list_all (\<lambda>c. c \<noteq> []) chords \<or> int (length chords) * repeat > 100 then Inl (AppError LIMIT_EXCEEDED)
        else if repeat > 1 \<and> containsBrowserEnterKey key then Inl (AppError ACTION_BLOCKED_BY_POLICY)
        else Inr ())"

section \<open>Elements of a page\<close>

record BrowserElementReference =
  el_ref :: string
  el_role :: string
  el_name :: string

text \<open>\<open>\\p{L}\<close> and \<open>\\p{N}\<close> among the characters up to 255.\<close>

definition letter_or_number :: "char \<Rightarrow> bool" where
  "letter_or_number c = (let n = of_char c :: nat in
     48 \<le> n \<and> n \<le> 57 \<or> 65 \<le> n \<and> n \<le> 90 \<or> 97 \<le> n \<and> n \<le> 122 \<or> n \<in> {170, 178, 179, 181, 185, 186, 188, 189, 190} \<or>
     192 \<le> n \<and> n \<noteq> 215 \<and> n \<noteq> 247)"

definition normalizeFindText :: "string \<Rightarrow> string" where
  "normalizeFindText value =
    replace_runs is_space (trim (replace_runs (\<lambda>c. \<not> letter_or_number c)
      (map lower_char (filter (\<lambda>c. c \<noteq> CHR ''-'') (map strip_mark value)))))"

definition find_score :: "string \<Rightarrow> string \<Rightarrow> int" where
  "find_score normalized name =
    (if name = normalized then 100 else if startsWith name normalized then 90 else if string_includes name normalized then 80 else 60)"

definition find_match :: "string \<Rightarrow> string option \<Rightarrow> BrowserElementReference \<Rightarrow> int option" where
  "find_match normalized role reference =
    (let normalizedRole = map_option (map lower_char) role; name = normalizeFindText (el_name reference)
     in if normalizedRole \<noteq> None \<and> normalizedRole \<noteq> Some [] \<and> Some (map lower_char (el_role reference)) \<noteq> normalizedRole then None
        else if name = [] \<or> \<not> list_all (string_includes name) (split_on CHR '' '' normalized) then None
        else Some (find_score normalized name))"

definition byScore :: "(BrowserElementReference \<times> int) \<times> nat \<Rightarrow> (BrowserElementReference \<times> int) \<times> nat \<Rightarrow> int" where
  "byScore a b = (let d = snd (fst b) - snd (fst a) in if d \<noteq> 0 then d else int (snd a) - int (snd b))"

definition find_candidates :: "string \<Rightarrow> string option \<Rightarrow> BrowserElementReference list \<Rightarrow> ((BrowserElementReference \<times> int) \<times> nat) list" where
  "find_candidates normalized role references =
    concat (map (\<lambda>(reference, index). case find_match normalized role reference of None \<Rightarrow> [] | Some score \<Rightarrow> [((reference, score), index)])
      (zip references [0..<length references]))"

definition findBrowserElements :: "BrowserElementReference list \<Rightarrow> string \<Rightarrow> string option \<Rightarrow> int option \<Rightarrow>
    (BrowserElementReference \<times> int) list" where
  "findBrowserElements references query role limit =
    (let limit = (case limit of None \<Rightarrow> 10 | Some n \<Rightarrow> n); normalized = normalizeFindText query
     in if normalized = [] \<or> limit < 1 then []
        else map fst (take (nat (min limit 20)) (sort_cmp byScore (find_candidates normalized role references))))"

section \<open>References in the text of a snapshot\<close>

text \<open>\<open>content.split(/\\r?\\n/u)\<close>.\<close>

definition split_lines :: "string \<Rightarrow> string list" where
  "split_lines content =
    (let ls = split_on CHR 0x0A content
     in map (\<lambda>l. if l \<noteq> [] \<and> last l = CHR 0x0D then butlast l else l) (butlast ls) @ [last ls])"

text \<open>\<open>replace(/^<[^>]+>\\s+/u, "")\<close>.\<close>

definition strip_tag :: "string \<Rightarrow> string" where
  "strip_tag line =
    (let body = takeWhile (\<lambda>c. c \<noteq> CHR ''>'') (drop 1 line); rest = drop 1 (dropWhile (\<lambda>c. c \<noteq> CHR ''>'') (drop 1 line))
     in if startsWith line ''<'' \<and> body \<noteq> [] \<and> rest \<noteq> [] \<and> is_space (hd rest) then dropWhile is_space rest else line)"

text \<open>\<open>/\\[ref=([^\\]]+)\\]/u\<close>: the text before the first match, and what it matches.\<close>

definition ref_here :: "string \<Rightarrow> string option" where
  "ref_here s =
    (let body = takeWhile (\<lambda>c. c \<noteq> CHR '']'') (drop 5 s)
     in if startsWith s ''[ref='' \<and> body \<noteq> [] \<and> length body < length (drop 5 s) then Some body else None)"

fun find_ref :: "string \<Rightarrow> (string \<times> string) option" where
  "find_ref [] = None"
| "find_ref (c # cs) =
    (case ref_here (c # cs) of Some r \<Rightarrow> Some ([], r) | None \<Rightarrow> map_option (\<lambda>(before, r). (c # before, r)) (find_ref cs))"

text \<open>\<open>/(?:\\s+\\[(?!ref=)[^\\]]+\\])+\\s*$/u\<close>: one group, the whole expression at the start of a text, and its removal.\<close>

definition state_group :: "string \<Rightarrow> string option" where
  "state_group s =
    (let r = dropWhile is_space s; body = takeWhile (\<lambda>c. c \<noteq> CHR '']'') (drop 1 r); rest = dropWhile (\<lambda>c. c \<noteq> CHR '']'') (drop 1 r)
     in if s \<noteq> [] \<and> is_space (hd s) \<and> startsWith r ''['' \<and> \<not> startsWith (drop 1 r) ''ref='' \<and> body \<noteq> [] \<and> rest \<noteq> []
        then Some (drop 1 rest) else None)"

lemma state_group_shorter [termination_simp]: "state_group s = Some r \<Longrightarrow> length r < length s"
proof -
  assume "state_group s = Some r"
  then obtain t where t: "t = drop 1 (dropWhile is_space s)" "s \<noteq> []" "dropWhile (\<lambda>c. c \<noteq> CHR '']'') t \<noteq> []"
    "r = drop 1 (dropWhile (\<lambda>c. c \<noteq> CHR '']'') t)"
    by (auto simp: state_group_def Let_def split: if_splits)
  have "length (dropWhile (\<lambda>c. c \<noteq> CHR '']'') t) \<le> length t" by (rule length_dropWhile_le)
  moreover have "length t \<le> length s" using length_dropWhile_le [of is_space s] by (simp add: t(1))
  moreover have "length r < length (dropWhile (\<lambda>c. c \<noteq> CHR '']'') t)" using t(3,4) by simp
  ultimately show "length r < length s" by linarith
qed

fun state_tail :: "string \<Rightarrow> bool" where
  "state_tail s = (case state_group s of None \<Rightarrow> False | Some r \<Rightarrow> list_all is_space r \<or> state_tail r)"

declare state_tail.simps [simp del]

fun strip_state :: "string \<Rightarrow> string" where
  "strip_state [] = []"
| "strip_state (c # cs) = (if state_tail (c # cs) then [] else c # strip_state cs)"

text \<open>\<open>/^([A-Za-z][\\w-]*)(?:\\s+(.*))?$/u\<close>.\<close>

definition ascii_letter :: "char \<Rightarrow> bool" where
  "ascii_letter c = (let n = of_char c :: nat in 65 \<le> n \<and> n \<le> 90 \<or> 97 \<le> n \<and> n \<le> 122)"

definition word_char :: "char \<Rightarrow> bool" where
  "word_char c = (ascii_letter c \<or> c \<in> set ''0123456789_'')"

definition role_match :: "string \<Rightarrow> (string \<times> string) option" where
  "role_match s =
    (let role = takeWhile (\<lambda>c. word_char c \<or> c = CHR ''-'') s; rest = dropWhile (\<lambda>c. word_char c \<or> c = CHR ''-'') s;
         name = dropWhile is_space rest
     in if s = [] \<or> \<not> ascii_letter (hd s) then None
        else if rest = [] then Some (role, [])
        else if is_space (hd rest) \<and> list_all (\<lambda>c. c \<noteq> CHR 0x0A \<and> c \<noteq> CHR 0x0D) name then Some (role, name)
        else None)"

definition unquote :: "string \<Rightarrow> string" where
  "unquote rawName =
    (if startsWith rawName [CHR 0x22] \<and> endsWith rawName [CHR 0x22] \<or> startsWith rawName [CHR 0x27] \<and> endsWith rawName [CHR 0x27]
     then butlast (drop 1 rawName) else rawName)"

definition parse_line :: "string \<Rightarrow> BrowserElementReference option" where
  "parse_line rawLine =
    (let line = trim rawLine
     in if \<not> startsWith line ''- '' then None
        else (case find_ref (strip_tag (trim (drop 2 line))) of
          None \<Rightarrow> None
        | Some (before, ref) \<Rightarrow>
            (case role_match (trim (strip_state (trim before))) of
               None \<Rightarrow> None
             | Some (role, name) \<Rightarrow> Some \<lparr>el_ref = ref, el_role = role, el_name = trim (unquote (trim name))\<rparr>)))"

definition parseElementReferences :: "string \<Rightarrow> BrowserElementReference list" where
  "parseElementReferences content = List.map_filter parse_line (split_lines content)"

section \<open>What a label or a page amounts to\<close>

text \<open>\<open>\\b\<close> between two texts, and the expressions \<open>/\\b(w|...)\\b/\<close>.\<close>

definition boundary :: "string \<Rightarrow> string \<Rightarrow> bool" where
  "boundary l r = ((l \<noteq> [] \<and> word_char (last l)) \<noteq> (r \<noteq> [] \<and> word_char (hd r)))"

definition word_at :: "string list \<Rightarrow> string \<Rightarrow> nat \<Rightarrow> bool" where
  "word_at ws s i =
    (boundary (take i s) (drop i s) \<and>
     list_ex (\<lambda>w. startsWith (drop i s) w \<and> boundary (take (i + length w) s) (drop (i + length w) s)) ws)"

definition has_word :: "string list \<Rightarrow> string \<Rightarrow> bool" where
  "has_word ws s = list_ex (word_at ws s) [0..<Suc (length s)]"

definition has_start :: "string \<Rightarrow> string \<Rightarrow> bool" where
  "has_start w s = list_ex (\<lambda>i. boundary (take i s) (drop i s) \<and> startsWith (drop i s) w) [0..<Suc (length s)]"

definition foldText :: "string \<Rightarrow> string" where
  "foldText value = map (strip_mark \<circ> lower_char) value"

definition PROCEED_LABEL :: "string list" where
  "PROCEED_LABEL = [''continue'', ''next'', ''ok'', ''yes'', ''confirm'', ''finish'', ''done'', ''proceed'', ''submit'', ''continuar'', ''proximo'', ''sim'',
    ''confirmar'', ''finalizar'', ''concluir'', ''prosseguir'', ''avancar'']"

definition CLICKABLE_ROLE :: "string list" where
  "CLICKABLE_ROLE = [''button'', ''menuitem'', ''submit'']"

definition delete_page_words :: "string list" where
  "delete_page_words = [''delete'', ''deactivate'', ''terminate'', ''unsubscribe'', ''cancel'', ''close account'', ''close my account'', ''excluir'',
    ''apagar'', ''encerrar'', ''desativar'', ''cancelar'', ''descadastrar'']"

definition payment_page_words :: "string list" where
  "payment_page_words = [''checkout'', ''payment'', ''payments'', ''pay'', ''billing'', ''cart'', ''basket'', ''pagamento'', ''pagar'', ''carrinho'',
    ''pix'', ''boleto'', ''finalizar compra'', ''place order'', ''revisar pedido'']"

definition security_page_words :: "string list" where
  "security_page_words = [''password'', ''security'', ''2fa'', ''mfa'', ''credentials'', ''senha'', ''seguranca'']"

record url_parts =
  u_origin :: string
  u_hostname :: string
  u_pathname :: string

record web =
  new_URL :: "string \<Rightarrow> url_parts option"
  decodeURIComponent :: "string \<Rightarrow> string option"

text \<open>\<open>Pick<BrowserTab, "tabId" | "url" | "title">\<close>.\<close>

record page_tab =
  pt_tabId :: string
  pt_url :: "string option"
  pt_title :: "string option"

definition place_of :: "web \<Rightarrow> string \<Rightarrow> string" where
  "place_of W address =
    (case new_URL W address of
       None \<Rightarrow> []
     | Some u \<Rightarrow> (case decodeURIComponent W (u_pathname u) of
         None \<Rightarrow> []
       | Some p \<Rightarrow> hd (split_on CHR ''.'' (u_hostname u)) @ '' '' @ p))"

definition page_text :: "web \<Rightarrow> page_tab option \<Rightarrow> string" where
  "page_text W context =
    (let place = place_of W (case context of None \<Rightarrow> [] | Some t \<Rightarrow> (case pt_url t of None \<Rightarrow> [] | Some u \<Rightarrow> u));
         title = (case context of None \<Rightarrow> [] | Some t \<Rightarrow> (case pt_title t of None \<Rightarrow> [] | Some n \<Rightarrow> n))
     in replace_runs (\<lambda>c. c \<in> set ''-_/.+'') (foldText (place @ '' '' @ title)))"

definition classifyPageContext :: "web \<Rightarrow> page_tab option \<Rightarrow> BrowserConfirmationCategory option" where
  "classifyPageContext W context =
    (let text = page_text W context
     in if has_word delete_page_words text then Some DeleteOrCancel
        else if has_word payment_page_words text then Some PurchaseOrPayment
        else if has_word security_page_words text then Some ChangeCredentials
        else None)"

definition classifyDangerousLabel :: "string \<Rightarrow> BrowserConfirmationCategory option" where
  "classifyDangerousLabel value =
    (if has_word [''delete'', ''remove'', ''cancel'', ''terminate'', ''unsubscribe'', ''deactivate'', ''excluir'', ''remover'', ''cancelar'', ''apagar'',
         ''encerrar'', ''desativar'', ''descadastrar''] value then Some DeleteOrCancel
     else if has_word [''buy'', ''purchase'', ''pay'', ''checkout'', ''order'', ''subscribe'', ''donate'', ''comprar'', ''pagar'', ''pagamento'',
         ''finalizar compra'', ''assinar'', ''contratar'', ''doar''] value \<or>
         has_start ''transfer'' value \<or>
         has_word (map (\<lambda>v. v @ '' pedido'') [''fazer'', ''finalizar'', ''confirmar'', ''concluir'', ''efetuar'', ''enviar'']) value
       then Some PurchaseOrPayment
     else if has_word [''send'', ''message'', ''email'', ''enviar'', ''mensagem''] value then Some SendMessage
     else if has_word [''publish'', ''post'', ''publicar'', ''postar''] value then Some PublishContent
     else if has_word [''password'', ''credential'', ''security'', ''senha'', ''credencial''] value then Some ChangeCredentials
     else if has_word [''accept'', ''agree'', ''terms'', ''contract'', ''aceitar'', ''concordo'', ''termos'', ''contrato''] value
       then Some AcceptTermsOrContract
     else if has_word [''upload'', ''attach'', ''anexar'', ''enviar arquivo''] value then Some UploadFile
     else if has_word [''submit'', ''save'', ''confirm'', ''apply'', ''create'', ''update'', ''salvar'', ''confirmar'', ''enviar formulario''] value
       then Some SubmitForm
     else None)"

definition classifyDangerousAction :: "web \<Rightarrow> BrowserElementReference \<Rightarrow> page_tab option \<Rightarrow> BrowserConfirmationCategory option" where
  "classifyDangerousAction W reference context =
    (let value = foldText (el_role reference @ '' '' @ el_name reference); byLabel = classifyDangerousLabel value
     in if byLabel \<noteq> None \<and> byLabel \<noteq> Some SubmitForm then byLabel
        else if byLabel = Some SubmitForm \<or>
          list_ex (string_includes (map lower_char (el_role reference))) CLICKABLE_ROLE \<and> has_word PROCEED_LABEL value
        then (case classifyPageContext W context of Some c \<Rightarrow> Some c | None \<Rightarrow> byLabel)
        else byLabel)"

section \<open>BrowserInteractionContextService\<close>

type_synonym reference_map = "(string, BrowserElementReference) jsMap"

type_synonym interactions = "(string, reference_map) jsMap"

definition reference_entries :: "BrowserElementReference list \<Rightarrow> reference_map" where
  "reference_entries references = Map_from (map (\<lambda>r. (el_ref r, r)) references)"

definition captureReferences :: "string \<Rightarrow> string \<Rightarrow> interactions \<Rightarrow> BrowserElementReference list \<times> interactions" where
  "captureReferences tabId content s =
    (let references = parseElementReferences content in (references, Map_set s tabId (reference_entries references)))"

definition captureStructuredReferences :: "string \<Rightarrow> BrowserElementReference list \<Rightarrow> interactions \<Rightarrow> interactions" where
  "captureStructuredReferences tabId references s = Map_set s tabId (reference_entries references)"

definition mergeReferences :: "string \<Rightarrow> string \<Rightarrow> interactions \<Rightarrow> BrowserElementReference list \<times> interactions" where
  "mergeReferences tabId content s =
    (let existing = (case Map_get s tabId of None \<Rightarrow> [] | Some m \<Rightarrow> m);
         merged = fold (\<lambda>r m. Map_set m (el_ref r) r) (parseElementReferences content) existing
     in (Map_values merged, Map_set s tabId merged))"

definition currentReferences :: "string \<Rightarrow> interactions \<Rightarrow> BrowserElementReference list" where
  "currentReferences tabId s = (case Map_get s tabId of None \<Rightarrow> [] | Some m \<Rightarrow> Map_values m)"

definition requireReference :: "string \<Rightarrow> string \<Rightarrow> interactions \<Rightarrow> BrowserElementReference result" where
  "requireReference tabId ref s =
    (case Map_get s tabId of
       None \<Rightarrow> Inl (AppError INVALID_ARGUMENT)
     | Some m \<Rightarrow> (case Map_get m ref of None \<Rightarrow> Inl (AppError INVALID_ARGUMENT) | Some r \<Rightarrow> Inr r))"

definition discardReferences :: "string \<Rightarrow> interactions \<Rightarrow> interactions" where
  "discardReferences tabId s = Map_delete s tabId"

definition clearReferences :: "interactions \<Rightarrow> nat \<times> interactions" where
  "clearReferences s = (fold (\<lambda>m removed. removed + length m) (Map_values s) 0, [])"

definition assertBusinessReadOnlyTarget :: "web \<Rightarrow> string \<Rightarrow> string \<Rightarrow> unit result" where
  "assertBusinessReadOnlyTarget W target role =
    (case classifyDangerousAction W \<lparr>el_ref = role, el_role = role, el_name = target\<rparr> None of
       None \<Rightarrow> Inr ()
     | Some category \<Rightarrow> Inl (AppError ACTION_BLOCKED_BY_POLICY))"

definition assertBusinessReadOnlyReference :: "web \<Rightarrow> string \<Rightarrow> string \<Rightarrow> interactions \<Rightarrow> unit result" where
  "assertBusinessReadOnlyReference W tabId ref s =
    (case requireReference tabId ref s of
       Inl e \<Rightarrow> Inl e
     | Inr r \<Rightarrow> assertBusinessReadOnlyTarget W (el_role r @ '':'' @ el_name r) (el_role r))"

definition prepareConfirmation :: "web \<Rightarrow> string \<Rightarrow> string option \<Rightarrow> BrowserConfirmationCategory \<Rightarrow> string \<Rightarrow> string \<Rightarrow>
    BrowserConfirmationBinding" where
  "prepareConfirmation W tabId address category action target =
    (let url = (case address of None \<Rightarrow> ''about:blank'' | Some u \<Rightarrow> u);
         origin = (case new_URL W url of None \<Rightarrow> ''null'' | Some u \<Rightarrow> u_origin u)
     in \<lparr>cb_tabId = tabId, cb_origin = origin, cb_url = url, cb_category = category, cb_action = action, cb_target = target\<rparr>)"

definition prepareDangerousAction :: "web \<Rightarrow> page_tab \<Rightarrow> BrowserElementReference \<Rightarrow> string \<Rightarrow> BrowserConfirmationBinding option" where
  "prepareDangerousAction W tab reference action =
    (case classifyDangerousAction W reference (Some tab) of
       None \<Rightarrow> None
     | Some category \<Rightarrow>
         Some (prepareConfirmation W (pt_tabId tab) (pt_url tab) category action (el_role reference @ '':'' @ el_name reference)))"

definition prepareDangerousTarget :: "web \<Rightarrow> page_tab \<Rightarrow> string \<Rightarrow> string \<Rightarrow> string \<Rightarrow> BrowserConfirmationBinding option" where
  "prepareDangerousTarget W tab target action role =
    (case classifyDangerousAction W \<lparr>el_ref = role, el_role = role, el_name = target\<rparr> (Some tab) of
       None \<Rightarrow> None
     | Some category \<Rightarrow> Some (prepareConfirmation W (pt_tabId tab) (pt_url tab) category action target))"

definition pageRiskCategory :: "web \<Rightarrow> page_tab \<Rightarrow> BrowserConfirmationCategory option" where
  "pageRiskCategory W tab = classifyPageContext W (Some tab)"

section \<open>Word expressions\<close>

lemma startsWith_iff: "startsWith s w \<longleftrightarrow> (\<exists>t. s = w @ t)"
  by (metis append_eq_conv_conj append_take_drop_id startsWith_def)

text \<open>The test of a word expression, read off the text: a word stands free.\<close>

theorem has_word_iff:
  "has_word ws s \<longleftrightarrow> (\<exists>l w r. s = l @ w @ r \<and> w \<in> set ws \<and> boundary l (w @ r) \<and> boundary (l @ w) r)"
proof
  assume "has_word ws s"
  then obtain i w where i: "i \<le> length s" "boundary (take i s) (drop i s)" "w \<in> set ws" "startsWith (drop i s) w"
    "boundary (take (i + length w) s) (drop (i + length w) s)"
    by (auto simp: has_word_def word_at_def list_ex_iff less_Suc_eq_le simp del: upt_Suc)
  then obtain r where r: "drop i s = w @ r" by (auto simp: startsWith_iff)
  define l where "l = take i s"
  have s: "s = l @ w @ r" using r append_take_drop_id [of i s] by (simp add: l_def)
  moreover have "length l = i" using i(1) by (simp add: l_def)
  ultimately have "take (i + length w) s = l @ w" "drop (i + length w) s = r" by simp_all
  with i s r show "\<exists>l w r. s = l @ w @ r \<and> w \<in> set ws \<and> boundary l (w @ r) \<and> boundary (l @ w) r"
    unfolding l_def by metis
next
  assume "\<exists>l w r. s = l @ w @ r \<and> w \<in> set ws \<and> boundary l (w @ r) \<and> boundary (l @ w) r"
  then obtain l w r where s: "s = l @ w @ r" "w \<in> set ws" "boundary l (w @ r)" "boundary (l @ w) r" by blast
  then have "word_at ws s (length l)" by (auto simp: word_at_def list_ex_iff startsWith_iff intro!: bexI [of _ w])
  then show "has_word ws s" by (auto simp: has_word_def list_ex_iff s(1) intro!: bexI [of _ "length l"])
qed

section \<open>Reading printed references back\<close>

definition element_line :: "BrowserElementReference \<Rightarrow> string" where
  "element_line r = ''- '' @ el_role r @ '' '' @ CHR 0x22 # el_name r @ CHR 0x22 # '' [ref='' @ el_ref r @ '']''"

definition printable :: "BrowserElementReference \<Rightarrow> bool" where
  "printable r =
    (el_role r \<noteq> [] \<and> ascii_letter (hd (el_role r)) \<and> list_all (\<lambda>c. word_char c \<or> c = CHR ''-'') (el_role r) \<and>
     list_all (\<lambda>c. c \<notin> {CHR 0x0A, CHR 0x0D, CHR ''[''}) (el_name r) \<and> trim (el_name r) = el_name r \<and>
     el_ref r \<noteq> [] \<and> list_all (\<lambda>c. c \<noteq> CHR '']'' \<and> c \<noteq> CHR 0x0A) (el_ref r))"

lemma trim_bare: "s \<noteq> [] \<Longrightarrow> \<not> is_space (hd s) \<Longrightarrow> \<not> is_space (last s) \<Longrightarrow> trim s = s"
  by (simp add: trim_def dropWhile_eq_self_iff [THEN iffD2] hd_rev)

lemma role_chars: "word_char c \<or> c = CHR ''-'' \<Longrightarrow> \<not> is_space c \<and> c \<noteq> CHR ''['' \<and> c \<noteq> CHR ''<'' \<and> c \<noteq> CHR 0x0A"
  by (auto simp: word_char_def ascii_letter_def is_space_def Let_def)

lemma takeWhile_until: "\<forall>x\<in>set xs. P x \<Longrightarrow> \<not> P y \<Longrightarrow> takeWhile P (xs @ y # ys) = xs \<and> dropWhile P (xs @ y # ys) = y # ys"
  by (induction xs) auto

lemma find_ref_after: "CHR ''['' \<notin> set b \<Longrightarrow> ref_here s = Some r \<Longrightarrow> find_ref (b @ s) = Some (b, r)"
proof (induction b)
  case Nil
  then show ?case by (cases s) (auto simp: ref_here_def)
next
  case (Cons c b)
  then have "ref_here (c # b @ s) = None" by (auto simp: ref_here_def startsWith_def)
  with Cons show ?case by simp
qed

lemma strip_state_plain: "CHR ''['' \<notin> set s \<Longrightarrow> strip_state s = s"
proof (induction s)
  case (Cons c s)
  have "\<not> state_tail (c # s)"
  proof
    assume "state_tail (c # s)"
    then obtain r where "state_group (c # s) = Some r" by (auto simp: state_tail.simps split: option.splits)
    then have "startsWith (dropWhile is_space (c # s)) ''[''" by (auto simp: state_group_def Let_def split: if_splits)
    then have "CHR ''['' \<in> set (dropWhile is_space (c # s))" by (auto simp: startsWith_iff)
    with Cons.prems show False by (meson set_dropWhileD)
  qed
  with Cons show ?case by simp
qed simp

lemma parse_element_line:
  assumes "printable r"
  shows "parse_line (element_line r) = Some r"
proof -
  let ?shown = "el_role r @ '' '' @ CHR 0x22 # el_name r @ [CHR 0x22]" and ?ref = "''[ref='' @ el_ref r @ '']''"
  obtain c cs where role: "el_role r = c # cs" "ascii_letter c" "\<And>d. d \<in> set (c # cs) \<Longrightarrow> word_char d \<or> d = CHR ''-''"
    using assms by (cases "el_role r") (auto simp: printable_def list_all_iff)
  have c: "\<not> is_space c" "c \<noteq> CHR ''<''" using role(3) [of c] role_chars [of c] by auto
  have "CHR ''['' \<notin> set (el_role r)" using role(3) [of "CHR ''[''"] role_chars [of "CHR ''[''"] unfolding role(1) by blast
  moreover have names: "\<forall>d \<in> set (el_name r). d \<notin> {CHR 0x0A, CHR 0x0D, CHR ''[''}"
    using assms unfolding printable_def list_all_iff by blast
  then have "CHR ''['' \<notin> set (el_name r)" by blast
  ultimately have plain: "CHR ''['' \<notin> set ?shown" by simp
  have line: "trim (element_line r) = element_line r"
    by (rule trim_bare) (simp_all add: element_line_def is_space_def Let_def)
  have body: "trim (drop 2 (element_line r)) = (?shown @ '' '') @ ?ref"
    using c by (subst trim_bare) (simp_all add: element_line_def role(1) is_space_def Let_def)
  have tag: "strip_tag ((?shown @ '' '') @ ?ref) = (?shown @ '' '') @ ?ref"
    using c by (simp add: strip_tag_def startsWith_def role(1) Let_def)
  have "takeWhile (\<lambda>c. c \<noteq> CHR '']'') (el_ref r @ '']'') = el_ref r"
    using assms by (subst takeWhile_append2) (auto simp: printable_def list_all_iff)
  then have here: "ref_here ?ref = Some (el_ref r)"
    using assms by (simp add: ref_here_def startsWith_def printable_def)
  have found: "find_ref ((?shown @ '' '') @ ?ref) = Some (?shown @ '' '', el_ref r)"
    by (rule find_ref_after [OF _ here]) (use plain in simp)
  have space: "is_space CHR '' ''" "\<not> is_space CHR 0x22" by (simp_all add: is_space_def)
  have before: "trim (?shown @ '' '') = ?shown" "trim ?shown = ?shown"
    using c space by (simp_all add: trim_def role(1))
  have "\<forall>d \<in> set (el_role r). word_char d \<or> d = CHR ''-''" unfolding role(1) using role(3) by blast
  moreover have "\<not> (word_char CHR '' '' \<or> CHR '' '' = CHR ''-'')" by (simp add: word_char_def ascii_letter_def)
  ultimately have role_end: "takeWhile (\<lambda>c. word_char c \<or> c = CHR ''-'') (el_role r @ CHR '' '' # t) = el_role r"
    "dropWhile (\<lambda>c. word_char c \<or> c = CHR ''-'') (el_role r @ CHR '' '' # t) = CHR '' '' # t" for t
    using takeWhile_until [of "el_role r" "\<lambda>c. word_char c \<or> c = CHR ''-''"] by blast+
  have matched: "role_match ?shown = Some (el_role r, CHR 0x22 # el_name r @ [CHR 0x22])"
    using names space assms by (simp add: role_match_def role_end Let_def hd_append list_all_iff) (simp add: printable_def)
  have "trim (CHR 0x22 # el_name r @ [CHR 0x22]) = CHR 0x22 # el_name r @ [CHR 0x22]"
    by (rule trim_bare) (simp_all add: is_space_def Let_def)
  then have name: "trim (unquote (trim (CHR 0x22 # el_name r @ [CHR 0x22]))) = el_name r"
    using assms by (simp add: unquote_def startsWith_def endsWith_def printable_def)
  have start: "startsWith (element_line r) ''- ''" by (simp add: element_line_def startsWith_def)
  show ?thesis
    unfolding parse_line_def line body tag found Let_def
    by (simp add: start before strip_state_plain [OF plain] matched name del: append_assoc append.simps)
qed

text \<open>
  A list of references printed one per line, as \<open>- role "name" [ref=...]\<close>, is read back as it was by \<open>parseElementReferences\<close>,
  provided the roles are words, and no name has a line break or an opening bracket.
\<close>

theorem element_references_round_trip:
  assumes "list_all printable references"
  shows "parseElementReferences (join [CHR 0x0A] (map element_line references)) = references"
proof -
  have clean: "CHR 0x0A \<notin> set (element_line r)" "last (element_line r) \<noteq> CHR 0x0D" if "printable r" for r
  proof -
    have "\<forall>d \<in> set (el_role r). word_char d \<or> d = CHR ''-''" using that unfolding printable_def list_all_iff by blast
    with role_chars [of "CHR 0x0A"] have "CHR 0x0A \<notin> set (el_role r)" by blast
    moreover have "CHR 0x0A \<notin> set (el_name r)" "CHR 0x0A \<notin> set (el_ref r)"
      using that unfolding printable_def list_all_iff by blast+
    ultimately show "CHR 0x0A \<notin> set (element_line r)" by (simp add: element_line_def)
    show "last (element_line r) \<noteq> CHR 0x0D" by (simp add: element_line_def)
  qed
  have lines: "split_on CHR 0x0A (join [CHR 0x0A] (map element_line (r # rs))) = map element_line (r # rs)"
    if "list_all printable (r # rs)" for r rs
    using that
  proof (induction rs arbitrary: r)
    case Nil
    then show ?case using clean by (simp add: join_def split_on_single)
  next
    case (Cons q rs)
    then have "split_on CHR 0x0A (element_line r @ CHR 0x0A # join [CHR 0x0A] (map element_line (q # rs))) = map element_line (r # q # rs)"
      using clean by (subst split_on_append) simp_all
    then show ?case by (simp add: join_def)
  qed
  show ?thesis
  proof (cases references)
    case Nil
    then show ?thesis by (simp add: join_def parseElementReferences_def split_lines_def parse_line_def trim_def startsWith_def map_filter_simps)
  next
    case (Cons r rs)
    let ?ls = "map element_line references"
    have "map (\<lambda>l. if l \<noteq> [] \<and> last l = CHR 0x0D then butlast l else l) (butlast ?ls) = butlast ?ls"
      using assms clean by (intro map_idI) (auto simp: list_all_iff dest!: in_set_butlastD)
    moreover have "split_on CHR 0x0A (join [CHR 0x0A] ?ls) = ?ls" "?ls \<noteq> []" using assms lines [of r rs] by (simp_all add: Cons)
    ultimately have "split_lines (join [CHR 0x0A] ?ls) = ?ls" by (simp add: split_lines_def Let_def)
    moreover have "List.map_filter parse_line ?ls = references"
      using assms by (induction references) (simp_all add: map_filter_simps parse_element_line)
    ultimately show ?thesis by (simp add: parseElementReferences_def)
  qed
qed

definition demo_element :: BrowserElementReference where
  "demo_element = \<lparr>el_ref = ''e1'', el_role = ''button'', el_name = ''Delete account''\<rparr>"

section \<open>The search among the elements\<close>

lemma byScore_le: "byScore a b \<le> 0 \<longleftrightarrow> snd (fst b) < snd (fst a) \<or> snd (fst b) = snd (fst a) \<and> snd a \<le> snd b"
  by (auto simp: byScore_def Let_def)

lemma sort_byScore: "sorted_wrt (\<lambda>a b. snd (fst b) \<le> snd (fst a)) (sort_cmp byScore cs)"
  by (rule sorted_wrt_mono_rel [OF _ sort_cmp_sorted [of byScore]]) (auto simp: byScore_le)

lemma find_candidates_iff:
  "(\<exists>i. ((r, s), i) \<in> set (find_candidates normalized role references)) \<longleftrightarrow>
    r \<in> set references \<and> find_match normalized role r = Some s"
proof -
  have "((r, s), i) \<in> set (find_candidates normalized role references) \<longleftrightarrow>
      (r, i) \<in> set (zip references [0..<length references]) \<and> find_match normalized role r = Some s" for i
    by (force simp: find_candidates_def split: option.splits)
  then show ?thesis by (auto simp: set_zip in_set_conv_nth)
qed

lemma sorted_take_best: "sorted_wrt R xs \<Longrightarrow> x \<in> set xs \<Longrightarrow> x \<notin> set (take n xs) \<Longrightarrow> y \<in> set (take n xs) \<Longrightarrow> R y x"
proof -
  assume a: "sorted_wrt R xs" "x \<in> set xs" "x \<notin> set (take n xs)" "y \<in> set (take n xs)"
  have "xs = take n xs @ drop n xs" by simp
  with a(2,3) have "x \<in> set (drop n xs)" by (metis Un_iff set_append)
  with a(1,4) show "R y x" by (metis append_take_drop_id sorted_wrt_append)
qed

text \<open>
  The search returns at most twenty matches and at most as many as asked for, best score first; a matching
  element is left out only when the result is full and no element in it scores lower.
\<close>

theorem find_elements_best:
  fixes references :: "BrowserElementReference list"
  defines "limit' l \<equiv> (case l of None \<Rightarrow> 10 | Some n \<Rightarrow> n)"
  assumes "found = findBrowserElements references query role limit"
  shows "length found \<le> 20 \<and> sorted_wrt (\<lambda>a b. snd b \<le> snd a) found \<and>
    (\<forall>(r, s) \<in> set found. r \<in> set references \<and> find_match (normalizeFindText query) role r = Some s) \<and>
    (\<forall>r \<in> set references. \<forall>s. find_match (normalizeFindText query) role r = Some s \<and> normalizeFindText query \<noteq> [] \<and> (r, s) \<notin> set found \<longrightarrow>
       length found = nat (min (limit' limit) 20) \<and> (\<forall>p \<in> set found. s \<le> snd p))"
proof (cases "normalizeFindText query = [] \<or> limit' limit < 1")
  case True
  then show ?thesis using assms(2) by (auto simp: findBrowserElements_def limit'_def Let_def)
next
  case False
  define cs where "cs = sort_cmp byScore (find_candidates (normalizeFindText query) role references)"
  let ?n = "nat (min (limit' limit) 20)"
  have found: "found = map fst (take ?n cs)"
    using False assms(2) by (simp add: findBrowserElements_def limit'_def Let_def cs_def)
  have cand: "(\<exists>i. ((r, s), i) \<in> set cs) \<longleftrightarrow> r \<in> set references \<and> find_match (normalizeFindText query) role r = Some s" for r s
    by (simp add: cs_def find_candidates_iff)
  have sorted: "sorted_wrt (\<lambda>a b. snd (fst b) \<le> snd (fst a)) cs" by (simp add: cs_def sort_byScore)
  have "length found \<le> 20" by (simp add: found)
  moreover have "sorted_wrt (\<lambda>a b. snd b \<le> snd a) found"
    using sorted by (simp add: found sorted_wrt_map sorted_wrt_take)
  moreover have "\<forall>(r, s) \<in> set found. r \<in> set references \<and> find_match (normalizeFindText query) role r = Some s"
  proof clarify
    fix r s
    assume "(r, s) \<in> set found"
    then obtain i where "((r, s), i) \<in> set cs" by (auto simp: found dest: in_set_takeD)
    with cand show "r \<in> set references \<and> find_match (normalizeFindText query) role r = Some s" by blast
  qed
  moreover have "length found = ?n \<and> (\<forall>p \<in> set found. s \<le> snd p)"
    if "r \<in> set references" "find_match (normalizeFindText query) role r = Some s" "(r, s) \<notin> set found" for r s
  proof -
    from that(1,2) cand obtain i where i: "((r, s), i) \<in> set cs" by blast
    have out: "((r, s), i) \<notin> set (take ?n cs)" using that(3) imageI [of "((r, s), i)" "set (take ?n cs)" fst] unfolding found by (simp only: set_map fst_conv) blast
    have "\<not> length cs \<le> ?n" using i out by (metis take_all)
    moreover have "s \<le> snd (fst y)" if "y \<in> set (take ?n cs)" for y
      using sorted_take_best [OF sorted i out that] by simp
    ultimately show ?thesis by (auto simp: found)
  qed
  ultimately show ?thesis by blast
qed

end
