(* ===== verification/PersonalActions.thy ===== *)
theory PersonalActions
  imports CanonicalJson BrowserInteraction
begin

text \<open>
  Actions in the user's own browser, \<open>services/mcp-gateway/src/companion/personal-browser-action-policy.ts\<close>. A policy object remembers the
  pages it has seen, the elements of their last snapshots, the confirmations it has issued and the approvals the user gave in the
  browser. A guard looks an action up in what was seen, works out which confirmation the action needs, if any, and asks for
  it. SHA-256, \<open>new URL\<close> and \<open>decodeURIComponent\<close> are parameters. The notifications to the browser are kept as a list.
\<close>

section \<open>State\<close>

datatype grant_scope = TaskGrant string | TabGrant string

record PersonalSiteGrant =
  sg_origin :: string
  sg_category :: string
  sg_scope :: grant_scope

record PersonalSiteApprovals =
  grants :: "PersonalSiteGrant list"
  autoSites :: "string list"

record PersonalSiteApprovalRequest =
  ar_tabId :: string
  ar_origin :: string
  ar_category :: BrowserConfirmationCategory

record personal_page =
  pg_url :: string
  pg_title :: "string option"
  pg_refs :: "string list"
  pg_taskId :: "string option"

record personal =
  confirmations :: browser_confirmations
  interactions :: interactions
  pages :: "(string, personal_page) jsMap"
  siteApprovals :: "PersonalSiteApprovals option"
  requested :: "PersonalSiteApprovalRequest list"

definition new_personal :: personal where
  "new_personal = \<lparr>confirmations = [], interactions = [], pages = [], siteApprovals = None, requested = []\<rparr>"

definition truthy_text :: "string option \<Rightarrow> string option" where
  "truthy_text v = (case v of Some [] \<Rightarrow> None | _ \<Rightarrow> v)"

definition or_else :: "'a option \<Rightarrow> 'a option \<Rightarrow> 'a option" where
  "or_else v w = (case v of None \<Rightarrow> w | Some x \<Rightarrow> Some x)"

section \<open>What the policy is told\<close>

record observed_tab =
  ob_tabId :: string
  ob_url :: "string option"
  ob_taskId :: "string option"
  ob_title :: "string option"

record snapshot_result =
  sn_tabId :: string
  sn_url :: string
  sn_title :: "string option"
  sn_refs :: "BrowserElementReference list"

definition setSiteApprovals :: "PersonalSiteApprovals option \<Rightarrow> personal \<Rightarrow> personal" where
  "setSiteApprovals approvals p = p\<lparr>siteApprovals := approvals\<rparr>"

definition observeTab :: "observed_tab \<Rightarrow> personal \<Rightarrow> personal" where
  "observeTab tab p =
    (case truthy_text (ob_url tab) of
       None \<Rightarrow> p
     | Some url \<Rightarrow>
         let prior = Map_get (pages p) (ob_tabId tab);
             same = (case prior of None \<Rightarrow> False | Some q \<Rightarrow> pg_url q = url);
             references = (if same then interactions p else discardReferences (ob_tabId tab) (interactions p));
             title = or_else (ob_title tab) (if same then Option.bind prior pg_title else None);
             page = \<lparr>pg_url = url, pg_title = truthy_text title,
               pg_refs = (if same then (case prior of None \<Rightarrow> [] | Some q \<Rightarrow> pg_refs q) else []),
               pg_taskId = truthy_text (or_else (ob_taskId tab) (Option.bind prior pg_taskId))\<rparr>
         in p\<lparr>interactions := references, pages := Map_set (pages p) (ob_tabId tab) page\<rparr>)"

definition observeSnapshot :: "snapshot_result \<Rightarrow> personal \<Rightarrow> personal" where
  "observeSnapshot result p =
    (let prior = Map_get (pages p) (sn_tabId result);
         page = \<lparr>pg_url = sn_url result, pg_title = truthy_text (sn_title result), pg_refs = Set_from (map el_ref (sn_refs result)),
           pg_taskId = truthy_text (Option.bind prior pg_taskId)\<rparr>
     in p\<lparr>interactions := captureStructuredReferences (sn_tabId result) (sn_refs result) (interactions p),
          pages := Map_set (pages p) (sn_tabId result) page,
          confirmations := discardTabs [sn_tabId result] (confirmations p)\<rparr>)"

definition personal_discard :: "string list \<Rightarrow> personal \<Rightarrow> personal" where
  "personal_discard tabIds p =
    p\<lparr>confirmations := discardTabs tabIds (confirmations p),
      pages := fold (\<lambda>i m. Map_delete m i) tabIds (pages p),
      interactions := fold discardReferences tabIds (interactions p)\<rparr>"

definition personal_finish :: "string option \<Rightarrow> personal \<Rightarrow> personal" where
  "personal_finish taskId p =
    personal_discard (map fst (filter (\<lambda>(i, entry). truthy_text taskId = None \<or> pg_taskId entry = taskId) (pages p))) p"

definition personal_clear :: "personal \<Rightarrow> personal" where
  "personal_clear p = p\<lparr>confirmations := browser_clear (confirmations p), interactions := snd (clearReferences (interactions p)), pages := [],
     siteApprovals := None\<rparr>"

section \<open>Authorisation\<close>

text \<open>The clock reads of an operation on the confirmations and the identifier it draws.\<close>

record auth_env =
  e_prune :: millis
  e_now :: millis
  e_id :: string

definition PERSONAL_SITE_APPROVABLE_CATEGORIES :: "BrowserConfirmationCategory list" where
  "PERSONAL_SITE_APPROVABLE_CATEGORIES = [SubmitForm, UploadFile, ExecuteScript]"

definition ONE_USE_ACTIONS :: "string list" where
  "ONE_USE_ACTIONS = [''pixel-click'', ''pixel-drag'', ''dialog-accept'']"

primrec category_text :: "BrowserConfirmationCategory \<Rightarrow> string" where
  "category_text SubmitForm = ''submit-form''"
| "category_text PublishContent = ''publish-content''"
| "category_text SendMessage = ''send-message''"
| "category_text DeleteOrCancel = ''delete-or-cancel''"
| "category_text PurchaseOrPayment = ''purchase-or-payment''"
| "category_text ChangeCredentials = ''change-credentials''"
| "category_text AcceptTermsOrContract = ''accept-terms-or-contract''"
| "category_text UploadFile = ''upload-file''"
| "category_text ExecuteScript = ''execute-script''"

definition http_address :: "string \<Rightarrow> bool" where
  "http_address url = (startsWith url ''http://'' \<or> startsWith url ''https://'')"

definition siteApprovable :: "BrowserConfirmationBinding \<Rightarrow> bool" where
  "siteApprovable b =
    (cb_category b \<in> set PERSONAL_SITE_APPROVABLE_CATEGORIES \<and> cb_action b \<notin> set ONE_USE_ACTIONS \<and>
     \<not> startsWith (cb_target b) ''keyboard:'' \<and> http_address (cb_origin b))"

definition grant_covers :: "string option \<Rightarrow> BrowserConfirmationBinding \<Rightarrow> PersonalSiteGrant \<Rightarrow> bool" where
  "grant_covers taskId b g =
    (sg_origin g = cb_origin b \<and> sg_category g = category_text (cb_category b) \<and>
     (case sg_scope g of TaskGrant t \<Rightarrow> Some t = taskId | TabGrant t \<Rightarrow> t = cb_tabId b))"

definition approvedBySite :: "web \<Rightarrow> BrowserConfirmationBinding \<Rightarrow> personal \<Rightarrow> bool result" where
  "approvedBySite W b p =
    (case siteApprovals p of
       None \<Rightarrow> Inr False
     | Some approvals \<Rightarrow>
         if \<not> siteApprovable b then Inr False
         else if list_ex (grant_covers (Option.bind (Map_get (pages p) (cb_tabId b)) pg_taskId) b) (grants approvals) then Inr True
         else (case new_URL W (cb_origin b) of
                 None \<Rightarrow> Inl TypeError
               | Some u \<Rightarrow> Inr (u_hostname u \<in> set (autoSites approvals))))"

definition authorize_action :: "web \<Rightarrow> auth_env \<Rightarrow> string option \<Rightarrow> BrowserConfirmationBinding \<Rightarrow> (personal, unit) op" where
  "authorize_action W e confirmationId b p =
    (case truthy_text confirmationId of
       Some i \<Rightarrow>
         (let (res, c) = browser_consume (e_prune e) (e_now e) i b (confirmations p) in (res, p\<lparr>confirmations := c\<rparr>))
     | None \<Rightarrow>
         (case approvedBySite W b p of
            Inl err \<Rightarrow> (Inl err, p)
          | Inr True \<Rightarrow> (Inr (), p)
          | Inr False \<Rightarrow>
              let (res, c) = browser_create browser_TTL_MS (e_prune e) (e_now e) (e_id e) b (confirmations p);
                  p' = p\<lparr>confirmations := c\<rparr>;
                  p'' = (if siteApprovable b
                    then p'\<lparr>requested := requested p' @ [\<lparr>ar_tabId = cb_tabId b, ar_origin = cb_origin b, ar_category = cb_category b\<rparr>]\<rparr>
                    else p')
              in (Inl (AppError ACTION_REQUIRES_CONFIRMATION), p'')))"

definition requirePage :: "string \<Rightarrow> personal \<Rightarrow> personal_page result" where
  "requirePage tabId p =
    (case Map_get (pages p) tabId of
       None \<Rightarrow> Inl (AppError INVALID_ARGUMENT)
     | Some page \<Rightarrow> if http_address (pg_url page) then Inr page else Inl (AppError INVALID_ARGUMENT))"

definition requireRef :: "string \<Rightarrow> string \<Rightarrow> personal_page \<Rightarrow> personal \<Rightarrow> BrowserElementReference result" where
  "requireRef tabId ref page p =
    (if ref \<notin> set (pg_refs page) then Inl (AppError INVALID_ARGUMENT) else requireReference tabId ref (interactions p))"

definition pageTab :: "string \<Rightarrow> personal_page \<Rightarrow> page_tab" where
  "pageTab tabId page = \<lparr>pt_tabId = tabId, pt_url = Some (pg_url page), pt_title = truthy_text (pg_title page)\<rparr>"

section \<open>Guards\<close>

record PersonalActionGuard =
  g_url :: string
  g_pixel :: "(number \<times> number) option"
  g_element :: "BrowserElementReference option"

definition page_guard :: "personal_page \<Rightarrow> PersonalActionGuard" where
  "page_guard page = \<lparr>g_url = pg_url page, g_pixel = None, g_element = None\<rparr>"

definition element_guard :: "personal_page \<Rightarrow> BrowserElementReference \<Rightarrow> PersonalActionGuard" where
  "element_guard page r = \<lparr>g_url = pg_url page, g_pixel = None, g_element = Some r\<rparr>"

definition pixel_guard :: "personal_page \<Rightarrow> number \<Rightarrow> number \<Rightarrow> PersonalActionGuard" where
  "pixel_guard page x y = \<lparr>g_url = pg_url page, g_pixel = Some (x, y), g_element = None\<rparr>"

text \<open>
  Every guard first looks things up, throwing when they are missing, and then asks for at most one confirmation. Its plan is the
  outcome of the first part: what it returns, and the binding to authorise.
\<close>

type_synonym 'g plan = "('g \<times> BrowserConfirmationBinding option) result"

definition guarded :: "web \<Rightarrow> auth_env \<Rightarrow> string option \<Rightarrow> 'g plan \<Rightarrow> (personal, 'g) op" where
  "guarded W e confirmationId plan p =
    (case plan of
       Inl err \<Rightarrow> (Inl err, p)
     | Inr (g, None) \<Rightarrow> (Inr g, p)
     | Inr (g, Some b) \<Rightarrow>
         (case authorize_action W e confirmationId b p of (Inl err, p') \<Rightarrow> (Inl err, p') | (Inr _, p') \<Rightarrow> (Inr g, p')))"

definition on_page :: "web \<Rightarrow> string \<Rightarrow> personal_page \<Rightarrow> BrowserConfirmationCategory \<Rightarrow> string \<Rightarrow> string \<Rightarrow> BrowserConfirmationBinding" where
  "on_page W tabId page category action target = prepareConfirmation W tabId (Some (pg_url page)) category action target"

definition digest_target :: "(string \<Rightarrow> string) \<Rightarrow> string \<Rightarrow> string" where
  "digest_target sha256 text = ''sha256:'' @ sha256 text"

text \<open>An \<open>undefined\<close> element of an array is printed as \<open>null\<close>.\<close>

definition tree_option :: "string option \<Rightarrow> tree" where
  "tree_option v = (case v of None \<Rightarrow> TNull | Some s \<Rightarrow> TString s)"

subsection \<open>Pages and elements\<close>

definition guardPage :: "string \<Rightarrow> personal \<Rightarrow> PersonalActionGuard result" where
  "guardPage tabId p = then_parse (requirePage tabId p) (\<lambda>page. Inr (page_guard page))"

definition guardReference :: "string \<Rightarrow> string \<Rightarrow> personal \<Rightarrow> PersonalActionGuard result" where
  "guardReference tabId ref p =
    then_parse (requirePage tabId p) (\<lambda>page. then_parse (requireRef tabId ref page p) (\<lambda>r. Inr (element_guard page r)))"

record click_input =
  cl_tabId :: string
  cl_ref :: "string option"
  cl_options :: click_options
  cl_confirmationId :: "string option"

definition click_plan :: "web \<Rightarrow> click_input \<Rightarrow> personal \<Rightarrow> PersonalActionGuard plan" where
  "click_plan W input p =
    then_parse (requirePage (cl_tabId input) p) (\<lambda>page.
      case truthy_text (cl_ref input) of
        None \<Rightarrow> Inl (AppError INVALID_ARGUMENT)
      | Some ref \<Rightarrow> then_parse (requireRef (cl_tabId input) ref page p) (\<lambda>r.
          Inr (element_guard page r,
            prepareDangerousAction W (pageTab (cl_tabId input) page) r (clickAuthorizationAction (cl_options input)))))"

definition guardClick :: "web \<Rightarrow> auth_env \<Rightarrow> click_input \<Rightarrow> (personal, PersonalActionGuard) op" where
  "guardClick W e input p = guarded W e (cl_confirmationId input) (click_plan W input p) p"

record form_input =
  fo_tabId :: string
  fo_ref :: string
  fo_confirmationId :: "string option"

definition form_plan :: "web \<Rightarrow> form_input \<Rightarrow> personal \<Rightarrow> PersonalActionGuard plan" where
  "form_plan W input p =
    then_parse (requirePage (fo_tabId input) p) (\<lambda>page. then_parse (requireRef (fo_tabId input) (fo_ref input) page p) (\<lambda>r.
      Inr (element_guard page r, prepareDangerousAction W (pageTab (fo_tabId input) page) r ''form-input'')))"

definition guardFormInput :: "web \<Rightarrow> auth_env \<Rightarrow> form_input \<Rightarrow> (personal, PersonalActionGuard) op" where
  "guardFormInput W e input p = guarded W e (fo_confirmationId input) (form_plan W input p) p"

definition guardFill :: "string \<Rightarrow> string \<Rightarrow> personal \<Rightarrow> PersonalActionGuard result" where
  "guardFill tabId ref p =
    then_parse (requirePage tabId p) (\<lambda>page. then_parse (requireRef tabId ref page p) (\<lambda>r. Inr (element_guard page r)))"

subsection \<open>Scripts and files\<close>

record evaluate_input =
  ev_tabId :: string
  ev_function :: string
  ev_ref :: "string option"
  ev_confirmationId :: "string option"

text \<open>The reference of the guard is that of the input; its role and name are not in it.\<close>

definition evaluate_plan :: "web \<Rightarrow> (string \<Rightarrow> string) \<Rightarrow> evaluate_input \<Rightarrow> personal \<Rightarrow> (PersonalActionGuard \<times> string option) plan" where
  "evaluate_plan W sha256 input p =
    then_parse (requirePage (ev_tabId input) p) (\<lambda>page.
      then_parse (case truthy_text (ev_ref input) of None \<Rightarrow> Inr None | Some ref \<Rightarrow> then_parse (requireRef (ev_tabId input) ref page p) (\<lambda>r. Inr (Some r))) (\<lambda>_.
        Inr ((page_guard page, truthy_text (ev_ref input)),
          Some (on_page W (ev_tabId input) page ExecuteScript ''evaluate'' (digest_target sha256 (ev_function input))))))"

definition guardEvaluate :: "web \<Rightarrow> (string \<Rightarrow> string) \<Rightarrow> auth_env \<Rightarrow> evaluate_input \<Rightarrow> (personal, PersonalActionGuard \<times> string option) op" where
  "guardEvaluate W sha256 e input p = guarded W e (ev_confirmationId input) (evaluate_plan W sha256 input p) p"

datatype upload_content = Base64 string | Screenshot string

record upload_file =
  uf_name :: string
  uf_mimeType :: "string option"
  uf_content :: upload_content

record upload_input =
  up_tabId :: string
  up_files :: "upload_file list"
  up_triggerRef :: "string option"
  up_inputRef :: "string option"
  up_selector :: "string option"
  up_dropRef :: "string option"
  up_confirmationId :: "string option"

definition file_tree :: "(string \<Rightarrow> string) \<Rightarrow> upload_file \<Rightarrow> tree" where
  "file_tree sha256 f = TArray [TString (uf_name f), tree_option (uf_mimeType f),
     TString (case uf_content f of Base64 c \<Rightarrow> sha256 c | Screenshot path \<Rightarrow> ''screenshot:'' @ path)]"

definition upload_tree :: "(string \<Rightarrow> string) \<Rightarrow> upload_input \<Rightarrow> tree" where
  "upload_tree sha256 input = TArray [tree_option (up_inputRef input), tree_option (up_triggerRef input), tree_option (up_selector input),
     tree_option (up_dropRef input), TArray (map (file_tree sha256) (up_files input))]"

definition upload_plan :: "web \<Rightarrow> (string \<Rightarrow> string) \<Rightarrow> upload_input \<Rightarrow> personal \<Rightarrow> PersonalActionGuard plan" where
  "upload_plan W sha256 input p =
    then_parse (requirePage (up_tabId input) p) (\<lambda>page.
      then_parse (case truthy_text (or_else (up_inputRef input) (or_else (up_triggerRef input) (up_dropRef input))) of
          None \<Rightarrow> Inr (page_guard page)
        | Some ref \<Rightarrow> then_parse (requireRef (up_tabId input) ref page p) (\<lambda>r. Inr (element_guard page r))) (\<lambda>g.
        Inr (g, Some (on_page W (up_tabId input) page UploadFile ''upload'' (digest_target sha256 (render (upload_tree sha256 input)))))))"

definition guardUpload :: "web \<Rightarrow> (string \<Rightarrow> string) \<Rightarrow> auth_env \<Rightarrow> upload_input \<Rightarrow> (personal, PersonalActionGuard) op" where
  "guardUpload W sha256 e input p = guarded W e (up_confirmationId input) (upload_plan W sha256 input p) p"

subsection \<open>Pixels\<close>

definition number_tree :: "number \<Rightarrow> tree" where
  "number_tree n = TNumber (fst n) (snd n)"

definition pixel_click_tree :: "personal_page \<Rightarrow> number \<Rightarrow> number \<Rightarrow> click_options \<Rightarrow> tree" where
  "pixel_click_tree page x y options = TArray [TString (pg_url page), number_tree x, number_tree y,
     TString (case button options of None \<Rightarrow> ''left'' | Some b \<Rightarrow> b), TNumber (case clickCount options of None \<Rightarrow> 1 | Some n \<Rightarrow> n) 0,
     TArray (map TString (sort_cmp cmp_units (case modifiers options of None \<Rightarrow> [] | Some ms \<Rightarrow> ms)))]"

definition pixel_click_plan :: "web \<Rightarrow> (string \<Rightarrow> string) \<Rightarrow> click_input \<Rightarrow> string \<Rightarrow> personal \<Rightarrow> PersonalActionGuard plan" where
  "pixel_click_plan W sha256 input screenshotUrl p =
    (case (truthy_text (cl_ref input), click_x (cl_options input), click_y (cl_options input)) of
       (None, Some x, Some y) \<Rightarrow>
         if \<not> isInteger x \<or> \<not> isInteger y then Inl (AppError INVALID_ARGUMENT)
         else then_parse (requirePage (cl_tabId input) p) (\<lambda>page.
           if pg_url page \<noteq> screenshotUrl then Inl (AppError BROWSER_CONFIRMATION_INVALID)
           else Inr (pixel_guard page x y, Some (on_page W (cl_tabId input) page SubmitForm ''pixel-click''
             (digest_target sha256 (render (pixel_click_tree page x y (cl_options input)))))))
     | _ \<Rightarrow> Inl (AppError INVALID_ARGUMENT))"

definition guardPixelClick :: "web \<Rightarrow> (string \<Rightarrow> string) \<Rightarrow> auth_env \<Rightarrow> click_input \<Rightarrow> string \<Rightarrow> (personal, PersonalActionGuard) op" where
  "guardPixelClick W sha256 e input screenshotUrl p =
    guarded W e (cl_confirmationId input) (pixel_click_plan W sha256 input screenshotUrl p) p"

datatype drag_endpoint = AtRef string | AtPoint number number

record drag_input =
  dr_tabId :: string
  dr_from :: drag_endpoint
  dr_to :: drag_endpoint
  dr_steps :: "int option"
  dr_confirmationId :: "string option"

primrec endpoint_tree :: "drag_endpoint \<Rightarrow> tree" where
  "endpoint_tree (AtRef ref) = TObject [(''ref'', TString ref)]"
| "endpoint_tree (AtPoint x y) = TObject [(''x'', number_tree x), (''y'', number_tree y)]"

definition resolve_endpoint :: "string \<Rightarrow> personal_page \<Rightarrow> personal \<Rightarrow> drag_endpoint \<Rightarrow> PersonalActionGuard result" where
  "resolve_endpoint tabId page p endpoint =
    (case endpoint of
       AtRef ref \<Rightarrow> guardReference tabId ref p
     | AtPoint x y \<Rightarrow> if \<not> isInteger x \<or> \<not> isInteger y then Inl (AppError INVALID_ARGUMENT) else Inr (pixel_guard page x y))"

definition pixel_drag_plan :: "web \<Rightarrow> (string \<Rightarrow> string) \<Rightarrow> drag_input \<Rightarrow> string \<Rightarrow> personal \<Rightarrow>
    (PersonalActionGuard \<times> PersonalActionGuard) plan" where
  "pixel_drag_plan W sha256 input screenshotUrl p =
    then_parse (requirePage (dr_tabId input) p) (\<lambda>page.
      if pg_url page \<noteq> screenshotUrl then Inl (AppError BROWSER_CONFIRMATION_INVALID)
      else then_parse (resolve_endpoint (dr_tabId input) page p (dr_from input)) (\<lambda>fromGuard.
        then_parse (resolve_endpoint (dr_tabId input) page p (dr_to input)) (\<lambda>toGuard.
          if g_pixel fromGuard = None \<and> g_pixel toGuard = None then Inl (AppError INVALID_ARGUMENT)
          else Inr ((fromGuard, toGuard), Some (on_page W (dr_tabId input) page SubmitForm ''pixel-drag''
            (digest_target sha256 (render (TArray [TString (pg_url page), endpoint_tree (dr_from input), endpoint_tree (dr_to input),
              TNumber (case dr_steps input of None \<Rightarrow> 10 | Some n \<Rightarrow> n) 0]))))))))"

definition guardPixelDrag :: "web \<Rightarrow> (string \<Rightarrow> string) \<Rightarrow> auth_env \<Rightarrow> drag_input \<Rightarrow> string \<Rightarrow>
    (personal, PersonalActionGuard \<times> PersonalActionGuard) op" where
  "guardPixelDrag W sha256 e input screenshotUrl p =
    guarded W e (dr_confirmationId input) (pixel_drag_plan W sha256 input screenshotUrl p) p"

definition drag_plan :: "web \<Rightarrow> drag_input \<Rightarrow> personal \<Rightarrow> (PersonalActionGuard \<times> PersonalActionGuard) plan" where
  "drag_plan W input p =
    then_parse (requirePage (dr_tabId input) p) (\<lambda>page.
      case (dr_from input, dr_to input) of
        (AtRef from, AtRef to) \<Rightarrow>
          then_parse (requireRef (dr_tabId input) from page p) (\<lambda>source. then_parse (requireRef (dr_tabId input) to page p) (\<lambda>target.
            let tab = pageTab (dr_tabId input) page;
                category = or_else (map_option cb_category (prepareDangerousAction W tab source ''drag''))
                  (map_option cb_category (prepareDangerousAction W tab target ''drag''));
                label = el_role source @ '':'' @ el_name source @ ''=>'' @ el_role target @ '':'' @ el_name target @ ''|'' @
                  render (TArray [endpoint_tree (dr_from input), endpoint_tree (dr_to input)])
            in Inr ((element_guard page source, element_guard page target),
                 map_option (\<lambda>c. on_page W (dr_tabId input) page c ''drag'' label) category)))
      | _ \<Rightarrow> Inl (AppError INVALID_ARGUMENT))"

definition guardDrag :: "web \<Rightarrow> auth_env \<Rightarrow> drag_input \<Rightarrow> (personal, PersonalActionGuard \<times> PersonalActionGuard) op" where
  "guardDrag W e input p = guarded W e (dr_confirmationId input) (drag_plan W input p) p"

subsection \<open>Keys and dialogs\<close>

record type_input =
  ty_tabId :: string
  ty_text :: string
  ty_submit :: bool
  ty_confirmationId :: "string option"

definition submit_category :: "web \<Rightarrow> string \<Rightarrow> personal_page \<Rightarrow> BrowserConfirmationCategory" where
  "submit_category W tabId page = (case pageRiskCategory W (pageTab tabId page) of None \<Rightarrow> SubmitForm | Some c \<Rightarrow> c)"

definition type_plan :: "web \<Rightarrow> (string \<Rightarrow> string) \<Rightarrow> type_input \<Rightarrow> personal \<Rightarrow> PersonalActionGuard plan" where
  "type_plan W sha256 input p =
    then_parse (requirePage (ty_tabId input) p) (\<lambda>page.
      Inr (page_guard page,
        if ty_submit input
        then Some (on_page W (ty_tabId input) page (submit_category W (ty_tabId input) page) ''type''
          (''keyboard:Enter:sha256:'' @ sha256 (ty_text input)))
        else None))"

definition guardType :: "web \<Rightarrow> (string \<Rightarrow> string) \<Rightarrow> auth_env \<Rightarrow> type_input \<Rightarrow> (personal, PersonalActionGuard) op" where
  "guardType W sha256 e input p = guarded W e (ty_confirmationId input) (type_plan W sha256 input p) p"

record press_input =
  pr_tabId :: string
  pr_key :: string
  pr_repeat :: "int option"
  pr_confirmationId :: "string option"

definition press_plan :: "web \<Rightarrow> press_input \<Rightarrow> personal \<Rightarrow> PersonalActionGuard plan" where
  "press_plan W input p =
    then_parse (validateBrowserKeySequence (pr_key input) (pr_repeat input)) (\<lambda>_.
      then_parse (requirePage (pr_tabId input) p) (\<lambda>page.
        Inr (page_guard page,
          if containsBrowserEnterKey (pr_key input)
          then Some (on_page W (pr_tabId input) page (submit_category W (pr_tabId input) page) ''press'' ''keyboard:Enter'')
          else None)))"

definition guardPress :: "web \<Rightarrow> auth_env \<Rightarrow> press_input \<Rightarrow> (personal, PersonalActionGuard) op" where
  "guardPress W e input p = guarded W e (pr_confirmationId input) (press_plan W input p) p"

datatype dialog_action = Arm | Inspect | Respond | CancelDialog

datatype dialog_response = Accept | Dismiss

datatype dialog_state = Idle | Armed | Open

datatype dialog_type = Alert | ConfirmDialog | Prompt | Beforeunload

primrec dialog_type_text :: "dialog_type \<Rightarrow> string" where
  "dialog_type_text Alert = ''alert''"
| "dialog_type_text ConfirmDialog = ''confirm''"
| "dialog_type_text Prompt = ''prompt''"
| "dialog_type_text Beforeunload = ''beforeunload''"

record dialog_input =
  di_tabId :: string
  di_action :: dialog_action
  di_response :: "dialog_response option"
  di_expectedMessage :: "string option"
  di_promptText :: "string option"
  di_confirmationId :: "string option"

record dialog_result =
  do_state :: dialog_state
  do_dialogType :: "dialog_type option"
  do_message :: "string option"

definition dialog_tree :: "dialog_input \<Rightarrow> dialog_result \<Rightarrow> tree" where
  "dialog_tree input observed = TArray [tree_option (map_option dialog_type_text (do_dialogType observed)), tree_option (do_message observed),
     TString ''accept'', tree_option (di_promptText input)]"

definition dialog_plan :: "web \<Rightarrow> (string \<Rightarrow> string) \<Rightarrow> dialog_input \<Rightarrow> dialog_result \<Rightarrow> personal \<Rightarrow> unit plan" where
  "dialog_plan W sha256 input observed p =
    (if di_action input \<noteq> Respond \<or> di_response input \<noteq> Some Accept \<or> do_dialogType observed = Some Alert then Inr ((), None)
     else if do_state observed \<noteq> Open \<or> do_message observed \<noteq> di_expectedMessage input then Inl (AppError BROWSER_CONFIRMATION_INVALID)
     else then_parse (requirePage (di_tabId input) p) (\<lambda>page.
       Inr ((), Some (on_page W (di_tabId input) page
         (if do_dialogType observed = Some Prompt then SubmitForm else AcceptTermsOrContract) ''dialog-accept''
         (digest_target sha256 (render (dialog_tree input observed)))))))"

definition authorizeDialogResponse :: "web \<Rightarrow> (string \<Rightarrow> string) \<Rightarrow> auth_env \<Rightarrow> dialog_input \<Rightarrow> dialog_result \<Rightarrow> (personal, unit) op" where
  "authorizeDialogResponse W sha256 e input observed p =
    guarded W e (di_confirmationId input) (dialog_plan W sha256 input observed p) p"

subsection \<open>Menu paths\<close>

record navigate_input =
  nv_tabId :: string
  nv_path :: "string list"
  nv_sourceFramePath :: "string list option"
  nv_segments :: "string list list option"
  nv_confirmationId :: "string option"

definition navigate_plan :: "web \<Rightarrow> navigate_input \<Rightarrow> personal \<Rightarrow> bool plan" where
  "navigate_plan W input p =
    then_parse (requirePage (nv_tabId input) p) (\<lambda>page.
      let tab = pageTab (nv_tabId input) page;
          categories = List.map_filter (\<lambda>label.
            map_option cb_category (prepareDangerousTarget W tab label ''legacy-navigate-path'' ''legacy-menu-path'')) (nv_path input);
          frames = (case nv_segments input of
              Some segments \<Rightarrow> map (join ''/'') segments
            | None \<Rightarrow> [join ''/'' (case nv_sourceFramePath input of None \<Rightarrow> [] | Some f \<Rightarrow> f)])
      in case categories of
           [] \<Rightarrow> Inr (False, None)
         | category # _ \<Rightarrow> Inr (True, Some (prepareConfirmation W (pt_tabId tab) (pt_url tab) category ''legacy-navigate-path''
             (join '','' frames @ ''|'' @ join '' > '' (nv_path input)))))"

definition guardNavigatePath :: "web \<Rightarrow> auth_env \<Rightarrow> navigate_input \<Rightarrow> (personal, bool) op" where
  "guardNavigatePath W e input p = guarded W e (nv_confirmationId input) (navigate_plan W input p) p"

subsection \<open>Sequences\<close>

datatype seq_step =
    SNavigate string
  | SClick string click_options "string option"
  | SFill string
  | SPress string "int option" "string option"
  | SHover "string option"
  | SScroll "string option"
  | SDrag drag_endpoint drag_endpoint "int option" "string option"
  | SFormInput string "string option"
  | SType string bool "string option"
  | SWait
  | SExtract

fun interacts :: "seq_step \<Rightarrow> bool" where
  "interacts (SNavigate url) = False"
| "interacts SWait = False"
| "interacts SExtract = False"
| "interacts step = True"

fun navigates :: "seq_step \<Rightarrow> bool" where
  "navigates (SNavigate url) = True"
| "navigates step = False"

definition one_guard :: "PersonalActionGuard result \<times> personal \<Rightarrow> PersonalActionGuard list result \<times> personal" where
  "one_guard r = (case r of (Inl err, p) \<Rightarrow> (Inl err, p) | (Inr g, p) \<Rightarrow> (Inr [g], p))"

definition two_guards :: "(PersonalActionGuard \<times> PersonalActionGuard) result \<times> personal \<Rightarrow> PersonalActionGuard list result \<times> personal" where
  "two_guards r = (case r of (Inl err, p) \<Rightarrow> (Inl err, p) | (Inr (g, h), p) \<Rightarrow> (Inr [g, h], p))"

text \<open>The guards added to a step of a sequence.\<close>

primrec step_guards :: "web \<Rightarrow> (string \<Rightarrow> string) \<Rightarrow> auth_env \<Rightarrow> string \<Rightarrow> seq_step \<Rightarrow> (personal, PersonalActionGuard list) op" where
  "step_guards W sha256 e tabId (SNavigate url) p = (Inr [], p)"
| "step_guards W sha256 e tabId (SClick ref options c) p =
    one_guard (guardClick W e \<lparr>cl_tabId = tabId, cl_ref = Some ref, cl_options = options, cl_confirmationId = c\<rparr> p)"
| "step_guards W sha256 e tabId (SFill ref) p = one_guard (guardFill tabId ref p, p)"
| "step_guards W sha256 e tabId (SPress key repeat c) p =
    one_guard (guardPress W e \<lparr>pr_tabId = tabId, pr_key = key, pr_repeat = repeat, pr_confirmationId = c\<rparr> p)"
| "step_guards W sha256 e tabId (SHover ref) p =
    (case truthy_text ref of None \<Rightarrow> (Inl (AppError INVALID_ARGUMENT), p) | Some r \<Rightarrow> one_guard (guardReference tabId r p, p))"
| "step_guards W sha256 e tabId (SScroll ref) p =
    one_guard (case truthy_text ref of None \<Rightarrow> guardPage tabId p | Some r \<Rightarrow> guardReference tabId r p, p)"
| "step_guards W sha256 e tabId (SDrag from to steps c) p =
    two_guards (guardDrag W e \<lparr>dr_tabId = tabId, dr_from = from, dr_to = to, dr_steps = steps, dr_confirmationId = c\<rparr> p)"
| "step_guards W sha256 e tabId (SFormInput ref c) p =
    one_guard (guardFormInput W e \<lparr>fo_tabId = tabId, fo_ref = ref, fo_confirmationId = c\<rparr> p)"
| "step_guards W sha256 e tabId (SType text submit c) p =
    one_guard (guardType W sha256 e \<lparr>ty_tabId = tabId, ty_text = text, ty_submit = submit, ty_confirmationId = c\<rparr> p)"
| "step_guards W sha256 e tabId SWait p = (Inr [], p)"
| "step_guards W sha256 e tabId SExtract p = (Inr [], p)"

text \<open>The environment of a step is given by the number of steps after it.\<close>

primrec sequence_from :: "web \<Rightarrow> (string \<Rightarrow> string) \<Rightarrow> (nat \<Rightarrow> auth_env) \<Rightarrow> string \<Rightarrow> bool \<Rightarrow> seq_step list \<Rightarrow>
    (personal, (seq_step \<times> PersonalActionGuard list) list) op" where
  "sequence_from W sha256 E tabId hasNavigated [] p = (Inr [], p)"
| "sequence_from W sha256 E tabId hasNavigated (step # steps) p =
    (if hasNavigated \<and> interacts step then (Inl (AppError BROWSER_CAPABILITY_UNSUPPORTED), p)
     else (case step_guards W sha256 (E (length steps)) tabId step p of
       (Inl err, p') \<Rightarrow> (Inl err, p')
     | (Inr gs, p') \<Rightarrow>
         (case sequence_from W sha256 E tabId (hasNavigated \<or> navigates step) steps p' of
            (Inl err, p'') \<Rightarrow> (Inl err, p'')
          | (Inr rest, p'') \<Rightarrow> (Inr ((step, gs) # rest), p''))))"

definition guardSequence :: "web \<Rightarrow> (string \<Rightarrow> string) \<Rightarrow> (nat \<Rightarrow> auth_env) \<Rightarrow> string \<Rightarrow> seq_step list \<Rightarrow>
    (personal, (seq_step \<times> PersonalActionGuard list) list) op" where
  "guardSequence W sha256 E tabId steps p = sequence_from W sha256 E tabId False steps p"

record PersonalLegacyFrameTarget =
  ft_index :: int
  ft_label :: string
  ft_role :: string
  ft_submitLike :: bool

datatype frame_step = FClick "string list option" "string option" | FPress "string list option" string "string option" | FOther

definition frame_scope :: "string list option \<Rightarrow> PersonalLegacyFrameTarget \<Rightarrow> string" where
  "frame_scope framePath target =
    join ''/'' (case framePath of None \<Rightarrow> [] | Some f \<Rightarrow> f) @ ''|'' @ ft_role target @ '':'' @ ft_label target"

definition step_at :: "frame_step list \<Rightarrow> int \<Rightarrow> frame_step option" where
  "step_at steps i = (if 0 \<le> i \<and> i < int (length steps) then Some (steps ! nat i) else None)"

definition frame_category :: "web \<Rightarrow> page_tab \<Rightarrow> PersonalLegacyFrameTarget \<Rightarrow> string \<Rightarrow> bool \<Rightarrow> BrowserConfirmationCategory option" where
  "frame_category W tab target action press =
    or_else (map_option cb_category (prepareDangerousTarget W tab (ft_label target) action (ft_role target)))
      (if ft_submitLike target \<or> press then Some (case pageRiskCategory W tab of None \<Rightarrow> SubmitForm | Some c \<Rightarrow> c) else None)"

text \<open>What one target of the preflight requires: a confirmation identifier, if the step has one, and a binding.\<close>

definition frame_requirement :: "web \<Rightarrow> page_tab \<Rightarrow> frame_step list \<Rightarrow> PersonalLegacyFrameTarget \<Rightarrow>
    (string option \<times> BrowserConfirmationBinding) option result" where
  "frame_requirement W tab steps target =
    (case step_at steps (ft_index target) of
       Some (FClick framePath c) \<Rightarrow>
         Inr (map_option (\<lambda>category. (c, prepareConfirmation W (pt_tabId tab) (pt_url tab) category ''legacy-click'' (frame_scope framePath target)))
           (frame_category W tab target ''legacy-click'' False))
     | Some (FPress framePath key c) \<Rightarrow>
         then_parse (validateBrowserKeySequence key None) (\<lambda>_.
           Inr (map_option (\<lambda>category. (c, prepareConfirmation W (pt_tabId tab) (pt_url tab) category ''legacy-press''
               (''keyboard:Enter|'' @ frame_scope framePath target)))
             (frame_category W tab target ''legacy-press'' True)))
     | _ \<Rightarrow> Inl (AppError RELAY_PROTOCOL_ERROR))"

definition frame_needed :: "web \<Rightarrow> personal \<Rightarrow> (string option \<times> BrowserConfirmationBinding) list \<Rightarrow>
    (string option \<times> BrowserConfirmationBinding) list result" where
  "frame_needed W p required =
    then_parse (mapM (\<lambda>r. if fst r \<noteq> None then Inr [r]
        else then_parse (approvedBySite W (snd r) p) (\<lambda>ok. Inr (if ok then [] else [r]))) required)
      (\<lambda>rs. Inr (concat rs))"

primrec authorize_all :: "web \<Rightarrow> (nat \<Rightarrow> auth_env) \<Rightarrow> (string option \<times> BrowserConfirmationBinding) list \<Rightarrow> (personal, unit) op" where
  "authorize_all W E [] p = (Inr (), p)"
| "authorize_all W E (r # rs) p =
    (case authorize_action W (E (length rs)) (fst r) (snd r) p of (Inl err, p') \<Rightarrow> (Inl err, p') | (Inr _, p') \<Rightarrow> authorize_all W E rs p')"

definition frame_plan :: "web \<Rightarrow> string \<Rightarrow> frame_step list \<Rightarrow> PersonalLegacyFrameTarget list \<Rightarrow> personal \<Rightarrow>
    (string option \<times> BrowserConfirmationBinding) list result" where
  "frame_plan W tabId steps targets p =
    then_parse (requirePage tabId p) (\<lambda>page.
      then_parse (mapM (frame_requirement W (pageTab tabId page) steps) targets) (\<lambda>required.
        frame_needed W p (List.map_filter (\<lambda>r. r) required)))"

definition guardFrameSequence :: "web \<Rightarrow> (nat \<Rightarrow> auth_env) \<Rightarrow> string \<Rightarrow> frame_step list \<Rightarrow> PersonalLegacyFrameTarget list \<Rightarrow> (personal, unit) op" where
  "guardFrameSequence W E tabId steps targets p =
    (case frame_plan W tabId steps targets p of
       Inl err \<Rightarrow> (Inl err, p)
     | Inr needed \<Rightarrow>
         (case find (\<lambda>r. fst r = None) needed of
            None \<Rightarrow> authorize_all W E needed p
          | Some missing \<Rightarrow>
              (case authorize_action W (E (length needed)) None (snd missing) p of
                 (Inl err, p') \<Rightarrow> (Inl err, p')
               | (Inr _, p') \<Rightarrow> authorize_all W E needed p')))"

section \<open>Calls of the policy\<close>

datatype personal_call =
    SetSiteApprovals "PersonalSiteApprovals option"
  | ObserveTab observed_tab
  | ObserveSnapshot snapshot_result
  | Discard "string list"
  | Finish "string option"
  | ClearAll
  | Click click_input
  | FormInput form_input
  | Evaluate evaluate_input
  | Upload upload_input
  | PixelClick click_input string
  | PixelDrag drag_input string
  | Drag drag_input
  | Type type_input
  | Press press_input
  | DialogResponse dialog_input dialog_result
  | NavigatePath navigate_input
  | Sequence string "seq_step list"
  | FrameSequence string "frame_step list" "PersonalLegacyFrameTarget list"

definition finished :: "'a result \<times> personal \<Rightarrow> unit result \<times> personal" where
  "finished r = (then_parse (fst r) (\<lambda>_. Inr ()), snd r)"

primrec personal_exec :: "web \<Rightarrow> (string \<Rightarrow> string) \<Rightarrow> (nat \<Rightarrow> auth_env) \<Rightarrow> personal_call \<Rightarrow> (personal, unit) op" where
  "personal_exec W sha256 E (SetSiteApprovals approvals) p = (Inr (), setSiteApprovals approvals p)"
| "personal_exec W sha256 E (ObserveTab tab) p = (Inr (), observeTab tab p)"
| "personal_exec W sha256 E (ObserveSnapshot result) p = (Inr (), observeSnapshot result p)"
| "personal_exec W sha256 E (Discard tabIds) p = (Inr (), personal_discard tabIds p)"
| "personal_exec W sha256 E (Finish taskId) p = (Inr (), personal_finish taskId p)"
| "personal_exec W sha256 E ClearAll p = (Inr (), personal_clear p)"
| "personal_exec W sha256 E (Click input) p = finished (guardClick W (E 0) input p)"
| "personal_exec W sha256 E (FormInput input) p = finished (guardFormInput W (E 0) input p)"
| "personal_exec W sha256 E (Evaluate input) p = finished (guardEvaluate W sha256 (E 0) input p)"
| "personal_exec W sha256 E (Upload input) p = finished (guardUpload W sha256 (E 0) input p)"
| "personal_exec W sha256 E (PixelClick input url) p = finished (guardPixelClick W sha256 (E 0) input url p)"
| "personal_exec W sha256 E (PixelDrag input url) p = finished (guardPixelDrag W sha256 (E 0) input url p)"
| "personal_exec W sha256 E (Drag input) p = finished (guardDrag W (E 0) input p)"
| "personal_exec W sha256 E (Type input) p = finished (guardType W sha256 (E 0) input p)"
| "personal_exec W sha256 E (Press input) p = finished (guardPress W (E 0) input p)"
| "personal_exec W sha256 E (DialogResponse input observed) p = finished (authorizeDialogResponse W sha256 (E 0) input observed p)"
| "personal_exec W sha256 E (NavigatePath input) p = finished (guardNavigatePath W (E 0) input p)"
| "personal_exec W sha256 E (Sequence tabId steps) p = finished (guardSequence W sha256 E tabId steps p)"
| "personal_exec W sha256 E (FrameSequence tabId steps targets) p = guardFrameSequence W E tabId steps targets p"

text \<open>The state after the first calls of a session, which starts with a new policy.\<close>

primrec personal_run :: "web \<Rightarrow> (string \<Rightarrow> string) \<Rightarrow> ((nat \<Rightarrow> auth_env) \<times> personal_call) list \<Rightarrow> personal \<Rightarrow> personal" where
  "personal_run W sha256 [] p = p"
| "personal_run W sha256 (c # cs) p = personal_run W sha256 cs (snd (personal_exec W sha256 (fst c) (snd c) p))"

definition personal_state :: "web \<Rightarrow> (string \<Rightarrow> string) \<Rightarrow> ((nat \<Rightarrow> auth_env) \<times> personal_call) list \<Rightarrow> nat \<Rightarrow> personal" where
  "personal_state W sha256 cs n = personal_run W sha256 (take n cs) new_personal"

text \<open>The confirmation identifier of a call that guards one action, and the binding its plan asks to be authorised.\<close>

definition demanded :: "string option \<Rightarrow> 'g plan \<Rightarrow> (string option \<times> BrowserConfirmationBinding) option" where
  "demanded c plan = (case plan of Inr (_, Some b) \<Rightarrow> Some (c, b) | _ \<Rightarrow> None)"

fun demand :: "web \<Rightarrow> (string \<Rightarrow> string) \<Rightarrow> personal_call \<Rightarrow> personal \<Rightarrow> (string option \<times> BrowserConfirmationBinding) option" where
  "demand W sha256 (Click input) p = demanded (cl_confirmationId input) (click_plan W input p)"
| "demand W sha256 (FormInput input) p = demanded (fo_confirmationId input) (form_plan W input p)"
| "demand W sha256 (Evaluate input) p = demanded (ev_confirmationId input) (evaluate_plan W sha256 input p)"
| "demand W sha256 (Upload input) p = demanded (up_confirmationId input) (upload_plan W sha256 input p)"
| "demand W sha256 (PixelClick input url) p = demanded (cl_confirmationId input) (pixel_click_plan W sha256 input url p)"
| "demand W sha256 (PixelDrag input url) p = demanded (dr_confirmationId input) (pixel_drag_plan W sha256 input url p)"
| "demand W sha256 (Drag input) p = demanded (dr_confirmationId input) (drag_plan W input p)"
| "demand W sha256 (Type input) p = demanded (ty_confirmationId input) (type_plan W sha256 input p)"
| "demand W sha256 (Press input) p = demanded (pr_confirmationId input) (press_plan W input p)"
| "demand W sha256 (DialogResponse input observed) p = demanded (di_confirmationId input) (dialog_plan W sha256 input observed p)"
| "demand W sha256 (NavigatePath input) p = demanded (nv_confirmationId input) (navigate_plan W input p)"
| "demand W sha256 call p = None"

end
