(* ===== verification/PersonalAuthorization.thy ===== *)
theory PersonalAuthorization
  imports PersonalActions
begin

text \<open>
  What the policy of the user's own browser guarantees: which actions it lets through, that a refusal wastes no confirmation, and that the
  elements it knows are those of the last snapshots.
\<close>

section \<open>Confirmations of the policy\<close>

text \<open>
  What an operation may do to the confirmations: it drops some, and it issues one only when it refuses the action, under an
  identifier it has drawn.
\<close>

definition refusal :: "'a result \<Rightarrow> bool" where
  "refusal r = (r = Inl (AppError ACTION_REQUIRES_CONFIRMATION))"

text \<open>A confirmation that lasts ten minutes, under an identifier drawn by the operation.\<close>

definition drawn :: "(nat \<Rightarrow> auth_env) \<Rightarrow> string \<Rightarrow> BrowserConfirmationBinding PendingConfirmation \<Rightarrow> bool" where
  "drawn E i x = (\<exists>j. i = e_id (E j) \<and> expiresAtMs x = e_now (E j) + browser_TTL_MS)"

definition issues_orderly :: "(nat \<Rightarrow> auth_env) \<Rightarrow> personal \<Rightarrow> 'a result \<times> personal \<Rightarrow> bool" where
  "issues_orderly E p r =
    (Map_ok (confirmations p) \<longrightarrow> Map_ok (confirmations (snd r)) \<and>
      (\<forall>i x. Map_get (confirmations (snd r)) i = Some x \<longrightarrow>
        Map_get (confirmations p) i = Some x \<or> refusal (fst r) \<and> drawn E i x))"

lemma orderly_same: "confirmations (snd r) = confirmations p \<Longrightarrow> issues_orderly E p r"
  by (simp add: issues_orderly_def)

lemma orderly_dropped:
  "confirmations (snd r) = browser_drop d (confirmations p) \<Longrightarrow> issues_orderly E p r"
  unfolding issues_orderly_def
proof (intro impI conjI allI)
  fix i x
  assume c: "confirmations (snd r) = browser_drop d (confirmations p)" and ok: "Map_ok (confirmations p)"
  then show "Map_ok (confirmations (snd r))" using browser.valid_drop by simp
  assume "Map_get (confirmations (snd r)) i = Some x"
  with c ok show "Map_get (confirmations p) i = Some x \<or> refusal (fst r) \<and> drawn E i x"
    by (cases d) (auto simp: browser_confirmation_defs map_model Let_def split: option.splits if_splits)
qed

lemma orderly_then:
  "issues_orderly E p (Inr x, p1) \<Longrightarrow> issues_orderly E p1 r \<Longrightarrow> issues_orderly E p r"
  by (simp add: issues_orderly_def refusal_def) blast

lemma orderly_result: "issues_orderly E p (r, p') \<Longrightarrow> (refusal r \<Longrightarrow> refusal r') \<Longrightarrow> issues_orderly E p (r', p')"
  unfolding issues_orderly_def by auto

lemma authorize_cases:
  assumes "authorize_action W e c b p = (res, p')"
  obtains (used) i q where "truthy_text c = Some i" "browser_consume (e_prune e) (e_now e) i b (confirmations p) = (res, q)"
      "p' = p\<lparr>confirmations := q\<rparr>" "\<not> refusal res"
    | (approved) "truthy_text c = None" "approvedBySite W b p = Inr True" "res = Inr ()" "p' = p"
    | (failed) "truthy_text c = None" "approvedBySite W b p = Inl TypeError" "res = Inl TypeError" "p' = p"
    | (refused) "truthy_text c = None" "approvedBySite W b p = Inr False" "refusal res"
      "confirmations p' = snd (browser_create browser_TTL_MS (e_prune e) (e_now e) (e_id e) b (confirmations p))"
      "pages p' = pages p" "interactions p' = interactions p" "siteApprovals p' = siteApprovals p"
proof -
  have plain: "approvedBySite W b p \<in> {Inr True, Inr False, Inl TypeError}"
    by (auto simp: approvedBySite_def split: option.splits)
  have "\<not> refusal (fst (browser_consume t u i b q))" for t u i q
    by (auto simp: browser_consume_def refusal_def Let_def split: option.splits)
  then have consumed: "browser_consume t u i b q = (res, q') \<Longrightarrow> \<not> refusal res" for t u i q q'
    by (metis fst_conv)
  show thesis
  proof (cases "truthy_text c")
    case (Some i)
    obtain out q where c: "browser_consume (e_prune e) (e_now e) i b (confirmations p) = (out, q)" by fastforce
    with assms Some have "res = out" "p' = p\<lparr>confirmations := q\<rparr>" by (simp_all add: authorize_action_def)
    with used Some c consumed [of "e_prune e" "e_now e" i "confirmations p" q] show thesis by blast
  next
    case None
    from plain consider "approvedBySite W b p = Inr True" | "approvedBySite W b p = Inr False" | "approvedBySite W b p = Inl TypeError" by blast
    then show thesis
    proof cases
      case 2
      have "fst (browser_create browser_TTL_MS (e_prune e) (e_now e) (e_id e) b (confirmations p)) = Inr (e_id e, e_now e + browser_TTL_MS)"
        by (simp add: browser_create_def Let_def)
      with 2 None assms show thesis
        by (intro refused) (auto simp: authorize_action_def Let_def refusal_def split: prod.splits if_splits)
    next
      case 1
      with None assms have "res = Inr ()" "p' = p" by (simp_all add: authorize_action_def)
      with None 1 approved show thesis by blast
    next
      case 3
      with None assms have "res = Inl TypeError" "p' = p" by (simp_all add: authorize_action_def)
      with None 3 failed show thesis by blast
    qed
  qed
qed

lemma authorize_orderly:
  assumes "e = E j"
  shows "issues_orderly E p (authorize_action W e c b p)"
proof -
  obtain res p' where a: "authorize_action W e c b p = (res, p')" by fastforce
  from a show ?thesis
  proof (cases rule: authorize_cases)
    case (used i q)
    then show ?thesis unfolding a
      by (auto simp: issues_orderly_def browser_confirmation_defs map_model Let_def split: option.splits if_splits)
  next
    case refused
    then show ?thesis unfolding a
      by (auto simp: issues_orderly_def drawn_def assms browser_confirmation_defs map_model Let_def split: option.splits if_splits)
  qed (simp_all add: a orderly_same)
qed

lemma authorize_frame:
  assumes "authorize_action W e c b p = (res, p')"
  shows "pages p' = pages p \<and> interactions p' = interactions p"
  using assms by (cases rule: authorize_cases) auto

lemma guarded_cases:
  assumes "guarded W e c plan p = (res, p')"
  obtains (wrong) err where "plan = Inl err" "res = Inl err" "p' = p"
    | (free) g where "plan = Inr (g, None)" "res = Inr g" "p' = p"
    | (asked) g b out where "plan = Inr (g, Some b)" "authorize_action W e c b p = (out, p')"
        "res = then_parse out (\<lambda>_. Inr g)"
proof (cases plan)
  case (Inr q)
  obtain g d where q: "q = (g, d)" by fastforce
  show thesis
  proof (cases d)
    case (Some b)
    obtain out p1 where a: "authorize_action W e c b p = (out, p1)" by fastforce
    with assms Inr q Some have "p' = p1" "res = then_parse out (\<lambda>_. Inr g)"
      by (auto simp: guarded_def split: sum.splits)
    with asked Inr q Some a show thesis by blast
  qed (use assms Inr q free in \<open>simp add: guarded_def\<close>)
qed (use assms wrong in \<open>simp add: guarded_def\<close>)

text \<open>A guard is orderly and leaves what was seen alone.\<close>

definition guards :: "(nat \<Rightarrow> auth_env) \<Rightarrow> personal \<Rightarrow> 'a result \<times> personal \<Rightarrow> bool" where
  "guards E p r = (issues_orderly E p r \<and> pages (snd r) = pages p \<and> interactions (snd r) = interactions p)"

lemma guards_same [simp]: "guards E p (res, p)"
  by (simp add: guards_def orderly_same)

lemma guards_then: "guards E p (Inr x, p1) \<Longrightarrow> guards E p1 r \<Longrightarrow> guards E p r"
  unfolding guards_def by (intro conjI; (elim conjE, erule (1) orderly_then)?) simp_all

lemma guards_result: "guards E p (r, p') \<Longrightarrow> (refusal r \<Longrightarrow> refusal r') \<Longrightarrow> guards E p (r', p')"
proof -
  assume g: "guards E p (r, p')" and r: "refusal r \<Longrightarrow> refusal r'"
  then have "issues_orderly E p (r, p')" by (simp add: guards_def)
  then have "issues_orderly E p (r', p')" by (rule orderly_result) (rule r)
  with g show "guards E p (r', p')" by (simp add: guards_def)
qed

lemma authorize_guards: "guards E p (authorize_action W (E j) c b p)"
proof -
  obtain res p' where a: "authorize_action W (E j) c b p = (res, p')" by fastforce
  with authorize_orderly [of "E j" E j p W c b] authorize_frame [OF a] show ?thesis by (simp add: guards_def)
qed

lemma guarded_guards: "guards E p (guarded W (E j) c plan p)"
proof -
  obtain res p' where g: "guarded W (E j) c plan p = (res, p')" by fastforce
  then have "guards E p (res, p')"
  proof (cases rule: guarded_cases)
    case (asked g b out)
    have "guards E p (out, p')" using authorize_guards [of E p W j c b] asked(2) by simp
    then show ?thesis unfolding asked(3) by (rule guards_result) (simp add: refusal_def)
  qed simp_all
  then show ?thesis by (simp add: g)
qed

lemmas guard_defs = guardClick_def guardFormInput_def guardEvaluate_def guardUpload_def guardPixelClick_def guardPixelDrag_def guardDrag_def
  guardType_def guardPress_def authorizeDialogResponse_def guardNavigatePath_def

lemma guards_wrapped:
  "guards E p r \<Longrightarrow> guards E p (one_guard r)"
  by (cases r; cases "fst r") (auto simp: one_guard_def refusal_def elim: guards_result)

lemma guards_two: "guards E p r \<Longrightarrow> guards E p (two_guards r)"
  by (cases r; cases "fst r") (auto simp: two_guards_def refusal_def elim: guards_result)

lemma guards_finished: "guards E p r \<Longrightarrow> guards E p (finished r)"
  by (cases r; cases "fst r") (auto simp: finished_def refusal_def elim: guards_result)

lemma step_guards_guards: "guards E p (step_guards W sha256 (E j) tabId step p)"
  by (cases step) (auto simp: guard_defs intro!: guards_wrapped guards_two guarded_guards split: option.splits)

lemma sequence_guards: "guards E p (sequence_from W sha256 E tabId n steps p)"
proof (induction steps arbitrary: n p)
  case (Cons step steps)
  obtain out p1 where one: "step_guards W sha256 (E (length steps)) tabId step p = (out, p1)" by fastforce
  obtain rest p2 where two: "sequence_from W sha256 E tabId (n \<or> navigates step) steps p1 = (rest, p2)" by fastforce
  have first: "guards E p (out, p1)" using step_guards_guards [of E p W sha256 "length steps" tabId step] one by simp
  have second: "guards E p1 (rest, p2)" using Cons.IH [of p1 "n \<or> navigates step"] two by simp
  show ?case
  proof (cases out)
    case (Inl err)
    with first one show ?thesis by (auto simp: refusal_def elim: guards_result)
  next
    case (Inr gs)
    from first [unfolded Inr] second have "guards E p (rest, p2)" by (rule guards_then)
    then show ?thesis using one two Inr by (cases rest) (auto simp: refusal_def elim: guards_result)
  qed
qed simp

lemma authorize_all_guards: "guards E p (authorize_all W E rs p)"
proof (induction rs arbitrary: p)
  case (Cons r rs)
  obtain out p1 where one: "authorize_action W (E (length rs)) (fst r) (snd r) p = (out, p1)" by fastforce
  have first: "guards E p (out, p1)" using authorize_guards [of E p W "length rs" "fst r" "snd r"] one by simp
  show ?case
  proof (cases out)
    case (Inl err)
    with first one show ?thesis by simp
  next
    case (Inr x)
    from first [unfolded Inr] Cons.IH [of p1] have "guards E p (authorize_all W E rs p1)" by (rule guards_then)
    with one Inr show ?thesis by simp
  qed
qed simp

lemma frame_guards: "guards E p (guardFrameSequence W E tabId steps targets p)"
proof (cases "frame_plan W tabId steps targets p")
  case (Inr needed)
  show ?thesis
  proof (cases "find (\<lambda>r. fst r = None) needed")
    case None
    with Inr authorize_all_guards show ?thesis by (simp add: guardFrameSequence_def)
  next
    case (Some missing)
    obtain out p1 where one: "authorize_action W (E (length needed)) None (snd missing) p = (out, p1)" by fastforce
    have first: "guards E p (out, p1)" using authorize_guards [of E p W "length needed" None "snd missing"] one by simp
    show ?thesis
    proof (cases out)
      case (Inl err)
      with first Inr Some one show ?thesis by (simp add: guardFrameSequence_def)
    next
      case (Inr x)
      from first [unfolded Inr] authorize_all_guards have "guards E p (authorize_all W E needed p1)" by (rule guards_then)
      with \<open>frame_plan W tabId steps targets p = Inr needed\<close> Some one Inr show ?thesis by (simp add: guardFrameSequence_def)
    qed
  qed
qed (simp add: guardFrameSequence_def)

fun is_guard :: "personal_call \<Rightarrow> bool" where
  "is_guard (SetSiteApprovals a) = False"
| "is_guard (ObserveTab tab) = False"
| "is_guard (ObserveSnapshot result) = False"
| "is_guard (Discard tabIds) = False"
| "is_guard (Finish taskId) = False"
| "is_guard ClearAll = False"
| "is_guard call = True"

lemma exec_guards: "is_guard call \<Longrightarrow> guards E p (personal_exec W sha256 E call p)"
  by (cases call) (auto simp: guard_defs guardSequence_def intro!: guards_finished guarded_guards sequence_guards frame_guards)

lemma exec_orderly: "issues_orderly E p (personal_exec W sha256 E call p)"
proof (cases "is_guard call")
  case True
  then show ?thesis using exec_guards by (auto simp: guards_def)
next
  case False
  then show ?thesis
  proof (cases call)
    case (ObserveTab tab)
    then show ?thesis by (auto simp: observeTab_def Let_def split: option.splits intro!: orderly_same)
  next
    case (ObserveSnapshot result)
    then show ?thesis by (intro orderly_dropped [of _ "DiscardTabs [sn_tabId result]"]) (simp add: observeSnapshot_def Let_def)
  next
    case (Discard tabIds)
    then show ?thesis by (intro orderly_dropped [of _ "DiscardTabs tabIds"]) (simp add: personal_discard_def)
  next
    case (Finish taskId)
    then show ?thesis
      by (intro orderly_dropped [of _ "DiscardTabs (map fst (filter (\<lambda>(i, entry). truthy_text taskId = None \<or> pg_taskId entry = taskId) (pages p)))"])
        (simp add: personal_finish_def personal_discard_def)
  next
    case ClearAll
    then show ?thesis by (intro orderly_dropped [of _ Clear]) (simp add: personal_clear_def)
  qed (simp_all add: setSiteApprovals_def orderly_same)
qed

section \<open>Which actions are let through\<close>

lemma run_append: "personal_run W sha256 (cs @ ds) p = personal_run W sha256 ds (personal_run W sha256 cs p)"
  by (induction cs arbitrary: p) auto

lemma state_0: "personal_state W sha256 cs 0 = new_personal"
  by (simp add: personal_state_def)

lemma state_Suc:
  "n < length cs \<Longrightarrow> personal_state W sha256 cs (Suc n) =
    snd (personal_exec W sha256 (fst (cs ! n)) (snd (cs ! n)) (personal_state W sha256 cs n))"
  by (simp add: personal_state_def take_Suc_conv_app_nth run_append)

lemma state_ok: "n \<le> length cs \<Longrightarrow> Map_ok (confirmations (personal_state W sha256 cs n))"
proof (induction n)
  case 0
  then show ?case by (simp add: state_0 new_personal_def)
next
  case (Suc n)
  with exec_orderly [of "fst (cs ! n)" "personal_state W sha256 cs n" W sha256 "snd (cs ! n)"] show ?case
    by (simp add: state_Suc issues_orderly_def)
qed

text \<open>A pending confirmation goes back to a refused call that drew its identifier, and has been pending since.\<close>

definition refused_at :: "web \<Rightarrow> (string \<Rightarrow> string) \<Rightarrow> ((nat \<Rightarrow> auth_env) \<times> personal_call) list \<Rightarrow> nat \<Rightarrow> bool" where
  "refused_at W sha256 cs m = refusal (fst (personal_exec W sha256 (fst (cs ! m)) (snd (cs ! m)) (personal_state W sha256 cs m)))"

lemma pending_origin:
  assumes "n \<le> length cs" and "Map_get (confirmations (personal_state W sha256 cs n)) i = Some x"
  shows "\<exists>m < n. refused_at W sha256 cs m \<and> drawn (fst (cs ! m)) i x \<and>
    (\<forall>k. m < k \<and> k \<le> n \<longrightarrow> Map_get (confirmations (personal_state W sha256 cs k)) i = Some x)"
  using assms
proof (induction n)
  case 0
  then show ?case by (simp add: state_0 new_personal_def)
next
  case (Suc n)
  let ?s = "personal_state W sha256 cs n"
  have now: "Map_get (confirmations (snd (personal_exec W sha256 (fst (cs ! n)) (snd (cs ! n)) ?s))) i = Some x"
    using Suc.prems by (simp add: state_Suc)
  from exec_orderly [of "fst (cs ! n)" ?s W sha256 "snd (cs ! n)"] state_ok [of n cs W sha256] Suc.prems(1) now
  consider "Map_get (confirmations ?s) i = Some x" | "refused_at W sha256 cs n" "drawn (fst (cs ! n)) i x"
    unfolding issues_orderly_def refused_at_def by auto
  then show ?case
  proof cases
    case 1
    with Suc.IH Suc.prems obtain m where "m < n" "refused_at W sha256 cs m" "drawn (fst (cs ! m)) i x"
      "\<forall>k. m < k \<and> k \<le> n \<longrightarrow> Map_get (confirmations (personal_state W sha256 cs k)) i = Some x" by auto
    with Suc.prems(2) show ?thesis by (intro exI [of _ m]) (auto simp: le_Suc_eq)
  next
    case 2
    with Suc.prems(2) show ?thesis by (intro exI [of _ n]) (auto simp: le_Suc_eq)
  qed
qed

lemma guarded_demand:
  assumes "demanded c plan = Some (c', b)" "guarded W e c plan p = (res, p')"
  shows "c' = c \<and> (\<exists>out. authorize_action W e c b p = (out, p') \<and> (succeeds res \<longrightarrow> out = Inr ()))"
proof -
  from assms(1) obtain g where plan: "plan = Inr (g, Some b)" "c' = c"
    by (auto simp: demanded_def split: sum.splits option.splits)
  from assms(2) show ?thesis
  proof (cases rule: guarded_cases)
    case (asked g' b' out)
    with plan show ?thesis by (cases out) auto
  qed (use plan in simp_all)
qed

lemma finished_demand:
  assumes "demanded c0 plan = Some (c, b)" and "fst (finished (guarded W e c0 plan p)) = Inr ()"
  shows "authorize_action W e c b p = (Inr (), snd (finished (guarded W e c0 plan p)))"
proof -
  obtain res p' where g: "guarded W e c0 plan p = (res, p')" by fastforce
  with assms(2) have "succeeds res" by (cases res) (auto simp: finished_def)
  with guarded_demand [OF assms(1) g] show ?thesis by (simp add: finished_def g)
qed

lemma exec_demand:
  assumes "demand W sha256 call p = Some (c, b)" and "fst (personal_exec W sha256 E call p) = Inr ()"
  shows "authorize_action W (E 0) c b p = (Inr (), snd (personal_exec W sha256 E call p))"
  using assms by (cases call) (auto simp: guard_defs elim: finished_demand)

lemma consumed:
  assumes "Map_ok m" "browser_consume t u i b m = (Inr (), m')"
  shows "\<exists>x. Map_get m i = Some x \<and> binding x = b \<and> u < expiresAtMs x \<and> Map_get m' i = None"
  using assms by (auto simp: browser_confirmation_defs map_model Let_def split: option.splits if_splits)

text \<open>Pixels, dialogs, Enter and the submission of typed text: never approved per site.\<close>

fun one_use_call :: "personal_call \<Rightarrow> bool" where
  "one_use_call (PixelClick input url) = True"
| "one_use_call (PixelDrag input url) = True"
| "one_use_call (DialogResponse input observed) = True"
| "one_use_call (Press input) = True"
| "one_use_call (Type input) = True"
| "one_use_call call = False"

lemma one_use_not_approvable:
  assumes "one_use_call call" and "demand W sha256 call p = Some (c, b)"
  shows "\<not> siteApprovable b"
proof -
  have one_use: "''pixel-click'' \<in> set ONE_USE_ACTIONS" "''pixel-drag'' \<in> set ONE_USE_ACTIONS" "''dialog-accept'' \<in> set ONE_USE_ACTIONS"
    by (simp_all add: ONE_USE_ACTIONS_def)
  have "cb_action b \<in> set ONE_USE_ACTIONS \<or> startsWith (cb_target b) ''keyboard:''"
  proof (cases call)
    case (PixelClick input url)
    with assms(2) one_use show ?thesis
      by (auto simp: demanded_def pixel_click_plan_def then_parse_Inr on_page_def prepareConfirmation_def Let_def
          split: sum.splits option.splits if_splits)
  next
    case (PixelDrag input url)
    with assms(2) one_use show ?thesis
      by (auto simp: demanded_def pixel_drag_plan_def then_parse_Inr on_page_def prepareConfirmation_def Let_def
          split: sum.splits option.splits if_splits)
  next
    case (DialogResponse input observed)
    with assms(2) one_use show ?thesis
      by (auto simp: demanded_def dialog_plan_def then_parse_Inr on_page_def prepareConfirmation_def Let_def
          split: sum.splits option.splits if_splits)
  next
    case (Press input)
    with assms(2) show ?thesis
      by (auto simp: demanded_def press_plan_def then_parse_Inr on_page_def prepareConfirmation_def Let_def startsWith_def
          split: sum.splits option.splits if_splits)
  next
    case (Type input)
    with assms(2) show ?thesis
      by (auto simp: demanded_def type_plan_def then_parse_Inr on_page_def prepareConfirmation_def Let_def startsWith_def
          split: sum.splits option.splits if_splits)
  qed (use assms(1) in simp_all)
  then show ?thesis by (auto simp: siteApprovable_def)
qed

text \<open>
  C7. Authorised actions. In any session with a new policy, let a call guard one action and its plan ask for an authorisation. If the
  call lets the action through, then either the call has no confirmation identifier, the category, action and target are of the kind the user
  may approve per site (a form, a file or a script, and never a pixel action, a dialog, a key or submitted text), and such an approval is in force; or
  the call has an identifier that an earlier call of the session drew when it was refused, and the confirmation has been
  pending since then for exactly this tab, origin, address, category, action and target, is not older than ten minutes,
  and is used up by the call.
\<close>

theorem personal_action_authorised:
  assumes "n < length cs" and "cs ! n = (E, call)" and "demand W sha256 call (personal_state W sha256 cs n) = Some (c, b)"
    and "fst (personal_exec W sha256 E call (personal_state W sha256 cs n)) = Inr ()"
  shows "truthy_text c = None \<and> siteApprovable b \<and> \<not> one_use_call call \<and> approvedBySite W b (personal_state W sha256 cs n) = Inr True \<or>
    (\<exists>i m x j. truthy_text c = Some i \<and> m < n \<and> refused_at W sha256 cs m \<and> i = e_id (fst (cs ! m) j) \<and>
      binding x = b \<and> e_now (E 0) < e_now (fst (cs ! m) j) + browser_TTL_MS \<and>
      (\<forall>k. m < k \<and> k \<le> n \<longrightarrow> Map_get (confirmations (personal_state W sha256 cs k)) i = Some x) \<and>
      Map_get (confirmations (personal_state W sha256 cs (Suc n))) i = None)"
proof -
  let ?s = "personal_state W sha256 cs n"
  have a: "authorize_action W (E 0) c b ?s = (Inr (), personal_state W sha256 cs (Suc n))"
    using exec_demand [OF assms(3,4)] assms(1,2) by (simp add: state_Suc)
  from a show ?thesis
  proof (cases rule: authorize_cases)
    case (used i q)
    from consumed [OF state_ok [OF less_imp_le [OF assms(1)]] used(2)] obtain x where x: "Map_get (confirmations ?s) i = Some x" "binding x = b"
      "e_now (E 0) < expiresAtMs x" "Map_get q i = None" by auto
    from pending_origin [OF less_imp_le [OF assms(1)] x(1)] obtain m where m: "m < n" "refused_at W sha256 cs m" "drawn (fst (cs ! m)) i x"
      "\<forall>k. m < k \<and> k \<le> n \<longrightarrow> Map_get (confirmations (personal_state W sha256 cs k)) i = Some x" by blast
    from m(3) obtain j where j: "i = e_id (fst (cs ! m) j)" "expiresAtMs x = e_now (fst (cs ! m) j) + browser_TTL_MS"
      by (auto simp: drawn_def)
    have "Map_get (confirmations (personal_state W sha256 cs (Suc n))) i = None" using used(3) x(4) by simp
    moreover have "e_now (E 0) < e_now (fst (cs ! m) j) + browser_TTL_MS" using x(3) j(2) by simp
    ultimately show ?thesis using used(1) m(1,2,4) j(1) x(2) by blast
  next
    case approved
    then have "siteApprovable b" by (auto simp: approvedBySite_def split: option.splits if_splits)
    with approved one_use_not_approvable [OF _ assms(3)] show ?thesis by blast
  qed (simp_all add: refusal_def)
qed

section \<open>Refused sequences\<close>

lemma frame_needed_open:
  assumes "frame_needed W p required = Inr needed" "r \<in> set needed" "fst r = None"
  shows "approvedBySite W (snd r) p = Inr False"
proof -
  define f where "f = (\<lambda>r :: string option \<times> BrowserConfirmationBinding. if fst r \<noteq> None then Inr [r] else then_parse (approvedBySite W (snd r) p) (\<lambda>ok. Inr (if ok then [] else [r])))"
  have "mapM f rs = Inr out \<Longrightarrow> r \<in> set (concat out) \<Longrightarrow> \<exists>q \<in> set rs. \<exists>l. f q = Inr l \<and> r \<in> set l" for rs out
    by (induction rs arbitrary: out) (fastforce split: sum.splits)+
  moreover from assms(1) obtain out where "mapM f required = Inr out" "needed = concat out"
    unfolding frame_needed_def f_def [symmetric] then_parse_Inr by auto
  ultimately obtain q l where "f q = Inr l" "r \<in> set l" using assms(2) by blast
  with assms(3) show ?thesis by (auto simp: f_def then_parse_Inr split: if_splits)
qed

text \<open>
  C30. When a step of a frame sequence that needs a confirmation comes without one, the sequence is refused, and no
  confirmation is used up by it: every pending confirmation that has not expired is still pending afterwards.
\<close>

theorem frame_refusal_wastes_nothing:
  assumes "Map_ok (confirmations p)" and "frame_plan W tabId steps targets p = Inr needed" and "list_ex (\<lambda>r. fst r = None) needed"
    and "guardFrameSequence W E tabId steps targets p = (res, p')"
    and "Map_get (confirmations p) i = Some x" and "e_prune (E (length needed)) < expiresAtMs x" and "i \<noteq> e_id (E (length needed))"
  shows "res = Inl (AppError ACTION_REQUIRES_CONFIRMATION) \<and> Map_get (confirmations p') i = Some x"
proof -
  from assms(3) obtain missing where missing: "find (\<lambda>r. fst r = None) needed = Some missing"
    by (cases "find (\<lambda>r. fst r = None) needed") (auto simp: find_None_iff list_ex_iff)
  then have mem: "missing \<in> set needed" "fst missing = None" by (auto simp: find_Some_iff)
  from assms(2) obtain required where "frame_needed W p required = Inr needed" by (auto simp: frame_plan_def then_parse_Inr)
  from frame_needed_open [OF this mem] have denied: "approvedBySite W (snd missing) p = Inr False" .
  obtain out p1 where a: "authorize_action W (E (length needed)) None (snd missing) p = (out, p1)" by fastforce
  then show ?thesis
  proof (cases rule: authorize_cases)
    case refused
    then have "guardFrameSequence W E tabId steps targets p = (Inl (AppError ACTION_REQUIRES_CONFIRMATION), p1)"
      using a assms(2) missing by (simp add: guardFrameSequence_def refusal_def)
    moreover have "Map_get (confirmations p1) i = Some x"
      using refused(4) assms(1,5,6,7) by (simp add: browser_confirmation_defs map_model Let_def)
    ultimately show ?thesis using assms(4) by simp
  qed (use denied in \<open>simp_all add: truthy_text_def\<close>)
qed

section \<open>What was seen\<close>

text \<open>
  The specification of the policy's memory: per tab the address, the task and the elements by reference. A snapshot shows
  elements; another address of the tab, discarding it, finishing its task and clearing forget them.
\<close>

type_synonym sighting = "string \<times> string option \<times> (string \<Rightarrow> BrowserElementReference option)"

definition seen :: "personal \<Rightarrow> string \<Rightarrow> sighting option" where
  "seen p t = map_option (\<lambda>page. (pg_url page, pg_taskId page, case Map_get (interactions p) t of None \<Rightarrow> (\<lambda>_. None) | Some m \<Rightarrow> Map_get m))
     (Map_get (pages p) t)"

definition prior_task :: "sighting option \<Rightarrow> string option" where
  "prior_task v = Option.bind v (\<lambda>(u, k, m). k)"

definition same_page :: "sighting option \<Rightarrow> string \<Rightarrow> string \<Rightarrow> BrowserElementReference option" where
  "same_page v url = (case v of Some (u, k, m) \<Rightarrow> if u = url then m else (\<lambda>_. None) | None \<Rightarrow> (\<lambda>_. None))"

definition spec_discard :: "string set \<Rightarrow> (string \<Rightarrow> sighting option) \<Rightarrow> string \<Rightarrow> sighting option" where
  "spec_discard ts v t = (if t \<in> ts then None else v t)"

fun spec_see :: "personal_call \<Rightarrow> (string \<Rightarrow> sighting option) \<Rightarrow> string \<Rightarrow> sighting option" where
  "spec_see (ObserveTab tab) v =
    (case truthy_text (ob_url tab) of
       None \<Rightarrow> v
     | Some url \<Rightarrow> v(ob_tabId tab \<mapsto> (url, truthy_text (or_else (ob_taskId tab) (prior_task (v (ob_tabId tab)))), same_page (v (ob_tabId tab)) url)))"
| "spec_see (ObserveSnapshot result) v =
    v(sn_tabId result \<mapsto> (sn_url result, truthy_text (prior_task (v (sn_tabId result))), map_of (rev (map (\<lambda>r. (el_ref r, r)) (sn_refs result)))))"
| "spec_see (Discard tabIds) v = spec_discard (set tabIds) v"
| "spec_see (Finish taskId) v =
    spec_discard {t. \<exists>s. v t = Some s \<and> (truthy_text taskId = None \<or> prior_task (Some s) = taskId)} v"
| "spec_see ClearAll v = (\<lambda>_. None)"
| "spec_see call v = v"

text \<open>The references of a page and the elements kept for it agree.\<close>

definition agree :: "personal_page option \<Rightarrow> reference_map option \<Rightarrow> bool" where
  "agree page m = (case page of
      None \<Rightarrow> m = None
    | Some page \<Rightarrow> (\<forall>r. r \<in> set (pg_refs page) \<longleftrightarrow> (\<exists>m'. m = Some m' \<and> Map_get m' r \<noteq> None)))"

definition seen_inv :: "personal \<Rightarrow> bool" where
  "seen_inv p = (Map_ok (pages p) \<and> (\<forall>t. agree (Map_get (pages p) t) (Map_get (interactions p) t)))"

lemma agree_None [simp]: "agree None m \<longleftrightarrow> m = None"
  by (simp add: agree_def)

lemma agree_empty [simp]: "pg_refs page = [] \<Longrightarrow> agree (Some page) None"
  by (simp add: agree_def)

lemma agree_same_refs: "agree (Some page) m \<Longrightarrow> pg_refs page' = pg_refs page \<Longrightarrow> agree (Some page') m"
  by (simp add: agree_def)

lemma seen_frame: "pages q = pages p \<Longrightarrow> interactions q = interactions p \<Longrightarrow> seen q = seen p \<and> seen_inv q = seen_inv p"
  by (simp add: seen_def [abs_def] seen_inv_def)

lemma reference_entries_get: "Map_get (reference_entries rs) r = map_of (rev (map (\<lambda>r. (el_ref r, r)) rs)) r"
  by (simp add: reference_entries_def map_model)

lemma reference_entries_dom: "Map_get (reference_entries rs) r \<noteq> None \<longleftrightarrow> r \<in> set (map el_ref rs)"
  by (force simp: reference_entries_get map_of_eq_None_iff)

lemma snapshot_seen:
  assumes "seen_inv p"
  shows "seen (observeSnapshot result p) = spec_see (ObserveSnapshot result) (seen p) \<and> seen_inv (observeSnapshot result p)"
proof
  let ?q = "observeSnapshot result p"
  have pages: "Map_get (pages ?q) t = (if t = sn_tabId result then Some \<lparr>pg_url = sn_url result, pg_title = truthy_text (sn_title result),
      pg_refs = Set_from (map el_ref (sn_refs result)), pg_taskId = truthy_text (Option.bind (Map_get (pages p) (sn_tabId result)) pg_taskId)\<rparr>
    else Map_get (pages p) t)" for t
    by (simp add: observeSnapshot_def Let_def map_model)
  have elements: "Map_get (interactions ?q) t = (if t = sn_tabId result then Some (reference_entries (sn_refs result)) else Map_get (interactions p) t)" for t
    by (simp add: observeSnapshot_def captureStructuredReferences_def Let_def map_model)
  have task: "prior_task (seen p t) = Option.bind (Map_get (pages p) t) pg_taskId" for t
    by (cases "Map_get (pages p) t") (simp_all add: prior_task_def seen_def)
  show "seen ?q = spec_see (ObserveSnapshot result) (seen p)"
    by (rule ext) (simp add: seen_def pages elements task [unfolded seen_def] fun_eq_iff reference_entries_get)
  have "Map_ok (pages ?q)" using assms by (simp add: seen_inv_def observeSnapshot_def Let_def map_model)
  moreover have "agree (Map_get (pages ?q) t) (Map_get (interactions ?q) t)" for t
    using assms reference_entries_dom by (simp add: seen_inv_def pages elements agree_def [of "Some _" "Some _"])
  ultimately show "seen_inv ?q" by (simp add: seen_inv_def)
qed

lemma tab_seen:
  assumes "seen_inv p"
  shows "seen (observeTab tab p) = spec_see (ObserveTab tab) (seen p) \<and> seen_inv (observeTab tab p)"
proof (cases "truthy_text (ob_url tab)")
  case (Some url)
  let ?q = "observeTab tab p" and ?t = "ob_tabId tab"
  define same where "same = (case Map_get (pages p) ?t of None \<Rightarrow> False | Some q \<Rightarrow> pg_url q = url)"
  obtain page where page: "Map_get (pages ?q) t = (if t = ?t then Some page else Map_get (pages p) t)"
      "pg_url page = url" "pg_taskId page = truthy_text (or_else (ob_taskId tab) (Option.bind (Map_get (pages p) ?t) pg_taskId))"
      "pg_refs page = (if same then (case Map_get (pages p) ?t of None \<Rightarrow> [] | Some q \<Rightarrow> pg_refs q) else [])" for t
    by (simp add: observeTab_def Some Let_def map_model same_def)
  have elements: "Map_get (interactions ?q) t = (if t = ?t \<and> \<not> same then None else Map_get (interactions p) t)" for t
    by (simp add: observeTab_def Some Let_def map_model discardReferences_def same_def)
  have task: "prior_task (seen p ?t) = Option.bind (Map_get (pages p) ?t) pg_taskId"
    by (cases "Map_get (pages p) ?t") (simp_all add: prior_task_def seen_def)
  have kept: "same_page (seen p ?t) url = (if same then (case Map_get (interactions p) ?t of None \<Rightarrow> (\<lambda>_. None) | Some m \<Rightarrow> Map_get m) else (\<lambda>_. None))"
    by (cases "Map_get (pages p) ?t") (simp_all add: same_page_def seen_def same_def)
  have "seen ?q t = spec_see (ObserveTab tab) (seen p) t" for t
    by (simp add: Some task kept) (simp add: seen_def page elements)
  moreover have "agree (Map_get (pages ?q) t) (Map_get (interactions ?q) t)" for t
  proof (cases "t = ?t \<and> same")
    case True
    then obtain q where q: "Map_get (pages p) ?t = Some q" by (auto simp: same_def split: option.splits)
    with assms have "agree (Some q) (Map_get (interactions p) ?t)" unfolding seen_inv_def by metis
    then have "agree (Some page) (Map_get (interactions p) ?t)" by (rule agree_same_refs) (use True q in \<open>simp add: page(4)\<close>)
    with True show ?thesis by (simp add: page(1) elements)
  next
    case False
    with assms show ?thesis by (auto simp: page elements seen_inv_def)
  qed
  moreover have "Map_ok (pages ?q)" using assms by (simp add: observeTab_def Some Let_def seen_inv_def map_model)
  ultimately show ?thesis by (simp add: seen_inv_def fun_eq_iff)
qed (use assms in \<open>simp add: observeTab_def\<close>)

lemma discard_seen:
  assumes "seen_inv p"
  shows "seen (personal_discard ts p) = spec_discard (set ts) (seen p) \<and> seen_inv (personal_discard ts p)"
proof
  have dels: "fold discardReferences ts m = fold (\<lambda>i m. Map_delete m i) ts m" for m
    by (induction ts arbitrary: m) (simp_all add: discardReferences_def)
  have pages: "Map_get (pages (personal_discard ts p)) t = (if t \<in> set ts then None else Map_get (pages p) t)" for t
    by (simp add: personal_discard_def jsm.get_dels)
  have elements: "Map_get (interactions (personal_discard ts p)) t = (if t \<in> set ts then None else Map_get (interactions p) t)" for t
    by (simp add: personal_discard_def dels jsm.get_dels)
  show "seen (personal_discard ts p) = spec_discard (set ts) (seen p)"
    by (rule ext) (simp add: seen_def pages elements spec_discard_def)
  have "Map_ok (pages (personal_discard ts p))" using assms by (simp add: seen_inv_def personal_discard_def jsm.valid_dels)
  with assms show "seen_inv (personal_discard ts p)" by (simp add: seen_inv_def pages elements)
qed

lemma finish_seen:
  assumes "seen_inv p"
  shows "seen (personal_finish taskId p) = spec_see (Finish taskId) (seen p) \<and> seen_inv (personal_finish taskId p)"
proof -
  have ok: "Map_ok (pages p)" using assms by (simp add: seen_inv_def)
  have "set (map fst (filter (\<lambda>(i, entry). truthy_text taskId = None \<or> pg_taskId entry = taskId) (pages p))) =
      {t. \<exists>s. seen p t = Some s \<and> (truthy_text taskId = None \<or> prior_task (Some s) = taskId)}"
  proof (rule set_eqI)
    fix t
    have entries: "(t, entry) \<in> set (pages p) \<longleftrightarrow> Map_get (pages p) t = Some entry" for entry
      using Map_in_set_get [OF ok] Map_get_in_set by metis
    have "t \<in> set (map fst (filter (\<lambda>(i, entry). truthy_text taskId = None \<or> pg_taskId entry = taskId) (pages p))) \<longleftrightarrow>
        (\<exists>entry. (t, entry) \<in> set (pages p) \<and> (truthy_text taskId = None \<or> pg_taskId entry = taskId))" by force
    also have "\<dots> \<longleftrightarrow> t \<in> {t. \<exists>s. seen p t = Some s \<and> (truthy_text taskId = None \<or> prior_task (Some s) = taskId)}"
      unfolding entries by (cases "Map_get (pages p) t") (simp_all add: seen_def prior_task_def)
    finally show "t \<in> set (map fst (filter (\<lambda>(i, entry). truthy_text taskId = None \<or> pg_taskId entry = taskId) (pages p))) \<longleftrightarrow>
        t \<in> {t. \<exists>s. seen p t = Some s \<and> (truthy_text taskId = None \<or> prior_task (Some s) = taskId)}" .
  qed
  with discard_seen [OF assms] show ?thesis by (simp add: personal_finish_def)
qed

lemma exec_seen:
  assumes "seen_inv p"
  shows "seen (snd (personal_exec W sha256 E call p)) = spec_see call (seen p) \<and> seen_inv (snd (personal_exec W sha256 E call p))"
proof (cases "is_guard call")
  case True
  with exec_guards [of call E p W sha256] have "pages (snd (personal_exec W sha256 E call p)) = pages p"
    "interactions (snd (personal_exec W sha256 E call p)) = interactions p" by (simp_all add: guards_def)
  from seen_frame [OF this] assms True show ?thesis by (cases call) auto
next
  case False
  show ?thesis
  proof (cases call)
    case (SetSiteApprovals a)
    with assms seen_frame [of "setSiteApprovals a p" p] show ?thesis by (simp add: setSiteApprovals_def)
  next
    case ClearAll
    have "seen_inv (personal_clear p)" "seen (personal_clear p) = (\<lambda>_. None)"
      by (auto simp: seen_inv_def seen_def personal_clear_def clearReferences_def)
    with ClearAll show ?thesis by simp
  next
    case (ObserveTab tab)
    with tab_seen [OF assms, of tab] show ?thesis by simp
  next
    case (ObserveSnapshot result)
    with snapshot_seen [OF assms, of result] show ?thesis by simp
  next
    case (Discard ts)
    with discard_seen [OF assms, of ts] show ?thesis by simp
  next
    case (Finish taskId)
    with finish_seen [OF assms, of taskId] show ?thesis by simp
  qed (use False in simp_all)
qed

lemma run_seen:
  "seen_inv p \<Longrightarrow> seen (personal_run W sha256 cs p) = fold (\<lambda>c. spec_see (snd c)) cs (seen p) \<and> seen_inv (personal_run W sha256 cs p)"
proof (induction cs arbitrary: p)
  case (Cons c cs)
  from exec_seen [OF Cons.prems, of W sha256 "fst c" "snd c"] Cons.IH show ?case by simp
qed simp

lemma reference_seen:
  assumes "seen_inv p"
  shows "guardReference tabId ref p =
    (case seen p tabId of
       Some (url, task, elements) \<Rightarrow> if http_address url \<and> elements ref \<noteq> None
         then Inr \<lparr>g_url = url, g_pixel = None, g_element = elements ref\<rparr> else Inl (AppError INVALID_ARGUMENT)
     | None \<Rightarrow> Inl (AppError INVALID_ARGUMENT))"
proof (cases "Map_get (pages p) tabId")
  case None
  then show ?thesis by (simp add: guardReference_def requirePage_def seen_def)
next
  case (Some page)
  with assms have "agree (Some page) (Map_get (interactions p) tabId)" unfolding seen_inv_def by metis
  with Some show ?thesis
    by (cases "Map_get (interactions p) tabId")
      (auto simp: guardReference_def requirePage_def requireRef_def requireReference_def seen_def element_guard_def agree_def split: option.splits)
qed

text \<open>
  C31. The memory of the policy refines its specification: after any session the pages and elements it knows are those of the
  specification, and a reference is accepted exactly when it is one of the elements seen in the last snapshot of the tab, whose address is a
  web address and has not changed since; the guard carries that address and the role and name of that element.
\<close>

theorem personal_memory_refines:
  "let memory = fold (\<lambda>c. spec_see (snd c)) cs (\<lambda>_. None); p = personal_run W sha256 cs new_personal
   in seen p = memory \<and>
     guardReference tabId ref p =
       (case memory tabId of
          Some (url, task, elements) \<Rightarrow> if http_address url \<and> elements ref \<noteq> None
            then Inr \<lparr>g_url = url, g_pixel = None, g_element = elements ref\<rparr> else Inl (AppError INVALID_ARGUMENT)
        | None \<Rightarrow> Inl (AppError INVALID_ARGUMENT))"
proof -
  let ?p = "personal_run W sha256 cs new_personal"
  have "seen_inv new_personal" "seen new_personal = (\<lambda>_. None)" by (auto simp: seen_inv_def seen_def new_personal_def)
  with run_seen [of new_personal W sha256 cs] have "seen ?p = fold (\<lambda>c. spec_see (snd c)) cs (\<lambda>_. None)" "seen_inv ?p" by simp_all
  with reference_seen [of ?p tabId ref] show ?thesis by (simp add: Let_def)
qed

section \<open>Concrete sessions\<close>

definition demo_web :: web where
  "demo_web = \<lparr>new_URL = (\<lambda>_. Some \<lparr>u_origin = ''https://example.com'', u_hostname = ''example.com'', u_pathname = ''/account''\<rparr>), decodeURIComponent = Some\<rparr>"

definition demo_times :: "millis \<Rightarrow> nat \<Rightarrow> auth_env" where
  "demo_times t j = \<lparr>e_prune = t, e_now = t, e_id = ''c''\<rparr>"

definition demo_click :: "string option \<Rightarrow> click_input" where
  "demo_click c = \<lparr>cl_tabId = ''t'', cl_ref = Some ''p-1'', cl_options = \<lparr>button = None, clickCount = None, modifiers = None, click_x = None, click_y = None\<rparr>,
     cl_confirmationId = c\<rparr>"

definition demo_button :: BrowserElementReference where
  "demo_button = \<lparr>el_ref = ''p-1'', el_role = ''button'', el_name = ''delete account''\<rparr>"

definition demo_session :: "((nat \<Rightarrow> auth_env) \<times> personal_call) list" where
  "demo_session = [
     (demo_times 0, ObserveSnapshot \<lparr>sn_tabId = ''t'', sn_url = ''https://example.com/account'', sn_title = None,
        sn_refs = [demo_button]\<rparr>),
     (demo_times 1, Click (demo_click None)),
     (demo_times 2, Click (demo_click (Some ''c'')))]"

lemma demo_dangerous: "classifyDangerousAction W demo_button ctx = Some DeleteOrCancel"
proof -
  have "foldText ''button delete account'' = ''button '' @ ''delete'' @ '' account''"
    by (simp add: foldText_def strip_mark_def lower_char_def)
  moreover have "has_word (''delete'' # ws) (''button '' @ ''delete'' @ '' account'')" for ws
    unfolding has_word_iff by (intro exI [of _ "''button ''"] exI [of _ "''delete''"] exI [of _ "'' account''"])
      (simp add: boundary_def word_char_def ascii_letter_def)
  ultimately show ?thesis by (simp add: classifyDangerousAction_def classifyDangerousLabel_def demo_button_def)
qed

definition demo_page :: personal_page where
  "demo_page = \<lparr>pg_url = ''https://example.com/account'', pg_title = None, pg_refs = [''p-1''], pg_taskId = None\<rparr>"

definition demo_seen :: "browser_confirmations \<Rightarrow> personal" where
  "demo_seen c = \<lparr>confirmations = c, interactions = [(''t'', [(''p-1'', demo_button)])], pages = [(''t'', demo_page)], siteApprovals = None, requested = []\<rparr>"

definition demo_action_binding :: BrowserConfirmationBinding where
  "demo_action_binding = \<lparr>cb_tabId = ''t'', cb_origin = ''https://example.com'', cb_url = ''https://example.com/account'', cb_category = DeleteOrCancel,
     cb_action = ''click'', cb_target = ''button:delete account''\<rparr>"

lemma demo_click_plan: "click_plan demo_web (demo_click c) (demo_seen m) = Inr (element_guard demo_page demo_button, Some demo_action_binding)"
proof -
  have "http_address (pg_url demo_page)" by (simp add: http_address_def demo_page_def startsWith_def)
  then have page: "requirePage ''t'' (demo_seen m) = Inr demo_page" by (simp add: requirePage_def demo_seen_def Map_get_def)
  have element: "requireRef ''t'' ''p-1'' demo_page (demo_seen m) = Inr demo_button"
    by (simp add: requireRef_def requireReference_def demo_seen_def demo_page_def Map_get_def)
  have action: "clickAuthorizationAction (cl_options (demo_click c)) = ''click''"
    by (simp add: demo_click_def clickAuthorizationAction_def Set_from_def Let_def)
  have fields: "cl_tabId (demo_click c) = ''t''" "truthy_text (cl_ref (demo_click c)) = Some ''p-1''" by (simp_all add: demo_click_def truthy_text_def)
  have "prepareConfirmation demo_web ''t'' (Some (pg_url demo_page)) DeleteOrCancel ''click'' (el_role demo_button @ '':'' @ el_name demo_button) = demo_action_binding"
    by (simp add: prepareConfirmation_def demo_web_def demo_page_def demo_button_def demo_action_binding_def)
  then have danger: "prepareDangerousAction demo_web (pageTab ''t'' demo_page) demo_button ''click'' = Some demo_action_binding"
    by (simp add: prepareDangerousAction_def demo_dangerous pageTab_def)
  show ?thesis by (simp add: click_plan_def fields page element action danger)
qed

lemma demo_steps:
  "personal_state demo_web id demo_session 1 = demo_seen []"
  "personal_exec demo_web id (demo_times 1) (Click (demo_click None)) (demo_seen []) =
    (Inl (AppError ACTION_REQUIRES_CONFIRMATION), demo_seen [(''c'', \<lparr>binding = demo_action_binding, expiresAtMs = 1 + browser_TTL_MS\<rparr>)])"
  "fst (personal_exec demo_web id (demo_times 2) (Click (demo_click (Some ''c'')))
    (demo_seen [(''c'', \<lparr>binding = demo_action_binding, expiresAtMs = 1 + browser_TTL_MS\<rparr>)])) = Inr ()"
proof -
  have "captureStructuredReferences ''t'' [demo_button] [] = [(''t'', [(''p-1'', demo_button)])]"
    by (simp add: captureStructuredReferences_def reference_entries_def Map_from_def Map_set_def demo_button_def)
  then show "personal_state demo_web id demo_session 1 = demo_seen []"
    by (simp add: personal_state_def demo_session_def observeSnapshot_def new_personal_def demo_seen_def discardTabs_def Map_delete_where_def
        Map_set_def demo_page_def truthy_text_def Set_from_def Set_add_def Let_def) (simp add: demo_button_def)
  have none: "cl_confirmationId (demo_click None) = None" "cl_confirmationId (demo_click (Some i)) = Some i" for i
    by (simp_all add: demo_click_def)
  have "\<not> siteApprovable demo_action_binding" by (simp add: siteApprovable_def demo_action_binding_def PERSONAL_SITE_APPROVABLE_CATEGORIES_def)
  then have "authorize_action demo_web (demo_times 1 0) None demo_action_binding (demo_seen []) =
      (Inl (AppError ACTION_REQUIRES_CONFIRMATION), demo_seen [(''c'', \<lparr>binding = demo_action_binding, expiresAtMs = 1 + browser_TTL_MS\<rparr>)])"
    by (simp add: authorize_action_def approvedBySite_def truthy_text_def browser_create_def browser_pruneExpired_def Map_delete_where_def Map_set_def
        demo_times_def demo_seen_def Let_def)
  then show "personal_exec demo_web id (demo_times 1) (Click (demo_click None)) (demo_seen []) =
    (Inl (AppError ACTION_REQUIRES_CONFIRMATION), demo_seen [(''c'', \<lparr>binding = demo_action_binding, expiresAtMs = 1 + browser_TTL_MS\<rparr>)])"
    by (simp add: guardClick_def guarded_def demo_click_plan none finished_def)
  have "authorize_action demo_web (demo_times 2 0) (Some ''c'') demo_action_binding
      (demo_seen [(''c'', \<lparr>binding = demo_action_binding, expiresAtMs = 1 + browser_TTL_MS\<rparr>)]) = (Inr (), demo_seen [])"
    by (simp add: authorize_action_def truthy_text_def browser_consume_def browser_pruneExpired_def Map_delete_where_def Map_get_def Map_delete_def
        demo_times_def demo_seen_def browser_TTL_MS_def Let_def)
  then show "fst (personal_exec demo_web id (demo_times 2) (Click (demo_click (Some ''c'')))
    (demo_seen [(''c'', \<lparr>binding = demo_action_binding, expiresAtMs = 1 + browser_TTL_MS\<rparr>)])) = Inr ()"
    by (simp add: guardClick_def guarded_def demo_click_plan none finished_def)
qed

lemma demo_state: "personal_state demo_web id demo_session 2 = demo_seen [(''c'', \<lparr>binding = demo_action_binding, expiresAtMs = 1 + browser_TTL_MS\<rparr>)]"
  using demo_steps(1,2) state_Suc [of 1 demo_session demo_web id] by (simp add: demo_session_def numeral_2_eq_2)

theorem personal_action_authorised_witness:
  "\<exists>m < 2. refused_at demo_web id demo_session m \<and> Map_get (confirmations (personal_state demo_web id demo_session 3)) ''c'' = None"
proof -
  have call: "demo_session ! 2 = (demo_times 2, Click (demo_click (Some ''c'')))" "2 < length demo_session" by (simp_all add: demo_session_def)
  have "cl_confirmationId (demo_click (Some ''c'')) = Some ''c''" by (simp add: demo_click_def)
  then have "demand demo_web id (Click (demo_click (Some ''c''))) (personal_state demo_web id demo_session 2) = Some (Some ''c'', demo_action_binding)"
    by (simp add: demo_state demo_click_plan demanded_def)
  moreover have "fst (personal_exec demo_web id (demo_times 2) (Click (demo_click (Some ''c''))) (personal_state demo_web id demo_session 2)) = Inr ()"
    by (simp only: demo_state demo_steps(3))
  ultimately show ?thesis
    using personal_action_authorised [OF call(2,1)] by (fastforce simp: truthy_text_def numeral_3_eq_3)
qed

definition demo_target :: PersonalLegacyFrameTarget where
  "demo_target = \<lparr>ft_index = 0, ft_label = ''delete account'', ft_role = ''button'', ft_submitLike = False\<rparr>"

lemma demo_frame_plan:
  "frame_plan demo_web ''t'' [FClick None None] [demo_target] (demo_seen m) =
    Inr [(None, demo_action_binding\<lparr>cb_action := ''legacy-click'', cb_target := ''|button:delete account''\<rparr>)]"
proof -
  have "http_address (pg_url demo_page)" by (simp add: http_address_def demo_page_def startsWith_def)
  then have page: "requirePage ''t'' (demo_seen m) = Inr demo_page" by (simp add: requirePage_def demo_seen_def Map_get_def)
  have denied: "approvedBySite W b (demo_seen m) = Inr False" for W b by (simp add: approvedBySite_def demo_seen_def)
  have "\<lparr>el_ref = ''button'', el_role = ''button'', el_name = ''delete account''\<rparr> = demo_button\<lparr>el_ref := ''button''\<rparr>" by (simp add: demo_button_def)
  moreover have "classifyDangerousAction W (demo_button\<lparr>el_ref := r\<rparr>) ctx = Some DeleteOrCancel" for W r ctx
    using demo_dangerous [of W ctx] by (simp add: classifyDangerousAction_def Let_def cong: if_cong)
  ultimately have "frame_requirement demo_web (pageTab ''t'' demo_page) [FClick None None] demo_target =
      Inr (Some (None, demo_action_binding\<lparr>cb_action := ''legacy-click'', cb_target := ''|button:delete account''\<rparr>))"
    by (simp add: frame_requirement_def step_at_def demo_target_def frame_category_def prepareDangerousTarget_def or_else_def
        prepareConfirmation_def pageTab_def demo_web_def demo_page_def demo_action_binding_def frame_scope_def join_def)
  then show ?thesis by (simp add: frame_plan_def page frame_needed_def denied map_filter_simps)
qed

theorem frame_refusal_wastes_nothing_witness:
  "list_ex (\<lambda>r. fst r = None) [(None :: string option, demo_action_binding\<lparr>cb_action := ''legacy-click'', cb_target := ''|button:delete account''\<rparr>)] \<and>
   (\<exists>p'. guardFrameSequence demo_web (demo_times 1) ''t'' [FClick None None] [demo_target] (demo_seen [(''d'', \<lparr>binding = demo_action_binding, expiresAtMs = 9\<rparr>)]) =
      (Inl (AppError ACTION_REQUIRES_CONFIRMATION), p') \<and> Map_get (confirmations p') ''d'' = Some \<lparr>binding = demo_action_binding, expiresAtMs = 9\<rparr>)"
proof -
  let ?p = "demo_seen [(''d'', \<lparr>binding = demo_action_binding, expiresAtMs = 9\<rparr>)]"
  obtain res p' where g: "guardFrameSequence demo_web (demo_times 1) ''t'' [FClick None None] [demo_target] ?p = (res, p')" by fastforce
  have "Map_ok (confirmations ?p)" "Map_get (confirmations ?p) ''d'' = Some \<lparr>binding = demo_action_binding, expiresAtMs = 9\<rparr>"
    by (simp_all add: demo_seen_def Map_ok_def Map_get_def)
  from frame_refusal_wastes_nothing [OF this(1) demo_frame_plan _ g this(2)] show ?thesis by (simp add: g demo_times_def)
qed

end
