(* ===== verification/TabReuse.thy ===== *)
theory TabReuse
  imports TabRegistry JsValue
begin

text \<open>
  The choice of a tab to open an address in, \<open>services/browser-worker/domain/browser-tab-reuse.ts\<close>: a tab that is there for the same
  document, or a tab that may be recycled. \<open>href\<close> stands for \<open>new URL(value).href\<close>, \<open>None\<close> when it throws, \<open>without_hash\<close> for the
  address of such a URL with an empty fragment, and \<open>lc\<close> for \<open>localeCompare\<close>.
\<close>

section \<open>Reuse\<close>

definition ABOUT_BLANK_URL :: string where
  "ABOUT_BLANK_URL = ''about:blank''"

record urls =
  href :: "string \<Rightarrow> string option"
  without_hash :: "string \<Rightarrow> string"

record BrowserTabReuseRequest =
  rq_targetUrl :: string
  rq_purpose :: string
  rq_reusable :: bool
  rq_protected :: bool
  rq_sticky :: bool

datatype reuse_source = Locked | Requested | Current | NoSource

record BrowserTabReuseMatch =
  ma_tab :: BrowserTab
  ma_source :: reuse_source
  ma_shouldNavigate :: bool

definition normalizeBrowserUrl :: "urls \<Rightarrow> string \<Rightarrow> string result" where
  "normalizeBrowserUrl U value = (case href U value of None \<Rightarrow> Inl TypeError | Some h \<Rightarrow> Inr h)"

definition browserDocumentIdentity :: "urls \<Rightarrow> string \<Rightarrow> string result" where
  "browserDocumentIdentity U value =
    then_parse (normalizeBrowserUrl U value) (\<lambda>normalized. then_parse (normalizeBrowserUrl U normalized) (\<lambda>h.
      Inr (if h = ABOUT_BLANK_URL then ABOUT_BLANK_URL else without_hash U h)))"

definition normalizedOptional :: "urls \<Rightarrow> string option \<Rightarrow> string option result" where
  "normalizedOptional U value =
    (case value of None \<Rightarrow> Inr None | Some v \<Rightarrow> then_parse (normalizeBrowserUrl U v) (\<lambda>h. Inr (Some h)))"

definition currentUrl :: "urls \<Rightarrow> BrowserTab \<Rightarrow> string result" where
  "currentUrl U tab = normalizeBrowserUrl U (case url tab of None \<Rightarrow> ABOUT_BLANK_URL | Some u \<Rightarrow> u)"

definition isLogicalBlankTab :: "urls \<Rightarrow> BrowserTab \<Rightarrow> bool result" where
  "isLogicalBlankTab U tab =
    then_parse (normalizedOptional U (requestedUrl tab)) (\<lambda>requested.
      case requested of
        Some r \<Rightarrow> Inr (r = ABOUT_BLANK_URL)
      | None \<Rightarrow> then_parse (currentUrl U tab) (\<lambda>c. Inr (c = ABOUT_BLANK_URL)))"

definition sameConfiguration :: "BrowserTab \<Rightarrow> BrowserTabReuseRequest \<Rightarrow> bool" where
  "sameConfiguration tab request =
    (purpose tab = rq_purpose request \<and> reusable tab = rq_reusable request \<and> protected tab = rq_protected request \<and>
     sticky tab = rq_sticky request)"

definition shouldNavigateFromLogicalUrl :: "urls \<Rightarrow> BrowserTab \<Rightarrow> string \<Rightarrow> string \<Rightarrow> bool result" where
  "shouldNavigateFromLogicalUrl U tab logicalUrl targetUrl =
    then_parse (currentUrl U tab) (\<lambda>current.
      Inr (if targetUrl = ABOUT_BLANK_URL then current \<noteq> ABOUT_BLANK_URL
        else if current = ABOUT_BLANK_URL then True
        else logicalUrl \<noteq> targetUrl))"

text \<open>Whether the document of an address, if there is one, is the target's; \<open>&&\<close> does not evaluate what follows a false condition.\<close>

definition same_document :: "urls \<Rightarrow> bool \<Rightarrow> string option \<Rightarrow> string \<Rightarrow> bool result" where
  "same_document U guard address targetDocument =
    (case address of
       Some a \<Rightarrow> if guard then then_parse (browserDocumentIdentity U a) (\<lambda>d. Inr (d = targetDocument)) else Inr False
     | None \<Rightarrow> Inr False)"

definition match_current :: "urls \<Rightarrow> BrowserTab \<Rightarrow> string \<Rightarrow> string \<Rightarrow> string option \<Rightarrow> BrowserTabReuseMatch option result" where
  "match_current U tab target targetDocument requested =
    then_parse (currentUrl U tab) (\<lambda>current.
      then_parse (same_document U (current \<noteq> ABOUT_BLANK_URL \<or> requested = None \<or> requested = Some ABOUT_BLANK_URL) (Some current) targetDocument) (\<lambda>found.
        Inr (if found then Some \<lparr>ma_tab = tab, ma_source = Current, ma_shouldNavigate = current \<noteq> target\<rparr> else None)))"

definition matchTabTarget :: "urls \<Rightarrow> BrowserTab \<Rightarrow> string \<Rightarrow> BrowserTabReuseMatch option result" where
  "matchTabTarget U tab targetUrl =
    then_parse (normalizeBrowserUrl U targetUrl) (\<lambda>target. then_parse (browserDocumentIdentity U target) (\<lambda>targetDocument.
      then_parse (normalizedOptional U (lockedUrl tab)) (\<lambda>locked. then_parse (same_document U (sticky tab) locked targetDocument) (\<lambda>isLocked.
        if isLocked then then_parse (shouldNavigateFromLogicalUrl U tab (the locked) target) (\<lambda>n.
          Inr (Some \<lparr>ma_tab = tab, ma_source = Locked, ma_shouldNavigate = n\<rparr>))
        else then_parse (normalizedOptional U (requestedUrl tab)) (\<lambda>requested. then_parse (same_document U True requested targetDocument) (\<lambda>isRequested.
          if isRequested then then_parse (shouldNavigateFromLogicalUrl U tab (the requested) target) (\<lambda>n.
            Inr (Some \<lparr>ma_tab = tab, ma_source = Requested, ma_shouldNavigate = n\<rparr>))
          else match_current U tab target targetDocument requested))))))"

primrec sourceRank :: "reuse_source \<Rightarrow> int" where
  "sourceRank Locked = 0"
| "sourceRank Requested = 0"
| "sourceRank Current = 1"
| "sourceRank NoSource = 2"

text \<open>The addresses of the tab were normalised before the matches are sorted, so that ranking does not throw.\<close>

definition recyclableRank :: "urls \<Rightarrow> BrowserTabReuseMatch \<Rightarrow> int" where
  "recyclableRank U m =
    (if ma_source m \<noteq> NoSource then 0
     else if purpose (ma_tab m) = ''mcp-default'' \<and> isLogicalBlankTab U (ma_tab m) = Inr True then 1
     else 2)"

definition compareExactMatches :: "(string \<Rightarrow> string \<Rightarrow> int) \<Rightarrow> BrowserTabReuseMatch \<Rightarrow> BrowserTabReuseMatch \<Rightarrow> int" where
  "compareExactMatches lc l r =
    or_number (sourceRank (ma_source l) - sourceRank (ma_source r))
      (or_number (lc (tab_lastUsedAt (ma_tab r)) (tab_lastUsedAt (ma_tab l))) (lc (tabId (ma_tab l)) (tabId (ma_tab r))))"

definition compareRecyclableMatches :: "urls \<Rightarrow> (string \<Rightarrow> string \<Rightarrow> int) \<Rightarrow> BrowserTabReuseMatch \<Rightarrow> BrowserTabReuseMatch \<Rightarrow> int" where
  "compareRecyclableMatches U lc l r =
    or_number (recyclableRank U l - recyclableRank U r)
      (or_number (lc (tab_lastUsedAt (ma_tab l)) (tab_lastUsedAt (ma_tab r))) (lc (tabId (ma_tab l)) (tabId (ma_tab r))))"

definition first_of :: "'a list \<Rightarrow> 'a option" where
  "first_of xs = (case xs of [] \<Rightarrow> None | x # _ \<Rightarrow> Some x)"

definition selectExactTabReuse :: "urls \<Rightarrow> (string \<Rightarrow> string \<Rightarrow> int) \<Rightarrow> BrowserTab list \<Rightarrow> BrowserTabReuseRequest \<Rightarrow>
    BrowserTabReuseMatch option result" where
  "selectExactTabReuse U lc tabs request =
    then_parse (mapM (\<lambda>tab. matchTabTarget U tab (rq_targetUrl request)) (filter (\<lambda>tab. sameConfiguration tab request) tabs)) (\<lambda>matches.
      Inr (first_of (sort_cmp (compareExactMatches lc) (List.map_filter (\<lambda>m. m) matches))))"

definition recyclable :: "BrowserTab \<Rightarrow> bool" where
  "recyclable tab = (reusable tab \<and> \<not> protected tab \<and> \<not> sticky tab)"

definition recyclable_match :: "urls \<Rightarrow> string \<Rightarrow> BrowserTab \<Rightarrow> BrowserTabReuseMatch result" where
  "recyclable_match U targetUrl tab =
    then_parse (matchTabTarget U tab targetUrl) (\<lambda>m. case m of
        Some targetMatch \<Rightarrow> Inr targetMatch
      | None \<Rightarrow> then_parse (currentUrl U tab) (\<lambda>current.
          Inr \<lparr>ma_tab = tab, ma_source = NoSource, ma_shouldNavigate = current \<noteq> targetUrl\<rparr>))"

definition selectRecyclableTab :: "urls \<Rightarrow> (string \<Rightarrow> string \<Rightarrow> int) \<Rightarrow> BrowserTab list \<Rightarrow> BrowserTabReuseRequest \<Rightarrow>
    BrowserTabReuseMatch option result" where
  "selectRecyclableTab U lc tabs request =
    then_parse (mapM (recyclable_match U (rq_targetUrl request)) (filter recyclable tabs)) (\<lambda>matches.
      Inr (first_of (sort_cmp (compareRecyclableMatches U lc) matches)))"

section \<open>Properties of the choice\<close>

lemma matchTabTarget_tab: "matchTabTarget U tab targetUrl = Inr (Some m) \<Longrightarrow> ma_tab m = tab \<and> ma_source m \<noteq> NoSource"
  by (auto simp: matchTabTarget_def match_current_def then_parse_Inr split: if_splits)

lemma first_of_None [simp]: "first_of xs = None \<longleftrightarrow> xs = []"
  by (cases xs) (simp_all add: first_of_def)

lemma first_of_Some: "first_of xs = Some x \<longleftrightarrow> (\<exists>rest. xs = x # rest)"
  by (cases xs) (auto simp: first_of_def)

lemma exact_comparison: "comparison lc \<Longrightarrow> comparison (compareExactMatches lc)"
proof -
  assume lc: "comparison lc"
  have "comparison (\<lambda>l r. sourceRank (ma_source l) - sourceRank (ma_source r))" by (rule comparison_minus)
  note comparison_or [OF this comparison_or [OF comparison_by [OF comparison_flip [OF lc], of "\<lambda>m. tab_lastUsedAt (ma_tab m)"]
    comparison_by [OF lc, of "\<lambda>m. tabId (ma_tab m)"]]]
  then show ?thesis by (simp add: compareExactMatches_def [abs_def])
qed

lemma recyclable_comparison: "comparison lc \<Longrightarrow> comparison (compareRecyclableMatches U lc)"
proof -
  assume lc: "comparison lc"
  have "comparison (\<lambda>l r. recyclableRank U l - recyclableRank U r)" by (rule comparison_minus)
  note comparison_or [OF this comparison_or [OF comparison_by [OF lc, of "\<lambda>m. tab_lastUsedAt (ma_tab m)"]
    comparison_by [OF lc, of "\<lambda>m. tabId (ma_tab m)"]]]
  then show ?thesis by (simp add: compareRecyclableMatches_def [abs_def])
qed

lemma set_present: "m \<in> set (List.map_filter (\<lambda>m. m) ms) \<longleftrightarrow> Some m \<in> set ms"
  by (induction ms) (auto simp: map_filter_simps split: option.splits)

text \<open>
  Exact reuse. When no address throws, the choice is a best match: a match of a tab with the configuration asked for, such
  that no match of such a tab comes before it in the order of sources, then of last use, latest first, then of identifiers; and there is
  no choice exactly when no such tab matches.
\<close>

theorem exact_reuse_best:
  assumes "comparison lc" and "selectExactTabReuse U lc tabs request = Inr choice"
  shows "case choice of
      Some m \<Rightarrow> ma_tab m \<in> set tabs \<and> sameConfiguration (ma_tab m) request \<and> matchTabTarget U (ma_tab m) (rq_targetUrl request) = Inr (Some m) \<and>
        (\<forall>t \<in> set tabs. \<forall>m'. sameConfiguration t request \<and> matchTabTarget U t (rq_targetUrl request) = Inr (Some m') \<longrightarrow> compareExactMatches lc m m' \<le> 0)
    | None \<Rightarrow> (\<forall>t \<in> set tabs. sameConfiguration t request \<longrightarrow> matchTabTarget U t (rq_targetUrl request) = Inr None)"
proof -
  define ts where "ts = filter (\<lambda>tab. sameConfiguration tab request) tabs"
  from assms(2) obtain ms where ms: "mapM (\<lambda>tab. matchTabTarget U tab (rq_targetUrl request)) ts = Inr ms"
    "choice = first_of (sort_cmp (compareExactMatches lc) (List.map_filter (\<lambda>m. m) ms))"
    by (auto simp: selectExactTabReuse_def then_parse_Inr ts_def)
  have all: "\<exists>r. matchTabTarget U t (rq_targetUrl request) = Inr r" if "t \<in> set ts" for t
    using that ms(1) by (induction ts arbitrary: ms) (auto split: sum.splits)
  have found: "m \<in> set (List.map_filter (\<lambda>m. m) ms) \<longleftrightarrow> (\<exists>t \<in> set ts. matchTabTarget U t (rq_targetUrl request) = Inr (Some m))" for m
    using mapM_members [OF ms(1)] by (simp add: set_present)
  show ?thesis
  proof (cases choice)
    case None
    with ms(2) have "List.map_filter (\<lambda>m. m) ms = []" by (metis first_of_None sort_Nil)
    with found have "matchTabTarget U t (rq_targetUrl request) \<noteq> Inr (Some m)" if "t \<in> set ts" for t m using that by auto
    with all have "matchTabTarget U t (rq_targetUrl request) = Inr None" if "t \<in> set ts" for t using that by (metis not_None_eq)
    with None show ?thesis by (simp add: ts_def)
  next
    case (Some m)
    with ms(2) obtain rest where "sort_cmp (compareExactMatches lc) (List.map_filter (\<lambda>m. m) ms) = m # rest" by (metis first_of_Some)
    from sort_first [OF exact_comparison [OF assms(1)] this]
    have best: "m \<in> set (List.map_filter (\<lambda>m. m) ms)" "\<And>m'. m' \<in> set (List.map_filter (\<lambda>m. m) ms) \<Longrightarrow> compareExactMatches lc m m' \<le> 0" by blast+
    from best(1) found obtain t where t: "t \<in> set ts" "matchTabTarget U t (rq_targetUrl request) = Inr (Some m)" by blast
    then have "ma_tab m = t" using matchTabTarget_tab by blast
    with t best(2) found Some show ?thesis by (auto simp: ts_def)
  qed
qed

lemma match_normalised:
  assumes "matchTabTarget U tab targetUrl = Inr None"
  shows "\<exists>b. isLogicalBlankTab U tab = Inr b"
  using assms
  by (auto simp: matchTabTarget_def match_current_def isLogicalBlankTab_def then_parse_Inr split: if_splits option.splits)

text \<open>The ranking of candidates does not throw.\<close>

lemma ranking_defined:
  assumes "recyclable_match U targetUrl tab = Inr m" and "ma_source m = NoSource"
  shows "\<exists>b. isLogicalBlankTab U (ma_tab m) = Inr b"
proof -
  from assms(1) obtain r where r: "matchTabTarget U tab targetUrl = Inr r" by (auto simp: recyclable_match_def then_parse_Inr)
  show ?thesis
  proof (cases r)
    case None
    with r assms(1) have "ma_tab m = tab" by (auto simp: recyclable_match_def then_parse_Inr)
    with match_normalised [of U tab targetUrl] r None show ?thesis by simp
  next
    case (Some m')
    with r assms matchTabTarget_tab [of U tab targetUrl m'] show ?thesis by (simp add: recyclable_match_def)
  qed
qed

text \<open>
  Recycling. A tab registry that starts with well-formed tabs never offers a tab of the user, a protected or a sticky tab for
  recycling, whatever calls it has seen. When no address throws, a tab is chosen exactly when there is one that may be recycled, and the choice is
  best: tabs with the document asked for come first, then the default blank tabs, then those used the longest time ago.
\<close>

theorem recycling_spares_user_tabs:
  assumes "comparison lc" and "list_all tab_ok ts"
    and "selectRecyclableTab U lc (Map_values (tab_run cs (new_tab_registry ts))) request = Inr choice"
  shows "case choice of
      Some m \<Rightarrow> ma_tab m \<in> set (Map_values (tab_run cs (new_tab_registry ts))) \<and> ownership (ma_tab m) \<noteq> OwnedByUser \<and>
        reusable (ma_tab m) \<and> \<not> protected (ma_tab m) \<and> \<not> sticky (ma_tab m) \<and>
        (\<forall>t \<in> set (Map_values (tab_run cs (new_tab_registry ts))). \<forall>m'. recyclable t \<and> recyclable_match U (rq_targetUrl request) t = Inr m' \<longrightarrow>
          compareRecyclableMatches U lc m m' \<le> 0)
    | None \<Rightarrow> (\<forall>t \<in> set (Map_values (tab_run cs (new_tab_registry ts))). \<not> recyclable t)"
proof -
  let ?reg = "tab_run cs (new_tab_registry ts)"
  have ok: "tabs_ok ?reg" by (intro tab_run_ok new_tab_registry_ok assms(2))
  then have user: "ownership t \<noteq> OwnedByUser" if "t \<in> set (Map_values ?reg)" "recyclable t" for t
    using that Map_values_get [of ?reg t] by (auto simp: tabs_ok_def tab_ok_def recyclable_def)
  from assms(3) obtain ms where ms: "mapM (recyclable_match U (rq_targetUrl request)) (filter recyclable (Map_values ?reg)) = Inr ms"
    "choice = first_of (sort_cmp (compareRecyclableMatches U lc) ms)"
    by (auto simp: selectRecyclableTab_def then_parse_Inr)
  show ?thesis
  proof (cases choice)
    case None
    with ms have "mapM (recyclable_match U (rq_targetUrl request)) (filter recyclable (Map_values ?reg)) = Inr []"
      by (metis first_of_None sort_Nil)
    then have "filter recyclable (Map_values ?reg) = []" by (cases "filter recyclable (Map_values ?reg)") (auto split: sum.splits)
    with None show ?thesis by (auto simp: filter_empty_conv)
  next
    case (Some m)
    with ms(2) obtain rest where "sort_cmp (compareRecyclableMatches U lc) ms = m # rest" by (metis first_of_Some)
    from sort_first [OF recyclable_comparison [OF assms(1)] this]
    have best: "m \<in> set ms" "\<And>m'. m' \<in> set ms \<Longrightarrow> compareRecyclableMatches U lc m m' \<le> 0" by blast+
    from best(1) mapM_members [OF ms(1)] obtain t where t: "t \<in> set (Map_values ?reg)" "recyclable t"
      "recyclable_match U (rq_targetUrl request) t = Inr m" by auto
    then have "ma_tab m = t" using matchTabTarget_tab by (auto simp: recyclable_match_def then_parse_Inr split: option.splits)
    with t user best(2) mapM_members [OF ms(1)] Some show ?thesis by (auto simp: recyclable_def)
  qed
qed

end
