(* ===== verification/NavigationCache.thy ===== *)
theory NavigationCache
  imports SessionModel JsValue
begin

text \<open>
  The cache of visited addresses by purpose, \<open>services/browser-worker/domain/navigation-cache.ts\<close>, kept in a file of the worker. SHA-256, \<open>Date.parse\<close>,
  \<open>toISOString\<close>, \<open>localeCompare\<close>, \<open>new URL\<close> and the formats of addresses and dates are parameters, every reading of the clock is an argument.
\<close>

section \<open>Entries and files\<close>

record NavigationCacheEntry =
  nc_cacheKey :: string
  nc_url :: string
  nc_purpose :: string
  nc_title :: "string option"
  nc_firstUsedAt :: string
  nc_lastUsedAt :: string
  nc_lastClosedAt :: "string option"
  nc_useCount :: int

record web_address =
  wa_href :: string
  wa_protocol :: string
  wa_username :: string
  wa_password :: string
  wa_search :: string
  wa_hash :: string

record cache_host =
  cache_formats :: formats
  sha256_hex :: "string \<Rightarrow> string"
  Date_parse :: "string \<Rightarrow> millis option"
  toISOString :: "millis \<Rightarrow> string"
  localeCompare :: "string \<Rightarrow> string \<Rightarrow> int"
  parse_address :: "string \<Rightarrow> web_address option"

record NavigationCacheOptions =
  maxEntries :: nat
  retentionMs :: millis

type_synonym navigation_cache = "(string, NavigationCacheEntry) jsMap"

definition hex_key :: "string \<Rightarrow> bool" where
  "hex_key s = (length s = 64 \<and> list_all (\<lambda>c. c \<in> set ''0123456789abcdef'') s)"

definition navigationCacheEntrySchema_ok :: "formats \<Rightarrow> NavigationCacheEntry \<Rightarrow> bool" where
  "navigationCacheEntrySchema_ok F e =
    (hex_key (nc_cacheKey e) \<and> is_url F (nc_url e) \<and> str_between 1 200 (nc_purpose e) \<and> optional (str_between 0 500) (nc_title e) \<and>
     is_datetime F (nc_firstUsedAt e) \<and> is_datetime F (nc_lastUsedAt e) \<and> optional (is_datetime F) (nc_lastClosedAt e) \<and>
     0 < nc_useCount e \<and> nc_useCount e < 2 ^ 53)"

text \<open>A file of the expected shape has the time of its update and its entries; a failed reading or a text that is not JSON, and any other content, are one case each.\<close>

datatype cache_file = NoCacheFile | UnreadableCacheFile | OtherContent | CacheFile string "NavigationCacheEntry list"

definition navigationCacheFileSchema_ok :: "formats \<Rightarrow> string \<Rightarrow> NavigationCacheEntry list \<Rightarrow> bool" where
  "navigationCacheFileSchema_ok F updatedAt entries =
    (is_datetime F updatedAt \<and> length entries \<le> 1000 \<and> list_all (navigationCacheEntrySchema_ok F) entries)"

section \<open>Operations\<close>

definition byLastUse :: "cache_host \<Rightarrow> NavigationCacheEntry \<Rightarrow> NavigationCacheEntry \<Rightarrow> int" where
  "byLastUse H l r = localeCompare H (nc_lastUsedAt r) (nc_lastUsedAt l)"

text \<open>A comparison with \<open>NaN\<close> is false: an entry without a readable time, or any entry at an unreadable time, is not too old.\<close>

definition too_old :: "cache_host \<Rightarrow> NavigationCacheOptions \<Rightarrow> millis option \<Rightarrow> NavigationCacheEntry \<Rightarrow> bool" where
  "too_old H options now e =
    (case (Date_parse H (nc_lastUsedAt e), now) of (Some used, Some t) \<Rightarrow> used < t - retentionMs options | _ \<Rightarrow> False)"

definition cache_prune :: "cache_host \<Rightarrow> NavigationCacheOptions \<Rightarrow> millis option \<Rightarrow> navigation_cache \<Rightarrow> navigation_cache" where
  "cache_prune H options now entries =
    (let entries = Map_delete_where (too_old H options now) entries;
         sorted = sort_cmp (byLastUse H) (Map_values entries)
     in fold (\<lambda>e m. Map_delete m (nc_cacheKey e)) (drop (maxEntries options) sorted) entries)"

definition load_cache :: "cache_host \<Rightarrow> NavigationCacheOptions \<Rightarrow> millis \<Rightarrow> cache_file \<Rightarrow> navigation_cache result" where
  "load_cache H options now file =
    (case file of
       NoCacheFile \<Rightarrow> Inr []
     | UnreadableCacheFile \<Rightarrow> Inl PlainError
     | OtherContent \<Rightarrow> Inl ZodError
     | CacheFile updatedAt es \<Rightarrow>
         if \<not> navigationCacheFileSchema_ok (cache_formats H) updatedAt es then Inl ZodError
         else Inr (cache_prune H options (Some now) (fold (\<lambda>e m. Map_set m (nc_cacheKey e) e) es [])))"

record NavigationCacheLookup =
  lk_entry :: NavigationCacheEntry
  lk_ageMs :: "millis option"

definition resolve_cache :: "cache_host \<Rightarrow> NavigationCacheOptions \<Rightarrow> string \<Rightarrow> millis \<Rightarrow> navigation_cache \<Rightarrow>
    NavigationCacheLookup option \<times> navigation_cache" where
  "resolve_cache H options wanted now entries =
    (let entries = cache_prune H options (Some now) entries
     in (case sort_cmp (byLastUse H) (filter (\<lambda>e. nc_purpose e = wanted) (Map_values entries)) of
           [] \<Rightarrow> None
         | e # _ \<Rightarrow> Some \<lparr>lk_entry = e, lk_ageMs = map_option (\<lambda>used. max 0 (now - used)) (Date_parse H (nc_lastUsedAt e))\<rparr>,
         entries))"

definition cacheableUrl :: "cache_host \<Rightarrow> string option \<Rightarrow> string option result" where
  "cacheableUrl H value =
    (case value of
       None \<Rightarrow> Inr None
     | Some v \<Rightarrow>
         if v = [] then Inr None
         else (case parse_address H v of
           None \<Rightarrow> Inl TypeError
         | Some u \<Rightarrow>
             if wa_protocol u \<noteq> ''http:'' \<and> wa_protocol u \<noteq> ''https:'' then Inr None
             else if wa_username u \<noteq> [] \<or> wa_password u \<noteq> [] \<or> wa_search u \<noteq> [] \<or> wa_hash u \<noteq> [] then Inr None
             else Inr (Some (wa_href u))))"

definition navigationCacheKey :: "cache_host \<Rightarrow> string \<Rightarrow> string \<Rightarrow> string" where
  "navigationCacheKey H address wanted = sha256_hex H (wanted @ CHR 0x0A # address)"

definition recorded_entry :: "cache_host \<Rightarrow> BrowserTab \<Rightarrow> string \<Rightarrow> bool \<Rightarrow> string \<Rightarrow> navigation_cache \<Rightarrow> NavigationCacheEntry" where
  "recorded_entry H input address closed now entries =
    (let cacheKey = navigationCacheKey H address (purpose input); current = Map_get entries cacheKey
     in \<lparr>nc_cacheKey = cacheKey, nc_url = address, nc_purpose = purpose input, nc_title = title input,
         nc_firstUsedAt = (case current of None \<Rightarrow> now | Some c \<Rightarrow> nc_firstUsedAt c), nc_lastUsedAt = now,
         nc_lastClosedAt = (if closed then Some now else Option.bind current nc_lastClosedAt),
         nc_useCount = (case current of None \<Rightarrow> 0 | Some c \<Rightarrow> nc_useCount c) + 1\<rparr>)"

text \<open>\<open>now\<close> is the time of the options, if they have one, \<open>t\<close> the clock.\<close>

definition record_cache :: "cache_host \<Rightarrow> NavigationCacheOptions \<Rightarrow> BrowserTab \<Rightarrow> bool \<Rightarrow> string option \<Rightarrow> millis \<Rightarrow>
    (navigation_cache, NavigationCacheEntry option) op" where
  "record_cache H options input closed now t entries =
    (case cacheableUrl H (case requestedUrl input of None \<Rightarrow> url input | Some u \<Rightarrow> Some u) of
       Inl err \<Rightarrow> (Inl err, entries)
     | Inr address \<Rightarrow>
         if address = None \<or> address = Some [] then (Inr None, entries)
         else let now = (case now of None \<Rightarrow> toISOString H t | Some s \<Rightarrow> s);
                  entry = recorded_entry H input (the address) closed now entries
              in (Inr (Some entry), cache_prune H options (Date_parse H now) (Map_set entries (nc_cacheKey entry) entry)))"

definition list_cache :: "cache_host \<Rightarrow> NavigationCacheOptions \<Rightarrow> millis \<Rightarrow> navigation_cache \<Rightarrow> NavigationCacheEntry list \<times> navigation_cache" where
  "list_cache H options now entries =
    (let entries = cache_prune H options (Some now) entries in (sort_cmp (byLastUse H) (Map_values entries), entries))"

text \<open>A failed write of the temporary file, or of its renaming, leaves the file as it was.\<close>

definition save_cache :: "cache_host \<Rightarrow> NavigationCacheOptions \<Rightarrow> millis \<Rightarrow> bool \<Rightarrow> navigation_cache \<times> cache_file \<Rightarrow>
    unit result \<times> navigation_cache \<times> cache_file" where
  "save_cache H options now write_fails s =
    (let entries = cache_prune H options (Some now) (fst s);
         (listed, entries') = list_cache H options now entries
     in if \<not> navigationCacheFileSchema_ok (cache_formats H) (toISOString H now) listed then (Inl ZodError, entries', snd s)
        else if write_fails then (Inl PlainError, entries', snd s)
        else (Inr (), entries', CacheFile (toISOString H now) listed))"

section \<open>What pruning keeps\<close>

definition cache_ok :: "navigation_cache \<Rightarrow> bool" where
  "cache_ok m = (Map_ok m \<and> (\<forall>k e. Map_get m k = Some e \<longrightarrow> nc_cacheKey e = k))"

lemma cache_ok_Nil [simp]: "cache_ok []"
  by (simp add: cache_ok_def)

lemma cache_ok_set: "cache_ok m \<Longrightarrow> cache_ok (Map_set m (nc_cacheKey e) e)"
  by (auto simp: cache_ok_def map_model)

lemma cache_ok_delete_where: "cache_ok m \<Longrightarrow> cache_ok (Map_delete_where P m)"
  by (auto simp: cache_ok_def map_model split: option.splits if_splits)

lemma cache_okD: "cache_ok m \<Longrightarrow> Map_ok m" "cache_ok m \<Longrightarrow> Map_get m k = Some e \<Longrightarrow> nc_cacheKey e = k"
  by (simp_all add: cache_ok_def)

lemma cache_values:
  assumes "cache_ok m"
  shows "e \<in> set (Map_values m) \<longleftrightarrow> Map_get m (nc_cacheKey e) = Some e"
proof
  assume "e \<in> set (Map_values m)"
  from Map_values_get [OF cache_okD(1) [OF assms] this] obtain k where k: "Map_get m k = Some e" ..
  show "Map_get m (nc_cacheKey e) = Some e" unfolding cache_okD(2) [OF assms k] by (rule k)
qed (rule Map_get_in_values)

lemma cache_keys: "cache_ok m \<Longrightarrow> map nc_cacheKey (Map_values m) = map fst m"
proof -
  assume ok: "cache_ok m"
  have "nc_cacheKey e = k" if "(k, e) \<in> set m" for k e
    using ok that Map_in_set_get [of m k e] by (auto simp: cache_ok_def)
  then show ?thesis by (auto simp: Map_values_def)
qed

lemma delete_many_get: "Map_get (fold (\<lambda>e m. Map_delete m (nc_cacheKey e)) es m) k = (if k \<in> nc_cacheKey ` set es then None else Map_get m k)"
  by (induction es arbitrary: m) (auto simp: map_model)

lemma cache_ok_delete: "cache_ok m \<Longrightarrow> cache_ok (Map_delete m k)"
  unfolding cache_ok_def by (simp add: map_model)

lemma delete_many_ok: "cache_ok m \<Longrightarrow> cache_ok (fold (\<lambda>e m. Map_delete m (nc_cacheKey e)) es m)"
  by (induction es arbitrary: m) (simp_all add: cache_ok_delete)

text \<open>Pruning keeps the entries that are not too old, the last used first, as many as are allowed.\<close>

definition survivors :: "cache_host \<Rightarrow> NavigationCacheOptions \<Rightarrow> millis option \<Rightarrow> navigation_cache \<Rightarrow> NavigationCacheEntry list" where
  "survivors H options now m =
    take (maxEntries options) (sort_cmp (byLastUse H) (filter (\<lambda>e. \<not> too_old H options now e) (Map_values m)))"

lemma values_delete_where: "Map_values (Map_delete_where P m) = filter (\<lambda>e. \<not> P e) (Map_values m)"
  by (induction m) (auto simp: Map_values_def Map_delete_where_def)

lemma pruned_get:
  assumes "cache_ok m"
  shows "cache_ok (cache_prune H options now m)"
    and "Map_get (cache_prune H options now m) k = Some e \<longleftrightarrow> e \<in> set (survivors H options now m) \<and> nc_cacheKey e = k"
proof -
  define m1 where "m1 = Map_delete_where (too_old H options now) m"
  define es where "es = sort_cmp (byLastUse H) (Map_values m1)"
  have ok: "cache_ok m1" using cache_ok_delete_where [OF assms] by (simp add: m1_def)
  have pruned: "cache_prune H options now m = fold (\<lambda>e m. Map_delete m (nc_cacheKey e)) (drop (maxEntries options) es) m1"
    by (simp add: cache_prune_def m1_def es_def Let_def)
  then show "cache_ok (cache_prune H options now m)" using delete_many_ok [OF ok] by simp
  have surv: "survivors H options now m = take (maxEntries options) es"
    by (simp add: survivors_def es_def m1_def values_delete_where)
  have "distinct (map nc_cacheKey es)" using ok cache_keys [OF ok] by (simp add: es_def cache_ok_def Map_ok_def)
  then have apart: "nc_cacheKey ` set (take n es) \<inter> nc_cacheKey ` set (drop n es) = {}" for n
    by (metis append_take_drop_id distinct_append map_append set_map)
  have split: "set es = set (take n es) \<union> set (drop n es)" for n by (metis append_take_drop_id set_append)
  have keys: "Map_get m1 k = Some e \<longleftrightarrow> e \<in> set es \<and> nc_cacheKey e = k"
    using cache_values [OF ok, of e] ok by (auto simp: es_def cache_ok_def)
  show "Map_get (cache_prune H options now m) k = Some e \<longleftrightarrow> e \<in> set (survivors H options now m) \<and> nc_cacheKey e = k"
    unfolding pruned delete_many_get surv using keys split [of "maxEntries options"] apart [of "maxEntries options"] by auto
qed

lemma prune_values:
  assumes "cache_ok m"
  shows "set (Map_values (cache_prune H options now m)) = set (survivors H options now m)"
  using cache_values [OF pruned_get(1) [OF assms]] pruned_get(2) [OF assms] by (intro set_eqI) simp

lemma prune_length: "cache_ok m \<Longrightarrow> length (cache_prune H options now m) \<le> maxEntries options"
proof -
  assume ok: "cache_ok m"
  let ?p = "cache_prune H options now m"
  have "distinct (map nc_cacheKey (Map_values ?p))"
    using cache_keys [OF pruned_get(1) [OF ok]] pruned_get(1) [OF ok, of H options now] by (simp add: cache_ok_def Map_ok_def)
  then have "length (Map_values ?p) = card (set (Map_values ?p))" using distinct_card distinct_map by metis
  also have "\<dots> \<le> length (survivors H options now m)" by (simp add: prune_values [OF ok] card_length)
  finally show ?thesis by (simp add: Map_values_def survivors_def)
qed

lemma survivors_subset: "set (survivors H options now m) \<subseteq> {e \<in> set (Map_values m). \<not> too_old H options now e}"
  unfolding survivors_def by (rule order.trans [OF set_take_subset]) simp

text \<open>A cache within its bound loses only what is too old.\<close>

lemma survivors_small:
  assumes "length m \<le> maxEntries options"
  shows "set (survivors H options now m) = {e \<in> set (Map_values m). \<not> too_old H options now e}"
proof -
  have "length (filter (\<lambda>e. \<not> too_old H options now e) (Map_values m)) \<le> length m"
    using length_filter_le [of "\<lambda>e. \<not> too_old H options now e" "Map_values m"] by (simp add: Map_values_def)
  with assms show ?thesis by (simp add: survivors_def)
qed

section \<open>The cache over a session\<close>

text \<open>What is in a cache that started without a file came from \<open>record\<close>.\<close>

definition plain_address :: "cache_host \<Rightarrow> string \<Rightarrow> bool" where
  "plain_address H a = (\<exists>v u. parse_address H v = Some u \<and> a = wa_href u \<and> wa_protocol u \<in> {''http:'', ''https:''} \<and>
     wa_username u = [] \<and> wa_password u = [] \<and> wa_search u = [] \<and> wa_hash u = [])"

definition recorded :: "cache_host \<Rightarrow> NavigationCacheEntry \<Rightarrow> bool" where
  "recorded H e = (plain_address H (nc_url e) \<and> nc_cacheKey e = navigationCacheKey H (nc_url e) (nc_purpose e) \<and> 0 < nc_useCount e)"

definition file_entries :: "cache_file \<Rightarrow> NavigationCacheEntry list" where
  "file_entries stored = (case stored of CacheFile _ es \<Rightarrow> es | _ \<Rightarrow> [])"

inductive cache_step :: "cache_host \<Rightarrow> NavigationCacheOptions \<Rightarrow> navigation_cache \<times> cache_file \<Rightarrow> navigation_cache \<times> cache_file \<Rightarrow> bool"
  for H options where
  Resolved: "cache_step H options (m, stored) (snd (resolve_cache H options wanted now m), stored)"
| Recorded: "cache_step H options (m, stored) (snd (record_cache H options input closed now t m), stored)"
| Listed: "cache_step H options (m, stored) (snd (list_cache H options now m), stored)"
| Saved: "cache_step H options s (snd (save_cache H options now write_fails s))"
| Loaded: "load_cache H options now stored = Inr m' \<Longrightarrow> cache_step H options (m, stored) (m', stored)"

definition cache_inv :: "cache_host \<Rightarrow> NavigationCacheOptions \<Rightarrow> navigation_cache \<times> cache_file \<Rightarrow> bool" where
  "cache_inv H options s = (cache_ok (fst s) \<and> length (fst s) \<le> maxEntries options \<and> (\<forall>e \<in> set (Map_values (fst s)). recorded H e) \<and>
     length (file_entries (snd s)) \<le> maxEntries options \<and> (\<forall>e \<in> set (file_entries (snd s)). recorded H e))"

lemma pruned_inv:
  assumes "cache_ok m" "\<forall>e \<in> set (Map_values m). recorded H e"
  shows "cache_ok (cache_prune H options now m) \<and> length (cache_prune H options now m) \<le> maxEntries options \<and>
    (\<forall>e \<in> set (Map_values (cache_prune H options now m)). recorded H e)"
  using assms pruned_get(1) [OF assms(1)] prune_length [OF assms(1)] survivors_subset [of H options now m]
  by (auto simp: prune_values)

lemma prune_inv: "cache_inv H options (m, stored) \<Longrightarrow> cache_inv H options (cache_prune H options now m, stored)"
  using pruned_inv [of m H options now] by (simp add: cache_inv_def)

lemma cacheableUrl_plain: "cacheableUrl H v = Inr (Some a) \<Longrightarrow> plain_address H a"
  unfolding cacheableUrl_def plain_address_def by (fastforce split: option.splits if_splits)

lemma recorded_entry_recorded:
  assumes "plain_address H a" "\<forall>e \<in> set (Map_values m). recorded H e"
  shows "recorded H (recorded_entry H input a closed now m)"
proof -
  have "0 \<le> (case Map_get m (navigationCacheKey H a (purpose input)) of None \<Rightarrow> 0 | Some c \<Rightarrow> nc_useCount c)"
    using assms(2) Map_get_in_values [of m] by (auto simp: recorded_def less_imp_le split: option.splits)
  with assms(1) show ?thesis by (simp add: recorded_def recorded_entry_def Let_def)
qed

lemma fold_set_values:
  "cache_ok m \<Longrightarrow> cache_ok (fold (\<lambda>e m. Map_set m (nc_cacheKey e) e) es m) \<and>
   set (Map_values (fold (\<lambda>e m. Map_set m (nc_cacheKey e) e) es m)) \<subseteq> set es \<union> set (Map_values m)"
proof (induction es arbitrary: m)
  case (Cons e es)
  from Cons.IH [OF cache_ok_set [OF Cons.prems, of e]] show ?case using values_set [of m "nc_cacheKey e" e] by auto
qed simp

lemma record_inv:
  assumes "cache_inv H options (m, stored)"
  shows "cache_inv H options (snd (record_cache H options input closed now t m), stored)"
proof -
  let ?input = "case requestedUrl input of None \<Rightarrow> url input | Some u \<Rightarrow> Some u"
  show ?thesis
  proof (cases "\<exists>a. cacheableUrl H ?input = Inr (Some a) \<and> a \<noteq> []")
    case True
    then obtain a where a: "cacheableUrl H ?input = Inr (Some a)" "a \<noteq> []" by blast
    define s where "s = (case now of None \<Rightarrow> toISOString H t | Some s \<Rightarrow> s)"
    define e where "e = recorded_entry H input a closed s m"
    have "recorded H e" unfolding e_def
      by (rule recorded_entry_recorded [OF cacheableUrl_plain [OF a(1)]]) (use assms in \<open>simp add: cache_inv_def\<close>)
    moreover have "snd (record_cache H options input closed now t m) = cache_prune H options (Date_parse H s) (Map_set m (nc_cacheKey e) e)"
      using a by (simp add: record_cache_def Let_def s_def e_def)
    moreover note pruned_inv [OF cache_ok_set, of m e H options "Date_parse H s"] values_set [of m "nc_cacheKey e" e]
    ultimately show ?thesis using assms by (auto simp: cache_inv_def)
  next
    case False
    then have "snd (record_cache H options input closed now t m) = m"
      by (auto simp: record_cache_def split: sum.splits option.splits)
    with assms show ?thesis by simp
  qed
qed

lemma load_inv:
  assumes "load_cache H options now stored = Inr m" "\<forall>e \<in> set (file_entries stored). recorded H e"
  shows "cache_ok m \<and> length m \<le> maxEntries options \<and> (\<forall>e \<in> set (Map_values m). recorded H e)"
proof (cases stored)
  case (CacheFile u es)
  let ?m = "fold (\<lambda>e m. Map_set m (nc_cacheKey e) e) es []"
  have ok: "cache_ok ?m" "set (Map_values ?m) \<subseteq> set es" using fold_set_values [of "[]" es] by (simp_all add: Map_values_def)
  from assms(1) CacheFile have "m = cache_prune H options (Some now) ?m" by (auto simp: load_cache_def split: if_splits)
  with pruned_inv [OF ok(1), of H options "Some now"] ok(2) assms(2) CacheFile show ?thesis by (auto simp: file_entries_def)
qed (use assms(1) in \<open>auto simp: load_cache_def Map_values_def\<close>)

lemma save_inv: "cache_inv H options s \<Longrightarrow> cache_inv H options (snd (save_cache H options now write_fails s))"
proof -
  assume inv: "cache_inv H options s"
  let ?m = "cache_prune H options (Some now) (cache_prune H options (Some now) (fst s))"
  have "cache_ok ?m \<and> length ?m \<le> maxEntries options \<and> (\<forall>e \<in> set (Map_values ?m). recorded H e)"
    using inv pruned_inv [of "fst s" H options "Some now"] pruned_inv [of "cache_prune H options (Some now) (fst s)" H options "Some now"]
    by (simp add: cache_inv_def)
  moreover have "length (Map_values ?m) = length ?m" by (simp add: Map_values_def)
  ultimately show ?thesis using inv by (auto simp: cache_inv_def save_cache_def list_cache_def file_entries_def Let_def)
qed

text \<open>
  C32. Over any sequence of lookups, recordings, listings, saves, failed writes and reloads of a cache that starts without a file, the cache and its file
  hold at most the configured number of entries, keys are unique and are the digests of their entries, and every cached address is that of a
  web page without credentials, query or fragment.
\<close>

theorem navigation_cache_bounded:
  assumes "(cache_step H options)\<^sup>*\<^sup>* ([], NoCacheFile) (m, stored)"
  shows "length m \<le> maxEntries options \<and> length (file_entries stored) \<le> maxEntries options \<and> distinct (Map_keys m) \<and>
    (\<forall>k e. Map_get m k = Some e \<longrightarrow> k = navigationCacheKey H (nc_url e) (nc_purpose e)) \<and>
    (\<forall>e \<in> set (Map_values m) \<union> set (file_entries stored). plain_address H (nc_url e) \<and> 0 < nc_useCount e)"
proof -
  have "cache_inv H options (m, stored)"
    using assms
  proof (induction rule: rtranclp_induct)
    case (step s s')
    from step.hyps(2) step.IH show ?case
    proof cases
      case (Loaded now stored m' m)
      with step.IH load_inv [OF Loaded(3)] show ?thesis by (simp add: cache_inv_def)
    qed (use step.IH in \<open>auto simp: record_inv save_inv prune_inv resolve_cache_def list_cache_def Let_def\<close>)
  qed (simp add: cache_inv_def file_entries_def Map_values_def)
  then show ?thesis using Map_get_in_values [of m]
    by (auto simp: cache_inv_def cache_ok_def Map_ok_def Map_keys_def recorded_def)
qed

section \<open>Saving and loading, and the choice of an entry\<close>

lemma fold_set_get:
  "Map_get (fold (\<lambda>e m. Map_set m (nc_cacheKey e) e) es m) k =
    (case map_of (rev (map (\<lambda>e. (nc_cacheKey e, e)) es)) k of None \<Rightarrow> Map_get m k | Some v \<Rightarrow> Some v)"
  by (induction es arbitrary: m) (auto simp: map_model map_add_def split: option.splits)

lemma reread_get:
  assumes "distinct (map nc_cacheKey es)"
  shows "Map_get (fold (\<lambda>e m. Map_set m (nc_cacheKey e) e) es []) k = Some e \<longleftrightarrow> e \<in> set es \<and> nc_cacheKey e = k"
proof -
  have "distinct (map fst (rev (map (\<lambda>e. (nc_cacheKey e, e)) es)))" using assms distinct_rev [of "map nc_cacheKey es"] by (simp add: rev_map comp_def)
  from map_of_eq_Some_iff [OF this, of k e] show ?thesis by (auto simp: fold_set_get split: option.splits)
qed

text \<open>
  When \<open>save\<close> succeeds, the file can be loaded at any later time, and the loaded cache answers every key as the saved one does when it is
  pruned at that time.
\<close>

theorem navigation_cache_round_trip:
  assumes "cache_ok m" "save_cache H options now write_fails (m, before) = (Inr (), m', stored)"
  shows "case load_cache H options now' stored of
      Inr loaded \<Rightarrow> \<forall>k. Map_get loaded k = Map_get (cache_prune H options (Some now') m') k
    | Inl _ \<Rightarrow> False"
proof -
  define es where "es = sort_cmp (byLastUse H) (Map_values m')"
  define reread where "reread = fold (\<lambda>e m. Map_set m (nc_cacheKey e) e) es []"
  have m': "m' = cache_prune H options (Some now) (cache_prune H options (Some now) m)"
    and stored: "stored = CacheFile (toISOString H now) es" "navigationCacheFileSchema_ok (cache_formats H) (toISOString H now) es"
    using assms(2) by (auto simp: save_cache_def list_cache_def Let_def es_def split: if_splits)
  have ok: "cache_ok m'" and small: "length m' \<le> maxEntries options"
    unfolding m' using pruned_get(1) prune_length assms(1) by blast+
  have keys: "distinct (map nc_cacheKey es)" using cache_keys [OF ok] cache_okD(1) [OF ok] by (simp add: es_def Map_ok_def)
  have back_ok: "cache_ok reread" using fold_set_values [of "[]" es] by (simp add: reread_def)
  have same: "Map_get reread k = Some e \<longleftrightarrow> Map_get m' k = Some e" for k e
    using reread_get [OF keys] cache_values [OF ok, of e] cache_okD(2) [OF ok, of k e] by (auto simp: reread_def es_def)
  then have gets: "Map_get reread k = Map_get m' k" for k by (metis option.exhaust)
  then have vals: "set (Map_values reread) = set (Map_values m')"
    using cache_values [OF back_ok] cache_values [OF ok] by auto
  have "length reread \<le> length m'"
  proof -
    have "length reread = card (set (Map_values reread))" if "cache_ok reread" for reread
      using cache_keys [OF that] cache_okD(1) [OF that] distinct_card [of "Map_values reread"]
      by (simp add: Map_ok_def) (metis Map_values_def distinct_map length_map)
    with back_ok ok vals show ?thesis by simp
  qed
  with small have small': "length reread \<le> maxEntries options" by simp
  have "Map_get (cache_prune H options (Some now') reread) k = Some e \<longleftrightarrow> Map_get (cache_prune H options (Some now') m') k = Some e" for k e
    by (simp add: pruned_get(2) [OF back_ok] pruned_get(2) [OF ok] survivors_small [OF small] survivors_small [OF small'] vals)
  then have "Map_get (cache_prune H options (Some now') reread) k = Map_get (cache_prune H options (Some now') m') k" for k
    by (metis option.exhaust)
  with stored show ?thesis by (simp add: load_cache_def reread_def)
qed

text \<open>
  With an order of times, \<open>resolve\<close> answers a purpose with the entry used last of those that pruning keeps, and has no answer only when there is none.
\<close>

theorem resolve_latest:
  assumes "comparison (localeCompare H)" "resolve_cache H options wanted now m = (found, m')"
  shows "case found of
      None \<Rightarrow> \<forall>e \<in> set (Map_values m'). nc_purpose e \<noteq> wanted
    | Some l \<Rightarrow> lk_entry l \<in> set (Map_values m') \<and> nc_purpose (lk_entry l) = wanted \<and>
        (\<forall>e \<in> set (Map_values m'). nc_purpose e = wanted \<longrightarrow> localeCompare H (nc_lastUsedAt e) (nc_lastUsedAt (lk_entry l)) \<le> 0)"
proof -
  let ?es = "filter (\<lambda>e. nc_purpose e = wanted) (Map_values m')"
  have m': "m' = cache_prune H options (Some now) m" using assms(2) by (auto simp: resolve_cache_def Let_def)
  show ?thesis
  proof (cases "sort_cmp (byLastUse H) ?es")
    case Nil
    then have "?es = []" using set_sort_cmp [of "byLastUse H" ?es] by simp
    moreover have "found = None" using assms(2) Nil by (auto simp: resolve_cache_def Let_def m')
    ultimately show ?thesis by (simp add: filter_empty_conv)
  next
    case (Cons x xs)
    have cmp: "comparison (byLastUse H)"
      using comparison_by [OF comparison_flip [OF assms(1)], of nc_lastUsedAt] unfolding byLastUse_def [abs_def] by simp
    from sort_first [OF cmp Cons] have x: "x \<in> set ?es" "\<forall>e \<in> set ?es. byLastUse H x e \<le> 0" by auto
    have "\<exists>l. found = Some l \<and> lk_entry l = x" using assms(2) Cons by (auto simp: resolve_cache_def Let_def m')
    with x show ?thesis by (auto simp: byLastUse_def)
  qed
qed

section \<open>A concrete cache\<close>

definition cache_demo :: cache_host where
  "cache_demo = \<lparr>cache_formats = \<lparr>is_url = \<lambda>_. True, is_datetime = \<lambda>_. True\<rparr>, sha256_hex = \<lambda>_. replicate 64 (CHR ''0''),
     Date_parse = \<lambda>_. Some 0, toISOString = \<lambda>_. ''t'', localeCompare = cmp_units,
     parse_address = \<lambda>v. Some \<lparr>wa_href = v, wa_protocol = ''https:'', wa_username = [], wa_password = [], wa_search = [], wa_hash = []\<rparr>\<rparr>"

definition cache_limits :: NavigationCacheOptions where
  "cache_limits = \<lparr>maxEntries = 2, retentionMs = 10\<rparr>"

definition visited_tab :: BrowserTab where
  "visited_tab = \<lparr>tabId = ''t'', tab_taskId = None, lifecycle = None, ownership = OwnedByMcp, purpose = ''p'', reusable = True, protected = False,
     sticky = False, tab_createdAt = ''0'', tab_lastUsedAt = ''1'', url = Some ''https://a/'', requestedUrl = None, title = None, lockedUrl = None,
     viewerUrl = None, paused = None\<rparr>"

definition demo_entry :: NavigationCacheEntry where
  "demo_entry = \<lparr>nc_cacheKey = replicate 64 (CHR ''0''), nc_url = ''https://a/'', nc_purpose = ''p'', nc_title = None, nc_firstUsedAt = ''t'',
     nc_lastUsedAt = ''t'', nc_lastClosedAt = None, nc_useCount = 1\<rparr>"

lemma demo_recorded:
  "record_cache cache_demo cache_limits visited_tab False None 5 [] = (Inr (Some demo_entry), [(nc_cacheKey demo_entry, demo_entry)])"
  by (simp add: record_cache_def cacheableUrl_def cache_demo_def visited_tab_def recorded_entry_def navigationCacheKey_def demo_entry_def
      cache_prune_def cache_limits_def Map_set_def Map_delete_where_def Map_values_def too_old_def Let_def)

lemma demo_pruned: "cache_prune cache_demo cache_limits (Some 5) [(nc_cacheKey demo_entry, demo_entry)] = [(nc_cacheKey demo_entry, demo_entry)]"
  by (simp add: cache_prune_def cache_limits_def Map_delete_where_def Map_values_def too_old_def cache_demo_def)

lemma demo_saved:
  "save_cache cache_demo cache_limits 5 False ([(nc_cacheKey demo_entry, demo_entry)], NoCacheFile) =
    (Inr (), [(nc_cacheKey demo_entry, demo_entry)], CacheFile ''t'' [demo_entry])"
proof -
  have "navigationCacheFileSchema_ok (cache_formats cache_demo) (toISOString cache_demo 5) [demo_entry]"
    by (simp add: navigationCacheFileSchema_ok_def navigationCacheEntrySchema_ok_def hex_key_def cache_demo_def demo_entry_def str_between_def
        optional_def list_all_iff)
  then show ?thesis by (simp add: save_cache_def list_cache_def Let_def demo_pruned) (simp add: Map_values_def cache_demo_def)
qed

theorem navigation_cache_bounded_witness:
  "let (m, stored) = snd (save_cache cache_demo cache_limits 5 False (snd (record_cache cache_demo cache_limits visited_tab False None 5 []), NoCacheFile))
   in m \<noteq> [] \<and> length m \<le> maxEntries cache_limits \<and> length (file_entries stored) = 1 \<and>
     (\<forall>e \<in> set (file_entries stored). plain_address cache_demo (nc_url e))"
proof -
  let ?m = "[(nc_cacheKey demo_entry, demo_entry)]"
  have "cache_step cache_demo cache_limits ([], NoCacheFile) (?m, NoCacheFile)"
    using Recorded [of cache_demo cache_limits "[]" NoCacheFile visited_tab False None 5] by (simp add: demo_recorded)
  moreover have "cache_step cache_demo cache_limits (?m, NoCacheFile) (?m, CacheFile ''t'' [demo_entry])"
    using Saved [of cache_demo cache_limits "(?m, NoCacheFile)" 5 False] by (simp add: demo_saved)
  ultimately have "(cache_step cache_demo cache_limits)\<^sup>*\<^sup>* ([], NoCacheFile) (?m, CacheFile ''t'' [demo_entry])" by simp
  from navigation_cache_bounded [OF this] show ?thesis by (simp add: demo_recorded demo_saved file_entries_def)
qed

end
