(* ===== verification/PathSecurity.thy ===== *)
theory PathSecurity
  imports WorkspacePolicy "HOL-Library.Sublist"
begin

text \<open>
  Which files of a workspace may be read and written, \<open>services/workspace-agent/src/path-security.ts\<close>. The answers of the file system, the \<open>path\<close> module of
  the platform and the matching of globs (\<open>minimatch\<close>) are parameters; the \<open>path\<close> module of POSIX is defined below.
\<close>

section \<open>The host\<close>

datatype file_kind = RegularFile | Directory | OtherKind

record path_host =
  isWindows :: bool
  path_isAbsolute :: "string \<Rightarrow> bool"
  path_relative :: "string \<Rightarrow> string \<Rightarrow> string"
  path_resolve :: "string \<Rightarrow> string list \<Rightarrow> string"
  path_dirname :: "string \<Rightarrow> string"
  path_sep :: char
  realpath :: "string \<Rightarrow> string option"
  stat :: "string \<Rightarrow> file_kind option"
  lstat_isSymbolicLink :: "string \<Rightarrow> bool option"
  minimatch :: "string \<Rightarrow> string \<Rightarrow> bool"

text \<open>What an operation throws: a bare \<open>AppError\<close>, one with the details of a blocked path, or an error of the file system.\<close>

record blocked_details =
  bd_path :: string
  bd_policyRule :: string
  bd_operation :: "string option"
  bd_safeAlternative :: "string option"

datatype path_error = PathError error_code | BlockedPath blocked_details | SystemError

type_synonym 'a path_result = "path_error + 'a"

section \<open>The path module of POSIX\<close>

definition posix_isAbsolute :: "string \<Rightarrow> bool" where
  "posix_isAbsolute s = startsWith s ''/''"

definition is_slash :: "char \<Rightarrow> bool" where
  "is_slash c = (c = CHR ''/'' \<or> c = CHR 0x5C)"

definition is_letter :: "char \<Rightarrow> bool" where
  "is_letter c = (c \<in> set ''abcdefghijklmnopqrstuvwxyzABCDEFGHIJKLMNOPQRSTUVWXYZ'')"

definition drive_prefix :: "string \<Rightarrow> bool" where
  "drive_prefix s = (case s of c # d # _ \<Rightarrow> is_letter c \<and> d = CHR '':'' | _ \<Rightarrow> False)"

definition win32_isAbsolute :: "string \<Rightarrow> bool" where
  "win32_isAbsolute s = (case s of [] \<Rightarrow> False | c # _ \<Rightarrow> is_slash c \<or> (drive_prefix s \<and> 2 < length s \<and> is_slash (s ! 2)))"

text \<open>The segments of an absolute path, with \<open>.\<close> and \<open>..\<close> resolved.\<close>

fun climb :: "string list \<Rightarrow> string list \<Rightarrow> string list" where
  "climb acc [] = rev acc"
| "climb acc (s # ss) = (if s = [] \<or> s = ''.'' then climb acc ss else if s = ''..'' then climb (tl acc) ss else climb (s # acc) ss)"

definition path_parts :: "string \<Rightarrow> string list \<Rightarrow> string list" where
  "path_parts dir ps = climb [] (fold (\<lambda>p acc. if posix_isAbsolute p then split_on CHR ''/'' p else acc @ split_on CHR ''/'' p) ps (split_on CHR ''/'' dir))"

definition posix_resolve :: "string \<Rightarrow> string \<Rightarrow> string list \<Rightarrow> string" where
  "posix_resolve dir p ps = CHR ''/'' # join ''/'' (path_parts dir (p # ps))"

definition posix_segments :: "string \<Rightarrow> string \<Rightarrow> string list" where
  "posix_segments dir p = path_parts dir [p]"

definition posix_relative :: "string \<Rightarrow> string \<Rightarrow> string \<Rightarrow> string" where
  "posix_relative dir source target =
    (let s = posix_segments dir source; t = posix_segments dir target; n = length (longest_common_prefix s t)
     in if source = target then [] else join ''/'' (replicate (length s - n) ''..'' @ drop n t))"

text \<open>\<open>dirname\<close> looks for the last slash before the last name, not counting the first character of the path.\<close>

definition posix_dirname :: "string \<Rightarrow> string" where
  "posix_dirname p =
    (let before = dropWhile (\<lambda>c. c \<noteq> CHR ''/'') (dropWhile (\<lambda>c. c = CHR ''/'') (rev (tl p))); rooted = posix_isAbsolute p
     in if before = [] then (if rooted then ''/'' else ''.'') else if rooted \<and> length before = 1 then ''//'' else take (length before) p)"

definition is_posix :: "string \<Rightarrow> path_host \<Rightarrow> bool" where
  "is_posix dir h = (\<not> isWindows h \<and> path_isAbsolute h = posix_isAbsolute \<and> path_relative h = posix_relative dir \<and>
     path_resolve h = posix_resolve dir \<and> path_dirname h = posix_dirname \<and> path_sep h = CHR ''/'')"

section \<open>Logical paths\<close>

definition comparisonValue :: "path_host \<Rightarrow> string \<Rightarrow> string" where
  "comparisonValue h value = (if isWindows h then map lower_char value else value)"

definition isContained :: "path_host \<Rightarrow> string \<Rightarrow> string \<Rightarrow> bool" where
  "isContained h basePath targetPath =
    (let relative = path_relative h basePath targetPath
     in relative = [] \<or> (\<not> startsWith relative (''..'' @ [path_sep h]) \<and> relative \<noteq> ''..'' \<and> \<not> path_isAbsolute h relative))"

definition logicalContains :: "path_host \<Rightarrow> string \<Rightarrow> string \<Rightarrow> bool" where
  "logicalContains h basePath targetPath =
    (basePath = ''.'' \<or>
     (let base = comparisonValue h basePath; target = comparisonValue h targetPath in target = base \<or> startsWith target (base @ ''/'')))"

definition bad_windows_segment :: "string \<Rightarrow> bool" where
  "bad_windows_segment s = (CHR '':'' \<in> set s \<or> s \<noteq> [] \<and> last s \<in> set ''. '')"

fun output_segments :: "path_host \<Rightarrow> string list \<Rightarrow> string list path_result" where
  "output_segments h [] = Inr []"
| "output_segments h (s # ss) =
    (if s = [] \<or> s = ''.'' then output_segments h ss
     else if s = ''..'' then Inl (PathError INVALID_PATH)
     else if isWindows h \<and> bad_windows_segment s then Inl (PathError INVALID_PATH)
     else then_parse (output_segments h ss) (\<lambda>rest. Inr (s # rest)))"

definition portable :: "string \<Rightarrow> string" where
  "portable input = map (\<lambda>c. if c = CHR 0x5C then CHR ''/'' else c) input"

definition normalizeRelativePath :: "path_host \<Rightarrow> string \<Rightarrow> bool \<Rightarrow> string path_result" where
  "normalizeRelativePath h input allowDot =
    (if input = [] \<or> CHR 0x00 \<in> set input then Inl (PathError INVALID_PATH)
     else if path_isAbsolute h input \<or> win32_isAbsolute input \<or> posix_isAbsolute input \<or> startsWith input [CHR 0x5C, CHR 0x5C] \<or> drive_prefix input
     then Inl (PathError INVALID_PATH)
     else if startsWith (portable input) ''//'' then Inl (PathError INVALID_PATH)
     else then_parse (output_segments h (split_on CHR ''/'' (portable input))) (\<lambda>segments.
       if segments = [] then (if allowDot then Inr ''.'' else Inl (PathError INVALID_PATH)) else Inr (join ''/'' segments)))"

definition toNativeAbsolute :: "path_host \<Rightarrow> string \<Rightarrow> string \<Rightarrow> string" where
  "toNativeAbsolute h root relativePath =
    (if relativePath = ''.'' then root else path_resolve h root (split_on CHR ''/'' relativePath))"

definition isRealEnvironmentFile :: "path_host \<Rightarrow> string \<Rightarrow> bool" where
  "isRealEnvironmentFile h relativePath =
    (let compared = comparisonValue h (last (split_on CHR ''/'' relativePath));
         templates = map (comparisonValue h) [''.env.example'', ''.env.sample'', ''.env.template'']
     in compared = comparisonValue h ''.env'' \<or> startsWith compared (comparisonValue h ''.env.'') \<and> compared \<notin> set templates)"

section \<open>Authorisation\<close>

record ResolvedAllowedRoot =
  ar_logicalPath :: string
  ar_absolutePath :: string
  ar_canonicalPath :: string
  ar_kind :: file_kind

record ResolvedWorkspace =
  rw_id :: string
  rw_name :: string
  rw_rootPath :: string
  rw_workspaceKind :: "string option"
  rw_canonicalRootPath :: string
  rw_enabled :: bool
  rw_permissionProfile :: string
  rw_confirmationMode :: string
  rw_allowedRoots :: "ResolvedAllowedRoot list"
  rw_blockedGlobs :: "string list"
  rw_limits :: WorkspaceLimits
  rw_allowWrites :: "string list"
  rw_allowShell :: "string list"
  rw_allowedShells :: "shell_name list"
  rw_sourceControl :: "SourceControlPolicy option"

record AuthorizedPath =
  ap_logicalPath :: string
  ap_absolutePath :: string
  ap_canonicalPath :: string
  ap_canonicalRelativePath :: string
  ap_kind :: file_kind

record AuthorizedWritePath =
  aw_logicalPath :: string
  aw_absolutePath :: string
  aw_created :: bool

definition mandatoryBlockedGlobs :: "string list" where
  "mandatoryBlockedGlobs =
    [''**/.env'', ''**/.env.!(example|sample|template)'', ''**/*.pem'', ''**/*.key'', ''**/*.pfx'', ''**/*.crt'', ''**/secrets.*'', ''**/credentials.*'',
     ''**/id_rsa'', ''**/id_dsa'', ''**/.git/**'', ''**/.runtime-private'', ''**/.runtime-private/**'', ''**/node_modules/**'', ''**/bin/**'', ''**/obj/**'',
     ''**/dist/**'', ''**/build/**'', ''**/coverage/**'']"

definition readableGeneratedGlobs :: "string list" where
  "readableGeneratedGlobs = [''**/node_modules/**'', ''**/bin/**'', ''**/obj/**'', ''**/dist/**'', ''**/build/**'', ''**/coverage/**'']"

definition glob_candidate :: "string \<Rightarrow> string" where
  "glob_candidate relativePath = (if relativePath = ''.'' then [] else relativePath)"

definition matchedBlockedPattern :: "path_host \<Rightarrow> ResolvedWorkspace \<Rightarrow> string \<Rightarrow> bool \<Rightarrow> string option" where
  "matchedBlockedPattern h w relativePath readGenerated =
    find (\<lambda>pattern. \<not> (readGenerated \<and> pattern \<in> set readableGeneratedGlobs) \<and> minimatch h pattern (glob_candidate relativePath)) (rw_blockedGlobs w)"

definition isBlocked :: "path_host \<Rightarrow> ResolvedWorkspace \<Rightarrow> string \<Rightarrow> bool" where
  "isBlocked h w relativePath = (matchedBlockedPattern h w relativePath False \<noteq> None)"

definition isSubtreeBlocked :: "path_host \<Rightarrow> ResolvedWorkspace \<Rightarrow> string \<Rightarrow> bool" where
  "isSubtreeBlocked h w relativePath =
    list_ex (\<lambda>pattern. minimatch h (take (length pattern - 3) pattern) (glob_candidate relativePath))
      (filter (\<lambda>pattern. endsWith pattern ''/**'') (rw_blockedGlobs w))"

definition isWithinLogicalAllowedRoot :: "path_host \<Rightarrow> ResolvedWorkspace \<Rightarrow> string \<Rightarrow> bool" where
  "isWithinLogicalAllowedRoot h w logicalPath =
    list_ex (\<lambda>root. if ar_kind root = RegularFile then comparisonValue h (ar_logicalPath root) = comparisonValue h logicalPath
       else logicalContains h (ar_logicalPath root) logicalPath) (rw_allowedRoots w)"

definition isAllowedWritePath :: "path_host \<Rightarrow> ResolvedWorkspace \<Rightarrow> string \<Rightarrow> bool" where
  "isAllowedWritePath h w logicalPath =
    (rw_allowWrites w \<noteq> [] \<and>
     list_ex (\<lambda>writeRoot. writeRoot = ''.'' \<or>
       (let root = comparisonValue h writeRoot; candidate = comparisonValue h logicalPath
        in candidate = root \<or> startsWith candidate (root @ ''/'') \<or> startsWith root (candidate @ ''/''))) (rw_allowWrites w))"

definition blockedPathError :: "path_host \<Rightarrow> string \<Rightarrow> string \<Rightarrow> string option \<Rightarrow> path_error" where
  "blockedPathError h logicalPath policyRule oper =
    BlockedPath \<lparr>bd_path = logicalPath, bd_policyRule = policyRule, bd_operation = oper,
      bd_safeAlternative = (if oper = Some ''read_file'' \<and> isRealEnvironmentFile h logicalPath
        then Some ''run_workspace_validation(secret-scan)'' else None)\<rparr>"

text \<open>\<open>if (policyRule)\<close>: an empty rule does not block.\<close>

definition refuse_blocked :: "path_host \<Rightarrow> string \<Rightarrow> string option \<Rightarrow> string option \<Rightarrow> unit path_result" where
  "refuse_blocked h logicalPath oper rule =
    (case rule of None \<Rightarrow> Inr () | Some r \<Rightarrow> if r = [] then Inr () else Inl (blockedPathError h logicalPath r oper))"

definition authorizeLogical :: "path_host \<Rightarrow> ResolvedWorkspace \<Rightarrow> string \<Rightarrow> bool \<Rightarrow> string option \<Rightarrow> bool \<Rightarrow> string path_result" where
  "authorizeLogical h w input allowDot oper readGenerated =
    then_parse (normalizeRelativePath h input allowDot) (\<lambda>logicalPath.
    then_parse (refuse_blocked h logicalPath oper (matchedBlockedPattern h w logicalPath readGenerated)) (\<lambda>_.
    if \<not> isWithinLogicalAllowedRoot h w logicalPath then Inl (PathError PATH_OUTSIDE_ALLOWED_ROOTS) else Inr logicalPath))"

definition authorizeWriteLogical :: "path_host \<Rightarrow> ResolvedWorkspace \<Rightarrow> string \<Rightarrow> string path_result" where
  "authorizeWriteLogical h w input =
    then_parse (normalizeRelativePath h input False) (\<lambda>logicalPath.
    if isBlocked h w logicalPath then Inl (PathError BLOCKED_PATH)
    else if \<not> isWithinLogicalAllowedRoot h w logicalPath then Inl (PathError PATH_OUTSIDE_ALLOWED_ROOTS)
    else if \<not> isAllowedWritePath h w logicalPath then Inl (PathError WRITE_NOT_ALLOWED)
    else Inr logicalPath)"

definition ancestors :: "string \<Rightarrow> string list" where
  "ancestors logicalPath =
    (let segments = split_on CHR ''/'' logicalPath in map (\<lambda>index. join ''/'' (take index segments)) [1..<length segments])"

definition assertCreatableAncestors :: "path_host \<Rightarrow> ResolvedWorkspace \<Rightarrow> string \<Rightarrow> unit path_result" where
  "assertCreatableAncestors h w logicalPath =
    then_parse (mapM (\<lambda>ancestor. if isBlocked h w ancestor then Inl (PathError BLOCKED_PATH)
        else if \<not> isAllowedWritePath h w ancestor then Inl (PathError WRITE_NOT_ALLOWED) else Inr ()) (ancestors logicalPath)) (\<lambda>_. Inr ())"

text \<open>Whether the target is to be created, from the answer of \<open>stat\<close>.\<close>

definition is_created :: "path_host \<Rightarrow> ResolvedWorkspace \<Rightarrow> string \<Rightarrow> string \<Rightarrow> bool path_result" where
  "is_created h w logicalPath absolutePath =
    (case stat h absolutePath of
       Some kind \<Rightarrow> if kind \<noteq> RegularFile then Inl (PathError NOT_A_FILE) else Inr False
     | None \<Rightarrow> then_parse (assertCreatableAncestors h w logicalPath) (\<lambda>_. Inr True))"

definition authorizeWriteTarget :: "path_host \<Rightarrow> ResolvedWorkspace \<Rightarrow> string \<Rightarrow> AuthorizedWritePath path_result" where
  "authorizeWriteTarget h w input =
    then_parse (authorizeWriteLogical h w input) (\<lambda>logicalPath.
    let absolutePath = toNativeAbsolute h (rw_rootPath w) logicalPath
    in then_parse (is_created h w logicalPath absolutePath) (\<lambda>created.
       let authorized = \<lparr>aw_logicalPath = logicalPath, aw_absolutePath = absolutePath, aw_created = created\<rparr>
       in case realpath h (path_dirname h absolutePath) of
            None \<Rightarrow> if \<not> created then Inl (PathError INVALID_PATH) else Inr authorized
          | Some parentCanonical \<Rightarrow>
              if \<not> isContained h (rw_canonicalRootPath w) parentCanonical then Inl (PathError PATH_OUTSIDE_WORKSPACE)
              else if created then Inr authorized
              else (case realpath h absolutePath of
                  None \<Rightarrow> Inl SystemError
                | Some canonicalPath \<Rightarrow>
                    if \<not> isContained h (rw_canonicalRootPath w) canonicalPath then Inl (PathError PATH_OUTSIDE_WORKSPACE) else Inr authorized)))"

definition canonical_relative :: "path_host \<Rightarrow> ResolvedWorkspace \<Rightarrow> string \<Rightarrow> string" where
  "canonical_relative h w canonicalPath =
    (let relative = join ''/'' (split_on (path_sep h) (path_relative h (rw_canonicalRootPath w) canonicalPath))
     in if relative = [] then ''.'' else relative)"

definition checked_kind :: "path_host \<Rightarrow> file_kind option \<Rightarrow> string \<Rightarrow> file_kind path_result" where
  "checked_kind h expectedKind canonicalPath =
    (case stat h canonicalPath of
       None \<Rightarrow> Inl SystemError
     | Some OtherKind \<Rightarrow> Inl (PathError INVALID_PATH)
     | Some kind \<Rightarrow>
         if expectedKind = Some RegularFile \<and> kind \<noteq> RegularFile then Inl (PathError NOT_A_FILE)
         else if expectedKind = Some Directory \<and> kind \<noteq> Directory then Inl (PathError NOT_A_DIRECTORY)
         else Inr kind)"

definition authorizeExistingInternal ::
    "path_host \<Rightarrow> ResolvedWorkspace \<Rightarrow> string \<Rightarrow> file_kind option \<Rightarrow> bool \<Rightarrow> bool \<Rightarrow> string option \<Rightarrow> bool \<Rightarrow> AuthorizedPath path_result" where
  "authorizeExistingInternal h w input expectedKind allowDot enforceBlockedPolicy oper readGenerated =
    then_parse (if enforceBlockedPolicy then authorizeLogical h w input allowDot oper readGenerated
        else normalizeRelativePath h input allowDot) (\<lambda>logicalPath.
    if \<not> isWithinLogicalAllowedRoot h w logicalPath then Inl (PathError PATH_OUTSIDE_ALLOWED_ROOTS)
    else let absolutePath = toNativeAbsolute h (rw_rootPath w) logicalPath
    in case realpath h absolutePath of
         None \<Rightarrow> Inl (PathError FILE_NOT_FOUND)
       | Some canonicalPath \<Rightarrow>
           if \<not> isContained h (rw_canonicalRootPath w) canonicalPath then Inl (PathError PATH_OUTSIDE_WORKSPACE)
           else if \<not> list_ex (\<lambda>root. isContained h (ar_canonicalPath root) canonicalPath) (rw_allowedRoots w)
           then Inl (PathError PATH_OUTSIDE_ALLOWED_ROOTS)
           else let portableCanonicalPath = canonical_relative h w canonicalPath
           in then_parse (refuse_blocked h logicalPath oper
                (if enforceBlockedPolicy then matchedBlockedPattern h w portableCanonicalPath readGenerated else None)) (\<lambda>_.
              then_parse (checked_kind h expectedKind canonicalPath) (\<lambda>kind.
                Inr \<lparr>ap_logicalPath = logicalPath, ap_absolutePath = absolutePath, ap_canonicalPath = canonicalPath,
                     ap_canonicalRelativePath = portableCanonicalPath, ap_kind = kind\<rparr>)))"

definition authorizeExisting :: "path_host \<Rightarrow> ResolvedWorkspace \<Rightarrow> string \<Rightarrow> file_kind option \<Rightarrow> bool \<Rightarrow> string option \<Rightarrow> AuthorizedPath path_result" where
  "authorizeExisting h w input expectedKind allowDot oper = authorizeExistingInternal h w input expectedKind allowDot True oper False"

definition authorizeExistingFileRead :: "path_host \<Rightarrow> ResolvedWorkspace \<Rightarrow> string \<Rightarrow> string \<Rightarrow> AuthorizedPath path_result" where
  "authorizeExistingFileRead h w input oper = authorizeExistingInternal h w input (Some RegularFile) False True (Some oper) True"

definition authorizeExistingForSecretScan :: "path_host \<Rightarrow> ResolvedWorkspace \<Rightarrow> string \<Rightarrow> file_kind option \<Rightarrow> bool \<Rightarrow> AuthorizedPath path_result" where
  "authorizeExistingForSecretScan h w input expectedKind allowDot = authorizeExistingInternal h w input expectedKind allowDot False None False"

definition isSymbolicLink :: "path_host \<Rightarrow> ResolvedWorkspace \<Rightarrow> string \<Rightarrow> bool path_result" where
  "isSymbolicLink h w input =
    then_parse (normalizeRelativePath h input True) (\<lambda>logicalPath.
    case lstat_isSymbolicLink h (toNativeAbsolute h (rw_rootPath w) logicalPath) of None \<Rightarrow> Inl SystemError | Some link \<Rightarrow> Inr link)"

definition resolveAllowedRoot :: "path_host \<Rightarrow> string \<Rightarrow> string \<Rightarrow> string \<Rightarrow> ResolvedAllowedRoot path_result" where
  "resolveAllowedRoot h canonicalWorkspaceRoot workspaceRoot configuredPath =
    then_parse (normalizeRelativePath h configuredPath True) (\<lambda>logicalPath.
    let absolutePath = toNativeAbsolute h workspaceRoot logicalPath
    in case realpath h absolutePath of
         None \<Rightarrow> Inl (PathError POLICY_INVALID)
       | Some canonicalPath \<Rightarrow>
           if \<not> isContained h canonicalWorkspaceRoot canonicalPath then Inl (PathError POLICY_INVALID)
           else (case stat h canonicalPath of
               None \<Rightarrow> Inl SystemError
             | Some kind \<Rightarrow>
                 if kind \<noteq> RegularFile \<and> kind \<noteq> Directory then Inl (PathError POLICY_INVALID)
                 else Inr \<lparr>ar_logicalPath = logicalPath, ar_absolutePath = absolutePath, ar_canonicalPath = canonicalPath,
                        ar_kind = (if kind = RegularFile then RegularFile else Directory)\<rparr>))"

section \<open>Segments of paths\<close>

definition plain_segment :: "string \<Rightarrow> bool" where
  "plain_segment s = (s \<noteq> [] \<and> s \<noteq> ''.'' \<and> s \<noteq> ''..'' \<and> CHR ''/'' \<notin> set s)"

lemma climb_plain:
  "\<forall>s \<in> set acc. plain_segment s \<Longrightarrow> \<forall>s \<in> set ss. CHR ''/'' \<notin> set s \<Longrightarrow> \<forall>s \<in> set (climb acc ss). plain_segment s"
proof (induction acc ss rule: climb.induct)
  case (2 acc s ss)
  have tail: "\<forall>s \<in> set (tl acc). plain_segment s" using 2(4) by (cases acc) auto
  consider "s = [] \<or> s = ''.''" | "s = ''..''" | "plain_segment s" using 2(5) by (auto simp: plain_segment_def)
  then show ?case
  proof cases
    case 1
    with 2(1) 2(4) 2(5) show ?thesis by simp
  next
    case two: 2
    with 2(2) 2(5) tail show ?thesis by simp
  next
    case 3
    then have "climb acc (s # ss) = climb (s # acc) ss" "\<not> (s = [] \<or> s = ''.'')" "s \<noteq> ''..''" by (simp_all add: plain_segment_def)
    with 2(3) [OF this(2,3)] 2(4) 2(5) 3 show ?thesis by simp
  qed
qed simp

lemma climb_append_plain: "\<forall>s \<in> set ss. plain_segment s \<Longrightarrow> climb acc (rs @ ss) = climb acc rs @ ss"
proof (induction acc rs rule: climb.induct)
  case (1 acc)
  then show ?case by (induction ss arbitrary: acc) (auto simp: plain_segment_def)
qed auto

lemma parts_pieces:
  "\<forall>s \<in> set acc. CHR ''/'' \<notin> set s \<Longrightarrow>
   s \<in> set (fold (\<lambda>p acc. if posix_isAbsolute p then split_on CHR ''/'' p else acc @ split_on CHR ''/'' p) ps acc) \<Longrightarrow> CHR ''/'' \<notin> set s"
proof (induction ps arbitrary: acc)
  case (Cons p ps)
  have "\<forall>s \<in> set (if posix_isAbsolute p then split_on CHR ''/'' p else acc @ split_on CHR ''/'' p). CHR ''/'' \<notin> set s"
    using Cons.prems(1) split_on_pieces by auto
  from Cons.IH [OF this] Cons.prems(2) show ?case by simp
qed auto

lemma parts_plain: "s \<in> set (path_parts dir ps) \<Longrightarrow> plain_segment s"
proof -
  let ?all = "fold (\<lambda>p acc. if posix_isAbsolute p then split_on CHR ''/'' p else acc @ split_on CHR ''/'' p) ps (split_on CHR ''/'' dir)"
  have "\<forall>s \<in> set (split_on CHR ''/'' dir). CHR ''/'' \<notin> set s" using split_on_pieces by blast
  from parts_pieces [OF this] have "\<forall>s \<in> set ?all. CHR ''/'' \<notin> set s" by blast
  from climb_plain [of "[]", OF _ this] show "s \<in> set (path_parts dir ps) \<Longrightarrow> plain_segment s" by (simp add: path_parts_def)
qed

lemma segments_plain: "s \<in> set (posix_segments dir p) \<Longrightarrow> plain_segment s"
  unfolding posix_segments_def by (rule parts_plain)

lemma slash_free: "\<forall>s \<in> set ss. plain_segment s \<Longrightarrow> \<forall>s \<in> set ss. CHR ''/'' \<notin> set s"
  by (simp add: plain_segment_def)

lemma segments_resolved:
  assumes "\<forall>s \<in> set ss. plain_segment s"
  shows "posix_segments dir (CHR ''/'' # join ''/'' ss) = ss"
proof (cases "ss = []")
  case False
  from assms have "climb [] ss = ss" using climb_append_plain [of ss "[]" "[]"] by simp
  with split_on_join [OF False slash_free [OF assms]] show ?thesis
    by (simp add: posix_segments_def path_parts_def posix_isAbsolute_def startsWith_def)
qed (simp add: posix_segments_def path_parts_def posix_isAbsolute_def startsWith_def)

lemma fold_plain:
  "\<forall>s \<in> set ss. plain_segment s \<Longrightarrow>
   fold (\<lambda>p acc. if posix_isAbsolute p then split_on CHR ''/'' p else acc @ split_on CHR ''/'' p) ss acc = acc @ ss"
proof (induction ss arbitrary: acc)
  case (Cons s ss)
  then have s: "CHR ''/'' \<notin> set s" by (simp add: plain_segment_def)
  then have "\<not> posix_isAbsolute s" by (cases s) (auto simp: posix_isAbsolute_def startsWith_def)
  with Cons s show ?case by (simp add: split_on_single)
qed simp

lemma segments_below:
  assumes "\<forall>s \<in> set ss. plain_segment s"
  shows "posix_segments dir (posix_resolve dir root ss) = posix_segments dir root @ ss"
proof -
  have "path_parts dir (root # ss) = posix_segments dir root @ ss"
    by (simp add: path_parts_def posix_segments_def fold_plain [OF assms] climb_append_plain [OF assms])
  moreover have "\<forall>s \<in> set (posix_segments dir root @ ss). plain_segment s" using assms segments_plain by auto
  ultimately show ?thesis using segments_resolved [of "posix_segments dir root @ ss" dir] by (simp add: posix_resolve_def)
qed

section \<open>Containment\<close>

lemma plain_join:
  assumes "\<forall>s \<in> set (s # ss). plain_segment s"
  shows "join ''/'' (s # ss) \<noteq> []" "join ''/'' (s # ss) \<noteq> ''..''" "\<not> startsWith (join ''/'' (s # ss)) ''../''" "\<not> posix_isAbsolute (join ''/'' (s # ss))"
proof -
  let ?j = "join ''/'' (s # ss)"
  have split: "split_on CHR ''/'' ?j = s # ss" using split_on_join [OF _ slash_free [OF assms]] by simp
  have s: "s \<noteq> []" "s \<noteq> ''..''" using assms by (simp_all add: plain_segment_def)
  show "?j \<noteq> []" using split s(1) by (metis list.inject split_on.simps(1))
  show "?j \<noteq> ''..''"
  proof
    assume "?j = ''..''"
    moreover have "split_on CHR ''/'' ''..'' = [''..'']" by simp
    ultimately show False using s(2) split by (metis list.inject)
  qed
  show "\<not> startsWith ?j ''../''"
  proof
    assume "startsWith ?j ''../''"
    then have "?j = ''..'' @ CHR ''/'' # drop 3 ?j" unfolding startsWith_def by (metis append_take_drop_id append.assoc append_Cons append_Nil length_Cons list.size(3) numeral_3_eq_3)
    with split have "split_on CHR ''/'' (''..'' @ CHR ''/'' # drop 3 ?j) = s # ss" by simp
    with s(2) split_on_append [of "CHR ''/''" "''..''" "drop 3 ?j"] show False by simp
  qed
  show "\<not> posix_isAbsolute ?j"
  proof
    assume "posix_isAbsolute ?j"
    then obtain r where "?j = CHR ''/'' # r" by (cases ?j) (auto simp: posix_isAbsolute_def startsWith_def)
    with split have "split_on CHR ''/'' (CHR ''/'' # r) = s # ss" by simp
    with s(1) show False by simp
  qed
qed

lemma prefix_lcp: "prefix s t \<longleftrightarrow> length (longest_common_prefix s t) = length s"
proof
  assume "length (longest_common_prefix s t) = length s"
  moreover obtain r where r: "s = longest_common_prefix s t @ r" using longest_common_prefix_prefix1 [of s t] by (auto simp: prefix_def)
  ultimately have "r = []" by (metis add_cancel_right_right length_append length_0_conv)
  with r have "longest_common_prefix s t = s" by simp
  then show "prefix s t" using longest_common_prefix_prefix2 [of s t] by simp
next
  assume "prefix s t"
  then show "length (longest_common_prefix s t) = length s" by (induction s t rule: longest_common_prefix.induct) auto
qed

lemma contained_prefix:
  assumes "is_posix dir h"
  shows "isContained h base target \<longleftrightarrow> prefix (posix_segments dir base) (posix_segments dir target)"
proof -
  define s where "s = posix_segments dir base"
  define t where "t = posix_segments dir target"
  define n where "n = length (longest_common_prefix s t)"
  have host: "path_relative h = posix_relative dir" "path_isAbsolute h = posix_isAbsolute" "path_sep h = CHR ''/''"
    using assms by (simp_all add: is_posix_def)
  have plain: "\<forall>x \<in> set (drop n t). plain_segment x" using segments_plain [of _ dir target] set_drop_subset [of n t] by (auto simp: t_def)
  show ?thesis
  proof (cases "base = target")
    case False
    then have rel: "path_relative h base target = join ''/'' (replicate (length s - n) ''..'' @ drop n t)"
      by (simp add: host posix_relative_def Let_def s_def t_def n_def)
    have le: "n \<le> length s" unfolding n_def using prefix_length_le [OF longest_common_prefix_prefix1 [of s t]] .
    show ?thesis
    proof (cases "prefix s t")
      case True
      then have "path_relative h base target = join ''/'' (drop n t)" using rel by (simp add: prefix_lcp n_def)
      with plain plain_join True show ?thesis
        by (cases "drop n t") (simp_all add: isContained_def host s_def t_def)
    next
      case no: False
      then obtain k where "length s - n = Suc k" using le prefix_lcp [of s t] by (metis Suc_diff_Suc le_neq_implies_less n_def)
      then have "path_relative h base target = join ''/'' (''..'' # replicate k ''..'' @ drop n t)" using rel by simp
      moreover have "join ''/'' (''..'' # xs) = ''..'' \<or> startsWith (join ''/'' (''..'' # xs)) ''../''" for xs
        by (cases xs) (simp_all add: startsWith_def)
      moreover have "join ''/'' (''..'' # xs) \<noteq> []" for xs by (cases xs) simp_all
      ultimately show ?thesis using no by (auto simp: isContained_def host s_def t_def Let_def)
    qed
  qed (simp add: isContained_def host posix_relative_def)
qed

text \<open>
  C33. On a POSIX host \<open>isContained\<close>, which looks at the text of the relative path, holds exactly when the segments of the base path are the first
  segments of the target: the names \<open>..x\<close> are allowed below the base, siblings whose name extends its name are not.
\<close>

theorem contained_iff_prefix:
  assumes "is_posix dir h"
  shows "isContained h base target \<longleftrightarrow> prefix (posix_segments dir base) (posix_segments dir target)"
  using contained_prefix [OF assms] .

section \<open>Normalisation\<close>

definition logical_segments :: "string \<Rightarrow> string list" where
  "logical_segments input = filter (\<lambda>s. s \<noteq> [] \<and> s \<noteq> ''.'') (split_on CHR ''/'' (portable input))"

definition acceptable :: "path_host \<Rightarrow> string \<Rightarrow> bool" where
  "acceptable h input = (input \<noteq> [] \<and> CHR 0x00 \<notin> set input \<and> \<not> is_slash (hd input) \<and> \<not> drive_prefix input \<and>
     ''..'' \<notin> set (logical_segments input) \<and> (isWindows h \<longrightarrow> list_all (\<lambda>s. \<not> bad_windows_segment s) (logical_segments input)))"

text \<open>What \<open>path.isAbsolute\<close> is on either platform.\<close>

definition known_platform :: "path_host \<Rightarrow> bool" where
  "known_platform h = (path_isAbsolute h = posix_isAbsolute \<or> path_isAbsolute h = win32_isAbsolute)"

lemma output_segments_eq:
  "output_segments h ss =
    (let segments = filter (\<lambda>s. s \<noteq> [] \<and> s \<noteq> ''.'') ss
     in if ''..'' \<in> set segments \<or> (isWindows h \<and> \<not> list_all (\<lambda>s. \<not> bad_windows_segment s) segments) then Inl (PathError INVALID_PATH)
        else Inr segments)"
  by (induction ss) (auto simp: Let_def)

lemma logical_plain:
  assumes "acceptable h input" "s \<in> set (logical_segments input)"
  shows "plain_segment s"
  using assms split_on_pieces [of s "CHR ''/''" "portable input"] by (auto simp: acceptable_def plain_segment_def logical_segments_def)

lemma normalize_eq:
  assumes "known_platform h"
  shows "normalizeRelativePath h input allowDot =
    (if acceptable h input \<and> (logical_segments input = [] \<longrightarrow> allowDot)
     then Inr (if logical_segments input = [] then ''.'' else join ''/'' (logical_segments input)) else Inl (PathError INVALID_PATH))"
proof (cases "input = [] \<or> is_slash (hd input) \<or> drive_prefix input")
  case True
  then have "input = [] \<or> win32_isAbsolute input \<or> drive_prefix input" by (cases input) (auto simp: win32_isAbsolute_def)
  with True show ?thesis by (auto simp: normalizeRelativePath_def acceptable_def)
next
  case False
  then have "\<not> win32_isAbsolute input" "\<not> posix_isAbsolute input" "\<not> startsWith input [CHR 0x5C, CHR 0x5C]" "\<not> startsWith (portable input) ''//''"
    by (cases input; auto simp: win32_isAbsolute_def posix_isAbsolute_def startsWith_def is_slash_def portable_def)+
  moreover from this have "\<not> path_isAbsolute h input" using assms by (auto simp: known_platform_def)
  ultimately show ?thesis using False
    by (auto simp: normalizeRelativePath_def acceptable_def output_segments_eq logical_segments_def Let_def)
qed

lemma join_chars: "c \<in> set (join sep ss) \<Longrightarrow> c \<in> set sep \<or> (\<exists>s \<in> set ss. c \<in> set s)"
  by (induction ss rule: induct_list012) auto

lemma split_on_chars: "p \<in> set (split_on d s) \<Longrightarrow> set p \<subseteq> set s"
proof (induction s arbitrary: p)
  case (Cons c s)
  obtain a l where al: "split_on d s = a # l" by (cases "split_on d s") auto
  have sub: "set a \<subseteq> set s" "\<forall>q \<in> set l. set q \<subseteq> set s" using Cons.IH al by simp_all
  from Cons.prems al consider "p = []" | "p = a" | "p = c # a" | "p \<in> set l" by (auto split: if_splits)
  then show ?case using sub by cases auto
qed simp

lemma portable_chars: "CHR 0x5C \<notin> set (portable s)" "CHR 0x00 \<notin> set s \<Longrightarrow> CHR 0x00 \<notin> set (portable s)"
  by (auto simp: portable_def)

lemma normal_again:
  assumes "acceptable h input" "logical_segments input \<noteq> []" "\<not> drive_prefix (join ''/'' (logical_segments input))"
  shows "acceptable h (join ''/'' (logical_segments input))"
    and "logical_segments (join ''/'' (logical_segments input)) = logical_segments input"
proof -
  let ?ss = "logical_segments input"
  let ?p = "join ''/'' ?ss"
  have plain: "\<forall>s \<in> set ?ss. plain_segment s" using logical_plain [OF assms(1)] by blast
  have chars: "set s \<subseteq> set (portable input)" if "s \<in> set ?ss" for s
    using that split_on_chars by (auto simp: logical_segments_def)
  have "CHR 0x00 \<notin> set input" using assms(1) by (simp add: acceptable_def)
  note clean = portable_chars(1) [of input] portable_chars(2) [OF this]
  have slash: "CHR 0x5C \<notin> set ?p" and nul: "CHR 0x00 \<notin> set ?p"
    using join_chars [of _ "''/''" ?ss] chars clean by fastforce+
  have "portable ?p = ?p" unfolding portable_def using slash by (intro map_idI) auto
  then have "split_on CHR ''/'' (portable ?p) = ?ss" using split_on_join [OF assms(2) slash_free [OF plain]] by simp
  then show again: "logical_segments ?p = ?ss"
    using plain unfolding logical_segments_def [of ?p] by (auto simp: plain_segment_def intro!: filter_True)
  obtain s rest where ss: "?ss = s # rest" using assms(2) by (cases ?ss) auto
  from plain_join(1,4) [of s rest] plain ss have "?p \<noteq> []" "\<not> posix_isAbsolute ?p" by simp_all
  then have "\<not> is_slash (hd ?p)" using slash by (cases ?p) (auto simp: is_slash_def posix_isAbsolute_def startsWith_def)
  with \<open>?p \<noteq> []\<close> nul again assms show "acceptable h ?p" by (simp add: acceptable_def)
qed

text \<open>
  A relative path is accepted exactly when it is not empty, has no NUL, no leading slash or drive letter and no \<open>..\<close> among its segments (on Windows, also no
  colon and no segment that ends in a dot or a space). The result is its segments joined by slashes, none of them empty, \<open>.\<close> or
  \<open>..\<close>; everything else is \<open>INVALID_PATH\<close>. Normalising a result again changes nothing, unless it looks like a path with a drive letter.
\<close>

theorem relative_path_normal:
  assumes "known_platform h"
  shows "normalizeRelativePath h input allowDot =
      (if acceptable h input \<and> (logical_segments input = [] \<longrightarrow> allowDot)
       then Inr (if logical_segments input = [] then ''.'' else join ''/'' (logical_segments input)) else Inl (PathError INVALID_PATH)) \<and>
    (acceptable h input \<longrightarrow> list_all plain_segment (logical_segments input)) \<and>
    (case normalizeRelativePath h input allowDot of
       Inr p \<Rightarrow> \<not> drive_prefix p \<longrightarrow> normalizeRelativePath h p allowDot = Inr p
     | Inl _ \<Rightarrow> True)"
proof (intro conjI)
  have dot: "acceptable h ''.''" "logical_segments ''.'' = []"
    by (simp_all add: acceptable_def logical_segments_def portable_def is_slash_def drive_prefix_def)
  show "case normalizeRelativePath h input allowDot of
       Inr p \<Rightarrow> \<not> drive_prefix p \<longrightarrow> normalizeRelativePath h p allowDot = Inr p | Inl _ \<Rightarrow> True"
    using dot normal_again [of h input] by (cases "logical_segments input = []") (simp_all add: normalize_eq [OF assms])
  show "acceptable h input \<longrightarrow> list_all plain_segment (logical_segments input)" using logical_plain by (auto simp: list_all_iff)
qed (rule normalize_eq [OF assms])

section \<open>What is authorised\<close>

text \<open>A path on a POSIX host below a directory: the links of the file system resolved.\<close>

definition below :: "string \<Rightarrow> string \<Rightarrow> string \<Rightarrow> bool" where
  "below dir base target = prefix (posix_segments dir base) (posix_segments dir target)"

lemma contained_below: "is_posix dir h \<Longrightarrow> isContained h base target = below dir base target"
  by (simp add: below_def contained_prefix)

definition unblocked :: "path_host \<Rightarrow> string list \<Rightarrow> string \<Rightarrow> bool" where
  "unblocked h globs p = list_all (\<lambda>g. \<not> minimatch h g (glob_candidate p)) globs"

definition policy_globs :: "ResolvedWorkspace \<Rightarrow> bool \<Rightarrow> string list" where
  "policy_globs w readGenerated = filter (\<lambda>g. \<not> (readGenerated \<and> g \<in> set readableGeneratedGlobs)) (rw_blockedGlobs w)"

lemma not_refused:
  assumes "refuse_blocked h p oper (matchedBlockedPattern h w q readGenerated) = Inr u" "[] \<notin> set (rw_blockedGlobs w)"
  shows "unblocked h (policy_globs w readGenerated) q"
proof (cases "matchedBlockedPattern h w q readGenerated")
  case None
  then show ?thesis by (auto simp: matchedBlockedPattern_def find_None_iff unblocked_def policy_globs_def list_all_iff)
next
  case (Some r)
  then have "r \<in> set (rw_blockedGlobs w)" by (auto simp: matchedBlockedPattern_def find_Some_iff)
  with assms Some show ?thesis by (auto simp: refuse_blocked_def split: if_splits)
qed

lemma not_blocked: "\<not> isBlocked h w p \<longleftrightarrow> unblocked h (rw_blockedGlobs w) p"
  by (auto simp: isBlocked_def matchedBlockedPattern_def find_None_iff unblocked_def list_all_iff)

lemma posix_platform: "is_posix dir h \<Longrightarrow> known_platform h"
  by (simp add: is_posix_def known_platform_def)

text \<open>The native path of a normalised one is, before links are resolved, below the root of the workspace.\<close>

lemma native_below:
  assumes "is_posix dir h" "normalizeRelativePath h input allowDot = Inr p"
  shows "below dir root (toNativeAbsolute h root p)"
proof (cases "p = ''.''")
  case False
  with assms have ok: "acceptable h input" "p = join ''/'' (logical_segments input)" "logical_segments input \<noteq> []"
    by (auto simp: normalize_eq [OF posix_platform [OF assms(1)]] split: if_splits)
  have plain: "\<forall>s \<in> set (logical_segments input). plain_segment s" using logical_plain [OF ok(1)] by blast
  have "split_on CHR ''/'' p = logical_segments input" using split_on_join [OF ok(3) slash_free [OF plain]] ok(2) by simp
  then have "toNativeAbsolute h root p = posix_resolve dir root (logical_segments input)"
    using assms(1) False by (simp add: toNativeAbsolute_def is_posix_def)
  then show ?thesis by (simp add: below_def segments_below [OF plain])
qed (simp add: below_def toNativeAbsolute_def)

lemma checked_kind_Inr:
  "checked_kind h expectedKind c = Inr k \<Longrightarrow> stat h c = Some k \<and> k \<noteq> OtherKind \<and> (expectedKind \<in> {Some RegularFile, Some Directory} \<longrightarrow> expectedKind = Some k)"
  by (cases k) (auto simp: checked_kind_def split: option.splits file_kind.splits if_splits)

text \<open>What holds of a path that \<open>authorizeExistingInternal\<close> lets through.\<close>

definition path_confined :: "string \<Rightarrow> path_host \<Rightarrow> ResolvedWorkspace \<Rightarrow> AuthorizedPath \<Rightarrow> bool" where
  "path_confined dir h w a =
    (below dir (rw_rootPath w) (ap_absolutePath a) \<and> realpath h (ap_absolutePath a) = Some (ap_canonicalPath a) \<and>
     below dir (rw_canonicalRootPath w) (ap_canonicalPath a) \<and> list_ex (\<lambda>r. below dir (ar_canonicalPath r) (ap_canonicalPath a)) (rw_allowedRoots w) \<and>
     isWithinLogicalAllowedRoot h w (ap_logicalPath a) \<and> stat h (ap_canonicalPath a) = Some (ap_kind a) \<and> ap_kind a \<noteq> OtherKind)"

lemma existing_confined:
  assumes "is_posix dir h" "authorizeExistingInternal h w input kind allowDot enforced oper readGenerated = Inr a"
  shows "path_confined dir h w a" "kind \<in> {Some RegularFile, Some Directory} \<Longrightarrow> kind = Some (ap_kind a)"
    and "enforced \<Longrightarrow> [] \<notin> set (rw_blockedGlobs w) \<Longrightarrow> unblocked h (policy_globs w readGenerated) (ap_logicalPath a) \<and>
      unblocked h (policy_globs w readGenerated) (ap_canonicalRelativePath a)"
proof -
  let ?check = "if enforced then authorizeLogical h w input allowDot oper readGenerated else normalizeRelativePath h input allowDot"
  from assms(2) obtain p where p: "?check = Inr p" "isWithinLogicalAllowedRoot h w p"
    and rest: "(let absolutePath = toNativeAbsolute h (rw_rootPath w) p
      in case realpath h absolutePath of
         None \<Rightarrow> Inl (PathError FILE_NOT_FOUND)
       | Some canonicalPath \<Rightarrow>
           if \<not> isContained h (rw_canonicalRootPath w) canonicalPath then Inl (PathError PATH_OUTSIDE_WORKSPACE)
           else if \<not> list_ex (\<lambda>root. isContained h (ar_canonicalPath root) canonicalPath) (rw_allowedRoots w)
           then Inl (PathError PATH_OUTSIDE_ALLOWED_ROOTS)
           else let portableCanonicalPath = canonical_relative h w canonicalPath
           in then_parse (refuse_blocked h p oper
                (if enforced then matchedBlockedPattern h w portableCanonicalPath readGenerated else None)) (\<lambda>_.
              then_parse (checked_kind h kind canonicalPath) (\<lambda>kind.
                Inr \<lparr>ap_logicalPath = p, ap_absolutePath = absolutePath, ap_canonicalPath = canonicalPath,
                     ap_canonicalRelativePath = portableCanonicalPath, ap_kind = kind\<rparr>))) = Inr a"
    unfolding authorizeExistingInternal_def then_parse_Inr by (auto split: if_splits)
  from rest obtain c k where c: "realpath h (toNativeAbsolute h (rw_rootPath w) p) = Some c" "isContained h (rw_canonicalRootPath w) c"
    "list_ex (\<lambda>root. isContained h (ar_canonicalPath root) c) (rw_allowedRoots w)" "checked_kind h kind c = Inr k"
    "enforced \<Longrightarrow> refuse_blocked h p oper (matchedBlockedPattern h w (canonical_relative h w c) readGenerated) = Inr ()"
    and a: "a = \<lparr>ap_logicalPath = p, ap_absolutePath = toNativeAbsolute h (rw_rootPath w) p, ap_canonicalPath = c,
       ap_canonicalRelativePath = canonical_relative h w c, ap_kind = k\<rparr>"
    by (auto simp: Let_def then_parse_Inr split: option.splits if_splits)
  have norm: "normalizeRelativePath h input allowDot = Inr p"
    and logical: "enforced \<Longrightarrow> refuse_blocked h p oper (matchedBlockedPattern h w p readGenerated) = Inr ()"
    using p(1) by (auto simp: authorizeLogical_def then_parse_Inr split: if_splits)
  show "path_confined dir h w a"
    using native_below [OF assms(1) norm] c p(2) checked_kind_Inr [OF c(4)] by (simp add: path_confined_def a contained_below [OF assms(1)])
  show "kind \<in> {Some RegularFile, Some Directory} \<Longrightarrow> kind = Some (ap_kind a)" using checked_kind_Inr [OF c(4)] by (simp add: a)
  show "enforced \<Longrightarrow> [] \<notin> set (rw_blockedGlobs w) \<Longrightarrow> unblocked h (policy_globs w readGenerated) (ap_logicalPath a) \<and>
      unblocked h (policy_globs w readGenerated) (ap_canonicalRelativePath a)"
    using not_refused logical c(5) by (simp add: a)
qed

section \<open>Writing\<close>

text \<open>The checks on the resolved paths of a target, by whether it exists.\<close>

definition target_checked :: "string \<Rightarrow> path_host \<Rightarrow> ResolvedWorkspace \<Rightarrow> AuthorizedWritePath \<Rightarrow> bool" where
  "target_checked dir h w a =
    (let parent = realpath h (path_dirname h (aw_absolutePath a)); root = rw_canonicalRootPath w
     in if aw_created a
        then stat h (aw_absolutePath a) = None \<and> pred_option (below dir root) parent \<and>
          list_all (\<lambda>q. unblocked h (rw_blockedGlobs w) q \<and> isAllowedWritePath h w q) (ancestors (aw_logicalPath a))
        else stat h (aw_absolutePath a) = Some RegularFile \<and> parent \<noteq> None \<and> realpath h (aw_absolutePath a) \<noteq> None \<and>
          pred_option (below dir root) parent \<and> pred_option (below dir root) (realpath h (aw_absolutePath a)))"

lemma mapM_unit: "mapM f xs = Inr ys \<Longrightarrow> x \<in> set xs \<Longrightarrow> \<exists>y. f x = Inr y"
  by (induction xs arbitrary: ys) (auto split: sum.splits)

lemma creatable_ancestors:
  assumes "assertCreatableAncestors h w p = Inr u"
  shows "list_all (\<lambda>q. unblocked h (rw_blockedGlobs w) q \<and> isAllowedWritePath h w q) (ancestors p)"
proof -
  from assms obtain us where "mapM (\<lambda>ancestor. if isBlocked h w ancestor then Inl (PathError BLOCKED_PATH)
        else if \<not> isAllowedWritePath h w ancestor then Inl (PathError WRITE_NOT_ALLOWED) else Inr ()) (ancestors p) = Inr us"
    by (auto simp: assertCreatableAncestors_def then_parse_Inr)
  from mapM_unit [OF this] show ?thesis by (fastforce simp: list_all_iff not_blocked [symmetric] split: if_splits)
qed


section \<open>Concrete workspaces\<close>

text \<open>A host whose file system is a table of the paths that exist, with their resolved paths and kinds.\<close>

definition table_host :: "(string \<times> string \<times> file_kind) list \<Rightarrow> (string \<times> string) list \<Rightarrow> path_host" where
  "table_host files matches =
    \<lparr>isWindows = False, path_isAbsolute = posix_isAbsolute, path_relative = posix_relative ''/'', path_resolve = posix_resolve ''/'',
     path_dirname = posix_dirname, path_sep = CHR ''/'', realpath = \<lambda>p. map_option fst (map_of files p), stat = \<lambda>p. map_option snd (map_of files p),
     lstat_isSymbolicLink = \<lambda>p. map_option (\<lambda>f. fst f \<noteq> p) (map_of files p), minimatch = \<lambda>g p. (g, p) \<in> set matches\<rparr>"

lemma table_posix: "is_posix ''/'' (table_host files matches)"
  by (simp add: is_posix_def table_host_def)

definition table_workspace :: ResolvedWorkspace where
  "table_workspace =
    \<lparr>rw_id = ''w'', rw_name = ''w'', rw_rootPath = ''/w'', rw_workspaceKind = None, rw_canonicalRootPath = ''/w'', rw_enabled = True,
     rw_permissionProfile = ''full-repo-write'', rw_confirmationMode = ''standard'',
     rw_allowedRoots = [\<lparr>ar_logicalPath = ''.'', ar_absolutePath = ''/w'', ar_canonicalPath = ''/w'', ar_kind = Directory\<rparr>],
     rw_blockedGlobs = mandatoryBlockedGlobs,
     rw_limits = \<lparr>maxFileBytes = 1, maxSearchResults = 1, maxSearchSnippetBytes = 1, maxDiffBytes = 1, maxListedFiles = 1,
       maxDiscoveryDirectories = None, maxDiscoveryEntries = None, maxDiscoveryDurationMs = None\<rparr>,
     rw_allowWrites = [''.''], rw_allowShell = [], rw_allowedShells = [], rw_sourceControl = None\<rparr>"

definition new_file :: AuthorizedWritePath where
  "new_file = \<lparr>aw_logicalPath = ''link/new/f'', aw_absolutePath = ''/w/link/new/f'', aw_created = True\<rparr>"

definition link_outside :: path_host where
  "link_outside = table_host [(''/w'', ''/w'', Directory), (''/w/link'', ''/x'', Directory), (''/x'', ''/x'', Directory)] []"

definition link_to_git :: path_host where
  "link_to_git = table_host
    [(''/w'', ''/w'', Directory), (''/w/.git'', ''/w/.git'', Directory), (''/w/.git/config'', ''/w/.git/config'', RegularFile),
     (''/w/g'', ''/w/.git'', Directory), (''/w/g/config'', ''/w/.git/config'', RegularFile)] [(''**/.git/**'', ''.git/config'')]"

lemma new_file_authorized: "authorizeWriteTarget link_outside table_workspace ''link/new/f'' = Inr new_file"
  by code_simp

text \<open>
  The two gaps of \<open>authorizeWriteTarget\<close>. When the parent of a new file does not exist yet, none of its ancestors is resolved: a file in a new directory
  below a link that leaves the workspace is let through. And the blocked globs are not matched against the resolved path: below a link
  to a blocked directory a file may be written that \<open>authorizeExisting\<close> refuses.
\<close>

theorem write_target_gaps:
  "authorizeWriteTarget link_outside table_workspace ''link/new/f'' = Inr new_file \<and> aw_absolutePath new_file = ''/w/link/new/f'' \<and>
   realpath link_outside ''/w/link'' = Some ''/x'' \<and> \<not> isContained link_outside (rw_canonicalRootPath table_workspace) ''/x'' \<and>
   authorizeWriteTarget link_to_git table_workspace ''g/config'' =
     Inr \<lparr>aw_logicalPath = ''g/config'', aw_absolutePath = ''/w/g/config'', aw_created = False\<rparr> \<and>
   authorizeExisting link_to_git table_workspace ''g/config'' None False None =
     Inl (BlockedPath \<lparr>bd_path = ''g/config'', bd_policyRule = ''**/.git/**'', bd_operation = None, bd_safeAlternative = None\<rparr>)"
  by code_simp

theorem contained_iff_prefix_witness: "isContained link_outside ''/w'' ''/w/a/../..x/b'' \<and> \<not> isContained link_outside ''/w'' ''/wx''"
proof -
  have "is_posix ''/'' link_outside" by (simp add: link_outside_def table_posix)
  from contained_iff_prefix [OF this, of "''/w''" "''/w/a/../..x/b''"] contained_iff_prefix [OF this, of "''/w''" "''/wx''"]
  show ?thesis by code_simp
qed


end
