(* ===== verification/WorkspaceRegistry.thy ===== *)
theory WorkspaceRegistry
  imports PathSecurity
begin

text \<open>
  The workspaces a policy names, with their roots resolved: \<open>services/workspace-agent/src/workspace-registry.ts\<close>. Several roots of a workspace are resolved at the same
  time; of several failures the first one in the order of the policy is reported here.
\<close>

section \<open>Resolving a policy\<close>

datatype policy_content = UnreadablePolicy | NotJsonPolicy | OtherPolicy | PolicyFile "WorkspacePolicy list"

definition profile_ok :: "WorkspacePolicy \<Rightarrow> ResolvedAllowedRoot list \<Rightarrow> bool" where
  "profile_ok workspace roots =
    (let whole = (length roots = 1 \<and> ar_logicalPath (hd roots) = ''.'')
     in (permissionProfile workspace = ''full-repo-readonly'' \<longrightarrow> whole) \<and>
        (permissionProfile workspace = ''full-repo-write'' \<longrightarrow> whole \<and> allowWrites workspace \<noteq> []))"

definition canonical_root :: "path_host \<Rightarrow> WorkspacePolicy \<Rightarrow> string path_result" where
  "canonical_root h workspace =
    (if \<not> path_isAbsolute h (rootPath workspace) then Inl (PathError POLICY_INVALID)
     else case realpath h (rootPath workspace) of
       None \<Rightarrow> Inl (PathError POLICY_INVALID)
     | Some root \<Rightarrow> if stat h root = Some Directory then Inr root else Inl (PathError POLICY_INVALID))"

definition resolve_workspace :: "path_host \<Rightarrow> WorkspacePolicy \<Rightarrow> ResolvedWorkspace path_result" where
  "resolve_workspace h workspace =
    then_parse (canonical_root h workspace) (\<lambda>canonicalRootPath.
    then_parse (mapM (resolveAllowedRoot h canonicalRootPath (rootPath workspace)) (allowedRoots workspace)) (\<lambda>roots.
    if \<not> profile_ok workspace roots then Inl (PathError POLICY_INVALID)
    else then_parse (mapM (\<lambda>p. normalizeRelativePath h p True) (allowWrites workspace)) (\<lambda>writes.
    then_parse (mapM (\<lambda>p. normalizeRelativePath h p True) (allowShell workspace)) (\<lambda>shells.
      Inr \<lparr>rw_id = ws_id workspace, rw_name = ws_name workspace, rw_rootPath = rootPath workspace,
        rw_workspaceKind = Some (case workspaceKind workspace of None \<Rightarrow> ''repository'' | Some k \<Rightarrow> k),
        rw_canonicalRootPath = canonicalRootPath, rw_enabled = ws_enabled workspace, rw_permissionProfile = permissionProfile workspace,
        rw_confirmationMode = confirmationMode workspace, rw_allowedRoots = roots,
        rw_blockedGlobs = Set_from (mandatoryBlockedGlobs @ blockedGlobs workspace), rw_limits = limits workspace,
        rw_allowWrites = writes, rw_allowShell = shells, rw_allowedShells = allowedShells workspace, rw_sourceControl = sourceControl workspace\<rparr>))))"

type_synonym workspace_registry = "(string, ResolvedWorkspace) jsMap"

definition resolveWorkspaces :: "path_host \<Rightarrow> WorkspacePolicy list \<Rightarrow> workspace_registry path_result" where
  "resolveWorkspaces h workspaces =
    then_parse (mapM (resolve_workspace h) workspaces) (\<lambda>ws. Inr (Map_from (map (\<lambda>w. (rw_id w, w)) ws)))"

definition fromPolicy :: "path_host \<Rightarrow> WorkspacePolicy list \<Rightarrow> workspace_registry path_result" where
  "fromPolicy h policy = (if \<not> policyFileSchema policy then Inl (PathError POLICY_INVALID) else resolveWorkspaces h policy)"

definition load_registry :: "path_host \<Rightarrow> string \<Rightarrow> policy_content \<Rightarrow> workspace_registry path_result" where
  "load_registry h policyPath content =
    (if \<not> path_isAbsolute h policyPath then Inl (PathError POLICY_INVALID)
     else case content of
       PolicyFile policy \<Rightarrow> if \<not> policyFileSchema policy then Inl (PathError POLICY_INVALID) else fromPolicy h policy
     | _ \<Rightarrow> Inl (PathError POLICY_INVALID))"

record WorkspaceSummary =
  su_id :: string
  su_name :: string
  su_workspaceKind :: string
  su_permissionProfile :: string
  su_confirmationMode :: string
  su_writesEnabled :: bool
  su_shellsEnabled :: bool
  su_allowedShells :: "shell_name list"

definition summary :: "ResolvedWorkspace \<Rightarrow> WorkspaceSummary" where
  "summary w = \<lparr>su_id = rw_id w, su_name = rw_name w, su_workspaceKind = (case rw_workspaceKind w of None \<Rightarrow> ''repository'' | Some k \<Rightarrow> k),
     su_permissionProfile = rw_permissionProfile w, su_confirmationMode = rw_confirmationMode w,
     su_writesEnabled = (rw_permissionProfile w = ''full-repo-write'' \<and> rw_allowWrites w \<noteq> []),
     su_shellsEnabled = (rw_permissionProfile w = ''full-repo-write'' \<and> rw_allowShell w \<noteq> []), su_allowedShells = rw_allowedShells w\<rparr>"

definition listEnabled :: "(string \<Rightarrow> string \<Rightarrow> int) \<Rightarrow> workspace_registry \<Rightarrow> WorkspaceSummary list" where
  "listEnabled localeCompare registry =
    sort_cmp (\<lambda>l r. localeCompare (su_id l) (su_id r)) (map summary (filter rw_enabled (Map_values registry)))"

definition get_workspace :: "workspace_registry \<Rightarrow> string \<Rightarrow> ResolvedWorkspace path_result" where
  "get_workspace registry i =
    (case Map_get registry i of
       None \<Rightarrow> Inl (PathError WORKSPACE_NOT_FOUND)
     | Some w \<Rightarrow> if \<not> rw_enabled w then Inl (PathError WORKSPACE_DISABLED) else Inr w)"

definition all_workspaces :: "workspace_registry \<Rightarrow> ResolvedWorkspace list" where
  "all_workspaces registry = Map_values registry"

section \<open>Resolved workspaces\<close>

text \<open>What resolving establishes of a workspace.\<close>

definition workspace_sound :: "string \<Rightarrow> path_host \<Rightarrow> WorkspacePolicy \<Rightarrow> ResolvedWorkspace \<Rightarrow> bool" where
  "workspace_sound dir h policy w =
    (rw_id w = ws_id policy \<and> rw_enabled w = ws_enabled policy \<and> rw_rootPath w = rootPath policy \<and>
     realpath h (rw_rootPath w) = Some (rw_canonicalRootPath w) \<and> stat h (rw_canonicalRootPath w) = Some Directory \<and>
     set (rw_blockedGlobs w) = set mandatoryBlockedGlobs \<union> set (blockedGlobs policy) \<and>
     length (rw_allowedRoots w) = length (allowedRoots policy) \<and>
     list_all (\<lambda>r. realpath h (ar_absolutePath r) = Some (ar_canonicalPath r) \<and> below dir (rw_canonicalRootPath w) (ar_canonicalPath r) \<and>
       below dir (rw_rootPath w) (ar_absolutePath r)) (rw_allowedRoots w) \<and>
     (rw_permissionProfile w \<in> {''full-repo-readonly'', ''full-repo-write''} \<longrightarrow> map ar_logicalPath (rw_allowedRoots w) = [''.'']) \<and>
     (rw_permissionProfile w = ''full-repo-write'' \<longrightarrow> rw_allowWrites w \<noteq> []))"

lemma mapM_length: "mapM f xs = Inr ys \<Longrightarrow> length ys = length xs"
  by (induction xs arbitrary: ys) (auto split: sum.splits)

lemma resolved_root:
  assumes "is_posix dir h" "resolveAllowedRoot h canonical root p = Inr r"
  shows "realpath h (ar_absolutePath r) = Some (ar_canonicalPath r) \<and> below dir canonical (ar_canonicalPath r) \<and> below dir root (ar_absolutePath r)"
proof -
  from assms(2) obtain q where q: "normalizeRelativePath h p True = Inr q"
    and rest: "(case realpath h (toNativeAbsolute h root q) of
         None \<Rightarrow> Inl (PathError POLICY_INVALID)
       | Some canonicalPath \<Rightarrow>
           if \<not> isContained h canonical canonicalPath then Inl (PathError POLICY_INVALID)
           else (case stat h canonicalPath of
               None \<Rightarrow> Inl SystemError
             | Some kind \<Rightarrow>
                 if kind \<noteq> RegularFile \<and> kind \<noteq> Directory then Inl (PathError POLICY_INVALID)
                 else Inr \<lparr>ar_logicalPath = q, ar_absolutePath = toNativeAbsolute h root q, ar_canonicalPath = canonicalPath,
                        ar_kind = (if kind = RegularFile then RegularFile else Directory)\<rparr>)) = Inr r"
    unfolding resolveAllowedRoot_def then_parse_Inr Let_def by blast
  from rest obtain c where "realpath h (toNativeAbsolute h root q) = Some c" "isContained h canonical c" by (auto split: option.splits if_splits)
  moreover from this rest have "ar_absolutePath r = toNativeAbsolute h root q" "ar_canonicalPath r = c" by (auto split: option.splits if_splits)
  ultimately have "realpath h (ar_absolutePath r) = Some (ar_canonicalPath r)" "isContained h canonical (ar_canonicalPath r)"
    "ar_absolutePath r = toNativeAbsolute h root q" by simp_all
  with native_below [OF assms(1) q] show ?thesis by (simp add: contained_below [OF assms(1)])
qed

lemma canonical_root_Inr: "canonical_root h p = Inr c \<Longrightarrow> realpath h (rootPath p) = Some c \<and> stat h c = Some Directory"
  by (auto simp: canonical_root_def split: option.splits if_splits)

lemma resolve_workspace_sound:
  assumes "is_posix dir h" "resolve_workspace h p = Inr w"
  shows "workspace_sound dir h p w"
proof -
  from assms(2) obtain c roots writes shells where c: "canonical_root h p = Inr c"
    and roots: "mapM (resolveAllowedRoot h c (rootPath p)) (allowedRoots p) = Inr roots" "profile_ok p roots"
    and writes: "mapM (\<lambda>q. normalizeRelativePath h q True) (allowWrites p) = Inr writes"
    and w: "w = \<lparr>rw_id = ws_id p, rw_name = ws_name p, rw_rootPath = rootPath p,
        rw_workspaceKind = Some (case workspaceKind p of None \<Rightarrow> ''repository'' | Some k \<Rightarrow> k),
        rw_canonicalRootPath = c, rw_enabled = ws_enabled p, rw_permissionProfile = permissionProfile p,
        rw_confirmationMode = confirmationMode p, rw_allowedRoots = roots,
        rw_blockedGlobs = Set_from (mandatoryBlockedGlobs @ blockedGlobs p), rw_limits = limits p,
        rw_allowWrites = writes, rw_allowShell = shells, rw_allowedShells = allowedShells p, rw_sourceControl = sourceControl p\<rparr>"
    unfolding resolve_workspace_def by (auto simp: then_parse_Inr split: if_splits)
  have "r \<in> set roots \<Longrightarrow> \<exists>q. resolveAllowedRoot h c (rootPath p) q = Inr r" for r using mapM_members [OF roots(1)] by blast
  then have below: "\<forall>r \<in> set roots. realpath h (ar_absolutePath r) = Some (ar_canonicalPath r) \<and> below dir c (ar_canonicalPath r) \<and>
      below dir (rootPath p) (ar_absolutePath r)" using resolved_root [OF assms(1)] by blast
  have whole: "length roots = 1 \<and> ar_logicalPath (hd roots) = ''.'' \<Longrightarrow> map ar_logicalPath roots = [''.'']" by (cases roots) auto
  from roots(2) whole mapM_length [OF writes] have profile:
    "permissionProfile p \<in> {''full-repo-readonly'', ''full-repo-write''} \<longrightarrow> map ar_logicalPath roots = [''.'']"
    "permissionProfile p = ''full-repo-write'' \<longrightarrow> writes \<noteq> []"
    by (auto simp: profile_ok_def Let_def)
  show ?thesis using canonical_root_Inr [OF c] below profile mapM_length [OF roots(1)]
    unfolding workspace_sound_def w by (simp add: list_all_iff)
qed

lemma resolve_workspace_id: "resolve_workspace h p = Inr w \<Longrightarrow> rw_id w = ws_id p \<and> rw_enabled w = ws_enabled p"
  unfolding resolve_workspace_def by (auto simp: then_parse_Inr split: if_splits)

lemma mapM_id: "mapM (resolve_workspace h) ps = Inr ws \<Longrightarrow> map rw_id ws = map ws_id ps"
  by (induction ps arbitrary: ws) (auto simp: resolve_workspace_id split: sum.splits)

lemma registry_get:
  assumes "fromPolicy h policy = Inr reg"
  shows "Map_get reg i = Some w \<longleftrightarrow> (\<exists>p \<in> set policy. ws_id p = i \<and> resolve_workspace h p = Inr w)"
proof -
  from assms obtain ws where ws: "mapM (resolve_workspace h) policy = Inr ws" "reg = Map_from (map (\<lambda>w. (rw_id w, w)) ws)"
    and unique: "distinct (map ws_id policy)"
    by (auto simp: fromPolicy_def resolveWorkspaces_def then_parse_Inr policyFileSchema_def refineUniqueWorkspaceIds_def split: if_splits)
  have "map fst (rev (map (\<lambda>w. (rw_id w, w)) ws)) = rev (map rw_id ws)" by (simp add: rev_map comp_def)
  then have "distinct (map fst (rev (map (\<lambda>w. (rw_id w, w)) ws)))"
    unfolding \<open>map fst _ = _\<close> distinct_rev mapM_id [OF ws(1)] using unique by simp
  from map_of_eq_Some_iff [OF this, of i w] have "Map_get reg i = Some w \<longleftrightarrow> w \<in> set ws \<and> rw_id w = i"
    by (auto simp: ws(2) Map_get_from)
  with mapM_members [OF ws(1), of w] show ?thesis using resolve_workspace_id [of h _ w] by metis
qed

lemma registry_has:
  assumes "fromPolicy h policy = Inr reg" "p \<in> set policy"
  shows "\<exists>w. Map_get reg (ws_id p) = Some w"
proof -
  from assms(1) obtain ws where "mapM (resolve_workspace h) policy = Inr ws"
    by (auto simp: fromPolicy_def resolveWorkspaces_def then_parse_Inr split: if_splits)
  from mapM_unit [OF this assms(2)] registry_get [OF assms(1)] assms(2) show ?thesis by blast
qed

lemma got_workspace:
  assumes "is_posix dir h" "fromPolicy h policy = Inr reg" "get_workspace reg i = Inr w"
  shows "\<exists>p \<in> set policy. ws_id p = i \<and> ws_enabled p \<and> workspace_sound dir h p w"
proof -
  from assms(3) have "Map_get reg i = Some w" "rw_enabled w" by (auto simp: get_workspace_def split: option.splits if_splits)
  with registry_get [OF assms(2)] resolve_workspace_sound [OF assms(1)] resolve_workspace_id show ?thesis by metis
qed

text \<open>
  C35. A registry made from a policy finds exactly the workspaces of the policy: an unknown one is \<open>WORKSPACE_NOT_FOUND\<close>, a disabled one \<open>WORKSPACE_DISABLED\<close>, and a
  found one has its root and its allowed roots resolved below it, blocks the mandatory globs whatever the policy says, and has the roots and
  writable paths its profile requires.
\<close>

theorem registry_sound:
  assumes "is_posix dir h" "fromPolicy h policy = Inr reg"
  shows "case get_workspace reg i of
      Inr w \<Rightarrow> (\<exists>p \<in> set policy. ws_id p = i \<and> ws_enabled p \<and> workspace_sound dir h p w)
    | Inl e \<Rightarrow> e = PathError (if i \<in> ws_id ` set policy then WORKSPACE_DISABLED else WORKSPACE_NOT_FOUND) \<and>
        (\<forall>p \<in> set policy. ws_id p = i \<longrightarrow> \<not> ws_enabled p)"
proof (cases "Map_get reg i")
  case None
  then have "i \<notin> ws_id ` set policy" using registry_has [OF assms(2)] by (metis imageE option.distinct(1))
  with None show ?thesis by (auto simp: get_workspace_def)
next
  case (Some w)
  then obtain p where p: "p \<in> set policy" "ws_id p = i" "resolve_workspace h p = Inr w" using registry_get [OF assms(2)] by blast
  show ?thesis
  proof (cases "rw_enabled w")
    case True
    with Some got_workspace [OF assms, of i w] show ?thesis by (simp add: get_workspace_def)
  next
    case False
    have "distinct (map ws_id policy)" using assms(2)
      by (auto simp: fromPolicy_def policyFileSchema_def refineUniqueWorkspaceIds_def split: if_splits)
    then have "q = p" if "q \<in> set policy" "ws_id q = i" for q
      using p(1,2) that unfolding distinct_map inj_on_def by blast
    then have "\<forall>q \<in> set policy. ws_id q = i \<longrightarrow> \<not> ws_enabled q" using False resolve_workspace_id [OF p(3)] by metis
    moreover have "i \<in> ws_id ` set policy" using p(1,2) by blast
    ultimately show ?thesis using False Some by (simp add: get_workspace_def)
  qed
qed

text \<open>
  C2. Whatever a file system answers at the time of the policy and at the time of an operation: a path of a workspace that is let through for reading
  belongs to an enabled workspace, is below the root and an allowed root both before and after its links are resolved, and no mandatory
  glob and no glob of the policy matches it, neither as it was asked for nor resolved; the reading of a single file may only reach the generated directories on top.
\<close>

theorem existing_path_confined:
  assumes "is_posix dir h" "fromPolicy h policy = Inr reg" "get_workspace reg i = Inr w" "is_posix dir now"
    "authorizeExisting now w input kind allowDot oper = Inr a \<or> authorizeExistingFileRead now w input action = Inr b"
  shows "\<exists>p \<in> set policy. ws_id p = i \<and> ws_enabled p \<and>
    (authorizeExisting now w input kind allowDot oper = Inr a \<longrightarrow> path_confined dir now w a \<and>
       (\<forall>g \<in> set mandatoryBlockedGlobs \<union> set (blockedGlobs p).
          \<not> minimatch now g (glob_candidate (ap_logicalPath a)) \<and> \<not> minimatch now g (glob_candidate (ap_canonicalRelativePath a)))) \<and>
    (authorizeExistingFileRead now w input action = Inr b \<longrightarrow> path_confined dir now w b \<and> ap_kind b = RegularFile \<and>
       (\<forall>g \<in> set mandatoryBlockedGlobs \<union> set (blockedGlobs p) - set readableGeneratedGlobs.
          \<not> minimatch now g (glob_candidate (ap_logicalPath b)) \<and> \<not> minimatch now g (glob_candidate (ap_canonicalRelativePath b))))"
proof -
  from got_workspace [OF assms(1-3)] obtain p where p: "p \<in> set policy" "ws_id p = i" "ws_enabled p" "workspace_sound dir h p w" by blast
  have "list_all trimmed_text (blockedGlobs p)"
    using assms(2) p(1) by (auto simp: fromPolicy_def policyFileSchema_def workspacePolicySchema_def list_all_iff split: if_splits)
  then have globs: "set (rw_blockedGlobs w) = set mandatoryBlockedGlobs \<union> set (blockedGlobs p)" "[] \<notin> set (rw_blockedGlobs w)"
    using p(4) by (auto simp: workspace_sound_def mandatoryBlockedGlobs_def trimmed_text_def list_all_iff)
  have "path_confined dir now w a \<and> unblocked now (policy_globs w False) (ap_logicalPath a) \<and> unblocked now (policy_globs w False) (ap_canonicalRelativePath a)"
    if "authorizeExisting now w input kind allowDot oper = Inr a"
    using existing_confined [OF assms(4) that [unfolded authorizeExisting_def]] globs(2) by simp
  moreover have "path_confined dir now w b \<and> ap_kind b = RegularFile \<and> unblocked now (policy_globs w True) (ap_logicalPath b) \<and>
      unblocked now (policy_globs w True) (ap_canonicalRelativePath b)"
    if "authorizeExistingFileRead now w input action = Inr b"
    using existing_confined [OF assms(4) that [unfolded authorizeExistingFileRead_def]] globs(2) by simp
  ultimately show ?thesis using p(1-3) globs(1)
    by (intro bexI [OF _ p(1)]) (auto simp: unblocked_def policy_globs_def list_all_iff)
qed

section \<open>A concrete policy\<close>

definition repo_policy :: "bool \<Rightarrow> WorkspacePolicy" where
  "repo_policy enabled =
    \<lparr>ws_id = ''w'', ws_name = ''w'', rootPath = ''/w'', workspaceKind = None, ws_enabled = enabled, permissionProfile = ''full-repo-write'',
     confirmationMode = ''standard'', allowedRoots = [''.''], blockedGlobs = [],
     limits = \<lparr>maxFileBytes = 1, maxSearchResults = 1, maxSearchSnippetBytes = 1, maxDiffBytes = 1, maxListedFiles = 1,
       maxDiscoveryDirectories = None, maxDiscoveryEntries = None, maxDiscoveryDurationMs = None\<rparr>,
     allowWrites = [''.''], allowShell = [], allowedShells = [], sourceControl = None\<rparr>"

definition repo_workspace :: "bool \<Rightarrow> ResolvedWorkspace" where
  "repo_workspace enabled = table_workspace\<lparr>rw_workspaceKind := Some ''repository'', rw_enabled := enabled\<rparr>"

lemma repo_schema: "policyFileSchema [repo_policy enabled]"
  by (simp add: policyFileSchema_def workspacePolicySchema_def repo_policy_def refineUniqueWorkspaceIds_def trimmed_text_def trim_def is_space_def
      is_alnum_def is_id_char_def permissionProfiles_def confirmationModes_def workspaceLimitsSchema_def of_char_def)

lemma resolved_repo: "resolveWorkspaces link_to_git [repo_policy True] = Inr [(''w'', repo_workspace True)]"
  "resolveWorkspaces link_to_git [repo_policy False] = Inr [(''w'', repo_workspace False)]"
  by code_simp+

lemma repo_registry: "fromPolicy link_to_git [repo_policy True] = Inr [(''w'', repo_workspace True)]"
  "fromPolicy link_to_git [repo_policy False] = Inr [(''w'', repo_workspace False)]"
  by (simp_all add: fromPolicy_def repo_schema resolved_repo)

lemma git_posix: "is_posix ''/'' link_to_git"
  by (simp add: link_to_git_def table_posix)

theorem registry_sound_witness:
  "workspace_sound ''/'' link_to_git (repo_policy True) (repo_workspace True) \<and> get_workspace [(''w'', repo_workspace False)] ''w'' = Inl (PathError WORKSPACE_DISABLED)"
proof -
  have on: "get_workspace [(''w'', repo_workspace True)] ''w'' = Inr (repo_workspace True)" by code_simp
  have "isl (get_workspace [(''w'', repo_workspace False)] ''w'')" by code_simp
  then obtain e where off: "get_workspace [(''w'', repo_workspace False)] ''w'' = Inl e" by (auto simp: isl_def)
  from registry_sound [OF git_posix repo_registry(1), of "''w''"] on
  have "workspace_sound ''/'' link_to_git (repo_policy True) (repo_workspace True)" by simp
  moreover from registry_sound [OF git_posix repo_registry(2), of "''w''"] off
  have "get_workspace [(''w'', repo_workspace False)] ''w'' = Inl (PathError WORKSPACE_DISABLED)" by (auto simp: repo_policy_def)
  ultimately show ?thesis by simp
qed

theorem existing_path_confined_witness:
  "case authorizeExisting link_to_git (repo_workspace True) ''.git'' None False None of
     Inr a \<Rightarrow> path_confined ''/'' link_to_git (repo_workspace True) a \<and> ap_canonicalRelativePath a = ''.git'' | Inl _ \<Rightarrow> False"
proof -
  let ?a = "\<lparr>ap_logicalPath = ''.git'', ap_absolutePath = ''/w/.git'', ap_canonicalPath = ''/w/.git'', ap_canonicalRelativePath = ''.git'',
    ap_kind = Directory\<rparr>"
  have got: "get_workspace [(''w'', repo_workspace True)] ''w'' = Inr (repo_workspace True)" by code_simp
  have let_through: "authorizeExisting link_to_git (repo_workspace True) ''.git'' None False None = Inr ?a" by code_simp
  from existing_path_confined [OF git_posix repo_registry(1) got git_posix disjI1 [OF let_through]] let_through show ?thesis by auto
qed

end
