(* ===== verification/Deadlines.thy ===== *)
theory Deadlines
  imports Prelude
begin

text \<open>
  Deadlines that pass through the layers of the system, and which relayed operations may be repeated: \<open>packages/mcp-core/src/timeout-policy.ts\<close> and
  \<open>relay-retry-policy.ts\<close>. \<open>Date.parse\<close> and the text of a date are parameters.
\<close>

section \<open>Deadlines\<close>

definition MAX_BACKGROUND_OPERATION_TIMEOUT_MS :: int where
  "MAX_BACKGROUND_OPERATION_TIMEOUT_MS = 86400000"

record OperationDeadline =
  requestedTimeoutMs :: int
  effectiveTimeoutMs :: int
  deadlineAt :: string

record dates =
  parse_date :: "string \<Rightarrow> millis option"
  date_text :: "millis \<Rightarrow> string"
  datetime_format :: "string \<Rightarrow> bool"

text \<open>A number that is asked for: only its integral part matters.\<close>

datatype asked = Truncated int | NaN | PlusInfinity | MinusInfinity

definition operationDeadlineSchema :: "dates \<Rightarrow> OperationDeadline \<Rightarrow> bool" where
  "operationDeadlineSchema D d =
    (0 < requestedTimeoutMs d \<and> requestedTimeoutMs d \<le> MAX_BACKGROUND_OPERATION_TIMEOUT_MS \<and>
     0 \<le> effectiveTimeoutMs d \<and> effectiveTimeoutMs d < 2 ^ 53 \<and> datetime_format D (deadlineAt d))"

text \<open>\<open>Math.min(Math.max(1, Math.trunc(n)), MAX)\<close>, where \<open>NaN\<close> has no value.\<close>

definition clamp_timeout :: "asked \<Rightarrow> int option" where
  "clamp_timeout n = (case n of
      NaN \<Rightarrow> None
    | PlusInfinity \<Rightarrow> Some MAX_BACKGROUND_OPERATION_TIMEOUT_MS
    | MinusInfinity \<Rightarrow> Some 1
    | Truncated k \<Rightarrow> Some (min (max 1 k) MAX_BACKGROUND_OPERATION_TIMEOUT_MS))"

text \<open>A \<open>NaN\<close> makes the date invalid, and \<open>toISOString\<close> throws a \<open>RangeError\<close>, as it does beyond the range of dates.\<close>

definition createOperationDeadline :: "dates \<Rightarrow> asked \<Rightarrow> OperationDeadline option \<Rightarrow> millis \<Rightarrow> OperationDeadline result" where
  "createOperationDeadline D asked_timeout upstream now =
    (case clamp_timeout asked_timeout of
       None \<Rightarrow> Inl RangeError
     | Some requested \<Rightarrow>
         let requestedDeadline = now + requested;
             upstreamDeadline = Option.bind upstream (\<lambda>u. parse_date D (deadlineAt u));
             deadline = (case upstreamDeadline of None \<Rightarrow> requestedDeadline | Some t \<Rightarrow> min requestedDeadline t);
             result = \<lparr>requestedTimeoutMs = (case upstream of None \<Rightarrow> requested | Some u \<Rightarrow> requestedTimeoutMs u),
               effectiveTimeoutMs = max 0 (deadline - now), deadlineAt = date_text D deadline\<rparr>
         in if 8640000000000000 < \<bar>deadline\<bar> then Inl RangeError
            else if \<not> operationDeadlineSchema D result then Inl ZodError
            else Inr result)"

definition remainingOperationTimeMs :: "dates \<Rightarrow> OperationDeadline \<Rightarrow> millis \<Rightarrow> int" where
  "remainingOperationTimeMs D deadline now =
    (case parse_date D (deadlineAt deadline) of None \<Rightarrow> 0 | Some t \<Rightarrow> max 0 (t - now))"

section \<open>Repeating relayed operations\<close>

definition RETRYABLE_RELAY_OPERATIONS :: "string list" where
  "RETRYABLE_RELAY_OPERATIONS =
    [''listWorkspaces'', ''listWorkspaceRoots'', ''listFiles'', ''readFile'', ''readBinaryFile'', ''runValidation'', ''searchFiles'', ''inspectGit'',
     ''getWorkspaceContext'', ''getBackgroundTask'', ''waitBackgroundTask'', ''listBackgroundTasks'', ''readBackgroundTaskLogs'', ''githubGetRepository'',
     ''githubGetCommitChecks'', ''githubGetCommitChecksWatches'', ''githubWaitCommitChecksWatch'', ''githubGetPullRequest'', ''githubRead'', ''httpGet'']"

definition isRetryableRelayOperation :: "string \<Rightarrow> bool" where
  "isRetryableRelayOperation oper = (oper \<in> set RETRYABLE_RELAY_OPERATIONS)"

datatype AgentAvailabilityReason = AgentNotConnected | RelaySendFailed | AgentDisconnected | GatewayShutdown | ReconnectTimeout

datatype AgentAvailabilityOutcome = NotStarted | UnknownOutcome

record unavailable_details =
  ua_operation :: string
  ua_reason :: AgentAvailabilityReason
  ua_retryable :: bool
  ua_retryAttempted :: bool
  ua_outcome :: AgentAvailabilityOutcome
  ua_connectionGeneration :: int

definition createAgentUnavailableDetails :: "string \<Rightarrow> AgentAvailabilityReason \<Rightarrow> AgentAvailabilityOutcome \<Rightarrow> int \<Rightarrow> bool option \<Rightarrow> unavailable_details" where
  "createAgentUnavailableDetails oper reason outcome generation retryAttempted =
    \<lparr>ua_operation = oper, ua_reason = reason, ua_retryable = isRetryableRelayOperation oper,
     ua_retryAttempted = (case retryAttempted of None \<Rightarrow> False | Some b \<Rightarrow> b), ua_outcome = outcome, ua_connectionGeneration = generation\<rparr>"

section \<open>A deadline on its way through the layers\<close>

text \<open>Each layer derives its deadline from the one it was given, with its own limit and at its own time.\<close>

fun through_layers :: "dates \<Rightarrow> OperationDeadline option \<Rightarrow> (asked \<times> millis) list \<Rightarrow> OperationDeadline option result" where
  "through_layers D d [] = Inr d"
| "through_layers D d ((n, now) # ls) =
    (case createOperationDeadline D n d now of Inl e \<Rightarrow> Inl e | Inr d' \<Rightarrow> through_layers D (Some d') ls)"

definition layer_deadline :: "asked \<times> millis \<Rightarrow> millis" where
  "layer_deadline l = snd l + (case clamp_timeout (fst l) of None \<Rightarrow> 0 | Some n \<Rightarrow> n)"

definition readable_dates :: "dates \<Rightarrow> bool" where
  "readable_dates D = (\<forall>t. \<bar>t\<bar> \<le> 8640000000000000 \<longrightarrow> parse_date D (date_text D t) = Some t)"

lemma created_deadline:
  assumes "readable_dates D" "createOperationDeadline D n upstream now = Inr d"
  shows "parse_date D (deadlineAt d) =
      Some (case Option.bind upstream (\<lambda>u. parse_date D (deadlineAt u)) of None \<Rightarrow> layer_deadline (n, now) | Some t \<Rightarrow> min (layer_deadline (n, now)) t)"
    and "requestedTimeoutMs d = (case upstream of None \<Rightarrow> layer_deadline (n, now) - now | Some u \<Rightarrow> requestedTimeoutMs u)"
    and "effectiveTimeoutMs d = remainingOperationTimeMs D d now"
proof -
  from assms(2) obtain r where r: "clamp_timeout n = Some r" by (auto simp: createOperationDeadline_def split: option.splits)
  let ?t = "case Option.bind upstream (\<lambda>u. parse_date D (deadlineAt u)) of None \<Rightarrow> now + r | Some t \<Rightarrow> min (now + r) t"
  from assms(2) r have small: "\<bar>?t\<bar> \<le> 8640000000000000" and d: "d = \<lparr>requestedTimeoutMs = (case upstream of None \<Rightarrow> r | Some u \<Rightarrow> requestedTimeoutMs u),
      effectiveTimeoutMs = max 0 (?t - now), deadlineAt = date_text D ?t\<rparr>"
    by (auto simp: createOperationDeadline_def Let_def split: if_splits)
  have own: "layer_deadline (n, now) = now + r" by (simp add: layer_deadline_def r)
  have parsed: "parse_date D (deadlineAt d) = Some ?t" using assms(1) small by (simp add: readable_dates_def d)
  then show "parse_date D (deadlineAt d) =
      Some (case Option.bind upstream (\<lambda>u. parse_date D (deadlineAt u)) of None \<Rightarrow> layer_deadline (n, now) | Some t \<Rightarrow> min (layer_deadline (n, now)) t)"
    unfolding own .
  show "requestedTimeoutMs d = (case upstream of None \<Rightarrow> layer_deadline (n, now) - now | Some u \<Rightarrow> requestedTimeoutMs u)"
    unfolding d own by (simp split: option.split)
  show "effectiveTimeoutMs d = remainingOperationTimeMs D d now" unfolding remainingOperationTimeMs_def parsed by (simp add: d)
qed

lemma layers_deadline:
  assumes "readable_dates D" "through_layers D (Some u) ls = Inr d" "parse_date D (deadlineAt u) = Some t"
  shows "\<exists>e. d = Some e \<and> parse_date D (deadlineAt e) = Some (fold (\<lambda>l t. min (layer_deadline l) t) ls t) \<and> requestedTimeoutMs e = requestedTimeoutMs u"
  using assms(2,3)
proof (induction ls arbitrary: u t)
  case (Cons l ls)
  obtain n now where l: "l = (n, now)" by (cases l)
  with Cons.prems obtain v where v: "createOperationDeadline D n (Some u) now = Inr v" "through_layers D (Some v) ls = Inr d"
    by (auto split: sum.splits)
  from created_deadline [OF assms(1) v(1)] Cons.prems(2) Cons.IH [OF v(2)] show ?case by (simp add: l)
qed auto

lemma fold_min: "fold (\<lambda>l t. min (f l) t) ls t = Min (insert t (f ` set ls))" for t :: int
proof (induction ls arbitrary: t)
  case (Cons l ls)
  have "Min (insert (min (f l) t) (f ` set ls)) = Min (insert t (f ` set (l # ls)))"
  proof (cases "ls = []")
    case False
    then have "Min (insert (min (f l) t) (f ` set ls)) = min (min (f l) t) (Min (f ` set ls))" by (intro Min_insert) auto
    moreover have "Min (insert t (insert (f l) (f ` set ls))) = min t (min (f l) (Min (f ` set ls)))" using False by (simp add: Min_insert)
    ultimately show ?thesis by (simp add: min.assoc min.left_commute min.commute)
  qed (simp add: min.commute)
  with Cons.IH show ?case by simp
qed simp

text \<open>
  C36. When no layer refuses and dates that are written are read back, a deadline that passes through several layers ends at the earliest of the deadlines the layers set themselves, so no layer can extend it; it keeps the timeout that
  was asked for first, and leaves the last layer exactly the time until the deadline.
\<close>

theorem deadline_through_layers:
  assumes "readable_dates D" "through_layers D None ((n, now) # ls) = Inr d"
  shows "\<exists>e. d = Some e \<and> parse_date D (deadlineAt e) = Some (Min (layer_deadline ` set ((n, now) # ls))) \<and>
    requestedTimeoutMs e = layer_deadline (n, now) - now \<and> effectiveTimeoutMs e = remainingOperationTimeMs D e (snd (last ((n, now) # ls)))"
proof -
  from assms(2) obtain u where u: "createOperationDeadline D n None now = Inr u" "through_layers D (Some u) ls = Inr d" by (auto split: sum.splits)
  note first = created_deadline [OF assms(1) u(1)]
  from layers_deadline [OF assms(1) u(2)] first(1) obtain e where e: "d = Some e"
    "parse_date D (deadlineAt e) = Some (fold (\<lambda>l t. min (layer_deadline l) t) ls (layer_deadline (n, now)))" "requestedTimeoutMs e = requestedTimeoutMs u"
    by auto
  have last: "effectiveTimeoutMs v = remainingOperationTimeMs D v now \<Longrightarrow> through_layers D (Some v) ls = Inr (Some e) \<Longrightarrow>
      effectiveTimeoutMs e = remainingOperationTimeMs D e (snd (last ((n, now) # ls)))" for v n now
  proof (induction ls arbitrary: v n now)
    case (Cons l ls)
    obtain m t where l: "l = (m, t)" by (cases l)
    with Cons.prems obtain v' where "createOperationDeadline D m (Some v) t = Inr v'" "through_layers D (Some v') ls = Inr (Some e)"
      by (auto split: sum.splits)
    with Cons.IH [of v' t m] created_deadline(3) [OF assms(1)] show ?case by (simp add: l)
  qed simp
  from last [OF first(3), of] u(2) e fold_min [of layer_deadline ls "layer_deadline (n, now)"] first(2) show ?thesis by simp
qed

text \<open>Dates written as a sign and as many marks as there are milliseconds.\<close>

definition unary_dates :: dates where
  "unary_dates = \<lparr>parse_date = \<lambda>s. Some ((if hd s = CHR ''-'' then -1 else 1) * int (length (tl s))),
     date_text = \<lambda>t. (if t < 0 then CHR ''-'' else CHR ''+'') # replicate (nat \<bar>t\<bar>) CHR ''|'', datetime_format = \<lambda>_. True\<rparr>"

theorem deadline_through_layers_witness:
  "case through_layers unary_dates None [(Truncated 5, 10), (Truncated 2, 11), (PlusInfinity, 12)] of
     Inr (Some e) \<Rightarrow> parse_date unary_dates (deadlineAt e) = Some 13 \<and> requestedTimeoutMs e = 5 \<and> effectiveTimeoutMs e = 1 | _ \<Rightarrow> False"
proof -
  let ?e = "\<lparr>requestedTimeoutMs = 5, effectiveTimeoutMs = 1, deadlineAt = date_text unary_dates 13\<rparr>"
  have readable: "readable_dates unary_dates" by (auto simp: readable_dates_def unary_dates_def)
  have run: "through_layers unary_dates None [(Truncated 5, 10), (Truncated 2, 11), (PlusInfinity, 12)] = Inr (Some ?e)" by code_simp
  from deadline_through_layers [OF readable run] show ?thesis unfolding run
    by (simp add: layer_deadline_def clamp_timeout_def MAX_BACKGROUND_OPERATION_TIMEOUT_MS_def)
qed

end
