(* ===== verification/TaskInbox.thy ===== *)
theory TaskInbox
  imports JsValue
begin

text \<open>
  The messages a user writes in the browser extension for the agent: \<open>services/mcp-gateway/src/companion/personal-browser-task-inbox.ts\<close>. What the extension sends is a value of type
  \<open>unknown\<close>; a call of \<open>waitFor\<close> is split into its start, its wake-up inside \<open>accept\<close>, and its end by the timer or the signal.
\<close>

section \<open>Messages\<close>

definition MAX_QUEUED :: nat where
  "MAX_QUEUED = 50"

definition MAX_REMEMBERED_DELIVERED :: nat where
  "MAX_REMEMBERED_DELIVERED = 500"

definition MAX_TAB_IDS :: nat where
  "MAX_TAB_IDS = 20"

record BrowserUserMessage =
  um_id :: string
  um_text :: string
  um_sentAt :: string
  um_taskId :: "string option"

record QueuedMessage =
  qm_message :: BrowserUserMessage
  qm_tabIds :: "string list"

record TaskInboxScope =
  sc_taskId :: "string option"
  sc_tabId :: "string option"
  sc_planId :: "string option"

text \<open>A property of an untyped value; a missing one is \<open>undefined\<close>.\<close>

definition isRecord :: "js_value \<Rightarrow> bool" where
  "isRecord v = (case v of JsObject _ \<Rightarrow> True | JsInstance _ \<Rightarrow> True | _ \<Rightarrow> False)"

definition field_of :: "js_value \<Rightarrow> string \<Rightarrow> js_value" where
  "field_of v name =
    (let props = (case v of JsObject ps \<Rightarrow> ps | JsInstance ps \<Rightarrow> ps | _ \<Rightarrow> [])
     in case map_of props name of None \<Rightarrow> JsUndefined | Some x \<Rightarrow> x)"

definition as_string :: "js_value \<Rightarrow> string option" where
  "as_string v = (case v of JsString s \<Rightarrow> Some s | _ \<Rightarrow> None)"

definition message_id :: "string \<Rightarrow> bool" where
  "message_id s = (let rest = drop 4 s
     in take 4 s = ''msg_'' \<and> 8 \<le> length rest \<and> length rest \<le> 64 \<and> list_all (\<lambda>c. c \<in> set ''abcdefghijklmnopqrstuvwxyz0123456789-'') rest)"

definition browserUserMessageSchema :: "(string \<Rightarrow> bool) \<Rightarrow> BrowserUserMessage \<Rightarrow> bool" where
  "browserUserMessageSchema is_datetime m =
    (message_id (um_id m) \<and> 1 \<le> length (um_text m) \<and> length (um_text m) \<le> 2000 \<and> is_datetime (um_sentAt m) \<and>
     (case um_taskId m of None \<Rightarrow> True | Some t \<Rightarrow> 1 \<le> length t \<and> length t \<le> 128))"

definition parse_message :: "(string \<Rightarrow> bool) \<Rightarrow> js_value \<Rightarrow> BrowserUserMessage option" where
  "parse_message is_datetime entry =
    (case (as_string (field_of entry ''id''), as_string (field_of entry ''text''), as_string (field_of entry ''sentAt'')) of
       (Some i, Some t, Some s) \<Rightarrow>
         let m = \<lparr>um_id = i, um_text = t, um_sentAt = s, um_taskId = as_string (field_of entry ''taskId'')\<rparr>
         in if browserUserMessageSchema is_datetime m then Some m else None
     | _ \<Rightarrow> None)"

definition personal_tab :: "string \<Rightarrow> bool" where
  "personal_tab s = (let rest = drop 9 s
     in take 9 s = ''personal:'' \<and> 1 \<le> length rest \<and> length rest \<le> 12 \<and> list_all (\<lambda>c. c \<in> set ''0123456789'') rest)"

definition entry_tabs :: "js_value \<Rightarrow> string list" where
  "entry_tabs entry =
    (case field_of entry ''tabIds'' of
       JsArray vs \<Rightarrow> take MAX_TAB_IDS (filter personal_tab (List.map_filter as_string vs))
     | _ \<Rightarrow> [])"

section \<open>The inbox\<close>

record inbox =
  ib_queued :: "(string, QueuedMessage) jsMap"
  ib_delivered :: "string list"
  ib_waiters :: "(nat, TaskInboxScope \<times> bool) jsMap"

definition empty_inbox :: inbox where
  "empty_inbox = \<lparr>ib_queued = [], ib_delivered = [], ib_waiters = []\<rparr>"

definition inbox_size :: "inbox \<Rightarrow> nat" where
  "inbox_size s = length (ib_queued s)"

definition inbox_holds :: "inbox \<Rightarrow> string \<Rightarrow> bool" where
  "inbox_holds s i = Map_has (ib_queued s) i"

definition textOf :: "inbox \<Rightarrow> string \<Rightarrow> string option" where
  "textOf s i = map_option (\<lambda>q. um_text (qm_message q)) (Map_get (ib_queued s) i)"

definition taskIdOf :: "inbox \<Rightarrow> string \<Rightarrow> string option" where
  "taskIdOf s i = Option.bind (Map_get (ib_queued s) i) (\<lambda>q. um_taskId (qm_message q))"

definition inbox_knows :: "inbox \<Rightarrow> string \<Rightarrow> bool" where
  "inbox_knows s i = (Map_has (ib_queued s) i \<or> i \<in> set (ib_delivered s))"

definition remember :: "string \<Rightarrow> inbox \<Rightarrow> inbox" where
  "remember i s =
    (let d = Set_add (ib_delivered s) i
     in s\<lparr>ib_delivered := (if length d \<le> MAX_REMEMBERED_DELIVERED then d else tl d)\<rparr>)"

text \<open>One message leaves the queue for the agent.\<close>

definition deliver :: "string \<Rightarrow> QueuedMessage \<Rightarrow> inbox \<times> BrowserUserMessage list \<Rightarrow> inbox \<times> BrowserUserMessage list" where
  "deliver i q r = (case r of (s, taken) \<Rightarrow> (remember i (s\<lparr>ib_queued := Map_delete (ib_queued s) i\<rparr>), taken @ [qm_message q]))"

definition takeIds :: "string list \<Rightarrow> inbox \<Rightarrow> inbox \<times> BrowserUserMessage list" where
  "takeIds ids s =
    fold (\<lambda>i r. case Map_get (ib_queued (fst r)) i of None \<Rightarrow> r | Some q \<Rightarrow> deliver i q r) ids (s, [])"

definition of_plan :: "QueuedMessage \<Rightarrow> bool" where
  "of_plan q = (case um_taskId (qm_message q) of None \<Rightarrow> False | Some t \<Rightarrow> startsWith t ''plan_'')"

definition inbox_matches :: "QueuedMessage \<Rightarrow> TaskInboxScope \<Rightarrow> bool" where
  "inbox_matches q scope =
    (case um_taskId (qm_message q) of
       None \<Rightarrow> True
     | Some taskId \<Rightarrow>
         if startsWith taskId ''plan_'' then sc_planId scope = Some taskId
         else if sc_taskId scope = Some taskId then True
         else (case sc_tabId scope of None \<Rightarrow> False | Some t \<Rightarrow> t \<in> set (qm_tabIds q)))"

definition take_messages :: "TaskInboxScope \<Rightarrow> bool \<Rightarrow> inbox \<Rightarrow> inbox \<times> BrowserUserMessage list" where
  "take_messages scope everything s =
    fold (\<lambda>(i, q) r. if (\<not> everything \<or> of_plan q) \<and> \<not> inbox_matches q scope then r else deliver i q r) (ib_queued s) (s, [])"

definition inbox_has :: "TaskInboxScope \<Rightarrow> bool \<Rightarrow> inbox \<Rightarrow> bool" where
  "inbox_has scope everything s = list_ex (\<lambda>q. everything \<and> \<not> of_plan q \<or> inbox_matches q scope) (Map_values (ib_queued s))"

record accepted =
  ac_addedIds :: "string list"
  ac_alreadyDelivered :: "string list"

definition accept_entry :: "(string \<Rightarrow> bool) \<Rightarrow> js_value \<Rightarrow> inbox \<times> accepted \<Rightarrow> inbox \<times> accepted" where
  "accept_entry is_datetime entry r =
    (case r of (s, ac) \<Rightarrow>
      if \<not> isRecord entry then r
      else case parse_message is_datetime entry of
        None \<Rightarrow> r
      | Some m \<Rightarrow>
          let i = um_id m;
              ac = (if i \<in> set (ib_delivered s) then ac\<lparr>ac_alreadyDelivered := ac_alreadyDelivered ac @ [i]\<rparr> else ac)
          in if inbox_knows s i then (s, ac)
             else (s\<lparr>ib_queued := Map_set (ib_queued s) i \<lparr>qm_message = m, qm_tabIds = entry_tabs entry\<rparr>\<rparr>, ac\<lparr>ac_addedIds := ac_addedIds ac @ [i]\<rparr>))"

function drop_oldest :: "('k, 'v) jsMap \<Rightarrow> ('k, 'v) jsMap" where
  "drop_oldest m = (if MAX_QUEUED < length m then drop_oldest (Map_delete m (fst (hd m))) else m)"
  by pat_completeness auto
termination
proof (relation "measure length")
  fix m :: "('k, 'v) jsMap"
  assume "MAX_QUEUED < length m"
  then obtain e m' where "m = e # m'" by (cases m) auto
  then show "(Map_delete m (fst (hd m)), m) \<in> measure length"
    using length_filter_le [of "\<lambda>x. fst x \<noteq> fst e" m'] by (simp add: Map_delete_def AList.delete_eq le_imp_less_Suc case_prod_unfold)
qed simp

declare drop_oldest.simps [simp del]

text \<open>\<open>added\<close> is the number of the added identifiers.\<close>

definition accept_messages :: "(string \<Rightarrow> bool) \<Rightarrow> js_value \<Rightarrow> inbox \<Rightarrow> inbox \<times> accepted" where
  "accept_messages is_datetime raw s =
    (let none = \<lparr>ac_addedIds = [], ac_alreadyDelivered = []\<rparr>
     in case field_of raw ''messages'' of
          JsArray entries \<Rightarrow>
            if \<not> isRecord raw then (s, none)
            else let (s1, ac) = fold (accept_entry is_datetime) (take MAX_QUEUED entries) (s, none);
                     s2 = s1\<lparr>ib_queued := drop_oldest (ib_queued s1)\<rparr>
                 in (if ac_addedIds ac = [] then s2
                     else s2\<lparr>ib_waiters := Map_delete_where (\<lambda>w. inbox_has (fst w) (snd w) s2) (ib_waiters s2)\<rparr>, ac)
        | _ \<Rightarrow> (s, none))"

text \<open>The start of \<open>waitFor\<close>: whether the call waits, under the name \<open>i\<close>. It ends early when its timer or its signal fires.\<close>

definition waitFor :: "nat \<Rightarrow> TaskInboxScope \<Rightarrow> bool \<Rightarrow> int \<Rightarrow> bool \<Rightarrow> inbox \<Rightarrow> inbox" where
  "waitFor i scope everything timeoutMs aborted s =
    (if inbox_has scope everything s \<or> timeoutMs \<le> 0 \<or> aborted then s
     else s\<lparr>ib_waiters := Map_set (ib_waiters s) i (scope, everything)\<rparr>)"

definition endWait :: "nat \<Rightarrow> inbox \<Rightarrow> inbox" where
  "endWait i s = s\<lparr>ib_waiters := Map_delete (ib_waiters s) i\<rparr>"

section \<open>Sessions\<close>

datatype inbox_event = Accept js_value | Take TaskInboxScope bool | TakeIds "string list"
  | Wait nat TaskInboxScope bool int bool | EndWait nat

text \<open>The inbox after an event, with the identifiers of all messages that were delivered so far.\<close>

definition inbox_step :: "(string \<Rightarrow> bool) \<Rightarrow> inbox_event \<Rightarrow> inbox \<times> string list \<Rightarrow> inbox \<times> string list" where
  "inbox_step is_datetime event st =
    (case st of (s, D) \<Rightarrow>
      case event of
        Accept raw \<Rightarrow> (fst (accept_messages is_datetime raw s), D)
      | Take scope everything \<Rightarrow> (let (s', taken) = take_messages scope everything s in (s', D @ map um_id taken))
      | TakeIds ids \<Rightarrow> (let (s', taken) = takeIds ids s in (s', D @ map um_id taken))
      | Wait i scope everything timeoutMs aborted \<Rightarrow> (waitFor i scope everything timeoutMs aborted s, D)
      | EndWait i \<Rightarrow> (endWait i s, D))"

definition inbox_run :: "(string \<Rightarrow> bool) \<Rightarrow> inbox_event list \<Rightarrow> inbox \<times> string list" where
  "inbox_run is_datetime events = fold (inbox_step is_datetime) events (empty_inbox, [])"

definition apart :: "string list \<Rightarrow> bool" where
  "apart D = (\<forall>j < length D. \<forall>i < j. D ! i = D ! j \<longrightarrow> MAX_REMEMBERED_DELIVERED < j - i)"

definition queue_ok :: "inbox \<Rightarrow> string list \<Rightarrow> bool" where
  "queue_ok s D = (Map_ok (ib_queued s) \<and> (\<forall>i q. Map_get (ib_queued s) i = Some q \<longrightarrow> um_id (qm_message q) = i \<and> i \<notin> set (ib_delivered s)) \<and>
     ib_delivered s = drop (length D - MAX_REMEMBERED_DELIVERED) D \<and> apart D)"

definition nobody_misses :: "inbox \<Rightarrow> bool" where
  "nobody_misses s = (\<forall>w \<in> set (Map_values (ib_waiters s)). \<not> inbox_has (fst w) (snd w) s)"

definition inbox_inv :: "inbox \<Rightarrow> string list \<Rightarrow> bool" where
  "inbox_inv s D = (queue_ok s D \<and> inbox_size s \<le> MAX_QUEUED \<and> nobody_misses s)"

lemma apart_snoc:
  assumes "apart D" "i \<notin> set (drop (length D - MAX_REMEMBERED_DELIVERED) D)"
  shows "apart (D @ [i])"
  unfolding apart_def
proof (intro allI impI)
  fix k j
  assume jk: "j < length (D @ [i])" "k < j" "(D @ [i]) ! k = (D @ [i]) ! j"
  show "MAX_REMEMBERED_DELIVERED < j - k"
  proof (cases "j = length D")
    case True
    then have "D ! k = i" using jk by (simp add: nth_append)
    moreover have "D ! k \<in> set (drop (length D - MAX_REMEMBERED_DELIVERED) D)" if "length D - MAX_REMEMBERED_DELIVERED \<le> k"
      using jk(2) True that nth_drop [of "length D - MAX_REMEMBERED_DELIVERED" D "k - (length D - MAX_REMEMBERED_DELIVERED)"]
        nth_mem [of "k - (length D - MAX_REMEMBERED_DELIVERED)" "drop (length D - MAX_REMEMBERED_DELIVERED) D"] by simp
    ultimately show ?thesis using assms(2) True by fastforce
  next
    case False
    then show ?thesis using assms(1) jk by (simp add: apart_def nth_append)
  qed
qed

lemma remembered:
  assumes "i \<notin> set (ib_delivered s)" "ib_delivered s = drop (length D - MAX_REMEMBERED_DELIVERED) D"
  shows "ib_delivered (remember i s) = drop (length (D @ [i]) - MAX_REMEMBERED_DELIVERED) (D @ [i])"
proof -
  have len: "length (ib_delivered s) = min (length D) MAX_REMEMBERED_DELIVERED" using assms(2) by simp
  have pos: "0 < MAX_REMEMBERED_DELIVERED" by (simp add: MAX_REMEMBERED_DELIVERED_def)
  show ?thesis
  proof (cases "length D < MAX_REMEMBERED_DELIVERED")
    case True
    with assms len show ?thesis by (simp add: remember_def Let_def Set_add_def)
  next
    case False
    let ?k = "length D - MAX_REMEMBERED_DELIVERED"
    have "ib_delivered s \<noteq> []" "\<not> length (ib_delivered s @ [i]) \<le> MAX_REMEMBERED_DELIVERED" using False len pos by auto
    then have "ib_delivered (remember i s) = tl (ib_delivered s) @ [i]" using assms(1) by (simp add: remember_def Let_def Set_add_def)
    also have "\<dots> = drop (Suc ?k) D @ [i]" unfolding assms(2) by (simp only: tl_drop drop_Suc)
    also have "\<dots> = drop (length (D @ [i]) - MAX_REMEMBERED_DELIVERED) (D @ [i])" using False pos by (simp add: Suc_diff_le)
    finally show ?thesis .
  qed
qed

lemma length_delete: "length (Map_delete m k) \<le> length m"
  by (simp add: Map_delete_def AList.delete_eq)

lemma has_mono: "set (Map_values (ib_queued s)) \<subseteq> set (Map_values (ib_queued t)) \<Longrightarrow> inbox_has scope e s \<Longrightarrow> inbox_has scope e t"
  by (auto simp: inbox_has_def list_ex_iff)

lemma deliver_inv:
  assumes "inbox_inv s D" "Map_get (ib_queued s) i = Some q"
  shows "inbox_inv (fst (deliver i q (s, taken))) (D @ [i])" "snd (deliver i q (s, taken)) = taken @ [qm_message q]"
    and "um_id (qm_message q) = i" "ib_queued (fst (deliver i q (s, taken))) = Map_delete (ib_queued s) i"
proof -
  let ?m = "s\<lparr>ib_queued := Map_delete (ib_queued s) i\<rparr>"
  let ?s = "remember i ?m"
  have q: "queue_ok s D" using assms(1) by (simp add: inbox_inv_def)
  then have i: "i \<notin> set (ib_delivered s)" "um_id (qm_message q) = i" using assms(2) by (auto simp: queue_ok_def)
  have d: "ib_delivered ?s = drop (length (D @ [i]) - MAX_REMEMBERED_DELIVERED) (D @ [i])"
    using remembered [of i ?m D] i(1) q by (simp add: queue_ok_def)
  have same: "ib_queued ?s = Map_delete (ib_queued s) i" "ib_waiters ?s = ib_waiters s" by (simp_all add: remember_def Let_def)
  have sub: "set (ib_delivered ?s) \<subseteq> insert i (set (ib_delivered s))"
    by (auto simp: remember_def Let_def Set_add_def dest: list.set_sel(2) [rotated] split: if_splits)
  have "apart (D @ [i])" using apart_snoc q i(1) by (simp add: queue_ok_def)
  with d q sub have "queue_ok ?s (D @ [i])" unfolding queue_ok_def same by (auto simp: map_model split: if_splits)
  moreover have "nobody_misses ?s"
    using assms(1) has_mono [of ?s s] values_delete [of "ib_queued s" i] unfolding inbox_inv_def nobody_misses_def same by blast
  ultimately have "inbox_inv ?s (D @ [i])"
    using assms(1) length_delete [of "ib_queued s" i] unfolding inbox_inv_def inbox_size_def same by simp
  then show "inbox_inv (fst (deliver i q (s, taken))) (D @ [i])" by (simp add: deliver_def)
qed (use assms in \<open>auto simp: deliver_def remember_def Let_def inbox_inv_def queue_ok_def\<close>)

section \<open>What the events keep\<close>

text \<open>A loop that delivers some of the queued messages, one after the other.\<close>

lemma delivering_loop:
  assumes "inbox_inv s (D @ map um_id taken)" "distinct (map fst es)" "\<forall>(i, q) \<in> set es. Map_get (ib_queued s) i = Some q"
  shows "case fold (\<lambda>(i, q) r. if P q then r else deliver i q r) es (s, taken) of (s', taken') \<Rightarrow>
    inbox_inv s' (D @ map um_id taken') \<and> taken' = taken @ map (\<lambda>e. qm_message (snd e)) (filter (\<lambda>e. \<not> P (snd e)) es) \<and>
    (\<forall>k. Map_get (ib_queued s') k = (if k \<in> fst ` set (filter (\<lambda>e. \<not> P (snd e)) es) then None else Map_get (ib_queued s) k))"
  using assms
proof (induction es arbitrary: s taken)
  case (Cons e es)
  obtain i q where e: "e = (i, q)" by (cases e)
  show ?case
  proof (cases "P q")
    case True
    with Cons show ?thesis by (simp add: e)
  next
    case False
    let ?r = "deliver i q (s, taken)"
    have got: "Map_get (ib_queued s) i = Some q" using Cons.prems(3) by (simp add: e)
    note dv = deliver_inv(1,2,4) [OF Cons.prems(1) got, of taken] deliver_inv(3) [OF Cons.prems(1) got]
    obtain t where r: "?r = (t, taken @ [qm_message q])" using dv(2) by (cases ?r) simp
    have "\<forall>(k, x) \<in> set es. Map_get (ib_queued t) k = Some x"
      using Cons.prems(2,3) dv(3) by (force simp: r e map_model)
    moreover have "inbox_inv t (D @ map um_id (taken @ [qm_message q]))" using dv(1,4) by (simp add: r)
    ultimately have "case fold (\<lambda>(i, q) r. if P q then r else deliver i q r) es (t, taken @ [qm_message q]) of (s', taken') \<Rightarrow>
      inbox_inv s' (D @ map um_id taken') \<and> taken' = (taken @ [qm_message q]) @ map (\<lambda>e. qm_message (snd e)) (filter (\<lambda>e. \<not> P (snd e)) es) \<and>
      (\<forall>k. Map_get (ib_queued s') k = (if k \<in> fst ` set (filter (\<lambda>e. \<not> P (snd e)) es) then None else Map_get (ib_queued t) k))"
      using Cons.IH [of t "taken @ [qm_message q]"] Cons.prems(2) by simp
    then show ?thesis using dv(3) False by (auto simp: e r map_model split: prod.splits)
  qed
qed simp

lemma take_loop:
  assumes "inbox_inv s D"
  shows "case take_messages scope everything s of (s', taken) \<Rightarrow> inbox_inv s' (D @ map um_id taken) \<and>
    taken = map qm_message (filter (\<lambda>q. everything \<and> \<not> of_plan q \<or> inbox_matches q scope) (Map_values (ib_queued s)))"
proof -
  have ok: "Map_ok (ib_queued s)" using assms by (simp add: inbox_inv_def queue_ok_def)
  then have "distinct (map fst (ib_queued s))" "\<forall>(i, q) \<in> set (ib_queued s). Map_get (ib_queued s) i = Some q"
    using Map_in_set_get [OF ok] by (auto simp: Map_ok_def)
  from delivering_loop [of s D "[]", OF _ this, of "\<lambda>q. (\<not> everything \<or> of_plan q) \<and> \<not> inbox_matches q scope"] assms
  show ?thesis
    by (auto simp: take_messages_def Map_values_def filter_map comp_def split: prod.splits intro!: arg_cong [of _ _ "map _"] filter_cong)
qed

lemma takeIds_inv:
  assumes "inbox_inv s D"
  shows "case takeIds ids s of (s', taken) \<Rightarrow> inbox_inv s' (D @ map um_id taken)"
proof -
  have "inbox_inv s (D @ map um_id taken) \<Longrightarrow>
      case fold (\<lambda>i r. case Map_get (ib_queued (fst r)) i of None \<Rightarrow> r | Some q \<Rightarrow> deliver i q r) ids (s, taken) of
        (s', taken') \<Rightarrow> inbox_inv s' (D @ map um_id taken')" for s taken
  proof (induction ids arbitrary: s taken)
    case (Cons i ids)
    show ?case
    proof (cases "Map_get (ib_queued s) i")
      case (Some q)
      note dv = deliver_inv(1,2,4) [OF Cons.prems Some, of taken] deliver_inv(3) [OF Cons.prems Some]
      obtain t where r: "deliver i q (s, taken) = (t, taken @ [qm_message q])" using dv(2) by (cases "deliver i q (s, taken)") simp
      with dv(1,4) Cons.IH [of t "taken @ [qm_message q]"] Some show ?thesis by simp
    qed (use Cons in simp)
  qed simp
  from this [of s "[]"] assms show ?thesis by (simp add: takeIds_def)
qed

lemma queue_ok_update:
  assumes "queue_ok s D" "Map_ok m" "\<And>k q. Map_get m k = Some q \<Longrightarrow> um_id (qm_message q) = k \<and> k \<notin> set (ib_delivered s)"
  shows "queue_ok (s\<lparr>ib_queued := m\<rparr>) D"
proof -
  have "ib_queued (s\<lparr>ib_queued := m\<rparr>) = m" "ib_delivered (s\<lparr>ib_queued := m\<rparr>) = ib_delivered s" by simp_all
  with assms show ?thesis unfolding queue_ok_def by metis
qed

lemma queue_okD: "queue_ok s D \<Longrightarrow> Map_get (ib_queued s) k = Some q \<Longrightarrow> um_id (qm_message q) = k \<and> k \<notin> set (ib_delivered s)"
  "queue_ok s D \<Longrightarrow> Map_ok (ib_queued s)"
  unfolding queue_ok_def by blast+

lemma accept_entry_ok:
  assumes "queue_ok s D"
  shows "queue_ok (fst (accept_entry F entry (s, ac))) D" "ib_waiters (fst (accept_entry F entry (s, ac))) = ib_waiters s"
    and "ac_addedIds (snd (accept_entry F entry (s, ac))) = [] \<Longrightarrow> fst (accept_entry F entry (s, ac)) = s \<and> ac_addedIds ac = []"
proof -
  show "queue_ok (fst (accept_entry F entry (s, ac))) D"
  proof (cases "isRecord entry \<and> (\<exists>m. parse_message F entry = Some m \<and> \<not> inbox_knows s (um_id m))")
    case True
    then obtain m where m: "isRecord entry" "parse_message F entry = Some m" "\<not> inbox_knows s (um_id m)" by blast
    let ?q = "\<lparr>qm_message = m, qm_tabIds = entry_tabs entry\<rparr>"
    have "fst (accept_entry F entry (s, ac)) = s\<lparr>ib_queued := Map_set (ib_queued s) (um_id m) ?q\<rparr>"
      using m by (simp add: accept_entry_def Let_def)
    moreover have "queue_ok (s\<lparr>ib_queued := Map_set (ib_queued s) (um_id m) ?q\<rparr>) D"
    proof (rule queue_ok_update [OF assms Map_ok_set [OF queue_okD(2) [OF assms]]])
      fix k q assume "Map_get (Map_set (ib_queued s) (um_id m) ?q) k = Some q"
      with m(3) show "um_id (qm_message q) = k \<and> k \<notin> set (ib_delivered s)"
        using queue_okD(1) [OF assms, of k q] by (auto simp: Map_get_set inbox_knows_def split: if_splits)
    qed
    ultimately show ?thesis by simp
  next
    case False
    then have "fst (accept_entry F entry (s, ac)) = s" by (auto simp: accept_entry_def Let_def split: option.splits)
    with assms show ?thesis by simp
  qed
qed (auto simp: accept_entry_def Let_def split: option.splits if_splits)

lemma accept_loop:
  "queue_ok s D \<Longrightarrow> case fold (accept_entry F) es (s, ac) of (t, bc) \<Rightarrow>
     queue_ok t D \<and> ib_waiters t = ib_waiters s \<and> (ac_addedIds bc = [] \<longrightarrow> t = s \<and> ac_addedIds ac = [])"
proof (induction es arbitrary: s ac)
  case (Cons e es)
  obtain t bc where t: "accept_entry F e (s, ac) = (t, bc)" by (cases "accept_entry F e (s, ac)")
  note one = accept_entry_ok [OF Cons.prems, of F e ac, unfolded t fst_conv snd_conv]
  from Cons.IH [OF one(1), of bc] one(2,3) show ?case by (auto simp: t split: prod.splits)
qed simp

lemma drop_oldest_sub: "set (drop_oldest m) \<subseteq> set m \<and> length (drop_oldest m) \<le> MAX_QUEUED \<and> (Map_ok m \<longrightarrow> Map_ok (drop_oldest m))"
proof (induction m rule: drop_oldest.induct)
  case (1 m)
  have "set (Map_delete m k) \<subseteq> set m" for k by (auto simp: Map_delete_def AList.delete_eq)
  with 1 show ?case by (subst (1 2 3) drop_oldest.simps) (auto simp: Map_ok_delete)
qed

lemma drop_oldest_small: "length m \<le> MAX_QUEUED \<Longrightarrow> drop_oldest m = m"
  by (simp add: drop_oldest.simps)

lemma queue_ok_sub:
  assumes "queue_ok s D" "set m \<subseteq> set (ib_queued s)" "Map_ok m"
  shows "queue_ok (s\<lparr>ib_queued := m\<rparr>) D"
proof -
  have "Map_get (ib_queued s) k = Some q" if "Map_get m k = Some q" for k q
    using Map_get_in_set [OF that] assms Map_in_set_get [of "ib_queued s" k q] by (auto simp: queue_ok_def)
  with queue_okD(1) [OF assms(1)] show ?thesis by (intro queue_ok_update assms) blast+
qed

lemma accept_inv:
  assumes "inbox_inv s D"
  shows "inbox_inv (fst (accept_messages F raw s)) D"
proof (cases "isRecord raw \<and> (\<exists>es. field_of raw ''messages'' = JsArray es)")
  case True
  then obtain es where es: "isRecord raw" "field_of raw ''messages'' = JsArray es" by blast
  have q: "queue_ok s D" using assms by (simp add: inbox_inv_def)
  let ?none = "\<lparr>ac_addedIds = [], ac_alreadyDelivered = []\<rparr>"
  obtain t ac where t: "fold (accept_entry F) (take MAX_QUEUED es) (s, ?none) = (t, ac)"
    by (cases "fold (accept_entry F) (take MAX_QUEUED es) (s, ?none)")
  from accept_loop [OF q, where F = F and es = "take MAX_QUEUED es" and ac = ?none] have loop: "queue_ok t D" "ac_addedIds ac = [] \<Longrightarrow> t = s" by (simp_all add: t)
  let ?u = "t\<lparr>ib_queued := drop_oldest (ib_queued t)\<rparr>"
  have sub: "set (drop_oldest (ib_queued t)) \<subseteq> set (ib_queued t)" "length (drop_oldest (ib_queued t)) \<le> MAX_QUEUED"
    "Map_ok (drop_oldest (ib_queued t))" using drop_oldest_sub [of "ib_queued t"] loop(1) by (auto simp: queue_ok_def)
  have u: "queue_ok ?u D" "inbox_size ?u \<le> MAX_QUEUED" using queue_ok_sub [OF loop(1) sub(1,3)] sub(2) by (simp_all add: inbox_size_def)
  show ?thesis
  proof (cases "ac_addedIds ac = []")
    case True
    then have "t = s" using loop(2) by simp
    then have "?u = s" using assms drop_oldest_small [of "ib_queued s"] by (simp add: inbox_inv_def inbox_size_def)
    then show ?thesis using assms True by (simp add: accept_messages_def es t Let_def)
  next
    case False
    let ?v = "?u\<lparr>ib_waiters := Map_delete_where (\<lambda>w. inbox_has (fst w) (snd w) ?u) (ib_waiters ?u)\<rparr>"
    have "inbox_has scope e ?v = inbox_has scope e ?u" for scope e by (simp add: inbox_has_def)
    then have "nobody_misses ?v" unfolding nobody_misses_def by (auto simp: Map_values_def Map_delete_where_def)
    moreover have "queue_ok (r\<lparr>ib_waiters := ws\<rparr>) D = queue_ok r D" "inbox_size (r\<lparr>ib_waiters := ws\<rparr>) = inbox_size r" for r ws
      by (simp_all add: queue_ok_def inbox_size_def)
    then have "queue_ok ?v D" "inbox_size ?v \<le> MAX_QUEUED" using u by simp_all
    ultimately show ?thesis using False by (simp add: accept_messages_def es t Let_def inbox_inv_def)
  qed
next
  case False
  then have "fst (accept_messages F raw s) = s" by (auto simp: accept_messages_def Let_def split: js_value.splits)
  with assms show ?thesis by simp
qed

lemma waiters_inv:
  assumes "inbox_inv s D" "\<forall>w \<in> set (Map_values ws). w \<in> set (Map_values (ib_waiters s)) \<or> \<not> inbox_has (fst w) (snd w) s"
  shows "inbox_inv (s\<lparr>ib_waiters := ws\<rparr>) D"
proof -
  have "inbox_has scope e (s\<lparr>ib_waiters := ws\<rparr>) = inbox_has scope e s" for scope e by (simp add: inbox_has_def)
  with assms show ?thesis unfolding inbox_inv_def nobody_misses_def queue_ok_def inbox_size_def by auto
qed

lemma wait_inv: "inbox_inv s D \<Longrightarrow> inbox_inv (waitFor i scope everything timeoutMs aborted s) D"
  using values_set [of "ib_waiters s" i "(scope, everything)"] by (auto simp: waitFor_def intro!: waiters_inv)

lemma endWait_inv: "inbox_inv s D \<Longrightarrow> inbox_inv (endWait i s) D"
  using values_delete [of "ib_waiters s" i] by (auto simp: endWait_def intro!: waiters_inv)

lemma step_inv: "inbox_inv s D \<Longrightarrow> case inbox_step F event (s, D) of (s', D') \<Rightarrow> inbox_inv s' D'"
proof (cases event)
  case (Take scope everything)
  then show "inbox_inv s D \<Longrightarrow> ?thesis" using take_loop [where s = s and D = D and scope = scope and everything = everything] by (auto simp: inbox_step_def split: prod.splits)
next
  case (TakeIds ids)
  then show "inbox_inv s D \<Longrightarrow> ?thesis" using takeIds_inv [of s D ids] by (auto simp: inbox_step_def split: prod.splits)
qed (simp_all add: inbox_step_def accept_inv wait_inv endWait_inv)

lemma run_inv: "case inbox_run F events of (s, D) \<Rightarrow> inbox_inv s D"
proof (induction events rule: rev_induct)
  case Nil
  show ?case by (simp add: inbox_run_def inbox_inv_def queue_ok_def empty_inbox_def apart_def inbox_size_def nobody_misses_def Map_values_def)
next
  case (snoc e events)
  obtain s D where "inbox_run F events = (s, D)" by (cases "inbox_run F events")
  with snoc step_inv [of s D F e] show ?case by (simp add: inbox_run_def)
qed

text \<open>
  C37. In any session a message that was delivered is not delivered again before five hundred others were; at most fifty messages wait, and no call waits for
  messages while there is one for it.
\<close>

theorem inbox_delivers_once:
  "case inbox_run F events of (s, D) \<Rightarrow>
     (\<forall>j < length D. \<forall>i < j. D ! i = D ! j \<longrightarrow> 500 < j - i) \<and> inbox_size s \<le> 50 \<and>
     (\<forall>w \<in> set (Map_values (ib_waiters s)). \<not> inbox_has (fst w) (snd w) s)"
  using run_inv [of F events]
  by (auto simp: inbox_inv_def queue_ok_def apart_def nobody_misses_def MAX_QUEUED_def MAX_REMEMBERED_DELIVERED_def split: prod.splits)

text \<open>
  A call takes exactly the waiting messages that \<open>has\<close> speaks of, in the order they came, and a message written for a plan is only taken by a call of this plan.
\<close>

theorem take_reaches:
  assumes "inbox_run F events = (s, D)" "take_messages scope everything s = (s', taken)"
  shows "taken = map qm_message (filter (\<lambda>q. everything \<and> \<not> of_plan q \<or> inbox_matches q scope) (Map_values (ib_queued s)))"
    and "inbox_has scope everything s \<longleftrightarrow> taken \<noteq> []"
    and "m \<in> set taken \<Longrightarrow> um_taskId m = Some t \<Longrightarrow> startsWith t ''plan_'' \<Longrightarrow> sc_planId scope = Some t"
proof -
  show taken: "taken = map qm_message (filter (\<lambda>q. everything \<and> \<not> of_plan q \<or> inbox_matches q scope) (Map_values (ib_queued s)))"
    using run_inv [of F events] take_loop [where s = s and D = D and scope = scope and everything = everything] assms by simp
  show "inbox_has scope everything s \<longleftrightarrow> taken \<noteq> []" by (auto simp: taken inbox_has_def list_ex_iff filter_empty_conv)
  show "m \<in> set taken \<Longrightarrow> um_taskId m = Some t \<Longrightarrow> startsWith t ''plan_'' \<Longrightarrow> sc_planId scope = Some t"
    by (auto simp: taken of_plan_def inbox_matches_def split: option.splits if_splits)
qed

section \<open>A concrete session\<close>

definition pushed :: js_value where
  "pushed = JsObject [(''messages'', JsArray [JsObject [(''id'', JsString ''msg_00000000''), (''text'', JsString ''hi''), (''sentAt'', JsString ''t'')]])]"

definition any_scope :: TaskInboxScope where
  "any_scope = \<lparr>sc_taskId = None, sc_tabId = None, sc_planId = None\<rparr>"

definition pushed_twice :: "inbox_event list" where
  "pushed_twice = [Wait 0 any_scope False 10 False, Accept pushed, Take any_scope False, Accept pushed, Take any_scope False]"

theorem inbox_delivers_once_witness:
  "case inbox_run (\<lambda>_. True) pushed_twice of (s, D) \<Rightarrow> D = [''msg_00000000''] \<and> inbox_size s \<le> 50"
proof -
  have "snd (inbox_run (\<lambda>_. True) pushed_twice) = [''msg_00000000'']" by code_simp
  with inbox_delivers_once [of "\<lambda>_. True" pushed_twice] show ?thesis by (cases "inbox_run (\<lambda>_. True) pushed_twice") simp
qed

end
