(* ===== verification/SnapshotState.thy ===== *)
theory SnapshotState
  imports NumberText
begin

text \<open>
  Page snapshots sent as differences, \<open>services/mcp-gateway/src/companion/personal-browser-snapshot-state.ts\<close>. Of a snapshot the model has the fields the code reads or writes; the others pass through.
\<close>

section \<open>Snapshots and updates\<close>

datatype update_kind = FullUpdate | DeltaUpdate | UnchangedUpdate

record BrowserStateUpdate =
  su_documentId :: string
  su_revision :: nat
  su_baseRevision :: "nat option"
  su_kind :: update_kind
  su_snapshot :: "string option"
  su_refsValid :: bool

record page_snapshot =
  ps_tabId :: string
  ps_pageInstanceId :: "string option"
  ps_url :: string
  ps_content :: string
  ps_state :: "BrowserStateUpdate option"

record snapshot_input =
  si_knownRevision :: "nat option"
  si_forceFull :: "bool option"

record TrackedPage =
  tp_pageInstanceId :: string
  tp_url :: string
  tp_revision :: nat
  tp_lines :: "string list"

type_synonym tracked_pages = "(string, TrackedPage) jsMap"

section \<open>Differences of lines\<close>

function start_loop :: "string list \<Rightarrow> string list \<Rightarrow> nat \<Rightarrow> nat" where
  "start_loop previous current start =
    (if start < length previous \<and> start < length current \<and> previous ! start = current ! start then start_loop previous current (Suc start) else start)"
  by pat_completeness auto
termination by (relation "measure (\<lambda>(previous, current, start). length previous - start)") auto

declare start_loop.simps [simp del]

fun end_loop :: "string list \<Rightarrow> string list \<Rightarrow> nat \<Rightarrow> nat \<Rightarrow> nat \<Rightarrow> nat \<times> nat" where
  "end_loop previous current start (Suc endOld) (Suc endNew) =
    (if start < Suc endOld \<and> start < Suc endNew \<and> previous ! endOld = current ! endNew then end_loop previous current start endOld endNew
     else (Suc endOld, Suc endNew))"
| "end_loop previous current start endOld endNew = (endOld, endNew)"

definition delta_header :: "nat \<Rightarrow> nat \<Rightarrow> nat \<Rightarrow> string" where
  "delta_header start removed added =
    ''<changed lines='' @ decimal (start + 1) @ '' removed='' @ decimal removed @ '' added='' @ decimal added @ ''>''"

definition lineDelta :: "string list \<Rightarrow> string list \<Rightarrow> string" where
  "lineDelta previous current =
    (let start = start_loop previous current 0;
         (endOld, endNew) = end_loop previous current start (length previous) (length current);
         changes = drop start (take endNew current);
         removed = endOld - start
     in join [CHR 0x0A] (delta_header start removed (length changes) # changes))"

section \<open>The tracker\<close>

definition discard_page :: "string \<Rightarrow> tracked_pages \<Rightarrow> tracked_pages" where
  "discard_page tabId pages = Map_delete pages tabId"

definition observe_snapshot :: "page_snapshot \<Rightarrow> snapshot_input \<Rightarrow> tracked_pages \<Rightarrow> page_snapshot \<times> tracked_pages" where
  "observe_snapshot snapshot input pages =
    (if ps_pageInstanceId snapshot = None \<or> ps_pageInstanceId snapshot = Some [] then (snapshot, discard_page (ps_tabId snapshot) pages)
     else
       let pageInstanceId = the (ps_pageInstanceId snapshot);
           content = ps_content snapshot;
           lines = split_on CHR 0x0A content;
           previous = Map_get pages (ps_tabId snapshot);
           newDocument = (case previous of None \<Rightarrow> True | Some p \<Rightarrow> tp_pageInstanceId p \<noteq> pageInstanceId \<or> tp_url p \<noteq> ps_url snapshot);
           sameContent = (\<not> newDocument \<and> tp_lines (the previous) = lines);
           revision = (case previous of None \<Rightarrow> 1 | Some p \<Rightarrow> tp_revision p + (if newDocument \<or> \<not> sameContent then 1 else 0));
           useDelta = (\<not> newDocument \<and> si_forceFull input \<noteq> Some True \<and> si_knownRevision input = map_option tp_revision previous);
           delta = lineDelta (tp_lines (the previous)) lines;
           (kind, text) =
             (if useDelta \<and> sameContent then (UnchangedUpdate, [])
              else if useDelta \<and> length delta < length content then (DeltaUpdate, delta)
              else (FullUpdate, content));
           state = \<lparr>su_documentId = pageInstanceId, su_revision = revision,
             su_baseRevision = (if kind \<noteq> FullUpdate then Some (tp_revision (the previous)) else None), su_kind = kind,
             su_snapshot = (if kind \<noteq> UnchangedUpdate then Some text else None), su_refsValid = True\<rparr>
       in (snapshot\<lparr>ps_content := text, ps_state := Some state\<rparr>,
           Map_set pages (ps_tabId snapshot) \<lparr>tp_pageInstanceId = pageInstanceId, tp_url = ps_url snapshot, tp_revision = revision, tp_lines = lines\<rparr>))"

section \<open>Reading an update\<close>

text \<open>The numbers of a header, and what the reader of an update makes of it and of the content it had before.\<close>

definition read_header :: "string \<Rightarrow> nat \<times> nat" where
  "read_header s =
    (let first = drop 15 s; line = takeWhile digit_char first;
         second = drop (length line + 9) first; removed = takeWhile digit_char second
     in (digits_value line, digits_value removed))"

definition apply_delta :: "string \<Rightarrow> string \<Rightarrow> string" where
  "apply_delta base text =
    (let lines = split_on CHR 0x0A base; parts = split_on CHR 0x0A text; (line, removed) = read_header (hd parts)
     in join [CHR 0x0A] (take (line - 1) lines @ tl parts @ drop (line - 1 + removed) lines))"

definition read_update :: "string option \<Rightarrow> page_snapshot \<Rightarrow> string option" where
  "read_update base result =
    (case ps_state result of
       None \<Rightarrow> Some (ps_content result)
     | Some u \<Rightarrow> (case su_kind u of
           FullUpdate \<Rightarrow> su_snapshot u
         | UnchangedUpdate \<Rightarrow> base
         | DeltaUpdate \<Rightarrow> Option.bind base (\<lambda>b. map_option (apply_delta b) (su_snapshot u))))"

lemma start_loop_prefix:
  assumes "take start previous = take start current" "start \<le> length previous" "start \<le> length current"
  shows "take (start_loop previous current start) previous = take (start_loop previous current start) current \<and>
    start_loop previous current start \<le> length previous \<and> start_loop previous current start \<le> length current"
  using assms
proof (induction previous current start rule: start_loop.induct)
  case (1 previous current start)
  show ?case
  proof (cases "start < length previous \<and> start < length current \<and> previous ! start = current ! start")
    case True
    then have "take (Suc start) previous = take (Suc start) current" using 1(2) by (simp add: take_Suc_conv_app_nth)
    from 1(1) [OF True this] True show ?thesis by (subst (1 2 3 4) start_loop.simps) simp
  next
    case False
    have stop: "start_loop previous current start = start" using False by (subst start_loop.simps) auto
    show ?thesis unfolding stop using 1(2-4) by simp
  qed
qed

lemma end_loop_suffix:
  assumes "drop endOld previous = drop endNew current" "start \<le> endOld" "start \<le> endNew" "endOld \<le> length previous" "endNew \<le> length current"
    "end_loop previous current start endOld endNew = (o', n')"
  shows "drop o' previous = drop n' current \<and> start \<le> o' \<and> start \<le> n' \<and> o' \<le> length previous \<and> n' \<le> length current"
  using assms
proof (induction previous current start endOld endNew rule: end_loop.induct)
  case (1 previous current start endOld endNew)
  show ?case
  proof (cases "start < Suc endOld \<and> start < Suc endNew \<and> previous ! endOld = current ! endNew")
    case True
    have "drop endOld previous = drop endNew current"
      using 1(2,5,6) True by (simp add: Cons_nth_drop_Suc [symmetric])
    with 1 True show ?thesis by simp
  next
    case False
    with 1 show ?thesis by auto
  qed
qed auto

lemma header_read: "read_header (delta_header start removed added) = (start + 1, removed)"
proof -
  have digits: "takeWhile digit_char (decimal n @ CHR '' '' # r) = decimal n" for n r
    using decimal_digits [of n] by (simp add: takeWhile_stop) (simp add: digit_char_def)
  show ?thesis by (simp add: read_header_def delta_header_def Let_def digits decimal_value)
qed

lemma header_line: "CHR 0x0A \<notin> set (delta_header start removed added)"
proof -
  have "\<not> digit_char (CHR 0x0A)" by (simp add: digit_char_def)
  then have "CHR 0x0A \<notin> set (decimal n)" for n using decimal_digits [of n] unfolding list_all_iff by blast
  then show ?thesis by (simp add: delta_header_def)
qed

lemma delta_applied: "apply_delta base (lineDelta (split_on CHR 0x0A base) (split_on CHR 0x0A content)) = join [CHR 0x0A] (split_on CHR 0x0A content)"
proof -
  let ?p = "split_on CHR 0x0A base" and ?c = "split_on CHR 0x0A content"
  define start where "start = start_loop ?p ?c 0"
  obtain eo en where ends: "end_loop ?p ?c start (length ?p) (length ?c) = (eo, en)" by fastforce
  have s: "take start ?p = take start ?c" "start \<le> length ?p" "start \<le> length ?c"
    using start_loop_prefix [of 0 ?p ?c] by (simp_all add: start_def)
  have e: "drop eo ?p = drop en ?c" "start \<le> eo" "start \<le> en" using end_loop_suffix [OF _ s(2,3) _ _ ends] by simp_all
  let ?changes = "drop start (take en ?c)"
  have free: "\<forall>l \<in> set (delta_header start (eo - start) (length ?changes) # ?changes). CHR 0x0A \<notin> set l"
  proof -
    have "set ?changes \<subseteq> set ?c" using set_drop_subset [of start "take en ?c"] set_take_subset [of en ?c] by (rule order.trans)
    then have "\<forall>l \<in> set ?changes. CHR 0x0A \<notin> set l" using split_on_pieces [of _ "CHR 0x0A" content] by blast
    then show ?thesis using header_line by simp
  qed
  have "lineDelta ?p ?c = join [CHR 0x0A] (delta_header start (eo - start) (length ?changes) # ?changes)"
    by (simp add: lineDelta_def start_def [symmetric] ends)
  then have parts: "split_on CHR 0x0A (lineDelta ?p ?c) = delta_header start (eo - start) (length ?changes) # ?changes"
    using split_on_join [OF _ free] by simp
  have "take start ?p @ ?changes @ drop (start + (eo - start)) ?p = take start ?c @ ?changes @ drop en ?c" using s e by simp
  also have "\<dots> = take en ?c @ drop en ?c" using e(3) by (metis append.assoc append_take_drop_id drop_take min.absorb1 take_take)
  finally show ?thesis by (simp add: apply_delta_def parts header_read)
qed

lemma join_split: "join [d] (split_on d s) = s"
proof (induction s)
  case (Cons c s)
  obtain p ps where "split_on d s = p # ps" by (cases "split_on d s") auto
  with Cons show ?case by (cases ps) auto
qed simp

section \<open>Sessions\<close>

datatype page_event = Observe page_snapshot snapshot_input | DiscardPage string | ClearPages

text \<open>The tracker and the contents a reader of all results has, by tab.\<close>

definition page_step :: "page_event \<Rightarrow> tracked_pages \<times> (string \<Rightarrow> string option) \<Rightarrow> tracked_pages \<times> (string \<Rightarrow> string option)" where
  "page_step event st =
    (case st of (pages, view) \<Rightarrow>
      case event of
        Observe snapshot input \<Rightarrow>
          (let (result, pages') = observe_snapshot snapshot input pages
           in (pages', view (ps_tabId result := read_update (view (ps_tabId result)) result)))
      | DiscardPage tabId \<Rightarrow> (discard_page tabId pages, view)
      | ClearPages \<Rightarrow> ([], view))"

definition page_run :: "page_event list \<Rightarrow> tracked_pages \<times> (string \<Rightarrow> string option)" where
  "page_run events = fold page_step events ([], \<lambda>_. None)"

text \<open>The content that was observed last in a tab. A snapshot comes without an update.\<close>

fun last_content :: "page_event list \<Rightarrow> string \<Rightarrow> string option" where
  "last_content [] tab = None"
| "last_content (e # es) tab =
    (case last_content es tab of
       Some c \<Rightarrow> Some c
     | None \<Rightarrow> (case e of Observe snapshot _ \<Rightarrow> if ps_tabId snapshot = tab then Some (ps_content snapshot) else None | _ \<Rightarrow> None))"

definition fresh_snapshots :: "page_event list \<Rightarrow> bool" where
  "fresh_snapshots events = list_all (\<lambda>e. case e of Observe snapshot _ \<Rightarrow> ps_state snapshot = None | _ \<Rightarrow> True) events"

lemma last_content_snoc:
  "last_content (es @ [e]) tab =
    (case e of Observe snapshot _ \<Rightarrow> if ps_tabId snapshot = tab then Some (ps_content snapshot) else last_content es tab | _ \<Rightarrow> last_content es tab)"
  by (induction es) (auto split: page_event.splits option.splits)

text \<open>What one observation answers, and that the answer is never longer than the page.\<close>

lemma observed:
  assumes "ps_state snapshot = None" "\<And>p. Map_get pages (ps_tabId snapshot) = Some p \<Longrightarrow> base = Some (join [CHR 0x0A] (tp_lines p)) \<and> tp_lines p \<noteq> []
      \<and> (\<forall>l \<in> set (tp_lines p). CHR 0x0A \<notin> set l)"
    "observe_snapshot snapshot input pages = (result, pages')"
  shows "ps_tabId result = ps_tabId snapshot \<and> read_update base result = Some (ps_content snapshot) \<and> length (ps_content result) \<le> length (ps_content snapshot)"
proof (cases "ps_pageInstanceId snapshot = None \<or> ps_pageInstanceId snapshot = Some []")
  case True
  with assms(1,3) show ?thesis by (auto simp: observe_snapshot_def read_update_def)
next
  case False
  let ?c = "split_on CHR 0x0A (ps_content snapshot)"
  have same: "tp_lines p = ?c \<Longrightarrow> base = Some (ps_content snapshot)" if "Map_get pages (ps_tabId snapshot) = Some p" for p
    using assms(2) [OF that] join_split [of "CHR 0x0A" "ps_content snapshot"] by simp
  have delta: "map_option (\<lambda>b. apply_delta b (lineDelta (tp_lines p) ?c)) base = Some (ps_content snapshot)" if "Map_get pages (ps_tabId snapshot) = Some p" for p
  proof -
    have "split_on CHR 0x0A (the base) = tp_lines p" using assms(2) [OF that] split_on_join [of "tp_lines p" "CHR 0x0A"] by simp
    then show ?thesis using assms(2) [OF that] delta_applied [of "the base" "ps_content snapshot"] by (simp add: join_split)
  qed
  show ?thesis
  proof (cases "Map_get pages (ps_tabId snapshot)")
    case None
    with False assms(3) show ?thesis by (auto simp: observe_snapshot_def read_update_def Let_def)
  next
    case (Some p)
    note parts = same [OF Some] delta [OF Some] assms(2) [OF Some]
    show ?thesis using assms(3) False Some parts
      by (auto simp: observe_snapshot_def read_update_def Let_def split: if_splits)
  qed
qed

lemma observed_pages:
  assumes "observe_snapshot snapshot input pages = (result, pages')" "Map_get pages' tab = Some p"
  shows "(tab = ps_tabId snapshot \<and> tp_lines p = split_on CHR 0x0A (ps_content snapshot)) \<or> (tab \<noteq> ps_tabId snapshot \<and> Map_get pages tab = Some p)"
  using assms by (auto simp: observe_snapshot_def discard_page_def Let_def map_model split: if_splits)

text \<open>A page that is tracked is the one the reader has.\<close>

definition view_ok :: "tracked_pages \<Rightarrow> (string \<Rightarrow> string option) \<Rightarrow> bool" where
  "view_ok pages view = (\<forall>tab p. Map_get pages tab = Some p \<longrightarrow> (\<exists>c. view tab = Some c \<and> tp_lines p = split_on CHR 0x0A c))"

lemma view_okD: "view_ok pages view \<Longrightarrow> Map_get pages tab = Some p \<Longrightarrow>
    view tab = Some (join [CHR 0x0A] (tp_lines p)) \<and> tp_lines p \<noteq> [] \<and> (\<forall>l \<in> set (tp_lines p). CHR 0x0A \<notin> set l)"
  unfolding view_ok_def using join_split [of "CHR 0x0A"] split_on_pieces [of _ "CHR 0x0A"] split_on_nonempty by metis

lemma run_view:
  "fresh_snapshots events \<Longrightarrow> case page_run events of (pages, view) \<Rightarrow> view_ok pages view \<and> view = last_content events"
proof (induction events rule: rev_induct)
  case Nil
  show ?case by (auto simp: page_run_def view_ok_def)
next
  case (snoc e events)
  obtain pages view where run: "page_run events = (pages, view)" by fastforce
  have "fresh_snapshots events" using snoc.prems by (simp add: fresh_snapshots_def)
  from snoc.IH [OF this, unfolded run prod.case] have ok: "view_ok pages view" "view = last_content events" by blast+
  have run': "page_run (events @ [e]) = page_step e (pages, view)" using run by (simp add: page_run_def)
  show ?case
  proof (cases e)
    case (Observe snapshot input)
    obtain result pages' where obs: "observe_snapshot snapshot input pages = (result, pages')" by fastforce
    have "ps_state snapshot = None" using snoc.prems Observe by (simp add: fresh_snapshots_def)
    note res = observed [OF this view_okD [OF ok(1)] obs]
    let ?view = "view (ps_tabId snapshot := Some (ps_content snapshot))"
    have "view_ok pages' ?view"
      unfolding view_ok_def
    proof (intro allI impI)
      fix tab p assume "Map_get pages' tab = Some p"
      from observed_pages [OF obs this] ok(1) show "\<exists>c. ?view tab = Some c \<and> tp_lines p = split_on CHR 0x0A c"
        unfolding view_ok_def by auto
    qed
    moreover have "?view = last_content (events @ [e])" by (rule ext) (simp add: last_content_snoc Observe ok(2))
    ultimately show ?thesis using res unfolding run' by (simp add: page_step_def Observe obs)
  next
    case (DiscardPage tab)
    have "view_ok (discard_page tab pages) view" using ok(1) unfolding view_ok_def discard_page_def by (simp add: map_model)
    then show ?thesis unfolding run' using ok(2) by (auto simp: page_step_def DiscardPage last_content_snoc)
  next
    case ClearPages
    then show ?thesis unfolding run' using ok(2) by (auto simp: page_step_def view_ok_def last_content_snoc)
  qed
qed

text \<open>
  C38. Whatever revisions the calls name and whenever pages are discarded, a reader that applies every answer to what it had of the tab has after each observation exactly the
  content of the page; and no answer is longer than the page.
\<close>

theorem snapshots_reconstructed:
  assumes "fresh_snapshots (events @ [Observe snapshot input])"
  shows "snd (page_run (events @ [Observe snapshot input])) (ps_tabId snapshot) = Some (ps_content snapshot) \<and>
    snd (page_run events) = last_content events \<and>
    length (ps_content (fst (observe_snapshot snapshot input (fst (page_run events))))) \<le> length (ps_content snapshot)"
proof -
  have fresh: "fresh_snapshots events" "ps_state snapshot = None" using assms by (simp_all add: fresh_snapshots_def)
  obtain pages view where run: "page_run events = (pages, view)" by fastforce
  obtain result pages' where obs: "observe_snapshot snapshot input pages = (result, pages')" by fastforce
  from run_view [OF fresh(1), unfolded run prod.case] have ok: "view_ok pages view" "view = last_content events" by blast+
  from observed [OF fresh(2) view_okD [OF ok(1)] obs] run_view [OF assms] ok(2)
  show ?thesis by (simp add: run obs last_content_snoc split: prod.splits)
qed

definition tracked_demo :: "string \<Rightarrow> page_snapshot" where
  "tracked_demo c = \<lparr>ps_tabId = ''t'', ps_pageInstanceId = Some ''d'', ps_url = ''u'', ps_content = c, ps_state = None\<rparr>"

definition long_page :: "char \<Rightarrow> string" where
  "long_page c = replicate 40 (CHR ''a'') @ CHR 0x0A # c # CHR 0x0A # replicate 40 (CHR ''b'')"

theorem snapshots_reconstructed_witness:
  "let result = fst (observe_snapshot (tracked_demo (long_page (CHR ''y''))) \<lparr>si_knownRevision = Some 1, si_forceFull = None\<rparr>
       (fst (page_run [Observe (tracked_demo (long_page (CHR ''x''))) \<lparr>si_knownRevision = None, si_forceFull = None\<rparr>])))
   in map_option su_kind (ps_state result) = Some DeltaUpdate \<and> length (ps_content result) \<le> 83"
proof -
  let ?e = "[Observe (tracked_demo (long_page (CHR ''x''))) \<lparr>si_knownRevision = None, si_forceFull = None\<rparr>]"
  let ?i = "\<lparr>si_knownRevision = Some 1, si_forceFull = None\<rparr>"
  have "fresh_snapshots (?e @ [Observe (tracked_demo (long_page (CHR ''y''))) ?i])" by (simp add: fresh_snapshots_def tracked_demo_def)
  note snapshots_reconstructed [OF this, THEN conjunct2, THEN conjunct2]
  moreover have "map_option su_kind (ps_state (fst (observe_snapshot (tracked_demo (long_page (CHR ''y''))) ?i (fst (page_run ?e))))) = Some DeltaUpdate"
    by code_simp
  moreover have "length (ps_content (tracked_demo (long_page (CHR ''y'')))) = 83" by (simp add: tracked_demo_def long_page_def)
  ultimately show ?thesis unfolding Let_def by (intro conjI) (simp_all only:)
qed

end
