(* ===== verification/AuditQueue.thy ===== *)
theory AuditQueue
  imports Prelude "HOL-Library.Sublist"
begin

text \<open>
  The delivery of audit entries to the edge, \<open>services/mcp-gateway/src/companion/cloud-audit-queue.ts\<close>. What \<open>parseCompanionAuditEntry\<close> makes of an entry, what the transmission answers and
  the identifier of a new batch are arguments; the timer is an event of its own.
\<close>

section \<open>The queue\<close>

definition MAX_PENDING_ENTRIES :: nat where
  "MAX_PENDING_ENTRIES = 512"

definition MAX_BATCH_ENTRIES :: nat where
  "MAX_BATCH_ENTRIES = 16"

record 'e audit_batch =
  ab_batchId :: string
  ab_entries :: "'e list"
  ab_dropped :: nat

datatype audit_state = Delayed | Restored | RecordsLost

record audit_status =
  st_state :: audit_state
  st_pending :: nat
  st_dropped :: nat

text \<open>\<open>aq_retry\<close> is whether the timer is set, \<open>aq_notices\<close> what was passed to \<open>onStatus\<close>, and \<open>aq_sent\<close> what was transmitted.\<close>

record 'e audit_queue =
  aq_pending :: "'e list"
  aq_inFlight :: "'e audit_batch option"
  aq_connected :: bool
  aq_retry :: bool
  aq_dropped :: nat
  aq_degraded :: bool
  aq_notices :: "audit_status list"
  aq_sent :: "'e audit_batch list"

definition new_audit_queue :: "'e audit_queue" where
  "new_audit_queue = \<lparr>aq_pending = [], aq_inFlight = None, aq_connected = False, aq_retry = False, aq_dropped = 0, aq_degraded = False,
     aq_notices = [], aq_sent = []\<rparr>"

definition audit_in_flight :: "'e audit_queue \<Rightarrow> 'e list" where
  "audit_in_flight q = (case aq_inFlight q of None \<Rightarrow> [] | Some b \<Rightarrow> ab_entries b)"

definition queue_pending :: "'e audit_queue \<Rightarrow> nat" where
  "queue_pending q = length (aq_pending q) + length (audit_in_flight q)"

definition audit_warn :: "audit_state \<Rightarrow> 'e audit_queue \<Rightarrow> 'e audit_queue" where
  "audit_warn state q =
    (if state = Delayed \<and> aq_degraded q then q
     else if state = RecordsLost \<and> aq_degraded q \<and> aq_dropped q mod 100 \<noteq> 1 then q
     else q\<lparr>aq_degraded := True,
       aq_notices := aq_notices q @ [\<lparr>st_state = state, st_pending = queue_pending q, st_dropped = aq_dropped q\<rparr>]\<rparr>)"

definition drop_entry :: "'e audit_queue \<Rightarrow> 'e audit_queue" where
  "drop_entry q = audit_warn RecordsLost (q\<lparr>aq_dropped := Suc (aq_dropped q)\<rparr>)"

definition next_batch :: "string \<Rightarrow> 'e audit_queue \<Rightarrow> 'e audit_queue" where
  "next_batch uuid q =
    (if aq_inFlight q = None \<and> aq_pending q \<noteq> []
     then q\<lparr>aq_inFlight := Some \<lparr>ab_batchId = uuid, ab_entries = take MAX_BATCH_ENTRIES (aq_pending q), ab_dropped = aq_dropped q\<rparr>,
       aq_pending := drop MAX_BATCH_ENTRIES (aq_pending q)\<rparr>
     else q)"

definition pump :: "bool \<Rightarrow> string \<Rightarrow> bool \<Rightarrow> 'e audit_queue \<Rightarrow> 'e audit_queue" where
  "pump resend uuid transmitted q =
    (if \<not> aq_connected q then q
     else let q = next_batch uuid q
       in case aq_inFlight q of
            None \<Rightarrow> q
          | Some batch \<Rightarrow>
              if aq_retry q \<and> \<not> resend then q
              else let q = q\<lparr>aq_retry := False, aq_sent := aq_sent q @ [batch]\<rparr>;
                       q = (if transmitted then q else audit_warn Delayed q)
                   in q\<lparr>aq_retry := True\<rparr>)"

text \<open>The entry is valid, is refused, or its check throws; the last two have one effect.\<close>

definition audit_write :: "'e option \<Rightarrow> string \<Rightarrow> bool \<Rightarrow> 'e audit_queue \<Rightarrow> 'e audit_queue" where
  "audit_write validated uuid transmitted q =
    (case validated of
       None \<Rightarrow> drop_entry q
     | Some e \<Rightarrow>
         if MAX_PENDING_ENTRIES \<le> queue_pending q \<and> aq_pending q = [] then drop_entry q
         else let q = (if MAX_PENDING_ENTRIES \<le> queue_pending q then drop_entry (q\<lparr>aq_pending := tl (aq_pending q)\<rparr>) else q);
                  q = q\<lparr>aq_pending := aq_pending q @ [e]\<rparr>;
                  q = (if aq_connected q then q else audit_warn Delayed q)
              in pump False uuid transmitted q)"

definition audit_connect :: "string \<Rightarrow> bool \<Rightarrow> 'e audit_queue \<Rightarrow> 'e audit_queue" where
  "audit_connect uuid transmitted q = pump True uuid transmitted (q\<lparr>aq_connected := True\<rparr>)"

definition audit_disconnect :: "'e audit_queue \<Rightarrow> 'e audit_queue" where
  "audit_disconnect q = q\<lparr>aq_connected := False, aq_retry := False\<rparr>"

definition acknowledge :: "string \<Rightarrow> string \<Rightarrow> bool \<Rightarrow> 'e audit_queue \<Rightarrow> 'e audit_queue" where
  "acknowledge batchId uuid transmitted q =
    (if map_option ab_batchId (aq_inFlight q) \<noteq> Some batchId then q
     else let q = pump False uuid transmitted (q\<lparr>aq_inFlight := None, aq_retry := False\<rparr>)
       in if aq_pending q = [] \<and> aq_inFlight q = None \<and> aq_degraded q
          then q\<lparr>aq_degraded := False, aq_notices := aq_notices q @ [\<lparr>st_state = Restored, st_pending = 0, st_dropped = aq_dropped q\<rparr>]\<rparr>
          else q)"

definition audit_timer :: "string \<Rightarrow> bool \<Rightarrow> 'e audit_queue \<Rightarrow> 'e audit_queue" where
  "audit_timer uuid transmitted q =
    (if \<not> aq_retry q then q
     else let q = q\<lparr>aq_retry := False\<rparr>; q = (if aq_inFlight q \<noteq> None then audit_warn Delayed q else q)
       in pump True uuid transmitted q)"

section \<open>Sessions\<close>

datatype 'e audit_event = Write "'e option" string bool | Connect string bool | Disconnect | Acknowledge string string bool | Timer string bool

text \<open>With the queue, the valid entries that were written, how many others were, and the entries of acknowledged batches.\<close>

record 'e audit_run =
  ar_queue :: "'e audit_queue"
  ar_written :: "'e list"
  ar_refused :: nat
  ar_acknowledged :: "'e list"

definition audit_step :: "'e audit_event \<Rightarrow> 'e audit_run \<Rightarrow> 'e audit_run" where
  "audit_step event r =
    (let q = ar_queue r
     in case event of
       Write validated uuid sent \<Rightarrow> r\<lparr>ar_queue := audit_write validated uuid sent q,
         ar_written := ar_written r @ (case validated of None \<Rightarrow> [] | Some e \<Rightarrow> [e]),
         ar_refused := ar_refused r + (if validated = None then 1 else 0)\<rparr>
     | Connect uuid sent \<Rightarrow> r\<lparr>ar_queue := audit_connect uuid sent q\<rparr>
     | Disconnect \<Rightarrow> r\<lparr>ar_queue := audit_disconnect q\<rparr>
     | Acknowledge batchId uuid sent \<Rightarrow> r\<lparr>ar_queue := acknowledge batchId uuid sent q,
         ar_acknowledged := ar_acknowledged r @ (if map_option ab_batchId (aq_inFlight q) = Some batchId then audit_in_flight q else [])\<rparr>
     | Timer uuid sent \<Rightarrow> r\<lparr>ar_queue := audit_timer uuid sent q\<rparr>)"

definition audit_session :: "'e audit_event list \<Rightarrow> 'e audit_run" where
  "audit_session events = fold audit_step events \<lparr>ar_queue = new_audit_queue, ar_written = [], ar_refused = 0, ar_acknowledged = []\<rparr>"

text \<open>What a step leaves alone, and what the queue of a session satisfies.\<close>

definition same_entries :: "'e audit_queue \<Rightarrow> 'e audit_queue \<Rightarrow> bool" where
  "same_entries q q' = (audit_in_flight q' @ aq_pending q' = audit_in_flight q @ aq_pending q \<and> aq_dropped q' = aq_dropped q \<and> aq_connected q' = aq_connected q)"

text \<open>
  The losses are announced: the count of some notice of losses is in the same hundred as the number of losses, and not above it.
\<close>

definition announced :: "'e audit_queue \<Rightarrow> bool" where
  "announced q = (aq_dropped q \<noteq> 0 \<longrightarrow> (\<exists>n \<in> set (aq_notices q). st_state n = RecordsLost \<and> 0 < st_dropped n \<and> st_dropped n \<le> aq_dropped q \<and>
     (aq_dropped q - 1) div 100 = (st_dropped n - 1) div 100))"

definition rests_ok :: "'e audit_queue \<Rightarrow> bool" where
  "rests_ok q = ((aq_connected q \<and> aq_pending q \<noteq> [] \<longrightarrow> aq_inFlight q \<noteq> None) \<and> (aq_connected q \<and> aq_inFlight q \<noteq> None \<longrightarrow> aq_retry q) \<and> announced q)"

lemma warn_simps [simp]:
  "aq_pending (audit_warn st q) = aq_pending q" "aq_inFlight (audit_warn st q) = aq_inFlight q" "aq_connected (audit_warn st q) = aq_connected q"
  "aq_retry (audit_warn st q) = aq_retry q" "aq_dropped (audit_warn st q) = aq_dropped q" "audit_in_flight (audit_warn st q) = audit_in_flight q"
  by (simp_all add: audit_warn_def audit_in_flight_def)

lemma pump_entries: "same_entries q (pump resend uuid sent q)"
proof -
  have "same_entries q (next_batch uuid q)" by (simp add: same_entries_def next_batch_def audit_in_flight_def)
  then show ?thesis
    by (auto simp: pump_def Let_def same_entries_def audit_in_flight_def split: option.splits)
qed

lemma total_pending: "queue_pending q = length (audit_in_flight q @ aq_pending q)"
  by (simp add: queue_pending_def)

lemma announced_more:
  "announced q \<Longrightarrow> aq_dropped q' = aq_dropped q \<Longrightarrow> set (aq_notices q) \<subseteq> set (aq_notices q') \<Longrightarrow> announced q'"
  unfolding announced_def by auto

lemma warn_announced: "announced q \<Longrightarrow> announced (audit_warn st q)"
  by (erule announced_more) (auto simp: audit_warn_def)

lemma warn_update [simp]: "announced (q\<lparr>aq_pending := ps\<rparr>) = announced q" "announced (q\<lparr>aq_inFlight := b\<rparr>) = announced q"
  "announced (q\<lparr>aq_retry := x\<rparr>) = announced q" "announced (q\<lparr>aq_sent := bs\<rparr>) = announced q" "announced (q\<lparr>aq_connected := x\<rparr>) = announced q"
  by (simp_all add: announced_def)

lemma same_hundred: "Suc d mod 100 \<noteq> 1 \<Longrightarrow> d \<noteq> 0 \<Longrightarrow> d div 100 = (d - 1) div 100"
  by (cases d) (auto simp: div_Suc mod_Suc split: if_splits)

lemma hundred_bound: "(a :: nat) div 100 = b div 100 \<Longrightarrow> a < b + 100"
  using div_mult_mod_eq [of a 100] div_mult_mod_eq [of b 100] mod_less_divisor [of 100 a] by linarith

lemma announced_silent:
  assumes "announced q" "Suc (aq_dropped q) mod 100 \<noteq> 1"
  shows "announced (q\<lparr>aq_dropped := Suc (aq_dropped q)\<rparr>)"
proof -
  have d: "aq_dropped q \<noteq> 0" using assms(2) by (intro notI) simp
  then obtain n where n: "n \<in> set (aq_notices q)" "st_state n = RecordsLost" "0 < st_dropped n" "st_dropped n \<le> aq_dropped q"
      "(aq_dropped q - 1) div 100 = (st_dropped n - 1) div 100"
    using assms(1) by (auto simp: announced_def)
  have "aq_dropped q div 100 = (aq_dropped q - 1) div 100" by (rule same_hundred [OF assms(2) d])
  with n show ?thesis by (auto simp: announced_def intro!: bexI [of _ n])
qed

lemma drop_announced: "announced q \<Longrightarrow> announced (drop_entry q)"
proof (cases "aq_degraded q \<and> Suc (aq_dropped q) mod 100 \<noteq> 1")
  case True
  assume "announced q"
  with True announced_silent [of q] show ?thesis by (simp add: drop_entry_def audit_warn_def)
next
  case False
  then show ?thesis by (auto simp: drop_entry_def audit_warn_def announced_def)
qed

lemma pump_rests:
  assumes "announced q"
  shows "rests_ok (pump resend uuid sent q)"
proof -
  have "announced (pump resend uuid sent q)"
    by (rule announced_more [OF assms]) (auto simp: pump_def next_batch_def audit_warn_def Let_def split: option.splits)
  then show ?thesis by (auto simp: pump_def rests_ok_def next_batch_def Let_def split: option.splits)
qed

lemma drop_entry_rests: "rests_ok q \<Longrightarrow> rests_ok (drop_entry q)"
  using drop_announced [of q] by (auto simp: rests_ok_def drop_entry_def)

definition accounted :: "'e audit_run \<Rightarrow> bool" where
  "accounted r =
    (let q = ar_queue r
     in subseq (ar_acknowledged r @ audit_in_flight q @ aq_pending q) (ar_written r) \<and>
        length (ar_written r) + ar_refused r = length (ar_acknowledged r) + queue_pending q + aq_dropped q \<and>
        queue_pending q \<le> MAX_PENDING_ENTRIES \<and> rests_ok q)"

text \<open>Three outcomes of writing a valid entry: it is queued, it replaces the oldest pending one, or it is dropped.\<close>

lemma written_entries:
  "let q' = audit_write (Some e) uuid sent q in
     (audit_in_flight q' @ aq_pending q' = audit_in_flight q @ aq_pending q @ [e] \<and> aq_dropped q' = aq_dropped q \<and> queue_pending q < MAX_PENDING_ENTRIES) \<or>
     (aq_pending q \<noteq> [] \<and> audit_in_flight q' @ aq_pending q' = audit_in_flight q @ tl (aq_pending q) @ [e] \<and> aq_dropped q' = Suc (aq_dropped q)) \<or>
     (audit_in_flight q' = audit_in_flight q \<and> aq_pending q' = aq_pending q \<and> aq_dropped q' = Suc (aq_dropped q))"
proof (cases "MAX_PENDING_ENTRIES \<le> queue_pending q \<and> aq_pending q = []")
  case True
  then show ?thesis by (simp add: audit_write_def drop_entry_def audit_in_flight_def)
next
  case False
  define q1 where "q1 = (if MAX_PENDING_ENTRIES \<le> queue_pending q then drop_entry (q\<lparr>aq_pending := tl (aq_pending q)\<rparr>) else q)"
  define q2 where "q2 = q1\<lparr>aq_pending := aq_pending q1 @ [e]\<rparr>"
  define q3 where "q3 = (if aq_connected q2 then q2 else audit_warn Delayed q2)"
  have "audit_write (Some e) uuid sent q = pump False uuid sent q3"
    unfolding audit_write_def option.case Let_def if_not_P [OF False] q3_def q2_def q1_def by (rule refl)
  with pump_entries [of q3 False uuid sent]
  have "audit_in_flight (audit_write (Some e) uuid sent q) @ aq_pending (audit_write (Some e) uuid sent q) = audit_in_flight q1 @ aq_pending q1 @ [e]"
    "aq_dropped (audit_write (Some e) uuid sent q) = aq_dropped q1"
    by (simp_all add: same_entries_def q3_def q2_def audit_in_flight_def)
  then show ?thesis using False by (auto simp: Let_def q1_def drop_entry_def audit_in_flight_def)
qed

lemma write_rests:
  assumes "rests_ok q"
  shows "rests_ok (audit_write v uuid sent q)"
proof (cases v)
  case None
  with drop_entry_rests [OF assms] show ?thesis by (simp add: audit_write_def)
next
  case (Some e)
  have kept: "announced q" using assms by (simp add: rests_ok_def)
  then have "rests_ok (pump False uuid sent (let q = (if MAX_PENDING_ENTRIES \<le> queue_pending q then drop_entry (q\<lparr>aq_pending := tl (aq_pending q)\<rparr>) else q);
      q = q\<lparr>aq_pending := aq_pending q @ [e]\<rparr> in if aq_connected q then q else audit_warn Delayed q))"
    by (intro pump_rests) (simp add: Let_def warn_announced drop_announced)
  then show ?thesis using drop_entry_rests [OF assms] Some by (auto simp: audit_write_def Let_def)
qed

lemma subseq_snoc: "subseq xs W \<Longrightarrow> subseq (xs @ [e]) (W @ [e])"
  by simp

lemma subseq_without: "subseq (A @ I @ P) W \<Longrightarrow> subseq (A @ I @ tl P) W"
proof -
  have "subseq (tl P) P" by (cases P) auto
  then have "subseq (A @ I @ tl P) (A @ I @ P)" by (intro list_emb_append_mono) auto
  then show "subseq (A @ I @ P) W \<Longrightarrow> ?thesis" using subseq_order.order_trans by blast
qed

lemma write_accounted:
  assumes "accounted r"
  shows "accounted (audit_step (Write v uuid sent) r)"
proof -
  let ?q = "ar_queue r"
  let ?q' = "audit_write v uuid sent ?q"
  from assms have sub: "subseq (ar_acknowledged r @ audit_in_flight ?q @ aq_pending ?q) (ar_written r)"
    and count: "length (ar_written r) + ar_refused r = length (ar_acknowledged r) + queue_pending ?q + aq_dropped ?q"
    and bound: "queue_pending ?q \<le> MAX_PENDING_ENTRIES" and rests: "rests_ok ?q" by (simp_all add: accounted_def Let_def)
  have more: "subseq xs (ar_written r) \<Longrightarrow> subseq xs (ar_written r @ [e])" for xs e by (rule subseq_order.order_trans) auto
  show ?thesis
  proof (cases v)
    case None
    then have "audit_in_flight ?q' = audit_in_flight ?q" "aq_pending ?q' = aq_pending ?q" "aq_dropped ?q' = Suc (aq_dropped ?q)"
      by (simp_all add: audit_write_def drop_entry_def audit_in_flight_def)
    with None sub count bound write_rests [OF rests, of v uuid sent] show ?thesis
      by (simp add: accounted_def audit_step_def queue_pending_def Let_def)
  next
    case (Some e)
    from written_entries [of e uuid sent ?q, folded Some] consider
        (queued) "audit_in_flight ?q' @ aq_pending ?q' = audit_in_flight ?q @ aq_pending ?q @ [e]" "aq_dropped ?q' = aq_dropped ?q" "queue_pending ?q < MAX_PENDING_ENTRIES"
      | (replaced) "aq_pending ?q \<noteq> []" "audit_in_flight ?q' @ aq_pending ?q' = audit_in_flight ?q @ tl (aq_pending ?q) @ [e]" "aq_dropped ?q' = Suc (aq_dropped ?q)"
      | (refused) "audit_in_flight ?q' = audit_in_flight ?q" "aq_pending ?q' = aq_pending ?q" "aq_dropped ?q' = Suc (aq_dropped ?q)"
      unfolding Let_def by blast
    then have "subseq (ar_acknowledged r @ audit_in_flight ?q' @ aq_pending ?q') (ar_written r @ [e]) \<and> queue_pending ?q' \<le> MAX_PENDING_ENTRIES \<and>
        Suc (length (ar_written r)) + ar_refused r = length (ar_acknowledged r) + queue_pending ?q' + aq_dropped ?q'"
    proof cases
      case queued
      have "subseq (ar_acknowledged r @ audit_in_flight ?q @ aq_pending ?q @ [e]) (ar_written r @ [e])" using subseq_snoc [OF sub, of e] by simp
      with queued count show ?thesis unfolding total_pending by simp
    next
      case replaced
      have "subseq (ar_acknowledged r @ audit_in_flight ?q @ tl (aq_pending ?q) @ [e]) (ar_written r @ [e])" using subseq_snoc [OF subseq_without [OF sub], of e] by simp
      moreover have "Suc (length (tl (aq_pending ?q))) = length (aq_pending ?q)" using replaced(1) by (cases "aq_pending ?q") auto
      ultimately show ?thesis using replaced count bound unfolding total_pending by simp
    next
      case refused
      with more [OF sub] count bound show ?thesis by (simp add: queue_pending_def)
    qed
    with Some write_rests [OF rests, of v uuid sent] show ?thesis by (simp add: accounted_def audit_step_def Let_def)
  qed
qed

lemma kept_accounted:
  assumes "accounted r" "same_entries (ar_queue r) q" "rests_ok q"
  shows "accounted (r\<lparr>ar_queue := q\<rparr>)"
proof -
  show ?thesis using assms unfolding accounted_def same_entries_def Let_def total_pending by simp
qed

lemma acknowledge_entries:
  assumes "map_option ab_batchId (aq_inFlight q) = Some batchId" "rests_ok q"
  shows "audit_in_flight (acknowledge batchId uuid sent q) @ aq_pending (acknowledge batchId uuid sent q) = aq_pending q"
    "aq_dropped (acknowledge batchId uuid sent q) = aq_dropped q" "rests_ok (acknowledge batchId uuid sent q)"
proof -
  let ?r = "q\<lparr>aq_inFlight := None, aq_retry := False\<rparr>"
  let ?p = "pump False uuid sent ?r"
  have "same_entries ?r ?p" by (rule pump_entries)
  then have p: "audit_in_flight ?p @ aq_pending ?p = aq_pending q" "aq_dropped ?p = aq_dropped q" by (simp_all add: same_entries_def audit_in_flight_def)
  have "rests_ok ?p" using assms(2) by (intro pump_rests) (simp add: rests_ok_def)
  moreover have "announced q'" if "announced ?p" "q' = ?p\<lparr>aq_degraded := False, aq_notices := aq_notices ?p @ [n]\<rparr>" for q' n
    using that by (intro announced_more [of ?p q']) auto
  ultimately show "audit_in_flight (acknowledge batchId uuid sent q) @ aq_pending (acknowledge batchId uuid sent q) = aq_pending q"
    "aq_dropped (acknowledge batchId uuid sent q) = aq_dropped q" "rests_ok (acknowledge batchId uuid sent q)"
    using assms(1) p by (auto simp: acknowledge_def Let_def audit_in_flight_def rests_ok_def)
qed

lemma acknowledge_accounted:
  assumes "accounted r"
  shows "accounted (audit_step (Acknowledge batchId uuid sent) r)"
proof (cases "map_option ab_batchId (aq_inFlight (ar_queue r)) = Some batchId")
  case True
  have rests: "rests_ok (ar_queue r)" using assms by (simp add: accounted_def Let_def)
  note ack = acknowledge_entries [OF True rests, of uuid sent]
  show ?thesis using assms True ack unfolding accounted_def audit_step_def Let_def total_pending by simp
next
  case False
  then have "audit_step (Acknowledge batchId uuid sent) r = r" by (simp only: audit_step_def Let_def audit_event.case acknowledge_def if_True if_False not_False_eq_True) simp
  then show ?thesis using assms by simp
qed

lemma step_accounted: "accounted r \<Longrightarrow> accounted (audit_step event r)"
proof (cases event)
  case (Connect uuid sent)
  assume acc: "accounted r"
  let ?q = "(ar_queue r)\<lparr>aq_connected := True\<rparr>"
  have "rests_ok (audit_connect uuid sent (ar_queue r))"
    unfolding audit_connect_def using acc by (intro pump_rests) (simp add: accounted_def rests_ok_def Let_def)
  moreover have "audit_in_flight (pump True uuid sent ?q) @ aq_pending (pump True uuid sent ?q) = audit_in_flight (ar_queue r) @ aq_pending (ar_queue r)"
    "aq_dropped (pump True uuid sent ?q) = aq_dropped (ar_queue r)"
    using pump_entries [of ?q True uuid sent] by (simp_all add: same_entries_def audit_in_flight_def)
  ultimately show ?thesis using acc Connect unfolding accounted_def audit_step_def Let_def total_pending by (simp add: audit_connect_def)
next
  case Disconnect
  then show "accounted r \<Longrightarrow> ?thesis"
    by (auto simp: accounted_def audit_step_def audit_disconnect_def rests_ok_def queue_pending_def audit_in_flight_def Let_def)
next
  case (Timer uuid sent)
  assume acc: "accounted r"
  show ?thesis
  proof (cases "aq_retry (ar_queue r)")
    case True
    let ?q = "(ar_queue r)\<lparr>aq_retry := False\<rparr>"
    let ?w = "if aq_inFlight ?q \<noteq> None then audit_warn Delayed ?q else ?q"
    have "same_entries (ar_queue r) ?w" by (simp add: same_entries_def audit_in_flight_def)
    then have "same_entries (ar_queue r) (pump True uuid sent ?w)" using pump_entries [of ?w True uuid sent] by (simp add: same_entries_def)
    moreover have "rests_ok (pump True uuid sent ?w)"
      using acc by (intro pump_rests) (auto simp: accounted_def rests_ok_def warn_announced Let_def)
    ultimately show ?thesis using kept_accounted [OF acc] True Timer by (simp add: audit_step_def audit_timer_def Let_def)
  next
    case False
    with acc Timer show ?thesis by (simp add: audit_step_def audit_timer_def)
  qed
qed (simp_all add: write_accounted acknowledge_accounted)

text \<open>
  C39. In any session every entry that was written is accounted for: it was acknowledged, is in flight, is pending or was counted as dropped, and what was acknowledged or is held keeps the
  order of writing. At most 512 entries are held; while there is a connection, entries wait only behind a batch in flight, for which the timer is set; and losses are
  announced: once entries were dropped there is a notice of lost records whose count is at most 99 behind the number of dropped entries.
\<close>

theorem audit_accounted:
  "let r = audit_session events; q = ar_queue r in
     subseq (ar_acknowledged r @ audit_in_flight q @ aq_pending q) (ar_written r) \<and>
     length (ar_written r) + ar_refused r = length (ar_acknowledged r) + length (audit_in_flight q) + length (aq_pending q) + aq_dropped q \<and>
     length (audit_in_flight q) + length (aq_pending q) \<le> 512 \<and>
     (aq_connected q \<and> aq_pending q \<noteq> [] \<longrightarrow> aq_inFlight q \<noteq> None) \<and> (aq_connected q \<and> aq_inFlight q \<noteq> None \<longrightarrow> aq_retry q) \<and>
     (aq_dropped q \<noteq> 0 \<longrightarrow> (\<exists>n \<in> set (aq_notices q). st_state n = RecordsLost \<and> 0 < st_dropped n \<and> st_dropped n \<le> aq_dropped q \<and> aq_dropped q < st_dropped n + 100))"
proof -
  have "accounted (audit_session events)"
  proof (induction events rule: rev_induct)
    case Nil
    show ?case by (simp add: audit_session_def accounted_def new_audit_queue_def audit_in_flight_def queue_pending_def rests_ok_def announced_def)
  next
    case (snoc e events)
    then show ?case using step_accounted by (simp add: audit_session_def)
  qed
  moreover have "aq_dropped q < st_dropped n + 100" if "(aq_dropped q - 1) div 100 = (st_dropped n - 1) div 100" "0 < st_dropped n" for q :: "'a audit_queue" and n
    using hundred_bound [OF that(1)] that(2) by linarith
  ultimately show ?thesis unfolding accounted_def rests_ok_def announced_def queue_pending_def MAX_PENDING_ENTRIES_def Let_def by auto
qed

definition two_written :: "nat audit_event list" where
  "two_written = [Write (Some 1) ''a'' True, Connect ''b'' True, Write (Some 2) ''c'' True, Acknowledge ''b'' ''d'' False, Write None ''e'' True]"

theorem audit_accounted_witness:
  "let r = audit_session two_written; q = ar_queue r in
     ar_acknowledged r = [1] \<and> audit_in_flight q = [2] \<and> aq_dropped q = 1 \<and> aq_retry q \<and> (\<exists>n \<in> set (aq_notices q). st_state n = RecordsLost \<and> st_dropped n = 1)"
proof -
  have eval: "ar_acknowledged (audit_session two_written) = [1]" "audit_in_flight (ar_queue (audit_session two_written)) = [2]"
    "aq_dropped (ar_queue (audit_session two_written)) = 1" "aq_connected (ar_queue (audit_session two_written))" by code_simp+
  from eval(2) have "aq_inFlight (ar_queue (audit_session two_written)) \<noteq> None" by (auto simp: audit_in_flight_def split: option.splits)
  with audit_accounted [of two_written] eval show ?thesis unfolding Let_def by fastforce
qed

end
