(* ===== verification/McpOperations.thy ===== *)
theory McpOperations
  imports JsValue
begin

text \<open>
  The operations of MCP requests and their cancellation, \<open>services/mcp-gateway/src/mcp/operation-registry.ts\<close>. An abort controller is named by the token of its operation, a pending registration by a number of its own;
  the numbers among request identifiers are given by their text.
\<close>

section \<open>Requests\<close>

datatype McpRequestId = StringId string | NumberId string

definition operationKey :: "(string \<Rightarrow> string) \<Rightarrow> string \<Rightarrow> McpRequestId \<Rightarrow> string" where
  "operationKey sha256 principalKey requestId =
    principalKey @ '':'' @ sha256 (case requestId of StringId s \<Rightarrow> ''string:'' @ s | NumberId s \<Rightarrow> ''number:'' @ s)"

definition is_object :: "js_value \<Rightarrow> bool" where
  "is_object v = (case v of JsObject _ \<Rightarrow> True | JsInstance _ \<Rightarrow> True | JsArray _ \<Rightarrow> True | _ \<Rightarrow> False)"

definition member :: "js_value \<Rightarrow> string \<Rightarrow> js_value" where
  "member v name =
    (let props = (case v of JsObject ps \<Rightarrow> ps | JsInstance ps \<Rightarrow> ps | _ \<Rightarrow> [])
     in case map_of props name of None \<Rightarrow> JsUndefined | Some x \<Rightarrow> x)"

text \<open>\<open>String(n)\<close> is a parameter.\<close>

definition request_id :: "(js_number \<Rightarrow> string) \<Rightarrow> js_value \<Rightarrow> McpRequestId option" where
  "request_id number_text v = (case v of JsString s \<Rightarrow> Some (StringId s) | JsNumber n \<Rightarrow> Some (NumberId (number_text n)) | _ \<Rightarrow> None)"

definition messages_of :: "js_value \<Rightarrow> js_value list" where
  "messages_of body = (case body of JsArray ms \<Rightarrow> ms | _ \<Rightarrow> [body])"

definition extractMcpCancellationNotifications :: "(js_number \<Rightarrow> string) \<Rightarrow> js_value \<Rightarrow> (McpRequestId \<times> string option) list" where
  "extractMcpCancellationNotifications number_text body =
    List.map_filter (\<lambda>message.
      if \<not> is_object message \<or> member message ''method'' \<noteq> JsString ''notifications/cancelled'' then None
      else let params = member message ''params''
        in if \<not> is_object params then None
           else map_option (\<lambda>i. (i, case member params ''reason'' of JsString s \<Rightarrow> Some (take 256 s) | _ \<Rightarrow> None))
             (request_id number_text (member params ''requestId''))) (messages_of body)"

definition extractMcpToolCallRequestIds :: "(js_number \<Rightarrow> string) \<Rightarrow> js_value \<Rightarrow> McpRequestId list" where
  "extractMcpToolCallRequestIds number_text body =
    Set_from (List.map_filter (\<lambda>message.
      if \<not> is_object message \<or> member message ''method'' \<noteq> JsString ''tools/call'' then None
      else request_id number_text (member message ''id'')) (messages_of body))"

section \<open>The registry\<close>

record PendingOperation =
  po_name :: nat
  po_cancelled :: bool
  po_reason :: "string option"

text \<open>A signal that is aborted has the reason it was aborted with, if one was given.\<close>

datatype signal_state = Quiet | Aborted "string option"

record operations =
  mo_active :: "(string, string) jsMap"
  mo_targets :: "(string, string list) jsMap"
  mo_pending :: "(string, (string, PendingOperation) jsMap) jsMap"
  mo_signals :: "string \<Rightarrow> signal_state"

definition new_operations :: operations where
  "new_operations = \<lparr>mo_active = [], mo_targets = [], mo_pending = [], mo_signals = \<lambda>_. Quiet\<rparr>"

definition pending_at :: "operations \<Rightarrow> string \<Rightarrow> (string, PendingOperation) jsMap" where
  "pending_at s key = (case Map_get (mo_pending s) key of None \<Rightarrow> [] | Some m \<Rightarrow> m)"

definition targets_at :: "operations \<Rightarrow> string \<Rightarrow> string list" where
  "targets_at s key = (case Map_get (mo_targets s) key of None \<Rightarrow> [] | Some ts \<Rightarrow> ts)"

text \<open>The inner maps of a key, removed when they become empty.\<close>

definition put_pending :: "string \<Rightarrow> (string, PendingOperation) jsMap \<Rightarrow> operations \<Rightarrow> operations" where
  "put_pending key m s = s\<lparr>mo_pending := (if m = [] then Map_delete (mo_pending s) key else Map_set (mo_pending s) key m)\<rparr>"

definition put_targets :: "string \<Rightarrow> string list \<Rightarrow> operations \<Rightarrow> operations" where
  "put_targets key ts s = s\<lparr>mo_targets := (if ts = [] then Map_delete (mo_targets s) key else Map_set (mo_targets s) key ts)\<rparr>"

definition registerPending :: "string \<Rightarrow> string \<Rightarrow> nat \<Rightarrow> operations \<Rightarrow> operations" where
  "registerPending key lifecycleId name s =
    put_pending key (Map_set (pending_at s key) lifecycleId \<lparr>po_name = name, po_cancelled = False, po_reason = None\<rparr>) s"

definition releasePending :: "string \<Rightarrow> string \<Rightarrow> nat \<Rightarrow> operations \<Rightarrow> operations" where
  "releasePending key lifecycleId name s =
    (if map_option po_name (Map_get (pending_at s key) lifecycleId) \<noteq> Some name then s
     else put_pending key (Map_delete (pending_at s key) lifecycleId) s)"

text \<open>\<open>abort\<close> on a signal that is aborted changes nothing.\<close>

definition abort_signal :: "string option \<Rightarrow> string \<Rightarrow> operations \<Rightarrow> operations" where
  "abort_signal reason token s =
    (if mo_signals s token = Quiet then s\<lparr>mo_signals := (mo_signals s)(token := Aborted reason)\<rparr> else s)"

definition begin_operation :: "string \<Rightarrow> string \<Rightarrow> string option \<Rightarrow> string \<Rightarrow> operations \<Rightarrow> unit result \<times> operations" where
  "begin_operation key cancellationKey lifecycleId token s =
    (if Map_has (mo_active s) key then (Inl (AppError RELAY_PROTOCOL_ERROR), s)
     else
       let s1 = s\<lparr>mo_active := Map_set (mo_active s) key token, mo_signals := (mo_signals s)(token := Quiet)\<rparr>;
           s2 = put_targets cancellationKey (Set_add (targets_at s1 cancellationKey) token) s1
       in case lifecycleId of
            None \<Rightarrow> (Inr (), s2)
          | Some l \<Rightarrow>
              (case Map_get (pending_at s2 cancellationKey) l of
                 None \<Rightarrow> (Inr (), s2)
               | Some p \<Rightarrow>
                   let s3 = put_pending cancellationKey (Map_delete (pending_at s2 cancellationKey) l) s2
                   in (Inr (), if po_cancelled p then abort_signal (po_reason p) token s3 else s3)))"

definition releaseOperation :: "string \<Rightarrow> string \<Rightarrow> string \<Rightarrow> operations \<Rightarrow> operations" where
  "releaseOperation key cancellationKey token s =
    (if Map_get (mo_active s) key \<noteq> Some token then s
     else let s1 = s\<lparr>mo_active := Map_delete (mo_active s) key\<rparr>
       in case Map_get (mo_targets s1) cancellationKey of
            None \<Rightarrow> s1
          | Some ts \<Rightarrow> put_targets cancellationKey (removeAll token ts) s1)"

definition cancel_operation :: "string \<Rightarrow> string option \<Rightarrow> operations \<Rightarrow> bool \<times> operations" where
  "cancel_operation key reason s =
    (let ts = targets_at s key;
         s1 = fold (abort_signal reason) ts s;
         ps = pending_at s1 key;
         s2 = (if ps = [] then s1
               else s1\<lparr>mo_pending := Map_set (mo_pending s1) key (map (\<lambda>(l, p). (l, p\<lparr>po_cancelled := True, po_reason := reason\<rparr>)) ps)\<rparr>)
     in (ts \<noteq> [] \<or> ps \<noteq> [], s2))"

definition clear_operations :: "operations \<Rightarrow> operations" where
  "clear_operations s =
    (let s1 = fold (abort_signal (Some ''gateway shutdown'')) (Map_values (mo_active s)) s
     in s1\<lparr>mo_active := [], mo_targets := [], mo_pending := []\<rparr>)"

section \<open>Sessions\<close>

text \<open>
  The states of a registry with all operations that ever began: token, key and cancellation key. Tokens are fresh, and the release of an operation can be
  called any number of times.
\<close>

type_synonym begun = "(string \<times> string \<times> string) list"

inductive ops_reach :: "operations \<Rightarrow> begun \<Rightarrow> bool" where
  Start: "ops_reach new_operations []"
| Register: "ops_reach s B \<Longrightarrow> ops_reach (registerPending key l name s) B"
| Unregister: "ops_reach s B \<Longrightarrow> ops_reach (releasePending key l name s) B"
| Begin: "ops_reach s B \<Longrightarrow> t \<notin> fst ` set B \<Longrightarrow> begin_operation key c l t s = (Inr (), s') \<Longrightarrow> ops_reach s' ((t, key, c) # B)"
| Release: "ops_reach s B \<Longrightarrow> (t, key, c) \<in> set B \<Longrightarrow> ops_reach (releaseOperation key c t s) B"
| Cancel: "ops_reach s B \<Longrightarrow> ops_reach (snd (cancel_operation key reason s)) B"
| Clear: "ops_reach s B \<Longrightarrow> ops_reach (clear_operations s) B"

definition live :: "operations \<Rightarrow> begun \<Rightarrow> string \<Rightarrow> string \<Rightarrow> bool" where
  "live s B c t = (\<exists>key. (t, key, c) \<in> set B \<and> Map_get (mo_active s) key = Some t)"

definition ops_ok :: "operations \<Rightarrow> begun \<Rightarrow> bool" where
  "ops_ok s B = (distinct (map fst B) \<and> (\<forall>key t. Map_get (mo_active s) key = Some t \<longrightarrow> t \<in> fst ` set B) \<and>
     (\<forall>c t. t \<in> set (targets_at s c) \<longleftrightarrow> live s B c t))"

lemma targets_put: "targets_at (put_targets key ts s) c = (if c = key then ts else targets_at s c)"
  by (simp add: targets_at_def put_targets_def map_model)

lemma pending_put: "pending_at (put_pending key m s) c = (if c = key then m else pending_at s c)"
  by (simp add: pending_at_def put_pending_def map_model)

lemma ops_ok_cong: "mo_active s = mo_active s' \<Longrightarrow> mo_targets s = mo_targets s' \<Longrightarrow> ops_ok s B \<longleftrightarrow> ops_ok s' B"
  by (simp add: ops_ok_def targets_at_def live_def)

lemma put_pending_same [simp]:
  "mo_active (put_pending key m s) = mo_active s" "mo_targets (put_pending key m s) = mo_targets s" "mo_signals (put_pending key m s) = mo_signals s"
  by (simp_all add: put_pending_def)

lemma abort_same [simp]:
  "mo_active (abort_signal r t s) = mo_active s" "mo_targets (abort_signal r t s) = mo_targets s" "mo_pending (abort_signal r t s) = mo_pending s"
  by (simp_all add: abort_signal_def)

lemma aborts_same [simp]:
  "mo_active (fold (abort_signal r) ts s) = mo_active s" "mo_targets (fold (abort_signal r) ts s) = mo_targets s"
  "mo_pending (fold (abort_signal r) ts s) = mo_pending s"
  by (induction ts arbitrary: s) simp_all

lemma aborts_signals:
  "mo_signals (fold (abort_signal r) ts s) t = (if t \<in> set ts \<and> mo_signals s t = Quiet then Aborted r else mo_signals s t)"
  by (induction ts arbitrary: s) (auto simp: abort_signal_def)

lemma begin_state:
  assumes "begin_operation key c l t s = (Inr (), s')"
  shows "\<not> Map_has (mo_active s) key" "mo_active s' = Map_set (mo_active s) key t"
    "targets_at s' d = (if d = c then Set_add (targets_at s c) t else targets_at s d)"
proof -
  let ?s1 = "s\<lparr>mo_active := Map_set (mo_active s) key t, mo_signals := (mo_signals s)(t := Quiet)\<rparr>"
  let ?s2 = "put_targets c (Set_add (targets_at ?s1 c) t) ?s1"
  have s': "mo_active s' = mo_active ?s2 \<and> mo_targets s' = mo_targets ?s2"
    using assms by (auto simp: begin_operation_def Let_def split: if_splits option.splits)
  show "\<not> Map_has (mo_active s) key" using assms by (auto simp: begin_operation_def split: if_splits)
  show "mo_active s' = Map_set (mo_active s) key t" using s' by (simp add: put_targets_def)
  have "targets_at s' d = targets_at ?s2 d" using s' by (simp add: targets_at_def)
  also have "\<dots> = (if d = c then Set_add (targets_at s c) t else targets_at s d)" unfolding targets_put by (simp add: targets_at_def)
  finally show "targets_at s' d = (if d = c then Set_add (targets_at s c) t else targets_at s d)" .
qed

lemma begin_ok:
  assumes "ops_ok s B" "t \<notin> fst ` set B" "begin_operation key c l t s = (Inr (), s')"
  shows "ops_ok s' ((t, key, c) # B)"
proof -
  note st = begin_state [OF assms(3)]
  have free: "Map_get (mo_active s) key = None" using st(1) by (simp add: Map_has_get)
  have "live s' ((t, key, c) # B) d u \<longleftrightarrow> live s B d u \<or> (u = t \<and> d = c)" for d u
  proof (cases "u = t")
    case True
    then have "\<not> live s B d u" using assms(2) by (force simp: live_def)
    moreover have "(t, k, d) \<notin> set B" for k using assms(2) by force
    ultimately show ?thesis using True by (auto simp: live_def st(2) map_model)
  next
    case False
    then have "Map_get (Map_set (mo_active s) key t) k = Some u \<longleftrightarrow> Map_get (mo_active s) k = Some u" for k
      using free by (auto simp: map_model)
    with False show ?thesis unfolding live_def st(2) by auto
  qed
  then show ?thesis using assms(1,2) unfolding ops_ok_def st(2) st(3) by (auto simp: map_model)
qed

lemma release_ok:
  assumes "ops_ok s B" "(t, key, c) \<in> set B"
  shows "ops_ok (releaseOperation key c t s) B"
proof (cases "Map_get (mo_active s) key = Some t")
  case True
  let ?r = "releaseOperation key c t s"
  have active: "mo_active ?r = Map_delete (mo_active s) key"
    using True by (simp add: releaseOperation_def Let_def put_targets_def split: option.split)
  have targets: "targets_at ?r d = (if d = c then removeAll t (targets_at s c) else targets_at s d)" for d
  proof (cases "Map_get (mo_targets s) c")
    case None
    then show ?thesis using True by (simp add: releaseOperation_def Let_def targets_at_def)
  next
    case (Some ts)
    then have "?r = put_targets c (removeAll t ts) (s\<lparr>mo_active := Map_delete (mo_active s) key\<rparr>)" using True by (simp add: releaseOperation_def Let_def)
    moreover have "targets_at (s\<lparr>mo_active := x\<rparr>) d = targets_at s d" for x by (simp add: targets_at_def)
    moreover have "targets_at s c = ts" using Some by (simp add: targets_at_def)
    ultimately show ?thesis by (simp add: targets_put)
  qed
  have only: "k = key \<and> d = c" if "(t, k, d) \<in> set B" for k d
  proof -
    have dist: "distinct (map fst B)" using assms(1) by (simp add: ops_ok_def)
    from map_of_is_SomeI [OF dist that] map_of_is_SomeI [OF dist assms(2)] show ?thesis by simp
  qed
  have "live ?r B d u \<longleftrightarrow> live s B d u \<and> u \<noteq> t" for d u
  proof (cases "u = t")
    case same: True
    then show ?thesis using only unfolding live_def active by (auto simp: map_model)
  next
    case False
    then have "Map_get (Map_delete (mo_active s) key) k = Some u \<longleftrightarrow> Map_get (mo_active s) k = Some u" for k using True by (auto simp: map_model)
    with False show ?thesis unfolding live_def active by simp
  qed
  then show ?thesis using assms(1) only unfolding ops_ok_def targets unfolding active by (auto simp: map_model live_def split: if_splits)
next
  case False
  then show ?thesis using assms(1) by (simp add: releaseOperation_def)
qed

lemma reach_ok: "ops_reach s B \<Longrightarrow> ops_ok s B"
proof (induction rule: ops_reach.induct)
  case Start
  show ?case by (simp add: ops_ok_def new_operations_def targets_at_def live_def)
next
  case (Register s B key l name)
  then show ?case using ops_ok_cong [of s "registerPending key l name s" B] by (simp add: registerPending_def)
next
  case (Unregister s B key l name)
  then show ?case using ops_ok_cong [of s "releasePending key l name s" B] by (simp add: releasePending_def)
next
  case (Cancel s B key reason)
  then show ?case using ops_ok_cong [of s "snd (cancel_operation key reason s)" B] by (simp add: cancel_operation_def Let_def)
next
  case (Clear s B)
  then show ?case by (simp add: ops_ok_def clear_operations_def Let_def targets_at_def live_def)
qed (simp_all add: begin_ok release_ok)

text \<open>
  C40. A cancellation reaches exactly the operations that began under its key and are not released: they are aborted, with its reason unless they were before, and the signals of all others stay as they are. Requests
  that are only announced are marked, and an announced request that was cancelled is aborted the moment it begins. The answer says whether there was any of them.
\<close>

theorem cancellation_reaches:
  assumes "ops_reach s B" "cancel_operation key reason s = (matched, s')"
  shows "(\<forall>t. mo_signals s' t = (if live s B key t \<and> mo_signals s t = Quiet then Aborted reason else mo_signals s t)) \<and>
    (matched \<longleftrightarrow> (\<exists>t. live s B key t) \<or> pending_at s key \<noteq> []) \<and>
    (\<forall>l k u s''. Map_has (pending_at s key) l \<and> begin_operation k key (Some l) u s' = (Inr (), s'') \<longrightarrow> mo_signals s'' u = Aborted reason)"
proof -
  from reach_ok [OF assms(1)] have targets: "t \<in> set (targets_at s key) \<longleftrightarrow> live s B key t" for t by (simp add: ops_ok_def)
  let ?s1 = "fold (abort_signal reason) (targets_at s key) s"
  have pend: "pending_at ?s1 key = pending_at s key" by (simp add: pending_at_def)
  have signals: "mo_signals s' t = (if live s B key t \<and> mo_signals s t = Quiet then Aborted reason else mo_signals s t)" for t
    using assms(2) aborts_signals [of reason "targets_at s key" s t] targets [of t] by (auto simp: cancel_operation_def Let_def split: if_splits)
  have answer: "matched \<longleftrightarrow> (\<exists>t. live s B key t) \<or> pending_at s key \<noteq> []"
  proof -
    have "targets_at s key \<noteq> [] \<longleftrightarrow> (\<exists>t. t \<in> set (targets_at s key))" by (cases "targets_at s key") auto
    then show ?thesis using assms(2) targets pend by (auto simp: cancel_operation_def Let_def)
  qed
  have began: "mo_signals s'' u = Aborted reason"
    if has: "Map_has (pending_at s key) l" and began: "begin_operation k key (Some l) u s' = (Inr (), s'')" for l k u s''
  proof -
    obtain p where p: "Map_get (pending_at s key) l = Some p" using has by (auto simp: Map_has_get)
    let ?mark = "\<lambda>p :: PendingOperation. p\<lparr>po_cancelled := True, po_reason := reason\<rparr>"
    have "pending_at s key \<noteq> []" using p by (auto simp: Map_get_def)
    then have "pending_at s' key = map (\<lambda>(l, p). (l, ?mark p)) (pending_at s key)"
      using assms(2) pend by (auto simp: cancel_operation_def Let_def pending_at_def map_model)
    then have "Map_get (pending_at s' key) l = Some (?mark p)" using p by (simp add: Map_get_def map_of_map)
    moreover have "pending_at (put_targets c ts (r\<lparr>mo_active := a, mo_signals := x\<rparr>)) key = pending_at r key" for c ts r a x
      by (simp add: pending_at_def put_targets_def)
    ultimately show ?thesis
      using began by (auto simp: begin_operation_def Let_def abort_signal_def put_targets_def split: if_splits)
  qed
  show ?thesis using signals answer began by blast
qed

theorem cancellation_reaches_witness:
  "\<exists>s s'. begin_operation ''k'' ''c'' None ''t'' new_operations = (Inr (), s) \<and> cancel_operation ''c'' (Some ''stop'') s = (True, s') \<and>
     mo_signals s' ''t'' = Aborted (Some ''stop'') \<and> mo_signals s' ''u'' = Quiet"
proof -
  let ?s = "snd (begin_operation ''k'' ''c'' None ''t'' new_operations)"
  have began: "begin_operation ''k'' ''c'' None ''t'' new_operations = (Inr (), ?s)"
    by (simp add: begin_operation_def new_operations_def Map_has_def Let_def)
  from Begin [OF Start _ this] have reach: "ops_reach ?s [(''t'', ''k'', ''c'')]" by simp
  have fields: "mo_active ?s = [(''k'', ''t'')]" "mo_signals ?s = (\<lambda>_. Quiet)"
    by (simp_all add: fun_eq_iff begin_operation_def new_operations_def Map_has_def Map_set_def Let_def put_targets_def)
  have live: "live ?s [(''t'', ''k'', ''c'')] ''c'' x \<longleftrightarrow> x = ''t''" for x by (auto simp: live_def fields Map_get_def)
  obtain m s' where c: "cancel_operation ''c'' (Some ''stop'') ?s = (m, s')" by fastforce
  from cancellation_reaches [OF reach c] have "m" "mo_signals s' ''t'' = Aborted (Some ''stop'')" "mo_signals s' ''u'' = Quiet"
    by (auto simp: live fields)
  with began c show ?thesis by (intro exI [of _ ?s] exI [of _ s']) simp
qed

end
