(* ===== verification/Spec2Isabelle.thy ===== *)
theory Spec2Isabelle
  imports TypedConfirmation BrowserTask TabRegistry SessionRegistry SiteGrant Idempotency OperationQueue LiveFrame
    CommandAnalysis CampaignSupervisor CampaignLease CampaignClaims SourceControlMutation PolicyMerge PersonalAuthorization
    TabReuse NavigationCache WorkspaceRegistry Deadlines TaskInbox SnapshotState AuditQueue McpOperations
begin

text \<open>
  A verification library for the MCP access stack: a private service that gives an assistant
  controlled access to workspaces, shells and a browser. An edge worker relays requests to a connector on
  the user's machine; there the workspace agent (\<open>services/workspace-agent\<close>) runs commands, source control and delegated campaigns
  under a policy, and the browser worker (\<open>services/browser-worker\<close>) drives a browser for the tasks of the callers. The contracts
  they share are in \<open>packages/mcp-core\<close>. The library models the parts that decide: who may do what, for how long, in which order, and
  what survives a restart. Every operation is a total function, or a step of a transition system where calls interleave.

  \<^bold>\<open>Conventions\<close> (theory \<open>Prelude\<close>). A \<open>Map\<close> is the list of its entries in insertion order, and the locale \<open>keyed_store\<close>, interpreted as
  \<open>jsm\<close>, states what the components rely on of it. A thrown error is the left injection of a sum; an operation on an object also
  returns the object when it throws, since JavaScript does not undo writes. Every reading of the clock, random number and answer of the
  file system is an argument of the operation that uses it. A \<open>char\<close> stands for a code unit up to 255. Numbers are unbounded
  integers; where the code checks \<open>Number.isSafeInteger\<close> the bound \<open>2 ^ 53\<close> is written out. Text that is parsed from a file is
  given by its parsed value. The locale \<open>transition_system\<close> carries invariants to all reachable states.

  \<^bold>\<open>Parameters\<close>. SHA-256, the URL parser, date parsing, \<open>localeCompare\<close>, base64, the joining of paths and the redaction of secrets are parameters;
  where a property relies on one of them, what it relies on is a hypothesis of the property (for SHA-256, that a digest has 64
  hexadecimal digits, or that the digests of the strings at hand, such as the keys in use, do not collide; never that it is injective), and a witness shows a function for which it holds.

  \<^bold>\<open>Confirmations\<close>. \<open>Confirmation\<close> is \<open>shell/confirmation.ts\<close>: \<open>createConfirmation\<close> and \<open>consume\<close> of one-time command confirmations. \<open>TypedConfirmation\<close> is the same for
  source-control operations (\<open>mcp-core/src/typed-confirmation.ts\<close>), and \<open>SiteGrant\<close> (\<open>domain/browser-site-grant-registry.ts\<close>) exchanges confirmations for
  grants to private sites. \<open>BrowserConfirmation\<close> (\<open>mcp-core/src/browser-confirmation.ts\<close>) confirms browser actions. The four share the locale \<open>one_shot\<close>, interpreted as \<open>cmd\<close>, \<open>typed\<close>, \<open>site\<close> and
  \<open>browser\<close>: a confirmation is redeemed at most as often as it was issued, and only for its binding and before it expires. The
  locale \<open>revocable\<close> extends it by operations that drop confirmations.

  \<^bold>\<open>Browser tasks, tabs and sessions\<close>. \<open>BrowserTask\<close> is \<open>domain/browser-task-registry.ts\<close>: tasks with owners, leases, tabs and a life cycle. Its lemmas show
  that tabs are exclusive, that owners are isolated from each other, that finished tasks stay finished, and how leases are counted.
  \<open>TabRegistry\<close> (\<open>domain/tab-registry.ts\<close>) protects the user's own tabs. \<open>SessionModel\<close> holds the session schemas and the operation modes.
  \<open>SessionRegistry\<close> (\<open>domain/session-registry.ts\<close>) is the persisted registry: whatever version is loaded, the result is
  consistent and at rest; saving and loading round-trip; saving is all or nothing. \<open>renameWithRetry\<close> has the fuel of its six
  attempts, the bound in the code.

  \<open>TabReuse\<close> (\<open>domain/browser-tab-reuse.ts\<close>) chooses the tab that is reused or recycled: the first in the order of the ranks, and never one of the
  user's. \<open>NavigationCache\<close> (\<open>domain/navigation-cache.ts\<close>) remembers addresses by purpose: it stays within its bound, holds no address with
  credentials or a query, and is loaded as it was saved.

  \<^bold>\<open>The user's own browser\<close>. \<open>BrowserInteraction\<close> is \<open>mcp-core/src/browser-interaction.ts\<close>: key sequences, the search among elements, the references in the text of a
  snapshot, and the words that make a control or a page dangerous; its regular expressions are functions on lists, and the expressions of words are shown to
  mean that a word stands free in the text. \<open>PersonalActions\<close> is \<open>companion/personal-browser-action-policy.ts\<close>: a guard per action looks up the page and the element and
  works out a plan, what to return and which binding to authorise. \<open>PersonalAuthorization\<close> shows that an action is let through only by an approval
  of the site or by a one-use confirmation of exactly this action, that a refused sequence wastes no confirmation, and that
  the memory of the policy refines the record of the last snapshots.

  \<^bold>\<open>The companion and the gateway\<close> (\<open>services/mcp-gateway/src\<close>). \<open>TaskInbox\<close> (\<open>companion/personal-browser-task-inbox.ts\<close>) holds the messages of the user until the agent takes them: each is delivered once and no
  waiting call misses one. \<open>SnapshotState\<close> (\<open>companion/personal-browser-snapshot-state.ts\<close>) sends pages as differences of lines, from which a reader of all answers has
  the page. \<open>AuditQueue\<close> (\<open>companion/cloud-audit-queue.ts\<close>) delivers audit entries in batches and accounts for every one of them. \<open>McpOperations\<close>
  (\<open>mcp/operation-registry.ts\<close>) cancels requests that run or are announced, and no others.

  \<^bold>\<open>Private sites\<close>. \<open>SitePolicy\<close> is \<open>domain/authorized-site-policy.ts\<close>: the schemas of policies, the classification of URLs and the requests a policy
  allows. \<open>SiteGrant\<close> shows that access to a private site goes back to a grant for the same task and owner that is still valid.

  \<^bold>\<open>Running operations\<close>. \<open>Idempotency\<close> (\<open>services/browser-idempotency-registry.ts\<close>) joins runs with one key. \<open>OperationQueue\<close>
  (\<open>services/browser-operation-queue.ts\<close>) is a transition system, split at the waits of \<open>run\<close>: operations of one key run one at a
  time in the order of their calls, and a free slot does not stay unclaimed while an operation waits. \<open>LiveFrame\<close>
  (\<open>services/browser-live-frame-mailbox.ts\<close>) has the reading of JPEG dimensions, a loop over the bytes with its termination proof, and the mailbox of frames.

  \<^bold>\<open>Command analysis\<close>. \<open>CommandAnalysis\<close> is \<open>shell/command-analysis.ts\<close>: the scanners for PowerShell, cmd and the POSIX shells. A quoted argument
  vector is read back as it was; a line without quotes avoids the shell exactly when it has no metacharacter.

  \<^bold>\<open>Delegated campaigns\<close>. A campaign is a plan of steps with dependencies that the agent works through, across restarts. \<open>Json\<close> is the text of \<open>JSON.stringify\<close>,
  shown to be injective. \<open>CampaignPlan\<close> and \<open>CampaignLedger\<close> are \<open>campaign/delegated-campaign-ledger.ts\<close>: the checks of a plan with the
  depth-first search for cycles (terminating by the number of steps not on the path), the validated record on file, and
  \<open>create\<close>, \<open>claimNext\<close> and \<open>transition\<close>. The ledger refines an abstract campaign, a map from steps to states with three kinds of step
  (\<open>campaign_step\<close>), whose invariant is carried back to the records by \<open>plan_run\<close>. \<open>CampaignCoordinator\<close>
  (\<open>campaign/delegated-campaign-coordinator.ts\<close>) is the bounded run; its capabilities are parameters that may fail or answer
  anything. No step is dispatched twice over any number of runs, and a campaign that meets no obstacle completes, since its
  plan has no cycle. \<open>CampaignSupervisor\<close> (\<open>campaign/delegated-campaign-session-runner.ts\<close> and \<open>campaign/delegated-campaign-supervisor.ts\<close>) runs bounded sessions of passes over the
  coordinator and wakes up to sixteen campaigns in turn, with back-off: a run touches the file of its campaign only (\<open>confined\<close>), so dispatching at most once
  holds for every campaign of a supervisor, its report agrees with the ledgers, delays stay within their bounds, and smooth campaigns
  complete. \<open>CampaignLease\<close> (\<open>campaign/campaign-run-lease.ts\<close>) is the lock around all this, as a transition system of processes that
  may crash at any point: at most one call runs in executions in which nobody releases the lock between a recoverer's reading of the lock file and its checks, and two calls
  can run at once in others. \<open>CampaignClaims\<close>
  (\<open>campaign/campaign-resource-claims.ts\<close>) reserves a workspace for one campaign at a time. The ledger and the claims take the fate of the
  lock in each call as an argument (\<open>under_lease\<close>): refused, held, or found lost after the effects. A record whose revision would
  pass \<open>2 ^ 53\<close> can no longer be read, so the properties over many calls assume room for the revisions they make: at most three in an
  iteration of the coordinator, 384 in a run of at most 128 iterations and 393216 in a supervision of at most 1024 wakes.

  \<^bold>\<open>Mutation receipts\<close>. \<open>MutationReceipts\<close> (\<open>mcp-core/src/mutation-receipts.ts\<close>) has the receipts that make a source-control mutation run at most once per
  idempotency key: their schemas, the filter that keeps secrets out of stored results, and the transitions. The locale \<open>receipt_store\<close> is the
  interface of a store; the store in memory is its instance \<open>memory\<close>, and the store of \<open>FileReceiptStore\<close>
  (\<open>source-control/file-mutation-receipt-store.ts\<close>), for a set of trimmed keys whose files differ, its instance \<open>disk\<close>. Both implement one specification on a function from keys
  to receipts, so the files refine the memory.

  \<^bold>\<open>Values as text\<close>. \<open>JsValue\<close> has the JavaScript values an argument may hold (numbers as a mantissa and an exponent, or not finite) and the
  string functions the policies share. \<open>NumberText\<close> is the text of a number (\<open>Number::toString\<close>), shown to be injective. \<open>CanonicalJson\<close>
  (\<open>mcp-core/src/browser-idempotency.ts\<close>) sorts the properties of objects and makes the keys of browser operations, and \<open>ArgumentDigest\<close> (the second half of \<open>mcp-core/src/typed-confirmation.ts\<close>)
  refuses arguments with a secret and makes the digest a confirmation is bound to. Equal texts come from equal values, up to the order of keys, so a key or a digest binds the call it was made for.

  \<^bold>\<open>Source-control mutations\<close>. \<open>SourceControlMutation\<close> is \<open>mcp-core/src/source-control-policy.ts\<close> and \<open>executeSourceControlMutation\<close> of \<open>local-agent.ts\<close>: the capability checks, the protected
  branches, the confirmation and the receipt around the call of the remote system, as a process whose steps interleave with those of other calls, on one registry of confirmations and one store of receipts per workspace. Its
  locale \<open>mutation_store\<close> extends \<open>receipt_store\<close> and is interpreted on both stores (\<open>mutations_in_memory\<close>, \<open>mutations_on_disk\<close>): per workspace and key the remote
  system is called at most once, what it is called for was authorised and, where needed, confirmed, and after a success later calls replay its result.

  \<^bold>\<open>Workspace policies\<close>. \<open>WorkspacePolicy\<close> has the records and schemas of the policies of a workspace, \<open>PolicyMerge\<close> their merging
  (\<open>policy-merge.ts\<close>), the policy of project writes (\<open>project-write-policy.ts\<close>) and the catalogue that watches the policy file (\<open>workspace-catalog.ts\<close>): what a merged
  policy exposes of the paths, and which changes are refused.

  \<^bold>\<open>Files of a workspace\<close>. \<open>PathSecurity\<close> is \<open>path-security.ts\<close>: the normalisation of relative paths, the containment of paths and the checks before a file is read or
  written. The \<open>path\<close> module of POSIX is defined by the segments of paths, and the properties are about POSIX hosts: the textual test of containment is the
  prefix relation on segments, and a path that is let through stays below its roots with its links resolved. Two gaps in the checks for writing are shown on concrete file systems
  (\<open>write_target_gaps\<close>). \<open>WorkspaceRegistry\<close> (\<open>workspace-registry.ts\<close>) resolves the workspaces of a policy; with it the checks for reading are shown to keep to the policy
  from its file to the path, mandatory globs included.

  \<^bold>\<open>Deadlines\<close>. \<open>Deadlines\<close> (\<open>mcp-core/src/timeout-policy.ts\<close> and \<open>relay-retry-policy.ts\<close>) has the deadline that each layer derives from the one it was given; no layer extends it.

  \<^bold>\<open>Not modelled\<close>. The edge and HTTP gateways, the update worker and the release orchestrator are input and output around remote systems; the
  Playwright driver, the browser runtime, child processes, Git and GitHub behave as code outside this repository decides; the tool schemas
  and the generated manifest have almost no logic. Of the parts with logic of their own these remain: the enrolment
  catalogue of campaigns, the risk tables of shell commands, the redaction of diagnostics and background tasks. In the modelled parts, messages and details of errors are left out unless they tell branches apart, and the
  parse of a file that is no object of the expected shape is one error.
\<close>

end
